(* ===== verification/Prelude.thy ===== *)
theory Prelude
  imports Main "HOL-Library.Word" "HOL-Library.Multiset"
begin

text \<open>
  What every component theory shares: the outcomes of kernel code, unsigned machine
  arithmetic on natural numbers, and singly linked lists in an explicit store.

  \<^item> A C routine that may call \<open>panic\<close>, touch memory outside an array or follow a null
    pointer, or loop for ever is modelled by a function into \<open>'a res\<close>: \<open>Inl\<close> carries the
    fault, \<open>Inr\<close> the result.  A theorem that ends in \<open>Inr\<close> therefore also says that none
    of these happened.
  \<^item> An unsigned C integer of 16 or 32 bits is a natural number, and every place where C
    reduces a result modulo the width is written \<open>u16\<close> or \<open>u32\<close>.
  \<^item> \<open>chain nx p xs\<close> says that following the link field \<open>nx\<close> from the pointer \<open>p\<close> visits
    exactly the nodes \<open>xs\<close> and ends at the null pointer.
\<close>

section \<open>Outcomes\<close>

datatype fault =
    Panic string  \<comment> \<open>\<open>panic\<close> was called with this message\<close>
  | Wild          \<comment> \<open>access through a null pointer or outside an array\<close>
  | Hang          \<comment> \<open>a loop ran past every list or table it can be walking\<close>

type_synonym 'a res = "fault + 'a"

definition andthen :: "'a res \<Rightarrow> ('a \<Rightarrow> 'b res) \<Rightarrow> 'b res" where
  "andthen m f = (case m of Inl e \<Rightarrow> Inl e | Inr x \<Rightarrow> f x)"

lemma andthen_Inl [simp]: "andthen (Inl e) f = Inl e"
  by (simp add: andthen_def)

lemma andthen_Inr [simp]: "andthen (Inr x) f = f x"
  by (simp add: andthen_def)

lemma andthen_eq_Inr: "andthen m f = Inr y \<longleftrightarrow> (\<exists>x. m = Inr x \<and> f x = Inr y)"
  by (cases m) auto

lemma andthen_cong [fundef_cong]:
  "m = m' \<Longrightarrow> (\<And>x. m' = Inr x \<Longrightarrow> f x = g x) \<Longrightarrow> andthen m f = andthen m' g"
  by (cases m') auto

section \<open>Unsigned arithmetic\<close>

definition u16 :: "nat \<Rightarrow> nat" where
  "u16 n = n mod 65536"

definition u32 :: "nat \<Rightarrow> nat" where
  "u32 n = n mod 4294967296"

text \<open>Unsigned 32-bit subtraction, which wraps below zero.\<close>

definition usub32 :: "nat \<Rightarrow> nat \<Rightarrow> nat" where
  "usub32 a b = u32 (a + (4294967296 - u32 b))"

lemma u16_code [code]: "u16 n = nat (int n mod 65536)"
  by (simp add: u16_def nat_mod_distrib)

lemma u16_id [simp]: "n < 65536 \<Longrightarrow> u16 n = n"
  by (simp add: u16_def)

lemma u32_id [simp]: "n < 4294967296 \<Longrightarrow> u32 n = n"
  by (simp add: u32_def)

lemma u16_less [simp]: "u16 n < 65536"
  by (simp add: u16_def)

lemma u32_less [simp]: "u32 n < 4294967296"
  by (simp add: u32_def)

lemma usub32_id: "b \<le> a \<Longrightarrow> a < 4294967296 \<Longrightarrow> usub32 a b = a - b"
proof -
  assume "b \<le> a" and "a < 4294967296"
  then have "a + (4294967296 - u32 b) = (a - b) + 4294967296" by simp
  then show "usub32 a b = a - b"
    using \<open>a < 4294967296\<close> by (simp add: usub32_def u32_def)
qed

text \<open>Complement of a 32-bit unsigned value.\<close>

definition not32 :: "nat \<Rightarrow> nat" where
  "not32 n = 4294967295 - u32 n"

text \<open>Masking with a power of two minus one, and with its complement.\<close>

lemma and_pow2_minus_1: "and x (2 ^ k - 1) = x mod (2 ^ k :: nat)"
proof -
  have "and x (mask k) = x mod 2 ^ k" by (simp add: take_bit_eq_mod flip: take_bit_eq_mask)
  then show ?thesis by (simp only: mask_eq_exp_minus_1)
qed

lemma pow2_and_pred: "and (2 ^ k) (2 ^ k - 1) = (0 :: nat)"
  using and_pow2_minus_1[of "2 ^ k" k] by simp

lemma not32_mask:
  assumes "k \<le> 32"
  shows "not32 (2 ^ k - 1) = push_bit k (mask (32 - k))"
proof -
  have "(2::nat) ^ k \<le> 2 ^ 32" using assms by (intro power_increasing) auto
  then have "not32 (2 ^ k - 1) = 2 ^ 32 - 2 ^ k" by (simp add: not32_def)
  also have "\<dots> = 2 ^ k * (2 ^ (32 - k) - 1)"
    using assms by (simp add: diff_mult_distrib2 flip: power_add)
  finally show ?thesis by (simp add: push_bit_eq_mult mask_eq_exp_minus_1)
qed

lemma round_down_pow2:
  assumes "x < 4294967296" and "k \<le> 32"
  shows "and x (not32 (2 ^ k - 1)) = x div 2 ^ k * 2 ^ k"
proof -
  have "and x (push_bit k (mask (32 - k))) = push_bit k (drop_bit k x)"
  proof (rule bit_eqI)
    fix n
    have "bit x n \<Longrightarrow> n < 32"
    proof (rule ccontr)
      assume "bit x n" and "\<not> n < 32"
      then have "(2::nat) ^ 32 \<le> 2 ^ n" by (intro power_increasing) auto
      then have "x div 2 ^ n = 0" using assms(1) by simp
      then show False using \<open>bit x n\<close> by (simp add: bit_iff_odd)
    qed
    then show "bit (and x (push_bit k (mask (32 - k)))) n = bit (push_bit k (drop_bit k x)) n"
      by (auto simp: bit_and_iff bit_push_bit_iff_nat bit_mask_iff bit_drop_bit_eq)
  qed
  then show ?thesis
    using not32_mask[OF assms(2)] by (simp add: push_bit_eq_mult drop_bit_eq_div)
qed

section \<open>Array cells\<close>

lemma nth_middle [simp]: "i = length xs \<Longrightarrow> (xs @ y # ys) ! i = y"
  by simp

lemma update_middle [simp]: "i = length xs \<Longrightarrow> (xs @ y # ys)[i := z] = xs @ z # ys"
  by (simp add: list_update_append)

text \<open>Move the cells from \<open>start\<close> up to below \<open>ep\<close> one place up, last one first.\<close>

fun shift_right :: "'a list \<Rightarrow> nat \<Rightarrow> nat \<Rightarrow> 'a list res" where
  "shift_right arr start 0 = Inr arr"
| "shift_right arr start (Suc ep) =
     (if start \<le> ep then
        if Suc ep < length arr then shift_right (arr[Suc ep := arr ! ep]) start ep
        else Inl Wild
      else Inr arr)"

lemma shift_right_stop [simp]: "shift_right arr n n = Inr arr"
  by (cases n) auto

lemma shift_right_run:
  "shift_right (pre @ x # es @ [y] @ zs) (length pre) (length pre + Suc (length es)) =
     Inr (pre @ x # x # es @ zs)"
proof (induction es arbitrary: y zs rule: rev_induct)
  case Nil
  show ?case by (simp add: nth_append list_update_append)
next
  case (snoc e es)
  have "shift_right (pre @ x # (es @ [e]) @ [y] @ zs) (length pre)
          (length pre + Suc (length (es @ [e])))
        = shift_right (pre @ x # es @ [e] @ e # zs) (length pre) (length pre + Suc (length es))"
    by (simp add: nth_append list_update_append)
  then show ?case using snoc[of e "e # zs"] by simp
qed

lemma shift_right_tail:
  "\<exists>x. shift_right (pre @ es @ z # zs) (length pre) (length pre + length es) = Inr (pre @ x # es @ zs)"
  using shift_right_run[of pre "hd es" "tl es" z zs] by (cases es) auto

declare shift_right.simps [simp del]

section \<open>Linked lists in a store\<close>

fun chain :: "('a \<Rightarrow> 'a option) \<Rightarrow> 'a option \<Rightarrow> 'a list \<Rightarrow> bool" where
  "chain nx p [] \<longleftrightarrow> p = None"
| "chain nx p (x # xs) \<longleftrightarrow> p = Some x \<and> chain nx (nx x) xs"

lemma chain_None [simp]: "chain nx None xs \<longleftrightarrow> xs = []"
  by (cases xs) auto

lemma chain_Some: "chain nx (Some x) xs \<longleftrightarrow> (\<exists>ys. xs = x # ys \<and> chain nx (nx x) ys)"
  by (cases xs) auto

lemma chain_fun: "chain nx p xs \<Longrightarrow> chain nx p ys \<Longrightarrow> xs = ys"
  by (induction xs arbitrary: p ys) (auto simp: chain_Some)

text \<open>Writing a link of a node that is not on the list leaves the list alone.\<close>

lemma chain_frame: "x \<notin> set xs \<Longrightarrow> chain (nx(x := v)) p xs \<longleftrightarrow> chain nx p xs"
  by (induction xs arbitrary: p) auto

lemma chain_cong: "(\<And>x. x \<in> set xs \<Longrightarrow> nx x = nx' x) \<Longrightarrow> chain nx p xs \<longleftrightarrow> chain nx' p xs"
  by (induction xs arbitrary: p) auto

text \<open>\<open>lseg nx p xs q\<close> is the same walk stopped at the pointer \<open>q\<close>.\<close>

fun lseg :: "('a \<Rightarrow> 'a option) \<Rightarrow> 'a option \<Rightarrow> 'a list \<Rightarrow> 'a option \<Rightarrow> bool" where
  "lseg nx p [] q \<longleftrightarrow> p = q"
| "lseg nx p (x # xs) q \<longleftrightarrow> p = Some x \<and> lseg nx (nx x) xs q"

lemma lseg_append: "lseg nx p (xs @ ys) q \<longleftrightarrow> (\<exists>r. lseg nx p xs r \<and> lseg nx r ys q)"
  by (induction xs arbitrary: p) auto

lemma chain_append: "chain nx p (xs @ ys) \<longleftrightarrow> (\<exists>r. lseg nx p xs r \<and> chain nx r ys)"
  by (induction xs arbitrary: p) auto

lemma lseg_frame: "x \<notin> set xs \<Longrightarrow> lseg (nx(x := v)) p xs q \<longleftrightarrow> lseg nx p xs q"
  by (induction xs arbitrary: p) auto

text \<open>A null-terminated list has no repeated node.\<close>

lemma chain_suffix: "chain nx p (xs @ x # ys) \<Longrightarrow> chain nx (Some x) (x # ys)"
  by (induction xs arbitrary: p) auto

lemma chain_distinct: "chain nx p xs \<Longrightarrow> distinct xs"
proof (induction xs arbitrary: p)
  case Nil
  show ?case by simp
next
  case (Cons x xs)
  have "x \<notin> set xs"
  proof
    assume "x \<in> set xs"
    then obtain as bs where xs: "xs = as @ x # bs" by (meson split_list)
    have c: "chain nx (Some x) (x # xs)" using Cons.prems by simp
    then have "chain nx (nx x) (as @ x # bs)" using xs by simp
    then have "chain nx (Some x) (x # bs)" by (rule chain_suffix)
    with c have "x # xs = x # bs" by (rule chain_fun)
    then show False using xs by simp
  qed
  with Cons show ?case by auto
qed

end
