(* ===== verification/Segments.thy ===== *)
theory Segments
  imports Prelude
begin

text \<open>
  The mathematics of address-ordered free lists, shared by the two allocators of the
  kernel: the resource maps of \<open>sys/kern/subr_rmap.c\<close> and the byte pool of
  \<open>sys/arch/rp2040/rp2040/swapram_pool.c\<close>.

  A free list is a list of segments (base, length); \<open>units\<close> is the set of units it
  describes and \<open>canon lo\<close> says that it is in canonical form above \<open>lo\<close>: non-empty
  segments in address order, no two of them touching.  A canonical list is determined by
  its units (\<open>canon_unique\<close>).  \<open>ff_alloc\<close> and \<open>seg_insert\<close> are the reference versions of
  first-fit allocation and of freeing with coalescing.

  The locale \<open>region_alloc\<close> is the contract the two allocators offer to their callers;
  its lemmas say what follows for any sequence of allocations and releases.
\<close>

section \<open>Segment lists\<close>

type_synonym seg = "nat \<times> nat"

definition units :: "seg list \<Rightarrow> nat set" where
  "units xs = (\<Union>(a, n) \<in> set xs. {a ..< a + n})"

fun canon :: "nat \<Rightarrow> seg list \<Rightarrow> bool" where
  "canon lo [] \<longleftrightarrow> True"
| "canon lo ((a, n) # xs) \<longleftrightarrow> lo \<le> a \<and> 0 < n \<and> canon (Suc (a + n)) xs"

fun ff_alloc :: "nat \<Rightarrow> seg list \<Rightarrow> (nat \<times> seg list) option" where
  "ff_alloc n [] = None"
| "ff_alloc n ((a, m) # xs) =
     (if n \<le> m then Some (a, if m = n then xs else (a + n, m - n) # xs)
      else map_option (map_prod id ((#) (a, m))) (ff_alloc n xs))"

fun seg_insert :: "nat \<Rightarrow> nat \<Rightarrow> seg list \<Rightarrow> seg list" where
  "seg_insert a n [] = [(a, n)]"
| "seg_insert a n ((b, m) # xs) =
     (if b + m < a then (b, m) # seg_insert a n xs
      else if b + m = a then
        (case xs of
           (c, k) # ys \<Rightarrow> if a + n = c then (b, m + n + k) # ys else (b, m + n) # xs
         | [] \<Rightarrow> [(b, m + n)])
      else if a + n = b then (a, n + m) # xs
      else (a, n) # (b, m) # xs)"

fun disj_segs :: "seg list \<Rightarrow> bool" where
  "disj_segs [] \<longleftrightarrow> True"
| "disj_segs ((a, n) # xs) \<longleftrightarrow> {a ..< a + n} \<inter> units xs = {} \<and> disj_segs xs"

lemma units_Nil [simp]: "units [] = {}"
  by (simp add: units_def)

lemma units_Cons [simp]: "units ((a, n) # xs) = {a ..< a + n} \<union> units xs"
  by (simp add: units_def)

lemma units_append [simp]: "units (xs @ ys) = units xs \<union> units ys"
  by (simp add: units_def)

lemma set_remove1_insert: "s \<in> set xs \<Longrightarrow> set xs = insert s (set (remove1 s xs))"
  by (induction xs) auto

lemma units_map_remove1:
  assumes "s \<in> set xs"
  shows "units (map f xs) = units [f s] \<union> units (map f (remove1 s xs))"
  unfolding units_def set_map by (subst set_remove1_insert[OF assms]) simp

lemma units_remove1: "s \<in> set xs \<Longrightarrow> units xs = units [s] \<union> units (remove1 s xs)"
  using units_map_remove1[of s xs id] by simp

lemma in_units: "(a, n) \<in> set xs \<Longrightarrow> {a ..< a + n} \<subseteq> units xs"
  by (auto simp: units_def)

lemma ranges_disjoint:
  fixes a n b m :: nat
  shows "0 < n \<Longrightarrow> 0 < m \<Longrightarrow> {a ..< a + n} \<inter> {b ..< b + m} = {} \<longleftrightarrow> a + n \<le> b \<or> b + m \<le> a"
proof
  assume "0 < n" "0 < m" "{a ..< a + n} \<inter> {b ..< b + m} = {}"
  then have "max a b \<notin> {a ..< a + n} \<inter> {b ..< b + m}" by blast
  then show "a + n \<le> b \<or> b + m \<le> a" using \<open>0 < n\<close> \<open>0 < m\<close> by (auto simp: max_def split: if_splits)
qed auto

section \<open>Canonical lists\<close>

lemma canon_mono: "canon lo xs \<Longrightarrow> lo' \<le> lo \<Longrightarrow> canon lo' xs"
  by (cases xs) auto

lemma canon_lower: "canon lo xs \<Longrightarrow> x \<in> units xs \<Longrightarrow> lo \<le> x"
proof (induction lo xs rule: canon.induct)
  case (2 lo a n xs)
  then show ?case by fastforce
qed simp

lemma canon_pos: "canon lo xs \<Longrightarrow> (a, n) \<in> set xs \<Longrightarrow> 0 < n \<and> lo \<le> a"
proof (induction lo xs rule: canon.induct)
  case (2 lo b m xs)
  then show ?case by fastforce
qed simp

text \<open>Where a list in canonical form may continue after \<open>xs\<close>.\<close>

fun seg_end :: "nat \<Rightarrow> seg list \<Rightarrow> nat" where
  "seg_end lo [] = lo"
| "seg_end lo ((a, n) # xs) = seg_end (Suc (a + n)) xs"

lemma canon_append: "canon lo (xs @ ys) \<longleftrightarrow> canon lo xs \<and> canon (seg_end lo xs) ys"
  by (induction lo xs rule: canon.induct) auto

lemma seg_end_snoc [simp]: "seg_end lo (xs @ [(a, n)]) = Suc (a + n)"
  by (induction lo xs rule: seg_end.induct) auto

lemma canon_gap:
  assumes "canon lo ((a, n) # xs)"
  shows "a + n \<notin> units ((a, n) # xs)"
  using assms canon_lower[of "Suc (a + n)" xs "a + n"] by auto

text \<open>The units determine the list.\<close>

lemma canon_head_Min:
  assumes "canon lo ((a, n) # xs)"
  shows "a \<in> units ((a, n) # xs)" and "\<And>x. x \<in> units ((a, n) # xs) \<Longrightarrow> a \<le> x"
  using assms canon_lower[of "Suc (a + n)" xs] by fastforce+

lemma canon_tail_units:
  assumes "canon lo ((a, n) # xs)"
  shows "units xs = units ((a, n) # xs) - {a ..< a + n}"
  using assms canon_lower[of "Suc (a + n)" xs] by fastforce

lemma canon_head_le:
  assumes "canon lo ((a, n) # xs)" and "canon lo' ((a, m) # ys)"
    and "units ((a, n) # xs) = units ((a, m) # ys)"
  shows "n \<le> m"
proof (rule ccontr)
  assume "\<not> n \<le> m"
  then have "a + m \<in> units ((a, n) # xs)" by simp
  then show False using canon_gap[OF assms(2)] unfolding assms(3) by contradiction
qed

lemma canon_unique: "canon lo xs \<Longrightarrow> canon lo' ys \<Longrightarrow> units xs = units ys \<Longrightarrow> xs = ys"
proof (induction xs arbitrary: lo lo' ys)
  case Nil
  then show ?case by (cases ys) auto
next
  case (Cons s xs)
  obtain a n where s: "s = (a, n)" by force
  have xs: "canon lo ((a, n) # xs)" using Cons.prems(1) s by simp
  then have "units ys \<noteq> {}" using Cons.prems(3) s by auto
  then obtain b m zs where ys: "ys = (b, m) # zs" by (cases ys) auto
  have zs: "canon lo' ((b, m) # zs)" using Cons.prems(2) ys by simp
  have eq: "units ((a, n) # xs) = units ((b, m) # zs)" using Cons.prems(3) s ys by simp
  have ab: "a = b"
    by (rule order_antisym) (metis canon_head_Min[OF xs] canon_head_Min[OF zs] eq)+
  have nm: "n = m"
    by (rule order_antisym) (metis canon_head_le xs zs eq ab)+
  have "units xs = units zs"
    using canon_tail_units[OF xs] canon_tail_units[OF zs] eq ab nm by simp
  then have "xs = zs" using xs zs Cons.IH by auto
  then show ?case using s ys ab nm by simp
qed

section \<open>First fit\<close>

lemma ff_alloc_Some:
  "canon lo xs \<Longrightarrow> 0 < n \<Longrightarrow> ff_alloc n xs = Some (a, ys) \<Longrightarrow>
     canon lo ys \<and> {a ..< a + n} \<subseteq> units xs \<and> units ys = units xs - {a ..< a + n}"
proof (induction n xs arbitrary: lo a ys rule: ff_alloc.induct)
  case (2 n b m xs)
  have low: "\<And>x. x \<in> units xs \<Longrightarrow> b + m < x"
    using 2(2) canon_lower[of "Suc (b + m)" xs] by (simp add: Suc_le_eq)
  show ?case
  proof (cases "n \<le> m")
    case True
    then have "a = b" and ys: "ys = (if m = n then xs else (b + n, m - n) # xs)"
      using 2(4) by auto
    moreover have "canon lo ys"
      using True 2(2,3) ys canon_mono[of "Suc (b + m)" xs lo] by (auto simp: add.commute)
    moreover have "{b ..< b + m} = {b ..< b + n} \<union> {b + n ..< b + m}" using True by auto
    moreover have "{b ..< b + n} \<inter> units xs = {}" using low True by fastforce
    ultimately show ?thesis using True by auto
  next
    case False
    then obtain zs where zs: "ff_alloc n xs = Some (a, zs)" "ys = (b, m) # zs"
      using 2(4) by auto
    have "canon (Suc (b + m)) zs \<and> {a ..< a + n} \<subseteq> units xs \<and> units zs = units xs - {a ..< a + n}"
      using 2(1)[of "Suc (b + m)" a zs] False zs 2(2,3) by auto
    moreover from this have "{a ..< a + n} \<inter> {b ..< b + m} = {}"
      using low by fastforce
    ultimately show ?thesis using 2(2) zs(2) by auto
  qed
qed simp

lemma ff_alloc_None: "ff_alloc n xs = None \<longleftrightarrow> (\<forall>(a, m) \<in> set xs. m < n)"
  by (induction n xs rule: ff_alloc.induct) auto

lemma ff_alloc_in: "ff_alloc n xs = Some (a, ys) \<Longrightarrow> \<exists>m \<ge> n. (a, m) \<in> set xs"
  by (induction n xs arbitrary: ys rule: ff_alloc.induct) (auto split: if_splits)

lemma ff_alloc_split:
  "\<forall>(a, m) \<in> set xs. m < n \<Longrightarrow> n \<le> m \<Longrightarrow>
     ff_alloc n (xs @ (a, m) # ys) = Some (a, xs @ (if m = n then ys else (a + n, m - n) # ys))"
  by (induction xs) auto

section \<open>Insertion with coalescing\<close>

lemma seg_insert_spec:
  "canon lo xs \<Longrightarrow> lo \<le> a \<Longrightarrow> 0 < n \<Longrightarrow> {a ..< a + n} \<inter> units xs = {} \<Longrightarrow>
     canon lo (seg_insert a n xs) \<and> units (seg_insert a n xs) = units xs \<union> {a ..< a + n}"
proof (induction a n xs arbitrary: lo rule: seg_insert.induct)
  case (2 a n b m xs)
  have hd: "lo \<le> b" "0 < m" "canon (Suc (b + m)) xs" using 2(2) by auto
  have "{a ..< a + n} \<inter> {b ..< b + m} = {}" and rest: "{a ..< a + n} \<inter> units xs = {}"
    using 2(5) by (simp_all only: units_Cons Int_Un_distrib Un_empty)
  then have dis: "a + n \<le> b \<or> b + m \<le> a"
    using ranges_disjoint[OF \<open>0 < n\<close> \<open>0 < m\<close>] by blast
  consider "b + m < a" | "b + m = a" | "a + n = b" | "a + n < b" using dis by linarith
  then show ?case
  proof cases
    case 1
    then show ?thesis using 2(1)[of "Suc (b + m)"] hd 2(4) rest by auto
  next
    case 2
    show ?thesis
    proof (cases xs)
      case Nil
      then show ?thesis using 2 hd \<open>0 < n\<close> by auto
    next
      case (Cons s ys)
      obtain c k where s: "s = (c, k)" by force
      have "0 < k" "b + m < c" using hd(3) Cons s by simp_all
      moreover have "{a ..< a + n} \<inter> {c ..< c + k} = {}"
        using rest unfolding Cons s units_Cons by blast
      ultimately have "a + n \<le> c" using \<open>0 < n\<close> 2 ranges_disjoint[of n k a c] by linarith
      then show ?thesis using 2 Cons s hd \<open>0 < n\<close> by (auto simp: add.assoc)
    qed
  next
    case 3
    then show ?thesis using hd \<open>0 < n\<close> \<open>lo \<le> a\<close> by (auto simp: add.assoc)
  next
    case 4
    then show ?thesis using hd \<open>0 < n\<close> \<open>lo \<le> a\<close> by auto
  qed
qed auto

lemma seg_insert_skip:
  "\<forall>(c, k) \<in> set ys. c + k < a \<Longrightarrow> seg_insert a n (ys @ zs) = ys @ seg_insert a n zs"
  by (induction ys) auto

lemma canon_ends_before:
  "canon lo (xs @ (b, m) # ys) \<Longrightarrow> (c, k) \<in> set xs \<Longrightarrow> c + k < b"
proof (induction lo xs rule: canon.induct)
  case (2 lo a n xs)
  then show ?case using canon_pos[of "Suc (a + n)" "xs @ (b, m) # ys" b m] by auto
qed simp

text \<open>The same in terms of the place in the list where the new segment belongs.\<close>

lemma disjoint_at:
  assumes can: "canon lo (xs @ ys)" and n: "0 < n" and lo: "\<forall>x \<in> set xs. fst x < a"
    and hi: "ys \<noteq> [] \<Longrightarrow> a \<le> fst (hd ys)"
  shows "{a ..< a + n} \<inter> units (xs @ ys) = {} \<longleftrightarrow>
    (xs = [] \<or> fst (last xs) + snd (last xs) \<le> a) \<and> (ys = [] \<or> a + n \<le> fst (hd ys))"
proof -
  have "{a ..< a + n} \<inter> units xs = {} \<longleftrightarrow> xs = [] \<or> fst (last xs) + snd (last xs) \<le> a"
  proof (cases xs rule: rev_cases)
    case (snoc fs l)
    obtain b m where l: "l = (b, m)" by force
    have pos: "0 < m" using canon_pos[OF can, of b m] snoc l by simp
    have "\<And>x. x \<in> units fs \<Longrightarrow> x < b"
      using canon_ends_before[of lo fs b m ys] can snoc l by (force simp: units_def)
    then have "{a ..< a + n} \<inter> units fs = {}" using lo snoc l by fastforce
    moreover have "{a ..< a + n} \<inter> {b ..< b + m} = {} \<longleftrightarrow> b + m \<le> a"
      using ranges_disjoint[OF n pos, of a b] lo snoc l by fastforce
    ultimately show ?thesis using snoc l by (simp add: Int_Un_distrib)
  qed simp
  moreover have "{a ..< a + n} \<inter> units ys = {} \<longleftrightarrow> ys = [] \<or> a + n \<le> fst (hd ys)"
  proof (cases ys)
    case (Cons y zs)
    obtain b m where y: "y = (b, m)" by force
    have c: "0 < m" "canon (Suc (b + m)) zs" using can Cons y by (auto simp: canon_append)
    have "{a ..< a + n} \<inter> {b ..< b + m} = {} \<longleftrightarrow> a + n \<le> b"
      using ranges_disjoint[OF n c(1), of a b] hi Cons y c(1) by fastforce
    moreover have "{a ..< a + n} \<inter> units zs = {}" if "a + n \<le> b"
      using canon_lower[OF c(2)] that by fastforce
    ultimately show ?thesis using Cons y by (auto simp: Int_Un_distrib)
  qed simp
  ultimately show ?thesis by (simp add: Int_Un_distrib)
qed

lemma seg_insert_at:
  assumes can: "canon lo (xs @ ys)" and lo: "xs \<noteq> [] \<Longrightarrow> fst (last xs) + snd (last xs) \<le> a"
    and hi: "ys \<noteq> [] \<Longrightarrow> a + n \<le> fst (hd ys)" and n: "0 < n"
  shows "seg_insert a n (xs @ ys) =
    (if xs \<noteq> [] \<and> fst (last xs) + snd (last xs) = a then
       if ys \<noteq> [] \<and> a + n = fst (hd ys)
       then butlast xs @ (fst (last xs), snd (last xs) + n + snd (hd ys)) # tl ys
       else butlast xs @ (fst (last xs), snd (last xs) + n) # ys
     else if ys \<noteq> [] \<and> a + n = fst (hd ys) then xs @ (a, n + snd (hd ys)) # tl ys
     else xs @ (a, n) # ys)"
proof (cases xs rule: rev_cases)
  case Nil
  then show ?thesis using hi n by (cases ys) auto
next
  case (snoc fs l)
  obtain b m where l: "l = (b, m)" by force
  have "\<forall>(c, k) \<in> set fs. c + k < b"
    using canon_ends_before[of lo fs b m ys] can snoc l by auto
  moreover have "b + m \<le> a" using lo snoc l by simp
  ultimately have "\<forall>(c, k) \<in> set fs. c + k < a" by fastforce
  then have "seg_insert a n (xs @ ys) = fs @ seg_insert a n ((b, m) # ys)"
    using seg_insert_skip[of fs a n "(b, m) # ys"] snoc l by simp
  then show ?thesis using snoc l hi n \<open>b + m \<le> a\<close> by (cases ys) auto
qed

lemma length_seg_insert: "length (seg_insert a n xs) \<le> Suc (length xs)"
  by (induction a n xs rule: seg_insert.induct) (auto split: list.splits)

section \<open>Cutting a region out of a segment\<close>

text \<open>What is left of the segment \<open>(a, n)\<close> when \<open>s\<close> units at \<open>c\<close> are taken.\<close>

definition seg_cut :: "nat \<Rightarrow> nat \<Rightarrow> seg \<Rightarrow> seg list" where
  "seg_cut c s x = (case x of (a, n) \<Rightarrow>
     (if a < c then [(a, c - a)] else []) @
     (if c + s < a + n then [(c + s, a + n - (c + s))] else []))"

lemma seg_cut_units:
  "a \<le> c \<Longrightarrow> c + s \<le> a + n \<Longrightarrow> 0 < s \<Longrightarrow> units (seg_cut c s (a, n)) = {a ..< a + n} - {c ..< c + s}"
  by (auto simp: seg_cut_def)

lemma seg_cut_canon:
  assumes "lo \<le> a" "a \<le> c" "c + s \<le> a + n" "0 < s" "canon (Suc (a + n)) ys"
  shows "canon lo (seg_cut c s (a, n) @ ys)"
  using assms canon_mono[OF assms(5), of lo] canon_mono[OF assms(5), of "Suc c"]
  by (auto simp: seg_cut_def)

lemma cut_spec:
  assumes can: "canon lo (xs @ (a, n) # ys)" and c: "a \<le> c" "c + s \<le> a + n" "0 < s"
  shows "canon lo (xs @ seg_cut c s (a, n) @ ys)"
    and "{c ..< c + s} \<subseteq> units (xs @ (a, n) # ys)"
    and "units (xs @ seg_cut c s (a, n) @ ys) = units (xs @ (a, n) # ys) - {c ..< c + s}"
proof -
  have xs: "canon lo xs" and a: "seg_end lo xs \<le> a" and ys: "canon (Suc (a + n)) ys"
    using can by (auto simp: canon_append)
  show "canon lo (xs @ seg_cut c s (a, n) @ ys)"
    using xs seg_cut_canon[OF a c ys] by (simp add: canon_append)
  have sub: "{c ..< c + s} \<subseteq> {a ..< a + n}" using c by auto
  then show "{c ..< c + s} \<subseteq> units (xs @ (a, n) # ys)" by auto
  have "\<And>x. x \<in> units xs \<Longrightarrow> x < a"
    using canon_ends_before[OF can] by (force simp: units_def)
  then have "units xs \<inter> {c ..< c + s} = {}" using c by fastforce
  moreover have "units ys \<inter> {c ..< c + s} = {}"
    using canon_lower[OF ys] c by fastforce
  ultimately show "units (xs @ seg_cut c s (a, n) @ ys) = units (xs @ (a, n) # ys) - {c ..< c + s}"
    unfolding units_append units_Cons seg_cut_units[OF c] by blast
qed

section \<open>How many segments the live extents can separate\<close>

lemma segs_le_gaps:
  "canon lo xs \<Longrightarrow> units xs \<inter> units ls = {} \<Longrightarrow>
     (\<forall>(a, n) \<in> set (butlast xs). a + n \<in> units ls) \<Longrightarrow> length xs \<le> Suc (length ls)"
proof (induction xs arbitrary: lo ls rule: induct_list012)
  case (3 s t xs)
  obtain a n b m where st: "s = (a, n)" "t = (b, m)" by force
  have "a + n \<in> units ls" using 3(5) st by simp
  then obtain e k where e: "(e, k) \<in> set ls" "e \<le> a + n" "a + n < e + k"
    unfolding units_def by auto
  have b: "a + n < b" "0 < m" "canon (Suc (a + n)) ((b, m) # xs)" using 3(3) st by auto
  have "{b ..< b + m} \<subseteq> units (s # t # xs)" using st by (intro in_units) simp
  then have "{e ..< e + k} \<inter> {b ..< b + m} = {}"
    using 3(4) in_units[OF e(1)] by blast
  then have ek: "e + k \<le> b" using e b ranges_disjoint[of k m e b] by linarith
  define ls' where "ls' = remove1 (e, k) ls"
  have len: "length ls = Suc (length ls')"
    using e(1) length_pos_if_in_set[OF e(1)] by (simp add: ls'_def length_remove1)
  have u: "units ls = {e ..< e + k} \<union> units ls'"
    using units_remove1[OF e(1)] by (simp add: ls'_def)
  have "\<forall>(c, l) \<in> set (butlast (t # xs)). c + l \<in> units ls'"
  proof safe
    fix c l assume cl: "(c, l) \<in> set (butlast (t # xs))"
    then have "(c, l) \<in> set (butlast (s # t # xs))" by simp
    with 3(5) have "c + l \<in> units ls" by blast
    moreover have "b \<le> c"
      using canon_pos[OF _ in_set_butlastD[OF cl], of b] b(3) st by simp
    moreover from this have "c + l \<notin> {e ..< e + k}" using ek by simp
    ultimately show "c + l \<in> units ls'" unfolding u by blast
  qed
  moreover have "units (t # xs) \<inter> units ls' = {}" using 3(4) unfolding u st units_Cons by blast
  moreover have "canon (Suc (a + n)) (t # xs)" using b(3) st by simp
  ultimately have "length (t # xs) \<le> Suc (length ls')" using 3(2) by blast
  then show ?case using len by simp
qed auto

lemma butlast_ends_inside:
  "canon lo xs \<Longrightarrow> (a, n) \<in> set (butlast xs) \<Longrightarrow>
     a + n \<notin> units xs \<and> (\<exists>x \<in> units xs. a + n < x)"
proof (induction xs arbitrary: lo rule: induct_list012)
  case (3 s t xs)
  obtain b m c k where st: "s = (b, m)" "t = (c, k)" by force
  have c: "b + m < c" "0 < k" using 3(3) st by auto
  show ?case
  proof (cases "(a, n) = s")
    case True
    then have "a + n = b + m" using st by simp
    moreover have "b + m \<notin> units (s # t # xs)" using canon_gap 3(3) st by blast
    moreover have "c \<in> units (s # t # xs)" using st c by simp
    ultimately show ?thesis using c by metis
  next
    case False
    then have tl: "(a, n) \<in> set (butlast (t # xs))" using 3(4) by simp
    moreover have ct: "canon (Suc (b + m)) (t # xs)" using 3(3) st by simp
    ultimately have "a + n \<notin> units (t # xs) \<and> (\<exists>x \<in> units (t # xs). a + n < x)"
      using 3(2) by blast
    moreover have "c \<le> a"
      using canon_pos[OF _ in_set_butlastD[OF tl], of c] ct st by simp
    ultimately have "a + n \<notin> {b ..< b + m}" and "a + n \<notin> units (t # xs)"
      and "\<exists>x \<in> units (t # xs). a + n < x"
      using c by auto
    then show ?thesis unfolding st units_Cons by blast
  qed
qed auto

text \<open>
  Free segments and live extents that tile an interval: there is at most one free segment
  more than there are live extents.
\<close>

lemma segs_le_live:
  assumes "canon lo xs" and "units xs \<inter> units ls = {}" and "units xs \<union> units ls = {l ..< h}"
  shows "length xs \<le> Suc (length ls)"
proof (rule segs_le_gaps[OF assms(1,2)], safe)
  fix a n assume an: "(a, n) \<in> set (butlast xs)"
  then obtain x where x: "a + n \<notin> units xs" "x \<in> units xs" "a + n < x"
    using butlast_ends_inside[OF assms(1)] by blast
  have "0 < n" using canon_pos[OF assms(1) in_set_butlastD[OF an]] by simp
  then have "a \<in> units xs" using in_units[OF in_set_butlastD[OF an]] by auto
  then have "a \<in> {l ..< h}" and "x \<in> {l ..< h}" using x assms(3) by blast+
  then have "a + n \<in> {l ..< h}" using x by simp
  then show "a + n \<in> units ls" using x assms(3) by blast
qed

section \<open>The contract of an allocator\<close>

text \<open>
  The states an allocator goes through while its callers take and return regions: \<open>live\<close>
  holds the regions handed out and not yet returned, as (base, requested size).
\<close>

inductive region_run ::
  "('m \<Rightarrow> nat \<Rightarrow> (nat \<times> 'm) option) \<Rightarrow> ('m \<Rightarrow> nat \<Rightarrow> nat \<Rightarrow> 'm option) \<Rightarrow>
   'm \<Rightarrow> 'm \<Rightarrow> (nat \<times> nat) list \<Rightarrow> bool"
  for alloc release m0 where
  run_start: "region_run alloc release m0 m0 []"
| run_alloc: "region_run alloc release m0 m live \<Longrightarrow> alloc m n = Some (a, m') \<Longrightarrow>
     region_run alloc release m0 m' ((a, n) # live)"
| run_release: "region_run alloc release m0 m live \<Longrightarrow> (a, n) \<in> set live \<Longrightarrow>
     release m a n = Some m' \<Longrightarrow> region_run alloc release m0 m' (remove1 (a, n) live)"

text \<open>
  The laws: \<open>segs m\<close> is the free list, always canonical; \<open>grain n\<close> is what a request for \<open>n\<close>
  units really takes; \<open>valid m a n\<close> says that a region may be returned, and every region
  handed out is valid for ever; \<open>slots m\<close> is the number of free segments the map can hold.
\<close>

locale region_alloc =
  fixes segs :: "'m \<Rightarrow> seg list"
    and ok :: "'m \<Rightarrow> bool"
    and grain :: "nat \<Rightarrow> nat"
    and valid :: "'m \<Rightarrow> nat \<Rightarrow> nat \<Rightarrow> bool"
    and slots :: "'m \<Rightarrow> nat"
    and alloc :: "'m \<Rightarrow> nat \<Rightarrow> (nat \<times> 'm) option"
    and release :: "'m \<Rightarrow> nat \<Rightarrow> nat \<Rightarrow> 'm option"
  assumes segs_canon: "ok m \<Longrightarrow> canon 0 (segs m)"
    and alloc_law: "ok m \<Longrightarrow> alloc m n = Some (a, m') \<Longrightarrow>
      ok m' \<and> valid m' a n \<and> slots m' = slots m \<and> {a ..< a + grain n} \<subseteq> units (segs m)
        \<and> units (segs m') = units (segs m) - {a ..< a + grain n}"
    and release_law: "ok m \<Longrightarrow> valid m a n \<Longrightarrow> {a ..< a + grain n} \<inter> units (segs m) = {} \<Longrightarrow>
      release m a n = Some m' \<Longrightarrow>
      ok m' \<and> slots m' = slots m \<and> units (segs m') = units (segs m) \<union> {a ..< a + grain n}"
    and release_room: "ok m \<Longrightarrow> valid m a n \<Longrightarrow> {a ..< a + grain n} \<inter> units (segs m) = {} \<Longrightarrow>
      length (seg_insert a (grain n) (segs m)) \<le> slots m \<Longrightarrow> release m a n \<noteq> None"
    and valid_pos: "ok m \<Longrightarrow> valid m a n \<Longrightarrow> 0 < grain n"
    and valid_alloc: "ok m \<Longrightarrow> valid m b k \<Longrightarrow> alloc m n = Some (a, m') \<Longrightarrow> valid m' b k"
    and valid_release: "ok m \<Longrightarrow> valid m b k \<Longrightarrow> valid m a n \<Longrightarrow> release m a n = Some m' \<Longrightarrow>
      valid m' b k"
begin

definition extents :: "(nat \<times> nat) list \<Rightarrow> seg list" where
  "extents live = map (map_prod id grain) live"

lemma extents_simps [simp]:
  "extents [] = []" "extents ((a, n) # live) = (a, grain n) # extents live"
  "length (extents live) = length live"
  by (simp_all add: extents_def)

lemma extents_remove1:
  "(a, n) \<in> set live \<Longrightarrow>
     units (extents live) = {a ..< a + grain n} \<union> units (extents (remove1 (a, n) live))"
  using units_map_remove1[of "(a, n)" live "map_prod id grain"] by (simp add: extents_def)

lemma disj_remove1:
  "disj_segs (extents live) \<Longrightarrow> (a, n) \<in> set live \<Longrightarrow>
     disj_segs (extents (remove1 (a, n) live)) \<and>
     {a ..< a + grain n} \<inter> units (extents (remove1 (a, n) live)) = {}"
proof (induction live)
  case (Cons s live)
  obtain b k where s: "s = (b, k)" by force
  show ?case
  proof (cases "s = (a, n)")
    case True
    then show ?thesis using Cons.prems s by simp
  next
    case False
    then have in_live: "(a, n) \<in> set live" using Cons.prems by simp
    have "disj_segs (extents live)" and dis: "{b ..< b + grain k} \<inter> units (extents live) = {}"
      using Cons.prems(1) s by simp_all
    then have IH: "disj_segs (extents (remove1 (a, n) live))"
      "{a ..< a + grain n} \<inter> units (extents (remove1 (a, n) live)) = {}"
      using Cons.IH in_live by simp_all
    moreover have "{b ..< b + grain k} \<inter> units (extents (remove1 (a, n) live)) = {}"
      and "{a ..< a + grain n} \<inter> {b ..< b + grain k} = {}"
      using dis unfolding extents_remove1[OF in_live] by blast+
    ultimately show ?thesis using False s by auto
  qed
qed simp

text \<open>What holds all along a run.\<close>

lemma run_inv:
  "region_run alloc release m0 m live \<Longrightarrow> ok m0 \<Longrightarrow>
     ok m \<and> slots m = slots m0 \<and> disj_segs (extents live) \<and> (\<forall>(a, n) \<in> set live. valid m a n)
     \<and> units (segs m) \<inter> units (extents live) = {}
     \<and> units (segs m) \<union> units (extents live) = units (segs m0)"
proof (induction rule: region_run.induct)
  case run_start
  then show ?case by simp
next
  case (run_alloc m live n a m')
  then have IH: "ok m" "slots m = slots m0" "disj_segs (extents live)"
    "\<forall>(a, n) \<in> set live. valid m a n" "units (segs m) \<inter> units (extents live) = {}"
    "units (segs m) \<union> units (extents live) = units (segs m0)" by simp_all
  note law = alloc_law[OF IH(1) run_alloc.hyps(2)]
  have "\<forall>(b, k) \<in> set live. valid m' b k"
    using IH(4) valid_alloc[OF IH(1) _ run_alloc.hyps(2)] by auto
  moreover have "{a ..< a + grain n} \<inter> units (extents live) = {}" using law IH(5) by blast
  moreover have "units (segs m') \<inter> units (extents ((a, n) # live)) = {}"
    using law IH(5) by auto
  moreover have "units (segs m') \<union> units (extents ((a, n) # live)) = units (segs m0)"
    using law IH(6) by auto
  ultimately show ?case using law IH(2,3) by auto
next
  case (run_release m live a n m')
  then have IH: "ok m" "slots m = slots m0" "disj_segs (extents live)"
    "\<forall>(a, n) \<in> set live. valid m a n" "units (segs m) \<inter> units (extents live) = {}"
    "units (segs m) \<union> units (extents live) = units (segs m0)" by simp_all
  let ?live = "remove1 (a, n) live"
  note ext = extents_remove1[OF run_release.hyps(2)]
  have dis: "disj_segs (extents ?live)" "{a ..< a + grain n} \<inter> units (extents ?live) = {}"
    using disj_remove1[OF IH(3) run_release.hyps(2)] by simp_all
  have van: "valid m a n" using IH(4) run_release.hyps(2) by auto
  have free: "{a ..< a + grain n} \<inter> units (segs m) = {}" using IH(5) ext by blast
  note law = release_law[OF IH(1) van free run_release.hyps(3)]
  have "\<forall>(b, k) \<in> set ?live. valid m' b k"
    using IH(4) valid_release[OF IH(1) _ van run_release.hyps(3)] set_remove1_subset by fastforce
  moreover have "units (segs m') \<inter> units (extents ?live) = {}"
    using law IH(5) dis(2) ext by blast
  moreover have "units (segs m') \<union> units (extents ?live) = units (segs m0)"
    using law IH(6) ext by blast
  ultimately show ?case using law IH(2) dis(1) by auto
qed

text \<open>
  When the map starts as one interval and there are no more live regions than slots, no
  release is ever refused.
\<close>

lemma run_release_succeeds:
  assumes run: "region_run alloc release m0 m live" and "ok m0"
    and whole: "units (segs m0) = {lo ..< hi}"
    and live: "(a, n) \<in> set live" and few: "length live \<le> slots m0"
  shows "release m a n \<noteq> None"
proof -
  note inv = run_inv[OF run \<open>ok m0\<close>]
  let ?live = "remove1 (a, n) live" and ?segs = "seg_insert a (grain n) (segs m)"
  have van: "valid m a n" using inv live by auto
  note ext = extents_remove1[OF live]
  have free: "{a ..< a + grain n} \<inter> units (segs m) = {}" using inv ext by blast
  have ins: "canon 0 ?segs" "units ?segs = units (segs m) \<union> {a ..< a + grain n}"
    using seg_insert_spec[of 0 "segs m" a "grain n"] segs_canon valid_pos[OF _ van] free inv
    by auto
  have "{a ..< a + grain n} \<inter> units (extents ?live) = {}"
    using disj_remove1[OF _ live] inv by blast
  then have "units ?segs \<inter> units (extents ?live) = {}"
    and "units ?segs \<union> units (extents ?live) = {lo ..< hi}"
    using ins(2) inv ext whole by blast+
  then have "length ?segs \<le> Suc (length (extents ?live))"
    by (rule segs_le_live[OF ins(1)])
  also have "\<dots> = length live"
    using live length_pos_if_in_set[OF live] by (simp add: length_remove1)
  finally have "length ?segs \<le> slots m" using few inv by simp
  then show ?thesis using release_room[OF _ van free] inv by blast
qed

end

end
