(* ===== verification/Rmap.thy ===== *)
theory Rmap
  imports Segments
begin

text \<open>
  Resource maps: \<open>sys/kern/subr_rmap.c\<close> and \<open>sys/sys/map.h\<close>, as every RP2040
  configuration compiles them (option \<open>COMPACT_SWAPMAP\<close>: 16-bit map entries, 32-bit
  \<open>size_t\<close>; \<open>DIAGNOSTIC\<close> off).  The map is the array of entries that \<open>m_map\<close> points to, a
  pointer into it is an index, and \<open>m_limit\<close> is the index of its last slot.  Reading or
  writing past the array is the fault \<open>Wild\<close>.

  The invariant \<open>rmap_ok\<close> says that the array holds a canonical free list followed by zero
  entries.  Each operation is proved equal, at the level of the free list, to its reference
  version in \<open>Segments\<close>, and the contract \<open>region_alloc\<close> is discharged for
  \<open>malloc\<close>/\<open>mfree\<close>.
\<close>

section \<open>The data\<close>

record mapent =
  m_size :: nat
  m_addr :: nat

record kmap =
  m_map :: "mapent list"
  m_limit :: nat
  m_name :: string

section \<open>malloc and mfree\<close>

text \<open>The search loop of \<open>malloc\<close>: the first entry with enough space.\<close>

function malloc_search :: "mapent list \<Rightarrow> nat \<Rightarrow> nat \<Rightarrow> nat option res" where
  "malloc_search arr sz bp =
     (if bp < length arr then
        if m_size (arr ! bp) = 0 then Inr None
        else if sz \<le> m_size (arr ! bp) then Inr (Some bp)
        else malloc_search arr sz (Suc bp)
      else Inl Wild)"
  by pat_completeness auto
termination
  by (relation "measure (\<lambda>(arr, sz, bp). length arr - bp)") auto

text \<open>Move the rest of the map, up to and including the terminator, one slot left.\<close>

function shift_left :: "mapent list \<Rightarrow> nat \<Rightarrow> mapent list res" where
  "shift_left arr ep =
     (if Suc ep < length arr then
        if m_size (arr ! Suc ep) = 0 then Inr (arr[ep := arr ! Suc ep])
        else shift_left (arr[ep := arr ! Suc ep]) (Suc ep)
      else Inl Wild)"
  by pat_completeness auto
termination
  by (relation "measure (\<lambda>(arr, ep). length arr - ep)") auto

definition malloc :: "kmap \<Rightarrow> nat \<Rightarrow> (nat \<times> kmap) res" where
  "malloc mp sz =
     (if sz = 0 then Inl (Panic ''malloc: size = 0'')
      else andthen (malloc_search (m_map mp) sz 0) (\<lambda>found.
        case found of
          None \<Rightarrow> Inr (0, mp)
        | Some bp \<Rightarrow>
            let e = m_map mp ! bp;
                addr = m_addr e;
                e' = e\<lparr>m_size := u16 (m_size e - sz)\<rparr>
            in if m_size e' \<noteq> 0
               then Inr (addr, mp\<lparr>m_map := (m_map mp)[bp := e'\<lparr>m_addr := u16 (m_addr e' + sz)\<rparr>]\<rparr>)
               else andthen (shift_left ((m_map mp)[bp := e']) bp) (\<lambda>arr.
                      Inr (addr, mp\<lparr>m_map := arr\<rparr>))))"

text \<open>The loops of \<open>mfree\<close>: the first entry above \<open>addr\<close>, and the terminator.\<close>

function mfree_search :: "mapent list \<Rightarrow> nat \<Rightarrow> nat \<Rightarrow> nat res" where
  "mfree_search arr addr bp =
     (if bp < length arr then
        if m_size (arr ! bp) \<noteq> 0 \<and> m_addr (arr ! bp) \<le> addr
        then mfree_search arr addr (Suc bp) else Inr bp
      else Inl Wild)"
  by pat_completeness auto
termination
  by (relation "measure (\<lambda>(arr, addr, bp). length arr - bp)") auto

function find_end :: "mapent list \<Rightarrow> nat \<Rightarrow> nat res" where
  "find_end arr bp =
     (if bp < length arr then
        if m_size (arr ! bp) \<noteq> 0 then find_end arr (Suc bp) else Inr bp
      else Inl Wild)"
  by pat_completeness auto
termination
  by (relation "measure (\<lambda>(arr, bp). length arr - bp)") auto

text \<open>
  \<open>mfree\<close> answers whether the returned space was dropped because the map was full, the case
  in which it prints its warning.
\<close>

definition mfree :: "kmap \<Rightarrow> nat \<Rightarrow> nat \<Rightarrow> (bool \<times> kmap) res" where
  "mfree mp sz addr =
     (if sz = 0 then Inr (False, mp)
      else if addr = 0 then Inl (Panic ''mfree: addr = 0'')
      else let arr = m_map mp in
        andthen (mfree_search arr addr 0) (\<lambda>bp.
          let right = arr ! bp; left = arr ! (bp - 1) in
          if bp \<noteq> 0 \<and> addr \<le> u32 (m_addr left + m_size left) then
            let left' = left\<lparr>m_size := u16 (m_size left + sz)\<rparr> in
            if m_size right \<noteq> 0 \<and> m_addr right \<le> u32 (addr + sz) then
              andthen (shift_left
                  (arr[bp - 1 := left'\<lparr>m_size := u16 (m_size left' + m_size right)\<rparr>]) bp)
                (\<lambda>arr'. Inr (False, mp\<lparr>m_map := arr'\<rparr>))
            else Inr (False, mp\<lparr>m_map := arr[bp - 1 := left']\<rparr>)
          else if m_size right \<noteq> 0 \<and> m_addr right \<le> u32 (addr + sz) then
            Inr (False, mp\<lparr>m_map := arr[bp := right
                  \<lparr>m_addr := u16 addr, m_size := u16 (m_size right + sz)\<rparr>]\<rparr>)
          else andthen (find_end arr bp) (\<lambda>e.
            if m_limit mp < Suc e then Inr (True, mp)
            else andthen (shift_right arr bp (Suc e)) (\<lambda>arr'.
              Inr (False, mp\<lparr>m_map := arr'[bp := \<lparr>m_size = u16 sz, m_addr = u16 addr\<rparr>]\<rparr>)))))"

section \<open>malloc3\<close>

text \<open>
  The inner loop of \<open>malloc3\<close> offers one map entry to each of the requests \<open>nexts\<close>.  Its
  state is the array, \<open>madd\<close> (which entry serves which request), the first entry that was
  used up, and how many requests are served; the flag says that all three are and the code
  jumps to \<open>resolve\<close>.
\<close>

type_synonym malloc3_state = "mapent list \<times> nat option list \<times> nat option \<times> nat"

fun malloc3_entry :: "nat list \<Rightarrow> nat \<Rightarrow> nat list \<Rightarrow> malloc3_state \<Rightarrow> malloc3_state \<times> bool" where
  "malloc3_entry sizes bp [] st = (st, False)"
| "malloc3_entry sizes bp (nxt # nexts) (arr, madd, remap, found) =
     (if madd ! nxt = None \<and> sizes ! nxt \<le> m_size (arr ! bp) then
        let madd' = madd[nxt := Some bp];
            e = (arr ! bp)\<lparr>m_size := u16 (m_size (arr ! bp) - sizes ! nxt)\<rparr>;
            arr' = arr[bp := e];
            remap' = (if m_size e = 0 \<and> remap = None then Some bp else remap)
        in if Suc found = 3 then ((arr', madd', remap', Suc found), True)
           else malloc3_entry sizes bp nexts (arr', madd', remap', Suc found)
      else malloc3_entry sizes bp nexts (arr, madd, remap, found))"

function malloc3_scan :: "nat list \<Rightarrow> nat \<Rightarrow> malloc3_state \<Rightarrow> (malloc3_state \<times> bool) res" where
  "malloc3_scan sizes bp (arr, madd, remap, found) =
     (if bp < length arr then
        if m_size (arr ! bp) = 0 then Inr ((arr, madd, remap, found), False)
        else let (st, done) = malloc3_entry sizes bp [0, 1, 2] (arr, madd, remap, found)
             in if done then Inr (st, True) else malloc3_scan sizes (Suc bp) st
      else Inl Wild)"
  by pat_completeness auto

lemma malloc3_entry_length:
  "length (fst (fst (malloc3_entry sizes bp nexts st))) = length (fst st)"
  by (induction sizes bp nexts st rule: malloc3_entry.induct) (auto simp: Let_def)

termination malloc3_scan
proof (relation "measure (\<lambda>(sizes, bp, arr, _). length arr - bp)")
  fix sizes bp arr madd remap found x st dn
  assume "bp < length arr" and x: "x = malloc3_entry sizes bp [0, 1, 2] (arr, madd, remap, found)"
    and "(st, dn) = x"
  then have "length (fst st) = length arr"
    using malloc3_entry_length[of sizes bp "[0, 1, 2]" "(arr, madd, remap, found)"]
    by (metis fst_conv)
  then show "((sizes, Suc bp, st), sizes, bp, arr, madd, remap, found)
      \<in> measure (\<lambda>(sizes, bp, arr, _). length arr - bp)"
    using \<open>bp < length arr\<close> by (cases st) auto
qed simp

text \<open>Give back what an unsuccessful scan took.\<close>

fun malloc3_restore :: "nat list \<Rightarrow> nat list \<Rightarrow> nat option list \<Rightarrow> mapent list \<Rightarrow> mapent list" where
  "malloc3_restore sizes [] madd arr = arr"
| "malloc3_restore sizes (nxt # nexts) madd arr =
     (case madd ! nxt of
        None \<Rightarrow> malloc3_restore sizes nexts madd arr
      | Some bp \<Rightarrow> malloc3_restore sizes nexts madd
          (arr[bp := (arr ! bp)\<lparr>m_size := u16 (m_size (arr ! bp) + sizes ! nxt)\<rparr>]))"

text \<open>The addresses of the three segments, and the addresses left in the map.\<close>

fun malloc3_resolve ::
  "nat list \<Rightarrow> nat list \<Rightarrow> nat option list \<Rightarrow> mapent list \<Rightarrow> (nat list \<times> mapent list) res" where
  "malloc3_resolve sizes [] madd arr = Inr ([], arr)"
| "malloc3_resolve sizes (nxt # nexts) madd arr =
     (case madd ! nxt of
        None \<Rightarrow> Inl Wild
      | Some bp \<Rightarrow>
          andthen (malloc3_resolve sizes nexts madd
              (arr[bp := (arr ! bp)\<lparr>m_addr := u16 (m_addr (arr ! bp) + sizes ! nxt)\<rparr>]))
            (\<lambda>(as, arr'). Inr (m_addr (arr ! bp) # as, arr')))"

text \<open>Remove the entries of size 0; an address of 0 ends the map.\<close>

function malloc3_compact :: "mapent list \<Rightarrow> nat \<Rightarrow> nat \<Rightarrow> mapent list res" where
  "malloc3_compact arr remap bp =
     (if bp < length arr then
        if m_size (arr ! bp) \<noteq> 0 \<or> m_addr (arr ! bp) = 0 then
          let arr' = arr[remap := arr ! bp] in
          if m_addr (arr ! bp) = 0 then Inr arr'
          else malloc3_compact arr' (Suc remap) (Suc bp)
        else malloc3_compact arr remap (Suc bp)
      else Inl Wild)"
  by pat_completeness auto
termination
  by (relation "measure (\<lambda>(arr, remap, bp). length arr - bp)") auto

text \<open>The result is the return value with the array \<open>a\<close>, which a failed call leaves alone.\<close>

definition malloc3 :: "kmap \<Rightarrow> nat \<Rightarrow> nat \<Rightarrow> nat \<Rightarrow> (nat \<times> nat list option \<times> kmap) res" where
  "malloc3 mp d_size s_size u_size =
     (let sizes = [d_size, s_size, u_size] in
      andthen (malloc3_scan sizes 0 (m_map mp, [None, None, None], None, 0))
        (\<lambda>((arr, madd, remap, found), done).
           if \<not> done then
             Inr (0, None, mp\<lparr>m_map := malloc3_restore sizes [0, 1, 2] madd arr\<rparr>)
           else
             andthen (malloc3_resolve sizes [0, 1, 2] madd arr) (\<lambda>(as, arr').
               case remap of
                 None \<Rightarrow> Inr (as ! 2, Some as, mp\<lparr>m_map := arr'\<rparr>)
               | Some r \<Rightarrow> andthen (malloc3_compact arr' r (Suc r)) (\<lambda>arr''.
                   Inr (as ! 2, Some as, mp\<lparr>m_map := arr''\<rparr>)))))"

section \<open>malloc3_contiguous and malloc3_contiguous_next\<close>

text \<open>
  The request of both routines: the three sizes, rounded up to the alignment.  \<open>None\<close> when
  the sum overflows or is zero.
\<close>

definition request_span :: "nat \<Rightarrow> nat \<Rightarrow> nat \<Rightarrow> nat \<Rightarrow> nat option" where
  "request_span d_size s_size u_size align =
     (if 4294967295 - s_size < d_size \<or> 4294967295 - u_size < u32 (d_size + s_size) then None
      else let total = u32 (d_size + s_size + u_size) in
        if total = 0 \<or> 4294967295 - (align - 1) < total then None
        else Some (and (u32 (total + align - 1)) (not32 (align - 1))))"

definition malloc3_contiguous ::
  "kmap \<Rightarrow> nat \<Rightarrow> nat \<Rightarrow> nat \<Rightarrow> nat \<Rightarrow> (nat \<times> nat list option \<times> kmap) res" where
  "malloc3_contiguous mp d_size s_size u_size align =
     (if align = 0 \<or> and align (align - 1) \<noteq> 0
      then Inl (Panic ''malloc3_contiguous: bad alignment'')
      else case request_span d_size s_size u_size align of
        None \<Rightarrow> Inr (0, None, mp)
      | Some span \<Rightarrow>
          andthen (malloc mp span) (\<lambda>(base, mp').
            if base = 0 then Inr (0, None, mp')
            else if and base (align - 1) \<noteq> 0
            then Inl (Panic ''malloc3_contiguous: unaligned map'')
            else Inr (span, Some [base, u32 (base + d_size), u32 (base + d_size + s_size)], mp')))"

text \<open>
  The search of \<open>malloc3_contiguous_next\<close>: one pass over the map, at and above the cursor in
  pass 0, below it in pass 1.  The answer is the selected entry and base.
\<close>

definition next_candidate ::
  "mapent \<Rightarrow> nat \<Rightarrow> nat \<Rightarrow> nat \<Rightarrow> bool \<Rightarrow> nat \<Rightarrow> nat option" where
  "next_candidate e span align nxt spare pass =
     (let end = u32 (m_addr e + m_size e);
          pick = (\<lambda>candidate.
            if \<not> spare \<and> candidate \<noteq> m_addr e \<and> candidate \<noteq> usub32 end span then
              let c = usub32 end span in
              if (pass = 0 \<and> c < nxt) \<or> (pass = 1 \<and> nxt \<le> c) then None else Some c
            else Some candidate)
      in if m_size e < span then None
         else if pass = 0 then
           let c = (if m_addr e < nxt then nxt else m_addr e) in
           if 4294967295 - (align - 1) < c then None
           else let candidate = and (u32 (c + align - 1)) (not32 (align - 1)) in
             if usub32 end span < candidate then None else pick candidate
         else if nxt \<le> m_addr e then None else pick (m_addr e))"

function next_pass ::
  "mapent list \<Rightarrow> nat \<Rightarrow> nat \<Rightarrow> nat \<Rightarrow> bool \<Rightarrow> nat \<Rightarrow> nat \<Rightarrow> (nat \<times> nat) option res" where
  "next_pass arr span align nxt spare pass bp =
     (if bp < length arr then
        if m_size (arr ! bp) = 0 then Inr None
        else if and (m_addr (arr ! bp)) (align - 1) \<noteq> 0 \<or> and (m_size (arr ! bp)) (align - 1) \<noteq> 0
        then Inl (Panic ''malloc3_contiguous_next: unaligned map'')
        else if u32 (m_addr (arr ! bp) + m_size (arr ! bp)) < m_addr (arr ! bp)
        then Inl (Panic ''malloc3_contiguous_next: corrupt map'')
        else case next_candidate (arr ! bp) span align nxt spare pass of
               Some c \<Rightarrow> Inr (Some (bp, c))
             | None \<Rightarrow> next_pass arr span align nxt spare pass (Suc bp)
      else Inl Wild)"
  by pat_completeness auto
termination
  by (relation "measure (\<lambda>(arr, span, align, nxt, spare, pass, bp). length arr - bp)") auto

text \<open>Take \<open>span\<close> units at \<open>sel\<close> out of entry \<open>bp\<close>: from its start, its end or its middle.\<close>

definition next_take :: "mapent list \<Rightarrow> nat \<Rightarrow> nat \<Rightarrow> nat \<Rightarrow> nat \<Rightarrow> mapent list res" where
  "next_take arr endp bp sel span =
     (let e = arr ! bp; base = m_addr e; end = u32 (base + m_size e) in
      if sel = base then
        let e' = e\<lparr>m_addr := u16 (base + span), m_size := u16 (m_size e - span)\<rparr> in
        if m_size e' = 0 then shift_left (arr[bp := e']) bp else Inr (arr[bp := e'])
      else if sel = usub32 end span then
        Inr (arr[bp := e\<lparr>m_size := u16 (m_size e - span)\<rparr>])
      else andthen (shift_right arr (Suc bp) (Suc endp)) (\<lambda>arr'.
        if Suc bp < length arr' then
          Inr (arr'[Suc bp := \<lparr>m_size = u16 (usub32 end (u16 (sel + span))), m_addr = u16 (sel + span)\<rparr>,
                    bp := e\<lparr>m_size := u16 (usub32 sel base)\<rparr>])
        else Inl Wild))"

definition malloc3_contiguous_next ::
  "kmap \<Rightarrow> nat \<Rightarrow> nat \<Rightarrow> nat \<Rightarrow> nat \<Rightarrow> nat \<Rightarrow> (nat \<times> nat list option \<times> nat \<times> kmap) res" where
  "malloc3_contiguous_next mp d_size s_size u_size align nxt =
     (if align = 0 \<or> and align (align - 1) \<noteq> 0
      then Inl (Panic ''malloc3_contiguous_next: bad alignment'')
      else case request_span d_size s_size u_size align of
        None \<Rightarrow> Inr (0, None, nxt, mp)
      | Some span \<Rightarrow>
          andthen (find_end (m_map mp) 0) (\<lambda>endp.
            let pass = next_pass (m_map mp) span align nxt (endp < m_limit mp) in
            andthen (andthen (pass 0 0) (\<lambda>s. case s of None \<Rightarrow> pass 1 0 | Some _ \<Rightarrow> Inr s)) (\<lambda>s.
              case s of
                None \<Rightarrow> Inr (0, None, nxt, mp)
              | Some (bp, sel) \<Rightarrow>
                  andthen (next_take (m_map mp) endp bp sel span) (\<lambda>arr.
                    Inr (span, Some [sel, u32 (sel + d_size), u32 (sel + d_size + s_size)],
                         u32 (sel + span), mp\<lparr>m_map := arr\<rparr>)))))"

section \<open>The free list a map describes\<close>

abbreviation zero_ent :: mapent where
  "zero_ent \<equiv> \<lparr>m_size = 0, m_addr = 0\<rparr>"

definition ent_seg :: "mapent \<Rightarrow> seg" where
  "ent_seg e = (m_addr e, m_size e)"

definition rmap_segs :: "kmap \<Rightarrow> seg list" where
  "rmap_segs mp = map ent_seg (takeWhile (\<lambda>e. m_size e \<noteq> 0) (m_map mp))"

definition rmap_ok :: "kmap \<Rightarrow> bool" where
  "rmap_ok mp \<longleftrightarrow>
     (let rest = dropWhile (\<lambda>e. m_size e \<noteq> 0) (m_map mp)
      in rest \<noteq> [] \<and> hd rest = zero_ent)
     \<and> canon 1 (rmap_segs mp)
     \<and> list_all (\<lambda>(a, n). a + n < 65536) (rmap_segs mp)
     \<and> Suc (m_limit mp) = length (m_map mp)"

lemma ent_seg_simps [simp]: "ent_seg \<lparr>m_size = n, m_addr = a\<rparr> = (a, n)"
  "fst (ent_seg e) = m_addr e" "snd (ent_seg e) = m_size e"
  by (simp_all add: ent_seg_def)

text \<open>
  The shape of a good map: entries, then the zero entry that ends it, then slots whose
  contents do not matter (\<open>malloc3\<close> leaves stale entries there).
\<close>

definition entries :: "mapent list \<Rightarrow> bool" where
  "entries es \<longleftrightarrow> (\<forall>e \<in> set es. m_size e \<noteq> 0)"

lemma entries_simps [simp]:
  "entries []" "entries (e # es) \<longleftrightarrow> m_size e \<noteq> 0 \<and> entries es"
  "entries (es @ fs) \<longleftrightarrow> entries es \<and> entries fs"
  by (auto simp: entries_def)

lemma canon_entries: "canon lo (map ent_seg es) \<Longrightarrow> entries es"
  using canon_pos[of lo "map ent_seg es"] by (fastforce simp: entries_def ent_seg_def)

lemma rmap_segs_shape:
  "entries es \<Longrightarrow> m_map mp = es @ zero_ent # zs \<Longrightarrow> rmap_segs mp = map ent_seg es"
  by (simp add: rmap_segs_def entries_def takeWhile_append2)

lemma rmap_okI:
  assumes "m_map mp = es @ zero_ent # zs" and "canon 1 (map ent_seg es)"
    and "\<forall>e \<in> set es. m_addr e + m_size e < 65536" and "m_limit mp = length es + length zs"
  shows "rmap_ok mp" and "rmap_segs mp = map ent_seg es"
proof -
  have es: "entries es" using canon_entries assms(2) by blast
  show segs: "rmap_segs mp = map ent_seg es" using rmap_segs_shape[OF es assms(1)] .
  show "rmap_ok mp"
    using assms es by (auto simp: rmap_ok_def segs entries_def list_all_iff dropWhile_append2 ent_seg_def)
qed

lemma rmap_okE:
  assumes "rmap_ok mp"
  obtains es zs where "m_map mp = es @ zero_ent # zs" "entries es"
    "rmap_segs mp = map ent_seg es" "canon 1 (map ent_seg es)"
    "\<forall>e \<in> set es. m_addr e + m_size e < 65536" "m_limit mp = length es + length zs"
proof -
  let ?P = "\<lambda>e. m_size e \<noteq> 0"
  let ?es = "takeWhile ?P (m_map mp)" and ?rest = "dropWhile ?P (m_map mp)"
  have "?rest \<noteq> [] \<and> hd ?rest = zero_ent"
    using assms by (simp add: rmap_ok_def Let_def)
  then obtain zs where "?rest = zero_ent # zs" by (cases ?rest) auto
  then have m: "m_map mp = ?es @ zero_ent # zs" using takeWhile_dropWhile_id by metis
  moreover have "entries ?es" by (auto simp: entries_def dest: set_takeWhileD)
  moreover have "rmap_segs mp = map ent_seg ?es" by (simp add: rmap_segs_def)
  moreover have "Suc (m_limit mp) = length (m_map mp)" using assms by (simp add: rmap_ok_def)
  then have "m_limit mp = length ?es + length zs" using arg_cong[OF m, of length] by simp
  ultimately show ?thesis
    using that[of ?es zs] assms by (auto simp: rmap_ok_def list_all_iff ent_seg_def)
qed

section \<open>The loops\<close>

declare malloc_search.simps [simp del] shift_left.simps [simp del]
  mfree_search.simps [simp del] find_end.simps [simp del]

lemma malloc_search_None:
  "entries es \<Longrightarrow> \<forall>e \<in> set es. m_size e < sz \<Longrightarrow> m_size z = 0 \<Longrightarrow>
     malloc_search (pre @ es @ z # zs) sz (length pre) = Inr None"
proof (induction es arbitrary: pre)
  case (Cons e es)
  then show ?case using Cons.IH[of "pre @ [e]"] by (subst malloc_search.simps) simp
qed (subst malloc_search.simps, simp)

lemma malloc_search_Some:
  "entries es \<Longrightarrow> \<forall>e \<in> set es. m_size e < sz \<Longrightarrow> sz \<le> m_size e \<Longrightarrow> m_size e \<noteq> 0 \<Longrightarrow>
     malloc_search (pre @ es @ e # zs) sz (length pre) = Inr (Some (length pre + length es))"
proof (induction es arbitrary: pre)
  case (Cons f es)
  then show ?case using Cons.IH[of "pre @ [f]"] by (subst malloc_search.simps) simp
qed (subst malloc_search.simps, simp)

lemma shift_left_run:
  "entries es \<Longrightarrow> m_size z = 0 \<Longrightarrow>
     shift_left (pre @ x # es @ z # zs) (length pre) = Inr (pre @ es @ z # z # zs)"
proof (induction es arbitrary: pre x)
  case Nil
  then show ?case by (subst shift_left.simps) (simp add: nth_append)
next
  case (Cons e es)
  then show ?case using Cons.IH[of "pre @ [e]" e]
    by (subst shift_left.simps) (simp add: nth_append)
qed

lemma mfree_search_run:
  "entries es \<Longrightarrow> \<forall>e \<in> set es. m_addr e \<le> a \<Longrightarrow> m_size f = 0 \<or> a < m_addr f \<Longrightarrow>
     mfree_search (pre @ es @ f # fs) a (length pre) = Inr (length pre + length es)"
proof (induction es arbitrary: pre)
  case (Cons e es)
  then show ?case using Cons.IH[of "pre @ [e]"] by (subst mfree_search.simps) simp
qed (subst mfree_search.simps, auto)

lemma find_end_run:
  "entries es \<Longrightarrow> m_size z = 0 \<Longrightarrow>
     find_end (pre @ es @ z # zs) (length pre) = Inr (length pre + length es)"
proof (induction es arbitrary: pre)
  case (Cons e es)
  then show ?case using Cons.IH[of "pre @ [e]"] by (subst find_end.simps) simp
qed (subst find_end.simps, simp)

section \<open>malloc is first fit\<close>

lemma first_fit_cases:
  fixes es :: "mapent list"
  obtains (none) "\<forall>e \<in> set es. m_size e < n"
  | (fit) es1 e es2 where "es = es1 @ e # es2" "\<forall>e \<in> set es1. m_size e < n" "n \<le> m_size e"
proof (cases "\<exists>e \<in> set es. n \<le> m_size e")
  case True
  then show ?thesis using split_list_first_prop[of es "\<lambda>e. n \<le> m_size e"] fit
    by (metis not_less)
qed (use none in force)

text \<open>
  \<open>malloc\<close> never faults on a good map and changes the free list exactly as the reference
  allocator does.
\<close>

lemma malloc_refines:
  assumes ok: "rmap_ok mp" and "0 < sz"
  shows "case ff_alloc sz (rmap_segs mp) of
           None \<Rightarrow> malloc mp sz = Inr (0, mp)
         | Some (a, ys) \<Rightarrow> \<exists>mp'. malloc mp sz = Inr (a, mp') \<and> rmap_ok mp' \<and> rmap_segs mp' = ys
             \<and> m_limit mp' = m_limit mp"
proof -
  obtain es zs where m: "m_map mp = es @ zero_ent # zs" and es: "entries es"
    and segs: "rmap_segs mp = map ent_seg es" and can: "canon 1 (map ent_seg es)"
    and bnd: "\<forall>e \<in> set es. m_addr e + m_size e < 65536" and lim: "m_limit mp = length es + length zs"
    using ok by (rule rmap_okE)
  show ?thesis
  proof (cases es sz rule: first_fit_cases)
    case none
    then have "ff_alloc sz (rmap_segs mp) = None" by (auto simp: segs ff_alloc_None ent_seg_def)
    moreover have "malloc_search (m_map mp) sz 0 = Inr None"
      using malloc_search_None[OF es none, of zero_ent "[]" zs] by (simp add: m)
    ultimately show ?thesis using \<open>0 < sz\<close> by (simp add: malloc_def)
  next
    case (fit es1 e es2)
    let ?n = "m_size e" and ?a = "m_addr e"
    have e: "?n \<noteq> 0" "?a + ?n < 65536" and es12: "entries es1" "entries es2"
      using es bnd fit by auto
    have ff: "ff_alloc sz (rmap_segs mp) = Some (?a, map ent_seg es1 @
        (if ?n = sz then map ent_seg es2 else (?a + sz, ?n - sz) # map ent_seg es2))"
      using ff_alloc_split[of "map ent_seg es1" sz ?n ?a "map ent_seg es2"] fit segs
      by (auto simp: ent_seg_def)
    have can': "canon 1 (map ent_seg es1 @
        (if ?n = sz then map ent_seg es2 else (?a + sz, ?n - sz) # map ent_seg es2))"
      using ff_alloc_Some[OF _ \<open>0 < sz\<close> ff] can segs by simp
    have srch: "malloc_search (m_map mp) sz 0 = Inr (Some (length es1))"
      using malloc_search_Some[OF es12(1) fit(2,3) e(1), of "[]"] fit(1) by (simp add: m)
    show ?thesis
    proof (cases "?n = sz")
      case True
      let ?e = "e\<lparr>m_size := 0\<rparr>"
      let ?mp = "mp\<lparr>m_map := (es1 @ es2) @ zero_ent # zero_ent # zs\<rparr>"
      have "shift_left (es1 @ ?e # es2 @ zero_ent # zs) (length es1)
          = Inr (es1 @ es2 @ zero_ent # zero_ent # zs)"
        by (rule shift_left_run[OF es12(2)]) simp
      then have "malloc mp sz = Inr (?a, ?mp)"
        using True \<open>0 < sz\<close> srch fit(1)
        by (simp add: malloc_def Let_def m)
      moreover have "rmap_ok ?mp \<and> rmap_segs ?mp = map ent_seg (es1 @ es2)"
        using rmap_okI[of ?mp "es1 @ es2" "zero_ent # zs"] can' True bnd fit(1) lim by simp
      ultimately show ?thesis using ff True by simp
    next
      case False
      let ?e = "\<lparr>m_size = ?n - sz, m_addr = ?a + sz\<rparr>"
      let ?mp = "mp\<lparr>m_map := (es1 @ ?e # es2) @ zero_ent # zs\<rparr>"
      have "malloc mp sz = Inr (?a, ?mp)"
        using False \<open>0 < sz\<close> srch fit e
        by (simp add: malloc_def Let_def m)
      moreover have "rmap_ok ?mp \<and> rmap_segs ?mp = map ent_seg (es1 @ ?e # es2)"
        using rmap_okI[of ?mp "es1 @ ?e # es2" zs] can' False bnd fit lim by simp
      ultimately show ?thesis using ff False by simp
    qed
  qed
qed

section \<open>mfree inserts and coalesces\<close>

lemma address_split:
  fixes es :: "mapent list"
  obtains es1 es2 where "es = es1 @ es2" "\<forall>e \<in> set es1. m_addr e \<le> a"
    "es2 \<noteq> [] \<Longrightarrow> a < m_addr (hd es2)"
proof
  show "es = takeWhile (\<lambda>e. m_addr e \<le> a) es @ dropWhile (\<lambda>e. m_addr e \<le> a) es" by simp
  show "\<forall>e \<in> set (takeWhile (\<lambda>e. m_addr e \<le> a) es). m_addr e \<le> a"
    by (auto dest: set_takeWhileD)
  show "a < m_addr (hd (dropWhile (\<lambda>e. m_addr e \<le> a) es))"
    if "dropWhile (\<lambda>e. m_addr e \<le> a) es \<noteq> []"
    using hd_dropWhile[OF that] by simp
qed

lemma mfree_search_split:
  assumes "entries es1" and "\<forall>e \<in> set es1. m_addr e \<le> a" and "es2 \<noteq> [] \<Longrightarrow> a < m_addr (hd es2)"
  shows "mfree_search (es1 @ es2 @ zero_ent # zs) a 0 = Inr (length es1)"
  using assms mfree_search_run[of es1 a zero_ent "[]" zs]
    mfree_search_run[of es1 a "hd es2" "[]" "tl es2 @ zero_ent # zs"]
  by (cases es2) auto

text \<open>The four ways \<open>mfree\<close> has of returning space, on an array split at the address.\<close>

lemma mfree_both:
  assumes "entries fs" "entries (l # r # gs)" "\<forall>e \<in> set (fs @ [l]). m_addr e \<le> a" "a < m_addr r"
    and "m_addr l + m_size l = a" "a + n = m_addr r" "m_addr r + m_size r < 65536" "0 < n" "0 < a"
    and m: "m_map mp = fs @ l # r # gs @ zero_ent # zs"
  shows "mfree mp n a = Inr (False, mp\<lparr>m_map :=
           fs @ l\<lparr>m_size := m_size l + n + m_size r\<rparr> # gs @ zero_ent # zero_ent # zs\<rparr>)"
proof -
  have "mfree_search (m_map mp) a 0 = Inr (Suc (length fs))"
    using mfree_search_split[of "fs @ [l]" a "r # gs" zs] assms by simp
  moreover have "shift_left ((fs @ [l\<lparr>m_size := m_size l + n + m_size r\<rparr>]) @ r # gs @ zero_ent # zs)
      (length (fs @ [l\<lparr>m_size := m_size l + n + m_size r\<rparr>])) =
      Inr ((fs @ [l\<lparr>m_size := m_size l + n + m_size r\<rparr>]) @ gs @ zero_ent # zero_ent # zs)"
    by (rule shift_left_run) (use assms in simp_all)
  ultimately show ?thesis
    using assms by (simp add: mfree_def Let_def nth_append)
qed

lemma mfree_left:
  assumes "entries fs" "entries (l # es2)" "\<forall>e \<in> set (fs @ [l]). m_addr e \<le> a"
    and "es2 \<noteq> [] \<Longrightarrow> a + n < m_addr (hd es2)"
    and "m_addr l + m_size l = a" "a + n < 65536" "0 < n" "0 < a"
    and m: "m_map mp = fs @ l # es2 @ zero_ent # zs"
  shows "mfree mp n a = Inr (False, mp\<lparr>m_map :=
           fs @ l\<lparr>m_size := m_size l + n\<rparr> # es2 @ zero_ent # zs\<rparr>)"
proof -
  have "mfree_search (m_map mp) a 0 = Inr (Suc (length fs))"
    using mfree_search_split[of "fs @ [l]" a es2 zs] assms by fastforce
  then show ?thesis
    using assms by (cases es2) (auto simp: mfree_def Let_def nth_append)
qed

lemma mfree_right:
  assumes "entries es1" "entries (r # gs)" "\<forall>e \<in> set es1. m_addr e \<le> a" "a < m_addr r"
    and "es1 \<noteq> [] \<Longrightarrow> m_addr (last es1) + m_size (last es1) < a"
    and "a + n = m_addr r" "m_addr r + m_size r < 65536" "0 < n" "0 < a"
    and m: "m_map mp = es1 @ r # gs @ zero_ent # zs"
  shows "mfree mp n a = Inr (False, mp\<lparr>m_map :=
           es1 @ \<lparr>m_size = m_size r + n, m_addr = a\<rparr> # gs @ zero_ent # zs\<rparr>)"
proof -
  have "mfree_search (m_map mp) a 0 = Inr (length es1)"
    using mfree_search_split[of es1 a "r # gs" zs] assms by simp
  then show ?thesis
    using assms
    by (cases es1 rule: rev_cases) (auto simp: mfree_def Let_def nth_append list_update_append)
qed

lemma mfree_new:
  assumes "entries es1" "entries es2" "\<forall>e \<in> set es1. m_addr e \<le> a"
    and "es2 \<noteq> [] \<Longrightarrow> a + n < m_addr (hd es2)"
    and "es1 \<noteq> [] \<Longrightarrow> m_addr (last es1) + m_size (last es1) < a"
    and "a + n < 65536" "0 < n" "0 < a"
    and m: "m_map mp = es1 @ es2 @ zero_ent # zs"
  shows "m_limit mp \<le> length es1 + length es2 \<Longrightarrow> mfree mp n a = Inr (True, mp)"
    and "length es1 + length es2 < m_limit mp \<Longrightarrow> zs = z # zs' \<Longrightarrow>
         mfree mp n a = Inr (False, mp\<lparr>m_map :=
           es1 @ \<lparr>m_size = n, m_addr = a\<rparr> # es2 @ zero_ent # zs'\<rparr>)"
proof -
  have srch: "mfree_search (m_map mp) a 0 = Inr (length es1)"
    using mfree_search_split[of es1 a es2 zs] assms by fastforce
  have fe: "find_end (m_map mp) (length es1) = Inr (length es1 + length es2)"
    using find_end_run[of es2 zero_ent es1 zs] assms by simp
  have noleft: "\<not> (length es1 \<noteq> 0 \<and>
      a \<le> u32 (m_addr (m_map mp ! (length es1 - 1)) + m_size (m_map mp ! (length es1 - 1))))"
    using assms by (cases es1 rule: rev_cases) (auto simp: nth_append)
  have noright: "\<not> (m_size (m_map mp ! length es1) \<noteq> 0 \<and>
      m_addr (m_map mp ! length es1) \<le> u32 (a + n))"
    using assms by (cases es2) auto
  show "m_limit mp \<le> length es1 + length es2 \<Longrightarrow> mfree mp n a = Inr (True, mp)"
    using assms(6-8) srch fe noleft noright by (auto simp: mfree_def Let_def)
  assume room: "length es1 + length es2 < m_limit mp" and zs: "zs = z # zs'"
  have "\<exists>x. shift_right (m_map mp) (length es1) (Suc (length es1 + length es2)) =
      Inr (es1 @ x # es2 @ zero_ent # zs')"
    using shift_right_tail[of es1 "es2 @ [zero_ent]" z zs'] m zs by simp
  then obtain x where x: "shift_right (m_map mp) (length es1) (Suc (length es1 + length es2)) =
      Inr (es1 @ x # es2 @ zero_ent # zs')" by blast
  show "mfree mp n a = Inr (False, mp\<lparr>m_map :=
      es1 @ \<lparr>m_size = n, m_addr = a\<rparr> # es2 @ zero_ent # zs'\<rparr>)"
    using assms(6-8) srch fe noleft noright room
    by (auto simp: mfree_def Let_def x)
qed

text \<open>What a call of \<open>mfree\<close> that keeps the region leaves in the array.\<close>

definition mfree_yields :: "kmap \<Rightarrow> nat \<Rightarrow> nat \<Rightarrow> mapent list \<Rightarrow> nat \<Rightarrow> bool" where
  "mfree_yields mp n a es k \<longleftrightarrow> (\<exists>fs ys.
     mfree mp n a = Inr (False, mp\<lparr>m_map := fs @ zero_ent # ys\<rparr>)
     \<and> map ent_seg fs = seg_insert a n (map ent_seg es)
     \<and> (\<forall>e \<in> set fs. m_addr e + m_size e < 65536) \<and> length fs + length ys = length es + k)"

lemma mfree_yieldsI:
  "mfree mp n a = Inr (False, mp\<lparr>m_map := fs @ zero_ent # ys\<rparr>) \<Longrightarrow>
   map ent_seg fs = seg_insert a n (map ent_seg es) \<Longrightarrow>
   \<forall>e \<in> set fs. m_addr e + m_size e < 65536 \<Longrightarrow> length fs + length ys = length es + k \<Longrightarrow>
   mfree_yields mp n a es k"
  by (auto simp: mfree_yields_def)

lemma mfree_touches_left:
  assumes es: "entries (fs @ l # es2)" and can: "canon 1 (map ent_seg (fs @ l # es2))"
    and lo: "\<forall>e \<in> set (fs @ [l]). m_addr e \<le> a" and hi: "es2 \<noteq> [] \<Longrightarrow> a + n \<le> m_addr (hd es2)"
    and bnd: "\<forall>e \<in> set (fs @ l # es2). m_addr e + m_size e < 65536"
    and pos: "a + n < 65536" "0 < n" "0 < a" and l: "m_addr l + m_size l = a"
    and m: "m_map mp = fs @ l # es2 @ zero_ent # zs"
  shows "mfree_yields mp n a (fs @ l # es2) (length zs)"
proof -
  have "\<forall>(c, j) \<in> set (map ent_seg fs). c + j < m_addr l"
    using canon_ends_before[of 1 "map ent_seg fs" "m_addr l" "m_size l" "map ent_seg es2"]
      can by (auto simp: ent_seg_def)
  then have "\<forall>(c, j) \<in> set (map ent_seg fs). c + j < a" using l by auto
  then have ins: "seg_insert a n (map ent_seg (fs @ l # es2)) =
      map ent_seg fs @ seg_insert a n ((m_addr l, m_size l) # map ent_seg es2)"
    using seg_insert_skip[of "map ent_seg fs" a n] by (simp add: ent_seg_def)
  show ?thesis
  proof (cases "es2 \<noteq> [] \<and> a + n = m_addr (hd es2)")
    case True
    then obtain r gs where rg: "es2 = r # gs" "a + n = m_addr r" by (cases es2) auto
    show ?thesis
      by (rule mfree_yieldsI[of _ _ _ "fs @ l\<lparr>m_size := m_size l + n + m_size r\<rparr> # gs" "zero_ent # zs"])
        (use mfree_both[of fs l r gs a n mp zs] es lo pos m bnd l rg ins
          in \<open>auto simp: ent_seg_def\<close>)
  next
    case False
    then have far: "es2 \<noteq> [] \<Longrightarrow> a + n < m_addr (hd es2)" using hi by fastforce
    have "seg_insert a n (map ent_seg (fs @ l # es2)) =
        map ent_seg (fs @ l\<lparr>m_size := m_size l + n\<rparr> # es2)"
      using ins l far by (cases es2) (auto simp: ent_seg_def)
    then show ?thesis
      by (intro mfree_yieldsI[of _ _ _ "fs @ l\<lparr>m_size := m_size l + n\<rparr> # es2" zs])
        (use mfree_left[of fs l es2 a n mp zs] es lo pos m bnd l far in auto)
  qed
qed

lemma mfree_apart_left:
  assumes es: "entries es1" "entries es2" and can: "canon 1 (map ent_seg (es1 @ es2))"
    and lo: "\<forall>e \<in> set es1. m_addr e \<le> a" and hi: "es2 \<noteq> [] \<Longrightarrow> a + n \<le> m_addr (hd es2)"
    and gap: "es1 \<noteq> [] \<Longrightarrow> m_addr (last es1) + m_size (last es1) < a"
    and bnd: "\<forall>e \<in> set (es1 @ es2). m_addr e + m_size e < 65536"
    and pos: "a + n < 65536" "0 < n" "0 < a" and lim: "m_limit mp = length (es1 @ es2) + length zs"
    and m: "m_map mp = es1 @ es2 @ zero_ent # zs"
  shows "if length (seg_insert a n (map ent_seg (es1 @ es2))) \<le> m_limit mp
         then mfree_yields mp n a (es1 @ es2) (length zs) else mfree mp n a = Inr (True, mp)"
proof -
  have "\<forall>(c, j) \<in> set (map ent_seg es1). c + j < a"
  proof (cases es1 rule: rev_cases)
    case (snoc fs l)
    then show ?thesis
      using canon_ends_before[of 1 "map ent_seg fs" "m_addr l" "m_size l" "map ent_seg es2"]
        can gap by (fastforce simp: ent_seg_def)
  qed simp
  then have ins: "seg_insert a n (map ent_seg (es1 @ es2)) =
      map ent_seg es1 @ seg_insert a n (map ent_seg es2)"
    using seg_insert_skip[of "map ent_seg es1" a n] by simp
  show ?thesis
  proof (cases "es2 \<noteq> [] \<and> a + n = m_addr (hd es2)")
    case True
    then obtain r gs where rg: "es2 = r # gs" "a + n = m_addr r" by (cases es2) auto
    have "mfree_yields mp n a (es1 @ es2) (length zs)"
      by (rule mfree_yieldsI[of _ _ _ "es1 @ \<lparr>m_size = m_size r + n, m_addr = a\<rparr> # gs" zs])
        (use mfree_right[of es1 r gs a n mp zs] es lo hi pos m bnd
          gap rg ins in \<open>auto simp: ent_seg_def\<close>)
    then show ?thesis using ins rg lim pos by (simp add: ent_seg_def)
  next
    case False
    then have far: "es2 \<noteq> [] \<Longrightarrow> a + n < m_addr (hd es2)" using hi by fastforce
    have new: "seg_insert a n (map ent_seg (es1 @ es2)) =
        map ent_seg (es1 @ \<lparr>m_size = n, m_addr = a\<rparr> # es2)"
      using ins far by (cases es2) (auto simp: ent_seg_def)
    note mf = mfree_new[OF es lo far gap pos m]
    show ?thesis
    proof (cases zs)
      case Nil
      then show ?thesis using mf(1) lim new by auto
    next
      case (Cons z ys)
      have "mfree_yields mp n a (es1 @ es2) (length zs)"
        by (rule mfree_yieldsI[of _ _ _ "es1 @ \<lparr>m_size = n, m_addr = a\<rparr> # es2" ys])
          (use mf(2)[of z ys] new bnd pos lim Cons in auto)
      then show ?thesis using new lim Cons by simp
    qed
  qed
qed

text \<open>
  \<open>mfree\<close> of a region that is not free inserts it into the free list and coalesces, unless
  that takes more entries than the map has, in which case the map stays as it is and the
  region is lost.
\<close>

lemma mfree_refines:
  assumes ok: "rmap_ok mp" and n: "0 < n" and a: "0 < a" and bound: "a + n < 65536"
    and dis: "{a ..< a + n} \<inter> units (rmap_segs mp) = {}"
  shows "if length (seg_insert a n (rmap_segs mp)) \<le> m_limit mp
         then \<exists>mp'. mfree mp n a = Inr (False, mp') \<and> rmap_ok mp' \<and> m_limit mp' = m_limit mp
                \<and> rmap_segs mp' = seg_insert a n (rmap_segs mp)
         else mfree mp n a = Inr (True, mp)"
proof -
  obtain es zs where m: "m_map mp = es @ zero_ent # zs" and es: "entries es"
    and segs: "rmap_segs mp = map ent_seg es" and can: "canon 1 (map ent_seg es)"
    and bnd: "\<forall>e \<in> set es. m_addr e + m_size e < 65536" and lim: "m_limit mp = length es + length zs"
    using ok by (rule rmap_okE)
  obtain es1 es2 where sp: "es = es1 @ es2" and lo: "\<forall>e \<in> set es1. m_addr e \<le> a"
    and hi: "es2 \<noteq> [] \<Longrightarrow> a < m_addr (hd es2)"
    using address_split[of es a] by blast
  have sep: "a + n \<le> m_addr e \<or> m_addr e + m_size e \<le> a" if "e \<in> set es" for e
  proof -
    have "{m_addr e ..< m_addr e + m_size e} \<subseteq> units (rmap_segs mp)"
      using that by (intro in_units) (force simp: segs ent_seg_def)
    then have "{a ..< a + n} \<inter> {m_addr e ..< m_addr e + m_size e} = {}" using dis by blast
    moreover have "0 < m_size e" using es that by (simp add: entries_def)
    ultimately show ?thesis using ranges_disjoint n by blast
  qed
  have hi': "a + n \<le> m_addr (hd es2)" if "es2 \<noteq> []"
    using sep[of "hd es2"] hi[OF that] sp that by auto
  have "if length (seg_insert a n (map ent_seg es)) \<le> m_limit mp
        then mfree_yields mp n a es (length zs) else mfree mp n a = Inr (True, mp)"
  proof (cases "es1 \<noteq> [] \<and> m_addr (last es1) + m_size (last es1) = a")
    case True
    then obtain fs l where fs: "es1 = fs @ [l]" "m_addr l + m_size l = a"
      by (cases es1 rule: rev_cases) auto
    have y: "mfree_yields mp n a es (length zs)"
      using mfree_touches_left[of fs l es2 a n mp zs] es can lo hi' bnd bound n a fs m sp by simp
    then have "length (seg_insert a n (map ent_seg es)) \<le> m_limit mp"
      unfolding mfree_yields_def lim by (metis le_add1 length_map)
    then show ?thesis using y by simp
  next
    case False
    have "m_addr (last es1) + m_size (last es1) < a" if "es1 \<noteq> []"
      using sep[of "last es1"] lo that False sp n by (fastforce dest: last_in_set)
    then show ?thesis
      using mfree_apart_left[of es1 es2 a n mp zs] es can lo hi' bnd bound n a m sp lim by simp
  qed
  moreover have "canon 1 (seg_insert a n (rmap_segs mp))"
    using seg_insert_spec[of 1 "rmap_segs mp" a n] can segs n a dis by simp
  ultimately show ?thesis
    using rmap_okI[of "mp\<lparr>m_map := _ @ zero_ent # _\<rparr>"] lim
    unfolding mfree_yields_def segs by (fastforce split: if_splits)
qed

section \<open>malloc3_contiguous_next\<close>

declare next_pass.simps [simp del]

text \<open>Every entry starts and ends on a multiple of \<open>al\<close>.\<close>

definition rmap_aligned :: "nat \<Rightarrow> kmap \<Rightarrow> bool" where
  "rmap_aligned al mp \<longleftrightarrow> list_all (\<lambda>(a, n). al dvd a \<and> al dvd n) (rmap_segs mp)"

definition ent_fine :: "nat \<Rightarrow> mapent \<Rightarrow> bool" where
  "ent_fine al e \<longleftrightarrow> m_addr e + m_size e < 65536 \<and> al dvd m_addr e \<and> al dvd m_size e"

lemma round_up_pow2:
  assumes "x \<le> 4294967295 - (2 ^ k - 1)" and "k \<le> 32"
  shows "and (u32 (x + 2 ^ k - 1)) (not32 (2 ^ k - 1)) = (x + 2 ^ k - 1) div 2 ^ k * 2 ^ k"
proof -
  have "(2::nat) ^ k \<le> 2 ^ 32" using assms(2) by (intro power_increasing) auto
  then have "x + 2 ^ k - 1 < 4294967296" using assms(1) by simp
  then show ?thesis using round_down_pow2[OF _ assms(2)] by simp
qed

lemma round_up_bounds:
  fixes x p :: nat
  assumes "0 < p"
  shows "x \<le> (x + p - 1) div p * p" and "p dvd (x + p - 1) div p * p"
    and "p dvd y \<Longrightarrow> x \<le> y \<Longrightarrow> (x + p - 1) div p * p \<le> y"
proof -
  have "x + p - 1 = (x + p - 1) div p * p + (x + p - 1) mod p" by simp
  moreover have "(x + p - 1) mod p < p" using assms by simp
  ultimately show "x \<le> (x + p - 1) div p * p" by linarith
  show "p dvd (x + p - 1) div p * p" by simp
  assume "p dvd y" and "x \<le> y"
  then obtain q where q: "y = q * p" by (metis dvd_def mult.commute)
  have "x + p - 1 < Suc q * p" using \<open>x \<le> y\<close> q assms by simp
  then have "(x + p - 1) div p < Suc q" using less_mult_imp_div_less by blast
  then show "(x + p - 1) div p * p \<le> y" using q by simp
qed

text \<open>What a request for three segments spans.\<close>

lemma request_span_Some:
  assumes "request_span d s u (2 ^ k) = Some span" and "k \<le> 32"
    and "d < 4294967296" "s < 4294967296" "u < 4294967296"
  shows "2 ^ k dvd span" and "d + s + u \<le> span" and "0 < span"
proof -
  have fit: "d + s \<le> 4294967295" "d + s + u \<le> 4294967295" "d + s + u \<noteq> 0"
    "d + s + u \<le> 4294967295 - (2 ^ k - 1)"
    "span = and (u32 (d + s + u + 2 ^ k - 1)) (not32 (2 ^ k - 1))"
    using assms by (auto simp: request_span_def Let_def split: if_splits)
  have "span = (d + s + u + 2 ^ k - 1) div 2 ^ k * 2 ^ k"
    using round_up_pow2[OF fit(4) assms(2)] fit(5) by simp
  then show "2 ^ k dvd span" and "d + s + u \<le> span" and "0 < span"
    using round_up_bounds(1)[of "2 ^ k" "d + s + u"] fit(3) by (auto intro: ccontr)
qed

text \<open>A candidate lies inside its entry, is aligned, and splits it only when a slot is spare.\<close>

lemma next_candidate_sound:
  assumes e: "ent_fine (2 ^ k) e" and k: "k \<le> 32" and span: "2 ^ k dvd span"
    and c: "next_candidate e span (2 ^ k) nxt spare pass = Some c"
  shows "m_addr e \<le> c" and "c + span \<le> m_addr e + m_size e" and "2 ^ k dvd c"
    and "spare \<or> c = m_addr e \<or> c + span = m_addr e + m_size e"
proof -
  let ?stop = "m_addr e + m_size e"
  have big: "span \<le> m_size e" using c by (auto simp: next_candidate_def Let_def split: if_splits)
  have fit: "?stop < 65536" and al: "2 ^ k dvd m_addr e" "2 ^ k dvd m_size e"
    using e by (auto simp: ent_fine_def)
  then have ende: "u32 ?stop = ?stop" and sub: "usub32 ?stop span = ?stop - span"
    using big by (auto simp: usub32_id)
  have alsub: "2 ^ k dvd ?stop - span" using al span by (intro dvd_diff_nat dvd_add)
  define hi where "hi = (if m_addr e < nxt then nxt else m_addr e)"
  have up: "m_addr e \<le> (hi + 2 ^ k - 1) div 2 ^ k * 2 ^ k"
    using round_up_bounds(1)[of "2 ^ k" hi] by (auto simp: hi_def)
  consider "c = m_addr e" | "c = ?stop - span"
    | "spare" "c = (hi + 2 ^ k - 1) div 2 ^ k * 2 ^ k" "c \<le> ?stop - span"
  proof (cases "pass = 0")
    case True
    then have "hi \<le> 4294967295 - (2 ^ k - 1)"
      using c by (simp add: next_candidate_def Let_def hi_def split: if_splits)
    then show ?thesis
      using c True round_up_pow2[OF _ k, of hi] that
      by (simp add: next_candidate_def Let_def ende sub split: if_splits flip: hi_def) blast
  next
    case False
    then show ?thesis
      using c that by (simp add: next_candidate_def Let_def ende sub split: if_splits)
  qed
  note cases = this
  show "m_addr e \<le> c" by (cases rule: cases) (use big up in auto)
  show "c + span \<le> ?stop" by (cases rule: cases) (use big in auto)
  show "2 ^ k dvd c" by (cases rule: cases) (use al alsub in auto)
  show "spare \<or> c = m_addr e \<or> c + span = ?stop" by (cases rule: cases) (use big in auto)
qed

text \<open>An entry that is large enough has a candidate in one of the two passes.\<close>

lemma next_candidate_complete:
  assumes e: "ent_fine (2 ^ k) e" and k: "k \<le> 16" and big: "span \<le> m_size e"
  shows "nxt \<le> m_addr e \<Longrightarrow> next_candidate e span (2 ^ k) nxt spare 0 = Some (m_addr e)"
    and "m_addr e < nxt \<Longrightarrow> next_candidate e span (2 ^ k) nxt spare 1 = Some (m_addr e)"
proof -
  have fit: "m_addr e + m_size e < 65536" and al: "2 ^ k dvd m_addr e"
    using e by (auto simp: ent_fine_def)
  have "(2::nat) ^ k \<le> 2 ^ 16" using k by (intro power_increasing) auto
  then have small: "m_addr e \<le> 4294967295 - (2 ^ k - 1)" using fit by simp
  have "(m_addr e + 2 ^ k - 1) div 2 ^ k * 2 ^ k = m_addr e"
    using round_up_bounds(1)[of "2 ^ k" "m_addr e"] round_up_bounds(3)[of "2 ^ k" "m_addr e" "m_addr e"] al
    by simp
  then have "and (u32 (m_addr e + 2 ^ k - 1)) (not32 (2 ^ k - 1)) = m_addr e"
    using round_up_pow2[OF small] k by simp
  moreover have "usub32 (m_addr e + m_size e) span = m_addr e + m_size e - span"
    using fit big by (intro usub32_id) auto
  ultimately show "nxt \<le> m_addr e \<Longrightarrow> next_candidate e span (2 ^ k) nxt spare 0 = Some (m_addr e)"
    using small big fit by (simp add: next_candidate_def Let_def)
  show "m_addr e < nxt \<Longrightarrow> next_candidate e span (2 ^ k) nxt spare 1 = Some (m_addr e)"
    using big by (simp add: next_candidate_def Let_def)
qed

text \<open>One pass over a good map selects the first entry that has a candidate.\<close>

lemma next_pass_run:
  assumes "entries es" "\<forall>e \<in> set es. ent_fine (2 ^ k) e" "m_size z = 0"
  shows "(next_pass (pre @ es @ z # zs) span (2 ^ k) nxt spare pass (length pre) = Inr None
            \<and> (\<forall>e \<in> set es. next_candidate e span (2 ^ k) nxt spare pass = None))
       \<or> (\<exists>es1 e es2 c. es = es1 @ e # es2 \<and> next_candidate e span (2 ^ k) nxt spare pass = Some c
            \<and> next_pass (pre @ es @ z # zs) span (2 ^ k) nxt spare pass (length pre)
                = Inr (Some (length pre + length es1, c)))"
  using assms
proof (induction es arbitrary: pre)
  case Nil
  then show ?case by (subst next_pass.simps) simp
next
  case (Cons e es)
  let ?arr = "pre @ (e # es) @ z # zs"
  have fine: "m_addr e + m_size e < 65536" "2 ^ k dvd m_addr e" "2 ^ k dvd m_size e"
    using Cons.prems by (auto simp: ent_fine_def)
  have "and (m_addr e) (2 ^ k - 1) = 0" "and (m_size e) (2 ^ k - 1) = 0"
    using fine by (simp_all only: and_pow2_minus_1 dvd_eq_mod_eq_0)
  then have step: "next_pass ?arr span (2 ^ k) nxt spare pass (length pre) =
      (case next_candidate e span (2 ^ k) nxt spare pass of
         Some c \<Rightarrow> Inr (Some (length pre, c))
       | None \<Rightarrow> next_pass ?arr span (2 ^ k) nxt spare pass (Suc (length pre)))"
    using Cons.prems fine by (subst next_pass.simps) (simp split: option.split)
  show ?case
  proof (cases "next_candidate e span (2 ^ k) nxt spare pass")
    case (Some c)
    then show ?thesis using step
      by (intro disjI2 exI[of _ "[]"] exI[of _ e] exI[of _ es] exI[of _ c]) simp
  next
    case None
    have eq: "?arr = (pre @ [e]) @ es @ z # zs" and len: "Suc (length pre) = length (pre @ [e])"
      by simp_all
    have "entries es" "\<forall>e \<in> set es. ent_fine (2 ^ k) e" using Cons.prems by simp_all
    from Cons.IH[OF this Cons.prems(3), of "pre @ [e]"] show ?thesis
    proof (elim disjE exE conjE)
      assume "next_pass ((pre @ [e]) @ es @ z # zs) span (2 ^ k) nxt spare pass (length (pre @ [e])) = Inr None"
        and "\<forall>e \<in> set es. next_candidate e span (2 ^ k) nxt spare pass = None"
      then show ?thesis using step None unfolding eq len by simp
    next
      fix es1 f es2 c
      assume "es = es1 @ f # es2" and "next_candidate f span (2 ^ k) nxt spare pass = Some c"
        and "next_pass ((pre @ [e]) @ es @ z # zs) span (2 ^ k) nxt spare pass (length (pre @ [e]))
          = Inr (Some (length (pre @ [e]) + length es1, c))"
      then show ?thesis using step None unfolding eq len
        by (intro disjI2 exI[of _ "e # es1"] exI[of _ f] exI[of _ es2] exI[of _ c]) simp
    qed
  qed
qed

text \<open>Taking the selected run out of its entry.\<close>

lemma next_take_run:
  assumes es: "entries (es1 @ e # es2)" and e: "m_addr e + m_size e < 65536"
    and c: "m_addr e \<le> c" "c + span \<le> m_addr e + m_size e" "0 < span"
    and room: "zs \<noteq> [] \<or> c = m_addr e \<or> c + span = m_addr e + m_size e"
  shows "\<exists>fs ys. next_take (es1 @ e # es2 @ zero_ent # zs) (length (es1 @ e # es2))
             (length es1) c span = Inr (fs @ zero_ent # ys)
           \<and> map ent_seg fs = map ent_seg es1 @ seg_cut c span (ent_seg e) @ map ent_seg es2
           \<and> length fs + length ys = length (es1 @ e # es2) + length zs"
proof -
  let ?arr = "es1 @ e # es2 @ zero_ent # zs"
  let ?take = "next_take ?arr (length (es1 @ e # es2)) (length es1) c span"
  have sub: "usub32 (m_addr e + m_size e) span = m_addr e + m_size e - span"
    using c e by (intro usub32_id) auto
  consider (all) "c = m_addr e" "span = m_size e" | (start) "c = m_addr e" "span < m_size e"
    | (stop) "m_addr e < c" "c + span = m_addr e + m_size e"
    | (mid) "m_addr e < c" "c + span < m_addr e + m_size e"
    using c by linarith
  then show ?thesis
  proof cases
    case all
    have "shift_left (es1 @ e\<lparr>m_addr := m_addr e + span, m_size := 0\<rparr> # es2 @ zero_ent # zs)
        (length es1) = Inr (es1 @ es2 @ zero_ent # zero_ent # zs)"
      by (rule shift_left_run) (use es in simp_all)
    then have "?take = Inr ((es1 @ es2) @ zero_ent # zero_ent # zs)"
      using all e by (simp add: next_take_def Let_def)
    then show ?thesis using all
      by (intro exI[of _ "es1 @ es2"] exI[of _ "zero_ent # zs"]) (simp add: seg_cut_def ent_seg_def)
  next
    case start
    then have "?take = Inr ((es1 @ \<lparr>m_size = m_size e - span, m_addr = m_addr e + span\<rparr> # es2)
        @ zero_ent # zs)"
      using e by (simp add: next_take_def Let_def)
    then show ?thesis using start
      by (intro exI[of _ "es1 @ \<lparr>m_size = m_size e - span, m_addr = m_addr e + span\<rparr> # es2"] exI[of _ zs])
        (simp add: seg_cut_def ent_seg_def)
  next
    case stop
    then have "?take = Inr ((es1 @ e\<lparr>m_size := m_size e - span\<rparr> # es2) @ zero_ent # zs)"
      using e sub by (auto simp: next_take_def Let_def)
    then show ?thesis using stop c
      by (intro exI[of _ "es1 @ e\<lparr>m_size := m_size e - span\<rparr> # es2"] exI[of _ zs])
        (auto simp: seg_cut_def ent_seg_def)
  next
    case mid
    then obtain z ys where j: "zs = z # ys" using room by (cases zs) auto
    obtain x where x: "shift_right ?arr (Suc (length es1)) (Suc (length (es1 @ e # es2))) =
        Inr (es1 @ e # x # es2 @ zero_ent # ys)"
      using shift_right_tail[of "es1 @ [e]" "es2 @ [zero_ent]" z ys] j by auto
    let ?lo = "\<lparr>m_size = c - m_addr e, m_addr = m_addr e\<rparr>"
    let ?hi = "\<lparr>m_size = m_addr e + m_size e - (c + span), m_addr = c + span\<rparr>"
    have "?take = Inr ((es1 @ ?lo # ?hi # es2) @ zero_ent # ys)"
      using mid e sub x c j
      by (auto simp: next_take_def Let_def usub32_id list_update_append split: nat.split)
    then show ?thesis using mid j
      by (intro exI[of _ "es1 @ ?lo # ?hi # es2"] exI[of _ ys]) (simp add: seg_cut_def ent_seg_def)
  qed
qed

text \<open>The two passes together: a selection inside an entry, or no entry is large enough.\<close>

lemma next_search:
  fixes zs :: "mapent list" and span nxt :: nat and spare :: bool
  assumes es: "entries es" "\<forall>e \<in> set es. ent_fine (2 ^ k) e" and k: "k \<le> 16"
  defines "pass \<equiv> next_pass (es @ zero_ent # zs) span (2 ^ k) nxt spare"
  defines "result \<equiv> andthen (pass 0 0) (\<lambda>s. case s of None \<Rightarrow> pass 1 0 | Some _ \<Rightarrow> Inr s)"
  shows "(result = Inr None \<and> (\<forall>e \<in> set es. m_size e < span))
       \<or> (\<exists>es1 e es2 c p. es = es1 @ e # es2 \<and> next_candidate e span (2 ^ k) nxt spare p = Some c
            \<and> result = Inr (Some (length es1, c)))"
proof -
  have run: "(pass p 0 = Inr None \<and> (\<forall>e \<in> set es. next_candidate e span (2 ^ k) nxt spare p = None))
      \<or> (\<exists>es1 e es2 c. es = es1 @ e # es2 \<and> next_candidate e span (2 ^ k) nxt spare p = Some c
            \<and> pass p 0 = Inr (Some (length es1, c)))" for p
    using next_pass_run[OF es, of zero_ent "[]" zs span nxt spare p] by (simp add: pass_def)
  show ?thesis
  proof (cases "pass 0 0 = Inr None \<and> pass 1 0 = Inr None")
    case True
    have none: "\<forall>e \<in> set es. next_candidate e span (2 ^ k) nxt spare 0 = None"
      "\<forall>e \<in> set es. next_candidate e span (2 ^ k) nxt spare 1 = None"
      using run[of 0] run[of 1] True by auto
    have "m_size e < span" if "e \<in> set es" for e
    proof (rule ccontr)
      assume "\<not> m_size e < span"
      then show False
        using next_candidate_complete[of k e span nxt spare] es that none k
        by (cases "nxt \<le> m_addr e") auto
    qed
    then show ?thesis using True by (simp add: result_def)
  next
    case False
    then obtain p es1 e es2 c where "es = es1 @ e # es2"
      "next_candidate e span (2 ^ k) nxt spare p = Some c" "result = Inr (Some (length es1, c))"
    proof (cases "pass 0 0 = Inr None")
      case True
      then show ?thesis using False run[of 1] that by (auto simp: result_def)
    next
      case False
      then show ?thesis using run[of 0] that by (auto simp: result_def)
    qed
    then show ?thesis by blast
  qed
qed

text \<open>The map that is left when a candidate is taken.\<close>

lemma next_take_ok:
  assumes ok: "rmap_ok mp" and m: "m_map mp = (es1 @ e # es2) @ zero_ent # zs"
    and es: "entries (es1 @ e # es2)" and fine: "\<forall>e \<in> set (es1 @ e # es2). ent_fine al e"
    and lim: "m_limit mp = length (es1 @ e # es2) + length zs"
    and c: "m_addr e \<le> c" "c + span \<le> m_addr e + m_size e" "0 < span"
    and al: "al dvd c" "al dvd span"
    and room: "zs \<noteq> [] \<or> c = m_addr e \<or> c + span = m_addr e + m_size e"
  shows "\<exists>arr. next_take (m_map mp) (length (es1 @ e # es2)) (length es1) c span = Inr arr
           \<and> rmap_ok (mp\<lparr>m_map := arr\<rparr>) \<and> rmap_aligned al (mp\<lparr>m_map := arr\<rparr>)
           \<and> rmap_segs (mp\<lparr>m_map := arr\<rparr>) =
               map ent_seg es1 @ seg_cut c span (ent_seg e) @ map ent_seg es2"
proof -
  have e: "m_addr e + m_size e < 65536" using fine by (simp add: ent_fine_def)
  obtain fs ys where take: "next_take (m_map mp) (length (es1 @ e # es2)) (length es1) c span
      = Inr (fs @ zero_ent # ys)"
    and fs: "map ent_seg fs = map ent_seg es1 @ seg_cut c span (ent_seg e) @ map ent_seg es2"
    and len: "length fs + length ys = length (es1 @ e # es2) + length zs"
    using next_take_run[OF es e c room] m by auto
  have can: "canon 1 (map ent_seg es1 @ ent_seg e # map ent_seg es2)"
    using ok rmap_segs_shape[OF es m] by (simp add: rmap_ok_def)
  have canfs: "canon 1 (map ent_seg fs)"
    using cut_spec(1)[of 1 "map ent_seg es1" "m_addr e" "m_size e" "map ent_seg es2" c span] can c
    by (simp add: fs ent_seg_def)
  have "\<forall>x \<in> set (map ent_seg fs). fst x + snd x < 65536 \<and> al dvd fst x \<and> al dvd snd x"
    using fine c e al unfolding fs
    by (auto simp: seg_cut_def ent_seg_def ent_fine_def intro!: dvd_diff_nat)
  then have fsb: "\<forall>e \<in> set fs. m_addr e + m_size e < 65536"
    and fsa: "list_all (\<lambda>(a, n). al dvd a \<and> al dvd n) (map ent_seg fs)"
    by (auto simp: ent_seg_def list_all_iff)
  let ?mp = "mp\<lparr>m_map := fs @ zero_ent # ys\<rparr>"
  have "rmap_ok ?mp" and segs: "rmap_segs ?mp = map ent_seg fs"
    using rmap_okI[of ?mp fs ys] canfs fsb len lim by simp_all
  moreover have "rmap_aligned al ?mp" unfolding rmap_aligned_def segs by (rule fsa)
  ultimately show ?thesis using take fs by simp
qed

lemma next_refines:
  assumes ok: "rmap_ok mp" and al: "rmap_aligned (2 ^ k) mp" and k: "k \<le> 16"
    and span: "request_span d s u (2 ^ k) = Some span"
    and args: "d < 4294967296" "s < 4294967296" "u < 4294967296"
  shows "(malloc3_contiguous_next mp d s u (2 ^ k) nxt = Inr (0, None, nxt, mp)
            \<and> (\<forall>(a, n) \<in> set (rmap_segs mp). n < span))
       \<or> (\<exists>c mp' xs a n ys.
            malloc3_contiguous_next mp d s u (2 ^ k) nxt =
              Inr (span, Some [c, c + d, c + d + s], c + span, mp')
            \<and> rmap_segs mp = xs @ (a, n) # ys \<and> a \<le> c \<and> c + span \<le> a + n \<and> 2 ^ k dvd c
            \<and> rmap_segs mp' = xs @ seg_cut c span (a, n) @ ys
            \<and> rmap_ok mp' \<and> rmap_aligned (2 ^ k) mp' \<and> m_limit mp' = m_limit mp)"
proof -
  obtain es zs where m: "m_map mp = es @ zero_ent # zs" and es: "entries es"
    and segs: "rmap_segs mp = map ent_seg es"
    and bnd: "\<forall>e \<in> set es. m_addr e + m_size e < 65536"
    and lim: "m_limit mp = length es + length zs"
    using ok by (rule rmap_okE)
  have fine: "\<forall>e \<in> set es. ent_fine (2 ^ k) e"
    using al bnd by (auto simp: rmap_aligned_def segs ent_fine_def list_all_iff ent_seg_def)
  have k32: "k \<le> 32" using k by simp
  have sp: "2 ^ k dvd span" "d + s + u \<le> span" "0 < span"
    using request_span_Some[OF span k32 args] by auto
  have fe: "find_end (m_map mp) 0 = Inr (length es)"
    using find_end_run[OF es, of zero_ent "[]" zs] m by simp
  have spare: "length es < m_limit mp \<longleftrightarrow> zs \<noteq> []" using lim by simp
  have head: "\<not> (2 ^ k = (0::nat) \<or> and (2 ^ k) (2 ^ k - 1) \<noteq> (0::nat))"
    using pow2_and_pred by simp
  let ?pass = "next_pass (m_map mp) span (2 ^ k) nxt (zs \<noteq> [])"
  let ?res = "andthen (?pass 0 0) (\<lambda>s. case s of None \<Rightarrow> ?pass 1 0 | Some _ \<Rightarrow> Inr s)"
  have call: "malloc3_contiguous_next mp d s u (2 ^ k) nxt = andthen ?res (\<lambda>s'.
      case s' of None \<Rightarrow> Inr (0, None, nxt, mp)
      | Some (bp, sel) \<Rightarrow> andthen (next_take (m_map mp) (length es) bp sel span) (\<lambda>arr.
          Inr (span, Some [sel, u32 (sel + d), u32 (sel + d + s)], u32 (sel + span), mp\<lparr>m_map := arr\<rparr>)))"
    unfolding malloc3_contiguous_next_def if_not_P[OF head] span fe Let_def option.case andthen_Inr
      spare by (rule refl)
  have "(?res = Inr None \<and> (\<forall>e \<in> set es. m_size e < span))
      \<or> (\<exists>es1 e es2 c p. es = es1 @ e # es2 \<and> next_candidate e span (2 ^ k) nxt (zs \<noteq> []) p = Some c
            \<and> ?res = Inr (Some (length es1, c)))"
    using next_search[OF es fine k, of zs span nxt "zs \<noteq> []"] unfolding m .
  then show ?thesis
  proof (elim disjE exE conjE)
    assume "?res = Inr None" and "\<forall>e \<in> set es. m_size e < span"
    then show ?thesis using call segs by (auto simp: ent_seg_def)
  next
    fix es1 e es2 c p
    assume sel: "es = es1 @ e # es2" "next_candidate e span (2 ^ k) nxt (zs \<noteq> []) p = Some c"
      and res: "?res = Inr (Some (length es1, c))"
    have e: "ent_fine (2 ^ k) e" "m_addr e + m_size e < 65536" using fine bnd sel(1) by auto
    note c = next_candidate_sound[OF e(1) k32 sp(1) sel(2)]
    obtain arr where take: "next_take (m_map mp) (length es) (length es1) c span = Inr arr"
      and good: "rmap_ok (mp\<lparr>m_map := arr\<rparr>)" "rmap_aligned (2 ^ k) (mp\<lparr>m_map := arr\<rparr>)"
        "rmap_segs (mp\<lparr>m_map := arr\<rparr>) =
           map ent_seg es1 @ seg_cut c span (m_addr e, m_size e) @ map ent_seg es2"
      using next_take_ok[OF ok _ _ _ _ c(1,2) sp(3) c(3) sp(1) c(4), of es1 es2] m es fine lim sel(1)
      by (auto simp: ent_seg_def)
    have "malloc3_contiguous_next mp d s u (2 ^ k) nxt =
        Inr (span, Some [c, c + d, c + d + s], c + span, mp\<lparr>m_map := arr\<rparr>)"
      using call res take c e sp(2) by simp
    then show ?thesis
      using good segs sel(1) c by (auto simp: ent_seg_def)
  qed
qed

end
