(* ===== verification/Rmap_Malloc3.thy ===== *)
theory Rmap_Malloc3
  imports Rmap
begin

text \<open>
  The proof that \<open>malloc3\<close> of \<open>sys/kern/subr_rmap.c\<close> allocates three segments or none.  The
  scan keeps \<open>m3_inv\<close>: every entry is what it was less what the served requests took of
  it, and the first used-up entry is remembered.  A failed scan is undone exactly
  (\<open>m3_restored\<close>); a successful one shrinks entries from their low ends
  (\<open>seg_shrink\<close>) and compacts the map.
\<close>

section \<open>The scan\<close>

declare malloc3_scan.simps [simp del] malloc3_compact.simps [simp del]

text \<open>What the requests served so far take from entry \<open>i\<close>.\<close>

definition m3_used :: "nat list \<Rightarrow> nat option list \<Rightarrow> nat \<Rightarrow> nat" where
  "m3_used sizes madd i =
     sum_list (map (\<lambda>nxt. if madd ! nxt = Some i then sizes ! nxt else 0) [0, 1, 2])"

text \<open>
  The state of the scan when the entries below \<open>bp\<close> have been visited, against the array
  \<open>arr0\<close> it started from.
\<close>

definition m3_inv :: "nat list \<Rightarrow> mapent list \<Rightarrow> nat \<Rightarrow> malloc3_state \<Rightarrow> bool" where
  "m3_inv sizes arr0 bp st \<longleftrightarrow> (case st of (arr, madd, remap, found) \<Rightarrow>
     length arr = length arr0 \<and> length madd = 3 \<and>
     (\<forall>i < length arr0. m_addr (arr ! i) = m_addr (arr0 ! i) \<and>
        m_size (arr0 ! i) = m_size (arr ! i) + m3_used sizes madd i) \<and>
     (\<forall>nxt < 3. \<forall>i. madd ! nxt = Some i \<longrightarrow> i < bp) \<and>
     found = length (filter (\<lambda>x. \<not> Option.is_none x) madd) \<and>
     (case remap of
        None \<Rightarrow> \<forall>i < bp. m_size (arr ! i) \<noteq> 0
      | Some r \<Rightarrow> r < bp \<and> m_size (arr ! r) = 0 \<and> (\<forall>i < r. m_size (arr ! i) \<noteq> 0)))"

lemma less_3: "(n::nat) < 3 \<longleftrightarrow> n = 0 \<or> n = 1 \<or> n = 2"
  by auto

lemma length_3: "length xs = 3 \<longleftrightarrow> (\<exists>a b c. xs = [a, b, c])"
  unfolding numeral_3_eq_3 length_Suc_conv length_0_conv by blast

lemma m3_used_list:
  "m3_used sizes [x, y, z] i = (if x = Some i then sizes ! 0 else 0) +
     (if y = Some i then sizes ! 1 else 0) + (if z = Some i then sizes ! 2 else 0)"
  by (simp add: m3_used_def)

lemma m3_used_update:
  assumes "length madd = 3" and "nxt < 3" and "madd ! nxt = None"
  shows "m3_used sizes (madd[nxt := Some bp]) i =
           m3_used sizes madd i + (if i = bp then sizes ! nxt else 0)"
proof -
  obtain x y z where madd: "madd = [x, y, z]" using assms(1)[unfolded length_3] by blast
  consider "nxt = 0" | "nxt = 1" | "nxt = 2" using assms(2)[unfolded less_3] by blast
  then show ?thesis using assms(3) by cases (simp_all add: madd m3_used_list)
qed

lemma m3_used_0: "\<forall>nxt < 3. madd ! nxt \<noteq> Some i \<Longrightarrow> m3_used sizes madd i = 0"
  by (simp add: m3_used_def)

lemma length_filter_update:
  "n < length xs \<Longrightarrow> xs ! n = None \<Longrightarrow>
     length (filter (\<lambda>x. \<not> Option.is_none x) (xs[n := Some y])) =
       Suc (length (filter (\<lambda>x. \<not> Option.is_none x) xs))"
proof (induction xs arbitrary: n)
  case (Cons x xs)
  then show ?case by (cases n) auto
qed simp

lemma m3_inv_take:
  assumes "m3_inv sizes arr0 (Suc bp) (arr, madd, remap, found)" and "bp < length arr0" and "nxt < 3"
    and "madd ! nxt = None" and "sizes ! nxt \<le> m_size (arr ! bp)"
  shows "m3_inv sizes arr0 (Suc bp)
     (arr[bp := (arr ! bp)\<lparr>m_size := m_size (arr ! bp) - sizes ! nxt\<rparr>], madd[nxt := Some bp],
      if m_size (arr ! bp) - sizes ! nxt = 0 \<and> remap = None then Some bp else remap, Suc found)"
proof (cases "m_size (arr ! bp) - sizes ! nxt = 0 \<and> remap = None")
  case True
  then show ?thesis using assms
    by (auto simp: m3_inv_def m3_used_update length_filter_update nth_list_update)
next
  case False
  then show ?thesis using assms
    by (auto simp: m3_inv_def m3_used_update length_filter_update nth_list_update split: option.splits)
qed

lemma malloc3_entry_inv:
  assumes "m3_inv sizes arr0 (Suc bp) st" and "bp < length arr0" and "set nexts \<subseteq> {0, 1, 2}"
    and "m_size (arr0 ! bp) < 65536" and "malloc3_entry sizes bp nexts st = (st', dn)"
  shows "m3_inv sizes arr0 (Suc bp) st' \<and> (dn \<longrightarrow> snd (snd (snd st')) = 3)"
  using assms
proof (induction sizes bp nexts st rule: malloc3_entry.induct)
  case (2 sizes bp nxt nexts arr madd remap found)
  have sz: "m_size (arr ! bp) < 65536" using 2(3,4,6) by (auto simp: m3_inv_def)
  have nxt: "nxt < 3" using 2(5) by auto
  show ?case
  proof (cases "madd ! nxt = None \<and> sizes ! nxt \<le> m_size (arr ! bp)")
    case True
    note inv = m3_inv_take[OF 2(3,4) nxt conjunct1[OF True] conjunct2[OF True]]
    have u: "u16 (m_size (arr ! bp) - sizes ! nxt) = m_size (arr ! bp) - sizes ! nxt"
      using sz by simp
    show ?thesis
    proof (cases "Suc found = 3")
      case True
      then show ?thesis using 2(7) \<open>_ \<and> _\<close> inv u by (auto simp: Let_def)
    next
      case False
      then show ?thesis
        using 2(1)[OF True refl refl refl refl _ _ 2(4) _ 2(6)] 2(5,7) True inv u
        by (simp add: Let_def)
    qed
  next
    case False
    have "malloc3_entry sizes bp nexts (arr, madd, remap, found) = (st', dn)"
      using 2(7) False by auto
    then show ?thesis using 2(2)[OF False 2(3,4) _ 2(6)] 2(5) by simp
  qed
qed simp

declare malloc3_entry.simps [simp del]

text \<open>A request that is still open after an entry was offered does not fit what is left of it.\<close>

definition m3_refused :: "nat list \<Rightarrow> nat \<Rightarrow> malloc3_state \<Rightarrow> bool" where
  "m3_refused sizes bp st \<longleftrightarrow> (case st of (arr, madd, remap, found) \<Rightarrow>
     found < 3 \<and> (\<forall>nxt < 3. madd ! nxt = None \<longrightarrow> (\<forall>i < bp. m_size (arr ! i) < sizes ! nxt)))"

lemma malloc3_entry_refuses:
  assumes "malloc3_entry sizes bp nexts (arr, madd, remap, found) = ((arr', madd', remap', found'), dn)"
    and "bp < length arr"
  shows "length arr' = length arr \<and> length madd' = length madd \<and> (\<not> dn \<longrightarrow> found < 3 \<longrightarrow> found' < 3)
    \<and> (\<forall>i < length arr. m_size (arr' ! i) \<le> m_size (arr ! i))
    \<and> (\<forall>nxt < length madd. madd' ! nxt = None \<longrightarrow> madd ! nxt = None)
    \<and> (\<not> dn \<longrightarrow> (\<forall>nxt \<in> set nexts. nxt < length madd \<longrightarrow> madd' ! nxt = None \<longrightarrow>
           m_size (arr' ! bp) < sizes ! nxt))"
  using assms
proof (induction nexts arbitrary: arr madd remap found)
  case Nil
  then show ?case by (simp add: malloc3_entry.simps)
next
  case (Cons nxt nexts)
  show ?case
  proof (cases "madd ! nxt = None \<and> sizes ! nxt \<le> m_size (arr ! bp)")
    case True
    let ?n = "u16 (m_size (arr ! bp) - sizes ! nxt)"
    let ?arr = "arr[bp := (arr ! bp)\<lparr>m_size := ?n\<rparr>]" and ?madd = "madd[nxt := Some bp]"
    have le: "\<forall>i < length arr. m_size (?arr ! i) \<le> m_size (arr ! i)"
      using Cons.prems(2) by (auto simp: nth_list_update u16_def intro: order.trans[OF mod_less_eq_dividend])
    have old: "\<forall>n < length madd. ?madd ! n = None \<longrightarrow> madd ! n = None"
      by (metis nth_list_update_eq nth_list_update_neq option.distinct(1))
    have hit: "nxt < length madd \<Longrightarrow> ?madd ! nxt = Some bp"
      by simp
    show ?thesis
    proof (cases "Suc found = 3")
      case True
      then show ?thesis using Cons.prems(1) \<open>_ \<and> _\<close> le old
        by (auto simp: malloc3_entry.simps Let_def)
    next
      case False
      define remap1 where "remap1 = (if ?n = 0 \<and> remap = None then Some bp else remap)"
      have "malloc3_entry sizes bp nexts (?arr, ?madd, remap1, Suc found) = ((arr', madd', remap', found'), dn)"
        using Cons.prems(1) True False by (simp add: malloc3_entry.simps Let_def remap1_def)
      note IH = Cons.IH[OF this]
      show ?thesis using IH Cons.prems(2) le old hit False by (auto intro: order_trans)
    qed
  next
    case False
    then have "malloc3_entry sizes bp nexts (arr, madd, remap, found) = ((arr', madd', remap', found'), dn)"
      using Cons.prems(1) by (simp add: malloc3_entry.simps split: if_splits)
    note IH = Cons.IH[OF this Cons.prems(2)]
    show ?thesis using IH False Cons.prems(2) by (auto simp: not_le intro: le_less_trans)
  qed
qed

lemma m3_refused_step:
  assumes "m3_refused sizes bp (arr, madd, remap, found)" and "bp < length arr" and "length madd = 3"
    and "malloc3_entry sizes bp [0, 1, 2] (arr, madd, remap, found) = (st, False)"
  shows "m3_refused sizes (Suc bp) st"
proof -
  obtain arr1 madd1 remap1 found1 where st: "st = (arr1, madd1, remap1, found1)" by (cases st)
  note r = malloc3_entry_refuses[OF assms(4)[unfolded st] assms(2)]
  have "m_size (arr1 ! i) < sizes ! nxt" if nxt: "nxt < 3" "madd1 ! nxt = None" "i < Suc bp" for nxt i
  proof (cases "i = bp")
    case True
    have "nxt \<in> set [0, 1, 2]" using nxt(1) by (simp add: less_3)
    then show ?thesis using r[unfolded assms(3)] nxt(1,2) True by blast
  next
    case False
    then have "m_size (arr1 ! i) \<le> m_size (arr ! i)" "madd ! nxt = None" "i < bp"
      using r assms(2,3) nxt by simp_all
    then show ?thesis using assms(1) nxt(1) by (fastforce simp: m3_refused_def)
  qed
  moreover have "found1 < 3" using r assms(1) by (simp add: m3_refused_def)
  ultimately show ?thesis by (simp add: m3_refused_def st)
qed

text \<open>The scan neither faults nor loses track.\<close>

lemma malloc3_scan_inv:
  assumes "m3_inv sizes arr0 bp st" and "arr0 = es @ zero_ent # zs" and "entries es"
    and "\<forall>e \<in> set es. m_size e < 65536" and "bp \<le> length es" and "m3_refused sizes bp st"
  shows "\<exists>st' dn bp'. malloc3_scan sizes bp st = Inr (st', dn) \<and> m3_inv sizes arr0 bp' st'
           \<and> bp' \<le> length es
           \<and> (if dn then snd (snd (snd st')) = 3 else bp' = length es \<and> m3_refused sizes bp' st')"
  using assms
proof (induction sizes bp st rule: malloc3_scan.induct)
  case (1 sizes bp arr madd remap found)
  have "\<forall>nxt < 3. madd ! nxt \<noteq> Some bp" using 1(2) by (auto simp: m3_inv_def)
  then have inv: "length arr = length arr0" "m3_used sizes madd bp = 0"
    "m_size (arr0 ! bp) = m_size (arr ! bp) + m3_used sizes madd bp"
    using 1(2,3,6) by (simp_all add: m3_inv_def m3_used_0)
  show ?case
  proof (cases "bp = length es")
    case True
    then have "malloc3_scan sizes bp (arr, madd, remap, found) = Inr ((arr, madd, remap, found), False)"
      using inv 1(3) by (subst malloc3_scan.simps) simp
    then show ?thesis using 1(2,7) True by auto
  next
    case False
    then have lt: "bp < length es" using 1(6) by simp
    then have "es ! bp \<in> set es" and arr: "arr0 ! bp = es ! bp" using 1(3) by (simp_all add: nth_append)
    then have "m_size (es ! bp) \<noteq> 0" "m_size (es ! bp) < 65536"
      using 1(4,5) by (auto simp: entries_def)
    then have nz: "m_size (arr ! bp) \<noteq> 0" and sz: "m_size (arr0 ! bp) < 65536"
      using inv arr by simp_all
    have blen: "bp < length arr" "bp < length arr0" using lt inv(1) 1(3) by auto
    obtain st dn where en: "malloc3_entry sizes bp [0, 1, 2] (arr, madd, remap, found) = (st, dn)"
      by (cases "malloc3_entry sizes bp [0, 1, 2] (arr, madd, remap, found)")
    have "m3_inv sizes arr0 (Suc bp) (arr, madd, remap, found)"
      using 1(2) nz by (auto simp: m3_inv_def less_Suc_eq split: option.splits)
    then have st: "m3_inv sizes arr0 (Suc bp) st" "dn \<Longrightarrow> snd (snd (snd st)) = 3"
      using malloc3_entry_inv[OF _ blen(2) _ sz en] by auto
    have unf: "malloc3_scan sizes bp (arr, madd, remap, found) =
        (if dn then Inr (st, True) else malloc3_scan sizes (Suc bp) st)"
      using blen nz en by (subst malloc3_scan.simps) simp
    show ?thesis
    proof (cases dn)
      case True
      then show ?thesis using unf st lt
        by (intro exI[of _ st] exI[of _ dn] exI[of _ "Suc bp"]) simp
    next
      case False
      have "length madd = 3" using 1(2) by (simp add: m3_inv_def)
      then have ref: "m3_refused sizes (Suc bp) st"
        using m3_refused_step[OF 1(7) blen(1)] en False by simp
      obtain st' dn' bp' where "malloc3_scan sizes (Suc bp) st = Inr (st', dn')"
        "m3_inv sizes arr0 bp' st'" "bp' \<le> length es"
        "if dn' then snd (snd (snd st')) = 3 else bp' = length es \<and> m3_refused sizes bp' st'"
        using 1(1)[OF blen(1) nz en[symmetric] refl False st(1) 1(3-5) _ ref] lt by (auto simp: Suc_le_eq)
      then show ?thesis using unf False by (intro exI[of _ st'] exI[of _ dn'] exI[of _ bp']) simp
    qed
  qed
qed

text \<open>Giving back what was taken restores the array.\<close>

lemma malloc3_restore_nth:
  assumes "\<forall>nxt \<in> set nexts. \<forall>i. madd ! nxt = Some i \<longrightarrow> i < length arr \<and> m_size (arr ! i) +
      sum_list (map (\<lambda>nxt. if madd ! nxt = Some i then sizes ! nxt else 0) nexts) < 65536"
  shows "length (malloc3_restore sizes nexts madd arr) = length arr \<and>
    (\<forall>i < length arr. malloc3_restore sizes nexts madd arr ! i = (arr ! i)\<lparr>m_size := m_size (arr ! i) +
      sum_list (map (\<lambda>nxt. if madd ! nxt = Some i then sizes ! nxt else 0) nexts)\<rparr>)"
  using assms
proof (induction sizes nexts madd arr rule: malloc3_restore.induct)
  case (2 sizes nxt nexts madd arr)
  show ?case
  proof (cases "madd ! nxt")
    case None
    then show ?thesis using 2(1)[OF None] 2(3) by auto
  next
    case (Some bp)
    then have bp: "bp < length arr" and small: "m_size (arr ! bp) + sizes ! nxt < 65536"
      using 2(3) by fastforce+
    let ?arr = "arr[bp := (arr ! bp)\<lparr>m_size := m_size (arr ! bp) + sizes ! nxt\<rparr>]"
    have "\<forall>n \<in> set nexts. \<forall>i. madd ! n = Some i \<longrightarrow> i < length ?arr \<and> m_size (?arr ! i) +
        sum_list (map (\<lambda>nxt. if madd ! nxt = Some i then sizes ! nxt else 0) nexts) < 65536"
    proof (intro ballI allI impI)
      fix n i assume "n \<in> set nexts" "madd ! n = Some i"
      then have "n \<in> set (nxt # nexts)" by simp
      from 2(3)[rule_format, OF this \<open>madd ! n = Some i\<close>]
      show "i < length ?arr \<and> m_size (?arr ! i) +
        sum_list (map (\<lambda>nxt. if madd ! nxt = Some i then sizes ! nxt else 0) nexts) < 65536"
        using Some bp by (cases "i = bp") simp_all
    qed
    then show ?thesis
      using 2(2)[OF Some] Some small bp by (auto simp: nth_list_update)
  qed
qed simp

lemma m3_restored:
  assumes "m3_inv sizes arr0 bp (arr, madd, remap, found)" and "\<forall>i < bp. m_size (arr0 ! i) < 65536"
    and "bp \<le> length arr0"
  shows "malloc3_restore sizes [0, 1, 2] madd arr = arr0"
proof -
  have inv: "length arr = length arr0"
    "\<And>i. i < length arr0 \<Longrightarrow> m_addr (arr ! i) = m_addr (arr0 ! i) \<and>
        m_size (arr0 ! i) = m_size (arr ! i) + m3_used sizes madd i"
    "\<And>nxt i. nxt < 3 \<Longrightarrow> madd ! nxt = Some i \<Longrightarrow> i < bp"
    using assms(1) by (auto simp: m3_inv_def)
  have "i < length arr \<and> m_size (arr ! i) + m3_used sizes madd i < 65536"
    if "nxt \<in> set [0, 1, 2]" "madd ! nxt = Some i" for nxt i
  proof -
    have "i < bp" using inv(3)[of nxt i] that by (auto simp: less_3)
    moreover from this have "i < length arr0" using assms(3) by simp
    ultimately show ?thesis using inv(1,2) assms(2) by metis
  qed
  then have "length (malloc3_restore sizes [0, 1, 2] madd arr) = length arr \<and>
    (\<forall>i < length arr. malloc3_restore sizes [0, 1, 2] madd arr ! i =
      (arr ! i)\<lparr>m_size := m_size (arr ! i) + m3_used sizes madd i\<rparr>)"
    unfolding m3_used_def by (intro malloc3_restore_nth) blast
  then show ?thesis
    using inv by (auto intro!: nth_equalityI simp: mapent.equality)
qed

text \<open>The addresses: each request starts where the earlier ones in its entry end.\<close>

lemma malloc3_resolve_run:
  assumes "i < length arr" "j < length arr" "k < length arr"
    and small: "\<And>x. x \<in> {i, j, k} \<Longrightarrow> m_addr (arr ! x) + m3_used [d, s, u] [Some i, Some j, Some k] x < 65536"
  shows "\<exists>arr'. malloc3_resolve [d, s, u] [0, 1, 2] [Some i, Some j, Some k] arr =
           Inr ([m_addr (arr ! i),
                 m_addr (arr ! j) + (if i = j then d else 0),
                 m_addr (arr ! k) + (if i = k then d else 0) + (if j = k then s else 0)], arr')
         \<and> length arr' = length arr
         \<and> (\<forall>x < length arr. arr' ! x =
              (arr ! x)\<lparr>m_addr := m_addr (arr ! x) + m3_used [d, s, u] [Some i, Some j, Some k] x\<rparr>)"
  using assms(1-3) small[of i] small[of j] small[of k]
  by (auto simp: m3_used_list nth_list_update numeral_2_eq_2)

declare malloc3_resolve.simps [simp del] malloc3_restore.simps [simp del]

text \<open>Compaction keeps the entries that are not used up, in order.\<close>

lemma malloc3_compact_run:
  assumes "junk \<noteq> []" and "\<forall>e \<in> set es. m_addr e \<noteq> 0"
  shows "\<exists>ys. malloc3_compact (pre @ junk @ es @ zero_ent # zs) (length pre) (length pre + length junk)
       = Inr (pre @ filter (\<lambda>e. m_size e \<noteq> 0) es @ zero_ent # ys)
       \<and> length (filter (\<lambda>e. m_size e \<noteq> 0) es) + length ys = length junk + length es + length zs"
  using assms
proof (induction es arbitrary: pre junk)
  case Nil
  then obtain x js where "junk = x # js" by (cases junk) auto
  then show ?case by (subst malloc3_compact.simps) (simp add: nth_append)
next
  case (Cons e es)
  obtain x js where junk: "junk = x # js" using Cons.prems(1) by (cases junk) auto
  let ?arr = "pre @ junk @ (e # es) @ zero_ent # zs"
  have nth: "?arr ! (length pre + length junk) = e" by (simp add: nth_append)
  show ?case
  proof (cases "m_size e = 0")
    case True
    have "malloc3_compact ?arr (length pre) (length pre + length junk)
        = malloc3_compact (pre @ (junk @ [e]) @ es @ zero_ent # zs) (length pre)
            (length pre + length (junk @ [e]))"
      using True nth Cons.prems by (subst malloc3_compact.simps) simp
    then show ?thesis using Cons.IH[of "junk @ [e]" pre] Cons.prems True by simp
  next
    case False
    have "malloc3_compact ?arr (length pre) (length pre + length junk)
        = malloc3_compact ((pre @ [e]) @ (js @ [e]) @ es @ zero_ent # zs) (length (pre @ [e]))
            (length (pre @ [e]) + length (js @ [e]))"
      using False nth Cons.prems junk by (subst malloc3_compact.simps) (simp add: list_update_append)
    then show ?thesis using Cons.IH[of "js @ [e]" "pre @ [e]"] Cons.prems False junk by simp
  qed
qed

text \<open>
  Shrinking segments from their low end: \<open>ts\<close> says how much is taken of each, \<open>seg_heads\<close>
  is what was taken.
\<close>

fun seg_shrink :: "seg list \<Rightarrow> nat list \<Rightarrow> seg list" where
  "seg_shrink ((a, n) # xs) (t # ts) = (if n = t then [] else [(a + t, n - t)]) @ seg_shrink xs ts"
| "seg_shrink _ _ = []"

fun seg_heads :: "seg list \<Rightarrow> nat list \<Rightarrow> seg list" where
  "seg_heads ((a, n) # xs) (t # ts) = (a, t) # seg_heads xs ts"
| "seg_heads _ _ = []"

lemma seg_shrink_spec:
  "canon lo xs \<Longrightarrow> list_all2 (\<lambda>x t. t \<le> snd x) xs ts \<Longrightarrow>
     canon lo (seg_shrink xs ts) \<and> units (seg_heads xs ts) \<subseteq> units xs
     \<and> units (seg_shrink xs ts) = units xs - units (seg_heads xs ts)"
proof (induction xs ts arbitrary: lo rule: seg_shrink.induct)
  case (1 a n xs t ts)
  have tn: "t \<le> n" "lo \<le> a" "0 < n" "canon (Suc (a + n)) xs" using 1(2,3) by auto
  have IH: "canon (Suc (a + n)) (seg_shrink xs ts)" "units (seg_heads xs ts) \<subseteq> units xs"
    "units (seg_shrink xs ts) = units xs - units (seg_heads xs ts)"
    using 1(1)[OF tn(4)] 1(3) by auto
  have above: "\<And>x. x \<in> units xs \<Longrightarrow> a + n < x" using canon_lower[OF tn(4)] by fastforce
  have "canon lo (seg_shrink ((a, n) # xs) (t # ts))"
    using IH(1) tn canon_mono[OF IH(1), of lo] by auto
  moreover have "units (seg_heads ((a, n) # xs) (t # ts)) \<subseteq> units ((a, n) # xs)"
    using IH(2) tn(1) by auto
  moreover have "units (seg_shrink ((a, n) # xs) (t # ts)) = {a + t ..< a + n} \<union> units (seg_shrink xs ts)"
    using tn(1) by simp
  moreover have "\<dots> = units ((a, n) # xs) - units (seg_heads ((a, n) # xs) (t # ts))"
  proof -
    have "{a ..< a + n} - {a ..< a + t} = {a + t ..< a + n}" by auto
    moreover have "{a ..< a + n} \<inter> units xs = {}" "{a ..< a + t} \<inter> units xs = {}"
      using above tn(1) by fastforce+
    ultimately show ?thesis using IH(2,3) unfolding units_Cons seg_heads.simps by blast
  qed
  ultimately show ?case by blast
qed auto

lemma canon_nth_before:
  "canon lo xs \<Longrightarrow> i < j \<Longrightarrow> j < length xs \<Longrightarrow> fst (xs ! i) + snd (xs ! i) < fst (xs ! j)"
proof (induction xs arbitrary: lo i j)
  case (Cons s xs)
  obtain a n where s: "s = (a, n)" by force
  obtain j' where j: "j = Suc j'" using Cons.prems(2) by (cases j) auto
  have c: "canon (Suc (a + n)) xs" using Cons.prems(1) s by simp
  show ?case
  proof (cases i)
    case 0
    have "xs ! j' \<in> set xs" using Cons.prems(3) j by simp
    then show ?thesis using canon_pos[OF c, of "fst (xs ! j')" "snd (xs ! j')"] 0 j s by simp
  next
    case (Suc i')
    then show ?thesis using Cons.IH[OF c, of i' j'] Cons.prems j by simp
  qed
qed simp

lemma units_heads_nth:
  "length ts = length xs \<Longrightarrow>
     units (seg_heads xs ts) = (\<Union>i < length xs. {fst (xs ! i) ..< fst (xs ! i) + ts ! i})"
proof (induction xs ts rule: seg_heads.induct)
  case (1 a n xs t ts)
  have "{..< Suc (length xs)} = insert 0 (Suc ` {..< length xs})" by (rule lessThan_Suc_eq_insert_0)
  then show ?case using 1 by simp
qed auto

lemma UN_three:
  assumes "i \<in> I" "j \<in> I" "k \<in> I" and "\<And>x. x \<notin> {i, j, k} \<Longrightarrow> F x = {}"
  shows "(\<Union>x \<in> I. F x) = F i \<union> F j \<union> F k"
proof -
  have "F x \<subseteq> F i \<union> F j \<union> F k" for x
    using assms(4)[of x] by (cases "x \<in> {i, j, k}") auto
  then show ?thesis using assms(1-3) by blast
qed

text \<open>Three requests served from the low ends of their entries.\<close>

lemma m3_requests:
  assumes can: "canon lo xs" and lt: "i < length xs" "j < length xs" "k < length xs"
    and fit: "\<And>x. x < length xs \<Longrightarrow> m3_used [d, s, u] [Some i, Some j, Some k] x \<le> snd (xs ! x)"
    and A: "A = (\<lambda>x. fst (xs ! x))"
    and R: "rs = [(A i, d), (A j + (if i = j then d else 0), s),
                  (A k + (if i = k then d else 0) + (if j = k then s else 0), u)]"
  shows "disj_segs rs \<and>
    units (seg_heads xs (map (m3_used [d, s, u] [Some i, Some j, Some k]) [0 ..< length xs])) = units rs"
proof -
  let ?U = "m3_used [d, s, u] [Some i, Some j, Some k]"
  have sep: "A x + ?U x < A y \<or> A y + ?U y < A x" if "x \<noteq> y" "x < length xs" "y < length xs" for x y
    using canon_nth_before[OF can, of x y] canon_nth_before[OF can, of y x] fit that A
    by (cases "x < y") fastforce+
  have disj: "disj_segs rs"
    using sep[of i j] sep[of i k] sep[of j k] lt unfolding R m3_used_list
    by (cases "i = j"; cases "i = k"; cases "j = k") auto
  have "units (seg_heads xs (map ?U [0 ..< length xs])) = (\<Union>x < length xs. {A x ..< A x + ?U x})"
    using units_heads_nth[of "map ?U [0 ..< length xs]" xs] A by simp
  also have "\<dots> = {A i ..< A i + ?U i} \<union> {A j ..< A j + ?U j} \<union> {A k ..< A k + ?U k}"
  proof -
    have "{A x ..< A x + ?U x} = {}" if "x \<notin> {i, j, k}" for x
      using that by (simp add: m3_used_list)
    then show ?thesis using lt
      by (intro UN_three) auto
  qed
  also have "\<dots> = units rs"
    unfolding R m3_used_list by (cases "i = j"; cases "i = k"; cases "j = k") auto
  finally show ?thesis using disj by blast
qed

text \<open>
  The map after three requests were served from the entries \<open>i\<close>, \<open>j\<close> and \<open>k\<close>: the entries
  shrunk from their low ends, those used up removed.
\<close>

definition m3_left :: "(nat \<Rightarrow> nat) \<Rightarrow> mapent list \<Rightarrow> mapent list" where
  "m3_left U es = map (\<lambda>i. \<lparr>m_size = m_size (es ! i) - U i, m_addr = m_addr (es ! i) + U i\<rparr>)
     [0 ..< length es]"

lemma length_m3_left [simp]: "length (m3_left U es) = length es"
  by (simp add: m3_left_def)

lemma shrink_filter:
  "length ts = length es \<Longrightarrow> (\<forall>i < length es. ts ! i \<le> m_size (es ! i)) \<Longrightarrow>
     map ent_seg (filter (\<lambda>e. m_size e \<noteq> 0)
       (map (\<lambda>i. \<lparr>m_size = m_size (es ! i) - ts ! i, m_addr = m_addr (es ! i) + ts ! i\<rparr>) [0 ..< length es]))
     = seg_shrink (map ent_seg es) ts"
proof (induction es arbitrary: ts)
  case (Cons e es)
  obtain t ts' where ts: "ts = t # ts'" using Cons.prems(1) by (cases ts) auto
  have "t \<le> m_size e" "\<forall>i < length es. ts' ! i \<le> m_size (es ! i)"
    using Cons.prems(2) ts by fastforce+
  moreover have "[0 ..< length (e # es)] = 0 # map Suc [0 ..< length es]"
    by (simp add: upt_conv_Cons map_Suc_upt del: upt_Suc)
  ultimately show ?case
    using Cons.IH[of ts'] Cons.prems(1) ts by (simp add: comp_def ent_seg_def del: upt_Suc)
qed simp

lemma m3_left_filter:
  assumes "\<forall>i < length es. U i \<le> m_size (es ! i)"
  shows "map ent_seg (filter (\<lambda>e. m_size e \<noteq> 0) (m3_left U es))
       = seg_shrink (map ent_seg es) (map U [0 ..< length es])"
proof -
  have "m3_left U es = map (\<lambda>i. \<lparr>m_size = m_size (es ! i) - map U [0 ..< length es] ! i,
      m_addr = m_addr (es ! i) + map U [0 ..< length es] ! i\<rparr>) [0 ..< length es]"
    by (simp add: m3_left_def)
  then show ?thesis using shrink_filter[of "map U [0 ..< length es]" es] assms by simp
qed

lemma malloc3_finish:
  assumes L: "\<forall>e \<in> set L. m_addr e \<noteq> 0"
    and remap: "case remap of None \<Rightarrow> \<forall>i < length L. m_size (L ! i) \<noteq> 0
      | Some r \<Rightarrow> r < length L \<and> m_size (L ! r) = 0 \<and> (\<forall>i < r. m_size (L ! i) \<noteq> 0)"
  shows "\<exists>ys. (case remap of None \<Rightarrow> Inr (L @ zero_ent # zs)
      | Some r \<Rightarrow> malloc3_compact (L @ zero_ent # zs) r (Suc r)) =
        Inr (filter (\<lambda>e. m_size e \<noteq> 0) L @ zero_ent # ys)
    \<and> length (filter (\<lambda>e. m_size e \<noteq> 0) L) + length ys = length L + length zs"
proof (cases remap)
  case None
  then have "filter (\<lambda>e. m_size e \<noteq> 0) L = L"
    using remap by (intro filter_True) (auto simp: in_set_conv_nth)
  then show ?thesis using None by auto
next
  case (Some r)
  let ?nz = "\<lambda>e. m_size e \<noteq> 0"
  have r: "r < length L" "m_size (L ! r) = 0" "\<forall>i < r. m_size (L ! i) \<noteq> 0"
    using remap Some by auto
  have split: "L = take r L @ [L ! r] @ drop (Suc r) L" using r(1) by (simp add: id_take_nth_drop)
  have "filter ?nz (take r L) = take r L"
    using r by (intro filter_True) (auto simp: in_set_conv_nth)
  moreover have "filter ?nz L = filter ?nz (take r L) @ filter ?nz [L ! r] @ filter ?nz (drop (Suc r) L)"
    by (subst split) (simp only: filter_append)
  ultimately have fil: "filter ?nz L = take r L @ filter ?nz (drop (Suc r) L)"
    using r(2) by simp
  have "\<forall>e \<in> set (drop (Suc r) L). m_addr e \<noteq> 0" using L by (auto dest: in_set_dropD)
  then obtain ys where
    run: "malloc3_compact (take r L @ [L ! r] @ drop (Suc r) L @ zero_ent # zs) (length (take r L))
        (length (take r L) + length [L ! r])
       = Inr (take r L @ filter ?nz (drop (Suc r) L) @ zero_ent # ys)"
    and len: "length (filter ?nz (drop (Suc r) L)) + length ys
        = length [L ! r] + length (drop (Suc r) L) + length zs"
    using malloc3_compact_run[of "[L ! r]" "drop (Suc r) L" "take r L" zs] by auto
  have eq: "take r L @ [L ! r] @ drop (Suc r) L @ zero_ent # zs = L @ zero_ent # zs"
    using split by (metis append_assoc)
  have "malloc3_compact (L @ zero_ent # zs) r (Suc r) = Inr (filter ?nz L @ zero_ent # ys)"
    using run[unfolded eq] fil r(1) by simp
  moreover have "length (filter ?nz L) + length ys = length L + length zs"
    using len fil r(1) by simp
  ultimately show ?thesis using Some by auto
qed

text \<open>The array that \<open>malloc3_resolve\<close> leaves, and the three bases.\<close>

lemma malloc3_resolved:
  assumes inv: "m3_inv [d, s, u] (es @ zero_ent # zs) bp (arr, [Some i, Some j, Some k], remap, found)"
    and bp: "bp \<le> length es" and bnd: "\<forall>e \<in> set es. m_addr e + m_size e < 65536"
    and U: "U = m3_used [d, s, u] [Some i, Some j, Some k]"
  shows "i < length es" "j < length es" "k < length es" "\<forall>x < length es. U x \<le> m_size (es ! x)"
    "malloc3_resolve [d, s, u] [0, 1, 2] [Some i, Some j, Some k] arr =
       Inr ([m_addr (es ! i), m_addr (es ! j) + (if i = j then d else 0),
             m_addr (es ! k) + (if i = k then d else 0) + (if j = k then s else 0)],
            m3_left U es @ zero_ent # zs)"
    "\<forall>x < length es. m_size (arr ! x) = m_size (m3_left U es ! x)"
proof -
  let ?arr0 = "es @ zero_ent # zs"
  have len: "length arr = length ?arr0"
    and ent: "\<And>x. x < length ?arr0 \<Longrightarrow> m_addr (arr ! x) = m_addr (?arr0 ! x) \<and>
        m_size (?arr0 ! x) = m_size (arr ! x) + U x"
    and idx: "\<forall>nxt < 3. \<forall>x. [Some i, Some j, Some k] ! nxt = Some x \<longrightarrow> x < bp"
    using inv by (auto simp: m3_inv_def U)
  show lt: "i < length es" "j < length es" "k < length es"
    using idx bp by (auto simp: less_3)
  have zero: "U x = 0" if "\<not> x < length es" for x
    using that lt by (auto simp: U m3_used_list)
  have in_es: "m_addr (arr ! x) = m_addr (es ! x) \<and> m_size (es ! x) = m_size (arr ! x) + U x"
    if "x < length es" for x
    using ent[of x] that by (simp add: nth_append)
  show fit: "\<forall>x < length es. U x \<le> m_size (es ! x)" using in_es by simp
  show "\<forall>x < length es. m_size (arr ! x) = m_size (m3_left U es ! x)"
    using in_es by (simp add: m3_left_def)
  have small: "m_addr (arr ! x) + U x < 65536" if "x \<in> {i, j, k}" for x
  proof -
    have x: "x < length es" using that lt by auto
    then have "m_addr (es ! x) + m_size (es ! x) < 65536" using bnd by simp
    then show ?thesis using in_es[OF x] by simp
  qed
  obtain arr' where res: "malloc3_resolve [d, s, u] [0, 1, 2] [Some i, Some j, Some k] arr =
       Inr ([m_addr (arr ! i), m_addr (arr ! j) + (if i = j then d else 0),
             m_addr (arr ! k) + (if i = k then d else 0) + (if j = k then s else 0)], arr')"
    and len': "length arr' = length arr"
    and arr': "\<forall>x < length arr. arr' ! x = (arr ! x)\<lparr>m_addr := m_addr (arr ! x) + U x\<rparr>"
    using malloc3_resolve_run[of i arr j k d s u] lt small len by (auto simp: U)
  have "arr' = m3_left U es @ zero_ent # zs"
  proof (rule nth_equalityI)
    show "length arr' = length (m3_left U es @ zero_ent # zs)"
      using len len' by (simp add: m3_left_def)
    fix x assume "x < length arr'"
    then have x: "x < length ?arr0" using len len' by simp
    show "arr' ! x = (m3_left U es @ zero_ent # zs) ! x"
      using arr' in_es[of x] zero[of x] ent[OF x] x len
      by (cases "x < length es") (auto simp: nth_append m3_left_def mapent.equality)
  qed
  then show "malloc3_resolve [d, s, u] [0, 1, 2] [Some i, Some j, Some k] arr =
       Inr ([m_addr (es ! i), m_addr (es ! j) + (if i = j then d else 0),
             m_addr (es ! k) + (if i = k then d else 0) + (if j = k then s else 0)],
            m3_left U es @ zero_ent # zs)"
    using res in_es lt by simp
qed

lemma m3_inv_start: "m3_inv sizes arr0 0 (arr0, [None, None, None], None, 0)"
  by (simp add: m3_inv_def m3_used_def less_3)

text \<open>A failed scan: some request fits no entry.\<close>

lemma m3_failed:
  assumes inv: "m3_inv [d, s, u] (es @ zero_ent # zs) (length es) (arr, madd, remap, found)"
    and ref: "m3_refused [d, s, u] (length es) (arr, madd, remap, found)"
  shows "\<forall>e \<in> set es. m_size e < d + s + u"
proof
  fix e assume "e \<in> set es"
  then obtain x where x: "x < length es" "e = es ! x" by (auto simp: in_set_conv_nth)
  obtain p q r where madd: "madd = [p, q, r]" using inv by (auto simp: m3_inv_def length_3)
  have "m_size ((es @ zero_ent # zs) ! x) = m_size (arr ! x) + m3_used [d, s, u] madd x"
    using inv x(1) by (simp add: m3_inv_def)
  then have "m_size e = m_size (arr ! x) + m3_used [d, s, u] madd x"
    using x by (simp add: nth_append)
  moreover obtain nxt where nxt: "nxt < 3" "madd ! nxt = None"
  proof -
    have "length (filter (\<lambda>x. \<not> Option.is_none x) [p, q, r]) < 3"
      using inv ref by (simp add: m3_inv_def m3_refused_def madd)
    then have "p = None \<or> q = None \<or> r = None" by (cases p; cases q; cases r) auto
    then show thesis using that[of 0] that[of 1] that[of 2] by (auto simp: madd)
  qed
  moreover from nxt ref x(1) have "m_size (arr ! x) < [d, s, u] ! nxt"
    by (simp add: m3_refused_def)
  ultimately show "m_size e < d + s + u"
    by (auto simp: madd m3_used_list less_3 split: if_splits)
qed

lemma m3_all_found:
  assumes "m3_inv sizes arr0 bp (arr, madd, remap, 3)"
  obtains i j k where "madd = [Some i, Some j, Some k]"
proof -
  obtain p q r where madd: "madd = [p, q, r]" using assms by (auto simp: m3_inv_def length_3)
  have "length (filter (\<lambda>x. \<not> Option.is_none x) [p, q, r]) = 3"
    using assms by (simp add: m3_inv_def madd)
  then show thesis using that madd by (cases p; cases q; cases r) auto
qed

text \<open>The entry to compact from, in terms of what is left.\<close>

lemma m3_remap:
  assumes inv: "m3_inv sizes (es @ zero_ent # zs) bp (arr, madd, remap, found)"
    and es: "entries es" and bp: "bp \<le> length es" and len: "length L = length es"
    and L: "\<forall>x < length es. m_size (arr ! x) = m_size (L ! x)"
  shows "case remap of None \<Rightarrow> \<forall>i < length L. m_size (L ! i) \<noteq> 0
      | Some r \<Rightarrow> r < length L \<and> m_size (L ! r) = 0 \<and> (\<forall>i < r. m_size (L ! i) \<noteq> 0)"
proof (cases remap)
  case None
  have "m_size (L ! x) \<noteq> 0" if x: "x < length es" for x
  proof (cases "x < bp")
    case True
    then show ?thesis using inv L[rule_format, OF x, symmetric] None by (simp add: m3_inv_def)
  next
    case False
    then have "m3_used sizes madd x = 0"
      using inv by (intro m3_used_0) (auto simp: m3_inv_def)
    then have "m_size ((es @ zero_ent # zs) ! x) = m_size (arr ! x)"
      using inv x by (simp add: m3_inv_def)
    moreover have "m_size (es ! x) \<noteq> 0" using es nth_mem[OF x] unfolding entries_def by blast
    ultimately show ?thesis using L x by (simp add: nth_append)
  qed
  then show ?thesis using None len by simp
next
  case (Some r)
  then show ?thesis using inv L bp len by (auto simp: m3_inv_def)
qed

lemma malloc3_return:
  assumes "malloc3_scan [d, s, u] 0 (m_map mp, [None, None, None], None, 0)
      = Inr ((arr, madd, remap, found), True)"
    and "malloc3_resolve [d, s, u] [0, 1, 2] madd arr = Inr ([a0, a1, a2], arr1)"
    and "(case remap of None \<Rightarrow> Inr arr1 | Some r \<Rightarrow> malloc3_compact arr1 r (Suc r)) = Inr arr2"
  shows "malloc3 mp d s u = Inr (a2, Some [a0, a1, a2], mp\<lparr>m_map := arr2\<rparr>)"
  using assms by (cases remap) (simp_all add: malloc3_def)

lemma malloc3_success:
  assumes m: "m_map mp = es @ zero_ent # zs" and es: "entries es"
    and can: "canon 1 (map ent_seg es)" and bnd: "\<forall>e \<in> set es. m_addr e + m_size e < 65536"
    and lim: "m_limit mp = length es + length zs"
    and inv: "m3_inv [d, s, u] (es @ zero_ent # zs) bp (arr, madd, remap, found)"
    and bp: "bp \<le> length es" and madd: "madd = [Some i, Some j, Some k]"
    and scan: "malloc3_scan [d, s, u] 0 (m_map mp, [None, None, None], None, 0)
      = Inr ((arr, madd, remap, found), True)"
  shows "\<exists>a0 a1 a2 mp'. malloc3 mp d s u = Inr (a2, Some [a0, a1, a2], mp')
            \<and> rmap_ok mp' \<and> m_limit mp' = m_limit mp \<and> disj_segs [(a0, d), (a1, s), (a2, u)]
            \<and> units [(a0, d), (a1, s), (a2, u)] \<subseteq> units (map ent_seg es)
            \<and> units (rmap_segs mp') = units (map ent_seg es) - units [(a0, d), (a1, s), (a2, u)]"
proof -
  let ?U = "m3_used [d, s, u] madd" and ?A = "\<lambda>x. m_addr (es ! x)"
  let ?a1 = "?A j + (if i = j then d else 0)"
  let ?a2 = "?A k + (if i = k then d else 0) + (if j = k then s else 0)"
  note res = malloc3_resolved[OF inv[unfolded madd] bp bnd refl]
  let ?L = "m3_left ?U es" and ?rs = "[(?A i, d), (?a1, s), (?a2, u)]"
  have addr: "\<forall>e \<in> set es. m_addr e \<noteq> 0"
    using canon_pos[OF can] by (fastforce simp: ent_seg_def)
  then have "\<forall>e \<in> set ?L. m_addr e \<noteq> 0" by (auto simp: m3_left_def)
  moreover have "case remap of None \<Rightarrow> \<forall>i < length ?L. m_size (?L ! i) \<noteq> 0
    | Some r \<Rightarrow> r < length ?L \<and> m_size (?L ! r) = 0 \<and> (\<forall>i < r. m_size (?L ! i) \<noteq> 0)"
    unfolding madd by (rule m3_remap[OF inv[unfolded madd] es bp _ res(6)]) simp
  ultimately obtain ys where
    fin: "(case remap of None \<Rightarrow> Inr (?L @ zero_ent # zs)
      | Some r \<Rightarrow> malloc3_compact (?L @ zero_ent # zs) r (Suc r)) =
        Inr (filter (\<lambda>e. m_size e \<noteq> 0) ?L @ zero_ent # ys)"
    and len: "length (filter (\<lambda>e. m_size e \<noteq> 0) ?L) + length ys = length ?L + length zs"
    using malloc3_finish by blast
  let ?mp = "mp\<lparr>m_map := filter (\<lambda>e. m_size e \<noteq> 0) ?L @ zero_ent # ys\<rparr>"
  have call: "malloc3 mp d s u = Inr (?a2, Some [?A i, ?a1, ?a2], ?mp)"
    by (rule malloc3_return[OF scan res(5)[folded madd] fin])
  have segs': "map ent_seg (filter (\<lambda>e. m_size e \<noteq> 0) ?L)
      = seg_shrink (map ent_seg es) (map ?U [0 ..< length es])"
    using m3_left_filter res(4) madd by simp
  have "list_all2 (\<lambda>x t. t \<le> snd x) (map ent_seg es) (map ?U [0 ..< length es])"
    using res(4) by (simp add: list_all2_conv_all_nth ent_seg_def madd)
  note shrunk = seg_shrink_spec[OF can this]
  have req: "disj_segs ?rs \<and>
      units (seg_heads (map ent_seg es) (map ?U [0 ..< length es])) = units ?rs"
    using m3_requests[OF can, of i j k d s u _ ?rs] res(1-4) by (simp add: ent_seg_def madd)
  have "m_addr e + m_size e < 65536" if "e \<in> set ?L" for e
    using that res(4) bnd by (auto simp: m3_left_def madd)
  then have ok': "rmap_ok ?mp" and "rmap_segs ?mp = seg_shrink (map ent_seg es) (map ?U [0 ..< length es])"
    using rmap_okI[of ?mp "filter (\<lambda>e. m_size e \<noteq> 0) ?L" ys] shrunk segs' len lim
    by (auto simp: m3_left_def)
  then have "units (rmap_segs ?mp) = units (map ent_seg es) - units ?rs"
    "units ?rs \<subseteq> units (map ent_seg es)"
    using shrunk req by simp_all
  moreover have "m_limit ?mp = m_limit mp" by simp
  ultimately show ?thesis using call req ok' by blast
qed

lemma malloc3_spec:
  assumes ok: "rmap_ok mp"
  shows "(malloc3 mp d s u = Inr (0, None, mp) \<and> (\<forall>(a, n) \<in> set (rmap_segs mp). n < d + s + u))
       \<or> (\<exists>a0 a1 a2 mp'. malloc3 mp d s u = Inr (a2, Some [a0, a1, a2], mp')
            \<and> rmap_ok mp' \<and> m_limit mp' = m_limit mp \<and> disj_segs [(a0, d), (a1, s), (a2, u)]
            \<and> units [(a0, d), (a1, s), (a2, u)] \<subseteq> units (rmap_segs mp)
            \<and> units (rmap_segs mp') = units (rmap_segs mp) - units [(a0, d), (a1, s), (a2, u)])"
proof -
  obtain es zs where m: "m_map mp = es @ zero_ent # zs" and es: "entries es"
    and segs: "rmap_segs mp = map ent_seg es" and can: "canon 1 (map ent_seg es)"
    and bnd: "\<forall>e \<in> set es. m_addr e + m_size e < 65536"
    and lim: "m_limit mp = length es + length zs"
    using ok by (rule rmap_okE)
  have sz: "\<forall>e \<in> set es. m_size e < 65536" using bnd by auto
  obtain arr madd remap found dn bp where
    scan: "malloc3_scan [d, s, u] 0 (m_map mp, [None, None, None], None, 0) = Inr ((arr, madd, remap, found), dn)"
    and inv: "m3_inv [d, s, u] (es @ zero_ent # zs) bp (arr, madd, remap, found)"
    and bp: "bp \<le> length es"
    and dn: "if dn then found = 3 else bp = length es \<and> m3_refused [d, s, u] bp (arr, madd, remap, found)"
  proof -
    obtain st dn bp where "malloc3_scan [d, s, u] 0 (m_map mp, [None, None, None], None, 0) = Inr (st, dn)"
      "m3_inv [d, s, u] (m_map mp) bp st" "bp \<le> length es"
      "if dn then snd (snd (snd st)) = 3 else bp = length es \<and> m3_refused [d, s, u] bp st"
      using malloc3_scan_inv[OF m3_inv_start m es sz, of "[d, s, u]"] by (auto simp: m3_refused_def)
    moreover obtain arr madd remap found where "st = (arr, madd, remap, found)" by (cases st)
    ultimately show thesis using that[of arr madd remap found dn bp] unfolding m by (cases dn) auto
  qed
  show ?thesis
  proof (cases dn)
    case False
    have "malloc3_restore [d, s, u] [0, 1, 2] madd arr = m_map mp"
      using m3_restored[OF inv] sz bp m by (simp add: nth_append)
    moreover have "\<forall>e \<in> set es. m_size e < d + s + u"
      using m3_failed inv dn False by (metis (full_types))
    ultimately show ?thesis using scan False by (simp add: malloc3_def segs ent_seg_def)
  next
    case True
    then obtain i j k where madd: "madd = [Some i, Some j, Some k]"
      using m3_all_found[of "[d, s, u]" _ bp arr madd remap] inv dn by metis
    have "malloc3_scan [d, s, u] 0 (m_map mp, [None, None, None], None, 0)
      = Inr ((arr, madd, remap, found), True)" using scan True by simp
    from malloc3_success[OF m es can bnd lim inv bp madd this] show ?thesis
      unfolding segs by (rule disjI2)
  qed
qed

end
