(* ===== verification/Swapmap.thy ===== *)
theory Swapmap
  imports Rmap_Malloc3
begin

text \<open>
  What the resource maps promise their callers.  The contract \<open>region_alloc\<close> is discharged
  twice: for \<open>malloc\<close>/\<open>mfree\<close> of \<open>sys/kern/subr_rmap.c\<close>, and for the swap image allocator,
  \<open>malloc3_contiguous_next\<close> with the cursor \<open>swapnext\<close> and \<open>mfree\<close>, as \<open>sys/kern/vm_swap.c\<close>
  and \<open>sys/kern/exec_subr.c\<close> use it.  \<open>swapmap_init\<close> is what \<open>startup\<close> of
  \<open>sys/kern/init_main.c\<close> does with the map declared in \<open>sys/arch/rp2040/rp2040/machdep.c\<close>.
\<close>

section \<open>Alignment is kept by mfree\<close>

lemma seg_insert_aligned:
  "list_all (\<lambda>(a, n). al dvd a \<and> al dvd n) xs \<Longrightarrow> al dvd a \<Longrightarrow> al dvd n \<Longrightarrow>
     list_all (\<lambda>(a, n). al dvd a \<and> al dvd n) (seg_insert a n xs)"
  by (induction a n xs rule: seg_insert.induct) (auto split: list.splits)

section \<open>The contract of malloc and mfree\<close>

definition rmap_alloc :: "kmap \<Rightarrow> nat \<Rightarrow> (nat \<times> kmap) option" where
  "rmap_alloc mp n =
     (case malloc mp n of Inr (a, mp') \<Rightarrow> if a = 0 then None else Some (a, mp') | Inl _ \<Rightarrow> None)"

definition rmap_release :: "kmap \<Rightarrow> nat \<Rightarrow> nat \<Rightarrow> kmap option" where
  "rmap_release mp a n =
     (case mfree mp n a of Inr (lost, mp') \<Rightarrow> if lost then None else Some mp' | Inl _ \<Rightarrow> None)"

definition extent_ok :: "nat \<Rightarrow> nat \<Rightarrow> bool" where
  "extent_ok a n \<longleftrightarrow> 0 < n \<and> 0 < a \<and> a + n < 65536"

lemma rmap_segs_fit: "rmap_ok mp \<Longrightarrow> length (rmap_segs mp) \<le> m_limit mp"
  by (erule rmap_okE) simp

lemma rmap_alloc_SomeD:
  assumes "rmap_ok mp" and "rmap_alloc mp n = Some (a, mp')"
  shows "rmap_ok mp' \<and> extent_ok a n \<and> m_limit mp' = m_limit mp
    \<and> {a ..< a + n} \<subseteq> units (rmap_segs mp)
    \<and> units (rmap_segs mp') = units (rmap_segs mp) - {a ..< a + n}"
proof -
  have n: "0 < n" using assms(2) by (cases n) (simp_all add: rmap_alloc_def malloc_def)
  have a: "0 < a" and m: "malloc mp n = Inr (a, mp')"
    using assms(2) by (auto simp: rmap_alloc_def split: sum.splits if_splits)
  have can: "canon 1 (rmap_segs mp)" and bnd: "list_all (\<lambda>(a, n). a + n < 65536) (rmap_segs mp)"
    using assms(1) by (auto simp: rmap_ok_def)
  obtain ys where ff: "ff_alloc n (rmap_segs mp) = Some (a, ys)"
    and mp': "rmap_ok mp'" "rmap_segs mp' = ys" "m_limit mp' = m_limit mp"
    using malloc_refines[OF assms(1) n] m a by (auto split: option.splits)
  obtain k where "n \<le> k" "(a, k) \<in> set (rmap_segs mp)" using ff_alloc_in[OF ff] by blast
  then have "a + n < 65536" using bnd by (auto simp: list_all_iff)
  then show ?thesis using ff_alloc_Some[OF can n ff] mp' n a by (simp add: extent_ok_def)
qed

lemma rmap_release_cases:
  assumes "rmap_ok mp" and "extent_ok a n" and "{a ..< a + n} \<inter> units (rmap_segs mp) = {}"
  shows "if length (seg_insert a n (rmap_segs mp)) \<le> m_limit mp
    then \<exists>mp'. rmap_release mp a n = Some mp' \<and> rmap_ok mp' \<and> m_limit mp' = m_limit mp
           \<and> rmap_segs mp' = seg_insert a n (rmap_segs mp)
           \<and> units (rmap_segs mp') = units (rmap_segs mp) \<union> {a ..< a + n}
    else rmap_release mp a n = None"
proof -
  have "canon 1 (rmap_segs mp)" using assms(1) by (simp add: rmap_ok_def)
  then have "units (seg_insert a n (rmap_segs mp)) = units (rmap_segs mp) \<union> {a ..< a + n}"
    using seg_insert_spec[of 1 "rmap_segs mp" a n] assms(2,3) by (simp add: extent_ok_def)
  then show ?thesis using mfree_refines[OF assms(1), of n a] assms(2,3)
    by (auto simp: rmap_release_def extent_ok_def split: if_splits)
qed

interpretation rmap: region_alloc rmap_segs rmap_ok id "\<lambda>_. extent_ok" m_limit rmap_alloc rmap_release
proof unfold_locales
  fix mp assume "rmap_ok mp"
  then show "canon 0 (rmap_segs mp)" by (auto simp: rmap_ok_def intro: canon_mono)
next
  fix mp n a mp' assume "rmap_ok mp" and "rmap_alloc mp n = Some (a, mp')"
  then show "rmap_ok mp' \<and> extent_ok a n \<and> m_limit mp' = m_limit mp
    \<and> {a ..< a + id n} \<subseteq> units (rmap_segs mp)
    \<and> units (rmap_segs mp') = units (rmap_segs mp) - {a ..< a + id n}"
    using rmap_alloc_SomeD by simp
next
  fix mp a n mp'
  assume "rmap_ok mp" "extent_ok a n" "{a ..< a + id n} \<inter> units (rmap_segs mp) = {}"
    and "rmap_release mp a n = Some mp'"
  then show "rmap_ok mp' \<and> m_limit mp' = m_limit mp
    \<and> units (rmap_segs mp') = units (rmap_segs mp) \<union> {a ..< a + id n}"
    using rmap_release_cases[of mp a n] by (auto split: if_splits)
next
  fix mp a n
  assume "rmap_ok mp" "extent_ok a n" "{a ..< a + id n} \<inter> units (rmap_segs mp) = {}"
    and "length (seg_insert a (id n) (rmap_segs mp)) \<le> m_limit mp"
  then show "rmap_release mp a n \<noteq> None" using rmap_release_cases[of mp a n] by auto
qed (auto simp: extent_ok_def)

section \<open>The contract of the swap image allocator\<close>

text \<open>
  The kernel's swap map and its cursor \<open>swapnext\<close>.  A single-segment request through
  \<open>malloc3_contiguous_next\<close> takes the request rounded up to \<open>SWAP_IMAGE_ALIGN\<close>.
\<close>

definition image_span :: "nat \<Rightarrow> nat" where
  "image_span n = (n + 3) div 4 * 4"

definition image_alloc :: "kmap \<times> nat \<Rightarrow> nat \<Rightarrow> (nat \<times> (kmap \<times> nat)) option" where
  "image_alloc st n = (case st of (mp, nxt) \<Rightarrow>
     case malloc3_contiguous_next mp n 0 0 4 nxt of
       Inr (span, Some (a # _), nxt', mp') \<Rightarrow> if span = 0 then None else Some (a, (mp', nxt'))
     | _ \<Rightarrow> None)"

definition image_release :: "kmap \<times> nat \<Rightarrow> nat \<Rightarrow> nat \<Rightarrow> (kmap \<times> nat) option" where
  "image_release st a n = (case st of (mp, nxt) \<Rightarrow>
     map_option (\<lambda>mp'. (mp', nxt)) (rmap_release mp a (image_span n)))"

definition image_ok :: "kmap \<times> nat \<Rightarrow> bool" where
  "image_ok st \<longleftrightarrow> rmap_ok (fst st) \<and> rmap_aligned 4 (fst st)"

definition image_valid :: "nat \<Rightarrow> nat \<Rightarrow> bool" where
  "image_valid a n \<longleftrightarrow> extent_ok a (image_span n) \<and> 4 dvd a"

lemma request_span_image:
  "request_span n 0 0 4 = Some span \<Longrightarrow> span = image_span n \<and> 0 < n \<and> n < 4294967296"
proof -
  assume r: "request_span n 0 0 4 = Some span"
  then have n: "0 < n" "n + 3 < 4294967296" by (auto simp: request_span_def Let_def split: if_splits)
  then have "span = and (n + 3) (not32 (2 ^ 2 - 1))"
    using r by (auto simp: request_span_def Let_def add.commute)
  then show ?thesis using n round_down_pow2[of "n + 3" 2] by (simp add: image_span_def)
qed

text \<open>
  \<open>swapin\<close> releases \<open>swapimagespan (dsize, ssize)\<close> blocks (\<open>DEV_BSIZE\<close> is 1024; \<open>usize\<close> is
  \<open>USIZE\<close>): the span of the request \<open>swapout\<close> made for the same image.
\<close>

definition btod :: "nat \<Rightarrow> nat" where
  "btod x = drop_bit 10 (u32 (x + 1023))"

definition swapimagespan :: "nat \<Rightarrow> nat \<Rightarrow> nat \<Rightarrow> nat" where
  "swapimagespan usize dsize ssize =
     (let blocks = u32 (btod dsize + btod ssize + btod usize)
      in and (u32 (blocks + 4 - 1)) (not32 (4 - 1)))"

lemma btod_small: "btod x < 4194304"
  using u32_less[of "x + 1023"] unfolding btod_def drop_bit_eq_div
  by (simp add: div_less_iff_less_mult del: u32_less)

lemma swapimagespan_request:
  assumes "0 < btod dsize + btod ssize + btod usize"
  shows "request_span (btod dsize) (btod ssize) (btod usize) 4 = Some (swapimagespan usize dsize ssize)"
proof -
  have "btod dsize + btod ssize + btod usize < 12582912"
    using btod_small[of dsize] btod_small[of ssize] btod_small[of usize] by linarith
  then show ?thesis using assms by (auto simp: request_span_def swapimagespan_def Let_def add_ac)
qed

lemma image_alloc_SomeD:
  assumes ok: "image_ok st" and al: "image_alloc st n = Some (a, st')"
  shows "image_ok st' \<and> image_valid a n \<and> m_limit (fst st') = m_limit (fst st)
    \<and> {a ..< a + image_span n} \<subseteq> units (rmap_segs (fst st))
    \<and> units (rmap_segs (fst st')) = units (rmap_segs (fst st)) - {a ..< a + image_span n}"
proof -
  obtain mp nxt where st: "st = (mp, nxt)" by force
  obtain span rest mp' nxt' where
    call: "malloc3_contiguous_next mp n 0 0 4 nxt = Inr (span, Some (a # rest), nxt', mp')"
      "span \<noteq> 0" "st' = (mp', nxt')"
    using al by (auto simp: image_alloc_def st split: sum.splits option.splits list.splits if_splits)
  then obtain sp where r: "request_span n 0 0 4 = Some sp"
    by (auto simp: malloc3_contiguous_next_def split: option.splits if_splits)
  have sp: "sp = image_span n" "0 < n" "n < 4294967296" using request_span_image[OF r] by simp_all
  have pos: "0 < image_span n" using sp(2) by (simp add: image_span_def)
  have mp: "rmap_ok mp" "rmap_aligned (2 ^ 2) mp" using ok by (simp_all add: image_ok_def st)
  obtain xs b m ys where nx: "rmap_segs mp = xs @ (b, m) # ys" "b \<le> a" "a + sp \<le> b + m" "4 dvd a"
    "rmap_segs mp' = xs @ seg_cut a sp (b, m) @ ys" "rmap_ok mp'" "rmap_aligned 4 mp'"
    "m_limit mp' = m_limit mp"
    using next_refines[OF mp, of n 0 0 sp nxt] r sp call by auto
  have can: "canon 1 (xs @ (b, m) # ys)" and bm: "b + m < 65536"
    using mp(1) nx(1) by (auto simp: rmap_ok_def)
  have "0 < b" using canon_pos[OF can, of b m] by simp
  then have "image_valid a n" using nx bm pos by (simp add: image_valid_def extent_ok_def sp)
  then show ?thesis
    using cut_spec(2,3)[OF can nx(2,3)] nx pos by (simp add: sp call(3) st image_ok_def)
qed

lemma image_release_cases:
  assumes "image_ok st" and "image_valid a n"
    and "{a ..< a + image_span n} \<inter> units (rmap_segs (fst st)) = {}"
  shows "if length (seg_insert a (image_span n) (rmap_segs (fst st))) \<le> m_limit (fst st)
    then \<exists>st'. image_release st a n = Some st' \<and> image_ok st' \<and> m_limit (fst st') = m_limit (fst st)
           \<and> units (rmap_segs (fst st')) = units (rmap_segs (fst st)) \<union> {a ..< a + image_span n}
    else image_release st a n = None"
proof -
  obtain mp nxt where st: "st = (mp, nxt)" by force
  have "4 dvd image_span n" by (simp add: image_span_def)
  then have "list_all (\<lambda>(a, n). 4 dvd a \<and> 4 dvd n) (seg_insert a (image_span n) (rmap_segs mp))"
    using assms(1,2) by (intro seg_insert_aligned) (auto simp: image_ok_def rmap_aligned_def image_valid_def st)
  then show ?thesis
    using rmap_release_cases[of mp a "image_span n"] assms
    by (auto simp: image_release_def image_ok_def image_valid_def rmap_aligned_def st)
qed

interpretation image: region_alloc "\<lambda>st. rmap_segs (fst st)" image_ok image_span "\<lambda>_. image_valid"
  "\<lambda>st. m_limit (fst st)" image_alloc image_release
proof unfold_locales
  fix st assume "image_ok st"
  then show "canon 0 (rmap_segs (fst st))" by (auto simp: image_ok_def rmap_ok_def intro: canon_mono)
next
  fix st n a st' assume "image_ok st" and "image_alloc st n = Some (a, st')"
  then show "image_ok st' \<and> image_valid a n \<and> m_limit (fst st') = m_limit (fst st)
    \<and> {a ..< a + image_span n} \<subseteq> units (rmap_segs (fst st))
    \<and> units (rmap_segs (fst st')) = units (rmap_segs (fst st)) - {a ..< a + image_span n}"
    by (rule image_alloc_SomeD)
next
  fix st a n st'
  assume "image_ok st" "image_valid a n" "{a ..< a + image_span n} \<inter> units (rmap_segs (fst st)) = {}"
    and "image_release st a n = Some st'"
  then show "image_ok st' \<and> m_limit (fst st') = m_limit (fst st)
    \<and> units (rmap_segs (fst st')) = units (rmap_segs (fst st)) \<union> {a ..< a + image_span n}"
    using image_release_cases[of st a n] by (auto split: if_splits)
next
  fix st a n
  assume "image_ok st" "image_valid a n" "{a ..< a + image_span n} \<inter> units (rmap_segs (fst st)) = {}"
    and "length (seg_insert a (image_span n) (rmap_segs (fst st))) \<le> m_limit (fst st)"
  then show "image_release st a n \<noteq> None" using image_release_cases[of st a n] by auto
qed (auto simp: image_valid_def extent_ok_def)

section \<open>The swap map of the RP2040\<close>

text \<open>
  \<open>swapmap\<close> starts as \<open>SMAPSIZ = 29\<close> zero entries with \<open>m_limit\<close> at the last of them, and
  \<open>startup\<close> frees \<open>nswap - SWAP_IMAGE_ALIGN\<close> blocks from block \<open>SWAP_IMAGE_ALIGN\<close> on.
\<close>

definition swapmap_bss :: kmap where
  "swapmap_bss = \<lparr>m_map = replicate 29 zero_ent, m_limit = 28, m_name = ''swapmap''\<rparr>"

definition swapmap_init :: "nat \<Rightarrow> kmap res" where
  "swapmap_init nswap =
     (if nswap \<le> 4 then Inl (Panic ''swap size'')
      else andthen (mfree swapmap_bss (nswap - 4) 4) (\<lambda>(lost, mp). Inr mp))"

lemma swapmap_bss_ok:
  "rmap_ok swapmap_bss" "rmap_segs swapmap_bss = []" "m_limit swapmap_bss = 28"
  by (simp_all add: swapmap_bss_def rmap_ok_def rmap_segs_def)

lemma swapmap_init_ok:
  assumes "4 < nswap" and "nswap < 65536" and "4 dvd nswap"
  shows "\<exists>mp. swapmap_init nswap = Inr mp \<and> rmap_ok mp \<and> rmap_aligned 4 mp
           \<and> rmap_segs mp = [(4, nswap - 4)] \<and> m_limit mp = 28"
proof -
  have "\<exists>mp'. mfree swapmap_bss (nswap - 4) 4 = Inr (False, mp') \<and> rmap_ok mp'
      \<and> m_limit mp' = m_limit swapmap_bss \<and> rmap_segs mp' = [(4, nswap - 4)]"
    using mfree_refines[OF swapmap_bss_ok(1), of "nswap - 4" 4] assms(1,2)
    by (simp add: swapmap_bss_ok)
  then show ?thesis using assms by (auto simp: swapmap_init_def rmap_aligned_def swapmap_bss_ok)
qed

text \<open>Sample maps: 12 free blocks at 4, and what an image of 5 blocks leaves of them.\<close>

definition map12 :: kmap where
  "map12 = \<lparr>m_map = \<lparr>m_size = 12, m_addr = 4\<rparr> # replicate 28 zero_ent, m_limit = 28, m_name = ''swapmap''\<rparr>"

definition map4 :: kmap where
  "map4 = \<lparr>m_map = \<lparr>m_size = 4, m_addr = 12\<rparr> # replicate 28 zero_ent, m_limit = 28, m_name = ''swapmap''\<rparr>"

lemma replicate_29: "replicate 29 x = x # x # replicate 27 x" "replicate 28 x = x # replicate 27 x"
  by (simp_all add: numeral_eq_Suc)

lemma swapmap_init_16: "swapmap_init 16 = Inr map12"
  by (simp add: swapmap_init_def swapmap_bss_def mfree_def mfree_search.simps find_end.simps
    shift_right.simps replicate_29 map12_def Let_def)

lemma image_alloc_map12: "image_alloc (map12, 4) 5 = Some (4, (map4, 12))" 
  by (simp add: image_alloc_def malloc3_contiguous_next_def request_span_def not32_def map12_def
      map4_def find_end.simps next_pass.simps next_candidate_def next_take_def usub32_def u32_def
      u16_def)

lemma map12_ok: "rmap_ok map12" "rmap_segs map12 = [(4, 12)]" "rmap_aligned 4 map12"
  by (simp_all add: map12_def rmap_ok_def rmap_segs_def rmap_aligned_def replicate_29)

section \<open>Properties\<close>

text \<open>
  C1.  Swap space is never lost and never shared.  Start from the swap map as \<open>startup\<close>
  leaves it (any swap partition of 5 to 65535 blocks that is a multiple of four) and run any
  sequence of image allocations through \<open>malloc3_contiguous_next\<close> and releases through
  \<open>mfree\<close>: the live images never overlap, free and live blocks together are exactly the
  partition, and while at most 28 images are live every release is accepted, so the warning
  branch of \<open>mfree\<close> that drops blocks is not reached with the 29 slots of \<open>SMAPSIZ\<close>.
\<close>

theorem swapmap_never_loses_space:
  assumes "4 < nswap" and "nswap < 65536" and "4 dvd nswap" and "swapmap_init nswap = Inr mp0"
    and run: "region_run image_alloc image_release (mp0, cur) (mp, nxt) live"
  shows "disj_segs (map (map_prod id image_span) live)
    \<and> units (rmap_segs mp) \<inter> units (map (map_prod id image_span) live) = {}
    \<and> units (rmap_segs mp) \<union> units (map (map_prod id image_span) live) = {4 ..< nswap}
    \<and> (length live \<le> 28 \<longrightarrow> (\<forall>(a, n) \<in> set live. \<exists>mp'. mfree mp (image_span n) a = Inr (False, mp')))"
proof -
  have mp0: "rmap_ok mp0" "rmap_aligned 4 mp0" "rmap_segs mp0 = [(4, nswap - 4)]" "m_limit mp0 = 28"
    using swapmap_init_ok[OF assms(1-3)] assms(4) by auto
  then have ok: "image_ok (mp0, cur)" by (simp add: image_ok_def)
  have whole: "units (rmap_segs (fst (mp0, cur))) = {4 ..< nswap}" using mp0(3) assms(1) by simp
  have "\<exists>mp'. mfree mp (image_span n) a = Inr (False, mp')"
    if "length live \<le> 28" and "(a, n) \<in> set live" for a n
  proof -
    have "image_release (mp, nxt) a n \<noteq> None"
      using image.run_release_succeeds[OF run ok whole that(2)] that(1) mp0(4) by simp
    then show ?thesis by (auto simp: image_release_def rmap_release_def split: sum.splits if_splits)
  qed
  then show ?thesis using image.run_inv[OF run ok] whole by (auto simp: image.extents_def)
qed

theorem swapmap_never_loses_space_witness:
  "\<exists>mp'. mfree map4 (image_span 5) 4 = Inr (False, mp')"
  using swapmap_never_loses_space[of 16 map12 4 map4 12 "[(4, 5)]",
    OF _ _ _ swapmap_init_16 run_alloc[of image_alloc image_release _ _ "[]", OF run_start image_alloc_map12]] by simp

lemma malloc_mfree_round_trip:
  assumes ok: "rmap_ok mp" and n: "0 < n" and call: "malloc mp n = Inr (a, mp')" and "a \<noteq> 0"
  shows "\<exists>mp''. mfree mp' n a = Inr (False, mp'') \<and> rmap_ok mp'' \<and> rmap_segs mp'' = rmap_segs mp"
proof -
  have "rmap_alloc mp n = Some (a, mp')" using assms by (simp add: rmap_alloc_def)
  note al = rmap_alloc_SomeD[OF ok this]
  have can: "canon 1 (rmap_segs mp)" "canon 1 (rmap_segs mp')"
    using ok al by (simp_all add: rmap_ok_def)
  have dis: "{a ..< a + n} \<inter> units (rmap_segs mp') = {}" using al by blast
  have ins: "canon 1 (seg_insert a n (rmap_segs mp'))"
    "units (seg_insert a n (rmap_segs mp')) = units (rmap_segs mp') \<union> {a ..< a + n}"
    using seg_insert_spec[OF can(2) _ n dis] \<open>a \<noteq> 0\<close> by simp_all
  then have "units (seg_insert a n (rmap_segs mp')) = units (rmap_segs mp)" using al by blast
  then have eq: "seg_insert a n (rmap_segs mp') = rmap_segs mp" by (rule canon_unique[OF ins(1) can(1)])
  have "length (rmap_segs mp) \<le> m_limit mp'" using rmap_segs_fit[OF ok] al by simp
  then show ?thesis
    using mfree_refines[OF _ n _ _ dis] al eq \<open>a \<noteq> 0\<close> by (auto simp: extent_ok_def)
qed

text \<open>
  C30.  \<open>malloc\<close> is first fit.  On a well-formed map and a positive size it neither panics nor
  leaves the array, and its effect on the free list is exactly that of the reference
  \<open>ff_alloc\<close>: the low end of the first segment that is large enough, or 0 and an unchanged map
  when there is none.  The map stays well formed and exactly the returned units left it; and returning them with \<open>mfree\<close> is
  never refused and restores the very list of segments.
\<close>

theorem malloc_first_fit:
  assumes "rmap_ok mp" and "0 < n"
  shows "\<exists>a mp'. malloc mp n = Inr (a, mp') \<and> rmap_ok mp' \<and>
     (case ff_alloc n (rmap_segs mp) of
        None \<Rightarrow> a = 0 \<and> mp' = mp \<and> (\<forall>(b, m) \<in> set (rmap_segs mp). m < n)
      | Some (b, segs) \<Rightarrow> a = b \<and> 0 < a \<and> rmap_segs mp' = segs
          \<and> {a ..< a + n} \<subseteq> units (rmap_segs mp)
          \<and> units segs = units (rmap_segs mp) - {a ..< a + n}
          \<and> (\<exists>mp''. mfree mp' n a = Inr (False, mp'') \<and> rmap_ok mp'' \<and> rmap_segs mp'' = rmap_segs mp))"
proof (cases "ff_alloc n (rmap_segs mp)")
  case None
  then show ?thesis using malloc_refines[OF assms] assms(1) ff_alloc_None[THEN iffD1, OF None] by simp
next
  case (Some r)
  obtain a segs where r: "ff_alloc n (rmap_segs mp) = Some (a, segs)" using Some by (cases r) auto
  have can: "canon 1 (rmap_segs mp)" using assms(1) by (simp add: rmap_ok_def)
  have "0 < a" using ff_alloc_in[OF r] canon_pos[OF can] by fastforce
  moreover obtain mp' where m: "malloc mp n = Inr (a, mp')" "rmap_ok mp'" "rmap_segs mp' = segs" using malloc_refines[OF assms] r by auto
  ultimately have "\<exists>mp''. mfree mp' n a = Inr (False, mp'') \<and> rmap_ok mp'' \<and> rmap_segs mp'' = rmap_segs mp"
    using malloc_mfree_round_trip[OF assms m(1)] by simp
  then show ?thesis using m \<open>0 < a\<close> ff_alloc_Some[OF can assms(2) r] r by auto
qed

theorem malloc_first_fit_witness:
  "\<exists>mp' mp''. malloc map12 5 = Inr (4, mp') \<and> rmap_segs mp' = [(9, 7)] \<and> mfree mp' 5 4 = Inr (False, mp'') \<and> rmap_segs mp'' = [(4, 12)]"
  using malloc_first_fit[of map12 5] by (auto simp: map12_ok)

text \<open>
  C31.  \<open>mfree\<close> inserts and coalesces.  Returning a region that is not free yields the
  canonical free list of the old units and the region, so both neighbours are merged when
  they touch it.  The space is dropped, and the map left alone, exactly when that list would
  need more entries than the map can hold before its terminator.
\<close>

theorem mfree_coalesces:
  assumes "rmap_ok mp" and "0 < n" and "0 < a" and "a + n < 65536"
    and "{a ..< a + n} \<inter> units (rmap_segs mp) = {}"
  shows "if length (seg_insert a n (rmap_segs mp)) \<le> m_limit mp
    then \<exists>mp'. mfree mp n a = Inr (False, mp') \<and> rmap_ok mp' \<and> m_limit mp' = m_limit mp
           \<and> rmap_segs mp' = seg_insert a n (rmap_segs mp) \<and> canon 1 (rmap_segs mp')
           \<and> units (rmap_segs mp') = units (rmap_segs mp) \<union> {a ..< a + n}
    else mfree mp n a = Inr (True, mp)"
proof -
  have "canon 1 (rmap_segs mp)" using assms(1) by (simp add: rmap_ok_def)
  then have "canon 1 (seg_insert a n (rmap_segs mp)) \<and>
      units (seg_insert a n (rmap_segs mp)) = units (rmap_segs mp) \<union> {a ..< a + n}"
    using assms(2,3,5) by (intro seg_insert_spec) auto
  then show ?thesis using mfree_refines[OF assms] by (auto split: if_splits)
qed

theorem mfree_coalesces_witness:
  "\<exists>mp'. mfree map12 3 16 = Inr (False, mp') \<and> rmap_segs mp' = [(4, 15)]"
  using mfree_coalesces[of map12 3 16] by (auto simp: map12_ok map12_def[THEN arg_cong[of _ _ m_limit]])

text \<open>
  \<open>malloc3\<close> allocates all three segments or none.  Either it returns 0, leaves the map as
  it was down to the last array cell, and no free segment could have held the three requests
  together; or it returns three disjoint regions of the requested sizes, taken out of free
  space, and exactly they left the free list.
\<close>

theorem malloc3_all_or_nothing:
  assumes "rmap_ok mp"
  shows "(malloc3 mp d s u = Inr (0, None, mp) \<and> (\<forall>(a, n) \<in> set (rmap_segs mp). n < d + s + u))
       \<or> (\<exists>a0 a1 a2 mp'. malloc3 mp d s u = Inr (a2, Some [a0, a1, a2], mp')
            \<and> rmap_ok mp' \<and> m_limit mp' = m_limit mp \<and> disj_segs [(a0, d), (a1, s), (a2, u)]
            \<and> units [(a0, d), (a1, s), (a2, u)] \<subseteq> units (rmap_segs mp)
            \<and> units (rmap_segs mp') = units (rmap_segs mp) - units [(a0, d), (a1, s), (a2, u)])"
  by (rule malloc3_spec[OF assms])

theorem malloc3_all_or_nothing_witness:
  "(\<exists>a0 a1 a2 mp'. malloc3 map12 4 2 6 = Inr (a2, Some [a0, a1, a2], mp')
      \<and> disj_segs [(a0, 4), (a1, 2), (a2, 6)])
   \<and> malloc3 map12 4 2 13 = Inr (0, None, map12)"
proof
  show "\<exists>a0 a1 a2 mp'. malloc3 map12 4 2 6 = Inr (a2, Some [a0, a1, a2], mp')
      \<and> disj_segs [(a0, 4), (a1, 2), (a2, 6)]"
    using malloc3_all_or_nothing[OF map12_ok(1), of 4 2 6] by (auto simp: map12_ok(2))
  have "\<not> units [(a0, 4), (a1, 2), (a2, 13)] \<subseteq> units [(4, 12)]" for a0 a1 a2
    by auto
  then show "malloc3 map12 4 2 13 = Inr (0, None, map12)"
    using malloc3_all_or_nothing[OF map12_ok(1), of 4 2 13] unfolding map12_ok(2) by blast
qed

text \<open>
  C32.  The next-fit search for swap images is sound and complete.  On an aligned map,
  \<open>malloc3_contiguous_next\<close> does not panic; it reports a shortage only when no free
  segment holds the rounded request, however the cursor stands and whether or not a spare
  map entry is left for a split; otherwise the image is one aligned run inside a free
  segment, its three parts follow each other, the cursor moves to its end, and the free
  list is the old one with that run cut out, still well formed and aligned.
\<close>

theorem next_fit_sound_and_complete:
  assumes "rmap_ok mp" and "rmap_aligned (2 ^ k) mp" and "k \<le> 16"
    and "request_span d s u (2 ^ k) = Some span"
    and "d < 4294967296" and "s < 4294967296" and "u < 4294967296"
  shows "(malloc3_contiguous_next mp d s u (2 ^ k) nxt = Inr (0, None, nxt, mp)
            \<and> (\<forall>(a, n) \<in> set (rmap_segs mp). n < span))
       \<or> (\<exists>c mp' xs a n ys.
            malloc3_contiguous_next mp d s u (2 ^ k) nxt =
              Inr (span, Some [c, c + d, c + d + s], c + span, mp')
            \<and> rmap_segs mp = xs @ (a, n) # ys \<and> a \<le> c \<and> c + span \<le> a + n \<and> 2 ^ k dvd c
            \<and> d + s + u \<le> span \<and> 2 ^ k dvd span
            \<and> rmap_segs mp' = xs @ seg_cut c span (a, n) @ ys
            \<and> rmap_ok mp' \<and> rmap_aligned (2 ^ k) mp' \<and> m_limit mp' = m_limit mp)"
proof -
  have "2 ^ k dvd span" "d + s + u \<le> span"
    using request_span_Some[OF assms(4) _ assms(5-7)] assms(3) by simp_all
  then show ?thesis using next_refines[OF assms, of nxt] by blast
qed

theorem next_fit_sound_and_complete_witness:
  "\<exists>c mp'. malloc3_contiguous_next map12 3 1 1 4 8 = Inr (8, Some [c, c + 3, c + 4], c + 8, mp')
     \<and> 4 dvd c"
proof -
  have "request_span 3 1 1 (2 ^ 2) = Some 8" by (simp add: request_span_def not32_def Let_def)
  then show ?thesis
    using next_fit_sound_and_complete[of map12 2 3 1 1 8 8] by (auto simp: map12_ok)
qed

end
