(* ===== verification/Swapram_Pool.thy ===== *)
theory Swapram_Pool
  imports Segments
begin

text \<open>
  The byte allocator of the compressed swap tier,
  \<open>sys/arch/rp2040/rp2040/swapram_pool.c\<close>.  The free list is the first \<open>p_used\<close> cells of the
  array \<open>p_seg\<close> of \<open>p_nseg\<close> cells; \<open>unsigned int\<close> has 32 bits and every sum that may wrap is
  reduced by \<open>u32\<close>.  A return value of 0 is \<open>Some\<close> or \<open>True\<close>, a return value of -1 is
  \<open>None\<close> or \<open>False\<close>; an access outside the array is the fault \<open>Wild\<close>.

  The operations are proved equal to the reference versions of \<open>Segments\<close>, and the contract
  \<open>region_alloc\<close> is discharged, so the pool has the guarantees of the swap map.
\<close>

section \<open>The data\<close>

record swapram_seg =
  s_off :: nat
  s_size :: nat

record swapram_pool =
  p_base :: nat
  p_size :: nat
  p_nseg :: nat
  p_used :: nat
  p_seg :: "swapram_seg list"

definition roundgrain :: "nat \<Rightarrow> nat" where
  "roundgrain n = and (u32 (n + (4 - 1))) (not32 (4 - 1))"

section \<open>The operations\<close>

definition swapram_pool_init ::
  "nat \<Rightarrow> nat \<Rightarrow> swapram_seg list \<Rightarrow> nat \<Rightarrow> swapram_pool res" where
  "swapram_pool_init base sz seg nseg =
     (let mp = \<lparr>p_base = base, p_size = and sz (not32 (4 - 1)), p_nseg = nseg, p_used = 0, p_seg = seg\<rparr>
      in if nseg = 0 \<or> p_size mp = 0 then Inr mp
         else if length seg = 0 then Inl Wild
         else Inr (mp\<lparr>p_seg := seg[0 := \<lparr>s_off = 0, s_size = p_size mp\<rparr>], p_used := 1\<rparr>))"

text \<open>The search of \<open>swapram_pool_alloc\<close>, and the loop that closes the gap at a cell.\<close>

function pool_fit :: "swapram_seg list \<Rightarrow> nat \<Rightarrow> nat \<Rightarrow> nat \<Rightarrow> nat option res" where
  "pool_fit seg used want i =
     (if i < used then
        if i < length seg then
          if s_size (seg ! i) < want then pool_fit seg used want (Suc i) else Inr (Some i)
        else Inl Wild
      else Inr None)"
  by pat_completeness auto
termination
  by (relation "measure (\<lambda>(seg, used, want, i). used - i)") auto

function pool_close :: "swapram_seg list \<Rightarrow> nat \<Rightarrow> nat \<Rightarrow> swapram_seg list res" where
  "pool_close seg used i =
     (if i + 1 < used then
        if i + 1 < length seg then pool_close (seg[i := seg ! (i + 1)]) used (i + 1) else Inl Wild
      else Inr seg)"
  by pat_completeness auto
termination
  by (relation "measure (\<lambda>(seg, used, i). used - i)") auto

definition swapram_pool_alloc :: "swapram_pool \<Rightarrow> nat \<Rightarrow> (nat option \<times> swapram_pool) res" where
  "swapram_pool_alloc mp sz =
     (let want = roundgrain sz in
      if want = 0 \<or> p_size mp < want then Inr (None, mp)
      else andthen (pool_fit (p_seg mp) (p_used mp) want 0) (\<lambda>fit.
        case fit of
          None \<Rightarrow> Inr (None, mp)
        | Some i \<Rightarrow>
            let s = p_seg mp ! i;
                s' = \<lparr>s_off = u32 (s_off s + want), s_size = s_size s - want\<rparr>;
                seg = (p_seg mp)[i := s']
            in if s_size s' = 0
               then andthen (pool_close seg (p_used mp) i) (\<lambda>seg'.
                 Inr (Some (s_off s), mp\<lparr>p_seg := seg', p_used := p_used mp - 1\<rparr>))
               else Inr (Some (s_off s), mp\<lparr>p_seg := seg\<rparr>)))"

text \<open>The first free segment that starts at or after \<open>off\<close>.\<close>

function pool_first :: "swapram_seg list \<Rightarrow> nat \<Rightarrow> nat \<Rightarrow> nat \<Rightarrow> nat res" where
  "pool_first seg used off i =
     (if i < used then
        if i < length seg then
          if s_off (seg ! i) < off then pool_first seg used off (Suc i) else Inr i
        else Inl Wild
      else Inr i)"
  by pat_completeness auto
termination
  by (relation "measure (\<lambda>(seg, used, off, i). used - i)") auto

definition swapram_pool_free :: "swapram_pool \<Rightarrow> nat \<Rightarrow> nat \<Rightarrow> (bool \<times> swapram_pool) res" where
  "swapram_pool_free mp off sz =
     (let want = roundgrain sz; seg = p_seg mp; used = p_used mp in
      if want = 0 \<or> off mod 4 \<noteq> 0 \<or> p_size mp < u32 (off + want) then Inr (False, mp)
      else andthen (pool_first seg used off 0) (\<lambda>i.
        let lo = seg ! (i - 1); hi = seg ! i in
        if 0 < i \<and> off < u32 (s_off lo + s_size lo) then Inr (False, mp)
        else if i < used \<and> s_off hi < u32 (off + want) then Inr (False, mp)
        else if 0 < i \<and> u32 (s_off lo + s_size lo) = off then
          let lo' = lo\<lparr>s_size := u32 (s_size lo + want)\<rparr>; seg' = seg[i - 1 := lo'] in
          if i < used \<and> u32 (s_off lo' + s_size lo') = s_off hi then
            andthen (pool_close (seg'[i - 1 := lo'\<lparr>s_size := u32 (s_size lo' + s_size hi)\<rparr>]) used i)
              (\<lambda>seg''. Inr (True, mp\<lparr>p_seg := seg'', p_used := used - 1\<rparr>))
          else Inr (True, mp\<lparr>p_seg := seg'\<rparr>)
        else if i < used \<and> u32 (off + want) = s_off hi then
          Inr (True, mp\<lparr>p_seg := seg[i := \<lparr>s_off = off, s_size = u32 (s_size hi + want)\<rparr>]\<rparr>)
        else if used = p_nseg mp then Inr (False, mp)
        else andthen (shift_right seg i used) (\<lambda>seg'.
          if i < length seg' then
            Inr (True, mp\<lparr>p_seg := seg'[i := \<lparr>s_off = off, s_size = want\<rparr>], p_used := used + 1\<rparr>)
          else Inl Wild)))"

definition swapram_pool_trim ::
  "swapram_pool \<Rightarrow> nat \<Rightarrow> nat \<Rightarrow> nat \<Rightarrow> (bool \<times> swapram_pool) res" where
  "swapram_pool_trim mp off oldsize newsize =
     (let keep = roundgrain newsize; had = roundgrain oldsize in
      if had < keep then Inr (False, mp)
      else if keep = had then Inr (True, mp)
      else swapram_pool_free mp (u32 (off + keep)) (had - keep))"

definition swapram_pool_avail :: "swapram_pool \<Rightarrow> nat" where
  "swapram_pool_avail mp = fold (\<lambda>s n. u32 (n + s_size s)) (take (p_used mp) (p_seg mp)) 0"

definition swapram_pool_largest :: "swapram_pool \<Rightarrow> nat" where
  "swapram_pool_largest mp =
     fold (\<lambda>s n. if n < s_size s then s_size s else n) (take (p_used mp) (p_seg mp)) 0"

declare pool_fit.simps [simp del] pool_close.simps [simp del] pool_first.simps [simp del]

section \<open>The free list a pool describes\<close>

definition seg_pair :: "swapram_seg \<Rightarrow> seg" where
  "seg_pair s = (s_off s, s_size s)"

definition pool_segs :: "swapram_pool \<Rightarrow> seg list" where
  "pool_segs mp = map seg_pair (take (p_used mp) (p_seg mp))"

definition seg_fine :: "nat \<Rightarrow> seg \<Rightarrow> bool" where
  "seg_fine lim x \<longleftrightarrow> fst x + snd x \<le> lim \<and> 4 dvd fst x \<and> 4 dvd snd x"

definition pool_ok :: "swapram_pool \<Rightarrow> bool" where
  "pool_ok mp \<longleftrightarrow> length (p_seg mp) = p_nseg mp \<and> p_used mp \<le> p_nseg mp
     \<and> p_size mp < 4294967296 \<and> 4 dvd p_size mp \<and> canon 0 (pool_segs mp)
     \<and> list_all (seg_fine (p_size mp)) (pool_segs mp)"

lemma seg_pair_simps [simp]:
  "seg_pair \<lparr>s_off = a, s_size = n\<rparr> = (a, n)" "fst (seg_pair s) = s_off s" "snd (seg_pair s) = s_size s"
  by (simp_all add: seg_pair_def)

definition grain :: "nat \<Rightarrow> nat" where
  "grain n = (n + 3) div 4 * 4"

lemma roundgrain_grain: "n + 3 < 4294967296 \<Longrightarrow> roundgrain n = grain n"
  using round_down_pow2[of "n + 3" 2] by (simp add: roundgrain_def grain_def)

lemma roundgrain_dvd: "4 dvd roundgrain n" and roundgrain_less: "roundgrain n < 4294967296"
proof -
  have "roundgrain n = u32 (n + 3) div 4 * 4"
    using round_down_pow2[of "u32 (n + 3)" 2] by (simp add: roundgrain_def)
  then show "4 dvd roundgrain n" and "roundgrain n < 4294967296"
    using u32_less[of "n + 3"] by (auto simp del: u32_less) 
qed

lemma roundgrain_id: "4 dvd n \<Longrightarrow> n + 3 < 4294967296 \<Longrightarrow> roundgrain n = n"
  by (auto simp: roundgrain_grain grain_def elim!: dvdE)

section \<open>What the loops compute\<close>

lemma pool_fit_run:
  assumes "\<forall>s \<in> set es. s_size s < want"
  shows "pool_fit (pre @ es @ zs) (length pre + length es) want (length pre) = Inr None"
    and "want \<le> s_size s \<Longrightarrow> length pre + length es < used \<Longrightarrow>
      pool_fit (pre @ es @ s # zs) used want (length pre) = Inr (Some (length pre + length es))"
  using assms
proof (induction es arbitrary: pre)
  case Nil
  {
    case 1
    show ?case by (simp add: pool_fit.simps)
  next
    case 2
    then show ?case by (simp add: pool_fit.simps)
  }
next
  case (Cons e es)
  {
    case 1
    then have "pool_fit (pre @ (e # es) @ zs) (length pre + length (e # es)) want (length pre) =
        pool_fit ((pre @ [e]) @ es @ zs) (length (pre @ [e]) + length es) want (length (pre @ [e]))"
      by (subst pool_fit.simps) simp
    then show ?case using Cons.IH(1)[of "pre @ [e]"] 1 by simp
  next
    case 2
    then have "pool_fit (pre @ (e # es) @ s # zs) used want (length pre) =
        pool_fit ((pre @ [e]) @ es @ s # zs) used want (length (pre @ [e]))"
      by (subst pool_fit.simps) simp
    then show ?case using Cons.IH(2)[of "pre @ [e]"] 2 by simp
  }
qed

lemma pool_close_run:
  "\<exists>x. pool_close (pre @ y # es @ zs) (length pre + Suc (length es)) (length pre) = Inr (pre @ es @ x # zs)"
proof (induction es arbitrary: pre y)
  case Nil
  show ?case by (subst pool_close.simps) simp
next
  case (Cons e es)
  have "pool_close (pre @ y # (e # es) @ zs) (length pre + Suc (length (e # es))) (length pre) =
      pool_close ((pre @ [e]) @ e # es @ zs) (length (pre @ [e]) + Suc (length es)) (length (pre @ [e]))"
    by (subst pool_close.simps) (simp add: nth_append)
  then show ?case using Cons.IH[of "pre @ [e]" e] by simp
qed

lemma pool_first_run:
  assumes "\<forall>s \<in> set es1. s_off s < off" and "es2 \<noteq> [] \<Longrightarrow> off \<le> s_off (hd es2)"
  shows "pool_first (pre @ es1 @ es2 @ zs) (length pre + length es1 + length es2) off (length pre)
    = Inr (length pre + length es1)"
  using assms(1)
proof (induction es1 arbitrary: pre)
  case Nil
  then show ?case using assms(2) by (cases es2) (simp_all add: pool_first.simps)
next
  case (Cons e es1)
  have "pool_first (pre @ (e # es1) @ es2 @ zs) (length pre + length (e # es1) + length es2) off (length pre)
    = pool_first ((pre @ [e]) @ es1 @ es2 @ zs) (length (pre @ [e]) + length es1 + length es2) off
        (length (pre @ [e]))"
    using Cons.prems by (subst pool_first.simps) simp
  then show ?case using Cons.IH[of "pre @ [e]"] Cons.prems by simp
qed

section \<open>Allocation is first fit\<close>

text \<open>The cells in use and the rest of the array.\<close>

lemma pool_okE:
  assumes "pool_ok mp"
  obtains es zs where "p_seg mp = es @ zs" "p_used mp = length es" "p_nseg mp = length es + length zs"
    "pool_segs mp = map seg_pair es" "canon 0 (map seg_pair es)"
    "list_all (seg_fine (p_size mp)) (map seg_pair es)" "p_size mp < 4294967296" "4 dvd p_size mp"
proof
  show "p_seg mp = take (p_used mp) (p_seg mp) @ drop (p_used mp) (p_seg mp)" by simp
  show "pool_segs mp = map seg_pair (take (p_used mp) (p_seg mp))" by (simp add: pool_segs_def)
qed (use assms in \<open>auto simp: pool_ok_def pool_segs_def\<close>)

lemma pool_okI:
  assumes "p_seg mp = es @ zs" "p_used mp = length es" "p_nseg mp = length es + length zs"
    "canon 0 (map seg_pair es)"
    "list_all (seg_fine (p_size mp)) (map seg_pair es)" "p_size mp < 4294967296" "4 dvd p_size mp"
  shows "pool_ok mp" and "pool_segs mp = map seg_pair es"
  using assms by (simp_all add: pool_ok_def pool_segs_def)

lemma pool_alloc_refines:
  assumes ok: "pool_ok mp" and want: "0 < roundgrain n"
  shows "case ff_alloc (roundgrain n) (pool_segs mp) of
      None \<Rightarrow> swapram_pool_alloc mp n = Inr (None, mp)
    | Some (a, ys) \<Rightarrow> \<exists>mp'. swapram_pool_alloc mp n = Inr (Some a, mp') \<and> pool_ok mp'
        \<and> pool_segs mp' = ys \<and> p_size mp' = p_size mp \<and> p_nseg mp' = p_nseg mp"
proof -
  obtain es zs where m: "p_seg mp = es @ zs" "p_used mp = length es" "p_nseg mp = length es + length zs"
    and segs: "pool_segs mp = map seg_pair es" and can: "canon 0 (map seg_pair es)"
    and bnd: "list_all (seg_fine (p_size mp)) (map seg_pair es)"
    and size: "p_size mp < 4294967296" "4 dvd p_size mp"
    using ok by (rule pool_okE)
  let ?w = "roundgrain n"
  show ?thesis
  proof (cases "\<forall>s \<in> set es. s_size s < ?w")
    case True
    then have "pool_fit (p_seg mp) (p_used mp) ?w 0 = Inr None"
      using pool_fit_run(1)[of es ?w "[]" zs] m by simp
    moreover have "ff_alloc ?w (pool_segs mp) = None"
      using True by (auto simp: ff_alloc_None segs seg_pair_def)
    ultimately show ?thesis by (simp add: swapram_pool_alloc_def Let_def)
  next
    case False
    then have "\<exists>s \<in> set es. ?w \<le> s_size s" by force
    then obtain fs s gs where es: "es = fs @ s # gs" "?w \<le> s_size s" "\<forall>s \<in> set fs. \<not> ?w \<le> s_size s"
      using split_list_first_prop[of es "\<lambda>s. ?w \<le> s_size s"] by blast
    then have small: "\<forall>s \<in> set fs. s_size s < ?w" by force
    have s: "s_off s + s_size s \<le> p_size mp" "4 dvd s_off s" "4 dvd s_size s"
      using bnd es by (auto simp: seg_fine_def)
    have fit: "pool_fit (p_seg mp) (p_used mp) ?w 0 = Inr (Some (length fs))"
      using pool_fit_run(2)[of fs ?w s "[]" "p_used mp" "gs @ zs"] es small m by simp
    have ff: "ff_alloc ?w (pool_segs mp) = Some (s_off s, map seg_pair fs @
        (if s_size s = ?w then map seg_pair gs else (s_off s + ?w, s_size s - ?w) # map seg_pair gs))"
      using ff_alloc_split[of "map seg_pair fs" ?w "s_size s" "s_off s" "map seg_pair gs"] es small
      by (simp add: segs seg_pair_def split_beta)
    have can': "canon 0 (map seg_pair fs @
        (if s_size s = ?w then map seg_pair gs else (s_off s + ?w, s_size s - ?w) # map seg_pair gs))"
      using ff_alloc_Some[OF can want] ff segs by simp
    show ?thesis
    proof (cases "s_size s = ?w")
      case True
      obtain x where "pool_close (fs @ \<lparr>s_off = s_off s + ?w, s_size = 0\<rparr> # gs @ zs)
          (length fs + Suc (length gs)) (length fs) = Inr (fs @ gs @ x # zs)"
        using pool_close_run by blast
      then have "swapram_pool_alloc mp n = Inr (Some (s_off s), mp\<lparr>p_seg := (fs @ gs) @ x # zs, p_used := length (fs @ gs)\<rparr>)"
        using fit m es True want size s by (simp add: swapram_pool_alloc_def Let_def)
      moreover have "list_all (seg_fine (p_size mp)) (map seg_pair (fs @ gs))"
        using bnd es by simp
      ultimately show ?thesis
        using pool_okI[of "mp\<lparr>p_seg := (fs @ gs) @ x # zs, p_used := length (fs @ gs)\<rparr>" "fs @ gs" "x # zs"]
          ff can' True es m size by simp
    next
      case False
      let ?s = "\<lparr>s_off = s_off s + ?w, s_size = s_size s - ?w\<rparr>"
      have "swapram_pool_alloc mp n = Inr (Some (s_off s), mp\<lparr>p_seg := (fs @ ?s # gs) @ zs\<rparr>)"
        using fit m es False want size s by (simp add: swapram_pool_alloc_def Let_def)
      moreover have "list_all (seg_fine (p_size mp)) (map seg_pair (fs @ ?s # gs))"
        using bnd es s roundgrain_dvd[of n] by (simp add: seg_fine_def)
      ultimately show ?thesis
        using pool_okI[of "mp\<lparr>p_seg := (fs @ ?s # gs) @ zs\<rparr>" "fs @ ?s # gs" zs]
          ff can' False es m size by simp
    qed
  qed
qed

section \<open>Freeing is insertion\<close>

text \<open>What a successful call leaves behind.\<close>

definition pool_yields :: "swapram_pool \<Rightarrow> swapram_pool \<Rightarrow> seg list \<Rightarrow> bool" where
  "pool_yields mp mp' segs \<longleftrightarrow> pool_ok mp' \<and> pool_segs mp' = segs
     \<and> p_size mp' = p_size mp \<and> p_nseg mp' = p_nseg mp"

lemma pool_yieldsI:
  assumes "pool_ok mp" and "mp' = mp\<lparr>p_seg := fs @ ys, p_used := length fs\<rparr>"
    and "p_nseg mp = length fs + length ys" and "map seg_pair fs = segs" and "canon 0 segs"
    and "list_all (seg_fine (p_size mp)) segs"
  shows "pool_yields mp mp' segs"
  using assms pool_okI[of mp' fs ys] by (simp add: pool_yields_def pool_ok_def)

text \<open>
  An array split at the offset \<open>off\<close> of a region of \<open>w\<close> bytes that is disjoint from every
  free segment and inside the pool.
\<close>

definition pool_split ::
  "swapram_pool \<Rightarrow> nat \<Rightarrow> nat \<Rightarrow> swapram_seg list \<Rightarrow> swapram_seg list \<Rightarrow> swapram_seg list \<Rightarrow> bool" where
  "pool_split mp off w es1 es2 zs \<longleftrightarrow> p_seg mp = es1 @ es2 @ zs
     \<and> p_used mp = length es1 + length es2 \<and> p_nseg mp = length es1 + length es2 + length zs
     \<and> 0 < w \<and> 4 dvd off \<and> off + w \<le> p_size mp \<and> p_size mp < 4294967296
     \<and> (\<forall>s \<in> set es1. s_off s < off) \<and> (es2 \<noteq> [] \<longrightarrow> off + w \<le> s_off (hd es2))
     \<and> (\<forall>s \<in> set (es1 @ es2). s_off s + s_size s \<le> p_size mp)"

lemma pool_split_first:
  assumes "pool_split mp off w es1 es2 zs"
  shows "pool_first (p_seg mp) (p_used mp) off 0 = Inr (length es1)"
  using pool_first_run[of es1 off es2 "[]" zs] assms by (fastforce simp: pool_split_def)

lemma pool_split_guard:
  assumes "pool_split mp off w es1 es2 zs"
  shows "\<not> (w = 0 \<or> off mod 4 \<noteq> 0 \<or> p_size mp < u32 (off + w))" "u32 (off + w) = off + w"
  using assms by (auto simp: pool_split_def dvd_eq_mod_eq_0)

lemmas pool_free_eval = swapram_pool_free_def Let_def nth_append list_update_append

lemma pool_free_both:
  assumes sp: "pool_split mp off w (fs @ [l]) (r # gs) zs" and w: "w = roundgrain n"
    and l: "s_off l + s_size l = off" and r: "off + w = s_off r"
  shows "\<exists>x. swapram_pool_free mp off n = Inr (True, mp\<lparr>p_seg :=
      (fs @ l\<lparr>s_size := s_size l + w + s_size r\<rparr> # gs) @ x # zs, p_used := length fs + Suc (length gs)\<rparr>)"
proof -
  let ?l = "l\<lparr>s_size := s_size l + w + s_size r\<rparr>"
  obtain x where "pool_close ((fs @ [?l]) @ r # gs @ zs) (length (fs @ [?l]) + Suc (length gs)) (length (fs @ [?l]))
      = Inr ((fs @ [?l]) @ gs @ x # zs)"
    using pool_close_run by blast
  moreover have "s_off r + s_size r \<le> p_size mp" "p_size mp < 4294967296" "p_used mp = Suc (Suc (length fs + length gs))"
    "p_seg mp = fs @ l # r # gs @ zs"
    using sp by (simp_all add: pool_split_def)
  ultimately show ?thesis
    using pool_split_first[OF sp] pool_split_guard[OF sp] w l r by (auto simp: pool_free_eval)
qed

lemma pool_free_left:
  assumes sp: "pool_split mp off w (fs @ [l]) es2 zs" and w: "w = roundgrain n"
    and l: "s_off l + s_size l = off" and r: "es2 \<noteq> [] \<Longrightarrow> off + w < s_off (hd es2)"
  shows "swapram_pool_free mp off n = Inr (True, mp\<lparr>p_seg := (fs @ l\<lparr>s_size := s_size l + w\<rparr> # es2) @ zs\<rparr>)"
proof -
  have "off + w \<le> p_size mp" "p_size mp < 4294967296" "p_used mp = Suc (length fs + length es2)"
    "p_seg mp = fs @ l # es2 @ zs"
    using sp by (simp_all add: pool_split_def)
  then show ?thesis
    using pool_split_first[OF sp] pool_split_guard[OF sp] w l r
    by (cases es2) (simp_all add: pool_free_eval)
qed

text \<open>No segment ends at the offset.\<close>

definition pool_gap :: "nat \<Rightarrow> swapram_seg list \<Rightarrow> bool" where
  "pool_gap off es1 \<longleftrightarrow> (es1 \<noteq> [] \<longrightarrow> s_off (last es1) + s_size (last es1) < off)"

lemma pool_gap_check:
  assumes sp: "pool_split mp off w es1 es2 zs" and gap: "pool_gap off es1"
  shows "\<not> (0 < length es1 \<and> off < u32 (s_off (p_seg mp ! (length es1 - 1)) + s_size (p_seg mp ! (length es1 - 1))))"
    and "\<not> (0 < length es1 \<and> u32 (s_off (p_seg mp ! (length es1 - 1)) + s_size (p_seg mp ! (length es1 - 1))) = off)"
proof -
  have *: "s_off (last es1) + s_size (last es1) < off" "p_seg mp ! (length es1 - 1) = last es1" if "es1 \<noteq> []"
    using that gap sp by (simp_all add: pool_gap_def pool_split_def nth_append last_conv_nth)
  have "off < 4294967296" using sp by (simp add: pool_split_def)
  then have "u32 (s_off (last es1) + s_size (last es1)) < off" if "es1 \<noteq> []" using *(1)[OF that] by simp
  then show "\<not> (0 < length es1 \<and> off < u32 (s_off (p_seg mp ! (length es1 - 1)) + s_size (p_seg mp ! (length es1 - 1))))"
    and "\<not> (0 < length es1 \<and> u32 (s_off (p_seg mp ! (length es1 - 1)) + s_size (p_seg mp ! (length es1 - 1))) = off)"
    using *(2) by fastforce+
qed

lemma pool_free_right:
  assumes sp: "pool_split mp off w es1 (r # gs) zs" and w: "w = roundgrain n" and gap: "pool_gap off es1"
    and r: "off + w = s_off r"
  shows "swapram_pool_free mp off n =
    Inr (True, mp\<lparr>p_seg := (es1 @ \<lparr>s_off = off, s_size = w + s_size r\<rparr> # gs) @ zs\<rparr>)"
proof -
  have "s_off r + s_size r \<le> p_size mp" "p_size mp < 4294967296" "length es1 < p_used mp"
    "p_seg mp = es1 @ r # gs @ zs"
    using sp by (simp_all add: pool_split_def)
  moreover from this have "u32 (s_size r + w) = w + s_size r" using r by (simp add: add.commute)
  ultimately show ?thesis
    using pool_split_first[OF sp] pool_split_guard[OF sp] pool_gap_check[OF sp gap] w r
    by (auto simp: pool_free_eval)
qed

lemma pool_free_new:
  assumes sp: "pool_split mp off w es1 es2 zs" and w: "w = roundgrain n" and gap: "pool_gap off es1"
    and r: "es2 \<noteq> [] \<Longrightarrow> off + w < s_off (hd es2)"
  shows "zs = [] \<Longrightarrow> swapram_pool_free mp off n = Inr (False, mp)"
    and "zs = z # ys \<Longrightarrow> swapram_pool_free mp off n = Inr (True, mp\<lparr>p_seg :=
      (es1 @ \<lparr>s_off = off, s_size = w\<rparr> # es2) @ ys, p_used := Suc (length es1 + length es2)\<rparr>)"
proof -
  have m: "p_used mp = length es1 + length es2" "p_seg mp = es1 @ es2 @ zs"
    "p_nseg mp = length es1 + length es2 + length zs"
    using sp by (simp_all add: pool_split_def)
  have above: "\<not> (length es1 < p_used mp \<and> s_off (p_seg mp ! length es1) < u32 (off + w))"
    "\<not> (length es1 < p_used mp \<and> u32 (off + w) = s_off (p_seg mp ! length es1))"
    using m r pool_split_guard(2)[OF sp] by (cases es2; simp)+
  note checks = pool_split_first[OF sp] pool_split_guard(1)[OF sp] pool_gap_check[OF sp gap] above
  show "zs = [] \<Longrightarrow> swapram_pool_free mp off n = Inr (False, mp)"
    using checks m w by (auto simp: swapram_pool_free_def Let_def)
  assume zs: "zs = z # ys"
  then obtain x where "shift_right (p_seg mp) (length es1) (p_used mp) = Inr (es1 @ x # es2 @ ys)"
    using shift_right_tail[of es1 es2 z ys] m by auto
  then show "swapram_pool_free mp off n = Inr (True, mp\<lparr>p_seg :=
      (es1 @ \<lparr>s_off = off, s_size = w\<rparr> # es2) @ ys, p_used := Suc (length es1 + length es2)\<rparr>)"
    using checks m w zs by (auto simp: swapram_pool_free_def Let_def)
qed

text \<open>Accepted: the region is inserted, unless it needs a slot the array does not have.\<close>

lemma pool_accepts_left:
  assumes ok: "pool_ok mp" and sp: "pool_split mp off w (fs @ [l]) es2 zs" and w: "w = roundgrain n"
    and l: "s_off l + s_size l = off" and can: "canon 0 (map seg_pair (fs @ [l]) @ map seg_pair es2)"
    and segs: "segs = seg_insert off w (map seg_pair (fs @ [l]) @ map seg_pair es2)"
    and good: "canon 0 segs" "list_all (seg_fine (p_size mp)) segs"
  shows "length segs \<le> p_nseg mp \<and>
    (\<exists>mp'. swapram_pool_free mp off n = Inr (True, mp') \<and> pool_yields mp mp' segs)"
proof -
  have m: "p_used mp = Suc (length fs) + length es2" "p_nseg mp = Suc (length fs) + length es2 + length zs"
    and hi: "es2 \<noteq> [] \<Longrightarrow> off + w \<le> s_off (hd es2)" and pos: "0 < w"
    using sp by (simp_all add: pool_split_def)
  note ins = seg_insert_at[OF can _ _ pos, of off, unfolded segs[symmetric]]
  show ?thesis
  proof (cases "es2 \<noteq> [] \<and> off + w = s_off (hd es2)")
    case True
    then obtain r gs where r: "es2 = r # gs" "off + w = s_off r" by (cases es2) auto
    let ?fs = "fs @ l\<lparr>s_size := s_size l + w + s_size r\<rparr> # gs"
    have eq: "segs = map seg_pair ?fs" using ins l r by (simp add: seg_pair_def)
    obtain x where call: "swapram_pool_free mp off n =
        Inr (True, mp\<lparr>p_seg := ?fs @ x # zs, p_used := length ?fs\<rparr>)"
      using pool_free_both[of mp off w fs l r gs zs n] sp w l r by auto
    have "pool_yields mp (mp\<lparr>p_seg := ?fs @ x # zs, p_used := length ?fs\<rparr>) segs"
      by (rule pool_yieldsI[OF ok refl _ eq[symmetric] good]) (use m l r in simp)
    then show ?thesis using call eq m l r by auto
  next
    case False
    let ?fs = "fs @ l\<lparr>s_size := s_size l + w\<rparr> # es2"
    have far: "es2 \<noteq> [] \<Longrightarrow> off + w < s_off (hd es2)" using False hi by fastforce
    have eq: "segs = map seg_pair ?fs" using ins l far by (cases es2) (auto simp: seg_pair_def)
    have call: "swapram_pool_free mp off n = Inr (True, mp\<lparr>p_seg := ?fs @ zs, p_used := length ?fs\<rparr>)"
      using pool_free_left[of mp off w fs l es2 zs n] sp w l far m by simp
    have "pool_yields mp (mp\<lparr>p_seg := ?fs @ zs, p_used := length ?fs\<rparr>) segs"
      by (rule pool_yieldsI[OF ok refl _ eq[symmetric] good]) (use m l in simp)
    then show ?thesis using call eq m l by auto
  qed
qed

lemma pool_accepts_apart:
  assumes ok: "pool_ok mp" and sp: "pool_split mp off w es1 es2 zs" and w: "w = roundgrain n"
    and gap: "pool_gap off es1" and can: "canon 0 (map seg_pair es1 @ map seg_pair es2)"
    and segs: "segs = seg_insert off w (map seg_pair es1 @ map seg_pair es2)"
    and good: "canon 0 segs" "list_all (seg_fine (p_size mp)) segs"
  shows "if length segs \<le> p_nseg mp
    then \<exists>mp'. swapram_pool_free mp off n = Inr (True, mp') \<and> pool_yields mp mp' segs
    else swapram_pool_free mp off n = Inr (False, mp)"
proof -
  have m: "p_used mp = length es1 + length es2" "p_nseg mp = length es1 + length es2 + length zs"
    and hi: "es2 \<noteq> [] \<Longrightarrow> off + w \<le> s_off (hd es2)" and pos: "0 < w"
    using sp by (simp_all add: pool_split_def)
  have noleft: "\<not> (map seg_pair es1 \<noteq> [] \<and> fst (last (map seg_pair es1)) + snd (last (map seg_pair es1)) = off)"
    and le: "map seg_pair es1 \<noteq> [] \<Longrightarrow> fst (last (map seg_pair es1)) + snd (last (map seg_pair es1)) \<le> off"
    using gap by (auto simp: pool_gap_def last_map)
  note ins = seg_insert_at[OF can le _ pos, unfolded if_not_P[OF noleft] segs[symmetric]]
  show ?thesis
  proof (cases "es2 \<noteq> [] \<and> off + w = s_off (hd es2)")
    case True
    then obtain r gs where r: "es2 = r # gs" "off + w = s_off r" by (cases es2) auto
    let ?fs = "es1 @ \<lparr>s_off = off, s_size = w + s_size r\<rparr> # gs"
    have eq: "segs = map seg_pair ?fs" using ins r by simp
    have call: "swapram_pool_free mp off n = Inr (True, mp\<lparr>p_seg := ?fs @ zs, p_used := length ?fs\<rparr>)"
      using pool_free_right[of mp off w es1 r gs zs n] sp w gap r m by simp
    have "pool_yields mp (mp\<lparr>p_seg := ?fs @ zs, p_used := length ?fs\<rparr>) segs"
      by (rule pool_yieldsI[OF ok refl _ eq[symmetric] good]) (use m r in simp)
    then show ?thesis using call eq m r by auto
  next
    case False
    let ?fs = "es1 @ \<lparr>s_off = off, s_size = w\<rparr> # es2"
    have far: "es2 \<noteq> [] \<Longrightarrow> off + w < s_off (hd es2)" using False hi by fastforce
    have eq: "segs = map seg_pair ?fs" using ins far by (cases es2) auto
    show ?thesis
    proof (cases zs)
      case Nil
      then show ?thesis using pool_free_new(1)[OF sp w gap far] eq m by simp
    next
      case (Cons z ys)
      have call: "swapram_pool_free mp off n = Inr (True, mp\<lparr>p_seg := ?fs @ ys, p_used := length ?fs\<rparr>)"
        using pool_free_new(2)[OF sp w gap far Cons] by simp
      have "pool_yields mp (mp\<lparr>p_seg := ?fs @ ys, p_used := length ?fs\<rparr>) segs"
        by (rule pool_yieldsI[OF ok refl _ eq[symmetric] good]) (use m Cons in simp)
      then show ?thesis using call eq m Cons by auto
    qed
  qed
qed

lemma seg_insert_fine:
  "list_all (seg_fine lim) xs \<Longrightarrow> 4 dvd a \<Longrightarrow> 4 dvd n \<Longrightarrow> a + n \<le> lim \<Longrightarrow>
     list_all (seg_fine lim) (seg_insert a n xs)"
  by (induction a n xs rule: seg_insert.induct) (auto simp: seg_fine_def split: list.splits)

lemma if_refused: "P \<or> Q \<Longrightarrow> (if P then x else if Q then x else y) = x"
  by auto

text \<open>Refused: the region overlaps a free segment.\<close>

lemma pool_free_refuses:
  assumes m: "p_seg mp = es1 @ es2 @ zs" "p_used mp = length es1 + length es2"
    and lo: "\<forall>s \<in> set es1. s_off s < off" and hi: "es2 \<noteq> [] \<Longrightarrow> off \<le> s_off (hd es2)"
    and bnd: "\<forall>s \<in> set es1. s_off s + s_size s < 4294967296" "off + roundgrain n < 4294967296"
    and over: "es1 \<noteq> [] \<and> off < s_off (last es1) + s_size (last es1)
      \<or> es2 \<noteq> [] \<and> s_off (hd es2) < off + roundgrain n"
  shows "swapram_pool_free mp off n = Inr (False, mp)"
proof -
  have first: "pool_first (p_seg mp) (p_used mp) off 0 = Inr (length es1)"
    using pool_first_run[OF lo hi, of "[]" zs] m by simp
  have cells: "p_seg mp ! (length es1 - 1) = last es1" if "es1 \<noteq> []"
    using m that by (simp add: nth_append last_conv_nth)
  have cell2: "p_seg mp ! length es1 = hd es2" if "es2 \<noteq> []"
    using m that by (simp add: nth_append hd_conv_nth)
  have "0 < length es1 \<and> off < u32 (s_off (p_seg mp ! (length es1 - 1)) + s_size (p_seg mp ! (length es1 - 1)))
      \<or> length es1 < p_used mp \<and> s_off (p_seg mp ! length es1) < u32 (off + roundgrain n)"
    using over
  proof (elim disjE conjE)
    assume "es1 \<noteq> []" "off < s_off (last es1) + s_size (last es1)"
    then show ?thesis using cells bnd(1) by simp
  next
    assume "es2 \<noteq> []" "s_off (hd es2) < off + roundgrain n"
    then show ?thesis using cell2 bnd(2) m(2) by simp
  qed
  note refused = if_refused[OF this]
  show ?thesis unfolding swapram_pool_free_def Let_def first andthen_Inr refused by (rule if_cancel)
qed

text \<open>The whole of \<open>swapram_pool_free\<close>, for regions whose end does not wrap.\<close>

lemma pool_free_refines:
  assumes ok: "pool_ok mp" and w: "w = roundgrain n" and nowrap: "off + w < 4294967296"
  shows "if 0 < w \<and> 4 dvd off \<and> off + w \<le> p_size mp \<and> {off ..< off + w} \<inter> units (pool_segs mp) = {}
      \<and> length (seg_insert off w (pool_segs mp)) \<le> p_nseg mp
    then \<exists>mp'. swapram_pool_free mp off n = Inr (True, mp')
      \<and> pool_yields mp mp' (seg_insert off w (pool_segs mp))
    else swapram_pool_free mp off n = Inr (False, mp)"
proof (cases "0 < w \<and> 4 dvd off \<and> off + w \<le> p_size mp")
  case False
  then show ?thesis using nowrap w by (auto simp: swapram_pool_free_def Let_def dvd_eq_mod_eq_0)
next
  case True
  obtain es zs where m: "p_seg mp = es @ zs" "p_used mp = length es" "p_nseg mp = length es + length zs"
    and segs: "pool_segs mp = map seg_pair es" and can: "canon 0 (map seg_pair es)"
    and bnd: "list_all (seg_fine (p_size mp)) (map seg_pair es)" and size: "p_size mp < 4294967296"
    using ok by (rule pool_okE)
  define es1 es2 where "es1 = takeWhile (\<lambda>s. s_off s < off) es" and "es2 = dropWhile (\<lambda>s. s_off s < off) es"
  have es: "es = es1 @ es2" and lo: "\<forall>s \<in> set es1. s_off s < off" and hi: "es2 \<noteq> [] \<Longrightarrow> off \<le> s_off (hd es2)"
    using hd_dropWhile[of "\<lambda>s. s_off s < off" es] by (auto simp: es1_def es2_def dest: set_takeWhileD)
  have can': "canon 0 (map seg_pair es1 @ map seg_pair es2)" using can es by simp
  have inside: "\<forall>s \<in> set es. s_off s + s_size s \<le> p_size mp"
    using bnd by (simp add: list_all_iff seg_fine_def)
  have dis: "{off ..< off + w} \<inter> units (pool_segs mp) = {} \<longleftrightarrow>
      (es1 = [] \<or> s_off (last es1) + s_size (last es1) \<le> off) \<and> (es2 = [] \<or> off + w \<le> s_off (hd es2))"
    using disjoint_at[OF can', of w off] True lo hi by (auto simp: segs es last_map hd_map)
  show ?thesis
  proof (cases "{off ..< off + w} \<inter> units (pool_segs mp) = {}")
    case False
    have "swapram_pool_free mp off n = Inr (False, mp)"
      by (rule pool_free_refuses[of mp es1 es2 zs])
        (use False dis m es lo hi inside size nowrap w in \<open>auto simp: not_le intro: le_less_trans\<close>)
    then show ?thesis using False by simp
  next
    case disjoint: True
    let ?segs = "seg_insert off w (map seg_pair es1 @ map seg_pair es2)"
    have good: "canon 0 ?segs" "list_all (seg_fine (p_size mp)) ?segs"
      using seg_insert_spec[of 0 "pool_segs mp" off w] seg_insert_fine[of "p_size mp" "pool_segs mp" off w]
        disjoint can bnd True roundgrain_dvd[of n] w by (auto simp: segs es)
    have sp: "pool_split mp off w es1 es2 zs"
      using m es True size lo inside dis disjoint by (auto simp: pool_split_def)
    show ?thesis
    proof (cases "es1 \<noteq> [] \<and> s_off (last es1) + s_size (last es1) = off")
      case left: True
      then obtain fs l where l: "es1 = fs @ [l]" "s_off l + s_size l = off"
        by (cases es1 rule: rev_cases) auto
      show ?thesis
        using pool_accepts_left[OF ok sp[unfolded l(1)] w l(2) can'[unfolded l(1)] _ good[unfolded l(1)]]
          True disjoint by (simp add: segs es l(1))
    next
      case False
      then have "pool_gap off es1" using dis disjoint by (auto simp: pool_gap_def)
      then show ?thesis
        using pool_accepts_apart[OF ok sp w _ can' refl good] True disjoint by (simp add: segs es)
    qed
  qed
qed

section \<open>Trimming, and the two reports\<close>

lemma pool_trim_refines:
  assumes ok: "pool_ok mp" and keep: "keep = roundgrain newsize" "keep < had" "had = roundgrain oldsize"
    and nowrap: "off + had + 3 < 4294967296"
  shows "swapram_pool_trim mp off oldsize newsize = swapram_pool_free mp (off + keep) (had - keep)
    \<and> roundgrain (had - keep) = had - keep"
proof -
  have "4 dvd had - keep" using keep roundgrain_dvd by (simp add: dvd_diff_nat)
  then have "roundgrain (had - keep) = had - keep" using nowrap by (intro roundgrain_id) auto
  then show ?thesis using assms by (simp add: swapram_pool_trim_def Let_def)
qed

lemma canon_card:
  "canon lo xs \<Longrightarrow> finite (units xs) \<and> card (units xs) = sum_list (map snd xs)"
proof (induction lo xs rule: canon.induct)
  case (2 lo a n xs)
  have "{a ..< a + n} \<inter> units xs = {}" using canon_lower[of "Suc (a + n)" xs] 2(2) by fastforce
  then show ?case using 2 by (simp add: card_Un_disjoint)
qed simp

lemma fold_sum_u32:
  "n + sum_list (map s_size es) < 4294967296 \<Longrightarrow>
     fold (\<lambda>s n. u32 (n + s_size s)) es n = n + sum_list (map s_size es)"
  by (induction es arbitrary: n) auto

lemma fold_max_le:
  "fold (\<lambda>s n. if n < s_size s then s_size s else n) es n < w \<longleftrightarrow> n < w \<and> (\<forall>s \<in> set es. s_size s < w)"
  by (induction es arbitrary: n) auto

lemma pool_avail_card:
  assumes "pool_ok mp"
  shows "swapram_pool_avail mp = card (units (pool_segs mp))"
proof -
  let ?es = "take (p_used mp) (p_seg mp)"
  have can: "canon 0 (pool_segs mp)" and fine: "list_all (seg_fine (p_size mp)) (pool_segs mp)"
    and size: "p_size mp < 4294967296" using assms by (auto simp: pool_ok_def)
  have card: "card (units (pool_segs mp)) = sum_list (map s_size ?es)"
    using canon_card[OF can] by (simp add: pool_segs_def comp_def)
  have "units (pool_segs mp) \<subseteq> {0 ..< p_size mp}"
    using fine by (fastforce simp: units_def list_all_iff seg_fine_def)
  then have "card (units (pool_segs mp)) \<le> p_size mp"
    using card_mono[of "{0 ..< p_size mp}" "units (pool_segs mp)"] by simp
  then show ?thesis using fold_sum_u32[of 0 ?es] card size by (simp add: swapram_pool_avail_def)
qed

section \<open>The contract\<close>

definition pool_alloc :: "swapram_pool \<Rightarrow> nat \<Rightarrow> (nat \<times> swapram_pool) option" where
  "pool_alloc mp n = (case swapram_pool_alloc mp n of Inr (Some a, mp') \<Rightarrow> Some (a, mp') | _ \<Rightarrow> None)"

definition pool_release :: "swapram_pool \<Rightarrow> nat \<Rightarrow> nat \<Rightarrow> swapram_pool option" where
  "pool_release mp a n = (case swapram_pool_free mp a n of Inr (True, mp') \<Rightarrow> Some mp' | _ \<Rightarrow> None)"

definition pool_valid :: "swapram_pool \<Rightarrow> nat \<Rightarrow> nat \<Rightarrow> bool" where
  "pool_valid mp a n \<longleftrightarrow> 0 < roundgrain n \<and> 4 dvd a \<and> a + roundgrain n \<le> p_size mp"

lemma pool_alloc_SomeD:
  assumes ok: "pool_ok mp" and al: "pool_alloc mp n = Some (a, mp')"
  shows "pool_ok mp' \<and> pool_valid mp' a n \<and> p_nseg mp' = p_nseg mp \<and> p_size mp' = p_size mp
    \<and> {a ..< a + roundgrain n} \<subseteq> units (pool_segs mp)
    \<and> units (pool_segs mp') = units (pool_segs mp) - {a ..< a + roundgrain n}"
proof -
  have call: "swapram_pool_alloc mp n = Inr (Some a, mp')"
    using al by (auto simp: pool_alloc_def split: sum.splits option.splits)
  then have w: "0 < roundgrain n" by (auto simp: swapram_pool_alloc_def Let_def split: if_splits)
  obtain ys where ff: "ff_alloc (roundgrain n) (pool_segs mp) = Some (a, ys)"
    and mp': "pool_ok mp'" "pool_segs mp' = ys" "p_size mp' = p_size mp" "p_nseg mp' = p_nseg mp"
    using pool_alloc_refines[OF ok w] call by (auto split: option.splits)
  have can: "canon 0 (pool_segs mp)" and fine: "list_all (seg_fine (p_size mp)) (pool_segs mp)"
    using ok by (auto simp: pool_ok_def)
  obtain k where "roundgrain n \<le> k" "(a, k) \<in> set (pool_segs mp)" using ff_alloc_in[OF ff] by blast
  then have "4 dvd a" "a + roundgrain n \<le> p_size mp" using fine by (auto simp: list_all_iff seg_fine_def)
  then show ?thesis using ff_alloc_Some[OF can w ff] mp' w by (simp add: pool_valid_def)
qed

lemma pool_release_cases:
  assumes ok: "pool_ok mp" and v: "pool_valid mp a n"
    and dis: "{a ..< a + roundgrain n} \<inter> units (pool_segs mp) = {}"
  shows "if length (seg_insert a (roundgrain n) (pool_segs mp)) \<le> p_nseg mp
    then \<exists>mp'. pool_release mp a n = Some mp' \<and> pool_ok mp' \<and> p_nseg mp' = p_nseg mp \<and> p_size mp' = p_size mp
      \<and> units (pool_segs mp') = units (pool_segs mp) \<union> {a ..< a + roundgrain n}
    else pool_release mp a n = None"
proof -
  have size: "p_size mp < 4294967296" "canon 0 (pool_segs mp)" using ok by (simp_all add: pool_ok_def)
  have "a + roundgrain n < 4294967296" using v size by (simp add: pool_valid_def)
  then show ?thesis
    using pool_free_refines[OF ok refl, of a n] v dis seg_insert_spec[OF size(2), of a "roundgrain n"]
    by (auto simp: pool_release_def pool_valid_def pool_yields_def split: if_splits)
qed

lemma pool_free_size: "swapram_pool_free mp a n = Inr (r, mp') \<Longrightarrow> p_size mp' = p_size mp"
  by (auto simp: swapram_pool_free_def Let_def andthen_eq_Inr split: if_splits)

interpretation pool: region_alloc pool_segs pool_ok roundgrain pool_valid p_nseg pool_alloc pool_release
proof unfold_locales
  fix mp assume "pool_ok mp"
  then show "canon 0 (pool_segs mp)" by (simp add: pool_ok_def)
next
  fix mp n a mp' assume "pool_ok mp" and "pool_alloc mp n = Some (a, mp')"
  then show "pool_ok mp' \<and> pool_valid mp' a n \<and> p_nseg mp' = p_nseg mp
    \<and> {a ..< a + roundgrain n} \<subseteq> units (pool_segs mp)
    \<and> units (pool_segs mp') = units (pool_segs mp) - {a ..< a + roundgrain n}"
    using pool_alloc_SomeD by blast
next
  fix mp a n mp'
  assume "pool_ok mp" "pool_valid mp a n" "{a ..< a + roundgrain n} \<inter> units (pool_segs mp) = {}"
    and "pool_release mp a n = Some mp'"
  then show "pool_ok mp' \<and> p_nseg mp' = p_nseg mp
    \<and> units (pool_segs mp') = units (pool_segs mp) \<union> {a ..< a + roundgrain n}"
    using pool_release_cases[of mp a n] by (auto split: if_splits)
next
  fix mp a n
  assume "pool_ok mp" "pool_valid mp a n" "{a ..< a + roundgrain n} \<inter> units (pool_segs mp) = {}"
    and "length (seg_insert a (roundgrain n) (pool_segs mp)) \<le> p_nseg mp"
  then show "pool_release mp a n \<noteq> None" using pool_release_cases[of mp a n] by auto
next
  fix mp b k n a mp' assume "pool_ok mp" "pool_valid mp b k" "pool_alloc mp n = Some (a, mp')"
  then show "pool_valid mp' b k" using pool_alloc_SomeD[of mp n a mp'] by (simp add: pool_valid_def)
next
  fix mp b k a n mp' assume "pool_ok mp" "pool_valid mp b k" "pool_release mp a n = Some mp'"
  then show "pool_valid mp' b k"
    using pool_free_size[of mp a n True mp'] by (auto simp: pool_valid_def pool_release_def split: sum.splits bool.splits)
qed (simp add: pool_valid_def)

section \<open>Properties\<close>

lemma pool_init_ok:
  assumes "0 < nseg" and "length seg = nseg" and "4 \<le> sz" and "sz < 4294967296"
  shows "\<exists>mp. swapram_pool_init base sz seg nseg = Inr mp \<and> pool_ok mp \<and> p_nseg mp = nseg
    \<and> pool_segs mp = [(0, sz div 4 * 4)]"
proof -
  have "and sz (not32 (4 - 1)) = sz div 4 * 4" using round_down_pow2[OF assms(4), of 2] by simp
  moreover have "0 < sz div 4" "sz div 4 * 4 < 4294967296" using assms(3,4) by (simp_all add: div_greater_zero_iff)
  ultimately show ?thesis using assms
    by (cases seg) (auto simp: swapram_pool_init_def Let_def pool_ok_def pool_segs_def seg_fine_def)
qed

definition pool16 :: swapram_pool where
  "pool16 = \<lparr>p_base = 0, p_size = 16, p_nseg = 2, p_used = 1,
     p_seg = [\<lparr>s_off = 0, s_size = 16\<rparr>, \<lparr>s_off = 0, s_size = 0\<rparr>]\<rparr>"

definition pool8 :: swapram_pool where
  "pool8 = pool16\<lparr>p_seg := [\<lparr>s_off = 8, s_size = 8\<rparr>, \<lparr>s_off = 0, s_size = 0\<rparr>]\<rparr>"

lemma roundgrain_5: "roundgrain 5 = 8"
  by (simp add: roundgrain_grain grain_def)

lemma pool_init_16:
  "swapram_pool_init 0 19 [\<lparr>s_off = 0, s_size = 0\<rparr>, \<lparr>s_off = 0, s_size = 0\<rparr>] 2 = Inr pool16"
  using round_down_pow2[of 19 2] by (simp add: swapram_pool_init_def Let_def pool16_def)

lemma pool_alloc_16: "pool_alloc pool16 5 = Some (0, pool8)"
  by (simp add: pool_alloc_def swapram_pool_alloc_def roundgrain_5 pool16_def pool8_def pool_fit.simps Let_def)

lemma pool16_ok: "pool_ok pool16" "pool_segs pool16 = [(0, 16)]" "pool_ok pool8" "pool_segs pool8 = [(8, 8)]"
  by (simp_all add: pool_ok_def pool_segs_def pool16_def pool8_def seg_fine_def seg_pair_def)

lemma pool8_fields: "p_size pool8 = 16" "p_nseg pool8 = 2" "swapram_pool_largest pool8 = 8"
  by (simp_all add: pool8_def pool16_def swapram_pool_largest_def)

text \<open>
  C33.  The compressed swap pool never hands out a byte twice and loses none.  From
  \<open>swapram_pool_init\<close> on, along every sequence of allocations and frees, the live images
  (rounded to the grain) are disjoint and tile the pool together with the free list, and no
  free is refused while there are at most \<open>nseg\<close> live images.
\<close>

theorem pool_never_loses_space:
  assumes "0 < nseg" and "length seg = nseg" and "4 \<le> sz" and "sz < 4294967296"
    and "swapram_pool_init base sz seg nseg = Inr mp0" and run: "region_run pool_alloc pool_release mp0 mp live"
  shows "disj_segs (map (map_prod id roundgrain) live)
    \<and> units (pool_segs mp) \<inter> units (map (map_prod id roundgrain) live) = {}
    \<and> units (pool_segs mp) \<union> units (map (map_prod id roundgrain) live) = {0 ..< sz div 4 * 4}
    \<and> (length live \<le> nseg \<longrightarrow> (\<forall>(a, n) \<in> set live. \<exists>mp'. swapram_pool_free mp a n = Inr (True, mp')))"
proof -
  have mp0: "pool_ok mp0" "pool_segs mp0 = [(0, sz div 4 * 4)]" "p_nseg mp0 = nseg"
    using pool_init_ok[OF assms(1-4), of base] assms(5) by auto
  have whole: "units (pool_segs mp0) = {0 ..< sz div 4 * 4}" using mp0(2) by simp
  have "\<exists>mp'. swapram_pool_free mp a n = Inr (True, mp')"
    if "length live \<le> nseg" and "(a, n) \<in> set live" for a n
    using pool.run_release_succeeds[OF run mp0(1) whole that(2)] that(1) mp0(3)
    by (auto simp: pool_release_def split: sum.splits bool.splits)
  then show ?thesis using pool.run_inv[OF run mp0(1)] whole by (auto simp: pool.extents_def)
qed

theorem pool_never_loses_space_witness:
  "\<exists>mp'. swapram_pool_free pool8 0 5 = Inr (True, mp')"
  using pool_never_loses_space[of 2 _ 19 0 pool16 pool8 "[(0, 5)]", OF _ _ _ _ pool_init_16
    run_alloc[of pool_alloc pool_release _ _ "[]", OF run_start pool_alloc_16]] by simp

text \<open>Regions whose end does not wrap around 32 bits.\<close>

lemma pool_free_inside:
  assumes "pool_ok mp" and "w = roundgrain n" and "off + w < 4294967296"
  shows "if 0 < w \<and> 4 dvd off \<and> off + w \<le> p_size mp \<and> {off ..< off + w} \<inter> units (pool_segs mp) = {}
      \<and> length (seg_insert off w (pool_segs mp)) \<le> p_nseg mp
    then \<exists>mp'. swapram_pool_free mp off n = Inr (True, mp') \<and> pool_ok mp'
      \<and> pool_segs mp' = seg_insert off w (pool_segs mp)
      \<and> units (pool_segs mp') = units (pool_segs mp) \<union> {off ..< off + w}
    else swapram_pool_free mp off n = Inr (False, mp)"
proof -
  have can: "canon 0 (pool_segs mp)" using assms(1) by (simp add: pool_ok_def)
  let ?c = "0 < w \<and> 4 dvd off \<and> off + w \<le> p_size mp \<and> {off ..< off + w} \<inter> units (pool_segs mp) = {}
      \<and> length (seg_insert off w (pool_segs mp)) \<le> p_nseg mp"
  note ref = pool_free_refines[OF assms]
  show ?thesis
  proof (cases ?c)
    case True
    then obtain mp' where "swapram_pool_free mp off n = Inr (True, mp')"
      "pool_yields mp mp' (seg_insert off w (pool_segs mp))"
      using ref[unfolded if_P[OF True]] by blast
    then show ?thesis using seg_insert_spec[OF can, of off w] True by (simp add: pool_yields_def)
  next
    case False
    then show ?thesis using ref[unfolded if_not_P[OF False]] by simp
  qed
qed

text \<open>
  The reports are exact: \<open>swapram_pool_avail\<close> is the number of free bytes, and an
  allocation succeeds if and only if the rounded size is positive and at most
  \<open>swapram_pool_largest\<close>.
\<close>

theorem pool_reports_exact:
  assumes "pool_ok mp"
  shows "swapram_pool_avail mp = card (units (pool_segs mp))
    \<and> ((\<exists>a mp'. swapram_pool_alloc mp n = Inr (Some a, mp')) \<longleftrightarrow>
         0 < roundgrain n \<and> roundgrain n \<le> swapram_pool_largest mp)"
proof (cases "0 < roundgrain n")
  case True
  have "ff_alloc (roundgrain n) (pool_segs mp) = None \<longleftrightarrow> swapram_pool_largest mp < roundgrain n"
    using True by (auto simp: ff_alloc_None swapram_pool_largest_def fold_max_le pool_segs_def seg_pair_def)
  then show ?thesis
    using pool_alloc_refines[OF assms True] pool_avail_card[OF assms] True
    by (auto simp: not_less split: option.splits)
next
  case False
  then show ?thesis using pool_avail_card[OF assms] by (simp add: swapram_pool_alloc_def Let_def)
qed

theorem pool_reports_exact_witness:
  "swapram_pool_avail pool8 = 8 \<and> (\<exists>a mp'. swapram_pool_alloc pool8 5 = Inr (Some a, mp'))"
  using pool_reports_exact[OF pool16_ok(3), of 5]
  by (simp add: pool16_ok roundgrain_5 pool8_fields)

text \<open>
  \<open>swapram_pool_trim\<close> gives back exactly the unused tail of a reservation: for a
  reservation inside the pool and disjoint from free space, either the tail would need a
  segment slot that is not there (-1, pool unchanged), or the free bytes grow by exactly the
  bytes between the rounded new and the rounded old size; trimming to the same rounded size
  changes nothing.
\<close>

theorem pool_trim_exact:
  assumes ok: "pool_ok mp" and "pool_valid mp off oldsize" and new: "roundgrain newsize \<le> roundgrain oldsize"
    and dis: "{off ..< off + roundgrain oldsize} \<inter> units (pool_segs mp) = {}"
    and nowrap: "off + roundgrain oldsize + 3 < 4294967296"
  shows "\<exists>r mp'. swapram_pool_trim mp off oldsize newsize = Inr (r, mp') \<and> pool_ok mp'
    \<and> (if r then units (pool_segs mp') = units (pool_segs mp) \<union>
          {off + roundgrain newsize ..< off + roundgrain oldsize}
        else mp' = mp \<and> p_nseg mp < length (seg_insert (off + roundgrain newsize)
          (roundgrain oldsize - roundgrain newsize) (pool_segs mp)))"
proof (cases "roundgrain newsize = roundgrain oldsize")
  case True
  then show ?thesis using ok by (intro exI[of _ True] exI[of _ mp]) (simp add: swapram_pool_trim_def Let_def)
next
  case False
  let ?k = "roundgrain newsize" and ?h = "roundgrain oldsize"
  have k: "?k < ?h" using False new by simp
  note tr = pool_trim_refines[OF ok refl k refl nowrap]
  have can: "canon 0 (pool_segs mp)" using ok by (simp add: pool_ok_def)
  have tail: "{off + ?k ..< off + ?k + (?h - ?k)} \<inter> units (pool_segs mp) = {}"
  proof -
    have "{off + ?k ..< off + ?k + (?h - ?k)} \<subseteq> {off ..< off + ?h}" using k by auto
    then show ?thesis using dis by blast
  qed
  moreover have "4 dvd off + ?k" using assms(2) roundgrain_dvd by (simp add: pool_valid_def)
  ultimately show ?thesis
    using pool_free_refines[OF ok, of "?h - ?k" "?h - ?k" "off + ?k"] tr k assms(2) nowrap ok
      seg_insert_spec[OF can, of "off + ?k" "?h - ?k"]
    by (auto simp: pool_valid_def pool_yields_def not_le split: if_splits)
qed

theorem pool_trim_exact_witness:
  "\<exists>r mp'. swapram_pool_trim pool8 0 5 1 = Inr (r, mp') \<and> pool_ok mp'"
  using pool_trim_exact[OF pool16_ok(3), of 0 5 1]
  by (auto simp: pool_valid_def roundgrain_grain grain_def pool16_ok pool8_fields)

text \<open>Offsets beyond the pool for which the sum wraps to a value inside it.\<close>

lemma pool_free_stray:
  assumes ok: "pool_ok mp" and w: "w = roundgrain n" and off: "4 dvd off" "p_size mp < off" "off < 4294967296"
    and wrap: "4294967296 \<le> off + w" "off + w \<le> 4294967296 + p_size mp" and slot: "p_used mp < p_nseg mp"
  shows "\<exists>mp'. swapram_pool_free mp off n = Inr (True, mp') \<and> pool_segs mp' = pool_segs mp @ [(off, w)] \<and> \<not> pool_ok mp'
    \<and> (\<forall>m. swapram_pool_largest mp < roundgrain m \<and> roundgrain m \<le> p_size mp \<and> roundgrain m \<le> w
         \<longrightarrow> (\<exists>mp''. swapram_pool_alloc mp' m = Inr (Some off, mp'')))"
proof -
  obtain es zs where m: "p_seg mp = es @ zs" "p_used mp = length es" "p_nseg mp = length es + length zs"
    and segs: "pool_segs mp = map seg_pair es" and bnd: "list_all (seg_fine (p_size mp)) (map seg_pair es)"
    using ok by (rule pool_okE)
  then obtain z ys where zs: "zs = z # ys" using slot by (cases zs) auto
  have ends: "s_off s + s_size s < off" if "s \<in> set es" for s
    using bnd that off(2) by (auto simp: list_all_iff seg_fine_def)
  have first: "pool_first (p_seg mp) (p_used mp) off 0 = Inr (length es)"
    using pool_first_run[of es off "[]" "[]" zs] ends m by fastforce
  have lo: "s_off (p_seg mp ! (length es - 1)) + s_size (p_seg mp ! (length es - 1)) < off" if "0 < length es"
    using m(1) ends[of "es ! (length es - 1)"] that by (simp add: nth_append)
  have sum: "u32 (off + w) = off + w - 4294967296"
    using wrap off(3) roundgrain_less[of n] w by (simp add: u32_def le_mod_geq)
  have w0: "0 < w" using wrap off(3) by simp
  define s where "s = \<lparr>s_off = off, s_size = w\<rparr>"
  define mp' where "mp' = mp\<lparr>p_seg := es @ s # ys, p_used := Suc (length es)\<rparr>"
  have "swapram_pool_free mp off n = Inr (True, mp')"
  proof -
    have g: "\<not> (roundgrain n = 0 \<or> off mod 4 \<noteq> 0 \<or> p_size mp < u32 (off + roundgrain n))"
      unfolding w[symmetric] sum using w0 off(1) wrap by (auto simp: dvd_eq_mod_eq_0)
    have b: "\<not> (0 < length es \<and> off < u32 (s_off (p_seg mp ! (length es - 1)) + s_size (p_seg mp ! (length es - 1))))"
      "\<not> (0 < length es \<and> u32 (s_off (p_seg mp ! (length es - 1)) + s_size (p_seg mp ! (length es - 1))) = off)"
      using lo off(3) by (auto simp: u32_def)
    have h: "\<not> (length es < p_used mp \<and> P)" "p_used mp \<noteq> p_nseg mp" "shift_right (p_seg mp) (length es) (p_used mp) = Inr (p_seg mp)"
      "length es < length (p_seg mp)" for P
      using m zs by simp_all
    show ?thesis unfolding swapram_pool_free_def Let_def if_not_P[OF g] first andthen_Inr if_not_P[OF b(1)] if_not_P[OF b(2)] if_not_P[OF h(1)] if_not_P[OF h(2)]
        h(3) if_P[OF h(4)] by (simp add: mp'_def s_def w m zs)
  qed
  moreover have segs': "pool_segs mp' = pool_segs mp @ [(off, w)]"
    unfolding segs by (simp add: mp'_def s_def pool_segs_def seg_pair_def)
  moreover have "\<not> pool_ok mp'"
  proof
    assume "pool_ok mp'"
    then have "seg_fine (p_size mp) (off, w)" unfolding pool_ok_def segs' by (simp add: mp'_def)
    then show False using off(2) by (simp add: seg_fine_def)
  qed
  moreover have "\<exists>mp''. swapram_pool_alloc mp' k = Inr (Some off, mp'')"
    if k: "swapram_pool_largest mp < roundgrain k" "roundgrain k \<le> p_size mp" "roundgrain k \<le> w" for k
  proof -
    have "\<forall>x\<in>set es. s_size x < roundgrain k" using k(1) m by (simp add: swapram_pool_largest_def fold_max_le)
    then have "pool_fit (es @ s # ys) (Suc (length es)) (roundgrain k) 0 = Inr (Some (length es))"
      using pool_fit_run(2)[of es "roundgrain k" s "[]" "Suc (length es)" ys] k(3) by (simp add: s_def)
    moreover obtain x where "pool_close (es @ \<lparr>s_off = u32 (off + roundgrain k), s_size = 0\<rparr> # ys) (Suc (length es)) (length es) = Inr (es @ x # ys)"
      using pool_close_run[of es _ "[]" ys] by fastforce
    ultimately show ?thesis using k by (auto simp: swapram_pool_alloc_def Let_def mp'_def s_def)
  qed
  ultimately show ?thesis by blast
qed

text \<open>
  C34.  \<open>swapram_pool_free\<close> accepts exactly the regions it should, as long as the end of the region does not wrap around 32 bits: it
  returns 0 if and only if the region is non-empty, aligned, inside the pool, disjoint from all free space and representable in the
  segment array, and then the free list is the canonical one with the region inserted; in every other case it returns -1 and the pool is
  unchanged.  Where the sum wraps, the range check does not hold what the comment above it promises: on every well-formed pool with a spare
  segment slot, an aligned offset beyond the pool is accepted whenever the sum wraps to a value inside the pool; the region enters
  the free list, which is no longer well formed, and the next allocation that no honest segment can hold is given this offset
  outside the pool.
\<close>

theorem pool_free_exact:
  assumes "pool_ok mp" and "w = roundgrain n"
  shows "(off + w < 4294967296 \<longrightarrow>
      (if 0 < w \<and> 4 dvd off \<and> off + w \<le> p_size mp \<and> {off ..< off + w} \<inter> units (pool_segs mp) = {}
         \<and> length (seg_insert off w (pool_segs mp)) \<le> p_nseg mp
       then \<exists>mp'. swapram_pool_free mp off n = Inr (True, mp') \<and> pool_ok mp'
         \<and> pool_segs mp' = seg_insert off w (pool_segs mp)
         \<and> units (pool_segs mp') = units (pool_segs mp) \<union> {off ..< off + w}
       else swapram_pool_free mp off n = Inr (False, mp)))
    \<and> (4 dvd off \<and> p_size mp < off \<and> off < 4294967296 \<and> 4294967296 \<le> off + w \<and> off + w \<le> 4294967296 + p_size mp
        \<and> p_used mp < p_nseg mp \<longrightarrow>
      (\<exists>mp'. swapram_pool_free mp off n = Inr (True, mp') \<and> pool_segs mp' = pool_segs mp @ [(off, w)] \<and> \<not> pool_ok mp'
         \<and> (\<forall>m. swapram_pool_largest mp < roundgrain m \<and> roundgrain m \<le> p_size mp \<and> roundgrain m \<le> w
              \<longrightarrow> (\<exists>mp''. swapram_pool_alloc mp' m = Inr (Some off, mp'')))))"
  using pool_free_inside[OF assms] pool_free_stray[OF assms] by (intro conjI impI) simp_all

text \<open>
  Bytes 8 to 15 of a pool of 16 are free.  The others can be returned, 4 to 11 cannot; and 12 bytes, which do not fit, are granted at the
  stray offset after that has been returned.
\<close>

theorem pool_free_exact_witness:
  "(\<exists>mp'. swapram_pool_free pool8 0 5 = Inr (True, mp') \<and> pool_segs mp' = [(0, 16)])
   \<and> swapram_pool_free pool8 4 5 = Inr (False, pool8)
   \<and> (\<exists>mp'. swapram_pool_free pool8 4294967284 17 = Inr (True, mp') \<and> pool_segs mp' = [(8, 8), (4294967284, 20)] \<and> \<not> pool_ok mp'
        \<and> (\<exists>mp''. swapram_pool_alloc mp' 12 = Inr (Some 4294967284, mp'')))"
proof -
  have r: "roundgrain 17 = 20" "roundgrain 12 = 12" by (simp_all add: roundgrain_grain grain_def)
  have u: "p_used pool8 < p_nseg pool8" by (simp add: pool8_def pool16_def)
  have "\<exists>mp'. swapram_pool_free pool8 0 5 = Inr (True, mp') \<and> pool_segs mp' = [(0, 16)]" "swapram_pool_free pool8 4 5 = Inr (False, pool8)"
    using pool_free_exact[OF pool16_ok(3) refl, of 0 5] pool_free_exact[OF pool16_ok(3) refl, of 4 5]
    by (auto simp: roundgrain_5 pool16_ok pool8_fields)
  moreover obtain mp' where s: "swapram_pool_free pool8 4294967284 17 = Inr (True, mp')" "pool_segs mp' = [(8, 8), (4294967284, 20)]" "\<not> pool_ok mp'"
    "\<forall>m. swapram_pool_largest pool8 < roundgrain m \<and> roundgrain m \<le> p_size pool8 \<and> roundgrain m \<le> 20
         \<longrightarrow> (\<exists>mp''. swapram_pool_alloc mp' m = Inr (Some 4294967284, mp''))"
    using pool_free_exact[OF pool16_ok(3) refl, of 4294967284 17] u by (auto simp: r pool8_fields pool16_ok)
  moreover from s(4) have "\<exists>mp''. swapram_pool_alloc mp' 12 = Inr (Some 4294967284, mp'')" by (simp add: r pool8_fields)
  ultimately show ?thesis by blast
qed

end
