(* ===== verification/Callout.thy ===== *)
theory Callout
  imports Prelude
begin

text \<open>
  The callout queue and the clock: \<open>sys/kern/kern_clock.c\<close>, \<open>sys/sys/callout.h\<close> and the lost
  tick accounting of \<open>sys/arch/rp2040/rp2040/clock_catchup.h\<close>.

  The callout structures live in a store: a pointer is \<open>Todo\<close> (the header \<open>calltodo\<close>) or
  \<open>Slot i\<close> (\<open>callout[i]\<close>), and each field is a function of the pointer.  Loops over the list
  carry a fuel of \<open>NCALL + 1\<close>, which is one more than the number of structures; running out
  of it is the fault \<open>Hang\<close>.

  \<open>callrep q todo free\<close> says that the two null-terminated lists of the store are \<open>todo\<close> and
  \<open>free\<close> and together hold every structure once.  The operations on the store are related
  to operations on the list of (delta, event) pairs, and those to a list of (remaining ticks,
  event) pairs, on which \<open>timeout\<close> is a sorted insertion, a clock tick subtracts one from
  every entry, and \<open>untimeout\<close> removes one entry.
\<close>

section \<open>The data\<close>

datatype cptr = Todo | Slot nat

record callq =
  c_time :: "cptr \<Rightarrow> int"
  c_arg :: "cptr \<Rightarrow> nat"
  c_func :: "cptr \<Rightarrow> nat"
  c_next :: "cptr \<Rightarrow> cptr option"
  callfree :: "cptr option"

definition NCALL :: nat where
  "NCALL = 16 + 2 * 1"

abbreviation call_fuel :: nat where
  "call_fuel \<equiv> Suc NCALL"

section \<open>timeout and untimeout\<close>

text \<open>\<open>coutinit\<close> links the structures of the zeroed array into the free list.\<close>

definition coutinit :: callq where
  "coutinit = \<lparr>c_time = (\<lambda>_. 0), c_arg = (\<lambda>_. 0), c_func = (\<lambda>_. 0),
     c_next = (\<lambda>p. case p of Todo \<Rightarrow> None | Slot i \<Rightarrow> if i + 1 < NCALL then Some (Slot (i + 1)) else None),
     callfree = Some (Slot 0)\<rparr>"

fun timeout_walk :: "nat \<Rightarrow> callq \<Rightarrow> cptr \<Rightarrow> int \<Rightarrow> (cptr \<times> cptr option \<times> int) res" where
  "timeout_walk 0 q p1 t = Inl Hang"
| "timeout_walk (Suc fuel) q p1 t =
     (case c_next q p1 of
        None \<Rightarrow> Inr (p1, None, t)
      | Some p2 \<Rightarrow>
          if c_time q p2 < t
          then timeout_walk fuel q p2 (if 0 < c_time q p2 then t - c_time q p2 else t)
          else Inr (p1, Some p2, t))"

definition timeout :: "callq \<Rightarrow> nat \<Rightarrow> nat \<Rightarrow> int \<Rightarrow> callq res" where
  "timeout q fn arg t =
     (let t = (if t \<le> 0 then 1 else t) in
      case callfree q of
        None \<Rightarrow> Inl (Panic ''timeout table overflow'')
      | Some pnew \<Rightarrow>
          let q1 = q\<lparr>callfree := c_next q pnew, c_arg := (c_arg q)(pnew := arg),
                     c_func := (c_func q)(pnew := fn)\<rparr>
          in andthen (timeout_walk call_fuel q1 Todo t) (\<lambda>(p1, p2, t).
               let q2 = q1\<lparr>c_next := (c_next q1)(p1 := Some pnew, pnew := p2),
                           c_time := (c_time q1)(pnew := t)\<rparr>
               in Inr (case p2 of
                         None \<Rightarrow> q2
                       | Some p2 \<Rightarrow> q2\<lparr>c_time := (c_time q2)(p2 := c_time q2 p2 - t)\<rparr>)))"

fun untimeout_walk :: "nat \<Rightarrow> callq \<Rightarrow> cptr \<Rightarrow> nat \<Rightarrow> nat \<Rightarrow> callq res" where
  "untimeout_walk 0 q p1 fn arg = Inl Hang"
| "untimeout_walk (Suc fuel) q p1 fn arg =
     (case c_next q p1 of
        None \<Rightarrow> Inr q
      | Some p2 \<Rightarrow>
          if c_func q p2 = fn \<and> c_arg q p2 = arg then
            let q1 = (case c_next q p2 of
                        Some n \<Rightarrow> if 0 < c_time q p2
                          then q\<lparr>c_time := (c_time q)(n := c_time q n + c_time q p2)\<rparr> else q
                      | None \<Rightarrow> q)
            in Inr (q1\<lparr>c_next := (c_next q1)(p1 := c_next q1 p2, p2 := callfree q1), callfree := Some p2\<rparr>)
          else untimeout_walk fuel q p2 fn arg)"

definition untimeout :: "callq \<Rightarrow> nat \<Rightarrow> nat \<Rightarrow> callq res" where
  "untimeout q fn arg = untimeout_walk call_fuel q Todo fn arg"

section \<open>The clock interrupt's part of the queue\<close>

text \<open>
  The loop of \<open>hardclock\<close> over the queue; the flag is \<open>needsoft\<close>.
\<close>

fun hardclock_walk :: "nat \<Rightarrow> callq \<Rightarrow> cptr option \<Rightarrow> bool \<Rightarrow> (callq \<times> bool) res" where
  "hardclock_walk 0 q p1 needsoft = Inl Hang"
| "hardclock_walk (Suc fuel) q p1 needsoft =
     (case p1 of
        None \<Rightarrow> Inr (q, needsoft)
      | Some p \<Rightarrow>
          let q1 = q\<lparr>c_time := (c_time q)(p := c_time q p - 1)\<rparr> in
          if 0 < c_time q1 p then Inr (q1, needsoft)
          else if c_time q1 p = 0 then Inr (q1, True)
          else hardclock_walk fuel q1 (c_next q1 p) True)"

text \<open>
  What a callout routine does to the queue: it may arrange and cancel callouts.
\<close>

datatype callop = Timeout nat nat int | Untimeout nat nat

fun run_ops :: "callop list \<Rightarrow> callq \<Rightarrow> callq res" where
  "run_ops [] q = Inr q"
| "run_ops (Timeout fn arg t # ops) q = andthen (timeout q fn arg t) (run_ops ops)"
| "run_ops (Untimeout fn arg # ops) q = andthen (untimeout q fn arg) (run_ops ops)"

text \<open>
  The loop of \<open>softclock\<close>.  \<open>exec fn arg\<close> is what the routine \<open>fn\<close> does to the queue when
  called with \<open>arg\<close>; the second result lists the calls made.
\<close>

fun softclock_loop ::
  "nat \<Rightarrow> (nat \<Rightarrow> nat \<Rightarrow> callop list) \<Rightarrow> callq \<Rightarrow> (nat \<times> nat) list \<Rightarrow> (callq \<times> (nat \<times> nat) list) res" where
  "softclock_loop 0 exec q calls = Inl Hang"
| "softclock_loop (Suc fuel) exec q calls =
     (case c_next q Todo of
        None \<Rightarrow> Inr (q, calls)
      | Some p1 \<Rightarrow>
          if 0 < c_time q p1 then Inr (q, calls)
          else
            let arg = c_arg q p1; fn = c_func q p1;
                q1 = q\<lparr>c_next := (c_next q)(Todo := c_next q p1, p1 := callfree q), callfree := Some p1\<rparr>
            in andthen (run_ops (exec fn arg) q1) (\<lambda>q2. softclock_loop fuel exec q2 (calls @ [(fn, arg)])))"

text \<open>
  Ticks lost while interrupts were masked: how many are owed, and their effect on the
  queue.  \<open>stamp_us\<close> and the microsecond timer are 32 bit unsigned values.
\<close>

record clock_catchup =
  stamp_us :: nat
  armed :: bool

definition clock_catchup_tick :: "clock_catchup \<Rightarrow> nat \<Rightarrow> clock_catchup" where
  "clock_catchup_tick c now_us = c\<lparr>stamp_us := now_us\<rparr>"

definition clock_catchup_owed :: "clock_catchup \<Rightarrow> nat \<Rightarrow> bool \<Rightarrow> nat \<Rightarrow> nat \<times> clock_catchup" where
  "clock_catchup_owed c now_us hw_pending tick_us =
     (if \<not> armed c then (0, c)
      else let due = usub32 now_us (stamp_us c) div tick_us;
               held = (if hw_pending then 1 else 0);
               owed = (if held < due then due - held else 0)
           in (owed, c\<lparr>stamp_us := u32 (stamp_us c + u32 (owed * tick_us))\<rparr>))"

text \<open>
  \<open>owed\<close> and \<open>ahead\<close> are \<open>unsigned\<close>; \<open>cast_int\<close> is the conversion to \<open>int\<close>.  The times of the queue and the time of
  day are signed, and the result of an overflow there, which C leaves open, is not modelled.
\<close>

definition cast_int :: "nat \<Rightarrow> int" where
  "cast_int n = (if n < 2147483648 then int n else int n - 4294967296)"

fun catchup_walk :: "nat \<Rightarrow> nat \<Rightarrow> callq \<Rightarrow> cptr option \<Rightarrow> nat \<Rightarrow> callq res" where
  "catchup_walk 0 owed q p ahead = Inl Hang"
| "catchup_walk (Suc fuel) owed q p ahead =
     (case p of
        None \<Rightarrow> Inr q
      | Some p \<Rightarrow>
          if ahead < owed then
            let t = c_time q p;
                q1 = q\<lparr>c_time := (c_time q)(p := t - cast_int (usub32 owed ahead))\<rparr>
            in catchup_walk fuel owed q1 (c_next q1 p) (if 0 < t then u32 (ahead + nat t) else ahead)
          else Inr q)"

text \<open>The time of day part is the pair (\<open>lbolt\<close>, seconds).\<close>

definition clock_catchup_apply :: "nat \<Rightarrow> int \<Rightarrow> int \<Rightarrow> int \<Rightarrow> callq \<Rightarrow> (int \<times> int \<times> callq) res" where
  "clock_catchup_apply owed hz lbolt seconds q =
     (let lb = lbolt + cast_int owed;
          (lb', sec') = (if hz \<le> lb then (lb mod hz, seconds + lb div hz) else (lb, seconds))
      in andthen (catchup_walk call_fuel owed q (c_next q Todo) 0) (\<lambda>q'. Inr (lb', sec', q')))"

text \<open>The time of day part of \<open>hardclock\<close>, on (\<open>adjdelta\<close>, \<open>lbolt\<close>, seconds).\<close>

definition tod_tick :: "int \<Rightarrow> int \<times> int \<times> int \<Rightarrow> int \<times> int \<times> int" where
  "tod_tick hz = (\<lambda>(adjdelta, lbolt, sec).
     let (adjdelta, lbolt) =
           (if adjdelta \<noteq> 0
            then if adjdelta > 0 then (adjdelta - 1, lbolt + 1) else (adjdelta + 1, lbolt - 1)
            else (adjdelta, lbolt));
         lbolt = lbolt + 1
     in if lbolt \<ge> hz then (adjdelta, lbolt - hz, sec + 1) else (adjdelta, lbolt, sec))"

section \<open>The queue as a list of deltas\<close>

type_synonym event = "nat \<times> nat"

definition ent :: "callq \<Rightarrow> cptr \<Rightarrow> int \<times> event" where
  "ent q p = (c_time q p, (c_func q p, c_arg q p))"

definition callrep :: "callq \<Rightarrow> cptr list \<Rightarrow> cptr list \<Rightarrow> bool" where
  "callrep q todo free \<longleftrightarrow> chain (c_next q) (c_next q Todo) todo \<and> chain (c_next q) (callfree q) free
     \<and> distinct (todo @ free) \<and> set (todo @ free) = Slot ` {..< NCALL}"

fun d_insert :: "int \<Rightarrow> event \<Rightarrow> (int \<times> event) list \<Rightarrow> (int \<times> event) list" where
  "d_insert t e [] = [(t, e)]"
| "d_insert t e ((u, f) # xs) =
     (if u < t then (u, f) # d_insert (if 0 < u then t - u else t) e xs
      else (t, e) # (u - t, f) # xs)"

fun d_remove :: "event \<Rightarrow> (int \<times> event) list \<Rightarrow> (int \<times> event) list" where
  "d_remove e [] = []"
| "d_remove e ((u, f) # xs) =
     (if f = e then (case xs of [] \<Rightarrow> [] | (v, g) # ys \<Rightarrow> (if 0 < u then v + u else v, g) # ys)
      else (u, f) # d_remove e xs)"

fun d_tick :: "(int \<times> event) list \<Rightarrow> (int \<times> event) list" where
  "d_tick [] = []"
| "d_tick ((u, f) # xs) = (if 0 < u then (u - 1, f) # xs else (u - 1, f) # d_tick xs)"

fun d_catchup :: "int \<Rightarrow> int \<Rightarrow> (int \<times> event) list \<Rightarrow> (int \<times> event) list" where
  "d_catchup owed ahead [] = []"
| "d_catchup owed ahead ((u, f) # xs) =
     (if ahead < owed then (u - (owed - ahead), f) # d_catchup owed (if 0 < u then ahead + u else ahead) xs
      else (u, f) # xs)"

section \<open>The queue as a list of remaining times\<close>

text \<open>
  Due entries come first, with times at most 0; after the first positive time every time is
  a distance to the entry before.
\<close>

fun d_ok :: "(int \<times> event) list \<Rightarrow> bool" where
  "d_ok [] \<longleftrightarrow> True"
| "d_ok ((u, f) # xs) \<longleftrightarrow> (if u \<le> 0 then d_ok xs else list_all (\<lambda>(v, g). 0 \<le> v) xs)"

fun sums :: "int \<Rightarrow> (int \<times> event) list \<Rightarrow> (int \<times> event) list" where
  "sums acc [] = []"
| "sums acc ((u, f) # xs) = (acc + u, f) # sums (acc + u) xs"

fun remaining :: "(int \<times> event) list \<Rightarrow> (int \<times> event) list" where
  "remaining [] = []"
| "remaining ((u, f) # xs) = (if u \<le> 0 then (u, f) # remaining xs else sums 0 ((u, f) # xs))"

fun r_insert :: "int \<Rightarrow> event \<Rightarrow> (int \<times> event) list \<Rightarrow> (int \<times> event) list" where
  "r_insert t e [] = [(t, e)]"
| "r_insert t e ((u, f) # xs) = (if u < t then (u, f) # r_insert t e xs else (t, e) # (u, f) # xs)"

fun r_remove :: "event \<Rightarrow> (int \<times> event) list \<Rightarrow> (int \<times> event) list" where
  "r_remove e [] = []"
| "r_remove e ((u, f) # xs) = (if f = e then xs else (u, f) # r_remove e xs)"

definition r_tick :: "int \<Rightarrow> (int \<times> event) list \<Rightarrow> (int \<times> event) list" where
  "r_tick n = map (\<lambda>(r, e). (r - n, e))"

lemma sums_shift: "sums (acc + k) xs = map (\<lambda>(r, e). (r + k, e)) (sums acc xs)"
proof (induction xs arbitrary: acc)
  case (Cons x xs)
  obtain u f where x: "x = (u, f)" by (cases x)
  have "acc + k + u = (acc + u) + k" by simp
  then show ?case using Cons.IH[of "acc + u"] by (simp add: x ac_simps)
qed simp

lemma remaining_nonneg:
  "list_all (\<lambda>(v, g). 0 \<le> v) xs \<Longrightarrow> remaining xs = sums 0 xs"
  by (induction xs rule: remaining.induct) auto

lemma d_ok_nonneg: "list_all (\<lambda>(v, g). 0 \<le> v) xs \<Longrightarrow> d_ok xs"
  by (induction xs rule: d_ok.induct) auto

lemma d_insert_sums:
  "0 < t \<Longrightarrow> list_all (\<lambda>(v, g). 0 \<le> v) xs \<Longrightarrow> sums acc (d_insert t e xs) = r_insert (acc + t) e (sums acc xs)"
  by (induction t e xs arbitrary: acc rule: d_insert.induct) auto

lemma d_insert_nonneg:
  "0 < t \<Longrightarrow> list_all (\<lambda>(v, g). 0 \<le> v) xs \<Longrightarrow> list_all (\<lambda>(v, g). 0 \<le> v) (d_insert t e xs)"
  by (induction t e xs rule: d_insert.induct) auto

lemma d_insert_ok: "0 < t \<Longrightarrow> d_ok xs \<Longrightarrow> d_ok (d_insert t e xs)"
  by (induction t e xs rule: d_insert.induct) (auto intro: d_insert_nonneg)

lemma remaining_insert: "0 < t \<Longrightarrow> d_ok xs \<Longrightarrow> remaining (d_insert t e xs) = r_insert t e (remaining xs)"
proof (induction t e xs rule: d_insert.induct)
  case (2 t e u f xs)
  show ?case
  proof (cases "0 < u")
    case True
    then show ?thesis using 2(2,3) d_insert_sums[of "t - u" xs u e] by (cases "u < t") auto
  next
    case False
    then show ?thesis using 2 by (auto simp: not_less)
  qed
qed simp

lemma sums_remove: "sums acc (d_remove e ((u, f) # xs)) = r_remove e (sums acc ((u, f) # xs))" if "0 \<le> u"
  "list_all (\<lambda>(v, g). 0 \<le> v) xs"
  using that
proof (induction xs arbitrary: acc u f)
  case Nil
  then show ?case by simp
next
  case (Cons x xs)
  obtain v g where x: "x = (v, g)" by (cases x)
  show ?case
  proof (cases "f = e")
    case True
    then show ?thesis using Cons.prems by (simp add: x ac_simps)
  next
    case False
    then show ?thesis using Cons.IH[of v "acc + u" g] Cons.prems by (simp add: x)
  qed
qed

lemma d_remove_nonneg: "list_all (\<lambda>(v, g). 0 \<le> v) xs \<Longrightarrow> list_all (\<lambda>(v, g). 0 \<le> v) (d_remove e xs)"
  by (induction e xs rule: d_remove.induct) (auto split: list.splits)

lemma d_remove_ok: "d_ok xs \<Longrightarrow> d_ok (d_remove e xs)"
proof (induction e xs rule: d_remove.induct)
  case (2 e u f xs)
  show ?case
  proof (cases "0 < u")
    case True
    then show ?thesis using 2(2) d_remove_nonneg[of "(u, f) # xs" e] by (intro d_ok_nonneg) simp
  next
    case False
    then show ?thesis using 2 by (cases xs) auto
  qed
qed simp

lemma remaining_remove: "d_ok xs \<Longrightarrow> remaining (d_remove e xs) = r_remove e (remaining xs)"
proof (induction e xs rule: d_remove.induct)
  case (2 e u f xs)
  show ?case
  proof (cases "0 < u")
    case True
    have "remaining (d_remove e ((u, f) # xs)) = sums 0 (d_remove e ((u, f) # xs))"
      using d_remove_nonneg[of "(u, f) # xs" e] 2(2) True by (intro remaining_nonneg) simp
    then show ?thesis using sums_remove[of u xs 0 e f] 2(2) True by simp
  next
    case False
    then show ?thesis using 2 by (cases xs) auto
  qed
qed simp

lemma remaining_tick: "d_ok xs \<Longrightarrow> remaining (d_tick xs) = r_tick 1 (remaining xs) \<and> d_ok (d_tick xs)"
proof (induction xs rule: d_tick.induct)
  case (2 u f xs)
  show ?case
  proof (cases "0 < u")
    case True
    have "sums (u - 1) xs = map (\<lambda>(r, e). (r - 1, e)) (sums u xs)"
      using sums_shift[of "u" "-1" xs] by simp
    moreover have "list_all (\<lambda>(v, g). 0 \<le> v) xs" using 2(2) True by simp
    ultimately show ?thesis using True remaining_nonneg[of xs] d_ok_nonneg[of xs] by (cases "u = 1") (auto simp: r_tick_def)
  next
    case False
    then show ?thesis using 2 by (auto simp: r_tick_def)
  qed
qed (simp add: r_tick_def)

text \<open>The catch-up pass is as many ticks.\<close>

lemma d_catchup_shift: "d_catchup (n + k) (a + k) xs = d_catchup n a xs"
proof (induction xs arbitrary: a)
  case (Cons x xs)
  obtain u f where x: "x = (u, f)" by (cases x)
  show ?case using Cons.IH[of a] Cons.IH[of "a + u"] by (simp add: x ac_simps)
qed simp

lemma d_catchup_0: "n \<le> a \<Longrightarrow> d_catchup n a xs = xs"
  by (cases xs) auto

lemma d_catchup_Suc: "0 \<le> n \<Longrightarrow> d_catchup (n + 1) 0 xs = d_catchup n 0 (d_tick xs)"
proof (induction xs)
  case (Cons x xs)
  obtain u f where x: "x = (u, f)" by (cases x)
  show ?case
  proof (cases "0 < u")
    case True
    have "d_catchup (n + 1) u xs = d_catchup n (u - 1) xs"
      using d_catchup_shift[of n 1 "u - 1" xs] by simp
    then show ?thesis using True Cons.prems d_catchup_0[of n "u - 1" xs]
      by (cases "u = 1") (auto simp: x)
  next
    case False
    then show ?thesis using Cons by (auto simp: x d_catchup_0)
  qed
qed simp

lemma d_catchup_ticks: "d_catchup (int n) 0 xs = (d_tick ^^ n) xs"
proof (induction n arbitrary: xs)
  case 0
  show ?case by (simp add: d_catchup_0)
next
  case (Suc n)
  have "d_catchup (int (Suc n)) 0 xs = d_catchup (int n) 0 (d_tick xs)"
    using d_catchup_Suc[of "int n" xs] by (simp add: add.commute)
  then show ?case using Suc by (simp only: funpow_Suc_right comp_apply)
qed

section \<open>The store implements the list\<close>

lemma ent_cong: "c_time q' p = c_time q p \<Longrightarrow> c_func q' p = c_func q p \<Longrightarrow> c_arg q' p = c_arg q p \<Longrightarrow>
  ent q' p = ent q p"
  by (simp add: ent_def)

lemma map_ent_cong:
  "(\<And>p. p \<in> set ps \<Longrightarrow> c_time q' p = c_time q p \<and> c_func q' p = c_func q p \<and> c_arg q' p = c_arg q p) \<Longrightarrow>
   map (ent q') ps = map (ent q) ps"
  by (auto simp: ent_def)

lemma callrep_length:
  assumes "callrep q todo free"
  shows "length todo + length free = NCALL" "length todo < call_fuel"
proof -
  have "card (set (todo @ free)) = length (todo @ free)"
    using assms by (intro distinct_card) (simp add: callrep_def)
  moreover have "card (Slot ` {..< NCALL}) = NCALL"
    by (subst card_image) (auto simp: inj_on_def)
  ultimately show "length todo + length free = NCALL" using assms by (simp add: callrep_def)
  then show "length todo < call_fuel" by simp
qed

lemma callrep_Todo: "callrep q todo free \<Longrightarrow> Todo \<notin> set todo \<and> Todo \<notin> set free"
  unfolding callrep_def by (metis Un_iff cptr.distinct(1) imageE set_append)

lemma d_ent:
  "d_insert t e (ent q p # xs) =
     (if c_time q p < t then ent q p # d_insert (if 0 < c_time q p then t - c_time q p else t) e xs
      else (t, e) # (c_time q p - t, snd (ent q p)) # xs)"
  "d_remove e (ent q p # xs) =
     (if snd (ent q p) = e
      then (case xs of [] \<Rightarrow> [] | (v, g) # ys \<Rightarrow> (if 0 < c_time q p then v + c_time q p else v, g) # ys)
      else ent q p # d_remove e xs)"
  "d_tick (ent q p # xs) = (c_time q p - 1, snd (ent q p)) # (if 0 < c_time q p then xs else d_tick xs)"
  "d_catchup n a (ent q p # xs) =
     (if a < n then (c_time q p - (n - a), snd (ent q p)) # d_catchup n (if 0 < c_time q p then a + c_time q p else a) xs
      else ent q p # xs)"
  by (simp_all add: ent_def)

declare d_insert.simps(2) [simp del] d_remove.simps(2) [simp del] d_tick.simps(2) [simp del]
  d_catchup.simps(2) [simp del] timeout_walk.simps(2) [simp del] untimeout_walk.simps(2) [simp del]
  hardclock_walk.simps(2) [simp del] catchup_walk.simps(2) [simp del] softclock_loop.simps(2) [simp del]

text \<open>Where \<open>timeout\<close> links the new structure in.\<close>

fun hdo :: "'a list \<Rightarrow> 'a option" where
  "hdo [] = None"
| "hdo (x # xs) = Some x"

fun d_link :: "callq \<Rightarrow> int \<Rightarrow> event \<Rightarrow> cptr list \<Rightarrow> (int \<times> event) list" where
  "d_link q t e [] = [(t, e)]"
| "d_link q t e (b # bs) = (t, e) # (c_time q b - t, snd (ent q b)) # map (ent q) bs"

lemma timeout_walk_run:
  assumes "chain (c_next q) (c_next q p1) ps" and "length ps < fuel"
  shows "\<exists>as bs t'. ps = as @ bs \<and> timeout_walk fuel q p1 t = Inr (last (p1 # as), hdo bs, t')
    \<and> d_insert t e (map (ent q) ps) = map (ent q) as @ d_link q t' e bs"
  using assms
proof (induction ps arbitrary: p1 t fuel)
  case Nil
  then show ?case by (cases fuel) (auto simp: timeout_walk.simps(2))
next
  case (Cons p2 rest)
  obtain n where fuel: "fuel = Suc n" using Cons.prems(2) by (cases fuel) auto
  have nx: "c_next q p1 = Some p2" "chain (c_next q) (c_next q p2) rest" using Cons.prems(1) by simp_all
  show ?case
  proof (cases "c_time q p2 < t")
    case True
    let ?t = "if 0 < c_time q p2 then t - c_time q p2 else t"
    obtain as bs t' where IH: "rest = as @ bs" "timeout_walk n q p2 ?t = Inr (last (p2 # as), hdo bs, t')"
      "d_insert ?t e (map (ent q) rest) = map (ent q) as @ d_link q t' e bs"
      using Cons.IH[OF nx(2), of n ?t] Cons.prems(2) fuel by auto
    have "timeout_walk fuel q p1 t = Inr (last (p1 # p2 # as), hdo bs, t')"
      using IH(2) nx True fuel by (simp add: timeout_walk.simps(2))
    moreover have "d_insert t e (map (ent q) (p2 # rest)) = map (ent q) (p2 # as) @ d_link q t' e bs"
      using IH(3) True by (simp add: d_ent)
    ultimately show ?thesis using IH(1) by (intro exI[of _ "p2 # as"] exI[of _ bs] exI[of _ t']) simp
  next
    case False
    then show ?thesis using nx fuel
      by (intro exI[of _ "[]"] exI[of _ "p2 # rest"] exI[of _ t]) (simp add: timeout_walk.simps(2) d_ent)
  qed
qed

text \<open>Linking a new node into a chain.\<close>

lemma chain_insert:
  assumes "chain nx (nx p) (as @ bs)" and "n \<notin> set (as @ bs)" and "p \<notin> set (as @ bs)" and "n \<noteq> p"
    and "l = last (p # as)"
  shows "chain (nx(l := Some n, n := hdo bs)) (if l = p then Some n else nx p) (as @ n # bs)"
  using assms
proof (induction as arbitrary: p)
  case Nil
  then have "chain (nx(l := Some n, n := hdo bs)) (nx p) bs"
    by (subst chain_cong[of bs _ nx]) auto
  then show ?case using Nil by (cases bs) (auto simp: fun_upd_def)
next
  case (Cons a as)
  have nx: "nx p = Some a" and a: "a \<noteq> n" using Cons.prems by auto
  have dis: "a \<notin> set (as @ bs)" using chain_distinct[OF Cons.prems(1)] by simp
  have l: "l = last (a # as)" using Cons.prems(5) by simp
  then have "l \<in> set (a # as)" by (metis last_in_set list.distinct(1))
  then have "l \<noteq> p" using Cons.prems(3) by auto
  moreover have "chain (nx(l := Some n, n := hdo bs)) (if l = a then Some n else nx a) (as @ n # bs)"
    by (rule Cons.IH[OF _ _ _ _ l]) (use Cons.prems dis in auto)
  ultimately show ?case using nx a by (auto simp: fun_upd_def)
qed

lemma timeout_refines:
  assumes rep: "callrep q todo free" and "t' = (if t \<le> 0 then 1 else t)"
  shows "case free of
      [] \<Rightarrow> timeout q fn arg t = Inl (Panic ''timeout table overflow'')
    | n # rest \<Rightarrow> \<exists>q' todo'. timeout q fn arg t = Inr q' \<and> callrep q' todo' rest
        \<and> map (ent q') todo' = d_insert t' (fn, arg) (map (ent q) todo)"
proof (cases free)
  case Nil
  then show ?thesis using rep by (simp add: timeout_def callrep_def Let_def)
next
  case (Cons n rest)
  have T: "Todo \<notin> set todo" "Todo \<noteq> n" "Todo \<notin> set rest" using callrep_Todo[OF rep] Cons by auto
  have ch: "chain (c_next q) (c_next q Todo) todo" "callfree q = Some n" "chain (c_next q) (c_next q n) rest"
    and dis: "distinct (todo @ n # rest)" and all: "set (todo @ n # rest) = Slot ` {..< NCALL}"
    using rep Cons by (auto simp: callrep_def)
  let ?q1 = "q\<lparr>callfree := c_next q n, c_arg := (c_arg q)(n := arg), c_func := (c_func q)(n := fn)\<rparr>"
  have eq1: "map (ent ?q1) todo = map (ent q) todo" using dis by (intro map_ent_cong) auto
  obtain as bs t1 where w: "todo = as @ bs"
    "timeout_walk call_fuel ?q1 Todo t' = Inr (last (Todo # as), hdo bs, t1)"
    "d_insert t' (fn, arg) (map (ent ?q1) todo) = map (ent ?q1) as @ d_link ?q1 t1 (fn, arg) bs"
    using timeout_walk_run[of ?q1 Todo todo call_fuel t' "(fn, arg)"] ch callrep_length(2)[OF rep] by auto
  define l where "l = last (Todo # as)"
  have walk: "timeout_walk call_fuel ?q1 Todo t' = Inr (l, hdo bs, t1)" using w(2) l_def by simp
  let ?nx = "(c_next q)(l := Some n, n := hdo bs)"
  define q2 where "q2 = ?q1\<lparr>c_next := ?nx, c_time := (c_time q)(n := t1)\<rparr>"
  define q3 where "q3 = (case hdo bs of None \<Rightarrow> q2 | Some p2 \<Rightarrow> q2\<lparr>c_time := (c_time q2)(p2 := c_time q2 p2 - t1)\<rparr>)"
  have call: "timeout q fn arg t = Inr q3"
    using walk ch(2) assms(2) by (cases bs) (simp_all add: timeout_def Let_def q3_def q2_def)
  have fields: "c_next q3 = ?nx" "callfree q3 = c_next q n"
    by (simp_all add: q3_def q2_def split: option.splits)
  have "chain ?nx (?nx Todo) (as @ n # bs)"
    using chain_insert[OF _ _ _ _ l_def, of "c_next q" bs n] ch(1) w(1) T dis by auto
  moreover have "chain ?nx (c_next q n) rest"
  proof -
    have "l \<notin> set rest" using T dis w(1) by (auto simp: l_def dest: last_in_set)
    then show ?thesis using ch(3) dis by (simp add: chain_frame)
  qed
  moreover have "distinct ((as @ n # bs) @ rest)" "set ((as @ n # bs) @ rest) = Slot ` {..< NCALL}"
    using dis all w(1) by auto
  ultimately have rep': "callrep q3 (as @ n # bs) rest" by (simp add: callrep_def fields)
  have "map (ent q3) (as @ n # bs) = map (ent ?q1) as @ d_link ?q1 t1 (fn, arg) bs"
    using dis w(1) by (cases bs) (auto simp: q3_def q2_def ent_def)
  then show ?thesis using call rep' w(3) eq1 Cons by auto
qed

text \<open>Unlinking a node.\<close>

lemma chain_remove:
  assumes "chain nx (nx p) (as @ n # bs)" and "p \<notin> set (as @ n # bs)" and "l = last (p # as)"
  shows "chain (nx(l := nx n, n := x)) (if l = p then nx n else nx p) (as @ bs)"
  using assms
proof (induction as arbitrary: p)
  case Nil
  have "n \<notin> set bs" using chain_distinct[OF Nil(1)] by simp
  then have "chain (nx(l := nx n, n := x)) (nx n) bs"
    using Nil by (subst chain_cong[of bs _ nx]) auto
  moreover have "l = p" using Nil by simp
  ultimately show ?case by (simp only: append_Nil if_True refl)
next
  case (Cons a as)
  have nx: "nx p = Some a" using Cons.prems by auto
  have dis: "a \<notin> set (as @ n # bs)" using chain_distinct[OF Cons.prems(1)] by simp
  have l: "l = last (a # as)" using Cons.prems(3) by simp
  then have "l \<in> set (a # as)" by (metis last_in_set list.distinct(1))
  then have "l \<noteq> p" using Cons.prems(2) by auto
  moreover have "chain (nx(l := nx n, n := x)) (if l = a then nx n else nx a) (as @ bs)"
    by (rule Cons.IH[OF _ _ l]) (use Cons.prems dis in auto)
  ultimately show ?case using nx dis by (auto simp: fun_upd_def)
qed

lemma untimeout_walk_run:
  assumes "chain (c_next q) (c_next q p1) ps" and "length ps < fuel"
  shows "(d_remove (fn, arg) (map (ent q) ps) = map (ent q) ps \<and> untimeout_walk fuel q p1 fn arg = Inr q)
    \<or> (\<exists>as n bs q1. ps = as @ n # bs \<and> c_next q1 = c_next q \<and> callfree q1 = callfree q
        \<and> (\<forall>p. c_func q1 p = c_func q p \<and> c_arg q1 p = c_arg q p)
        \<and> (\<forall>p. p \<notin> set bs \<longrightarrow> c_time q1 p = c_time q p)
        \<and> (distinct bs \<longrightarrow> d_remove (fn, arg) (map (ent q) ps) = map (ent q) as @ map (ent q1) bs)
        \<and> untimeout_walk fuel q p1 fn arg = Inr (q1\<lparr>c_next := (c_next q)(last (p1 # as) := c_next q n,
             n := callfree q), callfree := Some n\<rparr>))"
  using assms
proof (induction ps arbitrary: p1 fuel)
  case Nil
  then show ?case by (cases fuel) (auto simp: untimeout_walk.simps(2))
next
  case (Cons p2 rest)
  obtain k where fuel: "fuel = Suc k" using Cons.prems(2) by (cases fuel) auto
  have nx: "c_next q p1 = Some p2" "chain (c_next q) (c_next q p2) rest" using Cons.prems(1) by simp_all
  show ?case
  proof (cases "c_func q p2 = fn \<and> c_arg q p2 = arg")
    case True
    then have hit: "snd (ent q p2) = (fn, arg)" by (simp add: ent_def)
    define q1 where "q1 = (case c_next q p2 of
        Some n \<Rightarrow> if 0 < c_time q p2 then q\<lparr>c_time := (c_time q)(n := c_time q n + c_time q p2)\<rparr> else q
      | None \<Rightarrow> q)"
    have "untimeout_walk fuel q p1 fn arg = Inr (q1\<lparr>c_next := (c_next q)(p1 := c_next q p2,
             p2 := callfree q), callfree := Some p2\<rparr>)"
      using True nx fuel by (cases rest) (simp_all add: untimeout_walk.simps(2) q1_def Let_def)
    moreover have "d_remove (fn, arg) (map (ent q) (p2 # rest)) = map (ent q1) rest" if "distinct rest"
      using hit nx that by (cases rest) (auto simp: d_remove.simps q1_def ent_def)
    moreover have "c_next q1 = c_next q" "callfree q1 = callfree q"
      "\<forall>p. c_func q1 p = c_func q p \<and> c_arg q1 p = c_arg q p" "\<forall>p. p \<notin> set rest \<longrightarrow> c_time q1 p = c_time q p"
      using nx by (cases rest; auto simp: q1_def)+
    ultimately show ?thesis
      by - (rule disjI2, rule exI[of _ "[]"], rule exI[of _ p2], rule exI[of _ rest], rule exI[of _ q1],
          simp add: fun_upd_def)
  next
    case False
    then have miss: "snd (ent q p2) \<noteq> (fn, arg)" by (simp add: ent_def)
    have step: "untimeout_walk fuel q p1 fn arg = untimeout_walk k q p2 fn arg"
      using False nx fuel by (auto simp: untimeout_walk.simps(2))
    have "length rest < k" using Cons.prems(2) fuel by simp
    from Cons.IH[OF nx(2) this] show ?thesis
    proof (elim disjE exE conjE)
      assume "d_remove (fn, arg) (map (ent q) rest) = map (ent q) rest" "untimeout_walk k q p2 fn arg = Inr q"
      then show ?thesis using step miss by (simp add: d_ent)
    next
      fix as n bs q1
      assume "rest = as @ n # bs" "c_next q1 = c_next q" "callfree q1 = callfree q"
        "\<forall>p. c_func q1 p = c_func q p \<and> c_arg q1 p = c_arg q p"
        "\<forall>p. p \<notin> set bs \<longrightarrow> c_time q1 p = c_time q p"
        "distinct bs \<longrightarrow> d_remove (fn, arg) (map (ent q) rest) = map (ent q) as @ map (ent q1) bs"
        "untimeout_walk k q p2 fn arg = Inr (q1\<lparr>c_next := (c_next q)(last (p2 # as) := c_next q n,
             n := callfree q), callfree := Some n\<rparr>)"
      then show ?thesis using step miss
        by - (rule disjI2, rule exI[of _ "p2 # as"], rule exI[of _ n], rule exI[of _ bs], rule exI[of _ q1],
          simp add: d_ent fun_upd_def)
    qed
  qed
qed

lemma untimeout_refines:
  assumes rep: "callrep q todo free"
  shows "\<exists>q' todo' free'. untimeout q fn arg = Inr q' \<and> callrep q' todo' free'
    \<and> map (ent q') todo' = d_remove (fn, arg) (map (ent q) todo)"
proof -
  have ch: "chain (c_next q) (c_next q Todo) todo" "chain (c_next q) (callfree q) free"
    and dis: "distinct (todo @ free)" and all: "set (todo @ free) = Slot ` {..< NCALL}"
    using rep by (auto simp: callrep_def)
  have T: "Todo \<notin> set todo" "Todo \<notin> set free" using callrep_Todo[OF rep] by auto
  from untimeout_walk_run[OF ch(1) callrep_length(2)[OF rep], of fn arg] show ?thesis
  proof (elim disjE exE conjE)
    assume "d_remove (fn, arg) (map (ent q) todo) = map (ent q) todo" "untimeout_walk call_fuel q Todo fn arg = Inr q"
    then show ?thesis using rep by (intro exI[of _ q] exI[of _ todo] exI[of _ free]) (simp add: untimeout_def)
  next
    fix as n bs q1
    assume sp: "todo = as @ n # bs" and q1: "c_next q1 = c_next q" "callfree q1 = callfree q"
        "\<forall>p. c_func q1 p = c_func q p \<and> c_arg q1 p = c_arg q p"
        "\<forall>p. p \<notin> set bs \<longrightarrow> c_time q1 p = c_time q p"
        "distinct bs \<longrightarrow> d_remove (fn, arg) (map (ent q) todo) = map (ent q) as @ map (ent q1) bs"
      and call: "untimeout_walk call_fuel q Todo fn arg = Inr (q1\<lparr>c_next :=
             (c_next q)(last (Todo # as) := c_next q n, n := callfree q), callfree := Some n\<rparr>)"
    define l where "l = last (Todo # as)"
    let ?nx = "(c_next q)(l := c_next q n, n := callfree q)"
    let ?q' = "q1\<lparr>c_next := ?nx, callfree := Some n\<rparr>"
    have "l \<notin> set (n # free)" using T dis sp by (auto simp: l_def dest: last_in_set)
    then have "chain ?nx (callfree q) free" using ch(2) dis sp by (simp add: chain_frame)
    moreover have "n \<noteq> Todo" using T sp by auto
    moreover have "chain ?nx (?nx Todo) (as @ bs)"
      using chain_remove[OF _ _ l_def, of "c_next q" n bs] ch(1) sp T \<open>n \<noteq> Todo\<close> by auto
    ultimately have rep': "callrep ?q' (as @ bs) (n # free)"
      using dis all sp by (auto simp: callrep_def)
    have "map (ent ?q') (as @ bs) = map (ent q) as @ map (ent q1) bs"
      using q1(3,4) dis sp by (auto simp: ent_def)
    then show ?thesis using rep' call q1(5) dis sp
      by (intro exI[of _ ?q'] exI[of _ "as @ bs"] exI[of _ "n # free"]) (simp add: untimeout_def l_def)
  qed
qed

text \<open>The two clock passes only change times.\<close>

lemma callrep_time: "callrep (q\<lparr>c_time := f\<rparr>) todo free \<longleftrightarrow> callrep q todo free"
  by (simp add: callrep_def)

lemma hardclock_walk_run:
  assumes "chain (c_next q) p ps" and "length ps < fuel"
  shows "\<exists>f. hardclock_walk fuel q p ns = Inr (q\<lparr>c_time := f\<rparr>,
       ns \<or> (ps \<noteq> [] \<and> c_time q (hd ps) \<le> 1))
    \<and> map (ent (q\<lparr>c_time := f\<rparr>)) ps = d_tick (map (ent q) ps) \<and> (\<forall>x. x \<notin> set ps \<longrightarrow> f x = c_time q x)"
  using assms
proof (induction ps arbitrary: p fuel q ns)
  case Nil
  then show ?case by (cases fuel) (auto simp: hardclock_walk.simps(2) intro!: exI[of _ "c_time q"])
next
  case (Cons x xs)
  obtain k where fuel: "fuel = Suc k" using Cons.prems(2) by (cases fuel) auto
  have nx: "p = Some x" "chain (c_next q) (c_next q x) xs" and dis: "x \<notin> set xs"
    using Cons.prems(1) chain_distinct[OF Cons.prems(1)] by auto
  let ?q1 = "q\<lparr>c_time := (c_time q)(x := c_time q x - 1)\<rparr>"
  have same: "map (ent ?q1) xs = map (ent q) xs" using dis by (intro map_ent_cong) auto
  show ?case
  proof (cases "0 < c_time q x")
    case True
    then have "hardclock_walk fuel q p ns = Inr (?q1, ns \<or> c_time q x \<le> 1)"
      using nx fuel by (auto simp: hardclock_walk.simps(2) Let_def)
    moreover define f where "f = (c_time q)(x := c_time q x - 1)"
    moreover have "map (ent (q\<lparr>c_time := f\<rparr>)) (x # xs) = d_tick (map (ent q) (x # xs))"
      using True same by (simp add: d_tick.simps ent_def f_def)
    ultimately show ?thesis by (intro exI[of _ f]) (simp add: fun_upd_def)
  next
    case False
    obtain f where IH: "hardclock_walk k ?q1 (c_next q x) True = Inr (?q1\<lparr>c_time := f\<rparr>, True)"
      "map (ent (?q1\<lparr>c_time := f\<rparr>)) xs = d_tick (map (ent ?q1) xs)"
      "\<forall>y. y \<notin> set xs \<longrightarrow> f y = c_time ?q1 y"
      using Cons.IH[of ?q1 "c_next q x" k True] nx Cons.prems(2) fuel by auto
    have "hardclock_walk fuel q p ns = Inr (q\<lparr>c_time := f\<rparr>, True)"
      using IH(1) False nx fuel by (simp add: hardclock_walk.simps(2) Let_def)
    moreover have "map (ent (q\<lparr>c_time := f\<rparr>)) (x # xs) = d_tick (map (ent q) (x # xs))"
      using IH(2,3) False same dis by (simp add: d_tick.simps ent_def)
    ultimately show ?thesis using IH(3) False by (intro exI[of _ f]) simp
  qed
qed

lemma cast_int_sub: "a \<le> n \<Longrightarrow> n < 2147483648 \<Longrightarrow> cast_int (usub32 n a) = int n - int a"
  by (simp add: usub32_id cast_int_def)

lemma catchup_walk_run:
  assumes "chain (c_next q) p ps" and "length ps < fuel" and n: "n < 2147483648" and "\<forall>x\<in>set ps. c_time q x < 2147483648"
  shows "\<exists>f. catchup_walk fuel n q p a = Inr (q\<lparr>c_time := f\<rparr>)
    \<and> map (ent (q\<lparr>c_time := f\<rparr>)) ps = d_catchup (int n) (int a) (map (ent q) ps) \<and> (\<forall>x. x \<notin> set ps \<longrightarrow> f x = c_time q x)"
  using assms(1,2,4)
proof (induction ps arbitrary: p fuel q a)
  case Nil
  then show ?case by (cases fuel) (auto simp: catchup_walk.simps(2) intro!: exI[of _ "c_time q"])
next
  case (Cons x xs)
  obtain k where fuel: "fuel = Suc k" using Cons.prems(2) by (cases fuel) auto
  have nx: "p = Some x" "chain (c_next q) (c_next q x) xs" and dis: "x \<notin> set xs"
    using Cons.prems(1) chain_distinct[OF Cons.prems(1)] by auto
  show ?case
  proof (cases "a < n")
    case True
    let ?a = "if 0 < c_time q x then u32 (a + nat (c_time q x)) else a"
    let ?q1 = "q\<lparr>c_time := (c_time q)(x := c_time q x - (int n - int a))\<rparr>"
    have cast: "cast_int (usub32 n a) = int n - int a" using True n by (intro cast_int_sub) simp_all
    have ahead: "int ?a = (if 0 < c_time q x then int a + c_time q x else int a)"
    proof -
      have "a + nat (c_time q x) < 4294967296" using True n Cons.prems(3) by auto
      then show ?thesis by simp
    qed
    have same: "map (ent ?q1) xs = map (ent q) xs" using dis by (intro map_ent_cong) auto
    have "\<forall>y\<in>set xs. c_time ?q1 y < 2147483648" using Cons.prems(3) dis by auto
    then obtain f where IH: "catchup_walk k n ?q1 (c_next q x) ?a = Inr (?q1\<lparr>c_time := f\<rparr>)"
      "map (ent (?q1\<lparr>c_time := f\<rparr>)) xs = d_catchup (int n) (int ?a) (map (ent ?q1) xs)"
      "\<forall>y. y \<notin> set xs \<longrightarrow> f y = c_time ?q1 y"
      using Cons.IH[of ?q1 "c_next q x" k ?a] nx Cons.prems(2) fuel by auto
    have "catchup_walk fuel n q p a = Inr (q\<lparr>c_time := f\<rparr>)"
      using IH(1) True nx fuel by (simp add: catchup_walk.simps(2) Let_def cast)
    moreover have "map (ent (q\<lparr>c_time := f\<rparr>)) (x # xs) = d_catchup (int n) (int a) (map (ent q) (x # xs))"
      using IH(2,3) True same dis unfolding ahead by (simp add: d_catchup.simps ent_def)
    ultimately show ?thesis using IH(3) by (intro exI[of _ f]) simp
  next
    case False
    then show ?thesis using nx fuel
      by (intro exI[of _ "c_time q"]) (simp add: catchup_walk.simps(2) d_ent)
  qed
qed

section \<open>Running what is due\<close>

definition ndue :: "(int \<times> event) list \<Rightarrow> nat" where
  "ndue xs = length (takeWhile (\<lambda>x. fst x \<le> 0) xs)"

lemma ndue_insert: "0 < t \<Longrightarrow> ndue (d_insert t e xs) = ndue xs"
  by (induction t e xs rule: d_insert.induct) (auto simp: ndue_def d_insert.simps)

lemma ndue_remove: "d_ok xs \<Longrightarrow> ndue (d_remove e xs) \<le> ndue xs"
proof (induction e xs rule: d_remove.induct)
  case (2 e u f xs)
  then show ?case by (cases xs) (auto simp: ndue_def d_remove.simps)
qed simp

text \<open>The queue \<open>q\<close> is well formed and its pending events are \<open>xs\<close>, as (delta, event) pairs.\<close>

definition deltas :: "callq \<Rightarrow> (int \<times> event) list \<Rightarrow> bool" where
  "deltas q xs \<longleftrightarrow> d_ok xs \<and> (\<exists>todo free. callrep q todo free \<and> xs = map (ent q) todo)"

abbreviation overflow :: fault where
  "overflow \<equiv> Panic ''timeout table overflow''"

lemma deltas_length: "deltas q xs \<Longrightarrow> length xs \<le> NCALL"
  using callrep_length(1) by (fastforce simp: deltas_def)

lemma timeout_deltas:
  assumes "deltas q xs" and "t' = (if t \<le> 0 then 1 else t)"
  shows "if length xs = NCALL then timeout q fn arg t = Inl overflow
    else \<exists>q'. timeout q fn arg t = Inr q' \<and> deltas q' (d_insert t' (fn, arg) xs)"
proof -
  obtain todo free where rep: "callrep q todo free" and xs: "xs = map (ent q) todo" and ok: "d_ok xs"
    using assms(1) by (auto simp: deltas_def)
  have len: "length xs = NCALL \<longleftrightarrow> free = []" using callrep_length(1)[OF rep] xs by auto
  have "0 < t'" using assms(2) by auto
  then have "d_ok (d_insert t' (fn, arg) xs)" using d_insert_ok ok by blast
  then have ins: "\<And>q' todo' rest. callrep q' todo' rest \<Longrightarrow>
      map (ent q') todo' = d_insert t' (fn, arg) xs \<Longrightarrow> deltas q' (d_insert t' (fn, arg) xs)"
    unfolding deltas_def by metis
  show ?thesis using timeout_refines[OF rep assms(2), of fn arg] len ins unfolding xs
    by (cases free) auto
qed

lemma untimeout_deltas:
  assumes "deltas q xs"
  shows "\<exists>q'. untimeout q fn arg = Inr q' \<and> deltas q' (d_remove (fn, arg) xs)"
proof -
  obtain todo free where rep: "callrep q todo free" and xs: "xs = map (ent q) todo" and ok: "d_ok xs"
    using assms by (auto simp: deltas_def)
  have "d_ok (d_remove (fn, arg) xs)" using d_remove_ok ok by blast
  then show ?thesis using untimeout_refines[OF rep, of fn arg] xs by (fastforce simp: deltas_def)
qed

lemma run_ops_deltas:
  "deltas q xs \<Longrightarrow> run_ops ops q = Inl overflow
     \<or> (\<exists>q' xs'. run_ops ops q = Inr q' \<and> deltas q' xs' \<and> ndue xs' \<le> ndue xs)"
proof (induction ops q arbitrary: xs rule: run_ops.induct)
  case (2 fn arg t ops q)
  define t' where "t' = (if t \<le> 0 then 1 else t)"
  have pos: "0 < t'" by (simp add: t'_def)
  show ?case
  proof (cases "length xs = NCALL")
    case True
    then show ?thesis using timeout_deltas[OF 2(2) t'_def, of fn arg] by simp
  next
    case False
    then obtain q' where q': "timeout q fn arg t = Inr q'" "deltas q' (d_insert t' (fn, arg) xs)"
      using timeout_deltas[OF 2(2) t'_def, of fn arg] by auto
    then show ?thesis using 2(1)[OF q'] ndue_insert[OF pos] by simp
  qed
next
  case (3 fn arg ops q)
  obtain q' where q': "untimeout q fn arg = Inr q'" "deltas q' (d_remove (fn, arg) xs)"
    using untimeout_deltas[OF 3(2)] by blast
  have "ndue (d_remove (fn, arg) xs) \<le> ndue xs" using 3(2) ndue_remove by (auto simp: deltas_def)
  then show ?case using 3(1)[OF q'] q'(1) by fastforce
qed auto

text \<open>One step of the loop: the first structure moves from the queue to the free list.\<close>

lemma softclock_pop:
  assumes "deltas q ((u, fn, arg) # xs)" and "c_next q Todo = Some p"
    and "q1 = q\<lparr>c_next := (c_next q)(Todo := c_next q p, p := callfree q), callfree := Some p\<rparr>"
  shows "c_time q p = u \<and> c_func q p = fn \<and> c_arg q p = arg \<and> (u \<le> 0 \<longrightarrow> deltas q1 xs)"
proof -
  obtain todo free where rep: "callrep q todo free" and eq: "(u, fn, arg) # xs = map (ent q) todo"
    and ok: "d_ok ((u, fn, arg) # xs)" using assms(1) unfolding deltas_def by (elim conjE exE) (rule that)
  then obtain ps where ps: "todo = p # ps" using assms(2) by (cases todo) (auto simp: callrep_def)
  have T: "Todo \<noteq> p" "Todo \<notin> set ps" "Todo \<notin> set free" using callrep_Todo[OF rep] ps by auto
  have "p \<notin> set ps" "p \<notin> set free" using rep ps by (auto simp: callrep_def)
  then have "chain (c_next q1) (c_next q p) ps" "chain (c_next q1) (callfree q) free"
    using rep ps T assms(3) by (simp_all add: callrep_def chain_frame)
  then have rep': "callrep q1 ps (p # free)" using rep ps T assms(3) by (auto simp: callrep_def)
  moreover have "map (ent q1) ps = map (ent q) ps" using assms(3) by (simp add: ent_def)
  ultimately show ?thesis using eq ps ok by (auto simp: deltas_def ent_def)
qed

lemma deltas_empty: "deltas q xs \<Longrightarrow> c_next q Todo = None \<longleftrightarrow> xs = []"
  by (auto simp: deltas_def callrep_def)

lemma softclock_loop_deltas:
  assumes "deltas q xs" and "ndue xs < fuel"
  shows "softclock_loop fuel exec q calls = Inl overflow
    \<or> (\<exists>q' xs' calls'. softclock_loop fuel exec q calls = Inr (q', calls @ calls') \<and> deltas q' xs' \<and> ndue xs' = 0)"
  using assms
proof (induction fuel arbitrary: q xs calls)
  case (Suc fuel)
  show ?case
  proof (cases "c_next q Todo")
    case None
    then have "xs = []" using deltas_empty[OF Suc.prems(1)] by simp
    then show ?thesis using None Suc.prems(1)
      by (intro disjI2 exI[of _ q] exI[of _ xs] exI[of _ "[]"]) (simp_all add: softclock_loop.simps(2) ndue_def)
  next
    case (Some p)
    then obtain u fn arg ys where xs: "xs = (u, fn, arg) # ys"
      using deltas_empty[OF Suc.prems(1)] by (cases xs) auto
    define q1 where "q1 = q\<lparr>c_next := (c_next q)(Todo := c_next q p, p := callfree q), callfree := Some p\<rparr>"
    note pop = softclock_pop[OF Suc.prems(1)[unfolded xs] Some q1_def]
    show ?thesis
    proof (cases "0 < u")
      case True
      then show ?thesis using Some pop Suc.prems(1) xs
        by (intro disjI2 exI[of _ q] exI[of _ xs] exI[of _ "[]"]) (simp_all add: softclock_loop.simps(2) ndue_def)
    next
      case False
      have step: "softclock_loop (Suc fuel) exec q calls =
          andthen (run_ops (exec fn arg) q1) (\<lambda>q2. softclock_loop fuel exec q2 (calls @ [(fn, arg)]))"
        using Some pop False by (simp add: softclock_loop.simps(2) q1_def Let_def)
      have q1: "deltas q1 ys" using pop False by simp
      have fewer: "ndue ys < fuel" using Suc.prems(2) xs False by (simp add: ndue_def)
      from run_ops_deltas[OF q1, of "exec fn arg"] show ?thesis
      proof (elim disjE exE conjE)
        assume "run_ops (exec fn arg) q1 = Inl overflow"
        then show ?thesis using step by simp
      next
        fix q2 zs assume q2: "run_ops (exec fn arg) q1 = Inr q2" "deltas q2 zs" "ndue zs \<le> ndue ys"
        then have "ndue zs < fuel" using fewer by simp
        from Suc.IH[OF q2(2) this, of "calls @ [(fn, arg)]"] show ?thesis using step q2(1) by auto
      qed
    qed
  qed
qed simp

lemma softclock_loop_inert:
  assumes "deltas q xs" and "ndue xs < fuel"
  shows "\<exists>q'. softclock_loop fuel (\<lambda>_ _. []) q calls = Inr (q', calls @ map snd (takeWhile (\<lambda>x. fst x \<le> 0) xs))
    \<and> deltas q' (dropWhile (\<lambda>x. fst x \<le> 0) xs)"
  using assms
proof (induction xs arbitrary: fuel q calls)
  case Nil
  then show ?case using deltas_empty[OF Nil(1)] by (cases fuel) (auto simp: softclock_loop.simps(2))
next
  case (Cons x ys)
  obtain u fn arg where x: "x = (u, fn, arg)" by (cases x)
  obtain k where fuel: "fuel = Suc k" using Cons.prems(2) by (cases fuel) auto
  obtain p where p: "c_next q Todo = Some p" using deltas_empty[OF Cons.prems(1)] by auto
  define q1 where "q1 = q\<lparr>c_next := (c_next q)(Todo := c_next q p, p := callfree q), callfree := Some p\<rparr>"
  note pop = softclock_pop[OF Cons.prems(1)[unfolded x] p q1_def]
  show ?case
  proof (cases "0 < u")
    case True
    then show ?thesis using p pop Cons.prems(1) x fuel by (simp add: softclock_loop.simps(2))
  next
    case False
    have step: "softclock_loop fuel (\<lambda>_ _. []) q calls = softclock_loop k (\<lambda>_ _. []) q1 (calls @ [(fn, arg)])"
      using p pop False fuel by (simp add: softclock_loop.simps(2) q1_def Let_def)
    have "ndue ys < k" using Cons.prems(2) x False fuel by (simp add: ndue_def)
    then show ?thesis using Cons.IH[of q1 k "calls @ [(fn, arg)]"] step pop False x by simp
  qed
qed

section \<open>The contract of a timer queue\<close>

lemma r_insert_set: "set (r_insert t e xs) = insert (t, e) (set xs)"
  by (induction t e xs rule: r_insert.induct) auto

text \<open>
  \<open>holds q xs\<close>: the events waiting in \<open>q\<close> are \<open>xs\<close>, each with the ticks it has left (zero or
  less when it is due).
\<close>

locale timer_queue =
  fixes holds :: "'q \<Rightarrow> (int \<times> event) list \<Rightarrow> bool"
    and add :: "'q \<Rightarrow> nat \<Rightarrow> nat \<Rightarrow> int \<Rightarrow> 'q res"
    and tick :: "'q \<Rightarrow> 'q res"
  assumes add_law: "holds q xs \<Longrightarrow> add q fn arg t = Inr q' \<Longrightarrow> holds q' (r_insert (max 1 t) (fn, arg) xs)"
    and tick_law: "holds q xs \<Longrightarrow> \<exists>q'. tick q = Inr q' \<and> holds q' (r_tick 1 xs)"
begin

fun ticks :: "nat \<Rightarrow> 'q \<Rightarrow> 'q res" where
  "ticks 0 q = Inr q"
| "ticks (Suc n) q = andthen (tick q) (ticks n)"

lemma ticks_law: "holds q xs \<Longrightarrow> \<exists>q'. ticks n q = Inr q' \<and> holds q' (r_tick (int n) xs)"
proof (induction n arbitrary: q xs)
  case 0
  then show ?case by (simp add: r_tick_def split_beta)
next
  case (Suc n)
  obtain q1 where q1: "tick q = Inr q1" "holds q1 (r_tick 1 xs)" using tick_law[OF Suc.prems] by blast
  have "r_tick (int n) (r_tick 1 xs) = r_tick (int (Suc n)) xs"
    by (simp add: r_tick_def split_beta comp_def algebra_simps)
  then show ?case using Suc.IH[OF q1(2)] q1(1) by simp
qed

text \<open>An event is due after exactly the ticks asked for, and no other event moves.\<close>

lemma fires_on_time:
  assumes "holds q xs" and "add q fn arg t = Inr q'"
  shows "\<exists>q'' ys. ticks n q' = Inr q'' \<and> holds q'' ys
    \<and> set ys = insert (max 1 t - int n, (fn, arg)) ((\<lambda>(r, e). (r - int n, e)) ` set xs)"
proof -
  obtain q'' where "ticks n q' = Inr q''" "holds q'' (r_tick (int n) (r_insert (max 1 t) (fn, arg) xs))"
    using ticks_law[OF add_law[OF assms]] by blast
  moreover have "set (r_tick (int n) (r_insert (max 1 t) (fn, arg) xs)) =
      insert (max 1 t - int n, (fn, arg)) ((\<lambda>(r, e). (r - int n, e)) ` set xs)"
    by (simp add: r_tick_def r_insert_set)
  ultimately show ?thesis by blast
qed

end

definition call_holds :: "callq \<Rightarrow> (int \<times> event) list \<Rightarrow> bool" where
  "call_holds q rs \<longleftrightarrow> (\<exists>xs. deltas q xs \<and> rs = remaining xs)"

definition hardclock_tick :: "callq \<Rightarrow> callq res" where
  "hardclock_tick q = andthen (hardclock_walk call_fuel q (c_next q Todo) False) (\<lambda>(q', needsoft). Inr q')"

lemma hardclock_deltas:
  assumes "deltas q xs"
  shows "\<exists>q'. hardclock_walk call_fuel q (c_next q Todo) ns = Inr (q', ns \<or> (xs \<noteq> [] \<and> fst (hd xs) \<le> 1))
    \<and> deltas q' (d_tick xs)"
proof -
  obtain todo free where rep: "callrep q todo free" and xs: "xs = map (ent q) todo" and ok: "d_ok xs"
    using assms by (auto simp: deltas_def)
  obtain f where f: "hardclock_walk call_fuel q (c_next q Todo) ns = Inr (q\<lparr>c_time := f\<rparr>,
       ns \<or> (todo \<noteq> [] \<and> c_time q (hd todo) \<le> 1))"
    "map (ent (q\<lparr>c_time := f\<rparr>)) todo = d_tick xs"
    using hardclock_walk_run[of q "c_next q Todo" todo call_fuel ns] rep callrep_length(2)[OF rep] xs
    by (auto simp: callrep_def)
  have "deltas (q\<lparr>c_time := f\<rparr>) (d_tick xs)"
    using rep f(2) remaining_tick[OF ok] unfolding deltas_def by (metis callrep_time)
  moreover have "(todo \<noteq> [] \<and> c_time q (hd todo) \<le> 1) = (xs \<noteq> [] \<and> fst (hd xs) \<le> 1)"
    using xs by (cases todo) (auto simp: ent_def)
  ultimately show ?thesis using f(1) by auto
qed

interpretation callout: timer_queue call_holds timeout hardclock_tick
proof unfold_locales
  fix q xs fn arg t q' assume "call_holds q xs" and call: "timeout q fn arg t = Inr q'"
  then obtain ds where ds: "deltas q ds" "xs = remaining ds" by (auto simp: call_holds_def)
  have m: "max 1 t = (if t \<le> 0 then 1 else t)" by (auto simp: max_def)
  have "deltas q' (d_insert (max 1 t) (fn, arg) ds)"
    using timeout_deltas[OF ds(1) m, of fn arg] call by (auto split: if_splits)
  moreover have "remaining (d_insert (max 1 t) (fn, arg) ds) = r_insert (max 1 t) (fn, arg) xs"
    using remaining_insert[of "max 1 t" ds] ds by (simp add: deltas_def)
  ultimately show "call_holds q' (r_insert (max 1 t) (fn, arg) xs)" unfolding call_holds_def by metis
next
  fix q xs assume "call_holds q xs"
  then obtain ds where ds: "deltas q ds" "xs = remaining ds" by (auto simp: call_holds_def)
  obtain q' b where q': "hardclock_walk call_fuel q (c_next q Todo) False = Inr (q', b)" "deltas q' (d_tick ds)"
    using hardclock_deltas[OF ds(1)] by blast
  have "remaining (d_tick ds) = r_tick 1 xs" using remaining_tick[of ds] ds by (simp add: deltas_def)
  then have "call_holds q' (r_tick 1 xs)" using q'(2) unfolding call_holds_def by metis
  then show "\<exists>q'. hardclock_tick q = Inr q' \<and> call_holds q' (r_tick 1 xs)"
    using q'(1) by (simp add: hardclock_tick_def)
qed

section \<open>Lost ticks\<close>

lemma hardclock_ticks_run:
  assumes "callrep q todo free"
  shows "\<exists>f. callout.ticks n q = Inr (q\<lparr>c_time := f\<rparr>)
    \<and> map (ent (q\<lparr>c_time := f\<rparr>)) todo = (d_tick ^^ n) (map (ent q) todo) \<and> (\<forall>x. x \<notin> set todo \<longrightarrow> f x = c_time q x)"
  using assms
proof (induction n arbitrary: q)
  case 0
  show ?case by (intro exI[of _ "c_time q"]) simp
next
  case (Suc n)
  obtain g b where g: "hardclock_walk call_fuel q (c_next q Todo) False = Inr (q\<lparr>c_time := g\<rparr>, b)"
    "map (ent (q\<lparr>c_time := g\<rparr>)) todo = d_tick (map (ent q) todo)" "\<forall>x. x \<notin> set todo \<longrightarrow> g x = c_time q x"
    using hardclock_walk_run[of q "c_next q Todo" todo call_fuel False] Suc.prems callrep_length(2)[OF Suc.prems]
    by (auto simp: callrep_def)
  obtain f where f: "callout.ticks n (q\<lparr>c_time := g\<rparr>) = Inr (q\<lparr>c_time := f\<rparr>)"
    "map (ent (q\<lparr>c_time := f\<rparr>)) todo = (d_tick ^^ n) (map (ent (q\<lparr>c_time := g\<rparr>)) todo)"
    "\<forall>x. x \<notin> set todo \<longrightarrow> f x = g x"
    using Suc.IH[of "q\<lparr>c_time := g\<rparr>"] Suc.prems by (auto simp: callrep_time)
  have "(d_tick ^^ n) (d_tick (map (ent q) todo)) = (d_tick ^^ Suc n) (map (ent q) todo)"
    by (simp only: funpow_Suc_right comp_apply)
  moreover have "hardclock_tick q = Inr (q\<lparr>c_time := g\<rparr>)" using g(1) by (simp add: hardclock_tick_def)
  ultimately show ?case using f g by (intro exI[of _ f]) simp
qed

lemma catchup_is_ticks:
  assumes rep: "callrep q todo free" and n: "n < 2147483648" and t: "\<forall>x. c_time q x < 2147483648"
  shows "catchup_walk call_fuel n q (c_next q Todo) 0 = callout.ticks n q"
proof -
  obtain f where f: "catchup_walk call_fuel n q (c_next q Todo) 0 = Inr (q\<lparr>c_time := f\<rparr>)"
    "map (ent (q\<lparr>c_time := f\<rparr>)) todo = (d_tick ^^ n) (map (ent q) todo)"
    "\<forall>x. x \<notin> set todo \<longrightarrow> f x = c_time q x"
    using catchup_walk_run[of q "c_next q Todo" todo call_fuel n 0] rep callrep_length(2)[OF rep] n t
    by (auto simp: callrep_def d_catchup_ticks)
  obtain g where g: "callout.ticks n q = Inr (q\<lparr>c_time := g\<rparr>)"
    "map (ent (q\<lparr>c_time := g\<rparr>)) todo = (d_tick ^^ n) (map (ent q) todo)"
    "\<forall>x. x \<notin> set todo \<longrightarrow> g x = c_time q x"
    using hardclock_ticks_run[OF rep] by blast
  have "f x = g x" for x
  proof (cases "x \<in> set todo")
    case True
    then have "ent (q\<lparr>c_time := f\<rparr>) x = ent (q\<lparr>c_time := g\<rparr>) x" using f(2) g(2) by (metis map_eq_conv)
    then show ?thesis by (simp add: ent_def)
  qed (use f(3) g(3) in simp)
  then have "f = g" by blast
  then show ?thesis using f(1) g(1) by simp
qed

text \<open>The time of day of \<open>n\<close> ticks, and what a pending adjustment adds to it.\<close>

lemma tod_ticks:
  assumes "0 \<le> lbolt" "lbolt < hz"
  shows "(tod_tick hz ^^ n) (0, lbolt, sec) = (0, (lbolt + int n) mod hz, sec + (lbolt + int n) div hz)"
proof (induction n)
  case 0
  then show ?case using assms by simp
next
  case (Suc n)
  let ?k = "lbolt + int n"
  have "0 < hz" using assms by simp
  have "(?k + 1) mod hz = (if hz \<le> ?k mod hz + 1 then ?k mod hz + 1 - hz else ?k mod hz + 1)
      \<and> (?k + 1) div hz = (if hz \<le> ?k mod hz + 1 then ?k div hz + 1 else ?k div hz)"
  proof -
    define r d where "r = ?k mod hz" and "d = ?k div hz"
    have k: "?k + 1 = hz * d + (r + 1)" "0 \<le> r" "r < hz" using \<open>0 < hz\<close> by (simp_all add: r_def d_def)
    show ?thesis
    proof (cases "hz \<le> r + 1")
      case True
      then have "?k + 1 = hz * (d + 1)" using k by (simp add: algebra_simps)
      then show ?thesis using True k \<open>0 < hz\<close> by (simp flip: r_def d_def)
    next
      case False
      then show ?thesis using int_div_pos_eq[OF k(1)] int_mod_pos_eq[OF k(1)] k(2)
        by (simp flip: r_def d_def)
    qed
  qed
  moreover have eq: "lbolt + int (Suc n) = ?k + 1" by simp
  ultimately show ?case unfolding funpow.simps comp_apply eq Suc
    by (cases "hz \<le> ?k mod hz + 1") (simp_all add: tod_tick_def)
qed

definition tod_sum :: "int \<Rightarrow> int \<times> int \<times> int \<Rightarrow> int" where
  "tod_sum hz = (\<lambda>(adjdelta, lbolt, sec). hz * sec + lbolt + adjdelta)"

lemma tod_sum_ticks: "tod_sum hz ((tod_tick hz ^^ n) s) = tod_sum hz s + int n"
proof (induction n)
  case (Suc n)
  have "tod_sum hz (tod_tick hz s) = tod_sum hz s + 1" for s
    by (cases s) (simp add: tod_sum_def tod_tick_def Let_def algebra_simps)
  then show ?case using Suc by simp
qed simp

lemma length_remaining [simp]: "length (remaining xs) = length xs"
proof (induction xs rule: remaining.induct)
  case (2 u f xs)
  have "length (sums a ys) = length ys" for a ys by (induction a ys rule: sums.induct) auto
  then show ?case using 2 by simp
qed simp

lemma sums_pos: "0 < acc \<Longrightarrow> list_all (\<lambda>(v, g). 0 \<le> v) xs \<Longrightarrow> (r, e) \<in> set (sums acc xs) \<Longrightarrow> 0 < r"
  by (induction acc xs rule: sums.induct) fastforce+

lemma ndue_positive:
  assumes "d_ok xs" and "ndue xs = 0" and "(r, e) \<in> set (remaining xs)"
  shows "0 < r"
  using assms sums_pos[of "fst (hd xs)" "tl xs" r e]
  by (cases xs rule: remaining.cases) (auto simp: ndue_def split: if_splits)

lemma remaining_due:
  assumes "d_ok xs"
  shows "map snd (takeWhile (\<lambda>x. fst x \<le> 0) (remaining xs)) = map snd (takeWhile (\<lambda>x. fst x \<le> 0) xs)
    \<and> dropWhile (\<lambda>x. fst x \<le> 0) (remaining xs) = remaining (dropWhile (\<lambda>x. fst x \<le> 0) xs)"
  using assms by (induction xs rule: remaining.induct) auto

section \<open>Properties\<close>

lemma chain_slots:
  "i \<le> NCALL \<Longrightarrow> chain (c_next coutinit) (if i < NCALL then Some (Slot i) else None) (map Slot [i ..< NCALL])"
proof (induction "NCALL - i" arbitrary: i)
  case (Suc k)
  then have "[i ..< NCALL] = i # [Suc i ..< NCALL]" by (simp add: upt_conv_Cons)
  moreover have "c_next coutinit (Slot i) = (if Suc i < NCALL then Some (Slot (Suc i)) else None)"
    by (simp add: coutinit_def)
  ultimately show ?case using Suc(1)[of "Suc i"] Suc(2,3) by simp
qed simp

lemma coutinit_deltas: "deltas coutinit []"
proof -
  have "callrep coutinit [] (map Slot [0 ..< NCALL])"
    using chain_slots[of 0] by (auto simp: callrep_def distinct_map inj_on_def coutinit_def NCALL_def)
  then show ?thesis by (auto simp: deltas_def)
qed

lemma coutinit_holds: "call_holds coutinit []"
  using coutinit_deltas by (force simp: call_holds_def)

text \<open>
  \<open>timeout\<close> keeps the queue in the order of expiry.  In terms of the ticks each event has
  left, it inserts the new event, with \<open>max 1 t\<close> ticks, before the first event that has at
  least as many and changes the time of no other event, although it stores differences; it
  panics exactly when all \<open>NCALL\<close> structures are in use.
\<close>

theorem timeout_inserts_in_order:
  assumes "call_holds q rs"
  shows "if length rs = NCALL then timeout q fn arg t = Inl (Panic ''timeout table overflow'')
    else \<exists>q'. timeout q fn arg t = Inr q' \<and> call_holds q' (r_insert (max 1 t) (fn, arg) rs)"
proof -
  obtain xs where xs: "deltas q xs" "rs = remaining xs" using assms by (auto simp: call_holds_def)
  have "max 1 t = (if t \<le> 0 then 1 else t)" by (auto simp: max_def)
  from timeout_deltas[OF xs(1) this, of fn arg] show ?thesis
    using callout.add_law[OF assms, of fn arg t] length_remaining[of xs] xs(2) by (auto split: if_splits)
qed

theorem timeout_inserts_in_order_witness: "\<exists>q'. timeout coutinit 7 1 3 = Inr q' \<and> call_holds q' [(3, 7, 1)]"
  using timeout_inserts_in_order[OF coutinit_holds, of 7 1 3] by (simp add: NCALL_def)

text \<open>
  C35.  An event fires on time.  After \<open>timeout\<close> with \<open>t\<close> ticks and \<open>n\<close> passes of the
  queue loop of \<open>hardclock\<close>, the event has \<open>max 1 t - n\<close> ticks left, so it becomes due at
  exactly the tick asked for, and every event that was waiting before is \<open>n\<close> ticks closer.
\<close>

theorem callout_fires_on_time:
  assumes "call_holds q rs" and "timeout q fn arg t = Inr q'"
  shows "\<exists>q'' ys. callout.ticks n q' = Inr q'' \<and> call_holds q'' ys
    \<and> set ys = insert (max 1 t - int n, (fn, arg)) ((\<lambda>(r, e). (r - int n, e)) ` set rs)"
  by (rule callout.fires_on_time[OF assms])

theorem callout_fires_on_time_witness:
  "\<exists>q' q'' ys. timeout coutinit 7 1 3 = Inr q' \<and> callout.ticks 3 q' = Inr q'' \<and> call_holds q'' ys \<and> set ys = {(0, (7, 1))}"
proof -
  obtain q' where q': "timeout coutinit 7 1 3 = Inr q'"
    using timeout_deltas[OF coutinit_deltas, of 3 3 7 1] by (auto simp: NCALL_def)
  then show ?thesis using callout_fires_on_time[OF coutinit_holds q', of 3] by auto
qed

text \<open>
  \<open>untimeout\<close> removes the first matching event and nothing else: the remaining ticks of
  all other events stay as they were, and without a match nothing changes.
\<close>

theorem untimeout_removes_one:
  assumes "call_holds q rs"
  shows "\<exists>q'. untimeout q fn arg = Inr q' \<and> call_holds q' (r_remove (fn, arg) rs)"
proof -
  obtain xs where xs: "deltas q xs" "rs = remaining xs" using assms by (auto simp: call_holds_def)
  then show ?thesis
    using untimeout_deltas[OF xs(1), of fn arg] remaining_remove[of xs "(fn, arg)"]
    unfolding call_holds_def by (metis deltas_def)
qed

theorem untimeout_removes_one_witness:
  "\<exists>q' q''. timeout coutinit 7 1 3 = Inr q' \<and> untimeout q' 7 1 = Inr q'' \<and> call_holds q'' []"
proof -
  obtain q' where q': "timeout coutinit 7 1 3 = Inr q'"
    using timeout_deltas[OF coutinit_deltas, of 3 3 7 1] by (auto simp: NCALL_def)
  then have "call_holds q' [(3, 7, 1)]" using callout.add_law[OF coutinit_holds q'] by simp
  then show ?thesis using untimeout_removes_one[of q' "[(3, 7, 1)]" 7 1] q' by auto
qed

text \<open>
  C36.  \<open>softclock\<close> terminates and leaves nothing due, whatever callouts the routines it
  runs arrange or cancel (the loop is bounded because a new callout is never due at once);
  the only fault is the overflow panic.  When the routines touch no callouts, it runs
  exactly the due events, in queue order.
\<close>

theorem softclock_runs_everything_due:
  assumes "deltas q xs"
  shows "(softclock_loop call_fuel exec q [] = Inl (Panic ''timeout table overflow'')
      \<or> (\<exists>q' xs' calls. softclock_loop call_fuel exec q [] = Inr (q', calls) \<and> deltas q' xs'
            \<and> (\<forall>r e. (r, e) \<in> set (remaining xs') \<longrightarrow> 0 < r)))
    \<and> (\<exists>q'. softclock_loop call_fuel (\<lambda>_ _. []) q [] =
            Inr (q', map snd (takeWhile (\<lambda>x. fst x \<le> 0) (remaining xs)))
          \<and> call_holds q' (dropWhile (\<lambda>x. fst x \<le> 0) (remaining xs)))"
proof -
  have "length (takeWhile (\<lambda>x. fst x \<le> 0) xs) \<le> length xs" by (rule length_takeWhile_le)
  then have fuel: "ndue xs < call_fuel" using deltas_length[OF assms] by (simp add: ndue_def)
  show ?thesis
    using softclock_loop_deltas[OF assms fuel, of exec "[]"] softclock_loop_inert[OF assms fuel, of "[]"]
      assms remaining_due[of xs] ndue_positive unfolding call_holds_def deltas_def by (metis append_Nil)
qed

text \<open>An event after three ticks, three ticks later.\<close>

theorem softclock_runs_everything_due_witness:
  "\<exists>q1 q2 q3. timeout coutinit 7 1 3 = Inr q1 \<and> callout.ticks 3 q1 = Inr q2
     \<and> softclock_loop call_fuel (\<lambda>_ _. []) q2 [] = Inr (q3, [(7, 1)]) \<and> call_holds q3 []"
proof -
  obtain q1 where q1: "timeout coutinit 7 1 3 = Inr q1"
    using timeout_deltas[OF coutinit_deltas, of 3 3 7 1] by (auto simp: NCALL_def)
  then have "call_holds q1 [(3, 7, 1)]" using callout.add_law[OF coutinit_holds q1] by simp
  then obtain q2 where q2: "callout.ticks 3 q1 = Inr q2" "call_holds q2 (r_tick (int 3) [(3, 7, 1)])"
    using callout.ticks_law by blast
  then obtain xs where xs: "deltas q2 xs" "remaining xs = [(0, 7, 1)]" by (auto simp: call_holds_def r_tick_def)
  show ?thesis using softclock_runs_everything_due[OF xs(1)] q1 q2(1) xs(2) by auto
qed

text \<open>The times are \<open>int\<close>s and stay so through \<open>n\<close> decrements.\<close>

definition times_fit :: "nat \<Rightarrow> callq \<Rightarrow> bool" where
  "times_fit n q \<longleftrightarrow> (\<forall>p. int n - 2147483648 \<le> c_time q p \<and> c_time q p < 2147483648)"

text \<open>
  C37.  Ticks lost to a masked window are made up.  For \<open>n\<close> owed ticks, as long as the numbers fit the \<open>int\<close>s they
  are kept in, \<open>clock_catchup_apply\<close> leaves in one pass the very queue that \<open>n\<close> passes of \<open>hardclock\<close>
  would leave, and the time of day that \<open>n\<close> ticks of \<open>hardclock\<close> give when no \<open>adjtime\<close> correction is
  pending.  When one is, it leaves the correction for later: time of day and outstanding correction
  together are the same as after \<open>n\<close> ticks, but the time of day is not.
\<close>

theorem catchup_equals_hardclocks:
  assumes "call_holds q rs" and "0 \<le> lbolt" and "lbolt < hz" and fits: "lbolt + int n < 2147483648" "times_fit n q"
  shows "\<exists>q' lb s. callout.ticks n q = Inr q' \<and> call_holds q' (r_tick (int n) rs)
    \<and> clock_catchup_apply n hz lbolt sec q = Inr (lb, s, q')
    \<and> (tod_tick hz ^^ n) (0, lbolt, sec) = (0, lb, s)
    \<and> (\<forall>adjdelta. tod_sum hz ((tod_tick hz ^^ n) (adjdelta, lbolt, sec)) = tod_sum hz (adjdelta, lb, s))"
proof -
  obtain xs where xs: "deltas q xs" "rs = remaining xs" using assms(1) by (auto simp: call_holds_def)
  then obtain todo free where rep: "callrep q todo free" unfolding deltas_def by blast
  obtain q' where q': "callout.ticks n q = Inr q'" "call_holds q' (r_tick (int n) rs)"
    using callout.ticks_law[OF assms(1)] by blast
  have "n < 2147483648" using fits(1) assms(2) by simp
  moreover from this have "catchup_walk call_fuel n q (c_next q Todo) 0 = Inr q'"
    using catchup_is_ticks[OF rep, of n] q'(1) fits(2) by (simp add: times_fit_def)
  ultimately have "clock_catchup_apply n hz lbolt sec q = Inr ((lbolt + int n) mod hz, sec + (lbolt + int n) div hz, q')"
    using assms(2,3) by (simp add: clock_catchup_apply_def Let_def cast_int_def)
  moreover have "hz * (sec + (lbolt + int n) div hz) + (lbolt + int n) mod hz = hz * sec + (lbolt + int n)"
    by (simp add: distrib_left)
  ultimately show ?thesis using q' tod_ticks[OF assms(2,3), of n sec] unfolding tod_sum_ticks by (simp add: tod_sum_def)
qed

text \<open>The event of the witness above after two and a half seconds without ticks.\<close>

theorem catchup_equals_hardclocks_witness:
  "\<exists>q q'. timeout coutinit 7 1 3 = Inr q \<and> clock_catchup_apply 2500 1000 999 5 q = Inr (499, 8, q') \<and> call_holds q' [(-2497, 7, 1)]"
proof -
  obtain q where q: "timeout coutinit 7 1 3 = Inr q" "times_fit 2500 q"
    by (auto simp: timeout_def coutinit_def timeout_walk.simps(2) times_fit_def Let_def)
  then have "call_holds q [(3, 7, 1)]" using callout.add_law[OF coutinit_holds q(1)] by simp
  from catchup_equals_hardclocks[OF this _ _ _ q(2), of 999 1000 5] tod_ticks[of 999 1000 2500 5]
  obtain q' where "clock_catchup_apply 2500 1000 999 5 q = Inr (499, 8, q')" "call_holds q' [(-2497, 7, 1)]"
    by (auto simp: r_tick_def)
  then show ?thesis using q(1) by blast
qed

text \<open>
  The lost tick counter never counts a tick twice.  With the microsecond timer at most
  one wrap ahead of the record, \<open>clock_catchup_owed\<close> plus the tick the hardware holds pending is
  the number of whole periods that passed (or the pending tick alone when none passed), the
  record moves by exactly the periods handed out, and a second call at the same instant with the
  same pending bit hands out nothing.
\<close>

theorem catchup_owed_counts_once:
  assumes "armed c" and "0 < tick_us" and "stamp_us c < 4294967296" and "elapsed < 4294967296"
    and "now = u32 (stamp_us c + elapsed)" and "clock_catchup_owed c now pending tick_us = (owed, c')"
  shows "owed + (if pending then 1 else 0) = max (elapsed div tick_us) (if pending then 1 else 0)
    \<and> stamp_us c' = u32 (stamp_us c + owed * tick_us)
    \<and> fst (clock_catchup_owed c' now pending tick_us) = 0"
proof -
  have sub: "usub32 (u32 (s + e)) s = e" if "s < 4294967296" "e < 4294967296" for s e
  proof (cases "s + e < 4294967296")
    case True
    then show ?thesis using that usub32_id[of s "s + e"] by simp
  next
    case False
    then have "u32 (s + e) = s + e - 4294967296" using that
      by (simp add: u32_def mod_if)
    then show ?thesis using that False by (simp add: usub32_def u32_def mod_if)
  qed
  have due: "usub32 now (stamp_us c) div tick_us = elapsed div tick_us" using sub assms(3-5) by simp
  have owed: "owed = elapsed div tick_us - (if pending then 1 else 0)"
    and c': "c' = c\<lparr>stamp_us := u32 (stamp_us c + u32 (owed * tick_us))\<rparr>"
    using assms(1,6) due by (auto simp: clock_catchup_owed_def Let_def)
  have le: "owed * tick_us \<le> elapsed"
    using owed div_times_less_eq_dividend[of elapsed tick_us] mult_le_mono1[of owed "elapsed div tick_us" tick_us]
    by linarith
  have stamp: "stamp_us c' = u32 (stamp_us c + owed * tick_us)" using c' le assms(4) by simp
  have "elapsed = owed * tick_us + (elapsed - owed * tick_us)" using le by simp
  then have "now = u32 (stamp_us c' + (elapsed - owed * tick_us))"
    using assms(5) stamp by (metis add.assoc mod_add_left_eq u32_def)
  then have "usub32 now (stamp_us c') = elapsed - owed * tick_us"
    using sub[of "stamp_us c'" "elapsed - owed * tick_us"] stamp assms(4) by simp
  moreover have "(elapsed - owed * tick_us) div tick_us \<le> (if pending then 1 else 0)"
  proof -
    define d r where "d = elapsed div tick_us" and "r = elapsed mod tick_us"
    have e: "elapsed = d * tick_us + r" "r < tick_us" using assms(2) by (simp_all add: d_def r_def)
    have o: "owed = d - (if pending then 1 else 0)" using owed d_def by simp
    show ?thesis
    proof (cases "pending \<and> 0 < d")
      case True
      then have "elapsed - owed * tick_us = tick_us + r" using e(1) o by (cases d) auto
      moreover have "(tick_us + r) div tick_us = 1" using e(2) by (simp add: div_add_self1)
      ultimately show ?thesis using True by simp
    next
      case False
      then have "elapsed - owed * tick_us = r" using e(1) o by (cases pending) auto
      then show ?thesis using e(2) by simp
    qed
  qed
  ultimately have "fst (clock_catchup_owed c' now pending tick_us) = 0"
    by (auto simp: clock_catchup_owed_def Let_def split: if_splits)
  then show ?thesis using owed stamp by auto
qed

theorem catchup_owed_counts_once_witness:
  "fst (clock_catchup_owed \<lparr>stamp_us = 4294967000, armed = True\<rparr> 4704 True 1000) = 4"
proof -
  let ?c = "\<lparr>stamp_us = 4294967000, armed = True\<rparr>"
  obtain owed c' where call: "clock_catchup_owed ?c 4704 True 1000 = (owed, c')" by force
  have "(4704::nat) = u32 (stamp_us ?c + 5000)" by (simp add: u32_def)
  then show ?thesis using catchup_owed_counts_once[of ?c 1000 5000 4704 True owed c'] call by simp
qed

end
