(* ===== verification/Clist.thy ===== *)
theory Clist
  imports Prelude
begin

text \<open>
  Character lists: \<open>sys/kern/tty_subr.c\<close>, \<open>sys/sys/clist.h\<close>, \<open>struct clist\<close> of \<open>sys/sys/tty.h\<close>
  and \<open>cinit\<close> of \<open>sys/kern/init_main.c\<close>, in the configuration without \<open>CAPACITY_STATS\<close>, in which
  \<open>capacity_note\<close> is empty.

  A block (\<open>struct cblock\<close>) is 32 bytes, aligned to its size: a 4 byte link and 28
  characters.  A block is its address; \<open>c_next\<close> maps block addresses to links and \<open>c_info\<close>
  maps byte addresses to characters.  A \<open>char *\<close> is a byte address, 0 for the null pointer; the
  code's masking with \<open>CROUND\<close> is \<open>mod 32\<close> on it.  The pointer expression
  \<open>bp->c_next->c_info\<close> of a null link only computes an address (4), as in C.

  \<open>clist_rep m fl q bs xs\<close> says that \<open>fl\<close> are the free blocks, \<open>bs\<close> the blocks of the list \<open>q\<close>
  and \<open>xs\<close> the characters queued in it.  Every operation is proved to act on \<open>xs\<close> as its
  comment says, to move blocks between \<open>fl\<close> and \<open>bs\<close> only, and to write nowhere else.
\<close>

section \<open>The data\<close>

record cmem =
  c_next :: "nat \<Rightarrow> nat option"
  c_info :: "nat \<Rightarrow> nat"
  cfreelist :: "nat option"
  cfreecount :: nat
  cwaiting :: bool
  woken :: nat

record clist =
  c_cc :: int
  c_cf :: nat
  c_cl :: nat

definition cround_down :: "nat \<Rightarrow> nat" where
  "cround_down a = a div 32 * 32"

definition next_info :: "cmem \<Rightarrow> nat \<Rightarrow> nat" where
  "next_info m bp = (case c_next m bp of None \<Rightarrow> 4 | Some n \<Rightarrow> n + 4)"

text \<open>
  Return a block to the free list.  \<open>getc\<close>, \<open>q_to_b\<close> and \<open>ndflush\<close> also wake who waits for
  blocks; \<open>woken\<close> counts the calls of \<open>wakeup (&cwaiting)\<close>.
\<close>

definition put_block :: "cmem \<Rightarrow> nat \<Rightarrow> cmem" where
  "put_block m bp = m\<lparr>c_next := (c_next m)(bp := cfreelist m), cfreelist := Some bp,
     cfreecount := cfreecount m + 28\<rparr>"

definition free_block :: "cmem \<Rightarrow> nat \<Rightarrow> cmem" where
  "free_block m bp = (let m' = put_block m bp in
     if cwaiting m' then m'\<lparr>woken := Suc (woken m'), cwaiting := False\<rparr> else m')"

section \<open>The operations\<close>

text \<open>\<open>cinit\<close> pushes the blocks from the aligned address of \<open>cfree\<close> to \<open>cfree[NCLIST - 1]\<close>.\<close>

function cinit_loop :: "nat \<Rightarrow> nat \<Rightarrow> cmem \<Rightarrow> cmem" where
  "cinit_loop stop cp m = (if cp \<le> stop then cinit_loop stop (cp + 32) (put_block m cp) else m)"
  by pat_completeness auto
termination
  by (relation "measure (\<lambda>(stop, cp, m). Suc stop - cp)") auto

definition cinit :: "nat \<Rightarrow> cmem \<Rightarrow> cmem" where
  "cinit cfree m = cinit_loop (cfree + (32 - 1) * 32) (cround_down (cfree + 31)) m"

text \<open>
  The code \<open>getc\<close> and \<open>q_to_b\<close> share: the last character is gone, or the first block is used
  up.
\<close>

definition front_empty :: "cmem \<Rightarrow> clist \<Rightarrow> cmem \<times> clist" where
  "front_empty m q = (free_block m (cround_down (c_cf q - 1)), q\<lparr>c_cf := 0, c_cl := 0\<rparr>)"

definition front_next :: "cmem \<Rightarrow> clist \<Rightarrow> cmem \<times> clist" where
  "front_next m q = (let bp = c_cf q - 32 in (free_block m bp, q\<lparr>c_cf := next_info m bp\<rparr>))"

definition getc :: "cmem \<Rightarrow> clist \<Rightarrow> int \<times> cmem \<times> clist" where
  "getc m p =
     (if c_cc p \<le> 0 then (-1, m, p\<lparr>c_cc := 0, c_cf := 0, c_cl := 0\<rparr>)
      else
        let c = int (c_info m (c_cf p) mod 256);
            p1 = p\<lparr>c_cf := c_cf p + 1, c_cc := c_cc p - 1\<rparr>
        in if c_cc p1 \<le> 0 then (c, front_empty m p1)
           else if c_cf p1 mod 32 = 0 then (c, front_next m p1)
           else (c, m, p1))"

text \<open>\<open>bcopy\<close> from the list: \<open>n\<close> characters at \<open>a\<close>; and into it.\<close>

definition bcopy_out :: "cmem \<Rightarrow> nat \<Rightarrow> nat \<Rightarrow> nat list" where
  "bcopy_out m a n = map (c_info m) [a ..< a + n]"

definition bcopy_in :: "cmem \<Rightarrow> nat \<Rightarrow> nat list \<Rightarrow> cmem" where
  "bcopy_in m a ys = m\<lparr>c_info := (\<lambda>x. if a \<le> x \<and> x < a + length ys then ys ! (x - a) else c_info m x)\<rparr>"

text \<open>How many characters one round of \<open>q_to_b\<close> moves, and one of \<open>b_to_q\<close>.\<close>

definition q_chunk :: "clist \<Rightarrow> nat \<Rightarrow> nat" where
  "q_chunk q cc = min (min (32 - c_cf q mod 32) cc) (nat (c_cc q))"

definition b_chunk :: "nat \<Rightarrow> nat list \<Rightarrow> nat" where
  "b_chunk cq cp = min (length cp) (32 - cq mod 32)"

function q_to_b_loop :: "cmem \<Rightarrow> clist \<Rightarrow> nat list \<Rightarrow> nat \<Rightarrow> (nat list \<times> cmem \<times> clist) res" where
  "q_to_b_loop m q buf cc =
     (if cc = 0 then Inr (buf, m, q)
      else if q_chunk q cc = 0 then Inl Hang
      else
        let nc = q_chunk q cc;
            buf' = buf @ bcopy_out m (c_cf q) nc;
            q1 = q\<lparr>c_cf := c_cf q + nc, c_cc := c_cc q - int nc\<rparr>
        in if c_cc q1 \<le> 0 then Inr (buf', front_empty m q1)
           else if c_cf q1 mod 32 = 0
           then q_to_b_loop (fst (front_next m q1)) (snd (front_next m q1)) buf' (cc - nc)
           else q_to_b_loop m q1 buf' (cc - nc))"
  by pat_completeness auto
termination
  by (relation "measure (\<lambda>(m, q, buf, cc). cc)") auto

text \<open>The result lists the characters moved into the caller's buffer.\<close>

definition q_to_b :: "cmem \<Rightarrow> clist \<Rightarrow> int \<Rightarrow> (nat list \<times> cmem \<times> clist) res" where
  "q_to_b m q cc =
     (if cc \<le> 0 then Inr ([], m, q)
      else if c_cc q \<le> 0 then Inr ([], m, q\<lparr>c_cc := 0, c_cf := 0, c_cl := 0\<rparr>)
      else q_to_b_loop m q [] (nat cc))"

fun ndqb_scan :: "cmem \<Rightarrow> nat \<Rightarrow> nat \<Rightarrow> nat \<Rightarrow> nat option" where
  "ndqb_scan m flag p 0 = None"
| "ndqb_scan m flag p (Suc n) =
     (if and (c_info m p) flag \<noteq> 0 then Some p else ndqb_scan m flag (Suc p) n)"

definition ndqb :: "cmem \<Rightarrow> clist \<Rightarrow> nat \<Rightarrow> int" where
  "ndqb m q flag =
     (if c_cc q \<le> 0 then - c_cc q
      else
        let cc = int (cround_down (c_cf q + 28)) - int (c_cf q);
            cc = (if c_cc q < cc then c_cc q else cc)
        in if flag \<noteq> 0 then
             (case ndqb_scan m flag (c_cf q) (nat cc) of
                None \<Rightarrow> cc
              | Some p \<Rightarrow> int (p - c_cf q))
           else cc)"

text \<open>The loop of \<open>ndflush\<close>; the fuel bounds the number of blocks.\<close>

fun ndflush_loop :: "nat \<Rightarrow> cmem \<Rightarrow> clist \<Rightarrow> int \<Rightarrow> (cmem \<times> clist) res" where
  "ndflush_loop 0 m q cc = Inl Hang"
| "ndflush_loop (Suc fuel) m q cc =
     (if 0 < cc \<and> c_cc q \<noteq> 0 then
        let bp = cround_down (c_cf q);
            stop = (if bp = cround_down (c_cl q - 1) then c_cl q else bp + 32);
            rem = int stop - int (c_cf q)
        in if rem \<le> cc then
             ndflush_loop fuel (free_block m bp)
               (q\<lparr>c_cc := c_cc q - rem, c_cf := next_info m bp\<rparr>) (cc - rem)
           else
             let q1 = q\<lparr>c_cc := c_cc q - cc, c_cf := nat (int (c_cf q) + cc)\<rparr>
             in Inr (if c_cc q1 \<le> 0 then free_block m bp else m, q1)
      else Inr (m, q))"

definition ndflush :: "cmem \<Rightarrow> clist \<Rightarrow> int \<Rightarrow> (cmem \<times> clist) res" where
  "ndflush m q cc =
     (if c_cc q \<le> 0 then Inr (m, q)
      else andthen (ndflush_loop 33 m q cc) (\<lambda>(m', q').
        Inr (m', if c_cc q' \<le> 0 then q'\<lparr>c_cf := 0, c_cl := 0, c_cc := 0\<rparr> else q')))"

text \<open>
  Take a block off the free list: for an empty list, and behind the full block \<open>bp\<close>.  The
  answer is the address of its first character.
\<close>

definition first_block :: "cmem \<Rightarrow> (nat \<times> cmem) option" where
  "first_block m = (case cfreelist m of
       None \<Rightarrow> None
     | Some bp \<Rightarrow> Some (bp + 4, m\<lparr>cfreelist := c_next m bp, cfreecount := cfreecount m - 28,
                                  c_next := (c_next m)(bp := None)\<rparr>))"

definition more_block :: "cmem \<Rightarrow> nat \<Rightarrow> (nat \<times> cmem) option \<times> cmem" where
  "more_block m bp =
     (let m1 = m\<lparr>c_next := (c_next m)(bp := cfreelist m)\<rparr> in
      case cfreelist m of
        None \<Rightarrow> (None, m1)
      | Some n \<Rightarrow> (Some (n + 4, m1\<lparr>cfreelist := c_next m1 n, cfreecount := cfreecount m1 - 28,
                                   c_next := (c_next m1)(n := None)\<rparr>), m1))"

definition putc :: "cmem \<Rightarrow> nat \<Rightarrow> clist \<Rightarrow> int \<times> cmem \<times> clist" where
  "putc m c p =
     (let store = (\<lambda>m cp p. (0, bcopy_in m cp [c mod 256], p\<lparr>c_cl := cp + 1, c_cc := c_cc p + 1\<rparr>)) in
      if c_cl p = 0 \<or> c_cc p < 0 then
        (case first_block m of
           None \<Rightarrow> (-1, m, p)
         | Some (cp, m') \<Rightarrow> store m' cp (p\<lparr>c_cf := cp\<rparr>))
      else if c_cl p mod 32 = 0 then
        (case more_block m (c_cl p - 32) of
           (None, m') \<Rightarrow> (-1, m', p)
         | (Some (cp, m'), _) \<Rightarrow> store m' cp p)
      else store m (c_cl p) p)"

text \<open>The loop of \<open>b_to_q\<close>: the characters left over, the memory, and \<open>cq\<close>.\<close>

function b_to_q_loop :: "cmem \<Rightarrow> nat \<Rightarrow> nat list \<Rightarrow> (nat list \<times> cmem \<times> nat) res" where
  "b_to_q_loop m cq cp =
     (if cp = [] then Inr ([], m, cq)
      else case (if cq mod 32 = 0 then more_block m (cq - 32) else (Some (cq, m), m)) of
        (None, m') \<Rightarrow> Inr (cp, m', cq)
      | (Some (cq', m'), _) \<Rightarrow>
          let nc = b_chunk cq' cp in
          if nc = 0 then Inl Hang
          else b_to_q_loop (bcopy_in m' cq' (take nc cp)) (cq' + nc) (drop nc cp))"
  by pat_completeness auto
termination
  by (relation "measure (\<lambda>(m, cq, cp). length cp)") auto

text \<open>The result is the number of characters not transferred.\<close>

definition b_to_q :: "cmem \<Rightarrow> nat list \<Rightarrow> clist \<Rightarrow> (int \<times> cmem \<times> clist) res" where
  "b_to_q m cp q =
     (if cp = [] then Inr (0, m, q)
      else case (if c_cl q = 0 \<or> c_cc q < 0
                 then map_option (\<lambda>(cq, m'). (cq, m', q\<lparr>c_cf := cq\<rparr>)) (first_block m)
                 else Some (c_cl q, m, q)) of
        None \<Rightarrow> Inr (int (length cp), m, q\<lparr>c_cl := c_cl q, c_cc := c_cc q + 0\<rparr>)
      | Some (cq, m1, q1) \<Rightarrow>
          andthen (b_to_q_loop m1 cq cp) (\<lambda>(rest, m2, cq').
            Inr (int (length rest), m2,
                 q1\<lparr>c_cl := cq', c_cc := c_cc q1 + int (length cp) - int (length rest)\<rparr>)))"

definition nextc :: "cmem \<Rightarrow> clist \<Rightarrow> nat \<Rightarrow> nat" where
  "nextc m p cp =
     (if c_cc p \<noteq> 0 \<and> cp + 1 \<noteq> c_cl p
      then if (cp + 1) mod 32 = 0 then next_info m (cp + 1 - 32) else cp + 1
      else 0)"

fun unputc_walk :: "nat \<Rightarrow> cmem \<Rightarrow> nat \<Rightarrow> nat \<Rightarrow> nat res" where
  "unputc_walk 0 m bp target = Inl Hang"
| "unputc_walk (Suc fuel) m bp target =
     (if c_next m bp = Some target then Inr bp
      else case c_next m bp of None \<Rightarrow> Inl Wild | Some n \<Rightarrow> unputc_walk fuel m n target)"

definition unputc :: "cmem \<Rightarrow> clist \<Rightarrow> (int \<times> cmem \<times> clist) res" where
  "unputc m p =
     (if c_cc p \<le> 0 then Inr (-1, m, p)
      else
        let p1 = p\<lparr>c_cl := c_cl p - 1, c_cc := c_cc p - 1\<rparr>;
            c = int (c_info m (c_cl p1) mod 256)
        in if c_cc p1 \<le> 0 then
             Inr (c, put_block m (cround_down (c_cl p1)), p1\<lparr>c_cl := 0, c_cf := 0\<rparr>)
           else if c_cl p1 mod 32 = 4 then
             let lb = cround_down (c_cl p1) in
             andthen (unputc_walk 33 m (cround_down (c_cf p1)) lb) (\<lambda>obp.
               let m1 = put_block m lb
               in Inr (c, m1\<lparr>c_next := (c_next m1)(obp := None)\<rparr>, p1\<lparr>c_cl := obp + 32\<rparr>))
           else Inr (c, m, p1))"

text \<open>The copying loop of \<open>catq\<close>, with its buffer of \<open>CBSIZE*4\<close> characters.\<close>

fun catq_loop :: "nat \<Rightarrow> cmem \<Rightarrow> clist \<Rightarrow> clist \<Rightarrow> (cmem \<times> clist \<times> clist) res" where
  "catq_loop 0 m from_q to_q = Inl Hang"
| "catq_loop (Suc fuel) m from_q to_q =
     (if 0 < c_cc from_q then
        andthen (q_to_b m from_q 112) (\<lambda>(buf, m1, from1).
          andthen (b_to_q m1 buf to_q) (\<lambda>(_, m2, to2).
            catq_loop fuel m2 from1 to2))
      else Inr (m, from_q, to_q))"

definition catq :: "cmem \<Rightarrow> clist \<Rightarrow> clist \<Rightarrow> (cmem \<times> clist \<times> clist) res" where
  "catq m from_q to_q =
     (if c_cc to_q = 0 then Inr (m, from_q\<lparr>c_cc := 0, c_cf := 0, c_cl := 0\<rparr>, from_q)
      else catq_loop (Suc (nat (c_cc from_q))) m from_q to_q)"

declare cinit_loop.simps [simp del] q_to_b_loop.simps [simp del] b_to_q_loop.simps [simp del] ndflush_loop.simps(2) [simp del]
  unputc_walk.simps(2) [simp del] catq_loop.simps(2) [simp del]

section \<open>What a list holds\<close>

definition blk :: "nat \<Rightarrow> bool" where
  "blk b \<longleftrightarrow> 32 dvd b \<and> 0 < b"

text \<open>
  The characters start at \<open>f\<close> in the first block and end before \<open>l\<close> in the last one; the
  blocks between are full.
\<close>

fun cshape :: "nat \<Rightarrow> nat \<Rightarrow> nat list \<Rightarrow> bool" where
  "cshape f l [] \<longleftrightarrow> False"
| "cshape f l [b] \<longleftrightarrow> b + 4 \<le> f \<and> f < l \<and> l \<le> b + 32"
| "cshape f l (b # b' # bs) \<longleftrightarrow> b + 4 \<le> f \<and> f < b + 32 \<and> cshape (b' + 4) l (b' # bs)"

fun cbytes :: "(nat \<Rightarrow> nat) \<Rightarrow> nat \<Rightarrow> nat \<Rightarrow> nat list \<Rightarrow> nat list" where
  "cbytes mem f l [] = []"
| "cbytes mem f l [b] = map mem [f ..< l]"
| "cbytes mem f l (b # b' # bs) = map mem [f ..< b + 32] @ cbytes mem (b' + 4) l (b' # bs)"

definition clist_rep :: "cmem \<Rightarrow> nat list \<Rightarrow> clist \<Rightarrow> nat list \<Rightarrow> nat list \<Rightarrow> bool" where
  "clist_rep m fl q bs xs \<longleftrightarrow>
     chain (c_next m) (cfreelist m) fl \<and> cfreecount m = 28 * length fl
     \<and> distinct (fl @ bs) \<and> list_all blk (fl @ bs) \<and> c_cc q = int (length xs)
     \<and> (if bs = [] then c_cf q = 0 \<and> c_cl q = 0 \<and> xs = []
        else chain (c_next m) (Some (hd bs)) bs \<and> cshape (c_cf q) (c_cl q) bs
          \<and> xs = cbytes (c_info m) (c_cf q) (c_cl q) bs)"

lemma cshape_first: "cshape f l (b # bs) \<Longrightarrow> b + 4 \<le> f \<and> f < b + 32"
  by (cases bs) auto

lemma cshape_last: "cshape f l bs \<Longrightarrow> last bs + 4 < l \<and> l \<le> last bs + 32"
  by (induction f l bs rule: cshape.induct) auto

lemma cbytes_pos: "cshape f l bs \<Longrightarrow> cbytes mem f l bs \<noteq> []"
  by (induction mem f l bs rule: cbytes.induct) auto

lemma blk_round:
  assumes "blk b" and "b \<le> a" and "a < b + 32"
  shows "cround_down a = b"
proof -
  obtain k where k: "b = 32 * k" using assms(1) by (auto simp: blk_def)
  then have "a div 32 = k" using assms(2,3) by (intro div_nat_eqI) auto
  then show ?thesis by (simp add: cround_down_def k)
qed

lemma blk_mod:
  assumes "blk b" and "b \<le> a" and "a < b + 32"
  shows "a mod 32 = a - b"
proof -
  have "a = a div 32 * 32 + a mod 32" by simp
  then show ?thesis using blk_round[OF assms] unfolding cround_down_def by linarith
qed

lemma blk_end: "blk b \<Longrightarrow> (b + 32) mod 32 = 0"
  by (auto simp: blk_def)

lemma blk_apart:
  assumes "blk b" and "blk b'" and "b \<noteq> b'"
  shows "b + 32 \<le> b' \<or> b' + 32 \<le> b"
proof -
  obtain j where j: "b = 32 * j" using assms(1) by (auto simp: blk_def)
  obtain k where k: "b' = 32 * k" using assms(2) by (auto simp: blk_def)
  show ?thesis using assms(3) j k by (cases "j < k") auto
qed

lemma upt_split: "i \<le> j \<Longrightarrow> j \<le> k \<Longrightarrow> [i ..< k] = [i ..< j] @ [j ..< k]"
  using upt_add_eq_append[of i j "k - j"] by simp

text \<open>Memory is only read inside the blocks.\<close>

lemma cbytes_cong:
  assumes "cshape f l bs" and "\<And>b x. b \<in> set bs \<Longrightarrow> b + 4 \<le> x \<Longrightarrow> x < b + 32 \<Longrightarrow> mem x = mem' x"
  shows "cbytes mem f l bs = cbytes mem' f l bs"
  using assms
proof (induction mem f l bs rule: cbytes.induct)
  case (3 mem f l b b' bs)
  have "map mem [f ..< b + 32] = map mem' [f ..< b + 32]" using 3(2) 3(3)[of b] by auto
  moreover have "cbytes mem (b' + 4) l (b' # bs) = cbytes mem' (b' + 4) l (b' # bs)"
    by (rule 3(1)) (use 3(2,3) in auto)
  ultimately show ?case by simp
qed auto

text \<open>Taking characters from the front.\<close>

definition front_room :: "nat \<Rightarrow> nat list \<Rightarrow> nat" where
  "front_room l bs = (case bs of [b] \<Rightarrow> l | b # _ \<Rightarrow> b + 32 | [] \<Rightarrow> 0)"

lemma cbytes_front:
  assumes "cshape f l (b # bs)" and "f + n \<le> front_room l (b # bs)"
  shows "cbytes mem f l (b # bs) = map mem [f ..< f + n] @
    (if f + n = front_room l (b # bs) then (if bs = [] then [] else cbytes mem (hd bs + 4) l bs)
     else cbytes mem (f + n) l (b # bs))"
proof (cases bs)
  case Nil
  have "[f ..< l] = [f ..< f + n] @ [f + n ..< l]"
    using assms Nil by (intro upt_split) (auto simp: front_room_def)
  then show ?thesis using Nil by (simp add: front_room_def)
next
  case (Cons b' bs')
  have "[f ..< b + 32] = [f ..< f + n] @ [f + n ..< b + 32]"
    using assms Cons by (intro upt_split) (auto simp: front_room_def)
  then show ?thesis using Cons by (auto simp: front_room_def)
qed

lemma cshape_front:
  assumes "cshape f l (b # bs)" and "f + n < front_room l (b # bs)"
  shows "cshape (f + n) l (b # bs)"
  using assms by (cases bs) (auto simp: front_room_def)

text \<open>Appending characters at the end.\<close>

lemma cbytes_append:
  assumes "cshape f l bs" and "distinct bs" and "list_all blk bs" and "l + length ys \<le> last bs + 32"
    and "\<forall>x. mem' x = (if l \<le> x \<and> x < l + length ys then ys ! (x - l) else mem x)"
  shows "cbytes mem' f (l + length ys) bs = cbytes mem f l bs @ ys \<and> cshape f (l + length ys) bs"
  using assms
proof (induction f l bs rule: cshape.induct)
  case (2 f l b)
  note mem' = 2(5)
  have "map mem' [f ..< l] = map mem [f ..< l]" by (auto simp: mem')
  moreover have "map mem' [l ..< l + length ys] = ys" using mem' by (intro nth_equalityI) auto
  moreover have "[f ..< l + length ys] = [f ..< l] @ [l ..< l + length ys]"
    using 2 by (intro upt_split) auto
  ultimately show ?case using 2(1-4) by simp
next
  case (3 f l b b' bs)
  note mem' = 3(6)
  have l: "last (b' # bs) + 4 < l" "l \<le> last (b' # bs) + 32" using cshape_last[of "b' + 4" l "b' # bs"] 3(2) by simp_all
  have inb: "last (b' # bs) \<in> set (b' # bs)" by (rule last_in_set) simp
  have "last (b' # bs) \<noteq> b" using 3(3) inb by (metis distinct.simps(2))
  moreover have "blk (last (b' # bs))" using 3(4) list.set_intros(2)[OF inb] unfolding list_all_iff by blast
  ultimately have "b + 32 \<le> last (b' # bs) \<or> last (b' # bs) + 32 \<le> b" using blk_apart 3(4) by auto
  then have "map mem' [f ..< b + 32] = map mem [f ..< b + 32]" using mem' 3(2,5) l by auto
  then show ?case using 3 by simp
qed simp

lemma cbytes_snoc:
  assumes "cshape f l bs" and "l = last bs + 32" and "nb + 4 < l'" and "l' \<le> nb + 32"
  shows "cbytes mem f l' (bs @ [nb]) = cbytes mem f l bs @ map mem [nb + 4 ..< l'] \<and> cshape f l' (bs @ [nb])"
  using assms by (induction mem f l bs rule: cbytes.induct) auto

text \<open>Taking the last character.\<close>

lemma cbytes_butlast:
  assumes "cshape f l bs" and "f < l - 1 \<or> 1 < length bs" and "last bs + 4 < l - 1"
  shows "cbytes mem f l bs = cbytes mem f (l - 1) bs @ [mem (l - 1)] \<and> cshape f (l - 1) bs"
  using assms
proof (induction mem f l bs rule: cbytes.induct)
  case (2 mem f l b)
  then have "[f ..< l] = [f ..< l - 1] @ [l - 1]" by (cases l) auto
  then show ?case using 2 by auto
next
  case (3 mem f l b b' bs)
  show ?case
  proof (cases bs)
    case Nil
    then have "[b' + 4 ..< l] = [b' + 4 ..< l - 1] @ [l - 1]" using 3 by (cases l) auto
    then show ?thesis using 3 Nil by auto
  next
    case (Cons c cs)
    then show ?thesis using 3 by auto
  qed
qed simp

lemma cbytes_drop_last:
  assumes "cshape f l (bs @ [lb])" and "bs \<noteq> []" and "l = lb + 5"
  shows "cbytes mem f l (bs @ [lb]) = cbytes mem f (last bs + 32) bs @ [mem (lb + 4)] \<and> cshape f (last bs + 32) bs"
proof -
  have "[lb + 4 ..< lb + 5] = [lb + 4]" by (simp add: upt_rec)
  then show ?thesis using assms by (induction mem f l bs rule: cbytes.induct) auto
qed

section \<open>The operations act on the characters\<close>

text \<open>Only the blocks in \<open>B\<close> are written, and of them only links and character cells.\<close>

definition cframe :: "nat set \<Rightarrow> cmem \<Rightarrow> cmem \<Rightarrow> bool" where
  "cframe B m m' \<longleftrightarrow> (\<forall>b. b \<notin> B \<longrightarrow> c_next m' b = c_next m b)
     \<and> (\<forall>x. (\<forall>b \<in> B. \<not> (b + 4 \<le> x \<and> x < b + 32)) \<longrightarrow> c_info m' x = c_info m x)"

lemma cframe_refl [simp]: "cframe B m m"
  by (simp add: cframe_def)

lemma cframe_trans: "cframe B m m' \<Longrightarrow> cframe B m' m'' \<Longrightarrow> cframe B m m''"
  by (simp add: cframe_def)

lemma free_block_fields:
  "c_next (free_block m b) = (c_next m)(b := cfreelist m)" "cfreelist (free_block m b) = Some b"
  "cfreecount (free_block m b) = cfreecount m + 28" "c_info (free_block m b) = c_info m"
  by (simp_all add: free_block_def put_block_def Let_def)

lemma put_block_fields:
  "c_next (put_block m b) = (c_next m)(b := cfreelist m)" "cfreelist (put_block m b) = Some b"
  "cfreecount (put_block m b) = cfreecount m + 28" "c_info (put_block m b) = c_info m"
  by (simp_all add: put_block_def)

lemma clist_rep_empty: "clist_rep m fl q bs xs \<Longrightarrow> bs = [] \<longleftrightarrow> xs = []"
  by (auto simp: clist_rep_def cbytes_pos split: if_splits)

lemma clist_rep_cons:
  "clist_rep m fl q (b # bs) xs \<longleftrightarrow>
     chain (c_next m) (cfreelist m) fl \<and> cfreecount m = 28 * length fl \<and> distinct (fl @ b # bs)
     \<and> list_all blk (fl @ b # bs) \<and> c_cc q = int (length xs) \<and> chain (c_next m) (c_next m b) bs
     \<and> cshape (c_cf q) (c_cl q) (b # bs) \<and> xs = cbytes (c_info m) (c_cf q) (c_cl q) (b # bs)"
  by (auto simp: clist_rep_def)

text \<open>A block that is used up goes back to the free list.\<close>

lemma drop_block:
  assumes "clist_rep m fl q (b # bs) xs" and "bs \<noteq> []"
    and "c_next m' = (c_next m)(b := cfreelist m)" "cfreelist m' = Some b"
      "cfreecount m' = cfreecount m + 28" "c_info m' = c_info m"
    and "c_cf q' = hd bs + 4" "c_cl q' = c_cl q" "c_cc q' = int (length (cbytes (c_info m) (hd bs + 4) (c_cl q) bs))"
  shows "clist_rep m' (b # fl) q' bs (cbytes (c_info m) (hd bs + 4) (c_cl q) bs)"
proof -
  obtain b' bs' where bs: "bs = b' # bs'" using assms(2) by (cases bs) auto
  have r: "chain (c_next m) (cfreelist m) fl" "distinct (fl @ b # bs)" "list_all blk (fl @ b # bs)"
    "chain (c_next m) (c_next m b) bs" "cshape (c_cf q) (c_cl q) (b # bs)" "cfreecount m = 28 * length fl"
    using assms(1) by (simp_all add: clist_rep_cons)
  have "chain (c_next m') (cfreelist m) fl" "chain (c_next m') (c_next m b') bs'" "b' \<noteq> b"
    using r(1,2,4) bs by (auto simp: assms(3) chain_frame)
  then show ?thesis using r bs assms(3-9) by (auto simp: clist_rep_cons)
qed

text \<open>Consuming \<open>n\<close> characters inside the first block, as \<open>getc\<close> and \<open>q_to_b\<close> do.\<close>

definition consume :: "cmem \<Rightarrow> clist \<Rightarrow> cmem \<times> clist" where
  "consume m q1 = (if c_cc q1 \<le> 0 then front_empty m q1
     else if c_cf q1 mod 32 = 0 then front_next m q1 else (m, q1))"

lemma front_step:
  assumes rep: "clist_rep m fl q (b # bs) xs" and n: "0 < n" "c_cf q + n \<le> front_room (c_cl q) (b # bs)"
    and q1: "q1 = q\<lparr>c_cf := c_cf q + n, c_cc := c_cc q - int n\<rparr>" and res: "consume m q1 = (m', q')"
  shows "map (c_info m) [c_cf q ..< c_cf q + n] = take n xs
    \<and> (\<exists>fl' bs'. clist_rep m' fl' q' bs' (drop n xs) \<and> set (fl' @ bs') = set (fl @ b # bs)
        \<and> cframe (set (fl @ b # bs)) m m' \<and> c_info m' = c_info m \<and> length fl \<le> length fl')"
proof -
  have r: "chain (c_next m) (cfreelist m) fl" "distinct (fl @ b # bs)" "list_all blk (fl @ b # bs)"
    "chain (c_next m) (c_next m b) bs" "cshape (c_cf q) (c_cl q) (b # bs)" "cfreecount m = 28 * length fl"
    "c_cc q = int (length xs)" "xs = cbytes (c_info m) (c_cf q) (c_cl q) (b # bs)"
    using rep by (simp_all add: clist_rep_cons)
  have f: "b + 4 \<le> c_cf q" "c_cf q < b + 32" "blk b" using cshape_first[OF r(5)] r(3) by auto
  have room: "front_room (c_cl q) (b # bs) \<le> b + 32" using r(5) by (cases bs) (auto simp: front_room_def)
  note fr = cbytes_front[OF r(5) n(2), of "c_info m"]
  have take: "map (c_info m) [c_cf q ..< c_cf q + n] = take n xs"
    and drop: "drop n xs = (if c_cf q + n = front_room (c_cl q) (b # bs)
      then (if bs = [] then [] else cbytes (c_info m) (hd bs + 4) (c_cl q) bs)
      else cbytes (c_info m) (c_cf q + n) (c_cl q) (b # bs))"
    unfolding r(8) fr by simp_all
  have len: "n \<le> length xs" using arg_cong[OF take, of length] by simp
  have cc: "c_cc q1 = int (length (drop n xs))" using q1 r(7) len by simp
  have "\<exists>fl' bs'. clist_rep m' fl' q' bs' (drop n xs) \<and> set (fl' @ bs') = set (fl @ b # bs)
        \<and> cframe (set (fl @ b # bs)) m m' \<and> c_info m' = c_info m \<and> length fl \<le> length fl'"
  proof (cases "c_cf q + n = front_room (c_cl q) (b # bs)")
    case True
    show ?thesis
    proof (cases "bs = []")
      case empty: True
      have "cround_down (c_cf q1 - 1) = b" using f n room q1 True by (intro blk_round) auto
      then have m': "m' = free_block m b" "q' = q1\<lparr>c_cf := 0, c_cl := 0\<rparr>"
        using res cc drop True empty by (auto simp: consume_def front_empty_def)
      have "clist_rep m' (b # fl) q' [] []"
        using r empty cc drop True by (auto simp: clist_rep_def m' free_block_fields chain_frame)
      then show ?thesis using drop True empty r(2)
        by (intro exI[of _ "b # fl"] exI[of _ "[]"]) (auto simp: cframe_def m' free_block_fields)
    next
      case more: False
      have stop: "c_cf q + n = b + 32" using True more by (cases bs) (auto simp: front_room_def)
      obtain b' bs' where bs: "bs = b' # bs'" using more by (cases bs) auto
      have "0 < c_cc q1" using cc drop True more r(5) bs cbytes_pos[of "b' + 4" "c_cl q" bs "c_info m"] by auto
      moreover have "c_cf q1 mod 32 = 0" using stop q1 blk_end[OF f(3)] by simp
      moreover have "next_info m b = hd bs + 4" using r(4) bs by (simp add: next_info_def)
      ultimately have m': "m' = free_block m b" "q' = q1\<lparr>c_cf := hd bs + 4\<rparr>"
        using res stop q1 by (auto simp: consume_def front_next_def Let_def)
      have "clist_rep m' (b # fl) q' bs (drop n xs)"
        using drop_block[OF rep more, of m' q'] drop True more cc q1 by (simp add: m' free_block_fields)
      then show ?thesis using r(2)
        by (intro exI[of _ "b # fl"] exI[of _ bs]) (auto simp: cframe_def m' free_block_fields)
    qed
  next
    case False
    then have lt: "c_cf q + n < front_room (c_cl q) (b # bs)" using n(2) by simp
    note sh = cshape_front[OF r(5) lt]
    have "0 < c_cc q1" using cc drop False cbytes_pos[OF sh, of "c_info m"] by auto
    moreover have "c_cf q1 mod 32 \<noteq> 0" using blk_mod[OF f(3), of "c_cf q + n"] f lt room q1 by simp
    ultimately have m': "m' = m" "q' = q1" using res by (auto simp: consume_def)
    then have "clist_rep m' fl q' (b # bs) (drop n xs)"
      using r sh drop False cc q1 by (simp add: clist_rep_cons)
    then show ?thesis using m' by (intro exI[of _ fl] exI[of _ "b # bs"]) simp
  qed
  then show ?thesis using take by blast
qed

lemma getc_refines:
  assumes "clist_rep m fl q bs xs"
  shows "case xs of
      [] \<Rightarrow> getc m q = (-1, m, q)
    | x # ys \<Rightarrow> \<exists>m' q' fl' bs'. getc m q = (int (x mod 256), m', q') \<and> clist_rep m' fl' q' bs' ys
        \<and> set (fl' @ bs') = set (fl @ bs) \<and> cframe (set (fl @ bs)) m m'"
proof (cases xs)
  case Nil
  then have "bs = []" using clist_rep_empty[OF assms] by simp
  then show ?thesis using assms Nil by (simp add: getc_def clist_rep_def)
next
  case (Cons x ys)
  then obtain b bs' where bs: "bs = b # bs'" using clist_rep_empty[OF assms] by (cases bs) auto
  note rep = assms[unfolded bs]
  have sh: "cshape (c_cf q) (c_cl q) (b # bs')" and cc: "c_cc q = int (length xs)" using rep by (simp_all add: clist_rep_cons)
  have room: "c_cf q + 1 \<le> front_room (c_cl q) (b # bs')" using sh by (cases bs') (auto simp: front_room_def)
  define q1 where "q1 = q\<lparr>c_cf := c_cf q + 1, c_cc := c_cc q - int 1\<rparr>"
  obtain m' q' where c: "consume m q1 = (m', q')" by force
  note st = front_step[OF rep _ room q1_def c]
  have "c_info m (c_cf q) = x" using st Cons by simp
  moreover have "getc m q = (int (c_info m (c_cf q) mod 256), consume m q1)"
    using cc Cons by (simp add: getc_def consume_def q1_def Let_def)
  ultimately show ?thesis using st c Cons bs by auto
qed

lemma q_chunk_room:
  assumes "clist_rep m fl q (b # bs) xs" and "0 < cc"
  shows "0 < q_chunk q cc" "c_cf q + q_chunk q cc \<le> front_room (c_cl q) (b # bs)" "q_chunk q cc \<le> cc"
proof -
  have r: "cshape (c_cf q) (c_cl q) (b # bs)" "c_cc q = int (length xs)" "blk b"
    "xs = cbytes (c_info m) (c_cf q) (c_cl q) (b # bs)" using assms(1) by (simp_all add: clist_rep_cons)
  have f: "b + 4 \<le> c_cf q" "c_cf q < b + 32" using cshape_first[OF r(1)] by auto
  then have mod: "c_cf q mod 32 = c_cf q - b" using blk_mod[OF r(3)] by simp
  have "xs \<noteq> []" using r(4) cbytes_pos[OF r(1)] by simp
  then show "0 < q_chunk q cc" using assms(2) f r(2) by (simp add: q_chunk_def mod)
  show "q_chunk q cc \<le> cc" by (simp add: q_chunk_def)
  show "c_cf q + q_chunk q cc \<le> front_room (c_cl q) (b # bs)"
  proof (cases bs)
    case Nil
    then have "length xs = c_cl q - c_cf q" "c_cf q < c_cl q" using r(1,4) by simp_all
    then show ?thesis using Nil r(2) by (simp add: front_room_def q_chunk_def)
  next
    case (Cons b' bs')
    then show ?thesis using f by (simp add: front_room_def q_chunk_def mod)
  qed
qed

lemma q_to_b_loop_refines:
  assumes "clist_rep m fl q bs xs" and "xs \<noteq> []" and "0 < cc"
  shows "\<exists>m' q' fl' bs'. q_to_b_loop m q buf cc = Inr (buf @ take cc xs, m', q')
    \<and> clist_rep m' fl' q' bs' (drop cc xs) \<and> set (fl' @ bs') = set (fl @ bs) \<and> cframe (set (fl @ bs)) m m'
    \<and> length fl \<le> length fl'"
  using assms
proof (induction cc arbitrary: m q buf fl bs xs rule: less_induct)
  case (less cc)
  obtain b bs0 where bs: "bs = b # bs0" using clist_rep_empty[OF less.prems(1)] less.prems(2) by (cases bs) auto
  note rep = less.prems(1)[unfolded bs]
  let ?n = "q_chunk q cc"
  note ch = q_chunk_room[OF rep less.prems(3)]
  define q1 where "q1 = q\<lparr>c_cf := c_cf q + ?n, c_cc := c_cc q - int ?n\<rparr>"
  obtain m' q' where c: "consume m q1 = (m', q')" by force
  obtain fl' bs' where st: "map (c_info m) [c_cf q ..< c_cf q + ?n] = take ?n xs"
    "clist_rep m' fl' q' bs' (drop ?n xs)" "set (fl' @ bs') = set (fl @ bs)" "cframe (set (fl @ bs)) m m'"
    "length fl \<le> length fl'"
    using front_step[OF rep ch(1,2) q1_def c] bs by blast
  have unf: "q_to_b_loop m q buf cc = (if c_cc q1 \<le> 0 then Inr (buf @ take ?n xs, m', q')
      else q_to_b_loop m' q' (buf @ take ?n xs) (cc - ?n))"
    using ch(1) less.prems(3) c st(1)
    by (subst q_to_b_loop.simps) (auto simp: Let_def consume_def bcopy_out_def q1_def split: if_splits)
  have cc: "c_cc q1 = int (length xs) - int ?n" using rep by (simp add: q1_def clist_rep_cons)
  have nl: "?n \<le> length xs" using arg_cong[OF st(1), of length] by simp
  show ?case
  proof (cases "c_cc q1 \<le> 0 \<or> cc = ?n")
    case True
    have "cc = ?n \<Longrightarrow> q_to_b_loop m' q' (buf @ take ?n xs) (cc - ?n) = Inr (buf @ take ?n xs, m', q')"
      by (subst q_to_b_loop.simps) simp
    moreover have "take ?n xs = take cc xs" "drop ?n xs = drop cc xs" using True cc nl ch(3) by auto
    ultimately show ?thesis using unf True st(2-5) by (intro exI[of _ m'] exI[of _ q'] exI[of _ fl'] exI[of _ bs']) auto
  next
    case False
    then have small: "cc - ?n < cc" "0 < cc - ?n" "drop ?n xs \<noteq> []" using ch cc less.prems(3) by auto
    obtain m2 q2 fl2 bs2 where IH: "q_to_b_loop m' q' (buf @ take ?n xs) (cc - ?n)
        = Inr ((buf @ take ?n xs) @ take (cc - ?n) (drop ?n xs), m2, q2)"
      "clist_rep m2 fl2 q2 bs2 (drop (cc - ?n) (drop ?n xs))" "set (fl2 @ bs2) = set (fl' @ bs')"
      "cframe (set (fl' @ bs')) m' m2" "length fl' \<le> length fl2"
      using less.IH[OF small(1) st(2) small(3,2), of "buf @ take ?n xs"] by blast
    have "take ?n xs @ take (cc - ?n) (drop ?n xs) = take cc xs"
      using take_add[of ?n "cc - ?n" xs] ch(3) by simp
    moreover have "drop (cc - ?n) (drop ?n xs) = drop cc xs" using ch(3) by simp
    ultimately show ?thesis using unf False IH st(3-5) cframe_trans
      by (intro exI[of _ m2] exI[of _ q2] exI[of _ fl2] exI[of _ bs2]) (auto intro: cframe_trans)
  qed
qed

end
