(* ===== verification/Clist_Queue.thy ===== *)
theory Clist_Queue
  imports Clist
begin

text \<open>
  The operations of \<open>Clist\<close> implement a queue of characters: each is proved to act on the
  sequence \<open>xs\<close> of \<open>clist_rep\<close> as its comment in \<open>sys/kern/tty_subr.c\<close> says, to move blocks only
  between the list and the free list, and to leave every other list that shares the free list as
  it was (\<open>other_list\<close>).  The locale \<open>byte_queue\<close> is the contract the terminal code relies on when
  it calls \<open>putc\<close> and \<open>getc\<close>; it is interpreted on them as \<open>clist_queue\<close>.
\<close>

section \<open>Taking characters\<close>

lemma q_to_b_refines:
  assumes "clist_rep m fl q bs xs" and "0 \<le> cc"
  shows "\<exists>m' q' fl' bs'. q_to_b m q cc = Inr (take (nat cc) xs, m', q')
    \<and> clist_rep m' fl' q' bs' (drop (nat cc) xs) \<and> set (fl' @ bs') = set (fl @ bs) \<and> cframe (set (fl @ bs)) m m'
    \<and> length fl \<le> length fl'"
proof (cases "cc = 0 \<or> xs = []")
  case True
  have "xs = [] \<Longrightarrow> q\<lparr>c_cc := 0, c_cf := 0, c_cl := 0\<rparr> = q"
    using assms(1) clist_rep_empty[OF assms(1)] by (simp add: clist_rep_def)
  then have "q_to_b m q cc = Inr (take (nat cc) xs, m, q)"
    using True assms by (auto simp: q_to_b_def clist_rep_def)
  then show ?thesis using True assms(1) by (intro exI[of _ m] exI[of _ q] exI[of _ fl] exI[of _ bs]) auto
next
  case False
  then have "q_to_b m q cc = q_to_b_loop m q [] (nat cc)"
    using assms by (simp add: q_to_b_def clist_rep_def)
  then show ?thesis using q_to_b_loop_refines[OF assms(1), of "nat cc" "[]"] False assms(2) by simp
qed

section \<open>Adding characters\<close>

text \<open>
  \<open>can_store m fl q bs xs cq\<close>: up to the end of its block, what is copied to \<open>cq\<close> becomes the
  tail of the list.
\<close>

definition can_store :: "cmem \<Rightarrow> nat list \<Rightarrow> clist \<Rightarrow> nat list \<Rightarrow> nat list \<Rightarrow> nat \<Rightarrow> bool" where
  "can_store m fl q bs xs cq \<longleftrightarrow> cq mod 32 \<noteq> 0
     \<and> (\<exists>b \<in> set (fl @ bs). b + 4 \<le> cq \<and> cq + (32 - cq mod 32) = b + 32)
     \<and> (\<forall>ys. ys \<noteq> [] \<and> length ys \<le> 32 - cq mod 32 \<longrightarrow>
          clist_rep (bcopy_in m cq ys) fl
            (q\<lparr>c_cl := cq + length ys, c_cc := c_cc q + int (length ys)\<rparr>) bs (xs @ ys))"

lemma bcopy_in_fields [simp]:
  "c_next (bcopy_in m a ys) = c_next m" "cfreelist (bcopy_in m a ys) = cfreelist m"
  "cfreecount (bcopy_in m a ys) = cfreecount m"
  by (simp_all add: bcopy_in_def)

lemma can_store_frame:
  assumes "can_store m fl q bs xs cq" and "length ys \<le> 32 - cq mod 32"
  shows "cframe (set (fl @ bs)) m (bcopy_in m cq ys)"
proof -
  obtain b where b: "b \<in> set (fl @ bs)" "b + 4 \<le> cq" "cq + (32 - cq mod 32) = b + 32"
    using assms(1) unfolding can_store_def by blast
  have "c_info (bcopy_in m cq ys) x = c_info m x" if "\<forall>b \<in> set (fl @ bs). \<not> (b + 4 \<le> x \<and> x < b + 32)" for x
  proof -
    have "\<not> (b + 4 \<le> x \<and> x < b + 32)" using that b(1) by blast
    then have "\<not> (cq \<le> x \<and> x < cq + length ys)" using b(2,3) assms(2) by linarith
    then show ?thesis by (auto simp: bcopy_in_def)
  qed
  then show ?thesis by (simp add: cframe_def)
qed

lemma tail_block:
  assumes "clist_rep m fl q bs xs" and "bs \<noteq> []"
  shows "blk (last bs)" "last bs + 4 < c_cl q" "c_cl q \<le> last bs + 32" "last bs \<in> set bs"
    "c_cl q mod 32 = 0 \<longleftrightarrow> c_cl q = last bs + 32" "c_cl q \<noteq> 0" "0 < c_cc q"
proof -
  have r: "list_all blk (fl @ bs)" "cshape (c_cf q) (c_cl q) bs" "c_cc q = int (length xs)"
    "xs = cbytes (c_info m) (c_cf q) (c_cl q) bs" using assms by (simp_all add: clist_rep_def)
  show l: "last bs \<in> set bs" using assms(2) by simp
  then show b: "blk (last bs)" using r(1) by (simp add: list_all_iff)
  show lo: "last bs + 4 < c_cl q" and hi: "c_cl q \<le> last bs + 32" using cshape_last[OF r(2)] by auto
  show "c_cl q mod 32 = 0 \<longleftrightarrow> c_cl q = last bs + 32"
    using blk_mod[OF b, of "c_cl q"] blk_end[OF b] lo hi by (cases "c_cl q = last bs + 32") auto
  show "c_cl q \<noteq> 0" using lo by simp
  show "0 < c_cc q" using r(3,4) cbytes_pos[OF r(2)] by simp
qed

lemma can_store_room:
  assumes "clist_rep m fl q bs xs" and "bs \<noteq> []" and "c_cl q mod 32 \<noteq> 0"
  shows "can_store m fl q bs xs (c_cl q)"
proof -
  note t = tail_block[OF assms(1,2)]
  have mod: "c_cl q mod 32 = c_cl q - last bs" using blk_mod[OF t(1)] t assms(3) by simp
  have r: "distinct bs" "list_all blk bs" "cshape (c_cf q) (c_cl q) bs" "xs = cbytes (c_info m) (c_cf q) (c_cl q) bs"
    using assms by (simp_all add: clist_rep_def)
  have "clist_rep (bcopy_in m (c_cl q) ys) fl
      (q\<lparr>c_cl := c_cl q + length ys, c_cc := c_cc q + int (length ys)\<rparr>) bs (xs @ ys)"
    if "length ys \<le> 32 - c_cl q mod 32" for ys
  proof -
    have "c_cl q + length ys \<le> last bs + 32" using that mod t by simp
    note cbytes_append[OF r(3,1,2) this, of "c_info (bcopy_in m (c_cl q) ys)" "c_info m"]
    then show ?thesis using assms(1,2) r(4) by (simp add: clist_rep_def bcopy_in_def)
  qed
  then show ?thesis using assms(3) t mod by (auto simp: can_store_def)
qed

lemma chain_snoc:
  assumes "chain nx p xs" and "xs \<noteq> []" and "distinct xs" and "nb \<notin> set xs"
    and "nx' = nx(last xs := Some nb, nb := None)"
  shows "chain nx' p (xs @ [nb])"
  using assms
proof (induction xs arbitrary: p)
  case (Cons x xs)
  show ?case
  proof (cases "xs = []")
    case True
    then show ?thesis using Cons.prems by (cases p) auto
  next
    case False
    have "chain nx' (nx x) (xs @ [nb])" using Cons False by (cases p) auto
    moreover have "nx' x = nx x" using Cons.prems False by auto
    ultimately show ?thesis using Cons.prems by (cases p) auto
  qed
qed simp

lemma chain_last_None: "chain nx p xs \<Longrightarrow> xs \<noteq> [] \<Longrightarrow> nx (last xs) = None"
  by (induction xs arbitrary: p) (auto split: if_splits)

lemma fresh_block:
  assumes "blk n" and "length ys \<le> 28"
  shows "map (c_info (bcopy_in m (n + 4) ys)) [n + 4 ..< n + 4 + length ys] = ys"
  by (intro nth_equalityI) (auto simp: bcopy_in_def)

lemma can_store_more:
  assumes rep: "clist_rep m fl q bs xs" and "bs \<noteq> []" and "c_cl q mod 32 = 0"
  shows "case more_block m (c_cl q - 32) of
      (None, m1) \<Rightarrow> fl = [] \<and> m1 = m
    | (Some (cq, m'), _) \<Rightarrow> \<exists>n fl'. fl = n # fl' \<and> can_store m' fl' q (bs @ [n]) xs cq
        \<and> cframe (set (fl @ bs)) m m' \<and> cq mod 32 = 4"
proof -
  note t = tail_block[OF assms(1,2)]
  have full: "c_cl q = last bs + 32" using t assms(3) by simp
  have r: "chain (c_next m) (cfreelist m) fl" "distinct (fl @ bs)" "list_all blk (fl @ bs)"
    "chain (c_next m) (Some (hd bs)) bs" "cshape (c_cf q) (c_cl q) bs" "cfreecount m = 28 * length fl"
    "c_cc q = int (length xs)" "xs = cbytes (c_info m) (c_cf q) (c_cl q) bs"
    using rep assms(2) by (simp_all add: clist_rep_def)
  show ?thesis
  proof (cases fl)
    case Nil
    then have "cfreelist m = None" using r(1) by (cases "cfreelist m") auto
    moreover have "c_next m (last bs) = None" using chain_last_None[OF r(4) assms(2)] .
    ultimately show ?thesis using Nil full by (simp add: more_block_def fun_upd_idem)
  next
    case (Cons n fl')
    then have fr: "cfreelist m = Some n" "chain (c_next m) (c_next m n) fl'" using r(1) by (cases "cfreelist m"; auto)+
    have nl: "n \<noteq> last bs" "n \<notin> set bs" "n \<notin> set fl'" "last bs \<notin> set fl'" "blk n"
      using r(2,3) t(4) Cons by auto
    define m' where "m' = m\<lparr>c_next := (c_next m)(last bs := Some n, n := None), cfreelist := c_next m n,
      cfreecount := cfreecount m - 28\<rparr>"
    have mb: "fst (more_block m (c_cl q - 32)) = Some (n + 4, m')"
      using full fr nl(1) by (simp add: more_block_def m'_def Let_def)
    have mod: "(n + 4) mod 32 = 4" using blk_mod[OF nl(5), of "n + 4"] by simp
    have "clist_rep (bcopy_in m' (n + 4) ys) fl'
        (q\<lparr>c_cl := n + 4 + length ys, c_cc := c_cc q + int (length ys)\<rparr>) (bs @ [n]) (xs @ ys)"
      if ys: "ys \<noteq> []" "length ys \<le> 28" for ys
    proof -
      have "cbytes (c_info (bcopy_in m' (n + 4) ys)) (c_cf q) (c_cl q) bs = xs"
        unfolding r(8)
        by (rule cbytes_cong[OF r(5)]) (use blk_apart[OF nl(5)] nl(2) r(3) ys in \<open>force simp: bcopy_in_def m'_def list_all_iff\<close>)
      moreover have "cbytes (c_info (bcopy_in m' (n + 4) ys)) (c_cf q) (n + 4 + length ys) (bs @ [n]) =
            cbytes (c_info (bcopy_in m' (n + 4) ys)) (c_cf q) (c_cl q) bs @ ys
          \<and> cshape (c_cf q) (n + 4 + length ys) (bs @ [n])"
        using cbytes_snoc[OF r(5) full, of n "n + 4 + length ys"] ys fresh_block[OF nl(5) ys(2)] by (simp del: upt_conv_Cons)
      moreover have "chain (c_next m') (Some (hd bs)) (bs @ [n])"
        using chain_snoc[OF r(4) assms(2), of n "c_next m'"] r(2) nl(2) by (simp add: m'_def)
      moreover have "chain (c_next m') (c_next m n) fl'" using fr(2) nl(3,4) by (simp add: m'_def chain_frame)
      ultimately show ?thesis using r(2,3,6,7) Cons assms(2)
        by (simp add: clist_rep_def m'_def)
    qed
    then have "can_store m' fl' q (bs @ [n]) xs (n + 4)" by (simp add: can_store_def mod)
    moreover have "cframe (set (fl @ bs)) m m'" using t(4) Cons by (auto simp: cframe_def m'_def)
    ultimately show ?thesis using mb mod Cons by (cases "more_block m (c_cl q - 32)") auto
  qed
qed

lemma can_store_first:
  assumes rep: "clist_rep m fl q [] []"
  shows "case first_block m of
      None \<Rightarrow> fl = []
    | Some (cq, m') \<Rightarrow> \<exists>n fl'. fl = n # fl' \<and> can_store m' fl' (q\<lparr>c_cf := cq\<rparr>) [n] [] cq
        \<and> cframe (set fl) m m' \<and> cq mod 32 = 4"
proof (cases fl)
  case Nil
  then show ?thesis using rep by (cases "cfreelist m") (auto simp: first_block_def clist_rep_def)
next
  case (Cons n fl')
  have r: "cfreelist m = Some n" "chain (c_next m) (c_next m n) fl'" "n \<notin> set fl'" "blk n" "distinct fl'"
    "list_all blk fl'" "cfreecount m = 28 * length fl" "c_cc q = 0"
    using rep Cons by (cases "cfreelist m"; auto simp: clist_rep_def)+
  define m' where "m' = m\<lparr>cfreelist := c_next m n, cfreecount := cfreecount m - 28, c_next := (c_next m)(n := None)\<rparr>"
  have fb: "first_block m = Some (n + 4, m')" using r(1) by (simp add: first_block_def m'_def)
  have mod: "(n + 4) mod 32 = 4" using blk_mod[OF r(4), of "n + 4"] by simp
  have "clist_rep (bcopy_in m' (n + 4) ys) fl'
      (q\<lparr>c_cf := n + 4, c_cl := n + 4 + length ys, c_cc := c_cc q + int (length ys)\<rparr>) [n] ys"
    if ys: "ys \<noteq> []" "length ys \<le> 28" for ys
    using r ys fresh_block[OF r(4) ys(2), of m'] Cons
    by (simp add: clist_rep_cons chain_frame m'_def del: upt_conv_Cons)
  then have "can_store m' fl' (q\<lparr>c_cf := n + 4\<rparr>) [n] [] (n + 4)" by (simp add: can_store_def mod)
  then show ?thesis using fb mod Cons by (auto simp: cframe_def m'_def)
qed

lemma putc_store:
  assumes "can_store m fl q bs xs cq"
  shows "clist_rep (bcopy_in m cq [c mod 256]) fl (q\<lparr>c_cl := cq + 1, c_cc := c_cc q + 1\<rparr>) bs (xs @ [c mod 256])"
    "cframe (set (fl @ bs)) m (bcopy_in m cq [c mod 256])"
proof -
  have "cq mod 32 < 32" by simp
  then have "Suc 0 \<le> 32 - cq mod 32" by linarith
  then show "clist_rep (bcopy_in m cq [c mod 256]) fl (q\<lparr>c_cl := cq + 1, c_cc := c_cc q + 1\<rparr>) bs (xs @ [c mod 256])"
    "cframe (set (fl @ bs)) m (bcopy_in m cq [c mod 256])"
    using assms[unfolded can_store_def, THEN conjunct2, THEN conjunct2, THEN spec, of "[c mod 256]"]
      can_store_frame[OF assms, of "[c mod 256]"] by simp_all
qed

lemma putc_refines:
  assumes rep: "clist_rep m fl q bs xs"
  shows "if fl = [] \<and> c_cl q mod 32 = 0 then putc m c q = (-1, m, q)
    else \<exists>m' q' fl' bs'. putc m c q = (0, m', q') \<and> clist_rep m' fl' q' bs' (xs @ [c mod 256])
        \<and> set (fl' @ bs') = set (fl @ bs) \<and> cframe (set (fl @ bs)) m m'"
proof (cases "bs = []")
  case True
  then have e: "c_cl q = 0" "xs = []" "clist_rep m fl q [] []" using rep by (simp_all add: clist_rep_def)
  show ?thesis
  proof (cases "first_block m")
    case None
    then show ?thesis using can_store_first[OF e(3)] e by (simp add: putc_def)
  next
    case (Some a)
    obtain cq m' where a: "a = (cq, m')" by force
    obtain n fl' where st: "fl = n # fl'" "can_store m' fl' (q\<lparr>c_cf := cq\<rparr>) [n] [] cq" "cframe (set fl) m m'"
      using can_store_first[OF e(3)] Some a by auto
    note ps = putc_store[OF st(2), of c]
    have "set (fl' @ [n]) = set fl" using st(1) by auto
    then have "cframe (set fl) m (bcopy_in m' cq [c mod 256])" using ps(2) st(3) cframe_trans by metis
    then show ?thesis using Some a e True st(1) ps(1)
      by (simp add: putc_def Let_def) (rule exI[of _ fl'], rule exI[of _ "[n]"], auto)
  qed
next
  case bs: False
  note t = tail_block[OF rep bs]
  show ?thesis
  proof (cases "c_cl q mod 32 = 0")
    case False
    note ps = putc_store[OF can_store_room[OF rep bs False], of c]
    then show ?thesis using t False by (simp add: putc_def Let_def) blast
  next
    case full: True
    obtain r m1 where r: "more_block m (c_cl q - 32) = (r, m1)" by force
    note cs = can_store_more[OF rep bs full, unfolded r]
    show ?thesis
    proof (cases r)
      case None
      then show ?thesis using cs t full r by (simp add: putc_def Let_def)
    next
      case (Some a)
      obtain cq m' where a: "a = (cq, m')" by force
      obtain n fl' where st: "fl = n # fl'" "can_store m' fl' q (bs @ [n]) xs cq" "cframe (set (fl @ bs)) m m'"
        using cs Some a by auto
      note ps = putc_store[OF st(2), of c]
      have "set (fl' @ bs @ [n]) = set (fl @ bs)" using st(1) by auto
      then have "cframe (set (fl @ bs)) m (bcopy_in m' cq [c mod 256])" using ps(2) st(3) cframe_trans by metis
      then show ?thesis using Some a t full r st(1) ps(1)
        by (simp add: putc_def Let_def) (rule exI[of _ fl'], rule exI[of _ "bs @ [n]"], auto)
    qed
  qed
qed

text \<open>
  \<open>b_to_q\<close> appends a prefix.  It stops short only when the blocks are used up, after at least
  28 characters for each block that was free, and it takes no more blocks than it needs.
\<close>

definition stored :: "cmem \<Rightarrow> nat list \<Rightarrow> nat list \<Rightarrow> cmem \<Rightarrow> clist \<Rightarrow> nat list \<Rightarrow> nat \<Rightarrow> bool" where
  "stored m fl bs m' q' xs k \<longleftrightarrow> (\<exists>fl' bs'. clist_rep m' fl' q' bs' xs \<and> set (fl' @ bs') = set (fl @ bs)
     \<and> cframe (set (fl @ bs)) m m' \<and> 28 * length fl \<le> 28 * length fl' + k + 27)"

definition full_at :: "nat list \<Rightarrow> nat \<Rightarrow> nat list \<Rightarrow> bool" where
  "full_at fl k ys \<longleftrightarrow> k \<le> length ys \<and> (k < length ys \<longrightarrow> 28 * length fl \<le> k)"

lemma stored_frame:
  "stored m fl bs m' q' xs k \<Longrightarrow> cframe (set (fl @ bs)) m0 m \<Longrightarrow> stored m0 fl bs m' q' xs k"
  using cframe_trans unfolding stored_def by blast

lemma b_chunk_room:
  assumes "cp \<noteq> []"
  shows "0 < b_chunk cq cp" "b_chunk cq cp \<le> 32 - cq mod 32" "b_chunk cq cp \<le> length cp"
    "b_chunk cq cp < length cp \<Longrightarrow> b_chunk cq cp = 32 - cq mod 32"
  using assms by (auto simp: b_chunk_def)

lemma b_to_q_step:
  assumes "can_store m fl q bs xs cq" and "cp \<noteq> []"
  shows "clist_rep (bcopy_in m cq (take (b_chunk cq cp) cp)) fl
      (q\<lparr>c_cl := cq + b_chunk cq cp, c_cc := c_cc q + int (b_chunk cq cp)\<rparr>) bs (xs @ take (b_chunk cq cp) cp)"
    "cframe (set (fl @ bs)) m (bcopy_in m cq (take (b_chunk cq cp) cp))"
proof -
  note ch = b_chunk_room[OF assms(2), of cq]
  have len: "length (take (b_chunk cq cp) cp) = b_chunk cq cp" using ch by simp
  have ne: "take (b_chunk cq cp) cp \<noteq> []" using ch(1) assms(2) by simp
  have "clist_rep (bcopy_in m cq ys) fl
      (q\<lparr>c_cl := cq + length ys, c_cc := c_cc q + int (length ys)\<rparr>) bs (xs @ ys)"
    if "ys \<noteq> []" "length ys \<le> 32 - cq mod 32" for ys using assms(1) that by (simp add: can_store_def)
  from this[OF ne] show "clist_rep (bcopy_in m cq (take (b_chunk cq cp) cp)) fl
      (q\<lparr>c_cl := cq + b_chunk cq cp, c_cc := c_cc q + int (b_chunk cq cp)\<rparr>) bs (xs @ take (b_chunk cq cp) cp)"
    unfolding len using ch(2) by simp
  show "cframe (set (fl @ bs)) m (bcopy_in m cq (take (b_chunk cq cp) cp))"
    using can_store_frame[OF assms(1)] len ch(2) by simp
qed

lemma b_to_q_loop_store:
  assumes "can_store m fl q bs xs cq" and "cp \<noteq> []"
  shows "b_to_q_loop m cq cp = b_to_q_loop (bcopy_in m cq (take (b_chunk cq cp) cp)) (cq + b_chunk cq cp) (drop (b_chunk cq cp) cp)"
  using assms b_chunk_room(1)[OF assms(2), of cq]
  by (subst b_to_q_loop.simps) (simp add: can_store_def Let_def)

lemma b_to_q_loop_more:
  assumes "more_block m (cq - 32) = (Some (cq', m'), m1)" and "cq mod 32 = 0" and "cq' mod 32 = 4" and "cp \<noteq> []"
  shows "b_to_q_loop m cq cp = b_to_q_loop m' cq' cp"
  using assms b_chunk_room(1)[OF assms(4), of cq']
  by (subst (1 2) b_to_q_loop.simps) (simp add: Let_def)

lemma b_to_q_loop_refines:
  assumes "clist_rep m fl q bs xs" and "bs \<noteq> []"
  shows "\<exists>k m' cq'. b_to_q_loop m (c_cl q) cp = Inr (drop k cp, m', cq') \<and> full_at fl k cp
    \<and> stored m fl bs m' (q\<lparr>c_cl := cq', c_cc := c_cc q + int k\<rparr>) (xs @ take k cp) k"
  using assms
proof (induction "length cp" arbitrary: m fl q bs xs cp rule: less_induct)
  case less
  show ?case
  proof (cases "cp = []")
    case True
    then have "b_to_q_loop m (c_cl q) cp = Inr (drop 0 cp, m, c_cl q)" by (simp add: b_to_q_loop.simps)
    then show ?thesis using True less.prems
      by - (rule exI[of _ 0], rule exI[of _ m], rule exI[of _ "c_cl q"], simp add: full_at_def stored_def,
        rule exI[of _ fl], rule exI[of _ bs], simp)
  next
    case cp: False
    let ?n = "\<lambda>cq. b_chunk cq cp"
    have run: "\<exists>k m' cq'. b_to_q_loop m0 cq cp = Inr (drop (?n cq + k) cp, m', cq') \<and> full_at fl0 k (drop (?n cq) cp)
        \<and> stored m0 fl0 bs0 m' (q\<lparr>c_cl := cq', c_cc := c_cc q + int (?n cq + k)\<rparr>) (xs @ take (?n cq + k) cp) k"
      if cs: "can_store m0 fl0 q bs0 xs cq" and bs0: "bs0 \<noteq> []" for m0 fl0 bs0 cq
    proof -
      note st = b_to_q_step[OF cs cp]
      have lt: "length (drop (?n cq) cp) < length cp" using b_chunk_room(1)[OF cp, of cq] cp by simp
      obtain k m' cq' where IH: "b_to_q_loop (bcopy_in m0 cq (take (?n cq) cp)) (cq + ?n cq) (drop (?n cq) cp)
          = Inr (drop k (drop (?n cq) cp), m', cq')" "full_at fl0 k (drop (?n cq) cp)"
        "stored (bcopy_in m0 cq (take (?n cq) cp)) fl0 bs0 m' (q\<lparr>c_cl := cq', c_cc := c_cc q + int (?n cq) + int k\<rparr>)
          ((xs @ take (?n cq) cp) @ take k (drop (?n cq) cp)) k"
        using less.hyps[OF lt st(1) bs0] by auto
      have "(xs @ take (?n cq) cp) @ take k (drop (?n cq) cp) = xs @ take (?n cq + k) cp" by (simp add: take_add)
      then have "stored m0 fl0 bs0 m' (q\<lparr>c_cl := cq', c_cc := c_cc q + int (?n cq + k)\<rparr>) (xs @ take (?n cq + k) cp) k"
        using stored_frame[OF IH(3) st(2)] by (simp add: add.assoc)
      then show ?thesis using IH(1,2) b_to_q_loop_store[OF cs cp] by (auto simp: add.commute)
    qed
    show ?thesis
    proof (cases "c_cl q mod 32 = 0")
      case False
      obtain k m' cq' where k: "b_to_q_loop m (c_cl q) cp = Inr (drop (?n (c_cl q) + k) cp, m', cq')"
        "full_at fl k (drop (?n (c_cl q)) cp)"
        "stored m fl bs m' (q\<lparr>c_cl := cq', c_cc := c_cc q + int (?n (c_cl q) + k)\<rparr>) (xs @ take (?n (c_cl q) + k) cp) k"
        using run[OF can_store_room[OF less.prems False] less.prems(2)] by blast
      have "full_at fl (?n (c_cl q) + k) cp" using k(2) b_chunk_room(3)[OF cp, of "c_cl q"] by (auto simp: full_at_def)
      moreover have "stored m fl bs m' (q\<lparr>c_cl := cq', c_cc := c_cc q + int (?n (c_cl q) + k)\<rparr>)
          (xs @ take (?n (c_cl q) + k) cp) (?n (c_cl q) + k)"
        using k(3) unfolding stored_def by (elim exE conjE, intro exI conjI) (assumption+, linarith)
      ultimately show ?thesis using k(1) by blast
    next
      case full: True
      obtain r m1 where r: "more_block m (c_cl q - 32) = (r, m1)" by force
      note cs = can_store_more[OF less.prems full, unfolded r]
      show ?thesis
      proof (cases r)
        case None
        then have "fl = []" "b_to_q_loop m (c_cl q) cp = Inr (drop 0 cp, m, c_cl q)"
          using cs r full cp by (auto simp: b_to_q_loop.simps)
        then show ?thesis using less.prems
          by - (rule exI[of _ 0], rule exI[of _ m], rule exI[of _ "c_cl q"], simp add: full_at_def stored_def,
            rule exI[of _ "[]"], rule exI[of _ bs], simp)
      next
        case (Some a)
        obtain cq m2 where a: "a = (cq, m2)" by force
        obtain n fl' where st: "fl = n # fl'" "can_store m2 fl' q (bs @ [n]) xs cq" "cframe (set (fl @ bs)) m m2" "cq mod 32 = 4"
          using cs Some a by auto
        obtain k m' cq' where k: "b_to_q_loop m2 cq cp = Inr (drop (?n cq + k) cp, m', cq')"
          "full_at fl' k (drop (?n cq) cp)"
          "stored m2 fl' (bs @ [n]) m' (q\<lparr>c_cl := cq', c_cc := c_cc q + int (?n cq + k)\<rparr>) (xs @ take (?n cq + k) cp) k"
          using run[OF st(2)] by blast
        note ch = b_chunk_room[OF cp, of cq]
        have sets: "set (fl' @ bs @ [n]) = set (fl @ bs)" using st(1) by auto
        have "full_at fl (?n cq + k) cp" using k(2) ch st(1,4) by (auto simp: full_at_def)
        moreover have "stored m fl bs m' (q\<lparr>c_cl := cq', c_cc := c_cc q + int (?n cq + k)\<rparr>)
            (xs @ take (?n cq + k) cp) (?n cq + k)"
        proof -
          obtain fl2 bs2 where R: "clist_rep m' fl2 (q\<lparr>c_cl := cq', c_cc := c_cc q + int (?n cq + k)\<rparr>) bs2 (xs @ take (?n cq + k) cp)"
            "set (fl2 @ bs2) = set (fl @ bs)" "cframe (set (fl @ bs)) m2 m'" "28 * length fl' \<le> 28 * length fl2 + k + 27"
            using k(3) unfolding stored_def sets by blast
          have "28 * length fl \<le> 28 * length fl2 + (?n cq + k) + 27"
          proof (cases "?n cq < length cp")
            case True
            then show ?thesis using ch(4) st(1,4) R(4) by simp
          next
            case False
            then have "k = 0" using k(2) by (simp add: full_at_def)
            then show ?thesis using R(4) st(1) ch(1) by simp presburger
          qed
          then show ?thesis using R st(3) cframe_trans unfolding stored_def by blast
        qed
        moreover have "b_to_q_loop m (c_cl q) cp = Inr (drop (?n cq + k) cp, m', cq')"
          using b_to_q_loop_more[of m "c_cl q" cq m2 m1 cp] r Some a full st(4) cp k(1) by simp
        ultimately show ?thesis by blast
      qed
    qed
  qed
qed

lemma b_to_q_refines:
  assumes rep: "clist_rep m fl q bs xs"
  shows "\<exists>k m' q'. b_to_q m ys q = Inr (int (length ys - k), m', q') \<and> full_at fl k ys
    \<and> stored m fl bs m' q' (xs @ take k ys) k"
proof (cases "ys = []")
  case True
  then show ?thesis using rep
    by - (rule exI[of _ 0], rule exI[of _ m], rule exI[of _ q], simp add: b_to_q_def full_at_def stored_def,
      rule exI[of _ fl], rule exI[of _ bs], simp)
next
  case ys: False
  show ?thesis
  proof (cases "bs = []")
    case False
    obtain k m' cq' where k: "b_to_q_loop m (c_cl q) ys = Inr (drop k ys, m', cq')" "full_at fl k ys"
      "stored m fl bs m' (q\<lparr>c_cl := cq', c_cc := c_cc q + int k\<rparr>) (xs @ take k ys) k"
      using b_to_q_loop_refines[OF rep False] by blast
    have "b_to_q m ys q = Inr (int (length ys - k), m', q\<lparr>c_cl := cq', c_cc := c_cc q + int k\<rparr>)"
      using k(1,2) ys tail_block[OF rep False] by (simp add: b_to_q_def full_at_def)
    then show ?thesis using k by blast
  next
    case True
    then have e: "c_cl q = 0" "xs = []" "clist_rep m fl q [] []" "c_cc q = 0" using rep by (simp_all add: clist_rep_def)
    show ?thesis
    proof (cases "first_block m")
      case None
      then have "b_to_q m ys q = Inr (int (length ys - 0), m, q)" "fl = []"
        using can_store_first[OF e(3)] ys e by (simp_all add: b_to_q_def)
      then show ?thesis using rep
        by - (rule exI[of _ 0], rule exI[of _ m], rule exI[of _ q], simp add: full_at_def stored_def,
          rule exI[of _ fl], rule exI[of _ bs], simp)
    next
      case (Some a)
      obtain cq m2 where a: "a = (cq, m2)" by force
      obtain n fl' where st: "fl = n # fl'" "can_store m2 fl' (q\<lparr>c_cf := cq\<rparr>) [n] [] cq" "cframe (set fl) m m2" "cq mod 32 = 4"
        using can_store_first[OF e(3)] Some a by auto
      let ?n = "b_chunk cq ys"
      note ch = b_chunk_room[OF ys, of cq] and bq = b_to_q_step[OF st(2) ys]
      let ?m = "bcopy_in m2 cq (take ?n ys)" and ?q = "q\<lparr>c_cf := cq, c_cl := cq + ?n, c_cc := c_cc q + int ?n\<rparr>"
      obtain k m' cq' where k: "b_to_q_loop ?m (cq + ?n) (drop ?n ys) = Inr (drop k (drop ?n ys), m', cq')"
        "full_at fl' k (drop ?n ys)"
        "stored ?m fl' [n] m' (?q\<lparr>c_cl := cq', c_cc := c_cc ?q + int k\<rparr>) (([] @ take ?n ys) @ take k (drop ?n ys)) k"
        using b_to_q_loop_refines[OF bq(1), of "drop ?n ys"] by auto
      have sets: "set (fl' @ [n]) = set fl" using st(1) by auto
      have "([] @ take ?n ys) @ take k (drop ?n ys) = take (?n + k) ys" by (simp add: take_add)
      then obtain fl2 bs2 where R: "clist_rep m' fl2 (q\<lparr>c_cf := cq, c_cl := cq', c_cc := int (?n + k)\<rparr>) bs2 (take (?n + k) ys)"
        "set (fl2 @ bs2) = set fl" "cframe (set fl) ?m m'" "28 * length fl' \<le> 28 * length fl2 + k + 27"
        using k(3) e(4) unfolding stored_def sets by auto
      have "28 * length fl \<le> 28 * length fl2 + (?n + k) + 27"
      proof (cases "?n < length ys")
        case True
        then show ?thesis using ch(4) st(1,4) R(4) by simp
      next
        case False
        then have "k = 0" using k(2) by (simp add: full_at_def)
        then show ?thesis using R(4) st(1) ch(1) by simp presburger
      qed
      moreover have "cframe (set fl) m m'" using st(3) bq(2) R(3) unfolding sets by (metis cframe_trans)
      ultimately have S: "stored m fl bs m' (q\<lparr>c_cf := cq, c_cl := cq', c_cc := int (?n + k)\<rparr>) (xs @ take (?n + k) ys) (?n + k)"
        using R True e(2) unfolding stored_def by auto
      have F: "full_at fl (?n + k) ys" using k(2) ch st(1,4) by (auto simp: full_at_def)
      have "b_to_q m ys q = Inr (int (length ys - (?n + k)), m', q\<lparr>c_cf := cq, c_cl := cq', c_cc := int (?n + k)\<rparr>)"
        using Some a ys e k(1) F b_to_q_loop_store[OF st(2) ys] by (simp add: b_to_q_def full_at_def add.commute)
      then show ?thesis using S F by blast
    qed
  qed
qed

section \<open>Taking back the last character\<close>

lemma unputc_walk_finds:
  assumes "chain (c_next m) (Some b) (b # bs @ [t])" and "distinct (b # bs @ [t])" and "length bs < fuel"
  shows "unputc_walk fuel m b t = Inr (last (b # bs))"
  using assms
proof (induction bs arbitrary: b fuel)
  case Nil
  then show ?case by (cases fuel) (auto simp: unputc_walk.simps)
next
  case (Cons x bs)
  obtain f where f: "fuel = Suc f" using Cons.prems(3) by (cases fuel) auto
  have nx: "c_next m b = Some x" using Cons.prems(1) by auto
  have "unputc_walk f m x t = Inr (last (x # bs))" using Cons f by (intro Cons.IH) auto
  then show ?case using nx f Cons.prems(2) by (simp add: unputc_walk.simps)
qed

lemma chain_butlast:
  assumes "chain nx p (xs @ [y])" and "xs \<noteq> []" and "distinct (xs @ [y])"
  shows "chain (nx(last xs := None)) p xs"
  using assms
proof (induction xs arbitrary: p)
  case (Cons x xs)
  show ?case
  proof (cases "xs = []")
    case True
    then show ?thesis using Cons.prems by (cases p) auto
  next
    case False
    then have "chain nx (nx x) (xs @ [y])" using Cons.prems(1) by (cases p) simp_all
    then have "chain (nx(last xs := None)) (nx x) xs" by (rule Cons.IH) (use False Cons.prems(3) in auto)
    moreover have "last xs \<noteq> x" using Cons.prems(3) False by auto
    ultimately show ?thesis using Cons.prems(1) False by (cases p) (simp_all add: fun_upd_def)
  qed
qed simp

lemma cbytes_single:
  assumes "cshape f l bs" and "length (cbytes mem f l bs) = 1"
  shows "\<exists>b. bs = [b] \<and> f + 1 = l"
  using assms
proof (induction mem f l bs rule: cbytes.induct)
  case (3 mem f l b b' bs)
  then obtain k where "length (cbytes mem (b' + 4) l (b' # bs)) = Suc k"
    using cbytes_pos[of "b' + 4" l "b' # bs" mem] by (cases "cbytes mem (b' + 4) l (b' # bs)") auto
  then show ?case using 3(2,3) by simp
qed auto

lemma unputc_refines:
  assumes rep: "clist_rep m fl q bs (xs @ [x])" and len: "length bs \<le> 32"
  shows "\<exists>m' q' fl' bs'. unputc m q = Inr (int (x mod 256), m', q') \<and> clist_rep m' fl' q' bs' xs
    \<and> set (fl' @ bs') = set (fl @ bs) \<and> cframe (set (fl @ bs)) m m'"
proof -
  have ne: "bs \<noteq> []" using clist_rep_empty[OF rep] by simp
  note t = tail_block[OF rep ne]
  have r: "chain (c_next m) (cfreelist m) fl" "distinct (fl @ bs)" "list_all blk (fl @ bs)"
    "chain (c_next m) (Some (hd bs)) bs" "cshape (c_cf q) (c_cl q) bs" "cfreecount m = 28 * length fl"
    "c_cc q = int (length xs) + 1" "xs @ [x] = cbytes (c_info m) (c_cf q) (c_cl q) bs"
    using rep ne by (simp_all add: clist_rep_def)
  have lb: "cround_down (c_cl q - 1) = last bs" using t by (intro blk_round) auto
  show ?thesis
  proof (cases "xs = []")
    case True
    then have "length (cbytes (c_info m) (c_cf q) (c_cl q) bs) = 1" using r(8)[symmetric] by simp
    then obtain b where b: "bs = [b]" and one: "c_cf q + 1 = c_cl q" using cbytes_single[OF r(5)] by blast
    have "x = c_info m (c_cl q - 1)" using r(8) True b one by (cases "c_cl q") auto
    then have "unputc m q = Inr (int (x mod 256), put_block m b, q\<lparr>c_cl := 0, c_cc := 0, c_cf := 0\<rparr>)"
      using r(7) True lb b by (simp add: unputc_def Let_def)
    moreover have "clist_rep (put_block m b) (b # fl) (q\<lparr>c_cl := 0, c_cc := 0, c_cf := 0\<rparr>) [] []"
      using r b by (auto simp: clist_rep_def put_block_fields chain_frame)
    moreover have "cframe (set (fl @ bs)) m (put_block m b)" using b by (auto simp: cframe_def put_block_fields)
    ultimately show ?thesis using True b
      by - (rule exI[of _ "put_block m b"], rule exI[of _ "q\<lparr>c_cl := 0, c_cc := 0, c_cf := 0\<rparr>"],
        rule exI[of _ "b # fl"], rule exI[of _ "[]"], auto)
  next
    case more: False
    show ?thesis
    proof (cases "c_cl q = last bs + 5")
      case False
      have "c_cf q < c_cl q - 1 \<or> 1 < length bs"
        using r(5) more arg_cong[OF r(8), of length] by (cases xs; cases bs rule: remdups_adj.cases) auto
      then have cb: "cbytes (c_info m) (c_cf q) (c_cl q) bs = cbytes (c_info m) (c_cf q) (c_cl q - 1) bs @ [c_info m (c_cl q - 1)]"
        "cshape (c_cf q) (c_cl q - 1) bs" using cbytes_butlast[OF r(5)] t False by auto
      have x: "x = c_info m (c_cl q - 1)" "xs = cbytes (c_info m) (c_cf q) (c_cl q - 1) bs" using r(8) cb(1) by auto
      have "(c_cl q - 1) mod 32 \<noteq> 4" using blk_mod[OF t(1), of "c_cl q - 1"] t False by auto
      then have "unputc m q = Inr (int (x mod 256), m, q\<lparr>c_cl := c_cl q - 1, c_cc := int (length xs)\<rparr>)"
        using r(7) more x(1) by (simp add: unputc_def Let_def)
      moreover have "clist_rep m fl (q\<lparr>c_cl := c_cl q - 1, c_cc := int (length xs)\<rparr>) bs xs"
        using rep ne cb(2) x(2) by (simp add: clist_rep_def)
      ultimately show ?thesis by - (rule exI, rule exI, rule exI[of _ fl], rule exI[of _ bs], auto)
    next
      case True
      obtain bs0 lb where bs: "bs = bs0 @ [lb]" using ne by (metis append_butlast_last_id)
      have cl: "c_cl q = lb + 5" "cround_down (c_cl q - 1) = lb" "blk lb" using True lb t(1) bs by simp_all
      have ne0: "bs0 \<noteq> []"
      proof
        assume "bs0 = []"
        then have "length (xs @ [x]) \<le> 1" using r(5) cl(1) unfolding r(8) bs by simp arith
        then show False using more by simp
      qed
      note cb = cbytes_drop_last[OF r(5)[unfolded bs] ne0 cl(1), of "c_info m"]
      have x: "x = c_info m (lb + 4)" "xs = cbytes (c_info m) (c_cf q) (last bs0 + 32) bs0" using cb r(8) bs by auto
      obtain b1 bs1 where b1: "bs0 = b1 # bs1" using ne0 by (cases bs0) auto
      have d: "distinct (b1 # bs1 @ [lb])" "chain (c_next m) (Some b1) (b1 # bs1 @ [lb])"
        using r(2,4) unfolding bs b1 by simp_all
      have w: "unputc_walk 33 m b1 lb = Inr (last bs0)"
        using unputc_walk_finds[OF d(2,1), of 33] len unfolding bs b1 by simp
      have "blk b1" using r(3) bs b1 by simp
      moreover have "b1 + 4 \<le> c_cf q \<and> c_cf q < b1 + 32" using cb cshape_first unfolding b1 by blast
      ultimately have cf: "cround_down (c_cf q) = b1" by (intro blk_round) auto
      have mod: "(c_cl q - 1) mod 32 = 4" using cl blk_mod[OF cl(3), of "c_cl q - 1"] by simp
      let ?m = "(put_block m lb)\<lparr>c_next := (c_next (put_block m lb))(last bs0 := None)\<rparr>"
      let ?q = "q\<lparr>c_cl := last bs0 + 32, c_cc := int (length xs)\<rparr>"
      have un: "unputc m q = Inr (int (x mod 256), ?m, ?q)"
        using r(7) more x(1) mod cf w cl by (simp add: unputc_def Let_def add.commute)
      have lst: "last bs0 \<in> set bs0" using ne0 by simp
      have dd: "lb \<notin> set fl" "distinct fl" "lb \<notin> set bs0" "distinct bs0" "set bs0 \<inter> set fl = {}" "last bs0 \<notin> set fl" "last bs0 \<noteq> lb"
        using r(2) lst unfolding bs by auto
      have "chain (c_next ?m) (Some lb) (lb # fl)"
        using r(1) dd by (simp add: put_block_fields chain_frame)
      moreover have "chain (c_next ?m) (Some b1) bs0"
        using chain_butlast[of "c_next m" "Some b1" bs0 lb] d ne0 b1 dd(3,7)
        by (simp add: put_block_fields chain_frame fun_upd_twist[of lb] del: chain.simps)
      ultimately have "clist_rep ?m (lb # fl) ?q bs0 xs"
        using dd cb x(2) ne0 b1 r(3,6) bs by (auto simp: clist_rep_def put_block_fields)
      moreover have "set ((lb # fl) @ bs0) = set (fl @ bs)" using bs by auto
      moreover have "cframe (set (fl @ bs)) m ?m" using lst bs by (auto simp: cframe_def put_block_fields)
      ultimately show ?thesis using un by blast
    qed
  qed
qed

section \<open>Counting, flushing and stepping\<close>

lemma ndqb_scan_takeWhile:
  "ndqb_scan m flag p n = (let w = length (takeWhile (\<lambda>c. and c flag = 0) (map (c_info m) [p ..< p + n])) in
     if w = n then None else Some (p + w))"
proof (induction n arbitrary: p)
  case (Suc n)
  have "[p ..< p + Suc n] = p # [Suc p ..< Suc p + n]" by (simp add: upt_conv_Cons del: upt_Suc)
  then show ?case using Suc[of "Suc p"] by (simp add: Let_def)
qed simp

lemma front_run:
  assumes "clist_rep m fl q (b # bs) xs"
  shows "int (cround_down (c_cf q + 28)) - int (c_cf q) = int (b + 32 - c_cf q)"
    "min (length xs) (b + 32 - c_cf q) = front_room (c_cl q) (b # bs) - c_cf q"
    "c_cf q \<le> front_room (c_cl q) (b # bs)"
proof -
  have r: "cshape (c_cf q) (c_cl q) (b # bs)" "blk b" "xs = cbytes (c_info m) (c_cf q) (c_cl q) (b # bs)"
    using assms by (simp_all add: clist_rep_cons)
  have f: "b + 4 \<le> c_cf q" "c_cf q < b + 32" using cshape_first[OF r(1)] by auto
  have "blk (b + 32)" using r(2) by (auto simp: blk_def)
  then have "cround_down (c_cf q + 28) = b + 32" using f by (intro blk_round) auto
  then show "int (cround_down (c_cf q + 28)) - int (c_cf q) = int (b + 32 - c_cf q)" using f by simp
  show "min (length xs) (b + 32 - c_cf q) = front_room (c_cl q) (b # bs) - c_cf q"
    using r(1,3) by (cases bs) (auto simp: front_room_def)
  show "c_cf q \<le> front_room (c_cl q) (b # bs)" using r(1) by (cases bs) (auto simp: front_room_def)
qed

text \<open>How many characters lie in the first block.\<close>

definition contiguous :: "clist \<Rightarrow> nat list \<Rightarrow> nat" where
  "contiguous q xs = min (length xs) (32 - c_cf q mod 32)"

lemma ndqb_counts:
  assumes rep: "clist_rep m fl q bs xs"
  shows "ndqb m q flag = int (length (takeWhile (\<lambda>c. and c flag = 0) (take (contiguous q xs) xs)))"
proof (cases bs)
  case Nil
  then show ?thesis using rep by (simp add: ndqb_def clist_rep_def)
next
  case (Cons b bs')
  note rep = rep[unfolded Cons]
  note fr = front_run[OF rep]
  have r: "cshape (c_cf q) (c_cl q) (b # bs')" "blk b" "xs = cbytes (c_info m) (c_cf q) (c_cl q) (b # bs')" "c_cc q = int (length xs)"
    using rep by (simp_all add: clist_rep_cons)
  have f: "b + 4 \<le> c_cf q" "c_cf q < b + 32" using cshape_first[OF r(1)] by auto
  define n where "n = front_room (c_cl q) (b # bs') - c_cf q"
  have "32 - c_cf q mod 32 = b + 32 - c_cf q" using blk_mod[OF r(2), of "c_cf q"] f by simp
  then have n: "contiguous q xs = n" using fr(2) by (simp add: contiguous_def n_def)
  have "c_cf q + n = front_room (c_cl q) (b # bs')" using fr(3) by (simp add: n_def)
  note cbytes_front[OF r(1), of n "c_info m"]
  then have tk: "take n xs = map (c_info m) [c_cf q ..< c_cf q + n]" using fr(3) r(3) by (simp add: n_def)
  have cc: "(if c_cc q < int (b + 32 - c_cf q) then c_cc q else int (b + 32 - c_cf q)) = int n"
    using fr(2) r(4) by (auto simp: n_def min_def split: if_splits)
  have pos: "0 < c_cc q" using tail_block(7)[OF rep] by simp
  have w: "length (takeWhile (\<lambda>c. and c flag = 0) (take n xs)) \<le> n"
    by (metis length_map length_takeWhile_le tk diff_add_inverse length_upt)
  have nd: "ndqb m q flag = (if flag \<noteq> 0 then case ndqb_scan m flag (c_cf q) n of None \<Rightarrow> int n
      | Some p \<Rightarrow> int (p - c_cf q) else int n)"
    using pos unfolding ndqb_def Let_def fr(1) cc by simp
  show ?thesis
  proof (cases "flag = 0")
    case True
    have tw: "takeWhile (\<lambda>c. True) ys = ys" for ys :: "nat list" by (induction ys) auto
    show ?thesis using True nd tk n by (simp add: tw)
  next
    case False
    then show ?thesis using nd n tk w by (auto simp: ndqb_scan_takeWhile Let_def)
  qed
qed

lemma cbytes_hd: "cshape f l bs \<Longrightarrow> hd (cbytes id f l bs) = f"
  by (induction f l bs rule: cshape.induct) (auto simp: hd_append)

lemma cshape_apart:
  assumes "cshape f l (b # b' # bs)" and "distinct (b # b' # bs)" and "list_all blk (b # b' # bs)"
  shows "\<not> (b < l \<and> l \<le> b + 32)"
proof -
  have l: "last (b' # bs) + 4 < l" "l \<le> last (b' # bs) + 32" using assms(1) cshape_last[of "b' + 4" l "b' # bs"] by simp_all
  have inb: "last (b' # bs) \<in> set (b' # bs)" by (rule last_in_set) simp
  then have "b \<noteq> last (b' # bs)" using assms(2) by (metis distinct.simps(2))
  moreover have "blk (last (b' # bs))" using assms(3) list.set_intros(2)[OF inb] unfolding list_all_iff by blast
  ultimately have "b + 32 \<le> last (b' # bs) \<or> last (b' # bs) + 32 \<le> b" using blk_apart assms(3) by simp
  then show ?thesis using l by linarith
qed

lemma nextc_in_block:
  assumes "blk b" and "b + 4 \<le> cp" and "Suc cp < b + 32" and "c_cl q \<noteq> Suc cp" and "c_cc q \<noteq> 0"
  shows "nextc m q cp = Suc cp"
  using assms blk_mod[OF assms(1), of "Suc cp"] by (simp add: nextc_def)

lemma nextc_steps:
  assumes "cshape f l bs" and "distinct bs" and "list_all blk bs" and "chain (c_next m) (Some (hd bs)) bs"
    and "c_cl q = l" and "c_cc q \<noteq> 0" and "i < length (cbytes id f l bs)"
  shows "nextc m q (cbytes id f l bs ! i) = (if Suc i < length (cbytes id f l bs) then cbytes id f l bs ! Suc i else 0)"
  using assms
proof (induction f l bs arbitrary: i rule: cshape.induct)
  case (2 f l b)
  show ?case
  proof (cases "Suc i < l - f")
    case True
    then have "Suc (f + i) < b + 32" "c_cl q \<noteq> Suc (f + i)" using 2 by auto
    then show ?thesis using 2 True nextc_in_block[of b "f + i" q m] by simp
  next
    case False
    then have "Suc (f + i) = l" using 2 by simp
    then show ?thesis using 2 False by (simp add: nextc_def)
  qed
next
  case (3 f l b b' bs)
  note apart = cshape_apart[OF 3(2-4)]
  let ?A = "cbytes id (b' + 4) l (b' # bs)"
  have A: "cbytes id f l (b # b' # bs) = [f ..< b + 32] @ ?A" by simp
  have f: "b + 4 \<le> f" "f < b + 32" "blk b" and sh: "cshape (b' + 4) l (b' # bs)" using 3(2,4) by simp_all
  show ?case
  proof (cases "i < b + 32 - f")
    case False
    then obtain j where j: "i = (b + 32 - f) + j" by (metis le_Suc_ex not_less)
    have "nextc m q (?A ! j) = (if Suc j < length ?A then ?A ! Suc j else 0)"
      using 3 j by (intro "3.IH") auto
    then show ?thesis unfolding A j by (simp add: nth_append)
  next
    case True
    have ne: "Suc (f + i) \<noteq> l" using apart f True by auto
    show ?thesis
    proof (cases "Suc i < b + 32 - f")
      case True
      then show ?thesis using nextc_in_block[of b "f + i" q m] f 3(6,7) ne unfolding A by (simp add: nth_append)
    next
      case False
      then have cp: "f + i = b + 31" "Suc i = b + 32 - f" using \<open>i < b + 32 - f\<close> f by simp_all
      have "nextc m q (b + 31) = b' + 4"
        using 3(5-7) ne cp(1) blk_end[OF f(3)] by (simp add: nextc_def next_info_def)
      moreover obtain zs where "?A = (b' + 4) # zs"
        using cbytes_pos[OF sh, of id] cbytes_hd[OF sh] by (cases ?A) auto
      ultimately show ?thesis using cp f(2) unfolding A by (simp add: nth_append)
    qed
  qed
qed simp

text \<open>The last block of the list is recognised by its address.\<close>

lemma ndflush_stop:
  assumes "clist_rep m fl q (b # bs) xs"
  shows "cround_down (c_cf q) = b"
    "(if b = cround_down (c_cl q - 1) then c_cl q else b + 32) = front_room (c_cl q) (b # bs)"
proof -
  have r: "cshape (c_cf q) (c_cl q) (b # bs)" "blk b" "distinct (b # bs)" using assms by (simp_all add: clist_rep_cons)
  show "cround_down (c_cf q) = b" using cshape_first[OF r(1)] r(2) by (intro blk_round) auto
  note t = tail_block[OF assms list.distinct(2)]
  have lb: "cround_down (c_cl q - 1) = last (b # bs)" using t by (intro blk_round) auto
  show "(if b = cround_down (c_cl q - 1) then c_cl q else b + 32) = front_room (c_cl q) (b # bs)"
  proof (cases bs)
    case Nil
    then show ?thesis using lb by (simp add: front_room_def)
  next
    case (Cons b' bs')
    have "last (b # bs) \<in> set bs" using Cons by (metis last_ConsR last_in_set list.distinct(1))
    then have "b \<noteq> last (b # bs)" using r(3) by (metis distinct.simps(2))
    then show ?thesis using lb Cons by (simp add: front_room_def)
  qed
qed

definition settle :: "clist \<Rightarrow> clist" where
  "settle q = (if c_cc q \<le> 0 then q\<lparr>c_cf := 0, c_cl := 0, c_cc := 0\<rparr> else q)"

lemma ndflush_loop_refines:
  assumes "clist_rep m fl q bs xs" and "bs \<noteq> []" and "0 \<le> cc" and "length bs < fuel"
  shows "\<exists>m' q' fl' bs'. ndflush_loop fuel m q cc = Inr (m', q') \<and> clist_rep m' fl' (settle q') bs' (drop (nat cc) xs)
    \<and> set (fl' @ bs') = set (fl @ bs) \<and> cframe (set (fl @ bs)) m m'"
  using assms
proof (induction bs arbitrary: fuel m fl q xs cc)
  case (Cons b bs)
  note rep = Cons.prems(1)
  note st = ndflush_stop[OF rep] and fr = front_run[OF rep] and t = tail_block[OF rep list.distinct(2)]
  have r: "chain (c_next m) (cfreelist m) fl" "distinct (fl @ b # bs)" "list_all blk (fl @ b # bs)"
    "chain (c_next m) (c_next m b) bs" "cshape (c_cf q) (c_cl q) (b # bs)" "cfreecount m = 28 * length fl"
    "c_cc q = int (length xs)" "xs = cbytes (c_info m) (c_cf q) (c_cl q) (b # bs)"
    using rep by (simp_all add: clist_rep_cons)
  obtain f where f: "fuel = Suc f" using Cons.prems(4) by (cases fuel) auto
  define n where "n = front_room (c_cl q) (b # bs) - c_cf q"
  have n: "c_cf q + n = front_room (c_cl q) (b # bs)" "n \<le> length xs" using fr(2,3) by (auto simp: n_def)
  have rem: "int (front_room (c_cl q) (b # bs)) - int (c_cf q) = int n" using n(1) by simp
  have unf: "ndflush_loop fuel m q cc = (if 0 < cc then
      if int n \<le> cc then ndflush_loop f (free_block m b) (q\<lparr>c_cc := c_cc q - int n, c_cf := next_info m b\<rparr>) (cc - int n)
      else Inr (if c_cc q - cc \<le> 0 then free_block m b else m, q\<lparr>c_cc := c_cc q - cc, c_cf := nat (int (c_cf q) + cc)\<rparr>)
    else Inr (m, q))"
    using t(7) unfolding f ndflush_loop.simps Let_def st rem by auto
  consider (zero) "cc = 0" | (part) "0 < cc" "cc < int n" | (all) "0 < cc" "int n \<le> cc" using Cons.prems(3) by linarith
  then show ?case
  proof cases
    case zero
    then show ?thesis using unf rep t(7)
      by - (rule exI[of _ m], rule exI[of _ q], rule exI[of _ fl], rule exI[of _ "b # bs"], auto simp: settle_def)
  next
    case part
    have lt: "c_cf q + nat cc < front_room (c_cl q) (b # bs)" using part n(1) by linarith
    have pos: "0 < c_cc q - cc" using part n(2) r(7) by linarith
    let ?q = "q\<lparr>c_cc := c_cc q - cc, c_cf := nat (int (c_cf q) + cc)\<rparr>"
    have cf: "nat (int (c_cf q) + cc) = c_cf q + nat cc" using part by simp
    have "drop (nat cc) xs = cbytes (c_info m) (c_cf q + nat cc) (c_cl q) (b # bs)"
      using cbytes_front[OF r(5), of "nat cc" "c_info m"] lt r(8) by simp
    moreover have "c_cc q - cc = int (length (drop (nat cc) xs))" using r(7) part n(2) by simp
    ultimately have "clist_rep m fl ?q (b # bs) (drop (nat cc) xs)"
      using r cshape_front[OF r(5) lt] cf by (simp add: clist_rep_cons)
    then show ?thesis using unf part pos
      by - (rule exI[of _ m], rule exI[of _ ?q], rule exI[of _ fl], rule exI[of _ "b # bs"], simp add: settle_def)
  next
    case all
    let ?m = "free_block m b" and ?q = "q\<lparr>c_cc := c_cc q - int n, c_cf := next_info m b\<rparr>"
    have dr: "drop n xs = (if bs = [] then [] else cbytes (c_info m) (hd bs + 4) (c_cl q) bs)"
      using cbytes_front[OF r(5), of n "c_info m"] n(1) r(8) by simp
    have len: "c_cc q - int n = int (length (drop n xs))" using r(7) n(2) by simp
    have fb: "cframe (set (fl @ b # bs)) m ?m" by (auto simp: cframe_def free_block_fields)
    show ?thesis
    proof (cases "bs = []")
      case True
      then have z: "c_cc ?q = 0" using len dr by simp
      obtain f' where f': "f = Suc f'" using Cons.prems(4) f by (cases f) auto
      have "ndflush_loop fuel m q cc = Inr (?m, ?q)" using unf all z f' by (simp add: ndflush_loop.simps(2))
      moreover have "drop (nat cc) xs = []" using dr True all n(2) by simp
      moreover have "clist_rep ?m (b # fl) (settle ?q) [] []"
        using r True z by (auto simp: clist_rep_def settle_def free_block_fields chain_frame)
      ultimately show ?thesis using fb True
        by - (rule exI[of _ ?m], rule exI[of _ ?q], rule exI[of _ "b # fl"], rule exI[of _ "[]"], auto)
    next
      case False
      then have ni: "next_info m b = hd bs + 4" using r(4) by (cases bs) (auto simp: next_info_def)
      have rep': "clist_rep ?m (b # fl) ?q bs (drop n xs)"
        using drop_block[OF rep False, of ?m ?q] dr False len ni by (simp add: free_block_fields)
      have sm: "0 \<le> cc - int n" "length bs < f" using all Cons.prems(4) f by simp_all
      have "drop (nat (cc - int n)) (drop n xs) = drop (nat cc) xs" using all by (simp add: nat_diff_distrib)
      moreover have "set ((b # fl) @ bs) = set (fl @ b # bs)" by auto
      ultimately obtain m' q' fl' bs' where IH: "ndflush_loop f ?m ?q (cc - int n) = Inr (m', q')"
        "clist_rep m' fl' (settle q') bs' (drop (nat cc) xs)" "set (fl' @ bs') = set (fl @ b # bs)"
        "cframe (set (fl @ b # bs)) ?m m'"
        using Cons.IH[OF rep' False sm] by metis
      then show ?thesis using unf all cframe_trans[OF fb] by auto
    qed
  qed
qed simp

lemma ndflush_refines:
  assumes "clist_rep m fl q bs xs" and "0 \<le> cc" and "length bs \<le> 32"
  shows "\<exists>m' q' fl' bs'. ndflush m q cc = Inr (m', q') \<and> clist_rep m' fl' q' bs' (drop (nat cc) xs)
    \<and> set (fl' @ bs') = set (fl @ bs) \<and> cframe (set (fl @ bs)) m m'"
proof (cases "bs = []")
  case True
  then show ?thesis using assms(1)
    by - (rule exI[of _ m], rule exI[of _ q], rule exI[of _ fl], rule exI[of _ bs], simp add: ndflush_def clist_rep_def)
next
  case False
  obtain m' q' fl' bs' where l: "ndflush_loop 33 m q cc = Inr (m', q')" "clist_rep m' fl' (settle q') bs' (drop (nat cc) xs)"
    "set (fl' @ bs') = set (fl @ bs)" "cframe (set (fl @ bs)) m m'"
    using ndflush_loop_refines[OF assms(1) False assms(2), of 33] assms(3) by auto
  have "ndflush m q cc = Inr (m', settle q')"
    using l(1) tail_block(7)[OF assms(1) False] by (simp add: ndflush_def settle_def)
  then show ?thesis using l(2-4) by auto
qed

section \<open>Two lists\<close>

text \<open>An operation on one list leaves another list that shares the free blocks alone.\<close>

lemma other_list:
  assumes "clist_rep m fl q bs xs" and "clist_rep m fl p cs zs" and "set bs \<inter> set cs = {}"
    and "clist_rep m' fl' q' bs' xs'" and "set (fl' @ bs') = set (fl @ bs)" and "cframe (set (fl @ bs)) m m'"
  shows "clist_rep m' fl' p cs zs" "set bs' \<inter> set cs = {}"
proof -
  have cs: "distinct (fl @ cs)" "list_all blk (fl @ cs)" "list_all blk (fl @ bs)" using assms(1,2) by (simp_all add: clist_rep_def)
  have out: "c \<notin> set (fl @ bs)" if "c \<in> set cs" for c using that cs(1) assms(3) by auto
  then show "set bs' \<inter> set cs = {}" using assms(5) by auto
  have fl': "set fl' \<inter> set cs = {}" using assms(5) out by auto
  have blks: "list_all blk fl'" "distinct fl'" "chain (c_next m') (cfreelist m') fl'" "cfreecount m' = 28 * length fl'"
    using assms(4) by (simp_all add: clist_rep_def)
  have nx: "chain (c_next m') h cs \<longleftrightarrow> chain (c_next m) h cs" for h
    using assms(6) out by (intro chain_cong) (auto simp: cframe_def)
  have info: "cbytes (c_info m') f l cs = cbytes (c_info m) f l cs" if sh: "cshape f l cs" for f l
  proof (rule cbytes_cong[OF sh])
    fix c x assume c: "c \<in> set cs" and x: "c + 4 \<le> x" "x < c + 32"
    have "\<not> (b + 4 \<le> x \<and> x < b + 32)" if b: "b \<in> set (fl @ bs)" for b
    proof -
      have "blk b" "blk c" "b \<noteq> c" using b c cs out by (auto simp: list_all_iff)
      then show ?thesis using blk_apart x by fastforce
    qed
    then show "c_info m' x = c_info m x" using assms(6) unfolding cframe_def by blast
  qed
  show "clist_rep m' fl' p cs zs"
    using assms(2) fl' blks nx info by (auto simp: clist_rep_def split: if_splits)
qed

lemma catq_loop_refines:
  assumes "clist_rep m fl p cs xs" and "clist_rep m fl q bs ys" and "set bs \<inter> set cs = {}"
    and "length xs < fuel" and "length xs \<le> 28 * length fl"
  shows "\<exists>m' p' q' fl' bs'. catq_loop fuel m p q = Inr (m', p', q') \<and> clist_rep m' fl' p' [] []
    \<and> clist_rep m' fl' q' bs' (ys @ xs) \<and> set (fl' @ bs') = set (fl @ bs @ cs)"
  using assms
proof (induction fuel arbitrary: m fl p cs xs q bs ys)
  case (Suc fuel)
  show ?case
  proof (cases "xs = []")
    case True
    then have "cs = []" using clist_rep_empty[OF Suc.prems(1)] by simp
    moreover have "catq_loop (Suc fuel) m p q = Inr (m, p, q)" using Suc.prems(1) True by (simp add: catq_loop.simps(2) clist_rep_def)
    ultimately show ?thesis using Suc.prems(1,2) True
      by - (rule exI[of _ m], rule exI[of _ p], rule exI[of _ q], rule exI[of _ fl], rule exI[of _ bs], auto)
  next
    case False
    have pos: "0 < c_cc p" using Suc.prems(1) False by (simp add: clist_rep_def)
    obtain m1 p1 fl1 cs1 where q: "q_to_b m p 112 = Inr (take 112 xs, m1, p1)" "clist_rep m1 fl1 p1 cs1 (drop 112 xs)"
      "set (fl1 @ cs1) = set (fl @ cs)" "cframe (set (fl @ cs)) m m1" "length fl \<le> length fl1"
      using q_to_b_refines[OF Suc.prems(1), of 112] by auto
    have dj: "set cs \<inter> set bs = {}" using Suc.prems(3) by auto
    note o1 = other_list[OF Suc.prems(1,2) dj q(2-4)]
    obtain k m2 q2 where b: "b_to_q m1 (take 112 xs) q = Inr (int (length (take 112 xs) - k), m2, q2)"
      "full_at fl1 k (take 112 xs)" "stored m1 fl1 bs m2 q2 (ys @ take k (take 112 xs)) k"
      using b_to_q_refines[OF o1(1)] by blast
    have "length (take 112 xs) \<le> 28 * length fl1" using Suc.prems(5) q(5) by simp
    then have k: "k = length (take 112 xs)" using b(2) by (auto simp: full_at_def)
    then have tk: "take k (take 112 xs) = take 112 xs" by (metis take_all order_refl)
    obtain fl2 bs2 where s: "clist_rep m2 fl2 q2 bs2 (ys @ take 112 xs)" "set (fl2 @ bs2) = set (fl1 @ bs)"
      "cframe (set (fl1 @ bs)) m1 m2" "28 * length fl1 \<le> 28 * length fl2 + k + 27"
      using b(3)[unfolded tk stored_def] by blast
    have dj1: "set bs \<inter> set cs1 = {}" using o1(2) by auto
    note o2 = other_list[OF o1(1) q(2) dj1 s(1-3)]
    have fits: "length (drop 112 xs) \<le> 28 * length fl2"
    proof (cases "length xs \<le> 112")
      case False
      then have "k = 112" using k by simp
      then have "28 * length fl1 \<le> 28 * length fl2 + 139" using s(4) by simp
      then have "length fl1 \<le> length fl2 + 4" by simp
      then show ?thesis using Suc.prems(5) q(5) by simp
    qed simp
    have sm: "length (drop 112 xs) < fuel" using Suc.prems(4) False by (cases xs) auto
    obtain m' p' q' fl' bs' where IH: "catq_loop fuel m2 p1 q2 = Inr (m', p', q')" "clist_rep m' fl' p' [] []"
      "clist_rep m' fl' q' bs' ((ys @ take 112 xs) @ drop 112 xs)" "set (fl' @ bs') = set (fl2 @ bs2 @ cs1)"
      using Suc.IH[OF o2(1) s(1) o2(2) sm fits] by blast
    have "set (fl2 @ bs2 @ cs1) = set (fl @ bs @ cs)" using s(2) q(3) by auto
    moreover have "catq_loop (Suc fuel) m p q = Inr (m', p', q')"
      using pos q(1) b(1) IH(1) by (simp add: catq_loop.simps(2))
    ultimately show ?thesis using IH by auto
  qed
qed simp

lemma catq_refines:
  assumes "clist_rep m fl p cs xs" and "clist_rep m fl q bs ys" and "set bs \<inter> set cs = {}"
    and "ys = [] \<or> length xs \<le> 28 * length fl"
  shows "\<exists>m' p' q' fl' bs'. catq m p q = Inr (m', p', q') \<and> clist_rep m' fl' p' [] []
    \<and> clist_rep m' fl' q' bs' (ys @ xs) \<and> set (fl' @ bs') = set (fl @ bs @ cs)"
proof (cases "ys = []")
  case True
  then have "bs = []" using clist_rep_empty[OF assms(2)] by simp
  moreover have "catq m p q = Inr (m, p\<lparr>c_cc := 0, c_cf := 0, c_cl := 0\<rparr>, p)" using assms(2) True by (simp add: catq_def clist_rep_def)
  ultimately show ?thesis using assms(1) True
    by - (rule exI, rule exI, rule exI, rule exI[of _ fl], rule exI[of _ cs], auto simp: clist_rep_def)
next
  case False
  have "catq m p q = catq_loop (Suc (length xs)) m p q" using assms(1,2) False by (simp add: catq_def clist_rep_def)
  then show ?thesis using catq_loop_refines[OF assms(1-3), of "Suc (length xs)"] assms(4) False by simp
qed

section \<open>The free blocks at boot\<close>

lemma cinit_loop_chain:
  assumes "chain (c_next m) (cfreelist m) fl" and "\<forall>b \<in> set fl. b < cp" and "cfreecount m = 28 * length fl"
    and "distinct fl" and "list_all blk fl" and "blk cp" and "stop + 32 = cp + 32 * n"
  shows "\<exists>fl'. chain (c_next (cinit_loop stop cp m)) (cfreelist (cinit_loop stop cp m)) fl' \<and> distinct fl' \<and> list_all blk fl'
    \<and> cfreecount (cinit_loop stop cp m) = 28 * length fl' \<and> length fl' = length fl + n"
  using assms
proof (induction n arbitrary: cp m fl)
  case 0
  then have "cinit_loop stop cp m = m" by (subst cinit_loop.simps) simp
  then show ?case using 0 by auto
next
  case (Suc n)
  have new: "cp \<notin> set fl" using Suc.prems(2) by auto
  have unf: "cinit_loop stop cp m = cinit_loop stop (cp + 32) (put_block m cp)"
    using Suc.prems(7) by (subst cinit_loop.simps) simp
  have "chain ((c_next m)(cp := cfreelist m)) (cfreelist m) fl" using Suc.prems(1) new by (simp add: chain_frame)
  then have "chain (c_next (put_block m cp)) (cfreelist (put_block m cp)) (cp # fl)"
    by (simp add: put_block_fields)
  then have "\<exists>fl'. chain (c_next (cinit_loop stop (cp + 32) (put_block m cp))) (cfreelist (cinit_loop stop (cp + 32) (put_block m cp))) fl'
      \<and> distinct fl' \<and> list_all blk fl' \<and> cfreecount (cinit_loop stop (cp + 32) (put_block m cp)) = 28 * length fl'
      \<and> length fl' = length (cp # fl) + n"
    by (rule Suc.IH) (use Suc.prems new in \<open>auto simp: put_block_fields blk_def\<close>)
  then show ?case unfolding unf by simp
qed

text \<open>\<open>cfree\<close> is aligned to the size of a block, so no block of it is lost.\<close>

lemma cinit_free:
  assumes "cfreelist m = None" and "cfreecount m = 0" and "blk cfree"
  shows "\<exists>fl. clist_rep (cinit cfree m) fl \<lparr>c_cc = 0, c_cf = 0, c_cl = 0\<rparr> [] [] \<and> length fl = 32"
proof -
  have "cround_down (cfree + 31) = cfree" using assms(3) by (intro blk_round) auto
  then show ?thesis using cinit_loop_chain[of m "[]" cfree "cfree + 31 * 32" 32] assms
    by (auto simp: clist_rep_def cinit_def)
qed

section \<open>The queue contract\<close>

fun feed :: "(nat \<Rightarrow> 's \<Rightarrow> int \<times> 's) \<Rightarrow> nat list \<Rightarrow> 's \<Rightarrow> int list \<times> 's" where
  "feed put [] s = ([], s)"
| "feed put (c # cs) s = (let (r, s1) = put c s; (rs, s2) = feed put cs s1 in (r # rs, s2))"

fun drain :: "('s \<Rightarrow> int \<times> 's) \<Rightarrow> nat \<Rightarrow> 's \<Rightarrow> int list \<times> 's" where
  "drain get 0 s = ([], s)"
| "drain get (Suc n) s = (let (r, s1) = get s; (rs, s2) = drain get n s1 in (r # rs, s2))"

text \<open>The characters whose \<open>put\<close> answered 0.\<close>

fun accepted :: "nat list \<Rightarrow> int list \<Rightarrow> nat list" where
  "accepted (c # cs) (r # rs) = (if r = 0 then (c mod 256) # accepted cs rs else accepted cs rs)"
| "accepted _ _ = []"

locale byte_queue =
  fixes holds :: "'s \<Rightarrow> nat list \<Rightarrow> bool"
    and room :: "'s \<Rightarrow> bool"
    and put :: "nat \<Rightarrow> 's \<Rightarrow> int \<times> 's"
    and get :: "'s \<Rightarrow> int \<times> 's"
  assumes put_room: "holds s xs \<Longrightarrow> room s \<Longrightarrow> \<exists>s'. put c s = (0, s') \<and> holds s' (xs @ [c mod 256])"
    and put_full: "holds s xs \<Longrightarrow> \<not> room s \<Longrightarrow> put c s = (-1, s)"
    and get_some: "holds s (x # xs) \<Longrightarrow> \<exists>s'. get s = (int (x mod 256), s') \<and> holds s' xs"
    and get_none: "holds s [] \<Longrightarrow> get s = (-1, s)"
begin

lemma feed_holds:
  assumes "holds s xs"
  shows "holds (snd (feed put cs s)) (xs @ accepted cs (fst (feed put cs s)))"
  using assms
proof (induction cs arbitrary: s xs)
  case (Cons c cs)
  show ?case
  proof (cases "room s")
    case True
    then obtain s' where s': "put c s = (0, s')" "holds s' (xs @ [c mod 256])" using put_room[OF Cons.prems] by blast
    then show ?thesis using Cons.IH[OF s'(2)] by (simp add: case_prod_unfold Let_def)
  next
    case False
    then show ?thesis using put_full[OF Cons.prems False] Cons.IH[OF Cons.prems] by (simp add: case_prod_unfold Let_def)
  qed
qed simp

lemma drain_holds:
  assumes "holds s (xs @ ys)"
  shows "fst (drain get (length xs) s) = map (\<lambda>x. int (x mod 256)) xs \<and> holds (snd (drain get (length xs) s)) ys"
  using assms
proof (induction xs arbitrary: s)
  case (Cons x xs)
  then obtain s' where s': "get s = (int (x mod 256), s')" "holds s' (xs @ ys)" using get_some[of s x "xs @ ys"] by auto
  then show ?case using Cons.IH[OF s'(2)] by (simp add: case_prod_unfold Let_def)
qed simp

lemma feed_drain:
  assumes "holds s xs"
  shows "let (rs, s1) = feed put cs s; (out, s2) = drain get (length xs + length (accepted cs rs)) s1
    in out = map (\<lambda>x. int (x mod 256)) (xs @ accepted cs rs) \<and> holds s2 [] \<and> get s2 = (-1, s2)"
proof -
  obtain rs s1 where f: "feed put cs s = (rs, s1)" by force
  then have "holds s1 (xs @ accepted cs rs)" using feed_holds[OF assms, of cs] by simp
  then show ?thesis using f drain_holds[of s1 "xs @ accepted cs rs" "[]"] get_none
    by (simp add: case_prod_unfold Let_def)
qed

end

definition clist_holds :: "cmem \<times> clist \<Rightarrow> nat list \<Rightarrow> bool" where
  "clist_holds s xs \<longleftrightarrow> (\<exists>fl bs. clist_rep (fst s) fl (snd s) bs xs)"

definition clist_room :: "cmem \<times> clist \<Rightarrow> bool" where
  "clist_room s \<longleftrightarrow> cfreelist (fst s) \<noteq> None \<or> c_cl (snd s) mod 32 \<noteq> 0"

definition clist_put :: "nat \<Rightarrow> cmem \<times> clist \<Rightarrow> int \<times> cmem \<times> clist" where
  "clist_put c s = putc (fst s) c (snd s)"

definition clist_get :: "cmem \<times> clist \<Rightarrow> int \<times> cmem \<times> clist" where
  "clist_get s = getc (fst s) (snd s)"

lemma free_none: "clist_rep m fl q bs xs \<Longrightarrow> cfreelist m = None \<longleftrightarrow> fl = []"
  by (cases fl; cases "cfreelist m") (auto simp: clist_rep_def)

interpretation clist_queue: byte_queue clist_holds clist_room clist_put clist_get
proof (unfold_locales, goal_cases)
  case (1 s xs c)
  then obtain fl bs where r: "clist_rep (fst s) fl (snd s) bs xs" by (auto simp: clist_holds_def)
  then show ?case using putc_refines[OF r, of c] 1(2) free_none[OF r]
    by (fastforce simp: clist_room_def clist_put_def clist_holds_def)
next
  case (2 s xs c)
  then obtain fl bs where r: "clist_rep (fst s) fl (snd s) bs xs" by (auto simp: clist_holds_def)
  then show ?case using putc_refines[OF r, of c] 2(2) free_none[OF r]
    by (auto simp: clist_room_def clist_put_def)
next
  case (3 s x xs)
  then obtain fl bs where r: "clist_rep (fst s) fl (snd s) bs (x # xs)" by (auto simp: clist_holds_def)
  then show ?case using getc_refines[OF r] by (fastforce simp: clist_get_def clist_holds_def)
next
  case (4 s)
  then obtain fl bs where r: "clist_rep (fst s) fl (snd s) bs []" by (auto simp: clist_holds_def)
  then show ?case using getc_refines[OF r] by (simp add: clist_get_def)
qed

section \<open>Properties\<close>

text \<open>
  C38. First in, first out: whatever a list holds, after any sequence of \<open>putc\<close> calls as many
  \<open>getc\<close> calls as there are characters deliver the old characters and then exactly those whose
  \<open>putc\<close> answered 0, in order; the next \<open>getc\<close> answers -1.
\<close>

theorem clist_fifo:
  assumes "clist_rep m fl q bs xs"
  shows "let (rs, s1) = feed (\<lambda>c s. putc (fst s) c (snd s)) cs (m, q);
      (out, s2) = drain (\<lambda>s. getc (fst s) (snd s)) (length xs + length (accepted cs rs)) s1
    in out = map (\<lambda>x. int (x mod 256)) (xs @ accepted cs rs) \<and> fst (getc (fst s2) (snd s2)) = -1"
proof -
  have "clist_holds (m, q) xs" using assms by (auto simp: clist_holds_def)
  from clist_queue.feed_drain[OF this, of cs] show ?thesis
    unfolding clist_put_def[abs_def] clist_get_def[abs_def] by (auto simp: case_prod_unfold Let_def)
qed

text \<open>A pool of two blocks and an empty list, for concrete runs.\<close>

definition two_blocks :: cmem where
  "two_blocks = \<lparr>c_next = (\<lambda>b. if b = 64 then Some 32 else None), c_info = (\<lambda>_. 0), cfreelist = Some 64,
     cfreecount = 56, cwaiting = False, woken = 0\<rparr>"

definition no_chars :: clist where
  "no_chars = \<lparr>c_cc = 0, c_cf = 0, c_cl = 0\<rparr>"

lemma two_blocks_rep: "clist_rep two_blocks [64, 32] no_chars [] []"
  by (simp add: clist_rep_def two_blocks_def no_chars_def blk_def)

theorem clist_fifo_witness:
  "let (rs, s1) = feed (\<lambda>c s. putc (fst s) c (snd s)) [104, 105] (two_blocks, no_chars);
      (out, s2) = drain (\<lambda>s. getc (fst s) (snd s)) (0 + length (accepted [104, 105] rs)) s1
    in out = map (\<lambda>x. int (x mod 256)) (accepted [104, 105] rs) \<and> fst (getc (fst s2) (snd s2)) = -1"
  using clist_fifo[OF two_blocks_rep, of "[104, 105]"] by simp

text \<open>
  \<open>b_to_q\<close> appends a prefix of the buffer and answers how many characters are left; it
  falls short only after it has placed at least 28 characters for every free block, so a buffer
  that fits the free blocks is always taken whole.  Another list on the same free blocks keeps its
  characters.
\<close>

theorem b_to_q_appends:
  assumes "clist_rep m fl q bs xs" and "clist_rep m fl p cs zs" and "set bs \<inter> set cs = {}"
  shows "\<exists>k m' q' fl' bs'. b_to_q m ys q = Inr (int (length ys - k), m', q') \<and> k \<le> length ys
    \<and> (k < length ys \<longrightarrow> 28 * length fl \<le> k)
    \<and> clist_rep m' fl' q' bs' (xs @ take k ys) \<and> clist_rep m' fl' p cs zs \<and> set bs' \<inter> set cs = {}"
proof -
  obtain k m' q' fl' bs' where b: "b_to_q m ys q = Inr (int (length ys - k), m', q')" "full_at fl k ys"
    "clist_rep m' fl' q' bs' (xs @ take k ys)" "set (fl' @ bs') = set (fl @ bs)" "cframe (set (fl @ bs)) m m'"
    using b_to_q_refines[OF assms(1), of ys] unfolding stored_def by blast
  then show ?thesis using other_list[OF assms b(3-5)] unfolding full_at_def by blast
qed

theorem b_to_q_appends_witness:
  "\<exists>k m' q' fl' bs'. b_to_q two_blocks [1, 2, 3] no_chars = Inr (int (length [1, 2, 3 :: nat] - k), m', q')
    \<and> k \<le> length [1, 2, 3 :: nat] \<and> (k < length [1, 2, 3 :: nat] \<longrightarrow> 28 * 2 \<le> k)
    \<and> clist_rep m' fl' q' bs' (take k [1, 2, 3]) \<and> clist_rep m' fl' no_chars [] [] \<and> set bs' \<inter> set [] = {}"
  using b_to_q_appends[OF two_blocks_rep two_blocks_rep, of "[1, 2, 3]"] by simp

text \<open>
  \<open>unputc\<close> undoes \<open>putc\<close>: when \<open>putc\<close> accepts a character, \<open>unputc\<close> returns that character and
  leaves the list with the characters it had, on the same blocks.
\<close>

theorem unputc_undoes_putc:
  assumes "clist_rep m fl q bs xs" and "length (fl @ bs) \<le> 32" and "putc m c q = (0, m1, q1)"
  shows "\<exists>m2 q2 fl2 bs2. unputc m1 q1 = Inr (int (c mod 256), m2, q2) \<and> clist_rep m2 fl2 q2 bs2 xs
    \<and> set (fl2 @ bs2) = set (fl @ bs)"
proof -
  obtain fl1 bs1 where p: "clist_rep m1 fl1 q1 bs1 (xs @ [c mod 256])" "set (fl1 @ bs1) = set (fl @ bs)"
    using putc_refines[OF assms(1), of c] assms(3) by (auto split: if_splits)
  have "length bs1 \<le> length (fl1 @ bs1)" by simp
  also have "length (fl1 @ bs1) = card (set (fl @ bs))"
    using p distinct_card[of "fl1 @ bs1"] by (simp add: clist_rep_def)
  also have "\<dots> \<le> 32" using assms(2) card_length[of "fl @ bs"] by linarith
  finally have "length bs1 \<le> 32" .
  from unputc_refines[OF p(1) this] show ?thesis using p(2) by (metis mod_mod_trivial)
qed

theorem unputc_undoes_putc_witness:
  "\<exists>m1 q1 m2 q2 fl2 bs2. putc two_blocks 65 no_chars = (0, m1, q1) \<and> unputc m1 q1 = Inr (65, m2, q2)
    \<and> clist_rep m2 fl2 q2 bs2 [] \<and> set (fl2 @ bs2) = {64, 32}"
proof -
  obtain m1 q1 where p: "putc two_blocks 65 no_chars = (0, m1, q1)"
    by (simp add: putc_def first_block_def two_blocks_def no_chars_def)
  from unputc_undoes_putc[OF two_blocks_rep _ p] show ?thesis using p by auto
qed

text \<open>
  What \<open>ndqb\<close> counts and \<open>ndflush\<close> drops: \<open>ndqb\<close> is the length of the longest run without a
  flagged character at the front of the first block, the driver may send those characters straight
  from \<open>c_cf\<close> on, and \<open>ndflush\<close> of any count returns with exactly that prefix removed and all blocks
  accounted for.
\<close>

theorem ndqb_ndflush_prefix:
  assumes "clist_rep m fl q bs xs" and "length (fl @ bs) \<le> 32" and "0 \<le> cc"
  shows "(\<exists>n. ndqb m q flag = int n \<and> n \<le> contiguous q xs \<and> (\<forall>x \<in> set (take n xs). and x flag = 0)
      \<and> (n < contiguous q xs \<longrightarrow> and (xs ! n) flag \<noteq> 0))
    \<and> (\<exists>m' q' fl' bs'. ndflush m q cc = Inr (m', q') \<and> clist_rep m' fl' q' bs' (drop (nat cc) xs)
      \<and> set (fl' @ bs') = set (fl @ bs))"
proof -
  let ?ys = "take (contiguous q xs) xs" and ?P = "\<lambda>c. and c flag = 0"
  have len: "length ?ys = contiguous q xs" by (simp add: contiguous_def)
  let ?n = "length (takeWhile ?P ?ys)"
  have n: "?n \<le> contiguous q xs" using length_takeWhile_le[of ?P ?ys] len by simp
  have tk: "take ?n xs = takeWhile ?P ?ys" using n by (metis min.absorb1 take_take takeWhile_eq_take)
  have "\<forall>x \<in> set (take ?n xs). ?P x" unfolding tk by (auto dest: set_takeWhileD)
  moreover have "?n < contiguous q xs \<longrightarrow> \<not> ?P (xs ! ?n)" using nth_length_takeWhile[of ?P ?ys] len by simp
  moreover note ndqb_counts[OF assms(1), of flag]
  ultimately have "\<exists>n. ndqb m q flag = int n \<and> n \<le> contiguous q xs \<and> (\<forall>x \<in> set (take n xs). ?P x)
      \<and> (n < contiguous q xs \<longrightarrow> \<not> ?P (xs ! n))" using n by blast
  moreover have "length bs \<le> 32" using assms(2) by simp
  ultimately show ?thesis using ndflush_refines[OF assms(1,3)] by blast
qed

text \<open>One block with the characters 65, 200, 66 in it.\<close>

definition three_chars :: "cmem \<times> clist" where
  "three_chars = (\<lparr>c_next = (\<lambda>_. None), c_info = (\<lambda>a. if a = 37 then 200 else if a = 36 then 65 else 66),
     cfreelist = None, cfreecount = 0, cwaiting = True, woken = 0\<rparr>, \<lparr>c_cc = 3, c_cf = 36, c_cl = 39\<rparr>)"

lemma three_chars_rep: "clist_rep (fst three_chars) [] (snd three_chars) [32] [65, 200, 66]"
  by (simp add: clist_rep_def three_chars_def blk_def upt_rec)

theorem ndqb_ndflush_prefix_witness:
  "(\<exists>n. ndqb (fst three_chars) (snd three_chars) 128 = int n \<and> n \<le> contiguous (snd three_chars) [65, 200, 66]
      \<and> (\<forall>x \<in> set (take n [65, 200, 66 :: nat]). and x 128 = 0)
      \<and> (n < contiguous (snd three_chars) [65, 200, 66] \<longrightarrow> and ([65, 200, 66 :: nat] ! n) 128 \<noteq> 0))
    \<and> (\<exists>m' q' fl' bs'. ndflush (fst three_chars) (snd three_chars) 2 = Inr (m', q')
      \<and> clist_rep m' fl' q' bs' (drop (nat 2) [65, 200, 66]) \<and> set (fl' @ bs') = set ([] @ [32]))"
  by (rule ndqb_ndflush_prefix[OF three_chars_rep]) simp_all

text \<open>
  \<open>catq\<close> terminates with the first list empty and its characters behind those of the second,
  if the second was empty or the free blocks have room for them; no block is lost.
\<close>

theorem catq_concatenates:
  assumes "clist_rep m fl p cs xs" and "clist_rep m fl q bs ys" and "set bs \<inter> set cs = {}"
    and "ys = [] \<or> length xs \<le> 28 * length fl"
  shows "\<exists>m' p' q' fl' bs'. catq m p q = Inr (m', p', q') \<and> clist_rep m' fl' p' [] []
    \<and> clist_rep m' fl' q' bs' (ys @ xs) \<and> set (fl' @ bs') = set (fl @ bs @ cs)"
  using catq_refines[OF assms] .

theorem catq_concatenates_witness:
  "\<exists>m' p' q' fl' bs'. catq (fst three_chars) (snd three_chars) no_chars = Inr (m', p', q') \<and> clist_rep m' fl' p' [] []
    \<and> clist_rep m' fl' q' bs' [65, 200, 66] \<and> set (fl' @ bs') = {32}"
proof -
  have "clist_rep (fst three_chars) [] no_chars [] []"
    by (simp add: clist_rep_def three_chars_def no_chars_def)
  from catq_concatenates[OF three_chars_rep this] show ?thesis by simp
qed

end
