(* ===== verification/Sched.thy ===== *)
theory Sched
  imports Callout
begin

text \<open>
  Processes and scheduling: \<open>struct proc\<close> (\<open>sys/sys/proc.h\<close>), the process queues
  (\<open>sys/kern/kern_proc.c\<close>), sleeping, waking, priorities and the choice of the next process
  (\<open>sys/kern/kern_synch.c\<close>) and the swapper's choice (\<open>sys/kern/vm_sched.c\<close>).

  A process is its slot number in \<open>proc[]\<close>.  A queue linked through the slots (\<open>qs\<close>,
  \<open>slpque[i]\<close>, \<open>allproc\<close>, \<open>pidhash[i]\<close>) is the list of the slots its links visit; a walk that
  runs past the end of its queue into a null pointer is the fault \<open>Wild\<close>.  \<open>qs\<close> and \<open>slpque\<close> use
  the same link field, which is sound because no slot is ever in two of them
  (\<open>queues_ok\<close>, kept by every operation).  The \<open>char\<close> fields are unsigned bytes, as on the ARM
  targets of the kernel.  Flags and signal masks are sets.  Addresses used as sleep channels
  (\<open>&lbolt\<close>, \<open>&runin\<close>, \<open>&runout\<close>, a process slot) are numbers chosen by the linker, held in fields
  of the state.  \<open>DIAGNOSTIC\<close> and \<open>UCB_METER\<close> are not configured.
\<close>

section \<open>Data\<close>

datatype pstat = SNONE | SSLEEP | SWAIT | SRUN | SIDL | SZOMB | SSTOP

datatype pflag = SLOAD | SSYS | SLOCK | SSWAP | P_TRACED | P_WAITED | P_LARGE | P_SINTR
  | SVFORK | SVFPRNT | SVFDONE | P_TIMEOUT | P_NOCLDSTOP | P_SELECT

record proc =
  p_pptr :: nat
  p_flag :: "pflag set"
  p_uid :: nat
  p_pid :: int
  p_ppid :: int
  p_sig :: "nat set"
  p_stat :: pstat
  p_pri :: nat
  p_cpu :: nat
  p_time :: nat
  p_nice :: nat
  p_slptime :: nat
  p_ptracesig :: nat
  p_sigmask :: "nat set"
  p_sigignore :: "nat set"
  p_sigcatch :: "nat set"
  p_pgrp :: int
  p_wchan :: nat
  p_rt_value :: nat
  p_rt_interval :: nat
  u_ruid :: nat
  ru_nvcsw :: nat
  ru_nivcsw :: nat

record sys =
  ptab :: "nat \<Rightarrow> proc"
  slpque :: "nat \<Rightarrow> nat list"
  qs :: "nat list"
  allproc :: "nat list"
  freeproc :: "nat list"
  zombproc :: "nat list"
  pidhash :: "nat \<Rightarrow> nat list"
  runrun :: nat
  curpri :: nat
  noproc :: nat
  runin :: nat
  runout :: nat
  u_procp :: nat
  panicstr :: bool
  calls :: callq
  a_lbolt :: nat
  a_runin :: nat
  a_runout :: nat
  a_proc :: "nat \<Rightarrow> nat"

definition NPROC :: nat where
  "NPROC = 25"

abbreviation PZERO :: int where "PZERO \<equiv> 25"
abbreviation PUSER :: nat where "PUSER \<equiv> 50"
abbreviation EINTR :: int where "EINTR \<equiv> 4"
abbreviation EINVAL :: int where "EINVAL \<equiv> 22"
abbreviation EWOULDBLOCK :: int where "EWOULDBLOCK \<equiv> 35"
abbreviation ERESTART :: int where "ERESTART \<equiv> -1"

definition upd :: "nat \<Rightarrow> (proc \<Rightarrow> proc) \<Rightarrow> sys \<Rightarrow> sys" where
  "upd p f s = s\<lparr>ptab := (ptab s)(p := f (ptab s p))\<rparr>"

definition HASH :: "nat \<Rightarrow> nat" where
  "HASH x = x div 32 mod 16"

section \<open>Priorities\<close>

definition setpri :: "nat \<Rightarrow> sys \<Rightarrow> nat \<times> sys" where
  "setpri pp s =
     (let p = p_cpu (ptab s pp) mod 256 div 16;
          p = p + (PUSER + p_nice (ptab s pp));
          p = (if p > 127 then 127 else p);
          s1 = (if p < curpri s then s\<lparr>runrun := runrun s + 1\<rparr> else s)
      in (p, upd pp (p_pri_update (\<lambda>_. p)) s1))"

text \<open>
  The decay loop of \<open>updatepri\<close>.  \<open>SCHMAG\<close> is the unparenthesised text \<open>8/10\<close>, so \<open>SCHMAG * a\<close> is
  \<open>(8/10) * a\<close>.
\<close>

function updatepri_loop :: "nat \<Rightarrow> nat \<Rightarrow> nat \<times> nat" where
  "updatepri_loop a slp =
     (if a = 0 then (a, slp)
      else let slp' = (slp + 255) mod 256
           in if slp' = 0 then (a, slp') else updatepri_loop (8 div 10 * a) slp')"
  by pat_completeness auto
termination
  by (relation "measure fst") auto

declare updatepri_loop.simps [simp del]

definition updatepri :: "nat \<Rightarrow> sys \<Rightarrow> sys" where
  "updatepri p s =
     (let (a, slp) = updatepri_loop (p_cpu (ptab s p) mod 256) ((p_slptime (ptab s p) + 255) mod 256);
          a = (if a > 255 then 255 else a)
      in snd (setpri p (upd p (\<lambda>pr. pr\<lparr>p_slptime := slp, p_cpu := a\<rparr>) s)))"

section \<open>Run queue\<close>

definition setrq :: "nat \<Rightarrow> sys \<Rightarrow> sys" where
  "setrq p s = s\<lparr>qs := p # qs s\<rparr>"

definition remrq :: "nat \<Rightarrow> sys \<Rightarrow> sys res" where
  "remrq p s = (if p \<in> set (qs s) then Inr (s\<lparr>qs := remove1 p (qs s)\<rparr>) else Inl (Panic ''remrq''))"

section \<open>Sleep queues\<close>

definition unsleep :: "nat \<Rightarrow> sys \<Rightarrow> sys res" where
  "unsleep p s =
     (if p_wchan (ptab s p) \<noteq> 0 then
        let h = HASH (p_wchan (ptab s p)) in
        if p \<in> set (slpque s h)
        then Inr (upd p (p_wchan_update (\<lambda>_. 0)) (s\<lparr>slpque := (slpque s)(h := remove1 p (slpque s h))\<rparr>))
        else Inl Wild
      else Inr s)"

text \<open>
  What \<open>wakeup\<close> does with a sleeper it has taken off the queue (its inline copy of \<open>setrun\<close>);
  \<open>wake\<close> is the inner \<open>wakeup (&runout)\<close>.
\<close>

definition wake_one :: "(nat \<Rightarrow> sys \<Rightarrow> sys res) \<Rightarrow> nat \<Rightarrow> sys \<Rightarrow> sys res" where
  "wake_one wake p s =
     (let s1 = (if 1 < p_slptime (ptab s p) then updatepri p s else s);
          s2 = upd p (\<lambda>pr. pr\<lparr>p_slptime := 0, p_stat := SRUN\<rparr>) s1;
          s3 = (if SLOAD \<in> p_flag (ptab s2 p) then setrq p s2 else s2);
          s4 = s3\<lparr>runrun := runrun s3 + 1\<rparr>
      in if SLOAD \<notin> p_flag (ptab s4 p) \<and> runout s4 \<noteq> 0
         then wake (a_runout s4) (s4\<lparr>runout := 0\<rparr>) else Inr s4)"

text \<open>
  The scan of one queue: \<open>i\<close> is the number of links before \<open>q\<close>; \<open>goto restart\<close> sets it to 0.
\<close>

fun wakeup_scan :: "nat \<Rightarrow> (nat \<Rightarrow> sys \<Rightarrow> sys res) \<Rightarrow> nat \<Rightarrow> nat \<Rightarrow> sys \<Rightarrow> sys res" where
  "wakeup_scan 0 wake chan i s = Inl Hang"
| "wakeup_scan (Suc fuel) wake chan i s =
     (let h = HASH chan; que = slpque s h in
      if length que \<le> i then Inr s
      else
        let p = que ! i in
        if p_stat (ptab s p) \<noteq> SSLEEP \<and> p_stat (ptab s p) \<noteq> SSTOP then Inl (Panic ''wakeup'')
        else if p_wchan (ptab s p) = chan then
          let s1 = upd p (p_wchan_update (\<lambda>_. 0))
                     (s\<lparr>slpque := (slpque s)(h := take i que @ drop (Suc i) que)\<rparr>)
          in if p_stat (ptab s1 p) = SSLEEP
             then andthen (wake_one wake p s1) (wakeup_scan fuel wake chan 0)
             else wakeup_scan fuel wake chan i (upd p (p_slptime_update (\<lambda>_. 0)) s1)
        else wakeup_scan fuel wake chan (Suc i) s)"

text \<open>
  \<open>wakeup\<close> calls itself on \<open>&runout\<close> after clearing \<open>runout\<close>, so the calls nest at most twice; a
  third level would be the fault \<open>Hang\<close>.
\<close>

definition scan_fuel :: "nat \<Rightarrow> sys \<Rightarrow> nat" where
  "scan_fuel chan s = (let n = length (slpque s (HASH chan)) in Suc (n * (n + 3)))"

fun wakeup_depth :: "nat \<Rightarrow> nat \<Rightarrow> sys \<Rightarrow> sys res" where
  "wakeup_depth 0 chan s = Inl Hang"
| "wakeup_depth (Suc d) chan s = wakeup_scan (scan_fuel chan s) (wakeup_depth d) chan 0 s"

definition wakeup :: "nat \<Rightarrow> sys \<Rightarrow> sys res" where
  "wakeup = wakeup_depth 2"

definition setrun :: "nat \<Rightarrow> sys \<Rightarrow> sys res" where
  "setrun p s =
     andthen
       (case p_stat (ptab s p) of
          SSTOP \<Rightarrow> unsleep p s
        | SSLEEP \<Rightarrow> unsleep p s
        | SIDL \<Rightarrow> Inr s
        | _ \<Rightarrow> Inl (Panic ''setrun''))
       (\<lambda>s. let s1 = (if 1 < p_slptime (ptab s p) then updatepri p s else s);
               s2 = upd p (p_stat_update (\<lambda>_. SRUN)) s1;
               s3 = (if SLOAD \<in> p_flag (ptab s2 p) then setrq p s2 else s2);
               s4 = (if p_pri (ptab s3 p) < curpri s3 then s3\<lparr>runrun := runrun s3 + 1\<rparr> else s3)
            in if SLOAD \<notin> p_flag (ptab s4 p) \<and> runout s4 \<noteq> 0
               then wakeup (a_runout s4) (s4\<lparr>runout := 0\<rparr>) else Inr s4)"

definition endtsleep :: "nat \<Rightarrow> sys \<Rightarrow> sys res" where
  "endtsleep p s =
     (if p_wchan (ptab s p) \<noteq> 0 then
        andthen (if p_stat (ptab s p) = SSLEEP then setrun p s else unsleep p s)
          (\<lambda>s. Inr (upd p (p_flag_update (insert P_TIMEOUT)) s))
      else Inr s)"

section \<open>Going to sleep\<close>

text \<open>\<open>endtsleep\<close> as a callout routine; the value stands for the function's address.\<close>

definition fn_endtsleep :: nat where
  "fn_endtsleep = 1"

text \<open>The current process enters the queue of its channel and starts its timeout.\<close>

definition tsleep_enqueue :: "nat \<Rightarrow> nat \<Rightarrow> nat \<Rightarrow> sys \<Rightarrow> sys res" where
  "tsleep_enqueue ident priority timo s =
     (let p = u_procp s;
          s1 = upd p (\<lambda>pr. pr\<lparr>p_wchan := ident, p_slptime := 0, p_pri := priority mod 256\<rparr>) s;
          h = HASH ident;
          s2 = s1\<lparr>slpque := (slpque s1)(h := p # slpque s1 h)\<rparr>
      in if timo \<noteq> 0
         then andthen (timeout (calls s2) fn_endtsleep (a_proc s2 p) (int timo)) (\<lambda>q. Inr (s2\<lparr>calls := q\<rparr>))
         else Inr s2)"

text \<open>From \<open>p_stat = SSLEEP\<close> to the call of \<open>swtch\<close>.\<close>

definition tsleep_block :: "sys \<Rightarrow> sys res" where
  "tsleep_block s =
     (let p = u_procp s;
          s1 = upd p (p_stat_update (\<lambda>_. SSLEEP)) s
      in andthen (if p \<noteq> 0 then wakeup (a_runin s1) s1 else Inr s1)
           (\<lambda>s. Inr (upd p (\<lambda>pr. pr\<lparr>ru_nvcsw := ru_nvcsw pr + 1\<rparr>) s)))"

text \<open>From the label \<open>resume\<close> on, for the process \<open>p\<close>.\<close>

definition tsleep_resume ::
  "(nat \<Rightarrow> sys \<Rightarrow> (nat \<times> sys) res) \<Rightarrow> nat set \<Rightarrow> nat \<Rightarrow> bool \<Rightarrow> nat \<Rightarrow> nat \<Rightarrow> sys \<Rightarrow> (int \<times> sys) res" where
  "tsleep_resume cursig sigintr p catch sig timo s =
     (let s1 = upd p (p_flag_update (\<lambda>f. f - {P_SINTR})) s;
          answer = (\<lambda>s.
            if catch then
              andthen (if sig \<noteq> 0 then Inr (sig, s) else cursig p s) (\<lambda>(sig, s).
                if sig \<noteq> 0 then Inr (if sig \<in> sigintr then EINTR else ERESTART, s) else Inr (0, s))
            else Inr (0, s))
      in if P_TIMEOUT \<in> p_flag (ptab s1 p) then
           let s2 = upd p (p_flag_update (\<lambda>f. f - {P_TIMEOUT})) s1
           in if sig = 0 then Inr (EWOULDBLOCK, s2) else answer s2
         else if timo \<noteq> 0 then
           andthen (untimeout (calls s1) fn_endtsleep (a_proc s1 p)) (\<lambda>q. answer (s1\<lparr>calls := q\<rparr>))
         else answer s1)"

text \<open>
  \<open>cursig\<close> is \<open>CURSIG\<close>, which may switch to other processes before it answers; \<open>switch\<close> stands
  for \<open>swtch\<close> as the caller sees it: it yields the state in which the process runs again.
\<close>

definition tsleep ::
  "(nat \<Rightarrow> sys \<Rightarrow> (nat \<times> sys) res) \<Rightarrow> (sys \<Rightarrow> sys res) \<Rightarrow> nat set \<Rightarrow> nat \<Rightarrow> nat \<Rightarrow> nat \<Rightarrow> sys \<Rightarrow> (int \<times> sys) res" where
  "tsleep cursig switch sigintr ident priority timo s =
     (let p = u_procp s; catch = odd (priority div 256) in
      if timo > 2147483647 then Inr (EINVAL, s)
      else if panicstr s then Inr (0, s)
      else andthen (tsleep_enqueue ident priority timo s) (\<lambda>s.
        if catch then
          andthen (cursig p (upd p (p_flag_update (insert P_SINTR)) s)) (\<lambda>(sig, s).
            if sig \<noteq> 0 then
              andthen (if p_wchan (ptab s p) \<noteq> 0 then unsleep p s else Inr s) (\<lambda>s.
                tsleep_resume cursig sigintr p catch sig timo (upd p (p_stat_update (\<lambda>_. SRUN)) s))
            else if p_wchan (ptab s p) = 0 then tsleep_resume cursig sigintr p False sig timo s
            else andthen (tsleep_block s) (\<lambda>s. andthen (switch s) (tsleep_resume cursig sigintr p catch sig timo)))
        else andthen (tsleep_block s) (\<lambda>s. andthen (switch s) (tsleep_resume cursig sigintr p catch 0 timo))))"

text \<open>\<open>sleep\<close>: the flag says that it leaves by \<open>longjmp\<close> to the saved context.\<close>

definition sleep ::
  "(nat \<Rightarrow> sys \<Rightarrow> (nat \<times> sys) res) \<Rightarrow> (sys \<Rightarrow> sys res) \<Rightarrow> nat set \<Rightarrow> nat \<Rightarrow> nat \<Rightarrow> sys \<Rightarrow> (int \<times> bool \<times> sys) res" where
  "sleep cursig switch sigintr chan pri s =
     (let priority = (if int pri > PZERO then or pri 256 else pri)
      in andthen (tsleep cursig switch sigintr chan priority 0 s) (\<lambda>(u_error, s).
           Inr (u_error, \<not> (even (priority div 256) \<or> u_error = 0), s)))"

section \<open>Choosing the next process\<close>

text \<open>The search of \<open>swtch\<close>: \<open>pp\<close> is the best process so far, \<open>n\<close> its priority.\<close>

fun swtch_search :: "sys \<Rightarrow> nat list \<Rightarrow> nat option \<Rightarrow> nat \<Rightarrow> nat option \<times> nat" where
  "swtch_search s [] pp n = (pp, n)"
| "swtch_search s (p # ps) pp n =
     (if SLOAD \<in> p_flag (ptab s p) \<and> p_pri (ptab s p) < n
      then swtch_search s ps (Some p) (p_pri (ptab s p))
      else swtch_search s ps pp n)"

text \<open>
  One round of the loop of \<open>swtch\<close> in process 0: no process means \<open>idle\<close> and another round; else
  the process chosen and whether it resumes at \<open>u_ssave\<close>.
\<close>

definition swtch :: "sys \<Rightarrow> (nat \<times> bool) option \<times> sys" where
  "swtch s =
     (let s1 = s\<lparr>noproc := 0, runrun := 0\<rparr> in
      case swtch_search s1 (qs s1) None 128 of
        (None, _) \<Rightarrow> (None, s1)
      | (Some p, n) \<Rightarrow>
          let s2 = s1\<lparr>qs := remove1 p (qs s1), curpri := n\<rparr>;
              b = (SSWAP \<in> p_flag (ptab s2 p))
          in (Some (p, b), (upd p (p_flag_update (\<lambda>f. f - {SSWAP})) s2)\<lparr>u_procp := p\<rparr>))"

text \<open>
  The scheduling part of \<open>userret\<close>: the new user priority, and whether the process gives up the
  processor.
\<close>

definition userret_resched :: "sys \<Rightarrow> bool \<times> sys" where
  "userret_resched s =
     (let p = u_procp s; (pri, s1) = setpri p s; s2 = s1\<lparr>curpri := pri\<rparr>
      in if runrun s2 \<noteq> 0
         then (True, upd p (\<lambda>pr. pr\<lparr>ru_nivcsw := ru_nivcsw pr + 1\<rparr>) (setrq p s2))
         else (False, s2))"

section \<open>The process table\<close>

fun inferior :: "nat \<Rightarrow> nat \<Rightarrow> sys \<Rightarrow> bool res" where
  "inferior 0 p s = Inl Hang"
| "inferior (Suc fuel) p s =
     (if p = u_procp s then Inr True
      else if p_ppid (ptab s p) = 0 then Inr False
      else inferior fuel (p_pptr (ptab s p)) s)"

text \<open>\<open>PIDHASH\<close> masks the low bits of the pid.\<close>

definition pfind :: "int \<Rightarrow> sys \<Rightarrow> nat option" where
  "pfind pid s = List.find (\<lambda>p. p_pid (ptab s p) = pid) (pidhash s (nat (pid mod 16)))"

text \<open>\<open>pqinit\<close> walks the table downwards and pushes each slot but the first.\<close>

fun pqinit_loop :: "nat \<Rightarrow> nat list \<Rightarrow> nat list" where
  "pqinit_loop 0 fp = fp"
| "pqinit_loop (Suc p) fp = pqinit_loop p (Suc p # fp)"

definition pqinit :: "sys \<Rightarrow> sys" where
  "pqinit s = s\<lparr>freeproc := pqinit_loop (NPROC - 1) [], allproc := [0], zombproc := []\<rparr>"

section \<open>The swapper's choice\<close>

text \<open>The search of \<open>sched\<close> for a process to swap in.\<close>

fun sched_in :: "sys \<Rightarrow> nat list \<Rightarrow> nat option \<Rightarrow> int \<Rightarrow> nat option \<times> int" where
  "sched_in s [] swapped_out out_time = (swapped_out, out_time)"
| "sched_in s (rp # rps) swapped_out out_time =
     (if p_stat (ptab s rp) \<noteq> SRUN \<or> SLOAD \<in> p_flag (ptab s rp) then sched_in s rps swapped_out out_time
      else
        let rptime = int (p_time (ptab s rp)) - int (p_nice (ptab s rp)) * 8 in
        if rptime > out_time \<or> SVFPRNT \<in> p_flag (ptab s rp) then
          if SVFPRNT \<in> p_flag (ptab s rp) then (Some rp, rptime)
          else sched_in s rps (Some rp) rptime
        else sched_in s rps swapped_out out_time)"

text \<open>Its search for a process to swap out, and whether it may go.\<close>

definition sched_out :: "sys \<Rightarrow> nat option" where
  "sched_out s = List.find (\<lambda>rp. p_stat (ptab s rp) \<noteq> SZOMB \<and> SLOAD \<in> p_flag (ptab s rp) \<and> SSYS \<notin> p_flag (ptab s rp)) (allproc s)"

definition sched_may_go :: "sys \<Rightarrow> nat \<Rightarrow> int \<Rightarrow> bool" where
  "sched_may_go s in_core out_time =
     (let pr = ptab s in_core in
      SLOCK \<notin> p_flag pr \<and>
      (p_stat pr = SSTOP \<or> (p_stat pr = SSLEEP \<and> P_SINTR \<in> p_flag pr) \<or>
       ((p_stat pr = SRUN \<or> p_stat pr = SSLEEP) \<and> out_time \<ge> 2 \<and> p_time pr + p_nice pr \<ge> 1)))"

text \<open>
  One pass of the decision loop: which processes the next round swaps out and in, or the
  channel process 0 sleeps on.
\<close>

datatype sched_act = Swap "nat option" nat | Wait_out | Wait_in

definition sched_pass :: "sys \<Rightarrow> (sched_act \<times> sys) res" where
  "sched_pass s =
     (case sched_in s (allproc s) None (-20000) of
        (None, _) \<Rightarrow> Inr (Wait_out, s\<lparr>runout := (runout s + 1) mod 256\<rparr>)
      | (Some rp, out_time) \<Rightarrow>
          (case sched_out s of
             None \<Rightarrow> Inr (Swap None rp, s)
           | Some in_core \<Rightarrow>
               if sched_may_go s in_core out_time then
                 let s1 = upd in_core (p_flag_update (\<lambda>f. f - {SLOAD})) s
                 in andthen (if p_stat (ptab s1 in_core) = SRUN then remrq in_core s1 else Inr s1)
                      (\<lambda>s. Inr (Swap (Some in_core) rp, s))
               else Inr (Wait_in, s\<lparr>runin := (runin s + 1) mod 256\<rparr>)))"

text \<open>The last steps of \<open>swapin\<close> and \<open>swapout\<close>, after the image has moved.\<close>

definition swapin_finish :: "nat \<Rightarrow> sys \<Rightarrow> sys" where
  "swapin_finish p s =
     (let s1 = (if p_stat (ptab s p) = SRUN then setrq p s else s)
      in upd p (\<lambda>pr. pr\<lparr>p_flag := insert SLOAD (p_flag pr), p_time := 0\<rparr>) s1)"

definition swapout_finish :: "nat \<Rightarrow> sys \<Rightarrow> sys res" where
  "swapout_finish p s =
     (let s1 = upd p (\<lambda>pr. pr\<lparr>p_flag := p_flag pr - {SLOAD, SLOCK}, p_time := 0\<rparr>) s
      in if runout s1 \<noteq> 0 then wakeup (a_runout s1) (s1\<lparr>runout := 0\<rparr>) else Inr s1)"

end
