(* ===== verification/Sched_Queues.thy ===== *)
theory Sched_Queues
  imports Sched
begin

text \<open>
  The invariant of the process queues, the effect of \<open>wakeup\<close> and \<open>setrun\<close> on it, and the contract
  of sleeping and waking.
\<close>

section \<open>The invariant\<close>

definition queues_ok :: "sys \<Rightarrow> bool" where
  "queues_ok s \<longleftrightarrow> distinct (qs s)
     \<and> (\<forall>p \<in> set (qs s). p_stat (ptab s p) = SRUN \<and> SLOAD \<in> p_flag (ptab s p) \<and> p_wchan (ptab s p) = 0)
     \<and> (\<forall>h. distinct (slpque s h))
     \<and> (\<forall>h p. p \<in> set (slpque s h) \<longleftrightarrow> p_wchan (ptab s p) \<noteq> 0 \<and> HASH (p_wchan (ptab s p)) = h)
     \<and> (\<forall>p. p_wchan (ptab s p) \<noteq> 0 \<longrightarrow> p_stat (ptab s p) \<in> {SSLEEP, SSTOP})
     \<and> a_runin s \<noteq> 0 \<and> a_runout s \<noteq> 0 \<and> a_lbolt s \<noteq> 0 \<and> (\<forall>p. a_proc s p \<noteq> 0)"

lemma queues_okD:
  assumes "queues_ok s"
  shows "distinct (qs s)" "p \<in> set (qs s) \<Longrightarrow> p_stat (ptab s p) = SRUN \<and> SLOAD \<in> p_flag (ptab s p) \<and> p_wchan (ptab s p) = 0"
    "distinct (slpque s h)" "p \<in> set (slpque s h) \<longleftrightarrow> p_wchan (ptab s p) \<noteq> 0 \<and> HASH (p_wchan (ptab s p)) = h"
    "p_wchan (ptab s p) \<noteq> 0 \<Longrightarrow> p_stat (ptab s p) = SSLEEP \<or> p_stat (ptab s p) = SSTOP"
    "a_runin s \<noteq> 0" "a_runout s \<noteq> 0" "a_lbolt s \<noteq> 0" "a_proc s p \<noteq> 0"
  using assms unfolding queues_ok_def by blast+

lemma upd_fields [simp]:
  "ptab (upd p f s) = (ptab s)(p := f (ptab s p))" "slpque (upd p f s) = slpque s" "qs (upd p f s) = qs s"
  "allproc (upd p f s) = allproc s" "freeproc (upd p f s) = freeproc s" "zombproc (upd p f s) = zombproc s"
  "pidhash (upd p f s) = pidhash s" "runrun (upd p f s) = runrun s" "curpri (upd p f s) = curpri s"
  "noproc (upd p f s) = noproc s" "runin (upd p f s) = runin s" "runout (upd p f s) = runout s"
  "u_procp (upd p f s) = u_procp s" "panicstr (upd p f s) = panicstr s" "calls (upd p f s) = calls s"
  "a_lbolt (upd p f s) = a_lbolt s" "a_runin (upd p f s) = a_runin s" "a_runout (upd p f s) = a_runout s"
  "a_proc (upd p f s) = a_proc s"
  by (simp_all add: upd_def)

text \<open>The invariant reads only the queues and three fields of each process.\<close>

lemma queues_ok_cong:
  assumes "qs s' = qs s" and "slpque s' = slpque s" and "a_runin s' = a_runin s" and "a_runout s' = a_runout s" and "a_lbolt s' = a_lbolt s" and "a_proc s' = a_proc s"
    and "\<And>p. p_stat (ptab s' p) = p_stat (ptab s p)" and "\<And>p. p_flag (ptab s' p) = p_flag (ptab s p)"
    and "\<And>p. p_wchan (ptab s' p) = p_wchan (ptab s p)"
  shows "queues_ok s' = queues_ok s"
  unfolding queues_ok_def assms by simp

section \<open>Priorities\<close>

text \<open>\<open>same p s s'\<close>: only the priority data of \<open>p\<close> and the flag \<open>runrun\<close> differ.\<close>

definition repri :: "nat \<Rightarrow> sys \<Rightarrow> sys \<Rightarrow> bool" where
  "repri p s s' \<longleftrightarrow> (\<exists>slp cpu pri rr.
     s' = (upd p (\<lambda>pr. pr\<lparr>p_slptime := slp, p_cpu := cpu, p_pri := pri\<rparr>) s)\<lparr>runrun := rr\<rparr> \<and> pri \<le> 127 \<and> cpu \<le> 255 \<and> slp \<le> 255)"

lemma setpri_bound: "fst (setpri p s) \<le> 127"
  by (simp add: setpri_def Let_def)

lemma setpri_state: "snd (setpri p s) = (upd p (p_pri_update (\<lambda>_. fst (setpri p s))) s)
    \<lparr>runrun := (if fst (setpri p s) < curpri s then runrun s + 1 else runrun s)\<rparr>"
  by (simp add: setpri_def Let_def upd_def)

lemma updatepri_loop_values:
  "updatepri_loop a slp =
     (if a = 0 then (0, slp) else if (slp + 255) mod 256 = 0 then (a, 0) else (0, (slp + 255) mod 256))"
  by (subst updatepri_loop.simps) (simp add: Let_def updatepri_loop.simps[of 0])

lemma updatepri_repri: "repri p s (updatepri p s)"
proof -
  let ?a = "p_cpu (ptab s p) mod 256" and ?l = "(p_slptime (ptab s p) + 255) mod 256"
  obtain a slp where l: "updatepri_loop ?a ?l = (a, slp)" by force
  have "p_slptime (ptab s p) mod 256 < 256" "?l < 256" "(?l + 255) mod 256 < 256" by simp_all
  then have slp: "slp \<le> 255" using l unfolding updatepri_loop_values by (auto split: if_splits)
  let ?c = "if a > 255 then 255 else a"
  let ?s1 = "upd p (\<lambda>pr. pr\<lparr>p_slptime := slp, p_cpu := ?c\<rparr>) s"
  have "updatepri p s = snd (setpri p ?s1)" using l by (simp add: updatepri_def)
  also have "\<dots> = (upd p (\<lambda>pr. pr\<lparr>p_slptime := slp, p_cpu := ?c, p_pri := fst (setpri p ?s1)\<rparr>) s)
      \<lparr>runrun := (if fst (setpri p ?s1) < curpri s then runrun s + 1 else runrun s)\<rparr>"
    by (subst setpri_state) (simp add: upd_def)
  finally show ?thesis unfolding repri_def using slp setpri_bound[of p ?s1]
    by - (rule exI[of _ slp], rule exI[of _ ?c], rule exI, rule exI, rule conjI, assumption, simp)
qed

section \<open>The effect of waking\<close>

text \<open>How waking changes a process: only scheduling data.\<close>

definition awake :: "proc \<Rightarrow> proc \<Rightarrow> bool" where
  "awake pr pr' \<longleftrightarrow> p_wchan pr' = 0 \<and> p_stat pr' = (if p_stat pr = SSLEEP then SRUN else p_stat pr)
     \<and> (\<exists>pri cpu slp. pr' = pr\<lparr>p_wchan := 0, p_cpu := cpu, p_pri := pri, p_slptime := slp, p_stat := p_stat pr'\<rparr>
          \<and> (p_pri pr \<le> 127 \<longrightarrow> pri \<le> 127))"

text \<open>\<open>roused A s s'\<close>: exactly the processes in \<open>A\<close> were taken off their sleep queues.\<close>

definition roused :: "nat set \<Rightarrow> sys \<Rightarrow> sys \<Rightarrow> bool" where
  "roused A s s' \<longleftrightarrow> (\<forall>p \<in> A. p_wchan (ptab s p) \<noteq> 0 \<and> awake (ptab s p) (ptab s' p))
     \<and> (\<forall>p. p \<notin> A \<longrightarrow> ptab s' p = ptab s p)
     \<and> set (qs s') = set (qs s) \<union> {p \<in> A. p_stat (ptab s p) = SSLEEP \<and> SLOAD \<in> p_flag (ptab s p)}
     \<and> (\<exists>pt sl q rr ro. s' = s\<lparr>ptab := pt, slpque := sl, qs := q, runrun := rr, runout := ro\<rparr>)
     \<and> (runout s' = runout s \<or> runout s' = 0)"

lemma roused_refl: "roused {} s s"
proof -
  have "s = s\<lparr>ptab := ptab s, slpque := slpque s, qs := qs s, runrun := runrun s, runout := runout s\<rparr>" by simp
  then show ?thesis unfolding roused_def by blast
qed

lemma roused_fields:
  assumes "roused A s s'"
  shows "a_runin s' = a_runin s" "a_runout s' = a_runout s" "u_procp s' = u_procp s" "allproc s' = allproc s"
    "curpri s' = curpri s" "calls s' = calls s" "a_proc s' = a_proc s" "panicstr s' = panicstr s"
    "pidhash s' = pidhash s" "a_lbolt s' = a_lbolt s" "freeproc s' = freeproc s" "zombproc s' = zombproc s" "runin s' = runin s"
  using assms unfolding roused_def by auto

lemma roused_wchan:
  assumes "roused A s s'"
  shows "p_wchan (ptab s' p) = (if p \<in> A then 0 else p_wchan (ptab s p))"
  using assms unfolding roused_def awake_def by auto

lemma roused_shrinks:
  assumes "queues_ok s" and "queues_ok s'" and "roused A s s'"
  shows "length (slpque s' h) \<le> length (slpque s h)"
    "p \<in> A \<Longrightarrow> p_wchan (ptab s p) \<noteq> 0 \<Longrightarrow> HASH (p_wchan (ptab s p)) = h \<Longrightarrow> length (slpque s' h) < length (slpque s h)"
proof -
  have sub: "set (slpque s' h) \<subseteq> set (slpque s h) - A"
    using queues_okD(4)[OF assms(1)] queues_okD(4)[OF assms(2)] by (auto simp: roused_wchan[OF assms(3)] split: if_splits)
  have len: "length (slpque s h) = card (set (slpque s h))" "length (slpque s' h) = card (set (slpque s' h))"
    using distinct_card[OF queues_okD(3)[OF assms(1)]] distinct_card[OF queues_okD(3)[OF assms(2)]] by simp_all
  show "length (slpque s' h) \<le> length (slpque s h)" unfolding len using sub by (intro card_mono) auto
  assume "p \<in> A" "p_wchan (ptab s p) \<noteq> 0" "HASH (p_wchan (ptab s p)) = h"
  then have "set (slpque s' h) \<subset> set (slpque s h)" using sub queues_okD(4)[OF assms(1), of p h] by auto
  then show "length (slpque s' h) < length (slpque s h)" unfolding len by (intro psubset_card_mono) auto
qed

lemma awake_flag: "awake pr pr' \<Longrightarrow> p_flag pr' = p_flag pr"
proof -
  assume "awake pr pr'"
  then obtain pri cpu slp where "pr' = pr\<lparr>p_wchan := 0, p_cpu := cpu, p_pri := pri, p_slptime := slp, p_stat := p_stat pr'\<rparr>" unfolding awake_def by blast
  from arg_cong[OF this, of p_flag] show ?thesis by simp
qed

lemma roused_trans:
  assumes ab: "roused A s s1" and bc: "roused B s1 s2"
  shows "roused (A \<union> B) s s2"
proof -
  have dj: "p \<notin> A" if "p \<in> B" for p
    using that ab bc unfolding roused_def awake_def by blast
  have B: "p_wchan (ptab s p) \<noteq> 0 \<and> awake (ptab s p) (ptab s2 p)" if "p \<in> B" for p
    using that dj[OF that] ab bc unfolding roused_def by metis
  have A: "p_wchan (ptab s p) \<noteq> 0 \<and> awake (ptab s p) (ptab s2 p)" if "p \<in> A" for p
    using that dj ab bc unfolding roused_def by metis
  have out: "ptab s2 p = ptab s p" if "p \<notin> A \<union> B" for p
    using that ab bc unfolding roused_def by auto
  have "{p \<in> B. p_stat (ptab s1 p) = SSLEEP \<and> SLOAD \<in> p_flag (ptab s1 p)}
      = {p \<in> B. p_stat (ptab s p) = SSLEEP \<and> SLOAD \<in> p_flag (ptab s p)}"
    using ab dj unfolding roused_def by auto
  then have qs: "set (qs s2) = set (qs s) \<union> {p \<in> A \<union> B. p_stat (ptab s p) = SSLEEP \<and> SLOAD \<in> p_flag (ptab s p)}"
    using ab bc unfolding roused_def by auto
  have ro: "runout s2 = runout s \<or> runout s2 = 0" using ab bc unfolding roused_def by metis
  have "\<exists>pt sl q rr ro. s2 = s\<lparr>ptab := pt, slpque := sl, qs := q, runrun := rr, runout := ro\<rparr>"
  proof -
    obtain pt sl q rr ro where 1: "s1 = s\<lparr>ptab := pt, slpque := sl, qs := q, runrun := rr, runout := ro\<rparr>"
      using ab unfolding roused_def by blast
    obtain pt' sl' q' rr' ro' where "s2 = s1\<lparr>ptab := pt', slpque := sl', qs := q', runrun := rr', runout := ro'\<rparr>"
      using bc unfolding roused_def by blast
    then have "s2 = s\<lparr>ptab := pt', slpque := sl', qs := q', runrun := rr', runout := ro'\<rparr>" unfolding 1 by simp
    then show ?thesis by blast
  qed
  with A B out qs ro show ?thesis unfolding roused_def by blast
qed

text \<open>Taking a process off its sleep queue.\<close>

lemma remove1_nth: "distinct xs \<Longrightarrow> i < length xs \<Longrightarrow> take i xs @ drop (Suc i) xs = remove1 (xs ! i) xs"
proof (induction xs arbitrary: i)
  case (Cons x xs)
  then show ?case by (cases i) auto
qed simp

definition off_queue :: "nat \<Rightarrow> sys \<Rightarrow> sys" where
  "off_queue p s = (let h = HASH (p_wchan (ptab s p)) in
     upd p (p_wchan_update (\<lambda>_. 0)) (s\<lparr>slpque := (slpque s)(h := remove1 p (slpque s h))\<rparr>))"

lemma off_queue_ok:
  assumes "queues_ok s"
  shows "queues_ok (off_queue p s)"
proof -
  note D = queues_okD[OF assms]
  have q: "p_stat (ptab s x) = SRUN \<and> SLOAD \<in> p_flag (ptab s x) \<and> p_wchan (ptab s x) = 0" if "x \<in> set (qs s)" for x
    using D(2) that by blast
  have m: "x \<in> set (slpque s h) \<longleftrightarrow> p_wchan (ptab s x) \<noteq> 0 \<and> HASH (p_wchan (ptab s x)) = h" for x h using D(4) .
  have d: "distinct (slpque s h)" for h using D(3) .
  have st: "p_wchan (ptab s x) \<noteq> 0 \<Longrightarrow> p_stat (ptab s x) \<in> {SSLEEP, SSTOP}" for x using D(5) by blast
  show ?thesis unfolding queues_ok_def off_queue_def Let_def
    using D(1,6-9) q m d st by (simp add: set_remove1_eq)
qed

lemma unsleep_off_queue:
  assumes "queues_ok s"
  shows "unsleep p s = Inr (if p_wchan (ptab s p) = 0 then s else off_queue p s)"
  using queues_okD(4)[OF assms, of p "HASH (p_wchan (ptab s p))"] by (simp add: unsleep_def off_queue_def Let_def)

lemma make_runnable_ok:
  assumes "queues_ok s" and "p_wchan (ptab s p) = 0" and "p \<notin> set (qs s)"
    and "ptab s' = (ptab s)(p := pr')" and "p_wchan pr' = 0" and "p_stat pr' = SRUN" and "p_flag pr' = p_flag (ptab s p)"
    and "slpque s' = slpque s" and "qs s' = (if SLOAD \<in> p_flag (ptab s p) then p # qs s else qs s)"
    and "a_runin s' = a_runin s" and "a_runout s' = a_runout s" and "a_lbolt s' = a_lbolt s" and "a_proc s' = a_proc s"
  shows "queues_ok s'"
proof -
  note D = queues_okD[OF assms(1)]
  have q: "p_stat (ptab s x) = SRUN \<and> SLOAD \<in> p_flag (ptab s x) \<and> p_wchan (ptab s x) = 0" if "x \<in> set (qs s)" for x
    using D(2) that by blast
  have m: "x \<in> set (slpque s h) \<longleftrightarrow> p_wchan (ptab s x) \<noteq> 0 \<and> HASH (p_wchan (ptab s x)) = h" for x h using D(4) .
  have d: "distinct (slpque s h)" for h using D(3) .
  have st: "p_wchan (ptab s x) \<noteq> 0 \<Longrightarrow> p_stat (ptab s x) \<in> {SSLEEP, SSTOP}" for x using D(5) by blast
  show ?thesis unfolding queues_ok_def assms(4,8-13) using D(1,6-9) q m d st assms(2,3,5-7) by auto
qed

text \<open>The straight part of \<open>wake_one\<close>, before the swapper is woken.\<close>

definition wake_ready :: "nat \<Rightarrow> sys \<Rightarrow> sys" where
  "wake_ready p s =
     (let s1 = (if 1 < p_slptime (ptab s p) then updatepri p s else s);
          s2 = upd p (\<lambda>pr. pr\<lparr>p_slptime := 0, p_stat := SRUN\<rparr>) s1;
          s3 = (if SLOAD \<in> p_flag (ptab s2 p) then setrq p s2 else s2)
      in s3\<lparr>runrun := runrun s3 + 1\<rparr>)"

lemma wake_ready_state:
  "\<exists>pri cpu rr. wake_ready p s = s\<lparr>ptab := (ptab s)(p := (ptab s p)\<lparr>p_cpu := cpu, p_pri := pri, p_slptime := 0, p_stat := SRUN\<rparr>),
      qs := (if SLOAD \<in> p_flag (ptab s p) then p # qs s else qs s), runrun := rr\<rparr>
    \<and> (p_pri (ptab s p) \<le> 127 \<longrightarrow> pri \<le> 127)"
proof (cases "1 < p_slptime (ptab s p)")
  case True
  obtain slp cpu pri rr where u: "updatepri p s = (upd p (\<lambda>pr. pr\<lparr>p_slptime := slp, p_cpu := cpu, p_pri := pri\<rparr>) s)\<lparr>runrun := rr\<rparr>"
    "pri \<le> 127" using updatepri_repri[of p s] unfolding repri_def by blast
  have "wake_ready p s = s\<lparr>ptab := (ptab s)(p := (ptab s p)\<lparr>p_cpu := cpu, p_pri := pri, p_slptime := 0, p_stat := SRUN\<rparr>),
      qs := (if SLOAD \<in> p_flag (ptab s p) then p # qs s else qs s), runrun := rr + 1\<rparr>"
    using True u(1) by (simp add: wake_ready_def Let_def setrq_def upd_def)
  then show ?thesis using u(2) by blast
next
  case False
  have "wake_ready p s = s\<lparr>ptab := (ptab s)(p := (ptab s p)\<lparr>p_cpu := p_cpu (ptab s p), p_pri := p_pri (ptab s p), p_slptime := 0, p_stat := SRUN\<rparr>),
      qs := (if SLOAD \<in> p_flag (ptab s p) then p # qs s else qs s), runrun := runrun s + 1\<rparr>"
    using False by (simp add: wake_ready_def Let_def setrq_def upd_def)
  then show ?thesis by blast
qed

lemma wake_ready_roused:
  assumes ok: "queues_ok s" and "p_wchan (ptab s p) \<noteq> 0" and "p_stat (ptab s p) = SSLEEP"
  shows "queues_ok (wake_ready p (off_queue p s))" "roused {p} s (wake_ready p (off_queue p s))"
    "runout (wake_ready p (off_queue p s)) = runout s"
proof -
  let ?s = "off_queue p s"
  have np: "p \<notin> set (qs s)" using queues_okD(2)[OF ok, of p] assms(2) by auto
  have o: "qs ?s = qs s" "p_wchan (ptab ?s p) = 0" "ptab ?s = (ptab s)(p := (ptab s p)\<lparr>p_wchan := 0\<rparr>)" "runout ?s = runout s"
    by (simp_all add: off_queue_def Let_def)
  obtain pri cpu rr where w: "wake_ready p ?s = ?s\<lparr>ptab := (ptab ?s)(p := (ptab ?s p)\<lparr>p_cpu := cpu, p_pri := pri, p_slptime := 0, p_stat := SRUN\<rparr>),
      qs := (if SLOAD \<in> p_flag (ptab ?s p) then p # qs ?s else qs ?s), runrun := rr\<rparr>"
    "p_pri (ptab ?s p) \<le> 127 \<longrightarrow> pri \<le> 127" using wake_ready_state[of p ?s] by blast
  let ?pr = "(ptab s p)\<lparr>p_wchan := 0, p_cpu := cpu, p_pri := pri, p_slptime := 0, p_stat := SRUN\<rparr>"
  define t where "t = wake_ready p ?s"
  have t: "ptab t = (ptab s)(p := ?pr)" "slpque t = slpque ?s" "qs t = (if SLOAD \<in> p_flag (ptab s p) then p # qs s else qs s)"
    "a_runin t = a_runin ?s" "a_runout t = a_runout ?s" "a_lbolt t = a_lbolt ?s" "a_proc t = a_proc ?s" "runout t = runout s"
    unfolding t_def w(1) by (simp_all add: o)
  have frame: "t = s\<lparr>ptab := ptab t, slpque := slpque t, qs := qs t, runrun := rr, runout := runout s\<rparr>"
    unfolding t_def w(1) by (simp add: off_queue_def Let_def upd_def)
  have pt: "ptab t = (ptab ?s)(p := ?pr)" using t(1) o(3) by simp
  have "queues_ok t"
    by (rule make_runnable_ok[OF off_queue_ok[OF ok, of p] o(2) _ pt _ _ _ t(2) _ t(4-7)]) (use o np t(3) in simp_all)
  then show "queues_ok (wake_ready p ?s)" unfolding t_def .
  have pri: "p_pri (ptab s p) \<le> 127 \<longrightarrow> pri \<le> 127" using w(2) o(3) by simp
  have aw: "awake (ptab s p) ?pr" unfolding awake_def using assms(3) pri
    by (intro conjI exI[of _ pri] exI[of _ cpu] exI[of _ 0]) simp_all
  have "set (qs t) = set (qs s) \<union> {q \<in> {p}. p_stat (ptab s q) = SSLEEP \<and> SLOAD \<in> p_flag (ptab s q)}"
    unfolding t(3) using assms(3) by auto
  moreover have "\<forall>q \<in> {p}. p_wchan (ptab s q) \<noteq> 0 \<and> awake (ptab s q) (ptab t q)" using aw assms(2) t(1) by simp
  moreover have "\<forall>q. q \<notin> {p} \<longrightarrow> ptab t q = ptab s q" using t(1) by simp
  ultimately show "roused {p} s (wake_ready p ?s)" unfolding roused_def t_def[symmetric] using frame t(8) by blast
  show "runout (wake_ready p ?s) = runout s" using t(8) unfolding t_def .
qed

definition wakes_all :: "(nat \<Rightarrow> sys \<Rightarrow> sys res) \<Rightarrow> bool" where
  "wakes_all wake \<longleftrightarrow> (\<forall>s chan. queues_ok s \<and> chan \<noteq> 0 \<and> runout s = 0 \<longrightarrow>
     (\<exists>s'. wake chan s = Inr s' \<and> queues_ok s' \<and> roused {p. p_wchan (ptab s p) = chan} s s'))"

text \<open>Whom the inner call may wake besides.\<close>

definition extra :: "sys \<Rightarrow> sys \<Rightarrow> nat set \<Rightarrow> bool" where
  "extra s s' A \<longleftrightarrow> A = {} \<or> (runout s \<noteq> 0 \<and> runout s' = 0 \<and> A = {p. p_wchan (ptab s p) = a_runout s})"

lemma roused_clear:
  assumes "roused A s r"
  shows "roused A s (r\<lparr>runout := 0\<rparr>)"
proof -
  obtain pt sl q rr ro where "r = s\<lparr>ptab := pt, slpque := sl, qs := q, runrun := rr, runout := ro\<rparr>"
    using assms unfolding roused_def by blast
  then have "r\<lparr>runout := 0\<rparr> = s\<lparr>ptab := pt, slpque := sl, qs := q, runrun := rr, runout := 0\<rparr>" by simp
  then have "\<exists>pt sl q rr ro. r\<lparr>runout := 0\<rparr> = s\<lparr>ptab := pt, slpque := sl, qs := q, runrun := rr, runout := ro\<rparr>" by blast
  then show ?thesis using assms by (simp add: roused_def)
qed

lemma wake_one_ok:
  assumes ok: "queues_ok s" and p: "p_wchan (ptab s p) \<noteq> 0" "p_stat (ptab s p) = SSLEEP"
    and wake: "runout s = 0 \<or> wakes_all wake"
  shows "\<exists>s' A. wake_one wake p (off_queue p s) = Inr s' \<and> queues_ok s' \<and> roused (insert p A) s s'
    \<and> (A = {} \<and> runout s' = runout s \<or> runout s \<noteq> 0 \<and> runout s' = 0 \<and> insert p A = insert p {q. p_wchan (ptab s q) = a_runout s})"
proof -
  let ?r = "wake_ready p (off_queue p s)"
  note r = wake_ready_roused[OF ok p]
  have w: "wake_one wake p (off_queue p s) = (if SLOAD \<notin> p_flag (ptab ?r p) \<and> runout ?r \<noteq> 0
      then wake (a_runout ?r) (?r\<lparr>runout := 0\<rparr>) else Inr ?r)"
    unfolding wake_one_def wake_ready_def Let_def by (rule refl)
  show ?thesis
  proof (cases "SLOAD \<notin> p_flag (ptab ?r p) \<and> runout ?r \<noteq> 0")
    case False
    then have "wake_one wake p (off_queue p s) = Inr ?r" using w[unfolded if_not_P[OF False]] by simp
    then show ?thesis using r by (intro exI[of _ ?r] exI[of _ "{}"]) auto
  next
    case True
    let ?t = "?r\<lparr>runout := 0\<rparr>"
    have t: "queues_ok ?t" using r(1) by (subst queues_ok_cong[of _ ?r]) auto
    have rt: "roused {p} s ?t" using roused_clear[OF r(2)] .
    have nz: "a_runout ?t \<noteq> 0" using queues_okD(7)[OF t] .
    obtain s' where s': "wake (a_runout ?t) ?t = Inr s'" "queues_ok s'" "roused {q. p_wchan (ptab ?t q) = a_runout ?t} ?t s'"
      using wake True r(3) t nz unfolding wakes_all_def by force
    have A: "{q. p_wchan (ptab ?t q) = a_runout ?t} = {q. p_wchan (ptab s q) = a_runout s} - {p}"
      using nz roused_fields(2)[OF rt] by (auto simp: roused_wchan[OF r(2)] split: if_splits)
    note tr = roused_trans[OF rt s'(3), unfolded A]
    have "runout s' = 0" using s'(3) unfolding roused_def by auto
    then show ?thesis using w True s' tr r(3)
      by (intro exI[of _ s'] exI[of _ "{q. p_wchan (ptab s q) = a_runout s} - {p}"]) auto
  qed
qed

text \<open>Whom \<open>wakeup chan\<close> wakes: the sleepers on \<open>chan\<close>, and those on \<open>&runout\<close> if it calls itself.\<close>

definition outcome :: "nat \<Rightarrow> sys \<Rightarrow> sys \<Rightarrow> nat set \<Rightarrow> bool" where
  "outcome chan s s' A \<longleftrightarrow>
     A = {p. p_wchan (ptab s p) = chan} \<and> runout s' = runout s
     \<or> runout s \<noteq> 0 \<and> runout s' = 0 \<and> A = {p. p_wchan (ptab s p) = chan \<or> p_wchan (ptab s p) = a_runout s}"

lemma outcome_step:
  assumes r: "roused (insert p A) s s1" and chan: "chan \<noteq> 0" "a_runout s \<noteq> 0" "p_wchan (ptab s p) = chan"
    and A: "A = {} \<and> runout s1 = runout s
      \<or> runout s \<noteq> 0 \<and> runout s1 = 0 \<and> insert p A = insert p {q. p_wchan (ptab s q) = a_runout s}"
    and B: "outcome chan s1 s2 B"
  shows "outcome chan s s2 (insert p A \<union> B)"
proof -
  note w = roused_wchan[OF r] and f = roused_fields(2)[OF r]
  show ?thesis using A
  proof
    assume "A = {} \<and> runout s1 = runout s"
    then show ?thesis using B chan f w unfolding outcome_def by (auto split: if_splits)
  next
    assume a: "runout s \<noteq> 0 \<and> runout s1 = 0 \<and> insert p A = insert p {q. p_wchan (ptab s q) = a_runout s}"
    then have b: "B = {q. p_wchan (ptab s1 q) = chan}" "runout s2 = 0" using B unfolding outcome_def by auto
    show ?thesis using a b chan unfolding outcome_def w by (auto split: if_splits)
  qed
qed

lemma stopped_off:
  assumes ok: "queues_ok s" and "p_wchan (ptab s p) \<noteq> 0" and "p_stat (ptab s p) = SSTOP"
  shows "queues_ok (upd p (p_slptime_update (\<lambda>_. 0)) (off_queue p s))"
    "roused {p} s (upd p (p_slptime_update (\<lambda>_. 0)) (off_queue p s))"
proof -
  let ?s = "off_queue p s" and ?t = "upd p (p_slptime_update (\<lambda>_. 0)) (off_queue p s)"
  show "queues_ok ?t" using off_queue_ok[OF ok, of p] by (subst queues_ok_cong[of _ ?s]) auto
  have pt: "ptab ?t = (ptab s)(p := (ptab s p)\<lparr>p_wchan := 0, p_slptime := 0\<rparr>)" by (simp add: off_queue_def Let_def)
  have "?t = s\<lparr>ptab := ptab ?t, slpque := slpque ?t, qs := qs s, runrun := runrun s, runout := runout s\<rparr>"
    by (simp add: off_queue_def Let_def upd_def)
  then have fr: "\<exists>pt sl q rr ro. ?t = s\<lparr>ptab := pt, slpque := sl, qs := q, runrun := rr, runout := ro\<rparr>" by blast
  have aw: "awake (ptab s p) ((ptab s p)\<lparr>p_wchan := 0, p_slptime := 0\<rparr>)"
    unfolding awake_def using assms(3)
    by (intro conjI exI[of _ "p_pri (ptab s p)"] exI[of _ "p_cpu (ptab s p)"] exI[of _ 0]) simp_all
  have q: "qs ?t = qs s" "runout ?t = runout s" by (simp_all add: off_queue_def Let_def)
  show "roused {p} s ?t" unfolding roused_def q pt using fr aw assms by auto
qed

lemma wakeup_scan_ok:
  assumes "queues_ok s" and "chan \<noteq> 0" and "runout s = 0 \<or> wakes_all wake"
    and "\<forall>j < i. p_wchan (ptab s (slpque s (HASH chan) ! j)) \<noteq> chan"
    and "length (slpque s (HASH chan)) * (length (slpque s (HASH chan)) + 2) + (length (slpque s (HASH chan)) - i) < fuel"
  shows "\<exists>s' A. wakeup_scan fuel wake chan i s = Inr s' \<and> queues_ok s' \<and> roused A s s' \<and> outcome chan s s' A"
  using assms
proof (induction fuel arbitrary: i s)
  case (Suc fuel)
  let ?q = "slpque s (HASH chan)"
  note ok = Suc.prems(1)
  show ?case
  proof (cases "length ?q \<le> i")
    case True
    have "p_wchan (ptab s p) \<noteq> chan" for p
    proof
      assume "p_wchan (ptab s p) = chan"
      then have "p \<in> set ?q" using queues_okD(4)[OF ok, of p "HASH chan"] Suc.prems(2) by simp
      then obtain j where "j < length ?q" "?q ! j = p" by (auto simp: in_set_conv_nth)
      then show False using Suc.prems(4) True \<open>p_wchan (ptab s p) = chan\<close> by auto
    qed
    then have "outcome chan s s {}" by (simp add: outcome_def)
    moreover have "wakeup_scan (Suc fuel) wake chan i s = Inr s" using True by simp
    ultimately show ?thesis using ok roused_refl by blast
  next
    case False
    let ?p = "?q ! i"
    have inq: "?p \<in> set ?q" using False by simp
    then have wc: "p_wchan (ptab s ?p) \<noteq> 0" "HASH (p_wchan (ptab s ?p)) = HASH chan"
      using queues_okD(4)[OF ok] by blast+
    have st: "p_stat (ptab s ?p) = SSLEEP \<or> p_stat (ptab s ?p) = SSTOP" using queues_okD(5)[OF ok wc(1)] .
    show ?thesis
    proof (cases "p_wchan (ptab s ?p) = chan")
      case no: False
      have "\<forall>j < Suc i. p_wchan (ptab s (?q ! j)) \<noteq> chan" using Suc.prems(4) no by (simp add: less_Suc_eq)
      moreover have "length ?q * (length ?q + 2) + (length ?q - Suc i) < fuel" using Suc.prems(5) False by linarith
      moreover have "wakeup_scan (Suc fuel) wake chan i s = wakeup_scan fuel wake chan (Suc i) s"
        using False no st by (auto simp: Let_def)
      ultimately show ?thesis using Suc.IH[OF ok Suc.prems(2,3), of "Suc i"] by simp
    next
      case yes: True
      have off: "upd ?p (p_wchan_update (\<lambda>_. 0)) (s\<lparr>slpque := (slpque s)(HASH chan := take i ?q @ drop (Suc i) ?q)\<rparr>) = off_queue ?p s"
        using remove1_nth[OF queues_okD(3)[OF ok]] False yes by (simp add: off_queue_def Let_def)
      have fits: "length (slpque t (HASH chan)) * (length (slpque t (HASH chan)) + 2) + length (slpque t (HASH chan)) < fuel"
        if "length (slpque t (HASH chan)) < length ?q" for t
      proof -
        let ?n = "length (slpque t (HASH chan))"
        have "?n * (?n + 3) \<le> length ?q * (length ?q + 2)" using that by (intro mult_le_mono) auto
        then show ?thesis using Suc.prems(5) False by (simp add: add_mult_distrib2)
      qed
      note ro = queues_okD(7)[OF ok]
      show ?thesis
      proof (cases "p_stat (ptab s ?p) = SSLEEP")
        case True
        obtain s1 A where w: "wake_one wake ?p (off_queue ?p s) = Inr s1" "queues_ok s1" "roused (insert ?p A) s s1"
          "A = {} \<and> runout s1 = runout s
            \<or> runout s \<noteq> 0 \<and> runout s1 = 0 \<and> insert ?p A = insert ?p {q. p_wchan (ptab s q) = a_runout s}"
          using wake_one_ok[OF ok wc(1) True Suc.prems(3)] by blast
        have sh: "length (slpque s1 (HASH chan)) < length ?q"
          using roused_shrinks(2)[OF ok w(2,3), of ?p "HASH chan"] wc by simp
        have run: "runout s1 = 0 \<or> wakes_all wake" using w(3) Suc.prems(3) unfolding roused_def by auto
        obtain s2 B where b: "wakeup_scan fuel wake chan 0 s1 = Inr s2" "queues_ok s2" "roused B s1 s2" "outcome chan s1 s2 B"
          using Suc.IH[OF w(2) Suc.prems(2) run, of 0] fits[OF sh] by auto
        have "wakeup_scan (Suc fuel) wake chan i s = Inr s2"
          using False yes True off w(1) b(1) by (simp add: Let_def off_queue_def)
        then show ?thesis
          using b(2) roused_trans[OF w(3) b(3)] outcome_step[OF w(3) Suc.prems(2) ro yes w(4) b(4)] by blast
      next
        case stop: False
        then have ss: "p_stat (ptab s ?p) = SSTOP" using st by simp
        let ?t = "upd ?p (p_slptime_update (\<lambda>_. 0)) (off_queue ?p s)"
        note so = stopped_off[OF ok wc(1) ss]
        have sh: "length (slpque ?t (HASH chan)) < length ?q"
          using roused_shrinks(2)[OF ok so, of ?p "HASH chan"] wc by simp
        have qt: "slpque ?t (HASH chan) = take i ?q @ drop (Suc i) ?q"
          using remove1_nth[OF queues_okD(3)[OF ok]] False yes by (simp add: off_queue_def Let_def)
        have rt: "runout ?t = runout s" by (simp add: off_queue_def Let_def)
        have pre: "\<forall>j < i. p_wchan (ptab ?t (slpque ?t (HASH chan) ! j)) \<noteq> chan"
          using Suc.prems(2,4) False unfolding roused_wchan[OF so(2)] qt by (auto simp: nth_append)
        have run: "runout ?t = 0 \<or> wakes_all wake" using rt Suc.prems(3) by simp
        have sm: "length (slpque ?t (HASH chan)) * (length (slpque ?t (HASH chan)) + 2) + (length (slpque ?t (HASH chan)) - i) < fuel"
          using fits[OF sh] by linarith
        obtain s2 B where b: "wakeup_scan fuel wake chan i ?t = Inr s2" "queues_ok s2" "roused B ?t s2" "outcome chan ?t s2 B"
          using Suc.IH[OF so(1) Suc.prems(2) run pre sm] by blast
        have "wakeup_scan (Suc fuel) wake chan i s = Inr s2"
          using False yes ss off b(1) by (simp add: Let_def off_queue_def)
        then show ?thesis
          using b(2) roused_trans[OF so(2) b(3)] outcome_step[OF so(2) Suc.prems(2) ro yes _ b(4)] rt by auto
      qed
    qed
  qed
qed simp

lemma wakeup_depth_ok:
  assumes "queues_ok s" and "chan \<noteq> 0" and "runout s = 0 \<or> d \<noteq> 0"
  shows "\<exists>s' A. wakeup_depth (Suc d) chan s = Inr s' \<and> queues_ok s' \<and> roused A s s' \<and> outcome chan s s' A"
  using assms
proof (induction d arbitrary: s chan)
  case 0
  then show ?case using wakeup_scan_ok[of s chan "wakeup_depth 0" 0 "scan_fuel chan s"]
    by (simp add: scan_fuel_def Let_def add_mult_distrib2)
next
  case (Suc d)
  have "wakes_all (wakeup_depth (Suc d))"
    unfolding wakes_all_def
  proof (intro allI impI, elim conjE)
    fix s and chan :: nat assume "queues_ok s" "chan \<noteq> 0" "runout s = (0 :: nat)"
    then show "\<exists>s'. wakeup_depth (Suc d) chan s = Inr s' \<and> queues_ok s' \<and> roused {p. p_wchan (ptab s p) = chan} s s'"
      using Suc.IH[of s chan] by (auto simp: outcome_def)
  qed
  then show ?case using wakeup_scan_ok[of s chan "wakeup_depth (Suc d)" 0 "scan_fuel chan s"] Suc.prems
    by (simp add: scan_fuel_def Let_def add_mult_distrib2)
qed

lemma wakeup_ok:
  assumes "queues_ok s" and "chan \<noteq> 0"
  shows "\<exists>s' A. wakeup chan s = Inr s' \<and> queues_ok s' \<and> roused A s s' \<and> outcome chan s s' A"
  using wakeup_depth_ok[OF assms, of 1] by (simp add: wakeup_def numeral_2_eq_2)

section \<open>Setting a process running\<close>

definition run_ready :: "nat \<Rightarrow> sys \<Rightarrow> sys" where
  "run_ready p s =
     (let s1 = (if 1 < p_slptime (ptab s p) then updatepri p s else s);
          s2 = upd p (p_stat_update (\<lambda>_. SRUN)) s1;
          s3 = (if SLOAD \<in> p_flag (ptab s2 p) then setrq p s2 else s2)
      in if p_pri (ptab s3 p) < curpri s3 then s3\<lparr>runrun := runrun s3 + 1\<rparr> else s3)"

lemma run_ready_state:
  "\<exists>pri cpu slp rr. run_ready p s = s\<lparr>ptab := (ptab s)(p := (ptab s p)\<lparr>p_slptime := slp, p_cpu := cpu, p_pri := pri, p_stat := SRUN\<rparr>),
      qs := (if SLOAD \<in> p_flag (ptab s p) then p # qs s else qs s), runrun := rr\<rparr>
    \<and> (p_pri (ptab s p) \<le> 127 \<longrightarrow> pri \<le> 127)"
proof (cases "1 < p_slptime (ptab s p)")
  case True
  obtain slp cpu pri rr where u: "updatepri p s = (upd p (\<lambda>pr. pr\<lparr>p_slptime := slp, p_cpu := cpu, p_pri := pri\<rparr>) s)\<lparr>runrun := rr\<rparr>"
    "pri \<le> 127" using updatepri_repri[of p s] unfolding repri_def by blast
  have "run_ready p s = s\<lparr>ptab := (ptab s)(p := (ptab s p)\<lparr>p_slptime := slp, p_cpu := cpu, p_pri := pri, p_stat := SRUN\<rparr>),
      qs := (if SLOAD \<in> p_flag (ptab s p) then p # qs s else qs s), runrun := (if pri < curpri s then rr + 1 else rr)\<rparr>"
    using True u(1) by (simp add: run_ready_def Let_def setrq_def upd_def)
  then show ?thesis using u(2) by blast
next
  case False
  have "run_ready p s = s\<lparr>ptab := (ptab s)(p := (ptab s p)\<lparr>p_slptime := p_slptime (ptab s p), p_cpu := p_cpu (ptab s p), p_pri := p_pri (ptab s p), p_stat := SRUN\<rparr>),
      qs := (if SLOAD \<in> p_flag (ptab s p) then p # qs s else qs s), runrun := (if p_pri (ptab s p) < curpri s then runrun s + 1 else runrun s)\<rparr>"
    using False by (simp add: run_ready_def Let_def setrq_def upd_def)
  then show ?thesis by blast
qed

definition can_run :: "proc \<Rightarrow> bool" where
  "can_run pr \<longleftrightarrow> p_stat pr = SSTOP \<or> p_stat pr = SSLEEP \<or> p_stat pr = SIDL"

text \<open>
  \<open>setrun\<close> of a process that may run: it is off its sleep queue, runnable, and on the run queue if
  it is in core; the swapper is woken if it was waiting for such a process (\<open>A\<close> are those woken
  with it).
\<close>

definition ran :: "nat \<Rightarrow> sys \<Rightarrow> sys \<Rightarrow> nat set \<Rightarrow> bool" where
  "ran p s s' A \<longleftrightarrow> queues_ok s' \<and> (SLOAD \<in> p_flag (ptab s p) \<longrightarrow> p \<in> set (qs s'))
    \<and> set (qs s) \<subseteq> set (qs s') \<and> set (qs s') \<subseteq> set (qs s) \<union> insert p A
    \<and> (\<forall>q \<in> A. q \<noteq> p \<longrightarrow> p_stat (ptab s q) = SSLEEP \<longrightarrow> SLOAD \<in> p_flag (ptab s q) \<longrightarrow> q \<in> set (qs s'))
    \<and> (A = {} \<or> A = {q. p_wchan (ptab s q) = a_runout s})
    \<and> (\<forall>q. q \<noteq> p \<longrightarrow> q \<notin> A \<longrightarrow> ptab s' q = ptab s q)
    \<and> (\<forall>q \<in> A. q \<noteq> p \<longrightarrow> awake (ptab s q) (ptab s' q))
    \<and> (\<exists>slp cpu pri. ptab s' p = (ptab s p)\<lparr>p_wchan := 0, p_slptime := slp, p_cpu := cpu, p_pri := pri, p_stat := SRUN\<rparr>
         \<and> (p_pri (ptab s p) \<le> 127 \<longrightarrow> pri \<le> 127))
    \<and> u_procp s' = u_procp s \<and> allproc s' = allproc s \<and> a_runout s' = a_runout s \<and> curpri s' = curpri s
    \<and> zombproc s' = zombproc s \<and> freeproc s' = freeproc s \<and> pidhash s' = pidhash s"

lemma ranD:
  assumes "ran p s s' A"
  shows "queues_ok s'" "SLOAD \<in> p_flag (ptab s p) \<Longrightarrow> p \<in> set (qs s')" "set (qs s) \<subseteq> set (qs s')"
    "A = {} \<or> A = {q. p_wchan (ptab s q) = a_runout s}"
    "q \<noteq> p \<Longrightarrow> q \<notin> A \<Longrightarrow> ptab s' q = ptab s q" "q \<in> A \<Longrightarrow> q \<noteq> p \<Longrightarrow> awake (ptab s q) (ptab s' q)"
    "u_procp s' = u_procp s" "allproc s' = allproc s" "a_runout s' = a_runout s" "curpri s' = curpri s"
    "set (qs s') \<subseteq> set (qs s) \<union> insert p A"
    "q \<in> A \<Longrightarrow> q \<noteq> p \<Longrightarrow> p_stat (ptab s q) = SSLEEP \<Longrightarrow> SLOAD \<in> p_flag (ptab s q) \<Longrightarrow> q \<in> set (qs s')"
    "zombproc s' = zombproc s" "freeproc s' = freeproc s" "pidhash s' = pidhash s"
  using assms unfolding ran_def by simp_all

lemma ran_self:
  assumes "ran p s s' A"
  shows "p_stat (ptab s' p) = SRUN" "p_wchan (ptab s' p) = 0" "p_flag (ptab s' p) = p_flag (ptab s p)"
    "p_sig (ptab s' p) = p_sig (ptab s p)" "p_pri (ptab s p) \<le> 127 \<Longrightarrow> p_pri (ptab s' p) \<le> 127"
proof -
  obtain slp cpu pri where e: "ptab s' p = (ptab s p)\<lparr>p_wchan := 0, p_slptime := slp, p_cpu := cpu, p_pri := pri, p_stat := SRUN\<rparr>"
    "p_pri (ptab s p) \<le> 127 \<longrightarrow> pri \<le> 127" using assms unfolding ran_def by blast
  then show "p_stat (ptab s' p) = SRUN" "p_wchan (ptab s' p) = 0" "p_flag (ptab s' p) = p_flag (ptab s p)"
    "p_sig (ptab s' p) = p_sig (ptab s p)" "p_pri (ptab s p) \<le> 127 \<Longrightarrow> p_pri (ptab s' p) \<le> 127" by simp_all
qed

lemma setrun_ok:
  assumes ok: "queues_ok s" and cr: "can_run (ptab s p)"
  shows "\<exists>s' A. setrun p s = Inr s' \<and> ran p s s' A"
proof -
  let ?u = "if p_wchan (ptab s p) = 0 then s else off_queue p s"
  have u: "queues_ok ?u" using ok off_queue_ok by simp
  have np: "p \<notin> set (qs s)" using queues_okD(2)[OF ok, of p] cr by (auto simp: can_run_def)
  have uw: "p_wchan (ptab ?u p) = 0" "qs ?u = qs s" "p_flag (ptab ?u p) = p_flag (ptab s p)" "a_runout ?u = a_runout s"
    by (simp_all add: off_queue_def Let_def)
  have uo: "ptab ?u q = ptab s q" if "q \<noteq> p" for q using that by (simp add: off_queue_def Let_def)
  have u0: "ptab ?u p = (ptab s p)\<lparr>p_wchan := 0\<rparr>" by (simp add: off_queue_def Let_def)
  have uf: "u_procp ?u = u_procp s" "allproc ?u = allproc s" "curpri ?u = curpri s"
    "zombproc ?u = zombproc s" "freeproc ?u = freeproc s" "pidhash ?u = pidhash s" by (simp_all add: off_queue_def Let_def)
  obtain pri cpu slp rr where r: "run_ready p ?u = ?u\<lparr>ptab := (ptab ?u)(p := (ptab ?u p)\<lparr>p_slptime := slp, p_cpu := cpu, p_pri := pri, p_stat := SRUN\<rparr>),
      qs := (if SLOAD \<in> p_flag (ptab ?u p) then p # qs ?u else qs ?u), runrun := rr\<rparr>"
    "p_pri (ptab ?u p) \<le> 127 \<longrightarrow> pri \<le> 127"
    using run_ready_state[of p ?u] by blast
  define t where "t = run_ready p ?u"
  let ?pr = "(ptab ?u p)\<lparr>p_slptime := slp, p_cpu := cpu, p_pri := pri, p_stat := SRUN\<rparr>"
  have t: "ptab t = (ptab ?u)(p := ?pr)" "slpque t = slpque ?u" "qs t = (if SLOAD \<in> p_flag (ptab ?u p) then p # qs ?u else qs ?u)"
    "a_runin t = a_runin ?u" "a_runout t = a_runout ?u" "a_lbolt t = a_lbolt ?u" "a_proc t = a_proc ?u"
    "u_procp t = u_procp ?u" "allproc t = allproc ?u" "curpri t = curpri ?u"
    "zombproc t = zombproc ?u" "freeproc t = freeproc ?u" "pidhash t = pidhash ?u"
    unfolding t_def r(1) by simp_all
  have tp: "\<exists>slp cpu pri. ptab t p = (ptab s p)\<lparr>p_wchan := 0, p_slptime := slp, p_cpu := cpu, p_pri := pri, p_stat := SRUN\<rparr>
      \<and> (p_pri (ptab s p) \<le> 127 \<longrightarrow> pri \<le> 127)"
    using r(2) unfolding t(1) u0 by auto
  have tok: "queues_ok t"
    by (rule make_runnable_ok[OF u uw(1) _ t(1) _ _ _ t(2,3,4-7)]) (use uw np in simp_all)
  have "setrun p s = andthen (Inr ?u) (\<lambda>s. let s4 = run_ready p s in
      if SLOAD \<notin> p_flag (ptab s4 p) \<and> runout s4 \<noteq> 0 then wakeup (a_runout s4) (s4\<lparr>runout := 0\<rparr>) else Inr s4)"
    unfolding setrun_def run_ready_def Let_def using cr queues_okD(5)[OF ok, of p]
    by (intro arg_cong2[of _ _ _ _ andthen] refl) (auto simp: can_run_def unsleep_off_queue[OF ok])
  then have sr: "setrun p s = (if SLOAD \<notin> p_flag (ptab t p) \<and> runout t \<noteq> 0
      then wakeup (a_runout t) (t\<lparr>runout := 0\<rparr>) else Inr t)" by (simp only: andthen_Inr Let_def t_def)
  show ?thesis
  proof (cases "SLOAD \<notin> p_flag (ptab t p) \<and> runout t \<noteq> 0")
    case False
    then have "setrun p s = Inr t" using sr[unfolded if_not_P[OF False]] by simp
    then show ?thesis using tok t uw uo uf tp by (intro exI[of _ t] exI[of _ "{}"]) (auto simp: ran_def)
  next
    case True
    let ?t = "t\<lparr>runout := 0\<rparr>"
    have tok': "queues_ok ?t" using tok by (subst queues_ok_cong[of _ t]) auto
    obtain s' A where w: "wakeup (a_runout t) ?t = Inr s'" "queues_ok s'" "roused A ?t s'" "outcome (a_runout t) ?t s' A"
      using wakeup_ok[OF tok' queues_okD(7)[OF tok]] by blast
    have A: "A = {q. p_wchan (ptab t q) = a_runout s}" using w(4) t(5) uw(4) by (auto simp: outcome_def)
    have pA: "p \<notin> A" using A t(1) uw(1) queues_okD(7)[OF ok] by simp
    have keep: "ptab s' q = ptab t q" if "q \<notin> A" for q using w(3) that by (simp add: roused_def)
    have aw: "awake (ptab s q) (ptab s' q)" if "q \<in> A" for q
    proof -
      have "q \<noteq> p" using that pA by auto
      then have "ptab t q = ptab s q" using t(1) uo by simp
      then show ?thesis using w(3) that unfolding roused_def by auto
    qed
    have qsub: "set (qs s) \<subseteq> set (qs s')" using w(3) t(3) uw(2) unfolding roused_def by auto
    have qs': "set (qs s') = set (qs t) \<union> {q \<in> A. p_stat (ptab t q) = SSLEEP \<and> SLOAD \<in> p_flag (ptab t q)}"
      using w(3) unfolding roused_def by simp
    have qsup: "set (qs s') \<subseteq> set (qs s) \<union> insert p {q. p_wchan (ptab s q) = a_runout s}"
    proof
      fix q assume "q \<in> set (qs s')"
      then show "q \<in> set (qs s) \<union> insert p {q. p_wchan (ptab s q) = a_runout s}"
        using qs' t(1,3) uw(2) A uo by (cases "q = p") (auto split: if_splits)
    qed
    have qin: "q \<in> set (qs s')" if "q \<noteq> p" "p_wchan (ptab s q) = a_runout s" "p_stat (ptab s q) = SSLEEP" "SLOAD \<in> p_flag (ptab s q)" for q
      using that qs' A t(1) uo[OF that(1)] by simp
    have others: "ptab s' q = ptab s q" if "q \<noteq> p" "q \<notin> {q. p_wchan (ptab s q) = a_runout s}" for q
      using keep[of q] A t(1) uo that by simp
    show ?thesis
      using sr[unfolded if_P[OF True]] w(1,2) keep[OF pA] t uw qsub True others aw A uo uf tp roused_fields[OF w(3)] qsup qin
      by (intro exI[of _ s'] exI[of _ "{q. p_wchan (ptab s q) = a_runout s}"]) (auto simp: ran_def)
  qed
qed

end
