(* ===== verification/Signal.thy ===== *)
theory Signal
  imports Sched_Queues
begin

text \<open>
  Signals: \<open>sys/kern/kern_sig.c\<close>, \<open>sys/kern/kern_sig2.c\<close>, \<open>sys/sys/signalvar.h\<close>.

  A signal mask is the set of the signals whose bits are set; \<open>ffs\<close> is the least of them.  The
  part of the u area that belongs to signals is the record \<open>sigarea\<close> of the current process.  A
  user pointer argument is \<open>None\<close> when it is null; otherwise it carries what \<open>copyin\<close> found there
  (\<open>None\<close> for a fault), or whether \<open>copyout\<close> to it succeeds.
\<close>

section \<open>Signals and their properties\<close>

abbreviation SIGKILL :: nat where "SIGKILL \<equiv> 9"
abbreviation SIGSYS :: nat where "SIGSYS \<equiv> 12"
abbreviation SIGALRM :: nat where "SIGALRM \<equiv> 14"
abbreviation SIGSTOP :: nat where "SIGSTOP \<equiv> 17"
abbreviation SIGCONT :: nat where "SIGCONT \<equiv> 19"
abbreviation SIGCHLD :: nat where "SIGCHLD \<equiv> 20"
abbreviation NSIG :: nat where "NSIG \<equiv> 32"
abbreviation EPERM :: int where "EPERM \<equiv> 1"
abbreviation ESRCH :: int where "ESRCH \<equiv> 3"
abbreviation ENOMEM :: int where "ENOMEM \<equiv> 12"
abbreviation EFAULT :: int where "EFAULT \<equiv> 14"

datatype sigp = SA_KILL | SA_CORE | SA_STOP | SA_TTYSTOP | SA_IGNORE | SA_CONT

definition sigprop_table :: "sigp set list" where
  "sigprop_table =
     [{}, {SA_KILL}, {SA_KILL}, {SA_KILL, SA_CORE}, {SA_KILL, SA_CORE}, {SA_KILL, SA_CORE},
      {SA_KILL, SA_CORE}, {SA_KILL, SA_CORE}, {SA_KILL, SA_CORE}, {SA_KILL}, {SA_KILL, SA_CORE},
      {SA_KILL, SA_CORE}, {SA_KILL, SA_CORE}, {SA_KILL}, {SA_KILL}, {SA_KILL}, {SA_IGNORE},
      {SA_STOP}, {SA_STOP, SA_TTYSTOP}, {SA_IGNORE, SA_CONT}, {SA_IGNORE}, {SA_STOP, SA_TTYSTOP},
      {SA_STOP, SA_TTYSTOP}, {SA_IGNORE}, {SA_KILL}, {SA_KILL}, {SA_KILL}, {SA_KILL}, {SA_IGNORE},
      {SA_IGNORE}, {SA_KILL}, {SA_KILL}]"

definition sigprop :: "nat \<Rightarrow> sigp set" where
  "sigprop sig = (if sig < 32 then sigprop_table ! sig else {})"

definition contsigmask :: "nat set" where
  "contsigmask = {SIGCONT}"

definition stopsigmask :: "nat set" where
  "stopsigmask = {17, 18, 21, 22}"

definition sigcantmask :: "nat set" where
  "sigcantmask = {SIGKILL, SIGSTOP}"

section \<open>Posting a signal\<close>

datatype sigact = ACT_DFL | ACT_HOLD | ACT_CATCH

definition stop :: "nat \<Rightarrow> sys \<Rightarrow> sys res" where
  "stop p s =
     (let s1 = upd p (\<lambda>pr. pr\<lparr>p_stat := SSTOP, p_flag := p_flag pr - {P_WAITED}\<rparr>) s
      in wakeup (a_proc s1 (p_pptr (ptab s1 p))) s1)"

definition psignal_action :: "proc \<Rightarrow> nat \<Rightarrow> sigact" where
  "psignal_action pr sig =
     (if P_TRACED \<in> p_flag pr then ACT_DFL
      else if sig \<in> p_sigmask pr then ACT_HOLD
      else if sig \<in> p_sigcatch pr then ACT_CATCH else ACT_DFL)"

text \<open>The label \<open>run\<close>.\<close>

definition psignal_run :: "nat \<Rightarrow> sys \<Rightarrow> sys res" where
  "psignal_run p s = setrun p (upd p (\<lambda>pr. if p_pri pr > PUSER then pr\<lparr>p_pri := PUSER\<rparr> else pr) s)"

text \<open>
  The bookkeeping before the process is looked at: the new process entry, or \<open>None\<close> when the
  signal is discarded, with the entry as it is then.
\<close>

definition psignal_post :: "proc \<Rightarrow> nat \<Rightarrow> bool \<times> proc" where
  "psignal_post pr sig =
     (let action = psignal_action pr sig;
          prop = sigprop sig;
          pr1 = (if p_nice pr > 0 \<and> action = ACT_DFL \<and> SA_KILL \<in> prop \<and> P_TRACED \<notin> p_flag pr
                 then pr\<lparr>p_nice := 0\<rparr> else pr);
          pr2 = (if SA_CONT \<in> prop then pr1\<lparr>p_sig := p_sig pr1 - stopsigmask\<rparr> else pr1)
      in if SA_STOP \<in> prop \<and> SA_TTYSTOP \<in> prop \<and> p_pptr pr2 = 1 \<and> action = ACT_DFL then (False, pr2)
         else
           let pr3 = (if SA_STOP \<in> prop then pr2\<lparr>p_sig := p_sig pr2 - contsigmask\<rparr> else pr2)
           in (True, pr3\<lparr>p_sig := insert sig (p_sig pr3)\<rparr>))"

text \<open>
  \<open>psignal\<close> calls itself to send \<open>SIGCHLD\<close> to the parent; that signal never stops a process, so the
  calls nest at most twice.
\<close>

fun psignal_depth :: "nat \<Rightarrow> nat \<Rightarrow> nat \<Rightarrow> sys \<Rightarrow> sys res" where
  "psignal_depth 0 p sig s = Inl Hang"
| "psignal_depth (Suc d) p sig s =
     (let pr = ptab s p; prop = sigprop sig; action = psignal_action pr sig in
      if P_TRACED \<notin> p_flag pr \<and> sig \<in> p_sigignore pr then Inr s
      else
        let (posted, pr') = psignal_post pr sig;
            s1 = upd p (\<lambda>_. pr') s
        in if \<not> posted then Inr s1
           else if action = ACT_HOLD \<and> (SA_CONT \<notin> prop \<or> p_stat pr' \<noteq> SSTOP) then Inr s1
           else case p_stat pr' of
             SSLEEP \<Rightarrow>
               if P_SINTR \<notin> p_flag pr' then Inr s1
               else if P_TRACED \<in> p_flag pr' then psignal_run p s1
               else if SA_CONT \<in> prop \<and> action = ACT_DFL
                 then Inr (upd p (\<lambda>pr. pr\<lparr>p_sig := p_sig pr - {sig}\<rparr>) s1)
               else if SA_STOP \<in> prop then
                 if action \<noteq> ACT_DFL then psignal_run p s1
                 else if SVFORK \<in> p_flag pr' then Inr s1
                 else
                   let s2 = upd p (\<lambda>pr. pr\<lparr>p_sig := p_sig pr - {sig}, p_ptracesig := sig\<rparr>) s1;
                       pp = p_pptr (ptab s2 p)
                   in andthen (if P_NOCLDSTOP \<notin> p_flag (ptab s2 pp) then psignal_depth d pp SIGCHLD s2 else Inr s2)
                        (stop p)
               else psignal_run p s1
           | SSTOP \<Rightarrow>
               if P_TRACED \<in> p_flag pr' then Inr s1
               else if sig = SIGKILL then psignal_run p s1
               else if SA_CONT \<in> prop then
                 let s2 = (if action = ACT_DFL then upd p (\<lambda>pr. pr\<lparr>p_sig := p_sig pr - {sig}\<rparr>) s1 else s1)
                 in if action = ACT_CATCH \<or> p_wchan (ptab s2 p) = 0 then psignal_run p s2
                    else Inr (upd p (p_stat_update (\<lambda>_. SSLEEP)) s2)
               else if SA_STOP \<in> prop then Inr (upd p (\<lambda>pr. pr\<lparr>p_sig := p_sig pr - {sig}\<rparr>) s1)
               else if p_wchan pr' \<noteq> 0 \<and> P_SINTR \<in> p_flag pr' then unsleep p s1
               else Inr s1
           | _ \<Rightarrow> Inr s1)"

definition psignal :: "nat \<Rightarrow> nat \<Rightarrow> sys \<Rightarrow> sys res" where
  "psignal = psignal_depth 2"

fun gsignal_loop :: "int \<Rightarrow> nat \<Rightarrow> nat list \<Rightarrow> sys \<Rightarrow> sys res" where
  "gsignal_loop pgrp sig [] s = Inr s"
| "gsignal_loop pgrp sig (p # ps) s =
     andthen (if p_pgrp (ptab s p) = pgrp then psignal p sig s else Inr s) (gsignal_loop pgrp sig ps)"

definition gsignal :: "int \<Rightarrow> nat \<Rightarrow> sys \<Rightarrow> sys res" where
  "gsignal pgrp sig s = (if pgrp = 0 then Inr s else gsignal_loop pgrp sig (allproc s) s)"

section \<open>kill\<close>

text \<open>The real user id of a process is read from its u area (\<open>fill_from_u\<close>).\<close>

definition cansignal :: "nat \<Rightarrow> nat \<Rightarrow> sys \<Rightarrow> bool res" where
  "cansignal q signum s =
     (let c = ptab s (u_procp s); t = ptab s q in
      if p_uid c = 0 \<or> u_ruid c = u_ruid t \<or> p_uid c = u_ruid t \<or> u_ruid c = p_uid t \<or> p_uid c = p_uid t
      then Inr True
      else if signum = SIGCONT then inferior (Suc NPROC) q s else Inr False)"

fun killpg1_loop :: "nat \<Rightarrow> int \<Rightarrow> bool \<Rightarrow> nat list \<Rightarrow> nat \<Rightarrow> int \<Rightarrow> sys \<Rightarrow> (nat \<times> int \<times> sys) res" where
  "killpg1_loop signo pgrp al [] f error s = Inr (f, error, s)"
| "killpg1_loop signo pgrp al (p # ps) f error s =
     (if (p_pgrp (ptab s p) \<noteq> pgrp \<and> \<not> al) \<or> p_ppid (ptab s p) = 0 \<or> SSYS \<in> p_flag (ptab s p) \<or> (al \<and> p = u_procp s)
      then killpg1_loop signo pgrp al ps f error s
      else andthen (cansignal p signo s) (\<lambda>ok.
        if \<not> ok then killpg1_loop signo pgrp al ps f (if al then error else EPERM) s
        else andthen (if signo \<noteq> 0 then psignal p signo s else Inr s)
               (killpg1_loop signo pgrp al ps (Suc f) error)))"

definition killpg1 :: "nat \<Rightarrow> int \<Rightarrow> bool \<Rightarrow> sys \<Rightarrow> (int \<times> sys) res" where
  "killpg1 signo pgrp al s =
     (let own = p_pgrp (ptab s (u_procp s)) in
      if \<not> al \<and> pgrp = 0 \<and> own = 0 then Inr (ESRCH, s)
      else andthen (killpg1_loop signo (if \<not> al \<and> pgrp = 0 then own else pgrp) al (allproc s) 0 0 s)
             (\<lambda>(f, error, s). Inr (if error \<noteq> 0 then error else if f = 0 then ESRCH else 0, s)))"

definition kill :: "int \<Rightarrow> int \<Rightarrow> sys \<Rightarrow> (int \<times> sys) res" where
  "kill pid signo s =
     (if signo < 0 \<or> signo \<ge> int NSIG then Inr (EINVAL, s)
      else if pid > 0 then
        (case pfind pid s of
           None \<Rightarrow> Inr (ESRCH, s)
         | Some p \<Rightarrow>
             andthen (cansignal p (nat signo) s) (\<lambda>ok.
               if \<not> ok then Inr (EPERM, s)
               else if signo \<noteq> 0 then andthen (psignal p (nat signo) s) (\<lambda>s. Inr (0, s))
               else Inr (0, s)))
      else if pid = -1 then killpg1 (nat signo) 0 True s
      else if pid = 0 then killpg1 (nat signo) 0 False s
      else killpg1 (nat signo) (- pid) False s)"

definition killpg :: "int \<Rightarrow> int \<Rightarrow> sys \<Rightarrow> (int \<times> sys) res" where
  "killpg pgrp signo s =
     (if signo < 0 \<or> signo \<ge> int NSIG then Inr (EINVAL, s) else killpg1 (nat signo) pgrp False s)"

section \<open>Signal state of the current process\<close>

datatype handler = SIG_DFL | SIG_IGN | Handler nat

record sigarea =
  u_signal :: "nat \<Rightarrow> handler"
  u_sigmask :: "nat \<Rightarrow> nat set"
  u_sigintr :: "nat set"
  u_sigonstack :: "nat set"
  u_oldmask :: "nat set"
  sas_oldmask :: bool
  sas_altstack :: bool
  u_sigtramp :: nat
  ss_onstack :: bool
  ss_disable :: bool
  ss_size :: int
  ss_base :: nat

record sigvec =
  sa_handler :: handler
  sa_mask :: "nat set"
  sa_restart :: bool
  sa_onstack :: bool
  sa_nocldstop :: bool

definition setsigvec :: "nat \<Rightarrow> sigvec \<Rightarrow> sigarea \<times> proc \<Rightarrow> sigarea \<times> proc" where
  "setsigvec signum sa st =
     (let (u, p) = st;
          u1 = u\<lparr>u_signal := (u_signal u)(signum := sa_handler sa),
                 u_sigmask := (u_sigmask u)(signum := sa_mask sa - sigcantmask),
                 u_sigintr := (if \<not> sa_restart sa then insert signum (u_sigintr u) else u_sigintr u - {signum}),
                 u_sigonstack := (if sa_onstack sa then insert signum (u_sigonstack u) else u_sigonstack u - {signum})\<rparr>;
          p1 = (if signum = SIGCHLD then
                  if sa_nocldstop sa then p\<lparr>p_flag := insert P_NOCLDSTOP (p_flag p)\<rparr>
                  else p\<lparr>p_flag := p_flag p - {P_NOCLDSTOP}\<rparr>
                else p);
          p2 = (if sa_handler sa = SIG_IGN \<or> (SA_IGNORE \<in> sigprop signum \<and> sa_handler sa = SIG_DFL) then
                  p1\<lparr>p_sig := p_sig p1 - {signum},
                     p_sigignore := (if signum \<noteq> SIGCONT then insert signum (p_sigignore p1) else p_sigignore p1),
                     p_sigcatch := p_sigcatch p1 - {signum}\<rparr>
                else
                  p1\<lparr>p_sigignore := p_sigignore p1 - {signum},
                     p_sigcatch := (if sa_handler sa = SIG_DFL then p_sigcatch p1 - {signum}
                                    else insert signum (p_sigcatch p1))\<rparr>)
      in (u1, p2))"

text \<open>The result is the error, the old action if one was copied out, and the new state.\<close>

definition sigaction ::
  "int \<Rightarrow> sigvec option option \<Rightarrow> bool option \<Rightarrow> nat \<Rightarrow> sigarea \<times> proc \<Rightarrow> int \<times> sigvec option \<times> sigarea \<times> proc" where
  "sigaction signum nsa osa sigtramp st =
     (let (u0, p) = st; u = u0\<lparr>u_sigtramp := sigtramp\<rparr>; n = nat signum in
      if signum \<le> 0 \<or> signum \<ge> int NSIG then (EINVAL, None, u, p)
      else if nsa \<noteq> None \<and> (n = SIGKILL \<or> n = SIGSTOP) then (EINVAL, None, u, p)
      else if osa = Some False then (EFAULT, None, u, p)
      else
        let old = (if osa = Some True
                   then Some \<lparr>sa_handler = u_signal u n, sa_mask = u_sigmask u n,
                              sa_restart = (n \<notin> u_sigintr u), sa_onstack = (n \<in> u_sigonstack u),
                              sa_nocldstop = (P_NOCLDSTOP \<in> p_flag p)\<rparr>
                   else None)
        in case nsa of
             None \<Rightarrow> (0, old, u, p)
           | Some None \<Rightarrow> (EFAULT, old, u, p)
           | Some (Some sa) \<Rightarrow> (0, old, setsigvec n sa (u, p)))"

definition fatalsig_state :: "nat \<Rightarrow> sigarea \<times> proc \<Rightarrow> sigarea \<times> proc" where
  "fatalsig_state signum st =
     (let (u, p) = st in
      (u\<lparr>u_signal := (u_signal u)(signum := SIG_DFL)\<rparr>,
       p\<lparr>p_sigignore := p_sigignore p - {signum}, p_sigcatch := p_sigcatch p - {signum},
         p_sigmask := p_sigmask p - {signum}\<rparr>))"

definition fatalsig :: "nat \<Rightarrow> sigarea \<Rightarrow> sys \<Rightarrow> (sigarea \<times> sys) res" where
  "fatalsig signum u s =
     (let p = u_procp s; (u', pr) = fatalsig_state signum (u, ptab s p)
      in andthen (psignal p signum (upd p (\<lambda>_. pr) s)) (\<lambda>s. Inr (u', s)))"

text \<open>\<open>nosys\<close>; \<open>SIG_HOLD\<close> is the handler value 3.  The first argument is \<open>u_error\<close> on entry.\<close>

definition nosys :: "int \<Rightarrow> sigarea \<Rightarrow> sys \<Rightarrow> (int \<times> sys) res" where
  "nosys u_error u s =
     (let e = (if u_signal u SIGSYS = SIG_IGN \<or> u_signal u SIGSYS = Handler 3 then EINVAL else u_error)
      in andthen (psignal (u_procp s) SIGSYS s) (\<lambda>s. Inr (e, s)))"

definition siginit :: "proc \<Rightarrow> proc" where
  "siginit p = p\<lparr>p_sigignore := p_sigignore p \<union> {i \<in> {0..<NSIG}. SA_IGNORE \<in> sigprop i \<and> i \<noteq> SIGCONT}\<rparr>"

datatype sighow = SIG_BLOCK | SIG_UNBLOCK | SIG_SETMASK | Bad_how

text \<open>The result is the error, the old mask if it was copied out, and the process.\<close>

definition sigprocmask :: "sighow \<Rightarrow> nat set option option \<Rightarrow> bool option \<Rightarrow> proc \<Rightarrow> int \<times> nat set option \<times> proc" where
  "sigprocmask how set' oset p =
     (let oldmask = p_sigmask p;
          (error, p1) =
            (case set' of
               None \<Rightarrow> (0, p)
             | Some None \<Rightarrow> (EFAULT, p)
             | Some (Some newmask) \<Rightarrow>
                 (case how of
                    SIG_BLOCK \<Rightarrow> (0, p\<lparr>p_sigmask := p_sigmask p \<union> (newmask - sigcantmask)\<rparr>)
                  | SIG_UNBLOCK \<Rightarrow> (0, p\<lparr>p_sigmask := p_sigmask p - newmask\<rparr>)
                  | SIG_SETMASK \<Rightarrow> (0, p\<lparr>p_sigmask := newmask - sigcantmask\<rparr>)
                  | Bad_how \<Rightarrow> (EINVAL, p)))
      in if error = 0 \<and> oset \<noteq> None
         then if oset = Some True then (0, Some oldmask, p1) else (EFAULT, None, p1)
         else (error, None, p1))"

definition sigpending :: "bool option \<Rightarrow> proc \<Rightarrow> int \<times> nat set option" where
  "sigpending set' p =
     (case set' of None \<Rightarrow> (EINVAL, None) | Some True \<Rightarrow> (0, Some (p_sig p)) | Some False \<Rightarrow> (EFAULT, None))"

text \<open>\<open>sigsuspend\<close> up to its sleep.\<close>

definition sigsuspend_mask :: "nat set option option \<Rightarrow> sigarea \<times> proc \<Rightarrow> sigarea \<times> proc" where
  "sigsuspend_mask set' st =
     (let (u, p) = st;
          nmask = (case set' of Some (Some m) \<Rightarrow> m | _ \<Rightarrow> {})
      in (u\<lparr>u_oldmask := p_sigmask p, sas_oldmask := True\<rparr>, p\<lparr>p_sigmask := nmask - sigcantmask\<rparr>))"

text \<open>
  \<open>postsig\<close>: deliver to a handler, with the mask to restore afterwards, or end the process.
\<close>

datatype delivery = Sendsig nat nat "nat set" | Exit_sig nat bool

definition postsig :: "nat \<Rightarrow> sigarea \<times> proc \<Rightarrow> delivery \<times> sigarea \<times> proc" where
  "postsig sig st =
     (let (u, p) = st;
          p1 = p\<lparr>p_sig := p_sig p - {sig}\<rparr>
      in case u_signal u sig of
           SIG_DFL \<Rightarrow> (Exit_sig sig (SA_CORE \<in> sigprop sig), u, p1)
         | action \<Rightarrow>
             let (returnmask, u1) = (if sas_oldmask u then (u_oldmask u, u\<lparr>sas_oldmask := False\<rparr>) else (p_sigmask p1, u))
             in (Sendsig (case action of Handler a \<Rightarrow> a | _ \<Rightarrow> 1) sig returnmask, u1,
                 p1\<lparr>p_sigmask := p_sigmask p1 \<union> u_sigmask u1 sig \<union> {sig}\<rparr>))"

text \<open>The loop of \<open>execsigs\<close>: each round resets the least caught signal.\<close>

fun execsigs_loop :: "nat \<Rightarrow> sigarea \<times> proc \<Rightarrow> sigarea \<times> proc" where
  "execsigs_loop 0 st = st"
| "execsigs_loop (Suc n) st =
     (let (u, p) = st in
      if p_sigcatch p = {} then st
      else
        let nc = Min (p_sigcatch p);
            p1 = p\<lparr>p_sigcatch := p_sigcatch p - {nc}\<rparr>;
            p2 = (if SA_IGNORE \<in> sigprop nc
                  then p1\<lparr>p_sigignore := (if nc \<noteq> SIGCONT then insert nc (p_sigignore p1) else p_sigignore p1),
                          p_sig := p_sig p1 - {nc}\<rparr>
                  else p1)
        in execsigs_loop n (u\<lparr>u_signal := (u_signal u)(nc := SIG_DFL)\<rparr>, p2))"

definition execsigs :: "sigarea \<times> proc \<Rightarrow> sigarea \<times> proc" where
  "execsigs st =
     (let (u, p) = execsigs_loop NSIG st
      in (u\<lparr>ss_onstack := False, ss_disable := True, ss_size := 0, ss_base := 0,
            sas_oldmask := False, sas_altstack := False\<rparr>, p))"

text \<open>What \<open>sigreturn\<close> restores of the signal state from an accepted context.\<close>

definition sigreturn_state :: "bool \<Rightarrow> nat set \<Rightarrow> sigarea \<times> proc \<Rightarrow> sigarea \<times> proc" where
  "sigreturn_state sc_onstack sc_mask st =
     (let (u, p) = st in (u\<lparr>ss_onstack := sc_onstack\<rparr>, p\<lparr>p_sigmask := sc_mask - sigcantmask\<rparr>))"

text \<open>The alternate signal stack.\<close>

record stack_t =
  t_onstack :: bool
  t_disable :: bool
  t_size :: int
  t_base :: nat

definition sigaltstack :: "stack_t option option \<Rightarrow> bool option \<Rightarrow> sigarea \<Rightarrow> int \<times> stack_t option \<times> sigarea" where
  "sigaltstack nss oss u0 =
     (let u = (if \<not> sas_altstack u0 then u0\<lparr>ss_disable := True\<rparr> else u0);
          cur = \<lparr>t_onstack = ss_onstack u, t_disable = ss_disable u, t_size = ss_size u, t_base = ss_base u\<rparr>
      in if oss = Some False then (EFAULT, None, u)
         else
           let old = (if oss = Some True then Some cur else None)
           in case nss of
                None \<Rightarrow> (0, old, u)
              | Some None \<Rightarrow> (EFAULT, old, u)
              | Some (Some ss) \<Rightarrow>
                  if t_disable ss then
                    if ss_onstack u then (EINVAL, old, u)
                    else (0, old, u\<lparr>sas_altstack := False, ss_onstack := t_onstack ss, ss_disable := True\<rparr>)
                  else if t_size ss < 128 then (ENOMEM, old, u)
                  else (0, old, u\<lparr>sas_altstack := True, ss_onstack := t_onstack ss, ss_disable := False,
                                  ss_size := t_size ss, ss_base := t_base ss\<rparr>))"

text \<open>The 4.3BSD call; a stack is its base and the flag.\<close>

definition sigstack :: "(nat \<times> bool) option option \<Rightarrow> bool option \<Rightarrow> sigarea \<Rightarrow> int \<times> (nat \<times> bool) option \<times> sigarea" where
  "sigstack nss oss u =
     (if oss = Some False then (EFAULT, None, u)
      else
        let old = (if oss = Some True then Some (ss_base u, ss_onstack u) else None)
        in case nss of
             None \<Rightarrow> (0, old, u)
           | Some None \<Rightarrow> (EFAULT, old, u)
           | Some (Some (sp, on)) \<Rightarrow>
               (0, old, u\<lparr>ss_base := sp, ss_size := 0, ss_onstack := ss_onstack u \<or> on, sas_altstack := True\<rparr>))"

declare psignal_depth.simps(2) [simp del]

end
