(* ===== verification/Signal_Props.thy ===== *)
theory Signal_Props
  imports Signal
begin

text \<open>
  What the signal code guarantees: \<open>psignal\<close> never faults and keeps the process queues, a kill
  reaches every process that can be interrupted, a process never has a stop and a continue signal
  pending together, and no sequence of system calls can block, ignore or catch \<open>SIGKILL\<close> and
  \<open>SIGSTOP\<close>.
\<close>

section \<open>Posting keeps the queues\<close>

lemma sigprop_simps [simp]:
  "sigprop 9 = {SA_KILL}" "sigprop 17 = {SA_STOP}" "sigprop 18 = {SA_STOP, SA_TTYSTOP}" "sigprop 19 = {SA_IGNORE, SA_CONT}"
  "sigprop 20 = {SA_IGNORE}" "sigprop 21 = {SA_STOP, SA_TTYSTOP}" "sigprop 22 = {SA_STOP, SA_TTYSTOP}" "sigprop 14 = {SA_KILL}"
  by (simp_all add: sigprop_def sigprop_table_def)

lemma sigprop_cases:
  "SA_CONT \<in> sigprop sig \<longleftrightarrow> sig = 19" "SA_STOP \<in> sigprop sig \<longleftrightarrow> sig \<in> {17, 18, 21, 22}"
proof -
  have "sig < 32 \<Longrightarrow> sig \<in> set [0..<32]" by simp
  then show "SA_CONT \<in> sigprop sig \<longleftrightarrow> sig = 19" "SA_STOP \<in> sigprop sig \<longleftrightarrow> sig \<in> {17, 18, 21, 22}"
    by (cases "sig < 32"; auto simp: sigprop_def sigprop_table_def upt_rec)+
qed

lemma psignal_post_fields:
  assumes "psignal_post pr sig = (b, pr')"
  shows "\<exists>n sg. pr' = pr\<lparr>p_nice := n, p_sig := sg\<rparr>" "b \<Longrightarrow> sig \<in> p_sig pr'"
proof -
  show "\<exists>n sg. pr' = pr\<lparr>p_nice := n, p_sig := sg\<rparr>"
    using assms unfolding psignal_post_def Let_def
    by (intro exI[of _ "p_nice pr'"] exI[of _ "p_sig pr'"]) (auto split: if_splits)
  show "b \<Longrightarrow> sig \<in> p_sig pr'" using assms unfolding psignal_post_def Let_def by (auto split: if_splits)
qed

text \<open>Changes to a process that the queues do not see.\<close>

lemma queues_ok_upd:
  assumes "queues_ok s" and "p_stat (f (ptab s p)) = p_stat (ptab s p)"
    and "SLOAD \<in> p_flag (f (ptab s p)) \<longleftrightarrow> SLOAD \<in> p_flag (ptab s p)" and "p_wchan (f (ptab s p)) = p_wchan (ptab s p)"
  shows "queues_ok (upd p f s)"
proof -
  have e: "p_stat (ptab (upd p f s) q) = p_stat (ptab s q)" "SLOAD \<in> p_flag (ptab (upd p f s) q) \<longleftrightarrow> SLOAD \<in> p_flag (ptab s q)"
    "p_wchan (ptab (upd p f s) q) = p_wchan (ptab s q)" for q using assms(2-4) by simp_all
  show ?thesis using assms(1) unfolding queues_ok_def e by simp
qed

text \<open>A sleeper may become stopped and a stopped process asleep again.\<close>

lemma queues_ok_stat:
  assumes "queues_ok s" and "p_stat (ptab s p) \<in> {SSLEEP, SSTOP}" and "p_stat (f (ptab s p)) \<in> {SSLEEP, SSTOP}"
    and "p_wchan (f (ptab s p)) = p_wchan (ptab s p)"
  shows "queues_ok (upd p f s)"
proof -
  have np: "p \<notin> set (qs s)" using queues_okD(2)[OF assms(1), of p] assms(2) by auto
  have w: "p_wchan (ptab (upd p f s) q) = p_wchan (ptab s q)" for q using assms(4) by simp
  have q: "\<forall>q \<in> set (qs s). ptab (upd p f s) q = ptab s q" using np by auto
  have st: "p_wchan (ptab s q) \<noteq> 0 \<longrightarrow> p_stat (ptab (upd p f s) q) \<in> {SSLEEP, SSTOP}" for q
    using assms(1,3) queues_okD(5)[OF assms(1), of q] by auto
  show ?thesis using assms(1) q st unfolding queues_ok_def w by simp
qed

definition swapper_ok :: "sys \<Rightarrow> bool" where
  "swapper_ok s \<longleftrightarrow> (\<forall>p. P_SINTR \<in> p_flag (ptab s p) \<longrightarrow> p_wchan (ptab s p) \<noteq> a_runout s \<and> p_pptr (ptab s p) \<noteq> p)"

definition others_same :: "nat \<Rightarrow> sys \<Rightarrow> sys \<Rightarrow> bool" where
  "others_same p s s' \<longleftrightarrow> a_runout s' = a_runout s
     \<and> (\<forall>q. q \<noteq> p \<longrightarrow> ptab s' q = ptab s q \<or> p_wchan (ptab s q) = a_runout s \<and> awake (ptab s q) (ptab s' q))"

definition sig_same :: "nat \<Rightarrow> sys \<Rightarrow> sys \<Rightarrow> bool" where
  "sig_same p s s' \<longleftrightarrow> p_sig (ptab s' p) = p_sig (ptab s p) \<and> p_flag (ptab s' p) = p_flag (ptab s p)"

lemma others_same_upd: "others_same p s (upd p f s)"
  by (simp add: others_same_def)

lemma psignal_run_ok:
  assumes "queues_ok s" and "can_run (ptab s p)"
  shows "\<exists>s'. psignal_run p s = Inr s' \<and> queues_ok s' \<and> p_stat (ptab s' p) = SRUN
    \<and> (SLOAD \<in> p_flag (ptab s p) \<longrightarrow> p \<in> set (qs s')) \<and> others_same p s s' \<and> sig_same p s s'"
proof -
  let ?f = "\<lambda>pr. if p_pri pr > PUSER then pr\<lparr>p_pri := PUSER\<rparr> else pr"
  have f: "p_stat (?f pr) = p_stat pr" "p_flag (?f pr) = p_flag pr" "p_wchan (?f pr) = p_wchan pr" "p_sig (?f pr) = p_sig pr" for pr
    by simp_all
  define s1 where "s1 = upd p ?f s"
  have s1: "ptab s1 p = ?f (ptab s p)" "\<And>q. q \<noteq> p \<Longrightarrow> ptab s1 q = ptab s q" "a_runout s1 = a_runout s" by (simp_all add: s1_def)
  have u: "queues_ok s1" unfolding s1_def using assms(1) by (rule queues_ok_upd) (simp_all add: f)
  have cr: "can_run (ptab s1 p)" using assms(2) f(1)[of "ptab s p"] unfolding can_run_def s1(1) by metis
  obtain s' A where s': "setrun p s1 = Inr s'" "ran p s1 s' A" using setrun_ok[OF u cr] by blast
  note R = ranD[OF s'(2)] and S = ran_self[OF s'(2)]
  have sg: "sig_same p s s'" unfolding sig_same_def S s1(1) f by simp
  have "others_same p s s'" unfolding others_same_def
  proof (intro conjI allI impI)
    show "a_runout s' = a_runout s" using R(9) s1(3) by simp
    fix q assume q: "q \<noteq> p"
    show "ptab s' q = ptab s q \<or> p_wchan (ptab s q) = a_runout s \<and> awake (ptab s q) (ptab s' q)"
    proof (cases "q \<in> A")
      case True
      then have "p_wchan (ptab s1 q) = a_runout s1" using R(4) by auto
      then show ?thesis using R(6)[OF True q] s1(2)[OF q] s1(3) by simp
    qed (use R(5)[of q] q s1(2) in simp)
  qed
  moreover have "SLOAD \<in> p_flag (ptab s p) \<longrightarrow> p \<in> set (qs s')" using R(2) unfolding s1(1) f by blast
  ultimately show ?thesis using s'(1) R(1) S(1) sg unfolding psignal_run_def s1_def[symmetric] by blast
qed

text \<open>\<open>safe p s r\<close>: the result \<open>r\<close> is no fault, keeps the queues and leaves the processes other than \<open>p\<close> alone.\<close>

definition safe :: "nat \<Rightarrow> sys \<Rightarrow> sys res \<Rightarrow> bool" where
  "safe p s r \<longleftrightarrow> (\<exists>s'. r = Inr s' \<and> queues_ok s' \<and> others_same p s s')"

lemma safe_Inr: "queues_ok s' \<Longrightarrow> others_same p s s' \<Longrightarrow> safe p s (Inr s')"
  by (simp add: safe_def)

lemma safe_if: "(c \<Longrightarrow> safe p s x) \<Longrightarrow> (\<not> c \<Longrightarrow> safe p s y) \<Longrightarrow> safe p s (if c then x else y)"
  by simp

lemma others_same_after: "others_same p (upd p f s) s' \<Longrightarrow> others_same p s s'"
  by (auto simp: others_same_def)

lemma safe_after: "safe p (upd p f s) r \<Longrightarrow> safe p s r"
  by (auto simp: safe_def dest: others_same_after)

lemma safe_run: "queues_ok s \<Longrightarrow> can_run (ptab s p) \<Longrightarrow> safe p s (psignal_run p s)"
  using psignal_run_ok[of s p] by (auto simp: safe_def)

lemma safe_refl: "queues_ok s \<Longrightarrow> safe p s (Inr s)"
  by (simp add: safe_def others_same_def)

lemma safe_unsleep:
  assumes "queues_ok s"
  shows "safe p s (unsleep p s)"
  using assms off_queue_ok[OF assms, of p]
  by (simp add: unsleep_off_queue[OF assms] safe_def others_same_def off_queue_def Let_def)

lemmas safe_rules = safe_refl safe_run safe_unsleep

lemma psignal_plain:
  assumes ok: "queues_ok s" and plain: "SA_STOP \<notin> sigprop sig"
  shows "safe p s (psignal_depth (Suc d) p sig s)"
proof -
  obtain b pr' where post: "psignal_post (ptab s p) sig = (b, pr')" by force
  obtain n sg where pr': "pr' = (ptab s p)\<lparr>p_nice := n, p_sig := sg\<rparr>" using psignal_post_fields(1)[OF post] by blast
  let ?s = "upd p (\<lambda>_. pr') s"
  have f: "p_stat pr' = p_stat (ptab s p)" "p_flag pr' = p_flag (ptab s p)" "p_wchan pr' = p_wchan (ptab s p)" by (simp_all add: pr')
  have ok1: "queues_ok ?s" using ok by (rule queues_ok_upd) (simp_all add: f)
  have clr: "queues_ok (upd p (\<lambda>pr. pr\<lparr>p_sig := p_sig pr - {sig}\<rparr>) ?s)" using ok1 by (rule queues_ok_upd) simp_all
  have lift: "safe p s r" if "safe p ?s r" for r using that by (rule safe_after)
  have s1: "safe p s (Inr ?s)" using lift[OF safe_refl[OF ok1]] .
  have s2: "safe p s (Inr (upd p (\<lambda>pr. pr\<lparr>p_sig := p_sig pr - {sig}\<rparr>) ?s))" using lift[OF safe_after[OF safe_refl[OF clr]]] .
  have run: "safe p s (psignal_run p ?s)" if "p_stat pr' = SSLEEP \<or> p_stat pr' = SSTOP"
    using that by (intro lift safe_run ok1) (auto simp: can_run_def)
  have run2: "safe p s (psignal_run p (upd p (\<lambda>pr. pr\<lparr>p_sig := p_sig pr - {sig}\<rparr>) ?s))" if "p_stat pr' = SSLEEP \<or> p_stat pr' = SSTOP"
    using that by (intro lift safe_after[OF safe_run[OF clr]]) (auto simp: can_run_def)
  have asleep: "safe p s (Inr (upd p (p_stat_update (\<lambda>_. SSLEEP)) t))"
    if "p_stat pr' = SSTOP" and "t = ?s \<or> t = upd p (\<lambda>pr. pr\<lparr>p_sig := p_sig pr - {sig}\<rparr>) ?s" for t
  proof -
    have "queues_ok t" "p_stat (ptab t p) = SSTOP" using that ok1 clr by auto
    then have "queues_ok (upd p (p_stat_update (\<lambda>_. SSLEEP)) t)" by (intro queues_ok_stat) simp_all
    moreover have "others_same p s (upd p (p_stat_update (\<lambda>_. SSLEEP)) t)" using that(2) by (auto simp: others_same_def)
    ultimately show ?thesis by (rule safe_Inr)
  qed
  have un: "safe p s (unsleep p ?s)" using lift[OF safe_unsleep[OF ok1]] .
  show ?thesis
    unfolding psignal_depth.simps(2) Let_def post prod.case
    using plain safe_refl[OF ok, of p] s1 s2 run run2 asleep un
    by (intro safe_if) (simp_all add: safe_if split: pstat.split, auto)
qed

text \<open>A sleeper that stops: its parent may be signalled first.\<close>

lemma stop_safe:
  assumes ok: "queues_ok s" and st: "p_stat (ptab s p) = SSLEEP"
  shows "\<exists>s'. stop p s = Inr s' \<and> queues_ok s'"
proof -
  let ?s = "upd p (\<lambda>pr. pr\<lparr>p_stat := SSTOP, p_flag := p_flag pr - {P_WAITED}\<rparr>) s"
  have "queues_ok ?s" using ok by (rule queues_ok_stat) (simp_all add: st)
  from wakeup_ok[OF this, of "a_proc ?s (p_pptr (ptab ?s p))"] queues_okD(9)[OF this]
  show ?thesis unfolding stop_def Let_def by blast
qed

definition fine :: "sys res \<Rightarrow> bool" where
  "fine r \<longleftrightarrow> (\<exists>s'. r = Inr s' \<and> queues_ok s')"

lemma fine_if: "(c \<Longrightarrow> fine x) \<Longrightarrow> (\<not> c \<Longrightarrow> fine y) \<Longrightarrow> fine (if c then x else y)"
  by simp

lemma psignal_stop_fine:
  assumes ok: "queues_ok s2" and pp: "pp = p_pptr (ptab s2 p)" "pp \<noteq> p" and st: "p_stat (ptab s2 p) = SSLEEP"
    and sane: "p_wchan (ptab s2 p) \<noteq> a_runout s2"
  shows "fine (andthen (if P_NOCLDSTOP \<notin> p_flag (ptab s2 pp) then psignal_depth (Suc d) pp SIGCHLD s2 else Inr s2) (stop p))"
proof -
  have "safe pp s2 (if P_NOCLDSTOP \<notin> p_flag (ptab s2 pp) then psignal_depth (Suc d) pp SIGCHLD s2 else Inr s2)"
    by (rule safe_if) (use psignal_plain[OF ok, of SIGCHLD pp d] safe_refl[OF ok, of pp] in simp_all)
  then obtain s3 where s3: "(if P_NOCLDSTOP \<notin> p_flag (ptab s2 pp) then psignal_depth (Suc d) pp SIGCHLD s2 else Inr s2) = Inr s3"
    "queues_ok s3" "others_same pp s2 s3" unfolding safe_def by blast
  have "ptab s3 p = ptab s2 p" using s3(3) sane pp(2) unfolding others_same_def by metis
  then have "p_stat (ptab s3 p) = SSLEEP" using st by simp
  from stop_safe[OF s3(2) this] show ?thesis unfolding s3(1) by (simp add: fine_def)
qed

lemma psignal_ok:
  assumes ok: "queues_ok s" and sw: "swapper_ok s"
  shows "\<exists>s'. psignal p sig s = Inr s' \<and> queues_ok s'"
proof (cases "SA_STOP \<in> sigprop sig")
  case False
  then show ?thesis using psignal_plain[OF ok, of sig p 1] by (auto simp: psignal_def safe_def numeral_2_eq_2)
next
  case True
  obtain b pr' where post: "psignal_post (ptab s p) sig = (b, pr')" by force
  obtain n sg where pr': "pr' = (ptab s p)\<lparr>p_nice := n, p_sig := sg\<rparr>" using psignal_post_fields(1)[OF post] by blast
  define s1 where "s1 = upd p (\<lambda>_. pr') s"
  have f: "p_stat pr' = p_stat (ptab s p)" "p_flag pr' = p_flag (ptab s p)" "p_wchan pr' = p_wchan (ptab s p)" "p_pptr pr' = p_pptr (ptab s p)"
    by (simp_all add: pr')
  have s1: "ptab s1 p = pr'" "a_runout s1 = a_runout s" by (simp_all add: s1_def)
  have ok1: "queues_ok s1" unfolding s1_def using ok by (rule queues_ok_upd) (simp_all add: f)
  define s2 where "s2 = upd p (\<lambda>pr. pr\<lparr>p_sig := p_sig pr - {sig}, p_ptracesig := sig\<rparr>) s1"
  have ok2: "queues_ok s2" unfolding s2_def using ok1 by (rule queues_ok_upd) simp_all
  have s2: "p_stat (ptab s2 p) = p_stat pr'" "p_pptr (ptab s2 p) = p_pptr pr'" "p_wchan (ptab s2 p) = p_wchan pr'" "a_runout s2 = a_runout s"
    by (simp_all add: s2_def s1)
  have r0: "fine (Inr s)" "fine (Inr s1)" using ok ok1 by (simp_all add: fine_def)
  have r2: "fine (Inr (upd p (\<lambda>pr. pr\<lparr>p_sig := p_sig pr - {sig}\<rparr>) s1))"
    using queues_ok_upd[OF ok1, of "\<lambda>pr. pr\<lparr>p_sig := p_sig pr - {sig}\<rparr>" p] by (simp add: fine_def)
  have run: "fine (psignal_run p s1)" if "p_stat pr' = SSLEEP \<or> p_stat pr' = SSTOP"
    using psignal_run_ok[OF ok1, of p] that s1(1) unfolding can_run_def fine_def by auto
  have un: "fine (unsleep p s1)" using safe_unsleep[OF ok1, of p] unfolding safe_def fine_def by blast
  have halt: "fine (andthen (if P_NOCLDSTOP \<notin> p_flag (ptab s2 (p_pptr (ptab s2 p)))
      then psignal_depth 1 (p_pptr (ptab s2 p)) SIGCHLD s2 else Inr s2) (stop p))"
    if st: "p_stat pr' = SSLEEP" "P_SINTR \<in> p_flag pr'"
  proof -
    have sane: "p_wchan (ptab s p) \<noteq> a_runout s" "p_pptr (ptab s p) \<noteq> p" using sw st(2) f(2) unfolding swapper_ok_def by auto
    then show ?thesis unfolding One_nat_def by (intro psignal_stop_fine[OF ok2 refl]) (use st(1) s2 f in simp_all)
  qed
  let ?pp = "p_pptr (ptab s2 p)"
  have hA: "fine (andthen (psignal_depth (Suc 0) ?pp SIGCHLD s2) (stop p))"
    if "p_stat pr' = SSLEEP" "P_SINTR \<in> p_flag pr'" "P_NOCLDSTOP \<notin> p_flag (ptab s2 ?pp)" using halt that by simp
  have hB: "fine (stop p s2)"
    if "p_stat pr' = SSLEEP" "P_SINTR \<in> p_flag pr'" "P_NOCLDSTOP \<in> p_flag (ptab s2 ?pp)" using halt that by simp
  have nc: "SA_CONT \<notin> sigprop sig" "sig \<noteq> SIGKILL" using True sigprop_cases[of sig] by auto
  have "psignal p sig s = psignal_depth (Suc 1) p sig s" by (simp add: psignal_def numeral_2_eq_2)
  moreover have "fine (psignal_depth (Suc 1) p sig s)"
    unfolding psignal_depth.simps(2) Let_def post prod.case s1_def[symmetric] s2_def[symmetric]
    using True nc r0 r2 run un hA hB
    by (intro fine_if) (simp_all add: fine_if split: pstat.split)
  ultimately show ?thesis by (simp add: fine_def)
qed

section \<open>A kill reaches the process\<close>

lemma psignal_kill:
  assumes ok: "queues_ok s"
    and free: "P_TRACED \<in> p_flag (ptab s p) \<or> SIGKILL \<notin> p_sigignore (ptab s p) \<and> SIGKILL \<notin> p_sigmask (ptab s p)"
  shows "\<exists>s'. psignal p SIGKILL s = Inr s' \<and> SIGKILL \<in> p_sig (ptab s' p)
    \<and> (if p_stat (ptab s p) = SSTOP \<and> P_TRACED \<notin> p_flag (ptab s p) \<or> p_stat (ptab s p) = SSLEEP \<and> P_SINTR \<in> p_flag (ptab s p)
       then p_stat (ptab s' p) = SRUN \<and> (SLOAD \<in> p_flag (ptab s p) \<longrightarrow> p \<in> set (qs s'))
       else p_stat (ptab s' p) = p_stat (ptab s p) \<and> qs s' = qs s)"
proof -
  let ?run = "p_stat (ptab s p) = SSTOP \<and> P_TRACED \<notin> p_flag (ptab s p) \<or> p_stat (ptab s p) = SSLEEP \<and> P_SINTR \<in> p_flag (ptab s p)"
  obtain b pr' where post: "psignal_post (ptab s p) SIGKILL = (b, pr')" by force
  then have b: "b" by (auto simp: psignal_post_def Let_def sigprop_def sigprop_table_def split: if_splits)
  obtain n sg where pr': "pr' = (ptab s p)\<lparr>p_nice := n, p_sig := sg\<rparr>" using psignal_post_fields(1)[OF post] by blast
  define s1 where "s1 = upd p (\<lambda>_. pr') s"
  have f: "p_stat pr' = p_stat (ptab s p)" "p_flag pr' = p_flag (ptab s p)" "p_wchan pr' = p_wchan (ptab s p)" by (simp_all add: pr')
  have ok1: "queues_ok s1" unfolding s1_def using ok by (rule queues_ok_upd) (simp_all add: f)
  have p1: "ptab s1 p = pr'" "qs s1 = qs s" by (simp_all add: s1_def)
  have hold: "psignal_action (ptab s p) SIGKILL \<noteq> ACT_HOLD" and pass: "\<not> (P_TRACED \<notin> p_flag (ptab s p) \<and> SIGKILL \<in> p_sigignore (ptab s p))"
    using free by (auto simp: psignal_action_def)
  have kill: "sigprop SIGKILL = {SA_KILL}" by (simp add: sigprop_def sigprop_table_def)
  have "psignal p SIGKILL s = psignal_depth (Suc 1) p SIGKILL s" by (simp add: psignal_def numeral_2_eq_2)
  also have "\<dots> = (if ?run then psignal_run p s1 else Inr s1)"
    unfolding psignal_depth.simps(2) Let_def post prod.case s1_def[symmetric] if_not_P[OF pass] kill
    by (simp add: b hold f split: pstat.split)
  finally have eq: "psignal p SIGKILL s = (if ?run then psignal_run p s1 else Inr s1)" .
  have sig: "SIGKILL \<in> p_sig pr'" using psignal_post_fields(2)[OF post b] by simp
  show ?thesis
  proof (cases ?run)
    case False
    then show ?thesis unfolding eq if_not_P[OF False] using sig p1 f by simp
  next
    case True
    then have "can_run (ptab s1 p)" using f p1 by (auto simp: can_run_def)
    from psignal_run_ok[OF ok1 this] obtain s' where s': "psignal_run p s1 = Inr s'" "p_stat (ptab s' p) = SRUN"
      "SLOAD \<in> p_flag (ptab s1 p) \<longrightarrow> p \<in> set (qs s')" "sig_same p s1 s'" by blast
    then have "SIGKILL \<in> p_sig (ptab s' p)" using sig p1 by (simp add: sig_same_def)
    then show ?thesis unfolding eq if_P[OF True] using s' p1 f by simp
  qed
qed

section \<open>SIGKILL and SIGSTOP cannot be escaped\<close>

text \<open>The system calls and kernel paths that change a process's signal state.\<close>

datatype sigop =
    Sigaction int "sigvec option option" "bool option" nat
  | Sigprocmask sighow "nat set option option" "bool option"
  | Sigsuspend "nat set option option"
  | Sigreturn bool "nat set"
  | Postsig nat
  | Execsigs
  | Fatalsig nat
  | Sigaltstack "stack_t option option" "bool option"
  | Sigstack "(nat \<times> bool) option option" "bool option"

fun run_sigop :: "sigop \<Rightarrow> sigarea \<times> proc \<Rightarrow> sigarea \<times> proc" where
  "run_sigop (Sigaction n nsa osa tramp) st = snd (snd (sigaction n nsa osa tramp st))"
| "run_sigop (Sigprocmask how set' oset) st = (fst st, snd (snd (sigprocmask how set' oset (snd st))))"
| "run_sigop (Sigsuspend set') st = sigsuspend_mask set' st"
| "run_sigop (Sigreturn on m) st = sigreturn_state on m st"
| "run_sigop (Postsig sig) st = snd (postsig sig st)"
| "run_sigop Execsigs st = execsigs st"
| "run_sigop (Fatalsig n) st = fatalsig_state n st"
| "run_sigop (Sigaltstack nss oss) st = (snd (snd (sigaltstack nss oss (fst st))), snd st)"
| "run_sigop (Sigstack nss oss) st = (snd (snd (sigstack nss oss (fst st))), snd st)"

definition cant_escape :: "sigarea \<times> proc \<Rightarrow> bool" where
  "cant_escape st \<longleftrightarrow> (let (u, p) = st in finite (p_sigcatch p) \<and>
     (\<forall>n \<in> sigcantmask. n \<notin> p_sigmask p \<and> n \<notin> p_sigignore p \<and> n \<notin> p_sigcatch p
       \<and> u_signal u n = SIG_DFL \<and> (\<forall>k. n \<notin> u_sigmask u k) \<and> n \<notin> u_oldmask u))"

lemma execsigs_loop_escape: "cant_escape st \<Longrightarrow> cant_escape (execsigs_loop n st)"
proof (induction n arbitrary: st)
  case (Suc n)
  obtain u p where st: "st = (u, p)" by force
  show ?case
  proof (cases "p_sigcatch p = {}")
    case True
    then show ?thesis using Suc.prems st by simp
  next
    case False
    let ?nc = "Min (p_sigcatch p)"
    have nc: "?nc \<in> p_sigcatch p" using Min_in[of "p_sigcatch p"] Suc.prems st False by (simp add: cant_escape_def)
    then have "?nc \<notin> sigcantmask" using Suc.prems st by (auto simp: cant_escape_def)
    then show ?thesis using Suc.prems False st
      by (simp add: Let_def split del: if_split) (rule Suc.IH, auto simp: cant_escape_def)
  qed
qed simp

lemma setsigvec_escape:
  assumes "cant_escape (u, p)" and "n \<notin> sigcantmask"
  shows "cant_escape (setsigvec n sa (u, p))"
  using assms unfolding cant_escape_def setsigvec_def Let_def prod.case by auto

lemma sigprocmask_state:
  "snd (snd (sigprocmask how set' oset p)) = p\<lparr>p_sigmask := p_sigmask (snd (snd (sigprocmask how set' oset p)))\<rparr>"
  "p_sigmask (snd (snd (sigprocmask how set' oset p))) \<inter> sigcantmask \<subseteq> p_sigmask p"
proof -
  have "snd (snd (sigprocmask how set' oset p)) = p\<lparr>p_sigmask := p_sigmask (snd (snd (sigprocmask how set' oset p)))\<rparr>
      \<and> p_sigmask (snd (snd (sigprocmask how set' oset p))) \<inter> sigcantmask \<subseteq> p_sigmask p"
  proof (cases set')
    case (Some a)
    then show ?thesis by (cases a; cases how) (auto simp: sigprocmask_def)
  qed (simp add: sigprocmask_def)
  then show "snd (snd (sigprocmask how set' oset p)) = p\<lparr>p_sigmask := p_sigmask (snd (snd (sigprocmask how set' oset p)))\<rparr>"
    "p_sigmask (snd (snd (sigprocmask how set' oset p))) \<inter> sigcantmask \<subseteq> p_sigmask p" by blast+
qed

lemma sigop_escape:
  assumes "cant_escape st"
  shows "cant_escape (run_sigop op st)"
proof -
  obtain u p where st: "st = (u, p)" by force
  note c = assms[unfolded st]
  show ?thesis
  proof (cases op)
    case (Sigaction n nsa osa tramp)
    have ct: "cant_escape (u\<lparr>u_sigtramp := tramp\<rparr>, p)" using c by (simp add: cant_escape_def)
    have "nat n \<notin> sigcantmask" if "\<not> (nsa \<noteq> None \<and> (nat n = SIGKILL \<or> nat n = SIGSTOP))" "nsa = Some (Some sa)" for sa
      using that by (auto simp: sigcantmask_def)
    then show ?thesis unfolding Sigaction st run_sigop.simps sigaction_def Let_def prod.case
      using ct setsigvec_escape[OF ct] by (auto split: option.split)
  next
    case (Sigprocmask how set' oset)
    obtain m where m: "snd (snd (sigprocmask how set' oset p)) = p\<lparr>p_sigmask := m\<rparr>" "m \<inter> sigcantmask \<subseteq> p_sigmask p"
      using sigprocmask_state by blast
    show ?thesis using c m(2) unfolding Sigprocmask st by (auto simp: m(1) cant_escape_def)
  next
    case (Postsig sig)
    show ?thesis
    proof (cases "u_signal u sig")
      case SIG_DFL
      then show ?thesis using c unfolding Postsig st by (auto simp: postsig_def cant_escape_def)
    next
      case SIG_IGN
      then have "sig \<notin> sigcantmask" using c by (auto simp: cant_escape_def)
      then show ?thesis using c SIG_IGN unfolding Postsig st by (auto simp: postsig_def cant_escape_def Let_def)
    next
      case (Handler a)
      then have "sig \<notin> sigcantmask" using c by (auto simp: cant_escape_def)
      then show ?thesis using c Handler unfolding Postsig st by (auto simp: postsig_def cant_escape_def Let_def)
    qed
  next
    case Execsigs
    have "cant_escape (execsigs_loop NSIG (u, p))" using execsigs_loop_escape assms st by blast
    then show ?thesis unfolding Execsigs st by (cases "execsigs_loop NSIG (u, p)") (simp add: execsigs_def cant_escape_def)
  next
    case (Sigaltstack nss oss)
    then show ?thesis using c unfolding st by (auto simp: cant_escape_def sigaltstack_def Let_def split: option.split)
  next
    case (Sigstack nss oss)
    then show ?thesis using c unfolding st by (auto simp: cant_escape_def sigstack_def Let_def split: option.split)
  qed (use c in \<open>auto simp: st cant_escape_def sigsuspend_mask_def sigreturn_state_def fatalsig_state_def Let_def split: option.split\<close>)
qed

lemma sigops_escape: "cant_escape st \<Longrightarrow> cant_escape (fold run_sigop ops st)"
  by (induction ops arbitrary: st) (simp_all add: sigop_escape)

end
