(* ===== verification/Sched_Run.thy ===== *)
theory Sched_Run
  imports Signal_Props
begin

text \<open>
  The scheduler as a state machine.  A state is the process that runs, if any, and the kernel's
  scheduling data.  Its steps are the routines of \<open>Sched\<close>: a process goes to sleep or gives up the
  processor, \<open>swtch\<close> picks one or idles, interrupts wake processes or set them running, and the
  swapper takes processes out of core and brings them back.
\<close>

section \<open>Choosing a process\<close>

lemma swtch_search_props:
  assumes "swtch_search s ps pp n = (pp', n')"
  shows "n' \<le> n" "q \<in> set ps \<Longrightarrow> SLOAD \<in> p_flag (ptab s q) \<Longrightarrow> n' \<le> p_pri (ptab s q)"
    "pp' = pp \<and> n' = n \<or> (\<exists>p \<in> set ps. pp' = Some p \<and> SLOAD \<in> p_flag (ptab s p) \<and> p_pri (ptab s p) = n' \<and> n' < n)"
proof -
  have "n' \<le> n \<and> (\<forall>q \<in> set ps. SLOAD \<in> p_flag (ptab s q) \<longrightarrow> n' \<le> p_pri (ptab s q))
      \<and> (pp' = pp \<and> n' = n \<or> (\<exists>p \<in> set ps. pp' = Some p \<and> SLOAD \<in> p_flag (ptab s p) \<and> p_pri (ptab s p) = n' \<and> n' < n))"
    using assms
  proof (induction ps arbitrary: pp n)
    case (Cons p ps)
    show ?case
    proof (cases "SLOAD \<in> p_flag (ptab s p) \<and> p_pri (ptab s p) < n")
      case True
      then have "swtch_search s ps (Some p) (p_pri (ptab s p)) = (pp', n')" using Cons.prems by simp
      from Cons.IH[OF this] show ?thesis using True by auto
    next
      case False
      then have "swtch_search s ps pp n = (pp', n')" using Cons.prems by auto
      from Cons.IH[OF this] show ?thesis using False by auto
    qed
  qed simp
  then show "n' \<le> n" "q \<in> set ps \<Longrightarrow> SLOAD \<in> p_flag (ptab s q) \<Longrightarrow> n' \<le> p_pri (ptab s q)"
    "pp' = pp \<and> n' = n \<or> (\<exists>p \<in> set ps. pp' = Some p \<and> SLOAD \<in> p_flag (ptab s p) \<and> p_pri (ptab s p) = n' \<and> n' < n)"
    by blast+
qed

lemma swtch_picks:
  assumes "swtch s = (Some (p, b), s')"
  shows "p \<in> set (qs s)" "SLOAD \<in> p_flag (ptab s p)" "q \<in> set (qs s) \<Longrightarrow> SLOAD \<in> p_flag (ptab s q) \<Longrightarrow> p_pri (ptab s p) \<le> p_pri (ptab s q)"
    "s' = (upd p (p_flag_update (\<lambda>f. f - {SSWAP})) (s\<lparr>noproc := 0, runrun := 0, qs := remove1 p (qs s), curpri := p_pri (ptab s p)\<rparr>))\<lparr>u_procp := p\<rparr>"
    "b \<longleftrightarrow> SSWAP \<in> p_flag (ptab s p)"
proof -
  let ?s = "s\<lparr>noproc := 0, runrun := 0\<rparr>"
  obtain pp n where sr: "swtch_search ?s (qs ?s) None 128 = (pp, n)" by force
  have pp: "pp = Some p" using assms sr by (auto simp: swtch_def Let_def split: option.splits)
  note P = swtch_search_props[OF sr]
  have "\<exists>x \<in> set (qs s). Some p = Some x \<and> SLOAD \<in> p_flag (ptab s x) \<and> p_pri (ptab s x) = n \<and> n < 128"
    using P(3) pp by simp
  then have x: "p \<in> set (qs s)" "SLOAD \<in> p_flag (ptab s p)" "p_pri (ptab s p) = n" by auto
  then show "p \<in> set (qs s)" "SLOAD \<in> p_flag (ptab s p)" by simp_all
  show "q \<in> set (qs s) \<Longrightarrow> SLOAD \<in> p_flag (ptab s q) \<Longrightarrow> p_pri (ptab s p) \<le> p_pri (ptab s q)"
    using P(2)[of q] x(3) by simp
  show "s' = (upd p (p_flag_update (\<lambda>f. f - {SSWAP})) (s\<lparr>noproc := 0, runrun := 0, qs := remove1 p (qs s), curpri := p_pri (ptab s p)\<rparr>))\<lparr>u_procp := p\<rparr>"
    "b \<longleftrightarrow> SSWAP \<in> p_flag (ptab s p)"
    using assms sr pp x(3) by (auto simp: swtch_def Let_def upd_def)
qed

lemma swtch_idles:
  assumes "swtch s = (None, s')"
  shows "q \<in> set (qs s) \<Longrightarrow> SLOAD \<in> p_flag (ptab s q) \<Longrightarrow> 128 \<le> p_pri (ptab s q)"
    "s' = s\<lparr>noproc := 0, runrun := 0\<rparr>"
proof -
  let ?s = "s\<lparr>noproc := 0, runrun := 0\<rparr>"
  obtain pp n where sr: "swtch_search ?s (qs ?s) None 128 = (pp, n)" by force
  have pp: "pp = None" using assms sr by (auto simp: swtch_def Let_def split: option.splits)
  note P = swtch_search_props[OF sr]
  have "n = 128" using P(3) pp by auto
  then show "q \<in> set (qs s) \<Longrightarrow> SLOAD \<in> p_flag (ptab s q) \<Longrightarrow> 128 \<le> p_pri (ptab s q)" using P(2)[of q] by simp
  show "s' = s\<lparr>noproc := 0, runrun := 0\<rparr>" using assms sr pp by (auto simp: swtch_def Let_def)
qed

section \<open>Going to sleep\<close>

text \<open>An uninterruptible sleep without a timeout, up to the call of \<open>swtch\<close>.\<close>

definition go_to_sleep :: "nat \<Rightarrow> nat \<Rightarrow> sys \<Rightarrow> sys res" where
  "go_to_sleep chan pri s = andthen (tsleep_enqueue chan pri 0 s) tsleep_block"

definition asleep :: "nat \<Rightarrow> nat \<Rightarrow> nat \<Rightarrow> sys \<Rightarrow> sys" where
  "asleep p chan pri s =
     upd p (\<lambda>pr. pr\<lparr>p_wchan := chan, p_slptime := 0, p_pri := pri mod 256, p_stat := SSLEEP\<rparr>)
       (s\<lparr>slpque := (slpque s)(HASH chan := p # slpque s (HASH chan))\<rparr>)"

lemma asleep_ok:
  assumes ok: "queues_ok s" and "chan \<noteq> 0" and "p_wchan (ptab s p) = 0" and "p \<notin> set (qs s)"
  shows "queues_ok (asleep p chan pri s)"
proof -
  note D = queues_okD[OF ok]
  have q: "p_stat (ptab s x) = SRUN \<and> SLOAD \<in> p_flag (ptab s x) \<and> p_wchan (ptab s x) = 0" if "x \<in> set (qs s)" for x
    using D(2) that by blast
  have m: "x \<in> set (slpque s h) \<longleftrightarrow> p_wchan (ptab s x) \<noteq> 0 \<and> HASH (p_wchan (ptab s x)) = h" for x h using D(4) .
  have d: "distinct (slpque s h)" for h using D(3) .
  have st: "p_wchan (ptab s x) \<noteq> 0 \<Longrightarrow> p_stat (ptab s x) \<in> {SSLEEP, SSTOP}" for x using D(5) by blast
  show ?thesis unfolding queues_ok_def asleep_def
    using D(1,6-9) q m d st assms(2-4) by auto
qed

definition tick_nvcsw :: "nat \<Rightarrow> sys \<Rightarrow> sys" where
  "tick_nvcsw p s = upd p (\<lambda>pr. pr\<lparr>ru_nvcsw := ru_nvcsw pr + 1\<rparr>) s"

lemma go_to_sleep_ok:
  assumes ok: "queues_ok s" and chan: "chan \<noteq> 0" and p: "p = u_procp s" "p_wchan (ptab s p) = 0" "p \<notin> set (qs s)"
  shows "\<exists>s3 A. go_to_sleep chan pri s = Inr (tick_nvcsw p s3) \<and> queues_ok s3 \<and> roused A (asleep p chan pri s) s3
    \<and> (\<forall>q \<in> A. p_wchan (ptab (asleep p chan pri s) q) \<in> {a_runin s, a_runout s})"
proof -
  let ?s = "asleep p chan pri s"
  note ok2 = asleep_ok[OF ok chan p(2,3), of pri]
  have enq: "go_to_sleep chan pri s = andthen (if p \<noteq> 0 then wakeup (a_runin ?s) ?s else Inr ?s) (\<lambda>s. Inr (tick_nvcsw p s))"
    by (simp add: go_to_sleep_def tsleep_enqueue_def tsleep_block_def Let_def p(1) asleep_def upd_def tick_nvcsw_def)
  show ?thesis
  proof (cases "p = 0")
    case True
    then show ?thesis using enq ok2 roused_refl[of ?s] by (intro exI[of _ ?s] exI[of _ "{}"]) auto
  next
    case False
    obtain s3 A where w: "wakeup (a_runin ?s) ?s = Inr s3" "queues_ok s3" "roused A ?s s3" "outcome (a_runin ?s) ?s s3 A"
      using wakeup_ok[OF ok2 queues_okD(6)[OF ok2]] by blast
    have a: "a_runin ?s = a_runin s" "a_runout ?s = a_runout s" by (simp_all add: asleep_def)
    have "\<forall>q \<in> A. p_wchan (ptab ?s q) \<in> {a_runin s, a_runout s}" using w(4) a unfolding outcome_def by auto
    then show ?thesis using enq w(1-3) False by (intro exI[of _ s3] exI[of _ A]) simp
  qed
qed

section \<open>The invariant\<close>

definition sched_inv :: "nat option \<Rightarrow> sys \<Rightarrow> bool" where
  "sched_inv r s \<longleftrightarrow> queues_ok s \<and> (\<forall>p. p_stat (ptab s p) \<noteq> SZOMB \<longrightarrow> p_pri (ptab s p) \<le> 127)
     \<and> (\<forall>p. p_stat (ptab s p) = SRUN \<and> SLOAD \<in> p_flag (ptab s p) \<and> r \<noteq> Some p \<longrightarrow> p \<in> set (qs s))
     \<and> (\<forall>p. r = Some p \<longrightarrow> u_procp s = p \<and> p_stat (ptab s p) = SRUN \<and> SLOAD \<in> p_flag (ptab s p) \<and> p_wchan (ptab s p) = 0 \<and> p \<notin> set (qs s))"

lemma sched_invD:
  assumes "sched_inv r s"
  shows "queues_ok s" "p_stat (ptab s p) \<noteq> SZOMB \<Longrightarrow> p_pri (ptab s p) \<le> 127"
    "p_stat (ptab s p) = SRUN \<Longrightarrow> SLOAD \<in> p_flag (ptab s p) \<Longrightarrow> r \<noteq> Some p \<Longrightarrow> p \<in> set (qs s)"
    "r = Some p \<Longrightarrow> u_procp s = p \<and> p_stat (ptab s p) = SRUN \<and> SLOAD \<in> p_flag (ptab s p) \<and> p_wchan (ptab s p) = 0 \<and> p \<notin> set (qs s)"
  using assms unfolding sched_inv_def by blast+

lemma sched_inv_cong:
  assumes "sched_inv r s" and "queues_ok s'" and "qs s' = qs s" and "u_procp s' = u_procp s"
    and "\<And>p. p_stat (ptab s' p) = p_stat (ptab s p)" and "\<And>p. p_flag (ptab s' p) = p_flag (ptab s p)"
    and "\<And>p. p_wchan (ptab s' p) = p_wchan (ptab s p)" and "\<And>p. p_stat (ptab s p) \<noteq> SZOMB \<Longrightarrow> p_pri (ptab s' p) \<le> 127"
  shows "sched_inv r s'"
  using assms unfolding sched_inv_def by simp

lemma awakeD:
  assumes "awake pr pr'"
  shows "p_wchan pr' = 0" "p_stat pr' = (if p_stat pr = SSLEEP then SRUN else p_stat pr)" "p_flag pr' = p_flag pr"
    "p_pri pr \<le> 127 \<Longrightarrow> p_pri pr' \<le> 127"
proof -
  obtain pri cpu slp where e: "pr' = pr\<lparr>p_wchan := 0, p_cpu := cpu, p_pri := pri, p_slptime := slp, p_stat := p_stat pr'\<rparr>"
    "p_pri pr \<le> 127 \<longrightarrow> pri \<le> 127" using assms unfolding awake_def by blast
  show "p_wchan pr' = 0" "p_stat pr' = (if p_stat pr = SSLEEP then SRUN else p_stat pr)" using assms unfolding awake_def by simp_all
  have "p_pri pr' = pri" using arg_cong[OF e(1), of p_pri] by simp
  then show "p_pri pr \<le> 127 \<Longrightarrow> p_pri pr' \<le> 127" using e(2) by simp
  show "p_flag pr' = p_flag pr" using arg_cong[OF e(1), of p_flag] by simp
qed

lemma sched_inv_roused:
  assumes inv: "sched_inv r s" and ok: "queues_ok s'" and ro: "roused A s s'"
  shows "sched_inv r s'"
proof -
  note D = sched_invD[OF inv]
  have A: "p_wchan (ptab s p) \<noteq> 0 \<and> awake (ptab s p) (ptab s' p)" if "p \<in> A" for p using ro that unfolding roused_def by blast
  have out: "ptab s' p = ptab s p" if "p \<notin> A" for p using ro that unfolding roused_def by blast
  have qs': "set (qs s') = set (qs s) \<union> {p \<in> A. p_stat (ptab s p) = SSLEEP \<and> SLOAD \<in> p_flag (ptab s p)}"
    using ro unfolding roused_def by blast
  have pri: "p_pri (ptab s' p) \<le> 127" if "p_stat (ptab s' p) \<noteq> SZOMB" for p
    using that awakeD(4)[of "ptab s p" "ptab s' p"] A[of p] out[of p] D(2)[of p] queues_okD(5)[OF D(1), of p] by (cases "p \<in> A") auto
  have run: "p \<in> set (qs s')" if "p_stat (ptab s' p) = SRUN" "SLOAD \<in> p_flag (ptab s' p)" "r \<noteq> Some p" for p
  proof (cases "p \<in> A")
    case True
    note a = awakeD[of "ptab s p" "ptab s' p"] and s = queues_okD(5)[OF D(1), of p]
    have "p_stat (ptab s p) = SSLEEP" using a(2) A[OF True] s that(1) by (auto split: if_splits)
    then show ?thesis using qs' True a(3) A[OF True] that(2) by auto
  next
    case False
    then show ?thesis using D(3)[of p] out[OF False] that qs' by auto
  qed
  have cur: "u_procp s' = p \<and> p_stat (ptab s' p) = SRUN \<and> SLOAD \<in> p_flag (ptab s' p) \<and> p_wchan (ptab s' p) = 0 \<and> p \<notin> set (qs s')" if "r = Some p" for p
  proof -
    have "p \<notin> A" using A[of p] D(4)[OF that] by auto
    then show ?thesis using D(4)[OF that] out qs' roused_fields(3)[OF ro] by auto
  qed
  show ?thesis unfolding sched_inv_def using ok pri run cur by blast
qed

lemma sched_inv_ran:
  assumes inv: "sched_inv r s" and cr: "can_run (ptab s p)" and ran: "ran p s s' A"
  shows "sched_inv r s'"
proof -
  note D = sched_invD[OF inv] and R = ranD[OF ran] and S = ran_self[OF ran]
  have np: "r \<noteq> Some p" using D(4)[of p] cr by (auto simp: can_run_def)
  have wc: "p_wchan (ptab s q) \<noteq> 0" if "q \<in> A" for q using R(4) that queues_okD(7)[OF D(1)] by auto
  have pri: "p_pri (ptab s' q) \<le> 127" if "p_stat (ptab s' q) \<noteq> SZOMB" for q
  proof (cases "q = p")
    case False
    then show ?thesis using that R(5)[of q] awakeD(4)[OF R(6)[of q]] D(2)[of q] wc[of q] queues_okD(5)[OF D(1), of q] by (cases "q \<in> A") auto
  qed (use S(5) D(2)[of p] cr in \<open>auto simp: can_run_def\<close>)
  have run: "q \<in> set (qs s')" if q: "p_stat (ptab s' q) = SRUN" "SLOAD \<in> p_flag (ptab s' q)" "r \<noteq> Some q" for q
  proof (cases "q = p")
    case True
    then show ?thesis using R(2) S(3) q(2) by simp
  next
    case False
    show ?thesis
    proof (cases "q \<in> A")
      case True
      have "p_stat (ptab s q) = SSLEEP" using awakeD(2)[OF R(6)[OF True False]] q(1) queues_okD(5)[OF D(1) wc[OF True]] by (auto split: if_splits)
      then show ?thesis using R(12)[OF True False] awakeD(3)[OF R(6)[OF True False]] q(2) by simp
    next
      case notA: False
      then show ?thesis using R(5)[OF False notA] R(3) D(3)[of q] q by auto
    qed
  qed
  have cur: "u_procp s' = q \<and> p_stat (ptab s' q) = SRUN \<and> SLOAD \<in> p_flag (ptab s' q) \<and> p_wchan (ptab s' q) = 0 \<and> q \<notin> set (qs s')" if "r = Some q" for q
  proof -
    have "q \<noteq> p" "q \<notin> A" using np that wc[of q] D(4)[OF that] by auto
    then show ?thesis using D(4)[OF that] R(5)[of q] R(7,11) by auto
  qed
  show ?thesis unfolding sched_inv_def using R(1) pri run cur by blast
qed

section \<open>The steps\<close>

inductive sched_step :: "nat option \<times> sys \<Rightarrow> nat option \<times> sys \<Rightarrow> bool" where
  Wake: "chan \<noteq> 0 \<Longrightarrow> wakeup chan s = Inr s' \<Longrightarrow> sched_step (r, s) (r, s')"
| Run: "can_run (ptab s p) \<Longrightarrow> setrun p s = Inr s' \<Longrightarrow> sched_step (r, s) (r, s')"
| Sleep: "chan \<noteq> 0 \<Longrightarrow> pri \<le> 127 \<Longrightarrow> go_to_sleep chan pri s = Inr s' \<Longrightarrow> sched_step (Some p, s) (None, s')"
| Stay: "userret_resched s = (False, s') \<Longrightarrow> sched_step (Some p, s) (Some p, s')"
| Yield: "userret_resched s = (True, s') \<Longrightarrow> sched_step (Some p, s) (None, s')"
| Dispatch: "swtch s = (Some (p, b), s') \<Longrightarrow> sched_step (None, s) (Some p, s')"
| Idle: "swtch s = (None, s') \<Longrightarrow> sched_step (None, s) (None, s')"
| Swapper: "SSYS \<in> p_flag (ptab s 0) \<Longrightarrow> sched_pass s = Inr (act, s') \<Longrightarrow> sched_step (Some 0, s) (Some 0, s')"
| Swapin: "SLOAD \<notin> p_flag (ptab s p) \<Longrightarrow> sched_step (Some 0, s) (Some 0, swapin_finish p s)"
| Swapout: "SLOAD \<notin> p_flag (ptab s p) \<Longrightarrow> swapout_finish p s = Inr s' \<Longrightarrow> sched_step (Some 0, s) (Some 0, s')"

lemma sleep_step:
  assumes inv: "sched_inv (Some p) s" and chan: "chan \<noteq> 0" and pri: "pri \<le> 127"
  shows "\<exists>s'. go_to_sleep chan pri s = Inr s' \<and> sched_inv None s'"
proof -
  note D = sched_invD[OF inv]
  have c: "u_procp s = p" "p_stat (ptab s p) = SRUN" "p_wchan (ptab s p) = 0" "p \<notin> set (qs s)" using D(4)[OF refl] by auto
  obtain s3 A where g: "go_to_sleep chan pri s = Inr (tick_nvcsw p s3)" "queues_ok s3" "roused A (asleep p chan pri s) s3"
    using go_to_sleep_ok[OF D(1) chan c(1)[symmetric] c(3,4)] by blast
  have "sched_inv None (asleep p chan pri s)"
    using asleep_ok[OF D(1) chan c(3,4), of pri] D(2,3) pri by (auto simp: sched_inv_def asleep_def)
  from sched_inv_roused[OF this g(2,3)] have i3: "sched_inv None s3" .
  have "queues_ok (tick_nvcsw p s3)" unfolding tick_nvcsw_def using g(2) by (rule queues_ok_upd) simp_all
  then have "sched_inv None (tick_nvcsw p s3)"
    by (rule sched_inv_cong[OF i3]) (use sched_invD(2)[OF i3] in \<open>auto simp: tick_nvcsw_def\<close>)
  then show ?thesis using g(1) by blast
qed

lemma resched_step:
  assumes inv: "sched_inv (Some p) s" and u: "userret_resched s = (yield, s')"
  shows "sched_inv (if yield then None else Some p) s'"
proof -
  note D = sched_invD[OF inv]
  have c: "u_procp s = p" "p_stat (ptab s p) = SRUN" "SLOAD \<in> p_flag (ptab s p)" "p_wchan (ptab s p) = 0" "p \<notin> set (qs s)"
    using D(4)[OF refl] by auto
  let ?pri = "fst (setpri p s)" and ?rr = "if fst (setpri p s) < curpri s then runrun s + 1 else runrun s"
  define s2 where "s2 = (upd p (p_pri_update (\<lambda>_. ?pri)) s)\<lparr>runrun := ?rr, curpri := ?pri\<rparr>"
  have s2: "ptab s2 = (ptab s)(p := (ptab s p)\<lparr>p_pri := ?pri\<rparr>)" "qs s2 = qs s" "u_procp s2 = p" "slpque s2 = slpque s"
    "a_runin s2 = a_runin s" "a_runout s2 = a_runout s" "a_lbolt s2 = a_lbolt s" "a_proc s2 = a_proc s"
    using c(1) by (simp_all add: s2_def)
  have ok2: "queues_ok s2" using D(1) by (subst queues_ok_cong[of _ s]) (simp_all add: s2)
  have i2: "sched_inv (Some p) s2"
    by (rule sched_inv_cong[OF inv ok2]) (use c(1) s2 D(2) setpri_bound[of p s] in simp_all)
  have sp: "setpri p s = (?pri, (upd p (p_pri_update (\<lambda>_. ?pri)) s)\<lparr>runrun := ?rr\<rparr>)"
    using setpri_state[of p s] by (simp add: prod_eq_iff)
  have us: "userret_resched s = (if runrun s2 \<noteq> 0 then (True, upd p (\<lambda>pr. pr\<lparr>ru_nivcsw := ru_nivcsw pr + 1\<rparr>) (setrq p s2)) else (False, s2))"
    unfolding userret_resched_def Let_def c(1) s2_def by (subst sp) simp
  show ?thesis
  proof (cases yield)
    case False
    then show ?thesis using u us i2 by (auto split: if_splits)
  next
    case True
    then have s': "s' = upd p (\<lambda>pr. pr\<lparr>ru_nivcsw := ru_nivcsw pr + 1\<rparr>) (setrq p s2)" using u us by (auto split: if_splits)
    have q: "queues_ok (setrq p s2)"
      by (rule make_runnable_ok[OF ok2, of p _ "ptab s2 p"]) (use s2 c in \<open>simp_all add: setrq_def\<close>)
    have q': "queues_ok s'" unfolding s' using q by (rule queues_ok_upd) simp_all
    have f: "p_stat (ptab s' x) = p_stat (ptab s2 x)" "p_flag (ptab s' x) = p_flag (ptab s2 x)" "p_pri (ptab s' x) = p_pri (ptab s2 x)" for x
      by (simp_all add: s' setrq_def)
    have "set (qs s') = insert p (set (qs s2))" by (simp add: s' setrq_def)
    then show ?thesis using True q' i2 unfolding sched_inv_def f by auto
  qed
qed

lemma dispatch_step:
  assumes inv: "sched_inv None s" and sw: "swtch s = (Some (p, b), s')"
  shows "sched_inv (Some p) s'"
proof -
  note D = sched_invD[OF inv] and P = swtch_picks[OF sw]
  have p: "p_stat (ptab s p) = SRUN" "p_wchan (ptab s p) = 0" using queues_okD(2)[OF D(1) P(1)] by auto
  have dq: "distinct (qs s)" using queues_okD(1)[OF D(1)] .
  have s': "ptab s' = (ptab s)(p := p_flag_update (\<lambda>f. f - {SSWAP}) (ptab s p))" "qs s' = remove1 p (qs s)" "u_procp s' = p"
    "slpque s' = slpque s" "a_runin s' = a_runin s" "a_runout s' = a_runout s" "a_lbolt s' = a_lbolt s" "a_proc s' = a_proc s"
    unfolding P(4) by simp_all
  have f: "p_stat (ptab s' q) = p_stat (ptab s q)" "SLOAD \<in> p_flag (ptab s' q) \<longleftrightarrow> SLOAD \<in> p_flag (ptab s q)"
    "p_wchan (ptab s' q) = p_wchan (ptab s q)" "p_pri (ptab s' q) = p_pri (ptab s q)" for q by (simp_all add: s'(1))
  have "queues_ok s'" using D(1) unfolding queues_ok_def f s'(2,4-8) by (simp add: set_remove1_eq)
  then show ?thesis unfolding sched_inv_def f s'(2,3) using D(2,3) P(2) p dq by (auto simp: set_remove1_eq)
qed

lemma idle_step:
  assumes inv: "sched_inv None s" and sw: "swtch s = (None, s')"
  shows "sched_inv None s'" "\<not> (\<exists>p. p_stat (ptab s p) = SRUN \<and> SLOAD \<in> p_flag (ptab s p))"
proof -
  note D = sched_invD[OF inv] and I = swtch_idles[OF sw]
  have "queues_ok s'" using D(1) by (subst queues_ok_cong[of _ s]) (simp_all add: I(2))
  then show "sched_inv None s'" by (rule sched_inv_cong[OF inv]) (use D(2) in \<open>simp_all add: I(2)\<close>)
  show "\<not> (\<exists>p. p_stat (ptab s p) = SRUN \<and> SLOAD \<in> p_flag (ptab s p))"
  proof clarify
    fix p assume p: "p_stat (ptab s p) = SRUN" "SLOAD \<in> p_flag (ptab s p)"
    then have "p \<in> set (qs s)" using D(3)[OF p] by simp
    then show False using I(1)[of p] p D(2)[of p] by simp
  qed
qed

lemma sched_out_some:
  "sched_out s = Some p \<Longrightarrow> p_stat (ptab s p) \<noteq> SZOMB \<and> SLOAD \<in> p_flag (ptab s p) \<and> SSYS \<notin> p_flag (ptab s p)"
  by (auto simp: sched_out_def find_Some_iff)

lemma unload_step:
  assumes inv: "sched_inv r s" and p: "r \<noteq> Some p" "SLOAD \<in> p_flag (ptab s p)"
    and s1: "s1 = upd p (p_flag_update (\<lambda>f. f - {SLOAD})) s"
  shows "\<exists>s'. (if p_stat (ptab s1 p) = SRUN then remrq p s1 else Inr s1) = Inr s' \<and> sched_inv r s'"
proof -
  note D = sched_invD[OF inv]
  let ?s' = "s1\<lparr>qs := remove1 p (qs s)\<rparr>"
  have dq: "distinct (qs s)" using queues_okD(1)[OF D(1)] .
  have f: "p_stat (ptab ?s' q) = p_stat (ptab s q)" "p_wchan (ptab ?s' q) = p_wchan (ptab s q)" "p_pri (ptab ?s' q) = p_pri (ptab s q)"
    "p_flag (ptab ?s' q) = (if q = p then p_flag (ptab s q) - {SLOAD} else p_flag (ptab s q))" for q by (simp_all add: s1)
  have g: "qs ?s' = remove1 p (qs s)" "u_procp ?s' = u_procp s" "slpque ?s' = slpque s" "a_runin ?s' = a_runin s"
    "a_runout ?s' = a_runout s" "a_lbolt ?s' = a_lbolt s" "a_proc ?s' = a_proc s" by (simp_all add: s1)
  have "queues_ok ?s'" using D(1) unfolding queues_ok_def f g by (auto simp: set_remove1_eq[OF dq])
  then have i: "sched_inv r ?s'" using inv p(1) unfolding sched_inv_def f g by (auto simp: set_remove1_eq[OF dq])
  have st: "p_stat (ptab s1 p) = p_stat (ptab s p)" "qs s1 = qs s" by (simp_all add: s1)
  show ?thesis
  proof (cases "p_stat (ptab s p) = SRUN")
    case True
    then have "p \<in> set (qs s1)" using D(3)[OF True p(2)] p(1) st by simp
    then show ?thesis using True i st by (simp add: remrq_def)
  next
    case False
    then have "p \<notin> set (qs s)" using queues_okD(2)[OF D(1), of p] by auto
    then have "?s' = s1" by (simp add: s1 remove1_idem upd_def)
    then show ?thesis using False i st by simp
  qed
qed

lemma swapper_step:
  assumes inv: "sched_inv (Some 0) s" and sys: "SSYS \<in> p_flag (ptab s 0)"
  shows "\<exists>act s'. sched_pass s = Inr (act, s') \<and> sched_inv (Some 0) s'"
proof -
  note D = sched_invD[OF inv]
  have keep': "sched_inv (Some 0) s'" if "s' = s\<lparr>runout := x\<rparr> \<or> s' = s\<lparr>runin := x\<rparr>" for s' x
  proof -
    have "queues_ok s'" using that D(1) by (subst queues_ok_cong[of _ s]) auto
    then show ?thesis by (rule sched_inv_cong[OF inv]) (use that D(2) in auto)
  qed
  have keep: "sched_inv (Some 0) (s\<lparr>runout := x\<rparr>)" "sched_inv (Some 0) (s\<lparr>runin := x\<rparr>)" for x using keep' by blast+
  obtain rp out_time where si: "sched_in s (allproc s) None (-20000) = (rp, out_time)" by force
  show ?thesis
  proof (cases rp)
    case None
    then show ?thesis using si keep by (simp add: sched_pass_def)
  next
    case (Some rp')
    show ?thesis
    proof (cases "sched_out s")
      case None
      then show ?thesis using si Some inv by (simp add: sched_pass_def)
    next
      case out: (Some c)
      show ?thesis
      proof (cases "sched_may_go s c out_time")
        case False
        then show ?thesis using si Some out keep by (simp add: sched_pass_def)
      next
        case True
        have "c \<noteq> 0" using sched_out_some[OF out] sys by metis
        moreover have "SLOAD \<in> p_flag (ptab s c)" using sched_out_some[OF out] by blast
        ultimately obtain s' where "(if p_stat (ptab (upd c (p_flag_update (\<lambda>f. f - {SLOAD})) s) c) = SRUN
            then remrq c (upd c (p_flag_update (\<lambda>f. f - {SLOAD})) s) else Inr (upd c (p_flag_update (\<lambda>f. f - {SLOAD})) s)) = Inr s'"
          "sched_inv (Some 0) s'" using unload_step[OF inv, of c] by auto
        then show ?thesis using si Some out True unfolding sched_pass_def Let_def by simp
      qed
    qed
  qed
qed

lemma swapin_step:
  assumes inv: "sched_inv (Some 0) s" and p: "SLOAD \<notin> p_flag (ptab s p)"
  shows "sched_inv (Some 0) (swapin_finish p s)"
proof -
  note D = sched_invD[OF inv]
  have np: "p \<noteq> 0" using D(4)[OF refl] p by metis
  have nq: "p \<notin> set (qs s)" using p queues_okD(2)[OF D(1), of p] by auto
  let ?s = "swapin_finish p s"
  have f: "p_stat (ptab ?s q) = p_stat (ptab s q)" "p_wchan (ptab ?s q) = p_wchan (ptab s q)" "p_pri (ptab ?s q) = p_pri (ptab s q)"
    "p_flag (ptab ?s q) = (if q = p then insert SLOAD (p_flag (ptab s q)) else p_flag (ptab s q))" for q
    by (simp_all add: swapin_finish_def Let_def setrq_def)
  have g: "qs ?s = (if p_stat (ptab s p) = SRUN then p # qs s else qs s)" "u_procp ?s = u_procp s" "slpque ?s = slpque s" "a_runin ?s = a_runin s"
    "a_runout ?s = a_runout s" "a_lbolt ?s = a_lbolt s" "a_proc ?s = a_proc s" by (simp_all add: swapin_finish_def Let_def setrq_def)
  have w: "p_stat (ptab s p) = SRUN \<Longrightarrow> p_wchan (ptab s p) = 0" using queues_okD(5)[OF D(1), of p] by auto
  have "queues_ok ?s" using D(1) nq w unfolding queues_ok_def f g by auto
  then show ?thesis using inv np nq unfolding sched_inv_def f g by auto
qed

lemma swapout_step:
  assumes inv: "sched_inv (Some 0) s" and p: "SLOAD \<notin> p_flag (ptab s p)"
  shows "\<exists>s'. swapout_finish p s = Inr s' \<and> sched_inv (Some 0) s'"
proof -
  note D = sched_invD[OF inv]
  have np: "p \<noteq> 0" using D(4)[OF refl] p by metis
  define s1 where "s1 = upd p (\<lambda>pr. pr\<lparr>p_flag := p_flag pr - {SLOAD, SLOCK}, p_time := 0\<rparr>) s"
  have q1: "queues_ok s1" unfolding s1_def using D(1) by (rule queues_ok_upd) (use p in simp_all)
  have i1: "sched_inv (Some 0) s1" using inv q1 np p unfolding sched_inv_def s1_def by auto
  show ?thesis
  proof (cases "runout s1 = 0")
    case True
    then show ?thesis using i1 by (simp add: swapout_finish_def s1_def[symmetric] Let_def)
  next
    case False
    let ?t = "s1\<lparr>runout := 0\<rparr>"
    have q2: "queues_ok ?t" using q1 by (subst queues_ok_cong[of _ s1]) simp_all
    have i2: "sched_inv (Some 0) ?t" by (rule sched_inv_cong[OF i1 q2]) (use sched_invD(2)[OF i1] in simp_all)
    obtain s' A where "wakeup (a_runout s1) ?t = Inr s'" "queues_ok s'" "roused A ?t s'"
      using wakeup_ok[OF q2, of "a_runout s1"] queues_okD(7)[OF q1] by blast
    then show ?thesis using False sched_inv_roused[OF i2] by (auto simp: swapout_finish_def s1_def[symmetric] Let_def)
  qed
qed

lemma sched_step_inv:
  assumes "sched_step x y" and "sched_inv (fst x) (snd x)"
  shows "sched_inv (fst y) (snd y)"
  using assms
proof (induction rule: sched_step.induct)
  case (Wake chan s s' r)
  then have inv: "sched_inv r s" by simp
  obtain s'' A where w: "wakeup chan s = Inr s''" "queues_ok s''" "roused A s s''"
    using wakeup_ok[OF sched_invD(1)[OF inv] Wake(1)] by blast
  then show ?case using sched_inv_roused[OF inv w(2,3)] Wake(2) by simp
next
  case (Run s p s' r)
  then have inv: "sched_inv r s" by simp
  obtain s'' A where w: "setrun p s = Inr s''" "ran p s s'' A" using setrun_ok[OF sched_invD(1)[OF inv] Run(1)] by blast
  then show ?case using sched_inv_ran[OF inv Run(1) w(2)] Run(2) by simp
next
  case (Sleep chan pri s s' p)
  then show ?case using sleep_step[of p s chan pri] by auto
next
  case (Stay s s' p)
  then show ?case using resched_step[of p s False s'] by simp
next
  case (Yield s s' p)
  then show ?case using resched_step[of p s True s'] by simp
next
  case (Dispatch s p b s')
  then show ?case using dispatch_step by simp
next
  case (Idle s s')
  then show ?case using idle_step(1) by simp
next
  case (Swapper s act s')
  then show ?case using swapper_step[of s] by auto
next
  case (Swapin s p)
  then show ?case using swapin_step by simp
next
  case (Swapout s p s')
  then show ?case using swapout_step[of s p] by auto
qed

lemma sched_steps_inv:
  assumes "sched_step\<^sup>*\<^sup>* x y" and "sched_inv (fst x) (snd x)"
  shows "sched_inv (fst y) (snd y)"
  using assms by (induction rule: rtranclp_induct) (simp_all add: sched_step_inv)

section \<open>The contract of sleeping and waking\<close>

fun block_all :: "('p \<Rightarrow> 's \<Rightarrow> 's res) \<Rightarrow> 'p list \<Rightarrow> 's \<Rightarrow> 's res" where
  "block_all block [] s = Inr s"
| "block_all block (p # ps) s = andthen (block p s) (block_all block ps)"

locale sleep_wakeup =
  fixes good :: "'s \<Rightarrow> bool"
    and on :: "'s \<Rightarrow> 'p \<Rightarrow> bool"
    and ready :: "'s \<Rightarrow> 'p \<Rightarrow> bool"
    and block :: "'p \<Rightarrow> 's \<Rightarrow> 's res"
    and wake :: "'s \<Rightarrow> 's res"
  assumes block_sleeps: "good s \<Longrightarrow> ready s p \<Longrightarrow> \<exists>s'. block p s = Inr s' \<and> good s' \<and> on s' p
      \<and> (\<forall>q. on s q \<longrightarrow> on s' q) \<and> (\<forall>q. q \<noteq> p \<longrightarrow> ready s q \<longrightarrow> ready s' q)"
    and wake_runs: "good s \<Longrightarrow> \<exists>s'. wake s = Inr s' \<and> good s' \<and> (\<forall>q. on s q \<longrightarrow> ready s' q)"
begin

lemma block_all_sleeps:
  assumes "good s" and "distinct ps" and "\<forall>p \<in> set ps. ready s p"
  shows "\<exists>s'. block_all block ps s = Inr s' \<and> good s' \<and> (\<forall>p \<in> set ps. on s' p) \<and> (\<forall>q. on s q \<longrightarrow> on s' q)"
  using assms
proof (induction ps arbitrary: s)
  case (Cons p ps)
  obtain s1 where s1: "block p s = Inr s1" "good s1" "on s1 p" "\<forall>q. on s q \<longrightarrow> on s1 q" "\<forall>q. q \<noteq> p \<longrightarrow> ready s q \<longrightarrow> ready s1 q"
    using block_sleeps[OF Cons.prems(1), of p] Cons.prems(3) by auto
  have "\<forall>q \<in> set ps. ready s1 q" using s1(5) Cons.prems(2,3) by auto
  then obtain s2 where "block_all block ps s1 = Inr s2" "good s2" "\<forall>q \<in> set ps. on s2 q" "\<forall>q. on s1 q \<longrightarrow> on s2 q"
    using Cons.IH[OF s1(2)] Cons.prems(2) by auto
  then show ?case using s1 by auto
qed auto

lemma no_sleeper_left:
  assumes "good s" and "distinct ps" and "\<forall>p \<in> set ps. ready s p"
  shows "\<exists>s1 s2. block_all block ps s = Inr s1 \<and> wake s1 = Inr s2 \<and> good s2 \<and> (\<forall>p \<in> set ps. ready s2 p)"
proof -
  obtain s1 where s1: "block_all block ps s = Inr s1" "good s1" "\<forall>p \<in> set ps. on s1 p" using block_all_sleeps[OF assms] by blast
  then show ?thesis using wake_runs[OF s1(2)] by blast
qed

end

text \<open>
  A process sleeps on \<open>chan\<close> when it gets the processor: \<open>swtch\<close> takes it off the run queue, then it
  calls \<open>sleep\<close>.
\<close>

definition block_on :: "nat \<Rightarrow> nat \<Rightarrow> nat \<Rightarrow> sys \<Rightarrow> sys res" where
  "block_on chan pri p s = go_to_sleep chan pri (s\<lparr>u_procp := p, qs := remove1 p (qs s)\<rparr>)"

definition sleeps_on :: "nat \<Rightarrow> sys \<Rightarrow> nat \<Rightarrow> bool" where
  "sleeps_on chan s p \<longleftrightarrow> p_wchan (ptab s p) = chan \<and> p_stat (ptab s p) = SSLEEP"

definition is_ready :: "sys \<Rightarrow> nat \<Rightarrow> bool" where
  "is_ready s p \<longleftrightarrow> p_stat (ptab s p) = SRUN \<and> p_wchan (ptab s p) = 0"

definition good_for :: "nat \<Rightarrow> sys \<Rightarrow> bool" where
  "good_for chan s \<longleftrightarrow> queues_ok s \<and> chan \<noteq> a_runin s \<and> chan \<noteq> a_runout s"

lemma block_on_sleeps:
  assumes g: "good_for chan s" and chan: "chan \<noteq> 0" and r: "is_ready s p"
  shows "\<exists>s'. block_on chan pri p s = Inr s' \<and> good_for chan s' \<and> sleeps_on chan s' p
    \<and> (\<forall>q. sleeps_on chan s q \<longrightarrow> sleeps_on chan s' q) \<and> (\<forall>q. q \<noteq> p \<longrightarrow> is_ready s q \<longrightarrow> is_ready s' q)"
proof -
  let ?s = "s\<lparr>u_procp := p, qs := remove1 p (qs s)\<rparr>"
  have ok: "queues_ok s" using g by (simp add: good_for_def)
  have dq: "distinct (qs s)" using queues_okD(1)[OF ok] .
  have ok1: "queues_ok ?s" using ok unfolding queues_ok_def by (auto simp: set_remove1_eq[OF dq])
  have np: "p \<notin> set (qs ?s)" "p_wchan (ptab ?s p) = 0" "p = u_procp ?s" using r dq by (auto simp: is_ready_def set_remove1_eq)
  let ?t = "asleep p chan pri ?s"
  obtain s3 A where s3: "go_to_sleep chan pri ?s = Inr (tick_nvcsw p s3)" "queues_ok s3" "roused A ?t s3"
    "\<forall>q \<in> A. p_wchan (ptab ?t q) \<in> {a_runin ?s, a_runout ?s}"
    using go_to_sleep_ok[OF ok1 chan np(3,2,1)] by blast
  have t: "ptab ?t q = (if q = p then (ptab s p)\<lparr>p_wchan := chan, p_slptime := 0, p_pri := pri mod 256, p_stat := SSLEEP\<rparr> else ptab s q)" for q
    by (simp add: asleep_def)
  have a: "a_runin ?t = a_runin s" "a_runout ?t = a_runout s" by (simp_all add: asleep_def)
  have nA: "q \<notin> A" if "p_wchan (ptab ?t q) = chan \<or> p_wchan (ptab ?t q) = 0" for q
    using that s3(3,4) g unfolding good_for_def roused_def by auto
  have same: "ptab s3 q = ptab ?t q" if "q \<notin> A" for q using s3(3) that unfolding roused_def by blast
  define s' where "s' = tick_nvcsw p s3"
  have f: "p_stat (ptab s' q) = p_stat (ptab s3 q)" "p_wchan (ptab s' q) = p_wchan (ptab s3 q)" for q by (simp_all add: s'_def tick_nvcsw_def)
  have ok': "queues_ok s'" unfolding s'_def tick_nvcsw_def using s3(2) by (rule queues_ok_upd) simp_all
  have "a_runin s' = a_runin s" "a_runout s' = a_runout s" using roused_fields(1,2)[OF s3(3)] a by (simp_all add: s'_def tick_nvcsw_def)
  then have g': "good_for chan s'" using g ok' by (simp add: good_for_def)
  have p1: "sleeps_on chan s' p" unfolding sleeps_on_def f using same[OF nA[of p]] t[of p] by simp
  have p2: "sleeps_on chan s' q" if "sleeps_on chan s q" for q
    using that same[OF nA[of q]] t[of q] r unfolding sleeps_on_def is_ready_def f by (auto split: if_splits)
  have p3: "is_ready s' q" if "q \<noteq> p" "is_ready s q" for q
    using that same[OF nA[of q]] t[of q] unfolding is_ready_def f by auto
  show ?thesis using s3(1) g' p1 p2 p3 unfolding block_on_def s'_def by blast
qed

lemma wakeup_readies:
  assumes g: "good_for chan s" and chan: "chan \<noteq> 0"
  shows "\<exists>s'. wakeup chan s = Inr s' \<and> good_for chan s' \<and> (\<forall>q. sleeps_on chan s q \<longrightarrow> is_ready s' q)"
proof -
  obtain s' A where w: "wakeup chan s = Inr s'" "queues_ok s'" "roused A s s'" "outcome chan s s' A"
    using wakeup_ok[OF _ chan, of s] g by (auto simp: good_for_def)
  have "is_ready s' q" if "sleeps_on chan s q" for q
  proof -
    have "q \<in> A" using w(4) that by (auto simp: outcome_def sleeps_on_def)
    then have "awake (ptab s q) (ptab s' q)" using w(3) by (simp add: roused_def)
    then show ?thesis using that awakeD(1,2) by (simp add: is_ready_def sleeps_on_def)
  qed
  then show ?thesis using w(1,2) g roused_fields(1,2)[OF w(3)] by (auto simp: good_for_def)
qed

text \<open>Channels that are not zero; \<open>Suc c\<close> ranges over them.\<close>

interpretation sleepers: sleep_wakeup "good_for (Suc c)" "sleeps_on (Suc c)" is_ready "block_on (Suc c) pri" "wakeup (Suc c)" for c pri
proof (unfold_locales, goal_cases)
  case (1 s p)
  then show ?case using block_on_sleeps[of "Suc c" s p pri] by simp
next
  case (2 s)
  then show ?case using wakeup_readies[of "Suc c" s] by simp
qed

section \<open>A concrete system\<close>

text \<open>Process 0 runs, process 1 sleeps interruptibly on channel 320, process 2 waits on the run queue.\<close>

definition demo_proc :: proc where
  "demo_proc = \<lparr>p_pptr = 0, p_flag = {SLOAD}, p_uid = 0, p_pid = 0, p_ppid = 0, p_sig = {}, p_stat = SNONE, p_pri = 50,
     p_cpu = 0, p_time = 0, p_nice = 0, p_slptime = 0, p_ptracesig = 0, p_sigmask = {}, p_sigignore = {}, p_sigcatch = {},
     p_pgrp = 0, p_wchan = 0, p_rt_value = 0, p_rt_interval = 0, u_ruid = 0, ru_nvcsw = 0, ru_nivcsw = 0\<rparr>"

definition demo_sys :: sys where
  "demo_sys = \<lparr>ptab = (\<lambda>p. if p = 0 then demo_proc\<lparr>p_stat := SRUN, p_flag := {SLOAD, SSYS}\<rparr>
       else if p = 1 then demo_proc\<lparr>p_stat := SSLEEP, p_wchan := 320, p_flag := {SLOAD, P_SINTR}\<rparr>
       else if p = 2 then demo_proc\<lparr>p_stat := SRUN\<rparr> else demo_proc),
     slpque = (\<lambda>h. if h = 10 then [1] else []), qs = [2], allproc = [0, 1, 2], freeproc = [], zombproc = [],
     pidhash = (\<lambda>_. []), runrun = 0, curpri = 50, noproc = 0, runin = 0, runout = 0, u_procp = 0, panicstr = False,
     calls = coutinit, a_lbolt = 4, a_runin = 8, a_runout = 12, a_proc = (\<lambda>p. 1024 + 128 * p)\<rparr>"

lemma demo_queues: "queues_ok demo_sys"
  by (auto simp: queues_ok_def demo_sys_def demo_proc_def HASH_def)

lemma demo_inv: "sched_inv (Some 0) demo_sys"
  using demo_queues by (auto simp: sched_inv_def demo_sys_def demo_proc_def)

section \<open>Properties\<close>

text \<open>
  C2. No process is ever lost by the scheduler.  Along every sequence of sleeps, wakeups, dispatches
  and swaps from a sound state: every process in core that can run is the running one or on the run
  queue, every process that waits for an event is on the sleep queue of its channel, and \<open>swtch\<close>
  never idles while a process in core can run.
\<close>

theorem scheduler_loses_no_process:
  assumes "sched_step\<^sup>*\<^sup>* (r, s) (r', s')" and "sched_inv r s"
  shows "sched_inv r' s' \<and> (\<forall>p. p_stat (ptab s' p) = SRUN \<and> SLOAD \<in> p_flag (ptab s' p) \<longrightarrow> r' = Some p \<or> p \<in> set (qs s'))
    \<and> (\<forall>p. p_wchan (ptab s' p) \<noteq> 0 \<longrightarrow> p \<in> set (slpque s' (HASH (p_wchan (ptab s' p)))))
    \<and> (r' = None \<and> (\<exists>p. p_stat (ptab s' p) = SRUN \<and> SLOAD \<in> p_flag (ptab s' p)) \<longrightarrow> fst (swtch s') \<noteq> None)"
proof -
  have inv: "sched_inv r' s'" using sched_steps_inv[OF assms(1)] assms(2) by simp
  note D = sched_invD[OF inv]
  have "fst (swtch s') \<noteq> None" if "r' = None" "\<exists>p. p_stat (ptab s' p) = SRUN \<and> SLOAD \<in> p_flag (ptab s' p)"
    using idle_step(2)[of s' "snd (swtch s')"] inv that by (metis prod.collapse)
  then show ?thesis using inv D(3) queues_okD(4)[OF D(1)] by blast
qed

theorem scheduler_loses_no_process_witness:
  "\<exists>s'. sched_step\<^sup>*\<^sup>* (Some 0, demo_sys) (None, s') \<and> sched_inv None s' \<and> p_wchan (ptab s' 1) = 320
     \<and> 1 \<in> set (slpque s' 10) \<and> fst (swtch s') \<noteq> None"
proof -
  define s' where "s' = tick_nvcsw 0 (asleep 0 640 20 demo_sys)"
  have g: "go_to_sleep 640 20 demo_sys = Inr s'"
    by (simp add: go_to_sleep_def tsleep_enqueue_def tsleep_block_def Let_def s'_def asleep_def upd_def tick_nvcsw_def demo_sys_def)
  have st: "sched_step (Some 0, demo_sys) (None, s')" by (rule sched_step.Sleep[OF _ _ g]) simp_all
  have f: "p_wchan (ptab s' 1) = 320" "p_stat (ptab s' 2) = SRUN \<and> SLOAD \<in> p_flag (ptab s' 2)"
    by (simp_all add: s'_def tick_nvcsw_def asleep_def demo_sys_def demo_proc_def)
  have h: "HASH 320 = 10" by (simp add: HASH_def)
  from scheduler_loses_no_process[OF r_into_rtranclp[of sched_step, OF st] demo_inv] show ?thesis
    using r_into_rtranclp[of sched_step, OF st] f h by (intro exI[of _ s']) (metis (no_types, lifting) zero_neq_numeral)
qed

text \<open>
  \<open>setrun\<close>, exactly.  In a sound state, a stopped, sleeping or new process becomes runnable: it is on no sleep queue
  any more, on the run queue if and only if it is in core, the state stays sound, and no process changes but those that
  wait on the swapper's channel, which are woken when the process is swapped out.  For a process in any other state \<open>setrun\<close> panics.
\<close>

theorem setrun_exact:
  assumes "sched_inv r s"
  shows "if p_stat (ptab s p) \<in> {SSTOP, SSLEEP, SIDL}
    then \<exists>s'. setrun p s = Inr s' \<and> sched_inv r s' \<and> p_stat (ptab s' p) = SRUN \<and> (\<forall>h. p \<notin> set (slpque s' h))
      \<and> (p \<in> set (qs s') \<longleftrightarrow> SLOAD \<in> p_flag (ptab s p))
      \<and> (\<forall>q. q \<noteq> p \<and> p_wchan (ptab s q) \<noteq> a_runout s \<longrightarrow> ptab s' q = ptab s q \<and> (q \<in> set (qs s') \<longleftrightarrow> q \<in> set (qs s)))
    else setrun p s = Inl (Panic ''setrun'')"
proof (cases "can_run (ptab s p)")
  case False
  then have "p_stat (ptab s p) \<notin> {SSTOP, SSLEEP, SIDL}" by (auto simp: can_run_def)
  moreover from this have "setrun p s = Inl (Panic ''setrun'')" by (simp add: setrun_def split: pstat.split)
  ultimately show ?thesis by simp
next
  case True
  note ok = sched_invD(1)[OF assms]
  obtain s' A where s': "setrun p s = Inr s'" "ran p s s' A" using setrun_ok[OF ok True] by blast
  note R = ranD[OF s'(2)] and S = ran_self[OF s'(2)]
  have "\<forall>h. p \<notin> set (slpque s' h)" using queues_okD(4)[OF R(1), of p] S(2) by simp
  moreover have "p \<in> set (qs s') \<longleftrightarrow> SLOAD \<in> p_flag (ptab s p)" using queues_okD(2)[OF R(1), of p] R(2) S(3) by auto
  moreover have "ptab s' q = ptab s q \<and> (q \<in> set (qs s') \<longleftrightarrow> q \<in> set (qs s))" if "q \<noteq> p" "p_wchan (ptab s q) \<noteq> a_runout s" for q
    using that R(3,4,5,11) by blast
  moreover have "p_stat (ptab s p) \<in> {SSTOP, SSLEEP, SIDL}" using True by (auto simp: can_run_def)
  ultimately show ?thesis using s'(1) sched_inv_ran[OF assms True s'(2)] S(1) by auto
qed

theorem setrun_exact_witness:
  "(\<exists>s'. setrun 1 demo_sys = Inr s' \<and> sched_inv (Some 0) s' \<and> p_stat (ptab s' 1) = SRUN \<and> 1 \<in> set (qs s'))
    \<and> setrun 2 demo_sys = Inl (Panic ''setrun'')"
proof -
  have "p_stat (ptab demo_sys 1) = SSLEEP" "p_stat (ptab demo_sys 2) = SRUN" "SLOAD \<in> p_flag (ptab demo_sys 1)"
    by (simp_all add: demo_sys_def demo_proc_def)
  then show ?thesis using setrun_exact[OF demo_inv, of 1] setrun_exact[OF demo_inv, of 2] by auto
qed

text \<open>
  C4. \<open>wakeup chan\<close> returns with nobody left on \<open>chan\<close>: every process that slept there is off its
  queue, runnable if it was asleep (on the run queue if in core) and still stopped if it was stopped;
  only processes that waited on \<open>chan\<close> or on the swapper's channel change at all.
\<close>

theorem wakeup_wakes_exactly:
  assumes "queues_ok s" and "chan \<noteq> 0"
  shows "\<exists>s'. wakeup chan s = Inr s' \<and> queues_ok s' \<and> (\<forall>p. p_wchan (ptab s' p) \<noteq> chan)
    \<and> (\<forall>p. p_wchan (ptab s p) = chan \<longrightarrow> p_wchan (ptab s' p) = 0
         \<and> p_stat (ptab s' p) = (if p_stat (ptab s p) = SSLEEP then SRUN else p_stat (ptab s p))
         \<and> (p_stat (ptab s p) = SSLEEP \<and> SLOAD \<in> p_flag (ptab s p) \<longrightarrow> p \<in> set (qs s')))
    \<and> (\<forall>p. p_wchan (ptab s p) \<noteq> chan \<and> p_wchan (ptab s p) \<noteq> a_runout s \<longrightarrow> ptab s' p = ptab s p)"
proof -
  obtain s' A where w: "wakeup chan s = Inr s'" "queues_ok s'" "roused A s s'" "outcome chan s s' A"
    using wakeup_ok[OF assms] by blast
  have A: "p_wchan (ptab s p) = chan \<Longrightarrow> p \<in> A" "p \<in> A \<Longrightarrow> p_wchan (ptab s p) = chan \<or> p_wchan (ptab s p) = a_runout s" for p
    using w(4) by (auto simp: outcome_def)
  have aw: "awake (ptab s p) (ptab s' p)" if "p \<in> A" for p using w(3) that by (simp add: roused_def)
  have out: "ptab s' p = ptab s p" if "p \<notin> A" for p using w(3) that by (simp add: roused_def)
  have q: "set (qs s') = set (qs s) \<union> {p \<in> A. p_stat (ptab s p) = SSLEEP \<and> SLOAD \<in> p_flag (ptab s p)}"
    using w(3) by (simp add: roused_def)
  have gone: "p_wchan (ptab s' p) \<noteq> chan" for p using A(1)[of p] out[of p] awakeD(1)[OF aw[of p]] assms(2) by (cases "p \<in> A") auto
  have chg: "p_wchan (ptab s' p) = 0 \<and> p_stat (ptab s' p) = (if p_stat (ptab s p) = SSLEEP then SRUN else p_stat (ptab s p))
      \<and> (p_stat (ptab s p) = SSLEEP \<and> SLOAD \<in> p_flag (ptab s p) \<longrightarrow> p \<in> set (qs s'))" if "p_wchan (ptab s p) = chan" for p
    using awakeD(1,2)[OF aw[OF A(1)[OF that]]] A(1)[OF that] q by auto
  have same: "ptab s' p = ptab s p" if "p_wchan (ptab s p) \<noteq> chan" "p_wchan (ptab s p) \<noteq> a_runout s" for p
    using out[of p] A(2)[of p] that by blast
  show ?thesis using w(1,2) gone chg same by blast
qed

theorem wakeup_wakes_exactly_witness:
  "\<exists>s'. wakeup 320 demo_sys = Inr s' \<and> p_stat (ptab s' 1) = SRUN \<and> p_wchan (ptab s' 1) = 0 \<and> 1 \<in> set (qs s') \<and> ptab s' 2 = ptab demo_sys 2"
proof -
  have f: "p_wchan (ptab demo_sys 1) = 320" "p_stat (ptab demo_sys 1) = SSLEEP" "SLOAD \<in> p_flag (ptab demo_sys 1)"
    "p_wchan (ptab demo_sys 2) = 0" "a_runout demo_sys = 12" by (simp_all add: demo_sys_def demo_proc_def)
  have "(320 :: nat) \<noteq> 0" by simp
  from wakeup_wakes_exactly[OF demo_queues this] f show ?thesis by auto
qed

text \<open>
  C5. No wakeup is lost: any number of runnable processes that go to sleep on a channel one after
  the other, in any order, are all runnable again after one \<open>wakeup\<close> of that channel.
\<close>

theorem no_lost_wakeup:
  assumes "queues_ok s" and "Suc c \<noteq> a_runin s" and "Suc c \<noteq> a_runout s" and "distinct ps"
    and "\<forall>p \<in> set ps. p_stat (ptab s p) = SRUN \<and> p_wchan (ptab s p) = 0"
  shows "\<exists>s1 s2. block_all (block_on (Suc c) pri) ps s = Inr s1 \<and> wakeup (Suc c) s1 = Inr s2 \<and> queues_ok s2
    \<and> (\<forall>p \<in> set ps. p_stat (ptab s2 p) = SRUN \<and> p_wchan (ptab s2 p) = 0)"
  using sleepers.no_sleeper_left[of c s ps pri] assms by (auto simp: good_for_def is_ready_def)

theorem no_lost_wakeup_witness:
  "\<exists>s1 s2. block_all (block_on (Suc 319) 20) [2, 0] demo_sys = Inr s1 \<and> wakeup (Suc 319) s1 = Inr s2 \<and> queues_ok s2
    \<and> (\<forall>p \<in> set [2, 0]. p_stat (ptab s2 p) = SRUN \<and> p_wchan (ptab s2 p) = 0)"
  by (rule no_lost_wakeup[OF demo_queues]) (simp_all add: demo_sys_def demo_proc_def)

text \<open>
  C6. \<open>swtch\<close> gives the processor to a process in core of the best priority on the run queue, takes
  exactly that process off the queue and makes its priority the current one; it idles only if no
  process on the queue is in core with a priority below 128.
\<close>

theorem swtch_runs_best:
  "case swtch s of
     (None, s') \<Rightarrow> s' = s\<lparr>noproc := 0, runrun := 0\<rparr> \<and> (\<forall>q \<in> set (qs s). SLOAD \<in> p_flag (ptab s q) \<longrightarrow> 128 \<le> p_pri (ptab s q))
   | (Some (p, b), s') \<Rightarrow> p \<in> set (qs s) \<and> SLOAD \<in> p_flag (ptab s p) \<and> u_procp s' = p \<and> curpri s' = p_pri (ptab s p)
       \<and> qs s' = remove1 p (qs s) \<and> (\<forall>q \<in> set (qs s). SLOAD \<in> p_flag (ptab s q) \<longrightarrow> p_pri (ptab s p) \<le> p_pri (ptab s q))"
proof (cases "swtch s")
  case (Pair o' s')
  show ?thesis
  proof (cases o')
    case None
    then show ?thesis using Pair swtch_idles[of s s'] by simp
  next
    case (Some pb)
    obtain p b where pb: "pb = (p, b)" by force
    note P = swtch_picks[of s p b s']
    have sw: "swtch s = (Some (p, b), s')" using Pair Some pb by simp
    show ?thesis using P(1-3)[OF sw] unfolding sw prod.case option.case P(4)[OF sw] by simp
  qed
qed

theorem swtch_runs_best_witness:
  "fst (swtch demo_sys) = Some (2, False) \<and> u_procp (snd (swtch demo_sys)) = 2"
proof -
  have "fst (swtch demo_sys) = Some (2, False)"
    by (simp add: swtch_def Let_def demo_sys_def demo_proc_def)
  then show ?thesis using swtch_runs_best[of demo_sys] by (cases "swtch demo_sys") simp
qed

text \<open>
  C7. Posting any signal to any process returns and keeps the process queues sound, provided nothing that sleeps interruptibly waits on the
  swapper's channel or is its own parent.  A \<open>SIGKILL\<close> that the process neither ignores nor blocks (or that a tracer is to see) is always
  pending afterwards; it makes runnable, and puts on the run queue if in core, a process that sleeps interruptibly and a stopped
  process that is not traced; it leaves every other process in the state it was in, in particular a stopped one that is traced.
\<close>

theorem psignal_delivers:
  assumes "queues_ok s" and "swapper_ok s"
  shows "(\<forall>q sig. \<exists>s'. psignal q sig s = Inr s' \<and> queues_ok s')
    \<and> (\<forall>p. P_TRACED \<in> p_flag (ptab s p) \<or> SIGKILL \<notin> p_sigignore (ptab s p) \<and> SIGKILL \<notin> p_sigmask (ptab s p)
        \<longrightarrow> (\<exists>s'. psignal p SIGKILL s = Inr s' \<and> SIGKILL \<in> p_sig (ptab s' p)
              \<and> (if p_stat (ptab s p) = SSTOP \<and> P_TRACED \<notin> p_flag (ptab s p) \<or> p_stat (ptab s p) = SSLEEP \<and> P_SINTR \<in> p_flag (ptab s p)
                 then p_stat (ptab s' p) = SRUN \<and> (SLOAD \<in> p_flag (ptab s p) \<longrightarrow> p \<in> set (qs s'))
                 else p_stat (ptab s' p) = p_stat (ptab s p) \<and> qs s' = qs s)))"
  using psignal_ok[OF assms] psignal_kill[OF assms(1)] by blast

theorem psignal_delivers_witness:
  "(\<exists>s'. psignal 1 SIGKILL demo_sys = Inr s' \<and> p_stat (ptab s' 1) = SRUN \<and> SIGKILL \<in> p_sig (ptab s' 1) \<and> 1 \<in> set (qs s'))
   \<and> (\<exists>s'. psignal 1 SIGSTOP demo_sys = Inr s' \<and> queues_ok s')"
proof -
  have f: "swapper_ok demo_sys" "SIGKILL \<notin> p_sigignore (ptab demo_sys 1) \<and> SIGKILL \<notin> p_sigmask (ptab demo_sys 1)"
    "p_stat (ptab demo_sys 1) = SSLEEP \<and> P_SINTR \<in> p_flag (ptab demo_sys 1)" "SLOAD \<in> p_flag (ptab demo_sys 1)"
    by (auto simp: swapper_ok_def demo_sys_def demo_proc_def)
  note P = psignal_delivers[OF demo_queues f(1)]
  from P[THEN conjunct2, rule_format, of 1, OF disjI2[OF f(2)]] f(3,4)
  have "\<exists>s'. psignal 1 SIGKILL demo_sys = Inr s' \<and> p_stat (ptab s' 1) = SRUN \<and> SIGKILL \<in> p_sig (ptab s' 1) \<and> 1 \<in> set (qs s')" by auto
  then show ?thesis using P[THEN conjunct1] by blast
qed

text \<open>
  C8. \<open>SIGKILL\<close> and \<open>SIGSTOP\<close> cannot be escaped: no sequence of \<open>sigaction\<close>, \<open>sigprocmask\<close>,
  \<open>sigsuspend\<close>, \<open>sigreturn\<close>, signal deliveries, \<open>exec\<close>s and stack calls, with whatever arguments and
  memory faults, ever blocks, ignores or catches one of them or leaves a handler for it.
\<close>

theorem kill_and_stop_inescapable:
  assumes "cant_escape st" and "fold run_sigop ops st = (u, p)" and "n = SIGKILL \<or> n = SIGSTOP"
  shows "n \<notin> p_sigmask p \<and> n \<notin> p_sigignore p \<and> n \<notin> p_sigcatch p \<and> u_signal u n = SIG_DFL"
  using sigops_escape[OF assms(1), of ops] assms(2,3) by (auto simp: cant_escape_def sigcantmask_def)

definition fresh_signals :: sigarea where
  "fresh_signals = \<lparr>u_signal = (\<lambda>_. SIG_DFL), u_sigmask = (\<lambda>_. {}), u_sigintr = {}, u_sigonstack = {}, u_oldmask = {},
     sas_oldmask = False, sas_altstack = False, u_sigtramp = 0, ss_onstack = False, ss_disable = False, ss_size = 0, ss_base = 0\<rparr>"

theorem kill_and_stop_inescapable_witness:
  "SIGKILL \<notin> p_sigmask (snd (fold run_sigop [Sigprocmask SIG_SETMASK (Some (Some {9, 15, 17})) None, Sigsuspend (Some (Some {9}))] (fresh_signals, demo_proc)))"
proof -
  have "cant_escape (fresh_signals, demo_proc)" by (simp add: cant_escape_def fresh_signals_def demo_proc_def)
  from kill_and_stop_inescapable[OF this prod.collapse[symmetric] disjI1[OF refl]] show ?thesis by blast
qed

end
