(* ===== verification/Proc_Life.thy ===== *)
theory Proc_Life
  imports Sched_Run
begin

text \<open>
  The life of a process: \<open>newproc\<close> and \<open>fork1\<close> of \<open>sys/kern/kern_fork.c\<close>, \<open>exit\<close> and \<open>wait1\<close> of
  \<open>sys/kern/kern_exit.c\<close>, over the process table of \<open>Sched\<close>, as the configuration \<open>PICO_UART\<close> builds them (without
  \<open>SWAPRAM\<close>).

  \<open>life\<close> adds to the scheduling data what \<open>wait\<close> reports of a dead process (\<open>p_xstat\<close>, \<open>p_ru\<close>) and the counters of the
  search for a process id.  A \<open>k_rusage\<close> is the list of its ten longs.  \<open>p_xstat\<close> and \<open>p_ru\<close> are in one union with the
  scheduling data of a live process; \<open>dead_overlay\<close> is what writing them does to it.  A null \<open>p_pptr\<close>, which only a free
  slot has, is the number \<open>NPROC\<close>.

  \<open>swap_fault\<close> is the panic that \<open>swapout\<close> ends in when the image of a child finds no room in the swap space or cannot be written.
  A transfer that succeeds is complete when the driver returns, as the flash and SD drivers do it, so that nobody else runs meanwhile.

  The files, directories and the executable that \<open>newproc\<close> shares and \<open>exit\<close> closes are in \<open>Fdesc\<close> and \<open>Ufs_Inode\<close>; the
  transfer of the image is left out, and so is \<open>vfork\<close>: \<open>endvfork\<close>, which sleeps, is an argument of \<open>exit\<close>.
\<close>

section \<open>Data\<close>

abbreviation ECHILD :: int where "ECHILD \<equiv> 10"
abbreviation EAGAIN :: int where "EAGAIN \<equiv> 11"
abbreviation SIGHUP :: nat where "SIGHUP \<equiv> 1"
abbreviation MAXUPRC :: nat where "MAXUPRC \<equiv> 20"

record life =
  psys :: sys
  p_xstat :: "nat \<Rightarrow> int"
  p_ru :: "nat \<Rightarrow> int list"
  mpid :: int
  pidchecked :: int
  swap_fault :: "string option"

definition s32 :: "int \<Rightarrow> int" where
  "s32 x = (x + 2 ^ 31) mod 2 ^ 32 - 2 ^ 31"

definition s16 :: "int \<Rightarrow> int" where
  "s16 x = (x + 2 ^ 15) mod 2 ^ 16 - 2 ^ 15"

definition ruadd :: "int list \<Rightarrow> int list \<Rightarrow> int list" where
  "ruadd ru ru2 = map2 (\<lambda>a b. s32 (a + b)) ru ru2"

definition byte_of :: "nat \<Rightarrow> int \<Rightarrow> nat" where
  "byte_of k x = nat (x div 256 ^ k mod 256)"

definition bits_of :: "int \<Rightarrow> nat set" where
  "bits_of x = set (filter (\<lambda>i. odd (x div 2 ^ i)) [0..<32])"

text \<open>
  The union of \<open>struct proc\<close>: \<open>P_xstat\<close> lies over the first four bytes, and \<open>P_ru\<close> over \<open>P_slptime\<close> to \<open>P_saddr\<close>; the half word
  \<open>P_pgrp\<close> is at the place of \<open>ru_msgsnd\<close>.
\<close>

definition xstat_overlay :: "int \<Rightarrow> proc \<Rightarrow> proc" where
  "xstat_overlay rv pr = pr\<lparr>p_pri := byte_of 0 rv, p_cpu := byte_of 1 rv, p_time := byte_of 2 rv, p_nice := byte_of 3 rv\<rparr>"

definition dead_overlay :: "int \<Rightarrow> int list \<Rightarrow> proc \<Rightarrow> proc" where
  "dead_overlay rv ru pr = (xstat_overlay rv pr)
     \<lparr>p_slptime := byte_of 0 (ru ! 0), p_ptracesig := byte_of 1 (ru ! 0), p_sigmask := bits_of (ru ! 2),
      p_sigignore := bits_of (ru ! 3), p_sigcatch := bits_of (ru ! 4), p_pgrp := s16 (ru ! 5)\<rparr>"

section \<open>A fresh process id\<close>

text \<open>
  The scan over \<open>allproc\<close> and \<open>zombproc\<close>, as the list of their ids and groups: whether it ends in \<open>goto retry\<close>,
  with the values of \<open>mpid\<close> and \<open>pidchecked\<close>.
\<close>

primrec pid_scan :: "(int \<times> int) list \<Rightarrow> int \<Rightarrow> int \<Rightarrow> bool \<times> int \<times> int" where
  "pid_scan [] m c = (False, m, c)"
| "pid_scan (e # ids) m c =
     (let pid = fst e; pgrp = snd e; hit = (pid = m \<or> pgrp = m); m' = (if hit then m + 1 else m) in
      if hit \<and> m' \<ge> c then (True, m', c)
      else
        let c1 = (if pid > m' \<and> c > pid then pid else c);
            c2 = (if pgrp > m' \<and> c1 > pgrp then pgrp else c1)
        in pid_scan ids m' c2)"

text \<open>From the label \<open>retry\<close> on; \<open>None\<close> if it never ends.\<close>

partial_function (option) newpid :: "(int \<times> int) list \<Rightarrow> int \<Rightarrow> int \<Rightarrow> (int \<times> int) option" where
  "newpid ids m c =
     (let m1 = (if m \<ge> 30000 then 100 else m); c1 = (if m \<ge> 30000 then 0 else c) in
      if m1 \<ge> c1 then
        (case pid_scan ids m1 30000 of (again, m2, c2) \<Rightarrow> if again then newpid ids m2 c2 else Some (m2, c2))
      else Some (m1, c1))"

definition pid_list :: "sys \<Rightarrow> (int \<times> int) list" where
  "pid_list s = map (\<lambda>p. (p_pid (ptab s p), p_pgrp (ptab s p))) (allproc s @ zombproc s)"

section \<open>fork\<close>

definition PIDHASH :: "int \<Rightarrow> nat" where
  "PIDHASH pid = nat (pid mod 16)"

text \<open>The entry of the child; its u area is a copy of the parent's, with the usage cleared by \<open>fork1\<close>.\<close>

definition child_entry :: "int \<Rightarrow> nat \<Rightarrow> proc \<Rightarrow> proc \<Rightarrow> proc" where
  "child_entry pid parent pr c = c
     \<lparr>p_stat := SIDL, p_rt_value := 0, p_flag := {SLOAD}, p_uid := p_uid pr, p_pgrp := p_pgrp pr, p_nice := p_nice pr,
      p_pid := pid, p_ppid := p_pid pr, p_pptr := parent, p_time := 0, p_cpu := 0, p_sigmask := p_sigmask pr,
      p_sigcatch := p_sigcatch pr, p_sigignore := p_sigignore pr, p_wchan := 0, p_slptime := 0,
      u_ruid := u_ruid pr, ru_nvcsw := 0, ru_nivcsw := 0\<rparr>"

text \<open>The slot of the child, with the queues and the hash chain it enters.\<close>

definition newproc_enter :: "int \<Rightarrow> nat \<Rightarrow> sys \<Rightarrow> sys" where
  "newproc_enter pid child s =
     (let parent = u_procp s;
          s1 = upd child (child_entry pid parent (ptab s parent)) (s\<lparr>freeproc := tl (freeproc s)\<rparr>);
          h = PIDHASH pid
      in s1\<lparr>pidhash := (pidhash s1)(h := child # pidhash s1 h), allproc := child # allproc s1\<rparr>)"

text \<open>The copy of the image: the child is swapped out.\<close>

definition newproc_copy :: "string option \<Rightarrow> nat \<Rightarrow> sys \<Rightarrow> sys res" where
  "newproc_copy fault child s =
     (let parent = u_procp s;
          s1 = upd child (p_stat_update (\<lambda>_. SRUN)) (upd parent (p_stat_update (\<lambda>_. SIDL)) s)
      in andthen (case fault of Some msg \<Rightarrow> Inl (Panic msg) | None \<Rightarrow> swapout_finish child s1) (\<lambda>s.
           Inr (upd parent (p_stat_update (\<lambda>_. SRUN)) (upd child (p_flag_update (insert SSWAP)) s))))"

text \<open>Yields the slot of the child.\<close>

definition newproc :: "life \<Rightarrow> (nat \<times> life) res" where
  "newproc L =
     (let s = psys L in
      case newpid (pid_list s) (mpid L + 1) (pidchecked L) of
        None \<Rightarrow> Inl Hang
      | Some (m, c) \<Rightarrow>
          (case freeproc s of
             [] \<Rightarrow> Inl (Panic ''no procs'')
           | child # _ \<Rightarrow>
               andthen (newproc_copy (swap_fault L) child (newproc_enter m child s))
                 (\<lambda>s. Inr (child, L\<lparr>psys := s, mpid := m, pidchecked := c\<rparr>))))"

definition owned :: "nat \<Rightarrow> sys \<Rightarrow> nat" where
  "owned uid s = length (filter (\<lambda>p. p_uid (ptab s p) = uid) (allproc s @ zombproc s))"

text \<open>The error or the process id of the child, as the parent sees them; \<open>uid\<close> is \<open>u_uid\<close>.\<close>

definition fork1 :: "nat \<Rightarrow> life \<Rightarrow> ((int + int) \<times> life) res" where
  "fork1 uid L =
     (let s = psys L; a = (if uid \<noteq> 0 then owned uid s else 0) in
      if freeproc s = [] \<or> uid \<noteq> 0 \<and> (tl (freeproc s) = [] \<or> a > MAXUPRC) then Inr (Inl EAGAIN, L)
      else andthen (newproc L) (\<lambda>(child, L). Inr (Inr (p_pid (ptab (psys L) child)), L)))"

section \<open>exit\<close>

text \<open>What happens to a child \<open>q\<close> of the process that exits, and the loop over a list of processes.\<close>

definition orphan :: "nat \<Rightarrow> sys \<Rightarrow> sys res" where
  "orphan q s =
     (let s1 = upd q (\<lambda>pr. pr\<lparr>p_pptr := 1, p_ppid := 1\<rparr>) s in
      andthen (wakeup (a_proc s1 1) s1) (\<lambda>s.
        if P_TRACED \<in> p_flag (ptab s q) then psignal q SIGKILL (upd q (p_flag_update (\<lambda>f. f - {P_TRACED})) s)
        else if p_stat (ptab s q) = SSTOP then andthen (psignal q SIGHUP s) (psignal q SIGCONT)
        else Inr s))"

fun orphan_loop :: "nat \<Rightarrow> nat list \<Rightarrow> sys \<Rightarrow> sys res" where
  "orphan_loop p [] s = Inr s"
| "orphan_loop p (q # ql) s = andthen (if p_pptr (ptab s q) = p then orphan q s else Inr s) (orphan_loop p ql)"

text \<open>From \<open>allproc\<close> to \<open>zombproc\<close> and out of the hash chain; the panics are those of the code.\<close>

definition exit_leave :: "nat \<Rightarrow> int \<Rightarrow> int list \<Rightarrow> sys \<Rightarrow> sys res" where
  "exit_leave p rv ru s =
     (let h = PIDHASH (p_pid (ptab s p)) in
      if p_pid (ptab s p) = 1 then Inl (Panic ''init died'')
      else if p \<notin> set (pidhash s h) then Inl (Panic ''exit'')
      else Inr (upd p (\<lambda>pr. dead_overlay rv ru (pr\<lparr>p_stat := SZOMB\<rparr>))
             (s\<lparr>allproc := remove1 p (allproc s), zombproc := p # zombproc s, noproc := 1,
                pidhash := (pidhash s)(h := remove1 p (pidhash s h))\<rparr>)))"

text \<open>The parent hears of it, and the swapper.\<close>

definition exit_notify :: "nat \<Rightarrow> sys \<Rightarrow> sys res" where
  "exit_notify p s =
     (let pp = p_pptr (ptab s p) in
      andthen (psignal pp SIGCHLD s) (\<lambda>s. andthen (wakeup (a_proc s pp) s) (\<lambda>s. wakeup (a_runin s) s)))"

text \<open>Up to the call of \<open>swtch\<close>; \<open>u_ru\<close> and \<open>u_cru\<close> are the usage of the process and of the children it has waited for.\<close>

definition exit_proc :: "(sys \<Rightarrow> sys res) \<Rightarrow> int \<Rightarrow> int list \<Rightarrow> int list \<Rightarrow> life \<Rightarrow> life res" where
  "exit_proc endvfork rv u_ru u_cru L =
     (let p = u_procp (psys L); ru = ruadd u_ru u_cru;
          s1 = upd p (\<lambda>pr. pr\<lparr>p_flag := p_flag pr - {P_TRACED}, p_sigignore := {0..<32}, p_sig := {}\<rparr>) (psys L)
      in andthen (if SVFORK \<in> p_flag (ptab s1 p) then endvfork s1 else Inr s1) (\<lambda>s.
         andthen (exit_leave p rv ru s) (\<lambda>s.
         andthen (orphan_loop p (allproc s) s) (\<lambda>s.
         andthen (orphan_loop p (zombproc s) s) (\<lambda>s.
         andthen (exit_notify p s) (\<lambda>s.
           Inr (L\<lparr>psys := s, p_xstat := (p_xstat L)(p := rv), p_ru := (p_ru L)(p := ru)\<rparr>)))))))"

section \<open>wait\<close>

datatype wait_answer = Child_Gone int int | Child_Stopped int int | No_Child_Yet | Wait_Error int | Wait_Sleeps

definition wanted :: "int \<Rightarrow> proc \<Rightarrow> bool" where
  "wanted pid pr \<longleftrightarrow> pid = -1 \<or> p_pid pr = pid \<or> p_pgrp pr = - pid"

text \<open>A dead child leaves the table: off \<open>zombproc\<close>, onto \<open>freeproc\<close>.\<close>

definition reap :: "nat \<Rightarrow> life \<Rightarrow> life" where
  "reap p L =
     (let s = psys L;
          f = (\<lambda>pr. (xstat_overlay 0 pr)\<lparr>p_stat := SNONE, p_pid := 0, p_ppid := 0, p_pptr := NPROC, p_sig := {}, p_sigcatch := {},
                 p_sigignore := {}, p_sigmask := {}, p_pgrp := 0, p_flag := {}, p_wchan := 0\<rparr>)
      in L\<lparr>psys := upd p f (s\<lparr>zombproc := remove1 p (zombproc s), freeproc := p # freeproc s\<rparr>), p_xstat := (p_xstat L)(p := 0)\<rparr>)"

text \<open>
  One turn of \<open>wait1\<close>.  \<open>status\<close> and \<open>rusage\<close> are \<open>None\<close> for a null pointer, else whether \<open>copyout\<close> succeeds.  The
  result holds \<open>u_cru\<close>.  \<open>Wait_Sleeps\<close>: the process sleeps on its own slot, and the search starts again.
\<close>

definition wait1 :: "bool option \<Rightarrow> bool option \<Rightarrow> bool \<Rightarrow> bool \<Rightarrow> int \<Rightarrow> int list \<Rightarrow> life \<Rightarrow> wait_answer \<times> int list \<times> life" where
  "wait1 status rusage nohang untraced arg u_cru L =
     (let s = psys L; q = u_procp s; pid = (if arg = 0 then - p_pgrp (ptab s q) else arg);
          mine = (\<lambda>p. p_pptr (ptab s p) = q \<and> wanted pid (ptab s p))
      in case find mine (zombproc s) of
           Some p \<Rightarrow>
             if status = Some False \<or> rusage = Some False then (Wait_Error EFAULT, u_cru, L)
             else (Child_Gone (p_pid (ptab s p)) (p_xstat L p), ruadd u_cru (p_ru L p), reap p L)
         | None \<Rightarrow>
             (case find (\<lambda>p. mine p \<and> p_stat (ptab s p) = SSTOP \<and> P_WAITED \<notin> p_flag (ptab s p)
                              \<and> (P_TRACED \<in> p_flag (ptab s p) \<or> untraced)) (allproc s) of
                Some p \<Rightarrow>
                  (if status = Some False then Wait_Error EFAULT
                   else Child_Stopped (p_pid (ptab s p)) (int (p_ptracesig (ptab s p)) * 256 + 127),
                   u_cru, L\<lparr>psys := upd p (p_flag_update (insert P_WAITED)) s\<rparr>)
              | None \<Rightarrow>
                  if find mine (allproc s) = None then (Wait_Error ECHILD, u_cru, L)
                  else if nohang then (No_Child_Yet, u_cru, L)
                  else (Wait_Sleeps, u_cru, L)))"

section \<open>The search for a process id\<close>

definition used :: "(int \<times> int) list \<Rightarrow> int set" where
  "used ids = fst ` set ids \<union> snd ` set ids"

text \<open>No number of \<open>S\<close> from \<open>m\<close> up to \<open>c\<close>.\<close>

definition vacant :: "int set \<Rightarrow> int \<Rightarrow> int \<Rightarrow> bool" where
  "vacant S m c \<longleftrightarrow> (\<forall>x\<in>S. \<not> (m \<le> x \<and> x < c))"

text \<open>
  The scan may pass over the id of a process that has the number below it as its group.  \<open>no_group_below lo\<close>: all such groups are
  less than \<open>lo\<close>.  A search that starts at \<open>m\<close> meets no number below \<open>search_floor m\<close>.
\<close>

definition no_group_below :: "int \<Rightarrow> (int \<times> int) list \<Rightarrow> bool" where
  "no_group_below lo ids \<longleftrightarrow> (\<forall>(pid, pgrp) \<in> set ids. pgrp = pid - 1 \<longrightarrow> pgrp < lo)"

definition search_floor :: "int \<Rightarrow> int" where
  "search_floor m = (if m < 29000 then m else 100)"

definition clear_search :: "life \<Rightarrow> bool" where
  "clear_search L \<longleftrightarrow> no_group_below (search_floor (mpid L + 1)) (pid_list (psys L))"

lemma pid_scan_Cons:
  "\<exists>h m1 c2. (h \<longleftrightarrow> fst a = m \<or> snd a = m) \<and> m1 = (if h then m + 1 else m) \<and> c2 \<le> c \<and> (m1 < fst a \<longrightarrow> c2 \<le> fst a)
     \<and> (m1 < c \<longrightarrow> m1 < c2) \<and> pid_scan (a # ids) m c = (if h \<and> m1 \<ge> c then (True, m1, c) else pid_scan ids m1 c2)"
proof -
  define pid pgrp where a: "pid = fst a" "pgrp = snd a"
  define h m1 where "h \<longleftrightarrow> pid = m \<or> pgrp = m" and "m1 = (if h then m + 1 else m)"
  define c1 where "c1 = (if pid > m1 \<and> c > pid then pid else c)"
  define c2 where "c2 = (if pgrp > m1 \<and> c1 > pgrp then pgrp else c1)"
  have "pid_scan (a # ids) m c = (if h \<and> m1 \<ge> c then (True, m1, c) else pid_scan ids m1 c2)"
    unfolding pid_scan.simps(2) Let_def h_def m1_def c1_def c2_def a by (rule refl)
  moreover have "c2 \<le> c" "m1 < fst a \<longrightarrow> c2 \<le> fst a" "m1 < c \<longrightarrow> m1 < c2" unfolding c1_def c2_def a by auto
  ultimately show ?thesis using h_def m1_def unfolding a by blast
qed

lemma pid_scan_bounds:
  "pid_scan ids m c = (again, m', c') \<Longrightarrow> m < c \<Longrightarrow> c' \<le> c \<and> (again \<longrightarrow> c' \<le> m') \<and> (\<not> again \<longrightarrow> m' < c')"
proof (induction ids arbitrary: m c)
  case (Cons a ids)
  obtain h m1 c2 where s: "m1 = (if h then m + 1 else m)" "c2 \<le> c" "m1 < c \<longrightarrow> m1 < c2"
    "pid_scan (a # ids) m c = (if h \<and> m1 \<ge> c then (True, m1, c) else pid_scan ids m1 c2)" using pid_scan_Cons[of a m c ids] by blast
  show ?case
  proof (cases "h \<and> m1 \<ge> c")
    case False
    then have go: "m1 < c2" "pid_scan ids m1 c2 = (again, m', c')" using Cons.prems s by (auto split: if_splits)
    show ?thesis using Cons.IH[OF go(2,1)] s(2) by auto
  qed (use Cons.prems s in auto)
qed simp

lemma pid_scan_vacant:
  "pid_scan ids m c = (False, m', c') \<Longrightarrow> m < c \<Longrightarrow> no_group_below lo ids \<Longrightarrow> lo \<le> m \<Longrightarrow> vacant S m c \<Longrightarrow> vacant (fst ` set ids \<union> S) m' c'"
proof (induction ids arbitrary: m c S)
  case (Cons a ids)
  obtain h m1 c2 where s: "h \<longleftrightarrow> fst a = m \<or> snd a = m" "m1 = (if h then m + 1 else m)" "c2 \<le> c" "m1 < fst a \<Longrightarrow> c2 \<le> fst a" "m1 < c \<Longrightarrow> m1 < c2"
    "pid_scan (a # ids) m c = (if h \<and> m1 \<ge> c then (True, m1, c) else pid_scan ids m1 c2)" using pid_scan_Cons[of a m c ids] by blast
  have go: "m1 < c" "pid_scan ids m1 c2 = (False, m', c')" using Cons.prems(1,2) s(2,6) by (auto split: if_splits)
  have a: "snd a = fst a - 1 \<Longrightarrow> snd a < m" "no_group_below lo ids" using Cons.prems(3,4) by (auto simp: no_group_below_def)
  have "fst a \<noteq> m1" using s(1,2) a(1) by (auto split: if_splits)
  then have "vacant (insert (fst a) S) m1 c2" using s(2-4) Cons.prems(5) unfolding vacant_def by (force split: if_splits)
  from Cons.IH[OF go(2) s(5)[OF go(1)] a(2) _ this] show ?case using s(2) Cons.prems(4) by simp
qed simp

text \<open>Every number that the scan passes is in use, and it starts again only above where it was.\<close>

lemma pid_scan_passes:
  "pid_scan ids m c = (again, m', c') \<Longrightarrow> m \<le> m' \<and> (\<forall>v. m \<le> v \<and> v < m' \<longrightarrow> v \<in> used ids) \<and> (again \<longrightarrow> m < m')"
proof (induction ids arbitrary: m c)
  case (Cons a ids)
  obtain h m1 c2 where s: "h \<longleftrightarrow> fst a = m \<or> snd a = m" "m1 = (if h then m + 1 else m)"
    "pid_scan (a # ids) m c = (if h \<and> m1 \<ge> c then (True, m1, c) else pid_scan ids m1 c2)" using pid_scan_Cons[of a m c ids] by blast
  have u: "used (a # ids) = {fst a, snd a} \<union> used ids" by (auto simp: used_def)
  have m1: "m \<le> m1" "m \<le> v \<Longrightarrow> v < m1 \<Longrightarrow> v \<in> {fst a, snd a}" for v using s(1,2) by (auto split: if_splits)
  show ?case
  proof (cases "h \<and> m1 \<ge> c")
    case True
    then show ?thesis using Cons.prems s m1(2) unfolding u by auto
  next
    case False
    then have i: "m1 \<le> m' \<and> (\<forall>v. m1 \<le> v \<and> v < m' \<longrightarrow> v \<in> used ids) \<and> (again \<longrightarrow> m1 < m')" using Cons.IH[of m1 c2] Cons.prems s(3) by (auto split: if_splits)
    moreover have "v \<in> used (a # ids)" if "m \<le> v" "v < m'" for v using i m1(2)[of v] that unfolding u by (cases "v < m1") auto
    ultimately show ?thesis using m1(1) by auto
  qed
qed (simp add: used_def)

lemma newpid_from_below:
  assumes "x \<notin> used ids" and "x < 30000" and "m \<le> x"
  shows "newpid ids m c \<noteq> None"
  using assms(3)
proof (induction "nat (x - m)" arbitrary: m c rule: less_induct)
  case less
  obtain again m2 c2 where s: "pid_scan ids m 30000 = (again, m2, c2)" by (metis prod_cases3)
  note P = pid_scan_passes[OF s]
  have "m2 \<le> x" using P assms(1) less.prems by (metis linorder_not_le)
  then have "again \<Longrightarrow> newpid ids m2 c2 \<noteq> None" using less.hyps[of m2 c2] P less.prems by auto
  then show ?case using s less.prems assms(2) by (subst newpid.simps) (auto simp: Let_def)
qed

text \<open>With one number free the search ends, wherever it starts.\<close>

lemma newpid_ends:
  assumes "x \<notin> used ids" and "100 \<le> x" and "x < 30000"
  shows "newpid ids m c \<noteq> None"
proof (induction "nat (30000 - m)" arbitrary: m c rule: less_induct)
  case less
  show ?case
  proof (cases "m \<ge> 30000")
    case True
    have "newpid ids m c = newpid ids 100 0" using True by (subst newpid.simps, subst (2) newpid.simps) simp
    then show ?thesis using newpid_from_below[OF assms(1,3,2), of 0] by simp
  next
    case False
    obtain again m2 c2 where s: "pid_scan ids m 30000 = (again, m2, c2)" by (metis prod_cases3)
    have "again \<Longrightarrow> newpid ids m2 c2 \<noteq> None" using less.hyps[of m2 c2] pid_scan_passes[OF s] False by auto
    then show ?thesis using s False by (subst newpid.simps) (auto simp: Let_def)
  qed
qed

lemma card_used: "card (used ids) \<le> length ids + length ids"
  unfolding used_def using card_Un_le[of "fst ` set ids" "snd ` set ids"]
  by (metis (no_types, lifting) add_mono card_image_le card_length finite_set order.trans)

lemma newpid_total:
  assumes "length ids \<le> 14000"
  shows "\<exists>m' c'. newpid ids m c = Some (m', c')"
proof -
  have "card (used ids) < card {100..<30000 :: int}" using assms card_used[of ids] by simp
  then have "\<not> {100..<30000} \<subseteq> used ids" by (metis card_mono finite_UnI finite_imageI finite_set linorder_not_le used_def)
  then obtain x where x: "x \<in> {100..<30000}" "x \<notin> used ids" by blast
  then show ?thesis using newpid_ends[of x ids m c] by auto
qed

text \<open>From \<open>lo\<close> to \<open>m\<close> all numbers are in use, and there are too few of these to come to the end of the range; or \<open>lo\<close> is below every new start.\<close>

definition searched :: "int \<Rightarrow> (int \<times> int) list \<Rightarrow> int \<Rightarrow> bool" where
  "searched lo ids m \<longleftrightarrow> lo \<le> m \<and> (lo \<le> 100 \<or> {lo..<m} \<subseteq> used ids \<and> lo + int (card (used ids)) < 30000)"

lemma searched_start: "length ids \<le> 450 \<Longrightarrow> searched (search_floor m) ids m"
  using card_used[of ids] by (auto simp: searched_def search_floor_def)

lemma searched_below: "searched lo ids m \<Longrightarrow> lo \<le> (if m \<ge> 30000 then 100 else m)"
proof -
  assume s: "searched lo ids m"
  have "finite (used ids)" by (simp add: used_def)
  then have "{lo..<m} \<subseteq> used ids \<Longrightarrow> m - lo \<le> int (card (used ids))" using card_mono[of "used ids" "{lo..<m}"] by simp
  then show ?thesis using s by (auto simp: searched_def)
qed

lemma searched_on:
  assumes "searched lo ids m" and "m1 = (if m \<ge> 30000 then 100 else m)" and "m1 \<le> m2" and "\<forall>v. m1 \<le> v \<and> v < m2 \<longrightarrow> v \<in> used ids"
  shows "searched lo ids m2"
proof (cases "lo \<le> 100")
  case True
  then show ?thesis using assms searched_below[OF assms(1)] by (simp add: searched_def)
next
  case False
  then have "{lo..<m} \<subseteq> used ids" "lo + int (card (used ids)) < 30000" "m1 = m"
    using assms(1,2) searched_below[OF assms(1)] by (auto simp: searched_def)
  moreover have "x \<in> used ids" if "lo \<le> x" "x < m2" for x using calculation assms(4) that by (cases "x < m") auto
  ultimately show ?thesis using assms(1,3) by (auto simp: searched_def)
qed

lemma newpid_result:
  assumes "newpid ids m c = Some r"
  shows "(m \<le> fst r \<or> 100 \<le> fst r) \<and> (c \<le> 30000 \<longrightarrow> fst r < snd r \<and> snd r \<le> 30000)
    \<and> (no_group_below lo ids \<longrightarrow> searched lo ids m \<longrightarrow> vacant (fst ` set ids) m c \<longrightarrow> vacant (fst ` set ids) (fst r) (snd r))"
  using assms
proof (rule newpid.raw_induct[rotated])
  fix f ids' m c and r :: "int \<times> int"
  let ?P = "\<lambda>ids m c r. (m \<le> fst r \<or> 100 \<le> fst r) \<and> (c \<le> 30000 \<longrightarrow> fst r < snd r \<and> snd r \<le> 30000)
    \<and> (no_group_below lo ids \<longrightarrow> searched lo ids m \<longrightarrow> vacant (fst ` set ids) m c \<longrightarrow> vacant (fst ` set ids) (fst r) (snd r))"
  assume IH: "\<And>ids m c r. f ids m c = Some r \<Longrightarrow> ?P ids m c r"
    and b: "(let m1 = (if m \<ge> 30000 then 100 else m); c1 = (if m \<ge> 30000 then 0 else c) in
      if m1 \<ge> c1 then
        (case pid_scan ids' m1 30000 of (again, m2, c2) \<Rightarrow> if again then f ids' m2 c2 else Some (m2, c2))
      else Some (m1, c1)) = Some r"
  define m1 c1 where "m1 = (if m \<ge> 30000 then 100 else m)" and "c1 = (if m \<ge> 30000 then 0 else c)"
  obtain again m2 c2 where s: "pid_scan ids' m1 30000 = (again, m2, c2)" by (metis prod_cases3)
  have b': "(if m1 \<ge> c1 then if again then f ids' m2 c2 else Some (m2, c2) else Some (m1, c1)) = Some r"
    using b unfolding Let_def m1_def[symmetric] c1_def[symmetric] s prod.case by simp
  have m1: "m1 < 30000" "m \<le> m1 \<or> 100 \<le> m1" by (auto simp: m1_def)
  note P = pid_scan_passes[OF s]
  consider "m < c" "r = (m, c)" | "c1 \<le> m1" "again" "f ids' m2 c2 = Some r" | "c1 \<le> m1" "\<not> again" "r = (m2, c2)"
    using b' by (auto simp: m1_def c1_def split: if_splits)
  then show "?P ids' m c r"
  proof cases
    case 2
    have "c2 \<le> 30000" "vacant S m2 c2" for S using pid_scan_bounds[OF s m1(1)] 2(2) by (auto simp: vacant_def)
    moreover have "searched lo ids' m \<Longrightarrow> searched lo ids' m2" using searched_on[OF _ m1_def] P by blast
    ultimately show ?thesis using IH[OF 2(3)] P m1(2) by auto
  next
    case 3
    then have "pid_scan ids' m1 30000 = (False, m2, c2)" using s by simp
    then show ?thesis
      using pid_scan_bounds[of ids' m1 30000 False m2 c2] pid_scan_vacant[of ids' m1 30000 m2 c2 lo "{}"] searched_below[of lo ids' m] m1 3 P
      unfolding m1_def[symmetric] by (auto simp: vacant_def)
  qed (use m1 in auto)
qed

end
