(* ===== verification/Proc_Family.thy ===== *)
theory Proc_Family
  imports Proc_Life
begin

text \<open>
  What \<open>fork\<close>, \<open>exit\<close> and \<open>wait\<close> keep of the process table, together with the scheduler.
\<close>

section \<open>What scheduling and signals leave alone\<close>

definition alive :: "pstat \<Rightarrow> bool" where
  "alive st \<longleftrightarrow> st \<noteq> SNONE \<and> st \<noteq> SZOMB"

text \<open>\<open>kin s s'\<close>: the lists, the identities and who is alive are the same.\<close>

definition kin :: "sys \<Rightarrow> sys \<Rightarrow> bool" where
  "kin s s' \<longleftrightarrow> allproc s' = allproc s \<and> zombproc s' = zombproc s \<and> freeproc s' = freeproc s \<and> pidhash s' = pidhash s
     \<and> (\<forall>p. p_pid (ptab s' p) = p_pid (ptab s p) \<and> p_ppid (ptab s' p) = p_ppid (ptab s p) \<and> p_pptr (ptab s' p) = p_pptr (ptab s p)
          \<and> p_pgrp (ptab s' p) = p_pgrp (ptab s p)
          \<and> (p_stat (ptab s' p) = p_stat (ptab s p) \<or> alive (p_stat (ptab s p)) \<and> alive (p_stat (ptab s' p))))"

lemma kin_refl [simp]: "kin s s"
  by (simp add: kin_def)

lemma kin_trans [trans]: "kin s t \<Longrightarrow> kin t u \<Longrightarrow> kin s u"
  unfolding kin_def by (metis (no_types, lifting))

lemma kinD:
  assumes "kin s s'"
  shows "allproc s' = allproc s" "zombproc s' = zombproc s" "freeproc s' = freeproc s" "pidhash s' = pidhash s"
    "p_pid (ptab s' p) = p_pid (ptab s p)" "p_ppid (ptab s' p) = p_ppid (ptab s p)" "p_pptr (ptab s' p) = p_pptr (ptab s p)"
    "p_pgrp (ptab s' p) = p_pgrp (ptab s p)" "alive (p_stat (ptab s' p)) \<longleftrightarrow> alive (p_stat (ptab s p))"
    "p_stat (ptab s' p) = SZOMB \<longleftrightarrow> p_stat (ptab s p) = SZOMB" "p_stat (ptab s' p) = SNONE \<longleftrightarrow> p_stat (ptab s p) = SNONE"
  using assms unfolding kin_def alive_def by (simp_all, metis+)

lemma kin_upd:
  assumes "p_pid (f (ptab s p)) = p_pid (ptab s p)" and "p_ppid (f (ptab s p)) = p_ppid (ptab s p)" and "p_pptr (f (ptab s p)) = p_pptr (ptab s p)"
    and "p_pgrp (f (ptab s p)) = p_pgrp (ptab s p)"
    and "p_stat (f (ptab s p)) = p_stat (ptab s p) \<or> alive (p_stat (ptab s p)) \<and> alive (p_stat (f (ptab s p)))"
  shows "kin s (upd p f s)"
  using assms by (simp add: kin_def)

lemma awake_ids:
  assumes "awake pr pr'"
  shows "p_pid pr' = p_pid pr" "p_ppid pr' = p_ppid pr" "p_pptr pr' = p_pptr pr" "p_pgrp pr' = p_pgrp pr"
    "p_stat pr' = p_stat pr \<or> alive (p_stat pr) \<and> alive (p_stat pr')"
proof -
  obtain pri cpu slp where e: "pr' = pr\<lparr>p_wchan := 0, p_cpu := cpu, p_pri := pri, p_slptime := slp, p_stat := p_stat pr'\<rparr>"
    using assms unfolding awake_def by blast
  show "p_pid pr' = p_pid pr" "p_ppid pr' = p_ppid pr" "p_pptr pr' = p_pptr pr" "p_pgrp pr' = p_pgrp pr"
    using arg_cong[OF e, of p_pid] arg_cong[OF e, of p_ppid] arg_cong[OF e, of p_pptr] arg_cong[OF e, of p_pgrp] by simp_all
  show "p_stat pr' = p_stat pr \<or> alive (p_stat pr) \<and> alive (p_stat pr')" using awakeD(2)[OF assms] by (auto simp: alive_def)
qed

lemma roused_kin:
  assumes "roused A s s'"
  shows "kin s s'"
proof -
  have "p_pid (ptab s' p) = p_pid (ptab s p) \<and> p_ppid (ptab s' p) = p_ppid (ptab s p) \<and> p_pptr (ptab s' p) = p_pptr (ptab s p)
      \<and> p_pgrp (ptab s' p) = p_pgrp (ptab s p) \<and> (p_stat (ptab s' p) = p_stat (ptab s p) \<or> alive (p_stat (ptab s p)) \<and> alive (p_stat (ptab s' p)))" for p
  proof (cases "p \<in> A")
    case True
    then have "awake (ptab s p) (ptab s' p)" using assms unfolding roused_def by blast
    then show ?thesis using awake_ids by blast
  next
    case False
    then show ?thesis using assms unfolding roused_def by simp
  qed
  then show ?thesis unfolding kin_def using roused_fields[OF assms] by simp
qed

lemma ran_kin:
  assumes "ran p s s' A" and "can_run (ptab s p)"
  shows "kin s s'"
proof -
  note R = ranD[OF assms(1)]
  have "p_pid (ptab s' q) = p_pid (ptab s q) \<and> p_ppid (ptab s' q) = p_ppid (ptab s q) \<and> p_pptr (ptab s' q) = p_pptr (ptab s q)
      \<and> p_pgrp (ptab s' q) = p_pgrp (ptab s q) \<and> (p_stat (ptab s' q) = p_stat (ptab s q) \<or> alive (p_stat (ptab s q)) \<and> alive (p_stat (ptab s' q)))" for q
  proof -
    consider "q = p" | "q \<noteq> p" "q \<in> A" | "q \<noteq> p" "q \<notin> A" by blast
    then show ?thesis
    proof cases
      case 1
      obtain slp cpu pri where "ptab s' p = (ptab s p)\<lparr>p_wchan := 0, p_slptime := slp, p_cpu := cpu, p_pri := pri, p_stat := SRUN\<rparr>"
        using assms(1) unfolding ran_def by blast
      then show ?thesis using 1 assms(2) by (auto simp: alive_def can_run_def)
    next
      case 2
      then show ?thesis using awake_ids[OF R(6)] by blast
    next
      case 3
      then show ?thesis using R(5) by simp
    qed
  qed
  then show ?thesis unfolding kin_def using R(8,13-15) by simp
qed

text \<open>\<open>quiet r s x\<close>: no fault, the scheduler's invariant holds on, and the families are the same.\<close>

definition quiet :: "nat option \<Rightarrow> sys \<Rightarrow> sys res \<Rightarrow> bool" where
  "quiet r s x \<longleftrightarrow> (\<exists>s'. x = Inr s' \<and> sched_inv r s' \<and> kin s s' \<and> u_procp s' = u_procp s)"

lemma quiet_Inr: "sched_inv r s' \<Longrightarrow> kin s s' \<Longrightarrow> u_procp s' = u_procp s \<Longrightarrow> quiet r s (Inr s')"
  by (simp add: quiet_def)

lemma quiet_from: "quiet r t x \<Longrightarrow> kin s t \<Longrightarrow> u_procp t = u_procp s \<Longrightarrow> quiet r s x"
  unfolding quiet_def using kin_trans by metis

lemma quiet_andthen: "quiet r s x \<Longrightarrow> (\<And>t. sched_inv r t \<Longrightarrow> kin s t \<Longrightarrow> u_procp t = u_procp s \<Longrightarrow> quiet r t (f t)) \<Longrightarrow> quiet r s (andthen x f)"
  using quiet_from by (fastforce simp: quiet_def)

lemma quiet_if: "(c \<Longrightarrow> quiet r s x) \<Longrightarrow> (\<not> c \<Longrightarrow> quiet r s y) \<Longrightarrow> quiet r s (if c then x else y)"
  by simp

lemma wakeup_quiet: "sched_inv r s \<Longrightarrow> chan \<noteq> 0 \<Longrightarrow> quiet r s (wakeup chan s)"
  using wakeup_ok[of s chan] sched_invD(1)[of r s] sched_inv_roused[of r s] roused_kin[of _ s] roused_fields(3)[of _ s] unfolding quiet_def by metis

lemma setrun_quiet: "sched_inv r s \<Longrightarrow> can_run (ptab s p) \<Longrightarrow> quiet r s (setrun p s)"
  using setrun_ok[of s p] sched_invD(1)[of r s] sched_inv_ran[of r s p] ran_kin[of p s] ranD(7)[of p s] unfolding quiet_def by metis

text \<open>A change of a process that the scheduler does not see, or only between asleep and stopped.\<close>

lemma sched_inv_calm:
  assumes inv: "sched_inv r s" and "queues_ok s'" and "qs s' = qs s" and "u_procp s' = u_procp s"
    and "\<And>p. SLOAD \<in> p_flag (ptab s' p) \<longleftrightarrow> SLOAD \<in> p_flag (ptab s p)"
    and st: "\<And>p. p_stat (ptab s' p) = p_stat (ptab s p) \<or> p_stat (ptab s p) \<in> {SSLEEP, SSTOP} \<and> p_stat (ptab s' p) \<in> {SSLEEP, SSTOP}"
    and wc: "\<And>p. p_wchan (ptab s' p) = p_wchan (ptab s p) \<or> p_stat (ptab s p) \<in> {SSLEEP, SSTOP}"
    and "\<And>p. p_stat (ptab s p) \<noteq> SZOMB \<Longrightarrow> p_pri (ptab s' p) \<le> 127"
  shows "sched_inv r s'"
proof -
  have run: "p_stat (ptab s' p) = SRUN \<longleftrightarrow> p_stat (ptab s p) = SRUN" "p_stat (ptab s' p) = SZOMB \<longleftrightarrow> p_stat (ptab s p) = SZOMB" for p
    using st[of p] by auto
  have "p_wchan (ptab s' p) = p_wchan (ptab s p)" if "p_stat (ptab s p) = SRUN" for p using wc[of p] that by auto
  then show ?thesis using inv assms(2,8) unfolding sched_inv_def assms(3-5) run by auto
qed

lemma psignal_run_quiet:
  assumes inv: "sched_inv r s" and cr: "can_run (ptab s p)"
  shows "quiet r s (psignal_run p s)"
proof -
  let ?f = "\<lambda>pr. if p_pri pr > PUSER then pr\<lparr>p_pri := PUSER\<rparr> else pr"
  have f: "p_stat (?f pr) = p_stat pr" "p_flag (?f pr) = p_flag pr" "p_wchan (?f pr) = p_wchan pr" "p_pid (?f pr) = p_pid pr"
    "p_ppid (?f pr) = p_ppid pr" "p_pptr (?f pr) = p_pptr pr" "p_pgrp (?f pr) = p_pgrp pr" "p_pri (?f pr) \<le> p_pri pr" for pr by simp_all
  define t where "t = upd p ?f s"
  have ok: "queues_ok t" unfolding t_def using sched_invD(1)[OF inv] by (rule queues_ok_upd) (simp_all only: f)
  have le: "p_pri (ptab t q) \<le> p_pri (ptab s q)" for q using f(8) by (simp add: t_def)
  have i: "sched_inv r t"
    by (rule sched_inv_calm[OF inv ok]) (use sched_invD(2)[OF inv] le f in \<open>auto simp: t_def intro: order.trans\<close>)
  have "can_run (ptab t p)" using cr f(1)[of "ptab s p"] unfolding can_run_def t_def upd_fields fun_upd_same by metis
  then have "quiet r t (setrun p t)" using setrun_quiet[OF i] by blast
  moreover have "kin s t" unfolding t_def by (rule kin_upd) (simp_all only: f simp_thms)
  ultimately show ?thesis unfolding psignal_run_def t_def[symmetric] by (rule quiet_from) (simp add: t_def)
qed

lemma unsleep_quiet:
  assumes inv: "sched_inv r s" and st: "p_stat (ptab s p) \<in> {SSLEEP, SSTOP}"
  shows "quiet r s (unsleep p s)"
proof -
  let ?t = "off_queue p s"
  note ok = off_queue_ok[OF sched_invD(1)[OF inv], of p]
  have t: "ptab ?t = (ptab s)(p := (ptab s p)\<lparr>p_wchan := 0\<rparr>)" "qs ?t = qs s" "u_procp ?t = u_procp s" "allproc ?t = allproc s"
    "zombproc ?t = zombproc s" "freeproc ?t = freeproc s" "pidhash ?t = pidhash s" by (simp_all add: off_queue_def Let_def)
  have "sched_inv r ?t" by (rule sched_inv_calm[OF inv ok]) (use sched_invD(2)[OF inv] st t in auto)
  moreover have "kin s ?t" by (simp add: kin_def t)
  ultimately show ?thesis unfolding unsleep_off_queue[OF sched_invD(1)[OF inv]] using inv t(3) by (simp add: quiet_Inr)
qed

lemma resume_sleep_quiet:
  assumes inv: "sched_inv r s" and st: "p_stat (ptab s p) = SSTOP"
  shows "quiet r s (Inr (upd p (p_stat_update (\<lambda>_. SSLEEP)) s))"
proof (rule quiet_Inr)
  have "queues_ok (upd p (p_stat_update (\<lambda>_. SSLEEP)) s)" using sched_invD(1)[OF inv] by (rule queues_ok_stat) (simp_all add: st)
  then show "sched_inv r (upd p (p_stat_update (\<lambda>_. SSLEEP)) s)"
    by (rule sched_inv_calm[OF inv]) (use sched_invD(2)[OF inv] st in auto)
  show "kin s (upd p (p_stat_update (\<lambda>_. SSLEEP)) s)" by (rule kin_upd) (simp_all add: st alive_def)
qed simp

text \<open>Posting a signal that does not stop: every branch is quiet.\<close>

lemma psignal_quiet:
  assumes inv: "sched_inv r s" and plain: "SA_STOP \<notin> sigprop sig"
  shows "quiet r s (psignal p sig s)"
proof -
  obtain b pr' where post: "psignal_post (ptab s p) sig = (b, pr')" by force
  obtain n sg where pr': "pr' = (ptab s p)\<lparr>p_nice := n, p_sig := sg\<rparr>" using psignal_post_fields(1)[OF post] by blast
  let ?clr = "\<lambda>pr. pr\<lparr>p_sig := p_sig pr - {sig}\<rparr>"
  define s1 where "s1 = upd p (\<lambda>_. pr') s"
  define s2 where "s2 = upd p ?clr s1"
  note D = sched_invD[OF inv]
  have ok1: "queues_ok s1" unfolding s1_def using D(1) by (rule queues_ok_upd) (simp_all add: pr')
  have i1: "sched_inv r s1" by (rule sched_inv_calm[OF inv ok1]) (use D(2) in \<open>auto simp: s1_def pr'\<close>)
  have ok2: "queues_ok s2" unfolding s2_def using ok1 by (rule queues_ok_upd) simp_all
  have i2: "sched_inv r s2" by (rule sched_inv_calm[OF i1 ok2]) (use sched_invD(2)[OF i1] in \<open>auto simp: s2_def\<close>)
  have k: "kin s s1" "kin s1 s2" unfolding s1_def s2_def by (auto intro!: kin_upd simp: pr')
  have u: "u_procp s1 = u_procp s" "u_procp s2 = u_procp s1" by (simp_all add: s1_def s2_def)
  note lift = quiet_from[OF _ k(1) u(1)] quiet_from[OF _ kin_trans[OF k] trans[OF u(2,1)]]
  have q: "quiet r s (Inr s)" "quiet r s (Inr s1)" "quiet r s (Inr s2)"
    using inv i1 i2 k kin_trans[OF k] u by (simp_all add: quiet_Inr)
  have st: "p_stat (ptab s1 p) = p_stat pr'" "p_stat (ptab s2 p) = p_stat pr'" by (simp_all add: s1_def s2_def)
  have run: "quiet r s (psignal_run p s1)" "quiet r s (psignal_run p s2)" if "p_stat pr' = SSLEEP \<or> p_stat pr' = SSTOP"
    using that st lift(1)[OF psignal_run_quiet[OF i1, of p]] lift(2)[OF psignal_run_quiet[OF i2, of p]] by (auto simp: can_run_def)
  have sl: "quiet r s (Inr (upd p (p_stat_update (\<lambda>_. SSLEEP)) s1))" "quiet r s (Inr (upd p (p_stat_update (\<lambda>_. SSLEEP)) s2))" if "p_stat pr' = SSTOP"
    using that st lift(1)[OF resume_sleep_quiet[OF i1, of p]] lift(2)[OF resume_sleep_quiet[OF i2, of p]] by auto
  have un: "quiet r s (unsleep p s1)" if "p_stat pr' = SSTOP" using that st lift(1)[OF unsleep_quiet[OF i1, of p]] by auto
  have "psignal p sig s = psignal_depth (Suc 1) p sig s" by (simp add: psignal_def numeral_2_eq_2)
  moreover have "quiet r s (psignal_depth (Suc 1) p sig s)"
    unfolding psignal_depth.simps(2) Let_def post prod.case s1_def[symmetric] s2_def[symmetric]
    using plain q run sl un by (intro quiet_if) (simp_all add: quiet_if split: pstat.split)
  ultimately show ?thesis by simp
qed


section \<open>The steps of the scheduler\<close>

lemma setpri_kin: "kin s (snd (setpri p s))" "u_procp (snd (setpri p s)) = u_procp s"
  by (simp_all add: kin_def setpri_def Let_def)

lemma asleep_kin: "p_stat (ptab s p) = SRUN \<Longrightarrow> kin s (asleep p chan pri s)"
  by (simp add: kin_def asleep_def alive_def)

lemma userret_kin: "kin s (snd (userret_resched s))"
proof -
  obtain pri s1 where e: "setpri (u_procp s) s = (pri, s1)" by force
  then have "kin s s1" using setpri_kin(1)[of s "u_procp s"] by simp
  then show ?thesis using e by (auto simp: userret_resched_def Let_def kin_def setrq_def)
qed

lemma swtch_kin: "swtch s = (x, s') \<Longrightarrow> kin s s'"
  by (cases x) (auto dest!: swtch_picks(4) swtch_idles(2) simp: kin_def split: if_splits)

lemma sched_pass_kin: "sched_pass s = Inr (act, s') \<Longrightarrow> kin s s'"
  by (auto simp: sched_pass_def Let_def kin_def remrq_def split: prod.splits option.splits if_splits)

lemma sched_step_kin:
  assumes "sched_step x y" and "sched_inv (fst x) (snd x)"
  shows "kin (snd x) (snd y)"
  using assms
proof (induction rule: sched_step.induct)
  case (Wake chan s s' r)
  then show ?case using wakeup_quiet[of r s chan] by (simp add: quiet_def)
next
  case (Run s p s' r)
  then show ?case using setrun_quiet[of r s p] by (simp add: quiet_def)
next
  case (Sleep chan pri s s' p)
  then have inv: "sched_inv (Some p) s" by simp
  note c = sched_invD(4)[OF inv refl]
  obtain s3 A where g: "go_to_sleep chan pri s = Inr (tick_nvcsw p s3)" "roused A (asleep p chan pri s) s3"
    using go_to_sleep_ok[OF sched_invD(1)[OF inv] Sleep(1), of p pri] c by auto
  have "kin s (asleep p chan pri s)" "kin (asleep p chan pri s) s3" using asleep_kin c roused_kin[OF g(2)] by auto
  moreover have "kin s3 (tick_nvcsw p s3)" unfolding tick_nvcsw_def by (rule kin_upd) simp_all
  ultimately have "kin s (tick_nvcsw p s3)" using kin_trans by blast
  then show ?case using Sleep(3) g(1) by simp
next
  case (Stay s s' p)
  then show ?case using userret_kin[of s] by simp
next
  case (Yield s s' p)
  then show ?case using userret_kin[of s] by simp
next
  case (Swapin s p)
  then show ?case by (simp add: kin_def swapin_finish_def Let_def setrq_def)
next
  case (Swapout s p s')
  then have "sched_inv (Some 0) s" by simp
  let ?s1 = "upd p (\<lambda>pr. pr\<lparr>p_flag := p_flag pr - {SLOAD, SLOCK}, p_time := 0\<rparr>) s"
  have ok: "queues_ok ?s1" by (rule queues_ok_upd) (use Swapout in \<open>auto dest: sched_invD(1)\<close>)
  then have ok': "queues_ok (?s1\<lparr>runout := 0\<rparr>)" by (subst queues_ok_cong[of _ ?s1]) simp_all
  have k: "kin s ?s1" "kin s (?s1\<lparr>runout := 0\<rparr>)" by (simp_all add: kin_def)
  show ?case
  proof (cases "runout ?s1 = 0")
    case False
    then have "wakeup (a_runout ?s1) (?s1\<lparr>runout := 0\<rparr>) = Inr s'" using Swapout(2) by (simp add: swapout_finish_def Let_def)
    moreover obtain t A where "wakeup (a_runout ?s1) (?s1\<lparr>runout := 0\<rparr>) = Inr t" "roused A (?s1\<lparr>runout := 0\<rparr>) t"
      using wakeup_ok[OF ok', of "a_runout ?s1"] queues_okD(7)[OF ok] by auto
    ultimately show ?thesis using kin_trans[OF k(2) roused_kin] by simp
  qed (use Swapout(2) k(1) in \<open>simp add: swapout_finish_def Let_def\<close>)
qed (auto dest: swtch_kin sched_pass_kin)

section \<open>Families\<close>

text \<open>
  Every slot is on exactly one of the three lists, by its state; every process but 0 has a live parent, of which it knows the id, or
  one of the set \<open>d\<close> of those about to go; ancestors end at process 0; and the hash chains hold the live processes.
\<close>

definition table_ok :: "sys \<Rightarrow> bool" where
  "table_ok s \<longleftrightarrow> distinct (allproc s) \<and> distinct (zombproc s) \<and> distinct (freeproc s)
     \<and> set (allproc s) = {p. alive (p_stat (ptab s p))} \<and> set (zombproc s) = {p. p_stat (ptab s p) = SZOMB}
     \<and> set (freeproc s) = {p. p < NPROC \<and> p_stat (ptab s p) = SNONE} \<and> (\<forall>p\<ge>NPROC. p_stat (ptab s p) = SNONE)"

definition hash_ok :: "sys \<Rightarrow> bool" where
  "hash_ok s \<longleftrightarrow> (\<forall>h. distinct (pidhash s h) \<and> set (pidhash s h) = {p \<in> set (allproc s). p \<noteq> 0 \<and> PIDHASH (p_pid (ptab s p)) = h})"

definition procs :: "sys \<Rightarrow> nat set" where
  "procs s = set (allproc s) \<union> set (zombproc s)"

definition parents_ok :: "nat set \<Rightarrow> sys \<Rightarrow> bool" where
  "parents_ok d s \<longleftrightarrow> p_pptr (ptab s 0) = NPROC \<and> p_pptr (ptab s 1) = 0
     \<and> (\<forall>p \<in> procs s. p \<noteq> 0 \<longrightarrow> p_pptr (ptab s p) \<in> d \<or> p_pptr (ptab s p) \<in> set (allproc s) \<and> p_ppid (ptab s p) = p_pid (ptab s (p_pptr (ptab s p))))
     \<and> (\<exists>rank :: nat \<Rightarrow> nat. \<forall>p \<in> procs s. p \<noteq> 0 \<longrightarrow> rank (p_pptr (ptab s p)) < rank p)"

definition ids_ok :: "life \<Rightarrow> bool" where
  "ids_ok L \<longleftrightarrow> (let s = psys L in p_pid (ptab s 0) = 0 \<and> p_ppid (ptab s 0) = 0 \<and> p_pid (ptab s 1) = 1 \<and> {0, 1} \<subseteq> set (allproc s)
     \<and> (\<forall>p \<in> procs s. p \<noteq> 0 \<longrightarrow> p \<noteq> 1 \<longrightarrow> 2 \<le> p_pid (ptab s p) \<and> p_pid (ptab s p) < 30000)
     \<and> 1 \<le> mpid L \<and> mpid L < 30000 \<and> pidchecked L \<le> 30000)"

definition family :: "nat set \<Rightarrow> life \<Rightarrow> bool" where
  "family d L \<longleftrightarrow> table_ok (psys L) \<and> hash_ok (psys L) \<and> parents_ok d (psys L) \<and> ids_ok L"

lemma table_okD:
  assumes "table_ok s"
  shows "p \<in> set (allproc s) \<longleftrightarrow> alive (p_stat (ptab s p))" "p \<in> set (zombproc s) \<longleftrightarrow> p_stat (ptab s p) = SZOMB"
    "p \<in> set (freeproc s) \<longleftrightarrow> p < NPROC \<and> p_stat (ptab s p) = SNONE"
  using assms by (simp_all add: table_ok_def)

lemma procs_stat: "table_ok s \<Longrightarrow> procs s = {p. p_stat (ptab s p) \<noteq> SNONE}"
  by (auto simp: table_ok_def procs_def alive_def)

lemma family_kin:
  assumes "family d L" and k: "kin (psys L) (psys L')" and "mpid L' = mpid L" and "pidchecked L' = pidchecked L"
  shows "family d L'"
proof -
  note K = kinD[OF k]
  have p: "procs (psys L') = procs (psys L)" by (simp add: procs_def K)
  have "table_ok (psys L') = table_ok (psys L)" "hash_ok (psys L') = hash_ok (psys L)" "parents_ok d (psys L') = parents_ok d (psys L)"
    unfolding table_ok_def hash_ok_def parents_ok_def p K by (rule refl)+
  moreover have "ids_ok L' = ids_ok L" unfolding ids_ok_def Let_def assms(3,4) p K by (rule refl)
  ultimately show ?thesis using assms(1) unfolding family_def by simp
qed

lemma procs_small: "table_ok s \<Longrightarrow> p \<in> procs s \<Longrightarrow> p < NPROC"
  by (force simp: procs_stat table_ok_def)

lemma pid_list_short:
  assumes "table_ok s"
  shows "length (pid_list s) \<le> NPROC"
proof -
  have "distinct (allproc s @ zombproc s)" using assms by (auto simp: table_ok_def alive_def)
  then have "length (pid_list s) = card (procs s)" using distinct_card[of "allproc s @ zombproc s"] by (simp add: pid_list_def procs_def)
  also have "\<dots> \<le> card {..<NPROC}" using procs_small[OF assms] by (intro card_mono) auto
  finally show ?thesis by simp
qed


section \<open>A new process\<close>

text \<open>A slot that is on no queue may change.\<close>

lemma queues_ok_aloof:
  assumes "queues_ok s" and "p \<notin> set (qs s)" and "p_wchan (ptab s p) = 0" and "p_wchan (f (ptab s p)) = 0"
  shows "queues_ok (upd p f s)"
proof -
  have w: "p_wchan (ptab (upd p f s) q) = p_wchan (ptab s q)" for q using assms(3,4) by simp
  have "p_wchan (ptab s q) \<noteq> 0 \<longrightarrow> p_stat (ptab (upd p f s) q) \<in> {SSLEEP, SSTOP}" for q
    using queues_okD(5)[OF assms(1), of q] assms(3) by auto
  moreover have "\<forall>q \<in> set (qs s). ptab (upd p f s) q = ptab s q" using assms(2) by auto
  ultimately show ?thesis using assms(1) unfolding queues_ok_def w by simp
qed

lemma sched_inv_aloof:
  assumes inv: "sched_inv r s" and p: "p \<notin> set (qs s)" "p_wchan (ptab s p) = 0" "p_wchan (f (ptab s p)) = 0" "r \<noteq> Some p"
    and st: "p_stat (f (ptab s p)) = SRUN \<Longrightarrow> SLOAD \<notin> p_flag (f (ptab s p))" and pri: "p_stat (f (ptab s p)) \<noteq> SZOMB \<Longrightarrow> p_pri (f (ptab s p)) \<le> 127"
  shows "sched_inv r (upd p f s)"
  using inv queues_ok_aloof[OF sched_invD(1)[OF inv] p(1,2), of f] p(3,4) st pri unfolding sched_inv_def by auto

text \<open>The running process steps aside and comes back.\<close>

lemma step_aside:
  assumes inv: "sched_inv (Some p) s" and f: "p_stat (f (ptab s p)) \<noteq> SRUN" "p_stat (f (ptab s p)) \<noteq> SZOMB \<Longrightarrow> p_pri (f (ptab s p)) \<le> 127"
    "p_wchan (f (ptab s p)) = 0"
  shows "sched_inv None (upd p f s)"
  using inv queues_ok_aloof[OF sched_invD(1)[OF inv], of p f] sched_invD(4)[OF inv refl] f unfolding sched_inv_def by auto

lemma step_in:
  assumes inv: "sched_inv None s" and "u_procp s = p" and "p \<notin> set (qs s)" and "p_wchan (ptab s p) = 0" and "SLOAD \<in> p_flag (ptab s p)" and "p_stat (ptab s p) \<noteq> SZOMB"
  shows "sched_inv (Some p) (upd p (p_stat_update (\<lambda>_. SRUN)) s)"
proof -
  have "queues_ok (upd p (p_stat_update (\<lambda>_. SRUN)) s)" using queues_ok_aloof[OF sched_invD(1)[OF inv] assms(3,4)] assms(4) by simp
  then show ?thesis using inv assms(2-6) unfolding sched_inv_def by auto
qed

text \<open>A wakeup does not touch one that does not sleep.\<close>

lemma wakeup_spares:
  assumes inv: "sched_inv r s" and "chan \<noteq> 0"
  shows "\<exists>s'. wakeup chan s = Inr s' \<and> sched_inv r s' \<and> kin s s' \<and> u_procp s' = u_procp s
    \<and> (\<forall>p. p_wchan (ptab s p) = 0 \<longrightarrow> ptab s' p = ptab s p \<and> (p \<in> set (qs s') \<longleftrightarrow> p \<in> set (qs s)))"
proof -
  obtain s' A where w: "wakeup chan s = Inr s'" "queues_ok s'" "roused A s s'" using wakeup_ok[OF sched_invD(1)[OF inv] assms(2)] by blast
  have "p \<notin> A" if "p_wchan (ptab s p) = 0" for p using w(3) that unfolding roused_def by auto
  then have "\<forall>p. p_wchan (ptab s p) = 0 \<longrightarrow> ptab s' p = ptab s p \<and> (p \<in> set (qs s') \<longleftrightarrow> p \<in> set (qs s))" using w(3) unfolding roused_def by auto
  then show ?thesis using w(1) sched_inv_roused[OF inv w(2,3)] roused_kin[OF w(3)] roused_fields(3)[OF w(3)] by blast
qed

lemma swapout_finish_spares:
  assumes i1: "sched_inv r (upd p (\<lambda>pr. pr\<lparr>p_flag := p_flag pr - {SLOAD, SLOCK}, p_time := 0\<rparr>) s)"
    and p: "p \<notin> set (qs s)" "p_wchan (ptab s p) = 0"
  shows "\<exists>s'. swapout_finish p s = Inr s' \<and> sched_inv r s' \<and> kin s s' \<and> u_procp s' = u_procp s \<and> p \<notin> set (qs s')
    \<and> ptab s' p = (ptab s p)\<lparr>p_flag := p_flag (ptab s p) - {SLOAD, SLOCK}, p_time := 0\<rparr>
    \<and> (\<forall>q. q \<noteq> p \<longrightarrow> p_wchan (ptab s q) = 0 \<longrightarrow> ptab s' q = ptab s q \<and> (q \<in> set (qs s') \<longleftrightarrow> q \<in> set (qs s)))"
proof -
  let ?f = "\<lambda>pr. pr\<lparr>p_flag := p_flag pr - {SLOAD, SLOCK}, p_time := 0\<rparr>"
  let ?s1 = "upd p ?f s"
  have k: "kin s ?s1" by (rule kin_upd) simp_all
  show ?thesis
  proof (cases "runout ?s1 = 0")
    case True
    then have "swapout_finish p s = Inr ?s1" by (simp add: swapout_finish_def Let_def)
    then show ?thesis using i1 k p by simp
  next
    case False
    let ?t = "?s1\<lparr>runout := 0\<rparr>"
    have "queues_ok ?t" using sched_invD(1)[OF i1] by (subst queues_ok_cong[of _ ?s1]) simp_all
    then have i2: "sched_inv r ?t" by (rule sched_inv_cong[OF i1]) (use sched_invD(2)[OF i1] in auto)
    have kt: "kin s ?t" using k by (simp add: kin_def)
    obtain s' where w: "wakeup (a_runout ?t) ?t = Inr s'" "sched_inv r s'" "kin ?t s'" "u_procp s' = u_procp ?t"
      "\<forall>q. p_wchan (ptab ?t q) = 0 \<longrightarrow> ptab s' q = ptab ?t q \<and> (q \<in> set (qs s') \<longleftrightarrow> q \<in> set (qs ?t))"
      using wakeup_spares[OF i2, of "a_runout ?t"] queues_okD(7)[OF sched_invD(1)[OF i2]] by blast
    have "swapout_finish p s = Inr s'" using False w(1) by (simp add: swapout_finish_def Let_def)
    then show ?thesis using w p kin_trans[OF kt w(3)] by simp
  qed
qed

lemma newproc_copy_ok:
  assumes inv: "sched_inv (Some p) s" and c: "c \<noteq> p" "c \<notin> set (qs s)" "p_wchan (ptab s c) = 0" "p_stat (ptab s c) = SIDL"
  shows "\<exists>s'. newproc_copy None c s = Inr s' \<and> sched_inv (Some p) s' \<and> kin s s'
    \<and> ptab s' c = (ptab s c)\<lparr>p_stat := SRUN, p_flag := insert SSWAP (p_flag (ptab s c) - {SLOAD, SLOCK}), p_time := 0\<rparr>"
proof -
  note P = sched_invD(4)[OF inv refl]
  let ?a = "upd p (p_stat_update (\<lambda>_. SIDL)) s"
  let ?b = "upd c (p_stat_update (\<lambda>_. SRUN)) ?a"
  have ia: "sched_inv None ?a" by (rule step_aside[OF inv]) (use P sched_invD(2)[OF inv, of p] in auto)
  let ?out = "\<lambda>pr. pr\<lparr>p_flag := p_flag pr - {SLOAD, SLOCK}, p_time := 0\<rparr>"
  have "upd c ?out ?b = upd c (\<lambda>pr. ?out (pr\<lparr>p_stat := SRUN\<rparr>)) ?a" by (simp add: upd_def)
  moreover have "sched_inv None (upd c (\<lambda>pr. ?out (pr\<lparr>p_stat := SRUN\<rparr>)) ?a)"
    by (rule sched_inv_aloof[OF ia]) (use c sched_invD(2)[OF inv, of c] in auto)
  ultimately have ib: "sched_inv None (upd c ?out ?b)" by (simp only:)
  obtain t where t: "swapout_finish c ?b = Inr t" "sched_inv None t" "kin ?b t" "u_procp t = u_procp ?b" "c \<notin> set (qs t)"
    "ptab t c = ?out (ptab ?b c)"
    "\<forall>q. q \<noteq> c \<longrightarrow> p_wchan (ptab ?b q) = 0 \<longrightarrow> ptab t q = ptab ?b q \<and> (q \<in> set (qs t) \<longleftrightarrow> q \<in> set (qs ?b))"
    using swapout_finish_spares[OF ib] c by auto
  let ?t' = "upd c (p_flag_update (insert SSWAP)) t"
  have tp: "ptab t p = (ptab s p)\<lparr>p_stat := SIDL\<rparr>" "p \<notin> set (qs t)" using t(7) P c(1) by auto
  have it: "sched_inv None ?t'" by (rule sched_inv_aloof[OF t(2,5)]) (use t(6) c sched_invD(2)[OF t(2), of c] in auto)
  have fin: "sched_inv (Some p) (upd p (p_stat_update (\<lambda>_. SRUN)) ?t')" by (rule step_in[OF it]) (use tp P c(1) t(4) in auto)
  have "kin s ?b" using P c by (simp add: kin_def alive_def)
  moreover have "kin t (upd p (p_stat_update (\<lambda>_. SRUN)) ?t')" using tp c(1) by (simp add: kin_def alive_def)
  ultimately have "kin s (upd p (p_stat_update (\<lambda>_. SRUN)) ?t')" using kin_trans t(3) by blast
  moreover have "newproc_copy None c s = Inr (upd p (p_stat_update (\<lambda>_. SRUN)) ?t')" using t(1) P by (simp add: newproc_copy_def Let_def)
  ultimately show ?thesis using fin t(6) c(1) by simp
qed


lemma newproc_enter_fields:
  assumes "freeproc s = c # fs"
  shows "ptab (newproc_enter m c s) = (ptab s)(c := child_entry m (u_procp s) (ptab s (u_procp s)) (ptab s c))"
    "allproc (newproc_enter m c s) = c # allproc s" "zombproc (newproc_enter m c s) = zombproc s" "freeproc (newproc_enter m c s) = fs"
    "pidhash (newproc_enter m c s) = (pidhash s)(PIDHASH m := c # pidhash s (PIDHASH m))"
    "qs (newproc_enter m c s) = qs s" "u_procp (newproc_enter m c s) = u_procp s" "slpque (newproc_enter m c s) = slpque s"
    "a_runin (newproc_enter m c s) = a_runin s" "a_runout (newproc_enter m c s) = a_runout s" "a_lbolt (newproc_enter m c s) = a_lbolt s"
    "a_proc (newproc_enter m c s) = a_proc s"
  using assms by (simp_all add: newproc_enter_def Let_def)

lemma child_entry_fields [simp]:
  "p_stat (child_entry m p pr c) = SIDL" "p_flag (child_entry m p pr c) = {SLOAD}" "p_pid (child_entry m p pr c) = m" "p_ppid (child_entry m p pr c) = p_pid pr"
  "p_pptr (child_entry m p pr c) = p" "p_wchan (child_entry m p pr c) = 0" "p_pri (child_entry m p pr c) = p_pri c" "p_pgrp (child_entry m p pr c) = p_pgrp pr"
  by (simp_all add: child_entry_def)

lemma newproc_enter_inv:
  assumes inv: "sched_inv (Some p) s" and fr: "freeproc s = c # fs" and st: "p_stat (ptab s c) = SNONE"
  shows "sched_inv (Some p) (newproc_enter m c s)"
proof -
  note E = newproc_enter_fields[OF fr, of m]
  let ?t = "upd c (child_entry m (u_procp s) (ptab s (u_procp s))) s"
  have c: "c \<notin> set (qs s)" "p_wchan (ptab s c) = 0" "c \<noteq> p"
    using queues_okD(2)[OF sched_invD(1)[OF inv], of c] queues_okD(5)[OF sched_invD(1)[OF inv], of c] sched_invD(4)[OF inv refl] st by auto
  have t: "sched_inv (Some p) ?t" by (rule sched_inv_aloof[OF inv c(1,2)]) (use c(3) sched_invD(2)[OF inv, of c] st in auto)
  have "queues_ok (newproc_enter m c s)" using sched_invD(1)[OF t] by (subst queues_ok_cong[of _ ?t]) (simp_all add: E)
  then show ?thesis by (rule sched_inv_cong[OF t]) (use sched_invD(2)[OF t] in \<open>auto simp: E\<close>)
qed

lemma newproc_enter_family:
  assumes fam: "family {} L" and s: "s = psys L" and fr: "freeproc s = c # fs" and up: "u_procp s \<in> set (allproc s)"
    and m: "2 \<le> m" "m < 30000" "k \<le> 30000"
  shows "family {} (L\<lparr>psys := newproc_enter m c s, mpid := m, pidchecked := k\<rparr>)"
proof -
  note E = newproc_enter_fields[OF fr, of m]
  have T: "table_ok s" and H: "hash_ok s" and P: "parents_ok {} s" and I: "ids_ok L" using fam s by (simp_all add: family_def)
  have c: "p_stat (ptab s c) = SNONE" "c < NPROC" "c \<notin> set fs" using table_okD(3)[OF T, of c] T fr by (simp_all add: table_ok_def)
  have cn: "c \<notin> procs s" using c(1) by (simp add: procs_stat[OF T])
  have "0 \<in> procs s" "1 \<in> procs s" using I s by (simp_all add: ids_ok_def Let_def procs_def)
  then have c01: "c \<noteq> 0" "c \<noteq> 1" using cn by metis+
  let ?s' = "newproc_enter m c s"
  have pr: "procs ?s' = insert c (procs s)" by (simp add: procs_def E)
  have fs: "set fs = {p. p < NPROC \<and> p_stat (ptab s p) = SNONE} - {c}" using c(3) fr table_okD(3)[OF T] by (auto simp del: atLeastLessThan_iff)
  have al: "set (allproc s) = {p. alive (p_stat (ptab s p))}" "set (zombproc s) = {p. p_stat (ptab s p) = SZOMB}"
    "distinct (allproc s)" "distinct (zombproc s)" "distinct fs" "\<forall>p\<ge>NPROC. p_stat (ptab s p) = SNONE"
    using T fr by (simp_all add: table_ok_def)
  have "table_ok ?s'" unfolding table_ok_def E using c al fs by (auto simp: alive_def)
  moreover have "hash_ok ?s'"
  proof -
    have h: "distinct (pidhash s h)" "set (pidhash s h) = {p \<in> set (allproc s). p \<noteq> 0 \<and> PIDHASH (p_pid (ptab s p)) = h}" for h
      using H by (simp_all add: hash_ok_def)
    have "c \<notin> set (pidhash s h)" for h using cn h(2)[of h] by (auto simp: procs_def)
    then show ?thesis unfolding hash_ok_def E using h cn c01 by (auto simp: procs_def)
  qed
  moreover have "parents_ok {} ?s'"
  proof -
    obtain rank :: "nat \<Rightarrow> nat" where r: "\<forall>p \<in> procs s. p \<noteq> 0 \<longrightarrow> rank (p_pptr (ptab s p)) < rank p" using P by (auto simp: parents_ok_def)
    have pp: "p_pptr (ptab s p) \<in> set (allproc s) \<and> p_ppid (ptab s p) = p_pid (ptab s (p_pptr (ptab s p)))" if "p \<in> procs s" "p \<noteq> 0" for p
      using P that by (auto simp: parents_ok_def)
    have nc: "p_pptr (ptab s p) \<noteq> c" if "p \<in> procs s" "p \<noteq> 0" for p using pp[OF that] cn by (auto simp: procs_def)
    have uc: "u_procp s \<noteq> c" using up cn by (auto simp: procs_def)
    have "\<forall>p \<in> procs ?s'. p \<noteq> 0 \<longrightarrow> (rank(c := rank (u_procp s) + 1)) (p_pptr (ptab ?s' p)) < (rank(c := rank (u_procp s) + 1)) p"
      using r nc uc cn unfolding pr E by auto
    moreover have "\<forall>p \<in> procs ?s'. p \<noteq> 0 \<longrightarrow> p_pptr (ptab ?s' p) \<in> set (allproc ?s') \<and> p_ppid (ptab ?s' p) = p_pid (ptab ?s' (p_pptr (ptab ?s' p)))"
      using pp nc uc up cn unfolding pr E by auto
    moreover have "p_pptr (ptab ?s' 0) = NPROC" "p_pptr (ptab ?s' 1) = 0" using P c01 unfolding E by (simp_all add: parents_ok_def)
    ultimately show ?thesis unfolding parents_ok_def by blast
  qed
  moreover have "ids_ok (L\<lparr>psys := ?s', mpid := m, pidchecked := k\<rparr>)"
    using I m c01 cn unfolding ids_ok_def Let_def life.simps s[symmetric] by (auto simp: E pr)
  ultimately show ?thesis by (simp add: family_def)
qed

text \<open>The ids are all different, and none lies above \<open>mpid\<close> and below \<open>pidchecked\<close>.\<close>

definition pids :: "sys \<Rightarrow> int set" where
  "pids s = (\<lambda>p. p_pid (ptab s p)) ` procs s"

definition pids_ok :: "life \<Rightarrow> bool" where
  "pids_ok L \<longleftrightarrow> inj_on (\<lambda>p. p_pid (ptab (psys L) p)) (procs (psys L)) \<and> vacant (pids (psys L)) (mpid L + 1) (pidchecked L)"

lemma pids_kin: "kin s s' \<Longrightarrow> procs s' = procs s \<and> pids s' = pids s"
  by (simp add: procs_def pids_def kinD)

lemma pids_ok_kin:
  "pids_ok L \<Longrightarrow> kin (psys L) (psys L') \<Longrightarrow> mpid L' = mpid L \<Longrightarrow> pidchecked L' = pidchecked L \<Longrightarrow> pids_ok L'"
  using pids_kin[of "psys L" "psys L'"] by (simp add: pids_ok_def kinD(5) inj_on_def)

lemma fst_pid_list: "fst ` set (pid_list s) = pids s"
  by (simp add: pid_list_def pids_def procs_def image_Un image_image)

lemma newproc_panics:
  assumes "table_ok (psys L)" and "freeproc (psys L) = c # fs" and "swap_fault L = Some msg"
  shows "newproc L = Inl (Panic msg)"
proof -
  have "length (pid_list (psys L)) \<le> 14000" using pid_list_short[OF assms(1)] by (simp add: NPROC_def)
  then obtain m k where "newpid (pid_list (psys L)) (mpid L + 1) (pidchecked L) = Some (m, k)" using newpid_total by blast
  then show ?thesis using assms(2,3) by (simp add: newproc_def newproc_copy_def Let_def)
qed

lemma newproc_ok:
  assumes inv: "sched_inv (Some p) (psys L)" and fam: "family {} L" and fr: "freeproc (psys L) = c # fs" and room: "swap_fault L = None"
  shows "\<exists>L' m k. newproc L = Inr (c, L') \<and> newpid (pid_list (psys L)) (mpid L + 1) (pidchecked L) = Some (m, k)
    \<and> sched_inv (Some p) (psys L') \<and> family {} L' \<and> kin (newproc_enter m c (psys L)) (psys L') \<and> mpid L' = m \<and> pidchecked L' = k
    \<and> (clear_search L \<longrightarrow> pids_ok L \<longrightarrow> m \<notin> pids (psys L) \<and> pids_ok L')
    \<and> p_stat (ptab (psys L') c) = SRUN \<and> p_flag (ptab (psys L') c) = {SSWAP}"
proof -
  let ?s = "psys L"
  have T: "table_ok ?s" and I: "ids_ok L" using fam by (simp_all add: family_def)
  note P = sched_invD(4)[OF inv refl]
  have few: "length (pid_list ?s) \<le> 450" using pid_list_short[OF T] by (simp add: NPROC_def)
  then have "length (pid_list ?s) \<le> 14000" by simp
  then obtain m k where mk: "newpid (pid_list ?s) (mpid L + 1) (pidchecked L) = Some (m, k)" using newpid_total by blast
  note R = newpid_result[OF mk, of "search_floor (mpid L + 1)"] and start = searched_start[OF few, of "mpid L + 1"]
  have R1: "mpid L + 1 \<le> m \<or> 100 \<le> m" "pidchecked L \<le> 30000 \<longrightarrow> m < k \<and> k \<le> 30000" using R by simp_all
  have "1 \<le> mpid L" "pidchecked L \<le> 30000" using I by (simp_all only: ids_ok_def Let_def)
  then have b: "2 \<le> m" "m < 30000" "k \<le> 30000" "m < k" using R1 by linarith+
  have c: "p_stat (ptab ?s c) = SNONE" using table_okD(3)[OF T, of c] fr by simp
  have pa: "u_procp ?s = p" "p \<in> set (allproc ?s)" "c \<noteq> p" using P T c by (auto simp: table_ok_def alive_def)
  let ?t = "newproc_enter m c ?s"
  note E = newproc_enter_fields[OF fr, of m]
  have it: "sched_inv (Some p) ?t" by (rule newproc_enter_inv[OF inv fr c])
  have cq: "c \<notin> set (qs ?t)" using queues_okD(2)[OF sched_invD(1)[OF inv], of c] c unfolding E by auto
  have cw: "p_wchan (ptab ?t c) = 0" "p_stat (ptab ?t c) = SIDL" unfolding E by simp_all
  obtain s' where s': "newproc_copy None c ?t = Inr s'" "sched_inv (Some p) s'" "kin ?t s'"
    "ptab s' c = (ptab ?t c)\<lparr>p_stat := SRUN, p_flag := insert SSWAP (p_flag (ptab ?t c) - {SLOAD, SLOCK}), p_time := 0\<rparr>"
    using newproc_copy_ok[OF it pa(3) cq cw] by blast
  let ?L = "L\<lparr>psys := s', mpid := m, pidchecked := k\<rparr>"
  have "family {} (L\<lparr>psys := ?t, mpid := m, pidchecked := k\<rparr>)" using newproc_enter_family[OF fam refl fr _ b(1-3)] pa by simp
  from family_kin[OF this, of ?L] s'(3) have fam': "family {} ?L" by simp
  have "m \<notin> pids ?s \<and> pids_ok ?L" if g: "clear_search L" "pids_ok L"
  proof -
    have v: "vacant (pids ?s) m k" using R g start unfolding fst_pid_list pids_ok_def clear_search_def by simp
    then have nm: "m \<notin> pids ?s" using b(4) by (auto simp: vacant_def)
    have cn: "c \<notin> procs ?s" using c by (simp add: procs_stat[OF T])
    have pt: "procs ?t = insert c (procs ?s)" by (simp add: procs_def E)
    have pid: "p_pid (ptab ?t q) = (if q = c then m else p_pid (ptab ?s q))" for q by (simp add: E)
    have "inj_on (\<lambda>q. p_pid (ptab ?t q)) (procs ?t)" using g(2) nm cn unfolding pt pids_ok_def inj_on_def pids_def pid by auto
    moreover have "pids ?t = insert m (pids ?s)" using cn unfolding pids_def pt pid by auto
    moreover have "vacant (insert m (pids ?s)) (m + 1) k" using v by (auto simp: vacant_def)
    ultimately have "pids_ok (L\<lparr>psys := ?t, mpid := m, pidchecked := k\<rparr>)" by (simp add: pids_ok_def)
    from pids_ok_kin[OF this, of ?L] show ?thesis using s'(3) nm by simp
  qed
  moreover have "newproc L = Inr (c, ?L)" using mk fr s'(1) room by (simp add: newproc_def Let_def)
  moreover have "p_stat (ptab s' c) = SRUN" "p_flag (ptab s' c) = {SSWAP}" using s'(4) unfolding E by simp_all
  ultimately show ?thesis using mk s'(2,3) fam' by (intro exI[of _ ?L] exI[of _ m] exI[of _ k]) simp
qed


section \<open>A process goes\<close>

text \<open>\<open>adopted p X s s'\<close>: the children of \<open>p\<close> in \<open>X\<close> have become children of process 1, and the families are else the same.\<close>

definition adopted :: "nat \<Rightarrow> nat set \<Rightarrow> sys \<Rightarrow> sys \<Rightarrow> bool" where
  "adopted p X s s' \<longleftrightarrow> allproc s' = allproc s \<and> zombproc s' = zombproc s \<and> freeproc s' = freeproc s \<and> pidhash s' = pidhash s
     \<and> (\<forall>q. p_pid (ptab s' q) = p_pid (ptab s q) \<and> p_pgrp (ptab s' q) = p_pgrp (ptab s q)
          \<and> p_pptr (ptab s' q) = (if q \<in> X \<and> p_pptr (ptab s q) = p then 1 else p_pptr (ptab s q))
          \<and> p_ppid (ptab s' q) = (if q \<in> X \<and> p_pptr (ptab s q) = p then 1 else p_ppid (ptab s q))
          \<and> (p_stat (ptab s' q) = p_stat (ptab s q) \<or> alive (p_stat (ptab s q)) \<and> alive (p_stat (ptab s' q))))"

lemma adopted_empty: "kin s s' \<Longrightarrow> adopted p {} s s'"
  by (simp add: adopted_def kin_def)

lemma adopted_trans:
  assumes "adopted p X s t" and "adopted p Y t u" and "p \<noteq> 1"
  shows "adopted p (X \<union> Y) s u"
proof -
  have "p_stat (ptab u q) = p_stat (ptab s q) \<or> alive (p_stat (ptab s q)) \<and> alive (p_stat (ptab u q))" for q
    using assms(1,2) unfolding adopted_def by metis
  then show ?thesis using assms unfolding adopted_def by auto
qed

lemma adopted_one: "p_pptr (ptab s q) = p \<Longrightarrow> adopted p {q} s (upd q (\<lambda>pr. pr\<lparr>p_pptr := 1, p_ppid := 1\<rparr>) s)"
  by (simp add: adopted_def)

lemma adopted_none: "p_pptr (ptab s q) \<noteq> p \<Longrightarrow> adopted p {q} s s"
  by (auto simp: adopted_def)

lemma plain_signals: "SA_STOP \<notin> sigprop SIGKILL" "SA_STOP \<notin> sigprop SIGHUP" "SA_STOP \<notin> sigprop SIGCONT" "SA_STOP \<notin> sigprop SIGCHLD"
  by (simp_all add: sigprop_cases)

lemma sched_inv_flags:
  assumes inv: "sched_inv r s" and "SLOAD \<in> p_flag (f (ptab s q)) \<longleftrightarrow> SLOAD \<in> p_flag (ptab s q)" and "p_stat (f (ptab s q)) = p_stat (ptab s q)"
    and "p_wchan (f (ptab s q)) = p_wchan (ptab s q)" and "p_pri (f (ptab s q)) = p_pri (ptab s q)"
  shows "sched_inv r (upd q f s)"
proof -
  have "queues_ok (upd q f s)" using sched_invD(1)[OF inv] by (rule queues_ok_upd) (simp_all add: assms)
  then show ?thesis by (rule sched_inv_calm[OF inv]) (use assms sched_invD(2)[OF inv] in auto)
qed

lemma orphan_quiet:
  assumes inv: "sched_inv r s"
  shows "quiet r (upd q (\<lambda>pr. pr\<lparr>p_pptr := 1, p_ppid := 1\<rparr>) s) (orphan q s)"
proof -
  let ?s1 = "upd q (\<lambda>pr. pr\<lparr>p_pptr := 1, p_ppid := 1\<rparr>) s"
  have i1: "sched_inv r ?s1" by (rule sched_inv_flags[OF inv]) simp_all
  have kill: "quiet r t (psignal q SIGKILL (upd q (p_flag_update (\<lambda>f. f - {P_TRACED})) t))" if t: "sched_inv r t" for t
  proof -
    have "sched_inv r (upd q (p_flag_update (\<lambda>f. f - {P_TRACED})) t)" by (rule sched_inv_flags[OF t]) simp_all
    from psignal_quiet[OF this plain_signals(1)] show ?thesis by (rule quiet_from) (simp_all add: kin_upd)
  qed
  have hup: "quiet r t (andthen (psignal q SIGHUP t) (psignal q SIGCONT))" if "sched_inv r t" for t
    using that by (intro quiet_andthen psignal_quiet plain_signals)
  have rest: "quiet r t (if P_TRACED \<in> p_flag (ptab t q) then psignal q SIGKILL (upd q (p_flag_update (\<lambda>f. f - {P_TRACED})) t)
      else if p_stat (ptab t q) = SSTOP then andthen (psignal q SIGHUP t) (psignal q SIGCONT) else Inr t)" if "sched_inv r t" for t
    using that by (intro quiet_if kill hup quiet_Inr) simp_all
  show ?thesis unfolding orphan_def Let_def
    by (rule quiet_andthen[OF wakeup_quiet[OF i1 queues_okD(9)[OF sched_invD(1)[OF i1]]] rest])
qed

lemma orphan_loop_ok:
  assumes "sched_inv r s" and "p \<noteq> 1"
  shows "\<exists>s'. orphan_loop p ql s = Inr s' \<and> sched_inv r s' \<and> adopted p (set ql) s s' \<and> u_procp s' = u_procp s"
  using assms(1)
proof (induction ql arbitrary: s)
  case Nil
  then show ?case by (simp add: adopted_empty)
next
  case (Cons q ql)
  have "\<exists>t. (if p_pptr (ptab s q) = p then orphan q s else Inr s) = Inr t \<and> sched_inv r t \<and> adopted p {q} s t \<and> u_procp t = u_procp s"
  proof (cases "p_pptr (ptab s q) = p")
    case True
    then show ?thesis using orphan_quiet[OF Cons.prems, of q] adopted_trans[OF adopted_one[OF True] adopted_empty assms(2)] by (auto simp: quiet_def)
  next
    case False
    then show ?thesis using Cons.prems adopted_none by auto
  qed
  then obtain t where t: "(if p_pptr (ptab s q) = p then orphan q s else Inr s) = Inr t" "sched_inv r t" "adopted p {q} s t" "u_procp t = u_procp s" by blast
  obtain s' where s': "orphan_loop p ql t = Inr s'" "sched_inv r s'" "adopted p (set ql) t s'" "u_procp s' = u_procp t" using Cons.IH[OF t(2)] by blast
  then show ?case using t adopted_trans[OF t(3) s'(3) assms(2)] by simp
qed

lemma adopted_family:
  assumes fam: "family {p} L" and ad: "adopted p X (psys L) (psys L')" and X: "procs (psys L) \<subseteq> X" and p: "p \<notin> set (allproc (psys L))" "p < NPROC"
    and "mpid L' = mpid L" and "pidchecked L' = pidchecked L"
  shows "family {} L'"
proof -
  let ?s = "psys L" and ?s' = "psys L'"
  have f: "allproc ?s' = allproc ?s" "zombproc ?s' = zombproc ?s" "freeproc ?s' = freeproc ?s" "pidhash ?s' = pidhash ?s"
    "p_pid (ptab ?s' q) = p_pid (ptab ?s q)" "alive (p_stat (ptab ?s' q)) \<longleftrightarrow> alive (p_stat (ptab ?s q))"
    "p_stat (ptab ?s' q) = SZOMB \<longleftrightarrow> p_stat (ptab ?s q) = SZOMB" "p_stat (ptab ?s' q) = SNONE \<longleftrightarrow> p_stat (ptab ?s q) = SNONE" for q
    using ad unfolding adopted_def alive_def by (simp_all, metis+)
  have pr: "procs ?s' = procs ?s" by (simp add: procs_def f)
  have I: "ids_ok L" and P: "parents_ok {p} ?s" and TH: "table_ok ?s" "hash_ok ?s" using fam by (simp_all add: family_def)
  have a01: "0 \<in> set (allproc ?s)" "1 \<in> set (allproc ?s)" "p_pid (ptab ?s 1) = 1" using I unfolding ids_ok_def Let_def by simp_all
  then have "p \<noteq> 0" "p \<noteq> 1" using p(1) by metis+
  note p01 = this a01
  have g: "q \<in> procs ?s \<Longrightarrow> p_pptr (ptab ?s' q) = (if p_pptr (ptab ?s q) = p then 1 else p_pptr (ptab ?s q))
      \<and> p_ppid (ptab ?s' q) = (if p_pptr (ptab ?s q) = p then 1 else p_ppid (ptab ?s q))" for q using ad X unfolding adopted_def by auto
  obtain rank :: "nat \<Rightarrow> nat" where r: "\<forall>q \<in> procs ?s. q \<noteq> 0 \<longrightarrow> rank (p_pptr (ptab ?s q)) < rank q" using P by (auto simp: parents_ok_def)
  have one: "p_pptr (ptab ?s 1) = 0" using P by (simp add: parents_ok_def)
  then have one': "p_pptr (ptab ?s' 1) = 0" using g[of 1] p01 by (simp add: procs_def)
  define rank' where "rank' q = (if q = 0 then 0 else if q = 1 then 1 else rank q + 2)" for q
  have "\<forall>q \<in> procs ?s'. q \<noteq> 0 \<longrightarrow> rank' (p_pptr (ptab ?s' q)) < rank' q" using r g one one' unfolding pr rank'_def by auto
  moreover have "\<forall>q \<in> procs ?s'. q \<noteq> 0 \<longrightarrow> p_pptr (ptab ?s' q) \<in> set (allproc ?s') \<and> p_ppid (ptab ?s' q) = p_pid (ptab ?s' (p_pptr (ptab ?s' q)))"
    using P g p01 unfolding pr f parents_ok_def by auto
  moreover have z: "p_pptr (ptab ?s' 0) = NPROC" "p_ppid (ptab ?s' 0) = p_ppid (ptab ?s 0)"
    using P g[of 0] p(2) p01 by (auto simp: parents_ok_def procs_def)
  ultimately have "parents_ok {} ?s'" using one' unfolding parents_ok_def by blast
  moreover have "ids_ok L'" using I z unfolding ids_ok_def Let_def f pr assms(6,7) by simp
  moreover have "table_ok ?s'" "hash_ok ?s'" using TH unfolding table_ok_def hash_ok_def f by simp_all
  ultimately show ?thesis by (simp add: family_def)
qed


lemma dead_overlay_fields [simp]:
  "p_stat (dead_overlay rv ru pr) = p_stat pr" "p_pid (dead_overlay rv ru pr) = p_pid pr" "p_ppid (dead_overlay rv ru pr) = p_ppid pr"
  "p_pptr (dead_overlay rv ru pr) = p_pptr pr" "p_wchan (dead_overlay rv ru pr) = p_wchan pr" "p_flag (dead_overlay rv ru pr) = p_flag pr"
  "p_pgrp (dead_overlay rv ru pr) = s16 (ru ! 5)"
  by (simp_all add: dead_overlay_def xstat_overlay_def)

lemma exit_leave_ok:
  assumes inv: "sched_inv (Some p) (psys L)" and fam: "family {} L" and p: "p \<noteq> 0" "p \<noteq> 1"
  shows "\<exists>s'. exit_leave p rv ru (psys L) = Inr s' \<and> sched_inv None s' \<and> family {p} (L\<lparr>psys := s'\<rparr>)
    \<and> procs s' = procs (psys L) \<and> zombproc s' = p # zombproc (psys L) \<and> p \<notin> set (allproc s') \<and> u_procp s' = u_procp (psys L)
    \<and> (\<forall>q. p_pid (ptab s' q) = p_pid (ptab (psys L) q) \<and> p_pptr (ptab s' q) = p_pptr (ptab (psys L) q))
    \<and> (p_pgrp (ptab s' p) = s16 (ru ! 5))"
proof -
  let ?s = "psys L" and ?h = "PIDHASH (p_pid (ptab (psys L) p))" and ?f = "\<lambda>pr. dead_overlay rv ru (pr\<lparr>p_stat := SZOMB\<rparr>)"
  have T: "table_ok ?s" and H: "hash_ok ?s" and P: "parents_ok {} ?s" and I: "ids_ok L" using fam by (simp_all add: family_def)
  note C = sched_invD(4)[OF inv refl]
  have pa: "p \<in> set (allproc ?s)" using table_okD(1)[OF T] C by (simp add: alive_def)
  have pz: "p \<notin> set (zombproc ?s)" using table_okD(2)[OF T] C by simp
  have "p \<in> procs ?s" using pa by (simp add: procs_def)
  then have "2 \<le> p_pid (ptab ?s p)" using I p unfolding ids_ok_def Let_def by blast
  then have pid: "p_pid (ptab ?s p) \<noteq> 1" by simp
  have hs: "p \<in> set (pidhash ?s ?h)" using H pa p(1) by (simp add: hash_ok_def)
  define s' where "s' = upd p ?f (?s\<lparr>allproc := remove1 p (allproc ?s), zombproc := p # zombproc ?s, noproc := 1,
                pidhash := (pidhash ?s)(?h := remove1 p (pidhash ?s ?h))\<rparr>)"
  have E: "ptab s' = (ptab ?s)(p := ?f (ptab ?s p))" "allproc s' = remove1 p (allproc ?s)" "zombproc s' = p # zombproc ?s" "freeproc s' = freeproc ?s"
    "pidhash s' = (pidhash ?s)(?h := remove1 p (pidhash ?s ?h))" "qs s' = qs ?s" "u_procp s' = u_procp ?s" "slpque s' = slpque ?s"
    "a_runin s' = a_runin ?s" "a_runout s' = a_runout ?s" "a_lbolt s' = a_lbolt ?s" "a_proc s' = a_proc ?s" by (simp_all add: s'_def)
  have al: "distinct (allproc ?s)" using T by (simp add: table_ok_def)
  have sa: "set (allproc s') = set (allproc ?s) - {p}" unfolding E using set_remove1_eq[OF al] by simp
  have pr: "procs s' = procs ?s" using sa pa by (auto simp: procs_def E(3))
  have run: "exit_leave p rv ru ?s = Inr s'" using pid hs by (simp add: exit_leave_def Let_def s'_def)
  have "sched_inv None (upd p ?f ?s)" by (rule step_aside[OF inv]) (use C in simp_all)
  moreover from this have "queues_ok s'" using sched_invD(1) by (subst queues_ok_cong[of _ "upd p ?f ?s"]) (simp_all add: E)
  ultimately have is': "sched_inv None s'" by (rule sched_inv_cong) (use sched_invD(2)[OF \<open>sched_inv None (upd p ?f ?s)\<close>] in \<open>auto simp: E\<close>)
  have "p < NPROC" using procs_small[OF T] \<open>p \<in> procs ?s\<close> by simp
  then have "table_ok s'" using T pz sa C unfolding table_ok_def E(1,3,4) by (auto simp: E(2) alive_def)
  moreover have "hash_ok s'"
  proof -
    have h: "distinct (pidhash ?s h)" "set (pidhash ?s h) = {q \<in> set (allproc ?s). q \<noteq> 0 \<and> PIDHASH (p_pid (ptab ?s q)) = h}" for h
      using H by (simp_all add: hash_ok_def)
    show ?thesis unfolding hash_ok_def sa unfolding E using h(1) by (auto simp: set_remove1_eq[OF h(1)] h(2))
  qed
  moreover have "parents_ok {p} s'"
  proof -
    have "p_pptr (ptab s' q) = p_pptr (ptab ?s q)" "p_ppid (ptab s' q) = p_ppid (ptab ?s q)" "p_pid (ptab s' q) = p_pid (ptab ?s q)" for q by (simp_all add: E)
    then show ?thesis using P unfolding parents_ok_def pr sa by auto
  qed
  moreover have "ids_ok (L\<lparr>psys := s'\<rparr>)"
  proof -
    have "p_ppid (ptab s' q) = p_ppid (ptab ?s q)" "p_pid (ptab s' q) = p_pid (ptab ?s q)" for q by (simp_all add: E)
    then show ?thesis using I p unfolding ids_ok_def Let_def by (auto simp: pr sa)
  qed
  ultimately have "family {p} (L\<lparr>psys := s'\<rparr>)" by (simp add: family_def)
  then show ?thesis using run is' pr sa by (intro exI[of _ s']) (simp add: E)
qed

lemma exit_notify_quiet:
  assumes "sched_inv r s"
  shows "quiet r s (exit_notify p s)"
proof -
  have w: "quiet r t (wakeup (a_runin t) t)" if "sched_inv r t" for t using wakeup_quiet[OF that] queues_okD(6)[OF sched_invD(1)[OF that]] by blast
  have w2: "quiet r t (andthen (wakeup (a_proc t x) t) (\<lambda>s. wakeup (a_runin s) s))" if "sched_inv r t" for t x
    by (rule quiet_andthen[OF wakeup_quiet[OF that queues_okD(9)[OF sched_invD(1)[OF that]]] w])
  show ?thesis unfolding exit_notify_def Let_def by (rule quiet_andthen[OF psignal_quiet[OF assms plain_signals(4)] w2])
qed

lemma exit_ok:
  assumes inv: "sched_inv (Some p) (psys L)" and fam: "family {} L" and p: "p \<noteq> 0" "p \<noteq> 1" and vf: "SVFORK \<notin> p_flag (ptab (psys L) p)"
  shows "\<exists>L'. exit_proc ev rv u_ru u_cru L = Inr L' \<and> sched_inv None (psys L') \<and> family {} L' \<and> procs (psys L') = procs (psys L)
    \<and> zombproc (psys L') = p # zombproc (psys L) \<and> p_xstat L' = (p_xstat L)(p := rv) \<and> p_ru L' = (p_ru L)(p := ruadd u_ru u_cru)
    \<and> (\<forall>q \<in> procs (psys L). p_pid (ptab (psys L') q) = p_pid (ptab (psys L) q)
         \<and> p_pptr (ptab (psys L') q) = (if p_pptr (ptab (psys L) q) = p then 1 else p_pptr (ptab (psys L) q)))
    \<and> p_pgrp (ptab (psys L') p) = s16 (ruadd u_ru u_cru ! 5) \<and> mpid L' = mpid L \<and> pidchecked L' = pidchecked L"
proof -
  note C = sched_invD(4)[OF inv refl]
  let ?ru = "ruadd u_ru u_cru"
  let ?f = "\<lambda>pr. pr\<lparr>p_flag := p_flag pr - {P_TRACED}, p_sigignore := {0..<32}, p_sig := {}\<rparr>"
  define s1 where "s1 = upd p ?f (psys L)"
  have i1: "sched_inv (Some p) s1" unfolding s1_def by (rule sched_inv_flags[OF inv]) simp_all
  have k1: "kin (psys L) s1" unfolding s1_def by (rule kin_upd) simp_all
  have f1: "family {} (L\<lparr>psys := s1\<rparr>)" by (rule family_kin[OF fam]) (simp_all add: k1)
  obtain s2 where s2: "exit_leave p rv ?ru s1 = Inr s2" "sched_inv None s2" "family {p} (L\<lparr>psys := s2\<rparr>)" "procs s2 = procs s1"
    "zombproc s2 = p # zombproc (psys L)" "p \<notin> set (allproc s2)" "u_procp s2 = u_procp s1"
    "\<forall>q. p_pid (ptab s2 q) = p_pid (ptab s1 q) \<and> p_pptr (ptab s2 q) = p_pptr (ptab s1 q)" "p_pgrp (ptab s2 p) = s16 (?ru ! 5)"
    using exit_leave_ok[OF _ f1 p, of rv ?ru] i1 by (auto simp: kinD(2)[OF k1])
  obtain s3 where s3: "orphan_loop p (allproc s2) s2 = Inr s3" "sched_inv None s3" "adopted p (set (allproc s2)) s2 s3" "u_procp s3 = u_procp s2"
    using orphan_loop_ok[OF s2(2) p(2)] by blast
  obtain s4 where s4: "orphan_loop p (zombproc s3) s3 = Inr s4" "sched_inv None s4" "adopted p (set (zombproc s3)) s3 s4"
    using orphan_loop_ok[OF s3(2) p(2)] by blast
  have z: "zombproc s3 = zombproc s2" using s3(3) by (simp add: adopted_def)
  have ad: "adopted p (procs s2) s2 s4" using adopted_trans[OF s3(3) s4(3) p(2)] by (simp add: procs_def z)
  obtain s5 where s5: "exit_notify p s4 = Inr s5" "sched_inv None s5" "kin s4 s5" using exit_notify_quiet[OF s4(2), of p] by (auto simp: quiet_def)
  have ad5: "adopted p (procs s2) s2 s5" using adopted_trans[OF ad adopted_empty[OF s5(3)] p(2)] by simp
  let ?L = "L\<lparr>psys := s5, p_xstat := (p_xstat L)(p := rv), p_ru := (p_ru L)(p := ?ru)\<rparr>"
  have pn: "p < NPROC" using procs_small[of s2 p] s2(3,5) by (simp add: family_def procs_def)
  have f5: "family {} ?L" by (rule adopted_family[OF s2(3), where X = "procs s2"]) (use ad5 s2(6) pn in simp_all)
  have "SVFORK \<notin> p_flag (ptab s1 p)" using vf by (simp add: s1_def)
  then have run: "exit_proc ev rv u_ru u_cru L = Inr ?L"
    using s2(1) s3(1) s4(1) s5(1) C unfolding exit_proc_def Let_def by (simp add: s1_def[symmetric])
  have pr: "procs s5 = procs (psys L)" using ad5 s2(4) pids_kin[OF k1] by (simp add: adopted_def procs_def)
  have "p_pid (ptab s5 q) = p_pid (ptab (psys L) q) \<and> p_pptr (ptab s5 q) = (if p_pptr (ptab (psys L) q) = p then 1 else p_pptr (ptab (psys L) q))"
    if "q \<in> procs (psys L)" for q
    using ad5 that s2(4,8) pids_kin[OF k1] kinD[OF k1] by (auto simp: adopted_def)
  then show ?thesis using run s5(2) f5 pr ad5 s2(5,9) by (intro exI[of _ ?L]) (simp add: adopted_def)
qed


section \<open>A process is waited for\<close>

lemma reap_fields:
  "ptab (psys (reap p L)) = (ptab (psys L))(p := (xstat_overlay 0 (ptab (psys L) p))\<lparr>p_stat := SNONE, p_pid := 0, p_ppid := 0, p_pptr := NPROC, p_sig := {},
     p_sigcatch := {}, p_sigignore := {}, p_sigmask := {}, p_pgrp := 0, p_flag := {}, p_wchan := 0\<rparr>)"
  "allproc (psys (reap p L)) = allproc (psys L)" "zombproc (psys (reap p L)) = remove1 p (zombproc (psys L))" "freeproc (psys (reap p L)) = p # freeproc (psys L)"
  "pidhash (psys (reap p L)) = pidhash (psys L)" "qs (psys (reap p L)) = qs (psys L)" "u_procp (psys (reap p L)) = u_procp (psys L)"
  "slpque (psys (reap p L)) = slpque (psys L)" "a_runin (psys (reap p L)) = a_runin (psys L)" "a_runout (psys (reap p L)) = a_runout (psys L)"
  "a_lbolt (psys (reap p L)) = a_lbolt (psys L)" "a_proc (psys (reap p L)) = a_proc (psys L)" "mpid (reap p L) = mpid L" "pidchecked (reap p L) = pidchecked L"
  by (simp_all add: reap_def Let_def)

lemma reap_ok:
  assumes inv: "sched_inv r (psys L)" and fam: "family {} L" and z: "p \<in> set (zombproc (psys L))"
  shows "sched_inv r (psys (reap p L))" "family {} (reap p L)" "procs (psys (reap p L)) = procs (psys L) - {p}"
proof -
  let ?s = "psys L" and ?s' = "psys (reap p L)"
  note E = reap_fields[of p L]
  have T: "table_ok ?s" and H: "hash_ok ?s" and P: "parents_ok {} ?s" and I: "ids_ok L" using fam by (simp_all add: family_def)
  have st: "p_stat (ptab ?s p) = SZOMB" using table_okD(2)[OF T] z by simp
  then have pa: "p \<notin> set (allproc ?s)" using table_okD(1)[OF T] by (simp add: alive_def)
  have q: "p \<notin> set (qs ?s)" "p_wchan (ptab ?s p) = 0" "r \<noteq> Some p"
    using queues_okD(2)[OF sched_invD(1)[OF inv], of p] queues_okD(5)[OF sched_invD(1)[OF inv], of p] sched_invD(4)[OF inv, of p] st by auto
  let ?f = "\<lambda>pr. (xstat_overlay 0 pr)\<lparr>p_stat := SNONE, p_pid := 0, p_ppid := 0, p_pptr := NPROC, p_sig := {}, p_sigcatch := {},
                 p_sigignore := {}, p_sigmask := {}, p_pgrp := 0, p_flag := {}, p_wchan := 0\<rparr>"
  have u: "sched_inv r (upd p ?f ?s)" by (rule sched_inv_aloof[OF inv q(1,2) _ q(3)]) (simp_all add: xstat_overlay_def byte_of_def)
  have "queues_ok ?s'" using sched_invD(1)[OF u] by (subst queues_ok_cong[of _ "upd p ?f ?s"]) (simp_all add: E)
  then show "sched_inv r ?s'" by (rule sched_inv_cong[OF u]) (use sched_invD(2)[OF u] in \<open>auto simp: E\<close>)
  have dz: "distinct (zombproc ?s)" "distinct (freeproc ?s)" using T by (simp_all add: table_ok_def)
  have sz: "set (zombproc ?s') = set (zombproc ?s) - {p}" unfolding E using set_remove1_eq[OF dz(1)] by simp
  show pr: "procs ?s' = procs ?s - {p}" using sz pa by (auto simp: procs_def E(2))
  have pn: "p < NPROC" "p \<notin> set (freeproc ?s)" using procs_small[OF T, of p] z st table_okD(3)[OF T] by (simp_all add: procs_def)
  have "0 \<in> set (allproc ?s)" "1 \<in> set (allproc ?s)" using I by (simp_all add: ids_ok_def Let_def)
  then have p01: "p \<noteq> 0" "p \<noteq> 1" using pa by metis+
  have nop: "p_pptr (ptab ?s x) \<noteq> p" if "x \<in> procs ?s" "x \<noteq> 0" for x using P pa that by (auto simp: parents_ok_def)
  have f: "p_pid (ptab ?s' x) = p_pid (ptab ?s x)" "p_ppid (ptab ?s' x) = p_ppid (ptab ?s x)" "p_pptr (ptab ?s' x) = p_pptr (ptab ?s x)" if "x \<noteq> p" for x
    using that by (simp_all add: E)
  have "table_ok ?s'" using T st pn sz dz unfolding table_ok_def E(1,2,4) by (auto simp: E(3) alive_def)
  moreover have "hash_ok ?s'" using H pa unfolding hash_ok_def E by auto
  moreover have "parents_ok {} ?s'" using P nop p01 f unfolding parents_ok_def pr E(2) by fastforce
  moreover have "ids_ok (reap p L)" using I p01 f unfolding ids_ok_def Let_def pr E(2,13,14) by auto
  ultimately show "family {} (reap p L)" by (simp add: family_def)
qed

lemma wait1_ok:
  assumes inv: "sched_inv r (psys L)" and fam: "family {} L" and w: "wait1 st ru nh un arg cru L = (ans, cru', L')"
  shows "sched_inv r (psys L') \<and> family {} L' \<and> (pids_ok L \<longrightarrow> pids_ok L')"
proof -
  let ?s = "psys L"
  have flag: "sched_inv r (upd p (p_flag_update (insert P_WAITED)) ?s)" "kin ?s (upd p (p_flag_update (insert P_WAITED)) ?s)" for p
    by (rule sched_inv_flags[OF inv]) (simp_all add: kin_upd)
  have keep: "sched_inv r (psys L') \<and> family {} L' \<and> (pids_ok L \<longrightarrow> pids_ok L')"
    if "L' = L\<lparr>psys := upd p (p_flag_update (insert P_WAITED)) ?s\<rparr> \<or> L' = L" for p
    using that inv fam flag[of p] family_kin[OF fam, of L'] pids_ok_kin[of L L'] by auto
  have gone: "sched_inv r (psys L') \<and> family {} L' \<and> (pids_ok L \<longrightarrow> pids_ok L')" if L': "L' = reap p L" and z: "p \<in> set (zombproc ?s)" for p
  proof -
    note R = reap_ok[OF inv fam z]
    have pid: "p_pid (ptab (psys L') x) = p_pid (ptab ?s x)" if "x \<in> procs (psys L')" for x using that R(3) by (simp add: L' reap_fields)
    have "pids (psys L') \<subseteq> pids ?s" using pid R(3) L' by (auto simp: pids_def)
    then have "pids_ok L \<longrightarrow> pids_ok L'" using pid R(3) unfolding pids_ok_def L' reap_fields(13,14) by (auto simp: inj_on_def vacant_def)
    then show ?thesis using R L' by simp
  qed
  show ?thesis using w keep gone unfolding wait1_def Let_def by (auto split: option.splits if_splits simp: find_Some_iff)
qed

end
