(* ===== verification/Priority.thy ===== *)
theory Priority
  imports Sched_Run
begin

text \<open>
  Nice values: \<open>getpriority\<close>, \<open>donice\<close> and \<open>setpriority\<close> of \<open>sys/kern/kern_resource.c\<close>, what
  \<open>setpri\<close> and \<open>updatepri\<close> make of them, and \<open>schedcpu\<close> of \<open>sys/kern/kern_synch.c\<close>, which recomputes the
  priorities once a second.

  The caller is given by its effective and its real user id; \<open>suser\<close> is the test of the first for 0.  \<open>p_nice\<close> is a
  plain \<open>char\<close>, which the ARM compilers take as unsigned, so a value stored in it is reduced modulo 256.
\<close>

section \<open>Model\<close>

abbreviation PRIO_MIN :: int where "PRIO_MIN \<equiv> -20"
abbreviation PRIO_MAX :: int where "PRIO_MAX \<equiv> 20"
abbreviation no_access :: int where "no_access \<equiv> 13"  \<comment> \<open>\<open>EACCES\<close>\<close>

datatype prio_which = PRIO_PROCESS | PRIO_PGRP | PRIO_USER | PRIO_OTHER

text \<open>The loops over all processes, with the test for one of them.\<close>

definition chosen :: "prio_which \<Rightarrow> int \<Rightarrow> sys \<Rightarrow> nat \<Rightarrow> bool" where
  "chosen which who s p = (if which = PRIO_PGRP then p_pgrp (ptab s p) = who else p_uid (ptab s p) = nat (who mod 4294967296))"

definition lowest :: "prio_which \<Rightarrow> int \<Rightarrow> sys \<Rightarrow> int" where
  "lowest which who s =
     fold (\<lambda>p low. if chosen which who s p \<and> int (p_nice (ptab s p)) < low then int (p_nice (ptab s p)) else low) (allproc s) (PRIO_MAX + 1)"

text \<open>The result is the error and \<open>u_rval\<close>.\<close>

definition getpriority :: "nat \<Rightarrow> prio_which \<Rightarrow> int \<Rightarrow> sys \<Rightarrow> int \<times> int" where
  "getpriority uid which who s =
     (let answer = (\<lambda>low. if low = PRIO_MAX + 1 then (ESRCH, 0) else (0, low)) in
      case which of
        PRIO_PROCESS \<Rightarrow>
          (case (if who = 0 then Some (u_procp s) else pfind who s) of
             None \<Rightarrow> answer (PRIO_MAX + 1)
           | Some p \<Rightarrow> answer (int (p_nice (ptab s p))))
      | PRIO_PGRP \<Rightarrow> answer (lowest which (if who = 0 then p_pgrp (ptab s (u_procp s)) else who) s)
      | PRIO_USER \<Rightarrow> answer (lowest which (if who = 0 then int uid else who) s)
      | PRIO_OTHER \<Rightarrow> (EINVAL, 0))"

text \<open>The error is the one \<open>donice\<close> sets, or the one that was there before.\<close>

definition donice :: "nat \<Rightarrow> nat \<Rightarrow> int \<Rightarrow> nat \<Rightarrow> int \<times> sys \<Rightarrow> int \<times> sys" where
  "donice uid ruid n p = (\<lambda>(error, s).
     if uid \<noteq> 0 \<and> ruid \<noteq> 0 \<and> uid \<noteq> p_uid (ptab s p) \<and> ruid \<noteq> p_uid (ptab s p) then (EPERM, s)
     else
       let n = (if n > PRIO_MAX then PRIO_MAX else n);
           n = (if n < PRIO_MIN then PRIO_MIN else n)
       in if n < int (p_nice (ptab s p)) \<and> uid \<noteq> 0 then (no_access, s)
          else (error, upd p (p_nice_update (\<lambda>_. nat (n mod 256))) s))"

definition setpriority :: "nat \<Rightarrow> nat \<Rightarrow> prio_which \<Rightarrow> int \<Rightarrow> int \<Rightarrow> sys \<Rightarrow> int \<times> sys" where
  "setpriority uid ruid which who prio s =
     (let all = (\<lambda>who. let ps = filter (chosen which who s) (allproc s)
                       in if ps = [] then (ESRCH, s) else fold (donice uid ruid prio) ps (0, s))
      in case which of
           PRIO_PROCESS \<Rightarrow>
             (case (if who = 0 then Some (u_procp s) else pfind who s) of
                None \<Rightarrow> (ESRCH, s)
              | Some p \<Rightarrow> donice uid ruid prio p (0, s))
         | PRIO_PGRP \<Rightarrow> all (if who = 0 then p_pgrp (ptab s (u_procp s)) else who)
         | PRIO_USER \<Rightarrow> all (if who = 0 then int uid else who)
         | PRIO_OTHER \<Rightarrow> (EINVAL, s))"

text \<open>
  One turn of the loop of \<open>schedcpu\<close>: the age, the alarm clock, the usage and the priority of a process.  \<open>SCHMAG\<close> is the
  text \<open>8/10\<close> and a right operand here.  \<open>vmmeter\<close> keeps statistics and is left out.
\<close>

definition schedcpu_timer :: "nat \<Rightarrow> sys \<Rightarrow> sys res" where
  "schedcpu_timer p s =
     (if p_rt_value (ptab s p) \<noteq> 0 then
        let s1 = upd p (\<lambda>pr. pr\<lparr>p_rt_value := p_rt_value pr - 1\<rparr>) s
        in if p_rt_value (ptab s1 p) = 0
           then andthen (psignal p SIGALRM s1) (\<lambda>s. Inr (upd p (\<lambda>pr. pr\<lparr>p_rt_value := p_rt_interval pr\<rparr>) s))
           else Inr s1
      else Inr s)"

definition schedcpu_decay :: "nat \<Rightarrow> sys \<Rightarrow> sys" where
  "schedcpu_decay p s =
     (let s1 = upd p (\<lambda>pr. if (p_stat pr = SSLEEP \<or> p_stat pr = SSTOP) \<and> p_slptime pr \<noteq> 127
                            then pr\<lparr>p_slptime := (p_slptime pr + 1) mod 256\<rparr> else pr) s
      in if p_slptime (ptab s1 p) > 1 then s1
         else
           let a = p_cpu (ptab s1 p) mod 256 * 8 div 10 + p_nice (ptab s1 p);
               a = (if a > 255 then 255 else a);
               s2 = upd p (\<lambda>pr. pr\<lparr>p_cpu := a\<rparr>) s1
           in if p_pri (ptab s2 p) \<ge> PUSER then snd (setpri p s2) else s2)"

definition schedcpu_proc :: "nat \<Rightarrow> sys \<Rightarrow> sys res" where
  "schedcpu_proc p s =
     andthen (schedcpu_timer p (upd p (\<lambda>pr. if p_time pr \<noteq> 127 then pr\<lparr>p_time := (p_time pr + 1) mod 256\<rparr> else pr) s))
       (\<lambda>s. Inr (schedcpu_decay p s))"

fun schedcpu_loop :: "nat list \<Rightarrow> sys \<Rightarrow> sys res" where
  "schedcpu_loop [] s = Inr s"
| "schedcpu_loop (p # ps) s = andthen (schedcpu_proc p s) (schedcpu_loop ps)"

definition fn_schedcpu :: nat where
  "fn_schedcpu = 2"

definition schedcpu :: "int \<Rightarrow> sys \<Rightarrow> sys res" where
  "schedcpu hz s =
     andthen (wakeup (a_lbolt s) s) (\<lambda>s.
     andthen (schedcpu_loop (allproc s) s) (\<lambda>s.
     andthen (if runin s \<noteq> 0 then wakeup (a_runin s) (s\<lparr>runin := 0\<rparr>) else Inr s) (\<lambda>s.
       let s1 = s\<lparr>runrun := runrun s + 1\<rparr>
       in andthen (timeout (calls s1) fn_schedcpu 0 hz) (\<lambda>q. Inr (s1\<lparr>calls := q\<rparr>)))))"

section \<open>What is stored and what comes of it\<close>

lemma donice_root: "donice 0 ruid n p (e, s) = (e, upd p (p_nice_update (\<lambda>_. nat (max PRIO_MIN (min PRIO_MAX n) mod 256))) s)"
  by (simp add: donice_def Let_def min_def max_def)

text \<open>The nice value of a process after \<open>donice\<close> by the super-user on a list of processes.\<close>

lemma donice_all: "fold (donice 0 ruid n) ps (e, s) = (e, fst_s) \<Longrightarrow> p_nice (ptab fst_s q)
    = (if q \<in> set ps then nat (max PRIO_MIN (min PRIO_MAX n) mod 256) else p_nice (ptab s q))
   \<and> p_cpu (ptab fst_s q) = p_cpu (ptab s q)"
proof (induction ps arbitrary: s)
  case (Cons p ps)
  then show ?case by (auto simp: donice_root)
qed simp

lemma donice_all_error: "fst (fold (donice 0 ruid n) ps (e, s)) = e"
  by (induction ps arbitrary: s) (simp_all add: donice_root)

lemma stored_nice:
  "nat (max PRIO_MIN (min PRIO_MAX n) mod 256) = (if n < 0 then nat (256 + max PRIO_MIN n) else nat (min PRIO_MAX n))"
proof (cases "n < 0")
  case True
  define k where "k = max PRIO_MIN n"
  have k: "-20 \<le> k" "k < 0" "max PRIO_MIN (min PRIO_MAX n) = k" using True by (auto simp: k_def)
  have "k mod 256 = (k + 256) mod 256" by simp
  also have "\<dots> = k + 256" using k(1,2) by (intro mod_pos_pos_trivial) auto
  finally show ?thesis using True k(3) by (simp add: k_def add.commute)
next
  case False
  then show ?thesis by simp
qed

lemma setpri_nice:
  "fst (setpri p s) = min 127 (p_cpu (ptab s p) mod 256 div 16 + 50 + p_nice (ptab s p))"
  by (simp add: setpri_def Let_def min_def)

text \<open>Which processes a call of \<open>setpriority\<close> is about.\<close>

definition targets :: "nat \<Rightarrow> prio_which \<Rightarrow> int \<Rightarrow> sys \<Rightarrow> nat set" where
  "targets uid which who s =
     (case which of
        PRIO_PROCESS \<Rightarrow> set_option (if who = 0 then Some (u_procp s) else pfind who s)
      | PRIO_PGRP \<Rightarrow> {p \<in> set (allproc s). p_pgrp (ptab s p) = (if who = 0 then p_pgrp (ptab s (u_procp s)) else who)}
      | PRIO_USER \<Rightarrow> {p \<in> set (allproc s). p_uid (ptab s p) = nat ((if who = 0 then int uid else who) mod 4294967296)}
      | PRIO_OTHER \<Rightarrow> {})"

lemma setpriority_root:
  assumes "targets 0 which who s \<noteq> {}"
  shows "\<exists>s'. setpriority 0 ruid which who prio s = (0, s')
    \<and> (\<forall>p. p_nice (ptab s' p) = (if p \<in> targets 0 which who s
              then if prio < 0 then nat (256 + max PRIO_MIN prio) else nat (min PRIO_MAX prio) else p_nice (ptab s p))
         \<and> p_cpu (ptab s' p) = p_cpu (ptab s p))"
proof -
  have many: ?thesis if "setpriority 0 ruid which who prio s = fold (donice 0 ruid prio) ps (0, s)" "set ps = targets 0 which who s" for ps
  proof -
    obtain e s' where r: "fold (donice 0 ruid prio) ps (0, s) = (e, s')" by force
    then have "e = 0" using donice_all_error[of ruid prio ps 0 s] by simp
    then show ?thesis using that r donice_all[of ruid prio ps 0 s s'] unfolding stored_nice by auto
  qed
  show ?thesis
  proof (cases which)
    case PRIO_PROCESS
    obtain p where "(if who = 0 then Some (u_procp s) else pfind who s) = Some p"
      using assms PRIO_PROCESS by (auto simp: targets_def split: if_splits)
    then show ?thesis by (intro many[of "[p]"]) (simp_all add: setpriority_def targets_def PRIO_PROCESS)
  next
    case PRIO_PGRP
    let ?w = "if who = 0 then p_pgrp (ptab s (u_procp s)) else who"
    have "set (filter (chosen which ?w s) (allproc s)) = targets 0 which who s" by (auto simp: chosen_def targets_def PRIO_PGRP)
    moreover from this have "filter (chosen which ?w s) (allproc s) \<noteq> []" using assms by (metis empty_set)
    ultimately show ?thesis by (intro many[of "filter (chosen which ?w s) (allproc s)"]) (simp_all add: setpriority_def Let_def PRIO_PGRP)
  next
    case PRIO_USER
    let ?w = "if who = 0 then int 0 else who"
    have "set (filter (chosen which ?w s) (allproc s)) = targets 0 which who s" by (auto simp: chosen_def targets_def PRIO_USER)
    moreover from this have "filter (chosen which ?w s) (allproc s) \<noteq> []" using assms by (metis empty_set)
    ultimately show ?thesis by (intro many[of "filter (chosen which ?w s) (allproc s)"]) (simp_all add: setpriority_def Let_def PRIO_USER)
  qed (use assms in \<open>simp add: targets_def\<close>)
qed

text \<open>\<open>updatepri\<close> clears the processor usage of every process that slept more than two seconds.\<close>

lemma updatepri_forgets:
  assumes "2 < p_slptime (ptab s p)" and "p_slptime (ptab s p) < 256"
  shows "p_cpu (ptab (updatepri p s) p) = 0"
proof -
  have "(p_slptime (ptab s p) + 255) mod 256 = p_slptime (ptab s p) - 1"
    using assms by (subst mod_if) (auto simp: mod_if)
  moreover have "(p_slptime (ptab s p) - 1 + 255) mod 256 \<noteq> 0" using assms by (subst mod_if) (auto simp: mod_if)
  ultimately show ?thesis by (simp add: updatepri_def updatepri_loop_values setpri_state Let_def)
qed

section \<open>Properties\<close>

text \<open>
  C40. Two flaws of the priority code.  When the super-user calls \<open>setpriority\<close>, every process it names gets the nice value asked for
  if that is not negative, and \<open>setpri\<close> then computes a priority of at most 85; but any negative value, which should give a
  better priority, is stored as 236 to 255 in an unsigned \<open>char\<close>, and \<open>setpri\<close> gives every such process the worst priority, 127.  And
  \<open>updatepri\<close>, whose \<open>SCHMAG * a\<close> reads \<open>(8/10) * a\<close>, clears the processor usage of every process that slept more than two
  seconds instead of decaying it.
\<close>

theorem priority_flaws:
  assumes "targets 0 which who s \<noteq> {}"
  shows "\<exists>s'. setpriority 0 ruid which who prio s = (0, s')
    \<and> (\<forall>p \<in> targets 0 which who s.
         if prio < 0 then p_nice (ptab s' p) = nat (256 + max PRIO_MIN prio) \<and> fst (setpri p s') = 127
         else p_nice (ptab s' p) = nat (min PRIO_MAX prio) \<and> fst (setpri p s') \<le> 85)
    \<and> (\<forall>p. 2 < p_slptime (ptab s p) \<and> p_slptime (ptab s p) < 256 \<longrightarrow> p_cpu (ptab (updatepri p s) p) = 0)"
proof -
  obtain s' where s': "setpriority 0 ruid which who prio s = (0, s')"
    "\<And>p. p \<in> targets 0 which who s \<Longrightarrow> p_nice (ptab s' p) = (if prio < 0 then nat (256 + max PRIO_MIN prio) else nat (min PRIO_MAX prio))"
    using setpriority_root[OF assms, of ruid prio] by auto
  have cpu: "p_cpu (ptab s' p) mod 256 div 16 \<le> 15" for p by (simp add: div_le_mono[of _ 255 16, simplified] less_Suc_eq_le[symmetric])
  have "if prio < 0 then p_nice (ptab s' p) = nat (256 + max PRIO_MIN prio) \<and> fst (setpri p s') = 127
      else p_nice (ptab s' p) = nat (min PRIO_MAX prio) \<and> fst (setpri p s') \<le> 85" if "p \<in> targets 0 which who s" for p
  proof (cases "prio < 0")
    case True
    have "(77 :: nat) \<le> nat (256 + max PRIO_MIN prio)" by simp
    then show ?thesis using True s'(2)[OF that] by (simp add: setpri_nice min_def)
  next
    case False
    have "nat (min PRIO_MAX prio) \<le> 20" by simp
    then show ?thesis using False s'(2)[OF that] cpu[of p] by (simp add: setpri_nice)
  qed
  then show ?thesis using s'(1) updatepri_forgets by blast
qed

text \<open>The super-user asks for the nice value -5 for process 2 of the example; process 1 has slept three seconds.\<close>

definition drowsy_sys :: sys where
  "drowsy_sys = upd 1 (\<lambda>pr. pr\<lparr>p_cpu := 200, p_slptime := 3\<rparr>) (demo_sys\<lparr>u_procp := 2\<rparr>)"

theorem priority_flaws_witness:
  "\<exists>s'. setpriority 0 0 PRIO_PROCESS 0 (-5) drowsy_sys = (0, s') \<and> p_nice (ptab s' 2) = 251 \<and> fst (setpri 2 s') = 127
     \<and> p_cpu (ptab (updatepri 1 drowsy_sys) 1) = 0"
proof -
  have t: "targets 0 PRIO_PROCESS 0 drowsy_sys = {2}" by (simp add: targets_def drowsy_sys_def)
  have "p_slptime (ptab drowsy_sys 1) = 3" by (simp add: drowsy_sys_def)
  then show ?thesis using priority_flaws[of PRIO_PROCESS 0 drowsy_sys 0 "-5"] unfolding t by auto
qed

end
