(* ===== verification/Proc_Run.thy ===== *)
theory Proc_Run
  imports Proc_Family Priority
begin

text \<open>
  Processes from boot on: the steps of the scheduler, the recomputation of priorities, signals, changes of nice values,
  \<open>fork\<close>, \<open>exit\<close> and \<open>wait\<close> in any order, and what holds in every state they lead to.
\<close>

section \<open>The steps\<close>

text \<open>
  A state is the process that runs, if any, and the process table.  With \<open>strict\<close> a process forks only while every process
  that has the number below its own id as its group is out of the reach of the search for a new id (\<open>clear_search\<close>); \<open>newproc\<close>
  finds a fresh id only then.  Whether the swap space holds the image of a child may change at any time.
\<close>

inductive life_step :: "bool \<Rightarrow> nat option \<times> life \<Rightarrow> nat option \<times> life \<Rightarrow> bool" for strict where
  Sched: "sched_step (r, psys L) (r', s') \<Longrightarrow> life_step strict (r, L) (r', L\<lparr>psys := s'\<rparr>)"
| Signal: "SA_STOP \<notin> sigprop sig \<Longrightarrow> psignal p sig (psys L) = Inr s' \<Longrightarrow> life_step strict (r, L) (r, L\<lparr>psys := s'\<rparr>)"
| Clock: "schedcpu hz (psys L) = Inr s' \<Longrightarrow> life_step strict (r, L) (r, L\<lparr>psys := s'\<rparr>)"
| Nice: "setpriority uid ruid which who prio (psys L) = (err, s') \<Longrightarrow> life_step strict (r, L) (r, L\<lparr>psys := s'\<rparr>)"
| Setpgrp: "life_step strict (r, L) (r, L\<lparr>psys := upd p (p_pgrp_update (\<lambda>_. g)) (psys L)\<rparr>)"
| Fork: "(strict \<longrightarrow> clear_search L) \<Longrightarrow> fork1 uid L = Inr (x, L') \<Longrightarrow> life_step strict (Some p, L) (Some p, L')"
| Exit: "p \<noteq> 0 \<Longrightarrow> SVFORK \<notin> p_flag (ptab (psys L) p) \<Longrightarrow> exit_proc ev rv u_ru u_cru L = Inr L' \<Longrightarrow> life_step strict (Some p, L) (None, L')"
| Swap_Space: "life_step strict (r, L) (r, L\<lparr>swap_fault := f\<rparr>)"
| Wait: "wait1 st ru nh un arg cru L = (ans, cru', L') \<Longrightarrow> life_step strict (Some p, L) (Some p, L')"

definition life_inv :: "bool \<Rightarrow> nat option \<times> life \<Rightarrow> bool" where
  "life_inv strict x \<longleftrightarrow> sched_inv (fst x) (psys (snd x)) \<and> family {} (snd x) \<and> (strict \<longrightarrow> pids_ok (snd x))"

lemma life_inv_kin:
  assumes "life_inv strict (r, L)" and "sched_inv r' s'" and "kin (psys L) s'"
  shows "life_inv strict (r', L\<lparr>psys := s'\<rparr>)"
  using assms family_kin[of "{}" L "L\<lparr>psys := s'\<rparr>"] pids_ok_kin[of L "L\<lparr>psys := s'\<rparr>"] by (simp add: life_inv_def)

text \<open>Nothing of the invariant depends on the groups.\<close>

lemma setpgrp_inv:
  assumes "life_inv strict (r, L)"
  shows "life_inv strict (r, L\<lparr>psys := upd p (p_pgrp_update (\<lambda>_. g)) (psys L)\<rparr>)"
proof -
  let ?s = "psys L" and ?s' = "upd p (p_pgrp_update (\<lambda>_. g)) (psys L)"
  have i: "sched_inv r ?s" and f: "family {} L" and u: "strict \<longrightarrow> pids_ok L" using assms by (simp_all add: life_inv_def)
  have i': "sched_inv r ?s'" by (rule sched_inv_flags[OF i]) simp_all
  have e: "p_pid (ptab ?s' q) = p_pid (ptab ?s q)" "p_ppid (ptab ?s' q) = p_ppid (ptab ?s q)" "p_pptr (ptab ?s' q) = p_pptr (ptab ?s q)"
    "p_stat (ptab ?s' q) = p_stat (ptab ?s q)" "procs ?s' = procs ?s" "allproc ?s' = allproc ?s" "zombproc ?s' = zombproc ?s"
    "freeproc ?s' = freeproc ?s" "pidhash ?s' = pidhash ?s" for q by (simp_all add: procs_def)
  define L' where "L' = L\<lparr>psys := ?s'\<rparr>"
  have l: "psys L' = ?s'" "mpid L' = mpid L" "pidchecked L' = pidchecked L" by (simp_all add: L'_def)
  have "family {} L'" using f unfolding family_def table_ok_def hash_ok_def parents_ok_def ids_ok_def Let_def l e .
  moreover have "strict \<longrightarrow> pids_ok L'" using u unfolding pids_ok_def pids_def l e .
  ultimately show ?thesis using i' unfolding L'_def[symmetric] by (simp add: life_inv_def l)
qed

lemma fork1_ok:
  assumes inv: "life_inv strict (Some p, L)" and st: "strict \<longrightarrow> clear_search L"
  shows "(\<exists>x L'. fork1 uid L = Inr (x, L') \<and> life_inv strict (Some p, L')) \<or> (\<exists>msg. swap_fault L = Some msg \<and> fork1 uid L = Inl (Panic msg))"
proof (cases "freeproc (psys L) = [] \<or> uid \<noteq> 0 \<and> (tl (freeproc (psys L)) = [] \<or> owned uid (psys L) > MAXUPRC)")
  case True
  then show ?thesis using inv by (auto simp: fork1_def Let_def)
next
  case False
  then obtain c fs where fr: "freeproc (psys L) = c # fs" by (cases "freeproc (psys L)") auto
  have i: "sched_inv (Some p) (psys L)" "family {} L" using inv by (simp_all add: life_inv_def)
  show ?thesis
  proof (cases "swap_fault L")
    case None
    from newproc_ok[OF i fr None] obtain L' where "newproc L = Inr (c, L')" "life_inv strict (Some p, L')"
      using inv st by (auto simp: life_inv_def)
    then show ?thesis using False by (auto simp: fork1_def Let_def)
  next
    case (Some msg)
    have "newproc L = Inl (Panic msg)" using newproc_panics[OF _ fr Some] i(2) by (simp add: family_def)
    then show ?thesis using False Some by (auto simp: fork1_def Let_def)
  qed
qed

lemma init_never_exits:
  assumes "life_inv strict (Some 1, L)" and "SVFORK \<notin> p_flag (ptab (psys L) 1)"
  shows "exit_proc ev rv u_ru u_cru L = Inl (Panic ''init died'')"
proof -
  have "u_procp (psys L) = 1" "p_pid (ptab (psys L) 1) = 1"
    using assms(1) sched_invD(4)[of "Some 1" "psys L" 1] by (auto simp: life_inv_def family_def ids_ok_def Let_def)
  then show ?thesis using assms(2) by (simp add: exit_proc_def exit_leave_def Let_def)
qed

lemma exit_inv:
  assumes inv: "life_inv strict (Some p, L)" and "p \<noteq> 0" and "SVFORK \<notin> p_flag (ptab (psys L) p)" and ex: "exit_proc ev rv u_ru u_cru L = Inr L'"
  shows "life_inv strict (None, L')"
proof -
  have "p \<noteq> 1" using init_never_exits[of strict L] inv assms(3) ex by auto
  then obtain L'' where L: "exit_proc ev rv u_ru u_cru L = Inr L''" "sched_inv None (psys L'')" "family {} L''" "procs (psys L'') = procs (psys L)"
    "\<forall>q \<in> procs (psys L). p_pid (ptab (psys L'') q) = p_pid (ptab (psys L) q)" "mpid L'' = mpid L" "pidchecked L'' = pidchecked L"
    using exit_ok[of p L ev rv u_ru u_cru] inv assms(2,3) by (auto simp: life_inv_def)
  have "pids_ok L \<Longrightarrow> pids_ok L''" using L(4-7) by (simp add: pids_ok_def pids_def inj_on_def)
  then show ?thesis using L ex inv by (simp add: life_inv_def)
qed

text \<open>Priorities, usage and timers are nothing to the queues.\<close>

lemma calm_quiet:
  assumes inv: "sched_inv r s" and f: "\<And>pr. p_stat (f pr) = p_stat pr" "\<And>pr. p_flag (f pr) = p_flag pr" "\<And>pr. p_wchan (f pr) = p_wchan pr"
    "\<And>pr. p_pri (f pr) = p_pri pr" "\<And>pr. p_pid (f pr) = p_pid pr" "\<And>pr. p_ppid (f pr) = p_ppid pr" "\<And>pr. p_pptr (f pr) = p_pptr pr"
    "\<And>pr. p_pgrp (f pr) = p_pgrp pr"
  shows "quiet r s (Inr (upd p f s))"
proof (rule quiet_Inr)
  show "sched_inv r (upd p f s)" by (rule sched_inv_flags[OF inv]) (simp_all add: f)
  show "kin s (upd p f s)" by (simp add: kin_def f)
qed simp

lemma setpri_quiet:
  assumes "sched_inv r s"
  shows "quiet r s (Inr (snd (setpri p s)))"
proof (rule quiet_Inr)
  have le: "fst (setpri p s) \<le> 127" by (simp add: setpri_nice)
  show "sched_inv r (snd (setpri p s))"
    unfolding setpri_state
    by (rule sched_inv_cong[OF assms]) (use assms le sched_invD(1,2)[OF assms] in \<open>auto simp: queues_ok_def\<close>)
  show "kin s (snd (setpri p s))" "u_procp (snd (setpri p s)) = u_procp s" unfolding setpri_state by (simp_all add: kin_def)
qed

lemma quiet_step: "quiet r a (Inr b) \<Longrightarrow> (sched_inv r b \<Longrightarrow> quiet r b x) \<Longrightarrow> quiet r a x"
  using quiet_from[of r b x a] by (simp add: quiet_def)

lemma schedcpu_timer_quiet:
  assumes "sched_inv r s"
  shows "quiet r s (schedcpu_timer p s)"
proof -
  have calm: "quiet r t (Inr (upd p (\<lambda>pr. pr\<lparr>p_rt_value := g pr\<rparr>) t))" if "sched_inv r t" for t g
    using that by (rule calm_quiet) simp_all
  have alarm: "quiet r t (andthen (psignal p SIGALRM t) (\<lambda>s. Inr (upd p (\<lambda>pr. pr\<lparr>p_rt_value := p_rt_interval pr\<rparr>) s)))" if "sched_inv r t" for t
    by (rule quiet_andthen[OF psignal_quiet[OF that]]) (simp_all add: sigprop_def sigprop_table_def calm)
  define s1 where "s1 = upd p (\<lambda>pr. pr\<lparr>p_rt_value := p_rt_value pr - 1\<rparr>) s"
  have q: "quiet r s (Inr s1)" unfolding s1_def by (rule calm[OF assms])
  have r0: "quiet r s (Inr s)" using assms by (simp add: quiet_Inr)
  show ?thesis unfolding schedcpu_timer_def Let_def s1_def[symmetric]
    using quiet_step[OF q alarm] q r0 by simp
qed

lemma schedcpu_decay_quiet:
  assumes "sched_inv r s"
  shows "quiet r s (Inr (schedcpu_decay p s))"
proof -
  define s1 where "s1 = upd p (\<lambda>pr. if (p_stat pr = SSLEEP \<or> p_stat pr = SSTOP) \<and> p_slptime pr \<noteq> 127
      then pr\<lparr>p_slptime := (p_slptime pr + 1) mod 256\<rparr> else pr) s"
  define a where "a = p_cpu (ptab s1 p) mod 256 * 8 div 10 + p_nice (ptab s1 p)"
  define s2 where "s2 = upd p (\<lambda>pr. pr\<lparr>p_cpu := if a > 255 then 255 else a\<rparr>) s1"
  have q1: "quiet r s (Inr s1)" unfolding s1_def using assms by (rule calm_quiet) simp_all
  then have i1: "sched_inv r s1" by (simp add: quiet_def)
  have q2: "quiet r s1 (Inr s2)" unfolding s2_def using i1 by (rule calm_quiet) simp_all
  then have "quiet r s1 (Inr (snd (setpri p s2)))" by (rule quiet_step) (rule setpri_quiet)
  moreover have "schedcpu_decay p s = (if p_slptime (ptab s1 p) > 1 then s1 else if p_pri (ptab s2 p) \<ge> PUSER then snd (setpri p s2) else s2)"
    unfolding schedcpu_decay_def Let_def s1_def[symmetric] a_def[symmetric] s2_def[symmetric] ..
  ultimately show ?thesis using q1 quiet_step[OF q1] q2 by simp
qed

lemma schedcpu_proc_quiet:
  assumes "sched_inv r s"
  shows "quiet r s (schedcpu_proc p s)"
proof -
  have "quiet r s (Inr (upd p (\<lambda>pr. if p_time pr \<noteq> 127 then pr\<lparr>p_time := (p_time pr + 1) mod 256\<rparr> else pr) s))"
    using assms by (rule calm_quiet) simp_all
  then show ?thesis unfolding schedcpu_proc_def
    by (rule quiet_step) (intro quiet_andthen schedcpu_timer_quiet schedcpu_decay_quiet)
qed

lemma schedcpu_loop_quiet: "sched_inv r s \<Longrightarrow> quiet r s (schedcpu_loop ps s)"
proof (induction ps arbitrary: s)
  case (Cons p ps)
  then show ?case by (auto intro!: quiet_andthen schedcpu_proc_quiet)
qed (simp add: quiet_Inr)

lemma sched_inv_same:
  assumes "ptab s' = ptab s" "slpque s' = slpque s" "qs s' = qs s" "u_procp s' = u_procp s" "a_lbolt s' = a_lbolt s"
    "a_runin s' = a_runin s" "a_runout s' = a_runout s" "a_proc s' = a_proc s"
  shows "sched_inv r s' = sched_inv r s"
  by (simp only: sched_inv_def queues_ok_def assms)

lemma sched_inv_counters: "sched_inv r (s\<lparr>runin := x\<rparr>) = sched_inv r s" "sched_inv r (s\<lparr>runrun := y\<rparr>) = sched_inv r s"
  "sched_inv r (s\<lparr>calls := z\<rparr>) = sched_inv r s"
  by (rule sched_inv_same; simp)+

lemma schedcpu_keeps:
  assumes inv: "sched_inv r s" and run: "schedcpu hz s = Inr s'"
  shows "sched_inv r s'" and "kin s s'"
proof -
  have w: "quiet r t (wakeup (a_lbolt t) t)" "quiet r t (wakeup (a_runin t) (t\<lparr>runin := 0\<rparr>))" if "sched_inv r t" for t
  proof -
    note nz = queues_okD(6,8)[OF sched_invD(1)[OF that]]
    show "quiet r t (wakeup (a_lbolt t) t)" using that nz by (intro wakeup_quiet)
    have "quiet r (t\<lparr>runin := 0\<rparr>) (wakeup (a_runin t) (t\<lparr>runin := 0\<rparr>))" using that nz by (intro wakeup_quiet) (simp_all add: sched_inv_counters)
    then show "quiet r t (wakeup (a_runin t) (t\<lparr>runin := 0\<rparr>))" by (rule quiet_from) (simp_all add: kin_def)
  qed
  obtain s1 where s1: "wakeup (a_lbolt s) s = Inr s1" "sched_inv r s1" "kin s s1" using w(1)[OF inv] by (auto simp: quiet_def)
  obtain s2 where s2: "schedcpu_loop (allproc s1) s1 = Inr s2" "sched_inv r s2" "kin s1 s2" using schedcpu_loop_quiet[OF s1(2)] by (auto simp: quiet_def)
  have "quiet r s2 (if runin s2 \<noteq> 0 then wakeup (a_runin s2) (s2\<lparr>runin := 0\<rparr>) else Inr s2)"
    using w(2)[OF s2(2)] s2(2) by (simp add: quiet_Inr)
  then obtain s3 where s3: "(if runin s2 \<noteq> 0 then wakeup (a_runin s2) (s2\<lparr>runin := 0\<rparr>) else Inr s2) = Inr s3" "sched_inv r s3" "kin s2 s3"
    unfolding quiet_def by blast
  obtain q where "s' = s3\<lparr>runrun := runrun s3 + 1, calls := q\<rparr>"
    using run unfolding schedcpu_def s1(1) andthen_Inr s2(1) s3(1) Let_def by (cases "timeout (calls s3) fn_schedcpu 0 hz") auto
  moreover have "kin s s3" using s1(3) s2(3) s3(3) kin_trans by blast
  ultimately show "sched_inv r s'" "kin s s'" using s3(2) by (simp_all add: kin_def sched_inv_counters)
qed

lemma setpriority_keeps:
  assumes inv: "sched_inv r s" and run: "setpriority uid ruid which who prio s = (err, s')"
  shows "sched_inv r s'" and "kin s s'"
proof -
  have one: "quiet r t (Inr (snd (donice uid ruid prio p (e, t))))" if "sched_inv r t" for t e p
  proof -
    have "quiet r t (Inr (upd p (p_nice_update (\<lambda>_. n)) t))" for n using that by (rule calm_quiet) simp_all
    then show ?thesis using that by (auto simp: donice_def Let_def quiet_Inr)
  qed
  have all: "quiet r t (Inr (snd (fold (donice uid ruid prio) ps (e, t))))" if "sched_inv r t" for t e ps
    using that
  proof (induction ps arbitrary: e t)
    case (Cons p ps)
    obtain e' t' where d: "donice uid ruid prio p (e, t) = (e', t')" by force
    then have "quiet r t (Inr t')" using one[OF Cons.prems, of p e] by simp
    then show ?case using Cons.IH by (simp add: d) (rule quiet_step, auto)
  qed (simp add: quiet_Inr)
  have "quiet r s (Inr (snd (setpriority uid ruid which who prio s)))"
    using one[OF inv] all[OF inv] inv
    by (auto simp: setpriority_def Let_def quiet_Inr split: prio_which.split option.split)
  then show "sched_inv r s'" "kin s s'" using run by (simp_all add: quiet_def)
qed

lemma life_step_inv:
  assumes "life_step strict x y" and "life_inv strict x"
  shows "life_inv strict y"
  using assms
proof (induction rule: life_step.induct)
  case (Sched r L r' s')
  then show ?case using sched_step_inv[OF Sched(1)] sched_step_kin[OF Sched(1)] by (intro life_inv_kin[OF Sched(2)]) (simp_all add: life_inv_def)
next
  case (Signal sig p L s' r)
  then show ?case using psignal_quiet[of r "psys L" sig p] by (intro life_inv_kin[OF Signal(3)]) (auto simp: life_inv_def quiet_def)
next
  case (Clock hz L s' r)
  then show ?case using schedcpu_keeps[OF _ Clock(1)] by (intro life_inv_kin[OF Clock(2)]) (auto simp: life_inv_def)
next
  case (Nice uid ruid which who prio L err s' r)
  then show ?case using setpriority_keeps[OF _ Nice(1)] by (intro life_inv_kin[OF Nice(2)]) (auto simp: life_inv_def)
next
  case (Setpgrp r L p g)
  then show ?case by (rule setpgrp_inv)
next
  case (Fork L uid x L' p)
  then show ?case using fork1_ok[OF Fork(3,1), of uid] by auto
next
  case (Exit p L ev rv u_ru u_cru L')
  then show ?case using exit_inv by blast
next
  case (Swap_Space r L f)
  then show ?case by (simp add: life_inv_def family_def ids_ok_def pids_ok_def Let_def)
next
  case (Wait st ru nh un arg cru L ans cru' L' p)
  then show ?case using wait1_ok[of "Some p" L st ru nh un arg cru ans cru' L'] by (simp add: life_inv_def)
qed

lemma life_steps_inv: "(life_step strict)\<^sup>*\<^sup>* x y \<Longrightarrow> life_inv strict x \<Longrightarrow> life_inv strict y"
  by (induction rule: rtranclp_induct) (simp_all add: life_step_inv)

section \<open>Boot\<close>

text \<open>
  What \<open>main\<close> of \<open>sys/kern/init_main.c\<close> has set up when it makes process 1: process 0 runs, the other slots are zero, and
  \<open>pqinit\<close> has linked them.
\<close>

definition zero_proc :: proc where
  "zero_proc = \<lparr>p_pptr = NPROC, p_flag = {}, p_uid = 0, p_pid = 0, p_ppid = 0, p_sig = {}, p_stat = SNONE, p_pri = 0, p_cpu = 0, p_time = 0,
     p_nice = 0, p_slptime = 0, p_ptracesig = 0, p_sigmask = {}, p_sigignore = {}, p_sigcatch = {}, p_pgrp = 0, p_wchan = 0,
     p_rt_value = 0, p_rt_interval = 0, u_ruid = 0, ru_nvcsw = 0, ru_nivcsw = 0\<rparr>"

definition boot_sys :: sys where
  "boot_sys = pqinit \<lparr>ptab = (\<lambda>_. zero_proc)(0 := zero_proc\<lparr>p_stat := SRUN, p_flag := {SLOAD, SSYS}, p_sigignore := {16, 20, 23, 28, 29}\<rparr>),
     slpque = (\<lambda>_. []), qs = [], allproc = [], freeproc = [], zombproc = [], pidhash = (\<lambda>_. []), runrun = 0, curpri = 0, noproc = 0,
     runin = 0, runout = 0, u_procp = 0, panicstr = False, calls = coutinit, a_lbolt = 1, a_runin = 2, a_runout = 3, a_proc = (\<lambda>p. 100 + p)\<rparr>"

definition boot :: life where
  "boot = \<lparr>psys = boot_sys, p_xstat = (\<lambda>_. 0), p_ru = (\<lambda>_. replicate 10 0), mpid = 0, pidchecked = 0, swap_fault = None\<rparr>"

lemma pqinit_slots: "pqinit_loop n fp = [1..<Suc n] @ fp"
  by (induction n arbitrary: fp) simp_all


lemma boot_fields:
  "ptab boot_sys = (\<lambda>_. zero_proc)(0 := zero_proc\<lparr>p_stat := SRUN, p_flag := {SLOAD, SSYS}, p_sigignore := {16, 20, 23, 28, 29}\<rparr>)"
  "qs boot_sys = []" "slpque boot_sys = (\<lambda>_. [])" "allproc boot_sys = [0]" "freeproc boot_sys = [1..<NPROC]" "zombproc boot_sys = []"
  "pidhash boot_sys = (\<lambda>_. [])" "u_procp boot_sys = 0" "a_runin boot_sys = 2" "a_runout boot_sys = 3" "a_lbolt boot_sys = 1" "a_proc boot_sys = (\<lambda>p. 100 + p)"
  by (simp_all add: boot_sys_def pqinit_def pqinit_slots NPROC_def)

lemma zero_proc_fields [simp]:
  "p_stat zero_proc = SNONE" "p_flag zero_proc = {}" "p_wchan zero_proc = 0" "p_pri zero_proc = 0" "p_pid zero_proc = 0" "p_ppid zero_proc = 0"
  "p_pptr zero_proc = NPROC" "p_pgrp zero_proc = 0"
  by (simp_all add: zero_proc_def)

lemma boot_inv: "sched_inv (Some 0) boot_sys"
  unfolding sched_inv_def queues_ok_def boot_fields by (auto split: if_splits)

lemma free_slots: "freeproc boot_sys = 1 # [2..<NPROC]"
  unfolding boot_fields NPROC_def by (simp add: upt_conv_Cons)

lemma boot_family: "family {} (boot\<lparr>psys := newproc_enter 1 1 boot_sys, mpid := 1, pidchecked := 30000\<rparr>)"
proof -
  define s where "s = newproc_enter 1 1 boot_sys"
  note E = newproc_enter_fields[OF free_slots, of 1, folded s_def]
  let ?c = "child_entry 1 0 (ptab boot_sys 0) zero_proc"
  have pt: "ptab s = (ptab boot_sys)(1 := ?c)" unfolding E boot_fields(8) by (simp add: boot_fields(1))
  have st: "p_stat (ptab s p) = (if p = 0 then SRUN else if p = 1 then SIDL else SNONE)" for p unfolding pt boot_fields by simp
  have al: "allproc s = [1, 0]" "zombproc s = []" "freeproc s = [2..<NPROC]" unfolding E boot_fields by simp_all
  have pr: "procs s = {0, 1}" by (auto simp: procs_def al)
  have "table_ok s"
  proof -
    have "set (allproc s) = {p. alive (p_stat (ptab s p))}" unfolding al st alive_def by (auto split: if_splits)
    moreover have "set (freeproc s) = {p. p < NPROC \<and> p_stat (ptab s p) = SNONE}" unfolding al st by (auto split: if_splits)
    moreover have "p_stat (ptab s p) \<noteq> SZOMB" "p \<ge> NPROC \<Longrightarrow> p_stat (ptab s p) = SNONE" for p unfolding st by (simp_all add: NPROC_def)
    ultimately show ?thesis unfolding table_ok_def by (simp add: al)
  qed
  moreover have "hash_ok s"
  proof -
    have "pidhash s = (\<lambda>_. [])(PIDHASH 1 := [1])" unfolding E boot_fields by simp
    moreover have "p_pid (ptab s 1) = 1" unfolding pt by simp
    ultimately show ?thesis unfolding hash_ok_def al by auto
  qed
  moreover have "parents_ok {} s"
  proof -
    have "p_pptr (ptab s 0) = NPROC" "p_pptr (ptab s 1) = 0" "p_ppid (ptab s 1) = 0" "p_pid (ptab s 0) = 0" unfolding pt boot_fields by simp_all
    then show ?thesis unfolding parents_ok_def pr al by (auto intro: exI[of _ id])
  qed
  moreover have "ids_ok (boot\<lparr>psys := s, mpid := 1, pidchecked := 30000\<rparr>)"
  proof -
    have "p_pid (ptab s 0) = 0" "p_ppid (ptab s 0) = 0" "p_pid (ptab s 1) = 1" unfolding pt boot_fields by simp_all
    then show ?thesis unfolding ids_ok_def Let_def by (simp add: pr al)
  qed
  ultimately show ?thesis unfolding s_def[symmetric] by (simp add: family_def)
qed

lemma boot_newpid: "newpid (pid_list boot_sys) (mpid boot + 1) (pidchecked boot) = Some (1, 30000)"
  by (subst newpid.simps) (simp add: pid_list_def boot_fields boot_def)

lemma boot_ok: "\<exists>L. newproc boot = Inr (1, L) \<and> life_inv True (Some 0, L)"
proof -
  define t where "t = newproc_enter 1 1 boot_sys"
  note E = newproc_enter_fields[OF free_slots, of 1, folded t_def]
  have it: "sched_inv (Some 0) t" unfolding t_def by (rule newproc_enter_inv[OF boot_inv free_slots]) (simp add: boot_fields)
  obtain s' where s': "newproc_copy None 1 t = Inr s'" "sched_inv (Some 0) s'" "kin t s'"
    using newproc_copy_ok[OF it, of 1] by (auto simp: E boot_fields)
  let ?L = "boot\<lparr>psys := s', mpid := 1, pidchecked := 30000\<rparr>"
  have f: "family {} ?L" by (rule family_kin[OF boot_family]) (use s'(3) in \<open>simp_all add: t_def\<close>)
  have "procs s' = {0, 1}" using pids_kin[OF s'(3)] by (auto simp: procs_def E boot_fields)
  moreover have "p_pid (ptab s' 0) = 0" "p_pid (ptab s' 1) = 1" using f by (simp_all add: family_def ids_ok_def Let_def)
  ultimately have "pids_ok ?L" by (auto simp: pids_ok_def pids_def vacant_def inj_on_def)
  moreover have "newproc boot = Inr (1, ?L)"
    using boot_newpid s'(1) free_slots unfolding t_def by (simp add: newproc_def Let_def boot_def)
  ultimately show ?thesis using s'(2) f by (auto simp: life_inv_def)
qed

section \<open>Ancestors\<close>

lemma inferior_ends:
  assumes P: "parents_ok {} s" and z: "p_ppid (ptab s 0) = 0" and T: "table_ok s" and p: "p \<in> procs s"
  shows "\<exists>b. inferior (Suc NPROC) p s = Inr b"
proof -
  obtain rank :: "nat \<Rightarrow> nat" where r: "\<forall>q \<in> procs s. q \<noteq> 0 \<longrightarrow> rank (p_pptr (ptab s q)) < rank q" using P by (auto simp: parents_ok_def)
  let ?S = "\<lambda>p. {x \<in> procs s. rank x \<le> rank p}"
  have fin: "finite (procs s)" by (simp add: procs_def)
  have "card (?S p) < fuel \<Longrightarrow> p \<in> procs s \<Longrightarrow> \<exists>b. inferior fuel p s = Inr b" for fuel p
  proof (induction fuel arbitrary: p)
    case (Suc fuel)
    show ?case
    proof (cases "p = u_procp s \<or> p_ppid (ptab s p) = 0")
      case False
      then have p0: "p \<noteq> 0" using z by metis
      let ?q = "p_pptr (ptab s p)"
      have q: "?q \<in> procs s" "rank ?q < rank p" using P r p0 Suc.prems(2) by (auto simp: parents_ok_def procs_def)
      then have "?S ?q \<subseteq> ?S p" "p \<in> ?S p" "p \<notin> ?S ?q" using Suc.prems(2) by auto
      then have "?S ?q \<subset> ?S p" by blast
      then have "card (?S ?q) < card (?S p)" using fin by (intro psubset_card_mono) auto
      then show ?thesis using Suc.IH[of ?q] q(1) Suc.prems(1) False by simp
    qed auto
  qed simp
  moreover have "card (?S p) \<le> card {..<NPROC}" using procs_small[OF T] by (intro card_mono) auto
  ultimately show ?thesis using p by (metis card_lessThan le_imp_less_Suc)
qed

lemma find_unique: "x \<in> set xs \<Longrightarrow> P x \<Longrightarrow> (\<And>y. y \<in> set xs \<Longrightarrow> P y \<Longrightarrow> y = x) \<Longrightarrow> find P xs = Some x"
  by (metis (mono_tags, lifting) find_None_iff find_Some_iff nth_mem option.exhaust)

lemma pfind_finds:
  assumes "family {} L" and u: "pids_ok L" and p: "p \<in> set (allproc (psys L))" "p \<noteq> 0"
  shows "pfind (p_pid (ptab (psys L) p)) (psys L) = Some p"
proof -
  have h: "set (pidhash (psys L) h) = {p \<in> set (allproc (psys L)). p \<noteq> 0 \<and> PIDHASH (p_pid (ptab (psys L) p)) = h}" for h
    using assms(1) by (simp add: family_def hash_ok_def)
  have inj: "inj_on (\<lambda>p. p_pid (ptab (psys L) p)) (procs (psys L))" using u by (simp add: pids_ok_def)
  have "y = p" if "y \<in> set (allproc (psys L))" "p_pid (ptab (psys L) y) = p_pid (ptab (psys L) p)" for y
    using inj_onD[OF inj that(2)] that(1) p(1) by (simp add: procs_def)
  then show ?thesis unfolding pfind_def PIDHASH_def[symmetric] using p by (intro find_unique) (simp_all add: h)
qed


section \<open>Properties\<close>

lemma life_inv_weaken: "life_inv strict x \<Longrightarrow> life_inv False x"
  by (simp add: life_inv_def)

text \<open>
  C3.  No process is ever lost.  From boot on, in every order of scheduling, recomputations of priorities, signals other than the stop signals, changes of
  nice values and groups, forks, exits and waits: each slot of the process table is on exactly one of the lists of live, dead and free ones; every process but 0
  has a live parent and knows its id; a search of the ancestors ends; a live process in core that can run is running or on the
  run queue; and for the running process \<open>fork\<close> does not panic while the swap space can take the image of the child, nor does \<open>exit\<close>
  unless it is process 0 or 1 or in a \<open>vfork\<close>.  While a process forks only when no process that has the number below its own id as its group
  is in the reach of the search for a new id (\<open>strict\<close>), ids are unique and \<open>pfind\<close> finds every live process.
\<close>

theorem processes_never_lost:
  assumes "newproc boot = Inr (c, L0)" and "(life_step strict)\<^sup>*\<^sup>* (Some 0, L0) (r, L)"
  shows "distinct (allproc (psys L) @ zombproc (psys L) @ freeproc (psys L)) \<and> set (allproc (psys L) @ zombproc (psys L) @ freeproc (psys L)) = {..<NPROC}
    \<and> (\<forall>p \<in> procs (psys L). (p \<noteq> 0 \<longrightarrow> p_pptr (ptab (psys L) p) \<in> set (allproc (psys L))
         \<and> p_ppid (ptab (psys L) p) = p_pid (ptab (psys L) (p_pptr (ptab (psys L) p)))) \<and> (\<exists>b. inferior (Suc NPROC) p (psys L) = Inr b))
    \<and> (\<forall>p. p_stat (ptab (psys L) p) = SRUN \<and> SLOAD \<in> p_flag (ptab (psys L) p) \<longrightarrow> r = Some p \<or> p \<in> set (qs (psys L)))
    \<and> (\<forall>p. r = Some p \<longrightarrow> (swap_fault L = None \<longrightarrow> (\<exists>x L'. fork1 uid L = Inr (x, L'))) \<and>
         (p \<noteq> 0 \<and> p \<noteq> 1 \<and> SVFORK \<notin> p_flag (ptab (psys L) p) \<longrightarrow> (\<exists>L'. exit_proc ev rv u_ru u_cru L = Inr L')))
    \<and> (strict \<longrightarrow> inj_on (\<lambda>p. p_pid (ptab (psys L) p)) (procs (psys L))
         \<and> (\<forall>p \<in> set (allproc (psys L)). p \<noteq> 0 \<longrightarrow> pfind (p_pid (ptab (psys L) p)) (psys L) = Some p))"
proof -
  have "life_inv strict (Some 0, L0)" using boot_ok assms(1) by (auto simp: life_inv_def)
  then have inv: "life_inv strict (r, L)" using life_steps_inv[OF assms(2)] by simp
  then have S: "sched_inv r (psys L)" and F: "family {} L" and U: "strict \<longrightarrow> pids_ok L" by (simp_all add: life_inv_def)
  have T: "table_ok (psys L)" and P: "parents_ok {} (psys L)" and z: "p_ppid (ptab (psys L) 0) = 0" using F by (simp_all add: family_def ids_ok_def Let_def)
  have lists: "distinct (allproc (psys L) @ zombproc (psys L) @ freeproc (psys L))" "set (allproc (psys L) @ zombproc (psys L) @ freeproc (psys L)) = {..<NPROC}"
  proof -
    show "distinct (allproc (psys L) @ zombproc (psys L) @ freeproc (psys L))" using T by (auto simp: table_ok_def alive_def)
    have "p < NPROC" if "p_stat (ptab (psys L) p) \<noteq> SNONE" for p using T that unfolding table_ok_def by (metis leI)
    then show "set (allproc (psys L) @ zombproc (psys L) @ freeproc (psys L)) = {..<NPROC}" using T by (auto simp: table_ok_def alive_def)
  qed
  have calls: "(swap_fault L = None \<longrightarrow> (\<exists>x L'. fork1 uid L = Inr (x, L'))) \<and> (p \<noteq> 0 \<and> p \<noteq> 1 \<and> SVFORK \<notin> p_flag (ptab (psys L) p) \<longrightarrow> (\<exists>L'. exit_proc ev rv u_ru u_cru L = Inr L'))"
    if r: "r = Some p" for p
  proof (intro conjI impI, goal_cases)
    case 1
    then show ?case using fork1_ok[of False p L uid] life_inv_weaken[OF inv] unfolding r by auto
  next
    case 2
    then show ?case using exit_ok[OF S[unfolded r] F, of ev rv u_ru u_cru] by blast
  qed
  have par: "\<forall>p \<in> procs (psys L). (p \<noteq> 0 \<longrightarrow> p_pptr (ptab (psys L) p) \<in> set (allproc (psys L))
      \<and> p_ppid (ptab (psys L) p) = p_pid (ptab (psys L) (p_pptr (ptab (psys L) p)))) \<and> (\<exists>b. inferior (Suc NPROC) p (psys L) = Inr b)"
    using P inferior_ends[OF P z T] by (auto simp: parents_ok_def simp del: inferior.simps)
  have uni: "strict \<longrightarrow> inj_on (\<lambda>p. p_pid (ptab (psys L) p)) (procs (psys L))
      \<and> (\<forall>p \<in> set (allproc (psys L)). p \<noteq> 0 \<longrightarrow> pfind (p_pid (ptab (psys L) p)) (psys L) = Some p)"
    using U pfind_finds[OF F] by (auto simp: pids_ok_def)
  have run: "\<forall>p. p_stat (ptab (psys L) p) = SRUN \<and> SLOAD \<in> p_flag (ptab (psys L) p) \<longrightarrow> r = Some p \<or> p \<in> set (qs (psys L))"
    using sched_invD(3)[OF S] by blast
  show ?thesis using lists par run calls uni by (intro conjI allI impI) simp_all
qed

text \<open>After boot, process 0 can fork.\<close>

lemma boot_forks:
  "\<exists>L0 L pid. newproc boot = Inr (1, L0) \<and> life_inv True (Some 0, L0) \<and> swap_fault L0 = None \<and> freeproc (psys L0) = 2 # [3..<NPROC]
     \<and> life_step True (Some 0, L0) (Some 0, L) \<and> fork1 0 L0 = Inr (pid, L)"
proof -
  obtain L where L: "newproc boot = Inr (1, L)" "life_inv True (Some 0, L)" using boot_ok by blast
  obtain M where M: "newproc_copy None 1 (newproc_enter 1 1 boot_sys) = Inr M" "L = boot\<lparr>psys := M, mpid := 1, pidchecked := 30000\<rparr>"
    using L(1) boot_newpid free_slots by (auto simp: newproc_def Let_def boot_def andthen_def split: sum.splits)
  have "sched_inv (Some 0) (newproc_enter 1 1 boot_sys)" by (rule newproc_enter_inv[OF boot_inv free_slots]) (simp add: boot_fields)
  then have k: "kin (newproc_enter 1 1 boot_sys) M"
    using newproc_copy_ok[of 0 "newproc_enter 1 1 boot_sys" 1] M(1) newproc_enter_fields[OF free_slots, of 1] by (auto simp: boot_fields)
  note E = newproc_enter_fields[OF free_slots, of 1] and K = kinD[OF k]
  have f: "freeproc (psys L) = 2 # [3..<NPROC]" "swap_fault L = None" using k E(4) M(2) by (simp_all add: kinD NPROC_def upt_conv_Cons boot_def)
  have "psys L = M" "mpid L = 1" using M(2) by simp_all
  then have "clear_search L"
    unfolding clear_search_def no_group_below_def search_floor_def pid_list_def by (simp only: K E) (auto simp: boot_fields)
  then show ?thesis using L f fork1_ok[of True 0 L 0] life_step.Fork[of True L 0 _ _ 0] by auto
qed

theorem processes_never_lost_witness:
  "\<exists>L0 L pid. newproc boot = Inr (1, L0) \<and> fork1 0 L0 = Inr (pid, L) \<and> (life_step True)\<^sup>*\<^sup>* (Some 0, L0) (Some 0, L)
     \<and> set (allproc (psys L) @ zombproc (psys L) @ freeproc (psys L)) = {..<NPROC} \<and> inj_on (\<lambda>p. p_pid (ptab (psys L) p)) (procs (psys L))"
proof -
  obtain L0 L pid where L: "newproc boot = Inr (1, L0)" "life_step True (Some 0, L0) (Some 0, L)" "fork1 0 L0 = Inr (pid, L)" using boot_forks by blast
  have "(life_step True)\<^sup>*\<^sup>* (Some 0, L0) (Some 0, L)" using L(2) by (rule r_into_rtranclp)
  then show ?thesis using processes_never_lost[OF L(1), of True "Some 0" L] L(1,3) by blast
qed

text \<open>
  C10.  What \<open>fork\<close> does.  It refuses with \<open>EAGAIN\<close>, and changes nothing, exactly when there is no free slot, or for a user other than
  the super-user when only one is left or the user owns more than \<open>MAXUPRC\<close> processes.  Else the first free slot becomes a live process, a child of
  the parent and in its group, that can run and is swapped out; the parent gets its id, between 2 and 29999, which is in the hash
  chain; all other processes keep their ids and parents.  The id is new while every process that has the number below its own id as
  its group is out of the reach of the search.  If the swap space cannot take the image of the child, the kernel panics.
\<close>

theorem fork_spec:
  assumes "life_inv strict (Some p, L)"
  shows "if freeproc (psys L) = [] \<or> uid \<noteq> 0 \<and> (tl (freeproc (psys L)) = [] \<or> owned uid (psys L) > MAXUPRC)
    then fork1 uid L = Inr (Inl EAGAIN, L)
    else if swap_fault L \<noteq> None then \<exists>msg. swap_fault L = Some msg \<and> fork1 uid L = Inl (Panic msg)
    else \<exists>c fs pid L'. freeproc (psys L) = c # fs \<and> fork1 uid L = Inr (Inr pid, L')
      \<and> allproc (psys L') = c # allproc (psys L) \<and> freeproc (psys L') = fs \<and> zombproc (psys L') = zombproc (psys L)
      \<and> p_pid (ptab (psys L') c) = pid \<and> 2 \<le> pid \<and> pid < 30000 \<and> c \<in> set (pidhash (psys L') (PIDHASH pid))
      \<and> p_pptr (ptab (psys L') c) = p \<and> p_ppid (ptab (psys L') c) = p_pid (ptab (psys L) p) \<and> p_pgrp (ptab (psys L') c) = p_pgrp (ptab (psys L) p)
      \<and> p_stat (ptab (psys L') c) = SRUN \<and> SLOAD \<notin> p_flag (ptab (psys L') c)
      \<and> (\<forall>q. q \<noteq> c \<longrightarrow> p_pid (ptab (psys L') q) = p_pid (ptab (psys L) q) \<and> p_pptr (ptab (psys L') q) = p_pptr (ptab (psys L) q))
      \<and> (strict \<and> clear_search L \<longrightarrow> (\<forall>q \<in> procs (psys L). p_pid (ptab (psys L) q) \<noteq> pid) \<and> pfind pid (psys L') = Some c)"
proof (cases "freeproc (psys L) = [] \<or> uid \<noteq> 0 \<and> (tl (freeproc (psys L)) = [] \<or> owned uid (psys L) > MAXUPRC)")
  case True
  then show ?thesis by (auto simp: fork1_def Let_def)
next
  case False
  then obtain c fs where fr: "freeproc (psys L) = c # fs" by (cases "freeproc (psys L)") auto
  have S: "sched_inv (Some p) (psys L)" "family {} L" using assms by (simp_all add: life_inv_def)
  have up: "u_procp (psys L) = p" using sched_invD(4)[OF S(1) refl] by simp
  show ?thesis
  proof (cases "swap_fault L")
    case (Some msg)
    then have "fork1 uid L = Inl (Panic msg)" using newproc_panics[OF _ fr Some] S(2) False by (auto simp: fork1_def family_def Let_def)
    then show ?thesis using Some unfolding if_not_P[OF False] by simp
  next
    case None
    obtain L' m k where N: "newproc L = Inr (c, L')" "family {} L'" "kin (newproc_enter m c (psys L)) (psys L')"
      "clear_search L \<longrightarrow> pids_ok L \<longrightarrow> m \<notin> pids (psys L) \<and> pids_ok L'"
      "p_stat (ptab (psys L') c) = SRUN" "p_flag (ptab (psys L') c) = {SSWAP}" using newproc_ok[OF S fr None] by blast
    note E = newproc_enter_fields[OF fr, of m] and K = kinD[OF N(3)]
    have c: "p_pid (ptab (psys L') c) = m" "p_pptr (ptab (psys L') c) = p" "p_ppid (ptab (psys L') c) = p_pid (ptab (psys L) p)"
      "p_pgrp (ptab (psys L') c) = p_pgrp (ptab (psys L) p)" "allproc (psys L') = c # allproc (psys L)" "freeproc (psys L') = fs"
      "zombproc (psys L') = zombproc (psys L)" "c \<in> set (pidhash (psys L') (PIDHASH m))" unfolding K E up by simp_all
    have "0 \<in> set (allproc (psys L))" "1 \<in> set (allproc (psys L))" "table_ok (psys L)" using S(2) by (simp_all add: family_def ids_ok_def Let_def)
    moreover have "c \<notin> set (allproc (psys L))" using table_okD[of "psys L" c] \<open>table_ok (psys L)\<close> fr by (simp add: alive_def)
    ultimately have c01: "c \<noteq> 0" "c \<noteq> 1" by metis+
    have m: "2 \<le> m" "m < 30000" using N(2) c(1,5) c01 by (auto simp: family_def ids_ok_def Let_def procs_def)
    have others: "p_pid (ptab (psys L') q) = p_pid (ptab (psys L) q) \<and> p_pptr (ptab (psys L') q) = p_pptr (ptab (psys L) q)" if "q \<noteq> c" for q
      using that unfolding K E by simp
    have fresh: "(\<forall>q \<in> procs (psys L). p_pid (ptab (psys L) q) \<noteq> m) \<and> pfind m (psys L') = Some c" if g: "strict" "clear_search L"
    proof -
      have "pids_ok L" using assms g(1) by (simp add: life_inv_def)
      then have "m \<notin> pids (psys L)" "pids_ok L'" using N(4) g(2) by simp_all
      moreover from this(1) have "\<forall>q \<in> procs (psys L). p_pid (ptab (psys L) q) \<noteq> m" unfolding pids_def by blast
      ultimately show ?thesis using pfind_finds[OF N(2), of c] c(1,5) c01(1) by simp
    qed
    have "fork1 uid L = Inr (Inr m, L')" unfolding fork1_def Let_def using False N(1) c(1) by auto
    moreover have "\<not> swap_fault L \<noteq> None" using None by simp
    ultimately show ?thesis unfolding if_not_P[OF False] if_not_P[OF \<open>\<not> swap_fault L \<noteq> None\<close>]
      using fr c m others fresh N(5,6) by (intro exI[of _ c] exI[of _ fs] exI[of _ m] exI[of _ L']) simp
  qed
qed

theorem fork_spec_witness:
  "\<exists>L pid L'. newproc boot = Inr (1, L) \<and> fork1 0 L = Inr (Inr pid, L') \<and> allproc (psys L') = 2 # allproc (psys L)"
proof -
  obtain L where "newproc boot = Inr (1, L)" "life_inv True (Some 0, L)" "swap_fault L = None" "freeproc (psys L) = 2 # [3..<NPROC]"
    using boot_forks by blast
  then show ?thesis using fork_spec[of True 0 L 0] by auto
qed


section \<open>Reports of dead children\<close>

text \<open>The state a dead child is found in: scheduling and signals, which keep \<open>kin\<close>, have brought its parent to run.\<close>

lemma dead_child:
  assumes inv: "life_inv strict (Some p, L)" and p: "p \<noteq> 0" "p \<noteq> 1" "SVFORK \<notin> p_flag (ptab (psys L) p)"
    and ex: "exit_proc ev rv u_ru u_cru L = Inr L1" and k: "kin (psys L1) s2"
  shows "zombproc s2 = p # zombproc (psys L)" "p_pptr (ptab s2 p) = p_pptr (ptab (psys L) p)" "p_pid (ptab s2 p) = p_pid (ptab (psys L) p)"
    "2 \<le> p_pid (ptab (psys L) p)" "p_pgrp (ptab s2 p) = s16 (ruadd u_ru u_cru ! 5)" "p_xstat L1 p = rv" "p_ru L1 p = ruadd u_ru u_cru"
    "procs s2 = procs (psys L)" "table_ok s2"
    "x \<in> procs (psys L) \<Longrightarrow> p_pptr (ptab s2 x) = (if p_pptr (ptab (psys L) x) = p then 1 else p_pptr (ptab (psys L) x))"
proof -
  have S: "sched_inv (Some p) (psys L)" and F: "family {} L" using inv by (simp_all add: life_inv_def)
  obtain L' where E: "exit_proc ev rv u_ru u_cru L = Inr L'" "family {} L'" "procs (psys L') = procs (psys L)"
    "zombproc (psys L') = p # zombproc (psys L)" "p_xstat L' = (p_xstat L)(p := rv)" "p_ru L' = (p_ru L)(p := ruadd u_ru u_cru)"
    "\<forall>q \<in> procs (psys L). p_pid (ptab (psys L') q) = p_pid (ptab (psys L) q)
       \<and> p_pptr (ptab (psys L') q) = (if p_pptr (ptab (psys L) q) = p then 1 else p_pptr (ptab (psys L) q))"
    "p_pgrp (ptab (psys L') p) = s16 (ruadd u_ru u_cru ! 5)" using exit_ok[OF S F p, of ev rv u_ru u_cru] by blast
  have L': "L' = L1" using E(1) ex by simp
  note K = kinD[OF k]
  have T: "table_ok (psys L)" and P: "parents_ok {} (psys L)" and I: "ids_ok L" using F by (simp_all add: family_def)
  have pa: "p \<in> procs (psys L)" using sched_invD(4)[OF S refl] by (simp add: procs_stat[OF T])
  obtain rank :: "nat \<Rightarrow> nat" where "\<forall>q \<in> procs (psys L). q \<noteq> 0 \<longrightarrow> rank (p_pptr (ptab (psys L) q)) < rank q" using P by (auto simp: parents_ok_def)
  then have "p_pptr (ptab (psys L) p) \<noteq> p" using pa p(1) by (metis less_irrefl)
  then show "p_pptr (ptab s2 p) = p_pptr (ptab (psys L) p)" "p_pid (ptab s2 p) = p_pid (ptab (psys L) p)" using E(7) pa L' by (simp_all add: K)
  show "2 \<le> p_pid (ptab (psys L) p)" using I pa p(1,2) unfolding ids_ok_def Let_def by blast
  show "zombproc s2 = p # zombproc (psys L)" "p_pgrp (ptab s2 p) = s16 (ruadd u_ru u_cru ! 5)" "p_xstat L1 p = rv" "p_ru L1 p = ruadd u_ru u_cru"
    using E(4-6,8) L' by (simp_all add: K)
  show "procs s2 = procs (psys L)" using pids_kin[OF k] E(3) L' by simp
  have "family {} (L1\<lparr>psys := s2\<rparr>)" by (rule family_kin[OF E(2)]) (simp_all add: L' k)
  then show "table_ok s2" by (simp add: family_def)
  show "x \<in> procs (psys L) \<Longrightarrow> p_pptr (ptab s2 x) = (if p_pptr (ptab (psys L) x) = p then 1 else p_pptr (ptab (psys L) x))"
    using E(7) L' by (simp add: K)
qed

lemma wait_finds_dead:
  assumes "life_inv strict (Some p, L)" and "p \<noteq> 0" and "p \<noteq> 1" and "SVFORK \<notin> p_flag (ptab (psys L) p)"
    and "exit_proc ev rv u_ru u_cru L = Inr L1" and "kin (psys L1) s2" and "u_procp s2 = p_pptr (ptab (psys L) p)"
    and "arg = -1 \<or> arg = p_pid (ptab (psys L) p)"
  shows "if status = Some False \<or> rusage = Some False then wait1 status rusage nh un arg cru (L1\<lparr>psys := s2\<rparr>) = (Wait_Error EFAULT, cru, L1\<lparr>psys := s2\<rparr>)
    else \<exists>L2. wait1 status rusage nh un arg cru (L1\<lparr>psys := s2\<rparr>) = (Child_Gone (p_pid (ptab (psys L) p)) rv, ruadd cru (ruadd u_ru u_cru), L2)
      \<and> freeproc (psys L2) = p # freeproc s2 \<and> zombproc (psys L2) = zombproc (psys L) \<and> allproc (psys L2) = allproc s2"
proof -
  note D = dead_child[OF assms(1-6)]
  let ?L = "L1\<lparr>psys := s2\<rparr>"
  have "arg \<noteq> 0" using assms(8) D(4) by auto
  then have "find (\<lambda>x. p_pptr (ptab s2 x) = u_procp s2 \<and> wanted (if arg = 0 then - p_pgrp (ptab s2 (u_procp s2)) else arg) (ptab s2 x)) (zombproc s2) = Some p"
    using assms(7,8) D(2,3) unfolding D(1) by (auto simp: wanted_def)
  then have "wait1 status rusage nh un arg cru ?L = (if status = Some False \<or> rusage = Some False then (Wait_Error EFAULT, cru, ?L)
      else (Child_Gone (p_pid (ptab s2 p)) (p_xstat L1 p), ruadd cru (p_ru L1 p), reap p ?L))" by (simp add: wait1_def Let_def)
  then show ?thesis using D(1,3,6,7) by (auto simp: reap_fields)
qed

lemma wait_misses_dead_of_group:
  assumes "life_inv strict (Some p, L)" and "p \<noteq> 0" and "p \<noteq> 1" and "SVFORK \<notin> p_flag (ptab (psys L) p)"
    and "exit_proc ev rv u_ru u_cru L = Inr L1" and "kin (psys L1) s2" and "u_procp s2 = p_pptr (ptab (psys L) p)"
    and only: "\<forall>x \<in> procs s2. p_pptr (ptab s2 x) = u_procp s2 \<longrightarrow> x = p"
    and "length u_ru = 10" and "length u_cru = 10" and "u_ru ! 5 = 0" and "u_cru ! 5 = 0"
    and "p_pgrp (ptab (psys L) p) = g" and "1 < g"
  shows "wait1 status rusage nh un (- g) cru (L1\<lparr>psys := s2\<rparr>) = (Wait_Error ECHILD, cru, L1\<lparr>psys := s2\<rparr>)"
proof -
  note D = dead_child[OF assms(1-6)]
  have z: "p_pgrp (ptab s2 p) = 0" unfolding D(5) using assms(9-12) by (simp add: ruadd_def s16_def s32_def)
  have g: "- g \<noteq> 0" "- g \<noteq> -1" using assms(14) by auto
  have no: "\<not> (p_pptr (ptab s2 x) = u_procp s2 \<and> wanted (- g) (ptab s2 x))" if "x \<in> procs s2" for x
    using only that z D(3,4) assms(14) by (auto simp: wanted_def)
  have f: "find (\<lambda>x. p_pptr (ptab s2 x) = u_procp s2 \<and> wanted (- g) (ptab s2 x)) (zombproc s2) = None"
    "find (\<lambda>x. p_pptr (ptab s2 x) = u_procp s2 \<and> wanted (- g) (ptab s2 x)) (allproc s2) = None"
    "find (\<lambda>x. (p_pptr (ptab s2 x) = u_procp s2 \<and> wanted (- g) (ptab s2 x)) \<and> p_stat (ptab s2 x) = SSTOP \<and> P_WAITED \<notin> p_flag (ptab s2 x)
       \<and> (P_TRACED \<in> p_flag (ptab s2 x) \<or> un)) (allproc s2) = None"
    using no by (auto simp: find_None_iff procs_def)
  show ?thesis unfolding wait1_def Let_def using g(1) f by simp
qed


text \<open>
  C9.  From \<open>exit\<close> to \<open>wait\<close>.  When the parent of a process that has exited runs next, whatever scheduling and signals did in between, and
  waits for any child or for this one, it gets the id and the exit status of that process; the usage of the child and of the child's own children is
  added to its account, and the slot is the first free one.  With a bad address it gets \<open>EFAULT\<close> and the child is still there.  But a wait for the
  process group of the child does not find it: \<open>exit\<close> writes the usage over \<open>p_pgrp\<close>, and the half word read there is that of \<open>ru_msgsnd\<close>, which
  nothing counts, so \<open>wait1\<close> sees group 0, and a parent that waits for the group of its only child gets \<open>ECHILD\<close>, although the child is dead and not
  yet waited for.
\<close>

theorem exit_wait_round_trip:
  assumes "life_inv strict (Some p, L)" and "p \<noteq> 0" and "p \<noteq> 1" and "SVFORK \<notin> p_flag (ptab (psys L) p)"
    and "exit_proc ev rv u_ru u_cru L = Inr L1" and "kin (psys L1) s2" and "u_procp s2 = p_pptr (ptab (psys L) p)"
  shows "(\<forall>arg status rusage. arg = -1 \<or> arg = p_pid (ptab (psys L) p) \<longrightarrow>
      (if status = Some False \<or> rusage = Some False
       then wait1 status rusage nh un arg cru (L1\<lparr>psys := s2\<rparr>) = (Wait_Error EFAULT, cru, L1\<lparr>psys := s2\<rparr>)
       else \<exists>L2. wait1 status rusage nh un arg cru (L1\<lparr>psys := s2\<rparr>) = (Child_Gone (p_pid (ptab (psys L) p)) rv, ruadd cru (ruadd u_ru u_cru), L2)
         \<and> freeproc (psys L2) = p # freeproc s2 \<and> zombproc (psys L2) = zombproc (psys L) \<and> allproc (psys L2) = allproc s2))
    \<and> (length u_ru = 10 \<and> length u_cru = 10 \<and> u_ru ! 5 = 0 \<and> u_cru ! 5 = 0 \<and> 1 < p_pgrp (ptab (psys L) p)
        \<and> (\<forall>x \<in> procs s2. p_pptr (ptab s2 x) = u_procp s2 \<longrightarrow> x = p) \<longrightarrow>
      (\<forall>status rusage. wait1 status rusage nh un (- p_pgrp (ptab (psys L) p)) cru (L1\<lparr>psys := s2\<rparr>) = (Wait_Error ECHILD, cru, L1\<lparr>psys := s2\<rparr>)))"
  using wait_finds_dead[OF assms] wait_misses_dead_of_group[OF assms _ _ _ _ _ refl] by blast

section \<open>An id in use\<close>




section \<open>A concrete family\<close>

text \<open>Process 1, stopped, and its child in slot 2, which runs, has the id 51 and is in the group 50.\<close>

definition demo_life :: life where
  "demo_life = \<lparr>psys = boot_sys\<lparr>ptab := (ptab boot_sys)(1 := zero_proc\<lparr>p_stat := SSTOP, p_pid := 1, p_pptr := 0\<rparr>,
       2 := zero_proc\<lparr>p_stat := SRUN, p_flag := {SLOAD}, p_pid := 51, p_ppid := 1, p_pptr := 1, p_pgrp := 50\<rparr>),
     qs := [0], allproc := [2, 1, 0], freeproc := [3..<NPROC], pidhash := (\<lambda>_. [])(1 := [1], 3 := [2]), u_procp := 2\<rparr>,
     p_xstat = (\<lambda>_. 0), p_ru = (\<lambda>_. replicate 10 0), mpid = 49, pidchecked = 0, swap_fault = None\<rparr>"

lemma demo_fields:
  "p_stat (ptab (psys demo_life) x) = (if x = 0 then SRUN else if x = 1 then SSTOP else if x = 2 then SRUN else SNONE)"
  "p_pid (ptab (psys demo_life) x) = (if x = 1 then 1 else if x = 2 then 51 else 0)"
  "p_ppid (ptab (psys demo_life) x) = (if x = 2 then 1 else 0)"
  "p_pptr (ptab (psys demo_life) x) = (if x = 1 then 0 else if x = 2 then 1 else NPROC)"
  "p_pgrp (ptab (psys demo_life) x) = (if x = 2 then 50 else 0)"
  "p_wchan (ptab (psys demo_life) x) = 0" "p_pri (ptab (psys demo_life) x) = 0"
  "p_flag (ptab (psys demo_life) x) = (if x = 0 then {SLOAD, SSYS} else if x = 2 then {SLOAD} else {})"
  "qs (psys demo_life) = [0]" "slpque (psys demo_life) = (\<lambda>_. [])" "allproc (psys demo_life) = [2, 1, 0]" "zombproc (psys demo_life) = []"
  "freeproc (psys demo_life) = [3..<NPROC]" "pidhash (psys demo_life) = (\<lambda>_. [])(1 := [1], 3 := [2])" "u_procp (psys demo_life) = 2"
  "a_runin (psys demo_life) = 2" "a_runout (psys demo_life) = 3" "a_lbolt (psys demo_life) = 1" "a_proc (psys demo_life) = (\<lambda>p. 100 + p)"
  "mpid demo_life = 49" "pidchecked demo_life = 0" "swap_fault demo_life = None"
  by (simp_all add: demo_life_def boot_fields)

lemma demo_procs: "procs (psys demo_life) = {0, 1, 2}"
  by (auto simp: procs_def demo_fields)

lemma demo_life_inv: "life_inv False (Some 2, demo_life)"
proof -
  have "queues_ok (psys demo_life)" unfolding queues_ok_def demo_fields by auto
  then have "sched_inv (Some 2) (psys demo_life)" unfolding sched_inv_def demo_fields by (auto split: if_splits)
  moreover have "table_ok (psys demo_life)"
  proof -
    have "{p. alive (p_stat (ptab (psys demo_life) p))} = {2, 1, 0}" unfolding demo_fields alive_def by (auto split: if_splits)
    moreover have "{p. p < NPROC \<and> p_stat (ptab (psys demo_life) p) = SNONE} = {3..<NPROC}" unfolding demo_fields by (auto split: if_splits)
    moreover have "p_stat (ptab (psys demo_life) p) \<noteq> SZOMB" "p \<ge> NPROC \<Longrightarrow> p_stat (ptab (psys demo_life) p) = SNONE" for p
      unfolding demo_fields by (auto simp: NPROC_def)
    ultimately show ?thesis unfolding table_ok_def by (simp add: demo_fields)
  qed
  moreover have "hash_ok (psys demo_life)" unfolding hash_ok_def demo_fields by (auto simp: PIDHASH_def split: if_splits)
  moreover have "parents_ok {} (psys demo_life)" unfolding parents_ok_def demo_procs demo_fields by (auto intro!: exI[of _ id])
  moreover have "ids_ok demo_life" unfolding ids_ok_def Let_def demo_procs demo_fields by auto
  ultimately show ?thesis by (simp add: life_inv_def family_def)
qed


lemma demo_exit: "\<exists>L1. exit_proc Inr 256 (replicate 10 0) (replicate 10 0) demo_life = Inr L1"
  using exit_ok[of 2 demo_life Inr 256 "replicate 10 0" "replicate 10 0"] demo_life_inv by (auto simp: life_inv_def demo_fields)

theorem exit_wait_round_trip_witness:
  "\<exists>L1 s2. exit_proc Inr 256 (replicate 10 0) (replicate 10 0) demo_life = Inr L1 \<and> u_procp s2 = 1 \<and> kin (psys L1) s2
     \<and> (\<exists>L2. wait1 (Some True) None False False (-1) [] (L1\<lparr>psys := s2\<rparr>) = (Child_Gone 51 256, [], L2))
     \<and> wait1 (Some True) None False False (-50) [] (L1\<lparr>psys := s2\<rparr>) = (Wait_Error ECHILD, [], L1\<lparr>psys := s2\<rparr>)"
proof -
  obtain L1 where L1: "exit_proc Inr 256 (replicate 10 0) (replicate 10 0) demo_life = Inr L1" using demo_exit by blast
  define s2 where "s2 = (psys L1)\<lparr>u_procp := 1\<rparr>"
  have k: "kin (psys L1) s2" and u: "u_procp s2 = 1" by (simp_all add: kin_def s2_def)
  have v: "SVFORK \<notin> p_flag (ptab (psys demo_life) 2)" and d: "p_pid (ptab (psys demo_life) 2) = 51" "p_pgrp (ptab (psys demo_life) 2) = 50"
    "p_pptr (ptab (psys demo_life) 2) = 1" by (simp_all add: demo_fields)
  note D = dead_child[OF demo_life_inv _ _ v L1 k, simplified]
  have only: "\<forall>x \<in> procs s2. p_pptr (ptab s2 x) = u_procp s2 \<longrightarrow> x = 2"
    using D(8,10) unfolding u by (auto simp: demo_procs demo_fields NPROC_def)
  have "2 \<noteq> (0::nat)" "2 \<noteq> (1::nat)" "u_procp s2 = p_pptr (ptab (psys demo_life) 2)" using u d by simp_all
  note W = exit_wait_round_trip[OF demo_life_inv this(1,2) v L1 k this(3), where nh = False and un = False and cru = "[]", unfolded d]
  have "\<exists>L2. wait1 (Some True) None False False (-1) [] (L1\<lparr>psys := s2\<rparr>) = (Child_Gone 51 256, [], L2)"
    using W[THEN conjunct1, rule_format, of "-1" "Some True" None] by (auto simp: ruadd_def)
  moreover have "wait1 (Some True) None False False (-50) [] (L1\<lparr>psys := s2\<rparr>) = (Wait_Error ECHILD, [], L1\<lparr>psys := s2\<rparr>)"
    using W[THEN conjunct2] only by simp
  ultimately show ?thesis using L1 u k by blast
qed

end
