(* ===== verification/Crc32.thy ===== *)
theory Crc32
  imports Prelude
begin

text \<open>
  The CRC-32 of the packed executable loader (\<open>sys/kern/subr_crc32.c\<close>,
  \<open>sys/sys/exec_hsaout.h\<close>).  \<open>unsigned\<close> is a 32-bit word and a buffer is the list of its
  bytes.  The table-driven routine is shown equal to the definition of the checksum one bit at
  a time, and corruption confined to four neighbouring bytes to change the result.
\<close>

unbundle bit_operations_syntax

section \<open>The routine\<close>

definition crc32_nibble :: "32 word list" where
  "crc32_nibble =
     [0x00000000, 0x1db71064, 0x3b6e20c8, 0x26d930ac,
      0x76dc4190, 0x6b6b51f4, 0x4db26158, 0x5005713c,
      0xedb88320, 0xf00f9344, 0xd6d6a3e8, 0xcb61b38c,
      0x9b64c2b0, 0x86d3d2d4, 0xa00ae278, 0xbdbdf21c]"

text \<open>One table lookup of the loop body.\<close>

definition crc32_half :: "32 word \<Rightarrow> 32 word" where
  "crc32_half crc = drop_bit 4 crc XOR crc32_nibble ! unat (crc AND 15)"

fun crc32_update :: "32 word \<Rightarrow> 8 word list \<Rightarrow> 32 word" where
  "crc32_update crc [] = crc"
| "crc32_update crc (b # bs) =
     (let crc = crc XOR ucast b;
          crc = crc32_half crc;
          crc = crc32_half crc
      in crc32_update crc bs)"

definition CRC32_INIT :: "32 word" where
  "CRC32_INIT = 0xffffffff"

definition CRC32_FIN :: "32 word \<Rightarrow> 32 word" where
  "CRC32_FIN crc = crc XOR 0xffffffff"

section \<open>The checksum one bit at a time\<close>

text \<open>
  One step of the reflected division by the polynomial \<open>0xedb88320\<close>, and the checksum of IEEE
  802.3 as it defines it: each byte enters at the low end and is shifted out bit by bit.
\<close>

definition crc_shift :: "32 word \<Rightarrow> 32 word" where
  "crc_shift c = (if bit c 0 then drop_bit 1 c XOR 0xedb88320 else drop_bit 1 c)"

fun crc32_bits :: "32 word \<Rightarrow> 8 word list \<Rightarrow> 32 word" where
  "crc32_bits c [] = c"
| "crc32_bits c (b # bs) = crc32_bits ((crc_shift ^^ 8) (c XOR ucast b)) bs"

lemma xor_cancel: "a XOR c = b XOR c \<Longrightarrow> a = (b :: 'a::len word)"
  by (metis xor.assoc xor_self_eq xor.right_neutral)

lemma crc_shift_xor: "crc_shift (a XOR b) = crc_shift a XOR crc_shift b"
  by (auto simp: crc_shift_def bit_xor_iff bit_eq_iff bit_drop_bit_eq)

lemma crc_shifts_xor: "(crc_shift ^^ n) (a XOR b) = (crc_shift ^^ n) a XOR (crc_shift ^^ n) b"
  by (induction n) (simp_all add: crc_shift_xor)

lemma crc_shift_low: "\<not> bit c 0 \<Longrightarrow> crc_shift c = drop_bit 1 c"
  by (simp add: crc_shift_def)

lemma crc_shifts_low: "(\<And>k. k < n \<Longrightarrow> \<not> bit c k) \<Longrightarrow> (crc_shift ^^ n) c = drop_bit n c"
proof (induction n arbitrary: c)
  case (Suc n)
  have "(crc_shift ^^ Suc n) c = (crc_shift ^^ n) (drop_bit 1 c)"
    using Suc.prems[of 0] by (simp add: funpow_swap1 crc_shift_low)
  also have "\<dots> = drop_bit n (drop_bit 1 c)"
    using Suc.prems by (intro Suc.IH) (simp add: bit_drop_bit_eq)
  finally show ?case by simp
qed simp

lemma nibble_table: "i < 16 \<Longrightarrow> crc32_nibble ! i = (crc_shift ^^ 4) (of_nat i)"
proof -
  have "\<forall>i<16. crc32_nibble ! i = (crc_shift ^^ 4) (of_nat i)"
    unfolding crc32_nibble_def crc_shift_def by code_simp
  then show "i < 16 \<Longrightarrow> ?thesis" by blast
qed

text \<open>A table lookup is four bit steps.\<close>

lemma crc32_half_shifts: "crc32_half c = (crc_shift ^^ 4) c"
proof -
  have low: "c AND 15 = take_bit 4 c"
    by (simp add: take_bit_eq_mask mask_eq_exp_minus_1)
  define lo hi where "lo = take_bit 4 c" and "hi = push_bit 4 (drop_bit 4 c)"
  have c: "c = hi XOR lo"
    unfolding lo_def hi_def by (auto simp: bit_eq_iff bit_simps)
  have "unat lo < 16"
    by (simp add: lo_def take_bit_eq_mod unat_mod)
  then have table: "crc32_nibble ! unat lo = (crc_shift ^^ 4) lo"
    using nibble_table[of "unat lo"] by simp
  have "(crc_shift ^^ 4) hi = drop_bit 4 hi"
    by (rule crc_shifts_low) (simp add: hi_def bit_simps)
  also have "\<dots> = drop_bit 4 c"
    unfolding hi_def by (auto simp: bit_eq_iff bit_simps dest: bit_imp_le_length)
  finally have hi: "(crc_shift ^^ 4) hi = drop_bit 4 c" .
  have "(crc_shift ^^ 4) c = (crc_shift ^^ 4) hi XOR (crc_shift ^^ 4) lo"
    using c by (simp add: crc_shifts_xor)
  then show ?thesis
    by (simp add: crc32_half_def low table hi flip: lo_def)
qed

lemma crc32_update_bits: "crc32_update c bs = crc32_bits c bs"
  by (induction bs arbitrary: c) (simp_all add: crc32_half_shifts flip: funpow_add[THEN fun_cong, simplified])

section \<open>What it detects\<close>

text \<open>
  The shift is undone from its top bit, which tells whether the polynomial was added: the
  checksum of two texts is the same only if the checksums before a common tail were.
\<close>

lemma crc_shift_top: "bit (crc_shift c) 31 = bit c 0"
  by (auto simp: crc_shift_def bit_simps dest: bit_imp_le_length)

lemma crc_shift_inj: "crc_shift a = crc_shift b \<Longrightarrow> a = b"
proof -
  assume eq: "crc_shift a = crc_shift b"
  then have low: "bit a 0 = bit b 0" using crc_shift_top by metis
  have "drop_bit 1 a = drop_bit 1 b"
    using eq low by (auto simp: crc_shift_def split: if_splits dest: xor_cancel)
  then have "\<And>n. bit a (1 + n) = bit b (1 + n)"
    by (metis bit_drop_bit_eq comp_apply)
  then have "bit a n = bit b n" for n
    using low by (cases n) auto
  then show "a = b" by (rule bit_eqI)
qed

lemma crc_shifts_inj: "(crc_shift ^^ n) a = (crc_shift ^^ n) b \<Longrightarrow> a = b"
  by (induction n) (auto dest: crc_shift_inj)

lemma crc32_bits_inj: "crc32_bits a bs = crc32_bits b bs \<Longrightarrow> a = b"
proof (induction bs arbitrary: a b)
  case (Cons x bs)
  then have "(crc_shift ^^ 8) (a XOR ucast x) = (crc_shift ^^ 8) (b XOR ucast x)" by simp
  then have "a XOR ucast x = b XOR ucast x" by (rule crc_shifts_inj)
  then show ?case by (rule xor_cancel)
qed simp

text \<open>Up to four bytes enter the register as one little-endian word.\<close>

fun le_word :: "8 word list \<Rightarrow> 32 word" where
  "le_word [] = 0"
| "le_word (b # bs) = ucast b XOR push_bit 8 (le_word bs)"

lemma le_word_bound: "bit (le_word bs) n \<Longrightarrow> n < 8 * length bs"
proof (induction bs arbitrary: n)
  case (Cons b bs)
  consider "bit b n" | "8 \<le> n" "bit (le_word bs) (n - 8)"
    using Cons.prems by (auto simp: bit_simps)
  then show ?case
  proof cases
    case 1
    then have "n < 8" using bit_imp_le_length by fastforce
    then show ?thesis by simp
  next
    case 2
    then show ?thesis using Cons.IH[of "n - 8"] by simp
  qed
qed simp

lemma le_word_inj:
  "length xs = length ys \<Longrightarrow> length xs \<le> 4 \<Longrightarrow> le_word xs = le_word ys \<Longrightarrow> xs = ys"
proof (induction xs ys rule: list_induct2)
  case (Cons x xs y ys)
  have same: "bit (le_word (x # xs)) n = bit (le_word (y # ys)) n" for n
    using Cons.prems by simp
  have "bit x n = bit y n" if "n < 8" for n
    using same[of n] that by (simp add: bit_simps)
  then have "x = y" by (auto simp: bit_eq_iff dest: bit_imp_le_length)
  moreover have "bit (le_word xs) n = bit (le_word ys) n" for n
  proof (cases "n < 24")
    case True
    then show ?thesis using same[of "n + 8"] \<open>x = y\<close> by (auto simp: bit_simps)
  next
    case False
    then show ?thesis
      using Cons.prems Cons.hyps le_word_bound[of xs n] le_word_bound[of ys n] by auto
  qed
  then have "le_word xs = le_word ys" by (rule bit_eqI)
  ultimately show ?case using Cons by simp
qed simp

lemma crc32_bits_le_word:
  "length bs \<le> 4 \<Longrightarrow> crc32_bits c bs = (crc_shift ^^ (8 * length bs)) (c XOR le_word bs)"
proof (induction bs arbitrary: c)
  case (Cons b bs)
  have "(crc_shift ^^ 8) (push_bit 8 (le_word bs)) = drop_bit 8 (push_bit 8 (le_word bs))"
    by (rule crc_shifts_low) (simp add: bit_simps)
  also have "\<dots> = le_word bs"
  proof (rule bit_eqI)
    fix n
    show "bit (drop_bit 8 (push_bit 8 (le_word bs))) n = bit (le_word bs) n"
      using Cons.prems le_word_bound[of bs n] by (auto simp: bit_simps)
  qed
  finally have w: "(crc_shift ^^ 8) (push_bit 8 (le_word bs)) = le_word bs" .
  have "crc32_bits c (b # bs) = (crc_shift ^^ (8 * length bs)) ((crc_shift ^^ 8) (c XOR ucast b) XOR le_word bs)"
    using Cons by simp
  also have "(crc_shift ^^ 8) (c XOR ucast b) XOR le_word bs = (crc_shift ^^ 8) (c XOR le_word (b # bs))"
    by (subst w[symmetric]) (simp only: le_word.simps crc_shifts_xor xor.assoc)
  finally show ?case
    by (simp add: funpow_add[THEN fun_cong, simplified, symmetric] add.commute)
qed simp

lemma crc32_bits_append: "crc32_bits c (xs @ ys) = crc32_bits (crc32_bits c xs) ys"
  by (induction xs arbitrary: c) simp_all

lemma crc32_bits_burst:
  assumes "length ys = length zs" and "length ys \<le> 4"
    and "crc32_bits c (xs @ ys @ ws) = crc32_bits c (xs @ zs @ ws)"
  shows "ys = zs"
proof -
  have "crc32_bits (crc32_bits c xs) ys = crc32_bits (crc32_bits c xs) zs"
    using assms(3) by (auto simp: crc32_bits_append dest: crc32_bits_inj)
  then have "crc32_bits c xs XOR le_word ys = crc32_bits c xs XOR le_word zs"
    using assms by (simp add: crc32_bits_le_word crc_shifts_inj)
  then have "le_word ys = le_word zs" by (simp only: xor.commute[of "crc32_bits c xs"] xor_cancel)
  then show ?thesis by (rule le_word_inj[OF assms(1,2)])
qed

text \<open>
  C26. The nibble-table loop of \<open>crc32_update\<close> computes the CRC-32 of its definition, shifting the
  reflected polynomial one bit at a time, for every starting value and every buffer.
\<close>

theorem crc32_is_ieee:
  "crc32_update c bs = crc32_bits c bs \<and>
   CRC32_FIN (crc32_update CRC32_INIT bs) = NOT (crc32_bits (NOT 0) bs)"
proof
  show "crc32_update c bs = crc32_bits c bs" by (rule crc32_update_bits)
  have ones: "(0xffffffff :: 32 word) = NOT 0" by simp
  show "CRC32_FIN (crc32_update CRC32_INIT bs) = NOT (crc32_bits (NOT 0) bs)"
    unfolding CRC32_FIN_def CRC32_INIT_def crc32_update_bits ones by simp
qed

text \<open>
  A checksum that agrees proves that no damage is confined to four consecutive bytes: two
  texts of the same length that differ only there have different checksums.
\<close>

lemma crc32_detects_burst:
  assumes "length ys = length zs" and "length ys \<le> 4" and "ys \<noteq> zs"
  shows "CRC32_FIN (crc32_update CRC32_INIT (xs @ ys @ ws)) \<noteq> CRC32_FIN (crc32_update CRC32_INIT (xs @ zs @ ws))"
proof
  assume "CRC32_FIN (crc32_update CRC32_INIT (xs @ ys @ ws)) = CRC32_FIN (crc32_update CRC32_INIT (xs @ zs @ ws))"
  then have "crc32_bits CRC32_INIT (xs @ ys @ ws) = crc32_bits CRC32_INIT (xs @ zs @ ws)"
    unfolding CRC32_FIN_def crc32_update_bits by (rule xor_cancel)
  then show False using crc32_bits_burst[OF assms(1,2)] assms(3) by blast
qed

end
