(* ===== verification/Hsx.thy ===== *)
theory Hsx
  imports Crc32
begin

text \<open>
  Packed executables: the heatshrink decoder (\<open>sys/arch/rp2040/rp2040/hsx_decoder.c\<close>), the
  expansion of one stream (\<open>hsx_stream.c\<close>), the header checks (\<open>sys/sys/exec_hsaout.h\<close>) and the
  loader's use of them (\<open>exec_hsaout.c\<close>).

  A byte buffer is a list of bytes and a pointer into it an index; an access outside the buffer
  is the fault \<open>Wild\<close>.  The input between \<open>ip\<close> and \<open>ie\<close> is the list of the bytes still to be
  read.  \<open>unsigned\<close> values that are only counted or compared are natural numbers, reduced
  modulo \<open>2^32\<close> where the code adds or subtracts; the bit buffer \<open>acc\<close> is a 32-bit word.
\<close>

section \<open>The decoder\<close>

record hsx_dec =
  d_ip :: "8 word list"
  d_acc :: "32 word"
  d_sh :: int
  d_pos :: nat
  d_cnt :: nat
  d_off :: nat
  d_lb :: nat
  d_win :: "8 word list"

abbreviation HSXD_WINDOW_BITS :: nat where "HSXD_WINDOW_BITS \<equiv> 9"
abbreviation HSXD_WINDOW :: nat where "HSXD_WINDOW \<equiv> 512"
abbreviation HSX_LOOKAHEAD :: nat where "HSX_LOOKAHEAD \<equiv> 3"

definition hsx_dec_init :: "nat \<Rightarrow> hsx_dec \<Rightarrow> hsx_dec" where
  "hsx_dec_init lookahead d =
     d\<lparr>d_ip := [], d_acc := 0, d_sh := 24, d_pos := 0, d_cnt := 0, d_off := 0, d_lb := lookahead\<rparr>"

definition hsx_dec_input :: "8 word list \<Rightarrow> hsx_dec \<Rightarrow> hsx_dec" where
  "hsx_dec_input p d = d\<lparr>d_ip := p\<rparr>"

text \<open>The refill loop: bytes enter the bit buffer below its valid bits.\<close>

fun hsx_refill :: "8 word list \<Rightarrow> 32 word \<Rightarrow> int \<Rightarrow> 8 word list \<times> 32 word \<times> int" where
  "hsx_refill [] acc sh = ([], acc, sh)"
| "hsx_refill (b # bs) acc sh =
     (if sh \<ge> 0 then hsx_refill bs (acc OR push_bit (nat sh) (ucast b)) (sh - 8) else (b # bs, acc, sh))"

definition hsx_put :: "8 word list \<Rightarrow> nat \<Rightarrow> 8 word \<Rightarrow> 8 word list res" where
  "hsx_put base op b = (if op < length base then Inr (base[op := b]) else Inl Wild)"

fun hsx_zeros :: "nat \<Rightarrow> nat \<Rightarrow> nat \<Rightarrow> nat \<Rightarrow> 8 word list \<Rightarrow> (nat \<times> nat \<times> nat \<times> 8 word list) res" where
  "hsx_zeros 0 pos off op base = Inr (0, pos, op, base)"
| "hsx_zeros (Suc n) pos off op base =
     (if pos < off then andthen (hsx_put base op 0) (hsx_zeros n (u32 (pos + 1)) off (op + 1))
      else Inr (Suc n, pos, op, base))"

fun hsx_back :: "nat \<Rightarrow> nat \<Rightarrow> nat \<Rightarrow> nat \<Rightarrow> 8 word list \<Rightarrow> (nat \<times> 8 word list) res" where
  "hsx_back 0 src msk op base = Inr (op, base)"
| "hsx_back (Suc n) src msk op base =
     (if (src AND msk) < length base
      then andthen (hsx_put base op (base ! (src AND msk))) (hsx_back n (u32 (src + 1)) msk (op + 1))
      else Inl Wild)"

text \<open>The label \<open>copy\<close>: the part of the pending back-reference that fits before \<open>lim\<close>.\<close>

definition hsx_copy :: "nat \<Rightarrow> nat \<Rightarrow> nat \<Rightarrow> hsx_dec \<Rightarrow> nat \<Rightarrow> 8 word list \<Rightarrow> (hsx_dec \<times> nat \<times> 8 word list) res" where
  "hsx_copy msk op0 lim d op base =
     (let n = lim - op;
          n = (if n > d_cnt d then d_cnt d else n);
          pos = u32 (d_pos d + (op - op0))
      in andthen (hsx_zeros n pos (d_off d) op base)
           (\<lambda>(n', pos', op', base').
              andthen (hsx_back n' (usub32 pos' (d_off d)) msk op' base')
                (\<lambda>(op'', base''). Inr (d\<lparr>d_cnt := d_cnt d - n\<rparr>, op'', base''))))"

text \<open>The main loop; it stores at least one byte in each round, so \<open>room + 1\<close> rounds are enough.\<close>

primrec hsx_loop :: "nat \<Rightarrow> nat \<Rightarrow> nat \<Rightarrow> nat \<Rightarrow> hsx_dec \<Rightarrow> nat \<Rightarrow> 8 word list \<Rightarrow> (hsx_dec \<times> nat \<times> 8 word list) res" where
  "hsx_loop 0 msk op0 lim d op base = Inl Hang"
| "hsx_loop (Suc fuel) msk op0 lim d op base =
     (if op = lim then Inr (d, op, base)
      else
        let (stall, d) =
              (if d_sh d > 6
               then let (ip, acc, sh) = hsx_refill (d_ip d) (d_acc d) (d_sh d)
                    in (sh > 15, d\<lparr>d_ip := ip, d_acc := acc, d_sh := sh\<rparr>)
               else (False, d));
            lb = d_lb d; acc = d_acc d
        in if stall then Inr (d, op, base)
           else if acc <s 0 then
             andthen (hsx_put base op (ucast (drop_bit 23 acc)))
               (hsx_loop fuel msk op0 lim (d\<lparr>d_acc := push_bit 9 acc, d_sh := d_sh d + 9\<rparr>) (op + 1))
           else if d_sh d > 14 - int lb then Inr (d, op, base)
           else
             andthen
               (hsx_copy msk op0 lim
                 (d\<lparr>d_acc := push_bit (1 + HSXD_WINDOW_BITS + lb) acc,
                    d_sh := d_sh d + int (1 + HSXD_WINDOW_BITS + lb),
                    d_cnt := unat (drop_bit (31 - HSXD_WINDOW_BITS - lb) acc AND (push_bit lb 1 - 1)) + 1,
                    d_off := unat (drop_bit (31 - HSXD_WINDOW_BITS) acc AND (of_nat HSXD_WINDOW - 1)) + 1\<rparr>)
                 op base)
               (\<lambda>(d, op, base). hsx_loop fuel msk op0 lim d op base))"

definition hsx_dec_run :: "hsx_dec \<Rightarrow> 8 word list \<Rightarrow> nat \<Rightarrow> nat \<Rightarrow> (nat \<times> hsx_dec \<times> 8 word list) res" where
  "hsx_dec_run d base msk room =
     (let op0 = d_pos d AND msk; lim = op0 + room
      in andthen (if d_cnt d \<noteq> 0 then hsx_copy msk op0 lim d op0 base else Inr (d, op0, base))
           (\<lambda>(d1, op1, base1).
              andthen (hsx_loop (room + 1) msk op0 lim d1 op1 base1)
                (\<lambda>(d2, op2, base2).
                   let n = op2 - op0
                   in Inr (n, d2\<lparr>d_pos := u32 (d_pos d2 + n)\<rparr>, base2))))"

section \<open>Expanding one stream\<close>

definition HSX_STAGE :: nat where
  "HSX_STAGE = 1024 - 544"

text \<open>
  Where the next bytes go: into \<open>dst\<close> while room remains there, else into the decoder's ring, a
  contiguous run at a time, and one byte at a time once \<open>rlen\<close> bytes are out.  \<open>dst\<close> is \<open>None\<close>
  for the null pointer.
\<close>

definition hsx_room :: "nat \<Rightarrow> 8 word list option \<Rightarrow> nat \<Rightarrow> bool \<times> nat \<times> nat" where
  "hsx_room rlen dst out =
     (let room = usub32 rlen out
      in if room \<noteq> 0 \<and> dst \<noteq> None then (True, not32 0, room)
         else
           let msk = HSXD_WINDOW - 1
           in (False, msk,
               if room > HSXD_WINDOW - (out AND msk) then HSXD_WINDOW - (out AND msk)
               else if room = 0 then 1 else room))"

text \<open>
  The inner loop over one staged chunk.  The first component of the result says whether the
  stream was refused; the loop runs at most once per output byte, once to find the stream
  stalled and once past its end.
\<close>

primrec hsx_drain ::
  "nat \<Rightarrow> nat \<Rightarrow> hsx_dec \<Rightarrow> 8 word list option \<Rightarrow> nat \<Rightarrow> 32 word
     \<Rightarrow> (bool \<times> hsx_dec \<times> 8 word list option \<times> nat \<times> 32 word) res" where
  "hsx_drain 0 rlen d dst out c = Inl Hang"
| "hsx_drain (Suc fuel) rlen d dst out c =
     (case hsx_room rlen dst out of (linear, msk, room) \<Rightarrow>
        andthen (hsx_dec_run d (if linear then the dst else d_win d) msk room)
          (\<lambda>(n, d, base).
             let dst = (if linear then Some base else dst);
                 d = (if linear then d else d\<lparr>d_win := base\<rparr>)
             in if n \<noteq> 0 \<and> out = rlen then Inr (True, d, dst, out, c)
                else
                  let c = (if n \<noteq> 0 then crc32_update c (take n (drop (out AND msk) base)) else c);
                      out = u32 (out + n)
                  in if n = room then hsx_drain fuel rlen d dst out c
                     else Inr (False, d, dst, out, c)))"

text \<open>
  The outer loop over the chunks that \<open>fill\<close> reads; \<open>fill\<close> yields \<open>None\<close> for a failed read.  Every
  round reads at least one byte, so \<open>clen + 1\<close> rounds are enough.
\<close>

primrec hsx_chunks ::
  "nat \<Rightarrow> (nat \<Rightarrow> nat \<Rightarrow> 8 word list option) \<Rightarrow> nat \<Rightarrow> nat \<Rightarrow> nat \<Rightarrow> nat \<Rightarrow> hsx_dec \<Rightarrow> 8 word list option \<Rightarrow> nat
     \<Rightarrow> 32 word \<Rightarrow> (bool \<times> hsx_dec \<times> 8 word list option \<times> nat \<times> 32 word) res" where
  "hsx_chunks 0 fill off clen rlen inn d dst out c = Inl Hang"
| "hsx_chunks (Suc fuel) fill off clen rlen inn d dst out c =
     (if inn < clen then
        let avail = clen - inn;
            avail = (if avail > HSX_STAGE then HSX_STAGE else avail)
        in case fill (u32 (off + inn)) avail of
             None \<Rightarrow> Inr (True, d, dst, out, c)
           | Some stage \<Rightarrow>
               andthen (hsx_drain (rlen - out + 2) rlen (hsx_dec_input stage d) dst out c)
                 (\<lambda>(failed, d, dst, out, c).
                    if failed then Inr (True, d, dst, out, c)
                    else hsx_chunks fuel fill off clen rlen (inn + avail) d dst out c)
      else Inr (False, d, dst, out, c))"

text \<open>The result is \<open>0\<close> or \<open>-1\<close>, the checksum (\<open>crc\<close> as the caller set it on failure) and the destination.\<close>

definition hsx_expand ::
  "hsx_dec \<Rightarrow> (nat \<Rightarrow> nat \<Rightarrow> 8 word list option) \<Rightarrow> nat \<Rightarrow> nat \<Rightarrow> 8 word list option \<Rightarrow> nat \<Rightarrow> 32 word
     \<Rightarrow> (int \<times> 32 word \<times> 8 word list option) res" where
  "hsx_expand w fill off clen dst rlen crc =
     andthen (hsx_chunks (clen + 1) fill off clen rlen 0 (hsx_dec_init HSX_LOOKAHEAD w) dst 0 CRC32_INIT)
       (\<lambda>(failed, d, dst, out, c).
          if failed \<or> out \<noteq> rlen then Inr (-1, crc, dst) else Inr (0, CRC32_FIN c, dst))"

end
