(* ===== verification/Hsx_Stream.thy ===== *)
theory Hsx_Stream
  imports Hsx
begin

text \<open>
  What the heatshrink decoder computes.  The reference reads the bit stream token by token, most
  significant bit first: \<open>hsx_instrs\<close> gives one instruction per output byte, a literal or a
  distance to copy from, and \<open>hsx_text\<close> carries the instructions out.  The decoder is shown to
  follow it whatever the chunks of input and the room it is given, without an access outside its
  buffers.
\<close>

section \<open>The stream format\<close>

datatype hsx_instr = Byte "8 word" | Back nat

definition bits_val :: "bool list \<Rightarrow> nat" where
  "bits_val bs = horner_sum of_bool 2 (rev bs)"

function hsx_instrs :: "nat \<Rightarrow> bool list \<Rightarrow> hsx_instr list" where
  "hsx_instrs lb [] = []"
| "hsx_instrs lb (True # r) =
     (if 8 \<le> length r then Byte (of_nat (bits_val (take 8 r))) # hsx_instrs lb (drop 8 r) else [])"
| "hsx_instrs lb (False # r) =
     (if 9 + lb \<le> length r
      then replicate (bits_val (take lb (drop 9 r)) + 1) (Back (bits_val (take 9 r) + 1))
           @ hsx_instrs lb (drop (9 + lb) r)
      else [])"
  by pat_completeness auto
termination
  by (relation "measure (\<lambda>(lb, r). length r)") auto

fun hsx_text :: "8 word list \<Rightarrow> hsx_instr list \<Rightarrow> 8 word list" where
  "hsx_text out [] = out"
| "hsx_text out (Byte b # is) = hsx_text (out @ [b]) is"
| "hsx_text out (Back k # is) = hsx_text (out @ [if length out < k then 0 else out ! (length out - k)]) is"

definition byte_bits :: "8 word \<Rightarrow> bool list" where
  "byte_bits b = map (\<lambda>i. bit b (7 - i)) [0..<8]"

definition stream_bits :: "8 word list \<Rightarrow> bool list" where
  "stream_bits bs = concat (map byte_bits bs)"

text \<open>The text a packed stream stands for.\<close>

definition hsx_decode :: "nat \<Rightarrow> 8 word list \<Rightarrow> 8 word list" where
  "hsx_decode lb bs = hsx_text [] (hsx_instrs lb (stream_bits bs))"

section \<open>The bit buffer\<close>

definition acc_bits :: "32 word \<Rightarrow> nat \<Rightarrow> bool list" where
  "acc_bits acc n = map (\<lambda>i. bit acc (31 - i)) [0..<n]"

definition dec_bits :: "hsx_dec \<Rightarrow> bool list" where
  "dec_bits d = acc_bits (d_acc d) (nat (24 - d_sh d)) @ stream_bits (d_ip d)"

definition acc_ok :: "32 word \<Rightarrow> int \<Rightarrow> bool" where
  "acc_ok acc sh \<longleftrightarrow> -8 \<le> sh \<and> sh \<le> 24 \<and> (\<forall>i. int i < 8 + sh \<longrightarrow> \<not> bit acc i)"

lemma length_byte_bits [simp]: "length (byte_bits b) = 8"
  by (simp add: byte_bits_def)

lemma length_acc_bits [simp]: "length (acc_bits acc n) = n"
  by (simp add: acc_bits_def)

lemma stream_bits_simps [simp]:
  "stream_bits [] = []"
  "stream_bits (b # bs) = byte_bits b @ stream_bits bs"
  "stream_bits (as @ bs) = stream_bits as @ stream_bits bs"
  by (simp_all add: stream_bits_def)

lemma acc_bits_push:
  assumes "k \<le> n" and "n \<le> 32"
  shows "acc_bits (push_bit k acc) (n - k) = drop k (acc_bits acc n)"
proof (rule nth_equalityI)
  fix i assume "i < length (acc_bits (push_bit k acc) (n - k))"
  then have "k \<le> 31 - i" "31 - i < 32" "31 - i - k = 31 - (k + i)" "k + i < n" using assms by auto
  then show "acc_bits (push_bit k acc) (n - k) ! i = drop k (acc_bits acc n) ! i"
    using \<open>i < _\<close> assms by (simp add: acc_bits_def bit_push_bit_iff del: diff_diff_left)
qed (use assms in simp)

lemma acc_ok_push:
  assumes "acc_ok acc sh" and "sh + int k \<le> 24"
  shows "acc_ok (push_bit k acc) (sh + int k)"
  using assms by (auto simp: acc_ok_def bit_simps)

lemma acc_refill_bits:
  assumes "acc_ok acc sh" and "0 \<le> sh"
  shows "acc_bits (acc OR push_bit (nat sh) (ucast b)) (nat (32 - sh)) = acc_bits acc (nat (24 - sh)) @ byte_bits b"
proof (rule nth_equalityI)
  show "length (acc_bits (acc OR push_bit (nat sh) (ucast b)) (nat (32 - sh)))
      = length (acc_bits acc (nat (24 - sh)) @ byte_bits b)"
    using assms by (simp add: acc_ok_def) arith
next
  fix i assume "i < length (acc_bits (acc OR push_bit (nat sh) (ucast b)) (nat (32 - sh)))"
  then have i: "i < nat (32 - sh)" by simp
  have sh: "sh \<le> 24" and low: "\<And>j. int j < 8 + sh \<Longrightarrow> \<not> bit acc j"
    using assms by (auto simp: acc_ok_def)
  define m where "m = nat sh"
  have m: "sh = int m" using assms(2) by (simp add: m_def)
  show "acc_bits (acc OR push_bit (nat sh) (ucast b)) (nat (32 - sh)) ! i
      = (acc_bits acc (nat (24 - sh)) @ byte_bits b) ! i"
  proof (cases "i < 24 - m")
    case True
    then have "\<not> bit b (31 - i - m)" by (auto dest: bit_imp_le_length)
    with True show ?thesis using i sh m
      by (simp add: acc_bits_def nth_append bit_simps nat_diff_distrib')
  next
    case False
    then have "\<not> bit acc (31 - i)" using low[of "31 - i"] i sh m by simp
    moreover have "31 - i - m = 7 - (i - (24 - m))" "m \<le> 31 - i" "i - (24 - m) < 8"
      using False i sh m by auto
    ultimately show ?thesis using False i sh m
      by (auto simp: acc_bits_def byte_bits_def nth_append bit_simps nat_diff_distrib')
  qed
qed

lemma acc_refill_ok:
  assumes "acc_ok acc sh" and "0 \<le> sh"
  shows "acc_ok (acc OR push_bit (nat sh) (ucast (b :: 8 word))) (sh - 8)"
  using assms by (auto simp: acc_ok_def bit_simps)

lemma hsx_refill_ok:
  assumes "acc_ok acc sh" and "hsx_refill bs acc sh = (bs', acc', sh')"
  shows "acc_ok acc' sh' \<and> sh' \<le> sh \<and> (0 \<le> sh' \<longrightarrow> bs' = [])
      \<and> acc_bits acc' (nat (24 - sh')) @ stream_bits bs' = acc_bits acc (nat (24 - sh)) @ stream_bits bs"
  using assms
proof (induction bs acc sh rule: hsx_refill.induct)
  case (2 b bs acc sh)
  show ?case
  proof (cases "0 \<le> sh")
    case True
    let ?acc = "acc OR push_bit (nat sh) (ucast b)"
    have "acc_ok ?acc (sh - 8)" using 2(2) True by (rule acc_refill_ok)
    then show ?thesis
      using 2(1)[OF True] 2(2,3) True acc_refill_bits[OF 2(2) True, of b] by auto
  next
    case False
    then show ?thesis using 2 by auto
  qed
qed auto

section \<open>Fields\<close>

lemma bits_val_word:
  fixes w :: "32 word"
  assumes "k + m \<le> 32"
  shows "bits_val (map (\<lambda>i. bit w (k + m - 1 - i)) [0..<m]) = unat (take_bit m (drop_bit k w))"
proof -
  have "rev (map (\<lambda>i. bit w (k + m - 1 - i)) [0..<m]) = map (bit (drop_bit k w)) [0..<m]"
    by (auto intro!: nth_equalityI simp: rev_nth bit_simps)
  then have "bits_val (map (\<lambda>i. bit w (k + m - 1 - i)) [0..<m]) = horner_sum of_bool 2 (map (bit (drop_bit k w)) [0..<m])"
    by (simp add: bits_val_def)
  also have "\<dots> = horner_sum of_bool 2 (map (bit (unat (drop_bit k w))) [0..<m])"
    by (intro arg_cong[where f = "horner_sum of_bool 2"]) (auto simp: bit_simps)
  finally show ?thesis
    by (simp add: horner_sum_bit_eq_take_bit unsigned_take_bit_eq)
qed

lemma acc_field:
  assumes "j + m \<le> n" and "n \<le> 32"
  shows "bits_val (take m (drop j (acc_bits acc n))) = unat (take_bit m (drop_bit (32 - j - m) acc))"
proof -
  have "take m (drop j (acc_bits acc n)) = map (\<lambda>i. bit acc (32 - j - m + m - 1 - i)) [0..<m]"
    using assms by (auto intro!: nth_equalityI simp: acc_bits_def)
  then show ?thesis using assms by (simp only: bits_val_word[of "32 - j - m" m acc])
qed

lemma sless_zero_bit: "(acc :: 32 word) <s 0 \<longleftrightarrow> bit acc 31"
  using bit_last_iff[of acc] by (simp add: word_sless_alt)

lemma bits_val_less: "bits_val bs < 2 ^ length bs"
  by (metis bits_val_def horner_sum_of_bool_2_less length_rev)

section \<open>Carrying out instructions\<close>

fun instr_val :: "hsx_instr \<Rightarrow> nat \<Rightarrow> nat \<Rightarrow> 8 word list \<Rightarrow> 8 word" where
  "instr_val (Byte b) msk pos base = b"
| "instr_val (Back k) msk pos base = (if pos < k then 0 else base ! ((pos - k) AND msk))"

fun perform :: "hsx_instr list \<Rightarrow> nat \<Rightarrow> nat \<Rightarrow> nat \<Rightarrow> 8 word list \<Rightarrow> 8 word list" where
  "perform [] msk pos op base = base"
| "perform (i # is) msk pos op base = perform is msk (pos + 1) (op + 1) (base[op := instr_val i msk pos base])"

lemma length_perform [simp]: "length (perform is msk pos op base) = length base"
  by (induction "is" arbitrary: pos op base) simp_all

lemma perform_append:
  "perform (is @ js) msk pos op base
     = perform js msk (pos + length is) (op + length is) (perform is msk pos op base)"
  by (induction "is" arbitrary: pos op base) simp_all

text \<open>Every position of the text below \<open>P\<close> has a place in the buffer.\<close>

definition reach :: "8 word list \<Rightarrow> nat \<Rightarrow> nat \<Rightarrow> bool" where
  "reach base msk P \<longleftrightarrow> (\<forall>p<P. (p AND msk) < length base)"

lemma reach_cong: "length base = length base' \<Longrightarrow> reach base msk P \<longleftrightarrow> reach base' msk P"
  by (simp add: reach_def)

lemma hsx_zeros_ok:
  assumes "pos + n < 4294967296" and "op + n \<le> length base"
  shows "hsx_zeros n pos off op base
      = Inr (n - min n (off - pos), pos + min n (off - pos), op + min n (off - pos),
             perform (replicate (min n (off - pos)) (Back off)) msk pos op base)"
  using assms
proof (induction n pos off op base rule: hsx_zeros.induct)
  case (2 n pos off op base)
  show ?case
  proof (cases "pos < off")
    case True
    then have "min (Suc n) (off - pos) = Suc (min n (off - (pos + 1)))" by simp
    moreover have "hsx_zeros n (pos + 1) off (op + 1) (base[op := 0])
        = Inr (n - min n (off - (pos + 1)), pos + 1 + min n (off - (pos + 1)), op + 1 + min n (off - (pos + 1)),
               perform (replicate (min n (off - (pos + 1))) (Back off)) msk (pos + 1) (op + 1) (base[op := 0]))"
      using 2 True by (simp add: hsx_put_def)
    ultimately show ?thesis using 2(2,3) True by (simp add: hsx_put_def)
  next
    case False
    then show ?thesis by simp
  qed
qed simp

lemma hsx_back_ok:
  assumes "off \<le> pos" and "0 < off" and "pos + n < 4294967296" and "op + n \<le> length base" and "reach base msk (pos + n)"
  shows "hsx_back n (pos - off) msk op base = Inr (op + n, perform (replicate n (Back off)) msk pos op base)"
  using assms
proof (induction n arbitrary: pos op base)
  case (Suc n)
  let ?b = "base ! ((pos - off) AND msk)"
  have "((pos - off) AND msk) < length base" using Suc.prems by (auto simp: reach_def)
  moreover have "u32 (pos - off + 1) = (pos + 1) - off" using Suc.prems by simp
  moreover have "hsx_back n ((pos + 1) - off) msk (op + 1) (base[op := ?b])
      = Inr (op + 1 + n, perform (replicate n (Back off)) msk (pos + 1) (op + 1) (base[op := ?b]))"
    using Suc.prems by (intro Suc.IH) (auto simp: reach_def)
  ultimately show ?case using Suc.prems by (simp add: hsx_put_def)
qed simp

lemma hsx_copy_ok:
  assumes "0 < d_off d" and "op0 \<le> op" and "op \<le> lim" and "lim \<le> length base"
    and "d_pos d + (lim - op0) < 4294967296" and "reach base msk (d_pos d + (lim - op0))"
  defines "n \<equiv> min (d_cnt d) (lim - op)"
  shows "hsx_copy msk op0 lim d op base
      = Inr (d\<lparr>d_cnt := d_cnt d - n\<rparr>, op + n,
             perform (replicate n (Back (d_off d))) msk (d_pos d + (op - op0)) op base)"
proof -
  define pos where "pos = d_pos d + (op - op0)"
  define z where "z = min n (d_off d - pos)"
  have n: "(if lim - op > d_cnt d then d_cnt d else lim - op) = n" by (simp add: n_def)
  have bound: "pos + n < 4294967296" "op + n \<le> length base" "pos + n \<le> d_pos d + (lim - op0)"
    using assms by (auto simp: n_def pos_def)
  have pos: "u32 (d_pos d + (op - op0)) = pos" using bound by (simp add: pos_def)
  have zeros: "hsx_zeros n pos (d_off d) op base
      = Inr (n - z, pos + z, op + z, perform (replicate z (Back (d_off d))) msk pos op base)"
    unfolding z_def by (rule hsx_zeros_ok[OF bound(1,2)])
  have refs: "hsx_back (n - z) (usub32 (pos + z) (d_off d)) msk (op + z) (perform (replicate z (Back (d_off d))) msk pos op base)
      = Inr (op + n, perform (replicate n (Back (d_off d))) msk pos op base)"
  proof (cases "n = z")
    case True
    then show ?thesis by simp
  next
    case False
    then have reaches: "d_off d \<le> pos + z" "z \<le> n" unfolding z_def by auto
    have "reach (perform (replicate z (Back (d_off d))) msk pos op base) msk (pos + z + (n - z))"
      using assms(6) bound(3) reaches by (auto simp: reach_def)
    then have "hsx_back (n - z) (pos + z - d_off d) msk (op + z) (perform (replicate z (Back (d_off d))) msk pos op base)
        = Inr (op + z + (n - z), perform (replicate (n - z) (Back (d_off d))) msk (pos + z) (op + z)
                 (perform (replicate z (Back (d_off d))) msk pos op base))"
      using reaches bound assms(1) by (intro hsx_back_ok) auto
    also have "\<dots> = Inr (op + n, perform (replicate n (Back (d_off d))) msk pos op base)"
      using reaches perform_append[of "replicate z (Back (d_off d))" "replicate (n - z) (Back (d_off d))" msk pos op base]
      by (simp flip: replicate_add)
    finally show ?thesis using reaches bound by (simp add: usub32_id)
  qed
  show ?thesis
    unfolding hsx_copy_def Let_def n pos zeros
    by (simp only: andthen_Inr prod.case refs) (simp add: pos_def)
qed

section \<open>Tokens in the bit buffer\<close>

lemma acc_bits_tag: "0 < v \<Longrightarrow> acc_bits acc v = bit acc 31 # drop 1 (acc_bits acc v)"
  by (cases v) (simp_all add: acc_bits_def upt_conv_Cons del: upt_Suc)

lemma token_literal:
  assumes "bit acc 31" and "9 \<le> v" and "v \<le> 32"
  shows "hsx_instrs lb (acc_bits acc v @ r)
      = Byte (ucast (drop_bit 23 acc)) # hsx_instrs lb (acc_bits (push_bit 9 acc) (v - 9) @ r)"
proof -
  have "bits_val (take 8 (drop 1 (acc_bits acc v))) = unat (take_bit 8 (drop_bit 23 acc))"
    using acc_field[of 1 8 v acc] assms by simp
  moreover have "of_nat (unat (take_bit 8 (drop_bit 23 acc))) = (ucast (drop_bit 23 acc) :: 8 word)"
    by (rule bit_eqI) (auto simp: bit_simps)
  ultimately have "(of_nat (bits_val (take 8 (drop 1 (acc_bits acc v)))) :: 8 word) = ucast (drop_bit 23 acc)"
    by simp
  moreover have "drop 8 (drop 1 (acc_bits acc v)) = acc_bits (push_bit 9 acc) (v - 9)"
    using acc_bits_push[of 9 v acc] assms by simp
  ultimately show ?thesis
    using assms by (subst acc_bits_tag) auto
qed

lemma token_reference:
  assumes "\<not> bit acc 31" and "10 + lb \<le> v" and "v \<le> 32"
  shows "hsx_instrs lb (acc_bits acc v @ r)
      = replicate (unat (take_bit lb (drop_bit (22 - lb) acc)) + 1) (Back (unat (take_bit 9 (drop_bit 22 acc)) + 1))
        @ hsx_instrs lb (acc_bits (push_bit (10 + lb) acc) (v - (10 + lb)) @ r)"
proof -
  have "bits_val (take lb (drop 9 (drop 1 (acc_bits acc v)))) = unat (take_bit lb (drop_bit (22 - lb) acc))"
    using acc_field[of 10 lb v acc] assms by simp
  moreover have "bits_val (take 9 (drop 1 (acc_bits acc v))) = unat (take_bit 9 (drop_bit 22 acc))"
    using acc_field[of 1 9 v acc] assms by simp
  moreover have "drop (9 + lb) (drop 1 (acc_bits acc v)) = acc_bits (push_bit (10 + lb) acc) (v - (10 + lb))"
    using acc_bits_push[of "10 + lb" v acc] assms by simp
  ultimately show ?thesis
    using assms by (subst acc_bits_tag) auto
qed

lemma token_none:
  assumes "length bs < 9 \<or> (\<exists>r. bs = False # r) \<and> length bs < 10 + lb"
  shows "hsx_instrs lb bs = []"
proof (cases bs)
  case (Cons b r)
  then show ?thesis using assms by (cases b) auto
qed simp

lemma and_mask_take_bit: "w AND (push_bit k 1 - 1) = take_bit k (w :: 32 word)"
  by (simp add: take_bit_eq_mask mask_eq_decr_exp push_bit_eq_mult)

section \<open>The decoder follows the stream\<close>

definition dec_ok :: "hsx_dec \<Rightarrow> bool" where
  "dec_ok d \<longleftrightarrow> acc_ok (d_acc d) (d_sh d) \<and> 1 \<le> d_lb d \<and> d_lb d \<le> 8 \<and> (d_cnt d \<noteq> 0 \<longrightarrow> 0 < d_off d)"

text \<open>What is still to be produced, when the input \<open>f\<close> follows.\<close>

definition plan :: "hsx_dec \<Rightarrow> bool list \<Rightarrow> hsx_instr list" where
  "plan d f = replicate (d_cnt d) (Back (d_off d)) @ hsx_instrs (d_lb d) (dec_bits d @ f)"

definition stalled :: "hsx_dec \<Rightarrow> bool" where
  "stalled d \<longleftrightarrow> d_cnt d = 0 \<and> d_ip d = [] \<and> plan d [] = []"

text \<open>
  From \<open>d\<close> the instructions \<open>is\<close> are carried out, which leads to \<open>d'\<close>.
\<close>

definition leads :: "hsx_dec \<Rightarrow> hsx_instr list \<Rightarrow> hsx_dec \<Rightarrow> bool" where
  "leads d is d' \<longleftrightarrow> dec_ok d' \<and> d_pos d' = d_pos d \<and> d_lb d' = d_lb d \<and> d_win d' = d_win d
      \<and> (\<forall>f. plan d f = is @ plan d' f)"

lemma leads_refl: "dec_ok d \<Longrightarrow> leads d [] d"
  by (simp add: leads_def)

lemma leads_trans: "leads d is d' \<Longrightarrow> leads d' js d'' \<Longrightarrow> leads d (is @ js) d''"
  by (simp add: leads_def)

lemma leads_refill:
  assumes "dec_ok d" and "hsx_refill (d_ip d) (d_acc d) (d_sh d) = (ip, acc, sh)"
  shows "leads d [] (d\<lparr>d_ip := ip, d_acc := acc, d_sh := sh\<rparr>)" and "0 \<le> sh \<Longrightarrow> ip = []"
  using assms hsx_refill_ok[OF _ assms(2)] by (auto simp: leads_def dec_ok_def plan_def dec_bits_def)

lemma leads_literal:
  assumes "dec_ok d" and "d_cnt d = 0" and "bit (d_acc d) 31" and "d_sh d \<le> 15"
  shows "leads d [Byte (ucast (drop_bit 23 (d_acc d)))] (d\<lparr>d_acc := push_bit 9 (d_acc d), d_sh := d_sh d + 9\<rparr>)"
proof -
  have v: "9 \<le> nat (24 - d_sh d)" "nat (24 - d_sh d) \<le> 32" "nat (24 - (d_sh d + 9)) = nat (24 - d_sh d) - 9"
    using assms by (auto simp: dec_ok_def acc_ok_def)
  show ?thesis
    using assms acc_ok_push[of "d_acc d" "d_sh d" 9] token_literal[OF assms(3) v(1,2)] v(3)
    by (simp add: leads_def dec_ok_def plan_def dec_bits_def)
qed

lemma leads_reference:
  assumes "dec_ok d" and "d_cnt d = 0" and "\<not> bit (d_acc d) 31" and "d_sh d \<le> 14 - int (d_lb d)"
  shows "leads d [] (d\<lparr>d_acc := push_bit (10 + d_lb d) (d_acc d), d_sh := d_sh d + int (10 + d_lb d),
      d_cnt := unat (take_bit (d_lb d) (drop_bit (22 - d_lb d) (d_acc d))) + 1,
      d_off := unat (take_bit 9 (drop_bit 22 (d_acc d))) + 1\<rparr>)"
proof -
  have v: "10 + d_lb d \<le> nat (24 - d_sh d)" "nat (24 - d_sh d) \<le> 32"
    "nat (24 - (d_sh d + int (10 + d_lb d))) = nat (24 - d_sh d) - (10 + d_lb d)"
    using assms by (auto simp: dec_ok_def acc_ok_def)
  show ?thesis
    using assms acc_ok_push[of "d_acc d" "d_sh d" "10 + d_lb d"] token_reference[OF assms(3) v(1,2)] v(3)
    by (simp add: leads_def dec_ok_def plan_def dec_bits_def)
qed

lemma leads_copy:
  assumes "dec_ok d" and "n \<le> d_cnt d"
  shows "leads d (replicate n (Back (d_off d))) (d\<lparr>d_cnt := d_cnt d - n\<rparr>)"
  using assms by (auto simp: leads_def dec_ok_def plan_def dec_bits_def simp flip: replicate_add append_assoc)

text \<open>The refill at the head of the loop.\<close>

definition topped :: "hsx_dec \<Rightarrow> bool \<times> hsx_dec" where
  "topped d =
     (if d_sh d > 6
      then let (ip, acc, sh) = hsx_refill (d_ip d) (d_acc d) (d_sh d)
           in (sh > 15, d\<lparr>d_ip := ip, d_acc := acc, d_sh := sh\<rparr>)
      else (False, d))"

lemma topped_ok:
  assumes "dec_ok d" and "d_cnt d = 0" and "topped d = (stall, d1)"
  shows "leads d [] d1" "d_cnt d1 = 0" "stall \<Longrightarrow> stalled d1" "\<not> stall \<Longrightarrow> d_sh d1 \<le> 15" "d_sh d1 > 6 \<Longrightarrow> d_ip d1 = []"
proof -
  obtain ip acc sh where r: "hsx_refill (d_ip d) (d_acc d) (d_sh d) = (ip, acc, sh)" by (metis prod_cases3)
  note re = leads_refill[OF assms(1) r]
  show "leads d [] d1" "d_cnt d1 = 0" "d_sh d1 > 6 \<Longrightarrow> d_ip d1 = []" "\<not> stall \<Longrightarrow> d_sh d1 \<le> 15"
    using assms r re leads_refl[OF assms(1)] by (auto simp: topped_def split: if_splits)
  show "stalled d1" if stall
  proof -
    have d1: "d1 = d\<lparr>d_ip := ip, d_acc := acc, d_sh := sh\<rparr>" "sh > 15"
      using assms(3) r that by (auto simp: topped_def split: if_splits)
    then have "ip = []" using re(2) by simp
    moreover have "hsx_instrs (d_lb d) (acc_bits acc (nat (24 - sh))) = []"
      using d1(2) by (intro token_none disjI1) simp
    ultimately show ?thesis
      using d1 assms(2) by (simp add: stalled_def plan_def dec_bits_def)
  qed
qed

lemma stalled_reference:
  assumes "dec_ok d" and "d_cnt d = 0" and "d_ip d = []" and "\<not> bit (d_acc d) 31" and "d_sh d > 14 - int (d_lb d)"
  shows "stalled d"
proof -
  let ?v = "nat (24 - d_sh d)"
  have "?v < 10 + d_lb d" using assms by (auto simp: dec_ok_def)
  moreover have "0 < ?v \<Longrightarrow> \<exists>r. acc_bits (d_acc d) ?v = False # r"
    using acc_bits_tag[of ?v "d_acc d"] assms(4) by metis
  ultimately have "hsx_instrs (d_lb d) (acc_bits (d_acc d) ?v) = []"
    by (cases "0 < ?v") (simp_all add: token_none)
  then show ?thesis using assms by (simp add: stalled_def plan_def dec_bits_def)
qed

lemma hsx_loop_Suc:
  "hsx_loop (Suc fuel) msk op0 lim d op base =
     (if op = lim then Inr (d, op, base)
      else case topped d of (stall, d) \<Rightarrow>
        if stall then Inr (d, op, base)
        else if bit (d_acc d) 31 then
          andthen (hsx_put base op (ucast (drop_bit 23 (d_acc d))))
            (hsx_loop fuel msk op0 lim (d\<lparr>d_acc := push_bit 9 (d_acc d), d_sh := d_sh d + 9\<rparr>) (op + 1))
        else if d_sh d > 14 - int (d_lb d) then Inr (d, op, base)
        else
          andthen
            (hsx_copy msk op0 lim
              (d\<lparr>d_acc := push_bit (10 + d_lb d) (d_acc d), d_sh := d_sh d + int (10 + d_lb d),
                 d_cnt := unat (take_bit (d_lb d) (drop_bit (22 - d_lb d) (d_acc d))) + 1,
                 d_off := unat (take_bit 9 (drop_bit 22 (d_acc d))) + 1\<rparr>)
              op base)
            (\<lambda>(d, op, base). hsx_loop fuel msk op0 lim d op base))"
proof -
  have off: "w AND (of_nat 512 - 1) = take_bit 9 (w :: 32 word)" for w
    using and_mask_take_bit[of w 9] by simp
  have nums: "(1 + 9 :: nat) = 10" "(31 - 9 :: nat) = 22" by simp_all
  show ?thesis
    unfolding hsx_loop.simps Let_def topped_def[symmetric, unfolded Let_def] sless_zero_bit and_mask_take_bit off nums
    by (rule refl)
qed

declare hsx_loop.simps(2) [simp del]

text \<open>The outcome of a run that may store from \<open>op\<close> up to \<open>lim\<close>.\<close>

definition follows :: "hsx_dec \<Rightarrow> nat \<Rightarrow> nat \<Rightarrow> nat \<Rightarrow> nat \<Rightarrow> 8 word list \<Rightarrow> (hsx_dec \<times> nat \<times> 8 word list) res \<Rightarrow> bool" where
  "follows d msk op0 lim op base r \<longleftrightarrow>
     (\<exists>is d'. r = Inr (d', op + length is, perform is msk (d_pos d + (op - op0)) op base)
        \<and> leads d is d' \<and> op + length is \<le> lim \<and> (op + length is = lim \<or> stalled d'))"

lemma followsI:
  "leads d is d' \<Longrightarrow> r = Inr (d', op + length is, perform is msk (d_pos d + (op - op0)) op base)
   \<Longrightarrow> op + length is \<le> lim \<Longrightarrow> op + length is = lim \<or> stalled d' \<Longrightarrow> follows d msk op0 lim op base r"
  unfolding follows_def by blast

lemma follows_after:
  assumes "leads d is d1" and "op0 \<le> op" and "op1 = op + length is"
    and "base1 = perform is msk (d_pos d + (op - op0)) op base"
    and "follows d1 msk op0 lim op1 base1 r"
  shows "follows d msk op0 lim op base r"
proof -
  have pos: "d_pos d1 = d_pos d" using assms(1) by (simp add: leads_def)
  have diff: "op + length is - op0 = (op - op0) + length is" using assms(2) by simp
  obtain js d2 where r: "r = Inr (d2, op1 + length js, perform js msk (d_pos d1 + (op1 - op0)) op1 base1)"
    and js: "leads d1 js d2" "op1 + length js \<le> lim" "op1 + length js = lim \<or> stalled d2"
    using assms(5) by (auto simp: follows_def)
  show ?thesis
    using leads_trans[OF assms(1) js(1)] js(2,3) unfolding r assms(3,4)
    by (intro followsI[of d "is @ js" d2]) (simp_all add: perform_append pos diff add.assoc)
qed

definition roomy :: "hsx_dec \<Rightarrow> nat \<Rightarrow> nat \<Rightarrow> nat \<Rightarrow> nat \<Rightarrow> 8 word list \<Rightarrow> bool" where
  "roomy d msk op0 lim op base \<longleftrightarrow> dec_ok d \<and> op0 \<le> op \<and> op \<le> lim \<and> lim \<le> length base
     \<and> d_pos d + (lim - op0) < 4294967296 \<and> reach base msk (d_pos d + (lim - op0))"

lemma roomy_after:
  assumes "roomy d msk op0 lim op base" and "leads d is d1" and "op \<le> op1" and "op1 \<le> lim" and "length base1 = length base"
  shows "roomy d1 msk op0 lim op1 base1"
  using assms reach_cong[OF assms(5), of msk] by (auto simp: roomy_def leads_def)

lemma hsx_copy_follows:
  assumes "roomy d msk op0 lim op base" and "d_cnt d \<noteq> 0"
  shows "\<exists>is d1 base1. hsx_copy msk op0 lim d op base = Inr (d1, op + length is, base1) \<and> leads d is d1
      \<and> base1 = perform is msk (d_pos d + (op - op0)) op base
      \<and> op + length is \<le> lim \<and> (d_cnt d1 = 0 \<or> op + length is = lim) \<and> (op < lim \<longrightarrow> is \<noteq> [])"
proof -
  let ?n = "min (d_cnt d) (lim - op)"
  let ?is = "replicate ?n (Back (d_off d))"
  have "hsx_copy msk op0 lim d op base
      = Inr (d\<lparr>d_cnt := d_cnt d - ?n\<rparr>, op + length ?is, perform ?is msk (d_pos d + (op - op0)) op base)"
    using assms hsx_copy_ok[of d op0 op lim base msk] unfolding roomy_def dec_ok_def length_replicate by blast
  moreover have "leads d ?is (d\<lparr>d_cnt := d_cnt d - ?n\<rparr>)"
    using assms by (intro leads_copy) (auto simp: roomy_def)
  moreover have "op + length ?is \<le> lim" "d_cnt d - ?n = 0 \<or> op + length ?is = lim" "op < lim \<longrightarrow> ?is \<noteq> []"
    using assms by (auto simp: roomy_def)
  ultimately show ?thesis
    by (intro exI[of _ ?is] exI[of _ "d\<lparr>d_cnt := d_cnt d - ?n\<rparr>"] exI[of _ "perform ?is msk (d_pos d + (op - op0)) op base"]) simp
qed

lemma hsx_loop_follows:
  assumes "roomy d msk op0 lim op base" and "d_cnt d = 0 \<or> op = lim" and "lim - op < fuel"
  shows "follows d msk op0 lim op base (hsx_loop fuel msk op0 lim d op base)"
  using assms
proof (induction fuel arbitrary: d op base)
  case (Suc fuel)
  have ok: "dec_ok d" and ops: "op0 \<le> op" "op \<le> lim" "lim \<le> length base" using Suc.prems(1) by (auto simp: roomy_def)
  show ?case
  proof (cases "op = lim")
    case True
    then show ?thesis using leads_refl[OF ok] by (intro followsI[of d "[]" d]) (simp_all add: hsx_loop_Suc)
  next
    case False
    then have cnt: "d_cnt d = 0" and less: "op < lim" using Suc.prems(2) ops by auto
    obtain stall d1 where t: "topped d = (stall, d1)" by fastforce
    note t1 = topped_ok[OF ok cnt t]
    have room1: "roomy d1 msk op0 lim op base" using roomy_after[OF Suc.prems(1) t1(1)] ops by simp
    then have ok1: "dec_ok d1" by (simp add: roomy_def)
    consider (stall) "stall \<or> \<not> bit (d_acc d1) 31 \<and> d_sh d1 > 14 - int (d_lb d1)"
      | (lit) "\<not> stall" "bit (d_acc d1) 31"
      | (ref) "\<not> stall" "\<not> bit (d_acc d1) 31" "\<not> d_sh d1 > 14 - int (d_lb d1)" by blast
    then show ?thesis
    proof cases
      case stall
      have "stalled d1"
      proof (cases stall)
        case False
        then have "d_ip d1 = []" using stall ok1 t1(5) by (auto simp: dec_ok_def)
        then show ?thesis using stalled_reference[OF ok1 t1(2)] stall False by blast
      qed (use t1(3) in simp)
      moreover have "hsx_loop (Suc fuel) msk op0 lim d op base = Inr (d1, op, base)"
        using stall less t by (auto simp: hsx_loop_Suc)
      ultimately show ?thesis using t1(1) ops by (intro followsI[of d "[]" d1]) simp_all
    next
      case lit
      let ?b = "ucast (drop_bit 23 (d_acc d1)) :: 8 word"
      let ?d2 = "d1\<lparr>d_acc := push_bit 9 (d_acc d1), d_sh := d_sh d1 + 9\<rparr>"
      have l: "leads d [Byte ?b] ?d2"
        using leads_trans[OF t1(1) leads_literal[OF ok1 t1(2) lit(2) t1(4)[OF lit(1)]]] by simp
      have "follows ?d2 msk op0 lim (op + 1) (base[op := ?b]) (hsx_loop fuel msk op0 lim ?d2 (op + 1) (base[op := ?b]))"
        using Suc.prems less t1(2) by (intro Suc.IH roomy_after[OF Suc.prems(1) l]) simp_all
      moreover have "hsx_loop (Suc fuel) msk op0 lim d op base = hsx_loop fuel msk op0 lim ?d2 (op + 1) (base[op := ?b])"
        using lit less ops t by (simp add: hsx_loop_Suc hsx_put_def)
      ultimately show ?thesis using ops by (simp only:) (rule follows_after[OF l], simp_all)
    next
      case ref
      define d2 where "d2 = d1\<lparr>d_acc := push_bit (10 + d_lb d1) (d_acc d1), d_sh := d_sh d1 + int (10 + d_lb d1),
        d_cnt := unat (take_bit (d_lb d1) (drop_bit (22 - d_lb d1) (d_acc d1))) + 1,
        d_off := unat (take_bit 9 (drop_bit 22 (d_acc d1))) + 1\<rparr>"
      have l: "leads d [] d2"
        using leads_trans[OF t1(1) leads_reference[OF ok1 t1(2) ref(2)]] ref(3) by (simp add: d2_def)
      have room2: "roomy d2 msk op0 lim op base" using roomy_after[OF Suc.prems(1) l] ops by simp
      have "d_cnt d2 \<noteq> 0" by (simp add: d2_def)
      from hsx_copy_follows[OF room2 this] obtain "is" d3 base3 where
        c: "hsx_copy msk op0 lim d2 op base = Inr (d3, op + length is, base3)" "leads d2 is d3"
          "base3 = perform is msk (d_pos d2 + (op - op0)) op base"
          "op + length is \<le> lim" "d_cnt d3 = 0 \<or> op + length is = lim" "is \<noteq> []"
        using less by blast
      have "length base3 = length base" using c(3) by simp
      then have room3: "roomy d3 msk op0 lim (op + length is) base3"
        using roomy_after[OF room2 c(2) _ c(4)] by simp
      have "0 < length is" using c(6) by simp
      then have "follows d3 msk op0 lim (op + length is) base3 (hsx_loop fuel msk op0 lim d3 (op + length is) base3)"
        using Suc.prems(3) less c(5) by (intro Suc.IH room3) (auto simp del: length_greater_0_conv)
      then have "follows d2 msk op0 lim op base (hsx_loop fuel msk op0 lim d3 (op + length is) base3)"
        using ops(1) c(3) by (intro follows_after[OF c(2)]) simp_all
      moreover have "hsx_loop (Suc fuel) msk op0 lim d op base = hsx_loop fuel msk op0 lim d3 (op + length is) base3"
        unfolding hsx_loop_Suc t prod.case d2_def[symmetric] c(1) andthen_Inr using ref less by simp
      ultimately show ?thesis using ops by (simp only:) (rule follows_after[OF l], simp_all)
    qed
  qed
qed simp

text \<open>
  A run from \<open>d\<close> carries out \<open>is\<close> and ends in \<open>d'\<close>, the position included.
\<close>

definition advances :: "hsx_dec \<Rightarrow> hsx_instr list \<Rightarrow> hsx_dec \<Rightarrow> bool" where
  "advances d is d' \<longleftrightarrow> dec_ok d' \<and> d_pos d' = d_pos d + length is \<and> d_lb d' = d_lb d \<and> d_win d' = d_win d
      \<and> (\<forall>f. plan d f = is @ plan d' f)"

lemma hsx_dec_run_ok:
  assumes "dec_ok d" and "(d_pos d AND msk) + room \<le> length base" and "d_pos d + room < 4294967296"
    and "reach base msk (d_pos d + room)"
  shows "\<exists>is d'. hsx_dec_run d base msk room = Inr (length is, d', perform is msk (d_pos d) (d_pos d AND msk) base)
      \<and> advances d is d' \<and> length is \<le> room \<and> (length is = room \<or> stalled d')"
proof -
  define op0 lim where "op0 = (d_pos d AND msk)" and "lim = op0 + room"
  have room: "roomy d msk op0 lim op0 base" using assms by (simp add: roomy_def lim_def op0_def)
  define start where "start = (if d_cnt d \<noteq> 0 then hsx_copy msk op0 lim d op0 base else Inr (d, op0, base))"
  have "follows d msk op0 lim op0 base
      (andthen start (\<lambda>(d1, op1, base1). hsx_loop (room + 1) msk op0 lim d1 op1 base1))"
  proof (cases "d_cnt d = 0")
    case True
    then show ?thesis using hsx_loop_follows[OF room, of "room + 1"] by (simp add: start_def lim_def)
  next
    case False
    from hsx_copy_follows[OF room this] obtain "is" d1 base1 where
      c: "hsx_copy msk op0 lim d op0 base = Inr (d1, op0 + length is, base1)" "leads d is d1"
        "base1 = perform is msk (d_pos d + (op0 - op0)) op0 base"
        "op0 + length is \<le> lim" "d_cnt d1 = 0 \<or> op0 + length is = lim" by blast
    have "roomy d1 msk op0 lim (op0 + length is) base1"
      using c(3) by (intro roomy_after[OF room c(2) _ c(4)]) simp_all
    then have "follows d1 msk op0 lim (op0 + length is) base1 (hsx_loop (room + 1) msk op0 lim d1 (op0 + length is) base1)"
      using c(5) by (intro hsx_loop_follows) (simp_all add: lim_def)
    then show ?thesis
      using c(1,3) False by (simp add: start_def) (rule follows_after[OF c(2)], simp_all)
  qed
  then obtain "is" d1 where
    r: "andthen start (\<lambda>(d1, op1, base1). hsx_loop (room + 1) msk op0 lim d1 op1 base1)
        = Inr (d1, op0 + length is, perform is msk (d_pos d + (op0 - op0)) op0 base)"
    and l: "leads d is d1" "op0 + length is \<le> lim" "op0 + length is = lim \<or> stalled d1"
    unfolding follows_def by blast
  have "hsx_dec_run d base msk room =
      andthen (andthen start (\<lambda>(d1, op1, base1). hsx_loop (room + 1) msk op0 lim d1 op1 base1))
        (\<lambda>(d2, op2, base2). Inr (op2 - op0, d2\<lparr>d_pos := u32 (d_pos d2 + (op2 - op0))\<rparr>, base2))"
    unfolding hsx_dec_run_def Let_def op0_def[symmetric] lim_def[symmetric] start_def[symmetric]
    by (cases start) (auto split: prod.splits)
  then have "hsx_dec_run d base msk room
      = Inr (length is, d1\<lparr>d_pos := u32 (d_pos d1 + length is)\<rparr>, perform is msk (d_pos d) op0 base)"
    using r by simp
  moreover have "length is \<le> room" using l(2) by (simp add: lim_def)
  moreover from this have "advances d is (d1\<lparr>d_pos := u32 (d_pos d1 + length is)\<rparr>)"
    using l(1) assms(3) by (auto simp: advances_def leads_def dec_ok_def plan_def dec_bits_def)
  moreover have "length is = room \<or> stalled (d1\<lparr>d_pos := u32 (d_pos d1 + length is)\<rparr>)"
    using l(3) by (auto simp: lim_def stalled_def plan_def dec_bits_def)
  ultimately show ?thesis unfolding op0_def by blast
qed

section \<open>The text\<close>

lemma length_hsx_text [simp]: "length (hsx_text out is) = length out + length is"
  by (induction out "is" rule: hsx_text.induct) simp_all

lemma hsx_text_append: "hsx_text out (is @ js) = hsx_text (hsx_text out is) js"
  by (induction out "is" rule: hsx_text.induct) simp_all

lemma take_hsx_text: "take (length out) (hsx_text out is) = out"
proof (induction out "is" rule: hsx_text.induct)
  case (2 out b "is")
  then have "take (length out) (take (length (out @ [b])) (hsx_text (out @ [b]) is)) = out" by simp
  then show ?case by (simp add: take_take del: append_take_drop_id)
next
  case (3 out k "is")
  let ?o = "out @ [if length out < k then 0 else out ! (length out - k)]"
  have "take (length out) (take (length ?o) (hsx_text ?o is)) = out" using 3 by simp
  then show ?case by (simp add: take_take)
qed simp

definition refs_ok :: "hsx_instr list \<Rightarrow> bool" where
  "refs_ok is \<longleftrightarrow> (\<forall>k. Back k \<in> set is \<longrightarrow> 1 \<le> k \<and> k \<le> 512)"

lemma refs_ok_simps [simp]:
  "refs_ok []" "refs_ok (Byte b # is) \<longleftrightarrow> refs_ok is" "refs_ok (Back k # is) \<longleftrightarrow> 1 \<le> k \<and> k \<le> 512 \<and> refs_ok is"
  "refs_ok (is @ js) \<longleftrightarrow> refs_ok is \<and> refs_ok js"
  by (auto simp: refs_ok_def)

lemma hsx_instrs_refs_ok: "refs_ok (hsx_instrs lb bs)"
proof (induction lb bs rule: hsx_instrs.induct)
  case (3 lb r)
  have "bits_val (take 9 r) < 512" if "9 \<le> length r"
    using bits_val_less[of "take 9 r"] that by simp
  then have "9 \<le> length r \<Longrightarrow> refs_ok (replicate n (Back (bits_val (take 9 r) + 1)))" for n
    by (auto simp: refs_ok_def)
  with 3 show ?case by (cases "9 + lb \<le> length r") (simp_all del: replicate_Suc add_Suc_right)
qed simp_all

text \<open>
  The last \<open>W\<close> bytes of the text are in the buffer, each at its place.
\<close>

definition hist :: "nat \<Rightarrow> 8 word list \<Rightarrow> nat \<Rightarrow> 8 word list \<Rightarrow> bool" where
  "hist W out msk base \<longleftrightarrow> (\<forall>p<length out. length out \<le> p + W \<longrightarrow> base ! (p AND msk) = out ! p)"

definition apart :: "nat \<Rightarrow> nat \<Rightarrow> bool" where
  "apart W msk \<longleftrightarrow> (\<forall>p q. p < q \<longrightarrow> q < p + W \<longrightarrow> q < 4294967296 \<longrightarrow> (p AND msk) \<noteq> (q AND msk))"

lemma perform_hist:
  assumes "hist W out msk base" and "apart W msk" and "512 \<le> W" and "refs_ok is"
    and "\<And>j. j < length is \<Longrightarrow> ((length out + j) AND msk) = op + j"
    and "op + length is \<le> length base" and "length out + length is < 4294967296"
  shows "hist W (hsx_text out is) msk (perform is msk (length out) op base)"
  using assms
proof (induction "is" arbitrary: out op base)
  case (Cons i "is")
  define v where "v = instr_val i msk (length out) base"
  have op: "(length out AND msk) = op" "op < length base" using Cons.prems(5)[of 0] Cons.prems(6) by auto
  have h: "hist W (out @ [v]) msk (base[op := v])"
  proof -
    have "base[op := v] ! (p AND msk) = (out @ [v]) ! p" if p: "p < length out" "Suc (length out) \<le> p + W" for p
    proof -
      have "(p AND msk) \<noteq> op" using p Cons.prems(2,7) op(1) by (auto simp: apart_def)
      then show ?thesis using p Cons.prems(1) by (simp add: hist_def nth_append)
    qed
    moreover have "base[op := v] ! (length out AND msk) = v" using op by simp
    ultimately show ?thesis by (auto simp: hist_def less_Suc_eq)
  qed
  have "hsx_text out (i # is) = hsx_text (out @ [v]) is"
  proof (cases i)
    case (Back k)
    then have k: "1 \<le> k" "k \<le> 512" using Cons.prems(4) by auto
    have "base ! ((length out - k) AND msk) = out ! (length out - k)" if "k \<le> length out"
      using Cons.prems(1,3) k that by (auto simp: hist_def)
    then show ?thesis using Back by (simp add: v_def)
  qed (simp add: v_def)
  moreover have "hist W (hsx_text (out @ [v]) is) msk (perform is msk (length (out @ [v])) (op + 1) (base[op := v]))"
  proof (rule Cons.IH[OF h Cons.prems(2,3)])
    show "refs_ok is" using Cons.prems(4) by (cases i) auto
    show "((length (out @ [v]) + j) AND msk) = op + 1 + j" if "j < length is" for j
      using Cons.prems(5)[of "Suc j"] that by simp
  qed (use Cons.prems(6,7) in simp_all)
  ultimately show ?case by (simp add: v_def)
qed simp

lemma perform_frame: "perform is msk pos op base ! i = base ! i" if "i < op \<or> op + length is \<le> i"
  using that by (induction "is" arbitrary: pos op base) auto

lemma hsx_dec_run_text:
  assumes "dec_ok d" and "d_pos d = length out" and "hist W out msk base" and "apart W msk" and "512 \<le> W" and "room \<le> W"
    and "(length out AND msk) + room \<le> length base" and "length out + room < 4294967296"
    and "reach base msk (length out + room)" and "refs_ok (plan d [])"
    and run: "\<And>j. j < room \<Longrightarrow> ((length out + j) AND msk) = (length out AND msk) + j"
  shows "\<exists>is d' base'. hsx_dec_run d base msk room = Inr (length is, d', base')
      \<and> advances d is d' \<and> length is \<le> room \<and> (length is = room \<or> stalled d')
      \<and> length base' = length base \<and> hist W (hsx_text out is) msk base'
      \<and> take (length is) (drop (length out AND msk) base') = drop (length out) (hsx_text out is)
      \<and> (\<forall>i \<ge> (length out AND msk) + room. base' ! i = base ! i)"
proof -
  obtain "is" d' where
    r: "hsx_dec_run d base msk room = Inr (length is, d', perform is msk (length out) (length out AND msk) base)"
    and a: "advances d is d'" "length is \<le> room" "length is = room \<or> stalled d'"
    using hsx_dec_run_ok[of d msk room base] assms by auto
  let ?b = "perform is msk (length out) (length out AND msk) base"
  have "plan d [] = is @ plan d' []" using a(1) by (simp add: advances_def)
  then have "refs_ok is" using assms(10) by simp
  then have h: "hist W (hsx_text out is) msk ?b"
    using assms a(2) by (intro perform_hist) auto
  have "take (length is) (drop (length out AND msk) ?b) = drop (length out) (hsx_text out is)"
  proof (rule nth_equalityI)
    fix j assume "j < length (take (length is) (drop (length out AND msk) ?b))"
    then have j: "j < length is" by simp
    then have "?b ! ((length out + j) AND msk) = hsx_text out is ! (length out + j)"
      using h a(2) assms(6) by (simp add: hist_def)
    then show "take (length is) (drop (length out AND msk) ?b) ! j = drop (length out) (hsx_text out is) ! j"
      using j a(2) run[of j] assms(7) by simp
  qed (use a(2) assms(7) in simp)
  then show ?thesis
    using r a h by (intro exI[of _ "is"] exI[of _ d'] exI[of _ ?b]) (auto simp: perform_frame)
qed

section \<open>Draining a chunk\<close>

lemma linear_and: "p < 4294967296 \<Longrightarrow> (p AND 4294967295) = (p :: nat)"
  using and_pow2_minus_1[of p 32] by simp

lemma ring_and: "(p AND 511) = p mod (512 :: nat)"
  using and_pow2_minus_1[of p 9] by simp

lemma apart_linear: "apart 4294967296 4294967295"
  by (simp add: apart_def linear_and)

lemma apart_ring: "apart 512 511"
proof -
  have "p mod 512 \<noteq> q mod 512" if "p < q" "q < p + 512" for p q :: nat
  proof
    assume "p mod 512 = q mod 512"
    then have "512 dvd q - p" using that(1) by (metis less_or_eq_imp_le mod_eq_dvd_iff_nat)
    then show False using that by (auto dest: dvd_imp_le)
  qed
  then show ?thesis by (simp add: apart_def ring_and)
qed

text \<open>The text so far is where the next back-reference will look for it.\<close>

definition stored :: "nat \<Rightarrow> hsx_dec \<Rightarrow> 8 word list option \<Rightarrow> 8 word list \<Rightarrow> bool" where
  "stored rlen d dst out \<longleftrightarrow> length (d_win d) = 512 \<and>
     (case dst of None \<Rightarrow> hist 512 out 511 (d_win d)
      | Some b \<Rightarrow> rlen \<le> length b \<and> hist 4294967296 out 4294967295 b)"

lemma stored_cong: "d_win d' = d_win d \<Longrightarrow> stored rlen d' dst out = stored rlen d dst out"
  by (simp only: stored_def)

text \<open>The destination outside its first \<open>rlen\<close> bytes stays as it is.\<close>

definition same_tail :: "nat \<Rightarrow> 8 word list option \<Rightarrow> 8 word list option \<Rightarrow> bool" where
  "same_tail rlen dst dst' \<longleftrightarrow> map_option length dst' = map_option length dst
     \<and> (\<forall>b b'. dst = Some b \<longrightarrow> dst' = Some b' \<longrightarrow> (\<forall>i\<ge>rlen. b' ! i = b ! i))"

lemma same_tail_refl [simp]: "same_tail rlen dst dst"
  by (simp add: same_tail_def)

lemma same_tail_trans: "same_tail rlen a b \<Longrightarrow> same_tail rlen b c \<Longrightarrow> same_tail rlen a c"
  by (cases a; cases b; cases c) (auto simp: same_tail_def)

lemma hsx_room_simps:
  assumes "out \<le> rlen" and "rlen < 4294967295"
  shows "hsx_room rlen (Some b) out = (if out = rlen then (False, 511, 1) else (True, 4294967295, rlen - out))"
    and "hsx_room rlen None out
      = (False, 511, if out = rlen then 1 else min (rlen - out) (512 - out mod 512))"
proof -
  have "out mod 512 < 512" by simp
  then show "hsx_room rlen (Some b) out = (if out = rlen then (False, 511, 1) else (True, 4294967295, rlen - out))"
    "hsx_room rlen None out = (False, 511, if out = rlen then 1 else min (rlen - out) (512 - out mod 512))"
    using assms by (auto simp: hsx_room_def Let_def usub32_id not32_def ring_and)
qed

definition moved :: "hsx_dec \<Rightarrow> hsx_instr list \<Rightarrow> hsx_dec \<Rightarrow> bool" where
  "moved d is d' \<longleftrightarrow> dec_ok d' \<and> d_pos d' = d_pos d + length is \<and> d_lb d' = d_lb d
      \<and> (\<forall>f. plan d f = is @ plan d' f)"

lemma moved_trans: "moved d is d' \<Longrightarrow> moved d' js d'' \<Longrightarrow> moved d (is @ js) d''"
  by (simp add: moved_def)

lemma moved_fields: "moved d is d' \<Longrightarrow> dec_ok d' \<and> d_pos d' = d_pos d + length is \<and> d_lb d' = d_lb d"
  by (simp add: moved_def)

lemma moved_plan: "moved d is d' \<Longrightarrow> plan d f = is @ plan d' f"
  by (simp add: moved_def)

lemma moved_advances: "advances d is d' \<Longrightarrow> moved d is d'"
  by (simp add: advances_def moved_def)

lemma moved_win: "advances d is d' \<Longrightarrow> moved d is (d'\<lparr>d_win := w\<rparr>)"
  by (simp add: advances_def moved_def dec_ok_def plan_def dec_bits_def)

lemma stalled_win: "stalled (d\<lparr>d_win := w\<rparr>) = stalled d"
  by (simp add: stalled_def plan_def dec_bits_def)

lemma crc32_update_append: "crc32_update c (xs @ ys) = crc32_update (crc32_update c xs) ys"
  by (induction xs arbitrary: c) simp_all

lemma crc32_update_text:
  "crc32_update (crc32_update c (drop (length out) (hsx_text out is)))
     (drop (length out + length is) (hsx_text out (is @ js)))
   = crc32_update c (drop (length out) (hsx_text out (is @ js)))"
proof -
  define t where "t = hsx_text out (is @ js)"
  have "take (length out + length is) t = hsx_text out is"
    using take_hsx_text[of "hsx_text out is" js] by (simp add: t_def hsx_text_append)
  then have "drop (length out) (hsx_text out is) @ drop (length out + length is) t = drop (length out) t"
    by (metis append_take_drop_id drop_append drop_drop add.commute length_hsx_text diff_is_0_eq le_add1 drop0)
  then show ?thesis by (simp add: t_def flip: crc32_update_append)
qed

text \<open>One pass of the inner loop before the promised length is reached.\<close>

lemma hsx_drain_pass:
  assumes "dec_ok d" and "d_pos d = length out" and "stored rlen d dst out" and "length out < rlen"
    and "rlen < 4294967295" and "refs_ok (plan d [])"
  shows "\<exists>room is d' dst'. 0 < room \<and> length is \<le> room \<and> room \<le> rlen - length out \<and> (length is = room \<or> stalled d')
      \<and> moved d is d' \<and> stored rlen d' dst' (hsx_text out is) \<and> same_tail rlen dst dst'
      \<and> (\<forall>fuel c. hsx_drain (Suc fuel) rlen d dst (length out) c
          = (let c' = crc32_update c (drop (length out) (hsx_text out is))
             in if length is = room then hsx_drain fuel rlen d' dst' (length out + length is) c'
                else Inr (False, d', dst', length out + length is, c')))"
proof (cases dst)
  case (Some b)
  let ?room = "rlen - length out"
  have st: "length (d_win d) = 512" "rlen \<le> length b" "hist 4294967296 out 4294967295 b"
    using assms(3) Some by (auto simp: stored_def)
  have len: "(length out AND 4294967295) = length out" using assms(4,5) by (intro linear_and) simp
  have "reach b 4294967295 (length out + ?room)"
    using st(2) assms(4,5) by (simp add: reach_def linear_and)
  then obtain "is" d' b' where
    r: "hsx_dec_run d b 4294967295 ?room = Inr (length is, d', b')"
    and p: "advances d is d'" "length is \<le> ?room" "length is = ?room \<or> stalled d'" "length b' = length b"
      "hist 4294967296 (hsx_text out is) 4294967295 b'"
      "take (length is) (drop (length out) b') = drop (length out) (hsx_text out is)" "\<forall>i\<ge>rlen. b' ! i = b ! i"
    using hsx_dec_run_text[of d out 4294967296 4294967295 b ?room] assms st apart_linear by (auto simp: linear_and len)
  have "stored rlen d' (Some b') (hsx_text out is)"
    using st p by (simp add: stored_def advances_def)
  moreover have "same_tail rlen dst (Some b')" using p Some by (simp add: same_tail_def)
  moreover have "hsx_drain (Suc fuel) rlen d dst (length out) c
      = (let c' = crc32_update c (drop (length out) (hsx_text out is))
         in if length is = ?room then hsx_drain fuel rlen d' (Some b') (length out + length is) c'
            else Inr (False, d', Some b', length out + length is, c'))" for fuel c
    using r p(2,6) assms(4,5) by (auto simp: Some hsx_room_simps len Let_def)
  ultimately show ?thesis
    using p(1-3) assms(4) by (intro exI[of _ ?room] exI[of _ "is"] exI[of _ d'] exI[of _ "Some b'"]) (simp add: moved_advances)
next
  case None
  let ?room = "min (rlen - length out) (512 - length out mod 512)"
  have st: "length (d_win d) = 512" "hist 512 out 511 (d_win d)"
    using assms(3) None by (auto simp: stored_def)
  have run: "((length out + j) AND 511) = (length out AND 511) + j" if "j < ?room" for j
  proof -
    have "length out mod 512 + j < 512" using that by (simp add: less_diff_conv add.commute)
    then have "(length out mod 512 + j) mod 512 = length out mod 512 + j" by simp
    then show ?thesis by (simp add: ring_and mod_add_left_eq)
  qed
  have bound: "(length out AND 511) + ?room \<le> length (d_win d)" "length out + ?room < 4294967296" "?room \<le> 512"
    using assms(4,5) by (simp_all add: st(1) ring_and)
  have "reach (d_win d) 511 (length out + ?room)" by (simp add: reach_def ring_and st(1))
  with hsx_dec_run_text[OF assms(1,2) st(2) apart_ring order.refl bound(3,1,2) _ assms(6) run] st(1)
  obtain "is" d' b' where
    r: "hsx_dec_run d (d_win d) 511 ?room = Inr (length is, d', b')"
    and p: "advances d is d'" "length is \<le> ?room" "length is = ?room \<or> stalled d'" "length b' = 512"
      "hist 512 (hsx_text out is) 511 b'"
      "take (length is) (drop (length out AND 511) b') = drop (length out) (hsx_text out is)"
    by auto
  have "stored rlen (d'\<lparr>d_win := b'\<rparr>) None (hsx_text out is)" using p by (simp add: stored_def)
  moreover have "hsx_drain (Suc fuel) rlen d dst (length out) c
      = (let c' = crc32_update c (drop (length out) (hsx_text out is))
         in if length is = ?room then hsx_drain fuel rlen (d'\<lparr>d_win := b'\<rparr>) None (length out + length is) c'
            else Inr (False, d'\<lparr>d_win := b'\<rparr>, None, length out + length is, c'))" for fuel c
    using r p(2,6) assms(4,5) by (auto simp: None hsx_room_simps Let_def)
  moreover have "0 < ?room" using assms(4) by simp
  ultimately show ?thesis
    using p(1-3) None by (intro exI[of _ ?room] exI[of _ "is"] exI[of _ "d'\<lparr>d_win := b'\<rparr>"] exI[of _ None])
      (simp add: moved_win stalled_win)
qed

text \<open>The pass past the promised length: any byte it produces refuses the stream.\<close>

lemma hsx_drain_past:
  assumes "dec_ok d" and "d_pos d = rlen" and "length (d_win d) = 512" and "rlen < 4294967295"
  shows "\<exists>d'. hsx_drain (Suc fuel) rlen d dst rlen c = Inr (plan d [] \<noteq> [], d', dst, rlen, c)
      \<and> (plan d [] = [] \<longrightarrow> moved d [] d' \<and> stalled d' \<and> d_win d' = d_win d)"
proof -
  have room: "hsx_room rlen dst rlen = (False, 511, 1)"
    using assms(4) by (cases dst) (simp_all add: hsx_room_simps)
  have "(d_pos d AND 511) + 1 \<le> length (d_win d)" by (simp add: ring_and assms(3) Suc_le_eq)
  moreover have "reach (d_win d) 511 (d_pos d + 1)" by (simp add: reach_def ring_and assms(3))
  ultimately obtain "is" d' where
    r: "hsx_dec_run d (d_win d) 511 1 = Inr (length is, d', perform is 511 (d_pos d) (d_pos d AND 511) (d_win d))"
    and a: "advances d is d'" "length is \<le> 1" "length is = 1 \<or> stalled d'"
    using hsx_dec_run_ok[of d 511 1 "d_win d"] assms by auto
  have plan: "plan d [] = is @ plan d' []" using a(1) by (simp add: advances_def)
  show ?thesis
  proof (cases "is = []")
    case True
    then have "stalled d'" "d_win d' = d_win d" using a by (simp_all add: advances_def)
    moreover from this have "plan d [] = []" using plan True by (simp add: stalled_def)
    ultimately show ?thesis
      using r True room moved_win[OF a(1), of "d_win d"] assms(4) by (simp add: Let_def stalled_win)
  next
    case False
    then show ?thesis using r room plan by (simp add: Let_def)
  qed
qed

declare hsx_drain.simps(2) [simp del]

lemma hsx_drain_ok:
  assumes "dec_ok d" and "d_pos d = length out" and "stored rlen d dst out" and "length out \<le> rlen"
    and "rlen < 4294967295" and "refs_ok (plan d [])" and "rlen - length out + 1 < fuel"
  shows "\<exists>d' dst' out' c'. hsx_drain fuel rlen d dst (length out) c
        = Inr (length out + length (plan d []) > rlen, d', dst', out', c') \<and> same_tail rlen dst dst'
      \<and> (length out + length (plan d []) \<le> rlen \<longrightarrow> out' = length out + length (plan d [])
          \<and> c' = crc32_update c (drop (length out) (hsx_text out (plan d [])))
          \<and> moved d (plan d []) d' \<and> stalled d' \<and> stored rlen d' dst' (hsx_text out (plan d [])))"
  using assms
proof (induction fuel arbitrary: d dst out c)
  case (Suc fuel)
  show ?case
  proof (cases "length out = rlen")
    case True
    have "length (d_win d) = 512" using Suc.prems(3) by (simp add: stored_def)
    from hsx_drain_past[OF Suc.prems(1) _ this Suc.prems(5), of fuel dst c] Suc.prems(2) True obtain d' where
      p: "hsx_drain (Suc fuel) rlen d dst rlen c = Inr (plan d [] \<noteq> [], d', dst, rlen, c)"
        "plan d [] = [] \<Longrightarrow> moved d [] d' \<and> stalled d' \<and> d_win d' = d_win d" by auto
    have "plan d [] = [] \<Longrightarrow> stored rlen d' dst out" using p(2) Suc.prems(3) by (cases dst) (auto simp: stored_def)
    then show ?thesis using p True
      by (intro exI[of _ d'] exI[of _ dst] exI[of _ rlen] exI[of _ c]) auto
  next
    case False
    then have less: "length out < rlen" using Suc.prems(4) by simp
    from hsx_drain_pass[OF Suc.prems(1-3) less Suc.prems(5,6)] obtain room "is" d1 dst1 where
      room: "0 < room" "length is \<le> room" "room \<le> rlen - length out" "length is = room \<or> stalled d1"
      and m: "moved d is d1" and st: "stored rlen d1 dst1 (hsx_text out is)" and tl: "same_tail rlen dst dst1"
      and step: "\<And>fuel c. hsx_drain (Suc fuel) rlen d dst (length out) c
          = (let c' = crc32_update c (drop (length out) (hsx_text out is))
             in if length is = room then hsx_drain fuel rlen d1 dst1 (length out + length is) c'
                else Inr (False, d1, dst1, length out + length is, c'))"
      by blast
    define c1 where "c1 = crc32_update c (drop (length out) (hsx_text out is))"
    have plan: "plan d [] = is @ plan d1 []" using m by (simp add: moved_def)
    show ?thesis
    proof (cases "length is = room")
      case True
      let ?out = "hsx_text out is"
      have "\<exists>d' dst' out' c'. hsx_drain fuel rlen d1 dst1 (length ?out) c1
          = Inr (length ?out + length (plan d1 []) > rlen, d', dst', out', c') \<and> same_tail rlen dst1 dst'
        \<and> (length ?out + length (plan d1 []) \<le> rlen \<longrightarrow> out' = length ?out + length (plan d1 [])
            \<and> c' = crc32_update c1 (drop (length ?out) (hsx_text ?out (plan d1 [])))
            \<and> moved d1 (plan d1 []) d' \<and> stalled d' \<and> stored rlen d' dst' (hsx_text ?out (plan d1 [])))"
        using Suc.prems m st plan True room by (intro Suc.IH) (auto simp: moved_def)
      then show ?thesis
        using step True m tl unfolding plan
        by (auto simp: c1_def Let_def hsx_text_append crc32_update_text[unfolded hsx_text_append]
            intro: moved_trans same_tail_trans)
    next
      case False
      then have "plan d1 [] = []" "stalled d1" using room(4) by (auto simp: stalled_def)
      then show ?thesis
        using step False m st tl room less unfolding plan
        by (intro exI[of _ d1] exI[of _ dst1] exI[of _ "length out + length is"] exI[of _ c1]) (auto simp: c1_def)
    qed
  qed
qed simp

section \<open>Expanding a stream\<close>

text \<open>
  The packed bytes that \<open>fill\<close> reads are those of \<open>data\<close>, where it does not fail.
\<close>

definition serves :: "(nat \<Rightarrow> nat \<Rightarrow> 8 word list option) \<Rightarrow> nat \<Rightarrow> 8 word list \<Rightarrow> bool" where
  "serves fill off data \<longleftrightarrow>
     (\<forall>i n. i + n \<le> length data \<longrightarrow> fill (u32 (off + i)) n \<in> {None, Some (take n (drop i data))})"

definition never_fails :: "(nat \<Rightarrow> nat \<Rightarrow> 8 word list option) \<Rightarrow> nat \<Rightarrow> 8 word list \<Rightarrow> bool" where
  "never_fails fill off data \<longleftrightarrow> (\<forall>i n. i + n \<le> length data \<longrightarrow> fill (u32 (off + i)) n \<noteq> None)"

lemma plan_input: "d_ip d = [] \<Longrightarrow> plan (hsx_dec_input p d) f = plan d (stream_bits p @ f)"
  by (simp add: plan_def hsx_dec_input_def dec_bits_def)

lemma hsx_instrs_mono: "length (hsx_instrs lb bs) \<le> length (hsx_instrs lb (bs @ f))"
  by (induction lb bs rule: hsx_instrs.induct) auto

lemma plan_mono: "length (plan d []) \<le> length (plan d f)"
  using hsx_instrs_mono[of "d_lb d" "dec_bits d" f] by (simp add: plan_def)

text \<open>
  Between two chunks: \<open>ps\<close> is done, and the rest of the stream gives the rest of the
  instructions.
\<close>

definition between :: "nat \<Rightarrow> nat \<Rightarrow> 8 word list \<Rightarrow> nat \<Rightarrow> hsx_dec \<Rightarrow> 8 word list option \<Rightarrow> nat \<Rightarrow> 32 word \<Rightarrow> bool" where
  "between lb rlen data inn d dst out c \<longleftrightarrow>
     (\<exists>ps. hsx_instrs lb (stream_bits data) = ps @ plan d (stream_bits (drop inn data))
        \<and> dec_ok d \<and> d_lb d = lb \<and> stalled d \<and> d_pos d = out \<and> out = length ps \<and> out \<le> rlen
        \<and> stored rlen d dst (hsx_text [] ps) \<and> c = crc32_update CRC32_INIT (hsx_text [] ps))"

lemma hsx_chunks_ok:
  assumes "serves fill off data" and "between lb rlen data inn d dst out c" and "inn \<le> length data"
    and "rlen < 4294967295" and "length data - inn < fuel"
  shows "\<exists>failed d' dst' out' c'. hsx_chunks fuel fill off (length data) rlen inn d dst out c = Inr (failed, d', dst', out', c')
      \<and> same_tail rlen dst dst'
      \<and> (\<not> failed \<longrightarrow> between lb rlen data (length data) d' dst' out' c')
      \<and> (failed \<longrightarrow> length (hsx_instrs lb (stream_bits data)) > rlen \<or> \<not> never_fails fill off data)"
  using assms
proof (induction fuel arbitrary: inn d dst out c)
  case (Suc fuel)
  show ?case
  proof (cases "inn < length data")
    case False
    then show ?thesis using Suc.prems by auto
  next
    case True
    define avail where "avail = (if length data - inn > HSX_STAGE then HSX_STAGE else length data - inn)"
    have avail: "0 < avail" "inn + avail \<le> length data"
      using True by (auto simp: avail_def HSX_STAGE_def)
    show ?thesis
    proof (cases "fill (u32 (off + inn)) avail")
      case None
      then have "\<not> never_fails fill off data" using avail by (auto simp: never_fails_def)
      then show ?thesis using None True
        by (intro exI[of _ True] exI[of _ d] exI[of _ dst] exI[of _ out] exI[of _ c]) (simp add: avail_def Let_def)
    next
      case (Some stage)
      have "fill (u32 (off + inn)) avail \<in> {None, Some (take avail (drop inn data))}"
        using Suc.prems(1) avail(2) unfolding serves_def by blast
      then have stage: "stage = take avail (drop inn data)" using Some by simp
      then have rest: "stream_bits (drop inn data) = stream_bits stage @ stream_bits (drop (inn + avail) data)"
        by (metis append_take_drop_id drop_drop add.commute stream_bits_simps(3))
      from Suc.prems(2) obtain ps where
        total: "hsx_instrs lb (stream_bits data) = ps @ plan d (stream_bits (drop inn data))"
        and d: "dec_ok d" "d_lb d = lb" "stalled d" "d_pos d = out" "out = length ps" "out \<le> rlen"
          "stored rlen d dst (hsx_text [] ps)" and c: "c = crc32_update CRC32_INIT (hsx_text [] ps)"
        by (auto simp: between_def)
      define d1 where "d1 = hsx_dec_input stage d"
      have plan1: "plan d1 f = plan d (stream_bits stage @ f)" for f
        using d(3) by (simp add: d1_def plan_input stalled_def)
      have d1: "dec_ok d1" "d_pos d1 = length (hsx_text [] ps)" "d_lb d1 = lb" "stored rlen d1 dst (hsx_text [] ps)"
        using d stored_cong[of d1 d] by (simp_all add: d1_def hsx_dec_input_def dec_ok_def)
      have split: "plan d1 (stream_bits (drop (inn + avail) data)) = plan d (stream_bits (drop inn data))"
        by (simp add: plan1 rest)
      have "d_cnt d1 = 0" using d(3) by (simp add: d1_def hsx_dec_input_def stalled_def)
      then have "refs_ok (plan d1 [])" by (simp add: plan_def hsx_instrs_refs_ok)
      from hsx_drain_ok[OF d1(1,2,4) _ Suc.prems(4) this, of "rlen - out + 2" c] d obtain d2 dst2 out2 c2 where
        r: "hsx_drain (rlen - out + 2) rlen d1 dst out c
          = Inr (out + length (plan d1 []) > rlen, d2, dst2, out2, c2)" "same_tail rlen dst dst2"
        and good: "out + length (plan d1 []) \<le> rlen \<Longrightarrow> out2 = out + length (plan d1 [])
          \<and> c2 = crc32_update c (drop out (hsx_text (hsx_text [] ps) (plan d1 [])))
          \<and> moved d1 (plan d1 []) d2 \<and> stalled d2 \<and> stored rlen d2 dst2 (hsx_text (hsx_text [] ps) (plan d1 []))"
        by auto
      have step: "hsx_chunks (Suc fuel) fill off (length data) rlen inn d dst out c
          = (if out + length (plan d1 []) > rlen then Inr (True, d2, dst2, out2, c2)
             else hsx_chunks fuel fill off (length data) rlen (inn + avail) d2 dst2 out2 c2)"
        using True Some r(1) by (simp add: Let_def flip: avail_def d1_def)
      show ?thesis
      proof (cases "out + length (plan d1 []) > rlen")
        case over: True
        have "length (plan d1 []) \<le> length (plan d1 (stream_bits (drop (inn + avail) data)))" by (rule plan_mono)
        then have "length (hsx_instrs lb (stream_bits data)) > rlen"
          using total split d(5) over by simp
        then show ?thesis unfolding step using over r(2)
          by (intro exI[of _ True] exI[of _ d2] exI[of _ dst2] exI[of _ out2] exI[of _ c2]) simp
      next
        case False
        let ?ps = "ps @ plan d1 []"
        have g: "out2 = length ?ps" "c2 = crc32_update CRC32_INIT (hsx_text [] ?ps)" "moved d1 (plan d1 []) d2"
          "stalled d2" "stored rlen d2 dst2 (hsx_text [] ?ps)"
          using good False d(5) c crc32_update_text[of CRC32_INIT "[]" ps "plan d1 []"] by (simp_all add: hsx_text_append)
        have "between lb rlen data (inn + avail) d2 dst2 out2 c2"
        proof -
          have mv: "dec_ok d2" "d_pos d2 = out + length (plan d1 [])" "d_lb d2 = lb"
            and pl: "plan d1 (stream_bits (drop (inn + avail) data))
              = plan d1 [] @ plan d2 (stream_bits (drop (inn + avail) data))"
            using moved_fields[OF g(3)] d1(2,3) d(5) by simp_all (rule moved_plan[OF g(3)])
          have "hsx_instrs lb (stream_bits data) = ?ps @ plan d2 (stream_bits (drop (inn + avail) data))"
            using total split pl by simp
          then show ?thesis
            unfolding between_def using mv g(1,2,4,5) False d(5) by (intro exI[of _ ?ps]) simp
        qed
        then have "\<exists>failed d' dst' out' c'. hsx_chunks fuel fill off (length data) rlen (inn + avail) d2 dst2 out2 c2
              = Inr (failed, d', dst', out', c') \<and> same_tail rlen dst2 dst'
            \<and> (\<not> failed \<longrightarrow> between lb rlen data (length data) d' dst' out' c')
            \<and> (failed \<longrightarrow> length (hsx_instrs lb (stream_bits data)) > rlen \<or> \<not> never_fails fill off data)"
          using Suc.prems(5) avail True by (intro Suc.IH[OF Suc.prems(1) _ avail(2) Suc.prems(4)]) simp_all
        then show ?thesis
          unfolding step using False same_tail_trans[OF r(2)] by (simp only: if_False) blast
      qed
    qed
  qed
qed simp

lemma hsx_dec_init_between:
  assumes "length (d_win w) = 512" and "\<And>b. dst = Some b \<Longrightarrow> rlen \<le> length b" and "1 \<le> lb" and "lb \<le> 8"
  shows "between lb rlen data 0 (hsx_dec_init lb w) dst 0 CRC32_INIT"
  unfolding between_def using assms
  by (intro exI[of _ "[]"])
    (auto simp: hsx_dec_init_def plan_def dec_bits_def acc_bits_def dec_ok_def acc_ok_def stalled_def stored_def hist_def
      split: option.split)

lemma hist_take:
  assumes "hist 4294967296 out 4294967295 b" and "length out < 4294967295" and "length out \<le> length b"
  shows "take (length out) b = out"
  using assms by (intro nth_equalityI) (auto simp: hist_def linear_and)

lemma length_hsx_decode: "length (hsx_decode lb data) = length (hsx_instrs lb (stream_bits data))"
  by (simp add: hsx_decode_def)

lemma hsx_expand_ok:
  assumes "serves fill off data" and "length (d_win w) = 512" and "\<And>b. dst = Some b \<Longrightarrow> rlen \<le> length b"
    and "rlen < 4294967295"
  shows "\<exists>r crc' dst'. hsx_expand w fill off (length data) dst rlen crc = Inr (r, crc', dst')
      \<and> same_tail rlen dst dst'
      \<and> (r = 0 \<longrightarrow> length (hsx_decode 3 data) = rlen
          \<and> crc' = CRC32_FIN (crc32_update CRC32_INIT (hsx_decode 3 data))
          \<and> (\<forall>b'. dst' = Some b' \<longrightarrow> take rlen b' = hsx_decode 3 data))
      \<and> (r \<noteq> 0 \<longrightarrow> r = -1 \<and> crc' = crc \<and> (length (hsx_decode 3 data) \<noteq> rlen \<or> \<not> never_fails fill off data))"
proof -
  have "between 3 rlen data 0 (hsx_dec_init 3 w) dst 0 CRC32_INIT"
    using assms(2,3) by (intro hsx_dec_init_between) auto
  from hsx_chunks_ok[OF assms(1) this _ assms(4), of "length data + 1"] obtain failed d' dst' out' c' where
    r: "hsx_chunks (length data + 1) fill off (length data) rlen 0 (hsx_dec_init 3 w) dst 0 CRC32_INIT
        = Inr (failed, d', dst', out', c')" "same_tail rlen dst dst'"
    and ok: "\<not> failed \<Longrightarrow> between 3 rlen data (length data) d' dst' out' c'"
    and bad: "failed \<Longrightarrow> length (hsx_decode 3 data) > rlen \<or> \<not> never_fails fill off data"
    by (auto simp: length_hsx_decode)
  show ?thesis
  proof (cases failed)
    case True
    then show ?thesis using r bad by (auto simp: hsx_expand_def)
  next
    case False
    from ok[OF this] obtain ps where
      "hsx_instrs 3 (stream_bits data) = ps @ plan d' []" "stalled d'" "out' = length ps" "out' \<le> rlen"
      "stored rlen d' dst' (hsx_text [] ps)" "c' = crc32_update CRC32_INIT (hsx_text [] ps)"
      by (auto simp: between_def)
    then have whole: "hsx_text [] ps = hsx_decode 3 data" "length (hsx_decode 3 data) = out'" "out' \<le> rlen"
      and c': "c' = crc32_update CRC32_INIT (hsx_decode 3 data)" and st: "stored rlen d' dst' (hsx_decode 3 data)"
      by (auto simp: stalled_def hsx_decode_def)
    have "take out' b' = hsx_decode 3 data" if "dst' = Some b'" for b'
      using hist_take[of "hsx_decode 3 data" b'] st whole assms(4) that by (simp add: stored_def)
    then show ?thesis using r False whole c' by (auto simp: hsx_expand_def)
  qed
qed

text \<open>
  C22. Expanding a packed stream is exact.  Whatever the stream, \<open>hsx_expand\<close> returns without an
  access outside its buffers; it returns 0 only when the reference decoding of all the packed
  bytes has exactly the promised length, and then the destination holds that text and \<open>*crc\<close> its
  CRC-32; it does return 0 then unless a read failed.  On refusal the checksum is left alone,
  and nothing behind the promised length is ever written.
\<close>

theorem hsx_expand_exact:
  assumes "serves fill off data" and "length (d_win w) = 512" and "\<And>b. dst = Some b \<Longrightarrow> rlen \<le> length b"
    and "rlen < 4294967295"
  shows "\<exists>r crc' dst'. hsx_expand w fill off (length data) dst rlen crc = Inr (r, crc', dst')
      \<and> (r = 0 \<or> r = -1 \<and> crc' = crc)
      \<and> (r = 0 \<longrightarrow> length (hsx_decode 3 data) = rlen
          \<and> crc' = CRC32_FIN (crc32_update CRC32_INIT (hsx_decode 3 data))
          \<and> (\<forall>b'. dst' = Some b' \<longrightarrow> take rlen b' = hsx_decode 3 data))
      \<and> (never_fails fill off data \<and> length (hsx_decode 3 data) = rlen \<longrightarrow> r = 0)
      \<and> same_tail rlen dst dst'"
  using hsx_expand_ok[OF assms] by blast

definition demo_work :: hsx_dec where
  "demo_work = \<lparr>d_ip = [], d_acc = 0, d_sh = 0, d_pos = 0, d_cnt = 0, d_off = 0, d_lb = 0, d_win = replicate 512 7\<rparr>"

definition demo_fill :: "8 word list \<Rightarrow> nat \<Rightarrow> nat \<Rightarrow> 8 word list option" where
  "demo_fill data off n = Some (take n (drop off data))"

lemma demo_fill_serves: "length data < 4294967296 \<Longrightarrow> serves (demo_fill data) 0 data"
  by (auto simp: serves_def demo_fill_def)

theorem hsx_expand_exact_witness:
  "\<exists>crc' dst'. hsx_expand demo_work (demo_fill [0xB0, 0x80, 0x0C]) 0 3 (Some [1, 2, 3, 4, 5, 6]) 5 0 = Inr (0, crc', dst')"
proof -
  have d: "length (hsx_decode 3 [0xB0, 0x80, 0x0C]) = 5" by code_simp
  have "never_fails (demo_fill [0xB0, 0x80, 0x0C]) 0 [0xB0, 0x80, 0x0C]"
    by (simp add: never_fails_def demo_fill_def)
  with d show ?thesis
    using hsx_expand_exact[of "demo_fill [0xB0, 0x80, 0x0C]" 0 "[0xB0, 0x80, 0x0C]" demo_work "Some [1, 2, 3, 4, 5, 6]" 5 0]
    by (auto simp: demo_fill_serves demo_work_def numeral_3_eq_3)
qed

section \<open>Streams as the format lays them out\<close>

datatype hsx_token = Literal "8 word" | Reference nat nat

definition nat_bits :: "nat \<Rightarrow> nat \<Rightarrow> bool list" where
  "nat_bits n v = map (\<lambda>i. bit v (n - 1 - i)) [0..<n]"

fun tok_bits :: "nat \<Rightarrow> hsx_token \<Rightarrow> bool list" where
  "tok_bits lb (Literal b) = True # byte_bits b"
| "tok_bits lb (Reference dist len) = False # nat_bits 9 (dist - 1) @ nat_bits lb (len - 1)"

fun tok_ok :: "nat \<Rightarrow> hsx_token \<Rightarrow> bool" where
  "tok_ok lb (Literal b) \<longleftrightarrow> True"
| "tok_ok lb (Reference dist len) \<longleftrightarrow> 1 \<le> dist \<and> dist \<le> 512 \<and> 1 \<le> len \<and> len \<le> 2 ^ lb"

fun tok_instrs :: "hsx_token \<Rightarrow> hsx_instr list" where
  "tok_instrs (Literal b) = [Byte b]"
| "tok_instrs (Reference dist len) = replicate len (Back dist)"

text \<open>The bits in bytes, the last byte filled up with zeros.\<close>

function pack_bits :: "bool list \<Rightarrow> 8 word list" where
  "pack_bits bs =
     (if bs = [] then [] else of_nat (bits_val (take 8 (bs @ replicate 7 False))) # pack_bits (drop 8 bs))"
  by pat_completeness auto
termination
  by (relation "measure length") auto

declare pack_bits.simps [simp del]

definition hsx_pack :: "nat \<Rightarrow> hsx_token list \<Rightarrow> 8 word list" where
  "hsx_pack lb ts = pack_bits (concat (map (tok_bits lb) ts))"

lemma length_nat_bits [simp]: "length (nat_bits n v) = n"
  by (simp add: nat_bits_def)

lemma bits_val_nat_bits: "v < 2 ^ n \<Longrightarrow> bits_val (nat_bits n v) = v"
proof -
  assume v: "v < 2 ^ n"
  have "rev (nat_bits n v) = map (bit v) [0..<n]"
    by (auto intro!: nth_equalityI simp: nat_bits_def rev_nth)
  then show ?thesis
    using v by (simp add: bits_val_def horner_sum_bit_eq_take_bit take_bit_nat_eq_self)
qed

lemma bit_bits_val: "bit (bits_val bs) i \<longleftrightarrow> i < length bs \<and> bs ! (length bs - 1 - i)"
  by (auto simp: bits_val_def bit_horner_sum_bit_iff rev_nth)

lemma byte_bits_val: "length bs = 8 \<Longrightarrow> byte_bits (of_nat (bits_val bs)) = bs"
  by (intro nth_equalityI) (auto simp: byte_bits_def bit_simps bit_bits_val)

lemma bits_val_byte_bits: "of_nat (bits_val (byte_bits b)) = b"
  by (rule bit_eqI) (auto simp: bit_simps bit_bits_val byte_bits_def dest: bit_imp_le_length)

lemma stream_pack_bits: "\<exists>pad. length pad < 8 \<and> stream_bits (pack_bits bs) = bs @ pad"
proof (induction bs rule: pack_bits.induct)
  case (1 bs)
  show ?case
  proof (cases "length bs < 8 \<or> bs = []")
    case True
    define pad where "pad = replicate (8 - length bs) False"
    have "take 8 (bs @ replicate 7 False) = bs @ pad" "drop 8 bs = []" if "bs \<noteq> []"
      using True that by (cases bs; auto simp: pad_def min_def)+
    then show ?thesis
      using True by (cases "bs = []") (auto simp: pack_bits.simps byte_bits_val pad_def intro!: exI[of _ pad])
  next
    case False
    then obtain pad where "length pad < 8" "stream_bits (pack_bits (drop 8 bs)) = drop 8 bs @ pad" using 1 by auto
    moreover have "take 8 (bs @ replicate 7 False) = take 8 bs" using False by simp
    ultimately show ?thesis
      using False by (intro exI[of _ pad]) (simp add: pack_bits.simps[of bs] byte_bits_val)
  qed
qed

lemma hsx_instrs_tokens:
  assumes "\<And>t. t \<in> set ts \<Longrightarrow> tok_ok lb t" and "length pad < 8"
  shows "hsx_instrs lb (concat (map (tok_bits lb) ts) @ pad) = concat (map tok_instrs ts)"
  using assms(1)
proof (induction ts)
  case (Cons t ts)
  show ?case
  proof (cases t)
    case (Literal b)
    then show ?thesis using Cons by (simp add: bits_val_byte_bits)
  next
    case (Reference dist len)
    then have ok: "1 \<le> dist" "dist \<le> 512" "1 \<le> len" "len \<le> 2 ^ lb" using Cons.prems[of t] by auto
    then have "bits_val (nat_bits 9 (dist - 1)) = dist - 1" "bits_val (nat_bits lb (len - 1)) = len - 1"
      by (auto intro!: bits_val_nat_bits)
    then show ?thesis using Reference Cons ok by simp
  qed
qed (use assms(2) in \<open>simp add: token_none\<close>)

text \<open>
  C23. Every stream of tokens survives packing: a token list whose distances and lengths fit their
  fields, laid out most significant bit first and filled up to whole bytes, expands to exactly
  the text the tokens describe, through any sequence of chunks and into any destination.
\<close>

theorem hsx_pack_round_trip:
  assumes "\<And>t. t \<in> set ts \<Longrightarrow> tok_ok 3 t" and "length (d_win w) = 512"
    and "txt = hsx_text [] (concat (map tok_instrs ts))" and "length txt < 4294967295"
    and "\<And>i n. i + n \<le> length (hsx_pack 3 ts) \<Longrightarrow> fill (u32 (off + i)) n = Some (take n (drop i (hsx_pack 3 ts)))"
  shows "hsx_expand w fill off (length (hsx_pack 3 ts)) (Some (replicate (length txt) 0)) (length txt) crc
      = Inr (0, CRC32_FIN (crc32_update CRC32_INIT txt), Some txt)"
proof -
  obtain pad where "length pad < 8" "stream_bits (hsx_pack 3 ts) = concat (map (tok_bits 3) ts) @ pad"
    using stream_pack_bits by (auto simp: hsx_pack_def)
  then have dec: "hsx_decode 3 (hsx_pack 3 ts) = txt"
    using hsx_instrs_tokens[OF assms(1)] by (simp add: hsx_decode_def assms(3))
  have "serves fill off (hsx_pack 3 ts)" "never_fails fill off (hsx_pack 3 ts)"
    using assms(5) by (simp_all add: serves_def never_fails_def)
  with hsx_expand_ok[of fill off "hsx_pack 3 ts" w "Some (replicate (length txt) 0)" "length txt" crc] dec assms(2,4)
  obtain dst' where
    r: "hsx_expand w fill off (length (hsx_pack 3 ts)) (Some (replicate (length txt) 0)) (length txt) crc
      = Inr (0, CRC32_FIN (crc32_update CRC32_INIT txt), dst')"
    "same_tail (length txt) (Some (replicate (length txt) 0)) dst'"
    "\<forall>b'. dst' = Some b' \<longrightarrow> take (length txt) b' = txt" by auto
  then show ?thesis by (auto simp: same_tail_def)
qed

theorem hsx_pack_round_trip_witness:
  "hsx_expand demo_work (demo_fill (hsx_pack 3 [Literal 0x61, Reference 1 4])) 0
     (length (hsx_pack 3 [Literal 0x61, Reference 1 4])) (Some (replicate 5 0)) 5 0
   = Inr (0, CRC32_FIN (crc32_update CRC32_INIT (replicate 5 0x61)), Some (replicate 5 0x61))"
proof -
  let ?ts = "[Literal 0x61, Reference 1 4]"
  have ok: "\<And>t. t \<in> set ?ts \<Longrightarrow> tok_ok 3 t" by auto
  have "length (hsx_pack 3 ?ts) = 3" by code_simp
  moreover have "replicate 5 0x61 = hsx_text [] (concat (map tok_instrs ?ts))" by code_simp
  ultimately show ?thesis
    using hsx_pack_round_trip[of ?ts demo_work "replicate 5 0x61" "demo_fill (hsx_pack 3 ?ts)" 0 0, OF ok]
    by (auto simp: demo_fill_def demo_work_def)
qed

end
