(* ===== verification/Exec_Image.thy ===== *)
theory Exec_Image
  imports Hsx_Stream
begin

text \<open>
  Executable images: the checks of an a.out header (\<open>sys/sys/exec_aout.h\<close>) and of a packed
  container (\<open>sys/sys/exec_hsaout.h\<close>), and the restoration of a process's clean text at swapin
  (\<open>exec_hsaout.c\<close>, \<open>sys/kern/exec_aout.c\<close>).

  Header fields and file sizes are 32-bit words, whose sums wrap.  A file is read through a
  function of offset and length that yields the bytes, or \<open>None\<close> when \<open>rdwri\<close> reports an error
  or a short read.
\<close>

section \<open>Headers\<close>

record exec =
  a_midmag :: "32 word"
  a_text :: "32 word"
  a_data :: "32 word"
  a_bss :: "32 word"
  a_reltext :: "32 word"
  a_reldata :: "32 word"
  a_syms :: "32 word"
  a_entry :: "32 word"

abbreviation OMAGIC :: "32 word" where "OMAGIC \<equiv> 0x107"
abbreviation MID_ZERO :: "32 word" where "MID_ZERO \<equiv> 0"
abbreviation EX_HSPACK :: "32 word" where "EX_HSPACK \<equiv> 1"
abbreviation SIZEOF_EXEC :: "32 word" where "SIZEOF_EXEC \<equiv> 32"
abbreviation SIZEOF_HSX :: "32 word" where "SIZEOF_HSX \<equiv> 48"
abbreviation HSX_HDRSIZE :: "32 word" where "HSX_HDRSIZE \<equiv> 80"

definition N_GETMAGIC :: "exec \<Rightarrow> 32 word" where
  "N_GETMAGIC ex = a_midmag ex AND 0x0000ffff"

definition N_GETMID :: "exec \<Rightarrow> 32 word" where
  "N_GETMID ex = drop_bit 16 (a_midmag ex AND 0x03ff0000)"

definition N_GETFLAG :: "exec \<Rightarrow> 32 word" where
  "N_GETFLAG ex = drop_bit 26 (a_midmag ex AND 0xfc000000)"

datatype aout_verdict = AOUT_OK | AOUT_BADMAG | AOUT_SIZEWRAP | AOUT_TOOBIG | AOUT_TRUNC | AOUT_BADENTRY

definition aout_layout_check :: "exec \<Rightarrow> 32 word \<Rightarrow> 32 word \<Rightarrow> 32 word \<Rightarrow> bool \<Rightarrow> aout_verdict" where
  "aout_layout_check e base window filesize thumb =
     (let txt = a_text e; data = a_data e; bss = a_bss e; entry = a_entry e; image = txt + data in
      if N_GETMAGIC e \<noteq> OMAGIC \<or> N_GETMID e \<noteq> MID_ZERO \<or> N_GETFLAG e \<noteq> 0 then AOUT_BADMAG
      else if txt > 0xffffffff - data then AOUT_SIZEWRAP
      else if image > 0xffffffff - bss \<or> image > 0xffffffff - SIZEOF_EXEC then AOUT_SIZEWRAP
      else if image + bss > window then AOUT_TOOBIG
      else if filesize < SIZEOF_EXEC + image then AOUT_TRUNC
      else if thumb \<and> entry AND 1 = 0 then AOUT_BADENTRY
      else
        let entry = (if thumb then entry AND NOT 1 else entry)
        in if entry < base \<or> entry - base \<ge> txt \<or> entry AND 1 \<noteq> 0 then AOUT_BADENTRY else AOUT_OK)"

record hsx =
  x_sig :: "32 word"
  x_version :: "32 word"
  x_hdrlen :: "32 word"
  x_codec :: "32 word"
  x_window :: "32 word"
  x_lookahead :: "32 word"
  x_ctext :: "32 word"
  x_cdata :: "32 word"
  x_textcrc :: "32 word"
  x_datacrc :: "32 word"
  x_reserved :: "32 word"
  x_hdrcrc :: "32 word"

text \<open>A structure of 32-bit fields in memory, little-endian.\<close>

definition word_bytes :: "32 word \<Rightarrow> 8 word list" where
  "word_bytes w = [ucast w, ucast (drop_bit 8 w), ucast (drop_bit 16 w), ucast (drop_bit 24 w)]"

definition exec_words :: "exec \<Rightarrow> 32 word list" where
  "exec_words e = [a_midmag e, a_text e, a_data e, a_bss e, a_reltext e, a_reldata e, a_syms e, a_entry e]"

definition hsx_words :: "hsx \<Rightarrow> 32 word list" where
  "hsx_words x = [x_sig x, x_version x, x_hdrlen x, x_codec x, x_window x, x_lookahead x, x_ctext x, x_cdata x,
     x_textcrc x, x_datacrc x, x_reserved x, x_hdrcrc x]"

datatype hsx_verdict = HSX_OK | HSX_BADAOUT | HSX_BADSIG | HSX_SIZEWRAP | HSX_BADSIZE

definition hsx_hdr_crc :: "exec \<Rightarrow> hsx \<Rightarrow> 32 word" where
  "hsx_hdr_crc e x =
     (let crc = crc32_update CRC32_INIT (concat (map word_bytes (exec_words e)))
      in CRC32_FIN (crc32_update crc (concat (map word_bytes (hsx_words (x\<lparr>x_hdrcrc := 0\<rparr>))))))"

definition hsx_check :: "exec \<Rightarrow> hsx \<Rightarrow> 32 word \<Rightarrow> hsx_verdict" where
  "hsx_check e x filesize =
     (if N_GETMAGIC e \<noteq> OMAGIC \<or> N_GETMID e \<noteq> MID_ZERO \<or> N_GETFLAG e \<noteq> EX_HSPACK then HSX_BADAOUT
      else if a_reltext e \<noteq> 0 \<or> a_reldata e \<noteq> 0 \<or> a_syms e \<noteq> 0 then HSX_BADAOUT
      else if x_sig x \<noteq> 0x31585348 \<or> x_version x \<noteq> 1 \<or> x_hdrlen x \<noteq> SIZEOF_HSX \<or> x_codec x \<noteq> 1
        \<or> x_window x \<noteq> 9 \<or> x_lookahead x \<noteq> of_nat HSX_LOOKAHEAD \<or> x_reserved x \<noteq> 0 then HSX_BADSIG
      else if hsx_hdr_crc e x \<noteq> x_hdrcrc x then HSX_BADSIG
      else if x_ctext x > 0xffffffff - x_cdata x then HSX_SIZEWRAP
      else
        let streams = x_ctext x + x_cdata x
        in if streams > 0xffffffff - HSX_HDRSIZE then HSX_SIZEWRAP
           else if filesize \<noteq> HSX_HDRSIZE + streams then HSX_BADSIZE
           else HSX_OK)"

section \<open>Restoring the text\<close>

definition bytes_word :: "8 word list \<Rightarrow> 32 word" where
  "bytes_word bs = ucast (bs ! 0) OR push_bit 8 (ucast (bs ! 1)) OR push_bit 16 (ucast (bs ! 2)) OR push_bit 24 (ucast (bs ! 3))"

definition word_at :: "8 word list \<Rightarrow> nat \<Rightarrow> 32 word" where
  "word_at bs i = bytes_word (take 4 (drop (4 * i) bs))"

definition get_exec :: "8 word list \<Rightarrow> exec" where
  "get_exec bs = \<lparr>a_midmag = word_at bs 0, a_text = word_at bs 1, a_data = word_at bs 2, a_bss = word_at bs 3,
     a_reltext = word_at bs 4, a_reldata = word_at bs 5, a_syms = word_at bs 6, a_entry = word_at bs 7\<rparr>"

definition get_hsx :: "8 word list \<Rightarrow> hsx" where
  "get_hsx bs = \<lparr>x_sig = word_at bs 0, x_version = word_at bs 1, x_hdrlen = word_at bs 2, x_codec = word_at bs 3,
     x_window = word_at bs 4, x_lookahead = word_at bs 5, x_ctext = word_at bs 6, x_cdata = word_at bs 7,
     x_textcrc = word_at bs 8, x_datacrc = word_at bs 9, x_reserved = word_at bs 10, x_hdrcrc = word_at bs 11\<rparr>"

type_synonym reader = "nat \<Rightarrow> nat \<Rightarrow> 8 word list option"

text \<open>The verdict and the header read; the header is arbitrary when the read fails.\<close>

definition hsx_headers :: "reader \<Rightarrow> 32 word \<Rightarrow> exec \<Rightarrow> hsx \<Rightarrow> hsx_verdict \<times> hsx" where
  "hsx_headers rdwri i_size e x =
     (case rdwri 32 48 of
        None \<Rightarrow> (HSX_BADSIZE, x)
      | Some bs \<Rightarrow> (hsx_check e (get_hsx bs) i_size, get_hsx bs))"

definition hsx_load ::
  "hsx_dec \<Rightarrow> reader \<Rightarrow> nat \<Rightarrow> nat \<Rightarrow> 8 word list option \<Rightarrow> nat \<Rightarrow> 32 word \<Rightarrow> (int \<times> 8 word list option) res" where
  "hsx_load w hsx_fill off clen dst rlen want =
     andthen (hsx_expand w hsx_fill off clen dst rlen 0)
       (\<lambda>(r, crc, dst). Inr (if r = 0 \<and> crc = want then 0 else -1, dst))"

definition exec_hsaout_text ::
  "hsx_dec \<Rightarrow> reader \<Rightarrow> 32 word \<Rightarrow> exec \<Rightarrow> hsx \<Rightarrow> 8 word list \<Rightarrow> 32 word \<Rightarrow> (int \<times> 8 word list) res" where
  "exec_hsaout_text swapwork rdwri i_size e x dst len =
     (case hsx_headers rdwri i_size e x of (verdict, x) \<Rightarrow>
        if verdict \<noteq> HSX_OK \<or> a_text e \<noteq> len then Inr (-1, dst)
        else andthen (hsx_load swapwork rdwri (unat HSX_HDRSIZE) (unat (x_ctext x)) (Some dst) (unat len) (x_textcrc x))
               (\<lambda>(r, dst'). Inr (r, the dst')))"

definition exec_text_restore ::
  "hsx_dec \<Rightarrow> reader \<Rightarrow> 32 word \<Rightarrow> hsx \<Rightarrow> 8 word list \<Rightarrow> 32 word \<Rightarrow> (int \<times> 8 word list) res" where
  "exec_text_restore swapwork rdwri i_size x dst len =
     (case rdwri 0 32 of
        None \<Rightarrow> Inr (-1, dst)
      | Some bs \<Rightarrow>
          let ex = get_exec bs in
          if N_GETFLAG ex = EX_HSPACK then
            andthen (exec_hsaout_text swapwork rdwri i_size ex x dst len)
              (\<lambda>(error, dst). Inr (if error \<noteq> 0 then -1 else 0, dst))
          else
            (case rdwri 32 (unat len) of
               None \<Rightarrow> Inr (-1, dst)
             | Some bs \<Rightarrow> Inr (0, bs @ drop (unat len) dst)))"

section \<open>Sums that do not wrap\<close>

lemma unat32_less: "unat (a :: 32 word) < 4294967296"
  using unsigned_less[of a] by simp

lemma unat_max_minus: "unat (0xffffffff - (b :: 32 word)) = 4294967295 - unat b"
proof -
  have "b \<le> 0xffffffff" using unat32_less[of b] by (simp add: word_le_nat_alt)
  then have "unat (0xffffffff - b) = unat (0xffffffff :: 32 word) - unat b" by (rule unat_sub)
  then show ?thesis by simp
qed

lemma fits_iff: "\<not> a > 0xffffffff - (b :: 32 word) \<longleftrightarrow> unat a + unat b < 4294967296"
  using unat32_less[of b] by (auto simp: word_less_nat_alt unat_max_minus)

lemma unat_add_fits: "unat a + unat (b :: 32 word) < 4294967296 \<Longrightarrow> unat (a + b) = unat a + unat b"
  by (subst unat_plus_if') simp

lemma even_entry: "(w :: 32 word) AND 1 = 0 \<longleftrightarrow> even (unat w)"
proof -
  have "bit (unat w) 0 = bit w 0" by (simp only: bit_unsigned_iff) simp
  then show ?thesis by (simp add: bit_0 and_one_eq flip: even_iff_mod_2_eq_zero)
qed

lemma unat_clear_low: "odd (unat (w :: 32 word)) \<Longrightarrow> unat (w AND NOT 1) = unat w - 1"
proof -
  assume odd: "odd (unat w)"
  then have low: "w AND 1 = 1" using even_entry[of w] by (auto simp: and_one_eq mod_2_eq_odd)
  have "(w AND NOT 1) + (w AND 1) = ((w AND NOT 1) AND (w AND 1)) + ((w AND NOT 1) OR (w AND 1))"
    by (rule word_plus_and_or[symmetric])
  also have "(w AND NOT 1) AND (w AND 1) = 0" by (auto simp: bit_eq_iff bit_simps)
  also have "(w AND NOT 1) OR (w AND 1) = w" by (auto simp: bit_eq_iff bit_simps)
  finally have "w AND NOT 1 = w - 1" using low by (simp add: eq_diff_eq)
  moreover have "w \<noteq> 0" using odd by auto
  ultimately show ?thesis by (simp add: unat_minus_one)
qed

lemma entry_arith:
  "odd E \<and> (B \<le> E - 1 \<and> E - 1 - B < t) \<and> even (E - 1) \<longleftrightarrow> (\<exists>k. E = B + k + 1 \<and> k < t \<and> even (B + k))"
  for E B t :: nat
  by presburger

lemma inside_iff: "base \<le> entry \<and> entry - base < txt \<longleftrightarrow>
    unat base \<le> unat entry \<and> unat entry - unat base < unat (txt :: 32 word)"
  using unat_sub[of base entry] by (auto simp: word_le_nat_alt word_less_nat_alt)

text \<open>
  C25. The header check of an a.out image accepts exactly the headers whose sizes, as numbers
  without wrap-around, fit: text, data and bss within the window, header, text and data within
  the file, and the entry point at a halfword inside the text (with the Thumb bit, if asked for).
\<close>

theorem aout_layout_exact:
  "aout_layout_check e base window filesize thumb = AOUT_OK \<longleftrightarrow>
     N_GETMAGIC e = OMAGIC \<and> N_GETMID e = MID_ZERO \<and> N_GETFLAG e = 0
     \<and> unat (a_text e) + unat (a_data e) + unat (a_bss e) \<le> unat window
     \<and> 32 + unat (a_text e) + unat (a_data e) \<le> unat filesize
     \<and> (\<exists>k. unat (a_entry e) = unat base + k + of_bool thumb \<and> k < unat (a_text e) \<and> even (unat base + k))"
proof -
  define t d b where "t = unat (a_text e)" and "d = unat (a_data e)" and "b = unat (a_bss e)"
  define entry where "entry = (if thumb then a_entry e AND NOT 1 else a_entry e)"
  have image: "t + d < 4294967296 \<Longrightarrow> unat (a_text e + a_data e) = t + d"
    using unat_add_fits[of "a_text e" "a_data e"] by (simp add: t_def d_def)
  have wrap: "\<not> a_text e > 0xffffffff - a_data e \<longleftrightarrow> t + d < 4294967296"
    by (simp only: fits_iff t_def d_def)
  have wrap2: "\<not> a_text e + a_data e > 0xffffffff - a_bss e \<longleftrightarrow> t + d + b < 4294967296"
    "\<not> a_text e + a_data e > 0xffffffff - SIZEOF_EXEC \<longleftrightarrow> t + d + 32 < 4294967296"
    if "t + d < 4294967296"
    by (simp_all only: fits_iff image[OF that] b_def) simp
  have whole: "\<not> a_text e + a_data e + a_bss e > window \<longleftrightarrow> t + d + b \<le> unat window" if "t + d + b < 4294967296"
  proof -
    have "unat (a_text e + a_data e + a_bss e) = t + d + b"
      using that image unat_add_fits[of "a_text e + a_data e" "a_bss e"] by (simp add: b_def)
    then show ?thesis by (simp add: word_less_nat_alt not_less)
  qed
  have onfile: "\<not> filesize < SIZEOF_EXEC + (a_text e + a_data e) \<longleftrightarrow> 32 + t + d \<le> unat filesize" if "t + d + 32 < 4294967296"
  proof -
    have "unat (SIZEOF_EXEC + (a_text e + a_data e)) = 32 + (t + d)"
      using that image unat_add_fits[of SIZEOF_EXEC "a_text e + a_data e"] by simp
    then show ?thesis by (simp add: word_less_nat_alt not_less add.assoc)
  qed
  have sizes: "t + d < 4294967296 \<and> t + d + b < 4294967296 \<and> t + d + 32 < 4294967296
      \<and> t + d + b \<le> unat window \<and> 32 + t + d \<le> unat filesize
      \<longleftrightarrow> t + d + b \<le> unat window \<and> 32 + t + d \<le> unat filesize"
    using unat32_less[of window] unat32_less[of filesize] by auto
  have "aout_layout_check e base window filesize thumb = AOUT_OK \<longleftrightarrow>
      (N_GETMAGIC e = OMAGIC \<and> N_GETMID e = MID_ZERO \<and> N_GETFLAG e = 0)
      \<and> \<not> a_text e > 0xffffffff - a_data e
      \<and> \<not> a_text e + a_data e > 0xffffffff - a_bss e \<and> \<not> a_text e + a_data e > 0xffffffff - SIZEOF_EXEC
      \<and> \<not> a_text e + a_data e + a_bss e > window \<and> \<not> filesize < SIZEOF_EXEC + (a_text e + a_data e)
      \<and> (thumb \<longrightarrow> a_entry e AND 1 \<noteq> 0) \<and> (base \<le> entry \<and> entry - base < a_text e) \<and> entry AND 1 = 0"
    unfolding aout_layout_check_def Let_def entry_def[symmetric] by (auto simp: not_less not_le)
  also have "\<dots> \<longleftrightarrow> (N_GETMAGIC e = OMAGIC \<and> N_GETMID e = MID_ZERO \<and> N_GETFLAG e = 0)
      \<and> (t + d + b \<le> unat window \<and> 32 + t + d \<le> unat filesize)
      \<and> (thumb \<longrightarrow> odd (unat (a_entry e))) \<and> (unat base \<le> unat entry \<and> unat entry - unat base < t) \<and> even (unat entry)"
    using wrap wrap2 whole onfile sizes unfolding inside_iff even_entry t_def[symmetric] by blast
  also have "(thumb \<longrightarrow> odd (unat (a_entry e))) \<and> (unat base \<le> unat entry \<and> unat entry - unat base < t) \<and> even (unat entry)
      \<longleftrightarrow> (\<exists>k. unat (a_entry e) = unat base + k + of_bool thumb \<and> k < t \<and> even (unat base + k))"
  proof (cases thumb)
    case True
    have "odd (unat (a_entry e)) \<Longrightarrow> unat entry = unat (a_entry e) - 1"
      using True unat_clear_low[of "a_entry e"] by (simp add: entry_def)
    then show ?thesis using True entry_arith[of "unat (a_entry e)" "unat base" t] by auto
  next
    case False
    then have "unat entry = unat (a_entry e)" by (simp add: entry_def)
    then show ?thesis using False by (auto intro!: exI[of _ "unat (a_entry e) - unat base"])
  qed
  finally show ?thesis unfolding t_def d_def b_def by (simp add: conj_assoc)
qed

section \<open>Packed containers\<close>

lemma hsx_check_OK:
  "hsx_check e x filesize = HSX_OK \<Longrightarrow>
     hsx_hdr_crc e x = x_hdrcrc x \<and> unat filesize = 80 + unat (x_ctext x) + unat (x_cdata x)
     \<and> x_window x = 9 \<and> x_lookahead x = 3"
proof -
  assume "hsx_check e x filesize = HSX_OK"
  then have c: "hsx_hdr_crc e x = x_hdrcrc x" "x_window x = 9" "x_lookahead x = 3"
    "\<not> x_ctext x > 0xffffffff - x_cdata x" "\<not> x_ctext x + x_cdata x > 0xffffffff - HSX_HDRSIZE"
    "filesize = HSX_HDRSIZE + (x_ctext x + x_cdata x)"
    by (auto simp: hsx_check_def Let_def split: if_splits)
  have "unat (x_ctext x) + unat (x_cdata x) < 4294967296" using c(4) by (simp only: fits_iff)
  then have streams: "unat (x_ctext x + x_cdata x) = unat (x_ctext x) + unat (x_cdata x)" by (rule unat_add_fits)
  have "unat (x_ctext x + x_cdata x) + unat HSX_HDRSIZE < 4294967296" using c(5) by (simp only: fits_iff)
  then have "unat filesize = unat HSX_HDRSIZE + unat (x_ctext x + x_cdata x)"
    using c(6) by (simp only: unat_add_fits add.commute)
  then show ?thesis using c streams by simp
qed

text \<open>What the packed text must satisfy to be accepted.\<close>

definition clean_text :: "exec \<Rightarrow> hsx \<Rightarrow> 32 word \<Rightarrow> 32 word \<Rightarrow> 8 word list \<Rightarrow> bool" where
  "clean_text e x i_size len packed \<longleftrightarrow>
     hsx_check e x i_size = HSX_OK \<and> a_text e = len \<and> length packed = unat (x_ctext x)
     \<and> length (hsx_decode 3 packed) = unat len
     \<and> CRC32_FIN (crc32_update CRC32_INIT (hsx_decode 3 packed)) = x_textcrc x"

text \<open>
  C24. At swapin a packed executable yields its clean text or nothing.  With a file whose reads
  return its bytes or fail, \<open>exec_hsaout_text\<close> always returns without leaving its buffers.  It
  returns 0 only when the container's headers pass their checks and still name the text size the
  process was loaded with, the packed text lies inside the file, its expansion has exactly that
  size and the CRC-32 the header promises (and then does return 0 unless a read fails); the first \<open>len\<close> bytes of the
  destination are that expansion, and the rest is untouched.
\<close>

theorem exec_hsaout_text_exact:
  assumes "\<And>off n. rdwri off n = Some (take n (drop off file)) \<or> rdwri off n = None"
    and "unat i_size = length file" and "length (d_win w) = 512" and "unat len \<le> length dst" and "len < 0xffffffff"
  shows "\<exists>r dst'. exec_hsaout_text w rdwri i_size e x0 dst len = Inr (r, dst')
      \<and> length dst' = length dst \<and> drop (unat len) dst' = drop (unat len) dst \<and> (r = 0 \<or> r = -1)
      \<and> (let x = get_hsx (take 48 (drop 32 file)); packed = take (unat (x_ctext x)) (drop 80 file)
         in (r = 0 \<longrightarrow> clean_text e x i_size len packed \<and> take (unat len) dst' = hsx_decode 3 packed)
            \<and> (clean_text e x i_size len packed \<and> (\<forall>off n. rdwri off n \<noteq> None) \<longrightarrow> r = 0))"
proof -
  obtain v x where h: "hsx_headers rdwri i_size e x0 = (v, x)" by fastforce
  show ?thesis
  proof (cases "v = HSX_OK \<and> a_text e = len")
    case False
    then have "exec_hsaout_text w rdwri i_size e x0 dst len = Inr (-1, dst)"
      using h by (auto simp: exec_hsaout_text_def)
    moreover have "\<not> (clean_text e (get_hsx (take 48 (drop 32 file))) i_size len k \<and> (\<forall>off n. rdwri off n \<noteq> None))" for k
    proof
      assume c: "clean_text e (get_hsx (take 48 (drop 32 file))) i_size len k \<and> (\<forall>off n. rdwri off n \<noteq> None)"
      then have "rdwri 32 48 = Some (take 48 (drop 32 file))" using assms(1)[of 32 48] by blast
      then show False using c False h by (auto simp: hsx_headers_def clean_text_def)
    qed
    ultimately show ?thesis unfolding Let_def
      by (intro exI[of _ "-1"] exI[of _ dst]) (simp del: not_None_eq)
  next
    case True
    then have x: "x = get_hsx (take 48 (drop 32 file))" "hsx_check e x i_size = HSX_OK"
      using h assms(1)[of 32 48] by (auto simp: hsx_headers_def split: option.splits)
    define packed where "packed = take (unat (x_ctext x)) (drop 80 file)"
    have len: "length packed = unat (x_ctext x)" "80 + unat (x_ctext x) \<le> length file"
      using hsx_check_OK[OF x(2)] assms(2) by (auto simp: packed_def)
    have "serves rdwri 80 packed"
      unfolding serves_def
    proof (intro allI impI)
      fix i n assume i: "i + n \<le> length packed"
      then have "take n (drop i packed) = take n (drop (80 + i) file)"
        using len by (simp add: packed_def drop_take take_take min_def add.commute)
      moreover have "u32 (80 + i) = 80 + i"
        using i len assms(2) unat32_less[of i_size] by simp
      ultimately show "rdwri (u32 (80 + i)) n \<in> {None, Some (take n (drop i packed))}"
        using assms(1)[of "80 + i" n] by auto
    qed
    moreover have "unat len < 4294967295" using assms(5) by (simp add: word_less_nat_alt)
    ultimately obtain r crc dst' where
      e: "hsx_expand w rdwri 80 (length packed) (Some dst) (unat len) 0 = Inr (r, crc, dst')"
      "same_tail (unat len) (Some dst) dst'"
      and ok: "r = 0 \<Longrightarrow> length (hsx_decode 3 packed) = unat len \<and> crc = CRC32_FIN (crc32_update CRC32_INIT (hsx_decode 3 packed))
          \<and> (\<forall>b'. dst' = Some b' \<longrightarrow> take (unat len) b' = hsx_decode 3 packed)"
      and bad: "r \<noteq> 0 \<Longrightarrow> length (hsx_decode 3 packed) \<noteq> unat len \<or> \<not> never_fails rdwri 80 packed"
      using hsx_expand_ok[of rdwri 80 packed w "Some dst" "unat len" 0] assms(3,4) by auto
    obtain b' where b': "dst' = Some b'" "length b' = length dst" "\<forall>i\<ge>unat len. b' ! i = dst ! i"
      using e(2) by (auto simp: same_tail_def)
    then have tail: "drop (unat len) b' = drop (unat len) dst" by (intro nth_equalityI) auto
    define R :: int where "R = (if r = 0 \<and> crc = x_textcrc x then 0 else -1)"
    have ran: "exec_hsaout_text w rdwri i_size e x0 dst len = Inr (R, b')"
      using True h e(1) b' len by (simp add: exec_hsaout_text_def hsx_load_def R_def)
    have sound: "R = 0 \<Longrightarrow> clean_text e x i_size len packed \<and> take (unat len) b' = hsx_decode 3 packed"
      using ok True x(2) len(1) b'(1) by (auto simp: clean_text_def R_def split: if_splits)
    have complete: "R = 0" if "clean_text e x i_size len packed" "\<forall>off n. rdwri off n \<noteq> None"
    proof -
      have "never_fails rdwri 80 packed" using that(2) by (simp add: never_fails_def)
      then show ?thesis using that(1) ok bad by (auto simp: clean_text_def R_def)
    qed
    have "R = 0 \<or> R = -1" by (simp add: R_def)
    with ran sound complete b'(2) tail show ?thesis
      unfolding Let_def x(1)[symmetric] packed_def[symmetric] by blast
  qed
qed

definition demo_file :: "8 word list" where
  "demo_file =
     [7, 1, 0, 4, 5, 0, 0, 0, 0, 0, 0, 0, 0, 0, 0, 0, 0, 0, 0, 0, 0, 0, 0, 0, 0, 0, 0, 0, 1, 0, 0, 0,
      72, 83, 88, 49, 1, 0, 0, 0, 48, 0, 0, 0, 1, 0, 0, 0, 9, 0, 0, 0, 3, 0, 0, 0, 3, 0, 0, 0, 0, 0, 0, 0,
      185, 147, 172, 238, 0, 0, 0, 0, 0, 0, 0, 0, 116, 55, 96, 165, 176, 128, 12]"

lemma demo_headers:
  "get_exec demo_file = \<lparr>a_midmag = 0x04000107, a_text = 5, a_data = 0, a_bss = 0, a_reltext = 0, a_reldata = 0,
     a_syms = 0, a_entry = 1\<rparr>"
  "get_hsx (take 48 (drop 32 demo_file)) = \<lparr>x_sig = 0x31585348, x_version = 1, x_hdrlen = 48, x_codec = 1,
     x_window = 9, x_lookahead = 3, x_ctext = 3, x_cdata = 0, x_textcrc = 4004287417, x_datacrc = 0,
     x_reserved = 0, x_hdrcrc = 2774546292\<rparr>"
  by code_simp+

lemma demo_hdr_crc: "hsx_hdr_crc (get_exec demo_file) (get_hsx (take 48 (drop 32 demo_file))) = 2774546292"
proof -
  have bytes: "concat (map word_bytes (exec_words (get_exec demo_file))) = take 32 demo_file"
    "concat (map word_bytes (hsx_words (get_hsx (take 48 (drop 32 demo_file))\<lparr>x_hdrcrc := 0\<rparr>)))
       = take 44 (drop 32 demo_file) @ [0, 0, 0, 0]"
    by (simp_all add: demo_headers exec_words_def hsx_words_def word_bytes_def) (simp_all add: demo_file_def)
  have "crc32_update CRC32_INIT (take 32 demo_file) = 3090635979" by code_simp
  moreover have "CRC32_FIN (crc32_update 3090635979 (take 44 (drop 32 demo_file) @ [0, 0, 0, 0])) = 2774546292"
    by code_simp
  ultimately show ?thesis unfolding hsx_hdr_crc_def Let_def bytes by simp
qed

lemma demo_text_crc:
  "hsx_decode 3 [176, 128, 12] = [97, 97, 97, 97, 97]"
  "CRC32_FIN (crc32_update CRC32_INIT [97, 97, 97, 97, 97]) = 4004287417"
  by code_simp+

theorem exec_hsaout_text_exact_witness:
  "\<exists>dst'. exec_hsaout_text demo_work (demo_fill demo_file) 83 (get_exec demo_file) (get_hsx []) (replicate 6 9) 5
     = Inr (0, dst') \<and> take 5 dst' = hsx_decode 3 [176, 128, 12]"
proof -
  let ?x = "get_hsx (take 48 (drop 32 demo_file))"
  have packed: "take (unat (x_ctext ?x)) (drop 80 demo_file) = [176, 128, 12]"
    by (simp add: demo_headers) (simp add: demo_file_def)
  have "hsx_check (get_exec demo_file) ?x 83 = HSX_OK"
    using demo_hdr_crc unfolding demo_headers
    by (simp add: hsx_check_def Let_def N_GETMAGIC_def N_GETMID_def N_GETFLAG_def)
  then have "clean_text (get_exec demo_file) ?x 83 5 [176, 128, 12]"
    using demo_text_crc by (simp add: clean_text_def demo_headers)
  moreover have "length demo_file = 83" by (simp add: demo_file_def)
  moreover obtain r dst' where
    "exec_hsaout_text demo_work (demo_fill demo_file) 83 (get_exec demo_file) (get_hsx []) (replicate 6 9) 5 = Inr (r, dst')"
    "clean_text (get_exec demo_file) ?x 83 5 [176, 128, 12] \<Longrightarrow> r = 0"
    "r = 0 \<Longrightarrow> take (unat (5 :: 32 word)) dst' = hsx_decode 3 [176, 128, 12]"
    using exec_hsaout_text_exact[of "demo_fill demo_file" demo_file 83 demo_work 5 "replicate 6 9" "get_exec demo_file" "get_hsx []"]
      \<open>length demo_file = 83\<close>
    unfolding Let_def packed by (auto simp: demo_fill_def demo_work_def)
  ultimately show ?thesis by simp
qed

end
