(* ===== verification/Fdesc.thy ===== *)
theory Fdesc
  imports Sched
begin

text \<open>
  Descriptors and open files: \<open>sys/kern/kern_descrip.c\<close>, the advisory locks of
  \<open>sys/kern/sys_inode.c\<close>, and the descriptor handling of \<open>open\<close> (\<open>ufs_syscalls.c\<close>), \<open>pipe\<close>
  (\<open>sys_pipe.c\<close>), \<open>fork\<close>, \<open>exec\<close> and \<open>exit\<close>.

  The file table is a list of \<open>struct file\<close>; a pointer into it is an index.  \<open>uarea\<close> is the part of
  the u area that belongs to descriptors.  Reference counts and flag words are 32-bit words.
  An inode is a number, and \<open>ilock\<close> the part of it that the locks use; a wakeup of the lock channel
  of an inode is recorded in \<open>wakeups\<close>.  The operations behind the table \<open>Fops\<close> (device and inode
  close, ioctl) and \<open>vn_open\<close> are arguments.  The capacity counters, log messages and the unused
  \<open>f_msgcount\<close> are left out.
\<close>

unbundle bit_operations_syntax

section \<open>Data\<close>

abbreviation NOFILE :: nat where "NOFILE \<equiv> 30"
abbreviation NFILE :: nat where "NFILE \<equiv> 24"
abbreviation ENXIO :: int where "ENXIO \<equiv> 6"
abbreviation EBADF :: int where "EBADF \<equiv> 9"
abbreviation EACCES :: int where "EACCES \<equiv> 13"
abbreviation ENODEV :: int where "ENODEV \<equiv> 19"
abbreviation ENFILE :: int where "ENFILE \<equiv> 23"
abbreviation EMFILE :: int where "EMFILE \<equiv> 24"
abbreviation EOPNOTSUPP :: int where "EOPNOTSUPP \<equiv> 45"
abbreviation no_proc :: int where "no_proc \<equiv> 3"  \<comment> \<open>\<open>ESRCH\<close>\<close>
abbreviation DTYPE_INODE :: nat where "DTYPE_INODE \<equiv> 1"
abbreviation DTYPE_PIPE :: nat where "DTYPE_PIPE \<equiv> 3"

type_synonym fflags = "32 word"

definition FREAD :: fflags where
  "FREAD = 0x0001"

definition FWRITE :: fflags where
  "FWRITE = 0x0002"

definition FNONBLOCK :: fflags where
  "FNONBLOCK = 0x0004"

definition FAPPEND :: fflags where
  "FAPPEND = 0x0008"

definition FSHLOCK :: fflags where
  "FSHLOCK = 0x0010"

definition FEXLOCK :: fflags where
  "FEXLOCK = 0x0020"

definition FASYNC :: fflags where
  "FASYNC = 0x0040"

definition FFSYNC :: fflags where
  "FFSYNC = 0x0080"

definition FSEARCH :: fflags where
  "FSEARCH = 0x00040000"

definition FMASK :: fflags where
  "FMASK = FREAD OR FWRITE OR FAPPEND OR FASYNC OR FFSYNC OR FNONBLOCK OR FSEARCH"

definition FCNTLFLAGS :: fflags where
  "FCNTLFLAGS = FAPPEND OR FASYNC OR FFSYNC OR FNONBLOCK"

definition FFLAGS :: "fflags \<Rightarrow> fflags" where
  "FFLAGS oflags = (if oflags AND FSEARCH \<noteq> 0 then oflags AND NOT 3 else oflags + 1)"

definition OFLAGS :: "fflags \<Rightarrow> fflags" where
  "OFLAGS flags = (if flags AND FSEARCH \<noteq> 0 then flags else flags - 1)"

record struct_file =
  f_flag :: fflags
  f_type :: nat
  f_count :: "32 word"
  f_data :: "nat option"
  f_offset :: int

datatype iflag = ISHLOCK | IEXLOCK | ILWAIT

record ilock =
  i_flag :: "iflag set"
  i_shlockc :: nat
  i_exlockc :: nat

record ftab =
  files :: "struct_file list"
  lastf :: "nat option"
  inodes :: "nat \<Rightarrow> ilock"
  wakeups :: "nat list"

record uarea =
  u_ofile :: "nat option list"
  u_pofile :: "8 word list"
  u_lastfile :: int
  u_dupfd :: int
  u_rval :: int
  u_error :: int

datatype ioctl_cmd = FIONBIO | FIOASYNC | TIOCGPGRP | TIOCSPGRP

record fileops =
  fo_close :: "struct_file \<Rightarrow> int"
  fo_ioctl :: "struct_file \<Rightarrow> ioctl_cmd \<Rightarrow> int \<Rightarrow> int \<times> int"

definition updf :: "nat \<Rightarrow> (struct_file \<Rightarrow> struct_file) \<Rightarrow> ftab \<Rightarrow> ftab" where
  "updf k g t = t\<lparr>files := (files t)[k := g (files t ! k)]\<rparr>"

definition updi :: "nat \<Rightarrow> (ilock \<Rightarrow> ilock) \<Rightarrow> ftab \<Rightarrow> ftab" where
  "updi i g t = t\<lparr>inodes := (inodes t)(i := g (inodes t i))\<rparr>"

section \<open>Descriptors\<close>

definition bad_fd :: "int \<Rightarrow> uarea \<Rightarrow> bool" where
  "bad_fd fd u \<longleftrightarrow> fd < 0 \<or> fd \<ge> int NOFILE \<or> u_ofile u ! nat fd = None"

definition getf :: "int \<Rightarrow> uarea \<Rightarrow> nat option \<times> uarea" where
  "getf f u = (if bad_fd f u then (None, u\<lparr>u_error := EBADF\<rparr>) else (u_ofile u ! nat f, u))"

function ufalloc :: "nat \<Rightarrow> uarea \<Rightarrow> nat option \<times> uarea" where
  "ufalloc i u =
     (if i < NOFILE then
        if u_ofile u ! i = None then
          (Some i, u\<lparr>u_rval := int i, u_pofile := (u_pofile u)[i := 0],
                     u_lastfile := (if int i > u_lastfile u then int i else u_lastfile u)\<rparr>)
        else ufalloc (i + 1) u
      else (None, u\<lparr>u_error := EMFILE\<rparr>))"
  by pat_completeness auto
termination
  by (relation "measure (\<lambda>(i, _). NOFILE - i)") auto

declare ufalloc.simps [simp del]

definition getdtablesize :: "uarea \<Rightarrow> uarea" where
  "getdtablesize u = u\<lparr>u_rval := int NOFILE\<rparr>"

definition dupit :: "nat \<Rightarrow> nat \<Rightarrow> 8 word \<Rightarrow> uarea \<Rightarrow> ftab \<Rightarrow> uarea \<times> ftab" where
  "dupit fd fp flags u t =
     (u\<lparr>u_ofile := (u_ofile u)[fd := Some fp], u_pofile := (u_pofile u)[fd := flags],
        u_lastfile := (if int fd > u_lastfile u then int fd else u_lastfile u)\<rparr>,
      updf fp (\<lambda>f. f\<lparr>f_count := f_count f + 1\<rparr>) t)"

section \<open>Advisory locks\<close>

text \<open>The two halves of \<open>ino_unlock\<close>; \<open>flags\<close> are the flags of the inode on entry.\<close>

definition unlock_sh :: "nat \<Rightarrow> nat \<Rightarrow> iflag set \<Rightarrow> ftab \<Rightarrow> ftab" where
  "unlock_sh fp ip flags t =
     (let c = u16 (i_shlockc (inodes t ip) + 65535);
          t1 = updi ip (\<lambda>l. l\<lparr>i_shlockc := c, i_flag := (if c = 0 then i_flag l - {ISHLOCK} else i_flag l)\<rparr>) t;
          t2 = t1\<lparr>wakeups := (if c = 0 \<and> ILWAIT \<in> flags then ip # wakeups t1 else wakeups t1)\<rparr>
      in updf fp (\<lambda>f. f\<lparr>f_flag := f_flag f AND NOT FSHLOCK\<rparr>) t2)"

definition unlock_ex :: "nat \<Rightarrow> nat \<Rightarrow> iflag set \<Rightarrow> ftab \<Rightarrow> ftab" where
  "unlock_ex fp ip flags t =
     (let c = u16 (i_exlockc (inodes t ip) + 65535);
          t1 = updi ip (\<lambda>l. l\<lparr>i_exlockc := c, i_flag := (if c = 0 then i_flag l - {IEXLOCK, ILWAIT} else i_flag l)\<rparr>) t;
          t2 = t1\<lparr>wakeups := (if c = 0 \<and> ILWAIT \<in> flags then ip # wakeups t1 else wakeups t1)\<rparr>
      in updf fp (\<lambda>f. f\<lparr>f_flag := f_flag f AND NOT FEXLOCK\<rparr>) t2)"

definition ino_unlock :: "nat \<Rightarrow> fflags \<Rightarrow> ftab \<Rightarrow> ftab" where
  "ino_unlock fp kind t =
     (let kind = kind AND f_flag (files t ! fp) in
      case f_data (files t ! fp) of
        None \<Rightarrow> t
      | Some ip \<Rightarrow>
          if kind = 0 then t
          else
            let flags = i_flag (inodes t ip);
                t = (if kind AND FSHLOCK \<noteq> 0 then unlock_sh fp ip flags t else t)
            in if kind AND FEXLOCK \<noteq> 0 then unlock_ex fp ip flags t else t)"

abbreviation LOCK_SH :: "32 word" where "LOCK_SH \<equiv> 0x01"
abbreviation LOCK_EX :: "32 word" where "LOCK_EX \<equiv> 0x02"
abbreviation LOCK_NB :: "32 word" where "LOCK_NB \<equiv> 0x04"
abbreviation LOCK_UN :: "32 word" where "LOCK_UN \<equiv> 0x08"

text \<open>
  One attempt of \<open>ino_lock\<close>, from the label \<open>again\<close> to the grant, an error, or the call of
  \<open>tsleep\<close>.  A process whose sleep ends without an error makes the same attempt again.
\<close>

datatype lock_result = Returns int | Sleeps

definition ino_lock_grant :: "nat \<Rightarrow> 32 word \<Rightarrow> nat \<Rightarrow> ftab \<Rightarrow> ftab" where
  "ino_lock_grant fp cmd ip t =
     (if cmd AND LOCK_EX \<noteq> 0
      then updf fp (\<lambda>f. f\<lparr>f_flag := f_flag f OR FEXLOCK\<rparr>)
             (updi ip (\<lambda>l. l\<lparr>i_exlockc := u16 (i_exlockc l + 1), i_flag := i_flag l \<union> {IEXLOCK}\<rparr>) t)
      else if cmd AND LOCK_SH \<noteq> 0 \<and> f_flag (files t ! fp) AND FSHLOCK = 0
      then updf fp (\<lambda>f. f\<lparr>f_flag := f_flag f OR FSHLOCK\<rparr>)
             (updi ip (\<lambda>l. l\<lparr>i_shlockc := u16 (i_shlockc l + 1), i_flag := i_flag l \<union> {ISHLOCK}\<rparr>) t)
      else t)"

definition ino_lock_wait :: "32 word \<Rightarrow> nat \<Rightarrow> ftab \<Rightarrow> lock_result \<times> ftab" where
  "ino_lock_wait cmd ip t =
     (if cmd AND LOCK_NB \<noteq> 0 then (Returns EWOULDBLOCK, t)
      else (Sleeps, updi ip (\<lambda>l. l\<lparr>i_flag := i_flag l \<union> {ILWAIT}\<rparr>) t))"

text \<open>The holder of the lock releases it at most twice (exclusive, then shared) on the way.\<close>

fun ino_lock_loop :: "nat \<Rightarrow> nat \<Rightarrow> 32 word \<Rightarrow> nat \<Rightarrow> ftab \<Rightarrow> (lock_result \<times> ftab) res" where
  "ino_lock_loop 0 fp cmd ip t = Inl Hang"
| "ino_lock_loop (Suc fuel) fp cmd ip t =
     (if IEXLOCK \<in> i_flag (inodes t ip) then
        if f_flag (files t ! fp) AND FEXLOCK \<noteq> 0 then ino_lock_loop fuel fp cmd ip (ino_unlock fp FEXLOCK t)
        else Inr (ino_lock_wait cmd ip t)
      else if cmd AND LOCK_EX \<noteq> 0 \<and> ISHLOCK \<in> i_flag (inodes t ip) then
        if f_flag (files t ! fp) AND FSHLOCK \<noteq> 0 then ino_lock_loop fuel fp cmd ip (ino_unlock fp FSHLOCK t)
        else Inr (ino_lock_wait cmd ip t)
      else Inr (Returns 0, ino_lock_grant fp cmd ip t))"

definition ino_lock :: "nat \<Rightarrow> 32 word \<Rightarrow> ftab \<Rightarrow> (lock_result \<times> ftab) res" where
  "ino_lock fp cmd t =
     (case f_data (files t ! fp) of None \<Rightarrow> Inl Wild | Some ip \<Rightarrow> ino_lock_loop 3 fp cmd ip t)"

definition flock :: "int \<Rightarrow> 32 word \<Rightarrow> uarea \<Rightarrow> ftab \<Rightarrow> (lock_result \<times> uarea \<times> ftab) res" where
  "flock fd how u t =
     (case getf fd u of
        (None, u) \<Rightarrow> Inr (Returns 0, u, t)
      | (Some fp, u) \<Rightarrow>
          if f_type (files t ! fp) \<noteq> DTYPE_INODE then Inr (Returns 0, u\<lparr>u_error := EOPNOTSUPP\<rparr>, t)
          else if how AND LOCK_UN \<noteq> 0 then Inr (Returns 0, u, ino_unlock fp (FSHLOCK OR FEXLOCK) t)
          else if how AND (LOCK_SH OR LOCK_EX) = 0 then Inr (Returns 0, u, t)
          else
            let how = (if how AND LOCK_EX \<noteq> 0 then how AND NOT LOCK_SH else how)
            in if f_flag (files t ! fp) AND FEXLOCK \<noteq> 0 \<and> how AND LOCK_EX \<noteq> 0 then Inr (Returns 0, u, t)
               else if f_flag (files t ! fp) AND FSHLOCK \<noteq> 0 \<and> how AND LOCK_SH \<noteq> 0 then Inr (Returns 0, u, t)
               else
                 andthen (ino_lock fp how t)
                   (\<lambda>(r, t). Inr (r, case r of Returns e \<Rightarrow> u\<lparr>u_error := e\<rparr> | Sleeps \<Rightarrow> u, t)))"

section \<open>Closing\<close>

text \<open>\<open>vn_closefile\<close> clears the inode pointer of the file it closes.\<close>

definition closef :: "fileops \<Rightarrow> nat option \<Rightarrow> ftab \<Rightarrow> int \<times> ftab" where
  "closef ops fp t =
     (case fp of
        None \<Rightarrow> (0, t)
      | Some k \<Rightarrow>
          if f_count (files t ! k) > 1 then (0, updf k (\<lambda>f. f\<lparr>f_count := f_count f - 1\<rparr>) t)
          else
            let t1 = (if f_flag (files t ! k) AND (FSHLOCK OR FEXLOCK) \<noteq> 0 \<and> f_type (files t ! k) = DTYPE_INODE
                      then ino_unlock k (FSHLOCK OR FEXLOCK) t else t)
            in (fo_close ops (files t1 ! k),
                updf k (\<lambda>f. f\<lparr>f_count := 0, f_data := (if f_type f = DTYPE_INODE then None else f_data f)\<rparr>) t1))"

text \<open>The loop that lowers \<open>u_lastfile\<close> to the last open descriptor.\<close>

function lower_lastfile :: "nat option list \<Rightarrow> int \<Rightarrow> int" where
  "lower_lastfile ofile n = (if n \<ge> 0 \<and> ofile ! nat n = None then lower_lastfile ofile (n - 1) else n)"
  by pat_completeness auto
termination
  by (relation "measure (\<lambda>(_, n). nat (n + 1))") auto

declare lower_lastfile.simps [simp del]

definition close :: "fileops \<Rightarrow> int \<Rightarrow> uarea \<Rightarrow> ftab \<Rightarrow> uarea \<times> ftab" where
  "close ops i u t =
     (if bad_fd i u then (u\<lparr>u_error := EBADF\<rparr>, t)
      else
        let fp = u_ofile u ! nat i;
            ofile = (u_ofile u)[nat i := None];
            (e, t) = closef ops fp t
        in (u\<lparr>u_ofile := ofile, u_lastfile := lower_lastfile ofile (u_lastfile u), u_error := e\<rparr>, t))"

section \<open>dup, dup2, fcntl\<close>

abbreviation UF_EXCLOSE :: "8 word" where "UF_EXCLOSE \<equiv> 1"

definition dup2 :: "fileops \<Rightarrow> int \<Rightarrow> int \<Rightarrow> uarea \<Rightarrow> ftab \<Rightarrow> uarea \<times> ftab" where
  "dup2 ops i j u t =
     (if bad_fd i u then (u\<lparr>u_error := EBADF\<rparr>, t)
      else if j < 0 \<or> j \<ge> int NOFILE then (u\<lparr>u_error := EBADF\<rparr>, t)
      else
        let fp = the (u_ofile u ! nat i); u = u\<lparr>u_rval := j\<rparr> in
        if i = j then (u, t)
        else
          let t = (if u_ofile u ! nat j \<noteq> None then snd (closef ops (u_ofile u ! nat j) t) else t)
          in dupit (nat j) fp (u_pofile u ! nat i AND NOT UF_EXCLOSE) u t)"

definition dup :: "fileops \<Rightarrow> int \<Rightarrow> int \<Rightarrow> uarea \<Rightarrow> ftab \<Rightarrow> uarea \<times> ftab" where
  "dup ops i j u t =
     (if i AND NOT 63 \<noteq> 0 then dup2 ops (i AND 63) j u t
      else if bad_fd i u then (u\<lparr>u_error := EBADF\<rparr>, t)
      else
        case ufalloc 0 u of
          (None, u) \<Rightarrow> (u, t)
        | (Some k, u) \<Rightarrow> dupit k (the (u_ofile u ! nat i)) (u_pofile u ! nat i AND NOT UF_EXCLOSE) u t)"

definition fset :: "fileops \<Rightarrow> nat \<Rightarrow> fflags \<Rightarrow> fflags \<Rightarrow> ftab \<Rightarrow> int \<times> ftab" where
  "fset ops fp b v t =
     (let (e, _) = fo_ioctl ops (files t ! fp) (if b = FNONBLOCK then FIONBIO else FIOASYNC) (sint v) in
      if e \<noteq> 0 then (e, t)
      else (0, updf fp (\<lambda>f. f\<lparr>f_flag := (if v \<noteq> 0 then f_flag f OR b else f_flag f AND NOT b)\<rparr>) t))"

definition PGRP_VALID :: "int \<Rightarrow> bool" where
  "PGRP_VALID v \<longleftrightarrow> 0 \<le> v \<and> v \<le> 32767"

definition fgetown :: "fileops \<Rightarrow> nat \<Rightarrow> ftab \<Rightarrow> int \<times> int option" where
  "fgetown ops fp t =
     (let (e, v) = fo_ioctl ops (files t ! fp) TIOCGPGRP (-1) in
      if e \<noteq> 0 then (e, None) else if \<not> PGRP_VALID v then (EINVAL, None) else (0, Some (- v)))"

definition fsetown :: "fileops \<Rightarrow> sys \<Rightarrow> nat \<Rightarrow> int \<Rightarrow> ftab \<Rightarrow> int" where
  "fsetown ops s fp v t =
     (let target = (if v > 0 then case pfind v s of None \<Rightarrow> Inl no_proc | Some p \<Rightarrow> Inr (p_pgrp (ptab s p))
                    else if v < -32767 then Inl EINVAL else Inr (- v))
      in case target of
           Inl e \<Rightarrow> e
         | Inr v \<Rightarrow> if \<not> PGRP_VALID v then EINVAL else fst (fo_ioctl ops (files t ! fp) TIOCSPGRP v))"

definition fcntl_setfl :: "fileops \<Rightarrow> nat \<Rightarrow> fflags \<Rightarrow> ftab \<Rightarrow> int \<times> ftab" where
  "fcntl_setfl ops fp arg t =
     (let old_flags = f_flag (files t ! fp);
          new_flags = (old_flags AND NOT FCNTLFLAGS) OR (FFLAGS arg AND FCNTLFLAGS);
          (e, t) = fset ops fp FNONBLOCK (new_flags AND FNONBLOCK) t
      in if e \<noteq> 0 then (e, t)
         else
           let (e, t) = fset ops fp FASYNC (new_flags AND FASYNC) t
           in if e \<noteq> 0 then (e, snd (fset ops fp FNONBLOCK (old_flags AND FNONBLOCK) t))
              else (e, updf fp (\<lambda>f. f\<lparr>f_flag := new_flags\<rparr>) t))"

definition fcntl :: "fileops \<Rightarrow> sys \<Rightarrow> int \<Rightarrow> int \<Rightarrow> int \<Rightarrow> uarea \<Rightarrow> ftab \<Rightarrow> uarea \<times> ftab" where
  "fcntl ops s fdes cmd arg u t =
     (case getf fdes u of
        (None, u) \<Rightarrow> (u, t)
      | (Some fp, u) \<Rightarrow>
          let pop = u_pofile u ! nat fdes in
          if cmd = 0 then
            if arg < 0 \<or> arg \<ge> int NOFILE then (u\<lparr>u_error := EINVAL\<rparr>, t)
            else (case ufalloc (nat arg) u of
                    (None, u) \<Rightarrow> (u, t)
                  | (Some i, u) \<Rightarrow> dupit i fp (pop AND NOT UF_EXCLOSE) u t)
          else if cmd = 1 then (u\<lparr>u_rval := uint (pop AND 1)\<rparr>, t)
          else if cmd = 2 then
            (u\<lparr>u_pofile := (u_pofile u)[nat fdes := (pop AND NOT 1) OR (word_of_int arg AND 1)]\<rparr>, t)
          else if cmd = 3 then (u\<lparr>u_rval := sint (OFLAGS (f_flag (files t ! fp)))\<rparr>, t)
          else if cmd = 4 then (let (e, t) = fcntl_setfl ops fp (word_of_int arg) t in (u\<lparr>u_error := e\<rparr>, t))
          else if cmd = 5 then
            (let (e, v) = fgetown ops fp t
             in (u\<lparr>u_rval := (case v of None \<Rightarrow> u_rval u | Some v \<Rightarrow> v), u_error := e\<rparr>, t))
          else if cmd = 6 then (u\<lparr>u_error := fsetown ops s fp arg t\<rparr>, t)
          else (u\<lparr>u_error := EINVAL\<rparr>, t))"

text \<open>The descriptor requests that \<open>ioctl\<close> handles itself, \<open>FIOCLEX\<close> and \<open>FIONCLEX\<close>.\<close>

definition ioctl_clex :: "int \<Rightarrow> bool \<Rightarrow> uarea \<Rightarrow> ftab \<Rightarrow> uarea" where
  "ioctl_clex fdes on u t =
     (case getf fdes u of
        (None, u) \<Rightarrow> u
      | (Some fp, u) \<Rightarrow>
          if f_flag (files t ! fp) AND (FREAD OR FWRITE) = 0 then u\<lparr>u_error := EBADF\<rparr>
          else
            let pop = u_pofile u ! nat fdes
            in u\<lparr>u_pofile := (u_pofile u)[nat fdes := (if on then pop OR UF_EXCLOSE else pop AND NOT UF_EXCLOSE)]\<rparr>)"

section \<open>Opening\<close>

definition falloc :: "uarea \<Rightarrow> ftab \<Rightarrow> nat option \<times> uarea \<times> ftab" where
  "falloc u t =
     (case ufalloc 0 u of
        (None, u) \<Rightarrow> (None, u, t)
      | (Some i, u) \<Rightarrow>
          let l = (case lastf t of None \<Rightarrow> 0 | Some l \<Rightarrow> l);
              t = t\<lparr>lastf := Some l\<rparr>
          in case find (\<lambda>k. f_count (files t ! k) = 0) ([l..<NFILE] @ [0..<l]) of
               None \<Rightarrow> (None, u\<lparr>u_error := ENFILE\<rparr>, t)
             | Some k \<Rightarrow>
                 (Some k, u\<lparr>u_ofile := (u_ofile u)[i := Some k]\<rparr>,
                  (updf k (\<lambda>f. f\<lparr>f_count := 1, f_data := None, f_offset := 0\<rparr>) t)\<lparr>lastf := Some (k + 1)\<rparr>))"

definition fdopen :: "int \<Rightarrow> uarea \<Rightarrow> int \<times> uarea" where
  "fdopen minor u = (ENODEV, u\<lparr>u_dupfd := minor\<rparr>)"

definition dupfdopen :: "nat \<Rightarrow> int \<Rightarrow> fflags \<Rightarrow> int \<Rightarrow> uarea \<Rightarrow> ftab \<Rightarrow> int \<times> uarea \<times> ftab" where
  "dupfdopen indx dfd mode error u t =
     (if dfd \<ge> int NOFILE \<or> u_ofile u ! nat dfd = None \<or> u_ofile u ! indx = u_ofile u ! nat dfd
      then (EBADF, u, t)
      else if error = ENODEV then
        let wfp = the (u_ofile u ! nat dfd) in
        if ((mode AND (FREAD OR FWRITE)) OR f_flag (files t ! wfp)) \<noteq> f_flag (files t ! wfp) then (EACCES, u, t)
        else
          (0, u\<lparr>u_ofile := (u_ofile u)[indx := Some wfp], u_pofile := (u_pofile u)[indx := u_pofile u ! nat dfd],
                u_lastfile := (if int indx > u_lastfile u then int indx else u_lastfile u)\<rparr>,
           updf wfp (\<lambda>f. f\<lparr>f_count := f_count f + 1\<rparr>) t)
      else (error, u, t))"

text \<open>
  \<open>copen\<close>.  \<open>nserror\<close> is what \<open>ufs_namespace_enter\<close> answers, 0 when the policy does not ask for it;
  \<open>vn_open\<close> yields an error with the value it leaves
  in \<open>u_dupfd\<close> (set by \<open>fdopen\<close>), or the inode.  The condition of the source assigns to
  \<open>error\<close> the truth value of \<open>dupfdopen (...) == 0\<close>.  The open flags that ask for a lock take
  one attempt of \<open>ino_lock\<close>; a process that has to sleep for it is still inside \<open>open\<close>.
\<close>

definition copen ::
  "fileops \<Rightarrow> int \<Rightarrow> fflags \<Rightarrow> (int \<times> int) + nat \<Rightarrow> uarea \<Rightarrow> ftab \<Rightarrow> (lock_result \<times> uarea \<times> ftab) res" where
  "copen ops nserror mode vn_open u t =
     (if mode AND FSEARCH \<noteq> 0 \<and> (mode AND 3 \<noteq> 0 \<or> mode AND 0xE00 \<noteq> 0) then Inr (Returns EINVAL, u, t)
      else if nserror \<noteq> 0 then Inr (Returns nserror, u, t)
      else
        case falloc u t of
          (None, u, t) \<Rightarrow> Inr (Returns (u_error u), u, t)
        | (Some fp, u, t) \<Rightarrow>
            let flags = FFLAGS mode;
                t = updf fp (\<lambda>f. f\<lparr>f_flag := flags AND FMASK, f_type := DTYPE_INODE\<rparr>) t;
                indx = nat (u_rval u);
                u = u\<lparr>u_dupfd := - int indx - 1\<rparr>
            in case vn_open of
                 Inl (error, dupfd) \<Rightarrow>
                   let u = u\<lparr>u_dupfd := dupfd\<rparr>;
                       t = updf fp (\<lambda>f. f\<lparr>f_count := 0\<rparr>) t
                   in if (error = ENODEV \<or> error = ENXIO) \<and> u_dupfd u \<ge> 0 then
                        let (e, u, t) = dupfdopen indx (u_dupfd u) flags error u t
                        in if e = 0 then Inr (Returns 0, u\<lparr>u_rval := int indx\<rparr>, t)
                           else Inr (Returns 0, u\<lparr>u_ofile := (u_ofile u)[indx := None]\<rparr>, t)
                      else Inr (Returns error, u\<lparr>u_ofile := (u_ofile u)[indx := None]\<rparr>, t)
               | Inr ip \<Rightarrow>
                   let u = u\<lparr>u_dupfd := 0\<rparr>;
                       t = updf fp (\<lambda>f. f\<lparr>f_data := Some ip\<rparr>) t
                   in if flags AND (FEXLOCK OR FSHLOCK) \<noteq> 0 then
                        let type = (if flags AND FEXLOCK \<noteq> 0 then LOCK_EX else LOCK_SH);
                            type = (if flags AND FNONBLOCK \<noteq> 0 then type OR LOCK_NB else type)
                        in andthen (ino_lock fp type t)
                             (\<lambda>(r, t).
                                case r of
                                  Sleeps \<Rightarrow> Inr (Sleeps, u, t)
                                | Returns error \<Rightarrow>
                                    if error \<noteq> 0
                                    then Inr (Returns error, u\<lparr>u_ofile := (u_ofile u)[indx := None]\<rparr>, snd (closef ops (Some fp) t))
                                    else Inr (Returns error, u, t))
                      else Inr (Returns 0, u, t))"

text \<open>
  \<open>pipe\<close> after \<open>ialloc\<close> has found the inode.  The first component is the second return value
  (register \<open>r1\<close>), \<open>None\<close> when the call fails.  A new inode carries no locks, so what \<open>pipe\<close> writes into its
  flags does not concern them.
\<close>

definition pipe :: "nat \<Rightarrow> uarea \<Rightarrow> ftab \<Rightarrow> int option \<times> uarea \<times> ftab" where
  "pipe ip u t =
     (case falloc u t of
        (None, u, t) \<Rightarrow> (None, u, t)
      | (Some rf, u, t) \<Rightarrow>
          let r = u_rval u in
          case falloc u t of
            (None, u, t) \<Rightarrow>
              (None, u\<lparr>u_ofile := (u_ofile u)[nat r := None]\<rparr>, updf rf (\<lambda>f. f\<lparr>f_count := 0\<rparr>) t)
          | (Some wf1, u, t) \<Rightarrow>
              (Some (u_rval u), u\<lparr>u_rval := r\<rparr>,
               updf rf (\<lambda>f. f\<lparr>f_flag := FREAD, f_type := DTYPE_PIPE, f_data := Some ip\<rparr>)
                 (updf wf1 (\<lambda>f. f\<lparr>f_flag := FWRITE, f_type := DTYPE_PIPE, f_data := Some ip\<rparr>) t)))"

definition getinode :: "int \<Rightarrow> uarea \<Rightarrow> ftab \<Rightarrow> nat option \<times> uarea" where
  "getinode fdes u t =
     (case getf fdes u of
        (None, u) \<Rightarrow> (None, u)
      | (Some fp, u) \<Rightarrow>
          if f_type (files t ! fp) \<noteq> DTYPE_INODE then (None, u\<lparr>u_error := EINVAL\<rparr>)
          else (f_data (files t ! fp), u))"

section \<open>fork, exec and exit\<close>

abbreviation fds :: "uarea \<Rightarrow> nat list" where
  "fds u \<equiv> [0..<nat (u_lastfile u + 1)]"

text \<open>The loop of \<open>newproc\<close> that counts the child's references.\<close>

fun fork_files :: "nat list \<Rightarrow> uarea \<Rightarrow> ftab \<Rightarrow> ftab" where
  "fork_files [] u t = t"
| "fork_files (n # ns) u t =
     fork_files ns u (case u_ofile u ! n of None \<Rightarrow> t | Some fp \<Rightarrow> updf fp (\<lambda>f. f\<lparr>f_count := f_count f + 1\<rparr>) t)"

text \<open>The loop of \<open>exec_clear\<close> that closes the descriptors marked for it.\<close>

fun exec_close :: "fileops \<Rightarrow> nat list \<Rightarrow> uarea \<Rightarrow> ftab \<Rightarrow> uarea \<times> ftab" where
  "exec_close ops [] u t = (u, t)"
| "exec_close ops (cc # ccs) u t =
     (if u_pofile u ! cc AND UF_EXCLOSE \<noteq> 0
      then exec_close ops ccs (u\<lparr>u_ofile := (u_ofile u)[cc := None], u_pofile := (u_pofile u)[cc := 0]\<rparr>)
             (snd (closef ops (u_ofile u ! cc) t))
      else exec_close ops ccs u t)"

definition exec_clear :: "fileops \<Rightarrow> uarea \<Rightarrow> ftab \<Rightarrow> uarea \<times> ftab" where
  "exec_clear ops u t =
     (let (u, t) = exec_close ops (fds u) u t
      in (u\<lparr>u_lastfile := lower_lastfile (u_ofile u) (u_lastfile u)\<rparr>, t))"

text \<open>The loop of \<open>exit\<close> that closes every descriptor.\<close>

fun exit_files :: "fileops \<Rightarrow> nat list \<Rightarrow> uarea \<Rightarrow> ftab \<Rightarrow> uarea \<times> ftab" where
  "exit_files ops [] u t = (u, t)"
| "exit_files ops (i # is) u t =
     exit_files ops is (u\<lparr>u_ofile := (u_ofile u)[i := None], u_pofile := (u_pofile u)[i := 0]\<rparr>)
       (snd (closef ops (u_ofile u ! i) t))"

end
