(* ===== verification/Fdesc_Refs.thy ===== *)
theory Fdesc_Refs
  imports Fdesc
begin

text \<open>
  Reference counts and locks of open files.  \<open>bal others ofile t\<close>: the count of every file is the
  number of descriptors in \<open>ofile\<close> that name it plus the references \<open>others\<close> hold.  \<open>lk_ok t\<close>: the lock
  counts of every inode are the numbers of open files that hold its locks, and exclusive locks
  exclude.
\<close>

section \<open>Counting references\<close>

lemma count_list_update:
  "i < length xs \<Longrightarrow> count_list (xs[i := v]) x + of_bool (xs ! i = x) = count_list xs x + of_bool (v = x)"
proof (induction xs arbitrary: i)
  case (Cons a xs)
  then show ?case by (cases i) auto
qed simp

definition bal :: "(nat \<Rightarrow> nat) \<Rightarrow> nat option list \<Rightarrow> ftab \<Rightarrow> bool" where
  "bal others ofile t \<longleftrightarrow> (\<forall>k<NFILE. unat (f_count (files t ! k)) = count_list ofile (Some k) + others k)"

definition few :: "(nat \<Rightarrow> nat) \<Rightarrow> bool" where
  "few others \<longleftrightarrow> (\<forall>k<NFILE. others k < 100000)"

definition uok :: "uarea \<Rightarrow> bool" where
  "uok u \<longleftrightarrow> length (u_ofile u) = NOFILE \<and> length (u_pofile u) = NOFILE \<and> -1 \<le> u_lastfile u \<and> u_lastfile u < int NOFILE
     \<and> (\<forall>i<NOFILE. u_ofile u ! i \<noteq> None \<longrightarrow> int i \<le> u_lastfile u) \<and> (\<forall>k. Some k \<in> set (u_ofile u) \<longrightarrow> k < NFILE)"

definition tok :: "ftab \<Rightarrow> bool" where
  "tok t \<longleftrightarrow> length (files t) = NFILE \<and> (\<forall>l. lastf t = Some l \<longrightarrow> l \<le> NFILE)"

lemma files_updf [simp]: "files (updf k g t) = (files t)[k := g (files t ! k)]"
  by (simp add: updf_def)

lemma updf_fields [simp]: "inodes (updf k g t) = inodes t" "lastf (updf k g t) = lastf t" "wakeups (updf k g t) = wakeups t"
  by (simp_all add: updf_def)

lemma updi_fields [simp]: "files (updi i g t) = files t" "lastf (updi i g t) = lastf t" "wakeups (updi i g t) = wakeups t"
  "inodes (updi i g t) = (inodes t)(i := g (inodes t i))"
  by (simp_all add: updi_def)

lemma tok_updf [simp]: "tok (updf k g t) = tok t"
  by (simp add: tok_def)

lemma count_list_le: "count_list xs x \<le> length xs"
  by (induction xs) auto

lemma bal_bound: "bal others ofile t \<Longrightarrow> few others \<Longrightarrow> length ofile = NOFILE \<Longrightarrow> k < NFILE
  \<Longrightarrow> unat (f_count (files t ! k)) < 200000"
  using count_list_le[of ofile "Some k"] by (fastforce simp: bal_def few_def)

lemma unat_inc: "unat c < 200000 \<Longrightarrow> unat (c + 1 :: 32 word) = unat c + 1"
  by (subst unat_plus_if') simp

lemma unat_dec: "0 < unat c \<Longrightarrow> unat (c - 1 :: 32 word) = unat c - 1"
  by (subst unat_minus_one) auto

lemma bal_inc:
  assumes "bal others (ofile[j := None]) t" and "few others" and "length ofile = NOFILE" and "j < NOFILE" and "k < NFILE"
    and "length (files t) = NFILE"
  shows "bal others (ofile[j := Some k]) (updf k (\<lambda>f. f\<lparr>f_count := f_count f + 1\<rparr>) t)"
proof -
  have b: "unat (f_count (files t ! k)) < 200000" using assms bal_bound[OF assms(1,2)] by simp
  have "count_list (ofile[j := Some k]) (Some m) = count_list (ofile[j := None]) (Some m) + of_bool (m = k)" for m
    using count_list_update[of j ofile "Some k" "Some m"] count_list_update[of j ofile None "Some m"] assms(3,4)
    by (auto simp: of_bool_def split: if_splits)
  then show ?thesis
    using assms(1,5,6) unat_inc[OF b] by (auto simp: bal_def nth_list_update)
qed

section \<open>Locks\<close>

definition holders :: "nat \<Rightarrow> ftab \<Rightarrow> nat \<Rightarrow> nat set" where
  "holders b t i = {k. k < NFILE \<and> bit (f_flag (files t ! k)) b \<and> f_data (files t ! k) = Some i}"

definition ilk_ok :: "ilock \<Rightarrow> nat \<Rightarrow> nat \<Rightarrow> bool" where
  "ilk_ok l ns ne \<longleftrightarrow> i_shlockc l = ns \<and> i_exlockc l = ne \<and> (ISHLOCK \<in> i_flag l \<longleftrightarrow> ns \<noteq> 0)
     \<and> (IEXLOCK \<in> i_flag l \<longleftrightarrow> ne \<noteq> 0) \<and> ne \<le> 1 \<and> (ne \<noteq> 0 \<longrightarrow> ns = 0)"

definition flk_ok :: "struct_file \<Rightarrow> bool" where
  "flk_ok f \<longleftrightarrow> bit (f_flag f) 4 \<or> bit (f_flag f) 5 \<longrightarrow> f_count f \<noteq> 0 \<and> f_type f = DTYPE_INODE \<and> f_data f \<noteq> None"

definition lk_ok :: "ftab \<Rightarrow> bool" where
  "lk_ok t \<longleftrightarrow> length (files t) = NFILE \<and> (\<forall>k<NFILE. flk_ok (files t ! k))
     \<and> (\<forall>i. ilk_ok (inodes t i) (card (holders 4 t i)) (card (holders 5 t i)))"

lemma bit_flag_consts [simp]:
  "bit FREAD n \<longleftrightarrow> n = 0" "bit FWRITE n \<longleftrightarrow> n = 1" "bit FNONBLOCK n \<longleftrightarrow> n = 2" "bit FAPPEND n \<longleftrightarrow> n = 3"
  "bit FSHLOCK n \<longleftrightarrow> n = 4" "bit FEXLOCK n \<longleftrightarrow> n = 5" "bit FASYNC n \<longleftrightarrow> n = 6" "bit FFSYNC n \<longleftrightarrow> n = 7"
  "bit FSEARCH n \<longleftrightarrow> n = 18"
proof -
  have "bit (2 ^ m :: 32 word) n \<longleftrightarrow> n = m" if "m < 32" for m
    using that by (auto simp: bit_exp_iff)
  from this[of 0] this[of 1] this[of 2] this[of 3] this[of 4] this[of 5] this[of 6] this[of 7] this[of 18]
  show "bit FREAD n \<longleftrightarrow> n = 0" "bit FWRITE n \<longleftrightarrow> n = 1" "bit FNONBLOCK n \<longleftrightarrow> n = 2" "bit FAPPEND n \<longleftrightarrow> n = 3"
    "bit FSHLOCK n \<longleftrightarrow> n = 4" "bit FEXLOCK n \<longleftrightarrow> n = 5" "bit FASYNC n \<longleftrightarrow> n = 6" "bit FFSYNC n \<longleftrightarrow> n = 7"
    "bit FSEARCH n \<longleftrightarrow> n = 18"
    by (simp_all add: FREAD_def FWRITE_def FNONBLOCK_def FAPPEND_def FSHLOCK_def FEXLOCK_def FASYNC_def FFSYNC_def FSEARCH_def)
qed

lemma bit_clear:
  "bit (w AND NOT FSHLOCK) n \<longleftrightarrow> bit w n \<and> n \<noteq> 4" "bit (w AND NOT FEXLOCK) n \<longleftrightarrow> bit w n \<and> n \<noteq> 5"
  "bit (w OR FSHLOCK) n \<longleftrightarrow> bit w n \<or> n = 4" "bit (w OR FEXLOCK) n \<longleftrightarrow> bit w n \<or> n = 5"
  by (auto simp: bit_and_iff bit_or_iff bit_not_iff dest: bit_imp_le_length)

lemma word_eq_0_bits: "(w :: 32 word) = 0 \<longleftrightarrow> (\<forall>n. \<not> bit w n)"
  by (auto intro: bit_eqI)

lemma flag_bits:
  "w AND FSHLOCK = 0 \<longleftrightarrow> \<not> bit w 4" "w AND FEXLOCK = 0 \<longleftrightarrow> \<not> bit w 5"
  "FSHLOCK AND w = 0 \<longleftrightarrow> \<not> bit w 4" "FEXLOCK AND w = 0 \<longleftrightarrow> \<not> bit w 5"
  "w AND (FSHLOCK OR FEXLOCK) = 0 \<longleftrightarrow> \<not> bit w 4 \<and> \<not> bit w 5"
  "(FSHLOCK OR FEXLOCK) AND w = 0 \<longleftrightarrow> \<not> bit w 4 \<and> \<not> bit w 5"
  by (auto simp: word_eq_0_bits bit_and_iff bit_or_iff)

lemma u16_pred: "0 < c \<Longrightarrow> c \<le> NFILE \<Longrightarrow> u16 (c + 65535) = c - 1"
proof -
  assume "0 < c" "c \<le> NFILE"
  then obtain m where "c = Suc m" "m \<le> 23" by (cases c) auto
  then have "c + 65535 = m + 65536" "c - 1 = m" by simp_all
  then show ?thesis using \<open>m \<le> 23\<close> by (simp only: u16_def mod_add_self2 mod_less)
qed

lemma finite_holders [simp]: "finite (holders b t i)"
  by (simp add: holders_def)

lemma holders_le: "card (holders b t i) \<le> NFILE"
proof -
  have "card (holders b t i) \<le> card {..<NFILE}" by (intro card_mono) (auto simp: holders_def)
  then show ?thesis by simp
qed

lemma ilk_dec: "ilk_ok l ns ne \<Longrightarrow> 0 < ns \<Longrightarrow> ns \<le> NFILE \<Longrightarrow>
  ilk_ok (l\<lparr>i_shlockc := u16 (i_shlockc l + 65535),
            i_flag := (if u16 (i_shlockc l + 65535) = 0 then i_flag l - {ISHLOCK} else i_flag l)\<rparr>) (ns - 1) ne"
  by (auto simp: ilk_ok_def u16_pred)

lemma ilk_dec_ex: "ilk_ok l ns ne \<Longrightarrow> 0 < ne \<Longrightarrow> ne \<le> NFILE \<Longrightarrow>
  ilk_ok (l\<lparr>i_exlockc := u16 (i_exlockc l + 65535),
            i_flag := (if u16 (i_exlockc l + 65535) = 0 then i_flag l - {IEXLOCK, ILWAIT} else i_flag l)\<rparr>) ns (ne - 1)"
  by (auto simp: ilk_ok_def u16_pred)

lemma holders_clear:
  assumes "length (files t) = NFILE" and "fp < NFILE" and "f_data (files t ! fp) = Some ip"
    and "\<And>n. bit (f_flag (g (files t ! fp))) n \<longleftrightarrow> bit (f_flag (files t ! fp)) n \<and> n \<noteq> b"
    and "f_data (g (files t ! fp)) = f_data (files t ! fp)"
    and "files t' = (files t)[fp := g (files t ! fp)]"
  shows "holders b t' i = (if i = ip then holders b t i - {fp} else holders b t i)"
    and "b' \<noteq> b \<Longrightarrow> holders b' t' i = holders b' t i"
proof -
  have f: "files t' ! k = (if k = fp then g (files t ! fp) else files t ! k)" if "k < NFILE" for k
    using that assms(1,2,6) by (simp add: nth_list_update)
  have "k \<in> holders b t' i \<longleftrightarrow> k \<in> (if i = ip then holders b t i - {fp} else holders b t i)" for k
    using assms(2,3) by (cases "k = fp") (auto simp: holders_def f assms(4,5))
  then show "holders b t' i = (if i = ip then holders b t i - {fp} else holders b t i)" by blast
  have "k \<in> holders b' t' i \<longleftrightarrow> k \<in> holders b' t i" if "b' \<noteq> b" for k
    using assms(2,3) that by (cases "k = fp") (auto simp: holders_def f assms(4,5))
  then show "b' \<noteq> b \<Longrightarrow> holders b' t' i = holders b' t i" by blast
qed

lemma unlock_files:
  "files (unlock_sh fp ip flags t) = (files t)[fp := (files t ! fp)\<lparr>f_flag := f_flag (files t ! fp) AND NOT FSHLOCK\<rparr>]"
  "files (unlock_ex fp ip flags t) = (files t)[fp := (files t ! fp)\<lparr>f_flag := f_flag (files t ! fp) AND NOT FEXLOCK\<rparr>]"
  by (simp_all add: unlock_sh_def unlock_ex_def Let_def)

lemma unlock_inodes:
  "inodes (unlock_sh fp ip flags t) = (inodes t)(ip := (inodes t ip)\<lparr>i_shlockc := u16 (i_shlockc (inodes t ip) + 65535),
     i_flag := (if u16 (i_shlockc (inodes t ip) + 65535) = 0 then i_flag (inodes t ip) - {ISHLOCK} else i_flag (inodes t ip))\<rparr>)"
  "inodes (unlock_ex fp ip flags t) = (inodes t)(ip := (inodes t ip)\<lparr>i_exlockc := u16 (i_exlockc (inodes t ip) + 65535),
     i_flag := (if u16 (i_exlockc (inodes t ip) + 65535) = 0 then i_flag (inodes t ip) - {IEXLOCK, ILWAIT} else i_flag (inodes t ip))\<rparr>)"
  by (simp_all add: unlock_sh_def unlock_ex_def Let_def)

lemma unlock_lastf: "lastf (unlock_sh fp ip flags t) = lastf t" "lastf (unlock_ex fp ip flags t) = lastf t"
  by (simp_all add: unlock_sh_def unlock_ex_def Let_def)

lemma lk_okD:
  assumes "lk_ok t"
  shows "length (files t) = NFILE" "k < NFILE \<Longrightarrow> flk_ok (files t ! k)"
    "ilk_ok (inodes t i) (card (holders 4 t i)) (card (holders 5 t i))"
  using assms by (auto simp: lk_ok_def)

lemma lk_okI:
  assumes "length (files t') = NFILE" and "files t' = (files t)[fp := f]" and "lk_ok t" and "flk_ok f"
    and "\<And>i. ilk_ok (inodes t' i) (card (holders 4 t' i)) (card (holders 5 t' i))"
  shows "lk_ok t'"
proof -
  have "flk_ok (files t' ! k)" if "k < NFILE" for k
    using assms(1-4) that lk_okD(2)[OF assms(3), of k] by (cases "k = fp") auto
  then show ?thesis using assms by (auto simp: lk_ok_def)
qed

lemma lk_unlock_sh:
  assumes "lk_ok t" and "fp < NFILE" and "f_data (files t ! fp) = Some ip" and "bit (f_flag (files t ! fp)) 4"
  shows "lk_ok (unlock_sh fp ip flags t)"
proof (rule lk_okI[OF _ unlock_files(1) assms(1)])
  let ?t = "unlock_sh fp ip flags t" and ?g = "\<lambda>f. f\<lparr>f_flag := f_flag f AND NOT FSHLOCK\<rparr>"
  note len = lk_okD(1)[OF assms(1)]
  note h = holders_clear[OF len assms(2,3), of ?g 4 ?t, OF _ _ unlock_files(1), simplified, OF bit_clear(1)]
  have "fp \<in> holders 4 t ip" using assms by (simp add: holders_def)
  then have c: "card (holders 4 t ip - {fp}) = card (holders 4 t ip) - 1" "0 < card (holders 4 t ip)"
    by (auto simp: card_gt_0_iff)
  show "ilk_ok (inodes ?t i) (card (holders 4 ?t i)) (card (holders 5 ?t i))" for i
  proof (cases "i = ip")
    case True
    have "card (holders 4 ?t ip) = card (holders 4 t ip) - 1" "holders 5 ?t ip = holders 5 t ip"
      using c(1) by (simp_all add: h)
    then show ?thesis
      using ilk_dec[OF lk_okD(3)[OF assms(1)] c(2) holders_le] True by (simp only: unlock_inodes fun_upd_same)
  next
    case False
    then show ?thesis using lk_okD(3)[OF assms(1), of i] by (simp add: h unlock_inodes)
  qed
  show "length (files ?t) = NFILE" by (simp add: unlock_files len)
  show "flk_ok (?g (files t ! fp))"
    using lk_okD(2)[OF assms(1,2)] by (auto simp: flk_ok_def bit_clear)
qed

lemma lk_unlock_ex:
  assumes "lk_ok t" and "fp < NFILE" and "f_data (files t ! fp) = Some ip" and "bit (f_flag (files t ! fp)) 5"
  shows "lk_ok (unlock_ex fp ip flags t)"
proof (rule lk_okI[OF _ unlock_files(2) assms(1)])
  let ?t = "unlock_ex fp ip flags t" and ?g = "\<lambda>f. f\<lparr>f_flag := f_flag f AND NOT FEXLOCK\<rparr>"
  note len = lk_okD(1)[OF assms(1)]
  note h = holders_clear[OF len assms(2,3), of ?g 5 ?t, OF _ _ unlock_files(2), simplified, OF bit_clear(2)]
  have "fp \<in> holders 5 t ip" using assms by (simp add: holders_def)
  then have c: "card (holders 5 t ip - {fp}) = card (holders 5 t ip) - 1" "0 < card (holders 5 t ip)"
    by (auto simp: card_gt_0_iff)
  show "ilk_ok (inodes ?t i) (card (holders 4 ?t i)) (card (holders 5 ?t i))" for i
  proof (cases "i = ip")
    case True
    have "card (holders 5 ?t ip) = card (holders 5 t ip) - 1" "holders 4 ?t ip = holders 4 t ip"
      using c(1) by (simp_all add: h)
    then show ?thesis
      using ilk_dec_ex[OF lk_okD(3)[OF assms(1)] c(2) holders_le] True by (simp only: unlock_inodes fun_upd_same)
  next
    case False
    then show ?thesis using lk_okD(3)[OF assms(1), of i] by (simp add: h unlock_inodes)
  qed
  show "length (files ?t) = NFILE" by (simp add: unlock_files len)
  show "flk_ok (?g (files t ! fp))"
    using lk_okD(2)[OF assms(1,2)] by (auto simp: flk_ok_def bit_clear)
qed

text \<open>What unlocking leaves alone, and that it clears the flags.\<close>

definition unlocked :: "nat \<Rightarrow> fflags \<Rightarrow> ftab \<Rightarrow> ftab \<Rightarrow> bool" where
  "unlocked fp kind t t' \<longleftrightarrow> lastf t' = lastf t
     \<and> files t' = (files t)[fp := (files t ! fp)\<lparr>f_flag := f_flag (files t ! fp) AND NOT kind\<rparr>]"

lemma and_not_disjoint: "kind AND w = 0 \<Longrightarrow> w AND NOT kind = (w :: 32 word)"
proof -
  assume z: "kind AND w = 0"
  have "\<not> (bit kind n \<and> bit w n)" for n
  proof -
    have "bit (kind AND w) n = bit 0 n" using z by simp
    then show ?thesis by (simp add: bit_and_iff)
  qed
  then show ?thesis by (intro bit_eqI) (auto simp: bit_and_iff bit_not_iff)
qed

lemma unlocked_cases:
  assumes "lastf t' = lastf t" and "length (files t) = NFILE" and "fp < NFILE"
    and "files t' = (files t)[fp := (files t ! fp)\<lparr>f_flag := w\<rparr>]"
    and "\<And>n. bit w n \<longleftrightarrow> bit (f_flag (files t ! fp)) n \<and> \<not> bit kind n"
  shows "unlocked fp kind t t'"
proof -
  have "w = f_flag (files t ! fp) AND NOT kind"
    by (rule bit_eqI) (simp add: assms(5) bit_and_iff bit_not_iff)
  then show ?thesis using assms(1,4) by (simp add: unlocked_def)
qed

abbreviation lock_kind :: "fflags \<Rightarrow> bool" where
  "lock_kind kind \<equiv> kind = FSHLOCK \<or> kind = FEXLOCK \<or> kind = (FSHLOCK OR FEXLOCK)"

lemma ino_unlock_ok:
  assumes "lk_ok t" and "fp < NFILE" and kind: "lock_kind kind"
  shows "lk_ok (ino_unlock fp kind t) \<and> unlocked fp kind t (ino_unlock fp kind t)"
proof (cases "kind AND f_flag (files t ! fp) = 0")
  case True
  then have "ino_unlock fp kind t = t" unfolding ino_unlock_def Let_def by (simp split: option.split)
  then show ?thesis using assms(1) True by (simp add: unlocked_def and_not_disjoint)
next
  case False
  let ?w = "f_flag (files t ! fp)"
  note len = lk_okD(1)[OF assms(1)]
  have "bit ?w 4 \<or> bit ?w 5" using False kind by (auto simp: flag_bits)
  then obtain ip where ip: "f_data (files t ! fp) = Some ip"
    using lk_okD(2)[OF assms(1,2)] by (auto simp: flk_ok_def)
  define flags where "flags = i_flag (inodes t ip)"
  define t1 where "t1 = (if bit kind 4 \<and> bit ?w 4 then unlock_sh fp ip flags t else t)"
  define t2 where "t2 = (if bit kind 5 \<and> bit ?w 5 then unlock_ex fp ip flags t1 else t1)"
  have run: "ino_unlock fp kind t = t2"
    using False ip by (simp add: ino_unlock_def Let_def flag_bits bit_and_iff t1_def t2_def flags_def)
  have t1: "lk_ok t1" "lastf t1 = lastf t"
    "files t1 = (files t)[fp := (files t ! fp)\<lparr>f_flag := (if bit kind 4 \<and> bit ?w 4 then ?w AND NOT FSHLOCK else ?w)\<rparr>]"
    using assms lk_unlock_sh[OF assms(1,2) ip] by (auto simp: t1_def unlock_files unlock_lastf)
  have "f_data (files t1 ! fp) = Some ip" "bit (f_flag (files t1 ! fp)) 5 = bit ?w 5"
    using t1(3) ip len assms(2) by (auto simp: bit_clear)
  then have t2: "lk_ok t2" "lastf t2 = lastf t"
    using t1 lk_unlock_ex[OF t1(1) assms(2)] by (auto simp: t2_def unlock_lastf)
  let ?v = "if bit kind 4 \<and> bit ?w 4 then ?w AND NOT FSHLOCK else ?w"
  have "files t2 = (files t)[fp := (files t ! fp)\<lparr>f_flag := (if bit kind 5 \<and> bit ?w 5 then ?v AND NOT FEXLOCK else ?v)\<rparr>]"
    using t1(3) len assms(2) by (auto simp: t2_def unlock_files)
  moreover have "bit (if bit kind 5 \<and> bit ?w 5 then ?v AND NOT FEXLOCK else ?v) n \<longleftrightarrow> bit ?w n \<and> \<not> bit kind n" for n
    using kind by (auto simp: bit_clear bit_or_iff)
  ultimately show ?thesis
    unfolding run using t2 unlocked_cases[OF t2(2) len assms(2)] by blast
qed

lemma lk_updf:
  assumes "lk_ok t" and "k < NFILE" and "files t' = (files t)[k := f]" and "inodes t' = inodes t" and "flk_ok f"
    and "\<And>b. b = 4 \<or> b = 5 \<Longrightarrow> bit (f_flag f) b \<longleftrightarrow> bit (f_flag (files t ! k)) b"
    and "bit (f_flag f) 4 \<or> bit (f_flag f) 5 \<Longrightarrow> f_data f = f_data (files t ! k)"
  shows "lk_ok t'"
proof (rule lk_okI[OF _ assms(3,1,5)])
  note len = lk_okD(1)[OF assms(1)]
  show "length (files t') = NFILE" by (simp add: assms(3) len)
  have f: "files t' ! m = (if m = k then f else files t ! m)" if "m < NFILE" for m
    using that assms(2,3) len by (simp add: nth_list_update)
  have "m \<in> holders b t' i \<longleftrightarrow> m \<in> holders b t i" if "b = 4 \<or> b = 5" for m b i
    using assms(6,7) that f by (cases "m = k") (auto simp: holders_def)
  then have "holders 4 t' i = holders 4 t i" "holders 5 t' i = holders 5 t i" for i by blast+
  then show "ilk_ok (inodes t' i) (card (holders 4 t' i)) (card (holders 5 t' i))" for i
    using lk_okD(3)[OF assms(1)] by (simp add: assms(4))
qed

definition good :: "(nat \<Rightarrow> nat) \<Rightarrow> uarea \<Rightarrow> ftab \<Rightarrow> bool" where
  "good others u t \<longleftrightarrow> uok u \<and> tok t \<and> few others \<and> bal others (u_ofile u) t \<and> lk_ok t"

lemma goodD:
  assumes "good others u t"
  shows "uok u" "tok t" "few others" "bal others (u_ofile u) t" "lk_ok t"
    "length (files t) = NFILE" "length (u_ofile u) = NOFILE" "length (u_pofile u) = NOFILE"
    "i < NOFILE \<Longrightarrow> u_ofile u ! i = Some k \<Longrightarrow> k < NFILE \<and> int i \<le> u_lastfile u"
  using assms nth_mem[of i "u_ofile u"] by (auto simp: good_def uok_def tok_def)

lemma good_u:
  assumes "good others u t" and "u_ofile u' = u_ofile u" and "length (u_pofile u') = NOFILE"
    and "u_lastfile u \<le> u_lastfile u'" and "u_lastfile u' < int NOFILE"
  shows "good others u' t"
  using assms by (fastforce simp: good_def uok_def)

lemma uok_setnone: "uok u \<Longrightarrow> uok (u\<lparr>u_ofile := (u_ofile u)[i := None]\<rparr>)"
proof -
  assume u: "uok u"
  have "set ((u_ofile u)[i := None]) \<subseteq> insert None (set (u_ofile u))" by (rule set_update_subset_insert)
  then show ?thesis using u by (cases "i < NOFILE") (auto simp: uok_def nth_list_update split: if_splits)
qed

lemma uok_set:
  assumes "uok u" and "i < NOFILE" and "k < NFILE" and "int i \<le> l" and "u_lastfile u \<le> l" and "l < int NOFILE"
    and "length p = NOFILE"
  shows "uok (u\<lparr>u_ofile := (u_ofile u)[i := Some k], u_pofile := p, u_lastfile := l\<rparr>)"
proof -
  have "set ((u_ofile u)[i := Some k]) \<subseteq> insert (Some k) (set (u_ofile u))" by (rule set_update_subset_insert)
  then show ?thesis using assms by (fastforce simp: uok_def nth_list_update split: if_splits)
qed

section \<open>Closing and allocating\<close>

lemma closef_ok:
  assumes "tok t" "few others" "lk_ok t" "bal others ofile t" "length ofile = NOFILE"
    and "j < NOFILE" and "ofile ! j = Some k" and "k < NFILE"
  shows "lk_ok (snd (closef ops (Some k) t)) \<and> bal others (ofile[j := None]) (snd (closef ops (Some k) t))
    \<and> tok (snd (closef ops (Some k) t))"
proof -
  let ?f = "files t ! k"
  note len = lk_okD(1)[OF assms(3)]
  have cl: "count_list (ofile[j := None]) (Some m) + of_bool (m = k) = count_list ofile (Some m)" for m
    using count_list_update[of j ofile None "Some m"] assms(5-7) by (auto simp: of_bool_def split: if_splits)
  have cnt: "unat (f_count ?f) = count_list (ofile[j := None]) (Some k) + 1 + others k"
    using assms(4,8) cl[of k] by (simp add: bal_def)
  show ?thesis
  proof (cases "f_count ?f > 1")
    case True
    let ?t = "updf k (\<lambda>f. f\<lparr>f_count := f_count f - 1\<rparr>) t"
    have run: "snd (closef ops (Some k) t) = ?t" using True by (simp add: closef_def)
    have dec: "unat (f_count ?f - 1) = unat (f_count ?f) - 1" using cnt by (intro unat_dec) simp
    have "1 < unat (f_count ?f)" using True by (simp add: word_less_nat_alt)
    then have "f_count ?f - 1 \<noteq> 0" using dec by (auto simp: unat_eq_zero[symmetric])
    then have "lk_ok ?t"
      using lk_okD(2)[OF assms(3,8)] by (intro lk_updf[OF assms(3,8), of _ "?f\<lparr>f_count := f_count ?f - 1\<rparr>"]) (auto simp: flk_ok_def)
    moreover have "bal others (ofile[j := None]) ?t"
      unfolding bal_def
    proof (intro allI impI)
      fix m assume m: "m < NFILE"
      show "unat (f_count (files ?t ! m)) = count_list (ofile[j := None]) (Some m) + others m"
        using m assms(4) cl[of m] cnt dec len by (cases "m = k") (auto simp: bal_def)
    qed
    ultimately show ?thesis using run assms(1) by simp
  next
    case False
    define t1 where "t1 = (if f_flag ?f AND (FSHLOCK OR FEXLOCK) \<noteq> 0 \<and> f_type ?f = DTYPE_INODE
                      then ino_unlock k (FSHLOCK OR FEXLOCK) t else t)"
    have u: "lk_ok t1" "lastf t1 = lastf t"
      "\<And>m. m \<noteq> k \<Longrightarrow> files t1 ! m = files t ! m" "\<not> bit (f_flag (files t1 ! k)) 4" "\<not> bit (f_flag (files t1 ! k)) 5"
      using ino_unlock_ok[OF assms(3,8), of "FSHLOCK OR FEXLOCK"] lk_okD(2)[OF assms(3,8)] assms(3,8) len
      by (auto simp: t1_def unlocked_def flag_bits flk_ok_def bit_and_iff bit_not_iff bit_or_iff)
    let ?t = "updf k (\<lambda>f. f\<lparr>f_count := 0, f_data := (if f_type f = DTYPE_INODE then None else f_data f)\<rparr>) t1"
    have run: "snd (closef ops (Some k) t) = ?t" using False by (simp add: closef_def Let_def t1_def)
    have "lk_ok ?t"
      using u(4,5) by (intro lk_updf[OF u(1) assms(8), of _ "(files t1 ! k)\<lparr>f_count := 0,
        f_data := (if f_type (files t1 ! k) = DTYPE_INODE then None else f_data (files t1 ! k))\<rparr>"]) (auto simp: flk_ok_def)
    moreover have "unat (f_count ?f) \<le> 1" using False by (simp add: word_less_nat_alt)
    then have "count_list (ofile[j := None]) (Some k) + others k = 0" using cnt by simp
    then have "bal others (ofile[j := None]) ?t"
      unfolding bal_def
    proof (intro allI impI)
      fix m assume m: "m < NFILE"
      have "files ?t ! m = (if m = k then (files t1 ! k)\<lparr>f_count := 0,
          f_data := (if f_type (files t1 ! k) = DTYPE_INODE then None else f_data (files t1 ! k))\<rparr> else files t ! m)"
        using m u(3)[of m] lk_okD(1)[OF u(1)] by (cases "m = k") simp_all
      then show "unat (f_count (files ?t ! m)) = count_list (ofile[j := None]) (Some m) + others m"
        using m assms(4) cl[of m] \<open>_ = 0\<close> by (auto simp: bal_def)
    qed
    moreover have "tok ?t" using assms(1) u(2) lk_okD(1)[OF u(1)] by (simp add: tok_def)
    ultimately show ?thesis using run by simp
  qed
qed

lemma all_from: "P i \<Longrightarrow> (\<forall>m. i + 1 \<le> m \<and> m < n \<longrightarrow> P m) \<Longrightarrow> (\<forall>m. i \<le> m \<and> m < n \<longrightarrow> P m)" for i n :: nat
  by (metis Suc_eq_plus1 le_antisym not_less_eq_eq)

lemma ufalloc_cases:
  "ufalloc i u = (r, u') \<Longrightarrow>
     (case r of
        None \<Rightarrow> u' = u\<lparr>u_error := EMFILE\<rparr> \<and> (\<forall>m. i \<le> m \<and> m < NOFILE \<longrightarrow> u_ofile u ! m \<noteq> None)
      | Some j \<Rightarrow> i \<le> j \<and> j < NOFILE \<and> u_ofile u ! j = None \<and> (\<forall>m. i \<le> m \<and> m < j \<longrightarrow> u_ofile u ! m \<noteq> None)
          \<and> u' = u\<lparr>u_rval := int j, u_pofile := (u_pofile u)[j := 0],
                   u_lastfile := (if int j > u_lastfile u then int j else u_lastfile u)\<rparr>)"
proof (induction i u rule: ufalloc.induct)
  case (1 i u)
  show ?case
  proof (cases "i < NOFILE \<and> u_ofile u ! i \<noteq> None")
    case True
    then obtain y where "u_ofile u ! i = Some y" by blast
    then have "ufalloc (i + 1) u = (r, u')" using 1(2) True by (simp add: ufalloc.simps[of i])
    note ih = 1(1)[OF _ _ this]
    show ?thesis
    proof (cases r)
      case None
      then have "u' = u\<lparr>u_error := EMFILE\<rparr>" "\<forall>m. i + 1 \<le> m \<and> m < NOFILE \<longrightarrow> u_ofile u ! m \<noteq> None"
        using ih True by simp_all
      then show ?thesis using all_from[of "\<lambda>m. u_ofile u ! m \<noteq> None", OF conjunct2[OF True]] None by (simp only: option.case) blast
    next
      case (Some j)
      then have j: "i + 1 \<le> j \<and> j < NOFILE \<and> u_ofile u ! j = None
          \<and> (\<forall>m. i + 1 \<le> m \<and> m < j \<longrightarrow> u_ofile u ! m \<noteq> None)
          \<and> u' = u\<lparr>u_rval := int j, u_pofile := (u_pofile u)[j := 0],
                   u_lastfile := (if int j > u_lastfile u then int j else u_lastfile u)\<rparr>"
        using ih True by simp
      then have "\<forall>m. i \<le> m \<and> m < j \<longrightarrow> u_ofile u ! m \<noteq> None"
        using all_from[of "\<lambda>m. u_ofile u ! m \<noteq> None", OF conjunct2[OF True]] by blast
      with j show ?thesis using Some by simp
    qed
  next
    case False
    then show ?thesis using 1(2) by (auto simp: ufalloc.simps[of i] split: if_splits option.splits)
  qed
qed

lemma good_ufalloc:
  assumes "good others u t" and "ufalloc i u = (r, u')"
  shows "good others u' t" and "r = Some j \<Longrightarrow> j < NOFILE \<and> u_ofile u' ! j = None \<and> int j \<le> u_lastfile u' \<and> u_rval u' = int j"
    and "u_ofile u' = u_ofile u"
  using ufalloc_cases[OF assms(2)] goodD(1,8)[OF assms(1)]
  by (auto split: option.splits intro!: good_u[OF assms(1)] simp: uok_def)

text \<open>Making descriptor \<open>fd\<close> refer to \<open>k\<close>, once what it referred to before is closed.\<close>

lemma good_dupit:
  assumes "uok u" "tok t" "few others" "lk_ok t" and "bal others ((u_ofile u)[fd := None]) t"
    and "fd < NOFILE" and "k < NFILE" and "f_count (files t ! k) \<noteq> 0" and "dupit fd k p u t = (u', t')"
  shows "good others u' t'"
proof -
  let ?f = "(files t ! k)\<lparr>f_count := f_count (files t ! k) + 1\<rparr>"
  have len: "length (u_ofile u) = NOFILE" "length (files t) = NFILE" using assms(1,2) by (auto simp: uok_def tok_def)
  have u': "u' = u\<lparr>u_ofile := (u_ofile u)[fd := Some k], u_pofile := (u_pofile u)[fd := p],
      u_lastfile := (if int fd > u_lastfile u then int fd else u_lastfile u)\<rparr>"
    and t': "t' = updf k (\<lambda>f. f\<lparr>f_count := f_count f + 1\<rparr>) t"
    using assms(9) by (auto simp: dupit_def)
  have "unat (f_count (files t ! k)) < 200000"
    using bal_bound[OF assms(5,3) _ assms(7)] len by simp
  then have "unat (f_count (files t ! k) + 1) = unat (f_count (files t ! k)) + 1" by (rule unat_inc)
  then have nz: "f_count (files t ! k) + 1 \<noteq> 0" by (auto simp: unat_eq_zero[symmetric])
  have "uok u'" unfolding u' using assms(1,6,7) by (intro uok_set) (auto simp: uok_def)
  moreover have "bal others (u_ofile u') t'"
    unfolding u' t' using bal_inc[OF assms(5,3) len(1) assms(6,7) len(2)] by simp
  moreover have "lk_ok t'"
    unfolding t' using lk_okD(2)[OF assms(4,7)] nz
    by (intro lk_updf[OF assms(4,7), of _ ?f]) (auto simp: flk_ok_def)
  ultimately show ?thesis using assms(2,3) by (simp add: good_def t')
qed

lemma good_count: "good others u t \<Longrightarrow> i < NOFILE \<Longrightarrow> u_ofile u ! i = Some k \<Longrightarrow> f_count (files t ! k) \<noteq> 0"
proof -
  assume g: "good others u t" and i: "i < NOFILE" "u_ofile u ! i = Some k"
  have "Some k \<in> set (u_ofile u)" using i goodD(7)[OF g] by (metis nth_mem)
  then have "0 < count_list (u_ofile u) (Some k)" by (metis count_list_0_iff neq0_conv)
  then have "unat (f_count (files t ! k)) \<noteq> 0" using goodD(4,9)[OF g] i by (auto simp: bal_def)
  then show ?thesis by auto
qed

lemma bal_none: "ofile ! fd = None \<Longrightarrow> bal others ofile t \<Longrightarrow> bal others (ofile[fd := None]) t"
  by (metis list_update_id)

lemma good_dup_free:
  assumes "good others u t" and "fd < NOFILE" and "u_ofile u ! fd = None"
    and "i < NOFILE" and "u_ofile u ! i = Some k" and "dupit fd k p u t = (u', t')"
  shows "good others u' t'"
  using assms goodD[OF assms(1)] good_count[OF assms(1,4,5)] by (intro good_dupit[OF _ _ _ _ bal_none]) auto

lemma bad_fdD: "\<not> bad_fd i u \<Longrightarrow> nat i < NOFILE \<and> (\<exists>k. u_ofile u ! nat i = Some k)"
  by (auto simp: bad_fd_def)

lemma good_error: "good others u t \<Longrightarrow> good others (u\<lparr>u_error := e\<rparr>) t"
  "good others u t \<Longrightarrow> good others (u\<lparr>u_rval := v\<rparr>) t" "good others u t \<Longrightarrow> good others (u\<lparr>u_dupfd := v\<rparr>) t"
  by (auto simp: good_def uok_def)

text \<open>Closing what descriptor \<open>j\<close> refers to, and clearing the descriptor.\<close>

lemma good_clear:
  assumes "good others u t" and "j < NOFILE"
  shows "good others (u\<lparr>u_ofile := (u_ofile u)[j := None]\<rparr>) (snd (closef ops (u_ofile u ! j) t))"
proof (cases "u_ofile u ! j")
  case None
  then have "(u_ofile u)[j := None] = u_ofile u" by (metis list_update_id)
  then show ?thesis using assms(1) None by (simp add: closef_def)
next
  case (Some k)
  note g = goodD[OF assms(1)]
  have "k < NFILE" using g(9)[OF assms(2) Some] by simp
  from closef_ok[OF g(2,3,5,4,7) assms(2) Some this] show ?thesis
    using g(3) uok_setnone[OF g(1)] Some by (simp add: good_def)
qed

lemma good_dup2: "good others u t \<Longrightarrow> dup2 ops i j u t = (u', t') \<Longrightarrow> good others u' t'"
proof -
  assume g: "good others u t" and d: "dup2 ops i j u t = (u', t')"
  show "good others u' t'"
  proof (cases "bad_fd i u \<or> j < 0 \<or> j \<ge> int NOFILE \<or> i = j")
    case True
    then show ?thesis using g d by (auto simp: dup2_def Let_def good_error split: if_splits)
  next
    case False
    then obtain k where k: "nat i < NOFILE" "u_ofile u ! nat i = Some k" using bad_fdD by blast
    have j: "nat j < NOFILE" "nat i \<noteq> nat j" using False by (auto simp: bad_fd_def)
    define t1 where "t1 = snd (closef ops (u_ofile u ! nat j) t)"
    define v where "v = u\<lparr>u_ofile := (u_ofile u)[nat j := None]\<rparr>"
    have g1: "good others v t1" using good_clear[OF g j(1)] by (simp add: v_def t1_def)
    have vi: "u_ofile v ! nat i = Some k" using k j by (simp add: v_def)
    have d': "dupit (nat j) k (u_pofile u ! nat i AND NOT UF_EXCLOSE) (u\<lparr>u_rval := j\<rparr>) t1 = (u', t')"
      using d False k by (cases "u_ofile u ! nat j") (simp_all add: dup2_def Let_def t1_def closef_def)
    show ?thesis
      using g1 goodD[OF g1] goodD(1)[OF good_error(2)[OF g]] good_count[OF g1 k(1) vi] goodD(9)[OF g k]
      by (intro good_dupit[OF _ _ _ _ _ j(1) _ _ d']) (auto simp: v_def)
  qed
qed

lemma good_dup: "good others u t \<Longrightarrow> dup ops i j u t = (u', t') \<Longrightarrow> good others u' t'"
proof -
  assume g: "good others u t" and d: "dup ops i j u t = (u', t')"
  consider "i AND NOT 63 \<noteq> 0" | "i AND NOT 63 = 0" "bad_fd i u" | "i AND NOT 63 = 0" "\<not> bad_fd i u" by blast
  then show "good others u' t'"
  proof cases
    case 1
    then have "dup2 ops (i AND 63) j u t = (u', t')" using d unfolding dup_def by simp
    then show ?thesis by (rule good_dup2[OF g])
  next
    case 2
    then show ?thesis using g d unfolding dup_def by (auto simp: good_error)
  next
    case 3
    then obtain k where k: "nat i < NOFILE" "u_ofile u ! nat i = Some k" using bad_fdD by blast
    obtain r v where a: "ufalloc 0 u = (r, v)" by fastforce
    note f = good_ufalloc[OF g a]
    show ?thesis
    proof (cases r)
      case None
      then show ?thesis using 3 d a f(1) unfolding dup_def by simp
    next
      case (Some n)
      then have "dupit n k (u_pofile v ! nat i AND NOT UF_EXCLOSE) v t = (u', t')"
        using 3 d a k f(3) unfolding dup_def by simp
      then show ?thesis using f(2)[OF Some] k f(3) by (intro good_dup_free[OF f(1)]) auto
    qed
  qed
qed

end
