(* ===== verification/Fdesc_Calls.thy ===== *)
theory Fdesc_Calls
  imports Fdesc_Refs
begin

text \<open>
  Every descriptor call returns, and keeps reference counts exact and locks exclusive: \<open>fine others u t\<close>
  is kept by each of them, for the process with u area \<open>u\<close>, whatever references \<open>others\<close> hold.
\<close>

section \<open>Open inode files have an inode\<close>

definition dok :: "ftab \<Rightarrow> bool" where
  "dok t \<longleftrightarrow> (\<forall>k<NFILE. f_count (files t ! k) \<noteq> 0 \<longrightarrow> f_type (files t ! k) = DTYPE_INODE \<longrightarrow> f_data (files t ! k) \<noteq> None)"

lemma dok_upd:
  assumes "dok t" and "length (files t) = NFILE" and "files t' = (files t)[k := f]"
    and "f_count f \<noteq> 0 \<Longrightarrow> f_type f = DTYPE_INODE \<Longrightarrow> f_data f \<noteq> None"
  shows "dok t'"
proof (cases "k < NFILE")
  case True
  then have "files t' ! m = (if m = k then f else files t ! m)" if "m < NFILE" for m
    using that assms(2,3) by (simp add: nth_list_update)
  then show ?thesis using assms(1,4) by (auto simp: dok_def)
next
  case False
  then show ?thesis using assms by (simp add: dok_def)
qed

lemma dokD: "dok t \<Longrightarrow> k < NFILE \<Longrightarrow> f_count (files t ! k) \<noteq> 0 \<Longrightarrow> f_type (files t ! k) = DTYPE_INODE \<Longrightarrow> f_data (files t ! k) \<noteq> None"
  by (simp add: dok_def)

lemma dok_dupit:
  assumes "dok t" and "length (files t) = NFILE" and "k < NFILE" and "f_count (files t ! k) \<noteq> 0" and "dupit fd k p u t = (u', t')"
  shows "dok t'"
  using assms dokD[OF assms(1,3,4)]
  by (intro dok_upd[OF assms(1,2), of _ k "(files t ! k)\<lparr>f_count := f_count (files t ! k) + 1\<rparr>"]) (auto simp: dupit_def)

lemma dok_unlock:
  assumes "dok t" and "lk_ok t" and "fp < NFILE" and "lock_kind kind"
  shows "dok (ino_unlock fp kind t)"
  using assms ino_unlock_ok[OF assms(2-4)] dokD[OF assms(1,3)] lk_okD(1)[OF assms(2)]
  by (intro dok_upd[OF assms(1), of _ fp "(files t ! fp)\<lparr>f_flag := f_flag (files t ! fp) AND NOT kind\<rparr>"]) (auto simp: unlocked_def)

lemma dok_closef:
  assumes "dok t" and "lk_ok t" and "\<And>k. fp = Some k \<Longrightarrow> k < NFILE"
  shows "dok (snd (closef ops fp t))"
proof (cases fp)
  case None
  then show ?thesis using assms by (simp add: closef_def)
next
  case (Some k)
  then have k: "k < NFILE" using assms(3) by simp
  note len = lk_okD(1)[OF assms(2)]
  define t1 where "t1 = (if f_flag (files t ! k) AND (FSHLOCK OR FEXLOCK) \<noteq> 0 \<and> f_type (files t ! k) = DTYPE_INODE
                    then ino_unlock k (FSHLOCK OR FEXLOCK) t else t)"
  have t1: "dok t1" "length (files t1) = NFILE"
    using assms dok_unlock[OF assms(1,2) k] ino_unlock_ok[OF assms(2) k] len lk_okD(1) by (auto simp: t1_def)
  show ?thesis
  proof (cases "f_count (files t ! k) > 1")
    case True
    then have "f_count (files t ! k) \<noteq> 0" by auto
    then show ?thesis
      using True Some dokD[OF assms(1) k]
      by (intro dok_upd[OF assms(1) len, of _ k "(files t ! k)\<lparr>f_count := f_count (files t ! k) - 1\<rparr>"]) (auto simp: closef_def)
  next
    case False
    then show ?thesis
      using Some by (intro dok_upd[OF t1, of _ k "(files t1 ! k)\<lparr>f_count := 0,
        f_data := (if f_type (files t1 ! k) = DTYPE_INODE then None else f_data (files t1 ! k))\<rparr>"])
        (auto simp: closef_def Let_def t1_def)
  qed
qed

definition fine :: "(nat \<Rightarrow> nat) \<Rightarrow> uarea \<Rightarrow> ftab \<Rightarrow> bool" where
  "fine others u t \<longleftrightarrow> good others u t \<and> dok t"

lemma fineD: "fine others u t \<Longrightarrow> good others u t" "fine others u t \<Longrightarrow> dok t"
  by (simp_all add: fine_def)

lemma fine_error: "fine others u t \<Longrightarrow> fine others (u\<lparr>u_error := e\<rparr>) t"
  "fine others u t \<Longrightarrow> fine others (u\<lparr>u_rval := v\<rparr>) t" "fine others u t \<Longrightarrow> fine others (u\<lparr>u_dupfd := v\<rparr>) t"
  by (simp_all add: fine_def good_error)

lemma fine_dupit:
  assumes "fine others u t" and "fd < NOFILE" and "u_ofile u ! fd = None"
    and "i < NOFILE" and "u_ofile u ! i = Some k" and "dupit fd k p u t = (u', t')"
  shows "fine others u' t'"
  using good_dup_free[OF fineD(1)[OF assms(1)] assms(2-6)] good_count[OF fineD(1)[OF assms(1)] assms(4,5)]
    goodD(6)[OF fineD(1)[OF assms(1)]] goodD(9)[OF fineD(1)[OF assms(1)] assms(4,5)]
    dok_dupit[OF fineD(2)[OF assms(1)] _ _ _ assms(6)] by (simp add: fine_def)

lemma fine_clear:
  assumes "fine others u t" and "j < NOFILE"
  shows "fine others (u\<lparr>u_ofile := (u_ofile u)[j := None]\<rparr>) (snd (closef ops (u_ofile u ! j) t))"
  using good_clear[OF fineD(1)[OF assms(1)] assms(2)] goodD(5,9)[OF fineD(1)[OF assms(1)]] assms(2)
  by (auto simp: fine_def intro!: dok_closef fineD(2)[OF assms(1)])

section \<open>dup and fcntl\<close>

lemma fine_dup2: "fine others u t \<Longrightarrow> dup2 ops i j u t = (u', t') \<Longrightarrow> fine others u' t'"
proof -
  assume f: "fine others u t" and d: "dup2 ops i j u t = (u', t')"
  have "dok t'"
  proof (cases "bad_fd i u \<or> j < 0 \<or> j \<ge> int NOFILE \<or> i = j")
    case True
    then show ?thesis using f d by (auto simp: dup2_def Let_def fine_def split: if_splits)
  next
    case False
    then obtain k where k: "nat i < NOFILE" "u_ofile u ! nat i = Some k" using bad_fdD by blast
    have j: "nat j < NOFILE" "nat i \<noteq> nat j" using False by (auto simp: bad_fd_def)
    define t1 where "t1 = snd (closef ops (u_ofile u ! nat j) t)"
    define v where "v = u\<lparr>u_ofile := (u_ofile u)[nat j := None]\<rparr>"
    have f1: "fine others v t1" using fine_clear[OF f j(1)] by (simp add: v_def t1_def)
    have vi: "u_ofile v ! nat i = Some k" using k j by (simp add: v_def)
    have d': "dupit (nat j) k (u_pofile u ! nat i AND NOT UF_EXCLOSE) (u\<lparr>u_rval := j\<rparr>) t1 = (u', t')"
      using d False k by (cases "u_ofile u ! nat j") (simp_all add: dup2_def Let_def t1_def closef_def)
    show ?thesis
      using fineD[OF f1] goodD(6,9)[OF fineD(1)[OF f1]] good_count[OF fineD(1)[OF f1] k(1) vi] k(1) vi
      by (intro dok_dupit[OF _ _ _ _ d']) auto
  qed
  then show "fine others u' t'" using good_dup2[OF fineD(1)[OF f] d] by (simp add: fine_def)
qed

lemma fine_ufalloc: "fine others u t \<Longrightarrow> ufalloc i u = (r, u') \<Longrightarrow> fine others u' t"
  using good_ufalloc(1) by (auto simp: fine_def)

lemma fine_dup: "fine others u t \<Longrightarrow> dup ops i j u t = (u', t') \<Longrightarrow> fine others u' t'"
proof -
  assume f: "fine others u t" and d: "dup ops i j u t = (u', t')"
  consider "i AND NOT 63 \<noteq> 0" | "i AND NOT 63 = 0" "bad_fd i u" | "i AND NOT 63 = 0" "\<not> bad_fd i u" by blast
  then show "fine others u' t'"
  proof cases
    case 1
    then have "dup2 ops (i AND 63) j u t = (u', t')" using d unfolding dup_def by simp
    then show ?thesis by (rule fine_dup2[OF f])
  next
    case 2
    then show ?thesis using f d unfolding dup_def by (auto simp: fine_error)
  next
    case 3
    then obtain k where k: "nat i < NOFILE" "u_ofile u ! nat i = Some k" using bad_fdD by blast
    obtain r v where a: "ufalloc 0 u = (r, v)" by fastforce
    note g = good_ufalloc[OF fineD(1)[OF f] a]
    show ?thesis
    proof (cases r)
      case None
      then show ?thesis using 3 d a fine_ufalloc[OF f a] unfolding dup_def by simp
    next
      case (Some n)
      then have "dupit n k (u_pofile v ! nat i AND NOT UF_EXCLOSE) v t = (u', t')"
        using 3 d a k g(3) unfolding dup_def by simp
      then show ?thesis using g(2)[OF Some] k g(3) by (intro fine_dupit[OF fine_ufalloc[OF f a]]) auto
    qed
  qed
qed

text \<open>Changing other flags of a file, or anything of a file that is not locked.\<close>

lemma fine_updf:
  assumes "fine others u t" and "k < NFILE" and "f_count (g (files t ! k)) = f_count (files t ! k)"
    and "\<And>b. b = 4 \<or> b = 5 \<Longrightarrow> bit (f_flag (g (files t ! k))) b \<longleftrightarrow> bit (f_flag (files t ! k)) b"
    and "f_type (g (files t ! k)) = f_type (files t ! k)" and "f_data (g (files t ! k)) = f_data (files t ! k)"
  shows "fine others u (updf k g t)"
proof -
  note g = goodD[OF fineD(1)[OF assms(1)]]
  have "flk_ok (g (files t ! k))" using lk_okD(2)[OF g(5) assms(2)] assms(3-6) by (auto simp: flk_ok_def)
  then have "lk_ok (updf k g t)"
    using assms by (intro lk_updf[OF g(5) assms(2), of _ "g (files t ! k)"]) simp_all
  moreover have "bal others (u_ofile u) (updf k g t)"
    using g(4,6) assms(2,3) by (auto simp: bal_def nth_list_update)
  moreover have "dok (updf k g t)"
    using dokD[OF fineD(2)[OF assms(1)] assms(2)] assms(3,5,6)
    by (intro dok_upd[OF fineD(2)[OF assms(1)] g(6), of _ k "g (files t ! k)"]) simp_all
  ultimately show ?thesis using g(1-3) by (simp add: fine_def good_def)
qed

lemma fset_ok:
  assumes "fine others u t" and "fp < NFILE" and "b = FNONBLOCK \<or> b = FASYNC" and "fset ops fp b v t = (e, t')"
  shows "fine others u t' \<and> (\<forall>n. n = 4 \<or> n = 5 \<longrightarrow> bit (f_flag (files t' ! fp)) n = bit (f_flag (files t ! fp)) n)"
proof -
  have len: "length (files t) = NFILE" using goodD(6)[OF fineD(1)[OF assms(1)]] .
  have "t' = t \<or> t' = updf fp (\<lambda>f. f\<lparr>f_flag := (if v \<noteq> 0 then f_flag f OR b else f_flag f AND NOT b)\<rparr>) t"
    using assms(4) by (auto simp: fset_def Let_def split: prod.splits if_splits)
  then show ?thesis
    using assms(1-3) len
    by (cases "v = 0") (auto intro!: fine_updf[OF assms(1,2)] simp: bit_or_iff bit_and_iff bit_not_iff)
qed

lemma fcntl_setfl_ok:
  assumes "fine others u t" and "fp < NFILE" and "fcntl_setfl ops fp arg t = (e, t')"
  shows "fine others u t'"
proof -
  define old where "old = f_flag (files t ! fp)"
  define new where "new = (old AND NOT FCNTLFLAGS) OR (FFLAGS arg AND FCNTLFLAGS)"
  obtain e1 t1 where s1: "fset ops fp FNONBLOCK (new AND FNONBLOCK) t = (e1, t1)" by fastforce
  obtain e2 t2 where s2: "fset ops fp FASYNC (new AND FASYNC) t1 = (e2, t2)" by fastforce
  obtain e3 t3 where s3: "fset ops fp FNONBLOCK (old AND FNONBLOCK) t2 = (e3, t3)" by fastforce
  have f1: "fine others u t1" and b1: "\<And>n. n = 4 \<or> n = 5 \<Longrightarrow> bit (f_flag (files t1 ! fp)) n = bit old n"
    using fset_ok[OF assms(1,2) _ s1] by (auto simp: old_def)
  have f2: "fine others u t2" and b2: "\<And>n. n = 4 \<or> n = 5 \<Longrightarrow> bit (f_flag (files t2 ! fp)) n = bit old n"
    using fset_ok[OF f1 assms(2) _ s2] b1 by auto
  have f3: "fine others u t3" using fset_ok[OF f2 assms(2) _ s3] by simp
  have "bit new n = bit old n" if "n = 4 \<or> n = 5" for n
    using that by (auto simp: new_def FCNTLFLAGS_def bit_or_iff bit_and_iff bit_not_iff)
  then have "fine others u (updf fp (\<lambda>f. f\<lparr>f_flag := new\<rparr>) t2)"
    using b2 by (intro fine_updf[OF f2 assms(2)]) auto
  moreover have "t' = t1 \<or> t' = t3 \<or> t' = updf fp (\<lambda>f. f\<lparr>f_flag := new\<rparr>) t2"
    using assms(3) s1 s2 s3 by (auto simp: fcntl_setfl_def Let_def old_def new_def split: if_splits)
  ultimately show ?thesis using f1 f3 by blast
qed

lemma getf_cases: "getf i u = (r, u') \<Longrightarrow> (case r of None \<Rightarrow> bad_fd i u \<and> u' = u\<lparr>u_error := EBADF\<rparr>
    | Some k \<Rightarrow> nat i < NOFILE \<and> u_ofile u ! nat i = Some k \<and> u' = u)"
  by (auto simp: getf_def bad_fd_def split: if_splits option.splits)

lemma fine_pofile: "fine others u t \<Longrightarrow> fine others (u\<lparr>u_pofile := (u_pofile u)[i := p]\<rparr>) t"
  by (auto simp: fine_def good_def uok_def)

lemma fine_fd: "fine others u t \<Longrightarrow> i < NOFILE \<Longrightarrow> u_ofile u ! i = Some k \<Longrightarrow> k < NFILE \<and> f_count (files t ! k) \<noteq> 0"
  using goodD(9) good_count fineD(1) by blast

lemma fine_dupfd:
  assumes "fine others u t" and "i < NOFILE" and "u_ofile u ! i = Some k" and "ufalloc a u = (Some n, v)"
    and "dupit n k p v t = (u', t')"
  shows "fine others u' t'"
proof -
  note g = good_ufalloc[OF fineD(1)[OF assms(1)] assms(4)]
  show ?thesis
    using g(2)[OF refl] g(3) assms(2,3) by (intro fine_dupit[OF fine_ufalloc[OF assms(1,4)] _ _ assms(2) _ assms(5)]) auto
qed

lemma fine_fcntl: "fine others u t \<Longrightarrow> fcntl ops s fd cmd arg u t = (u', t') \<Longrightarrow> fine others u' t'"
proof -
  assume f: "fine others u t" and d: "fcntl ops s fd cmd arg u t = (u', t')"
  obtain r v where a: "getf fd u = (r, v)" by fastforce
  note c = getf_cases[OF a]
  show "fine others u' t'"
  proof (cases r)
    case None
    then show ?thesis using c d a f by (simp add: fcntl_def) (metis fine_error(1))
  next
    case (Some k)
    then have k: "nat fd < NOFILE" "u_ofile u ! nat fd = Some k" and v: "v = u" using c by auto
    have kn: "k < NFILE" using fine_fd[OF f k] by simp
    note run = d[unfolded fcntl_def a Some v prod.case option.case Let_def]
    consider "cmd = 0" "arg < 0 \<or> arg \<ge> int NOFILE" | "cmd = 0" "\<not> (arg < 0 \<or> arg \<ge> int NOFILE)" | "cmd = 4"
      | "cmd = 2" | "cmd \<noteq> 0" "cmd \<noteq> 2" "cmd \<noteq> 4" by blast
    then show ?thesis
    proof cases
      case 1
      then show ?thesis using run f by (auto simp: fine_error)
    next
      case 2
      obtain r' w where b: "ufalloc (nat arg) u = (r', w)" by fastforce
      show ?thesis
      proof (cases r')
        case None
        then show ?thesis using 2 run b fine_ufalloc[OF f b] by simp
      next
        case (Some n)
        then show ?thesis using 2 run b by (intro fine_dupfd[OF f k, of "nat arg" n w]) simp_all
      qed
    next
      case 3
      then show ?thesis
        using run fcntl_setfl_ok[OF f kn] by (auto simp: fine_error split: prod.splits)
    next
      case 4
      then show ?thesis using run fine_pofile[OF f] by auto
    next
      case 5
      then show ?thesis using run f by (auto simp: fine_error split: prod.splits if_splits)
    qed
  qed
qed

lemma fine_ioctl: "fine others u t \<Longrightarrow> fine others (ioctl_clex fd on u t) t"
  by (auto simp: ioctl_clex_def Let_def fine_error fine_pofile dest!: getf_cases split: prod.splits option.splits)

section \<open>close\<close>

lemma lower_lastfile_bounds:
  "-1 \<le> n \<Longrightarrow> -1 \<le> lower_lastfile ofile n \<and> lower_lastfile ofile n \<le> n
     \<and> (\<forall>i. int i \<le> n \<longrightarrow> ofile ! i \<noteq> None \<longrightarrow> int i \<le> lower_lastfile ofile n)"
proof (induction ofile n rule: lower_lastfile.induct)
  case (1 ofile n)
  show ?case
  proof (cases "n \<ge> 0 \<and> ofile ! nat n = None")
    case True
    have l: "lower_lastfile ofile n = lower_lastfile ofile (n - 1)" using True by (simp add: lower_lastfile.simps[of _ n])
    have "int i \<le> n - 1" if "int i \<le> n" "ofile ! i \<noteq> None" for i using that True by (cases "int i = n") auto
    then show ?thesis using 1(1)[OF True] True unfolding l by fastforce
  next
    case False
    then have "lower_lastfile ofile n = n" by (subst lower_lastfile.simps) auto
    then show ?thesis using 1(2) by simp
  qed
qed

lemma lower_last_open: "lower_lastfile ofile n = m \<Longrightarrow> 0 \<le> m \<Longrightarrow> ofile ! nat m \<noteq> None"
proof (induction ofile n rule: lower_lastfile.induct)
  case (1 ofile n)
  then show ?case by (cases "n \<ge> 0 \<and> ofile ! nat n = None") (simp_all add: lower_lastfile.simps[of _ n])
qed

lemma fine_lower: "fine others u t \<Longrightarrow> fine others (u\<lparr>u_lastfile := lower_lastfile (u_ofile u) (u_lastfile u)\<rparr>) t"
proof -
  assume f: "fine others u t"
  then have u: "uok u" by (simp add: fine_def good_def)
  then have "uok (u\<lparr>u_lastfile := lower_lastfile (u_ofile u) (u_lastfile u)\<rparr>)"
    using lower_lastfile_bounds[of "u_lastfile u" "u_ofile u"] by (auto simp: uok_def)
  then show ?thesis using f by (simp add: fine_def good_def)
qed

lemma fine_close: "fine others u t \<Longrightarrow> close ops i u t = (u', t') \<Longrightarrow> fine others u' t'"
proof -
  assume f: "fine others u t" and c: "close ops i u t = (u', t')"
  show "fine others u' t'"
  proof (cases "bad_fd i u")
    case True
    then show ?thesis using f c by (auto simp: close_def fine_error)
  next
    case False
    define v where "v = u\<lparr>u_ofile := (u_ofile u)[nat i := None]\<rparr>"
    have "fine others v (snd (closef ops (u_ofile u ! nat i) t))"
      using fine_clear[OF f] bad_fdD[OF False] by (simp add: v_def)
    from fine_error(1)[OF fine_lower[OF this]] show ?thesis
      using c False by (auto simp: close_def Let_def v_def split: prod.splits)
  qed
qed

section \<open>Taking locks\<close>

definition only_flag :: "nat \<Rightarrow> ftab \<Rightarrow> ftab \<Rightarrow> bool" where
  "only_flag fp t t' \<longleftrightarrow> lastf t' = lastf t \<and> (\<exists>w. files t' = (files t)[fp := (files t ! fp)\<lparr>f_flag := w\<rparr>])"

lemma only_flag_trans:
  assumes "only_flag fp t t1" and "only_flag fp t1 t2" and "fp < length (files t)"
  shows "only_flag fp t t2"
  using assms by (auto simp: only_flag_def)

lemma only_flag_refl [simp]: "only_flag fp t t"
proof -
  have "files t = (files t)[fp := (files t ! fp)\<lparr>f_flag := f_flag (files t ! fp)\<rparr>]" by simp
  then show ?thesis unfolding only_flag_def by blast
qed

lemma fine_only_flag:
  assumes "fine others u t" and "lk_ok t'" and "only_flag fp t t'" and "fp < NFILE"
  shows "fine others u t'"
proof -
  note g = goodD[OF fineD(1)[OF assms(1)]]
  obtain w where w: "files t' = (files t)[fp := (files t ! fp)\<lparr>f_flag := w\<rparr>]" "lastf t' = lastf t"
    using assms(3) by (auto simp: only_flag_def)
  have "bal others (u_ofile u) t'" using g(4,6) assms(4) w(1) by (auto simp: bal_def nth_list_update)
  moreover have "dok t'"
    using dokD[OF fineD(2)[OF assms(1)] assms(4)] by (intro dok_upd[OF fineD(2)[OF assms(1)] g(6) w(1)]) simp
  moreover have "tok t'" using g(2) w by (simp add: tok_def)
  ultimately show ?thesis using g assms(2) by (simp add: fine_def good_def)
qed

lemma holders_set:
  assumes "length (files t) = NFILE" and "fp < NFILE" and "f_data (files t ! fp) = Some ip" and "\<not> bit (f_flag (files t ! fp)) b"
    and "files t' = (files t)[fp := (files t ! fp)\<lparr>f_flag := w\<rparr>]"
    and "\<And>n. bit w n \<longleftrightarrow> bit (f_flag (files t ! fp)) n \<or> n = b"
  shows "card (holders b t' i) = card (holders b t i) + of_bool (i = ip)"
    and "b' \<noteq> b \<Longrightarrow> holders b' t' i = holders b' t i"
proof -
  have f: "files t' ! k = (if k = fp then (files t ! fp)\<lparr>f_flag := w\<rparr> else files t ! k)" if "k < NFILE" for k
    using that assms(1,2,5) by (simp add: nth_list_update)
  have "holders b t' i = (if i = ip then insert fp (holders b t i) else holders b t i)"
    using assms(2,3) by (auto simp: holders_def f assms(6) split: if_splits)
  moreover have "fp \<notin> holders b t i" using assms(4) by (simp add: holders_def)
  ultimately show "card (holders b t' i) = card (holders b t i) + of_bool (i = ip)" by (cases "i = ip") simp_all
  show "b' \<noteq> b \<Longrightarrow> holders b' t' i = holders b' t i"
    using assms(2,3) by (auto simp: holders_def f assms(6) split: if_splits)
qed

lemma ilk_inc:
  "ilk_ok l ns 0 \<Longrightarrow> ns \<le> NFILE \<Longrightarrow> ilk_ok (l\<lparr>i_shlockc := u16 (i_shlockc l + 1), i_flag := i_flag l \<union> {ISHLOCK}\<rparr>) (ns + 1) 0"
  "ilk_ok l 0 0 \<Longrightarrow> ilk_ok (l\<lparr>i_exlockc := u16 (i_exlockc l + 1), i_flag := i_flag l \<union> {IEXLOCK}\<rparr>) 0 1"
  "ilk_ok l ns ne \<Longrightarrow> ilk_ok (l\<lparr>i_flag := i_flag l \<union> {ILWAIT}\<rparr>) ns ne"
  by (auto simp: ilk_ok_def u16_def)

lemma grant_ok:
  assumes "lk_ok t" and "fp < NFILE" and "f_data (files t ! fp) = Some ip" and "f_type (files t ! fp) = DTYPE_INODE"
    and "f_count (files t ! fp) \<noteq> 0" and "IEXLOCK \<notin> i_flag (inodes t ip)"
    and "cmd AND LOCK_EX \<noteq> 0 \<Longrightarrow> ISHLOCK \<notin> i_flag (inodes t ip)"
  shows "lk_ok (ino_lock_grant fp cmd ip t) \<and> only_flag fp t (ino_lock_grant fp cmd ip t)"
proof -
  let ?t' = "ino_lock_grant fp cmd ip t" and ?w = "f_flag (files t ! fp)"
  note len = lk_okD(1)[OF assms(1)] and il = lk_okD(3)[OF assms(1)]
  have ne: "card (holders 5 t ip) = 0" using il[of ip] assms(6) by (simp add: ilk_ok_def)
  consider (ex) "cmd AND LOCK_EX \<noteq> 0" | (sh) "cmd AND LOCK_EX = 0" "cmd AND LOCK_SH \<noteq> 0" "\<not> bit ?w 4" 
    | (no) "cmd AND LOCK_EX = 0" "\<not> (cmd AND LOCK_SH \<noteq> 0 \<and> \<not> bit ?w 4)" by blast
  then show ?thesis
  proof cases
    case ex
    have ns: "card (holders 4 t ip) = 0" using il[of ip] assms(7)[OF ex] by (simp add: ilk_ok_def)
    have t': "files ?t' = (files t)[fp := (files t ! fp)\<lparr>f_flag := ?w OR FEXLOCK\<rparr>]" "lastf ?t' = lastf t"
      "inodes ?t' = (inodes t)(ip := (inodes t ip)\<lparr>i_exlockc := u16 (i_exlockc (inodes t ip) + 1), i_flag := i_flag (inodes t ip) \<union> {IEXLOCK}\<rparr>)"
      using ex by (simp_all add: ino_lock_grant_def)
    have "fp \<notin> holders 5 t ip" using ne by auto
    then have nb: "\<not> bit ?w 5" using assms(2,3) by (simp add: holders_def)
    note h = holders_set[OF len assms(2,3) nb t'(1) bit_clear(4)]
    have "ilk_ok (inodes ?t' i) (card (holders 4 ?t' i)) (card (holders 5 ?t' i))" for i
      using il[of i] ilk_inc(2)[of "inodes t ip"] ne ns il[of ip] by (cases "i = ip") (simp_all add: h t'(3))
    then have "lk_ok ?t'"
      using assms(3-5) len by (intro lk_okI[OF _ t'(1) assms(1)]) (auto simp: t'(1) flk_ok_def)
    then show ?thesis using t' by (auto simp: only_flag_def)
  next
    case sh
    have t': "files ?t' = (files t)[fp := (files t ! fp)\<lparr>f_flag := ?w OR FSHLOCK\<rparr>]" "lastf ?t' = lastf t"
      "inodes ?t' = (inodes t)(ip := (inodes t ip)\<lparr>i_shlockc := u16 (i_shlockc (inodes t ip) + 1), i_flag := i_flag (inodes t ip) \<union> {ISHLOCK}\<rparr>)"
      using sh by (simp_all add: ino_lock_grant_def flag_bits)
    note h = holders_set[OF len assms(2,3) sh(3) t'(1) bit_clear(3)]
    have "ilk_ok (inodes ?t' i) (card (holders 4 ?t' i)) (card (holders 5 ?t' i))" for i
      using il[of i] ilk_inc(1)[of "inodes t ip" "card (holders 4 t ip)"] ne il[of ip] holders_le
      by (cases "i = ip") (simp_all add: h t'(3))
    then have "lk_ok ?t'"
      using assms(3-5) len by (intro lk_okI[OF _ t'(1) assms(1)]) (auto simp: t'(1) flk_ok_def)
    then show ?thesis using t' by (auto simp: only_flag_def)
  next
    case no
    then have "?t' = t" unfolding ino_lock_grant_def flag_bits by auto
    then show ?thesis using assms(1) by simp
  qed
qed

lemma wait_ok:
  assumes "lk_ok t" and "ino_lock_wait cmd ip t = (r, t')"
  shows "lk_ok t' \<and> only_flag fp t t'"
proof -
  have "t' = t \<or> t' = updi ip (\<lambda>l. l\<lparr>i_flag := i_flag l \<union> {ILWAIT}\<rparr>) t"
    using assms(2) by (auto simp: ino_lock_wait_def split: if_splits)
  moreover have "lk_ok (updi ip (\<lambda>l. l\<lparr>i_flag := i_flag l \<union> {ILWAIT}\<rparr>) t)"
    using assms(1) ilk_inc(3) by (auto simp: lk_ok_def holders_def)
  moreover have "only_flag fp t (updi ip g t)" for g
    using only_flag_refl[of fp t] unfolding only_flag_def updi_fields .
  ultimately show ?thesis using assms(1) by auto
qed

abbreviation lockbits :: "nat \<Rightarrow> ftab \<Rightarrow> nat" where
  "lockbits fp t \<equiv> of_bool (bit (f_flag (files t ! fp)) 4) + of_bool (bit (f_flag (files t ! fp)) 5)"

lemma unlock_bits:
  assumes "lk_ok t" and "fp < NFILE" and "kind = FSHLOCK \<and> bit (f_flag (files t ! fp)) 4 \<or> kind = FEXLOCK \<and> bit (f_flag (files t ! fp)) 5"
  shows "lk_ok (ino_unlock fp kind t)" "only_flag fp t (ino_unlock fp kind t)" "lockbits fp (ino_unlock fp kind t) < lockbits fp t"
proof -
  have k: "lock_kind kind" using assms(3) by blast
  note u = ino_unlock_ok[OF assms(1,2) k]
  then show "lk_ok (ino_unlock fp kind t)" "only_flag fp t (ino_unlock fp kind t)" by (auto simp: unlocked_def only_flag_def)
  have "f_flag (files (ino_unlock fp kind t) ! fp) = f_flag (files t ! fp) AND NOT kind"
    using u lk_okD(1)[OF assms(1)] assms(2) by (simp add: unlocked_def)
  then show "lockbits fp (ino_unlock fp kind t) < lockbits fp t" using assms(3) by (auto simp: bit_clear)
qed

lemma ino_lock_loop_ok:
  "lk_ok t \<Longrightarrow> fp < NFILE \<Longrightarrow> f_data (files t ! fp) = Some ip \<Longrightarrow> f_type (files t ! fp) = DTYPE_INODE
     \<Longrightarrow> f_count (files t ! fp) \<noteq> 0 \<Longrightarrow> lockbits fp t < fuel
     \<Longrightarrow> \<exists>r t'. ino_lock_loop fuel fp cmd ip t = Inr (r, t') \<and> lk_ok t' \<and> only_flag fp t t'"
proof (induction fuel arbitrary: t)
  case (Suc fuel)
  note len = lk_okD(1)[OF Suc.prems(1)]
  have again: "\<exists>r t'. ino_lock_loop fuel fp cmd ip (ino_unlock fp kind t) = Inr (r, t') \<and> lk_ok t' \<and> only_flag fp t t'"
    if k: "kind = FSHLOCK \<and> bit (f_flag (files t ! fp)) 4 \<or> kind = FEXLOCK \<and> bit (f_flag (files t ! fp)) 5" for kind
  proof -
    note u = unlock_bits[OF Suc.prems(1,2) k]
    obtain w where w: "files (ino_unlock fp kind t) ! fp = (files t ! fp)\<lparr>f_flag := w\<rparr>"
      using u(2) len Suc.prems(2) by (auto simp: only_flag_def)
    have "\<exists>r t'. ino_lock_loop fuel fp cmd ip (ino_unlock fp kind t) = Inr (r, t') \<and> lk_ok t' \<and> only_flag fp (ino_unlock fp kind t) t'"
      using Suc.prems u(1,3) w by (intro Suc.IH) auto
    then show ?thesis using only_flag_trans[OF u(2)] len Suc.prems(2) by auto
  qed
  obtain r t' where w: "ino_lock_wait cmd ip t = (r, t')" by fastforce
  consider (ex) "IEXLOCK \<in> i_flag (inodes t ip)" "bit (f_flag (files t ! fp)) 5"
    | (sh) "IEXLOCK \<notin> i_flag (inodes t ip)" "cmd AND LOCK_EX \<noteq> 0" "ISHLOCK \<in> i_flag (inodes t ip)" "bit (f_flag (files t ! fp)) 4"
    | (grant) "IEXLOCK \<notin> i_flag (inodes t ip)" "\<not> (cmd AND LOCK_EX \<noteq> 0 \<and> ISHLOCK \<in> i_flag (inodes t ip))"
    | (wait) "IEXLOCK \<in> i_flag (inodes t ip) \<and> \<not> bit (f_flag (files t ! fp)) 5
        \<or> IEXLOCK \<notin> i_flag (inodes t ip) \<and> cmd AND LOCK_EX \<noteq> 0 \<and> ISHLOCK \<in> i_flag (inodes t ip) \<and> \<not> bit (f_flag (files t ! fp)) 4"
    by blast
  then show ?case
  proof cases
    case ex
    then show ?thesis using again[of FEXLOCK] by (simp add: flag_bits)
  next
    case sh
    then show ?thesis using again[of FSHLOCK] by (simp add: flag_bits)
  next
    case grant
    then have "ino_lock_loop (Suc fuel) fp cmd ip t = Inr (Returns 0, ino_lock_grant fp cmd ip t)" by auto
    then show ?thesis using grant_ok[OF Suc.prems(1-5) grant(1), of cmd] grant(2) by blast
  next
    case wait
    then have "ino_lock_loop (Suc fuel) fp cmd ip t = Inr (ino_lock_wait cmd ip t)" by (auto simp: flag_bits)
    then show ?thesis using wait_ok[OF Suc.prems(1) w] w by auto
  qed
qed simp

lemma ino_lock_ok:
  assumes "fine others u t" and "fp < NFILE" and "f_count (files t ! fp) \<noteq> 0" and "f_type (files t ! fp) = DTYPE_INODE"
  shows "\<exists>r t'. ino_lock fp cmd t = Inr (r, t') \<and> fine others u t' \<and> only_flag fp t t'"
proof -
  note lk = goodD(5)[OF fineD(1)[OF assms(1)]]
  obtain ip where ip: "f_data (files t ! fp) = Some ip" using dokD[OF fineD(2)[OF assms(1)] assms(2-4)] by blast
  have "lockbits fp t < 3" by (simp add: of_bool_def)
  then obtain r t' where "ino_lock_loop 3 fp cmd ip t = Inr (r, t')" "lk_ok t'" "only_flag fp t t'"
    using ino_lock_loop_ok[OF lk assms(2) ip assms(4,3), of 3 cmd] by auto
  then show ?thesis using ip fine_only_flag[OF assms(1) _ _ assms(2)] by (auto simp: ino_lock_def)
qed

lemma fine_flock:
  assumes "fine others u t"
  shows "\<exists>r u' t'. flock fd how u t = Inr (r, u', t') \<and> fine others u' t'"
proof -
  obtain r v where a: "getf fd u = (r, v)" by fastforce
  note c = getf_cases[OF a]
  show ?thesis
  proof (cases r)
    case None
    then have "flock fd how u t = Inr (Returns 0, u\<lparr>u_error := EBADF\<rparr>, t)" using a c by (simp add: flock_def)
    then show ?thesis using fine_error(1)[OF assms] by blast
  next
    case (Some k)
    then have k: "nat fd < NOFILE" "u_ofile u ! nat fd = Some k" and a': "getf fd u = (Some k, u)" using c a by auto
    have kn: "k < NFILE" "f_count (files t ! k) \<noteq> 0" using fine_fd[OF assms k] by auto
    define how1 where "how1 = (if how AND LOCK_EX \<noteq> 0 then how AND NOT LOCK_SH else how)"
    note lk = goodD(5)[OF fineD(1)[OF assms]]
    have un: "fine others u (ino_unlock k (FSHLOCK OR FEXLOCK) t)"
      using ino_unlock_ok[OF lk kn(1), of "FSHLOCK OR FEXLOCK"]
      by (intro fine_only_flag[OF assms _ _ kn(1)]) (auto simp: unlocked_def only_flag_def)
    show ?thesis
    proof (cases "f_type (files t ! k) = DTYPE_INODE")
      case False
      then have "flock fd how u t = Inr (Returns 0, u\<lparr>u_error := EOPNOTSUPP\<rparr>, t)" using a' by (simp add: flock_def)
      then show ?thesis using fine_error(1)[OF assms] by blast
    next
      case True
      obtain r t' where l: "ino_lock k how1 t = Inr (r, t')" "fine others u t'"
        using ino_lock_ok[OF assms kn True] by blast
      define v where "v = (case r of Returns e \<Rightarrow> u\<lparr>u_error := e\<rparr> | Sleeps \<Rightarrow> u)"
      have "fine others v t'" using l(2) by (auto simp: v_def fine_error split: lock_result.split)
      moreover have "flock fd how u t = Inr (Returns 0, u, ino_unlock k (FSHLOCK OR FEXLOCK) t)
          \<or> flock fd how u t = Inr (Returns 0, u, t) \<or> flock fd how u t = Inr (r, v, t')"
        using True l(1)
        by (simp only: flock_def a' prod.case option.case how1_def[symmetric] Let_def andthen_def sum.case v_def) auto
      ultimately show ?thesis using un assms by metis
    qed
  qed
qed

section \<open>open and pipe\<close>

lemma falloc_ok:
  assumes "good others u t" and "falloc u t = (r, u', t')"
  shows "r = None \<Longrightarrow> good others u' t' \<and> files t' = files t \<and> u_ofile u' = u_ofile u"
    and "r = Some k \<Longrightarrow> good others u' t' \<and> k < NFILE \<and> f_count (files t ! k) = 0 \<and> inodes t' = inodes t
      \<and> files t' = (files t)[k := (files t ! k)\<lparr>f_count := 1, f_data := None, f_offset := 0\<rparr>]
      \<and> (\<exists>i. i < NOFILE \<and> u_ofile u ! i = None \<and> u_rval u' = int i \<and> u_ofile u' = (u_ofile u)[i := Some k])"
proof -
  obtain a v where ua: "ufalloc 0 u = (a, v)" by fastforce
  note f = good_ufalloc[OF assms(1) ua]
  define l where "l = (case lastf t of None \<Rightarrow> 0 | Some l \<Rightarrow> l)"
  define t1 where "t1 = t\<lparr>lastf := Some l\<rparr>"
  note g = goodD[OF f(1)]
  have "l \<le> NFILE" using g(2) by (auto simp: l_def tok_def split: option.split)
  then have t1: "good others v t1" "files t1 = files t" using f(1) by (auto simp: t1_def good_def bal_def tok_def lk_ok_def holders_def)
  define s where "s = find (\<lambda>k. f_count (files t1 ! k) = 0) ([l..<NFILE] @ [0..<l])"
  have run: "falloc u t = (case a of None \<Rightarrow> (None, v, t) | Some i \<Rightarrow> (case s of None \<Rightarrow> (None, v\<lparr>u_error := ENFILE\<rparr>, t1)
      | Some k \<Rightarrow> (Some k, v\<lparr>u_ofile := (u_ofile v)[i := Some k]\<rparr>,
           (updf k (\<lambda>f. f\<lparr>f_count := 1, f_data := None, f_offset := 0\<rparr>) t1)\<lparr>lastf := Some (k + 1)\<rparr>)))"
    unfolding falloc_def ua prod.case s_def t1_def l_def Let_def by (rule refl)
  show "good others u' t' \<and> files t' = files t \<and> u_ofile u' = u_ofile u" if "r = None"
    using assms(2) that f(1,3) t1 good_error(1)[OF t1(1)] unfolding run by (auto split: option.splits)
  assume "r = Some k"
  then obtain i where i: "a = Some i" "s = Some k" and u': "u' = v\<lparr>u_ofile := (u_ofile v)[i := Some k]\<rparr>"
    and t': "t' = (updf k (\<lambda>f. f\<lparr>f_count := 1, f_data := None, f_offset := 0\<rparr>) t1)\<lparr>lastf := Some (k + 1)\<rparr>"
    using assms(2) unfolding run by (auto split: option.splits)
  have "k \<in> set ([l..<NFILE] @ [0..<l]) \<and> f_count (files t1 ! k) = 0"
    using i(2) unfolding s_def find_Some_iff by (metis nth_mem)
  then have k: "k < NFILE" "f_count (files t ! k) = 0" using \<open>l \<le> NFILE\<close> t1(2) by auto
  note fi = f(2)[OF i(1)]
  let ?t2 = "updf k (\<lambda>f. f\<lparr>f_count := f_count f + 1\<rparr>) t1"
  have len: "length (files t1) = NFILE" "length (u_ofile v) = NOFILE" using goodD(6,7)[OF t1(1)] by auto
  have "bal others ((u_ofile v)[i := None]) t1" using fi goodD(4)[OF t1(1)] by (intro bal_none) auto
  then have "bal others ((u_ofile v)[i := Some k]) ?t2"
    using fi k(1) len goodD(3)[OF t1(1)] by (intro bal_inc) auto
  then have b: "bal others (u_ofile u') t'"
    using k t1(2) len by (auto simp: bal_def u' t' nth_list_update)
  have "\<not> bit (f_flag (files t ! k)) 4" "\<not> bit (f_flag (files t ! k)) 5"
    using lk_okD(2)[OF goodD(5)[OF f(1)] k(1)] k(2) by (auto simp: flk_ok_def)
  then have "lk_ok t'"
    using t1(2) by (intro lk_updf[OF goodD(5)[OF f(1)] k(1), of _ "(files t ! k)\<lparr>f_count := 1, f_data := None, f_offset := 0\<rparr>"])
      (auto simp: t' flk_ok_def t1_def)
  moreover have "uok u'"
    using uok_set[OF goodD(1)[OF f(1)], of i k "u_lastfile v" "u_pofile v"] fi k(1) goodD(1)[OF f(1)]
    by (auto simp: u' uok_def)
  moreover have "tok t'" using k(1) len by (simp add: tok_def t')
  ultimately have "good others u' t'" using b goodD(3)[OF f(1)] by (simp add: good_def)
  then show "good others u' t' \<and> k < NFILE \<and> f_count (files t ! k) = 0 \<and> inodes t' = inodes t
      \<and> files t' = (files t)[k := (files t ! k)\<lparr>f_count := 1, f_data := None, f_offset := 0\<rparr>]
      \<and> (\<exists>i. i < NOFILE \<and> u_ofile u ! i = None \<and> u_rval u' = int i \<and> u_ofile u' = (u_ofile u)[i := Some k])"
    using k t1(2) fi f(3) by (auto simp: u' t' t1_def)
qed

text \<open>Setting up the file just allocated, and giving it up again.\<close>

lemma good_setup:
  assumes "good others u t" and "k < NFILE" and "f_count f = f_count (files t ! k)" and "\<not> bit (f_flag f) 4" "\<not> bit (f_flag f) 5"
    and "\<not> bit (f_flag (files t ! k)) 4" "\<not> bit (f_flag (files t ! k)) 5"
    and "files t' = (files t)[k := f]" and "inodes t' = inodes t" and "lastf t' = lastf t"
  shows "good others u t'"
proof -
  note g = goodD[OF assms(1)]
  have "lk_ok t'" using assms by (intro lk_updf[OF g(5) assms(2,8,9)]) (auto simp: flk_ok_def)
  moreover have "bal others (u_ofile u) t'" using g(4,6) assms(2,3,8) by (auto simp: bal_def nth_list_update)
  ultimately show ?thesis using g assms(8,10) by (simp add: good_def tok_def)
qed

lemma good_giveup:
  assumes "good others u t" and "k < NFILE" and "i < NOFILE" and "u_ofile u ! i = Some k" and "f_count (files t ! k) = 1"
    and "f_count f = 0" and "\<not> bit (f_flag f) 4" "\<not> bit (f_flag f) 5"
    and "\<not> bit (f_flag (files t ! k)) 4" "\<not> bit (f_flag (files t ! k)) 5"
    and "files t' = (files t)[k := f]" and "inodes t' = inodes t" and "lastf t' = lastf t"
  shows "good others (u\<lparr>u_ofile := (u_ofile u)[i := None]\<rparr>) t'"
proof -
  note g = goodD[OF assms(1)]
  have cl: "count_list ((u_ofile u)[i := None]) (Some m) + of_bool (m = k) = count_list (u_ofile u) (Some m)" for m
    using count_list_update[of i "u_ofile u" None "Some m"] assms(3,4) g(7) by (auto simp: of_bool_def split: if_splits)
  have "lk_ok t'" using assms by (intro lk_updf[OF g(5) assms(2) assms(11,12)]) (auto simp: flk_ok_def)
  moreover have "bal others ((u_ofile u)[i := None]) t'"
    unfolding bal_def
  proof (intro allI impI)
    fix m assume m: "m < NFILE"
    have "unat (f_count (files t ! m)) = count_list (u_ofile u) (Some m) + others m" using g(4) m by (simp add: bal_def)
    then show "unat (f_count (files t' ! m)) = count_list ((u_ofile u)[i := None]) (Some m) + others m"
      using cl[of m] assms(2,5,6,11) g(6) m by (cases "m = k") (auto simp: nth_list_update)
  qed
  moreover have "tok t'" using g(2) assms(11,13) by (simp add: tok_def)
  ultimately show ?thesis using g uok_setnone[OF g(1)] by (simp add: good_def)
qed

lemma dupfdopen_cases:
  assumes "dupfdopen indx dfd mode error u t = (e, u', t')" and "0 \<le> dfd" and "length (u_ofile u) = NOFILE" and "indx < NOFILE"
  shows "if e = 0 \<and> error \<noteq> 0
    then \<exists>w. nat dfd < NOFILE \<and> nat dfd \<noteq> indx \<and> u_ofile u ! nat dfd = Some w
      \<and> (u', t') = dupit indx w (u_pofile u ! nat dfd) (u\<lparr>u_ofile := (u_ofile u)[indx := None]\<rparr>) t
    else u' = u \<and> t' = t"
  using assms by (auto simp: dupfdopen_def Let_def dupit_def split: if_splits)

lemma bit_fmask: "\<not> bit (w AND FMASK) 4" "\<not> bit (w AND FMASK) 5"
  by (simp_all add: FMASK_def bit_and_iff bit_or_iff)

lemma falloc_unlocked:
  assumes "good others u t" and "falloc u t = (Some k, u', t')"
  shows "\<not> bit (f_flag (files t' ! k)) 4" "\<not> bit (f_flag (files t' ! k)) 5"
  using falloc_ok(2)[OF assms refl] lk_okD(2)[OF goodD(5)[OF assms(1)], of k] goodD(6)[OF assms(1)]
  by (auto simp: flk_ok_def)

text \<open>The state of \<open>copen\<close> when the name has been looked up, with and without success.\<close>

lemma open_failed:
  assumes "fine others u t" and "falloc u t = (Some k, v, t1)"
    and "t2 = updf k (\<lambda>f. f\<lparr>f_flag := flags AND FMASK, f_type := DTYPE_INODE\<rparr>) t1"
  shows "fine others (v\<lparr>u_ofile := (u_ofile v)[nat (u_rval v) := None]\<rparr>) (updf k (\<lambda>f. f\<lparr>f_count := 0\<rparr>) t2)"
proof -
  note g = fineD(1)[OF assms(1)]
  note f = falloc_ok(2)[OF g assms(2) refl] and ul = falloc_unlocked[OF g assms(2)] and len = goodD(6)[OF g]
  obtain i where i: "i < NOFILE" "u_rval v = int i" "u_ofile v ! i = Some k" using f goodD(7)[OF g] by auto
  let ?f = "(files t1 ! k)\<lparr>f_flag := flags AND FMASK, f_type := DTYPE_INODE, f_count := 0\<rparr>"
  have "good others (v\<lparr>u_ofile := (u_ofile v)[i := None]\<rparr>) (updf k (\<lambda>f. f\<lparr>f_count := 0\<rparr>) t2)"
    using f i ul len bit_fmask
    by (intro good_giveup[of others v t1 k i ?f]) (auto simp: assms(3) list_update_overwrite)
  moreover have "dok (updf k (\<lambda>f. f\<lparr>f_count := 0\<rparr>) t2)"
    using f len by (intro dok_upd[OF fineD(2)[OF assms(1)] len, of _ k ?f]) (auto simp: assms(3))
  ultimately show ?thesis using i(2) by (simp add: fine_def)
qed

lemma open_found:
  assumes "fine others u t" and "falloc u t = (Some k, v, t1)"
    and "t2 = updf k (\<lambda>f. f\<lparr>f_flag := flags AND FMASK, f_type := DTYPE_INODE\<rparr>) t1"
    and "t3 = updf k (\<lambda>f. f\<lparr>f_data := Some ip\<rparr>) t2"
  shows "fine others v t3 \<and> f_count (files t3 ! k) \<noteq> 0 \<and> f_type (files t3 ! k) = DTYPE_INODE \<and> k < NFILE
    \<and> nat (u_rval v) < NOFILE \<and> u_ofile v ! nat (u_rval v) = Some k"
proof -
  note g = fineD(1)[OF assms(1)]
  note f = falloc_ok(2)[OF g assms(2) refl] and ul = falloc_unlocked[OF g assms(2)] and len = goodD(6)[OF g]
  let ?f = "(files t1 ! k)\<lparr>f_flag := flags AND FMASK, f_type := DTYPE_INODE, f_data := Some ip\<rparr>"
  have gv: "good others v t1" "k < NFILE" using f by blast+
  have fl: "files t3 = (files t1)[k := ?f]" "inodes t3 = inodes t1" "lastf t3 = lastf t1"
    using goodD(6)[OF gv(1)] gv(2) by (simp_all add: assms(3,4))
  have "good others v t3" using bit_fmask by (intro good_setup[OF gv _ _ _ ul fl]) simp_all
  moreover have "dok t3"
    using f len by (intro dok_upd[OF fineD(2)[OF assms(1)] len, of _ k ?f]) (auto simp: assms(3,4))
  moreover have "files t3 ! k = ?f" using f len by (auto simp: assms(3,4))
  moreover have "f_count (files t1 ! k) = 1" "k < NFILE" using f len by auto
  moreover have "nat (u_rval v) < NOFILE \<and> u_ofile v ! nat (u_rval v) = Some k" using f goodD(7)[OF g] by auto
  ultimately show ?thesis by (simp add: fine_def)
qed

lemma fine_copen:
  assumes "fine others u t" and "\<And>e d. vn = Inl (e, d) \<Longrightarrow> e \<noteq> 0"
  shows "\<exists>r u' t'. copen ops nserror mode vn u t = Inr (r, u', t') \<and> fine others u' t'"
proof -
  note g = fineD(1)[OF assms(1)]
  obtain a v t1 where fa: "falloc u t = (a, v, t1)" by (metis prod_cases3)
  show ?thesis
  proof (cases "mode AND FSEARCH \<noteq> 0 \<and> (mode AND 3 \<noteq> 0 \<or> mode AND 0xE00 \<noteq> 0) \<or> nserror \<noteq> 0 \<or> a = None")
    case True
    then have "copen ops nserror mode vn u t = Inr (Returns EINVAL, u, t) \<or> copen ops nserror mode vn u t = Inr (Returns nserror, u, t)
        \<or> copen ops nserror mode vn u t = Inr (Returns (u_error v), v, t1) \<and> a = None"
      using fa by (auto simp: copen_def)
    moreover have "fine others v t1" if "a = None"
      using falloc_ok(1)[OF g fa that] fineD(2)[OF assms(1)] by (simp add: fine_def dok_def)
    ultimately show ?thesis using assms(1) by metis
  next
    case False
    then obtain k where a: "a = Some k" by blast
    define flags where "flags = FFLAGS mode"
    define indx where "indx = nat (u_rval v)"
    define t2 where "t2 = updf k (\<lambda>f. f\<lparr>f_flag := flags AND FMASK, f_type := DTYPE_INODE\<rparr>) t1"
    note run = copen_def[of ops nserror mode vn u t, unfolded fa a prod.case option.case Let_def, folded flags_def indx_def, folded t2_def]
    have fa': "falloc u t = (Some k, v, t1)" using fa a by simp
    show ?thesis
    proof (cases vn)
      case (Inl ed)
      then obtain e d where vn: "vn = Inl (e, d)" by (cases ed) auto
      define t3 where "t3 = updf k (\<lambda>f. f\<lparr>f_count := 0\<rparr>) t2"
      define v1 where "v1 = v\<lparr>u_dupfd := - int indx - 1, u_dupfd := d\<rparr>"
      define v2 where "v2 = v1\<lparr>u_ofile := (u_ofile v1)[indx := None]\<rparr>"
      have ok: "fine others v2 t3"
        using open_failed[OF assms(1) fa' t2_def] by (simp add: fine_def good_def uok_def t3_def v1_def v2_def indx_def)
      show ?thesis
      proof (cases "(e = ENODEV \<or> e = ENXIO) \<and> d \<ge> 0")
        case True
        obtain e' u' t' where df: "dupfdopen indx d flags e v1 t3 = (e', u', t')" by (metis prod_cases3)
        have len: "length (u_ofile v1) = NOFILE" "indx < NOFILE"
          using goodD(7)[OF fineD(1)[OF ok]] open_found[OF assms(1) fa' t2_def refl] by (simp_all add: v2_def indx_def)
        note c = dupfdopen_cases[OF df conjunct2[OF True] len]
        have r: "copen ops nserror mode vn u t = (if e' = 0 then Inr (Returns 0, u'\<lparr>u_rval := int indx\<rparr>, t')
            else Inr (Returns 0, u'\<lparr>u_ofile := (u_ofile u')[indx := None]\<rparr>, t'))"
          using False a True df unfolding run unfolding vn sum.case prod.case t3_def[symmetric] v1_def[symmetric] by (simp add: v1_def)
        show ?thesis
        proof (cases "e' = 0")
          case True
          then obtain w where w: "nat d < NOFILE" "nat d \<noteq> indx" "u_ofile v1 ! nat d = Some w"
            and du: "dupit indx w (u_pofile v1 ! nat d) v2 t3 = (u', t')"
            using c assms(2)[OF vn] by (auto simp: v2_def)
          have "u_ofile v2 ! nat d = Some w" "u_ofile v2 ! indx = None" using w len by (simp_all add: v2_def)
          then have "fine others u' t'" using fine_dupit[OF ok len(2) _ w(1) _ du] by blast
          then show ?thesis using r True fine_error(2) by simp
        next
          case False
          then show ?thesis using r c ok by (simp add: v2_def)
        qed
      next
        case d: False
        have "copen ops nserror mode vn u t = Inr (Returns e, v2, t3)"
          using False a d unfolding run unfolding vn sum.case prod.case t3_def[symmetric] v1_def[symmetric] v2_def[symmetric]
          by (auto simp: v1_def)
        then show ?thesis using ok by blast
      qed
    next
      case (Inr ip)
      define t3 where "t3 = updf k (\<lambda>f. f\<lparr>f_data := Some ip\<rparr>) t2"
      define v1 where "v1 = v\<lparr>u_dupfd := - int indx - 1, u_dupfd := 0\<rparr>"
      define ty where "ty = (if flags AND FNONBLOCK \<noteq> 0 then (if flags AND FEXLOCK \<noteq> 0 then LOCK_EX else LOCK_SH) OR LOCK_NB
          else (if flags AND FEXLOCK \<noteq> 0 then LOCK_EX else LOCK_SH))"
      note o = open_found[OF assms(1) fa' t2_def t3_def]
      have ok: "fine others v1 t3" using o fine_error(3)[of others "v\<lparr>u_dupfd := - int indx - 1\<rparr>"] fine_error(3)[of others v] by (simp add: v1_def)
      obtain r t4 where l: "ino_lock k ty t3 = Inr (r, t4)" "fine others v1 t4"
        using ino_lock_ok[OF ok, of k ty] o by blast
      have run': "copen ops nserror mode vn u t = (if flags AND (FEXLOCK OR FSHLOCK) \<noteq> 0
          then (case r of Sleeps \<Rightarrow> Inr (Sleeps, v1, t4) | Returns e \<Rightarrow>
            if e \<noteq> 0 then Inr (Returns e, v1\<lparr>u_ofile := (u_ofile v1)[indx := None]\<rparr>, snd (closef ops (Some k) t4))
            else Inr (Returns e, v1, t4))
          else Inr (Returns 0, v1, t3))"
        using False a l(1) unfolding run unfolding Inr sum.case t3_def[symmetric] v1_def[symmetric] ty_def[symmetric] by auto
      have "fine others (v1\<lparr>u_ofile := (u_ofile v1)[indx := None]\<rparr>) (snd (closef ops (Some k) t4))"
        using fine_clear[OF l(2), of indx ops] o by (simp add: v1_def indx_def)
      then show ?thesis unfolding run' using ok l(2) by (auto split: lock_result.split)
    qed
  qed
qed

lemma two_updates: "xs = ys[j := a, k := b] \<Longrightarrow> k \<noteq> j \<Longrightarrow> xs[k := c, j := d] = ys[j := d, k := c]"
  by (metis list_update_overwrite list_update_swap)

lemma fine_pipe: "fine others u t \<Longrightarrow> pipe ip u t = (r, u', t') \<Longrightarrow> fine others u' t'"
proof -
  assume f: "fine others u t" and p: "pipe ip u t = (r, u', t')"
  note g = fineD(1)[OF f] and d = fineD(2)[OF f]
  note len = goodD(6)[OF g]
  obtain a v t1 where fa: "falloc u t = (a, v, t1)" by (metis prod_cases3)
  obtain b w t2 where fb: "falloc v t1 = (b, w, t2)" by (metis prod_cases3)
  show "fine others u' t'"
  proof (cases a)
    case None
    then show ?thesis using falloc_ok(1)[OF g fa None] p fa d by (simp add: pipe_def fine_def dok_def)
  next
    case (Some rf)
    have fa': "falloc u t = (Some rf, v, t1)" using fa Some by simp
    note A = falloc_ok(2)[OF g fa' refl] and ul = falloc_unlocked[OF g fa']
    from A have g1: "good others v t1" and rf: "rf < NFILE" by blast+
    from A obtain i where i: "i < NOFILE" "u_rval v = int i" "u_ofile v ! i = Some rf" using goodD(7)[OF g] by auto
    from A have c1: "f_count (files t1 ! rf) = 1" using len by simp
    show ?thesis
    proof (cases b)
      case None
      note B = falloc_ok(1)[OF g1 fb None]
      let ?f = "(files t2 ! rf)\<lparr>f_count := 0\<rparr>"
      have out: "u' = w\<lparr>u_ofile := (u_ofile w)[i := None]\<rparr>" "t' = updf rf (\<lambda>f. f\<lparr>f_count := 0\<rparr>) t2"
        using p fa' fb None i(2) by (auto simp: pipe_def Let_def)
      have "good others u' t'"
        unfolding out using B rf i c1 ul by (intro good_giveup[of others w t2 rf i ?f]) auto
      moreover have "files t' = (files t)[rf := (files t1 ! rf)\<lparr>f_count := 0\<rparr>]"
        using A B by (auto simp: out)
      then have "dok t'" by (rule dok_upd[OF d len]) simp
      ultimately show ?thesis by (simp add: fine_def)
    next
      case (Some k)
      have fb': "falloc v t1 = (Some k, w, t2)" using fb Some by simp
      note B = falloc_ok(2)[OF g1 fb' refl] and ulk = falloc_unlocked[OF g1 fb']
      from B have g2: "good others w t2" and k: "k < NFILE" and ne: "k \<noteq> rf" using c1 by auto
      let ?fk = "(files t2 ! k)\<lparr>f_flag := FWRITE, f_type := DTYPE_PIPE, f_data := Some ip\<rparr>"
      let ?fr = "(files t2 ! rf)\<lparr>f_flag := FREAD, f_type := DTYPE_PIPE, f_data := Some ip\<rparr>"
      define t3 where "t3 = updf k (\<lambda>f. f\<lparr>f_flag := FWRITE, f_type := DTYPE_PIPE, f_data := Some ip\<rparr>) t2"
      have out: "u' = w\<lparr>u_rval := u_rval v\<rparr>"
        "t' = updf rf (\<lambda>f. f\<lparr>f_flag := FREAD, f_type := DTYPE_PIPE, f_data := Some ip\<rparr>) t3"
        using p fa' fb' by (auto simp: pipe_def Let_def t3_def)
      have f2: "files t2 ! rf = files t1 ! rf" using B ne by auto
      have f3: "files t3 = (files t2)[k := ?fk]" "files t3 ! rf = files t2 ! rf" using ne by (auto simp: t3_def)
      have "good others w t3" by (rule good_setup[OF g2 k _ _ _ ulk f3(1)]) (simp_all add: t3_def)
      then have "good others w t'"
      proof (rule good_setup[OF _ rf])
        show "files t' = (files t3)[rf := ?fr]" using f3(2) by (simp add: out)
        show "\<not> bit (f_flag (files t3 ! rf)) 4" "\<not> bit (f_flag (files t3 ! rf)) 5" using ul f2 f3(2) by simp_all
        show "f_count ?fr = f_count (files t3 ! rf)" using f3(2) by simp
      qed (simp_all add: out)
      moreover have "dok (t\<lparr>files := (files t)[rf := ?fr]\<rparr>)"
        by (rule dok_upd[OF d len, of _ rf ?fr]) simp_all
      then have "dok t'"
      proof (rule dok_upd[of _ _ k ?fk])
        have "files t2 = ((files t)[rf := files t1 ! rf])[k := files t2 ! k]" using A B len rf k ne by auto
        from two_updates[OF this ne] show "files t' = (files (t\<lparr>files := (files t)[rf := ?fr]\<rparr>))[k := ?fk]"
          using f3 by (simp add: out)
      qed (simp_all add: len)
      ultimately show ?thesis using out(1) good_error(2) by (simp add: fine_def)
    qed
  qed
qed

section \<open>exec and exit\<close>

lemma fine_drop:
  assumes "fine others u t" and "i < NOFILE"
  shows "fine others (u\<lparr>u_ofile := (u_ofile u)[i := None], u_pofile := (u_pofile u)[i := 0]\<rparr>) (snd (closef ops (u_ofile u ! i) t))"
  using fine_pofile[OF fine_clear[OF assms]] by simp

lemma fine_exec_close:
  "fine others u t \<Longrightarrow> set ns \<subseteq> {..<NOFILE} \<Longrightarrow> exec_close ops ns u t = (u', t') \<Longrightarrow> fine others u' t'"
proof (induction ns arbitrary: u t)
  case (Cons n ns)
  then have "n < NOFILE" "set ns \<subseteq> {..<NOFILE}" by auto
  then show ?case
    using Cons.IH[of u t] Cons.IH[OF fine_drop[OF Cons.prems(1), of n]] Cons.prems(1,3)
    by (cases "u_pofile u ! n AND UF_EXCLOSE = 0") simp_all
qed simp

lemma fds_below: "uok u \<Longrightarrow> set (fds u) \<subseteq> {..<NOFILE}"
  by (auto simp: uok_def)

lemma fine_exec: "fine others u t \<Longrightarrow> exec_clear ops u t = (u', t') \<Longrightarrow> fine others u' t'"
  using fine_exec_close[of others u t "fds u" ops] fds_below[of u] fine_lower
  by (auto simp: exec_clear_def fine_def good_def split: prod.splits)

lemma fine_exit_files:
  "fine others u t \<Longrightarrow> set ns \<subseteq> {..<NOFILE} \<Longrightarrow> exit_files ops ns u t = (u', t') \<Longrightarrow>
     fine others u' t' \<and> (\<forall>i<NOFILE. u_ofile u' ! i = (if i \<in> set ns then None else u_ofile u ! i))"
proof (induction ns arbitrary: u t)
  case (Cons n ns)
  then have n: "n < NOFILE" "set ns \<subseteq> {..<NOFILE}" by auto
  have len: "length (u_ofile u) = NOFILE" using goodD(7)[OF fineD(1)[OF Cons.prems(1)]] .
  show ?case
    using Cons.IH[OF fine_drop[OF Cons.prems(1) n(1)] n(2)] Cons.prems(3) n(1) len by (auto simp: nth_list_update)
qed simp

lemma exit_closes_all:
  assumes "fine others u t" and "exit_files ops (fds u) u t = (u', t')"
  shows "fine others u' t' \<and> u_ofile u' = replicate NOFILE None"
proof -
  have u: "uok u" using assms(1) by (simp add: fine_def good_def)
  note e = fine_exit_files[OF assms(1) fds_below[OF u] assms(2)]
  have "u_ofile u' ! i = None" if "i < NOFILE" for i
  proof (cases "i \<in> set (fds u)")
    case True
    then show ?thesis using e that by simp
  next
    case False
    then have "\<not> int i \<le> u_lastfile u" by auto
    then have "u_ofile u ! i = None" using u that by (auto simp: uok_def)
    then show ?thesis using e that False by simp
  qed
  moreover have "length (u_ofile u') = NOFILE" using e goodD(7)[OF fineD(1)] by blast
  ultimately have "u_ofile u' = replicate NOFILE None" by (intro nth_equalityI) simp_all
  then show ?thesis using e by simp
qed

end
