(* ===== verification/Fdesc_Run.thy ===== *)
theory Fdesc_Run
  imports Fdesc_Calls
begin

text \<open>
  The file table under any sequence of descriptor calls of any number of processes, with \<open>fork\<close>,
  \<open>exec\<close> and \<open>exit\<close> among them: reference counts are exact, no file is lost or freed early, and an
  exclusive lock excludes every other lock of the inode.
\<close>

section \<open>The processes and the file table\<close>

record fsys =
  tab :: ftab
  areas :: "nat \<Rightarrow> uarea"
  live :: "nat list"

text \<open>\<open>vn_open\<close> leaves an error, which is not 0, or an inode.\<close>

datatype fd_op =
  Close int
| Dup int int
| Dup2 int int
| Fcntl int int int
| Ioctl_Clex int bool
| Open int fflags "(int \<times> int) + nat"
| Pipe nat
| Flock int "32 word"
| Exec

fun fd_run :: "fileops \<Rightarrow> sys \<Rightarrow> fd_op \<Rightarrow> uarea \<Rightarrow> ftab \<Rightarrow> (uarea \<times> ftab) res" where
  "fd_run ops s (Close i) u t = Inr (close ops i u t)"
| "fd_run ops s (Dup i j) u t = Inr (dup ops i j u t)"
| "fd_run ops s (Dup2 i j) u t = Inr (dup2 ops i j u t)"
| "fd_run ops s (Fcntl i c a) u t = Inr (fcntl ops s i c a u t)"
| "fd_run ops s (Ioctl_Clex i on) u t = Inr (ioctl_clex i on u t, t)"
| "fd_run ops s (Open ns mode vn) u t = andthen (copen ops ns mode vn u t) (\<lambda>(r, u, t). Inr (u, t))"
| "fd_run ops s (Pipe ip) u t = Inr (snd (pipe ip u t))"
| "fd_run ops s (Flock i how) u t = andthen (flock i how u t) (\<lambda>(r, u, t). Inr (u, t))"
| "fd_run ops s Exec u t = Inr (exec_clear ops u t)"

definition fd_op_ok :: "fd_op \<Rightarrow> bool" where
  "fd_op_ok p \<longleftrightarrow> (case p of Open ns m (Inl (e, d)) \<Rightarrow> e \<noteq> 0 | _ \<Rightarrow> True)"

inductive fd_step :: "fsys \<Rightarrow> fsys \<Rightarrow> bool" where
  Call: "p \<in> set (live s) \<Longrightarrow> fd_op_ok c \<Longrightarrow> fd_run ops sy c (areas s p) (tab s) = Inr (u', t')
           \<Longrightarrow> fd_step s (s\<lparr>tab := t', areas := (areas s)(p := u')\<rparr>)"
| Fork: "p \<in> set (live s) \<Longrightarrow> c \<notin> set (live s) \<Longrightarrow> length (live s) < NPROC
           \<Longrightarrow> fd_step s (s\<lparr>tab := fork_files (fds (areas s p)) (areas s p) (tab s),
                             areas := (areas s)(c := areas s p), live := c # live s\<rparr>)"
| Exit: "p \<in> set (live s) \<Longrightarrow> exit_files ops (fds (areas s p)) (areas s p) (tab s) = (u', t')
           \<Longrightarrow> fd_step s (s\<lparr>tab := t', areas := (areas s)(p := u'), live := remove1 p (live s)\<rparr>)"

definition fd_init :: fsys where
  "fd_init = \<lparr>tab = \<lparr>files = replicate NFILE \<lparr>f_flag = 0, f_type = 0, f_count = 0, f_data = None, f_offset = 0\<rparr>,
                     lastf = None, inodes = (\<lambda>_. \<lparr>i_flag = {}, i_shlockc = 0, i_exlockc = 0\<rparr>), wakeups = []\<rparr>,
              areas = (\<lambda>_. \<lparr>u_ofile = replicate NOFILE None, u_pofile = replicate NOFILE 0, u_lastfile = -1,
                            u_dupfd = 0, u_rval = 0, u_error = 0\<rparr>),
              live = [0]\<rparr>"

section \<open>The invariant\<close>

definition refs :: "fsys \<Rightarrow> nat \<Rightarrow> nat" where
  "refs s k = (\<Sum>p\<in>set (live s). count_list (u_ofile (areas s p)) (Some k))"

definition others :: "nat \<Rightarrow> fsys \<Rightarrow> nat \<Rightarrow> nat" where
  "others p s k = (\<Sum>q\<in>set (live s) - {p}. count_list (u_ofile (areas s q)) (Some k))"

definition fd_inv :: "fsys \<Rightarrow> bool" where
  "fd_inv s \<longleftrightarrow> distinct (live s) \<and> length (live s) \<le> NPROC \<and> tok (tab s) \<and> lk_ok (tab s) \<and> dok (tab s)
     \<and> (\<forall>p\<in>set (live s). uok (areas s p)) \<and> (\<forall>k<NFILE. unat (f_count (files (tab s) ! k)) = refs s k)"

lemma refs_others: "p \<in> set (live s) \<Longrightarrow> refs s k = count_list (u_ofile (areas s p)) (Some k) + others p s k"
  by (simp add: refs_def others_def sum.remove[of _ p])

lemma count_sum_le:
  assumes "\<And>q. q \<in> A \<Longrightarrow> length (u_ofile (a q)) = NOFILE" and "finite A" and "card A \<le> NPROC"
  shows "(\<Sum>q\<in>A. count_list (u_ofile (a q)) (Some k)) \<le> 25 * NOFILE"
proof -
  have "(\<Sum>q\<in>A. count_list (u_ofile (a q)) (Some k)) \<le> card A * NOFILE"
    using sum_bounded_above[of A "\<lambda>q. count_list (u_ofile (a q)) (Some k)" NOFILE] assms(1) count_list_le[of "u_ofile (a _)"]
    by (metis of_nat_id)
  also have "\<dots> \<le> 25 * NOFILE" using assms(3) by (simp add: NPROC_def)
  finally show ?thesis .
qed

lemma fd_invD:
  assumes "fd_inv s" and "p \<in> set (live s)"
  shows "fine (others p s) (areas s p) (tab s)"
proof -
  have u: "\<And>q. q \<in> set (live s) \<Longrightarrow> length (u_ofile (areas s q)) = NOFILE" using assms(1) by (auto simp: fd_inv_def uok_def)
  have "card (set (live s) - {p}) \<le> NPROC"
    using assms(1) card_mono[of "set (live s)" "set (live s) - {p}"] distinct_card[of "live s"] by (auto simp: fd_inv_def)
  then have le: "others p s k \<le> 25 * NOFILE" for k
    unfolding others_def using u by (intro count_sum_le) auto
  have "others p s k < 100000" for k using le[of k] by simp
  then have "few (others p s)" by (simp add: few_def)
  then show ?thesis
    using assms by (auto simp: fine_def good_def bal_def fd_inv_def refs_others)
qed

text \<open>A process changes its own descriptors and the table only.\<close>

lemma fd_inv_call:
  assumes "fd_inv s" and "p \<in> set (live s)" and "fine (others p s) u' t'"
  shows "fd_inv (s\<lparr>tab := t', areas := (areas s)(p := u')\<rparr>)"
proof -
  let ?s = "s\<lparr>tab := t', areas := (areas s)(p := u')\<rparr>"
  have o: "others p ?s = others p s" by (auto simp: others_def fun_eq_iff intro!: sum.cong)
  have "refs ?s k = count_list (u_ofile u') (Some k) + others p s k" for k
    using refs_others[of p ?s k] assms(2) o by simp
  then show ?thesis
    using assms by (auto simp: fd_inv_def fine_def good_def bal_def)
qed

lemma fd_run_fine:
  assumes "fine oth u t" and "fd_op_ok c"
  shows "\<exists>u' t'. fd_run ops sy c u t = Inr (u', t') \<and> fine oth u' t'"
proof (cases c)
  case (Open ns mode vn)
  obtain r u' t' where "copen ops ns mode vn u t = Inr (r, u', t') \<and> fine oth u' t'"
    using fine_copen[OF assms(1), of vn ops ns mode] assms(2) Open by (fastforce simp: fd_op_ok_def)
  then show ?thesis using Open by auto
next
  case (Flock i how)
  then show ?thesis using fine_flock[OF assms(1), of i how] by auto
next
  case (Pipe ip)
  then show ?thesis using fine_pipe[OF assms(1), of ip] by (cases "pipe ip u t") auto
qed (use fine_close[OF assms(1)] fine_dup[OF assms(1)] fine_dup2[OF assms(1)] fine_fcntl[OF assms(1)] fine_ioctl[OF assms(1)]
       fine_exec[OF assms(1)] in \<open>auto simp: prod_eq_iff\<close>)

section \<open>fork\<close>

lemma fork_files_fields:
  "length (files t) = NFILE \<Longrightarrow>
     lastf (fork_files ns u t) = lastf t \<and> inodes (fork_files ns u t) = inodes t \<and> length (files (fork_files ns u t)) = NFILE
     \<and> (\<forall>k<NFILE. files (fork_files ns u t) ! k
           = (files t ! k)\<lparr>f_count := f_count (files t ! k) + of_nat (count_list (map ((!) (u_ofile u)) ns) (Some k))\<rparr>)"
proof (induction ns arbitrary: t)
  case (Cons n ns)
  define t1 where "t1 = (case u_ofile u ! n of None \<Rightarrow> t | Some fp \<Rightarrow> updf fp (\<lambda>f. f\<lparr>f_count := f_count f + 1\<rparr>) t)"
  have t1: "length (files t1) = NFILE" "lastf t1 = lastf t" "inodes t1 = inodes t"
    using Cons.prems by (auto simp: t1_def split: option.split)
  have "files t1 ! k = (files t ! k)\<lparr>f_count := f_count (files t ! k) + of_bool (u_ofile u ! n = Some k)\<rparr>" if "k < NFILE" for k
    using Cons.prems that by (cases "u_ofile u ! n") (auto simp: t1_def nth_list_update)
  then show ?case using Cons.IH[OF t1(1)] t1 by (simp add: t1_def[symmetric] add.assoc)
qed simp

lemma count_fds:
  assumes "uok u"
  shows "count_list (map ((!) (u_ofile u)) (fds u)) (Some k) = count_list (u_ofile u) (Some k)"
proof -
  define n where "n = nat (u_lastfile u + 1)"
  have n: "n \<le> length (u_ofile u)" using assms by (auto simp: n_def uok_def)
  have "map ((!) (u_ofile u)) [0..<n] = take n (u_ofile u)" using n by (intro nth_equalityI) auto
  moreover have "Some k \<notin> set (drop n (u_ofile u))"
  proof
    assume "Some k \<in> set (drop n (u_ofile u))"
    then obtain i where "n + i < length (u_ofile u)" "u_ofile u ! (n + i) = Some k"
      by (auto simp: in_set_conv_nth less_diff_conv add.commute)
    then have "int (n + i) \<le> u_lastfile u" using assms by (fastforce simp: uok_def)
    then show False using assms by (simp add: n_def uok_def split: if_splits)
  qed
  then have "count_list (drop n (u_ofile u)) (Some k) = 0" by (simp add: count_list_0_iff)
  moreover have "count_list (u_ofile u) (Some k) = count_list (take n (u_ofile u)) (Some k) + count_list (drop n (u_ofile u)) (Some k)"
    by (metis append_take_drop_id count_list_append)
  ultimately show ?thesis by (simp add: n_def)
qed

lemma fork_table:
  assumes "fine oth u t" and "t' = fork_files (fds u) u t"
  shows "tok t' \<and> lk_ok t' \<and> dok t'
    \<and> (\<forall>k<NFILE. unat (f_count (files t' ! k)) = unat (f_count (files t ! k)) + count_list (u_ofile u) (Some k))"
proof -
  note g = goodD[OF fineD(1)[OF assms(1)]]
  note f = fork_files_fields[OF g(6), of "fds u" u, folded assms(2), unfolded count_fds[OF g(1)]]
  have cnt: "unat (f_count (files t' ! k)) = unat (f_count (files t ! k)) + count_list (u_ofile u) (Some k)" if "k < NFILE" for k
  proof -
    have "unat (f_count (files t ! k)) < 200000" using bal_bound[OF g(4,3,7) that] .
    moreover have c: "count_list (u_ofile u) (Some k) \<le> 30" using count_list_le[of "u_ofile u"] g(7) by metis
    moreover have "unat (of_nat (count_list (u_ofile u) (Some k)) :: 32 word) = count_list (u_ofile u) (Some k)"
      using c by (simp add: unat_of_nat)
    moreover have "f_count (files t' ! k) = f_count (files t ! k) + of_nat (count_list (u_ofile u) (Some k))"
      using f that by simp
    ultimately show ?thesis by (simp add: unat_plus_if')
  qed
  have z: "f_count (files t' ! k) = 0 \<longleftrightarrow> f_count (files t ! k) = 0" if "k < NFILE" for k
  proof -
    have "count_list (u_ofile u) (Some k) \<le> unat (f_count (files t ! k))" using g(4) that by (simp add: bal_def)
    then show ?thesis using cnt[OF that] by (metis add_cancel_right_right add_is_0 le_zero_eq unat_eq_zero)
  qed
  have same: "f_flag (files t' ! k) = f_flag (files t ! k)" "f_type (files t' ! k) = f_type (files t ! k)"
    "f_data (files t' ! k) = f_data (files t ! k)" if "k < NFILE" for k using f that by simp_all
  have "holders b t' i = holders b t i" for b i by (auto simp: holders_def same)
  then have "lk_ok t'" using g(5) f z by (simp add: lk_ok_def flk_ok_def same)
  moreover have "dok t'" using fineD(2)[OF assms(1)] z same by (simp add: dok_def)
  moreover have "tok t'" using g(2) f by (simp add: tok_def)
  ultimately show ?thesis using cnt by blast
qed

lemma fd_inv_fork:
  assumes "fd_inv s" and "p \<in> set (live s)" and "c \<notin> set (live s)" and "length (live s) < NPROC"
  shows "fd_inv (s\<lparr>tab := fork_files (fds (areas s p)) (areas s p) (tab s), areas := (areas s)(c := areas s p), live := c # live s\<rparr>)"
proof -
  let ?s = "s\<lparr>tab := fork_files (fds (areas s p)) (areas s p) (tab s), areas := (areas s)(c := areas s p), live := c # live s\<rparr>"
  note f = fork_table[OF fd_invD[OF assms(1,2)] refl]
  have "refs ?s k = count_list (u_ofile (areas s p)) (Some k) + refs s k" for k
    using assms(3) by (simp add: refs_def) (rule sum.cong, auto)
  then show ?thesis using assms f by (auto simp: fd_inv_def)
qed

lemma fd_inv_exit:
  assumes "fd_inv s" and "p \<in> set (live s)" and "exit_files ops (fds (areas s p)) (areas s p) (tab s) = (u', t')"
  shows "fd_inv (s\<lparr>tab := t', areas := (areas s)(p := u'), live := remove1 p (live s)\<rparr>)"
proof -
  let ?s = "s\<lparr>tab := t', areas := (areas s)(p := u'), live := remove1 p (live s)\<rparr>"
  note e = exit_closes_all[OF fd_invD[OF assms(1,2)] assms(3)]
  have d: "distinct (live s)" using assms(1) by (simp add: fd_inv_def)
  have "count_list (u_ofile u') (Some k) = 0" for k using e by (simp add: count_list_0_iff)
  moreover have "refs ?s k = others p s k" for k
    using d by (auto simp: refs_def others_def intro!: sum.cong)
  ultimately show ?thesis
    using assms(1,2) e d length_remove1[of p "live s"] by (auto simp: fd_inv_def fine_def good_def bal_def)
qed

lemma fd_step_inv: "fd_step s s' \<Longrightarrow> fd_inv s \<Longrightarrow> fd_inv s'"
proof (induction rule: fd_step.induct)
  case (Call p s c ops sy u' t')
  then obtain u1 t1 where "fd_run ops sy c (areas s p) (tab s) = Inr (u1, t1)" "fine (others p s) u1 t1"
    using fd_run_fine[OF fd_invD, of s p c ops sy] by blast
  then have "fine (others p s) u' t'" using Call by simp
  then show ?case using Call fd_inv_call by blast
next
  case (Fork p s c)
  then show ?case using fd_inv_fork by blast
next
  case (Exit p s ops u' t')
  then show ?case using fd_inv_exit by blast
qed

lemma fd_inv_init: "fd_inv fd_init"
proof -
  have "files (tab fd_init) ! k = \<lparr>f_flag = 0, f_type = 0, f_count = 0, f_data = None, f_offset = 0\<rparr>" if "k < NFILE" for k
    using that by (simp add: fd_init_def nth_replicate)
  then have f: "k < NFILE \<Longrightarrow> f_flag (files (tab fd_init) ! k) = 0" "k < NFILE \<Longrightarrow> f_count (files (tab fd_init) ! k) = 0" for k
    by simp_all
  have "holders b (tab fd_init) i = {}" for b i by (auto simp: holders_def f)
  then have "lk_ok (tab fd_init)"
    using f by (auto simp: lk_ok_def ilk_ok_def flk_ok_def fd_init_def)
  moreover have "dok (tab fd_init)" using f by (simp add: dok_def)
  ultimately show ?thesis
    using f by (auto simp: fd_inv_def refs_def fd_init_def tok_def uok_def NPROC_def nth_replicate)
qed

definition fd_reach :: "fsys \<Rightarrow> bool" where
  "fd_reach s \<longleftrightarrow> fd_step\<^sup>*\<^sup>* fd_init s"

lemma fd_reach_inv: "fd_reach s \<Longrightarrow> fd_inv s"
  unfolding fd_reach_def by (induction rule: rtranclp_induct) (auto intro: fd_inv_init fd_step_inv)

lemma fd_reach_call:
  assumes "fd_reach s" and "p \<in> set (live s)" and "fd_op_ok c" and "fd_run ops sy c (areas s p) (tab s) = Inr (u', t')"
  shows "fd_reach (s\<lparr>tab := t', areas := (areas s)(p := u')\<rparr>)"
  using assms fd_step.Call unfolding fd_reach_def by (metis rtranclp.rtrancl_into_rtrancl)

lemma fd_reach_fork:
  assumes "fd_reach s" and "p \<in> set (live s)" and "c \<notin> set (live s)" and "length (live s) < NPROC"
  shows "fd_reach (s\<lparr>tab := fork_files (fds (areas s p)) (areas s p) (tab s), areas := (areas s)(c := areas s p), live := c # live s\<rparr>)"
  using assms fd_step.Fork unfolding fd_reach_def by (metis rtranclp.rtrancl_into_rtrancl)

text \<open>A process opens inode 7 twice, the first time with an exclusive lock.\<close>

definition quiet_ops :: fileops where
  "quiet_ops = \<lparr>fo_close = (\<lambda>_. 0), fo_ioctl = (\<lambda>_ _ _. (0, 0))\<rparr>"

definition two_opens :: "(lock_result \<times> uarea \<times> ftab) res" where
  "two_opens = andthen (copen quiet_ops 0 0x22 (Inr 7) (areas fd_init 0) (tab fd_init)) (\<lambda>(r, u, t). copen quiet_ops 0 2 (Inr 7) u t)"

lemma two_opens_table:
  "case two_opens of
     Inl _ \<Rightarrow> False
   | Inr (r, u, t) \<Rightarrow> f_data (files t ! 0) = Some 7 \<and> f_data (files t ! 1) = Some 7 \<and> f_flag (files t ! 0) AND FEXLOCK \<noteq> 0
       \<and> u_ofile u ! 0 = Some 0 \<and> u_ofile u ! 1 = Some 1"
  by code_simp

lemma two_opens_reach:
  "\<exists>s. fd_reach s \<and> live s = [0] \<and> f_data (files (tab s) ! 0) = Some 7 \<and> f_data (files (tab s) ! 1) = Some 7
     \<and> f_flag (files (tab s) ! 0) AND FEXLOCK \<noteq> 0 \<and> u_ofile (areas s 0) ! 0 = Some 0"
proof -
  obtain r1 u1 t1 where o1: "copen quiet_ops 0 0x22 (Inr 7) (areas fd_init 0) (tab fd_init) = Inr (r1, u1, t1)"
    using two_opens_table by (cases "copen quiet_ops 0 0x22 (Inr 7) (areas fd_init 0) (tab fd_init)") (auto simp: two_opens_def)
  obtain r2 u2 t2 where o2: "copen quiet_ops 0 2 (Inr 7) u1 t1 = Inr (r2, u2, t2)"
    using two_opens_table o1 by (cases "copen quiet_ops 0 2 (Inr 7) u1 t1") (auto simp: two_opens_def)
  have l: "live fd_init = [0]" by (simp add: fd_init_def)
  let ?s1 = "fd_init\<lparr>tab := t1, areas := (areas fd_init)(0 := u1)\<rparr>"
  let ?s2 = "?s1\<lparr>tab := t2, areas := (areas ?s1)(0 := u2)\<rparr>"
  have r1: "fd_reach ?s1"
    using o1 l by (intro fd_reach_call[of _ _ "Open 0 0x22 (Inr 7)" quiet_ops undefined]) (simp_all add: fd_reach_def fd_op_ok_def)
  have "fd_reach ?s2"
    using o2 l by (intro fd_reach_call[OF r1, of _ "Open 0 2 (Inr 7)" quiet_ops undefined]) (simp_all add: fd_op_ok_def)
  moreover have "f_data (files t2 ! 0) = Some 7 \<and> f_data (files t2 ! 1) = Some 7 \<and> f_flag (files t2 ! 0) AND FEXLOCK \<noteq> 0
      \<and> u_ofile u2 ! 0 = Some 0"
    using two_opens_table o1 o2 by (simp add: two_opens_def)
  ultimately show ?thesis using l by (intro exI[of _ ?s2]) simp
qed

section \<open>Properties\<close>

text \<open>
  C11.  In every state that any sequence of descriptor calls of any number of processes, of forks, execs
  and exits can reach, the reference count of every file is the number of descriptors that name
  it, over all live processes; it never wraps, and it is zero just when no process can use the file.
\<close>

theorem fd_counts_exact:
  assumes "fd_reach s" and "k < NFILE"
  shows "unat (f_count (files (tab s) ! k)) = (\<Sum>p\<in>set (live s). count_list (u_ofile (areas s p)) (Some k))
    \<and> (f_count (files (tab s) ! k) = 0 \<longleftrightarrow> (\<forall>p\<in>set (live s). Some k \<notin> set (u_ofile (areas s p))))"
proof -
  have "unat (f_count (files (tab s) ! k)) = refs s k" using fd_reach_inv[OF assms(1)] assms(2) by (simp add: fd_inv_def)
  then show ?thesis by (auto simp: refs_def count_list_0_iff unat_eq_zero[symmetric] simp del: unat_eq_zero)
qed

theorem fd_counts_exact_witness:
  "\<exists>s. fd_reach s \<and> live s = [1, 0] \<and> unat (f_count (files (tab s) ! 0)) = (\<Sum>p\<in>{0, 1}. count_list (u_ofile (areas s p)) (Some 0))
     \<and> f_count (files (tab s) ! 0) \<noteq> 0"
proof -
  obtain s where s: "fd_reach s" "live s = [0]" "u_ofile (areas s 0) ! 0 = Some 0" using two_opens_reach by blast
  let ?s = "s\<lparr>tab := fork_files (fds (areas s 0)) (areas s 0) (tab s), areas := (areas s)(1 := areas s 0), live := 1 # live s\<rparr>"
  have r: "fd_reach ?s" using s by (intro fd_reach_fork) (simp_all add: NPROC_def)
  have "length (u_ofile (areas s 0)) = NOFILE" using fd_reach_inv[OF s(1)] s(2) by (simp add: fd_inv_def uok_def)
  then have "Some 0 \<in> set (u_ofile (areas s 0))" using s(3) by (metis nth_mem zero_less_numeral)
  then show ?thesis using fd_counts_exact[OF r, of 0] r s(2) by (intro exI[of _ ?s]) (simp add: insert_commute)
qed

text \<open>
  C18.  Advisory locks exclude: in every reachable state, while a file holds the exclusive lock of an
  inode no other open file of the inode holds either lock, whatever \<open>flock\<close>, locking \<open>open\<close>,
  \<open>close\<close>, \<open>dup\<close>, \<open>fork\<close> and \<open>exit\<close> were called before.
\<close>

theorem flock_excludes:
  assumes "fd_reach s" and "k < NFILE" and "m < NFILE" and "k \<noteq> m"
    and "f_data (files (tab s) ! k) = Some ip" and "f_data (files (tab s) ! m) = Some ip"
    and "f_flag (files (tab s) ! k) AND FEXLOCK \<noteq> 0"
  shows "f_flag (files (tab s) ! m) AND (FSHLOCK OR FEXLOCK) = 0"
proof -
  let ?t = "tab s"
  have "lk_ok ?t" using fd_reach_inv[OF assms(1)] by (simp add: fd_inv_def)
  note il = lk_okD(3)[OF this, of ip]
  have k: "k \<in> holders 5 ?t ip" using assms(2,5,7) by (simp add: holders_def flag_bits)
  then have ne: "card (holders 5 ?t ip) \<noteq> 0" by auto
  then have "card (holders 4 ?t ip) = 0" "card (holders 5 ?t ip) \<le> Suc 0" using il by (auto simp: ilk_ok_def)
  then have "m \<notin> holders 4 ?t ip" "m \<notin> holders 5 ?t ip"
    using k assms(4) card_le_Suc0_iff_eq[OF finite_holders, of 5 ?t ip] by auto
  then show ?thesis using assms(3,6) by (simp add: holders_def flag_bits)
qed

theorem flock_excludes_witness:
  "\<exists>s. fd_reach s \<and> f_flag (files (tab s) ! 0) AND FEXLOCK \<noteq> 0 \<and> f_data (files (tab s) ! 1) = f_data (files (tab s) ! 0)
     \<and> f_flag (files (tab s) ! 1) AND (FSHLOCK OR FEXLOCK) = 0"
proof -
  obtain s where s: "fd_reach s" "f_data (files (tab s) ! 0) = Some 7" "f_data (files (tab s) ! 1) = Some 7"
    "f_flag (files (tab s) ! 0) AND FEXLOCK \<noteq> 0" using two_opens_reach by blast
  then show ?thesis using flock_excludes[OF s(1), of 0 1 7] by auto
qed

text \<open>
  C19.  Every descriptor call of a live process returns, whatever its arguments, and returns a well-formed
  state: \<open>ino_lock\<close> always finds an inode and ends, the arrays keep their sizes, every
  descriptor names a slot of the file table, and \<open>u_lastfile\<close> is in range and bounds the open descriptors.
\<close>

theorem fd_calls_typed:
  assumes "fd_reach s" and "p \<in> set (live s)" and "fd_op_ok c"
  shows "\<exists>u' t'. fd_run ops sy c (areas s p) (tab s) = Inr (u', t')
    \<and> length (u_ofile u') = NOFILE \<and> length (u_pofile u') = NOFILE \<and> length (files t') = NFILE
    \<and> -1 \<le> u_lastfile u' \<and> u_lastfile u' < int NOFILE
    \<and> (\<forall>i<NOFILE. case u_ofile u' ! i of None \<Rightarrow> True | Some k \<Rightarrow> int i \<le> u_lastfile u' \<and> k < NFILE \<and> f_count (files t' ! k) \<noteq> 0)"
proof -
  obtain u' t' where r: "fd_run ops sy c (areas s p) (tab s) = Inr (u', t')" and f: "fine (others p s) u' t'"
    using fd_run_fine[OF fd_invD[OF fd_reach_inv[OF assms(1)] assms(2)] assms(3)] by blast
  note g = goodD[OF fineD(1)[OF f]]
  have "case u_ofile u' ! i of None \<Rightarrow> True | Some k \<Rightarrow> int i \<le> u_lastfile u' \<and> k < NFILE \<and> f_count (files t' ! k) \<noteq> 0"
    if "i < NOFILE" for i
    using fine_fd[OF f that] g(9)[OF that] by (auto split: option.split)
  then show ?thesis using r g(1,6-8) by (auto simp: uok_def)
qed

theorem fd_calls_typed_witness:
  "\<forall>sy. \<exists>u' t'. fd_run quiet_ops sy (Pipe 3) (areas fd_init 0) (tab fd_init) = Inr (u', t') \<and> length (u_ofile u') = NOFILE"
proof
  fix sy
  have "fd_reach fd_init" "0 \<in> set (live fd_init)" "fd_op_ok (Pipe 3)" by (simp_all add: fd_reach_def fd_init_def fd_op_ok_def)
  from fd_calls_typed[OF this, of quiet_ops sy]
  show "\<exists>u' t'. fd_run quiet_ops sy (Pipe 3) (areas fd_init 0) (tab fd_init) = Inr (u', t') \<and> length (u_ofile u') = NOFILE" by blast
qed

text \<open>
  C29.  Opening \<open>/dev/fd/n\<close> for a descriptor \<open>n\<close> that is not open: \<open>copen\<close> reports success (error 0) and
  returns a descriptor number, but the descriptor is closed.  \<open>dupfdopen\<close> did answer \<open>EBADF\<close>; the condition
  assigns the truth value of its comparison with 0 instead.
\<close>

theorem open_dev_fd_reports_success:
  assumes "mode AND FSEARCH = 0" and "length (u_ofile u) = NOFILE" and "falloc u t = (Some k, v, t1)"
    and "0 \<le> n" and "n \<ge> int NOFILE \<or> u_ofile u ! nat n = None"
  shows "\<exists>u' t'. copen ops 0 mode (Inl (fst (fdopen n v), n)) u t = Inr (Returns 0, u', t')
    \<and> u_rval u' = u_rval v \<and> 0 \<le> u_rval u' \<and> u_rval u' < int NOFILE \<and> u_ofile u' ! nat (u_rval u') = None
    \<and> (\<forall>w t. fst (dupfdopen (nat (u_rval v)) n (FFLAGS mode) ENODEV (v\<lparr>u_dupfd := w\<rparr>) t) = EBADF)"
proof -
  obtain i where i: "u_rval v = int i" "i < NOFILE" "u_ofile v = (u_ofile u)[i := Some k]"
    using assms(3) by (auto simp: falloc_def Let_def dest!: ufalloc_cases split: option.splits prod.splits)
  then have "n \<ge> int NOFILE \<or> u_ofile v ! nat n = None \<or> nat n = i"
    using assms(2,5) by (cases "nat n = i") auto
  then show ?thesis using assms(1-4) i by (auto simp: copen_def fdopen_def dupfdopen_def Let_def)
qed

theorem open_dev_fd_reports_success_witness:
  "\<exists>u' t'. copen quiet_ops 0 0 (Inl (ENODEV, 5)) (areas fd_init 0) (tab fd_init) = Inr (Returns 0, u', t')
     \<and> u_ofile u' ! nat (u_rval u') = None"
proof -
  have "fst (falloc (areas fd_init 0) (tab fd_init)) = Some 0" by code_simp
  then obtain v t1 where "falloc (areas fd_init 0) (tab fd_init) = (Some 0, v, t1)"
    by (cases "falloc (areas fd_init 0) (tab fd_init)") auto
  from open_dev_fd_reports_success[of 0, OF _ _ this, of 5 quiet_ops]
  show ?thesis by (auto simp: fd_init_def fdopen_def)
qed

end
