(* ===== verification/Prot.thy ===== *)
theory Prot
  imports Signal
begin

text \<open>
  Credentials: \<open>sys/kern/kern_prot.c\<close>, \<open>sys/kern/kern_prot2.c\<close>, what \<open>execve\<close> does with the set-id
  bits, and the permission checks of files that rest on the credentials (\<open>access\<close>, \<open>chmod1\<close>, \<open>chown1\<close>).

  \<open>cred\<close> is the credential part of the u area of the current process; the real user id and \<open>p_uid\<close>, which
  other processes read, are fields of its \<open>proc\<close> entry in \<open>sys\<close>.  A user or group id is a 32-bit
  unsigned number.  What \<open>copyin\<close> and \<open>copyout\<close> answer, and the inode a name leads to, are arguments.
\<close>

unbundle bit_operations_syntax

section \<open>Data\<close>

abbreviation NGROUPS :: nat where "NGROUPS \<equiv> 16"
abbreviation NOGROUP :: nat where "NOGROUP \<equiv> 4294967295"
abbreviation ETXTBSY :: int where "ETXTBSY \<equiv> 26"
abbreviation SIGTRAP :: nat where "SIGTRAP \<equiv> 5"
abbreviation EROFS :: int where "EROFS \<equiv> 30"
abbreviation EFTYPE :: int where "EFTYPE \<equiv> 79"
abbreviation perm_denied :: int where "perm_denied \<equiv> 13"  \<comment> \<open>\<open>EACCES\<close>\<close>

record cred =
  u_uid :: nat
  u_svuid :: nat
  u_svgid :: nat
  u_rgid :: nat
  u_groups :: "nat list"
  u_error :: int
  u_rval :: int

text \<open>An unsigned id as the \<open>int\<close> it becomes in \<open>u_rval\<close>.\<close>

definition as_int :: "nat \<Rightarrow> int" where
  "as_int x = sint (word_of_nat x :: 32 word)"

abbreviation self :: "sys \<Rightarrow> proc" where
  "self s \<equiv> ptab s (u_procp s)"

section \<open>Reading the credentials\<close>

definition getpid :: "cred \<Rightarrow> sys \<Rightarrow> cred" where
  "getpid c s = c\<lparr>u_rval := p_pid (self s)\<rparr>"

definition getppid :: "cred \<Rightarrow> sys \<Rightarrow> cred" where
  "getppid c s = c\<lparr>u_rval := p_ppid (self s)\<rparr>"

definition getpgrp :: "cred \<Rightarrow> sys \<Rightarrow> cred" where
  "getpgrp c s = c\<lparr>u_rval := p_pgrp (self s)\<rparr>"

definition getuid :: "cred \<Rightarrow> sys \<Rightarrow> cred" where
  "getuid c s = c\<lparr>u_rval := as_int (u_ruid (self s))\<rparr>"

definition geteuid :: "cred \<Rightarrow> cred" where
  "geteuid c = c\<lparr>u_rval := as_int (u_uid c)\<rparr>"

definition getgid :: "cred \<Rightarrow> cred" where
  "getgid c = c\<lparr>u_rval := as_int (u_rgid c)\<rparr>"

definition getegid :: "cred \<Rightarrow> cred" where
  "getegid c = c\<lparr>u_rval := as_int (u_groups c ! 0)\<rparr>"

text \<open>The loop of \<open>getgroups\<close> that comes down from the end of the array.\<close>

fun ngroups :: "nat \<Rightarrow> nat list \<Rightarrow> nat" where
  "ngroups 0 gs = 0"
| "ngroups (Suc n) gs = (if gs ! n \<noteq> NOGROUP then Suc n else ngroups n gs)"

definition getgroups :: "int \<Rightarrow> nat \<Rightarrow> cred \<Rightarrow> nat list option \<times> cred" where
  "getgroups copyout gidsetsize c =
     (let n = ngroups NGROUPS (u_groups c) in
      if gidsetsize < n then (None, c\<lparr>u_error := EINVAL\<rparr>)
      else if copyout \<noteq> 0 then (None, c\<lparr>u_error := copyout\<rparr>)
      else (Some (take n (u_groups c)), c\<lparr>u_error := 0, u_rval := int n\<rparr>))"

fun groupmember_loop :: "nat \<Rightarrow> nat list \<Rightarrow> bool" where
  "groupmember_loop gid [] = False"
| "groupmember_loop gid (g # gs) = (if g = NOGROUP then False else if g = gid then True else groupmember_loop gid gs)"

definition groupmember :: "nat \<Rightarrow> cred \<Rightarrow> bool" where
  "groupmember gid c = groupmember_loop gid (u_groups c)"

section \<open>Changing the credentials\<close>

definition suser :: "cred \<Rightarrow> bool \<times> cred" where
  "suser c = (if u_uid c = 0 then (True, c) else (False, c\<lparr>u_error := EPERM\<rparr>))"

text \<open>The condition \<open>!allowed && !suser()\<close> of the calls, which asks \<open>suser\<close> only when it has to.\<close>

definition admitted :: "bool \<Rightarrow> cred \<Rightarrow> bool \<times> cred" where
  "admitted allowed c = (if allowed then (True, c) else suser c)"

definition setuid :: "nat \<Rightarrow> cred \<Rightarrow> sys \<Rightarrow> cred \<times> sys" where
  "setuid requested_uid c s =
     (case admitted (requested_uid = u_ruid (self s)) c of
        (False, c) \<Rightarrow> (c, s)
      | (True, c) \<Rightarrow>
          (c\<lparr>u_uid := requested_uid, u_svuid := requested_uid, u_error := 0\<rparr>,
           upd (u_procp s) (\<lambda>p. p\<lparr>p_uid := requested_uid, u_ruid := requested_uid\<rparr>) s))"

definition seteuid :: "nat \<Rightarrow> cred \<Rightarrow> sys \<Rightarrow> cred \<times> sys" where
  "seteuid requested_euid c s =
     (case admitted (requested_euid = u_ruid (self s) \<or> requested_euid = u_svuid c) c of
        (False, c) \<Rightarrow> (c, s)
      | (True, c) \<Rightarrow>
          (c\<lparr>u_uid := requested_euid, u_error := 0\<rparr>, upd (u_procp s) (\<lambda>p. p\<lparr>p_uid := requested_euid\<rparr>) s))"

definition setgid :: "nat \<Rightarrow> cred \<Rightarrow> cred" where
  "setgid requested_gid c =
     (if requested_gid = NOGROUP then c\<lparr>u_error := EINVAL\<rparr>
      else case admitted (requested_gid = u_rgid c) c of
        (False, c) \<Rightarrow> c
      | (True, c) \<Rightarrow> c\<lparr>u_groups := (u_groups c)[0 := requested_gid], u_rgid := requested_gid, u_svgid := requested_gid, u_error := 0\<rparr>)"

definition setegid :: "nat \<Rightarrow> cred \<Rightarrow> cred" where
  "setegid requested_egid c =
     (if requested_egid = NOGROUP then c\<lparr>u_error := EINVAL\<rparr>
      else case admitted (requested_egid = u_rgid c \<or> requested_egid = u_svgid c) c of
        (False, c) \<Rightarrow> c
      | (True, c) \<Rightarrow> c\<lparr>u_groups := (u_groups c)[0 := requested_egid], u_error := 0\<rparr>)"

text \<open>\<open>copyin\<close> yields an error or the entries it copied.\<close>

definition setgroups :: "nat \<Rightarrow> int + nat list \<Rightarrow> cred \<Rightarrow> cred" where
  "setgroups gidsetsize copyin c =
     (case suser c of
        (False, c) \<Rightarrow> c
      | (True, c) \<Rightarrow>
          if gidsetsize > NGROUPS then c\<lparr>u_error := EINVAL\<rparr>
          else
            case copyin of
              Inl e \<Rightarrow> c\<lparr>u_error := e\<rparr>
            | Inr groups \<Rightarrow>
                let c = c\<lparr>u_error := 0\<rparr>; new = take gidsetsize groups in
                if list_ex (\<lambda>g. g = NOGROUP) new then c\<lparr>u_error := EINVAL\<rparr>
                else c\<lparr>u_groups := new @ replicate (NGROUPS - gidsetsize) NOGROUP\<rparr>)"

definition setpgrp :: "int \<Rightarrow> int \<Rightarrow> cred \<Rightarrow> sys \<Rightarrow> (cred \<times> sys) res" where
  "setpgrp pid pgrp c s =
     (if \<not> (0 \<le> pgrp \<and> pgrp \<le> 32767) then Inr (c\<lparr>u_error := EINVAL\<rparr>, s)
      else
        case pfind (if pid = 0 then p_pid (self s) else pid) s of
          None \<Rightarrow> Inr (c\<lparr>u_error := ESRCH\<rparr>, s)
        | Some p \<Rightarrow>
            andthen (if p_uid (ptab s p) \<noteq> u_uid c \<and> u_uid c \<noteq> 0 then inferior (Suc NPROC) p s else Inr True)
              (\<lambda>ok. if \<not> ok then Inr (c\<lparr>u_error := EPERM\<rparr>, s)
                    else Inr (c, upd p (\<lambda>pr. pr\<lparr>p_pgrp := pgrp\<rparr>) s)))"

section \<open>Files\<close>

text \<open>The part of an inode that permissions concern; \<open>fs_ronly\<close> and \<open>fs_nosuid\<close> are of its file system.\<close>

record perms =
  i_mode :: "16 word"
  i_uid :: nat
  i_gid :: nat
  i_immutable :: bool
  i_text :: bool
  i_chg :: bool
  fs_ronly :: bool
  fs_nosuid :: bool

abbreviation IFMT :: "16 word" where "IFMT \<equiv> 0xF000"
abbreviation IFCHR :: "16 word" where "IFCHR \<equiv> 0x2000"
abbreviation IFDIR :: "16 word" where "IFDIR \<equiv> 0x4000"
abbreviation IFBLK :: "16 word" where "IFBLK \<equiv> 0x6000"
abbreviation ISUID :: "16 word" where "ISUID \<equiv> 0x800"
abbreviation ISGID :: "16 word" where "ISGID \<equiv> 0x400"
abbreviation ISVTX :: "16 word" where "ISVTX \<equiv> 0x200"
abbreviation IREAD :: "16 word" where "IREAD \<equiv> 0x100"
abbreviation IWRITE :: "16 word" where "IWRITE \<equiv> 0x80"
abbreviation IEXEC :: "16 word" where "IEXEC \<equiv> 0x40"

text \<open>Returns the value of the call, nonzero when access is refused.\<close>

definition access :: "perms \<Rightarrow> 16 word \<Rightarrow> cred \<Rightarrow> int \<times> cred" where
  "access ip mode c =
     (if mode = IWRITE \<and> i_immutable ip then (1, c\<lparr>u_error := EPERM\<rparr>)
      else if mode = IWRITE \<and> i_text ip then (1, c\<lparr>u_error := ETXTBSY\<rparr>)
      else if mode = IWRITE \<and> fs_ronly ip \<and> i_mode ip AND IFMT \<noteq> IFCHR \<and> i_mode ip AND IFMT \<noteq> IFBLK
      then (1, c\<lparr>u_error := EROFS\<rparr>)
      else if u_uid c = 0 then (0, c)
      else
        let m = (if u_uid c \<noteq> i_uid ip
                 then let m = drop_bit 3 mode in if groupmember_loop (i_gid ip) (u_groups c) then m else drop_bit 3 m
                 else mode)
        in if i_mode ip AND m \<noteq> 0 then (0, c) else (1, c\<lparr>u_error := perm_denied\<rparr>))"

text \<open>\<open>saccess\<close> once the name has been looked up, with the real ids in place of the effective ones.\<close>

abbreviation R_OK :: "32 word" where "R_OK \<equiv> 4"
abbreviation W_OK :: "32 word" where "W_OK \<equiv> 2"
abbreviation X_OK :: "32 word" where "X_OK \<equiv> 1"

definition saccess :: "perms option \<Rightarrow> 32 word \<Rightarrow> cred \<Rightarrow> sys \<Rightarrow> cred" where
  "saccess ip fmode c s =
     (let c1 = c\<lparr>u_uid := u_ruid (self s), u_groups := (u_groups c)[0 := u_rgid c]\<rparr>;
          c2 = (case ip of
                  None \<Rightarrow> c1
                | Some ip \<Rightarrow>
                    let (r, d1) = (if fmode AND R_OK \<noteq> 0 then access ip IREAD c1 else (0, c1)) in
                    if r \<noteq> 0 then d1
                    else
                      let (w, d2) = (if fmode AND W_OK \<noteq> 0 then access ip IWRITE d1 else (0, d1)) in
                      if w \<noteq> 0 then d2
                      else if fmode AND X_OK \<noteq> 0 then snd (access ip IEXEC d2) else d2)
      in c2\<lparr>u_uid := u_uid c, u_groups := (u_groups c2)[0 := u_groups c ! 0]\<rparr>)"

definition chmod1 :: "perms \<Rightarrow> 16 word \<Rightarrow> cred \<Rightarrow> int \<times> perms \<times> cred" where
  "chmod1 ip mode c =
     (case admitted (u_uid c = i_uid ip) c of
        (False, c) \<Rightarrow> (u_error c, ip, c)
      | (True, c) \<Rightarrow>
          if u_uid c \<noteq> 0 \<and> i_mode ip AND IFMT \<noteq> IFDIR \<and> mode AND ISVTX \<noteq> 0 then (EFTYPE, ip, c)
          else if u_uid c \<noteq> 0 \<and> \<not> groupmember (i_gid ip) c \<and> mode AND ISGID \<noteq> 0 then (EPERM, ip, c)
          else (0, ip\<lparr>i_mode := (i_mode ip AND NOT 0xFFF) OR (mode AND 0xFFF), i_chg := True\<rparr>, c))"

text \<open>The argument \<open>None\<close> stands for -1.\<close>

definition chown1 :: "perms \<Rightarrow> nat option \<Rightarrow> nat option \<Rightarrow> cred \<Rightarrow> int \<times> perms \<times> cred" where
  "chown1 ip uid gid c =
     (let uid = (case uid of None \<Rightarrow> i_uid ip | Some x \<Rightarrow> x);
          gid = (case gid of None \<Rightarrow> i_gid ip | Some x \<Rightarrow> x)
      in case admitted (u_uid c = i_uid ip \<and> uid = i_uid ip \<and> groupmember gid c) c of
           (False, c) \<Rightarrow> (u_error c, ip, c)
         | (True, c) \<Rightarrow>
             let m1 = (if i_uid ip \<noteq> uid \<and> u_uid c \<noteq> 0 then i_mode ip AND NOT ISUID else i_mode ip);
                 m2 = (if i_gid ip \<noteq> gid \<and> u_uid c \<noteq> 0 then m1 AND NOT ISGID else m1)
             in (0, ip\<lparr>i_uid := uid, i_gid := gid, i_mode := m2,
                       i_chg := (i_chg ip \<or> i_uid ip \<noteq> uid \<or> i_gid ip \<noteq> gid)\<rparr>, c))"

text \<open>The ids \<open>execve\<close> gives the new image, and where \<open>exec_clear\<close> puts them.\<close>

definition exec_ids :: "perms \<Rightarrow> cred \<Rightarrow> nat \<times> nat" where
  "exec_ids ip c =
     (if fs_nosuid ip then (u_uid c, u_groups c ! 0)
      else (if i_mode ip AND ISUID \<noteq> 0 then i_uid ip else u_uid c,
            if i_mode ip AND ISGID \<noteq> 0 then i_gid ip else u_groups c ! 0))"

definition exec_cred :: "nat \<times> nat \<Rightarrow> cred \<Rightarrow> sys \<Rightarrow> (cred \<times> sys) res" where
  "exec_cred ids c s =
     (let saved = (\<lambda>(c, s). Inr (c\<lparr>u_svuid := u_uid c, u_svgid := u_groups c ! 0\<rparr>, s)) in
      if P_TRACED \<notin> p_flag (self s)
      then saved (c\<lparr>u_uid := fst ids, u_groups := (u_groups c)[0 := snd ids]\<rparr>, upd (u_procp s) (\<lambda>p. p\<lparr>p_uid := fst ids\<rparr>) s)
      else andthen (psignal (u_procp s) SIGTRAP s) (\<lambda>s. saved (c, s)))"

section \<open>The permission check against its rule\<close>

text \<open>
  The classes of \<open>access\<close>: the owner's bits apply to the owner alone, the group's to a member of the group
  who is not the owner, the others' bits to everybody else.
\<close>

lemma groupmember_loop_iff: "groupmember_loop gid gs \<longleftrightarrow> gid \<in> set (takeWhile (\<lambda>g. g \<noteq> NOGROUP) gs)"
  by (induction gs) auto

definition class_shift :: "perms \<Rightarrow> cred \<Rightarrow> nat" where
  "class_shift ip c = (if u_uid c = i_uid ip then 0 else if groupmember (i_gid ip) c then 3 else 6)"

definition write_error :: "perms \<Rightarrow> int" where
  "write_error ip = (if i_immutable ip then EPERM else if i_text ip then ETXTBSY
     else if fs_ronly ip \<and> i_mode ip AND IFMT \<noteq> IFCHR \<and> i_mode ip AND IFMT \<noteq> IFBLK then EROFS else 0)"

lemma drop3_drop3: "drop_bit 3 (drop_bit 3 (m :: 16 word)) = drop_bit 6 m"
  by (simp add: drop_bit_drop_bit)

lemma and_single_bit: "(w :: 16 word) AND 2 ^ k \<noteq> 0 \<longleftrightarrow> bit w k"
  by (metis and.commute and_exp_eq_0_iff_not_bit)

lemma access_spec:
  assumes "mode = 2 ^ k" and "k \<in> {6, 7, 8}"
  shows "access ip mode c =
    (if mode = IWRITE \<and> write_error ip \<noteq> 0 then (1, c\<lparr>u_error := write_error ip\<rparr>)
     else if u_uid c = 0 \<or> bit (i_mode ip) (k - class_shift ip c) then (0, c)
     else (1, c\<lparr>u_error := perm_denied\<rparr>))"
proof -
  have d: "drop_bit n (2 ^ k :: 16 word) = 2 ^ (k - n)" if "n \<le> 6" for n
    using assms(2) that by (intro bit_eqI) (auto simp: bit_drop_bit_eq bit_exp_iff)
  have "drop_bit 0 mode = mode" by simp
  then have "i_mode ip AND drop_bit n mode \<noteq> 0 \<longleftrightarrow> bit (i_mode ip) (k - n)" if "n \<le> 6" for n
    using d[OF that] and_single_bit assms(1) by simp
  from this[of 0] this[of 3] this[of 6] show ?thesis
    by (auto simp: access_def class_shift_def write_error_def groupmember_def drop3_drop3 Let_def)
qed

text \<open>\<open>saccess\<close> leaves the credentials as they were.\<close>

lemma access_cred: "access ip m c = (r, d) \<Longrightarrow> u_uid d = u_uid c \<and> u_groups d = u_groups c \<and> u_svuid d = u_svuid c
    \<and> u_rgid d = u_rgid c \<and> u_svgid d = u_svgid c"
  by (auto simp: access_def Let_def split: if_splits)

text \<open>
  A user other than 0 who changes the ids of a file owns it and keeps it, and gives it only to a group of
  his own, which costs the set-gid bit; the set-uid bit stays with the owner.
\<close>

lemma chown1_user:
  assumes "chown1 ip uid gid c = (0, ip', c')" and "u_uid c \<noteq> 0"
  shows "i_uid ip' = i_uid ip \<and> i_uid ip = u_uid c \<and> groupmember (i_gid ip') c
    \<and> (i_gid ip' \<noteq> i_gid ip \<longrightarrow> i_mode ip' AND ISGID = 0) \<and> c' = c"
  using assms by (auto simp: chown1_def Let_def admitted_def suser_def and.assoc split: if_splits option.splits)

lemma chmod1_user:
  assumes "chmod1 ip mode c = (0, ip', c')" and "u_uid c \<noteq> 0"
  shows "i_uid ip = u_uid c \<and> i_mode ip' = (i_mode ip AND NOT 0xFFF) OR (mode AND 0xFFF)
    \<and> (mode AND ISGID \<noteq> 0 \<longrightarrow> groupmember (i_gid ip) c) \<and> i_uid ip' = i_uid ip \<and> i_gid ip' = i_gid ip"
  using assms by (auto simp: chmod1_def admitted_def suser_def split: if_splits)

text \<open>\<open>getgroups\<close> returns what \<open>setgroups\<close> set.\<close>

lemma ngroups_append: "NOGROUP \<notin> set gs \<Longrightarrow> length gs \<le> n \<Longrightarrow> ngroups n (gs @ replicate k NOGROUP) = length gs" if "n \<le> length gs + k"
  using that
proof (induction n)
  case (Suc n)
  show ?case
  proof (cases "length gs \<le> n")
    case True
    then show ?thesis using Suc by (simp add: nth_append)
  next
    case False
    then have l: "length gs = Suc n" using Suc.prems by simp
    then have "gs ! n \<in> set gs" by (intro nth_mem) simp
    then have "gs ! n \<noteq> NOGROUP" using Suc.prems(1) by metis
    then show ?thesis using l by (simp add: nth_append)
  qed
qed simp

lemma setgroups_getgroups:
  assumes "u_uid c = 0" and "length gs \<le> NGROUPS" and "NOGROUP \<notin> set gs"
  shows "getgroups 0 (length gs) (setgroups (length gs) (Inr gs) c) = (Some gs, (setgroups (length gs) (Inr gs) c)\<lparr>u_error := 0, u_rval := int (length gs)\<rparr>)"
  using assms ngroups_append[of NGROUPS gs "NGROUPS - length gs"]
  by (auto simp: getgroups_def setgroups_def suser_def Let_def list_ex_iff)

text \<open>\<open>setuid\<close> of a process with effective id 0 sets all three ids: no copy of 0 is left to return to.\<close>

lemma setuid_drops_all: "u_uid c = 0 \<Longrightarrow> setuid x c s = (c', s')
  \<Longrightarrow> u_uid c' = x \<and> u_svuid c' = x \<and> u_ruid (self s') = x \<and> p_uid (self s') = x"
  by (auto simp: setuid_def admitted_def suser_def upd_def split: if_splits)

section \<open>Sequences of credential calls\<close>

datatype cred_op =
  Setuid nat
| Seteuid nat
| Setgid nat
| Setegid nat
| Setgroups nat "int + nat list"
| Setpgrp int int
| Execve perms

fun cred_run :: "cred_op \<Rightarrow> cred \<Rightarrow> sys \<Rightarrow> (cred \<times> sys) res" where
  "cred_run (Setuid r) c s = Inr (setuid r c s)"
| "cred_run (Seteuid r) c s = Inr (seteuid r c s)"
| "cred_run (Setgid r) c s = Inr (setgid r c, s)"
| "cred_run (Setegid r) c s = Inr (setegid r c, s)"
| "cred_run (Setgroups n i) c s = Inr (setgroups n i c, s)"
| "cred_run (Setpgrp pid pgrp) c s = setpgrp pid pgrp c s"
| "cred_run (Execve ip) c s = exec_cred (exec_ids ip c) c s"

inductive cred_step :: "perms set \<Rightarrow> cred \<times> sys \<Rightarrow> cred \<times> sys \<Rightarrow> bool" for progs where
  cred_step: "cred_run p c s = Inr (c', s') \<Longrightarrow> (\<And>ip. p = Execve ip \<Longrightarrow> ip \<in> progs) \<Longrightarrow> cred_step progs (c, s) (c', s')"

text \<open>The owners and groups that set-id programs lend.\<close>

definition lent_uids :: "perms set \<Rightarrow> nat set" where
  "lent_uids progs = {i_uid ip |ip. ip \<in> progs \<and> \<not> fs_nosuid ip \<and> i_mode ip AND ISUID \<noteq> 0}"

definition lent_gids :: "perms set \<Rightarrow> nat set" where
  "lent_gids progs = {i_gid ip |ip. ip \<in> progs \<and> \<not> fs_nosuid ip \<and> i_mode ip AND ISGID \<noteq> 0}"

definition uids :: "cred \<Rightarrow> sys \<Rightarrow> nat set" where
  "uids c s = {u_uid c, u_svuid c, u_ruid (self s)}"

definition gids :: "cred \<Rightarrow> nat set" where
  "gids c = {u_groups c ! 0, u_svgid c, u_rgid c}"

definition within :: "nat set \<Rightarrow> nat set \<Rightarrow> nat list \<Rightarrow> cred \<times> sys \<Rightarrow> bool" where
  "within U G gs cs \<longleftrightarrow> (case cs of (c, s) \<Rightarrow> uids c s \<subseteq> U \<and> gids c \<subseteq> G \<and> u_groups c \<noteq> [] \<and> tl (u_groups c) = gs
     \<and> p_uid (self s) = u_uid c \<and> p_stat (self s) = SRUN)"

lemma withinD:
  assumes "within U G gs (c, s)"
  shows "u_uid c \<in> U" "u_svuid c \<in> U" "u_ruid (self s) \<in> U" "u_groups c ! 0 \<in> G" "u_svgid c \<in> G" "u_rgid c \<in> G"
    "tl (u_groups c) = gs" "p_uid (self s) = u_uid c" "p_stat (self s) = SRUN" "u_groups c \<noteq> []"
  using assms by (auto simp: within_def uids_def gids_def)

lemma withinI:
  assumes "u_uid c \<in> U" "u_svuid c \<in> U" "u_ruid (self s) \<in> U" "u_groups c ! 0 \<in> G" "u_svgid c \<in> G" "u_rgid c \<in> G"
    "tl (u_groups c) = gs" "p_uid (self s) = u_uid c" "p_stat (self s) = SRUN" "u_groups c \<noteq> []"
  shows "within U G gs (c, s)"
  using assms by (auto simp: within_def uids_def gids_def)

lemma upd_self [simp]: "ptab (upd p f s) q = (if q = p then f (ptab s p) else ptab s q)" "u_procp (upd p f s) = u_procp s"
  by (simp_all add: upd_def)

lemma tl_update_0: "tl (gs[0 := g]) = tl gs"
  by (cases gs) simp_all

lemma psignal_running:
  assumes "p_stat (ptab s p) = SRUN"
  shows "\<exists>pr. psignal p sig s = Inr (upd p (\<lambda>_. pr) s) \<and> p_uid pr = p_uid (ptab s p) \<and> u_ruid pr = u_ruid (ptab s p)
    \<and> p_stat pr = SRUN"
proof -
  obtain b pr where p: "psignal_post (ptab s p) sig = (b, pr)" by fastforce
  then have pr: "p_uid pr = p_uid (ptab s p)" "u_ruid pr = u_ruid (ptab s p)" "p_stat pr = SRUN"
    using assms by (auto simp: psignal_post_def Let_def split: if_splits)
  have same: "s = upd p (\<lambda>_. ptab s p) s" by (simp add: upd_def)
  have "psignal p sig s = Inr s \<or> psignal p sig s = Inr (upd p (\<lambda>_. pr) s)"
    using p pr(3) unfolding psignal_def numeral_2_eq_2 psignal_depth.simps(2) Let_def by simp
  then show ?thesis using same pr assms by metis
qed

lemma within_cred: "within U G gs (c, s) \<Longrightarrow> within U G gs (c\<lparr>u_error := e\<rparr>, s)"
  by (auto simp: within_def uids_def gids_def)

lemma admitted_False: "admitted a c = (False, d) \<Longrightarrow> d = c\<lparr>u_error := EPERM\<rparr>"
  by (auto simp: admitted_def suser_def split: if_splits)

lemma admitted_True: "admitted a c = (True, d) \<Longrightarrow> u_uid c \<noteq> 0 \<Longrightarrow> a \<and> d = c"
  by (auto simp: admitted_def suser_def split: if_splits)

lemma cred_step_within:
  assumes "cred_run p c s = Inr (c', s')" and w: "within U G gs (c, s)" and "0 \<notin> U"
    and "\<And>ip. p = Execve ip \<Longrightarrow> lent_uids {ip} \<subseteq> U \<and> lent_gids {ip} \<subseteq> G"
  shows "within U G gs (c', s')"
proof -
  note d = withinD[OF w]
  have nz: "u_uid c \<noteq> 0" using d(1) assms(3) by metis
  note adm = admitted_True[OF _ nz]
  show ?thesis
  proof (cases p)
    case (Setuid r)
    obtain b e where a: "admitted (r = u_ruid (self s)) c = (b, e)" by fastforce
    show ?thesis
    proof (cases b)
      case True
      with a have "r = u_ruid (self s)" "e = c" by (auto dest: adm)
      then show ?thesis using assms(1) Setuid a True d by (auto simp: setuid_def intro!: withinI)
    next
      case False
      with a have "e = c\<lparr>u_error := EPERM\<rparr>" by (simp add: admitted_False)
      then show ?thesis using assms(1) Setuid a False within_cred[OF w] by (auto simp: setuid_def)
    qed
  next
    case (Seteuid r)
    obtain b e where a: "admitted (r = u_ruid (self s) \<or> r = u_svuid c) c = (b, e)" by fastforce
    show ?thesis
    proof (cases b)
      case True
      with a have "r = u_ruid (self s) \<or> r = u_svuid c" "e = c" by (auto dest: adm)
      then have "r \<in> U" using d by auto
      then show ?thesis using assms(1) Seteuid a True d \<open>e = c\<close> by (auto simp: seteuid_def intro!: withinI)
    next
      case False
      with a have "e = c\<lparr>u_error := EPERM\<rparr>" by (simp add: admitted_False)
      then show ?thesis using assms(1) Seteuid a False within_cred[OF w] by (auto simp: seteuid_def)
    qed
  next
    case (Setgid r)
    obtain b e where a: "admitted (r = u_rgid c) c = (b, e)" by fastforce
    have c': "c' = setgid r c" "s' = s" using assms(1) Setgid by auto
    show ?thesis
    proof (cases "r = NOGROUP \<or> \<not> b")
      case True
      then have "\<exists>x. c' = c\<lparr>u_error := x\<rparr>" using a admitted_False[of _ c e] c' by (cases b) (auto simp: setgid_def)
      then show ?thesis using within_cred[OF w] c' by auto
    next
      case False
      with a have "r = u_rgid c" "e = c" by (auto dest: adm)
      then show ?thesis using c' a False d by (auto simp: setgid_def tl_update_0 intro!: withinI)
    qed
  next
    case (Setegid r)
    obtain b e where a: "admitted (r = u_rgid c \<or> r = u_svgid c) c = (b, e)" by fastforce
    have c': "c' = setegid r c" "s' = s" using assms(1) Setegid by auto
    show ?thesis
    proof (cases "r = NOGROUP \<or> \<not> b")
      case True
      then have "\<exists>x. c' = c\<lparr>u_error := x\<rparr>" using a admitted_False[of _ c e] c' by (cases b) (auto simp: setegid_def)
      then show ?thesis using within_cred[OF w] c' by auto
    next
      case False
      with a have "r = u_rgid c \<or> r = u_svgid c" "e = c" by (auto dest: adm)
      then have "r \<in> G" using d by auto
      then show ?thesis using c' a False d \<open>e = c\<close> by (auto simp: setegid_def tl_update_0 intro!: withinI)
    qed
  next
    case (Setgroups n i)
    then show ?thesis using assms(1) nz within_cred[OF w] by (auto simp: setgroups_def suser_def)
  next
    case (Setpgrp pid pgrp)
    then have "s' = s \<and> (c' = c \<or> (\<exists>x. c' = c\<lparr>u_error := x\<rparr>)) \<or> c' = c \<and> (\<exists>q. s' = upd q (\<lambda>pr. pr\<lparr>p_pgrp := pgrp\<rparr>) s)"
      using assms(1) by (auto simp: setpgrp_def andthen_eq_Inr split: if_splits option.splits)
    then show ?thesis
    proof (elim disjE conjE exE)
      fix q assume "c' = c" "s' = upd q (\<lambda>pr. pr\<lparr>p_pgrp := pgrp\<rparr>) s"
      then show ?thesis using d by (auto intro!: withinI)
    qed (use w within_cred[OF w] in auto)
  next
    case (Execve ip)
    have lent: "fst (exec_ids ip c) \<in> U" "snd (exec_ids ip c) \<in> G"
      using d assms(4)[OF Execve] by (auto simp: exec_ids_def lent_uids_def lent_gids_def)
    show ?thesis
    proof (cases "P_TRACED \<in> p_flag (self s)")
      case False
      then show ?thesis
        using assms(1) Execve lent d by (auto simp: exec_cred_def Let_def tl_update_0 intro!: withinI)
    next
      case True
      obtain pr where "psignal (u_procp s) SIGTRAP s = Inr (upd (u_procp s) (\<lambda>_. pr) s)" "p_uid pr = p_uid (self s)"
        "u_ruid pr = u_ruid (self s)" "p_stat pr = SRUN" using psignal_running[OF d(9)] by blast
      then show ?thesis
        using assms(1) Execve True d by (auto simp: exec_cred_def Let_def intro!: withinI)
    qed
  qed
qed

lemma cred_steps_within:
  "(cred_step progs)\<^sup>*\<^sup>* x y \<Longrightarrow> within U G gs x \<Longrightarrow> 0 \<notin> U \<Longrightarrow> lent_uids progs \<subseteq> U \<Longrightarrow> lent_gids progs \<subseteq> G
     \<Longrightarrow> within U G gs y"
proof (induction rule: rtranclp_induct)
  case (step y z)
  from step(2) obtain p c s c' s' where z: "y = (c, s)" "z = (c', s')" "cred_run p c s = Inr (c', s')"
    "\<And>ip. p = Execve ip \<Longrightarrow> ip \<in> progs" by (auto elim: cred_step.cases)
  have "lent_uids {ip} \<subseteq> U \<and> lent_gids {ip} \<subseteq> G" if "p = Execve ip" for ip
    using z(4)[OF that] step.prems by (auto simp: lent_uids_def lent_gids_def)
  then show ?case
    using step.IH step.prems z(1,2) by (auto intro: cred_step_within[OF z(3)])
qed simp

text \<open>
  C17.  No escalation: whatever sequence of \<open>setuid\<close>, \<open>seteuid\<close>, \<open>setgid\<close>, \<open>setegid\<close>, \<open>setgroups\<close>, \<open>setpgrp\<close> and \<open>execve\<close> a process
  without the id 0 performs, its real, effective and saved user ids come from the ones it had and from
  the owners of the set-uid programs it may run (not owned by 0), likewise its group ids; the
  supplementary groups are untouched, and the copy of the effective id that other processes read agrees with it.
\<close>

theorem cred_no_escalation:
  assumes "(cred_step progs)\<^sup>*\<^sup>* (c, s) (c', s')" and "0 \<notin> uids c s" and "0 \<notin> lent_uids progs"
    and "p_uid (self s) = u_uid c" and "p_stat (self s) = SRUN" and "length (u_groups c) = NGROUPS"
  shows "uids c' s' \<subseteq> uids c s \<union> lent_uids progs \<and> gids c' \<subseteq> gids c \<union> lent_gids progs
    \<and> tl (u_groups c') = tl (u_groups c) \<and> p_uid (self s') = u_uid c'"
proof -
  let ?U = "uids c s \<union> lent_uids progs" and ?G = "gids c \<union> lent_gids progs"
  have "within ?U ?G (tl (u_groups c)) (c, s)" using assms(4-6) by (auto simp: within_def)
  then have "within ?U ?G (tl (u_groups c)) (c', s')"
    using assms(2,3) by (intro cred_steps_within[OF assms(1)]) auto
  then show ?thesis by (simp add: within_def)
qed

theorem cred_no_escalation_witness:
  "\<exists>c s c' s'. (cred_step {})\<^sup>*\<^sup>* (c, s) (c', s') \<and> u_uid c = 5 \<and> u_uid c' = 7 \<and> uids c' s' \<subseteq> {5, 7} \<and> p_uid (self s') = 7"
proof -
  define s :: sys where "s = undefined\<lparr>u_procp := 3, ptab := (\<lambda>_. undefined\<lparr>p_uid := 5, u_ruid := 7, p_stat := SRUN\<rparr>)\<rparr>"
  define c where "c = \<lparr>u_uid = 5, u_svuid = 5, u_svgid = 2, u_rgid = 2, u_groups = 2 # replicate 15 NOGROUP, u_error = 0, u_rval = 0\<rparr>"
  obtain c' s' where r: "cred_run (Seteuid 7) c s = Inr (c', s')" by (cases "seteuid 7 c s") auto
  then have step: "(cred_step {})\<^sup>*\<^sup>* (c, s) (c', s')" by (intro r_into_rtranclp cred_step.intros[of "Seteuid 7"]) auto
  have e: "u_uid c' = 7" using r by (auto simp: seteuid_def admitted_def s_def c_def)
  have "uids c' s' \<subseteq> uids c s \<union> lent_uids {} \<and> gids c' \<subseteq> gids c \<union> lent_gids {}
      \<and> tl (u_groups c') = tl (u_groups c) \<and> p_uid (self s') = u_uid c'"
    by (rule cred_no_escalation[OF step]) (simp_all add: uids_def lent_uids_def s_def c_def)
  moreover have "uids c s \<union> lent_uids {} = {5, 7}" by (auto simp: uids_def lent_uids_def s_def c_def)
  ultimately show ?thesis using step e by (intro exI[of _ c] exI[of _ s] exI[of _ c'] exI[of _ s']) (simp add: c_def)
qed

end
