(* ===== verification/Ufs_Alloc.thy ===== *)
theory Ufs_Alloc
  imports Prelude
begin

text \<open>
  Free blocks of a file system: \<open>balloc\<close> and \<open>free\<close> of \<open>sys/kern/ufs_alloc.c\<close>, \<open>badblock\<close> of
  \<open>sys/kern/ufs_subr.c\<close> and the superblock of \<open>sys/sys/fs.h\<close>.

  A block is a list of its 256 words; \<open>disk\<close> is the contents of every block as the buffer cache
  shows it, and \<open>sb_disk\<close> the superblock as it was last written.  \<open>rderr b\<close> says that reading block \<open>b\<close>
  fails.  A buffer from \<open>getblk\<close> whose contents the code does not set holds stale words, which are
  an argument.  A process that finds the free list locked sleeps and tries again; messages and the
  pause after a failure are left out.

  \<open>flist\<close> relates the superblock's array and the chain of link blocks to the list of the free blocks in
  the order in which they will be handed out.  The locale \<open>block_store\<close> is what the rest of the file system
  relies on, and \<open>ufs_blocks\<close> its interpretation on \<open>balloc\<close> and \<open>free\<close>.
\<close>

section \<open>Data\<close>

abbreviation NICFREE :: nat where "NICFREE \<equiv> 200"
abbreviation NICINOD :: nat where "NICINOD \<equiv> 32"
abbreviation NINDIR :: nat where "NINDIR \<equiv> 256"
abbreviation INOPB :: nat where "INOPB \<equiv> 16"

definition itod :: "nat \<Rightarrow> nat" where
  "itod x = (x + INOPB - 1) div INOPB"

type_synonym daddr = int

record fs =
  fs_isize :: int
  fs_fsize :: int
  fs_nfree :: int
  fs_free :: "daddr list"
  fs_ninode :: nat
  fs_inode :: "nat list"
  fs_flock :: int
  fs_fmod :: int
  fs_ilock :: int
  fs_time :: int
  fs_tfree :: nat
  fs_tinode :: nat
  fs_lasti :: nat
  fs_nbehind :: nat

record volume =
  sb :: fs
  sb_disk :: fs
  disk :: "daddr \<Rightarrow> int list"

definition badblock :: "fs \<Rightarrow> daddr \<Rightarrow> bool" where
  "badblock fp bn \<longleftrightarrow> bn < 0 \<or> bn < fs_isize fp \<or> bn \<ge> fs_fsize fp"

text \<open>A block read as a \<open>struct fblk\<close>, and one written as such.\<close>

definition df_nfree :: "int list \<Rightarrow> int" where
  "df_nfree w = w ! 0"

definition df_free :: "int list \<Rightarrow> daddr list" where
  "df_free w = take NICFREE (drop 1 w)"

definition fblk_write :: "int \<Rightarrow> daddr list \<Rightarrow> int list \<Rightarrow> int list" where
  "fblk_write n fr stale = n # fr @ drop (NICFREE + 1) stale"

section \<open>Operations\<close>

text \<open>The first loop of \<open>balloc\<close>: the next address in range, or \<open>None\<close> for \<open>goto nospace\<close>.\<close>

function balloc_pop :: "fs \<Rightarrow> daddr option \<times> fs" where
  "balloc_pop f =
     (if fs_nfree f \<le> 0 then (None, f)
      else if fs_nfree f > int NICFREE then (None, f)
      else
        let n = fs_nfree f - 1; bno = fs_free f ! nat n; f1 = f\<lparr>fs_nfree := n\<rparr>
        in if bno = 0 then (None, f1) else if badblock f1 bno then balloc_pop f1 else (Some bno, f1))"
  by pat_completeness auto
termination
  by (relation "measure (\<lambda>f. nat (fs_nfree f))") auto

declare balloc_pop.simps [simp del]

text \<open>Reading the next part of the free list from the link block, and writing the superblock back.\<close>

definition balloc_refill :: "(daddr \<Rightarrow> bool) \<Rightarrow> int \<Rightarrow> daddr \<Rightarrow> volume \<Rightarrow> volume" where
  "balloc_refill rderr now bno v =
     (let f1 = (sb v)\<lparr>fs_flock := fs_flock (sb v) + 1\<rparr>;
          f2 = (if rderr bno then f1
                else f1\<lparr>fs_nfree := df_nfree (disk v bno), fs_free := df_free (disk v bno)\<rparr>)
      in v\<lparr>sb_disk := f2\<lparr>fs_fmod := 0, fs_time := now\<rparr>, sb := f2\<lparr>fs_flock := 0\<rparr>\<rparr>)"

datatype alloc_result = Asleep | ENOSPC | Block daddr

definition balloc_nospace :: "volume \<Rightarrow> alloc_result \<times> volume" where
  "balloc_nospace v = (ENOSPC, v\<lparr>sb := (sb v)\<lparr>fs_nfree := 0, fs_tfree := 0, fs_fmod := 1\<rparr>\<rparr>)"

definition balloc :: "(daddr \<Rightarrow> bool) \<Rightarrow> int \<Rightarrow> bool \<Rightarrow> int list \<Rightarrow> volume \<Rightarrow> alloc_result \<times> volume" where
  "balloc rderr now clrbuf stale v =
     (if fs_flock (sb v) \<noteq> 0 then (Asleep, v)
      else
        case balloc_pop (sb v) of
          (None, f) \<Rightarrow> balloc_nospace (v\<lparr>sb := f\<rparr>)
        | (Some bno, f) \<Rightarrow>
            let v1 = v\<lparr>sb := f\<rparr>;
                v2 = (if fs_nfree f \<le> 0 then balloc_refill rderr now bno v1 else v1)
            in if fs_nfree f \<le> 0 \<and> fs_nfree (sb v2) \<le> 0 then balloc_nospace v2
               else (Block bno, v2\<lparr>disk := (disk v2)(bno := (if clrbuf then replicate NINDIR 0 else stale)),
                                   sb := (sb v2)\<lparr>fs_fmod := 1, fs_tfree := u32 (fs_tfree (sb v2) + 4294967295)\<rparr>\<rparr>))"

text \<open>\<open>None\<close> when the caller has to sleep first.\<close>

definition free :: "int list \<Rightarrow> daddr \<Rightarrow> volume \<Rightarrow> volume option" where
  "free stale bno v =
     (if badblock (sb v) bno then Some v
      else if fs_flock (sb v) \<noteq> 0 then None
      else
        let f1 = (if fs_nfree (sb v) \<le> 0 then (sb v)\<lparr>fs_nfree := 1, fs_free := (fs_free (sb v))[0 := 0]\<rparr> else sb v);
            (d, f2) = (if fs_nfree f1 \<ge> int NICFREE
                       then ((disk v)(bno := fblk_write (fs_nfree f1) (fs_free f1) stale), f1\<lparr>fs_nfree := 0, fs_flock := 0\<rparr>)
                       else (disk v, f1));
            n = fs_nfree f2
        in Some (v\<lparr>disk := d, sb := f2\<lparr>fs_free := (fs_free f2)[nat n := bno], fs_nfree := n + 1,
                                       fs_tfree := u32 (fs_tfree f2 + 1), fs_fmod := 1\<rparr>\<rparr>))"

section \<open>The free list\<close>

definition in_range :: "fs \<Rightarrow> daddr \<Rightarrow> bool" where
  "in_range f b \<longleftrightarrow> 0 < b \<and> fs_isize f \<le> b \<and> b < fs_fsize f"

text \<open>The addresses above the first, in the order in which they are taken.\<close>

definition upper :: "int \<Rightarrow> daddr list \<Rightarrow> daddr list" where
  "upper n fr = rev (take (nat n - 1) (drop 1 fr))"

inductive flist :: "(daddr \<Rightarrow> bool) \<Rightarrow> (daddr \<Rightarrow> int list) \<Rightarrow> int \<Rightarrow> daddr list \<Rightarrow> daddr list \<Rightarrow> bool" for ok d where
  Empty: "n \<le> 0 \<Longrightarrow> flist ok d n fr []"
| Last: "1 \<le> n \<Longrightarrow> n \<le> int NICFREE \<Longrightarrow> fr ! 0 = 0 \<Longrightarrow> (\<forall>b\<in>set (upper n fr). ok b) \<Longrightarrow> flist ok d n fr (upper n fr)"
| Link: "1 \<le> n \<Longrightarrow> n \<le> int NICFREE \<Longrightarrow> fr ! 0 = l \<Longrightarrow> ok l \<Longrightarrow> (\<forall>b\<in>set (upper n fr). ok b)
           \<Longrightarrow> length (df_free (d l)) = NICFREE \<Longrightarrow> 1 \<le> df_nfree (d l) \<Longrightarrow> flist ok d (df_nfree (d l)) (df_free (d l)) xs
           \<Longrightarrow> flist ok d n fr (upper n fr @ l # xs)"

inductive_cases flistE: "flist ok d n fr xs"

definition vol_ok :: "volume \<Rightarrow> daddr list \<Rightarrow> bool" where
  "vol_ok v xs \<longleftrightarrow> fs_flock (sb v) = 0 \<and> length (fs_free (sb v)) = NICFREE \<and> fs_nfree (sb v) \<le> int NICFREE
     \<and> 0 \<le> fs_isize (sb v) \<and> fs_fsize (sb v) < 2 ^ 31 \<and> distinct xs \<and> fs_tfree (sb v) = length xs
     \<and> flist (in_range (sb v)) (disk v) (fs_nfree (sb v)) (fs_free (sb v)) xs"

lemma flist_ok: "flist ok d n fr xs \<Longrightarrow> b \<in> set xs \<Longrightarrow> ok b"
  by (induction rule: flist.induct) auto

lemma flist_frame: "flist ok d n fr xs \<Longrightarrow> (\<And>b. b \<in> set xs \<Longrightarrow> d' b = d b) \<Longrightarrow> flist ok d' n fr xs"
proof (induction rule: flist.induct)
  case (Link n fr l xs)
  then have "d' l = d l" "flist ok d' (df_nfree (d l)) (df_free (d l)) xs" by auto
  then show ?case using Link.hyps by (metis flist.Link)
qed (auto intro: flist.intros)

lemma flist_positive: "flist ok d n fr xs \<Longrightarrow> xs \<noteq> [] \<Longrightarrow> 1 \<le> n \<and> n \<le> int NICFREE"
  by (auto elim: flistE)

lemma upper_Suc:
  assumes "2 \<le> n" and "n \<le> int (length fr)"
  shows "upper n fr = fr ! nat (n - 1) # upper (n - 1) fr"
proof -
  define m where "m = nat (n - 2)"
  have m: "nat n - 1 = Suc m" "nat (n - 1) - 1 = m" "nat (n - 1) = Suc m" "Suc m < length fr"
    using assms by (auto simp: m_def nat_diff_distrib)
  have "take (Suc m) (drop 1 fr) = take m (drop 1 fr) @ [fr ! Suc m]"
    using m(4) by (subst take_Suc_conv_app_nth) auto
  then show ?thesis unfolding upper_def m by simp
qed

lemma upper_1: "n \<le> 1 \<Longrightarrow> upper n fr = []"
  by (simp add: upper_def)

lemma flist_step:
  assumes "flist ok d n fr xs" and "2 \<le> n" and "n \<le> int (length fr)"
  shows "ok (fr ! nat (n - 1)) \<and> xs = fr ! nat (n - 1) # tl xs \<and> flist ok d (n - 1) fr (tl xs)"
proof -
  note u = upper_Suc[OF assms(2,3)]
  from assms(1) show ?thesis
  proof (cases rule: flist.cases)
    case Empty
    then show ?thesis using assms(2) by simp
  next
    case Last
    then have "flist ok d (n - 1) fr (upper (n - 1) fr)" using assms(2) u by (intro flist.Last) auto
    then show ?thesis using Last u by simp
  next
    case (Link l ys)
    then have "flist ok d (n - 1) fr (upper (n - 1) fr @ l # ys)" using assms(2) u by (intro flist.Link) auto
    then show ?thesis using Link u by simp
  qed
qed

lemma flist_1:
  assumes "flist ok d 1 fr xs"
  shows "xs = [] \<and> fr ! 0 = 0 \<or> (\<exists>ys. xs = fr ! 0 # ys \<and> ok (fr ! 0) \<and> length (df_free (d (fr ! 0))) = NICFREE
    \<and> 1 \<le> df_nfree (d (fr ! 0)) \<and> flist ok d (df_nfree (d (fr ! 0))) (df_free (d (fr ! 0))) ys)"
  using assms by (cases rule: flist.cases) (simp_all add: upper_1)

section \<open>Allocating\<close>

lemma badblock_in_range: "0 \<le> fs_isize f \<Longrightarrow> b \<noteq> 0 \<Longrightarrow> \<not> badblock f b \<longleftrightarrow> in_range f b"
  by (auto simp: badblock_def in_range_def)

lemma in_range_length:
  assumes "distinct xs" and "\<And>b. b \<in> set xs \<Longrightarrow> in_range f b" and "fs_fsize f < 2 ^ 31"
  shows "length xs < 2147483648"
proof -
  have "set xs \<subseteq> {0<..<2147483648}" using assms(2,3) by (fastforce simp: in_range_def)
  then have "card (set xs) \<le> card {0<..<2147483648 :: int}" by (intro card_mono) simp_all
  also have "card {0<..<2147483648 :: int} < 2147483648" by simp
  finally show ?thesis using distinct_card[OF assms(1)] by simp
qed

lemma vol_okD:
  assumes "vol_ok v xs"
  shows "fs_flock (sb v) = 0" "length (fs_free (sb v)) = NICFREE" "fs_nfree (sb v) \<le> int NICFREE" "0 \<le> fs_isize (sb v)"
    "distinct xs" "fs_tfree (sb v) = length xs" "length xs < 4294967296"
    "flist (in_range (sb v)) (disk v) (fs_nfree (sb v)) (fs_free (sb v)) xs" "fs_fsize (sb v) < 2 ^ 31"
  using assms in_range_length[of xs "sb v"] flist_ok[of "in_range (sb v)" "disk v" "fs_nfree (sb v)" "fs_free (sb v)" xs]
  by (fastforce simp: vol_ok_def)+

text \<open>What the first loop finds in a well-formed list.\<close>

lemma balloc_pop_cases:
  assumes "vol_ok v xs"
  shows "case xs of
      [] \<Rightarrow> fst (balloc_pop (sb v)) = None \<and> fs_nfree (snd (balloc_pop (sb v))) \<le> 0
        \<and> snd (balloc_pop (sb v)) = (sb v)\<lparr>fs_nfree := fs_nfree (snd (balloc_pop (sb v)))\<rparr>
    | b # ys \<Rightarrow> balloc_pop (sb v) = (Some b, (sb v)\<lparr>fs_nfree := fs_nfree (sb v) - 1\<rparr>)
        \<and> (if fs_nfree (sb v) \<le> 1
           then length (df_free (disk v b)) = NICFREE \<and> 1 \<le> df_nfree (disk v b)
             \<and> flist (in_range (sb v)) (disk v) (df_nfree (disk v b)) (df_free (disk v b)) ys
           else flist (in_range (sb v)) (disk v) (fs_nfree (sb v) - 1) (fs_free (sb v)) ys)"
proof -
  let ?f = "sb v" and ?n = "fs_nfree (sb v)" and ?fr = "fs_free (sb v)" and ?ok = "in_range (sb v)"
  note D = vol_okD[OF assms]
  have pop: "balloc_pop ?f = (Some b, ?f\<lparr>fs_nfree := ?n - 1\<rparr>)" if "?ok b" "?fr ! nat (?n - 1) = b" "1 \<le> ?n" for b
  proof -
    have "b \<noteq> 0" "\<not> badblock (?f\<lparr>fs_nfree := ?n - 1\<rparr>) b" using that(1) by (auto simp: in_range_def badblock_def)
    then show ?thesis using that D(3) by (subst balloc_pop.simps) (simp add: Let_def)
  qed
  consider "?n \<le> 0" | "?n = 1" | "2 \<le> ?n" by linarith
  then show ?thesis
  proof cases
    case 1
    then have "xs = []" using D(8) by (auto elim: flistE)
    then show ?thesis using 1 by (simp add: balloc_pop.simps[of ?f])
  next
    case 2
    show ?thesis
    proof (cases xs)
      case Nil
      have "?fr ! 0 = 0" using flist_1[OF D(8)[unfolded 2]] Nil by simp
      then have "balloc_pop ?f = (None, ?f\<lparr>fs_nfree := 0\<rparr>)" using 2 by (subst balloc_pop.simps) (simp add: Let_def)
      then show ?thesis using Nil by simp
    next
      case (Cons b ys)
      then have "?fr ! 0 = b" "?ok b" "length (df_free (disk v b)) = NICFREE" "1 \<le> df_nfree (disk v b)"
        "flist ?ok (disk v) (df_nfree (disk v b)) (df_free (disk v b)) ys"
        using flist_1[OF D(8)[unfolded 2]] by auto
      then show ?thesis using pop[of b] Cons 2 by simp
    qed
  next
    case 3
    define b where "b = ?fr ! nat (?n - 1)"
    have "?ok b" "xs = b # tl xs" "flist ?ok (disk v) (?n - 1) ?fr (tl xs)"
      using flist_step[OF D(8) 3] D(2,3) by (auto simp: b_def)
    moreover have "balloc_pop ?f = (Some b, ?f\<lparr>fs_nfree := ?n - 1\<rparr>)" using calculation(1) 3 by (intro pop) (simp_all add: b_def)
    moreover have "\<not> ?n \<le> 1" using 3 by simp
    moreover obtain ys where "xs = b # ys" using calculation(2) by blast
    ultimately show ?thesis by simp
  qed
qed

lemma vol_ok_cong:
  assumes "vol_ok v xs" and "sb v' = (sb v)\<lparr>fs_nfree := n, fs_free := fr, fs_tfree := length ys, fs_fmod := 1, fs_flock := 0\<rparr>"
    and "length fr = NICFREE" and "n \<le> int NICFREE" and "distinct ys"
    and "flist (in_range (sb v)) (disk v') n fr ys"
  shows "vol_ok v' ys"
proof -
  have "in_range (sb v') = in_range (sb v)" by (rule ext) (simp add: assms(2) in_range_def)
  then show ?thesis using assms vol_okD(4,9)[OF assms(1)] by (simp add: vol_ok_def)
qed

lemma balloc_full:
  assumes "vol_ok v []" and "balloc rderr now clrbuf stale v = (r, v')"
  shows "r = ENOSPC \<and> vol_ok v' [] \<and> disk v' = disk v"
proof -
  note D = vol_okD[OF assms(1)]
  obtain m where f: "balloc_pop (sb v) = (None, (sb v)\<lparr>fs_nfree := m\<rparr>)"
    using balloc_pop_cases[OF assms(1)] by (cases "balloc_pop (sb v)") auto
  have v': "r = ENOSPC" "v' = v\<lparr>sb := (sb v)\<lparr>fs_nfree := 0, fs_tfree := 0, fs_fmod := 1\<rparr>\<rparr>"
    using assms(2) f D(1) by (simp_all add: balloc_def balloc_nospace_def)
  then have "sb v' = (sb v)\<lparr>fs_nfree := 0, fs_free := fs_free (sb v), fs_tfree := length ([] :: daddr list), fs_fmod := 1, fs_flock := 0\<rparr>"
    using D(1) by (intro fs.equality) simp_all
  then have "vol_ok v' []"
    using D(2) by (rule vol_ok_cong[OF assms(1)]) (simp_all add: flist.Empty)
  then show ?thesis using v' by simp
qed

text \<open>Taking a block off a list that is not empty; link blocks can be read.\<close>

lemma balloc_takes:
  assumes ok: "vol_ok v (b # ys)" and rd: "\<not> rderr b" and run: "balloc rderr now clrbuf stale v = (r, v')"
  shows "r = Block b \<and> vol_ok v' ys \<and> disk v' = (disk v)(b := (if clrbuf then replicate NINDIR 0 else stale))"
proof -
  note D = vol_okD[OF ok]
  let ?n = "fs_nfree (sb v)" and ?new = "if clrbuf then replicate NINDIR 0 else stale"
  have c: "balloc_pop (sb v) = (Some b, (sb v)\<lparr>fs_nfree := ?n - 1\<rparr>)"
    "if ?n \<le> 1 then length (df_free (disk v b)) = NICFREE \<and> 1 \<le> df_nfree (disk v b)
       \<and> flist (in_range (sb v)) (disk v) (df_nfree (disk v b)) (df_free (disk v b)) ys
     else flist (in_range (sb v)) (disk v) (?n - 1) (fs_free (sb v)) ys"
    using balloc_pop_cases[OF ok] by simp_all
  have t: "u32 (length (b # ys) + 4294967295) = length ys"
  proof -
    have "length (b # ys) + 4294967295 = length ys + 4294967296" by simp
    then show ?thesis using D(7) by (simp add: u32_def)
  qed
  have frame: "flist (in_range (sb v)) ((disk v)(b := ?new)) n fr ys" if "flist (in_range (sb v)) (disk v) n fr ys" for n fr
    using D(5) by (intro flist_frame[OF that]) auto
  show ?thesis
  proof (cases "?n \<le> 1")
    case True
    let ?m = "df_nfree (disk v b)" and ?fr = "df_free (disk v b)"
    have l: "length ?fr = NICFREE" "1 \<le> ?m" "flist (in_range (sb v)) (disk v) ?m ?fr ys" using c(2) True by simp_all
    have r: "r = Block b" "disk v' = (disk v)(b := ?new)"
      "sb v' = (sb v)\<lparr>fs_nfree := ?m, fs_free := ?fr, fs_tfree := length ys, fs_fmod := 1, fs_flock := 0\<rparr>"
      using run c(1) True rd l(2) D(1,6) t
      by (auto simp: balloc_def Let_def balloc_refill_def intro!: fs.equality)
    have "?m \<le> int NICFREE \<or> ys = []" using flist_positive[OF l(3)] by blast
    moreover have "?m \<le> int NICFREE" using l(2,3) by (auto elim: flistE)
    ultimately have "vol_ok v' ys"
      using l frame[OF l(3)] D(5) r(2) by (intro vol_ok_cong[OF ok r(3)]) simp_all
    then show ?thesis using r by simp
  next
    case False
    have r: "r = Block b" "disk v' = (disk v)(b := ?new)"
      "sb v' = (sb v)\<lparr>fs_nfree := ?n - 1, fs_free := fs_free (sb v), fs_tfree := length ys, fs_fmod := 1, fs_flock := 0\<rparr>"
      using run c(1) False D(1,6) t by (auto simp: balloc_def Let_def intro!: fs.equality)
    then have "vol_ok v' ys"
      using c(2) False frame D(2,3,5) by (intro vol_ok_cong[OF ok r(3)]) simp_all
    then show ?thesis using r by simp
  qed
qed

section \<open>Freeing\<close>

lemma upper_push:
  assumes "1 \<le> n" and "n < int (length fr)"
  shows "upper (n + 1) (fr[nat n := b]) = b # upper n fr" "fr[nat n := b] ! 0 = fr ! 0"
proof -
  have n: "0 < nat n" "nat (n + 1) - 1 = nat n" "nat n < length fr" using assms by auto
  have "take (nat n) (drop 1 (fr[nat n := b])) = take (nat n - 1) (drop 1 fr) @ [b]"
  proof -
    have "take (nat n) (drop 1 (fr[nat n := b])) = take (nat n - 1) (drop 1 (fr[nat n := b])) @ [drop 1 (fr[nat n := b]) ! (nat n - 1)]"
      using n by (metis One_nat_def Suc_diff_1 Suc_less_eq diff_Suc_1 length_drop length_list_update less_diff_conv take_Suc_conv_app_nth Suc_pred add.commute plus_1_eq_Suc)
    moreover have "drop 1 (fr[nat n := b]) ! (nat n - 1) = b" using n by simp
    moreover have "take (nat n - 1) (drop 1 (fr[nat n := b])) = take (nat n - 1) (drop 1 fr)"
      using n by (intro nth_equalityI) auto
    ultimately show ?thesis by simp
  qed
  then show "upper (n + 1) (fr[nat n := b]) = b # upper n fr" by (simp only: upper_def n rev_append rev.simps) simp
  show "fr[nat n := b] ! 0 = fr ! 0" using n by simp
qed

lemma flist_push:
  assumes "flist ok d n fr xs" and "1 \<le> n" and "n < int NICFREE" and "length fr = NICFREE" and "ok b"
  shows "flist ok d (n + 1) (fr[nat n := b]) (b # xs)"
proof -
  have u: "upper (n + 1) (fr[nat n := b]) = b # upper n fr" "fr[nat n := b] ! 0 = fr ! 0"
    using upper_push[of n fr b] assms(2-4) by simp_all
  from assms(1) show ?thesis
  proof (cases rule: flist.cases)
    case Empty
    then show ?thesis using assms(2) by simp
  next
    case Last
    then show ?thesis using flist.Last[of "n + 1" "fr[nat n := b]" ok d] assms(2,3,5) u by auto
  next
    case (Link l ys)
    then show ?thesis using flist.Link[of "n + 1" "fr[nat n := b]" l ok d ys] assms(2,3,5) u by auto
  qed
qed

lemma fblk_read_write [simp]:
  "df_nfree (fblk_write n fr stale) = n" "length fr = NICFREE \<Longrightarrow> df_free (fblk_write n fr stale) = fr"
  by (simp_all add: df_nfree_def df_free_def fblk_write_def)

lemma free_puts:
  assumes ok: "vol_ok v xs" and b: "in_range (sb v) b" "b \<notin> set xs"
  shows "\<exists>v'. free stale b v = Some v' \<and> vol_ok v' (b # xs) \<and> (\<forall>c. c \<noteq> b \<longrightarrow> disk v' c = disk v c)"
proof -
  note D = vol_okD[OF ok]
  let ?n = "fs_nfree (sb v)" and ?fr = "fs_free (sb v)" and ?R = "in_range (sb v)"
  have nb: "\<not> badblock (sb v) b" using b(1) by (auto simp: in_range_def badblock_def)
  have "length (b # xs) < 2147483648" using D(5,9) b flist_ok[OF D(8)] by (intro in_range_length[of _ "sb v"]) auto
  then have t: "u32 (length xs + 1) = length (b # xs)" by simp
  have res: "\<exists>v'. free stale b v = Some v' \<and> vol_ok v' (b # xs) \<and> (\<forall>c. c \<noteq> b \<longrightarrow> disk v' c = disk v c)"
    if r: "free stale b v = Some v'" and s: "sb v' = (sb v)\<lparr>fs_nfree := m, fs_free := fr', fs_tfree := length (b # xs), fs_fmod := 1, fs_flock := 0\<rparr>"
      and "length fr' = NICFREE" "m \<le> int NICFREE" "flist ?R (disk v') m fr' (b # xs)" "\<forall>c. c \<noteq> b \<longrightarrow> disk v' c = disk v c"
    for v' m fr'
    using that D(5) b(2) by (intro exI[of _ v'] conjI vol_ok_cong[OF ok s]) simp_all
  consider "?n \<le> 0" | "1 \<le> ?n" "?n < int NICFREE" | "?n = int NICFREE" using D(3) by linarith
  then show ?thesis
  proof cases
    case 1
    then have xs: "xs = []" using D(8) by (auto elim: flistE)
    let ?fr' = "(?fr[0 := 0])[1 := b]"
    let ?v = "v\<lparr>sb := (sb v)\<lparr>fs_nfree := 1, fs_free := ?fr', fs_nfree := 2, fs_tfree := 1, fs_fmod := 1\<rparr>\<rparr>"
    have "free stale b v = Some ?v" using 1 nb D(1,6) xs by (simp add: free_def Let_def)
    moreover have "flist ?R (disk v) 1 (?fr[0 := 0]) (upper 1 (?fr[0 := 0]))" using D(2) by (intro flist.Last) (simp_all add: upper_1)
    then have "flist ?R (disk v) 2 ?fr' [b]" using flist_push[of ?R "disk v" 1 "?fr[0 := 0]" "[]" b] b(1) D(2) by (simp add: upper_1)
    ultimately show ?thesis
      using xs D(1,2) by (intro res[of ?v ?fr' 2]) (auto intro!: fs.equality)
  next
    case 2
    let ?v = "v\<lparr>disk := disk v, sb := (sb v)\<lparr>fs_free := ?fr[nat ?n := b], fs_nfree := ?n + 1, fs_tfree := length (b # xs), fs_fmod := 1\<rparr>\<rparr>"
    have "free stale b v = Some ?v" using 2 nb D(1,6) t by (simp add: free_def Let_def)
    moreover have "flist ?R (disk v) (?n + 1) (?fr[nat ?n := b]) (b # xs)" using flist_push[OF D(8) 2 D(2) b(1)] .
    ultimately show ?thesis
      using 2 D(1,2) by (intro res[of ?v "?fr[nat ?n := b]" "?n + 1"]) (auto intro!: fs.equality)
  next
    case 3
    let ?d = "(disk v)(b := fblk_write ?n ?fr stale)"
    let ?v = "v\<lparr>disk := ?d, sb := (sb v)\<lparr>fs_nfree := 0, fs_flock := 0, fs_free := ?fr[0 := b], fs_nfree := 1, fs_tfree := length (b # xs), fs_fmod := 1\<rparr>\<rparr>"
    have "free stale b v = Some ?v" using 3 nb D(1,6) t by (simp add: free_def Let_def)
    moreover have "flist ?R ?d ?n ?fr xs" using D(8) b(2) by (intro flist_frame[OF D(8)]) auto
    then have "flist ?R ?d 1 (?fr[0 := b]) (upper 1 (?fr[0 := b]) @ b # xs)"
      using 3 D(2) b(1) by (intro flist.Link) (simp_all add: upper_1)
    then have "flist ?R ?d 1 (?fr[0 := b]) (b # xs)" by (simp add: upper_1)
    ultimately show ?thesis
      using D(1,2) by (intro res[of ?v "?fr[0 := b]" 1]) (auto intro!: fs.equality)
  qed
qed

text \<open>What is written into a block that is in use does not concern the free list.\<close>

lemma vol_ok_write:
  assumes "vol_ok v xs" and "b \<notin> set xs"
  shows "vol_ok (v\<lparr>disk := (disk v)(b := w)\<rparr>) xs"
proof -
  have "flist (in_range (sb v)) ((disk v)(b := w)) (fs_nfree (sb v)) (fs_free (sb v)) xs"
    using assms(2) by (intro flist_frame[OF vol_okD(8)[OF assms(1)]]) auto
  then show ?thesis using assms(1) by (simp add: vol_ok_def)
qed

text \<open>When a link block cannot be read, the rest of the free list is given up; nothing is handed out.\<close>

lemma balloc_unreadable:
  assumes ok: "vol_ok v (b # ys)" and rd: "rderr b" and run: "balloc rderr now clrbuf stale v = (r, v')"
  shows "r = Block b \<and> vol_ok v' ys \<and> disk v' = (disk v)(b := (if clrbuf then replicate NINDIR 0 else stale))
    \<or> r = ENOSPC \<and> vol_ok v' [] \<and> disk v' = disk v"
proof (cases "fs_nfree (sb v) \<le> 1")
  case True
  note D = vol_okD[OF ok]
  have c: "balloc_pop (sb v) = (Some b, (sb v)\<lparr>fs_nfree := fs_nfree (sb v) - 1\<rparr>)"
    using balloc_pop_cases[OF ok] by simp
  have r: "r = ENOSPC" "sb v' = (sb v)\<lparr>fs_nfree := 0, fs_free := fs_free (sb v), fs_tfree := length ([] :: daddr list), fs_fmod := 1, fs_flock := 0\<rparr>"
    using run c True rd D(1) by (auto simp: balloc_def Let_def balloc_refill_def balloc_nospace_def intro!: fs.equality)
  have "vol_ok v' []" using D(2) by (intro vol_ok_cong[OF ok r(2)]) (simp_all add: flist.Empty)
  moreover have "disk v' = disk v"
    using run c True rd D(1) by (auto simp: balloc_def Let_def balloc_refill_def balloc_nospace_def)
  ultimately show ?thesis using r(1) by simp
next
  case False
  then have "balloc rderr now clrbuf stale v = balloc (\<lambda>_. False) now clrbuf stale v"
    using balloc_pop_cases[OF ok] by (simp add: balloc_def Let_def)
  then have "balloc (\<lambda>_. False) now clrbuf stale v = (r, v')" using run by simp
  then show ?thesis using balloc_takes[OF ok, of "\<lambda>_. False"] by blast
qed

lemma balloc_same_range:
  assumes "balloc rderr now clrbuf stale v = (r, v')"
  shows "in_range (sb v') = in_range (sb v)"
proof -
  have pop: "fs_isize (snd (balloc_pop f)) = fs_isize f \<and> fs_fsize (snd (balloc_pop f)) = fs_fsize f" for f
  proof (induction f rule: balloc_pop.induct)
    case (1 f)
    then show ?case by (subst (1 2) balloc_pop.simps) (auto simp: Let_def)
  qed
  have "fs_isize (sb v') = fs_isize (sb v) \<and> fs_fsize (sb v') = fs_fsize (sb v)"
    using assms pop[of "sb v"]
    by (auto simp: balloc_def Let_def balloc_nospace_def balloc_refill_def split: if_splits prod.splits option.splits)
  then show ?thesis by (simp add: in_range_def fun_eq_iff)
qed

lemma free_same_range: "free stale b v = Some v' \<Longrightarrow> in_range (sb v') = in_range (sb v)"
  by (auto simp: free_def Let_def in_range_def fun_eq_iff split: if_splits)

lemma balloc_summary:
  assumes "vol_ok v xs" and "balloc rderr now clrbuf stale v = (r, v')"
  shows "in_range (sb v') = in_range (sb v) \<and>
    (case r of
       Asleep \<Rightarrow> False
     | ENOSPC \<Rightarrow> vol_ok v' [] \<and> disk v' = disk v
     | Block b \<Rightarrow> \<exists>ys. xs = b # ys \<and> vol_ok v' ys \<and> disk v' = (disk v)(b := (if clrbuf then replicate NINDIR 0 else stale)))"
proof (cases xs)
  case Nil
  then show ?thesis using balloc_full[of v, OF _ assms(2)] balloc_same_range[OF assms(2)] assms(1) by simp
next
  case (Cons b ys)
  then show ?thesis
    using balloc_takes[of v b ys rderr, OF _ _ assms(2)] balloc_unreadable[of v b ys rderr, OF _ _ assms(2)] assms(1)
      balloc_same_range[OF assms(2)] by (cases "rderr b") auto
qed

section \<open>What the rest of the file system relies on\<close>

locale block_store =
  fixes holds :: "'s \<Rightarrow> 'b list \<Rightarrow> bool"
    and valid :: "'s \<Rightarrow> 'b \<Rightarrow> bool"
    and alloc :: "'a \<Rightarrow> 's \<Rightarrow> 'b option \<times> 's"
    and release :: "'a \<Rightarrow> 'b \<Rightarrow> 's \<Rightarrow> 's"
    and store :: "'b \<Rightarrow> 'c \<Rightarrow> 's \<Rightarrow> 's"
    and reliable :: "'a \<Rightarrow> bool"
  assumes holds_distinct: "holds s xs \<Longrightarrow> distinct xs"
    and holds_valid: "holds s xs \<Longrightarrow> b \<in> set xs \<Longrightarrow> valid s b"
    and alloc_empty: "holds s [] \<Longrightarrow> alloc a s = (r, s') \<Longrightarrow> r = None \<and> holds s' []"
    and alloc_cons: "holds s (b # xs) \<Longrightarrow> alloc a s = (r, s') \<Longrightarrow> r = Some b \<and> holds s' xs \<or> \<not> reliable a \<and> r = None \<and> holds s' []"
    and release_law: "holds s xs \<Longrightarrow> valid s b \<Longrightarrow> b \<notin> set xs \<Longrightarrow> holds (release a b s) (b # xs)"
    and store_law: "holds s xs \<Longrightarrow> b \<notin> set xs \<Longrightarrow> holds (store b w s) xs"
    and alloc_valid: "alloc a s = (r, s') \<Longrightarrow> valid s' = valid s"
    and release_valid: "valid (release a b s) = valid s"
    and store_valid: "valid (store b w s) = valid s"
begin

definition split_into :: "'s \<Rightarrow> 'b list \<Rightarrow> 'b set \<Rightarrow> bool" where
  "split_into s xs used \<longleftrightarrow> holds s xs \<and> set xs \<inter> used = {} \<and> (\<forall>b\<in>used. valid s b)"

lemma split_alloc:
  assumes "split_into s xs used" and "alloc a s = (r, s')"
  shows "\<exists>ys. split_into s' ys (used \<union> set_option r) \<and> set_option r \<inter> used = {} \<and> set ys \<union> set_option r \<subseteq> set xs
    \<and> (reliable a \<longrightarrow> set ys \<union> set_option r = set xs)"
proof (cases xs)
  case Nil
  then have "r = None" "holds s' []" using alloc_empty[of s a r s'] assms by (auto simp: split_into_def)
  then show ?thesis using Nil assms(1) alloc_valid[OF assms(2)] by (intro exI[of _ "[]"]) (auto simp: split_into_def)
next
  case (Cons b ys)
  then consider "r = Some b" "holds s' ys" | "\<not> reliable a" "r = None" "holds s' []"
    using alloc_cons[of s b ys a r s'] assms by (auto simp: split_into_def)
  then show ?thesis
  proof cases
    case 1
    have "b \<notin> set ys" "valid s b" using holds_distinct holds_valid assms(1) Cons by (fastforce simp: split_into_def)+
    then show ?thesis
      using 1 Cons assms(1) alloc_valid[OF assms(2)] by (intro exI[of _ ys]) (auto simp: split_into_def)
  next
    case 2
    then show ?thesis using assms(1) alloc_valid[OF assms(2)] by (intro exI[of _ "[]"]) (auto simp: split_into_def)
  qed
qed

lemma split_release:
  assumes "split_into s xs used" and "b \<in> used"
  shows "split_into (release a b s) (b # xs) (used - {b})"
  using assms release_law[of s xs b a] release_valid[of a b s] by (auto simp: split_into_def)

lemma split_store:
  assumes "split_into s xs used" and "b \<in> used"
  shows "split_into (store b w s) xs used"
  using assms store_law[of s xs b w] store_valid[of b w s] by (auto simp: split_into_def)

end

text \<open>
  \<open>balloc\<close> and \<open>free\<close> as such a store.  The argument of both is what the devices do: which reads fail, the
  time, the flag \<open>B_CLRBUF\<close> and the stale contents of the buffer.
\<close>

type_synonym io = "(daddr \<Rightarrow> bool) \<times> int \<times> bool \<times> int list"

definition blk_alloc :: "io \<Rightarrow> volume \<Rightarrow> daddr option \<times> volume" where
  "blk_alloc io v =
     (case io of (rderr, now, clrbuf, stale) \<Rightarrow>
        (case balloc rderr now clrbuf stale v of (Block b, v') \<Rightarrow> (Some b, v') | (_, v') \<Rightarrow> (None, v')))"

definition blk_release :: "io \<Rightarrow> daddr \<Rightarrow> volume \<Rightarrow> volume" where
  "blk_release io b v = (case io of (rderr, now, clrbuf, stale) \<Rightarrow> (case free stale b v of None \<Rightarrow> v | Some v' \<Rightarrow> v'))"

definition blk_write :: "daddr \<Rightarrow> int list \<Rightarrow> volume \<Rightarrow> volume" where
  "blk_write b w v = v\<lparr>disk := (disk v)(b := w)\<rparr>"

definition io_ok :: "io \<Rightarrow> bool" where
  "io_ok io \<longleftrightarrow> (\<forall>b. \<not> fst io b)"

interpretation ufs_blocks: block_store vol_ok "\<lambda>v. in_range (sb v)" blk_alloc blk_release blk_write io_ok
proof
  show "vol_ok v xs \<Longrightarrow> distinct xs" for v xs by (rule vol_okD(5))
  show "vol_ok v xs \<Longrightarrow> b \<in> set xs \<Longrightarrow> in_range (sb v) b" for v xs b using flist_ok[OF vol_okD(8)] by blast
  show "r = None \<and> vol_ok v' []" if "vol_ok v []" "blk_alloc io v = (r, v')" for v io r v'
    using that balloc_full[of v] by (cases io) (fastforce simp: blk_alloc_def split: prod.splits alloc_result.splits)
  show "r = Some b \<and> vol_ok v' xs \<or> \<not> io_ok io \<and> r = None \<and> vol_ok v' []"
    if "vol_ok v (b # xs)" "blk_alloc io v = (r, v')" for v b xs io r v'
  proof -
    obtain rderr now clrbuf stale where io: "io = (rderr, now, clrbuf, stale)" by (cases io)
    obtain r0 v0 where b: "balloc rderr now clrbuf stale v = (r0, v0)" by fastforce
    have "v' = v0" "r = (case r0 of Block b \<Rightarrow> Some b | _ \<Rightarrow> None)"
      using that(2) by (auto simp: blk_alloc_def io b split: alloc_result.splits)
    moreover have "r0 = Block b \<and> vol_ok v0 xs \<or> rderr b \<and> r0 = ENOSPC \<and> vol_ok v0 []"
      using balloc_takes[OF that(1) _ b] balloc_unreadable[OF that(1) _ b] by blast
    ultimately show ?thesis by (auto simp: io io_ok_def)
  qed
  show "vol_ok (blk_release io b v) (b # xs)" if "vol_ok v xs" "in_range (sb v) b" "b \<notin> set xs" for v xs b io
    using free_puts[OF that, of "snd (snd (snd io))"] by (cases io) (auto simp: blk_release_def)
  show "vol_ok (blk_write b w v) xs" if "vol_ok v xs" "b \<notin> set xs" for v xs b w
    using vol_ok_write[OF that] by (simp add: blk_write_def)
  show "in_range (sb v') = in_range (sb v)" if "blk_alloc io v = (r, v')" for io v r v'
    using that balloc_same_range by (cases io) (auto simp: blk_alloc_def split: prod.splits alloc_result.splits)
  show "in_range (sb (blk_release io b v)) = in_range (sb v)" for io b v
    using free_same_range by (cases io) (auto simp: blk_release_def split: option.split)
  show "in_range (sb (blk_write b w v)) = in_range (sb v)" for b w v by (simp add: blk_write_def)
qed

section \<open>Sequences of allocations\<close>

text \<open>
  The users of a volume: \<open>used\<close> are the blocks they were given and have not freed; they write what they like into
  those.  \<open>reliable\<close> says that no read of a link block fails.
\<close>

inductive blk_step :: "bool \<Rightarrow> volume \<times> daddr set \<Rightarrow> volume \<times> daddr set \<Rightarrow> bool" for reliable where
  Get: "blk_alloc io v = (r, v') \<Longrightarrow> reliable \<longrightarrow> io_ok io \<Longrightarrow> blk_step reliable (v, used) (v', used \<union> set_option r)"
| Put: "b \<in> used \<Longrightarrow> blk_step reliable (v, used) (blk_release io b v, used - {b})"
| Write: "b \<in> used \<Longrightarrow> blk_step reliable (v, used) (blk_write b w v, used)"

lemma blk_step_split:
  assumes "blk_step reliable x y" and "ufs_blocks.split_into (fst x) xs (snd x)"
  shows "\<exists>ys. ufs_blocks.split_into (fst y) ys (snd y) \<and> set ys \<union> snd y \<subseteq> set xs \<union> snd x
    \<and> (reliable \<longrightarrow> set ys \<union> snd y = set xs \<union> snd x)"
  using assms
proof cases
  case (Get io v r v' used)
  then obtain ys where "ufs_blocks.split_into v' ys (used \<union> set_option r)" "set ys \<union> set_option r \<subseteq> set xs"
    "io_ok io \<longrightarrow> set ys \<union> set_option r = set xs"
    using ufs_blocks.split_alloc[of v xs used io r v'] assms(2) by auto
  then show ?thesis using Get by auto
next
  case (Put b used v io)
  then have "ufs_blocks.split_into (blk_release io b v) (b # xs) (used - {b})" using ufs_blocks.split_release assms(2) by simp
  then show ?thesis using Put by (intro exI[of _ "b # xs"]) auto
next
  case (Write b used v w)
  then have "ufs_blocks.split_into (blk_write b w v) xs used" using ufs_blocks.split_store assms(2) by simp
  then show ?thesis using Write by auto
qed

lemma blk_steps_split:
  "(blk_step reliable)\<^sup>*\<^sup>* x y \<Longrightarrow> ufs_blocks.split_into (fst x) xs (snd x) \<Longrightarrow>
     \<exists>ys. ufs_blocks.split_into (fst y) ys (snd y) \<and> set ys \<union> snd y \<subseteq> set xs \<union> snd x
       \<and> (reliable \<longrightarrow> set ys \<union> snd y = set xs \<union> snd x)"
proof (induction rule: rtranclp_induct)
  case (step y z)
  then obtain ys where ys: "ufs_blocks.split_into (fst y) ys (snd y)" "set ys \<union> snd y \<subseteq> set xs \<union> snd x"
    "reliable \<longrightarrow> set ys \<union> snd y = set xs \<union> snd x" by blast
  show ?case using blk_step_split[OF step(2) ys(1)] ys(2,3) by (metis subset_trans)
qed auto

text \<open>
  C21.  The free list, kept in the superblock and a chain of link blocks, is a stack: \<open>balloc\<close> hands
  out the first block of the list and leaves the rest, changing no other block; it reports \<open>ENOSPC\<close> just
  when the list is empty; \<open>free\<close> puts a block in front, and the next \<open>balloc\<close> hands it out again.
  The counts in the superblock stay exact.
\<close>

theorem free_list_is_stack:
  assumes "vol_ok v xs" and "\<And>b. \<not> rderr b"
  shows "(\<exists>v'. balloc rderr now clrbuf stale v = (case xs of [] \<Rightarrow> ENOSPC | b # _ \<Rightarrow> Block b, v') \<and> vol_ok v' (tl xs)
      \<and> (\<forall>c. c \<notin> set xs \<longrightarrow> disk v' c = disk v c))
    \<and> (\<forall>b. in_range (sb v) b \<longrightarrow> b \<notin> set xs \<longrightarrow>
        (\<exists>v1. free stale b v = Some v1 \<and> vol_ok v1 (b # xs) \<and> (\<forall>c. c \<noteq> b \<longrightarrow> disk v1 c = disk v c)
          \<and> (\<exists>v2. balloc rderr now clrbuf stale v1 = (Block b, v2) \<and> vol_ok v2 xs)))"
proof (intro conjI allI impI)
  obtain r v' where r: "balloc rderr now clrbuf stale v = (r, v')" by fastforce
  show "\<exists>v'. balloc rderr now clrbuf stale v = (case xs of [] \<Rightarrow> ENOSPC | b # _ \<Rightarrow> Block b, v') \<and> vol_ok v' (tl xs)
      \<and> (\<forall>c. c \<notin> set xs \<longrightarrow> disk v' c = disk v c)"
  proof (cases xs)
    case Nil
    then show ?thesis using balloc_full[of v, OF _ r] assms(1) r by auto
  next
    case (Cons b ys)
    then show ?thesis using balloc_takes[of v b ys, OF _ assms(2) r] assms(1) r by auto
  qed
  fix b assume b: "in_range (sb v) b" "b \<notin> set xs"
  then obtain v1 where v1: "free stale b v = Some v1" "vol_ok v1 (b # xs)" "\<forall>c. c \<noteq> b \<longrightarrow> disk v1 c = disk v c"
    using free_puts[OF assms(1)] by blast
  moreover obtain r2 v2 where a: "balloc rderr now clrbuf stale v1 = (r2, v2)" by fastforce
  have "\<exists>v2. balloc rderr now clrbuf stale v1 = (Block b, v2) \<and> vol_ok v2 xs"
    using balloc_takes[of v1 b xs rderr, OF v1(2) assms(2) a] a by simp
  ultimately show "\<exists>v1. free stale b v = Some v1 \<and> vol_ok v1 (b # xs) \<and> (\<forall>c. c \<noteq> b \<longrightarrow> disk v1 c = disk v c)
      \<and> (\<exists>v2. balloc rderr now clrbuf stale v1 = (Block b, v2) \<and> vol_ok v2 xs)" by blast
qed

text \<open>A volume of ten blocks, two of them for inodes, with the blocks 7 and 5 free.\<close>

definition demo_volume :: volume where
  "demo_volume =
     (let f = \<lparr>fs_isize = 2, fs_fsize = 10, fs_nfree = 3, fs_free = [0, 5, 7] @ replicate 197 0, fs_ninode = 0, fs_inode = [],
               fs_flock = 0, fs_fmod = 0, fs_ilock = 0, fs_time = 0, fs_tfree = 2, fs_tinode = 0, fs_lasti = 1, fs_nbehind = 0\<rparr>
      in \<lparr>sb = f, sb_disk = f, disk = (\<lambda>_. replicate NINDIR 0)\<rparr>)"

lemma demo_volume_ok: "vol_ok demo_volume [7, 5]"
proof -
  let ?fr = "[0, 5, 7] @ replicate 197 (0 :: int)"
  have u: "upper 3 ?fr = [7, 5]" by (simp add: upper_def)
  have "flist (in_range (sb demo_volume)) (disk demo_volume) 3 ?fr (upper 3 ?fr)"
    by (rule flist.Last) (unfold u, simp_all add: in_range_def demo_volume_def Let_def)
  then show ?thesis unfolding u by (simp add: vol_ok_def demo_volume_def Let_def)
qed

theorem free_list_is_stack_witness:
  "\<exists>v' v2. balloc (\<lambda>_. False) 0 True [] demo_volume = (Block 7, v') \<and> vol_ok v' [5]
     \<and> free [] 9 demo_volume = Some v2 \<and> vol_ok v2 [9, 7, 5]"
proof -
  have r: "in_range (sb demo_volume) 9" by (simp add: in_range_def demo_volume_def Let_def)
  have "\<exists>v'. balloc (\<lambda>_. False) 0 True [] demo_volume = (Block 7, v') \<and> vol_ok v' [5]"
    using free_list_is_stack[OF demo_volume_ok, of "\<lambda>_. False" 0 True "[]"] by auto
  moreover have "\<exists>v2. free [] 9 demo_volume = Some v2 \<and> vol_ok v2 [9, 7, 5]"
    using free_list_is_stack[OF demo_volume_ok, of "\<lambda>_. False" 0 True "[]"] r by auto
  ultimately show ?thesis by blast
qed

text \<open>
  C13.  No block is ever in two places: along any sequence of allocations, frees and writes into blocks in use,
  whichever reads fail, the blocks in use and the blocks on the free list stay disjoint, so \<open>balloc\<close> never
  hands out a block that is in use, and no address from outside appears; while no read fails none is lost.
\<close>

theorem blocks_never_shared:
  assumes "(blk_step reliable)\<^sup>*\<^sup>* (v, used) (v', used')" and "vol_ok v xs" and "set xs \<inter> used = {}"
    and "\<And>b. b \<in> used \<Longrightarrow> in_range (sb v) b"
  shows "\<exists>ys. vol_ok v' ys \<and> set ys \<inter> used' = {} \<and> set ys \<union> used' \<subseteq> set xs \<union> used
    \<and> (reliable \<longrightarrow> set ys \<union> used' = set xs \<union> used)
    \<and> (\<forall>rderr now clrbuf stale b v''. balloc rderr now clrbuf stale v' = (Block b, v'') \<longrightarrow> b \<notin> used')"
proof -
  have "ufs_blocks.split_into v xs used" using assms(2-4) by (simp add: ufs_blocks.split_into_def)
  then obtain ys where ys: "ufs_blocks.split_into v' ys used'" "set ys \<union> used' \<subseteq> set xs \<union> used"
    "reliable \<longrightarrow> set ys \<union> used' = set xs \<union> used"
    using blk_steps_split[OF assms(1), of xs] by auto
  have "b \<notin> used'" if "balloc rderr now clrbuf stale v' = (Block b, v'')" for rderr now clrbuf stale b v''
    using ufs_blocks.split_alloc[OF ys(1), of "(rderr, now, clrbuf, stale)" "Some b" v''] that by (auto simp: blk_alloc_def)
  then show ?thesis using ys by (auto simp: ufs_blocks.split_into_def)
qed

theorem blocks_never_shared_witness:
  "\<exists>v'. (blk_step True)\<^sup>*\<^sup>* (demo_volume, {}) (v', {7}) \<and> (\<exists>ys. vol_ok v' ys \<and> set ys \<union> {7} = {5, 7})"
proof -
  have "vol_ok demo_volume (7 # [5])" using demo_volume_ok by simp
  then obtain v' where a: "balloc (\<lambda>_. False) 0 True [] demo_volume = (Block 7, v')"
    using balloc_takes[of demo_volume 7 "[5]" "\<lambda>_. False" 0 True "[]"] by (cases "balloc (\<lambda>_. False) 0 True [] demo_volume") auto
  then have "blk_step True (demo_volume, {}) (v', {} \<union> set_option (Some 7))"
    by (intro blk_step.Get[of "(\<lambda>_. False, 0, True, [])"]) (simp_all add: blk_alloc_def io_ok_def)
  then have s: "(blk_step True)\<^sup>*\<^sup>* (demo_volume, {}) (v', {7})" by auto
  from blocks_never_shared[OF this demo_volume_ok] show ?thesis using s by auto
qed

end
