(* ===== verification/Ufs_Bmap.thy ===== *)
theory Ufs_Bmap
  imports Ufs_Alloc
begin

text \<open>
  Where the blocks of a file are: \<open>bmap\<close> of \<open>sys/kern/ufs_bmap.c\<close>.

  The addresses of an inode are four direct blocks and three trees of indirect blocks, one, two and
  three levels deep.  \<open>benv\<close> says what the devices do: which reads fail and the error number in the buffer then,
  the error a synchronous write of a block reports, the time, the stale contents of a fresh buffer, whether the file
  system is mounted asynchronously, and the \<open>u_error\<close> of the process on entry, which \<open>biowait\<close> does not
  overwrite.  Of a failed write of the superblock inside \<open>balloc\<close>, which the code does not look at, only the
  absence of an effect on the free list is modelled, not the \<open>u_error\<close> it leaves.  The order in which a new block and the block that points to it are written concerns crashes,
  which are not modelled; a failed write is.

  A place in the file is a path: a slot of the inode and the indices below it.  \<open>ptr\<close> is the address at a path,
  0 for a hole, and \<open>tree_ok\<close> says that no two places hold the same address and none holds a free block.
\<close>

section \<open>Model\<close>

abbreviation NADDR :: nat where "NADDR \<equiv> 7"
abbreviation EIO :: int where "EIO \<equiv> 5"
abbreviation EFBIG :: int where "EFBIG \<equiv> 27"
abbreviation no_space :: int where "no_space \<equiv> 28"  \<comment> \<open>\<open>ENOSPC\<close> as an error number\<close>

record finode =
  i_addr :: "daddr list"
  i_changed :: bool

record benv =
  rderr :: "daddr \<Rightarrow> bool"
  werr :: "daddr \<Rightarrow> int"
  now :: int
  stale :: "int list"
  mnt_async :: bool
  b_error :: "daddr \<Rightarrow> int"
  u_err :: int

text \<open>What \<open>biowait\<close> leaves in \<open>u_error\<close> after a failed read: an error set before, or that of \<open>geterror\<close>.\<close>

definition geterror :: "benv \<Rightarrow> daddr \<Rightarrow> int" where
  "geterror e b = (if b_error e b = 0 then EIO else b_error e b)"

definition biowait_error :: "benv \<Rightarrow> daddr \<Rightarrow> int" where
  "biowait_error e b = (if u_err e = 0 then geterror e b else u_err e)"

lemma biowait_error_nonzero: "biowait_error e b \<noteq> 0"
  by (simp add: biowait_error_def geterror_def)

datatype new_result = New daddr | Full | Failed int | Waits

text \<open>A new block, written out before anything points to it; the label \<open>write_failed\<close> frees it again.\<close>

definition bmap_new :: "benv \<Rightarrow> bool \<Rightarrow> bool \<Rightarrow> volume \<Rightarrow> new_result \<times> volume" where
  "bmap_new e clrbuf sync v =
     (case balloc (rderr e) (now e) clrbuf (stale e) v of
        (Asleep, v) \<Rightarrow> (Waits, v)
      | (ENOSPC, v) \<Rightarrow> (Full, v)
      | (Block nb, v) \<Rightarrow>
          if sync \<and> werr e nb \<noteq> 0
          then (case free (stale e) nb v of None \<Rightarrow> (Waits, v) | Some v \<Rightarrow> (Failed (werr e nb), v))
          else (New nb, v))"

text \<open>How many levels of indirection: \<open>j\<close> counts down from 3.\<close>

primrec bmap_level :: "nat \<Rightarrow> int \<Rightarrow> int \<Rightarrow> int \<Rightarrow> nat \<times> int \<times> int" where
  "bmap_level 0 sh nb bn = (0, sh, bn)"
| "bmap_level (Suc j) sh nb bn =
     (let sh = sh + 8; nb = nb * 256 in if bn < nb then (Suc j, sh, bn) else bmap_level j sh nb (bn - nb))"

text \<open>The walk through the indirect blocks; \<open>k\<close> is the number of levels left.  Yields the value, the block to
  read ahead, the error and the volume; \<open>None\<close> while the process waits for the free list.\<close>

primrec bmap_walk :: "benv \<Rightarrow> bool \<Rightarrow> bool \<Rightarrow> nat \<Rightarrow> int \<Rightarrow> int \<Rightarrow> daddr \<Rightarrow> int \<Rightarrow> volume \<Rightarrow> (int \<times> int \<times> int \<times> volume) option" where
  "bmap_walk e rd sync 0 sh bn nb ra v = Some (nb, ra, 0, v)"
| "bmap_walk e rd sync (Suc k) sh bn nb ra v =
     (if rderr e nb then Some (0, 0, biowait_error e nb, v)
      else
        let bap = disk v nb;
            sh = sh - 8;
            i = nat (bn div 2 ^ nat sh mod 256);
            ra = (if i < NINDIR - 1 then bap ! (i + 1) else ra)
        in if bap ! i \<noteq> 0 then bmap_walk e rd sync k sh bn (bap ! i) ra v
           else if rd then Some (-1, 0, 0, v)
           else
             case bmap_new e True (\<not> (mnt_async e \<and> \<not> sync) \<and> (0 < k \<or> sync)) v of
               (Waits, _) \<Rightarrow> None
             | (Full, v) \<Rightarrow> Some (-1, 0, no_space, v)
             | (Failed error, v) \<Rightarrow> Some (-1, 0, error, v)
             | (New b, v) \<Rightarrow> bmap_walk e rd sync k sh bn b ra (v\<lparr>disk := (disk v)(nb := bap[i := b])\<rparr>))"

text \<open>Yields the value, \<open>rablock\<close>, the error (0 when there is none), the inode and the volume.\<close>

definition bmap :: "benv \<Rightarrow> bool \<Rightarrow> bool \<Rightarrow> bool \<Rightarrow> int \<Rightarrow> int \<Rightarrow> finode \<Rightarrow> volume \<Rightarrow> (int \<times> int \<times> int \<times> finode \<times> volume) option" where
  "bmap e rd clrbuf sync rablock bn ip v =
     (if bn < 0 then Some (0, rablock, EFBIG, ip, v)
      else if bn < int NADDR - 3 then
        (let i = nat bn; ahead = (\<lambda>ip. if i < NADDR - 4 then i_addr ip ! (i + 1) else 0) in
         if i_addr ip ! i \<noteq> 0 then Some (i_addr ip ! i, ahead ip, 0, ip, v)
         else if rd then Some (-1, 0, 0, ip, v)
         else
           case bmap_new e clrbuf sync v of
             (Waits, _) \<Rightarrow> None
           | (Full, v) \<Rightarrow> Some (-1, 0, no_space, ip, v)
           | (Failed error, v) \<Rightarrow> Some (-1, 0, error, ip, v)
           | (New nb, v) \<Rightarrow>
               let ip = ip\<lparr>i_addr := (i_addr ip)[i := nb], i_changed := True\<rparr> in Some (nb, ahead ip, 0, ip, v))
      else
        case bmap_level 3 0 1 (bn - (int NADDR - 3)) of
          (j, sh, bn) \<Rightarrow>
            if j = 0 then Some (0, 0, EFBIG, ip, v)
            else
              let walk = (\<lambda>nb ip v. map_option (\<lambda>(r, ra, err, v). (r, ra, err, ip, v)) (bmap_walk e rd sync (4 - j) sh bn nb 0 v)) in
              if i_addr ip ! (NADDR - j) \<noteq> 0 then walk (i_addr ip ! (NADDR - j)) ip v
              else if rd then Some (-1, 0, 0, ip, v)
              else
                case bmap_new e True (\<not> (mnt_async e \<and> \<not> sync)) v of
                  (Waits, _) \<Rightarrow> None
                | (Full, v) \<Rightarrow> Some (-1, 0, no_space, ip, v)
                | (Failed error, v) \<Rightarrow> Some (-1, 0, error, ip, v)
                | (New nb, v) \<Rightarrow> walk nb (ip\<lparr>i_addr := (i_addr ip)[NADDR - j := nb], i_changed := True\<rparr>) v)"

section \<open>Places in a file\<close>

type_synonym path = "nat \<times> nat list"

definition depth :: "nat \<Rightarrow> nat" where
  "depth r = r - 3"

definition valid :: "path \<Rightarrow> bool" where
  "valid p \<longleftrightarrow> fst p < NADDR \<and> length (snd p) \<le> depth (fst p) \<and> (\<forall>i\<in>set (snd p). i < NINDIR)"

fun look :: "(daddr \<Rightarrow> int list) \<Rightarrow> daddr \<Rightarrow> nat list \<Rightarrow> daddr" where
  "look d p [] = p"
| "look d p (i # is) = (if p = 0 then 0 else look d (d p ! i) is)"

definition ptr :: "daddr list \<Rightarrow> (daddr \<Rightarrow> int list) \<Rightarrow> path \<Rightarrow> daddr" where
  "ptr a d p = look d (a ! fst p) (snd p)"

lemma look_0 [simp]: "look d 0 is = 0"
  by (cases "is") simp_all

lemma look_append: "look d p (is @ js) = look d (look d p is) js"
  by (induction "is" arbitrary: p) auto

lemma ptr_snoc: "ptr a d (r, is @ [i]) = (if ptr a d (r, is) = 0 then 0 else d (ptr a d (r, is)) ! i)"
  by (simp add: ptr_def look_append)

lemma ptr_append: "ptr a d (r, is @ js) = look d (ptr a d (r, is)) js"
  by (simp add: ptr_def look_append)

lemma valid_snoc: "valid (r, is @ [i]) \<longleftrightarrow> valid (r, is) \<and> length is < depth r \<and> i < NINDIR"
  by (auto simp: valid_def)

definition tree_ok :: "fs \<Rightarrow> daddr list \<Rightarrow> (daddr \<Rightarrow> int list) \<Rightarrow> daddr set \<Rightarrow> bool" where
  "tree_ok f a d fr \<longleftrightarrow> length a = NADDR
     \<and> (\<forall>p. valid p \<longrightarrow> ptr a d p \<noteq> 0 \<longrightarrow> in_range f (ptr a d p) \<and> ptr a d p \<notin> fr
          \<and> (length (snd p) < depth (fst p) \<longrightarrow> length (d (ptr a d p)) = NINDIR))
     \<and> (\<forall>p q. valid p \<longrightarrow> valid q \<longrightarrow> ptr a d p \<noteq> 0 \<longrightarrow> ptr a d p = ptr a d q \<longrightarrow> p = q)"

lemma tree_okD:
  assumes "tree_ok f a d fr"
  shows "length a = NADDR" "valid p \<Longrightarrow> ptr a d p \<noteq> 0 \<Longrightarrow> in_range f (ptr a d p)" "valid p \<Longrightarrow> ptr a d p \<noteq> 0 \<Longrightarrow> ptr a d p \<notin> fr"
    "valid p \<Longrightarrow> ptr a d p \<noteq> 0 \<Longrightarrow> length (snd p) < depth (fst p) \<Longrightarrow> length (d (ptr a d p)) = NINDIR"
    "valid p \<Longrightarrow> valid q \<Longrightarrow> ptr a d p \<noteq> 0 \<Longrightarrow> ptr a d p = ptr a d q \<Longrightarrow> p = q"
  using assms unfolding tree_ok_def by blast+

section \<open>A new block in the tree\<close>

lemma ptr_new_root:
  assumes t: "tree_ok f a d fr" and b: "b \<in> fr" "b \<noteq> 0" and r: "r < NADDR" "a ! r = 0" and w: "0 < depth r \<Longrightarrow> w = replicate NINDIR 0"
    and q: "valid q"
  shows "ptr (a[r := b]) (d(b := w)) q = (if q = (r, []) then b else ptr a d q)"
proof -
  obtain s js where q': "q = (s, js)" by (cases q)
  show ?thesis using q unfolding q'
  proof (induction js rule: rev_induct)
    case Nil
    then show ?case using tree_okD(1)[OF t] r by (simp add: ptr_def nth_list_update)
  next
    case (snoc i js)
    then have v: "valid (s, js)" "length js < depth s" "i < NINDIR" by (simp_all add: valid_snoc)
    note ih = snoc.IH[OF v(1)]
    show ?case
    proof (cases "(s, js) = (r, [])")
      case True
      then show ?thesis using ih b(2) w v r(2) by (simp add: ptr_snoc) (simp add: ptr_def)
    next
      case False
      moreover have "ptr a d (s, js) \<noteq> b \<or> ptr a d (s, js) = 0" using tree_okD(3)[OF t v(1)] b(1) by auto
      ultimately show ?thesis using ih b(2) by (auto simp: ptr_snoc)
    qed
  qed
qed

lemma ptr_new_child:
  assumes t: "tree_ok f a d fr" and b: "b \<in> fr" "b \<noteq> 0" and p: "valid (r, is @ [i])" and c: "ptr a d (r, is) = c" "c \<noteq> 0" "d c ! i = 0"
    and w: "length is + 1 < depth r \<Longrightarrow> w = replicate NINDIR 0" and q: "valid q"
  shows "ptr a (d(b := w, c := (d c)[i := b])) q = (if q = (r, is @ [i]) then b else ptr a d q)"
proof -
  obtain s js where q': "q = (s, js)" by (cases q)
  have pv: "valid (r, is)" "length is < depth r" "i < NINDIR" using p by (simp_all add: valid_snoc)
  have len: "length (d c) = NINDIR" using tree_okD(4)[OF t pv(1)] c pv(2) by simp
  have cb: "c \<noteq> b" using tree_okD(3)[OF t pv(1)] c b(1) by auto
  show ?thesis using q unfolding q'
  proof (induction js rule: rev_induct)
    case Nil
    then show ?case by (simp add: ptr_def)
  next
    case (snoc j js)
    then have v: "valid (s, js)" "length js < depth s" "j < NINDIR" by (simp_all add: valid_snoc)
    note ih = snoc.IH[OF v(1)]
    have ne: "ptr a d (s, js) \<noteq> b \<or> ptr a d (s, js) = 0" using tree_okD(3)[OF t v(1)] b(1) by auto
    consider "(s, js) = (r, is @ [i])" | "(s, js) = (r, is)" | "(s, js) \<noteq> (r, is @ [i])" "(s, js) \<noteq> (r, is)" by blast
    then show ?case
    proof cases
      case 1
      have "ptr a d (s, js) = 0" using c 1 by (simp add: ptr_snoc)
      moreover have "w = replicate NINDIR 0" using 1 v(2) by (intro w) auto
      ultimately show ?thesis unfolding ptr_snoc ih using 1 b(2) cb v(3) by auto
    next
      case 2
      then show ?thesis using ih c cb b(2) len v(3) pv(3) by (auto simp: ptr_snoc nth_list_update)
    next
      case 3
      define x where "x = ptr a d (s, js)"
      have "x \<noteq> c \<or> x = 0" using tree_okD(5)[OF t v(1) pv(1)] c 3(2) by (auto simp: x_def)
      moreover have "x \<noteq> b \<or> x = 0" using ne by (simp add: x_def)
      moreover have "(s, js @ [j]) \<noteq> (r, is @ [i])" using 3(2) by auto
      ultimately show ?thesis unfolding ptr_snoc ih x_def[symmetric] if_not_P[OF 3(1)] by (cases "x = 0") auto
    qed
  qed
qed

lemma tree_ok_new:
  assumes t: "tree_ok f a d fr" and b: "b \<in> fr" "in_range f b" and a': "length a' = NADDR"
    and upd: "\<And>q. valid q \<Longrightarrow> ptr a' d' q = (if q = p then b else ptr a d q)"
    and len: "\<And>c. c \<noteq> b \<Longrightarrow> length (d' c) = length (d c)" "length (snd p) < depth (fst p) \<Longrightarrow> length (d' b) = NINDIR"
  shows "tree_ok f a' d' (fr - {b})"
proof -
  have nb: "ptr a d q \<noteq> b \<or> ptr a d q = 0" if "valid q" for q using tree_okD(3)[OF t that] b(1) by auto
  show ?thesis
    unfolding tree_ok_def
  proof (intro conjI allI impI)
    show "length a' = NADDR" by (rule a')
    fix q assume q: "valid q" "ptr a' d' q \<noteq> 0"
    show "in_range f (ptr a' d' q)" "ptr a' d' q \<notin> fr - {b}"
      using q upd[OF q(1)] b(2) tree_okD(2,3)[OF t q(1)] by (auto split: if_splits)
    show "length (d' (ptr a' d' q)) = NINDIR" if "length (snd q) < depth (fst q)"
      using q upd[OF q(1)] tree_okD(4)[OF t q(1)] len nb[OF q(1)] that by (auto split: if_splits)
    fix p' assume p': "valid p'" "ptr a' d' q = ptr a' d' p'"
    show "q = p'"
      using q p' upd[OF q(1)] upd[OF p'(1)] nb[OF q(1)] nb[OF p'(1)] tree_okD(5)[OF t q(1) p'(1)] b(2)
      by (auto simp: in_range_def split: if_splits)
  qed
qed

lemma tree_ok_frame:
  assumes t: "tree_ok f a d fr" and same: "\<And>c. c \<notin> fr \<Longrightarrow> d' c = d c" and sub: "fr' \<subseteq> fr"
  shows "tree_ok f a d' fr'" and "valid q \<Longrightarrow> ptr a d' q = ptr a d q"
proof -
  have p: "ptr a d' (s, js) = ptr a d (s, js)" if "valid (s, js)" for s js
    using that
  proof (induction js rule: rev_induct)
    case Nil
    then show ?case by (simp add: ptr_def)
  next
    case (snoc i js)
    then have v: "valid (s, js)" by (simp add: valid_snoc)
    show ?case
    proof (cases "ptr a d (s, js) = 0")
      case True
      then show ?thesis unfolding ptr_snoc snoc.IH[OF v] by simp
    next
      case False
      then show ?thesis unfolding ptr_snoc snoc.IH[OF v] using same[OF tree_okD(3)[OF t v False]] by simp
    qed
  qed
  then have p': "valid q \<Longrightarrow> ptr a d' q = ptr a d q" for q by (cases q) simp
  then show "valid q \<Longrightarrow> ptr a d' q = ptr a d q" .
  have "length (d' (ptr a d q)) = length (d (ptr a d q))" if "valid q" "ptr a d q \<noteq> 0" for q
    using same[OF tree_okD(3)[OF t that]] by simp
  then show "tree_ok f a d' fr'" using t p' sub by (auto simp: tree_ok_def)
qed

lemma tree_ok_range: "in_range f = in_range f' \<Longrightarrow> tree_ok f = tree_ok f'"
  by (intro ext) (simp add: tree_ok_def)

section \<open>What a call may change\<close>

text \<open>
  \<open>grows P\<close>: only the places in \<open>P\<close> may get an address, no place loses or changes one, and only free blocks and
  indirect blocks of the file are written.
\<close>

definition indirect :: "daddr list \<Rightarrow> (daddr \<Rightarrow> int list) \<Rightarrow> daddr \<Rightarrow> bool" where
  "indirect a d c \<longleftrightarrow> (\<exists>q. valid q \<and> length (snd q) < depth (fst q) \<and> ptr a d q = c)"

definition file_ok :: "daddr list \<Rightarrow> volume \<Rightarrow> daddr list \<Rightarrow> bool" where
  "file_ok a v xs \<longleftrightarrow> vol_ok v xs \<and> tree_ok (sb v) a (disk v) (set xs)"

definition grows :: "path set \<Rightarrow> daddr list \<times> volume \<times> daddr list \<Rightarrow> daddr list \<times> volume \<times> daddr list \<Rightarrow> bool" where
  "grows P x y \<longleftrightarrow> (case (x, y) of ((a, v, xs), (a', v', xs')) \<Rightarrow>
     file_ok a' v' xs' \<and> in_range (sb v') = in_range (sb v) \<and> set xs' \<subseteq> set xs
     \<and> (\<forall>q. valid q \<longrightarrow> q \<notin> P \<longrightarrow> ptr a' (disk v') q = ptr a (disk v) q)
     \<and> (\<forall>q. valid q \<longrightarrow> ptr a (disk v) q \<noteq> 0 \<longrightarrow> ptr a' (disk v') q = ptr a (disk v) q)
     \<and> (\<forall>c. c \<notin> set xs \<longrightarrow> c \<noteq> 0 \<longrightarrow> \<not> indirect a' (disk v') c \<longrightarrow> disk v' c = disk v c))"

lemma growsD:
  assumes "grows P (a, v, xs) (a', v', xs')"
  shows "file_ok a' v' xs'" "in_range (sb v') = in_range (sb v)" "set xs' \<subseteq> set xs"
    "valid q \<Longrightarrow> q \<notin> P \<Longrightarrow> ptr a' (disk v') q = ptr a (disk v) q"
    "valid q \<Longrightarrow> ptr a (disk v) q \<noteq> 0 \<Longrightarrow> ptr a' (disk v') q = ptr a (disk v) q"
    "c \<notin> set xs \<Longrightarrow> c \<noteq> 0 \<Longrightarrow> \<not> indirect a' (disk v') c \<Longrightarrow> disk v' c = disk v c"
  using assms unfolding grows_def prod.case by blast+

lemma growsI:
  assumes "file_ok a' v' xs'" "in_range (sb v') = in_range (sb v)" "set xs' \<subseteq> set xs"
    "\<And>q. valid q \<Longrightarrow> q \<notin> P \<Longrightarrow> ptr a' (disk v') q = ptr a (disk v) q"
    "\<And>q. valid q \<Longrightarrow> ptr a (disk v) q \<noteq> 0 \<Longrightarrow> ptr a' (disk v') q = ptr a (disk v) q"
    "\<And>c. c \<notin> set xs \<Longrightarrow> c \<noteq> 0 \<Longrightarrow> \<not> indirect a' (disk v') c \<Longrightarrow> disk v' c = disk v c"
  shows "grows P (a, v, xs) (a', v', xs')"
  using assms unfolding grows_def prod.case by blast

lemma grows_refl: "file_ok a v xs \<Longrightarrow> grows P (a, v, xs) (a, v, xs)"
  by (rule growsI) auto

lemma grows_trans:
  assumes g: "grows P (a, v, xs) (a', v', xs')" and h: "grows Q (a', v', xs') (a'', v'', xs'')" and "P \<subseteq> R" "Q \<subseteq> R"
  shows "grows R (a, v, xs) (a'', v'', xs'')"
proof (rule growsI)
  note G = growsD[OF g] and H = growsD[OF h]
  show "file_ok a'' v'' xs''" "in_range (sb v'') = in_range (sb v)" "set xs'' \<subseteq> set xs" using G H by auto
  show "ptr a'' (disk v'') q = ptr a (disk v) q" if "valid q" "q \<notin> R" for q
    using G(4)[OF that(1)] H(4)[OF that(1)] that(2) assms(3,4) by (metis subsetD)
  show "ptr a'' (disk v'') q = ptr a (disk v) q" if "valid q" "ptr a (disk v) q \<noteq> 0" for q
    using G(5)[OF that] H(5)[OF that(1)] that(2) by simp
  show "disk v'' c = disk v c" if "c \<notin> set xs" "c \<noteq> 0" "\<not> indirect a'' (disk v'') c" for c
  proof -
    have "\<not> indirect a' (disk v') c" using that(2,3) H(5) by (metis indirect_def)
    then show ?thesis using G(3) G(6)[OF that(1,2)] H(6)[of c] that by auto
  qed
qed

lemma grows_mono: "grows P x y \<Longrightarrow> P \<subseteq> Q \<Longrightarrow> grows Q x y"
  unfolding grows_def by (cases x, cases y) blast

lemma file_okD: "file_ok a v xs \<Longrightarrow> vol_ok v xs" "file_ok a v xs \<Longrightarrow> tree_ok (sb v) a (disk v) (set xs)"
  by (simp_all add: file_ok_def)

lemma bmap_new_cases:
  assumes "vol_ok v xs" and "bmap_new e clrbuf sync v = (r, v')"
  shows "in_range (sb v') = in_range (sb v) \<and>
    (case r of
       Waits \<Rightarrow> False
     | Full \<Rightarrow> vol_ok v' [] \<and> disk v' = disk v \<and> (xs = [] \<or> rderr e (hd xs))
     | Failed err \<Rightarrow> err \<noteq> 0 \<and> (\<exists>b. err = werr e b) \<and> vol_ok v' xs \<and> (\<forall>c. c \<notin> set xs \<longrightarrow> disk v' c = disk v c)
     | New b \<Rightarrow> \<exists>ys. xs = b # ys \<and> vol_ok v' ys \<and> disk v' = (disk v)(b := (if clrbuf then replicate NINDIR 0 else stale e)))"
proof -
  obtain r0 v0 where b: "balloc (rderr e) (now e) clrbuf (stale e) v = (r0, v0)" by fastforce
  note s = balloc_summary[OF assms(1) b]
  show ?thesis
  proof (cases r0)
    case Asleep
    then show ?thesis using s by simp
  next
    case ENOSPC
    moreover have "xs = [] \<or> rderr e (hd xs)"
      using balloc_takes[of v "hd xs" "tl xs" "rderr e", OF _ _ b] assms(1) ENOSPC by (cases xs) auto
    ultimately show ?thesis using s assms(2) b by (simp add: bmap_new_def)
  next
    case (Block nb)
    then obtain ys where ys: "xs = nb # ys" "vol_ok v0 ys" "disk v0 = (disk v)(nb := (if clrbuf then replicate NINDIR 0 else stale e))"
      "in_range (sb v0) = in_range (sb v)" using s by auto
    have nb: "in_range (sb v0) nb" "nb \<notin> set ys"
      using ys vol_okD(5)[OF assms(1)] flist_ok[OF vol_okD(8)[OF assms(1)]] by auto
    obtain v1 where v1: "free (stale e) nb v0 = Some v1" "vol_ok v1 (nb # ys)" "\<forall>c. c \<noteq> nb \<longrightarrow> disk v1 c = disk v0 c"
      using free_puts[OF ys(2) nb] by blast
    show ?thesis
    proof (cases "sync \<and> werr e nb \<noteq> 0")
      case True
      then have "r = Failed (werr e nb)" "v' = v1" using assms(2) b Block v1(1) by (simp_all add: bmap_new_def)
      then show ?thesis using True v1 ys free_same_range[OF v1(1)] by auto
    next
      case False
      then have "r = New nb" "v' = v0" using assms(2) b Block by (auto simp: bmap_new_def)
      then show ?thesis using ys by auto
    qed
  qed
qed

lemma grows_frame:
  assumes "file_ok a v xs" and "vol_ok v' xs'" and "in_range (sb v') = in_range (sb v)" and "set xs' \<subseteq> set xs"
    and "\<And>c. c \<notin> set xs \<Longrightarrow> disk v' c = disk v c"
  shows "grows {} (a, v, xs) (a, v', xs')"
proof (rule growsI)
  have t: "tree_ok (sb v) a (disk v') (set xs')" "\<And>q. valid q \<Longrightarrow> ptr a (disk v') q = ptr a (disk v) q"
    by (rule tree_ok_frame[OF file_okD(2)[OF assms(1)], of "disk v'" "set xs'"]; use assms(4,5) in blast)+
  show "file_ok a v' xs'" using assms(2) t(1) tree_ok_range[OF assms(3)] by (simp add: file_ok_def)
  show "ptr a (disk v') q = ptr a (disk v) q" if "valid q" for q using t(2)[OF that] .
  show "ptr a (disk v') q = ptr a (disk v) q" if "valid q" for q using t(2)[OF that] .
qed (use assms in auto)

text \<open>The two ways in which a new block \<open>b\<close> gets into the tree.\<close>

lemma grows_new:
  assumes f: "file_ok a v (b # ys)" and v': "vol_ok v' ys" "in_range (sb v') = in_range (sb v)" and "length a' = NADDR"
    and upd: "\<And>q. valid q \<Longrightarrow> ptr a' (disk v') q = (if q = p then b else ptr a (disk v) q)" and p: "valid p" "ptr a (disk v) p = 0"
    and len: "\<And>c. c \<noteq> b \<Longrightarrow> length (disk v' c) = length (disk v c)" "length (snd p) < depth (fst p) \<Longrightarrow> length (disk v' b) = NINDIR"
    and fr: "\<And>c. c \<noteq> b \<Longrightarrow> \<not> indirect a' (disk v') c \<Longrightarrow> disk v' c = disk v c"
  shows "grows {p} (a, v, b # ys) (a', v', ys)"
proof (rule growsI)
  note vo = file_okD(1)[OF f]
  have b: "in_range (sb v) b" "b \<notin> set ys" using flist_ok[OF vol_okD(8)[OF vo]] vol_okD(5)[OF vo] by auto
  have "tree_ok (sb v) a' (disk v') (set (b # ys) - {b})"
    using b len by (intro tree_ok_new[OF file_okD(2)[OF f] _ _ assms(4) upd]) auto
  moreover have "set (b # ys) - {b} = set ys" using b(2) by auto
  ultimately show "file_ok a' v' ys" using v' tree_ok_range[OF v'(2)] by (simp add: file_ok_def)
  show "ptr a' (disk v') q = ptr a (disk v) q" if "valid q" "q \<notin> {p}" for q using upd[OF that(1)] that(2) by simp
  show "ptr a' (disk v') q = ptr a (disk v) q" if "valid q" "ptr a (disk v) q \<noteq> 0" for q
    using upd[OF that(1)] that(2) p(2) by auto
  show "disk v' c = disk v c" if "c \<notin> set (b # ys)" "\<not> indirect a' (disk v') c" for c
    using fr[of c] that by simp
qed (use v' in auto)

lemma grows_root:
  assumes f: "file_ok a v (b # ys)" and v': "vol_ok v' ys" "in_range (sb v') = in_range (sb v)" and d: "disk v' = (disk v)(b := w)"
    and r: "r < NADDR" "a ! r = 0" and w: "0 < depth r \<Longrightarrow> w = replicate NINDIR 0"
  shows "grows {(r, [])} (a, v, b # ys) (a[r := b], v', ys)" and "ptr (a[r := b]) (disk v') (r, []) = b"
proof -
  note t = file_okD(2)[OF f]
  have b: "b \<noteq> 0" using flist_ok[OF vol_okD(8)[OF file_okD(1)[OF f]], of b] by (simp add: in_range_def)
  have upd: "ptr (a[r := b]) (disk v') q = (if q = (r, []) then b else ptr a (disk v) q)" if "valid q" for q
    using ptr_new_root[OF t _ b r w that] d by simp
  have "valid (r, [])" using r(1) by (simp add: valid_def)
  then show "ptr (a[r := b]) (disk v') (r, []) = b" using upd by simp
  show "grows {(r, [])} (a, v, b # ys) (a[r := b], v', ys)"
  proof (rule grows_new[OF f v' _ upd])
    show "length (a[r := b]) = NADDR" using tree_okD(1)[OF t] by simp
    show "length (disk v' b) = NINDIR" if "length (snd (r, [])) < depth (fst (r, []))" using w that d by simp
  qed (use r d in \<open>auto simp: valid_def ptr_def\<close>)
qed

lemma grows_child:
  assumes f: "file_ok a v (b # ys)" and v1: "vol_ok v1 ys" "in_range (sb v1) = in_range (sb v)" "disk v1 = (disk v)(b := replicate NINDIR 0)"
    and p: "valid (r, is @ [i])" and c: "ptr a (disk v) (r, is) = c" "c \<noteq> 0" "disk v c ! i = 0"
    and v': "v' = v1\<lparr>disk := (disk v1)(c := (disk v c)[i := b])\<rparr>"
  shows "grows {(r, is @ [i])} (a, v, b # ys) (a, v', ys)" and "ptr a (disk v') (r, is @ [i]) = b"
proof -
  note t = file_okD(2)[OF f]
  have b: "b \<noteq> 0" using flist_ok[OF vol_okD(8)[OF file_okD(1)[OF f]], of b] by (simp add: in_range_def)
  have pv: "valid (r, is)" "length is < depth r" using p by (simp_all add: valid_snoc)
  have cn: "c \<notin> set (b # ys)" using tree_okD(3)[OF t pv(1)] c by simp
  have d: "disk v' = (disk v)(b := replicate NINDIR 0, c := (disk v c)[i := b])" using v1(3) v' by simp
  have upd: "ptr a (disk v') q = (if q = (r, is @ [i]) then b else ptr a (disk v) q)" if "valid q" for q
    unfolding d by (rule ptr_new_child[OF t _ b p c _ that]) simp_all
  then show "ptr a (disk v') (r, is @ [i]) = b" using p by simp
  have ind: "indirect a (disk v') c" using upd[OF pv(1)] pv c by (auto simp: indirect_def)
  show "grows {(r, is @ [i])} (a, v, b # ys) (a, v', ys)"
  proof (rule grows_new[OF f _ _ _ upd p])
    show "vol_ok v' ys" using vol_ok_write[OF v1(1)] cn v' by simp
    show "in_range (sb v') = in_range (sb v)" using v1(2) v' by simp
    show "length a = NADDR" by (rule tree_okD(1)[OF t])
    show "ptr a (disk v) (r, is @ [i]) = 0" using c by (simp add: ptr_snoc)
    show "length (disk v' x) = length (disk v x)" if "x \<noteq> b" for x using that d by simp
    show "length (disk v' b) = NINDIR" using d cn by simp
    show "disk v' x = disk v x" if "x \<noteq> b" "\<not> indirect a (disk v') x" for x using that d ind by auto
  qed
qed

section \<open>The walk\<close>

primrec idxs :: "nat \<Rightarrow> int \<Rightarrow> int \<Rightarrow> nat list" where
  "idxs 0 sh bn = []"
| "idxs (Suc k) sh bn = nat (bn div 2 ^ nat (sh - 8) mod 256) # idxs k (sh - 8) bn"

definition along :: "path \<Rightarrow> path set" where
  "along p = {(fst p, take m (snd p)) |m. True}"

lemma along_take: "(r, is @ [i]) \<in> along (r, is @ i # js)"
  by (auto simp: along_def intro!: exI[of _ "length is + 1"])

definition no_errors :: "benv \<Rightarrow> bool" where
  "no_errors e \<longleftrightarrow> (\<forall>b. \<not> rderr e b) \<and> (\<forall>b. werr e b = 0)"

text \<open>
  What the result of the walk means: an address at the place asked for, or -1 or 0; a read changes nothing and, without
  errors, answers with the address or -1 for a hole; a write without errors and with enough free blocks succeeds.
\<close>

definition walk_post ::
  "benv \<Rightarrow> bool \<Rightarrow> nat \<Rightarrow> path \<Rightarrow> daddr list \<times> volume \<times> daddr list \<Rightarrow> daddr list \<times> volume \<times> daddr list \<Rightarrow> int \<Rightarrow> bool" where
  "walk_post e rd k p x y res \<longleftrightarrow> (case (x, y) of ((a, v, xs), (a', v', xs')) \<Rightarrow>
     grows (along p) x y
     \<and> (res = 0 \<or> res = -1 \<or> 0 < res \<and> ptr a' (disk v') p = res)
     \<and> (rd \<longrightarrow> y = x \<and> (no_errors e \<longrightarrow> res = (if ptr a (disk v) p = 0 then -1 else ptr a (disk v) p)))
     \<and> (\<not> rd \<longrightarrow> no_errors e \<longrightarrow> k \<le> length xs \<longrightarrow> 0 < res))"

lemma walk_post_fail:
  assumes "grows {} (a, v, xs) (a', v', xs')" and "res = 0 \<or> res = -1" and "\<not> rd" and "no_errors e \<Longrightarrow> \<not> k \<le> length xs"
  shows "walk_post e rd k p (a, v, xs) (a', v', xs') res"
  using assms grows_mono[OF assms(1), of "along p"] by (auto simp: walk_post_def)

lemma new_fails:
  assumes "file_ok a v xs" and "bmap_new e clrbuf sync v = (x, v1)" and "x = Full \<or> (\<exists>er. x = Failed er)" and "\<not> rd" and "1 \<le> k"
  shows "\<exists>ys. walk_post e rd k p (a, v, xs) (a, v1, ys) (-1)"
proof -
  note c = bmap_new_cases[OF file_okD(1)[OF assms(1)] assms(2)]
  from assms(3) show ?thesis
  proof (elim disjE exE)
    assume x: "x = Full"
    then have "grows {} (a, v, xs) (a, v1, [])" using c by (intro grows_frame[OF assms(1)]) auto
    then show ?thesis using c x assms(4,5) by (intro exI walk_post_fail) (auto simp: no_errors_def)
  next
    fix er assume x: "x = Failed er"
    then have "grows {} (a, v, xs) (a, v1, xs)" using c by (intro grows_frame[OF assms(1)]) auto
    then show ?thesis using c x assms(4) by (intro exI walk_post_fail) (auto simp: no_errors_def)
  qed
qed

lemma walk_post_step:
  assumes g: "grows Q (a, v, xs) (a1, v1, xs1)" "Q \<subseteq> along p" and w: "walk_post e rd k p (a1, v1, xs1) y res"
    and "rd \<Longrightarrow> (a1, v1, xs1) = (a, v, xs)" and "\<not> rd \<Longrightarrow> k' \<le> length xs \<Longrightarrow> k \<le> length xs1"
  shows "walk_post e rd k' p (a, v, xs) y res"
proof -
  obtain a' v' xs' where y: "y = (a', v', xs')" by (cases y)
  have "grows (along p) (a, v, xs) y" using grows_trans[OF g(1) _ g(2) subset_refl] w by (simp add: walk_post_def y)
  then show ?thesis using w assms(4,5) by (auto simp: walk_post_def y)
qed

lemma walk_ok:
  "file_ok a v xs \<Longrightarrow> valid (r, is) \<Longrightarrow> length is + k = depth r \<Longrightarrow> ptr a (disk v) (r, is) = nb \<Longrightarrow> nb \<noteq> 0 \<Longrightarrow>
     \<exists>res ra' err v' ys. bmap_walk e rd sync k sh bn nb ra v = Some (res, ra', err, v')
       \<and> walk_post e rd k (r, is @ idxs k sh bn) (a, v, xs) (a, v', ys) res"
proof (induction k arbitrary: v xs "is" nb sh ra)
  case 0
  have "0 < nb" using tree_okD(2)[OF file_okD(2)[OF 0(1)] 0(2)] 0(4,5) by (simp add: in_range_def)
  then show ?case using 0 grows_refl[OF 0(1)] by (auto simp: walk_post_def)
next
  case (Suc k)
  define i where "i = nat (bn div 2 ^ nat (sh - 8) mod 256)"
  define p where "p = (r, is @ i # idxs k (sh - 8) bn)"
  define ra1 where "ra1 = (if i < NINDIR - 1 then disk v nb ! (i + 1) else ra)"
  have "0 \<le> bn div 2 ^ nat (sh - 8) mod 256" "bn div 2 ^ nat (sh - 8) mod 256 < 256" by simp_all
  then have i: "i < NINDIR" by (simp add: i_def nat_less_iff)
  have vi: "valid (r, is @ [i])" "length (is @ [i]) + k = depth r" using Suc.prems(2,3) i by (auto simp: valid_snoc)
  have goal: "(r, is @ idxs (Suc k) sh bn) = p" by (simp add: p_def i_def)
  have p': "(r, (is @ [i]) @ idxs k (sh - 8) bn) = p" by (simp add: p_def)
  have hole: "ptr a (disk v) (r, is @ [i]) = 0 \<Longrightarrow> ptr a (disk v) p = 0"
    unfolding p'[symmetric] ptr_append by simp
  have sub: "{(r, is @ [i])} \<subseteq> along p" using along_take[of r "is" i] by (simp add: p_def)
  let ?run = "bmap_walk e rd sync (Suc k) sh bn nb ra v"
  have run: "?run = (if rderr e nb then Some (0, 0, biowait_error e nb, v)
      else if disk v nb ! i \<noteq> 0 then bmap_walk e rd sync k (sh - 8) bn (disk v nb ! i) ra1 v
      else if rd then Some (-1, 0, 0, v)
      else case bmap_new e True (\<not> (mnt_async e \<and> \<not> sync) \<and> (0 < k \<or> sync)) v of
             (Waits, _) \<Rightarrow> None
           | (Full, v) \<Rightarrow> Some (-1, 0, no_space, v)
           | (Failed error, v) \<Rightarrow> Some (-1, 0, error, v)
           | (New b, v1) \<Rightarrow> bmap_walk e rd sync k (sh - 8) bn b ra1 (v1\<lparr>disk := (disk v1)(nb := (disk v nb)[i := b])\<rparr>))"
    unfolding bmap_walk.simps Let_def i_def ra1_def by (rule refl)
  have nxt: "\<exists>res ra' err v' ys. bmap_walk e rd sync k (sh - 8) bn b ra1 w = Some (res, ra', err, v') \<and> walk_post e rd k p (a, w, zs) (a, v', ys) res"
    if "file_ok a w zs" "ptr a (disk w) (r, is @ [i]) = b" "b \<noteq> 0" for w zs b
    using Suc.IH[OF that(1) vi that(2,3), of "sh - 8" ra1] unfolding p' .
  consider (err) "rderr e nb" | (there) "\<not> rderr e nb" "disk v nb ! i \<noteq> 0" | (read) "\<not> rderr e nb" "disk v nb ! i = 0" rd
    | (new) "\<not> rderr e nb" "disk v nb ! i = 0" "\<not> rd" by blast
  then show ?case
    unfolding goal
  proof cases
    case err
    then have "walk_post e rd (Suc k) p (a, v, xs) (a, v, xs) 0"
      using grows_refl[OF Suc.prems(1)] by (auto simp: walk_post_def no_errors_def)
    then show "\<exists>res ra' err v' ys. ?run = Some (res, ra', err, v') \<and> walk_post e rd (Suc k) p (a, v, xs) (a, v', ys) res"
      unfolding run using err by auto
  next
    case there
    have "ptr a (disk v) (r, is @ [i]) = disk v nb ! i" using Suc.prems(4,5) by (simp add: ptr_snoc)
    from nxt[OF Suc.prems(1) this there(2)] obtain res ra' err v' ys where
      "bmap_walk e rd sync k (sh - 8) bn (disk v nb ! i) ra1 v = Some (res, ra', err, v')" "walk_post e rd k p (a, v, xs) (a, v', ys) res" by blast
    moreover have "walk_post e rd (Suc k) p (a, v, xs) (a, v', ys) res"
      by (rule walk_post_step[OF grows_refl[OF Suc.prems(1), of "{}"] _ calculation(2)]) simp_all
    ultimately show "\<exists>res ra' err v' ys. ?run = Some (res, ra', err, v') \<and> walk_post e rd (Suc k) p (a, v, xs) (a, v', ys) res"
      unfolding run using there by auto
  next
    case read
    have "ptr a (disk v) p = 0" using hole Suc.prems(4,5) read(2) by (simp add: ptr_snoc)
    then have "walk_post e rd (Suc k) p (a, v, xs) (a, v, xs) (-1)"
      using grows_refl[OF Suc.prems(1)] read by (auto simp: walk_post_def)
    then show "\<exists>res ra' err v' ys. ?run = Some (res, ra', err, v') \<and> walk_post e rd (Suc k) p (a, v, xs) (a, v', ys) res"
      unfolding run using read by auto
  next
    case new
    obtain x v1 where bn: "bmap_new e True (\<not> (mnt_async e \<and> \<not> sync) \<and> (0 < k \<or> sync)) v = (x, v1)" by fastforce
    note c = bmap_new_cases[OF file_okD(1)[OF Suc.prems(1)] bn]
    show "\<exists>res ra' err v' ys. ?run = Some (res, ra', err, v') \<and> walk_post e rd (Suc k) p (a, v, xs) (a, v', ys) res"
    proof (cases x)
      case (New b)
      then obtain ys where ys: "xs = b # ys" "vol_ok v1 ys" "disk v1 = (disk v)(b := replicate NINDIR 0)" "in_range (sb v1) = in_range (sb v)"
        using c by auto
      define v2 where "v2 = v1\<lparr>disk := (disk v1)(nb := (disk v nb)[i := b])\<rparr>"
      note G = grows_child[OF Suc.prems(1)[unfolded ys(1)] ys(2,4,3) vi(1) Suc.prems(4,5) new(2) v2_def]
      have "b \<noteq> 0" using flist_ok[OF vol_okD(8)[OF file_okD(1)[OF Suc.prems(1)]], of b] ys(1) by (simp add: in_range_def)
      from nxt[OF growsD(1)[OF G(1)] G(2) this] obtain res ra' err v' zs where
        "bmap_walk e rd sync k (sh - 8) bn b ra1 v2 = Some (res, ra', err, v')" "walk_post e rd k p (a, v2, ys) (a, v', zs) res" by blast
      moreover have "walk_post e rd (Suc k) p (a, v, xs) (a, v', zs) res"
        using new(3) unfolding ys(1) by (intro walk_post_step[OF G(1) sub calculation(2)]) simp_all
      ultimately show ?thesis unfolding run bn using new New by (auto simp: v2_def)
    next
      case Full
      then show ?thesis using new_fails[OF Suc.prems(1) bn _ new(3), of "Suc k" p] unfolding run bn using new by auto
    next
      case (Failed er)
      then show ?thesis using new_fails[OF Suc.prems(1) bn _ new(3), of "Suc k" p] unfolding run bn using new by auto
    next
      case Waits
      then show ?thesis using c by simp
    qed
  qed
qed

section \<open>Block numbers\<close>

abbreviation max_bn :: int where "max_bn \<equiv> 4 + 256 + 65536 + 16777216"

text \<open>The place of logical block \<open>bn\<close>.\<close>

definition place :: "int \<Rightarrow> path" where
  "place bn =
     (if bn < 4 then (nat bn, [])
      else if bn < 260 then (4, [nat (bn - 4)])
      else if bn < 65796 then (5, [nat ((bn - 260) div 256), nat ((bn - 260) mod 256)])
      else (6, [nat ((bn - 65796) div 65536), nat ((bn - 65796) div 256 mod 256), nat ((bn - 65796) mod 256)]))"

lemma place_level:
  assumes "4 \<le> bn" and "bn < max_bn"
  shows "\<exists>j sh m. bmap_level 3 0 1 (bn - 4) = (j, sh, m) \<and> 1 \<le> j \<and> j \<le> 3 \<and> place bn = (7 - j, idxs (4 - j) sh m)"
proof -
  consider "bn < 260" | "260 \<le> bn" "bn < 65796" | "65796 \<le> bn" by linarith
  then show ?thesis
  proof cases
    case 1
    then have "bmap_level 3 0 1 (bn - 4) = (3, 8, bn - 4)" by (simp add: numeral_3_eq_3 Let_def)
    moreover have "(bn - 4) mod 256 = bn - 4" using 1 assms by (intro mod_pos_pos_trivial) auto
    ultimately show ?thesis using 1 assms by (auto simp: place_def)
  next
    case 2
    have "bmap_level 3 0 1 (bn - 4) = (2, 16, bn - 260)" using 2 by (simp add: numeral_3_eq_3 numeral_2_eq_2 Let_def)
    moreover have "(bn - 260) div 256 mod 256 = (bn - 260) div 256" using 2 by (intro mod_pos_pos_trivial) auto
    ultimately show ?thesis using 2 by (auto simp: place_def numeral_2_eq_2)
  next
    case 3
    have "bmap_level 3 0 1 (bn - 4) = (1, 24, bn - 65796)" using 3 assms by (simp add: numeral_3_eq_3 Let_def)
    moreover have "(bn - 65796) div 65536 mod 256 = (bn - 65796) div 65536" using 3 assms by (intro mod_pos_pos_trivial) auto
    ultimately show ?thesis using 3 by (auto simp: place_def numeral_3_eq_3)
  qed
qed

lemma level_too_big: "max_bn \<le> bn \<Longrightarrow> fst (bmap_level 3 0 1 (bn - 4)) = 0"
  by (simp add: numeral_3_eq_3 Let_def)

lemma place_valid:
  assumes "0 \<le> bn" and "bn < max_bn"
  shows "valid (place bn)" "length (snd (place bn)) = depth (fst (place bn))"
  using assms by (auto simp: place_def valid_def depth_def nat_less_iff)

lemma div_mod_eq: "(x :: int) div k = y div k \<Longrightarrow> x mod k = y mod k \<Longrightarrow> x = y"
  by (metis div_mult_mod_eq)

lemma place_inj:
  assumes "0 \<le> x" "x < max_bn" "0 \<le> y" "y < max_bn" and "place x = place y"
  shows "x = y"
proof -
  have e: "fst (place x) = fst (place y)" using assms(5) by simp
  consider "x < 4" | "4 \<le> x" "x < 260" | "260 \<le> x" "x < 65796" | "65796 \<le> x" by linarith
  then show ?thesis
  proof cases
    case 1
    then show ?thesis using assms by (auto simp: place_def split: if_splits)
  next
    case 2
    then show ?thesis using assms by (auto simp: place_def split: if_splits)
  next
    case 3
    then have y: "260 \<le> y" "y < 65796" using e by (auto simp: place_def split: if_splits)
    have "nat ((x - 260) div 256) = nat ((y - 260) div 256)" "nat ((x - 260) mod 256) = nat ((y - 260) mod 256)"
      using assms(5) 3 y by (simp_all add: place_def)
    moreover have "0 \<le> (x - 260) div 256" "0 \<le> (y - 260) div 256" "0 \<le> (x - 260) mod 256" "0 \<le> (y - 260) mod 256"
      using 3 y by (simp_all add: pos_imp_zdiv_nonneg_iff)
    ultimately have "(x - 260) div 256 = (y - 260) div 256" "(x - 260) mod 256 = (y - 260) mod 256"
      by (metis int_nat_eq)+
    then show ?thesis using div_mod_eq[of "x - 260" 256 "y - 260"] by simp
  next
    case 4
    then have y: "65796 \<le> y" using e by (auto simp: place_def split: if_splits)
    let ?x = "x - 65796" and ?y = "y - 65796"
    have n: "nat (?x div 65536) = nat (?y div 65536)" "nat (?x div 256 mod 256) = nat (?y div 256 mod 256)" "nat (?x mod 256) = nat (?y mod 256)"
      using assms(5) 4 y by (simp_all add: place_def)
    have "0 \<le> ?x div 65536" "0 \<le> ?y div 65536" using 4 y by (simp_all add: pos_imp_zdiv_nonneg_iff)
    then have d: "?x div 65536 = ?y div 65536" "?x div 256 mod 256 = ?y div 256 mod 256" "?x mod 256 = ?y mod 256"
      using n by (metis int_nat_eq, metis int_nat_eq pos_mod_sign zero_less_numeral, metis int_nat_eq pos_mod_sign zero_less_numeral)
    have "?x div 256 div 256 = ?y div 256 div 256" using d(1) by (simp add: zdiv_zmult2_eq[symmetric])
    then have "?x div 256 = ?y div 256" using d(2) by (rule div_mod_eq)
    then show ?thesis using div_mod_eq[of ?x 256 ?y] d(3) by simp
  qed
qed

lemma place_along:
  assumes "0 \<le> x" "x < max_bn" "0 \<le> y" "y < max_bn" and "place y \<in> along (place x)"
  shows "x = y"
proof -
  obtain m where m: "place y = (fst (place x), take m (snd (place x)))" using assms(5) by (auto simp: along_def)
  then have "length (snd (place x)) = length (take m (snd (place x)))"
    using place_valid(2)[OF assms(1,2)] place_valid(2)[OF assms(3,4)] by simp
  then have "place y = place x" using m by (simp add: prod_eq_iff)
  then show ?thesis using place_inj[OF assms(1-4)] by simp
qed

section \<open>The whole call\<close>

text \<open>The state a call works on, and what it leaves.\<close>

lemma bmap_direct:
  assumes f: "file_ok (i_addr ip) v xs" and bn: "0 \<le> bn" "bn < 4"
  shows "\<exists>res ra err ip' v' ys. bmap e rd clrbuf sync rablock bn ip v = Some (res, ra, err, ip', v')
    \<and> walk_post e rd 1 (place bn) (i_addr ip, v, xs) (i_addr ip', v', ys) res"
proof -
  let ?a = "i_addr ip"
  define i where "i = nat bn"
  have i: "i < NADDR" "depth i = 0" "place bn = (i, [])" using bn by (auto simp: i_def depth_def place_def)
  have pi: "ptr ?a (disk v) (place bn) = ?a ! i" by (simp add: i ptr_def)
  obtain x v1 where bnw: "bmap_new e clrbuf sync v = (x, v1)" by fastforce
  note c = bmap_new_cases[OF file_okD(1)[OF f] bnw]
  note run = bmap_def[of e rd clrbuf sync rablock bn ip v, folded i_def]
  consider (there) "?a ! i \<noteq> 0" | (read) "?a ! i = 0" rd | (new) "?a ! i = 0" "\<not> rd" by blast
  then show ?thesis
  proof cases
    case there
    have "0 < ?a ! i" using tree_okD(2)[OF file_okD(2)[OF f] place_valid(1)[of bn]] bn there pi by (simp add: in_range_def)
    then have "walk_post e rd 1 (place bn) (?a, v, xs) (?a, v, xs) (?a ! i)"
      using grows_refl[OF f] pi by (simp add: walk_post_def)
    moreover have "\<exists>ra. bmap e rd clrbuf sync rablock bn ip v = Some (?a ! i, ra, 0, ip, v)"
      using bn there unfolding run Let_def by simp
    ultimately show ?thesis by blast
  next
    case read
    then have "walk_post e rd 1 (place bn) (?a, v, xs) (?a, v, xs) (-1)"
      using grows_refl[OF f] pi by (simp add: walk_post_def)
    moreover have "bmap e rd clrbuf sync rablock bn ip v = Some (-1, 0, 0, ip, v)"
      using bn read unfolding run Let_def by simp
    ultimately show ?thesis by blast
  next
    case new
    show ?thesis
    proof (cases x)
      case (New b)
      then obtain ys w where ys: "xs = b # ys" "vol_ok v1 ys" "disk v1 = (disk v)(b := w)" "in_range (sb v1) = in_range (sb v)"
        using c by auto
      note G = grows_root[OF f[unfolded ys(1)] ys(2,4,3) i(1) new(1), unfolded i(2)]
      have "0 < b" using flist_ok[OF vol_okD(8)[OF file_okD(1)[OF f]], of b] ys(1) by (simp add: in_range_def)
      moreover have "{(i, [])} \<subseteq> along (place bn)" by (simp add: along_def i)
      ultimately have "walk_post e rd 1 (place bn) (?a, v, xs) (?a[i := b], v1, ys) b"
        using grows_mono[OF G(1)] G(2) new(2) by (simp add: walk_post_def i ys(1))
      moreover have "\<exists>ra. bmap e rd clrbuf sync rablock bn ip v
          = Some (b, ra, 0, ip\<lparr>i_addr := ?a[i := b], i_changed := True\<rparr>, v1)"
        using bn new New unfolding run bnw Let_def by simp
      moreover have "i_addr (ip\<lparr>i_addr := ?a[i := b], i_changed := True\<rparr>) = ?a[i := b]" by simp
      ultimately show ?thesis by (metis (no_types))
    next
      case Full
      then show ?thesis using new_fails[OF f bnw _ new(2), of 1 "place bn"] bn new unfolding run bnw Let_def by auto
    next
      case (Failed er)
      then show ?thesis using new_fails[OF f bnw _ new(2), of 1 "place bn"] bn new unfolding run bnw Let_def by auto
    next
      case Waits
      then show ?thesis using c by simp
    qed
  qed
qed

lemma bmap_indirect:
  assumes f: "file_ok (i_addr ip) v xs" and bn: "4 \<le> bn" "bn < max_bn"
  shows "\<exists>res ra err ip' v' ys. bmap e rd clrbuf sync rablock bn ip v = Some (res, ra, err, ip', v')
    \<and> walk_post e rd 4 (place bn) (i_addr ip, v, xs) (i_addr ip', v', ys) res"
proof -
  let ?a = "i_addr ip"
  obtain j sh m where j: "bmap_level 3 0 1 (bn - 4) = (j, sh, m)" "1 \<le> j" "j \<le> 3" "place bn = (7 - j, idxs (4 - j) sh m)"
    using place_level[OF bn] by blast
  define r where "r = 7 - j"
  have r: "r < NADDR" "depth r = 4 - j" "NADDR - j = r" "valid (r, [])" "4 - j \<le> 3" using j(2,3) by (auto simp: r_def depth_def valid_def)
  have pl: "place bn = (r, [] @ idxs (4 - j) sh m)" using j(4) by (simp add: r_def)
  let ?walk = "\<lambda>nb ip v. map_option (\<lambda>(res, ra, err, v). (res, ra, err, ip, v)) (bmap_walk e rd sync (4 - j) sh m nb 0 v)"
  obtain x v1 where bnw: "bmap_new e True (\<not> (mnt_async e \<and> \<not> sync)) v = (x, v1)" by fastforce
  note c = bmap_new_cases[OF file_okD(1)[OF f] bnw]
  have run: "bmap e rd clrbuf sync rablock bn ip v =
      (if ?a ! r \<noteq> 0 then ?walk (?a ! r) ip v
       else if rd then Some (-1, 0, 0, ip, v)
       else case (x, v1) of
              (Waits, _) \<Rightarrow> None
            | (Full, v) \<Rightarrow> Some (-1, 0, no_space, ip, v)
            | (Failed error, v) \<Rightarrow> Some (-1, 0, error, ip, v)
            | (New nb, v) \<Rightarrow> ?walk nb (ip\<lparr>i_addr := ?a[r := nb], i_changed := True\<rparr>) v)"
    using bn j(1,2) unfolding bmap_def bnw[symmetric] r(3)[symmetric] Let_def by simp
  have wk: "\<exists>res ra err v' ys. ?walk nb ip' w = Some (res, ra, err, ip', v') \<and> walk_post e rd (4 - j) (place bn) (a, w, zs) (a, v', ys) res"
    if w: "file_ok a w zs" "ptr a (disk w) (r, []) = nb" "nb \<noteq> 0" for a w zs nb ip'
  proof -
    have "\<exists>res ra' err v' ys. bmap_walk e rd sync (4 - j) sh m nb 0 w = Some (res, ra', err, v')
        \<and> walk_post e rd (4 - j) (place bn) (a, w, zs) (a, v', ys) res"
      unfolding pl by (rule walk_ok[OF w(1) r(4) _ w(2,3)]) (simp add: r(2))
    then show ?thesis by auto
  qed
  consider (there) "?a ! r \<noteq> 0" | (read) "?a ! r = 0" rd | (new) "?a ! r = 0" "\<not> rd" by blast
  then show ?thesis
  proof cases
    case there
    then obtain res ra err v' ys where "?walk (?a ! r) ip v = Some (res, ra, err, ip, v')"
      "walk_post e rd (4 - j) (place bn) (?a, v, xs) (?a, v', ys) res" using wk[OF f, of "?a ! r" ip] by (auto simp: ptr_def)
    moreover have "walk_post e rd 4 (place bn) (?a, v, xs) (?a, v', ys) res"
      using r(5) by (intro walk_post_step[OF grows_refl[OF f, of "{}"] _ calculation(2)]) simp_all
    ultimately show ?thesis unfolding run using there by auto
  next
    case read
    then have "ptr ?a (disk v) (place bn) = 0" by (simp add: pl ptr_def)
    then have "walk_post e rd 4 (place bn) (?a, v, xs) (?a, v, xs) (-1)"
      using grows_refl[OF f] read by (simp add: walk_post_def)
    then show ?thesis unfolding run using read by auto
  next
    case new
    show ?thesis
    proof (cases x)
      case (New b)
      then obtain ys where ys: "xs = b # ys" "vol_ok v1 ys" "disk v1 = (disk v)(b := replicate NINDIR 0)" "in_range (sb v1) = in_range (sb v)"
        using c by auto
      note G = grows_root[OF f[unfolded ys(1)] ys(2,4,3) r(1) new(1) refl]
      have "b \<noteq> 0" using flist_ok[OF vol_okD(8)[OF file_okD(1)[OF f]], of b] ys(1) by (simp add: in_range_def)
      define ip1 where "ip1 = ip\<lparr>i_addr := ?a[r := b], i_changed := True\<rparr>"
      have a1: "i_addr ip1 = ?a[r := b]" by (simp add: ip1_def)
      obtain res ra err v' zs where k: "?walk b ip1 v1 = Some (res, ra, err, ip1, v')"
        "walk_post e rd (4 - j) (place bn) (?a[r := b], v1, ys) (?a[r := b], v', zs) res"
        using wk[OF growsD(1)[OF G(1)] G(2) \<open>b \<noteq> 0\<close>, of ip1] by (elim exE conjE)
      have "(r, []) \<in> along (place bn)" by (auto simp: along_def pl intro!: exI[of _ 0])
      then have "walk_post e rd 4 (place bn) (?a, v, xs) (?a[r := b], v', zs) res"
        using new(2) r(5) unfolding ys(1) by (intro walk_post_step[OF G(1) _ k(2)]) simp_all
      then show ?thesis unfolding run using new New k(1) a1 by (auto simp: ip1_def)
    next
      case Full
      then show ?thesis using new_fails[OF f bnw _ new(2), of 4 "place bn"] new unfolding run by auto
    next
      case (Failed er)
      then show ?thesis using new_fails[OF f bnw _ new(2), of 4 "place bn"] new unfolding run by auto
    next
      case Waits
      then show ?thesis using c by simp
    qed
  qed
qed

lemma bmap_ok:
  assumes "file_ok (i_addr ip) v xs" and "0 \<le> bn" "bn < max_bn"
  shows "\<exists>res ra err ip' v' ys. bmap e rd clrbuf sync rablock bn ip v = Some (res, ra, err, ip', v')
    \<and> walk_post e rd 4 (place bn) (i_addr ip, v, xs) (i_addr ip', v', ys) res"
proof (cases "bn < 4")
  case True
  then obtain res ra err ip' v' ys where "bmap e rd clrbuf sync rablock bn ip v = Some (res, ra, err, ip', v')"
    "walk_post e rd 1 (place bn) (i_addr ip, v, xs) (i_addr ip', v', ys) res" using bmap_direct[OF assms(1,2)] by blast
  moreover have "walk_post e rd 4 (place bn) (i_addr ip, v, xs) (i_addr ip', v', ys) res"
    by (rule walk_post_step[OF grows_refl[OF assms(1), of "{}"] _ calculation(2)]) simp_all
  ultimately show ?thesis by blast
next
  case False
  then show ?thesis using bmap_indirect[OF assms(1) _ assms(3)] by simp
qed

lemma bmap_out_of_range:
  assumes "bn < 0 \<or> max_bn \<le> bn"
  shows "\<exists>ra. bmap e rd clrbuf sync rablock bn ip v = Some (0, ra, EFBIG, ip, v)"
proof (cases "bn < 0")
  case False
  obtain j sh m where l: "bmap_level 3 0 1 (bn - 4) = (j, sh, m)" by (metis prod_cases3)
  then have "j = 0" using level_too_big[of bn] assms False by simp
  then show ?thesis using False assms l by (simp add: bmap_def)
qed (simp add: bmap_def)

section \<open>Properties\<close>

definition block_of :: "finode \<Rightarrow> volume \<Rightarrow> int \<Rightarrow> daddr" where
  "block_of ip v bn = ptr (i_addr ip) (disk v) (place bn)"

definition bmap_read :: "benv \<Rightarrow> int \<Rightarrow> finode \<Rightarrow> volume \<Rightarrow> int option" where
  "bmap_read e bn ip v = map_option fst (bmap e True False False 0 bn ip v)"

lemma bmap_read_value:
  assumes "file_ok (i_addr ip) v xs" and "0 \<le> bn" "bn < max_bn" and "no_errors e"
  shows "bmap_read e bn ip v = Some (if block_of ip v bn = 0 then -1 else block_of ip v bn)"
  using bmap_ok[OF assms(1-3), of e True False False 0] assms(4) by (auto simp: bmap_read_def walk_post_def block_of_def)

text \<open>An empty file on a volume with the blocks 5 to 9 free.\<close>

definition demo_env :: benv where
  "demo_env = \<lparr>rderr = (\<lambda>_. False), werr = (\<lambda>_. 0), now = 0, stale = replicate NINDIR 0, mnt_async = False, b_error = (\<lambda>_. 0), u_err = 0\<rparr>"

definition demo_inode :: finode where
  "demo_inode = \<lparr>i_addr = replicate NADDR 0, i_changed = False\<rparr>"

definition demo_free :: volume where
  "demo_free = demo_volume\<lparr>sb := (sb demo_volume)\<lparr>fs_nfree := 6, fs_free := [0, 9, 8, 7, 6, 5] @ replicate 194 0, fs_tfree := 5\<rparr>\<rparr>"

lemma demo_file_ok: "file_ok (i_addr demo_inode) demo_free [5, 6, 7, 8, 9]"
proof -
  let ?fr = "[0, 9, 8, 7, 6, 5] @ replicate 194 (0 :: int)"
  have u: "upper 6 ?fr = [5, 6, 7, 8, 9]" by (simp add: upper_def)
  have "flist (in_range (sb demo_free)) (disk demo_free) 6 ?fr (upper 6 ?fr)"
    by (rule flist.Last) (unfold u, simp_all add: in_range_def demo_volume_def demo_free_def Let_def)
  then have "vol_ok demo_free [5, 6, 7, 8, 9]" unfolding u by (simp add: vol_ok_def demo_free_def demo_volume_def Let_def)
  moreover have "ptr (i_addr demo_inode) d p = 0" if "valid p" for d p
    using that by (simp add: ptr_def demo_inode_def valid_def)
  ultimately show ?thesis by (simp add: file_ok_def tree_ok_def demo_inode_def)
qed

text \<open>
  C20.  Writing at a block of a file and reading the map back: without I/O errors and with four free blocks,
  \<open>bmap\<close> for writing gives every logical block that the three levels of indirection can address a disk block, later
  reads find the same one, and the place of every other block of the file is what it was.
\<close>

theorem bmap_write_then_read:
  assumes "file_ok (i_addr ip) v xs" and "0 \<le> bn" "bn < max_bn" and "no_errors e" and "no_errors e'" and "4 \<le> length xs"
  shows "\<exists>nb ra err ip' v'. bmap e False clrbuf sync rablock bn ip v = Some (nb, ra, err, ip', v') \<and> 0 < nb
    \<and> bmap_read e' bn ip' v' = Some nb
    \<and> (\<forall>x. 0 \<le> x \<longrightarrow> x < max_bn \<longrightarrow> x \<noteq> bn \<longrightarrow> bmap_read e' x ip' v' = bmap_read e' x ip v)"
proof -
  obtain nb ra err ip' v' ys where b: "bmap e False clrbuf sync rablock bn ip v = Some (nb, ra, err, ip', v')"
    and w: "walk_post e False 4 (place bn) (i_addr ip, v, xs) (i_addr ip', v', ys) nb"
    using bmap_ok[OF assms(1-3)] by blast
  then have nb: "0 < nb" "ptr (i_addr ip') (disk v') (place bn) = nb" and g: "grows (along (place bn)) (i_addr ip, v, xs) (i_addr ip', v', ys)"
    using assms(4,6) by (auto simp: walk_post_def)
  note f' = growsD(1)[OF g]
  have "block_of ip' v' x = block_of ip v x" if "0 \<le> x" "x < max_bn" "x \<noteq> bn" for x
    using growsD(4)[OF g place_valid(1)[OF that(1,2)]] place_along[OF assms(2,3) that(1,2)] that(3) by (auto simp: block_of_def)
  then have "bmap_read e' x ip' v' = bmap_read e' x ip v" if "0 \<le> x" "x < max_bn" "x \<noteq> bn" for x
    using bmap_read_value[OF f' that(1,2) assms(5)] bmap_read_value[OF assms(1) that(1,2) assms(5)] that by simp
  moreover have "bmap_read e' bn ip' v' = Some nb"
    using bmap_read_value[OF f' assms(2,3,5)] nb by (simp add: block_of_def)
  ultimately show ?thesis using b nb(1) by blast
qed

theorem bmap_write_then_read_witness:
  "\<exists>nb ra err ip' v'. bmap demo_env False False True 0 70000 demo_inode demo_free = Some (nb, ra, err, ip', v') \<and> 0 < nb
     \<and> bmap_read demo_env 70000 ip' v' = Some nb"
  using bmap_write_then_read[OF demo_file_ok, of 70000 demo_env demo_env False True 0]
  by (auto simp: no_errors_def demo_env_def)

inductive bmap_step :: "finode \<times> volume \<Rightarrow> finode \<times> volume \<Rightarrow> bool" where
  bmap_step: "bmap e rd clrbuf sync rablock bn ip v = Some (res, ra, err, ip', v') \<Longrightarrow> bmap_step (ip, v) (ip', v')"

lemma bmap_step_grows:
  assumes "bmap_step x y" and "file_ok (i_addr (fst x)) (snd x) xs"
  shows "\<exists>ys. grows UNIV (i_addr (fst x), snd x, xs) (i_addr (fst y), snd y, ys)"
  using assms(1)
proof cases
  case (bmap_step e rd clrbuf sync rablock bn ip v res ra err ip' v')
  show ?thesis
  proof (cases "0 \<le> bn \<and> bn < max_bn")
    case True
    then show ?thesis
      using bmap_ok[of ip v xs bn e rd clrbuf sync rablock] bmap_step assms(2) grows_mono[of "along (place bn)" _ _ UNIV]
      by (fastforce simp: walk_post_def)
  next
    case False
    then have "ip' = ip" "v' = v" using bmap_out_of_range[of bn e rd clrbuf sync rablock ip v] bmap_step(3) by auto
    then show ?thesis using grows_refl bmap_step(1,2) assms(2) by fastforce
  qed
qed

lemma bmap_steps_grow:
  "bmap_step\<^sup>*\<^sup>* x y \<Longrightarrow> file_ok (i_addr (fst x)) (snd x) xs
     \<Longrightarrow> \<exists>ys. grows UNIV (i_addr (fst x), snd x, xs) (i_addr (fst y), snd y, ys)"
proof (induction rule: rtranclp_induct)
  case (step y z)
  then obtain ys where ys: "grows UNIV (i_addr (fst x), snd x, xs) (i_addr (fst y), snd y, ys)" by blast
  from bmap_step_grows[OF step(2) growsD(1)[OF ys]] obtain zs where
    "grows UNIV (i_addr (fst y), snd y, ys) (i_addr (fst z), snd z, zs)" by blast
  then show ?case using grows_trans[OF ys, of UNIV] by blast
qed (use grows_refl in blast)

text \<open>
  C12.  The blocks of a file never mix: along any sequence of \<open>bmap\<close> calls, whichever reads, writes and
  allocations fail, two blocks of the file have different disk blocks, none of them is free, a block that had a
  disk block keeps it, and no disk block is written but free ones and indirect blocks of this file, so that the data of
  this and of every other file stays.
\<close>

theorem bmap_keeps_blocks_apart:
  assumes "bmap_step\<^sup>*\<^sup>* (ip, v) (ip', v')" and "file_ok (i_addr ip) v xs"
  shows "\<exists>ys. vol_ok v' ys \<and> set ys \<subseteq> set xs
    \<and> (\<forall>x y. 0 \<le> x \<longrightarrow> x < max_bn \<longrightarrow> 0 \<le> y \<longrightarrow> y < max_bn \<longrightarrow> x \<noteq> y \<longrightarrow> block_of ip' v' x \<noteq> 0 \<longrightarrow> block_of ip' v' x \<noteq> block_of ip' v' y)
    \<and> (\<forall>x. 0 \<le> x \<longrightarrow> x < max_bn \<longrightarrow> block_of ip' v' x \<noteq> 0 \<longrightarrow> block_of ip' v' x \<notin> set ys)
    \<and> (\<forall>x. 0 \<le> x \<longrightarrow> x < max_bn \<longrightarrow> block_of ip v x \<noteq> 0 \<longrightarrow> block_of ip' v' x = block_of ip v x)
    \<and> (\<forall>c. c \<notin> set xs \<longrightarrow> c \<noteq> 0 \<longrightarrow> \<not> indirect (i_addr ip') (disk v') c \<longrightarrow> disk v' c = disk v c)"
proof -
  obtain ys where g: "grows UNIV (i_addr ip, v, xs) (i_addr ip', v', ys)" using bmap_steps_grow[OF assms(1)] assms(2) by auto
  note f = growsD(1)[OF g]
  note t = tree_okD[OF file_okD(2)[OF f]]
  have "block_of ip' v' x \<noteq> block_of ip' v' y"
    if "0 \<le> x" "x < max_bn" "0 \<le> y" "y < max_bn" "x \<noteq> y" "block_of ip' v' x \<noteq> 0" for x y
    using t(5)[OF place_valid(1)[OF that(1,2)] place_valid(1)[OF that(3,4)]] place_inj[OF that(1-4)] that(5,6) by (auto simp: block_of_def)
  moreover have "block_of ip' v' x \<notin> set ys" if "0 \<le> x" "x < max_bn" "block_of ip' v' x \<noteq> 0" for x
    using t(3)[OF place_valid(1)[OF that(1,2)]] that(3) by (simp add: block_of_def)
  moreover have "block_of ip' v' x = block_of ip v x" if "0 \<le> x" "x < max_bn" "block_of ip v x \<noteq> 0" for x
    using growsD(5)[OF g place_valid(1)[OF that(1,2)]] that(3) by (simp add: block_of_def)
  ultimately show ?thesis using file_okD(1)[OF f] growsD(3,6)[OF g] by blast
qed

theorem bmap_keeps_blocks_apart_witness:
  "\<exists>ip' v'. bmap_step\<^sup>*\<^sup>* (demo_inode, demo_free) (ip', v') \<and> 0 < block_of ip' v' 300 \<and> block_of ip' v' 300 \<noteq> block_of ip' v' 301"
proof -
  have n: "no_errors demo_env" by (simp add: no_errors_def demo_env_def)
  obtain nb ra err ip' v' ys where b: "bmap demo_env False False True 0 300 demo_inode demo_free = Some (nb, ra, err, ip', v')"
    and w: "walk_post demo_env False 4 (place 300) (i_addr demo_inode, demo_free, [5, 6, 7, 8, 9]) (i_addr ip', v', ys) nb"
    using bmap_ok[OF demo_file_ok, of 300 demo_env False False True 0] by auto
  then have s: "bmap_step\<^sup>*\<^sup>* (demo_inode, demo_free) (ip', v')" "0 < block_of ip' v' 300"
    using n by (auto simp: walk_post_def block_of_def intro!: bmap_step.intros)
  have "\<forall>x y. 0 \<le> x \<longrightarrow> x < max_bn \<longrightarrow> 0 \<le> y \<longrightarrow> y < max_bn \<longrightarrow> x \<noteq> y \<longrightarrow> block_of ip' v' x \<noteq> 0 \<longrightarrow> block_of ip' v' x \<noteq> block_of ip' v' y"
    using bmap_keeps_blocks_apart[OF s(1) demo_file_ok] by (elim exE conjE)
  from this[rule_format, of 300 301] have "block_of ip' v' 300 \<noteq> block_of ip' v' 301" using s(2) by simp
  then show ?thesis using s by blast
qed

end
