(* ===== verification/Ufs_Trunc.thy ===== *)
theory Ufs_Trunc
  imports Ufs_Bmap
begin

text \<open>
  Making a file shorter or longer: \<open>itrunc\<close>, \<open>indirtrunc\<close> and \<open>trsingle\<close> of \<open>sys/kern/ufs_inode.c\<close>.

  The blocks of a file beyond the new length go back to the free list, the last first: those of the triple, the
  double and the single indirect tree, then the direct ones.  \<open>lead\<close> numbers the places of a file by the first logical block
  at or below them, and a place is given up exactly when its number is beyond the last block kept.

  The read errors of \<open>benv\<close> are modelled; the result of writing a shortened indirect block is not looked at by the
  code, and a failed read inside \<open>indirtrunc\<close> leaves the tree alone but also an error in \<open>u_error\<close>, which is not
  recorded.  The write of the inode that ends \<open>itrunc\<close> is left out, \<open>i_changed\<close> stands for the flags it acts on.
\<close>

section \<open>Model\<close>

abbreviation e_inval :: int where "e_inval \<equiv> 22"
abbreviation MAXPIPSIZ :: int where "MAXPIPSIZ \<equiv> 4096"

record tinode =
  ti :: finode
  i_size :: int
  i_pipe :: bool

text \<open>The loops over addresses, from the last to the first: whatever is below each is released, then the block itself.\<close>

primrec free_each :: "(daddr \<Rightarrow> volume \<Rightarrow> volume option) \<Rightarrow> int list \<Rightarrow> daddr list \<Rightarrow> volume \<Rightarrow> volume option" where
  "free_each below st [] v = Some v"
| "free_each below st (nb # nbs) v =
     (if nb = 0 then free_each below st nbs v
      else case below nb v of
             None \<Rightarrow> None
           | Some v \<Rightarrow> (case free st nb v of None \<Rightarrow> None | Some v \<Rightarrow> free_each below st nbs v))"

definition trsingle :: "benv \<Rightarrow> int list \<Rightarrow> int \<Rightarrow> volume \<Rightarrow> volume option" where
  "trsingle e blarray lst v = free_each (\<lambda>_ v. Some v) (stale e) (rev (drop (nat (lst + 1)) blarray)) v"

text \<open>The block with the entries after \<open>lst\<close> cleared.\<close>

definition cleared :: "int list \<Rightarrow> int \<Rightarrow> int list" where
  "cleared bap lst = take (nat (lst + 1)) bap @ replicate (NINDIR - nat (lst + 1)) 0"

primrec indirtrunc :: "benv \<Rightarrow> nat \<Rightarrow> daddr \<Rightarrow> int \<Rightarrow> volume \<Rightarrow> volume option" where
  "indirtrunc e 0 bn lastbn v =
     (if rderr e bn then Some v
      else
        let bap = disk v bn
        in trsingle e bap lastbn (v\<lparr>disk := (disk v)(bn := cleared bap lastbn)\<rparr>))"
| "indirtrunc e (Suc level) bn lastbn v =
     (let factor = 256 ^ Suc level;
          last = (if lastbn > 0 then lastbn div factor else lastbn)
      in if rderr e bn then Some v
         else
           let bap = disk v bn
           in case free_each (\<lambda>nb. indirtrunc e level nb (-1)) (stale e) (rev (drop (nat (last + 1)) bap))
                     (v\<lparr>disk := (disk v)(bn := cleared bap last)\<rparr>) of
                None \<Rightarrow> None
              | Some v \<Rightarrow>
                  if lastbn \<ge> 0 \<and> bap ! nat last \<noteq> 0 then indirtrunc e level (bap ! nat last) (lastbn mod factor) v
                  else Some v)"

text \<open>One of the three indirect trees, and the loop over them; the result says whether it ended with \<open>goto done\<close>.\<close>

definition trunc_root :: "benv \<Rightarrow> nat \<Rightarrow> daddr \<Rightarrow> int \<Rightarrow> volume \<Rightarrow> volume option" where
  "trunc_root e level bn lastib v =
     (if bn \<noteq> 0 then
        case indirtrunc e level bn lastib v of
          None \<Rightarrow> None
        | Some v \<Rightarrow> if lastib < 0 then free (stale e) bn v else Some v
      else Some v)"

primrec trunc_roots :: "benv \<Rightarrow> (nat \<Rightarrow> int) \<Rightarrow> daddr list \<Rightarrow> nat \<Rightarrow> volume \<Rightarrow> (bool \<times> volume) option" where
  "trunc_roots e lastib i_ib 0 v = Some (False, v)"
| "trunc_roots e lastib i_ib (Suc level) v =
     (case trunc_root e level (i_ib ! level) (lastib level) v of
        None \<Rightarrow> None
      | Some v \<Rightarrow> if lastib level \<ge> 0 then Some (True, v) else trunc_roots e lastib i_ib level v)"

definition lastiblock :: "int \<Rightarrow> nat \<Rightarrow> int" where
  "lastiblock lastblock level =
     (let n = lastblock - 4 - (if level = 0 then 0 else if level = 1 then 256 else 256 + 65536) in if n < 0 then -1 else n)"

definition kept_addr :: "int \<Rightarrow> daddr list \<Rightarrow> daddr list" where
  "kept_addr lastblock a =
     map (\<lambda>r. if r < 4 then (if int r > lastblock then 0 else a ! r)
              else if lastiblock lastblock (r - 4) < 0 then 0 else a ! r) [0..<NADDR]"

definition shrink :: "benv \<Rightarrow> int \<Rightarrow> daddr list \<Rightarrow> volume \<Rightarrow> (daddr list \<times> volume) option" where
  "shrink e lastblock a v =
     (case trunc_roots e (lastiblock lastblock) (drop 4 a) 3 v of
        None \<Rightarrow> None
      | Some (True, v) \<Rightarrow> Some (kept_addr lastblock a, v)
      | Some (False, v) \<Rightarrow>
          map_option (\<lambda>v. (kept_addr lastblock a, v))
            (free_each (\<lambda>_ v. Some v) (stale e) (rev (drop (nat (lastblock + 1)) (take 4 a))) v))"

text \<open>The words of a block with the bytes from \<open>offset\<close> on cleared.\<close>

definition zero_from :: "nat \<Rightarrow> int list \<Rightarrow> int list" where
  "zero_from offset w =
     take (offset div 4) w @ [(w ! (offset div 4)) mod 2 ^ (8 * (offset mod 4))] @ replicate (NINDIR - offset div 4 - 1) 0"

definition touch :: "tinode \<Rightarrow> tinode" where
  "touch ip = ip\<lparr>ti := (ti ip)\<lparr>i_changed := True\<rparr>\<rparr>"

text \<open>Yields \<open>u_error\<close>, of which \<open>err0\<close> is the value on entry, the inode and the volume.\<close>

definition itrunc :: "benv \<Rightarrow> int \<Rightarrow> int \<Rightarrow> bool \<Rightarrow> tinode \<Rightarrow> volume \<Rightarrow> (int \<times> tinode \<times> volume) option" where
  "itrunc e err0 len sync oip v =
     (if len < 0 then Some (e_inval, oip, v)
      else
        let ip = (if i_pipe oip then oip\<lparr>i_size := MAXPIPSIZ\<rparr> else oip);
            lastblock = (len + 1023) div 1024 - 1;
            finish = (\<lambda>ip v. map_option (\<lambda>(a, v). (err0, touch (ip\<lparr>i_size := len, ti := (ti ip)\<lparr>i_addr := a\<rparr>\<rparr>), v))
                               (shrink e lastblock (i_addr (ti ip)) v))
        in if \<not> i_pipe oip \<and> i_size oip = len then Some (err0, touch ip, v)
           else if i_size ip < len then
             (case bmap (e\<lparr>u_err := err0\<rparr>) False True sync 0 ((len - 1) div 1024) (ti ip) v of
                None \<Rightarrow> None
              | Some (bn, ra, err, f, v) \<Rightarrow>
                  let err = (if err \<noteq> 0 then err else err0); ip = ip\<lparr>ti := f\<rparr>
                  in if err \<noteq> 0 \<or> bn < 0 then Some (err, ip, v) else Some (err, touch (ip\<lparr>i_size := len\<rparr>), v))
           else if len mod 1024 = 0 then finish ip v
           else
             (case bmap (e\<lparr>u_err := err0\<rparr>) False True sync 0 (len div 1024) (ti ip) v of
                None \<Rightarrow> None
              | Some (bn, ra, err, f, v) \<Rightarrow>
                  let err = (if err \<noteq> 0 then err else err0); ip = ip\<lparr>ti := f\<rparr>
                  in if err \<noteq> 0 \<or> bn < 0 then Some (err, ip, v)
                     else if rderr e bn then Some (EIO, ip, v)
                     else finish ip (v\<lparr>disk := (disk v)(bn := zero_from (nat (len mod 1024)) (disk v bn))\<rparr>)))"

section \<open>Trees of blocks\<close>

text \<open>The blocks of the tree of depth \<open>k\<close> at address \<open>p\<close>, and that they are all different.\<close>

primrec nodes :: "(daddr \<Rightarrow> int list) \<Rightarrow> nat \<Rightarrow> daddr \<Rightarrow> daddr set" where
  "nodes d 0 p = (if p = 0 then {} else {p})"
| "nodes d (Suc k) p = (if p = 0 then {} else insert p (\<Union>i<NINDIR. nodes d k (d p ! i)))"

primrec subtree :: "(daddr \<Rightarrow> bool) \<Rightarrow> (daddr \<Rightarrow> int list) \<Rightarrow> nat \<Rightarrow> daddr \<Rightarrow> bool" where
  "subtree R d 0 p \<longleftrightarrow> p = 0 \<or> R p"
| "subtree R d (Suc k) p \<longleftrightarrow> p = 0 \<or> R p \<and> length (d p) = NINDIR
     \<and> (\<forall>i<NINDIR. subtree R d k (d p ! i) \<and> p \<notin> nodes d k (d p ! i))
     \<and> (\<forall>i<NINDIR. \<forall>j<NINDIR. i \<noteq> j \<longrightarrow> nodes d k (d p ! i) \<inter> nodes d k (d p ! j) = {})"

lemma nodes_0 [simp]: "nodes d k 0 = {}"
  by (cases k) simp_all

lemma subtree_0 [simp]: "subtree R d k 0"
  by (cases k) simp_all

lemma nodes_root: "p \<noteq> 0 \<Longrightarrow> p \<in> nodes d k p"
  by (cases k) simp_all

lemma zero_not_node [simp]: "0 \<notin> nodes d k p"
  by (induction k arbitrary: p) auto

lemma nodes_range: "subtree R d k p \<Longrightarrow> b \<in> nodes d k p \<Longrightarrow> R b"
  by (induction k arbitrary: p) (auto split: if_splits)

lemma nodes_frame: "(\<And>c. c \<in> nodes d k p \<Longrightarrow> d' c = d c) \<Longrightarrow> nodes d' k p = nodes d k p"
proof (induction k arbitrary: p)
  case (Suc k)
  show ?case
  proof (cases "p = 0")
    case False
    then have "d' p = d p" using Suc.prems by simp
    moreover have "nodes d' k (d p ! i) = nodes d k (d p ! i)" if "i < NINDIR" for i
      using Suc.prems False that by (intro Suc.IH) auto
    ultimately show ?thesis using False by simp
  qed simp
qed simp

lemma subtree_frame: "(\<And>c. c \<in> nodes d k p \<Longrightarrow> d' c = d c) \<Longrightarrow> subtree R d k p \<Longrightarrow> subtree R d' k p"
proof (induction k arbitrary: p)
  case (Suc k)
  show ?case
  proof (cases "p = 0")
    case False
    then have p: "d' p = d p" using Suc.prems by simp
    have same: "\<And>c. c \<in> nodes d k (d p ! i) \<Longrightarrow> d' c = d c" if "i < NINDIR" for i using Suc.prems(1) False that by auto
    have "nodes d' k (d p ! i) = nodes d k (d p ! i)" if "i < NINDIR" for i by (rule nodes_frame[OF same[OF that]])
    moreover have "subtree R d' k (d p ! i)" if "i < NINDIR" for i
      using Suc.prems(2) False that by (intro Suc.IH same) auto
    ultimately show ?thesis using Suc.prems(2) False p by simp
  qed simp
qed simp

lemma look_frame:
  "(\<And>c. c \<in> nodes d k p \<Longrightarrow> d' c = d c) \<Longrightarrow> length is \<le> k \<Longrightarrow> \<forall>i\<in>set is. i < NINDIR \<Longrightarrow> look d' p is = look d p is"
proof (induction k arbitrary: p "is")
  case (Suc k)
  show ?case
  proof (cases "is")
    case (Cons i js)
    show ?thesis
    proof (cases "p = 0")
      case False
      then have "d' p = d p" using Suc.prems by simp
      moreover have "look d' (d p ! i) js = look d (d p ! i) js"
        using Suc.prems False Cons by (intro Suc.IH) auto
      ultimately show ?thesis using Cons by simp
    qed (simp add: Cons)
  qed simp
qed simp

text \<open>The indirect blocks among them.\<close>

primrec inner :: "(daddr \<Rightarrow> int list) \<Rightarrow> nat \<Rightarrow> daddr \<Rightarrow> daddr set" where
  "inner d 0 p = {}"
| "inner d (Suc k) p = (if p = 0 then {} else insert p (\<Union>i<NINDIR. inner d k (d p ! i)))"

lemma inner_frame: "(\<And>c. c \<in> nodes d k p \<Longrightarrow> d' c = d c) \<Longrightarrow> inner d' k p = inner d k p"
proof (induction k arbitrary: p)
  case (Suc k)
  show ?case
  proof (cases "p = 0")
    case False
    then have "d' p = d p" using Suc.prems by simp
    moreover have "inner d' k (d p ! i) = inner d k (d p ! i)" if "i < NINDIR" for i
      using Suc.prems False that by (intro Suc.IH) auto
    ultimately show ?thesis using False by simp
  qed simp
qed simp

text \<open>Paths below a tree of depth \<open>k\<close>.\<close>

definition paths :: "nat \<Rightarrow> nat list set" where
  "paths k = {is. length is \<le> k \<and> (\<forall>i\<in>set is. i < NINDIR)}"

lemma paths_Cons [simp]: "i # is \<in> paths (Suc k) \<longleftrightarrow> i < NINDIR \<and> is \<in> paths k"
  by (auto simp: paths_def)

lemma paths_Nil [simp]: "[] \<in> paths k"
  by (simp add: paths_def)

lemma nodes_look: "nodes d k p = look d p ` paths k - {0}"
proof (induction k arbitrary: p)
  case 0
  then show ?case by (auto simp: paths_def)
next
  case (Suc k)
  have "paths (Suc k) = insert [] (\<Union>i<NINDIR. (#) i ` paths k)"
  proof
    show "paths (Suc k) \<subseteq> insert [] (\<Union>i<NINDIR. (#) i ` paths k)"
    proof
      fix x assume x: "x \<in> paths (Suc k)"
      show "x \<in> insert [] (\<Union>i<NINDIR. (#) i ` paths k)" using x by (cases x) auto
    qed
  qed auto
  then have "look d p ` paths (Suc k) = insert p (\<Union>i<NINDIR. (\<lambda>is. look d p (i # is)) ` paths k)"
    by (simp add: image_UN image_image)
  then show ?case using Suc by (auto simp del: paths_Cons)
qed

section \<open>Releasing trees\<close>

text \<open>From \<open>v\<close> to \<open>v'\<close> the blocks \<open>ys\<close> went to the free list, and only blocks in \<open>T\<close> were written.\<close>

definition releases :: "volume \<Rightarrow> daddr list \<Rightarrow> volume \<Rightarrow> daddr list \<Rightarrow> daddr set \<Rightarrow> bool" where
  "releases v xs v' ys T \<longleftrightarrow> vol_ok v' (ys @ xs) \<and> in_range (sb v') = in_range (sb v) \<and> (\<forall>c. c \<notin> T \<longrightarrow> disk v' c = disk v c)"

lemma releases_refl: "vol_ok v xs \<Longrightarrow> releases v xs v [] T"
  by (simp add: releases_def)

lemma releases_trans:
  "releases v xs v1 ys T \<Longrightarrow> releases v1 (ys @ xs) v2 zs U \<Longrightarrow> T \<subseteq> W \<Longrightarrow> U \<subseteq> W \<Longrightarrow> releases v xs v2 (zs @ ys) W"
  unfolding releases_def by (metis append_assoc subsetD)

lemma releases_write:
  assumes "releases (v\<lparr>disk := (disk v)(p := w)\<rparr>) xs v' ys T" and "p \<in> U" and "T \<subseteq> U"
  shows "releases v xs v' ys U"
  using assms unfolding releases_def by auto

lemma releases_free:
  assumes "vol_ok v xs" and "in_range (sb v) b" and "b \<notin> set xs"
  shows "\<exists>v'. free st b v = Some v' \<and> releases v xs v' [b] {b}"
  using free_puts[OF assms, of st] free_same_range[of st b v] by (auto simp: releases_def)

text \<open>What a call that empties the tree of depth \<open>k\<close> below an address promises.\<close>

definition empties :: "(daddr \<Rightarrow> volume \<Rightarrow> volume option) \<Rightarrow> nat \<Rightarrow> bool" where
  "empties below k \<longleftrightarrow> (\<forall>b v xs. b \<noteq> 0 \<longrightarrow> vol_ok v xs \<longrightarrow> subtree (in_range (sb v)) (disk v) k b \<longrightarrow> nodes (disk v) k b \<inter> set xs = {}
     \<longrightarrow> (\<exists>v' ys. below b v = Some v' \<and> releases v xs v' ys (nodes (disk v) k b) \<and> set ys = nodes (disk v) k b - {b}))"

lemma empties_leaf: "empties (\<lambda>_ v. Some v) 0"
  unfolding empties_def by (auto intro!: exI[of _ "[]"] releases_refl)

primrec apart :: "(daddr \<Rightarrow> int list) \<Rightarrow> nat \<Rightarrow> daddr list \<Rightarrow> bool" where
  "apart d k [] \<longleftrightarrow> True"
| "apart d k (b # bs) \<longleftrightarrow> (\<forall>c\<in>set bs. nodes d k b \<inter> nodes d k c = {}) \<and> apart d k bs"

lemma apart_nth:
  "(\<And>i j. i < length bs \<Longrightarrow> j < length bs \<Longrightarrow> i \<noteq> j \<Longrightarrow> nodes d k (bs ! i) \<inter> nodes d k (bs ! j) = {}) \<Longrightarrow> apart d k bs"
proof (induction bs)
  case (Cons b bs)
  have "nodes d k b \<inter> nodes d k c = {}" if c: "c \<in> set bs" for c
  proof -
    obtain j where "j < length bs" "c = bs ! j" using c by (auto simp: in_set_conv_nth)
    then show ?thesis using Cons.prems[of 0 "Suc j"] by simp
  qed
  moreover have "apart d k bs"
    by (rule Cons.IH) (use Cons.prems in \<open>metis Suc_less_eq length_Cons nat.inject nth_Cons_Suc\<close>)
  ultimately show ?case by simp
qed simp

lemma apart_frame:
  assumes "apart d k bs" and "\<And>b c. b \<in> set bs \<Longrightarrow> c \<in> nodes d k b \<Longrightarrow> d' c = d c"
  shows "apart d' k bs"
proof -
  have "nodes d' k b = nodes d k b" if "b \<in> set bs" for b using assms(2)[OF that] by (rule nodes_frame)
  with assms(1) show ?thesis by (induction bs) auto
qed

lemma free_each_ok:
  assumes "empties below k"
  shows "vol_ok v xs \<Longrightarrow> \<forall>b\<in>set nbs. subtree (in_range (sb v)) (disk v) k b \<and> nodes (disk v) k b \<inter> set xs = {} \<Longrightarrow> apart (disk v) k nbs
    \<Longrightarrow> \<exists>v' ys. free_each below st nbs v = Some v' \<and> releases v xs v' ys (\<Union>b\<in>set nbs. nodes (disk v) k b)
          \<and> set ys = (\<Union>b\<in>set nbs. nodes (disk v) k b)"
proof (induction nbs arbitrary: v xs)
  case Nil
  then show ?case by (auto intro!: releases_refl)
next
  case (Cons b bs)
  show ?case
  proof (cases "b = 0")
    case True
    then show ?thesis using Cons.IH[OF Cons.prems(1)] Cons.prems(2,3) by simp
  next
    case False
    let ?N = "nodes (disk v) k"
    have sb: "subtree (in_range (sb v)) (disk v) k b" "?N b \<inter> set xs = {}" using Cons.prems(2) by auto
    from assms[unfolded empties_def, rule_format, OF False Cons.prems(1) this] obtain v1 ys1 where
      v1: "below b v = Some v1" "releases v xs v1 ys1 (?N b)" "set ys1 = ?N b - {b}" by blast
    have b: "b \<in> ?N b" using False by (rule nodes_root)
    have "in_range (sb v1) b" using v1(2) nodes_range[OF sb(1) b] by (simp add: releases_def)
    moreover have "b \<notin> set (ys1 @ xs)" using v1(3) sb(2) b by auto
    ultimately obtain v2 where v2: "free st b v1 = Some v2" "releases v1 (ys1 @ xs) v2 [b] {b}"
      using releases_free[of v1 "ys1 @ xs" b st] v1(2) by (auto simp: releases_def)
    have r2: "releases v xs v2 ([b] @ ys1) (?N b)" by (rule releases_trans[OF v1(2) v2(2)]) (use b in auto)
    have same: "disk v2 c = disk v c" if "x \<in> set bs" "c \<in> ?N x" for x c
      using r2 Cons.prems(3) that by (auto simp: releases_def)
    have nx: "nodes (disk v2) k x = ?N x" if "x \<in> set bs" for x by (rule nodes_frame[OF same[OF that]])
    have "\<exists>v' ys. free_each below st bs v2 = Some v' \<and> releases v2 (([b] @ ys1) @ xs) v' ys (\<Union>x\<in>set bs. nodes (disk v2) k x)
          \<and> set ys = (\<Union>x\<in>set bs. nodes (disk v2) k x)"
    proof (rule Cons.IH)
      show "vol_ok v2 (([b] @ ys1) @ xs)" using r2 by (simp add: releases_def)
      show "apart (disk v2) k bs" by (rule apart_frame[OF _ same]) (use Cons.prems(3) in simp_all)
      show "\<forall>x\<in>set bs. subtree (in_range (sb v2)) (disk v2) k x \<and> nodes (disk v2) k x \<inter> set (([b] @ ys1) @ xs) = {}"
      proof
        fix x assume x: "x \<in> set bs"
        have "subtree (in_range (sb v)) (disk v2) k x" by (rule subtree_frame[OF same[OF x]]) (use Cons.prems(2) x in simp_all)
        moreover have "?N b \<inter> ?N x = {}" "?N x \<inter> set xs = {}" using x Cons.prems(2,3) by auto
        then have "?N x \<inter> set (([b] @ ys1) @ xs) = {}" using v1(3) b by auto
        ultimately show "subtree (in_range (sb v2)) (disk v2) k x \<and> nodes (disk v2) k x \<inter> set (([b] @ ys1) @ xs) = {}"
          using r2 nx[OF x] by (simp add: releases_def)
      qed
    qed
    then obtain v3 ys3 where v3: "free_each below st bs v2 = Some v3" "releases v2 (([b] @ ys1) @ xs) v3 ys3 (\<Union>x\<in>set bs. ?N x)"
      "set ys3 = (\<Union>x\<in>set bs. ?N x)" using nx by auto
    have "releases v xs v3 (ys3 @ [b] @ ys1) (\<Union>x\<in>set (b # bs). ?N x)" by (rule releases_trans[OF r2 v3(2)]) auto
    moreover have "set (ys3 @ [b] @ ys1) = (\<Union>x\<in>set (b # bs). ?N x)" using v3(3) v1(3) b by auto
    moreover have "free_each below st (b # bs) v = Some v3" using False v1(1) v2(1) v3(1) by simp
    ultimately show ?thesis by blast
  qed
qed

section \<open>Cutting a tree\<close>

text \<open>The first logical block at or below a path, counted from the first of the tree.\<close>

fun leaf_no :: "nat \<Rightarrow> nat list \<Rightarrow> int" where
  "leaf_no (Suc k) (i # is) = int i * 256 ^ k + leaf_no k is"
| "leaf_no k [] = 0"
| "leaf_no 0 is = 0"

lemma leaf_no_Nil [simp]: "leaf_no k [] = 0"
  by (cases k) simp_all

lemma leaf_no_bounds: "is \<in> paths k \<Longrightarrow> 0 \<le> leaf_no k is \<and> leaf_no k is < 256 ^ k"
proof (induction k "is" rule: leaf_no.induct)
  case (1 k i "is")
  then have "0 \<le> leaf_no k is" "leaf_no k is < 256 ^ k" "i < NINDIR" by auto
  moreover have "(int i + 1) * 256 ^ k \<le> 256 * (256 ^ k :: int)" using \<open>i < NINDIR\<close> by (intro mult_right_mono) auto
  then have "int i * 256 ^ k + 256 ^ k \<le> 256 * (256 ^ k :: int)" by (simp only: distrib_right mult_1)
  moreover have "0 \<le> int i * 256 ^ k" by simp
  ultimately show ?case unfolding leaf_no.simps power_Suc by linarith
qed auto

definition beyond :: "nat \<Rightarrow> int \<Rightarrow> nat list set" where
  "beyond k lastbn = {is \<in> paths k. is \<noteq> [] \<and> lastbn < leaf_no k is}"

definition trunc_post :: "volume \<Rightarrow> daddr list \<Rightarrow> daddr \<Rightarrow> nat \<Rightarrow> int \<Rightarrow> volume \<Rightarrow> daddr list \<Rightarrow> bool" where
  "trunc_post v xs p k lastbn v' ys \<longleftrightarrow> releases v xs v' ys (nodes (disk v) k p)
     \<and> set ys = look (disk v) p ` beyond k lastbn - {0}
     \<and> (\<forall>is\<in>paths k. look (disk v') p is = (if is \<in> beyond k lastbn then 0 else look (disk v) p is))
     \<and> (\<forall>c. c \<notin> set ys \<longrightarrow> length (disk v' c) = length (disk v c) \<and> (c \<notin> inner (disk v) k p \<longrightarrow> disk v' c = disk v c))"

text \<open>The part of the index the entries after the last one kept have.\<close>

definition last_entry :: "nat \<Rightarrow> int \<Rightarrow> int" where
  "last_entry k lastbn = (if lastbn > 0 then lastbn div 256 ^ k else lastbn)"

lemma last_entry_bounds:
  assumes "-1 \<le> lastbn" and "lastbn < 256 ^ Suc k"
  shows "-1 \<le> last_entry k lastbn" "last_entry k lastbn < 256" "0 \<le> lastbn \<Longrightarrow> last_entry k lastbn = lastbn div 256 ^ k"
proof -
  have p: "(0::int) < 256 ^ k" by simp
  show eq: "last_entry k lastbn = lastbn div 256 ^ k" if "0 \<le> lastbn" using that by (auto simp: last_entry_def)
  have "0 \<le> lastbn div 256 ^ k" if "0 < lastbn" using that p by (simp add: pos_imp_zdiv_nonneg_iff)
  then show "-1 \<le> last_entry k lastbn" using assms(1) by (fastforce simp: last_entry_def)
  have "lastbn div 256 ^ k < 256" if "0 \<le> lastbn"
  proof -
    have "lastbn div 256 ^ k \<le> (256 * 256 ^ k - 1) div 256 ^ k" using assms(2) by (intro zdiv_mono1) simp_all
    also have "(256 * 256 ^ k - 1) div 256 ^ k = (255 :: int)"
      by (rule int_div_pos_eq[of _ _ _ "256 ^ k - 1"]) simp_all
    finally show ?thesis by simp
  qed
  then show "last_entry k lastbn < 256" using eq by (cases "0 \<le> lastbn") (auto simp: last_entry_def)
qed

lemma beyond_Cons:
  assumes "-1 \<le> lastbn" and "lastbn < 256 ^ Suc k" and "i < NINDIR" and "is \<in> paths k"
  shows "i # is \<in> beyond (Suc k) lastbn \<longleftrightarrow>
    last_entry k lastbn < int i \<or> 0 \<le> lastbn \<and> int i = last_entry k lastbn \<and> is \<in> beyond k (lastbn mod 256 ^ k)"
proof (cases "0 \<le> lastbn")
  case False
  then have "lastbn = -1" using assms(1) by simp
  moreover have "0 \<le> int i * 256 ^ k + leaf_no k is" using leaf_no_bounds[OF assms(4)] by simp
  ultimately show ?thesis using assms(3,4) by (simp add: beyond_def last_entry_def)
next
  case True
  define q r where "q = lastbn div 256 ^ k" and "r = lastbn mod 256 ^ k"
  have l: "lastbn = q * 256 ^ k + r" "0 \<le> r" "r < 256 ^ k" by (simp_all add: q_def r_def div_mult_mod_eq)
  have q: "last_entry k lastbn = q" using last_entry_bounds(3)[OF assms(1,2) True] by (simp add: q_def)
  note b = leaf_no_bounds[OF assms(4)]
  have iff: "lastbn < int i * 256 ^ k + leaf_no k is \<longleftrightarrow> q < int i \<or> int i = q \<and> r < leaf_no k is"
  proof (cases "int i" q rule: linorder_cases)
    case less
    then have "(int i + 1) * 256 ^ k \<le> q * 256 ^ k" by (intro mult_right_mono) auto
    then show ?thesis using less l b by (auto simp: algebra_simps)
  next
    case greater
    then have "(q + 1) * 256 ^ k \<le> int i * 256 ^ k" by (intro mult_right_mono) auto
    then show ?thesis using greater l b by (auto simp: algebra_simps)
  qed (use l in auto)
  have "is \<noteq> [] " if "r < leaf_no k is" using that l(2) by (cases "is") auto
  then show ?thesis using iff assms(3,4) True unfolding q beyond_def r_def[symmetric] by auto
qed

text \<open>The entries of the block at \<open>p\<close> from \<open>m\<close> on.\<close>

definition tail_nodes :: "(daddr \<Rightarrow> int list) \<Rightarrow> nat \<Rightarrow> daddr \<Rightarrow> nat \<Rightarrow> daddr set" where
  "tail_nodes d k p m = (\<Union>i\<in>{m..<NINDIR}. nodes d k (d p ! i))"

lemma drop_map_nth: "drop m w = map ((!) w) [m..<length w]"
  by (rule nth_equalityI) simp_all

text \<open>A tree whose block at \<open>p\<close> is there, all of it outside the free list.\<close>

definition rooted :: "volume \<Rightarrow> daddr list \<Rightarrow> nat \<Rightarrow> daddr \<Rightarrow> bool" where
  "rooted v xs k p \<longleftrightarrow> vol_ok v xs \<and> p \<noteq> 0 \<and> subtree (in_range (sb v)) (disk v) k p \<and> nodes (disk v) k p \<inter> set xs = {}"

lemma rooted_entry:
  assumes "rooted v xs (Suc k) p" and "i < NINDIR"
  shows "subtree (in_range (sb v)) (disk v) k (disk v p ! i)" "p \<notin> nodes (disk v) k (disk v p ! i)"
    "nodes (disk v) k (disk v p ! i) \<inter> set xs = {}" "nodes (disk v) k (disk v p ! i) \<subseteq> nodes (disk v) (Suc k) p"
    "\<And>j. j < NINDIR \<Longrightarrow> i \<noteq> j \<Longrightarrow> nodes (disk v) k (disk v p ! i) \<inter> nodes (disk v) k (disk v p ! j) = {}"
proof -
  have r: "p \<noteq> 0" "subtree (in_range (sb v)) (disk v) (Suc k) p" "nodes (disk v) (Suc k) p \<inter> set xs = {}"
    using assms(1) unfolding rooted_def by blast+
  show "subtree (in_range (sb v)) (disk v) k (disk v p ! i)" "p \<notin> nodes (disk v) k (disk v p ! i)" using r(1,2) assms(2) by simp_all
  show "\<And>j. j < NINDIR \<Longrightarrow> i \<noteq> j \<Longrightarrow> nodes (disk v) k (disk v p ! i) \<inter> nodes (disk v) k (disk v p ! j) = {}"
    using r(1,2) assms(2) by simp
  show sub: "nodes (disk v) k (disk v p ! i) \<subseteq> nodes (disk v) (Suc k) p" using r(1) assms(2) by auto
  show "nodes (disk v) k (disk v p ! i) \<inter> set xs = {}" using sub r(3) by blast
qed

lemma rooted_root: "rooted v xs (Suc k) p \<Longrightarrow> p \<notin> set xs \<and> length (disk v p) = NINDIR"
  by (auto simp: rooted_def)

lemma tail_freed:
  assumes e: "empties below k" and r: "rooted v xs (Suc k) p" and v1: "v1 = v\<lparr>disk := (disk v)(p := w)\<rparr>"
  shows "\<exists>v2 ys. free_each below st (rev (drop m (disk v p))) v1 = Some v2 \<and> releases v1 xs v2 ys (tail_nodes (disk v) k p m)
    \<and> set ys = tail_nodes (disk v) k p m"
proof -
  let ?E = "drop m (disk v p)"
  note entry = rooted_entry[OF r]
  have len: "length (disk v p) = NINDIR" using rooted_root[OF r] by simp
  have same: "disk v1 c = disk v c" if "i < NINDIR" "c \<in> nodes (disk v) k (disk v p ! i)" for i c
    using entry(2)[OF that(1)] that(2) v1 by auto
  have E: "set ?E = (!) (disk v p) ` {m..<NINDIR}" by (simp add: drop_map_nth len)
  have n: "nodes (disk v1) k (disk v p ! i) = nodes (disk v) k (disk v p ! i)" if "i < NINDIR" for i by (rule nodes_frame[OF same[OF that]])
  have T: "(\<Union>b\<in>set (rev ?E). nodes (disk v1) k b) = tail_nodes (disk v) k p m" using n by (auto simp: E tail_nodes_def)
  have "\<exists>v2 ys. free_each below st (rev ?E) v1 = Some v2 \<and> releases v1 xs v2 ys (\<Union>b\<in>set (rev ?E). nodes (disk v1) k b)
    \<and> set ys = (\<Union>b\<in>set (rev ?E). nodes (disk v1) k b)"
  proof (rule free_each_ok[OF e])
    show "vol_ok v1 xs" using vol_ok_write r rooted_root[OF r] by (simp add: rooted_def v1)
    have sb1: "in_range (sb v1) = in_range (sb v)" by (simp add: v1)
    show "\<forall>b\<in>set (rev ?E). subtree (in_range (sb v1)) (disk v1) k b \<and> nodes (disk v1) k b \<inter> set xs = {}"
    proof
      fix b assume "b \<in> set (rev ?E)"
      then obtain i where i: "i < NINDIR" "b = disk v p ! i" by (auto simp: E)
      show "subtree (in_range (sb v1)) (disk v1) k b \<and> nodes (disk v1) k b \<inter> set xs = {}"
        using subtree_frame[OF same[OF i(1)] entry(1)[OF i(1)]] n[OF i(1)] entry(3)[OF i(1)] unfolding i(2) sb1 by simp
    qed
    show "apart (disk v1) k (rev ?E)"
    proof (rule apart_nth)
      fix i j assume ij: "i < length (rev ?E)" "j < length (rev ?E)" "i \<noteq> j"
      define i' j' where "i' = NINDIR - Suc i" and "j' = NINDIR - Suc j"
      have "rev ?E ! i = disk v p ! i'" "rev ?E ! j = disk v p ! j'" using ij len by (simp_all add: i'_def j'_def rev_nth)
      moreover have "i' < NINDIR" "j' < NINDIR" "i' \<noteq> j'" using ij len by (simp_all add: i'_def j'_def)
      ultimately show "nodes (disk v1) k (rev ?E ! i) \<inter> nodes (disk v1) k (rev ?E ! j) = {}" using n entry(5) by simp
    qed
  qed
  then show ?thesis unfolding T .
qed

lemma beyond_Suc:
  assumes "-1 \<le> lastbn" and "lastbn < 256 ^ Suc k"
  shows "beyond (Suc k) lastbn = (\<Union>i\<in>{nat (last_entry k lastbn + 1)..<NINDIR}. (#) i ` paths k)
    \<union> (if 0 \<le> lastbn then (#) (nat (last_entry k lastbn)) ` beyond k (lastbn mod 256 ^ k) else {})"
proof -
  note le = last_entry_bounds[OF assms]
  have p: "beyond k n \<subseteq> paths k" for n by (auto simp: beyond_def)
  have "x \<in> beyond (Suc k) lastbn \<longleftrightarrow> x \<in> (\<Union>i\<in>{nat (last_entry k lastbn + 1)..<NINDIR}. (#) i ` paths k)
    \<union> (if 0 \<le> lastbn then (#) (nat (last_entry k lastbn)) ` beyond k (lastbn mod 256 ^ k) else {})" for x
  proof (cases x)
    case Nil
    then show ?thesis by (auto simp: beyond_def)
  next
    case (Cons i js)
    have in': "i # js \<in> beyond (Suc k) lastbn \<Longrightarrow> i < NINDIR \<and> js \<in> paths k" by (auto simp: beyond_def)
    have lt: "last_entry k lastbn < int i \<longleftrightarrow> nat (last_entry k lastbn + 1) \<le> i" using le(1) by linarith
    have ge: "0 \<le> lastbn \<Longrightarrow> 0 \<le> last_entry k lastbn" using le(3) by (simp add: pos_imp_zdiv_nonneg_iff)
    show ?thesis
    proof (cases "i < NINDIR \<and> js \<in> paths k")
      case True
      then have "x \<in> beyond (Suc k) lastbn \<longleftrightarrow> nat (last_entry k lastbn + 1) \<le> i \<or> 0 \<le> lastbn \<and> i = nat (last_entry k lastbn) \<and> js \<in> beyond k (lastbn mod 256 ^ k)"
        using beyond_Cons[OF assms, of i js] lt ge Cons by auto
      then show ?thesis using Cons True by auto
    next
      case False
      then have "x \<notin> beyond (Suc k) lastbn" using in' Cons by auto
      moreover have "nat (last_entry k lastbn) < NINDIR" using le(2) by simp
      ultimately show ?thesis using Cons False p by auto
    qed
  qed
  then show ?thesis by blast
qed

lemma cleared_nth: "length w = NINDIR \<Longrightarrow> i < NINDIR \<Longrightarrow> cleared w lst ! i = (if i < nat (lst + 1) then w ! i else 0)"
  by (auto simp: cleared_def nth_append)

lemma length_cleared: "length w = NINDIR \<Longrightarrow> lst < 256 \<Longrightarrow> length (cleared w lst) = NINDIR"
  by (auto simp: cleared_def)

lemma cut_combine:
  assumes r: "rooted v xs (Suc k) p" and lb: "-1 \<le> lastbn" "lastbn < 256 ^ Suc k"
    and v1: "v1 = v\<lparr>disk := (disk v)(p := cleared (disk v p) (last_entry k lastbn))\<rparr>"
    and v2: "releases v1 xs v2 ys (tail_nodes (disk v) k p (nat (last_entry k lastbn + 1)))"
      "set ys = tail_nodes (disk v) k p (nat (last_entry k lastbn + 1))"
    and v3: "0 \<le> lastbn \<Longrightarrow> trunc_post v2 (ys @ xs) (disk v p ! nat (last_entry k lastbn)) k (lastbn mod 256 ^ k) v3 zs"
      "lastbn = -1 \<Longrightarrow> v3 = v2 \<and> zs = []"
  shows "trunc_post v xs p (Suc k) lastbn v3 (zs @ ys)"
proof -
  define l where "l = last_entry k lastbn"
  define m where "m = nat (l + 1)"
  define d where "d = disk v"
  define N where "N = (\<lambda>i. nodes d k (d p ! i))"
  define T where "T = tail_nodes d k p m"
  define C where "C = (if 0 \<le> lastbn then N (nat l) else {})"
  have entry: "\<And>i. i < NINDIR \<Longrightarrow> p \<notin> N i" "\<And>i. i < NINDIR \<Longrightarrow> N i \<subseteq> nodes d (Suc k) p"
    "\<And>i j. i < NINDIR \<Longrightarrow> j < NINDIR \<Longrightarrow> i \<noteq> j \<Longrightarrow> N i \<inter> N j = {}"
    using rooted_entry(2,4,5)[OF r] unfolding N_def d_def by blast+
  note le = last_entry_bounds[OF lb, folded l_def]
  have ge: "0 \<le> l" "nat l < NINDIR" "m = Suc (nat l)" if "0 \<le> lastbn"
    using that le by (simp_all add: pos_imp_zdiv_nonneg_iff m_def nat_add_distrib)
  have neg: "lastbn = -1" "m = 0" if "\<not> 0 \<le> lastbn" using that lb(1) by (simp_all add: m_def l_def last_entry_def)
  have p: "length (d p) = NINDIR" "p \<noteq> 0" using rooted_root[OF r] r by (simp_all add: rooted_def d_def)
  have T: "T = (\<Union>i\<in>{m..<NINDIR}. N i)" by (simp add: T_def tail_nodes_def N_def)
  have pT: "p \<notin> T" "p \<notin> C" using entry(1) ge by (auto simp: T C_def)
  have d1: "disk v1 = d(p := cleared (d p) l)" by (simp add: v1 d_def l_def)
  have d2: "disk v2 x = (d(p := cleared (d p) l)) x" if "x \<notin> T" for x
  proof -
    have "\<forall>c. c \<notin> T \<longrightarrow> disk v2 c = disk v1 c" using v2(1) unfolding releases_def T_def m_def l_def d_def by blast
    then show ?thesis using that d1 by simp
  qed
  have low: "N i \<inter> T = {}" if i: "i < m" "i < NINDIR" for i
  proof -
    have "N i \<inter> N j = {}" if "j \<in> {m..<NINDIR}" for j using entry(3)[OF i(2), of j] i(1) that by simp
    then show ?thesis unfolding T by blast
  qed
  have d2N: "disk v2 x = d x" if "x \<in> N i" "i < m" "i < NINDIR" for i x
  proof -
    have "x \<notin> T" "x \<noteq> p" using low[OF that(2,3)] entry(1)[OF that(3)] that(1) by auto
    then show ?thesis using d2 by simp
  qed
  have c2: "nodes (disk v2) k (d p ! nat l) = C" if "0 \<le> lastbn"
  proof -
    have "nodes (disk v2) k (d p ! nat l) = N (nat l)"
      unfolding N_def by (rule nodes_frame) (use d2N[of _ "nat l"] ge[OF that] in \<open>simp add: N_def\<close>)
    then show ?thesis using that by (simp add: C_def)
  qed
  have R3: "releases v2 (ys @ xs) v3 zs C"
  proof (cases "0 \<le> lastbn")
    case True
    then show ?thesis using v3(1) c2 by (simp add: trunc_post_def d_def[symmetric] l_def[symmetric])
  next
    case False
    then show ?thesis using v3(2) neg v2(1) by (auto simp: releases_def)
  qed
  have lk2: "look (disk v2) (d p ! i) js = look d (d p ! i) js" if "i < m" "i < NINDIR" "js \<in> paths k" for i js
    using that d2N[OF _ that(1,2)] by (intro look_frame[of d k]) (auto simp: paths_def N_def)
  have zs: "set zs = (if 0 \<le> lastbn then look d (d p ! nat l) ` beyond k (lastbn mod 256 ^ k) else {}) - {0}"
  proof (cases "0 \<le> lastbn")
    case True
    have "look (disk v2) (d p ! nat l) ` beyond k (lastbn mod 256 ^ k) = look d (d p ! nat l) ` beyond k (lastbn mod 256 ^ k)"
      using lk2[of "nat l"] ge[OF True] by (intro image_cong) (auto simp: beyond_def)
    then show ?thesis using v3(1)[OF True] True by (simp add: trunc_post_def d_def[symmetric] l_def[symmetric])
  next
    case False
    then show ?thesis using v3(2) neg by simp
  qed
  have S: "set (zs @ ys) = look d p ` beyond (Suc k) lastbn - {0}"
  proof -
    have "look d p ` beyond (Suc k) lastbn = (\<Union>i\<in>{m..<NINDIR}. look d (d p ! i) ` paths k)
        \<union> (if 0 \<le> lastbn then look d (d p ! nat l) ` beyond k (lastbn mod 256 ^ k) else {})"
      using p(2) by (auto simp: beyond_Suc[OF lb] l_def[symmetric] m_def[symmetric] image_Un image_UN image_image)
    moreover have "set ys = (\<Union>i\<in>{m..<NINDIR}. look d (d p ! i) ` paths k - {0})"
      using v2(2) by (simp add: tail_nodes_def nodes_look d_def[symmetric] l_def[symmetric] m_def[symmetric])
    ultimately show ?thesis using zs by auto
  qed
  have d3p: "disk v3 p = cleared (d p) l" using R3 pT d2 by (simp add: releases_def)
  have look3: "look (disk v3) p js = (if js \<in> beyond (Suc k) lastbn then 0 else look d p js)" if js: "js \<in> paths (Suc k)" for js
  proof (cases js)
    case Nil
    then show ?thesis by (simp add: beyond_def)
  next
    case (Cons i rs)
    have i: "i < NINDIR" "rs \<in> paths k" using js Cons by simp_all
    have b: "js \<in> beyond (Suc k) lastbn \<longleftrightarrow> m \<le> i \<or> 0 \<le> lastbn \<and> i = nat l \<and> rs \<in> beyond k (lastbn mod 256 ^ k)"
      using beyond_Cons[OF lb i] le(1) ge(1) unfolding Cons l_def[symmetric] m_def by fastforce
    have run: "look (disk v3) p js = (if i < m then look (disk v3) (d p ! i) rs else 0)"
      using Cons p d3p cleared_nth[OF p(1) i(1), of l] by (simp add: m_def)
    show ?thesis
    proof (cases "i < m")
      case False
      then show ?thesis using run b by simp
    next
      case True
      then have pos: "0 \<le> lastbn" using neg by (cases "0 \<le> lastbn") auto
      show ?thesis
      proof (cases "i = nat l")
        case same: True
        have "look (disk v3) (d p ! i) rs = (if rs \<in> beyond k (lastbn mod 256 ^ k) then 0 else look (disk v2) (d p ! i) rs)"
          using v3(1)[OF pos] i(2) same by (simp add: trunc_post_def d_def[symmetric] l_def[symmetric])
        then show ?thesis using run b True same pos lk2[OF True i] Cons p(2) by simp
      next
        case other: False
        have "N i \<inter> C = {}" using entry(3)[OF i(1) ge(2)[OF pos] other] pos by (simp add: C_def)
        then have "disk v3 x = d x" if "x \<in> N i" for x
          using R3 d2N[OF that True i(1)] that unfolding releases_def by (metis disjoint_iff)
        then have "look (disk v3) (d p ! i) rs = look d (d p ! i) rs"
          using i(2) by (intro look_frame[of d k]) (auto simp: paths_def N_def)
        then show ?thesis using run b True other Cons p(2) by simp
      qed
    qed
  qed
  have len3: "length (disk v3 x) = length (d x)" if "x \<notin> set (zs @ ys)" for x
  proof -
    have "length (disk v3 x) = length (disk v2 x)"
      using that v3 lb(1) by (cases "0 \<le> lastbn") (auto simp: trunc_post_def)
    moreover have "x \<notin> T" using that v2(2) by (simp add: T_def d_def m_def l_def)
    ultimately show ?thesis using d2[of x] length_cleared[OF p(1) le(2)] p(1) by simp
  qed
  have data3: "disk v3 x = d x" if "x \<notin> set (zs @ ys)" "x \<notin> inner d (Suc k) p" for x
  proof -
    have x: "x \<notin> T" "x \<noteq> p" "\<And>i. i < NINDIR \<Longrightarrow> x \<notin> inner d k (d p ! i)"
      using that v2(2) p(2) by (auto simp: T_def d_def m_def l_def)
    have "disk v3 x = disk v2 x"
    proof (cases "0 \<le> lastbn")
      case True
      have "inner (disk v2) k (d p ! nat l) = inner d k (d p ! nat l)"
        by (rule inner_frame) (use d2N[of _ "nat l"] ge[OF True] in \<open>simp add: N_def\<close>)
      then show ?thesis using v3(1)[OF True] that(1) x(3)[OF ge(2)[OF True]] by (simp add: trunc_post_def d_def[symmetric] l_def[symmetric])
    next
      case False
      then show ?thesis using v3(2) neg by simp
    qed
    then show ?thesis using d2[OF x(1)] x(2) by simp
  qed
  have "T \<subseteq> nodes d (Suc k) p" unfolding T using entry(2) by (intro UN_least) (simp del: nodes.simps)
  moreover have "C \<subseteq> nodes d (Suc k) p" using entry(2) ge(2) by (simp add: C_def del: nodes.simps)
  ultimately have TC: "T \<union> C \<subseteq> nodes d (Suc k) p" by blast
  have "releases v1 xs v3 (zs @ ys) (T \<union> C)" by (rule releases_trans[OF v2(1) R3]) (auto simp: T_def m_def l_def d_def)
  from releases_write[OF this[unfolded v1] nodes_root[OF p(2)] TC]
  have "releases v xs v3 (zs @ ys) (nodes d (Suc k) p)" .
  then show ?thesis using S look3 len3 data3 unfolding trunc_post_def d_def by blast
qed

text \<open>The two levels of the recursion as one equation; \<open>cut_child\<close> is the last, partly kept entry.\<close>

definition cut_child :: "benv \<Rightarrow> nat \<Rightarrow> daddr \<Rightarrow> int \<Rightarrow> volume \<Rightarrow> volume option" where
  "cut_child e k c lastbn v = (case k of 0 \<Rightarrow> Some v | Suc l \<Rightarrow> if c \<noteq> 0 then indirtrunc e l c lastbn v else Some v)"

definition below_of :: "benv \<Rightarrow> nat \<Rightarrow> daddr \<Rightarrow> volume \<Rightarrow> volume option" where
  "below_of e k b = (case k of 0 \<Rightarrow> Some | Suc l \<Rightarrow> indirtrunc e l b (-1))"

lemma indirtrunc_eq:
  assumes "\<not> rderr e bn"
  shows "indirtrunc e k bn lastbn v =
    (case free_each (below_of e k) (stale e) (rev (drop (nat (last_entry k lastbn + 1)) (disk v bn)))
            (v\<lparr>disk := (disk v)(bn := cleared (disk v bn) (last_entry k lastbn))\<rparr>) of
       None \<Rightarrow> None
     | Some v' \<Rightarrow> if 0 \<le> lastbn then cut_child e k (disk v bn ! nat (last_entry k lastbn)) (lastbn mod 256 ^ k) v' else Some v')"
proof (cases k)
  case 0
  have "last_entry 0 lastbn = lastbn" by (simp add: last_entry_def)
  moreover have "below_of e 0 = (\<lambda>_ v. Some v)" by (simp add: below_of_def fun_eq_iff)
  ultimately show ?thesis using assms 0 by (simp add: trsingle_def cut_child_def Let_def split: option.split)
next
  case (Suc l)
  have "below_of e (Suc l) = (\<lambda>nb. indirtrunc e l nb (-1))" by (simp add: below_of_def fun_eq_iff)
  then show ?thesis using assms Suc by (simp add: cut_child_def Let_def last_entry_def split: option.split)
qed

lemma trunc_post_none:
  assumes "vol_ok v xs" and "c = 0 \<or> k = 0"
  shows "trunc_post v xs c k n v []"
proof -
  have "look (disk v) c is = (if is \<in> beyond k n then 0 else look (disk v) c is)" if "is \<in> paths k" for "is"
    using assms(2) that by (auto simp: beyond_def paths_def)
  moreover have "look (disk v) c ` beyond k n - {0} = {}" using assms(2) by (auto simp: beyond_def paths_def)
  ultimately show ?thesis using releases_refl[OF assms(1)] by (simp add: trunc_post_def)
qed

lemma rooted_child:
  assumes "rooted v xs (Suc k) p" and "i < NINDIR" and "disk v p ! i \<noteq> 0" and "vol_ok v' xs'" and "in_range (sb v') = in_range (sb v)"
    and same: "\<And>c. c \<in> nodes (disk v) k (disk v p ! i) \<Longrightarrow> disk v' c = disk v c"
    and "nodes (disk v) k (disk v p ! i) \<inter> set xs' = {}"
  shows "rooted v' xs' k (disk v p ! i)"
  using assms(3-5,7) subtree_frame[OF same rooted_entry(1)[OF assms(1,2)]] nodes_frame[OF same]
  by (simp add: rooted_def)

lemma minus_one_less [simp]: "(-1 :: int) < 256 ^ n"
  by (rule less_le_trans[of _ 0]) simp_all

lemma beyond_all:
  assumes "rooted v xs (Suc k) p"
  shows "look (disk v) p ` beyond (Suc k) (-1) - {0} = nodes (disk v) (Suc k) p - {p}"
proof -
  have p: "p \<noteq> 0" using assms by (simp add: rooted_def)
  have "beyond (Suc k) (-1) = (\<Union>i<NINDIR. (#) i ` paths k)"
    using beyond_Suc[OF order_refl minus_one_less, of k] by (simp add: last_entry_def lessThan_atLeast0)
  then have "look (disk v) p ` beyond (Suc k) (-1) - {0} = (\<Union>i<NINDIR. nodes (disk v) k (disk v p ! i))"
    using p by (auto simp: nodes_look image_UN image_image)
  moreover have "p \<notin> (\<Union>i<NINDIR. nodes (disk v) k (disk v p ! i))" using rooted_entry(2)[OF assms] by blast
  ultimately show ?thesis using p by simp
qed

definition cuts :: "benv \<Rightarrow> nat \<Rightarrow> bool" where
  "cuts e k \<longleftrightarrow> (\<forall>p lastbn v xs. rooted v xs (Suc k) p \<longrightarrow> -1 \<le> lastbn \<longrightarrow> lastbn < 256 ^ Suc k
     \<longrightarrow> (\<exists>v' ys. indirtrunc e k p lastbn v = Some v' \<and> trunc_post v xs p (Suc k) lastbn v' ys))"

lemma cuts_empties:
  assumes "\<And>l. k = Suc l \<Longrightarrow> cuts e l"
  shows "empties (below_of e k) k"
proof (cases k)
  case 0
  have "below_of e 0 = (\<lambda>_ v. Some v)" by (simp add: below_of_def fun_eq_iff)
  then show ?thesis using empties_leaf 0 by simp
next
  case (Suc l)
  show ?thesis
    unfolding empties_def
  proof (intro allI impI)
    fix b v xs
    assume "b \<noteq> 0" "vol_ok v xs" "subtree (in_range (sb v)) (disk v) k b" "nodes (disk v) k b \<inter> set xs = {}"
    then have r: "rooted v xs (Suc l) b" using Suc unfolding rooted_def by blast
    obtain v' ys where "indirtrunc e l b (-1) v = Some v'" "trunc_post v xs b (Suc l) (-1) v' ys"
      using assms[OF Suc, unfolded cuts_def, rule_format, OF r order_refl minus_one_less] by blast
    then show "\<exists>v' ys. below_of e k b v = Some v' \<and> releases v xs v' ys (nodes (disk v) k b) \<and> set ys = nodes (disk v) k b - {b}"
      using beyond_all[OF r] Suc unfolding trunc_post_def below_of_def by auto
  qed
qed

lemma cuts_step:
  assumes e: "no_errors e" and ih: "\<And>l. k = Suc l \<Longrightarrow> cuts e l"
  shows "cuts e k"
  unfolding cuts_def
proof (intro allI impI)
  fix p lastbn :: int and v xs
  assume r: "rooted v xs (Suc k) p" and lb: "-1 \<le> lastbn" "lastbn < 256 ^ Suc k"
  define l where "l = last_entry k lastbn"
  define v1 where "v1 = v\<lparr>disk := (disk v)(p := cleared (disk v p) l)\<rparr>"
  define c where "c = disk v p ! nat l"
  define T where "T = tail_nodes (disk v) k p (nat (l + 1))"
  obtain v2 ys where v2: "free_each (below_of e k) (stale e) (rev (drop (nat (l + 1)) (disk v p))) v1 = Some v2"
    "releases v1 xs v2 ys T" "set ys = T"
    using tail_freed[OF cuts_empties[OF ih] r v1_def] unfolding T_def by blast
  have run: "indirtrunc e k p lastbn v = (if 0 \<le> lastbn then cut_child e k c (lastbn mod 256 ^ k) v2 else Some v2)"
    using e v2(1) unfolding c_def by (simp add: indirtrunc_eq no_errors_def l_def[symmetric] v1_def[symmetric])
  have ok2: "vol_ok v2 (ys @ xs)" "in_range (sb v2) = in_range (sb v)" using v2(2) by (simp_all add: releases_def v1_def)
  have child: "\<exists>v3 zs. cut_child e k c (lastbn mod 256 ^ k) v2 = Some v3 \<and> trunc_post v2 (ys @ xs) c k (lastbn mod 256 ^ k) v3 zs"
    if pos: "0 \<le> lastbn"
  proof (cases "c = 0 \<or> k = 0")
    case True
    then have "cut_child e k c (lastbn mod 256 ^ k) v2 = Some v2" by (cases k) (simp_all add: cut_child_def)
    then show ?thesis using trunc_post_none[OF ok2(1) True] by blast
  next
    case False
    then obtain j where j: "k = Suc j" "c \<noteq> 0" by (cases k) auto
    have l: "nat l < NINDIR" "nat (l + 1) = Suc (nat l)"
      using last_entry_bounds[OF lb] pos by (simp_all add: l_def pos_imp_zdiv_nonneg_iff nat_add_distrib)
    let ?N = "nodes (disk v) k c"
    have disj: "?N \<inter> T = {}"
    proof -
      have "?N \<inter> nodes (disk v) k (disk v p ! i) = {}" if "i \<in> {nat (l + 1)..<NINDIR}" for i
        using rooted_entry(5)[OF r l(1), of i] that l(2) by (simp add: c_def)
      then show ?thesis unfolding T_def tail_nodes_def by blast
    qed
    have "disk v2 x = disk v x" if "x \<in> ?N" for x
    proof -
      have "x \<notin> T" "x \<noteq> p" using disj that rooted_entry(2)[OF r l(1)] by (auto simp: c_def)
      then show ?thesis using v2(2) by (simp add: releases_def v1_def)
    qed
    moreover have "?N \<inter> set (ys @ xs) = {}" using disj v2(3) rooted_entry(3)[OF r l(1)] by (auto simp: c_def)
    ultimately have r2: "rooted v2 (ys @ xs) (Suc j) c"
      unfolding c_def j(1)[symmetric] using r l(1) j(2) ok2 by (intro rooted_child[of v xs]) (simp_all add: c_def)
    have "0 \<le> lastbn mod 256 ^ Suc j" "lastbn mod 256 ^ Suc j < 256 ^ Suc j" by (rule pos_mod_sign pos_mod_bound; simp)+
    then have "-1 \<le> lastbn mod 256 ^ Suc j" "lastbn mod 256 ^ Suc j < 256 ^ Suc j" by linarith+
    from ih[OF j(1), unfolded cuts_def, rule_format, OF r2 this] show ?thesis using j by (simp add: cut_child_def)
  qed
  show "\<exists>v' ys. indirtrunc e k p lastbn v = Some v' \<and> trunc_post v xs p (Suc k) lastbn v' ys"
  proof (cases "0 \<le> lastbn")
    case True
    then obtain v3 zs where v3: "cut_child e k c (lastbn mod 256 ^ k) v2 = Some v3" "trunc_post v2 (ys @ xs) c k (lastbn mod 256 ^ k) v3 zs"
      using child by blast
    have "trunc_post v xs p (Suc k) lastbn v3 (zs @ ys)"
      by (rule cut_combine[OF r lb v1_def[unfolded l_def] v2(2)[unfolded T_def l_def] v2(3)[unfolded T_def l_def]])
        (use v3(2) True in \<open>simp_all add: c_def l_def\<close>)
    then show ?thesis using run True v3(1) by auto
  next
    case False
    have "trunc_post v xs p (Suc k) lastbn v2 ([] @ ys)"
      by (rule cut_combine[OF r lb v1_def[unfolded l_def] v2(2)[unfolded T_def l_def] v2(3)[unfolded T_def l_def]])
        (use False in simp_all)
    then show ?thesis using run False by auto
  qed
qed

lemma indirtrunc_cuts: "no_errors e \<Longrightarrow> cuts e k"
proof (induction k)
  case 0
  show ?case by (rule cuts_step[OF 0]) simp
next
  case (Suc k)
  show ?case by (rule cuts_step[OF Suc.prems]) (use Suc.IH[OF Suc.prems] in simp)
qed

section \<open>Cutting a file\<close>

lemma valid_paths: "valid (r, is) \<longleftrightarrow> r < NADDR \<and> is \<in> paths (depth r)"
  by (auto simp: valid_def paths_def)

lemma ptr_look: "ptr a d (r, is) = look d (a ! r) is"
  by (simp add: ptr_def)

lemma nodes_ptr: "nodes d k (ptr a d (r, is)) = {ptr a d (r, is @ js) |js. js \<in> paths k} - {0}"
  by (auto simp: nodes_look ptr_append)

lemma valid_append: "valid (r, is) \<Longrightarrow> length is + k \<le> depth r \<Longrightarrow> js \<in> paths k \<Longrightarrow> valid (r, is @ js)"
  by (auto simp: valid_def paths_def)

lemma nodes_ptr_apart:
  assumes t: "tree_ok f a d fr" and "valid (r, is)" "length is + k \<le> depth r" and "valid (r', is')" "length is' + k' \<le> depth r'"
    and ne: "\<And>js js'. (r, is @ js) \<noteq> (r', is' @ js')"
  shows "nodes d k (ptr a d (r, is)) \<inter> nodes d k' (ptr a d (r', is')) = {}"
proof -
  have False if "x \<in> nodes d k (ptr a d (r, is))" "x \<in> nodes d k' (ptr a d (r', is'))" for x
  proof -
    obtain js js' where j: "js \<in> paths k" "x = ptr a d (r, is @ js)" "js' \<in> paths k'" "x = ptr a d (r', is' @ js')" "x \<noteq> 0"
      using \<open>x \<in> nodes d k (ptr a d (r, is))\<close> \<open>x \<in> nodes d k' (ptr a d (r', is'))\<close> unfolding nodes_ptr by blast
    have "(r, is @ js) = (r', is' @ js')"
      by (rule tree_okD(5)[OF t valid_append[OF assms(2,3) j(1)] valid_append[OF assms(4,5) j(3)]]) (use j in simp_all)
    then show False using ne by blast
  qed
  then show ?thesis by blast
qed

lemma tree_subtree:
  assumes t: "tree_ok f a d fr"
  shows "valid (r, is) \<Longrightarrow> length is + k = depth r \<Longrightarrow> subtree (in_range f) d k (ptr a d (r, is))"
proof (induction k arbitrary: "is")
  case 0
  then show ?case using tree_okD(2)[OF t 0(1)] by auto
next
  case (Suc k)
  define p where "p = ptr a d (r, is)"
  show ?case
  proof (cases "p = 0")
    case False
    have e: "ptr a d (r, is @ [i]) = d p ! i" for i using False by (simp add: ptr_snoc p_def)
    have v: "valid (r, is @ [i])" if "i < NINDIR" for i using Suc.prems that by (simp add: valid_snoc)
    have l: "length (is @ [i]) + k = depth r" for i using Suc.prems by simp
    have "subtree (in_range f) d k (d p ! i)" if "i < NINDIR" for i using Suc.IH[OF v[OF that] l] by (simp add: e)
    moreover have "p \<notin> nodes d k (d p ! i)" if "i < NINDIR" for i
    proof
      assume "p \<in> nodes d k (d p ! i)"
      then obtain js where "js \<in> paths k" "p = ptr a d (r, (is @ [i]) @ js)" unfolding e[symmetric] nodes_ptr by blast
      then have "(r, is) = (r, (is @ [i]) @ js)"
        using False valid_append[OF v[OF that], of k js] l by (intro tree_okD(5)[OF t Suc.prems(1)]) (simp_all add: p_def)
      then show False by simp
    qed
    moreover have "nodes d k (d p ! i) \<inter> nodes d k (d p ! j) = {}" if "i < NINDIR" "j < NINDIR" "i \<noteq> j" for i j
      using nodes_ptr_apart[OF t v[OF that(1)] _ v[OF that(2)], of k k] l that(3) by (simp add: e)
    moreover have "in_range f p" "length (d p) = NINDIR"
      using tree_okD(2,4)[OF t Suc.prems(1)] False Suc.prems(2) by (simp_all add: p_def)
    ultimately show ?thesis unfolding p_def[symmetric] by simp
  qed (simp add: p_def)
qed

text \<open>A whole tree of the inode; unlike \<open>beyond\<close>, \<open>gone\<close> counts the root of a tree that is given up.\<close>

definition gone :: "nat \<Rightarrow> int \<Rightarrow> nat list set" where
  "gone k lastib = {is \<in> paths k. lastib < leaf_no k is}"

definition root_post :: "volume \<Rightarrow> daddr list \<Rightarrow> daddr \<Rightarrow> nat \<Rightarrow> int \<Rightarrow> volume \<Rightarrow> daddr list \<Rightarrow> bool" where
  "root_post v xs b k lastib v' ys \<longleftrightarrow> releases v xs v' ys (nodes (disk v) k b)
     \<and> set ys = look (disk v) b ` gone k lastib - {0}
     \<and> (\<forall>is\<in>paths k. look (disk v') (if lastib < 0 then 0 else b) is = (if is \<in> gone k lastib then 0 else look (disk v) b is))
     \<and> (\<forall>c. c \<notin> set ys \<longrightarrow> length (disk v' c) = length (disk v c) \<and> (c \<notin> inner (disk v) k b \<longrightarrow> disk v' c = disk v c))"

lemma gone_negative: "lastib < 0 \<Longrightarrow> gone k lastib = paths k"
  using leaf_no_bounds by (force simp: gone_def)

lemma gone_beyond: "0 \<le> lastib \<Longrightarrow> gone k lastib = beyond k lastib"
  by (auto simp: gone_def beyond_def)

lemma gone_none: "256 ^ k \<le> lastib \<Longrightarrow> gone k lastib = {}"
  using leaf_no_bounds by (force simp: gone_def)

lemma trunc_root_ok:
  assumes e: "no_errors e" and b: "vol_ok v xs" "b \<noteq> 0 \<Longrightarrow> rooted v xs (Suc l) b" and lb: "-1 \<le> lastib" "lastib < 256 ^ Suc l"
  shows "\<exists>v' ys. trunc_root e l b lastib v = Some v' \<and> root_post v xs b (Suc l) lastib v' ys"
proof (cases "b = 0")
  case True
  then show ?thesis using releases_refl[OF b(1)] by (auto simp: trunc_root_def root_post_def intro!: exI[of _ "[]"])
next
  case False
  note r = b(2)[OF False]
  obtain v1 ys where v1: "indirtrunc e l b lastib v = Some v1" "trunc_post v xs b (Suc l) lastib v1 ys"
    using indirtrunc_cuts[OF e, unfolded cuts_def, rule_format, OF r lb] by blast
  show ?thesis
  proof (cases "lastib < 0")
    case pos: False
    then have "root_post v xs b (Suc l) lastib v1 ys" using v1(2) by (simp add: root_post_def trunc_post_def gone_beyond)
    then show ?thesis using v1(1) False pos by (auto simp: trunc_root_def)
  next
    case neg: True
    then have m: "lastib = -1" using lb(1) by simp
    define N where "N = nodes (disk v) (Suc l) b"
    have R: "releases v xs v1 ys N" and ys: "set ys = N - {b}"
      using v1(2) beyond_all[OF r] by (simp_all add: trunc_post_def m N_def del: nodes.simps)
    have bN: "b \<in> N" unfolding N_def using False by (rule nodes_root)
    have "in_range (sb v1) b" using R nodes_range[OF _ bN[unfolded N_def]] r unfolding releases_def rooted_def by metis
    moreover have "b \<notin> set xs" using r bN unfolding rooted_def N_def by blast
    then have "b \<notin> set (ys @ xs)" using ys by simp
    moreover have "vol_ok v1 (ys @ xs)" using R unfolding releases_def by blast
    ultimately obtain v2 where v2: "free (stale e) b v1 = Some v2" "releases v1 (ys @ xs) v2 [b] {b}"
      using releases_free[of v1 "ys @ xs" b "stale e"] by blast
    have R2: "releases v xs v2 ([b] @ ys) N" by (rule releases_trans[OF R v2(2)]) (use bN in auto)
    have all: "set ([b] @ ys) = N" using ys bN by auto
    then have "set ([b] @ ys) = look (disk v) b ` gone (Suc l) lastib - {0}" using neg by (simp only: gone_negative nodes_look N_def)
    moreover have "disk v2 c = disk v c" if "c \<notin> set ([b] @ ys)" for c
      using R2 that all unfolding releases_def by metis
    ultimately have "root_post v xs b (Suc l) lastib v2 ([b] @ ys)"
      using R2 neg unfolding root_post_def N_def by (simp add: gone_negative del: nodes.simps)
    then show ?thesis using v1(1) v2(1) False neg by (auto simp: trunc_root_def)
  qed
qed

declare nodes.simps [simp del] subtree.simps [simp del] inner.simps [simp del]

definition forest :: "volume \<Rightarrow> daddr list \<Rightarrow> daddr list \<Rightarrow> nat \<Rightarrow> bool" where
  "forest v xs i_ib n \<longleftrightarrow> vol_ok v xs
     \<and> (\<forall>l<n. subtree (in_range (sb v)) (disk v) (Suc l) (i_ib ! l) \<and> nodes (disk v) (Suc l) (i_ib ! l) \<inter> set xs = {})
     \<and> (\<forall>l<n. \<forall>l'<n. l \<noteq> l' \<longrightarrow> nodes (disk v) (Suc l) (i_ib ! l) \<inter> nodes (disk v) (Suc l') (i_ib ! l') = {})"

lemma forest_rooted: "forest v xs i_ib n \<Longrightarrow> l < n \<Longrightarrow> i_ib ! l \<noteq> 0 \<Longrightarrow> rooted v xs (Suc l) (i_ib ! l)"
  unfolding forest_def rooted_def by blast

lemma forest_step:
  assumes f: "forest v xs i_ib (Suc n)" and r: "releases v xs v' ys (nodes (disk v) (Suc n) (i_ib ! n))"
    and ys: "set ys \<subseteq> nodes (disk v) (Suc n) (i_ib ! n)"
  shows "forest v' (ys @ xs) i_ib n" "l < n \<Longrightarrow> inner (disk v') (Suc l) (i_ib ! l) = inner (disk v) (Suc l) (i_ib ! l)" "l < n \<Longrightarrow> nodes (disk v') (Suc l) (i_ib ! l) = nodes (disk v) (Suc l) (i_ib ! l)"
    "l < n \<Longrightarrow> is \<in> paths (Suc l) \<Longrightarrow> look (disk v') (i_ib ! l) is = look (disk v) (i_ib ! l) is"
proof -
  have F: "subtree (in_range (sb v)) (disk v) (Suc l) (i_ib ! l)" "nodes (disk v) (Suc l) (i_ib ! l) \<inter> set xs = {}"
    "nodes (disk v) (Suc l) (i_ib ! l) \<inter> nodes (disk v) (Suc n) (i_ib ! n) = {}" if "l < n" for l
    using f that unfolding forest_def by (simp_all add: less_Suc_eq)
  have disj: "nodes (disk v) (Suc l) (i_ib ! l) \<inter> nodes (disk v) (Suc l') (i_ib ! l') = {}" if "l < n" "l' < n" "l \<noteq> l'" for l l'
    using f that unfolding forest_def by simp
  have same: "disk v' c = disk v c" if "l < n" "c \<in> nodes (disk v) (Suc l) (i_ib ! l)" for l c
    using r F(3)[OF that(1)] that(2) unfolding releases_def by blast
  show "l < n \<Longrightarrow> inner (disk v') (Suc l) (i_ib ! l) = inner (disk v) (Suc l) (i_ib ! l)" by (rule inner_frame[OF same])
  have nd: "nodes (disk v') (Suc l) (i_ib ! l) = nodes (disk v) (Suc l) (i_ib ! l)" if "l < n" for l by (rule nodes_frame[OF same[OF that]])
  then show "l < n \<Longrightarrow> nodes (disk v') (Suc l) (i_ib ! l) = nodes (disk v) (Suc l) (i_ib ! l)" .
  show "look (disk v') (i_ib ! l) is = look (disk v) (i_ib ! l) is" if "l < n" "is \<in> paths (Suc l)"
    by (rule look_frame[OF same[OF that(1)]]) (use that(2) in \<open>auto simp: paths_def\<close>)
  have "nodes (disk v) (Suc l) (i_ib ! l) \<inter> set (ys @ xs) = {}" if "l < n" for l using F(2,3)[OF that] ys by auto
  moreover have "subtree (in_range (sb v')) (disk v') (Suc l) (i_ib ! l)" if "l < n" for l
    using subtree_frame[OF same[OF that] F(1)[OF that]] r by (simp add: releases_def)
  moreover have "vol_ok v' (ys @ xs)" using r by (simp add: releases_def)
  ultimately show "forest v' (ys @ xs) i_ib n" unfolding forest_def using nd disj by simp
qed

definition lastib_ok :: "(nat \<Rightarrow> int) \<Rightarrow> nat \<Rightarrow> bool" where
  "lastib_ok li n \<longleftrightarrow> (\<forall>l<n. -1 \<le> li l \<and> (if \<exists>l'<n. l < l' \<and> 0 \<le> li l' then 256 ^ Suc l \<le> li l else li l < 256 ^ Suc l))"

lemma lastib_ok_less:
  assumes "lastib_ok li (Suc n)" and "li n < 0"
  shows "lastib_ok li n"
proof -
  have "(\<exists>l'<Suc n. l < l' \<and> 0 \<le> li l') = (\<exists>l'<n. l < l' \<and> 0 \<le> li l')" for l
    using assms(2) by (metis less_Suc_eq not_le)
  then show ?thesis using assms(1) unfolding lastib_ok_def by (metis less_SucI)
qed

lemma lastib_ok_last: "lastib_ok li (Suc n) \<Longrightarrow> -1 \<le> li n \<and> li n < 256 ^ Suc n"
  unfolding lastib_ok_def by (metis lessI less_antisym not_less_iff_gr_or_eq)

definition roots_post :: "volume \<Rightarrow> daddr list \<Rightarrow> daddr list \<Rightarrow> (nat \<Rightarrow> int) \<Rightarrow> nat \<Rightarrow> volume \<Rightarrow> daddr list \<Rightarrow> bool" where
  "roots_post v xs i_ib li n v' ys \<longleftrightarrow> releases v xs v' ys (\<Union>l<n. nodes (disk v) (Suc l) (i_ib ! l))
     \<and> set ys = (\<Union>l<n. look (disk v) (i_ib ! l) ` gone (Suc l) (li l)) - {0}
     \<and> (\<forall>l<n. \<forall>is\<in>paths (Suc l). look (disk v') (if li l < 0 then 0 else i_ib ! l) is
                                     = (if is \<in> gone (Suc l) (li l) then 0 else look (disk v) (i_ib ! l) is))
     \<and> (\<forall>c. c \<notin> set ys \<longrightarrow> length (disk v' c) = length (disk v c)
            \<and> (c \<notin> (\<Union>l<n. inner (disk v) (Suc l) (i_ib ! l)) \<longrightarrow> disk v' c = disk v c))"

lemma root_post_nodes: "root_post v xs b k li v' ys \<Longrightarrow> set ys \<subseteq> nodes (disk v) k b"
  unfolding root_post_def nodes_look gone_def by blast

lemma trunc_roots_ok:
  assumes e: "no_errors e"
  shows "forest v xs i_ib n \<Longrightarrow> lastib_ok li n
    \<Longrightarrow> \<exists>v' ys. trunc_roots e li i_ib n v = Some (\<exists>l<n. 0 \<le> li l, v') \<and> roots_post v xs i_ib li n v' ys"
proof (induction n arbitrary: v xs)
  case 0
  then show ?case using releases_refl[of v xs] by (auto simp: forest_def roots_post_def intro!: exI[of _ "[]"])
next
  case (Suc n)
  let ?b = "i_ib ! n"
  have lb: "-1 \<le> li n" "li n < 256 ^ Suc n" using lastib_ok_last[OF Suc.prems(2)] by blast+
  have "vol_ok v xs" using Suc.prems(1) by (simp add: forest_def)
  then obtain v1 ys where v1: "trunc_root e n ?b (li n) v = Some v1" "root_post v xs ?b (Suc n) (li n) v1 ys"
    using trunc_root_ok[OF e _ _ lb] forest_rooted[OF Suc.prems(1), of n] by blast
  have R1: "releases v xs v1 ys (nodes (disk v) (Suc n) ?b)" using v1(2) by (simp add: root_post_def)
  note F = forest_step[OF Suc.prems(1) R1 root_post_nodes[OF v1(2)]]
  show ?case
  proof (cases "0 \<le> li n")
    case True
    have none: "gone (Suc l) (li l) = {}" "\<not> li l < 0" if "l < n" for l
    proof -
      have "256 ^ Suc l \<le> li l" using Suc.prems(2) True that unfolding lastib_ok_def by (metis lessI less_Suc_eq)
      moreover have "(0::int) < 256 ^ Suc l" by (rule zero_less_power) simp
      ultimately show "gone (Suc l) (li l) = {}" "\<not> li l < 0" by (rule_tac [1] gone_none, linarith+)
    qed
    have "releases v xs v1 ys (\<Union>l<Suc n. nodes (disk v) (Suc l) (i_ib ! l))" using R1 unfolding releases_def by auto
    moreover have "set ys = (\<Union>l<Suc n. look (disk v) (i_ib ! l) ` gone (Suc l) (li l)) - {0}"
      using v1(2) none(1) by (auto simp: root_post_def lessThan_Suc)
    moreover have "\<forall>l<Suc n. \<forall>is\<in>paths (Suc l). look (disk v1) (if li l < 0 then 0 else i_ib ! l) is
        = (if is \<in> gone (Suc l) (li l) then 0 else look (disk v) (i_ib ! l) is)"
      using v1(2) F(4) none by (auto simp: root_post_def less_Suc_eq)
    moreover have "\<forall>c. c \<notin> set ys \<longrightarrow> length (disk v1 c) = length (disk v c)
        \<and> (c \<notin> (\<Union>l<Suc n. inner (disk v) (Suc l) (i_ib ! l)) \<longrightarrow> disk v1 c = disk v c)"
      using v1(2) unfolding root_post_def lessThan_Suc by blast
    ultimately have "roots_post v xs i_ib li (Suc n) v1 ys" unfolding roots_post_def by blast
    then show ?thesis using v1(1) True by auto
  next
    case False
    obtain v2 zs where v2: "trunc_roots e li i_ib n v1 = Some (\<exists>l<n. 0 \<le> li l, v2)" "roots_post v1 (ys @ xs) i_ib li n v2 zs"
      using Suc.IH[OF F(1) lastib_ok_less[OF Suc.prems(2)]] False by auto
    let ?T = "\<Union>l<n. nodes (disk v) (Suc l) (i_ib ! l)"
    have R2: "releases v1 (ys @ xs) v2 zs ?T" using v2(2) F(3) by (simp add: roots_post_def)
    have "releases v xs v2 (zs @ ys) (\<Union>l<Suc n. nodes (disk v) (Suc l) (i_ib ! l))"
      by (rule releases_trans[OF R1 R2]) (auto simp: lessThan_Suc)
    moreover have "look (disk v1) (i_ib ! l) ` gone (Suc l) (li l) = look (disk v) (i_ib ! l) ` gone (Suc l) (li l)" if "l < n" for l
      using F(4)[OF that] by (intro image_cong) (auto simp: gone_def)
    then have zs: "set zs = (\<Union>l<n. look (disk v) (i_ib ! l) ` gone (Suc l) (li l)) - {0}" using v2(2) by (simp add: roots_post_def)
    then have "set (zs @ ys) = (\<Union>l<Suc n. look (disk v) (i_ib ! l) ` gone (Suc l) (li l)) - {0}"
      using v1(2) by (auto simp: root_post_def lessThan_Suc)
    moreover have "\<forall>l<Suc n. \<forall>is\<in>paths (Suc l). look (disk v2) (if li l < 0 then 0 else i_ib ! l) is
        = (if is \<in> gone (Suc l) (li l) then 0 else look (disk v) (i_ib ! l) is)"
      using v2(2) F(4) False by (auto simp: roots_post_def less_Suc_eq gone_negative)
    moreover have "\<forall>c. c \<notin> set (zs @ ys) \<longrightarrow> length (disk v2 c) = length (disk v c)
        \<and> (c \<notin> (\<Union>l<Suc n. inner (disk v) (Suc l) (i_ib ! l)) \<longrightarrow> disk v2 c = disk v c)"
      using v1(2) v2(2) F(2) by (auto simp: roots_post_def root_post_def lessThan_Suc)
    ultimately have "roots_post v xs i_ib li (Suc n) v2 (zs @ ys)" unfolding roots_post_def by blast
    moreover have "(\<exists>l<Suc n. 0 \<le> li l) = (\<exists>l<n. 0 \<le> li l)" using False by (auto simp: less_Suc_eq)
    ultimately show ?thesis using v1(1) v2(1) False by auto
  qed
qed

text \<open>The first logical block at or below a place of the file.\<close>

definition base :: "nat \<Rightarrow> int" where
  "base l = 4 + (if l = 0 then 0 else if l = 1 then 256 else 256 + 65536)"

definition lead :: "path \<Rightarrow> int" where
  "lead q = (if fst q < 4 then int (fst q) else base (fst q - 4) + leaf_no (fst q - 3) (snd q))"

lemma lastiblock_eq: "lastiblock lastblock l = (if lastblock < base l then -1 else lastblock - base l)"
  by (simp add: lastiblock_def base_def Let_def)

lemma gone_lead:
  assumes "is \<in> paths (Suc l)"
  shows "is \<in> gone (Suc l) (lastiblock lastblock l) \<longleftrightarrow> lastblock < lead (4 + l, is)"
proof -
  have "fst (4 + l, is) - 3 = Suc l" by simp
  then show ?thesis using leaf_no_bounds[OF assms] assms by (auto simp: gone_def lead_def lastiblock_eq simp del: leaf_no.simps)
qed

lemma ex_less_3: "(\<exists>l<3. P l) \<longleftrightarrow> P 0 \<or> P 1 \<or> P (2 :: nat)"
  by (auto simp: numeral_3_eq_3 numeral_2_eq_2 less_Suc_eq)

lemma lastiblock_ok: "-1 \<le> lastblock \<Longrightarrow> lastblock < max_bn \<Longrightarrow> lastib_ok (lastiblock lastblock) 3"
proof -
  assume a: "-1 \<le> lastblock" "lastblock < max_bn"
  have ex: "(\<exists>l'<3. l < l' \<and> 0 \<le> lastiblock lastblock l') \<longleftrightarrow> l < 2 \<and> base (Suc l) \<le> lastblock" if "l < 3" for l
  proof -
    have "l = 0 \<or> l = 1 \<or> l = 2" using that by auto
    then show ?thesis unfolding ex_less_3 by (elim disjE) (simp_all add: lastiblock_eq base_def)
  qed
  have cl: "-1 \<le> lastiblock lastblock l \<and> (if l < 2 \<and> base (Suc l) \<le> lastblock then 256 ^ Suc l \<le> lastiblock lastblock l else lastiblock lastblock l < 256 ^ Suc l)"
    if "l < 3" for l
  proof -
    have "l = 0 \<or> l = 1 \<or> l = 2" using that by auto
    then show ?thesis using a by (auto simp: lastiblock_eq base_def)
  qed
  show ?thesis unfolding lastib_ok_def
  proof (intro allI impI)
    fix l :: nat assume l: "l < 3"
    show "-1 \<le> lastiblock lastblock l \<and> (if \<exists>l'<3. l < l' \<and> 0 \<le> lastiblock lastblock l' then 256 ^ Suc l \<le> lastiblock lastblock l
        else lastiblock lastblock l < 256 ^ Suc l)"
      unfolding ex[OF l] by (rule cl[OF l])
  qed
qed

lemma leaf_no_steps:
  "leaf_no (Suc 0) [i] = int i" "leaf_no 2 [i, j] = int i * 256 + int j" "leaf_no 3 [i, j, k] = int i * 65536 + (int j * 256 + int k)"
  by (simp_all add: numeral_2_eq_2 numeral_3_eq_3)

lemma lead_place:
  assumes "0 \<le> bn" and "bn < max_bn"
  shows "lead (place bn) = bn"
proof -
  consider "bn < 4" | "4 \<le> bn" "bn < 260" | "260 \<le> bn" "bn < 65796" | "65796 \<le> bn" by linarith
  then show ?thesis
  proof cases
    case 4
    define x where "x = bn - 65796"
    have "x div 65536 = x div 256 div 256" using zdiv_zmult2_eq[of 256 x 256] by simp
    then have "x div 65536 * 65536 + (x div 256 mod 256 * 256 + x mod 256) = x"
      using div_mult_mod_eq[of x 256] div_mult_mod_eq[of "x div 256" 256] by linarith
    moreover have "0 \<le> x" using 4 by (simp add: x_def)
    ultimately show ?thesis using 4 by (simp add: place_def lead_def base_def x_def[symmetric] leaf_no_steps pos_imp_zdiv_nonneg_iff) (simp add: x_def)
  qed (use assms in \<open>simp_all add: place_def lead_def base_def leaf_no_steps pos_imp_zdiv_nonneg_iff\<close>)
qed

definition shrink_post :: "daddr list \<Rightarrow> volume \<Rightarrow> daddr list \<Rightarrow> int \<Rightarrow> volume \<Rightarrow> daddr list \<Rightarrow> bool" where
  "shrink_post a v xs lastblock v' ys \<longleftrightarrow> vol_ok v' (ys @ xs) \<and> in_range (sb v') = in_range (sb v)
     \<and> (\<forall>q. valid q \<longrightarrow> ptr (kept_addr lastblock a) (disk v') q = (if lastblock < lead q then 0 else ptr a (disk v) q))
     \<and> set ys = {ptr a (disk v) q |q. valid q \<and> lastblock < lead q} - {0}
     \<and> (\<forall>c. c \<notin> set ys \<longrightarrow> length (disk v' c) = length (disk v c) \<and> (\<not> indirect a (disk v) c \<longrightarrow> disk v' c = disk v c))"

lemma shrink_eq:
  assumes "trunc_roots e (lastiblock lastblock) (drop 4 a) 3 v = Some (\<exists>l<3. 0 \<le> lastiblock lastblock l, v1)"
  shows "shrink e lastblock a v = map_option (\<lambda>v. (kept_addr lastblock a, v))
    (free_each (\<lambda>_ v. Some v) (stale e) (rev (drop (nat (lastblock + 1)) (take 4 a))) v1)"
proof (cases "\<exists>l<3. 0 \<le> lastiblock lastblock l")
  case True
  then have "4 \<le> lastblock" by (auto simp: lastiblock_eq base_def split: if_splits)
  then show ?thesis using assms True by (simp add: shrink_def)
next
  case False
  then have f: "(\<exists>l<3. 0 \<le> lastiblock lastblock l) = False" by blast
  show ?thesis using assms unfolding f by (simp add: shrink_def)
qed

lemma kept_addr_nth: "r < NADDR \<Longrightarrow> kept_addr lastblock a ! r =
    (if r < 4 then (if int r > lastblock then 0 else a ! r) else if lastiblock lastblock (r - 4) < 0 then 0 else a ! r)"
  by (simp add: kept_addr_def del: upt_Suc)

lemma file_forest:
  assumes "file_ok a v xs"
  shows "forest v xs (drop 4 a) 3"
proof -
  note t = file_okD(2)[OF assms]
  have len: "length a = NADDR" by (rule tree_okD(1)[OF t])
  have p: "drop 4 a ! l = ptr a (disk v) (4 + l, [])" "valid (4 + l, [])" "depth (4 + l) = Suc l" if "l < 3" for l
    using that len by (simp_all add: ptr_def valid_def depth_def)
  have "nodes (disk v) (Suc l) (drop 4 a ! l) \<inter> nodes (disk v) (Suc l') (drop 4 a ! l') = {}" if "l < 3" "l' < 3" "l \<noteq> l'" for l l'
    unfolding p(1)[OF that(1)] p(1)[OF that(2)] by (rule nodes_ptr_apart[OF t p(2)[OF that(1)] _ p(2)[OF that(2)]]) (use p(3) that in simp_all)
  moreover have "subtree (in_range (sb v)) (disk v) (Suc l) (drop 4 a ! l)" if "l < 3" for l
    unfolding p(1)[OF that] by (rule tree_subtree[OF t p(2)[OF that]]) (use p(3)[OF that] in simp)
  moreover have "nodes (disk v) (Suc l) (drop 4 a ! l) \<inter> set xs = {}" if "l < 3" for l
  proof -
    have "x \<notin> set xs" if "x \<in> nodes (disk v) (Suc l) (ptr a (disk v) (4 + l, []))" for x
      using that tree_okD(3)[OF t] p(2,3)[OF \<open>l < 3\<close>] valid_append[of "4 + l" "[]" "Suc l"] unfolding nodes_ptr by fastforce
    then show ?thesis unfolding p(1)[OF that] by blast
  qed
  ultimately show ?thesis using file_okD(1)[OF assms] unfolding forest_def by blast
qed

text \<open>The direct blocks that are given up.\<close>

definition direct_gone :: "int \<Rightarrow> daddr list \<Rightarrow> daddr set" where
  "direct_gone lastblock a = {a ! r |r. r < 4 \<and> lastblock < int r} - {0}"

lemma direct_freed:
  assumes t: "tree_ok f a d fr" and lb: "-1 \<le> lastblock" and v: "vol_ok v ys" "in_range (sb v) = in_range f"
    and disj: "\<And>r. r < 4 \<Longrightarrow> a ! r \<noteq> 0 \<Longrightarrow> a ! r \<notin> set ys"
  shows "\<exists>v' zs. free_each (\<lambda>_ v. Some v) st (rev (drop (nat (lastblock + 1)) (take 4 a))) v = Some v'
    \<and> releases v ys v' zs (direct_gone lastblock a) \<and> set zs = direct_gone lastblock a"
proof -
  let ?D = "drop (nat (lastblock + 1)) (take 4 a)"
  have len: "length a = NADDR" by (rule tree_okD(1)[OF t])
  have slot: "valid (r, [])" "ptr a d (r, []) = a ! r" if "r < 4" for r using that by (simp_all add: valid_def ptr_def)
  have D: "?D = map ((!) a) [nat (lastblock + 1)..<4]"
    using drop_map_nth[of "nat (lastblock + 1)" "take 4 a"] len by (simp cong: map_cong)
  have ge: "nat (lastblock + 1) \<le> r \<longleftrightarrow> lastblock < int r" for r using lb by linarith
  have all: "(\<Union>b\<in>set (rev ?D). nodes (disk v) 0 b) = direct_gone lastblock a"
    unfolding D direct_gone_def using ge by (auto simp: nodes.simps)
  have "\<exists>v' zs. free_each (\<lambda>_ v. Some v) st (rev ?D) v = Some v' \<and> releases v ys v' zs (\<Union>b\<in>set (rev ?D). nodes (disk v) 0 b)
    \<and> set zs = (\<Union>b\<in>set (rev ?D). nodes (disk v) 0 b)"
  proof (rule free_each_ok[OF empties_leaf v(1)])
    show "\<forall>b\<in>set (rev ?D). subtree (in_range (sb v)) (disk v) 0 b \<and> nodes (disk v) 0 b \<inter> set ys = {}"
    proof
      fix b assume "b \<in> set (rev ?D)"
      then obtain r where r: "r < 4" "b = a ! r" unfolding D by auto
      show "subtree (in_range (sb v)) (disk v) 0 b \<and> nodes (disk v) 0 b \<inter> set ys = {}"
        using tree_okD(2)[OF t slot(1)[OF r(1)]] slot(2)[OF r(1)] disj[OF r(1)] v(2) r(2) by (auto simp: nodes.simps subtree.simps)
    qed
    show "apart (disk v) 0 (rev ?D)"
    proof (rule apart_nth)
      fix i j assume ij: "i < length (rev ?D)" "j < length (rev ?D)" "i \<noteq> j"
      define n where "n = length [nat (lastblock + 1)..<4]"
      define i' j' where "i' = nat (lastblock + 1) + (n - Suc i)" and "j' = nat (lastblock + 1) + (n - Suc j)"
      have lt: "i < n" "j < n" using ij unfolding D n_def by simp_all
      then have "rev ?D ! i = a ! i'" "rev ?D ! j = a ! j'" unfolding D by (simp_all add: rev_nth i'_def j'_def n_def)
      moreover have ne: "i' < 4" "j' < 4" "i' \<noteq> j'" using lt ij(3) by (auto simp: i'_def j'_def n_def)
      moreover have "a ! i' = 0 \<or> a ! i' \<noteq> a ! j'"
        using tree_okD(5)[OF t slot(1)[OF ne(1)] slot(1)[OF ne(2)]] slot(2)[OF ne(1)] slot(2)[OF ne(2)] ne(3) by auto
      ultimately show "nodes (disk v) 0 (rev ?D ! i) \<inter> nodes (disk v) 0 (rev ?D ! j) = {}" by (auto simp: nodes.simps)
    qed
  qed
  then show ?thesis unfolding all .
qed

lemma valid_cases:
  assumes "valid q"
  obtains (direct) r where "r < 4" "q = (r, [])" | (tree) l js where "l < 3" "js \<in> paths (Suc l)" "q = (4 + l, js)"
proof -
  obtain r js where q: "q = (r, js)" by (cases q)
  show ?thesis
  proof (cases "r < 4")
    case True
    then have "js = []" using assms q by (simp add: valid_def depth_def)
    then show ?thesis using direct True q by blast
  next
    case False
    moreover have "r < NADDR" using assms q by (simp add: valid_def)
    ultimately have "r - 4 < 3" "4 + (r - 4) = r" "depth r = Suc (r - 4)" unfolding depth_def by linarith+
    moreover from this have "js \<in> paths (Suc (r - 4))" using assms unfolding q valid_paths by simp
    ultimately show ?thesis using tree[of "r - 4" js] q by simp
  qed
qed

lemma inner_look: "inner d k p = look d p ` {is \<in> paths k. length is < k} - {0}"
proof (induction k arbitrary: p)
  case (Suc k)
  have "{is \<in> paths (Suc k). length is < Suc k} = insert [] (\<Union>i<NINDIR. (#) i ` {is \<in> paths k. length is < k})"
  proof (intro subset_antisym subsetI)
    fix x assume "x \<in> {is \<in> paths (Suc k). length is < Suc k}"
    then show "x \<in> insert [] (\<Union>i<NINDIR. (#) i ` {is \<in> paths k. length is < k})" by (cases x) auto
  qed auto
  then have "look d p ` {is \<in> paths (Suc k). length is < Suc k} = insert p (\<Union>i<NINDIR. (\<lambda>is. look d p (i # is)) ` {is \<in> paths k. length is < k})"
    by (simp add: image_UN image_image)
  then show ?case using Suc by (auto simp: inner.simps simp del: paths_Cons)
qed (simp add: inner.simps)

lemma inner_indirect: "l < 3 \<Longrightarrow> c \<in> inner d (Suc l) (a ! (4 + l)) \<Longrightarrow> indirect a d c"
proof -
  assume l: "l < 3" and "c \<in> inner d (Suc l) (a ! (4 + l))"
  then obtain js where js: "js \<in> paths (Suc l)" "length js < Suc l" "c = look d (a ! (4 + l)) js" unfolding inner_look by blast
  then have "valid (4 + l, js)" "length (snd (4 + l, js)) < depth (fst (4 + l, js))" "ptr a d (4 + l, js) = c"
    using l by (simp_all add: ptr_look valid_paths depth_def)
  then show ?thesis unfolding indirect_def by blast
qed

lemma lead_direct [simp]: "r < 4 \<Longrightarrow> lead (r, js) = int r"
  by (simp add: lead_def)

lemma shrink_ok:
  assumes f: "file_ok a v xs" and e: "no_errors e" and lb: "-1 \<le> lastblock" "lastblock < max_bn"
  shows "\<exists>v' ys. shrink e lastblock a v = Some (kept_addr lastblock a, v') \<and> shrink_post a v xs lastblock v' ys"
proof -
  note t = file_okD(2)[OF f]
  define d where "d = disk v"
  define li where "li = lastiblock lastblock"
  define N where "N = (\<lambda>l. nodes d (Suc l) (a ! (4 + l)))"
  define a' where "a' = kept_addr lastblock a"
  have len: "length a = NADDR" by (rule tree_okD(1)[OF t])
  have ib: "drop 4 a ! l = a ! (4 + l)" if "l < 3" for l using that len by simp
  obtain v1 ys where v1: "trunc_roots e li (drop 4 a) 3 v = Some (\<exists>l<3. 0 \<le> li l, v1)" "roots_post v xs (drop 4 a) li 3 v1 ys"
    using trunc_roots_ok[OF e file_forest[OF f] lastiblock_ok[OF lb]] unfolding li_def by blast
  have V1: "releases v xs v1 ys (\<Union>l<3. N l)" "set ys = (\<Union>l<3. look d (a ! (4 + l)) ` gone (Suc l) (li l)) - {0}"
    "\<And>c. c \<notin> set ys \<Longrightarrow> length (disk v1 c) = length (d c) \<and> (c \<notin> (\<Union>l<3. inner d (Suc l) (a ! (4 + l))) \<longrightarrow> disk v1 c = d c)"
    using v1(2) unfolding roots_post_def N_def d_def by (simp_all add: ib)
  have K1: "look (disk v1) (a' ! (4 + l)) js = (if js \<in> gone (Suc l) (li l) then 0 else look d (a ! (4 + l)) js)"
    if "l < 3" "js \<in> paths (Suc l)" for l js
  proof -
    have "a' ! (4 + l) = (if li l < 0 then 0 else drop 4 a ! l)" using that(1) ib by (simp add: a'_def kept_addr_nth li_def)
    then show ?thesis using v1(2) that unfolding roots_post_def d_def by (simp add: ib)
  qed
  have dir: "a ! r \<notin> N l" if "r < 4" "l < 3" "a ! r \<noteq> 0" for r l
  proof -
    have "nodes d 0 (ptr a d (r, [])) \<inter> nodes d (Suc l) (ptr a d (4 + l, [])) = {}"
      using that by (intro nodes_ptr_apart[OF t[folded d_def]]) (simp_all add: valid_def depth_def)
    then show ?thesis using that(3) by (simp add: ptr_def N_def nodes.simps(1))
  qed
  have ysN: "set ys \<subseteq> (\<Union>l<3. N l)" using V1(2) unfolding N_def nodes_look gone_def by blast
  have "a ! r \<notin> set (ys @ xs)" if "r < 4" "a ! r \<noteq> 0" for r
  proof -
    have "valid (r, [])" "ptr a (disk v) (r, []) = a ! r" using that(1) by (simp_all add: valid_def ptr_def)
    then have "a ! r \<notin> set xs" using tree_okD(3)[OF t] that(2) by metis
    then show ?thesis using ysN dir[OF that(1) _ that(2)] by auto
  qed
  then obtain v2 zs where v2: "free_each (\<lambda>_ v. Some v) (stale e) (rev (drop (nat (lastblock + 1)) (take 4 a))) v1 = Some v2"
    "releases v1 (ys @ xs) v2 zs (direct_gone lastblock a)" "set zs = direct_gone lastblock a"
    using direct_freed[OF t lb(1), of v1 "ys @ xs" "stale e"] V1(1) unfolding releases_def by blast
  have run: "shrink e lastblock a v = Some (a', v2)" using shrink_eq[OF v1(1)[unfolded li_def]] v2(1) by (simp add: a'_def)
  have R: "releases v xs v2 (zs @ ys) ((\<Union>l<3. N l) \<union> direct_gone lastblock a)" by (rule releases_trans[OF V1(1) v2(2)]) auto
  have K2: "look (disk v2) (a' ! (4 + l)) js = (if js \<in> gone (Suc l) (li l) then 0 else look d (a ! (4 + l)) js)"
    if "l < 3" "js \<in> paths (Suc l)" for l js
  proof -
    have "nodes (disk v1) (Suc l) (a' ! (4 + l)) \<subseteq> N l" using K1[OF that(1)] unfolding N_def nodes_look by auto
    moreover have "N l \<inter> direct_gone lastblock a = {}" using dir[OF _ that(1)] by (auto simp: direct_gone_def)
    ultimately have "look (disk v2) (a' ! (4 + l)) js = look (disk v1) (a' ! (4 + l)) js"
      using v2(2) that(2) unfolding releases_def by (intro look_frame[of "disk v1" "Suc l"]) (auto simp: paths_def)
    then show ?thesis using K1[OF that] by simp
  qed
  have P: "ptr a' (disk v2) q = (if lastblock < lead q then 0 else ptr a d q)" if "valid q" for q
    using that
  proof (cases rule: valid_cases)
    case (direct r)
    then show ?thesis by (simp add: ptr_look a'_def kept_addr_nth)
  next
    case (tree l js)
    then show ?thesis unfolding tree(3) ptr_look using K2[OF tree(1,2)] gone_lead[OF tree(2)] by (simp add: li_def)
  qed
  have S: "set (zs @ ys) = {ptr a d q |q. valid q \<and> lastblock < lead q} - {0}" (is "_ = ?S - {0}")
  proof -
    have "?S = {a ! r |r. r < 4 \<and> lastblock < int r} \<union> (\<Union>l<3. look d (a ! (4 + l)) ` gone (Suc l) (li l))"
    proof (intro subset_antisym subsetI)
      fix x assume "x \<in> ?S"
      then obtain q where q: "x = ptr a d q" "valid q" "lastblock < lead q" by blast
      from q(2) show "x \<in> {a ! r |r. r < 4 \<and> lastblock < int r} \<union> (\<Union>l<3. look d (a ! (4 + l)) ` gone (Suc l) (li l))"
      proof (cases rule: valid_cases)
        case (direct r)
        then show ?thesis using q by (auto simp: ptr_look)
      next
        case (tree l js)
        then show ?thesis using q gone_lead[OF tree(2)] by (auto simp: ptr_look li_def)
      qed
    next
      fix x assume "x \<in> {a ! r |r. r < 4 \<and> lastblock < int r} \<union> (\<Union>l<3. look d (a ! (4 + l)) ` gone (Suc l) (li l))"
      then consider (direct) r where "x = a ! r" "r < 4" "lastblock < int r"
        | (tree) l js where "l < 3" "js \<in> gone (Suc l) (li l)" "x = look d (a ! (4 + l)) js" by auto
      then show "x \<in> ?S"
      proof cases
        case direct
        then have "x = ptr a d (r, [])" "valid (r, [])" "lastblock < lead (r, [])" by (simp_all add: ptr_def valid_def)
        then show ?thesis by blast
      next
        case tree
        then have "js \<in> paths (Suc l)" by (simp add: gone_def)
        then have "x = ptr a d (4 + l, js)" "valid (4 + l, js)" "lastblock < lead (4 + l, js)"
          using tree gone_lead[of js l lastblock] by (simp_all add: ptr_look valid_paths depth_def li_def)
        then show ?thesis by blast
      qed
    qed
    then show ?thesis using V1(2) v2(3) by (auto simp: direct_gone_def)
  qed
  have "length (disk v2 c) = length (d c) \<and> (\<not> indirect a d c \<longrightarrow> disk v2 c = d c)" if "c \<notin> set (zs @ ys)" for c
  proof -
    have "disk v2 c = disk v1 c" using v2(2,3) that unfolding releases_def by auto
    moreover have "\<not> indirect a d c \<longrightarrow> c \<notin> (\<Union>l<3. inner d (Suc l) (a ! (4 + l)))"
      using inner_indirect by blast
    ultimately show ?thesis using V1(3)[of c] that by auto
  qed
  then have "shrink_post a v xs lastblock v2 (zs @ ys)"
    using R P S unfolding shrink_post_def releases_def a'_def d_def by blast
  then show ?thesis using run unfolding a'_def by blast
qed

section \<open>Properties\<close>

definition file_blocks :: "finode \<Rightarrow> volume \<Rightarrow> daddr set" where
  "file_blocks ip v = {ptr (i_addr ip) (disk v) q |q. valid q} - {0}"

lemma shrink_file_ok:
  assumes f: "file_ok a v xs" and s: "shrink_post a v xs lastblock v' ys"
  shows "file_ok (kept_addr lastblock a) v' (ys @ xs)"
proof -
  note t = file_okD(2)[OF f]
  have P: "\<And>q. valid q \<Longrightarrow> ptr (kept_addr lastblock a) (disk v') q = (if lastblock < lead q then 0 else ptr a (disk v) q)"
    and S: "set ys = {ptr a (disk v) q |q. valid q \<and> lastblock < lead q} - {0}"
    and L: "\<And>c. c \<notin> set ys \<Longrightarrow> length (disk v' c) = length (disk v c)"
    and V: "vol_ok v' (ys @ xs)" "in_range (sb v') = in_range (sb v)"
    using s unfolding shrink_post_def by blast+
  have kept: "ptr a (disk v) q \<notin> set ys" if "valid q" "\<not> lastblock < lead q" "ptr a (disk v) q \<noteq> 0" for q
  proof
    assume "ptr a (disk v) q \<in> set ys"
    then obtain q' where "ptr a (disk v) q = ptr a (disk v) q'" "valid q'" "lastblock < lead q'" unfolding S by blast
    then show False using tree_okD(5)[OF t that(1) _ that(3)] that(2) by blast
  qed
  have "tree_ok (sb v) (kept_addr lastblock a) (disk v') (set (ys @ xs))"
    unfolding tree_ok_def
  proof (intro conjI allI impI)
    show "length (kept_addr lastblock a) = NADDR" by (simp add: kept_addr_def)
    fix q assume q: "valid q" "ptr (kept_addr lastblock a) (disk v') q \<noteq> 0"
    then have e: "\<not> lastblock < lead q" "ptr (kept_addr lastblock a) (disk v') q = ptr a (disk v) q" "ptr a (disk v) q \<noteq> 0"
      using P[OF q(1)] by (auto split: if_splits)
    show "in_range (sb v) (ptr (kept_addr lastblock a) (disk v') q)" using tree_okD(2)[OF t q(1)] e by simp
    show "ptr (kept_addr lastblock a) (disk v') q \<notin> set (ys @ xs)" using kept[OF q(1)] tree_okD(3)[OF t q(1)] e by simp
    show "length (disk v' (ptr (kept_addr lastblock a) (disk v') q)) = NINDIR" if "length (snd q) < depth (fst q)"
      using L[OF kept[OF q(1) e(1,3)]] tree_okD(4)[OF t q(1) e(3) that] e(2) by simp
    fix q' assume q': "valid q'" "ptr (kept_addr lastblock a) (disk v') q = ptr (kept_addr lastblock a) (disk v') q'"
    then show "q = q'" using P[OF q'(1)] e q(2) tree_okD(5)[OF t q(1) q'(1)] by (auto split: if_splits)
  qed
  then show ?thesis using V tree_ok_range[OF V(2)] by (simp add: file_ok_def)
qed

lemma image_split:
  assumes "\<And>q q'. V q \<Longrightarrow> V q' \<Longrightarrow> f q \<noteq> z \<Longrightarrow> f q = f q' \<Longrightarrow> q = q'"
  shows "{f q |q. V q \<and> G q} - {z} = ({f q |q. V q} - {z}) - ({f q |q. V q \<and> \<not> G q} - {z})"
  using assms by blast

lemma shrink_file_blocks:
  assumes f: "file_ok (i_addr ip) v xs" and s: "shrink_post (i_addr ip) v xs lastblock v' ys" and a: "i_addr ip' = kept_addr lastblock (i_addr ip)"
  shows "set ys = file_blocks ip v - file_blocks ip' v'"
proof -
  note t = file_okD(2)[OF f]
  have P: "\<And>q. valid q \<Longrightarrow> ptr (i_addr ip') (disk v') q = (if lastblock < lead q then 0 else ptr (i_addr ip) (disk v) q)"
    and S: "set ys = {ptr (i_addr ip) (disk v) q |q. valid q \<and> lastblock < lead q} - {0}"
    using s unfolding shrink_post_def a by blast+
  have B: "file_blocks ip' v' = {ptr (i_addr ip) (disk v) q |q. valid q \<and> \<not> lastblock < lead q} - {0}"
  proof -
    have "(\<exists>q. x = ptr (i_addr ip') (disk v') q \<and> valid q) \<longleftrightarrow> (\<exists>q. x = ptr (i_addr ip) (disk v) q \<and> valid q \<and> \<not> lastblock < lead q)"
      if "x \<noteq> 0" for x using P that by metis
    then show ?thesis unfolding file_blocks_def by blast
  qed
  have A: "file_blocks ip v = {ptr (i_addr ip) (disk v) q |q. valid q} - {0}" by (rule file_blocks_def)
  show ?thesis unfolding S B A by (rule image_split) (rule tree_okD(5)[OF t])
qed

lemma walk_there:
  "no_errors e \<Longrightarrow> look (disk v) nb (idxs k sh bn) \<noteq> 0
    \<Longrightarrow> \<exists>ra'. bmap_walk e rd sync k sh bn nb ra v = Some (look (disk v) nb (idxs k sh bn), ra', 0, v)"
proof (induction k arbitrary: sh nb ra)
  case (Suc k)
  define i where "i = nat (bn div 2 ^ nat (sh - 8) mod 256)"
  have nb: "look (disk v) (disk v nb ! i) (idxs k (sh - 8) bn) \<noteq> 0" "nb \<noteq> 0" using Suc.prems(2) by (auto simp: i_def split: if_splits)
  then have "disk v nb ! i \<noteq> 0" by auto
  then show ?case
    using Suc.IH[OF Suc.prems(1) nb(1)] Suc.prems(1) nb(2) unfolding bmap_walk.simps Let_def i_def[symmetric] by (simp add: i_def[symmetric] no_errors_def)
qed simp

lemma bmap_there:
  assumes f: "file_ok (i_addr ip) v xs" and bn: "0 \<le> bn" "bn < max_bn" and e: "no_errors e" and b: "block_of ip v bn \<noteq> 0"
  shows "\<exists>ra. bmap e rd clrbuf sync rablock bn ip v = Some (block_of ip v bn, ra, 0, ip, v)"
proof (cases "bn < 4")
  case True
  have "block_of ip v bn = i_addr ip ! nat bn" using True by (simp add: block_of_def place_def ptr_def)
  then show ?thesis using True bn b by (simp add: bmap_def Let_def)
next
  case False
  obtain j sh m where j: "bmap_level 3 0 1 (bn - 4) = (j, sh, m)" "1 \<le> j" "j \<le> 3" "place bn = (7 - j, idxs (4 - j) sh m)"
    using place_level[of bn] False bn by auto
  have blk: "block_of ip v bn = look (disk v) (i_addr ip ! (7 - j)) (idxs (4 - j) sh m)" by (simp add: block_of_def j(4) ptr_def)
  then have "i_addr ip ! (7 - j) \<noteq> 0" using b by auto
  moreover obtain ra where "bmap_walk e rd sync (4 - j) sh m (i_addr ip ! (7 - j)) 0 v = Some (block_of ip v bn, ra, 0, v)"
    using walk_there[OF e] b unfolding blk by blast
  ultimately show ?thesis using False bn j(1,2) by (simp add: bmap_def Let_def)
qed

lemma leaf_write:
  assumes f: "file_ok a v xs" and p: "valid p" "length (snd p) = depth (fst p)" "ptr a (disk v) p = c" "c \<noteq> 0"
  shows "file_ok a (v\<lparr>disk := (disk v)(c := w)\<rparr>) xs" and "valid q \<Longrightarrow> ptr a ((disk v)(c := w)) q = ptr a (disk v) q"
    and "\<not> indirect a (disk v) c"
proof -
  note t = file_okD(2)[OF f]
  have ne: "ptr a (disk v) q \<noteq> c" if "valid q" "length (snd q) < depth (fst q)" for q
  proof
    assume "ptr a (disk v) q = c"
    then have "p = q" using tree_okD(5)[OF t p(1) that(1)] p(3,4) by simp
    then show False using p(2) that(2) by simp
  qed
  have P: "ptr a ((disk v)(c := w)) (s, js) = ptr a (disk v) (s, js)" if "valid (s, js)" for s js
    using that
  proof (induction js rule: rev_induct)
    case Nil
    then show ?case by (simp add: ptr_def)
  next
    case (snoc i js)
    then have v: "valid (s, js)" "length js < depth s" by (simp_all add: valid_snoc)
    show ?case using snoc.IH[OF v(1)] ne[OF v(1)] v(2) by (simp add: ptr_snoc)
  qed
  then have P': "ptr a ((disk v)(c := w)) q = ptr a (disk v) q" if "valid q" for q using that by (cases q) simp
  then show "valid q \<Longrightarrow> ptr a ((disk v)(c := w)) q = ptr a (disk v) q" .
  show "\<not> indirect a (disk v) c" using ne unfolding indirect_def by blast
  have "c \<notin> set xs" using tree_okD(3)[OF t p(1)] p(3,4) by simp
  then have "vol_ok (v\<lparr>disk := (disk v)(c := w)\<rparr>) xs" by (rule vol_ok_write[OF file_okD(1)[OF f]])
  moreover have "tree_ok (sb v) a ((disk v)(c := w)) (set xs)" using t ne P' unfolding tree_ok_def by simp
  ultimately show "file_ok a (v\<lparr>disk := (disk v)(c := w)\<rparr>) xs" by (simp add: file_ok_def)
qed

lemma block_kept: "(len + 1023) div 1024 - 1 < x \<longleftrightarrow> \<not> x * 1024 < (len :: int)"
proof -
  define q where "q = (len + 1023) div 1024"
  have "q * 1024 \<le> len + 1023" "len + 1023 < q * 1024 + 1024"
    using div_mult_mod_eq[of "len + 1023" 1024] pos_mod_sign[of 1024 "len + 1023"] pos_mod_bound[of 1024 "len + 1023"]
    unfolding q_def by linarith+
  then show ?thesis unfolding q_def[symmetric] by linarith
qed

lemma shrink_blocks:
  assumes "shrink_post (i_addr ip) v xs ((len + 1023) div 1024 - 1) v' ys" and "i_addr ip' = kept_addr ((len + 1023) div 1024 - 1) (i_addr ip)"
    and "0 \<le> x" "x < max_bn"
  shows "block_of ip' v' x = (if x * 1024 < len then block_of ip v x else 0)"
proof -
  have "ptr (i_addr ip') (disk v') (place x) = (if (len + 1023) div 1024 - 1 < lead (place x) then 0 else ptr (i_addr ip) (disk v) (place x))"
    using assms(1) place_valid(1)[OF assms(3,4)] unfolding shrink_post_def assms(2)[symmetric] by blast
  then show ?thesis unfolding block_of_def lead_place[OF assms(3,4)] block_kept by simp
qed

lemma kept_data:
  assumes f: "file_ok (i_addr ip) v xs" and s: "shrink_post (i_addr ip) v xs lastblock v' ys" and x: "0 \<le> x" "x \<le> lastblock" "x < max_bn"
    and b: "block_of ip v x \<noteq> 0"
  shows "disk v' (block_of ip v x) = disk v (block_of ip v x)"
proof -
  let ?c = "block_of ip v x"
  note pv = place_valid[OF x(1,3)]
  have "?c \<notin> set ys"
  proof
    assume "?c \<in> set ys"
    then obtain q where "?c = ptr (i_addr ip) (disk v) q" "valid q" "lastblock < lead q" using s unfolding shrink_post_def by blast
    moreover from this have "place x = q" using tree_okD(5)[OF file_okD(2)[OF f] pv(1)] b unfolding block_of_def by blast
    ultimately show False using lead_place[OF x(1,3)] x(2) by simp
  qed
  moreover have "\<not> indirect (i_addr ip) (disk v) ?c"
    by (rule leaf_write(3)[OF f pv]) (use b in \<open>simp_all add: block_of_def\<close>)
  ultimately show ?thesis using s unfolding shrink_post_def by blast
qed

text \<open>
  C15. Making a file shorter, without I/O errors: \<open>itrunc\<close> succeeds and sets the size; every block of the file that holds bytes before
  the new end keeps its disk block, every other place of the file becomes a hole; the blocks that go to the free list are exactly those that
  the file gave up, indirect ones included, so that none is lost and none is free while in use; the contents of the whole blocks kept
  are untouched, and in the block that holds the new end the bytes after it are cleared.
\<close>

theorem itrunc_frees_exactly:
  assumes f: "file_ok (i_addr (ti ip)) v xs" and e: "no_errors e" and len: "0 \<le> len" "len < i_size ip" "i_size ip \<le> 1024 * max_bn"
    and np: "\<not> i_pipe ip" and hole: "len mod 1024 \<noteq> 0 \<longrightarrow> block_of (ti ip) v (len div 1024) \<noteq> 0"
  shows "\<exists>ip' v' ys. itrunc e 0 len sync ip v = Some (0, ip', v') \<and> i_size ip' = len \<and> file_ok (i_addr (ti ip')) v' (ys @ xs)
    \<and> (\<forall>x. 0 \<le> x \<longrightarrow> x < max_bn \<longrightarrow> block_of (ti ip') v' x = (if x * 1024 < len then block_of (ti ip) v x else 0))
    \<and> set ys = file_blocks (ti ip) v - file_blocks (ti ip') v'
    \<and> (\<forall>x. 0 \<le> x \<longrightarrow> (x + 1) * 1024 \<le> len \<longrightarrow> block_of (ti ip) v x \<noteq> 0
          \<longrightarrow> disk v' (block_of (ti ip) v x) = disk v (block_of (ti ip) v x))
    \<and> (len mod 1024 \<noteq> 0 \<longrightarrow> disk v' (block_of (ti ip) v (len div 1024))
          = zero_from (nat (len mod 1024)) (disk v (block_of (ti ip) v (len div 1024))))"
proof -
  define lb where "lb = (len + 1023) div 1024 - 1"
  define c where "c = block_of (ti ip) v (len div 1024)"
  define v0 where "v0 = (if len mod 1024 = 0 then v else v\<lparr>disk := (disk v)(c := zero_from (nat (len mod 1024)) (disk v c))\<rparr>)"
  have lb: "-1 \<le> lb" "lb < max_bn" using len by (auto simp: lb_def)
  have in': "0 \<le> len div 1024" "len div 1024 < max_bn" using len by auto
  note pv = place_valid[OF in']
  have W: "file_ok (i_addr (ti ip)) v0 xs" "\<And>q. valid q \<Longrightarrow> ptr (i_addr (ti ip)) (disk v0) q = ptr (i_addr (ti ip)) (disk v) q"
    using f leaf_write(1,2)[OF f pv, of c] hole unfolding v0_def c_def block_of_def by auto
  have same: "block_of (ti ip) v0 x = block_of (ti ip) v x" if "0 \<le> x" "x < max_bn" for x
    using W(2) place_valid(1)[OF that] by (simp add: block_of_def)
  have blocks: "file_blocks (ti ip) v0 = file_blocks (ti ip) v" unfolding file_blocks_def using W(2) by (metis (no_types, lifting))
  obtain v' ys where s: "shrink e lb (i_addr (ti ip)) v0 = Some (kept_addr lb (i_addr (ti ip)), v')" "shrink_post (i_addr (ti ip)) v0 xs lb v' ys"
    using shrink_ok[OF W(1) e lb] by blast
  define ip' where "ip' = touch (ip\<lparr>i_size := len, ti := (ti ip)\<lparr>i_addr := kept_addr lb (i_addr (ti ip))\<rparr>\<rparr>)"
  have a': "i_addr (ti ip') = kept_addr lb (i_addr (ti ip))" "i_size ip' = len" by (simp_all add: ip'_def touch_def)
  have run: "itrunc e 0 len sync ip v = Some (0, ip', v')"
  proof (cases "len mod 1024 = 0")
    case True
    then show ?thesis using len np s(1) by (simp add: itrunc_def Let_def lb_def[symmetric] v0_def ip'_def)
  next
    case False
    then have c0: "c \<noteq> 0" using hole by (simp add: c_def)
    have "no_errors (e\<lparr>u_err := 0\<rparr>)" using e by (simp add: no_errors_def)
    then obtain ra where "bmap (e\<lparr>u_err := 0\<rparr>) False True sync 0 (len div 1024) (ti ip) v = Some (c, ra, 0, ti ip, v)"
      using bmap_there[OF f in', of "e\<lparr>u_err := 0\<rparr>"] c0 unfolding c_def by blast
    moreover have "0 < c" using tree_okD(2)[OF file_okD(2)[OF f] pv(1)] c0 by (simp add: c_def block_of_def in_range_def)
    ultimately show ?thesis
      using False len np e s(1) by (simp add: itrunc_def Let_def lb_def[symmetric] v0_def ip'_def no_errors_def)
  qed
  have data: "disk v' (block_of (ti ip) v x) = disk v0 (block_of (ti ip) v x)" if "0 \<le> x" "x * 1024 < len" "block_of (ti ip) v x \<noteq> 0" for x
  proof -
    have "x < max_bn" using that(1,2) len by simp
    moreover have "x \<le> lb" using block_kept[of len x] that(2) unfolding lb_def by linarith
    ultimately show ?thesis using kept_data[OF W(1) s(2) that(1)] same[OF that(1)] that(3) by simp
  qed
  have "disk v' (block_of (ti ip) v x) = disk v (block_of (ti ip) v x)" if "0 \<le> x" "(x + 1) * 1024 \<le> len" "block_of (ti ip) v x \<noteq> 0" for x
  proof -
    have xl: "x < max_bn" "x * 1024 < len" "x \<noteq> len div 1024" using that(1,2) len by auto
    have "block_of (ti ip) v x \<noteq> c"
      using tree_okD(5)[OF file_okD(2)[OF f] place_valid(1)[OF that(1) xl(1)] pv(1)] place_inj[OF that(1) xl(1) in'] xl(3) that(3)
      unfolding c_def block_of_def by blast
    then show ?thesis using data[OF that(1) xl(2) that(3)] by (simp add: v0_def)
  qed
  moreover have "disk v' c = zero_from (nat (len mod 1024)) (disk v c)" if "len mod 1024 \<noteq> 0"
  proof -
    have "len div 1024 * 1024 < len"
      using that div_mult_mod_eq[of len 1024] pos_mod_sign[of 1024 len] by linarith
    then show ?thesis using data[OF in'(1)] hole that by (simp add: c_def v0_def)
  qed
  moreover have "\<forall>x. 0 \<le> x \<longrightarrow> x < max_bn \<longrightarrow> block_of (ti ip') v' x = (if x * 1024 < len then block_of (ti ip) v x else 0)"
    using shrink_blocks[OF s(2)[unfolded lb_def] a'(1)[unfolded lb_def]] same by simp
  moreover have "file_ok (i_addr (ti ip')) v' (ys @ xs)" unfolding a'(1) by (rule shrink_file_ok[OF W(1) s(2)])
  moreover have "set ys = file_blocks (ti ip) v - file_blocks (ti ip') v'" using shrink_file_blocks[OF W(1) s(2) a'(1)] blocks by simp
  ultimately show ?thesis
    using run a'(2) unfolding c_def by (intro exI[of _ ip'] exI[of _ v'] exI[of _ ys] conjI allI impI) (assumption | blast)+
qed

text \<open>A file of 301 blocks of which only the last is not a hole.\<close>

theorem itrunc_frees_exactly_witness:
  "\<exists>nb ra err f v ip' v'. bmap demo_env False False True 0 300 demo_inode demo_free = Some (nb, ra, err, f, v) \<and> block_of f v 300 = nb \<and> 0 < nb
     \<and> itrunc demo_env 0 0 False \<lparr>ti = f, i_size = 308224, i_pipe = False\<rparr> v = Some (0, ip', v') \<and> i_size ip' = 0 \<and> block_of (ti ip') v' 300 = 0"
proof -
  have n: "no_errors demo_env" by (simp add: no_errors_def demo_env_def)
  obtain nb ra err f v ys where b: "bmap demo_env False False True 0 300 demo_inode demo_free = Some (nb, ra, err, f, v)"
    and w: "walk_post demo_env False 4 (place 300) (i_addr demo_inode, demo_free, [5, 6, 7, 8, 9]) (i_addr f, v, ys) nb"
    using bmap_ok[OF demo_file_ok, of 300 demo_env False False True 0] by auto
  have nb: "0 < nb" "block_of f v 300 = nb" using w n by (auto simp: walk_post_def block_of_def)
  have ok: "file_ok (i_addr f) v ys" using w growsD(1) unfolding walk_post_def prod.case by blast
  define ip where "ip = \<lparr>ti = f, i_size = 308224, i_pipe = False\<rparr>"
  have "\<exists>ip' v'. itrunc demo_env 0 0 False ip v = Some (0, ip', v') \<and> i_size ip' = 0 \<and> block_of (ti ip') v' 300 = 0"
    using itrunc_frees_exactly[of ip v ys demo_env 0 False] ok n unfolding ip_def by force
  then show ?thesis using b nb unfolding ip_def by blast
qed

end
