(* ===== verification/Ufs_Ialloc.thy ===== *)
theory Ufs_Ialloc
  imports Ufs_Alloc
begin

text \<open>
  Free inodes: \<open>ialloc\<close> and \<open>ifree\<close> of \<open>sys/kern/ufs_alloc.c\<close>.

  \<open>ienv\<close> is what the code finds outside the superblock: the modes in the inode blocks of the disk, the blocks that
  cannot be read, the modes of the inodes in core, and the inodes for which \<open>iget\<close> fails.  Two calls inside \<open>ialloc\<close>
  come back to the superblock.  When \<open>iget\<close> cannot read the inode block, it drops the slot it had taken with
  \<open>iput\<close>, after setting its number to 0; a slot whose stale link count is 0 is then freed, by \<open>ifree\<close> of inode 0
  (\<open>frees_0\<close>, see the theory \<open>Ufs_Inode\<close>).  And \<open>iput\<close> of an inode that turned out to be in use releases it,
  if no directory names it and nobody else holds it (\<open>orphan\<close>).

  The superblock keeps a cache of free inode numbers, \<open>cached\<close>; when it is used up the inode blocks are
  searched, and \<open>free_inodes\<close> is the reference for what the search leaves in it.  \<open>named\<close> is the cache without the
  zeros of failed reads, which \<open>ialloc\<close> passes over.  A program that makes file systems marks the inodes 1 and 2 as
  used; the theorems rely on it.  The fields of the inode returned that \<open>ialloc\<close> clears, and the messages, are left
  out; a process that finds the list locked sleeps and tries again, and no other process runs while a search waits for
  the disk.
\<close>

section \<open>Model\<close>

abbreviation ROOTINO :: nat where "ROOTINO \<equiv> 2"

record ienv =
  di_mode :: "nat \<Rightarrow> nat"
  blkerr :: "nat \<Rightarrow> bool"
  in_core :: "nat \<Rightarrow> nat option"
  iget_fails :: "nat \<Rightarrow> bool"
  frees_0 :: "nat \<Rightarrow> bool"
  orphan :: "nat \<Rightarrow> bool"

text \<open>The mode \<open>iget\<close> finds, and what \<open>ifind\<close> answers.\<close>

definition i_mode_of :: "ienv \<Rightarrow> nat \<Rightarrow> nat" where
  "i_mode_of e ino = (case in_core e ino of Some m \<Rightarrow> m | None \<Rightarrow> di_mode e ino)"

definition incore :: "ienv \<Rightarrow> nat \<Rightarrow> bool" where
  "incore e ino \<longleftrightarrow> in_core e ino \<noteq> None"

datatype ialloc_result = Refill | Iget_Failed | No_Inodes | Sleeping | Inode nat

definition ifree :: "nat \<Rightarrow> fs \<Rightarrow> fs" where
  "ifree ino f =
     (let f = f\<lparr>fs_tinode := u32 (fs_tinode f + 1)\<rparr> in
      if fs_ilock f \<noteq> 0 then f
      else if fs_ninode f \<ge> NICINOD then
        if fs_lasti f > ino then f\<lparr>fs_nbehind := u32 (fs_nbehind f + 1)\<rparr> else f
      else f\<lparr>fs_inode := (fs_inode f)[fs_ninode f := ino], fs_ninode := fs_ninode f + 1, fs_fmod := 1\<rparr>)"

text \<open>
  The label \<open>loop\<close> up to the end of the cache.  An orphan that \<open>iput\<close> releases is in core with mode 0 after it, and back
  in the cache.
\<close>

function ialloc_pop :: "ienv \<Rightarrow> fs \<Rightarrow> ialloc_result \<times> fs" where
  "ialloc_pop e f =
     (if fs_ninode f > 0 then
        let n = fs_ninode f - 1; ino = fs_inode f ! n; f1 = f\<lparr>fs_ninode := n\<rparr> in
        if ino \<le> ROOTINO then ialloc_pop e f1
        else if iget_fails e ino then (Iget_Failed, if frees_0 e ino then ifree 0 f1 else f1)
        else if i_mode_of e ino = 0 then (Inode ino, f1\<lparr>fs_fmod := 1, fs_tinode := u32 (fs_tinode f1 + 4294967295)\<rparr>)
        else if orphan e ino then ialloc_pop (e\<lparr>in_core := (in_core e)(ino \<mapsto> 0)\<rparr>) (ifree ino f1)
        else ialloc_pop e f1
      else (Refill, f))"
  by pat_completeness auto
termination
proof (relation "measure (\<lambda>(e, f). 2 * fs_ninode f + (if i_mode_of e (fs_inode f ! (fs_ninode f - 1)) = 0 then 0 else 1))")
  fix e :: ienv and f f1 :: fs and n ino :: nat
  assume "0 < fs_ninode f" "n = fs_ninode f - 1" "ino = fs_inode f ! n" "f1 = f\<lparr>fs_ninode := n\<rparr>" "i_mode_of e ino \<noteq> 0"
  moreover have "i_mode_of (e\<lparr>in_core := (in_core e)(ino \<mapsto> 0)\<rparr>) ino = 0" by (simp add: i_mode_of_def)
  ultimately show "((e\<lparr>in_core := (in_core e)(ino \<mapsto> 0)\<rparr>, ifree ino f1), e, f)
      \<in> measure (\<lambda>(e, f). 2 * fs_ninode f + (if i_mode_of e (fs_inode f ! (fs_ninode f - 1)) = 0 then 0 else 1))"
    by (auto simp: ifree_def Let_def)
qed auto

declare ialloc_pop.simps [simp del]

text \<open>
  The search of one block, \<open>k\<close> inodes of it left; the inode at index \<open>i\<close> of block \<open>adr\<close> is number
  \<open>16 (adr - 1) + i + 1\<close>, while \<open>ino\<close> is the number the code gives it.
\<close>

fun scan_block :: "ienv \<Rightarrow> nat \<Rightarrow> nat \<Rightarrow> nat \<Rightarrow> fs \<Rightarrow> nat \<times> fs" where
  "scan_block e adr 0 ino f = (ino, f)"
| "scan_block e adr (Suc k) ino f =
     (if di_mode e (INOPB * (adr - 1) + (INOPB - Suc k) + 1) \<noteq> 0 then scan_block e adr k (ino + 1) f
      else if incore e ino then scan_block e adr k (ino + 1) f
      else
        let f1 = f\<lparr>fs_inode := (fs_inode f)[fs_ninode f := ino], fs_ninode := fs_ninode f + 1\<rparr> in
        if fs_ninode f1 \<ge> NICINOD then (ino, f1) else scan_block e adr k (ino + 1) f1)"

function scan :: "ienv \<Rightarrow> nat \<Rightarrow> nat \<Rightarrow> nat \<Rightarrow> nat \<Rightarrow> fs \<Rightarrow> nat \<times> fs" where
  "scan e isize adr ino inobas f =
     (if adr < isize then
        if blkerr e adr then scan e isize (adr + 1) (ino + INOPB) ino f
        else
          let (ino', f') = scan_block e adr INOPB ino f
          in if fs_ninode f' \<ge> NICINOD then (ino, f') else scan e isize (adr + 1) ino' ino f'
      else (inobas, f))"
  by pat_completeness auto
termination
  by (relation "measure (\<lambda>(_, isize, adr, _). isize - adr)") auto

declare scan.simps [simp del]

definition fromtop :: "ienv \<Rightarrow> fs \<Rightarrow> nat \<times> fs" where
  "fromtop e f = scan e (nat (fs_isize f)) 1 1 0 (f\<lparr>fs_nbehind := 0\<rparr>)"

definition ialloc_refill :: "ienv \<Rightarrow> fs \<Rightarrow> fs" where
  "ialloc_refill e f =
     (let f1 = f\<lparr>fs_ilock := fs_ilock f + 1\<rparr>;
          (inobas, f2) =
            (if fs_nbehind f1 < 4 * NICINOD then
               let (ib, g) = scan e (nat (fs_isize f1)) (itod (fs_lasti f1)) (fs_lasti f1) 0 f1
               in if fs_ninode g < NICINOD then fromtop e (g\<lparr>fs_ninode := 0\<rparr>) else (ib, g)
             else fromtop e f1)
      in f2\<lparr>fs_lasti := inobas, fs_ilock := 0\<rparr>)"

text \<open>The search succeeds or the list is at its end, so \<open>goto loop\<close> is taken at most once after a search.\<close>

fun ialloc_loop :: "nat \<Rightarrow> ienv \<Rightarrow> fs \<Rightarrow> (ialloc_result \<times> fs) res" where
  "ialloc_loop 0 e f = Inl Hang"
| "ialloc_loop (Suc fuel) e f =
     (case ialloc_pop e f of
        (Refill, f) \<Rightarrow>
          let f = ialloc_refill e f
          in if fs_ninode f > 0 then ialloc_loop fuel e f else Inr (No_Inodes, f)
      | (r, f) \<Rightarrow> Inr (r, f))"

definition ialloc :: "ienv \<Rightarrow> fs \<Rightarrow> (ialloc_result \<times> fs) res" where
  "ialloc e f = (if fs_ilock f \<noteq> 0 then Inr (Sleeping, f) else ialloc_loop 2 e f)"

section \<open>The cache\<close>

definition cached :: "fs \<Rightarrow> nat list" where
  "cached f = take (fs_ninode f) (fs_inode f)"

text \<open>An inode the search takes: free on the disk, in a block that can be read, and not in core.\<close>

definition found :: "ienv \<Rightarrow> nat \<Rightarrow> bool" where
  "found e ino \<longleftrightarrow> di_mode e ino = 0 \<and> in_core e ino = None \<and> \<not> blkerr e (itod ino)"

definition named :: "fs \<Rightarrow> nat list" where
  "named f = filter (\<lambda>i. i \<noteq> 0) (cached f)"

abbreviation last_ino :: "fs \<Rightarrow> nat" where
  "last_ino f \<equiv> INOPB * (nat (fs_isize f) - 1)"

lemma itod_block: "1 \<le> adr \<Longrightarrow> i < INOPB \<Longrightarrow> itod (INOPB * (adr - 1) + i + 1) = adr"
  by (simp add: itod_def)

lemma length_cached: "fs_ninode f \<le> length (fs_inode f) \<Longrightarrow> length (cached f) = fs_ninode f"
  by (simp add: cached_def)

lemma cached_push:
  assumes "fs_ninode f < NICINOD" and "length (fs_inode f) = NICINOD"
  shows "cached (f\<lparr>fs_inode := (fs_inode f)[fs_ninode f := ino], fs_ninode := fs_ninode f + 1\<rparr>) = cached f @ [ino]"
  using assms by (simp add: cached_def take_Suc_conv_app_nth)

definition filled :: "fs \<Rightarrow> fs \<Rightarrow> nat list \<Rightarrow> bool" where
  "filled f f' xs \<longleftrightarrow> cached f' = take NICINOD (cached f @ xs) \<and> fs_ninode f' = min NICINOD (fs_ninode f + length xs)
     \<and> length (fs_inode f') = NICINOD \<and> fs_isize f' = fs_isize f \<and> fs_nbehind f' = fs_nbehind f"

lemma scan_block_filled:
  assumes "k \<le> INOPB" and "1 \<le> adr" and "ino = INOPB * (adr - 1) + (INOPB - k) + 1" and "\<not> blkerr e adr"
    and "fs_ninode f < NICINOD" and "length (fs_inode f) = NICINOD" and "scan_block e adr k ino f = (ino', f')"
  shows "filled f f' (filter (found e) [ino..<ino + k]) \<and> (fs_ninode f' < NICINOD \<longrightarrow> ino' = ino + k)"
  using assms
proof (induction k arbitrary: ino f)
  case 0
  then show ?case by (simp add: filled_def cached_def)
next
  case (Suc k)
  have ib: "itod ino = adr" using itod_block[of adr "INOPB - Suc k"] Suc.prems(1-3) by simp
  have nx: "ino + 1 = INOPB * (adr - 1) + (INOPB - k) + 1" "k \<le> INOPB" using Suc.prems(1,3) by simp_all
  have ix: "INOPB * (adr - 1) + (INOPB - Suc k) + 1 = ino" using Suc.prems(3) by simp
  have up: "[ino..<ino + Suc k] = ino # [ino + 1..<(ino + 1) + k]" by (simp add: upt_rec[of ino])
  show ?case
  proof (cases "found e ino")
    case False
    then have "scan_block e adr k (ino + 1) f = (ino', f')" using Suc.prems(4,7) ib unfolding scan_block.simps ix found_def incore_def by (auto split: if_splits)
    from Suc.IH[OF nx(2) Suc.prems(2) nx(1) Suc.prems(4-6) this] show ?thesis using False unfolding up by simp
  next
    case True
    define f1 where "f1 = f\<lparr>fs_inode := (fs_inode f)[fs_ninode f := ino], fs_ninode := fs_ninode f + 1\<rparr>"
    have c: "cached f1 = cached f @ [ino]" "fs_ninode f1 = fs_ninode f + 1" "length (fs_inode f1) = NICINOD" "fs_isize f1 = fs_isize f"
      "fs_nbehind f1 = fs_nbehind f" "length (cached f) = fs_ninode f"
      using cached_push[OF Suc.prems(5,6)] Suc.prems(5,6) by (simp_all add: f1_def length_cached)
    have run: "(ino', f') = (if fs_ninode f1 \<ge> NICINOD then (ino, f1) else scan_block e adr k (ino + 1) f1)"
      using Suc.prems(7) True unfolding scan_block.simps ix f1_def[symmetric] Let_def found_def incore_def by simp
    show ?thesis
    proof (cases "fs_ninode f1 \<ge> NICINOD")
      case True
      then have n: "fs_ninode f = 31" "f' = f1" using run c(2) Suc.prems(5) by auto
      then show ?thesis using \<open>found e ino\<close> c unfolding up by (simp add: filled_def)
    next
      case False
      then have "scan_block e adr k (ino + 1) f1 = (ino', f')" using run by simp
      from Suc.IH[OF nx(2) Suc.prems(2) nx(1) Suc.prems(4) _ c(3) this] False
      show ?thesis using \<open>found e ino\<close> c unfolding up by (auto simp: filled_def)
    qed
  qed
qed

lemma filled_trans:
  assumes "filled f g xs" and "filled g h ys" and "fs_ninode g < NICINOD" and "fs_ninode f \<le> length (fs_inode f)"
  shows "filled f h (xs @ ys)"
proof -
  have "fs_ninode g = fs_ninode f + length xs" using assms(1,3) by (simp add: filled_def)
  moreover have "length (cached f) = fs_ninode f" using assms(4) by (rule length_cached)
  ultimately show ?thesis using assms(1-3) by (simp add: filled_def)
qed

lemma scan_filled:
  "1 \<le> adr \<Longrightarrow> ino = INOPB * (adr - 1) + 1 \<Longrightarrow> fs_ninode f < NICINOD \<Longrightarrow> length (fs_inode f) = NICINOD
     \<Longrightarrow> scan e isize adr ino ib f = (ib', f')
     \<Longrightarrow> filled f f' (filter (found e) [ino..<INOPB * (isize - 1) + 1])
       \<and> (ib' = ib \<and> isize \<le> adr \<or> (\<exists>a. adr \<le> a \<and> a < isize \<and> ib' = INOPB * (a - 1) + 1))"
proof (induction e isize adr ino ib f rule: scan.induct)
  case (1 e isize adr ino ib f)
  let ?F = "filter (found e)"
  show ?case
  proof (cases "adr < isize")
    case False
    then have "INOPB * (isize - 1) + 1 \<le> ino" using 1(4) by simp
    then show ?thesis using False 1(5-7) by (auto simp: scan.simps[of e isize adr] filled_def cached_def)
  next
    case True
    then have le: "ino + INOPB \<le> INOPB * (isize - 1) + 1" and nx: "ino + INOPB = INOPB * ((adr + 1) - 1) + 1" using 1(3,4) by (cases adr; simp)+
    have up: "[ino..<INOPB * (isize - 1) + 1] = [ino..<ino + INOPB] @ [ino + INOPB..<INOPB * (isize - 1) + 1]"
      using le by (metis le_add1 le_Suc_ex upt_add_eq_append)
    show ?thesis
    proof (cases "blkerr e adr")
      case True
      then have "scan e isize (adr + 1) (ino + INOPB) ino f = (ib', f')" using \<open>adr < isize\<close> 1(7) by (simp add: scan.simps[of e isize adr])
      note ih = 1(1)[OF \<open>adr < isize\<close> True _ nx 1(5,6) this]
      have "\<not> found e x" if "x \<in> set [ino..<ino + INOPB]" for x
      proof -
        have "x = INOPB * (adr - 1) + (x - ino) + 1" "x - ino < INOPB" using that 1(4) by auto
        then have "itod x = adr" using itod_block[OF 1(3), of "x - ino"] by simp
        then show ?thesis using True by (simp add: found_def)
      qed
      then have "?F [ino..<ino + INOPB] = []" by (simp add: filter_empty_conv)
      then show ?thesis using ih \<open>adr < isize\<close> 1(4) unfolding up by fastforce
    next
      case False
      obtain ino1 f1 where b: "scan_block e adr INOPB ino f = (ino1, f1)" by fastforce
      have s: "filled f f1 (?F [ino..<ino + INOPB])" "fs_ninode f1 < NICINOD \<Longrightarrow> ino1 = ino + INOPB"
        using scan_block_filled[OF _ 1(3) _ False 1(5,6) b] 1(4) by simp_all
      show ?thesis
      proof (cases "fs_ninode f1 \<ge> NICINOD")
        case full: True
        then have r: "ib' = ino" "f' = f1" using \<open>adr < isize\<close> False b 1(7) by (simp_all add: scan.simps[of e isize adr])
        have "NICINOD \<le> fs_ninode f + length (?F [ino..<ino + INOPB])" using s(1) full by (simp add: filled_def)
        then have "filled f f1 (?F [ino..<ino + INOPB] @ ys)" for ys using s(1) 1(6) by (auto simp: filled_def cached_def)
        then show ?thesis using r 1(4) \<open>adr < isize\<close> unfolding up by auto
      next
        case more: False
        then have run: "scan e isize (adr + 1) ino1 ino f1 = (ib', f')"
          using \<open>adr < isize\<close> False b 1(7) by (simp add: scan.simps[of e isize adr])
        have ie: "ino1 = ino + INOPB" using s(2) more by simp
        have lt: "fs_ninode f1 < NICINOD" and ln: "length (fs_inode f1) = NICINOD" using s(1) more by (simp_all add: filled_def)
        have "1 \<le> adr + 1" by simp
        from 1(2)[OF \<open>adr < isize\<close> False b[symmetric] refl more this nx[folded ie] lt ln run]
        have "filled f1 f' (?F [ino + INOPB..<INOPB * (isize - 1) + 1])
            \<and> (ib' = ino \<and> isize \<le> adr + 1 \<or> (\<exists>a. adr + 1 \<le> a \<and> a < isize \<and> ib' = INOPB * (a - 1) + 1))"
          unfolding ie .
        note rest = this
        have f: "filled f f' (?F [ino..<ino + INOPB] @ ?F [ino + INOPB..<INOPB * (isize - 1) + 1])"
          by (rule filled_trans[OF s(1)]) (use rest more 1(5,6) in auto)
        have "\<exists>a. adr \<le> a \<and> a < isize \<and> ib' = INOPB * (a - 1) + 1"
          using rest 1(4) \<open>adr < isize\<close> by (metis add_leD1 order_refl)
        then show ?thesis using f unfolding up filter_append by blast
      qed
    qed
  qed
qed

section \<open>Allocation\<close>

definition icache_ok :: "fs \<Rightarrow> bool" where
  "icache_ok f \<longleftrightarrow> fs_ninode f \<le> NICINOD \<and> length (fs_inode f) = NICINOD \<and> distinct (named f) \<and> fs_ilock f = 0
     \<and> 1 < fs_isize f \<and> fs_lasti f mod INOPB = 1 \<and> fs_lasti f \<le> last_ino f
     \<and> (\<forall>ino\<in>set (cached f). ino \<le> last_ino f)"

definition free_inodes :: "ienv \<Rightarrow> nat \<Rightarrow> nat \<Rightarrow> nat list" where
  "free_inodes e a b = filter (found e) [a..<b + 1]"

lemma set_free_inodes: "set (free_inodes e a b) = {x. a \<le> x \<and> x \<le> b \<and> found e x}"
  by (auto simp: free_inodes_def)

lemma distinct_free_inodes [simp]: "distinct (free_inodes e a b)"
  by (simp add: free_inodes_def)

text \<open>A search from a block boundary, on an empty cache.\<close>

lemma scan_from:
  assumes "s mod INOPB = 1" and "s \<le> last_ino f" and "fs_ninode f = 0" and "length (fs_inode f) = NICINOD"
    and "scan e (nat (fs_isize f)) (itod s) s ib f = (ib', f')"
  shows "cached f' = take NICINOD (free_inodes e s (last_ino f)) \<and> fs_ninode f' = length (cached f')
    \<and> length (fs_inode f') = NICINOD \<and> fs_isize f' = fs_isize f \<and> ib' mod INOPB = 1 \<and> ib' \<le> last_ino f"
proof -
  define q where "q = s div INOPB"
  have s: "s = INOPB * q + 1" using assms(1) div_mult_mod_eq[of s INOPB] by (simp add: q_def)
  have ad: "itod s = q + 1" using itod_block[of "q + 1" 0] s by simp
  have lt: "q + 1 < nat (fs_isize f)" using assms(2) s by auto
  have ino: "s = INOPB * ((q + 1) - 1) + 1" using s by simp
  have "fs_ninode f < NICINOD" using assms(3) by simp
  note sf = scan_filled[OF _ ino this assms(4) assms(5)[unfolded ad]]
  then obtain a where a: "a < nat (fs_isize f)" "q + 1 \<le> a" "ib' = INOPB * (a - 1) + 1" using lt by auto
  have "a - 1 < nat (fs_isize f) - 1" using a by arith
  then have "INOPB * (a - 1) + 1 \<le> last_ino f" by arith
  moreover have "(INOPB * (a - 1) + 1) mod INOPB = 1" by (simp add: mod_mult_self4 flip: add.commute)
  moreover have "cached f = []" using assms(3) by (simp add: cached_def)
  ultimately show ?thesis using sf a(3) assms(3) by (simp add: filled_def free_inodes_def min.commute del: upt_Suc)
qed

lemma refill_spec:
  assumes "icache_ok f" and "fs_ninode f = 0"
  shows "\<exists>s. 1 \<le> s \<and> cached (ialloc_refill e f) = take NICINOD (free_inodes e s (last_ino f))
    \<and> (length (cached (ialloc_refill e f)) < NICINOD \<longrightarrow> s = 1)
    \<and> icache_ok (ialloc_refill e f) \<and> fs_isize (ialloc_refill e f) = fs_isize f"
proof -
  have k: "length (fs_inode f) = NICINOD" "fs_lasti f mod INOPB = 1" "fs_lasti f \<le> last_ino f" "1 < fs_isize f"
    using assms(1) by (simp_all add: icache_ok_def)
  have l1: "1 \<le> last_ino f" using k(4) by auto
  have lp: "1 \<le> fs_lasti f" using k(2) by (cases "fs_lasti f") simp_all
  have top: "\<exists>ib g. fromtop e h = (ib, g) \<and> cached g = take NICINOD (free_inodes e 1 (last_ino f)) \<and> fs_ninode g = length (cached g)
      \<and> length (fs_inode g) = NICINOD \<and> fs_isize g = fs_isize f \<and> ib mod INOPB = 1 \<and> ib \<le> last_ino f"
    if "fs_ninode h = 0" "length (fs_inode h) = NICINOD" "fs_isize h = fs_isize f" for h
  proof -
    obtain ib g where r: "fromtop e h = (ib, g)" by fastforce
    have "itod 1 = 1" by (simp add: itod_def)
    then show ?thesis
      using scan_from[of 1 "h\<lparr>fs_nbehind := 0\<rparr>" e 0 ib g] that l1 r by (simp add: fromtop_def)
  qed
  have fin: "?thesis"
    if r: "ialloc_refill e f = g\<lparr>fs_lasti := ib, fs_ilock := 0\<rparr>" and "1 \<le> s" and g: "cached g = take NICINOD (free_inodes e s (last_ino f))"
      "fs_ninode g = length (cached g)" "length (fs_inode g) = NICINOD" "fs_isize g = fs_isize f" "ib mod INOPB = 1" "ib \<le> last_ino f"
      and "length (cached g) < NICINOD \<longrightarrow> s = 1" for g ib s
  proof -
    have c: "cached (ialloc_refill e f) = cached g" by (simp add: r cached_def)
    have "set (cached g) \<subseteq> set (free_inodes e s (last_ino f))" using g(1) by (simp add: set_take_subset)
    then have "\<forall>x\<in>set (cached g). x \<le> last_ino f" using \<open>1 \<le> s\<close> by (auto simp: set_free_inodes)
    moreover have "distinct (named (ialloc_refill e f))" unfolding named_def c by (simp add: g(1))
    moreover have "length (cached g) \<le> NICINOD" by (simp add: g(1))
    ultimately have "icache_ok (ialloc_refill e f)"
      unfolding icache_ok_def c using g(2-6) k(4) by (simp add: r)
    moreover have "fs_isize (ialloc_refill e f) = fs_isize f" using g(4) by (simp add: r)
    ultimately show ?thesis using \<open>1 \<le> s\<close> g(1) \<open>length (cached g) < NICINOD \<longrightarrow> s = 1\<close> unfolding c by blast
  qed
  define f1 where "f1 = f\<lparr>fs_ilock := fs_ilock f + 1\<rparr>"
  have f1: "fs_ninode f1 = 0" "length (fs_inode f1) = NICINOD" "fs_isize f1 = fs_isize f" "fs_lasti f1 = fs_lasti f"
    using assms(2) k(1) by (simp_all add: f1_def)
  show ?thesis
  proof (cases "fs_nbehind f1 < 4 * NICINOD")
    case False
    obtain ib g where t: "fromtop e f1 = (ib, g)" "cached g = take NICINOD (free_inodes e 1 (last_ino f))" "fs_ninode g = length (cached g)"
      "length (fs_inode g) = NICINOD" "fs_isize g = fs_isize f" "ib mod INOPB = 1" "ib \<le> last_ino f"
      using top[OF f1(1-3)] by blast
    have "ialloc_refill e f = g\<lparr>fs_lasti := ib, fs_ilock := 0\<rparr>"
      using False t(1) unfolding ialloc_refill_def f1_def[symmetric] Let_def by simp
    then show ?thesis by (rule fin[where s = 1]) (use t in simp_all)
  next
    case True
    obtain ib g where r: "scan e (nat (fs_isize f1)) (itod (fs_lasti f1)) (fs_lasti f1) 0 f1 = (ib, g)" by fastforce
    have g: "cached g = take NICINOD (free_inodes e (fs_lasti f) (last_ino f))" "fs_ninode g = length (cached g)"
      "length (fs_inode g) = NICINOD" "fs_isize g = fs_isize f" "ib mod INOPB = 1" "ib \<le> last_ino f"
      using scan_from[OF _ _ f1(1,2) r] f1 k(2,3) by simp_all
    show ?thesis
    proof (cases "fs_ninode g < NICINOD")
      case False
      then have "ialloc_refill e f = g\<lparr>fs_lasti := ib, fs_ilock := 0\<rparr>"
        using True r unfolding ialloc_refill_def f1_def[symmetric] Let_def by simp
      then show ?thesis
        by (rule fin[where s = "fs_lasti f"]) (use g False lp in simp_all)
    next
      case less: True
      obtain ib' g' where t: "fromtop e (g\<lparr>fs_ninode := 0\<rparr>) = (ib', g')" "cached g' = take NICINOD (free_inodes e 1 (last_ino f))"
        "fs_ninode g' = length (cached g')" "length (fs_inode g') = NICINOD" "fs_isize g' = fs_isize f" "ib' mod INOPB = 1" "ib' \<le> last_ino f"
        using top[of "g\<lparr>fs_ninode := 0\<rparr>"] g(3,4) by auto
      have "ialloc_refill e f = g'\<lparr>fs_lasti := ib', fs_ilock := 0\<rparr>"
        using True less r t(1) unfolding ialloc_refill_def f1_def[symmetric] Let_def by simp
      then show ?thesis by (rule fin[where s = 1]) (use t in simp_all)
    qed
  qed
qed

text \<open>Taking from the cache: what is skipped was in use, or is one of the reserved numbers.\<close>

lemma cached_pop:
  assumes "0 < fs_ninode f" and "fs_ninode f \<le> length (fs_inode f)"
  shows "cached f = cached (f\<lparr>fs_ninode := fs_ninode f - 1\<rparr>) @ [fs_inode f ! (fs_ninode f - 1)]"
  using assms by (cases "fs_ninode f") (simp_all add: cached_def take_Suc_conv_app_nth)

lemma icache_ok_fields [simp]:
  "icache_ok (f\<lparr>fs_fmod := a\<rparr>) = icache_ok f" "icache_ok (f\<lparr>fs_tinode := b\<rparr>) = icache_ok f"
  "cached (f\<lparr>fs_fmod := a\<rparr>) = cached f" "cached (f\<lparr>fs_tinode := b\<rparr>) = cached f"
  "named (f\<lparr>fs_fmod := a\<rparr>) = named f" "named (f\<lparr>fs_tinode := b\<rparr>) = named f"
  by (simp_all add: icache_ok_def named_def cached_def)

lemma icache_ok_pop:
  assumes "icache_ok f" and "0 < fs_ninode f"
  shows "icache_ok (f\<lparr>fs_ninode := fs_ninode f - 1\<rparr>)"
proof -
  have "cached f = cached (f\<lparr>fs_ninode := fs_ninode f - 1\<rparr>) @ [fs_inode f ! (fs_ninode f - 1)]"
    using assms by (intro cached_pop) (simp_all add: icache_ok_def)
  then show ?thesis using assms unfolding icache_ok_def by (auto simp: named_def)
qed

lemma ifree_ok:
  assumes "icache_ok f" and "ino = 0 \<or> ino \<notin> set (cached f)" and "ino \<le> last_ino f"
  shows "icache_ok (ifree ino f) \<and> set (cached (ifree ino f)) \<subseteq> insert ino (set (cached f)) \<and> fs_isize (ifree ino f) = fs_isize f"
proof (cases "fs_ninode f < NICINOD")
  case False
  then show ?thesis using assms(1) by (auto simp: ifree_def Let_def icache_ok_def named_def cached_def)
next
  case True
  define g where "g = f\<lparr>fs_inode := (fs_inode f)[fs_ninode f := ino], fs_ninode := fs_ninode f + 1\<rparr>"
  have c: "cached g = cached f @ [ino]" unfolding g_def using True assms(1) by (intro cached_push) (simp_all add: icache_ok_def)
  have "ifree ino f = g\<lparr>fs_tinode := u32 (fs_tinode f + 1), fs_fmod := 1\<rparr>"
    using True assms(1) by (simp add: ifree_def Let_def icache_ok_def g_def)
  moreover have "icache_ok g" using assms True c unfolding icache_ok_def named_def by (auto simp: g_def)
  ultimately show ?thesis using c by (simp add: g_def)
qed

text \<open>An orphan in the cache is what \<open>ialloc\<close> gives in the end: it is released, put back and taken again.\<close>

lemma ialloc_pop_orphan:
  assumes "icache_ok f" and "0 < fs_ninode f" and ino: "ino = fs_inode f ! (fs_ninode f - 1)" "ROOTINO < ino" "\<not> iget_fails e ino"
    "i_mode_of e ino \<noteq> 0" "orphan e ino"
  shows "ialloc_pop e f = (Inode ino, f\<lparr>fs_ninode := fs_ninode f - 1, fs_fmod := 1, fs_tinode := u32 (u32 (fs_tinode f + 1) + 4294967295)\<rparr>)"
proof -
  let ?e = "e\<lparr>in_core := (in_core e)(ino \<mapsto> 0)\<rparr>"
  have k: "fs_ilock f = 0" "fs_ninode f \<le> NICINOD" "length (fs_inode f) = NICINOD" using assms(1) by (simp_all add: icache_ok_def)
  have again: "ifree ino (f\<lparr>fs_ninode := fs_ninode f - 1\<rparr>) = f\<lparr>fs_tinode := u32 (fs_tinode f + 1), fs_fmod := 1\<rparr>"
    using k assms(2) ino(1) by (simp add: ifree_def Let_def)
  have first: "ialloc_pop e f = ialloc_pop ?e (f\<lparr>fs_tinode := u32 (fs_tinode f + 1), fs_fmod := 1\<rparr>)"
    using assms(2) ino again by (subst ialloc_pop.simps) (simp add: Let_def)
  have "i_mode_of ?e ino = 0" by (simp add: i_mode_of_def)
  then show ?thesis unfolding first using assms(2) ino by (subst ialloc_pop.simps) (simp add: Let_def)
qed

definition pop_ok :: "ienv \<Rightarrow> fs \<Rightarrow> ialloc_result \<Rightarrow> fs \<Rightarrow> bool" where
  "pop_ok e f r f' \<longleftrightarrow> icache_ok f' \<and> fs_isize f' = fs_isize f \<and> set (cached f') \<subseteq> insert 0 (set (cached f))
     \<and> (case r of Refill \<Rightarrow> fs_ninode f' = 0 \<and> (\<forall>ino\<in>set (cached f). ROOTINO < ino \<longrightarrow> i_mode_of e ino \<noteq> 0)
        | Inode ino \<Rightarrow> ino \<in> set (cached f) \<and> ROOTINO < ino \<and> (i_mode_of e ino = 0 \<or> orphan e ino) \<and> ino \<notin> set (cached f')
        | Iget_Failed \<Rightarrow> \<exists>ino\<in>set (cached f). ROOTINO < ino \<and> iget_fails e ino
        | _ \<Rightarrow> False)"

lemma ialloc_pop_ok: "icache_ok f \<Longrightarrow> ialloc_pop e f = (r, f') \<Longrightarrow> pop_ok e f r f'"
proof (induction "fs_ninode f" arbitrary: f)
  case 0
  then show ?case by (auto simp: ialloc_pop.simps[of e f] pop_ok_def cached_def)
next
  case (Suc n)
  define ino where "ino = fs_inode f ! (fs_ninode f - 1)"
  define f1 where "f1 = f\<lparr>fs_ninode := fs_ninode f - 1\<rparr>"
  have pos: "0 < fs_ninode f" and n1: "n = fs_ninode f1" using Suc.hyps(2) by (simp_all add: f1_def)
  have c: "cached f = cached f1 @ [ino]"
    unfolding f1_def ino_def using pos Suc.prems(1) by (intro cached_pop) (simp_all add: icache_ok_def)
  have ok: "icache_ok f1" unfolding f1_def using Suc.prems(1) pos by (rule icache_ok_pop)
  have i1: "fs_isize f1 = fs_isize f" by (simp add: f1_def)
  have nin: "ino \<notin> set (cached f1)" if "ino \<noteq> 0" using Suc.prems(1) c that by (auto simp: icache_ok_def named_def)
  have run: "ialloc_pop e f = (if ino \<le> ROOTINO then ialloc_pop e f1
      else if iget_fails e ino then (Iget_Failed, if frees_0 e ino then ifree 0 f1 else f1)
      else if i_mode_of e ino = 0 then (Inode ino, f1\<lparr>fs_fmod := 1, fs_tinode := u32 (fs_tinode f1 + 4294967295)\<rparr>)
      else if orphan e ino then (Inode ino, f1\<lparr>fs_fmod := 1, fs_tinode := u32 (u32 (fs_tinode f1 + 1) + 4294967295)\<rparr>)
      else ialloc_pop e f1)"
  proof (cases "ROOTINO < ino \<and> \<not> iget_fails e ino \<and> i_mode_of e ino \<noteq> 0 \<and> orphan e ino")
    case True
    then show ?thesis using ialloc_pop_orphan[OF Suc.prems(1) pos ino_def] by (simp add: f1_def)
  next
    case False
    then show ?thesis using pos by (subst ialloc_pop.simps) (auto simp: Let_def ino_def f1_def)
  qed
  have skip: "pop_ok e f r f'" if "ialloc_pop e f1 = (r, f')" and "ROOTINO < ino \<longrightarrow> i_mode_of e ino \<noteq> 0"
    using Suc.hyps(1)[OF n1 ok that(1)] that(2) c i1 unfolding pop_ok_def by (cases r) auto
  have zero: "icache_ok (ifree 0 f1) \<and> set (cached (ifree 0 f1)) \<subseteq> insert 0 (set (cached f1)) \<and> fs_isize (ifree 0 f1) = fs_isize f"
    using ifree_ok[OF ok, of 0] i1 by simp
  consider "ino \<le> ROOTINO" | "ROOTINO < ino" "iget_fails e ino" | "ROOTINO < ino" "\<not> iget_fails e ino" "i_mode_of e ino = 0 \<or> orphan e ino"
    | "ROOTINO < ino" "\<not> iget_fails e ino" "i_mode_of e ino \<noteq> 0" "\<not> orphan e ino" by fastforce
  then show ?case
  proof cases
    case 2
    then show ?thesis using run Suc.prems(2) c ok i1 zero by (auto simp: pop_ok_def)
  next
    case 3
    then show ?thesis using run Suc.prems(2) c ok i1 nin by (auto simp: pop_ok_def split: if_splits)
  qed (use skip run Suc.prems(2) in simp_all)
qed

lemma found_free: "found e ino \<Longrightarrow> i_mode_of e ino = 0"
  by (simp add: found_def i_mode_of_def)

lemma reserved_not_found: "di_mode e 1 \<noteq> 0 \<Longrightarrow> di_mode e ROOTINO \<noteq> 0 \<Longrightarrow> found e ino \<Longrightarrow> 1 \<le> ino \<Longrightarrow> ROOTINO < ino"
  by (cases "ino = 1 \<or> ino = 2") (auto simp: found_def)

text \<open>What a caller of \<open>ialloc\<close> may rely on, and the only ways in which it fails.\<close>

definition alloc_ok :: "ienv \<Rightarrow> fs \<Rightarrow> ialloc_result \<Rightarrow> fs \<Rightarrow> bool" where
  "alloc_ok e f r f' \<longleftrightarrow> icache_ok f' \<and> fs_isize f' = fs_isize f
     \<and> (\<forall>ino\<in>set (cached f'). ino \<noteq> 0 \<longrightarrow> ino \<in> set (cached f) \<or> i_mode_of e ino = 0)
     \<and> (case r of Inode ino \<Rightarrow> ROOTINO < ino \<and> ino \<le> last_ino f \<and> (i_mode_of e ino = 0 \<or> orphan e ino \<and> ino \<in> set (cached f)) \<and> ino \<notin> set (cached f')
        | No_Inodes \<Rightarrow> \<forall>ino\<in>{1..last_ino f}. \<not> found e ino
        | Iget_Failed \<Rightarrow> \<exists>ino\<in>{1..last_ino f}. iget_fails e ino
        | _ \<Rightarrow> False)"

lemma pop_alloc_ok:
  assumes "pop_ok e f r f'" and "r \<noteq> Refill" and "icache_ok f" and "fs_isize f = fs_isize f0"
    and "\<forall>ino\<in>set (cached f). ino \<noteq> 0 \<longrightarrow> ino \<in> set (cached f0) \<or> i_mode_of e ino = 0"
  shows "alloc_ok e f0 r f'"
proof -
  have rng: "ino \<le> last_ino f0" if "ino \<in> set (cached f)" for ino
    using assms(3,4) that by (simp add: icache_ok_def)
  show ?thesis
  proof (cases r)
    case (Inode ino)
    then show ?thesis using assms rng[of ino] by (fastforce simp: pop_ok_def alloc_ok_def)
  next
    case Iget_Failed
    then show ?thesis using assms rng by (force simp: pop_ok_def alloc_ok_def)
  qed (use assms in \<open>simp_all add: pop_ok_def\<close>)
qed

lemma alloc_ends:
  assumes "icache_ok f" and "di_mode e 1 \<noteq> 0" and "di_mode e ROOTINO \<noteq> 0"
  shows "\<exists>r f'. ialloc e f = Inr (r, f') \<and> alloc_ok e f r f'"
proof -
  have il: "fs_ilock f = 0" using assms(1) by (simp add: icache_ok_def)
  obtain r1 f1 where p1: "ialloc_pop e f = (r1, f1)" by fastforce
  have ok1: "pop_ok e f r1 f1" by (rule ialloc_pop_ok[OF assms(1) p1])
  show ?thesis
  proof (cases "r1 = Refill")
    case False
    then have "ialloc e f = Inr (r1, f1)" using il p1 by (cases r1) (simp_all add: ialloc_def numeral_2_eq_2)
    moreover have "alloc_ok e f r1 f1" by (rule pop_alloc_ok[OF ok1 False assms(1)]) auto
    ultimately show ?thesis by blast
  next
    case True
    define f2 where "f2 = ialloc_refill e f1"
    have k1: "icache_ok f1" "fs_ninode f1 = 0" "fs_isize f1 = fs_isize f" using ok1 True by (simp_all add: pop_ok_def)
    obtain s where s: "1 \<le> s" "cached f2 = take NICINOD (free_inodes e s (last_ino f))" "length (cached f2) < NICINOD \<longrightarrow> s = 1"
      "icache_ok f2" "fs_isize f2 = fs_isize f"
      using refill_spec[OF k1(1,2), of e] unfolding f2_def[symmetric] k1(3) by blast
    have free2: "found e ino" "1 \<le> ino" if "ino \<in> set (cached f2)" for ino
      using that s(1,2) set_take_subset[of NICINOD "free_inodes e s (last_ino f)"] by (auto simp: set_free_inodes)
    have len2: "fs_ninode f2 = length (cached f2)" using s(4) by (simp add: icache_ok_def length_cached)
    show ?thesis
    proof (cases "fs_ninode f2 > 0")
      case False
      then have "cached f2 = []" using len2 by simp
      then have s1: "s = 1" using s(3) by simp
      have "free_inodes e 1 (last_ino f) = []" using s(2) unfolding \<open>cached f2 = []\<close> s1 by simp
      then have "\<forall>ino\<in>{1..last_ino f}. \<not> found e ino" using set_free_inodes[of e 1 "last_ino f"] by (metis (mono_tags, lifting) atLeastAtMost_iff empty_iff empty_set mem_Collect_eq)
      then have "alloc_ok e f No_Inodes f2" using s(4,5) \<open>cached f2 = []\<close> by (simp add: alloc_ok_def)
      moreover have "ialloc e f = Inr (No_Inodes, f2)"
        using il p1 True False by (simp add: ialloc_def numeral_2_eq_2 f2_def Let_def)
      ultimately show ?thesis by blast
    next
      case more: True
      obtain r3 f3 where p3: "ialloc_pop e f2 = (r3, f3)" by fastforce
      have ok3: "pop_ok e f2 r3 f3" by (rule ialloc_pop_ok[OF s(4) p3])
      have "last (cached f2) \<in> set (cached f2)" using more len2 by (intro last_in_set) simp
      note l = free2[OF this] this
      have "r3 \<noteq> Refill"
      proof
        assume "r3 = Refill"
        then have "\<forall>ino\<in>set (cached f2). ROOTINO < ino \<longrightarrow> i_mode_of e ino \<noteq> 0" using ok3 by (simp add: pop_ok_def)
        then show False using l(3) reserved_not_found[OF assms(2,3) l(1,2)] found_free[OF l(1)] by blast
      qed
      moreover from this have "ialloc e f = Inr (r3, f3)"
        using il p1 True more p3 by (cases r3) (simp_all add: ialloc_def numeral_2_eq_2 f2_def Let_def)
      moreover have "alloc_ok e f r3 f3"
        by (rule pop_alloc_ok[OF ok3 \<open>r3 \<noteq> Refill\<close> s(4,5)]) (intro ballI impI disjI2 found_free free2(1))
      ultimately show ?thesis by blast
    qed
  qed
qed

section \<open>Allocation and release in any order\<close>

text \<open>
  The steps that change what \<open>ialloc\<close> looks at: the caller of \<open>ialloc\<close> gives the inode a mode; inodes are read into
  core, changed there, written out and dropped; \<open>irele\<close> of an unlinked inode clears its mode and calls \<open>ifree\<close>; \<open>iget\<close>
  cannot read an inode for some other caller and frees inode 0; and a device may fail or recover, and links and references come and
  go, at any time.
\<close>

inductive ialloc_step :: "ienv \<times> fs \<Rightarrow> ienv \<times> fs \<Rightarrow> bool" where
  Alloc: "ialloc e f = Inr (Inode ino, f') \<Longrightarrow> m \<noteq> 0 \<Longrightarrow> ialloc_step (e, f) (e\<lparr>in_core := (in_core e)(ino \<mapsto> m)\<rparr>, f')"
| Alloc_Fails: "ialloc e f = Inr (r, f') \<Longrightarrow> (\<nexists>ino. r = Inode ino) \<Longrightarrow> ialloc_step (e, f) (e, f')"
| Read_In: "in_core e ino = None \<Longrightarrow> ialloc_step (e, f) (e\<lparr>in_core := (in_core e)(ino \<mapsto> di_mode e ino)\<rparr>, f)"
| Read_Fails: "ialloc_step (e, f) (e, ifree 0 f)"
| Change: "in_core e ino = Some m \<Longrightarrow> m \<noteq> 0 \<Longrightarrow> m' \<noteq> 0 \<Longrightarrow> ialloc_step (e, f) (e\<lparr>in_core := (in_core e)(ino \<mapsto> m')\<rparr>, f)"
| Write_Out: "in_core e ino = Some m \<Longrightarrow> ialloc_step (e, f) (e\<lparr>di_mode := (di_mode e)(ino := m)\<rparr>, f)"
| Drop: "in_core e ino = Some (di_mode e ino) \<Longrightarrow> ialloc_step (e, f) (e\<lparr>in_core := (in_core e)(ino := None)\<rparr>, f)"
| Release: "in_core e ino = Some m \<Longrightarrow> m \<noteq> 0 \<Longrightarrow> ROOTINO < ino \<Longrightarrow> ino \<le> last_ino f
     \<Longrightarrow> ialloc_step (e, f) (e\<lparr>in_core := (in_core e)(ino \<mapsto> 0)\<rparr>, ifree ino f)"
| Outside: "ialloc_step (e, f) (e\<lparr>blkerr := b, iget_fails := g, frees_0 := z, orphan := u\<rparr>, f)"

definition reserved :: "ienv \<Rightarrow> bool" where
  "reserved e \<longleftrightarrow> (\<forall>ino\<in>{1, ROOTINO}. di_mode e ino \<noteq> 0 \<and> i_mode_of e ino \<noteq> 0)"

definition inodes_ok :: "ienv \<Rightarrow> fs \<Rightarrow> bool" where
  "inodes_ok e f \<longleftrightarrow> icache_ok f \<and> reserved e \<and> (\<forall>ino\<in>set (named f). i_mode_of e ino = 0)"

lemma i_mode_of_core [simp]: "i_mode_of (e\<lparr>in_core := (in_core e)(ino \<mapsto> m)\<rparr>) x = (if x = ino then m else i_mode_of e x)"
  by (simp add: i_mode_of_def split: option.splits)

lemma set_named: "set (named f) = set (cached f) - {0}"
  by (auto simp: named_def)

lemma alloc_keeps_free:
  assumes "ialloc e f = Inr (r, f')" and "inodes_ok e f"
  shows "alloc_ok e f r f'" and "icache_ok f'" and "\<forall>ino\<in>set (named f'). i_mode_of e ino = 0"
proof -
  have ok: "icache_ok f" "di_mode e 1 \<noteq> 0" "di_mode e ROOTINO \<noteq> 0" using assms(2) by (auto simp: inodes_ok_def reserved_def)
  show a: "alloc_ok e f r f'" using alloc_ends[OF ok] assms(1) by auto
  then show "icache_ok f'" by (simp add: alloc_ok_def)
  show "\<forall>ino\<in>set (named f'). i_mode_of e ino = 0" using a assms(2) unfolding alloc_ok_def inodes_ok_def set_named by blast
qed

lemma ialloc_step_inodes_ok: "ialloc_step s s' \<Longrightarrow> case s of (e, f) \<Rightarrow> inodes_ok e f \<Longrightarrow> case s' of (e, f) \<Rightarrow> inodes_ok e f"
proof (induction rule: ialloc_step.induct)
  case (Alloc e f ino f' m)
  then have ok: "inodes_ok e f" by simp
  note K = alloc_keeps_free[OF Alloc(1) ok]
  have "ROOTINO < ino" "ino \<notin> set (named f')" using K(1) by (auto simp: alloc_ok_def set_named)
  then show ?case using K(2,3) ok by (auto simp: inodes_ok_def reserved_def)
next
  case (Alloc_Fails e f r f')
  then show ?case using alloc_keeps_free[OF Alloc_Fails(1)] by (auto simp: inodes_ok_def)
next
  case (Read_In e ino f)
  then have "i_mode_of e ino = di_mode e ino" by (simp add: i_mode_of_def)
  then show ?case using Read_In by (auto simp: inodes_ok_def reserved_def)
next
  case (Read_Fails e f)
  then have ok: "inodes_ok e f" by simp
  then have "icache_ok (ifree 0 f)" "set (named (ifree 0 f)) \<subseteq> set (named f)"
    using ifree_ok[of f 0] by (auto simp: inodes_ok_def set_named)
  then show ?case using ok by (auto simp: inodes_ok_def)
next
  case (Change e ino m m' f)
  then have "i_mode_of e ino = m" by (simp add: i_mode_of_def)
  then show ?case using Change by (auto simp: inodes_ok_def reserved_def)
next
  case (Write_Out e ino m f)
  then have "i_mode_of (e\<lparr>di_mode := (di_mode e)(ino := m)\<rparr>) = i_mode_of e" "i_mode_of e ino = m"
    by (auto simp: i_mode_of_def fun_eq_iff split: option.splits)
  then show ?case using Write_Out by (auto simp: inodes_ok_def reserved_def)
next
  case (Drop e ino f)
  then have "i_mode_of (e\<lparr>in_core := (in_core e)(ino := None)\<rparr>) = i_mode_of e" by (auto simp: i_mode_of_def fun_eq_iff split: option.splits)
  then show ?case using Drop by (auto simp: inodes_ok_def reserved_def)
next
  case (Release e ino m f)
  then have "i_mode_of e ino = m" by (simp add: i_mode_of_def)
  then have "ino \<notin> set (cached f)" using Release by (auto simp: inodes_ok_def set_named)
  then show ?case using ifree_ok[of f ino] Release by (auto simp: inodes_ok_def reserved_def set_named)
next
  case (Outside e f u z g b)
  have "i_mode_of (e\<lparr>blkerr := b, iget_fails := g, frees_0 := z, orphan := u\<rparr>) = i_mode_of e" by (simp add: i_mode_of_def fun_eq_iff split: option.splits)
  then show ?case using Outside by (simp add: inodes_ok_def reserved_def)
qed

text \<open>The zeros are passed over, and what comes next is the answer.\<close>

lemma ialloc_pop_named:
  assumes "icache_ok f" and "\<forall>ino\<in>set (named f). ROOTINO < ino \<and> i_mode_of e ino = 0"
  shows "fst (ialloc_pop e f) = (if named f = [] then Refill
    else if iget_fails e (last (named f)) then Iget_Failed else Inode (last (named f)))"
  using assms
proof (induction "fs_ninode f" arbitrary: f)
  case 0
  then show ?case by (simp add: ialloc_pop.simps[of e f] named_def cached_def)
next
  case (Suc n)
  define ino where "ino = fs_inode f ! (fs_ninode f - 1)"
  define f1 where "f1 = f\<lparr>fs_ninode := fs_ninode f - 1\<rparr>"
  have pos: "0 < fs_ninode f" and n1: "n = fs_ninode f1" using Suc.hyps(2) by (simp_all add: f1_def)
  have c: "cached f = cached f1 @ [ino]"
    unfolding f1_def ino_def using pos Suc.prems(1) by (intro cached_pop) (simp_all add: icache_ok_def)
  show ?case
  proof (cases "ino = 0")
    case True
    then have n: "named f = named f1" by (simp add: named_def c)
    have "icache_ok f1" unfolding f1_def using Suc.prems(1) pos by (rule icache_ok_pop)
    note ih = Suc.hyps(1)[OF n1 this]
    have "ialloc_pop e f = ialloc_pop e f1" using pos True by (subst ialloc_pop.simps) (simp add: Let_def ino_def f1_def)
    then show ?thesis using ih Suc.prems(2) n by simp
  next
    case False
    then have n: "named f = named f1 @ [ino]" by (simp add: named_def c)
    then have "ROOTINO < ino" "i_mode_of e ino = 0" using Suc.prems(2) by auto
    then show ?thesis using pos n by (subst ialloc_pop.simps) (simp add: Let_def ino_def)
  qed
qed

text \<open>
  C14. Inodes 1 and 2 being in use.  However allocations, reads, write-outs and releases of inodes follow each other, and whatever blocks become unreadable
  on the way, the cache in the superblock holds numbers of free inodes beyond the root and zeros, which failed reads put there: no
  inode in use is ever in it, and no inode is in it twice.  In every such state \<open>ialloc\<close> ends, after at most one search of the inode blocks.
  The inode it returns is free, in the inode area, beyond the root and no longer in the cache (\<open>alloc_ok\<close>); it is the last number in the cache that
  is not 0, if there is one.  It gives up only when \<open>iget\<close> failed on an inode of the file system, or when not one inode
  of the disk is free, in a readable block and out of core.
\<close>

theorem inodes_never_shared:
  assumes "ialloc_step\<^sup>*\<^sup>* (e, f) (e', f')" and "inodes_ok e f"
  shows "distinct (named f') \<and> (\<forall>ino\<in>set (named f'). ROOTINO < ino \<and> ino \<le> last_ino f' \<and> i_mode_of e' ino = 0)
    \<and> (\<exists>r f''. ialloc e' f' = Inr (r, f'') \<and> alloc_ok e' f' r f'' \<and> (\<forall>ino. r = Inode ino \<longrightarrow> i_mode_of e' ino = 0)
         \<and> (named f' \<noteq> [] \<longrightarrow> r = (if iget_fails e' (last (named f')) then Iget_Failed else Inode (last (named f')))))"
proof -
  have "inodes_ok e' f'"
    using assms by (induction rule: rtranclp_induct2) (use ialloc_step_inodes_ok in fastforce)+
  then have k: "icache_ok f'" "reserved e'" "\<forall>ino\<in>set (named f'). i_mode_of e' ino = 0" by (simp_all add: inodes_ok_def)
  have rt: "ROOTINO < ino" if "ino \<in> set (named f')" for ino
  proof -
    have "ino \<noteq> 0" using that by (simp add: set_named)
    moreover have "ino \<noteq> 1" "ino \<noteq> ROOTINO" using k(2,3) that by (auto simp: reserved_def)
    ultimately show ?thesis by simp
  qed
  obtain r f'' where r: "ialloc e' f' = Inr (r, f'')" "alloc_ok e' f' r f''"
    using alloc_ends[OF k(1), of e'] k(2) by (auto simp: reserved_def)
  have "i_mode_of e' ino = 0" if "r = Inode ino" for ino
    using r(2) k(3) that by (auto simp: alloc_ok_def set_named)
  moreover have "r = (if iget_fails e' (last (named f')) then Iget_Failed else Inode (last (named f')))" if ne: "named f' \<noteq> []"
  proof -
    obtain x g where x: "ialloc_pop e' f' = (x, g)" by force
    moreover have "fst (ialloc_pop e' f') = (if iget_fails e' (last (named f')) then Iget_Failed else Inode (last (named f')))"
      using ialloc_pop_named[OF k(1)] rt k(3) ne by simp
    ultimately have "x = (if iget_fails e' (last (named f')) then Iget_Failed else Inode (last (named f')))" by simp
    then show ?thesis using r(1) x k(1) by (auto simp: ialloc_def icache_ok_def numeral_2_eq_2 split: if_splits)
  qed
  moreover have "distinct (named f')" "\<forall>ino\<in>set (named f'). ino \<le> last_ino f'" using k(1) by (auto simp: icache_ok_def set_named)
  ultimately show ?thesis using r rt k(3) by blast
qed

section \<open>An example\<close>

text \<open>A file system with 32 inodes: 5, 9 and 20 are free, 9 and 7 are in core, and 5 is the one in the cache.\<close>

definition demo_ienv :: ienv where
  "demo_ienv = \<lparr>di_mode = (\<lambda>i. if i \<in> {5, 9, 20} then 0 else 33188), blkerr = (\<lambda>_. False),
     in_core = [7 \<mapsto> 33188, 9 \<mapsto> 0], iget_fails = (\<lambda>_. False),
     frees_0 = (\<lambda>_. True), orphan = (\<lambda>_. False)\<rparr>"

definition demo_ifs :: "nat list \<Rightarrow> fs" where
  "demo_ifs c = \<lparr>fs_isize = 3, fs_fsize = 100, fs_nfree = 0, fs_free = replicate NICFREE 0,
     fs_ninode = length c, fs_inode = c @ replicate (NICINOD - length c) 0, fs_flock = 0, fs_fmod = 0, fs_ilock = 0, fs_time = 0,
     fs_tfree = 0, fs_tinode = 2, fs_lasti = 17, fs_nbehind = 0\<rparr>"

text \<open>Inode 7 is released, then a read fails for someone.\<close>

theorem inodes_never_shared_witness:
  "cached (ifree 0 (ifree 7 (demo_ifs [5]))) = [5, 7, 0]
    \<and> (\<exists>f''. ialloc (demo_ienv\<lparr>in_core := (in_core demo_ienv)(7 \<mapsto> 0)\<rparr>) (ifree 0 (ifree 7 (demo_ifs [5]))) = Inr (Inode 7, f''))"
proof -
  let ?e = "demo_ienv\<lparr>in_core := (in_core demo_ienv)(7 \<mapsto> 0)\<rparr>" and ?f = "ifree 7 (demo_ifs [5])"
  have "replicate 31 (0::nat) = 0 # 0 # replicate 29 0" using replicate_Suc[of 30 "0::nat"] replicate_Suc[of 29 "0::nat"] by simp
  then have c: "cached (ifree 0 ?f) = [5, 7, 0]" by (simp add: ifree_def Let_def cached_def demo_ifs_def)
  have "ialloc_step (demo_ienv, demo_ifs [5]) (?e, ?f)"
    by (rule ialloc_step.Release[where m = 33188]) (simp_all add: demo_ienv_def demo_ifs_def)
  then have "ialloc_step\<^sup>*\<^sup>* (demo_ienv, demo_ifs [5]) (?e, ifree 0 ?f)"
    by (rule converse_rtranclp_into_rtranclp) (intro r_into_rtranclp ialloc_step.Read_Fails)
  moreover have "inodes_ok demo_ienv (demo_ifs [5])"
    by (simp add: inodes_ok_def icache_ok_def reserved_def named_def cached_def i_mode_of_def demo_ienv_def demo_ifs_def)
  moreover have "\<not> iget_fails ?e 7" by (simp add: demo_ienv_def)
  ultimately show ?thesis using inodes_never_shared[of demo_ienv "demo_ifs [5]" ?e "ifree 0 ?f"] c by (auto simp: named_def)
qed

end
