(* ===== verification/Ufs_Inode.thy ===== *)
theory Ufs_Inode
  imports Ufs_Alloc
begin

text \<open>
  The inodes in core: \<open>ihinit\<close>, \<open>ifind\<close>, \<open>iget\<close>, \<open>igrab\<close>, \<open>iput\<close>, \<open>irele\<close>, \<open>ilock\<close>, \<open>iunlock\<close> and \<open>iflush\<close> of
  \<open>sys/kern/ufs_inode.c\<close>, as the PicoCalc configurations of the RP2040 build them: the table is searched from the start
  (\<open>LINEAR_INODE_CACHE\<close>), the fields are compact (\<open>COMPACT_INODE_FIELDS\<close>), and every inode has its device (no \<open>SINGLE_UFS_ROOT\<close>).

  Inodes with no reference are on a list linked through \<open>i_freef\<close>; \<open>i_freeb\<close> and \<open>ifreet\<close> are pointers to links,
  the type \<open>link\<close>.  \<open>iworld\<close> is what is outside the table: the inodes on the disks, blocks that cannot be read, inodes whose
  flags the system does not support, read-only file systems, and the mount table.  What a call does to the disk
  (\<open>itrunc\<close>, \<open>ifree\<close>, \<open>iupdat\<close>) is returned as a list of effects.  A process that finds an inode locked sleeps and
  tries again.  Not kept: the identifiers of the name cache, the times and the statistics of \<open>capacity_note\<close>.
\<close>

section \<open>Data\<close>

datatype link = Null | Head | Freef nat

datatype iflg = ILOCKED | IUPD | IACC | IMOUNT | IWANT | ICHG | IMOD

record inode =
  i_dev :: nat
  i_number :: nat
  i_count :: nat
  i_flag :: "iflg set"
  i_mode :: nat
  i_nlink :: nat
  i_rdev :: nat
  i_freef :: "nat option"
  i_freeb :: link

record itable =
  NINODE :: nat
  slot :: "nat \<Rightarrow> inode"
  ifreeh :: "nat option"
  ifreet :: link

record iworld =
  dinode :: "nat \<Rightarrow> nat \<Rightarrow> nat \<times> nat \<times> nat"  \<comment> \<open>mode, links and device number in an inode of a device\<close>
  unreadable :: "nat \<Rightarrow> nat \<Rightarrow> bool"
  bad_flags :: "nat \<Rightarrow> nat \<Rightarrow> bool"
  fs_ronly :: "nat \<Rightarrow> bool"
  mounts :: "(nat \<times> nat) list"  \<comment> \<open>\<open>m_inodp\<close> and \<open>m_dev\<close>\<close>

datatype effect = Truncate nat nat | Free_Inode nat nat | Write_Inode nat nat

abbreviation root_ino :: nat where "root_ino \<equiv> 2"

definition upd_slot :: "nat \<Rightarrow> (inode \<Rightarrow> inode) \<Rightarrow> itable \<Rightarrow> itable" where
  "upd_slot ip f s = s\<lparr>slot := (slot s)(ip := f (slot s ip))\<rparr>"

text \<open>Reading and writing through a pointer to a link; there is nothing to write through \<open>Null\<close>.\<close>

definition get_link :: "itable \<Rightarrow> link \<Rightarrow> nat option" where
  "get_link s l = (case l of Null \<Rightarrow> None | Head \<Rightarrow> ifreeh s | Freef ip \<Rightarrow> i_freef (slot s ip))"

definition set_link :: "link \<Rightarrow> nat option \<Rightarrow> itable \<Rightarrow> itable option" where
  "set_link l p s =
     (case l of
        Null \<Rightarrow> None
      | Head \<Rightarrow> Some (s\<lparr>ifreeh := p\<rparr>)
      | Freef ip \<Rightarrow> Some (upd_slot ip (\<lambda>i. i\<lparr>i_freef := p\<rparr>) s))"

section \<open>Operations\<close>

definition blank :: inode where
  "blank = \<lparr>i_dev = 0, i_number = 0, i_count = 0, i_flag = {}, i_mode = 0, i_nlink = 0, i_rdev = 0, i_freef = None, i_freeb = Null\<rparr>"

text \<open>The loop of \<open>ihinit\<close>, the slots from \<open>ip\<close> on.\<close>

function ihinit_loop :: "nat \<Rightarrow> itable \<Rightarrow> itable" where
  "ihinit_loop ip s =
     (if ip < NINODE s then
        let s = (case ifreet s of Null \<Rightarrow> s | Head \<Rightarrow> s\<lparr>ifreeh := Some ip\<rparr> | Freef p \<Rightarrow> upd_slot p (\<lambda>i. i\<lparr>i_freef := Some ip\<rparr>) s);
            s = upd_slot ip (\<lambda>i. i\<lparr>i_freeb := ifreet s\<rparr>) s
        in ihinit_loop (ip + 1) (s\<lparr>ifreet := Freef ip\<rparr>)
      else s)"
  by pat_completeness auto
termination
  by (relation "measure (\<lambda>(ip, s). NINODE s - ip)") (auto simp: upd_slot_def Let_def split: link.splits)

declare ihinit_loop.simps [simp del]

definition ihinit :: "nat \<Rightarrow> itable" where
  "ihinit n =
     (let s = \<lparr>NINODE = n, slot = (\<lambda>_. blank), ifreeh = Some 0, ifreet = Freef 0\<rparr>;
          s = ihinit_loop 1 (upd_slot 0 (\<lambda>i. i\<lparr>i_freeb := Head\<rparr>) s)
      in upd_slot (n - 1) (\<lambda>i. i\<lparr>i_freef := None\<rparr>) s)"

definition ifind :: "nat \<Rightarrow> nat \<Rightarrow> itable \<Rightarrow> nat option" where
  "ifind dev ino s = find (\<lambda>ip. ino = i_number (slot s ip) \<and> dev = i_dev (slot s ip)) [0..<NINODE s]"

text \<open>Taking an inode off the free list, which \<open>iget\<close> and \<open>igrab\<close> do for one without references.\<close>

definition unlink_free :: "nat \<Rightarrow> itable \<Rightarrow> itable option" where
  "unlink_free ip s =
     (let iq = i_freef (slot s ip); fb = i_freeb (slot s ip);
          s = (case iq of Some q \<Rightarrow> upd_slot q (\<lambda>i. i\<lparr>i_freeb := fb\<rparr>) s | None \<Rightarrow> s\<lparr>ifreet := fb\<rparr>)
      in map_option (upd_slot ip (\<lambda>i. i\<lparr>i_freef := None, i_freeb := Null\<rparr>)) (set_link fb iq s))"

definition grab :: "nat \<Rightarrow> itable \<Rightarrow> itable option" where
  "grab ip s =
     map_option (upd_slot ip (\<lambda>i. i\<lparr>i_count := u16 (i_count i + 1), i_flag := insert ILOCKED (i_flag i)\<rparr>))
       (if i_count (slot s ip) = 0 then unlink_free ip s else Some s)"

text \<open>The first inode of the free list, which \<open>iget\<close> takes for a new one.\<close>

definition take_head :: "nat \<Rightarrow> itable \<Rightarrow> itable" where
  "take_head ip s =
     (let iq = i_freef (slot s ip);
          s = (case iq of Some q \<Rightarrow> upd_slot q (\<lambda>i. i\<lparr>i_freeb := Head\<rparr>) s | None \<Rightarrow> s)
      in upd_slot ip (\<lambda>i. i\<lparr>i_freef := None, i_freeb := Null\<rparr>) (s\<lparr>ifreeh := iq\<rparr>))"

definition append_free :: "nat \<Rightarrow> itable \<Rightarrow> itable option" where
  "append_free ip s =
     map_option (\<lambda>s. (upd_slot ip (\<lambda>i. i\<lparr>i_freef := None\<rparr>) s)\<lparr>ifreet := Freef ip\<rparr>)
       (if ifreeh s \<noteq> None
        then map_option (upd_slot ip (\<lambda>i. i\<lparr>i_freeb := ifreet s\<rparr>)) (set_link (ifreet s) (Some ip) s)
        else Some (upd_slot ip (\<lambda>i. i\<lparr>i_freeb := Head\<rparr>) (s\<lparr>ifreeh := Some ip\<rparr>)))"

definition iunlock :: "nat \<Rightarrow> itable \<Rightarrow> itable" where
  "iunlock ip = upd_slot ip (\<lambda>i. i\<lparr>i_flag := i_flag i - {ILOCKED, IWANT}\<rparr>)"

definition dirty :: "iflg set" where
  "dirty = {IUPD, IACC, ICHG, IMOD}"

text \<open>
  \<open>IUPDAT\<close> and the tests of \<open>iupdat\<close>: nothing is written on a read-only file system, nor when the block of the inode cannot be
  read.  The flags it clears are cleared by its caller, \<open>irele\<close>, as well.
\<close>

definition iupdat :: "iworld \<Rightarrow> nat \<Rightarrow> itable \<Rightarrow> effect list" where
  "iupdat e ip s =
     (let i = slot s ip in
      if i_flag i \<inter> dirty \<noteq> {} \<and> \<not> fs_ronly e (i_dev i) \<and> \<not> unreadable e (i_dev i) (itod (i_number i))
      then [Write_Inode (i_dev i) (i_number i)] else [])"

definition irele_last :: "iworld \<Rightarrow> nat \<Rightarrow> itable \<Rightarrow> effect list \<times> itable" where
  "irele_last e ip s =
     (let s = upd_slot ip (\<lambda>i. i\<lparr>i_flag := insert ILOCKED (i_flag i)\<rparr>) s; i = slot s ip in
      if i_nlink i = 0 \<and> \<not> fs_ronly e (i_dev i)
      then ([Truncate (i_dev i) (i_number i), Free_Inode (i_dev i) (i_number i)],
            upd_slot ip (\<lambda>i. i\<lparr>i_mode := 0, i_rdev := 0, i_flag := i_flag i \<union> {IUPD, ICHG}\<rparr>) s)
      else ([], s))"

definition irele :: "iworld \<Rightarrow> nat \<Rightarrow> itable \<Rightarrow> (effect list \<times> itable) option" where
  "irele e ip s =
     map_option (\<lambda>(effs, s). (effs, upd_slot ip (\<lambda>i. i\<lparr>i_count := u16 (i_count i + 65535)\<rparr>) s))
       (if i_count (slot s ip) = 1 then
          let (effs, s) = irele_last e ip s; effs = effs @ iupdat e ip s
          in map_option (Pair effs) (append_free ip (upd_slot ip (\<lambda>i. i\<lparr>i_flag := {}\<rparr>) s))
        else if ILOCKED \<notin> i_flag (slot s ip) \<and> i_flag (slot s ip) \<inter> {IUPD, IACC, ICHG} \<noteq> {}
        then Some ([], upd_slot ip (\<lambda>i. i\<lparr>i_flag := insert IMOD (i_flag i) - {IACC, IUPD, ICHG}\<rparr>) s)
        else Some ([], s))"

definition iput :: "iworld \<Rightarrow> nat \<Rightarrow> itable \<Rightarrow> (effect list \<times> itable) option" where
  "iput e ip s = irele e ip (iunlock ip s)"

datatype iget_result = Got nat | Sleeps | Table_Full | Io_Failed | Panic | Loops

text \<open>An inode that is not in core; \<open>None\<close> marks a write through a null pointer, here and below.\<close>

definition iget_new :: "iworld \<Rightarrow> nat \<Rightarrow> nat \<Rightarrow> itable \<Rightarrow> (iget_result \<times> effect list \<times> itable) option" where
  "iget_new e dev ino s =
     (case ifreeh s of
        None \<Rightarrow> Some (Table_Full, [], s)
      | Some ip \<Rightarrow>
          if i_count (slot s ip) \<noteq> 0 then Some (Panic, [], s)
          else
            let s = upd_slot ip (\<lambda>i. i\<lparr>i_dev := dev, i_number := ino, i_flag := {ILOCKED}, i_count := i_count i + 1\<rparr>) (take_head ip s)
            in if unreadable e dev (itod ino) \<or> bad_flags e dev ino
               then map_option (\<lambda>(effs, s). (Io_Failed, effs, s)) (iput e ip (upd_slot ip (\<lambda>i. i\<lparr>i_number := 0\<rparr>) s))
               else case dinode e dev ino of (m, n, r) \<Rightarrow> Some (Got ip, [], upd_slot ip (\<lambda>i. i\<lparr>i_mode := m, i_nlink := n, i_rdev := r\<rparr>) s))"

text \<open>Each turn of the loop moves to the root of a file system mounted on the inode found; \<open>fuel\<close> bounds the turns.\<close>

fun iget :: "nat \<Rightarrow> iworld \<Rightarrow> nat \<Rightarrow> nat \<Rightarrow> itable \<Rightarrow> (iget_result \<times> effect list \<times> itable) option" where
  "iget fuel e dev ino s =
     (case ifind dev ino s of
        None \<Rightarrow> iget_new e dev ino s
      | Some ip \<Rightarrow>
          if ILOCKED \<in> i_flag (slot s ip) then Some (Sleeps, [], upd_slot ip (\<lambda>i. i\<lparr>i_flag := insert IWANT (i_flag i)\<rparr>) s)
          else if IMOUNT \<in> i_flag (slot s ip) then
            (case find (\<lambda>(inodp, _). inodp = ip) (mounts e) of
               None \<Rightarrow> Some (Panic, [], s)
             | Some (_, m_dev) \<Rightarrow> (case fuel of 0 \<Rightarrow> Some (Loops, [], s) | Suc n \<Rightarrow> iget n e m_dev root_ino s))
          else map_option (\<lambda>s. (Got ip, [], s)) (grab ip s))"

definition igrab :: "nat \<Rightarrow> itable \<Rightarrow> (bool \<times> itable) option" where
  "igrab ip s =
     (if ILOCKED \<in> i_flag (slot s ip) then Some (False, upd_slot ip (\<lambda>i. i\<lparr>i_flag := insert IWANT (i_flag i)\<rparr>) s)
      else map_option (Pair True) (grab ip s))"

definition ilock_inode :: "nat \<Rightarrow> itable \<Rightarrow> bool \<times> itable" where
  "ilock_inode ip s =
     (if ILOCKED \<in> i_flag (slot s ip) then (False, upd_slot ip (\<lambda>i. i\<lparr>i_flag := insert IWANT (i_flag i)\<rparr>) s)
      else (True, upd_slot ip (\<lambda>i. i\<lparr>i_flag := insert ILOCKED (i_flag i)\<rparr>) s))"

text \<open>\<open>iflush\<close>: the slots from \<open>ip\<close> on, with the number of open block devices so far; \<open>None\<close> for the answer -1.\<close>

function iflush_loop :: "nat \<Rightarrow> nat \<Rightarrow> nat \<Rightarrow> itable \<Rightarrow> nat option \<times> itable" where
  "iflush_loop dev ip n s =
     (if ip < NINODE s then
        let i = slot s ip in
        if i_dev i = dev then
          if i_count i \<noteq> 0 then (None, s)
          else iflush_loop dev (ip + 1) n (upd_slot ip (\<lambda>i. i\<lparr>i_number := 0\<rparr>) s)
        else iflush_loop dev (ip + 1) (if i_count i \<noteq> 0 \<and> i_mode i div 4096 = 6 \<and> i_rdev i = dev then n + 1 else n) s
      else (Some n, s))"
  by pat_completeness auto
termination
  by (relation "measure (\<lambda>(_, ip, _, s). NINODE s - ip)") (auto simp: upd_slot_def)

declare iflush_loop.simps [simp del]

definition iflush :: "nat \<Rightarrow> itable \<Rightarrow> nat option \<times> itable" where
  "iflush dev = iflush_loop dev 0 0"

section \<open>The free list\<close>

text \<open>
  \<open>fchain s l xs\<close>: the links from \<open>l\<close> on lead through the inodes \<open>xs\<close>, and each of them knows the link that points to it.
\<close>

primrec fchain :: "itable \<Rightarrow> link \<Rightarrow> nat list \<Rightarrow> bool" where
  "fchain s l [] \<longleftrightarrow> get_link s l = None"
| "fchain s l (x # xs) \<longleftrightarrow> get_link s l = Some x \<and> i_freeb (slot s x) = l \<and> fchain s (Freef x) xs"

primrec segment :: "itable \<Rightarrow> link \<Rightarrow> nat list \<Rightarrow> bool" where
  "segment s l [] \<longleftrightarrow> True"
| "segment s l (x # xs) \<longleftrightarrow> get_link s l = Some x \<and> i_freeb (slot s x) = l \<and> segment s (Freef x) xs"

definition last_link :: "link \<Rightarrow> nat list \<Rightarrow> link" where
  "last_link l xs = (if xs = [] then l else Freef (last xs))"

lemma last_link_simps [simp]: "last_link l [] = l" "last_link l (x # xs) = last_link (Freef x) xs" "last_link l (xs @ [x]) = Freef x"
  by (simp_all add: last_link_def)

lemma fchain_append: "fchain s l (as @ bs) \<longleftrightarrow> segment s l as \<and> fchain s (last_link l as) bs"
  by (induction as arbitrary: l) auto

lemma fchain_segment: "fchain s l xs \<Longrightarrow> segment s l xs"
  by (induction xs arbitrary: l) auto

lemma fchain_head: "fchain s l xs \<Longrightarrow> get_link s l = (case xs of [] \<Rightarrow> None | x # _ \<Rightarrow> Some x)"
  by (cases xs) auto

text \<open>Two tables agree on the links of a list, except where the last one leads.\<close>

definition agree :: "itable \<Rightarrow> itable \<Rightarrow> nat set \<Rightarrow> bool" where
  "agree s s' X \<longleftrightarrow> (\<forall>x\<in>X. i_freef (slot s' x) = i_freef (slot s x) \<and> i_freeb (slot s' x) = i_freeb (slot s x))"

lemma get_link_simps [simp]: "get_link s Null = None" "get_link s Head = ifreeh s" "get_link s (Freef x) = i_freef (slot s x)"
  by (simp_all add: get_link_def)

lemma fchain_frame: "agree s s' (set xs) \<Longrightarrow> get_link s' l = get_link s l \<Longrightarrow> fchain s l xs \<Longrightarrow> fchain s' l xs"
  by (induction xs arbitrary: l) (auto simp: agree_def)

lemma segment_frame:
  "(\<forall>x\<in>set xs. i_freeb (slot s' x) = i_freeb (slot s x)) \<Longrightarrow> (\<forall>x\<in>set (butlast xs). i_freef (slot s' x) = i_freef (slot s x))
    \<Longrightarrow> (xs \<noteq> [] \<Longrightarrow> get_link s' l = get_link s l) \<Longrightarrow> segment s l xs \<Longrightarrow> segment s' l xs"
  by (induction xs arbitrary: l) (auto split: if_splits)

definition free_list :: "itable \<Rightarrow> nat list \<Rightarrow> bool" where
  "free_list s xs \<longleftrightarrow> fchain s Head xs \<and> distinct xs \<and> (xs \<noteq> [] \<longrightarrow> ifreet s = Freef (last xs))"

lemma upd_slot_simps [simp]:
  "slot (upd_slot ip f s) x = (if x = ip then f (slot s ip) else slot s x)" "ifreeh (upd_slot ip f s) = ifreeh s" "ifreet (upd_slot ip f s) = ifreet s"
  "NINODE (upd_slot ip f s) = NINODE s"
  by (simp_all add: upd_slot_def)

lemma free_list_frame:
  assumes "free_list s xs" and "\<And>x. x \<in> set xs \<Longrightarrow> i_freef (slot s' x) = i_freef (slot s x) \<and> i_freeb (slot s' x) = i_freeb (slot s x)"
    and "ifreeh s' = ifreeh s" and "ifreet s' = ifreet s"
  shows "free_list s' xs"
  using assms fchain_frame[of s s' xs Head] by (auto simp: free_list_def agree_def)

lemma free_list_upd: "free_list s xs \<Longrightarrow> x \<notin> set xs \<Longrightarrow> free_list (upd_slot x f s) xs"
  by (erule free_list_frame) auto

lemma free_list_upd_core:
  assumes "free_list s xs" and "\<And>i. i_freef (f i) = i_freef i" and "\<And>i. i_freeb (f i) = i_freeb i"
  shows "free_list (upd_slot x f s) xs"
  by (rule free_list_frame[OF assms(1)]) (simp_all add: assms(2,3))

lemma take_head_ok:
  assumes "free_list s (x # xs)"
  shows "free_list (take_head x s) xs"
proof (cases xs)
  case Nil
  then show ?thesis using assms by (simp add: free_list_def take_head_def Let_def)
next
  case (Cons y ys)
  have f: "i_freef (slot s x) = Some y" "fchain s (Freef y) ys" "x \<noteq> y" "y \<notin> set ys" "x \<notin> set ys" "distinct ys" "ifreet s = Freef (last (y # ys))"
    using assms Cons by (auto simp: free_list_def split: if_splits)
  have "fchain (take_head x s) (Freef y) ys"
    using f by (intro fchain_frame[OF _ _ f(2)]) (auto simp: agree_def take_head_def Let_def)
  then show ?thesis using f Cons by (simp add: free_list_def take_head_def Let_def)
qed

lemma unlink_free_ok:
  assumes "free_list s (as @ x # bs)"
  shows "\<exists>s'. unlink_free x s = Some s' \<and> free_list s' (as @ bs)"
proof -
  have d: "distinct as" "distinct bs" "x \<notin> set as" "x \<notin> set bs" "set as \<inter> set bs = {}" using assms by (auto simp: free_list_def)
  define l where "l = last_link Head as"
  have c: "segment s Head as" "get_link s l = Some x" "i_freeb (slot s x) = l" "fchain s (Freef x) bs"
    using assms by (auto simp: free_list_def fchain_append l_def)
  have tl: "ifreet s = Freef (last (x # bs))" using assms by (auto simp: free_list_def)
  define s1 where "s1 = (case i_freef (slot s x) of Some q \<Rightarrow> upd_slot q (\<lambda>i. i\<lparr>i_freeb := l\<rparr>) s | None \<Rightarrow> s\<lparr>ifreet := l\<rparr>)"
  have l: "l = Head \<and> as = [] \<or> (\<exists>a as'. as = as' @ [a] \<and> l = Freef a)" by (cases as rule: rev_cases) (simp_all add: l_def)
  then obtain s2 where s2: "set_link l (i_freef (slot s x)) s1 = Some s2" by (auto simp: set_link_def)
  define s' where "s' = upd_slot x (\<lambda>i. i\<lparr>i_freef := None, i_freeb := Null\<rparr>) s2"
  have run: "unlink_free x s = Some s'" using s2 c(3) by (simp add: unlink_free_def Let_def s1_def s'_def)
  have ff: "i_freef (slot s' y) = (if l = Freef y then i_freef (slot s x) else i_freef (slot s y))" if "y \<noteq> x" for y
    using that s2 by (auto simp: s'_def s1_def set_link_def split: link.splits option.splits)
  have fb: "i_freeb (slot s' y) = (if i_freef (slot s x) = Some y then l else i_freeb (slot s y))" if "y \<noteq> x" for y
    using that s2 by (auto simp: s'_def s1_def set_link_def split: link.splits option.splits)
  have hd: "ifreeh s' = (if l = Head then i_freef (slot s x) else ifreeh s)"
    using s2 by (auto simp: s'_def s1_def set_link_def split: link.splits option.splits)
  have tl': "ifreet s' = (if i_freef (slot s x) = None then l else ifreet s)"
    using s2 by (auto simp: s'_def s1_def set_link_def split: link.splits option.splits)
  have nb: "i_freef (slot s x) = (case bs of [] \<Rightarrow> None | b # _ \<Rightarrow> Some b)" using c(4) by (cases bs) auto
  have seg: "segment s' Head as"
  proof (rule segment_frame[OF _ _ _ c(1)])
    show "\<forall>y\<in>set as. i_freeb (slot s' y) = i_freeb (slot s y)"
    proof
      fix y assume y: "y \<in> set as"
      then have "y \<noteq> x" "i_freef (slot s x) \<noteq> Some y" using d nb by (auto split: list.splits)
      then show "i_freeb (slot s' y) = i_freeb (slot s y)" using fb by simp
    qed
    show "\<forall>y\<in>set (butlast as). i_freef (slot s' y) = i_freef (slot s y)"
    proof
      fix y assume y: "y \<in> set (butlast as)"
      then have "y \<noteq> x" using d(3) in_set_butlastD[of y as] by auto
      moreover have "l \<noteq> Freef y" using y l d(1) by auto
      ultimately show "i_freef (slot s' y) = i_freef (slot s y)" using ff by simp
    qed
    show "get_link s' Head = get_link s Head" if "as \<noteq> []" using hd l that by auto
  qed
  have lx: "l \<noteq> Freef x" "\<And>b. b \<in> set bs \<Longrightarrow> l \<noteq> Freef b" using l d by auto
  have "fchain s' l bs"
  proof (cases bs)
    case Nil
    then show ?thesis using nb l ff hd d(3) by auto
  next
    case (Cons b bs')
    then have cb: "fchain s (Freef b) bs'" "i_freef (slot s x) = Some b" using c(4) by auto
    have "agree s s' (set bs')"
      unfolding agree_def
    proof
      fix y assume "y \<in> set bs'"
      then have "y \<noteq> x" "y \<noteq> b" "l \<noteq> Freef y" using d Cons lx(2)[of y] by auto
      then show "i_freef (slot s' y) = i_freef (slot s y) \<and> i_freeb (slot s' y) = i_freeb (slot s y)" using ff fb cb(2) by simp
    qed
    moreover have "get_link s' (Freef b) = get_link s (Freef b)" using ff[of b] lx(2)[of b] d(4) Cons by auto
    ultimately have "fchain s' (Freef b) bs'" using cb(1) by (rule fchain_frame)
    moreover have "get_link s' l = Some b" using l ff hd d(3) cb(2) by auto
    moreover have "i_freeb (slot s' b) = l" using fb[of b] d(4) Cons cb(2) by auto
    ultimately show ?thesis using Cons by simp
  qed
  then have "fchain s' Head (as @ bs)" using seg by (simp add: fchain_append l_def)
  moreover have "ifreet s' = Freef (last (as @ bs))" if "as @ bs \<noteq> []"
    using that tl tl' nb l by (cases bs) auto
  ultimately show ?thesis using run d by (auto simp: free_list_def)
qed

lemma append_free_ok:
  assumes "free_list s xs" and "x \<notin> set xs"
  shows "\<exists>s'. append_free x s = Some s' \<and> free_list s' (xs @ [x])"
proof (cases xs rule: rev_cases)
  case Nil
  then show ?thesis using assms by (simp add: append_free_def free_list_def)
next
  case (snoc ys y)
  have ch: "fchain s Head xs" "distinct xs" "ifreet s = Freef y" using assms(1) snoc by (simp_all add: free_list_def)
  have c: "segment s Head xs" "i_freef (slot s y) = None" "ifreet s = Freef y" "ifreeh s \<noteq> None" "x \<noteq> y" "y \<notin> set ys" "distinct xs"
    using ch assms(2) snoc fchain_segment[OF ch(1)] fchain_head[OF ch(1)] by (simp_all add: fchain_append split: list.splits)
  define s1 where "s1 = upd_slot x (\<lambda>i. i\<lparr>i_freeb := Freef y\<rparr>) (upd_slot y (\<lambda>i. i\<lparr>i_freef := Some x\<rparr>) s)"
  define s' where "s' = (upd_slot x (\<lambda>i. i\<lparr>i_freef := None\<rparr>) s1)\<lparr>ifreet := Freef x\<rparr>"
  have run: "append_free x s = Some s'" using c by (simp add: append_free_def set_link_def s1_def s'_def)
  have "segment s' Head xs"
    by (rule segment_frame[OF _ _ _ c(1)]) (use assms(2) c snoc in \<open>auto simp: s'_def s1_def\<close>)
  moreover have "fchain s' (last_link Head xs) [x]" using snoc c by (simp add: s'_def s1_def)
  ultimately have "fchain s' Head (xs @ [x])" unfolding fchain_append by blast
  then show ?thesis using run c(7) assms(2) by (auto simp: free_list_def s'_def)
qed

section \<open>The invariant\<close>

text \<open>What the list operations leave alone.\<close>

definition core :: "inode \<Rightarrow> nat \<times> nat \<times> nat \<times> iflg set \<times> nat \<times> nat \<times> nat" where
  "core i = (i_dev i, i_number i, i_count i, i_flag i, i_mode i, i_nlink i, i_rdev i)"

definition same_core :: "itable \<Rightarrow> itable \<Rightarrow> bool" where
  "same_core s s' \<longleftrightarrow> NINODE s' = NINODE s \<and> (\<forall>x. core (slot s' x) = core (slot s x))"

lemma take_head_core: "same_core s (take_head x s)"
  by (simp add: same_core_def core_def take_head_def Let_def split: option.splits)

lemma set_link_core: "set_link l p s = Some s' \<Longrightarrow> same_core s s'"
  by (auto simp: same_core_def core_def set_link_def split: link.splits if_splits)

lemma same_core_trans: "same_core s s1 \<Longrightarrow> same_core s1 s2 \<Longrightarrow> same_core s s2"
  by (simp add: same_core_def)

lemma same_core_upd: "(\<And>i. core (f i) = core i) \<Longrightarrow> same_core s s' \<Longrightarrow> same_core s (upd_slot x f s')"
  by (simp add: same_core_def)

lemma unlink_free_core:
  assumes "unlink_free x s = Some s'"
  shows "same_core s s'"
proof -
  define s1 where "s1 = (case i_freef (slot s x) of Some q \<Rightarrow> upd_slot q (\<lambda>i. i\<lparr>i_freeb := i_freeb (slot s x)\<rparr>) s | None \<Rightarrow> s\<lparr>ifreet := i_freeb (slot s x)\<rparr>)"
  obtain s2 where s2: "set_link (i_freeb (slot s x)) (i_freef (slot s x)) s1 = Some s2" "s' = upd_slot x (\<lambda>i. i\<lparr>i_freef := None, i_freeb := Null\<rparr>) s2"
    using assms by (auto simp: unlink_free_def Let_def s1_def)
  have "same_core s s1" by (simp add: s1_def same_core_def core_def split: option.splits)
  then have "same_core s s2" using set_link_core[OF s2(1)] same_core_trans by blast
  then show ?thesis unfolding s2(2) by (intro same_core_upd) (simp add: core_def)
qed

lemma append_free_core:
  assumes "append_free x s = Some s'"
  shows "same_core s s'"
proof -
  obtain s1 where s1: "same_core s s1" "s' = (upd_slot x (\<lambda>i. i\<lparr>i_freef := None\<rparr>) s1)\<lparr>ifreet := Freef x\<rparr>"
  proof (cases "ifreeh s")
    case None
    then show ?thesis using that[of "upd_slot x (\<lambda>i. i\<lparr>i_freeb := Head\<rparr>) (s\<lparr>ifreeh := Some x\<rparr>)"] assms
      by (simp add: append_free_def same_core_def core_def)
  next
    case (Some y)
    then obtain s0 where "set_link (ifreet s) (Some x) s = Some s0" "s' = (upd_slot x (\<lambda>i. i\<lparr>i_freef := None\<rparr>) (upd_slot x (\<lambda>i. i\<lparr>i_freeb := ifreet s\<rparr>) s0))\<lparr>ifreet := Freef x\<rparr>"
      using assms by (auto simp: append_free_def)
    then show ?thesis using that[of "upd_slot x (\<lambda>i. i\<lparr>i_freeb := ifreet s\<rparr>) s0"] set_link_core same_core_upd[of _ s s0] by (auto simp: core_def)
  qed
  have "same_core s (upd_slot x (\<lambda>i. i\<lparr>i_freef := None\<rparr>) s1)" using s1(1) by (intro same_core_upd) (simp_all add: core_def)
  then show ?thesis unfolding s1(2) by (simp add: same_core_def)
qed

lemma same_coreD:
  assumes "same_core s s'"
  shows "NINODE s' = NINODE s" "i_dev (slot s' x) = i_dev (slot s x)" "i_number (slot s' x) = i_number (slot s x)" "i_count (slot s' x) = i_count (slot s x)"
    "i_flag (slot s' x) = i_flag (slot s x)" "i_mode (slot s' x) = i_mode (slot s x)" "i_nlink (slot s' x) = i_nlink (slot s x)"
    "i_rdev (slot s' x) = i_rdev (slot s x)"
proof -
  have c: "core (slot s' x) = core (slot s x)" "NINODE s' = NINODE s" using assms by (simp_all add: same_core_def)
  from c show "NINODE s' = NINODE s" "i_dev (slot s' x) = i_dev (slot s x)" "i_number (slot s' x) = i_number (slot s x)" "i_count (slot s' x) = i_count (slot s x)"
    "i_flag (slot s' x) = i_flag (slot s x)" "i_mode (slot s' x) = i_mode (slot s x)" "i_nlink (slot s' x) = i_nlink (slot s x)"
    "i_rdev (slot s' x) = i_rdev (slot s x)" by (simp_all add: core_def)
qed

text \<open>No two slots hold the same inode, an inode is free when nobody refers to it, and the free ones carry no flags.\<close>

definition unique_inodes :: "itable \<Rightarrow> bool" where
  "unique_inodes s \<longleftrightarrow> (\<forall>x<NINODE s. \<forall>y<NINODE s. i_number (slot s x) \<noteq> 0 \<longrightarrow> i_number (slot s x) = i_number (slot s y)
     \<longrightarrow> i_dev (slot s x) = i_dev (slot s y) \<longrightarrow> x = y)"

definition books :: "itable \<Rightarrow> nat list \<Rightarrow> bool" where
  "books s xs \<longleftrightarrow> set xs = {x. x < NINODE s \<and> i_count (slot s x) = 0} \<and> unique_inodes s
     \<and> (\<forall>x<NINODE s. i_count (slot s x) < 65536 \<and> (i_count (slot s x) = 0 \<longrightarrow> i_flag (slot s x) = {}))"

definition cache_ok :: "itable \<Rightarrow> nat list \<Rightarrow> bool" where
  "cache_ok s xs \<longleftrightarrow> free_list s xs \<and> books s xs"

lemma books_core: "same_core s s' \<Longrightarrow> books s xs \<Longrightarrow> books s' xs"
  using same_coreD[of s s'] unfolding books_def unique_inodes_def by simp

lemma find_upt:
  assumes "find P [0..<n] = r"
  shows "case r of None \<Rightarrow> \<forall>x<n. \<not> P x | Some x \<Rightarrow> x < n \<and> P x"
  using assms by (cases r) (auto simp: find_None_iff find_Some_iff)

lemma ifind_cases:
  "ifind dev ino s = r \<Longrightarrow> case r of
     None \<Rightarrow> \<forall>x<NINODE s. \<not> (ino = i_number (slot s x) \<and> dev = i_dev (slot s x))
   | Some x \<Rightarrow> x < NINODE s \<and> ino = i_number (slot s x) \<and> dev = i_dev (slot s x)"
  unfolding ifind_def by (rule find_upt)

lemma ifind_unique:
  assumes "unique_inodes s" and "x < NINODE s" and "i_number (slot s x) \<noteq> 0"
  shows "ifind (i_dev (slot s x)) (i_number (slot s x)) s = Some x"
proof (cases "ifind (i_dev (slot s x)) (i_number (slot s x)) s")
  case None
  then show ?thesis using ifind_cases[OF None] assms(2) by auto
next
  case (Some y)
  then show ?thesis using ifind_cases[OF Some] assms unfolding unique_inodes_def by auto
qed

text \<open>Changing an inode that is referred to, without changing its identity.\<close>

lemma cache_ok_upd:
  assumes "cache_ok s xs" and "x < NINODE s" and "i_count (slot s x) \<noteq> 0" and "0 < i_count (f (slot s x))" "i_count (f (slot s x)) < 65536"
    and "i_dev (f (slot s x)) = i_dev (slot s x)" and "i_number (f (slot s x)) = i_number (slot s x) \<or> i_number (f (slot s x)) = 0"
  shows "cache_ok (upd_slot x f s) xs"
proof -
  have x: "x \<notin> set xs" using assms(1,3) by (auto simp: cache_ok_def books_def)
  then have "free_list (upd_slot x f s) xs" using assms(1) free_list_upd by (simp add: cache_ok_def)
  moreover have "unique_inodes (upd_slot x f s)"
  proof -
    have dev: "i_dev (slot (upd_slot x f s) z) = i_dev (slot s z)" for z using assms(6) by simp
    have num: "i_number (slot (upd_slot x f s) z) = i_number (slot s z)" if "i_number (slot (upd_slot x f s) z) \<noteq> 0" for z
      using assms(7) that by (simp split: if_splits)
    have "unique_inodes s" using assms(1) by (simp add: cache_ok_def books_def)
    then show ?thesis unfolding unique_inodes_def dev upd_slot_simps(4) using num by metis
  qed
  ultimately show ?thesis using assms by (auto simp: cache_ok_def books_def)
qed

lemma cache_okD:
  assumes "cache_ok s xs"
  shows "free_list s xs" "books s xs" "x \<in> set xs \<longleftrightarrow> x < NINODE s \<and> i_count (slot s x) = 0" "unique_inodes s"
    "x < NINODE s \<Longrightarrow> i_count (slot s x) = 0 \<Longrightarrow> i_flag (slot s x) = {}" "x < NINODE s \<Longrightarrow> i_count (slot s x) < 65536"
  using assms by (auto simp: cache_ok_def books_def)

lemma booksI:
  assumes "unique_inodes s" and "\<And>y. y \<in> set xs \<longleftrightarrow> y < NINODE s \<and> i_count (slot s y) = 0"
    and "\<And>y. y < NINODE s \<Longrightarrow> i_count (slot s y) < 65536 \<and> (i_count (slot s y) = 0 \<longrightarrow> i_flag (slot s y) = {})"
  shows "books s xs"
  using assms unfolding books_def by blast

lemma unique_inodes_cong:
  assumes "unique_inodes s" and "NINODE s' = NINODE s" and "\<And>y. i_dev (slot s' y) = i_dev (slot s y)" and "\<And>y. i_number (slot s' y) = i_number (slot s y)"
  shows "unique_inodes s'"
  using assms(1) unfolding unique_inodes_def assms(2-4) .

lemma grab_ok:
  assumes ok: "cache_ok s xs" and x: "x < NINODE s" and b: "i_count (slot s x) < 65535"
  shows "\<exists>s'. grab x s = Some s' \<and> cache_ok s' (filter (\<lambda>y. y \<noteq> x) xs) \<and> NINODE s' = NINODE s \<and> (\<forall>y. y \<noteq> x \<longrightarrow> core (slot s' y) = core (slot s y))
    \<and> core (slot s' x) = core ((slot s x)\<lparr>i_count := i_count (slot s x) + 1, i_flag := insert ILOCKED (i_flag (slot s x))\<rparr>)"
proof -
  note ok' = cache_okD[OF ok]
  let ?f = "\<lambda>i. i\<lparr>i_count := u16 (i_count i + 1), i_flag := insert ILOCKED (i_flag i)\<rparr>"
  obtain s1 where s1: "(if i_count (slot s x) = 0 then unlink_free x s else Some s) = Some s1" "free_list s1 (filter (\<lambda>y. y \<noteq> x) xs)" "same_core s s1"
  proof (cases "i_count (slot s x) = 0")
    case True
    then have "x \<in> set xs" using ok'(3) x by blast
    then obtain as bs where xs: "xs = as @ x # bs" by (meson split_list)
    have "distinct xs" using ok'(1) by (simp add: free_list_def)
    then have "filter (\<lambda>y. y \<noteq> x) as = as" "filter (\<lambda>y. y \<noteq> x) bs = bs" using xs by (auto simp: filter_id_conv)
    then have "filter (\<lambda>y. y \<noteq> x) xs = as @ bs" using xs by simp
    moreover obtain s1 where "unlink_free x s = Some s1" "free_list s1 (as @ bs)" using unlink_free_ok[of s as x bs] ok'(1) xs by blast
    ultimately show ?thesis using that[of s1] unlink_free_core True by simp
  next
    case False
    then have "x \<notin> set xs" using ok'(3)[of x] by simp
    then have "filter (\<lambda>y. y \<noteq> x) xs = xs" by (auto simp: filter_id_conv)
    then show ?thesis using that[of s] False ok'(1) by (simp add: same_core_def)
  qed
  have c: "i_count (slot s1 x) = i_count (slot s x)" "NINODE s1 = NINODE s" "\<And>y. core (slot s1 y) = core (slot s y)"
    using same_coreD(1,4)[OF s1(3)] s1(3) unfolding same_core_def by blast+
  have u: "u16 (i_count (slot s x) + 1) = i_count (slot s x) + 1" using b by simp
  have run: "grab x s = Some (upd_slot x ?f s1)" using s1(1) by (simp add: grab_def)
  have "free_list (upd_slot x ?f s1) (filter (\<lambda>y. y \<noteq> x) xs)" by (rule free_list_upd[OF s1(2)]) simp
  moreover have "books (upd_slot x ?f s1) (filter (\<lambda>y. y \<noteq> x) xs)"
  proof (rule booksI)
    note sc = same_coreD[OF s1(3)]
    have cnt: "i_count (slot (upd_slot x ?f s1) y) = (if y = x then i_count (slot s x) + 1 else i_count (slot s y))" for y using sc(4)[of y] u by (cases "y = x") simp_all
    show "unique_inodes (upd_slot x ?f s1)" by (rule unique_inodes_cong[OF ok'(4)]) (use sc(1-3) in simp_all)
    show "y \<in> set (filter (\<lambda>y. y \<noteq> x) xs) \<longleftrightarrow> y < NINODE (upd_slot x ?f s1) \<and> i_count (slot (upd_slot x ?f s1) y) = 0" for y
      unfolding cnt using ok'(3)[of y] sc(1) by simp
    show "i_count (slot (upd_slot x ?f s1) y) < 65536 \<and> (i_count (slot (upd_slot x ?f s1) y) = 0 \<longrightarrow> i_flag (slot (upd_slot x ?f s1) y) = {})"
      if "y < NINODE (upd_slot x ?f s1)" for y
      unfolding cnt using ok'(5,6)[of y] sc(1) sc(5)[of y] that b by (cases "y = x") simp_all
  qed
  moreover have "core (slot (upd_slot x ?f s1) x) = core ((slot s x)\<lparr>i_count := i_count (slot s x) + 1, i_flag := insert ILOCKED (i_flag (slot s x))\<rparr>)"
    using same_coreD(2-8)[OF s1(3), of x] u by (simp add: core_def)
  ultimately show ?thesis using run c by (auto simp: cache_ok_def)
qed

text \<open>Giving up the last reference: \<open>f\<close> is what happened to the inode before it went to the free list.\<close>

lemma release_ok:
  assumes ok: "cache_ok s xs" and x: "x < NINODE s" and one: "i_count (slot s x) = 1"
    and f: "\<And>i. i_count (f i) = i_count i" "i_dev (f (slot s x)) = i_dev (slot s x)" "i_number (f (slot s x)) = i_number (slot s x)"
  shows "\<exists>s'. append_free x (upd_slot x (\<lambda>i. (f i)\<lparr>i_flag := {}\<rparr>) s) = Some s' \<and> cache_ok (upd_slot x (\<lambda>i. i\<lparr>i_count := u16 (i_count i + 65535)\<rparr>) s') (xs @ [x])
    \<and> same_core (upd_slot x (\<lambda>i. (f i)\<lparr>i_flag := {}\<rparr>) s) s'"
proof -
  note ok' = cache_okD[OF ok]
  define s1 where "s1 = upd_slot x (\<lambda>i. (f i)\<lparr>i_flag := {}\<rparr>) s"
  have xn: "x \<notin> set xs" using ok'(3) one by simp
  have fl: "free_list s1 xs" unfolding s1_def using ok'(1) xn by (rule free_list_upd)
  obtain s2 where s2: "append_free x s1 = Some s2" "free_list s2 (xs @ [x])" using append_free_ok[OF fl xn] by blast
  define s3 where "s3 = upd_slot x (\<lambda>i. i\<lparr>i_count := u16 (i_count i + 65535)\<rparr>) s2"
  note c = same_coreD[OF append_free_core[OF s2(1)]]
  have "i_count (slot s2 x) = 1" using c(4)[of x] f(1) one by (simp add: s1_def)
  then have cnt: "i_count (slot s3 x) = 0" by (simp add: s3_def u16_def)
  have "free_list s3 (xs @ [x])" unfolding s3_def by (rule free_list_upd_core[OF s2(2)]) simp_all
  moreover have "books s3 (xs @ [x])"
  proof -
    have eq: "NINODE s3 = NINODE s" "\<And>y. i_dev (slot s3 y) = i_dev (slot s y)" "\<And>y. i_number (slot s3 y) = i_number (slot s y)"
      "\<And>y. y \<noteq> x \<Longrightarrow> i_count (slot s3 y) = i_count (slot s y) \<and> i_flag (slot s3 y) = i_flag (slot s y)" "i_flag (slot s3 x) = {}"
      using c f(2,3) by (auto simp: s3_def s1_def)
    show ?thesis
    proof (rule booksI)
      show "unique_inodes s3" by (rule unique_inodes_cong[OF ok'(4) eq(1-3)])
      show "y \<in> set (xs @ [x]) \<longleftrightarrow> y < NINODE s3 \<and> i_count (slot s3 y) = 0" for y
        using ok'(3)[of y] eq(1) eq(4)[of y] cnt x by (cases "y = x") simp_all
      show "i_count (slot s3 y) < 65536 \<and> (i_count (slot s3 y) = 0 \<longrightarrow> i_flag (slot s3 y) = {})" if "y < NINODE s3" for y
        using ok'(5,6)[of y] eq(1,5) eq(4)[of y] cnt that by (cases "y = x") simp_all
    qed
  qed
  ultimately show ?thesis using s2(1) append_free_core[OF s2(1)] unfolding cache_ok_def s3_def s1_def by blast
qed

lemma irele_ok:
  assumes ok: "cache_ok s xs" and x: "x < NINODE s" and one: "0 < i_count (slot s x)"
  shows "\<exists>effs s' xs'. irele e x s = Some (effs, s') \<and> cache_ok s' xs' \<and> NINODE s' = NINODE s"
proof (cases "i_count (slot s x) = 1")
  case True
  define del where "del = (i_nlink (slot s x) = 0 \<and> \<not> fs_ronly e (i_dev (slot s x)))"
  define f where "f = (\<lambda>i :: inode. let i = i\<lparr>i_flag := insert ILOCKED (i_flag i)\<rparr> in
    if del then i\<lparr>i_mode := 0, i_rdev := 0, i_flag := i_flag i \<union> {IUPD, ICHG}\<rparr> else i)"
  have upd2: "upd_slot x g (upd_slot x h s) = upd_slot x (\<lambda>i. g (h i)) s" for g h :: "inode \<Rightarrow> inode" by (simp add: upd_slot_def)
  have last: "snd (irele_last e x s) = upd_slot x f s" by (simp add: irele_last_def f_def del_def Let_def upd2)
  obtain effs0 where l: "irele_last e x s = (effs0, upd_slot x f s)" using last by (metis prod.collapse)
  have f: "\<And>i. i_count (f i) = i_count i" "i_dev (f (slot s x)) = i_dev (slot s x)" "i_number (f (slot s x)) = i_number (slot s x)"
    by (simp_all add: f_def Let_def)
  obtain s' where s': "append_free x (upd_slot x (\<lambda>i. (f i)\<lparr>i_flag := {}\<rparr>) s) = Some s'"
    "cache_ok (upd_slot x (\<lambda>i. i\<lparr>i_count := u16 (i_count i + 65535)\<rparr>) s') (xs @ [x])" "same_core (upd_slot x (\<lambda>i. (f i)\<lparr>i_flag := {}\<rparr>) s) s'"
    using release_ok[OF ok x True f] by blast
  have "irele e x s = Some (effs0 @ iupdat e x (upd_slot x f s), upd_slot x (\<lambda>i. i\<lparr>i_count := u16 (i_count i + 65535)\<rparr>) s')"
    using True l s'(1) by (simp add: irele_def upd2)
  then show ?thesis using s'(2) same_coreD(1)[OF s'(3)] by auto
next
  case False
  define g where "g = (\<lambda>i :: inode. if ILOCKED \<notin> i_flag (slot s x) \<and> i_flag (slot s x) \<inter> {IUPD, IACC, ICHG} \<noteq> {}
    then i\<lparr>i_flag := insert IMOD (i_flag i) - {IACC, IUPD, ICHG}\<rparr> else i)"
  have "irele e x s = Some ([], upd_slot x (\<lambda>i. (g i)\<lparr>i_count := u16 (i_count (g i) + 65535)\<rparr>) s)"
    using False by (simp add: irele_def g_def upd_slot_def)
  moreover have "cache_ok (upd_slot x (\<lambda>i. (g i)\<lparr>i_count := u16 (i_count (g i) + 65535)\<rparr>) s) xs"
  proof (rule cache_ok_upd[OF ok x])
    have c: "i_count (slot s x) < 65536" using cache_okD(6)[OF ok x] .
    have "u16 (i_count (slot s x) + 65535) = i_count (slot s x) - 1" using one c by (simp add: u16_def le_mod_geq)
    then show "0 < i_count ((g (slot s x))\<lparr>i_count := u16 (i_count (g (slot s x)) + 65535)\<rparr>)"
      "i_count ((g (slot s x))\<lparr>i_count := u16 (i_count (g (slot s x)) + 65535)\<rparr>) < 65536" using one False c by (simp_all add: g_def)
  qed (use one in \<open>simp_all add: g_def\<close>)
  ultimately show ?thesis by auto
qed

lemma iunlock_ok: "cache_ok s xs \<Longrightarrow> x < NINODE s \<Longrightarrow> 0 < i_count (slot s x) \<Longrightarrow> cache_ok (iunlock x s) xs"
  unfolding iunlock_def using cache_okD(6)[of s xs x] by (intro cache_ok_upd) simp_all

lemma iput_ok:
  assumes "cache_ok s xs" and "x < NINODE s" and "0 < i_count (slot s x)"
  shows "\<exists>effs s' xs'. iput e x s = Some (effs, s') \<and> cache_ok s' xs' \<and> NINODE s' = NINODE s"
  using irele_ok[OF iunlock_ok[OF assms], of x e] assms by (auto simp: iput_def iunlock_def)

lemma free_list_head: "free_list s xs \<Longrightarrow> ifreeh s = (case xs of [] \<Rightarrow> None | x # _ \<Rightarrow> Some x)"
  using fchain_head[of s Head xs] by (simp add: free_list_def)

text \<open>A free slot taken for an inode that is not in core.\<close>

definition adopt :: "nat \<Rightarrow> nat \<Rightarrow> nat \<Rightarrow> itable \<Rightarrow> itable" where
  "adopt x dev ino s = upd_slot x (\<lambda>i. i\<lparr>i_dev := dev, i_number := ino, i_flag := {ILOCKED}, i_count := i_count i + 1\<rparr>) (take_head x s)"

lemma adopt_slot:
  assumes "cache_ok s (x # xs)"
  shows "y \<noteq> x \<Longrightarrow> core (slot (adopt x dev ino s) y) = core (slot s y)" "NINODE (adopt x dev ino s) = NINODE s"
    "core (slot (adopt x dev ino s) x) = core ((slot s x)\<lparr>i_dev := dev, i_number := ino, i_flag := {ILOCKED}, i_count := 1\<rparr>)"
proof -
  have h: "core (slot (take_head x s) z) = core (slot s z)" "NINODE (take_head x s) = NINODE s" for z using take_head_core[of s x] by (simp_all add: same_core_def)
  have "i_count (slot s x) = 0" using cache_okD(3)[OF assms, of x] by simp
  then have "i_count (slot (take_head x s) x) = 0" using same_coreD(4)[OF take_head_core] by simp
  then show "core (slot (adopt x dev ino s) x) = core ((slot s x)\<lparr>i_dev := dev, i_number := ino, i_flag := {ILOCKED}, i_count := 1\<rparr>)"
    using h(1)[of x] by (simp add: adopt_def core_def)
  show "y \<noteq> x \<Longrightarrow> core (slot (adopt x dev ino s) y) = core (slot s y)" "NINODE (adopt x dev ino s) = NINODE s" using h by (simp_all add: adopt_def)
qed

lemma adopt_ok:
  assumes ok: "cache_ok s (x # xs)" and n: "ifind dev ino s = None"
  shows "cache_ok (adopt x dev ino s) xs" "x < NINODE s"
proof -
  note ok' = cache_okD[OF ok]
  show xN: "x < NINODE s" using ok'(3)[of x] by simp
  let ?s = "adopt x dev ino s"
  note a = adopt_slot[OF ok, where dev = dev and ino = ino]
  have new: "i_dev (slot ?s x) = dev" "i_number (slot ?s x) = ino" "i_count (slot ?s x) = 1" using a(3) by (simp_all add: core_def)
  have old: "i_dev (slot ?s y) = i_dev (slot s y)" "i_number (slot ?s y) = i_number (slot s y)" "i_count (slot ?s y) = i_count (slot s y)"
    "i_flag (slot ?s y) = i_flag (slot s y)" if "y \<noteq> x" for y using a(1)[OF that] by (simp_all add: core_def)
  have d: "x \<notin> set xs" using ok'(1) by (simp add: free_list_def)
  have "free_list ?s xs" unfolding adopt_def by (rule free_list_upd[OF take_head_ok[OF ok'(1)] d])
  moreover have "books ?s xs"
  proof (rule booksI)
    have absent: "\<not> (ino = i_number (slot s y) \<and> dev = i_dev (slot s y))" if "y < NINODE s" for y using ifind_cases[OF n] that by simp
    show "unique_inodes ?s"
      unfolding unique_inodes_def a(2)
    proof (intro allI impI)
      fix y z assume yz: "y < NINODE s" "z < NINODE s" "i_number (slot ?s y) \<noteq> 0" "i_number (slot ?s y) = i_number (slot ?s z)" "i_dev (slot ?s y) = i_dev (slot ?s z)"
      consider "y = x" "z = x" | "y = x" "z \<noteq> x" | "y \<noteq> x" "z = x" | "y \<noteq> x" "z \<noteq> x" by blast
      then show "y = z"
      proof cases
        case 2
        then show ?thesis using yz absent[OF yz(2)] new old(1,2)[of z] by simp
      next
        case 3
        then show ?thesis using yz absent[OF yz(1)] new old(1,2)[of y] by simp
      next
        case 4
        then show ?thesis using ok'(4) yz old unfolding unique_inodes_def by simp
      qed simp
    qed
    show "y \<in> set xs \<longleftrightarrow> y < NINODE ?s \<and> i_count (slot ?s y) = 0" for y
      using ok'(3)[of y] d new old(3)[of y] a(2) by (cases "y = x") simp_all
    show "i_count (slot ?s y) < 65536 \<and> (i_count (slot ?s y) = 0 \<longrightarrow> i_flag (slot ?s y) = {})" if "y < NINODE ?s" for y
      using ok'(5,6)[of y] that new old(3,4)[of y] a(2) by (cases "y = x") simp_all
  qed
  ultimately show "cache_ok ?s xs" by (simp add: cache_ok_def)
qed

lemma iget_new_ok:
  assumes ok: "cache_ok s xs" and n: "ifind dev ino s = None"
  shows "\<exists>r effs s' xs'. iget_new e dev ino s = Some (r, effs, s') \<and> cache_ok s' xs' \<and> NINODE s' = NINODE s \<and> r \<noteq> Panic"
proof (cases xs)
  case Nil
  then have "ifreeh s = None" using free_list_head[OF cache_okD(1)[OF ok]] by simp
  then show ?thesis using ok by (auto simp: iget_new_def)
next
  case (Cons x ys)
  note ok1 = ok[unfolded Cons]
  let ?s = "adopt x dev ino s"
  have h: "ifreeh s = Some x" "i_count (slot s x) = 0" using free_list_head[OF cache_okD(1)[OF ok1]] cache_okD(3)[OF ok1, of x] by simp_all
  note A = adopt_ok[OF ok1 n] adopt_slot[OF ok1, where dev = dev and ino = ino]
  have one: "i_count (slot ?s x) = 1" using A(5) by (simp add: core_def)
  show ?thesis
  proof (cases "unreadable e dev (itod ino) \<or> bad_flags e dev ino")
    case True
    have z: "cache_ok (upd_slot x (\<lambda>i. i\<lparr>i_number := 0\<rparr>) ?s) ys" by (rule cache_ok_upd[OF A(1)]) (use A(2,4) one in simp_all)
    obtain effs s' xs' where "iput e x (upd_slot x (\<lambda>i. i\<lparr>i_number := 0\<rparr>) ?s) = Some (effs, s')" "cache_ok s' xs'" "NINODE s' = NINODE s"
      using iput_ok[OF z, of x e] A(2,4) one by auto
    then show ?thesis using h True by (auto simp: iget_new_def adopt_def Let_def)
  next
    case False
    obtain m k r where d: "dinode e dev ino = (m, k, r)" by (metis prod_cases3)
    have "cache_ok (upd_slot x (\<lambda>i. i\<lparr>i_mode := m, i_nlink := k, i_rdev := r\<rparr>) ?s) ys" by (rule cache_ok_upd[OF A(1)]) (use A(2,4) one in simp_all)
    moreover have "iget_new e dev ino s = Some (Got x, [], upd_slot x (\<lambda>i. i\<lparr>i_mode := m, i_nlink := k, i_rdev := r\<rparr>) ?s)"
      using h False d by (simp add: iget_new_def adopt_def Let_def)
    ultimately show ?thesis using A(4) by auto
  qed
qed

definition bounded :: "itable \<Rightarrow> bool" where
  "bounded s \<longleftrightarrow> (\<forall>x<NINODE s. i_count (slot s x) < 65535)"

lemma want_ok: "cache_ok s xs \<Longrightarrow> x < NINODE s \<Longrightarrow> ILOCKED \<in> i_flag (slot s x) \<Longrightarrow> cache_ok (upd_slot x (\<lambda>i. i\<lparr>i_flag := insert IWANT (i_flag i)\<rparr>) s) xs"
proof -
  assume a: "cache_ok s xs" "x < NINODE s" "ILOCKED \<in> i_flag (slot s x)"
  then have "i_count (slot s x) \<noteq> 0" using cache_okD(5)[OF a(1,2)] by auto
  then show ?thesis using a(2) cache_okD(6)[OF a(1,2)] by (intro cache_ok_upd[OF a(1)]) simp_all
qed

declare iget.simps [simp del]

definition iget_keeps :: "(iget_result \<times> effect list \<times> itable) option \<Rightarrow> nat \<Rightarrow> bool" where
  "iget_keeps r n \<longleftrightarrow> (\<exists>res effs s' xs'. r = Some (res, effs, s') \<and> cache_ok s' xs' \<and> NINODE s' = n)"

lemma iget_keepsI: "cache_ok s' xs' \<Longrightarrow> NINODE s' = n \<Longrightarrow> iget_keeps (Some (res, effs, s')) n"
  by (auto simp: iget_keeps_def)

lemma iget_step:
  assumes ok: "cache_ok s xs" and b: "bounded s" and rec: "\<And>n d. fuel = Suc n \<Longrightarrow> iget_keeps (iget n e d root_ino s) (NINODE s)"
  shows "iget_keeps (iget fuel e dev ino s) (NINODE s)"
proof (cases "ifind dev ino s")
  case None
  then show ?thesis using iget_new_ok[OF ok None, of e] by (auto simp: iget.simps[of fuel] iget_keeps_def)
next
  case (Some x)
  have x: "x < NINODE s" using ifind_cases[OF Some] by simp
  consider (locked) "ILOCKED \<in> i_flag (slot s x)" | (mnt) "ILOCKED \<notin> i_flag (slot s x)" "IMOUNT \<in> i_flag (slot s x)"
    | (there) "ILOCKED \<notin> i_flag (slot s x)" "IMOUNT \<notin> i_flag (slot s x)" by blast
  then show ?thesis
  proof cases
    case locked
    then show ?thesis using Some iget_keepsI[OF want_ok[OF ok x locked]] by (simp add: iget.simps[of fuel])
  next
    case mnt
    then show ?thesis
      using Some rec iget_keepsI[OF ok refl] by (auto simp: iget.simps[of fuel] split: option.splits nat.splits)
  next
    case there
    obtain s' where "grab x s = Some s'" "cache_ok s' (filter (\<lambda>y. y \<noteq> x) xs)" "NINODE s' = NINODE s"
      using grab_ok[OF ok x] b x by (auto simp: bounded_def)
    then show ?thesis using Some there iget_keepsI by (simp add: iget.simps[of fuel])
  qed
qed

lemma iget_ok: "cache_ok s xs \<Longrightarrow> bounded s \<Longrightarrow> iget_keeps (iget fuel e dev ino s) (NINODE s)"
proof (induction fuel arbitrary: dev ino)
  case 0
  then show ?case using iget_step[OF 0, of 0 e dev ino] by simp
next
  case (Suc n)
  show ?case by (rule iget_step[OF Suc.prems]) (use Suc.IH[OF Suc.prems] in simp)
qed

lemma iflush_loop_ok: "cache_ok s xs \<Longrightarrow> iflush_loop dev ip n s = (r, s') \<Longrightarrow> cache_ok s' xs \<and> NINODE s' = NINODE s"
proof (induction dev ip n s rule: iflush_loop.induct)
  case (1 dev ip n s)
  show ?case
  proof (cases "ip < NINODE s \<and> i_dev (slot s ip) = dev \<and> i_count (slot s ip) = 0")
    case True
    let ?s = "upd_slot ip (\<lambda>i. i\<lparr>i_number := 0\<rparr>) s"
    note ok = cache_okD[OF 1(3)]
    have "free_list ?s xs" by (rule free_list_upd_core[OF ok(1)]) simp_all
    moreover have "books ?s xs"
    proof (rule booksI)
      show "unique_inodes ?s" using ok(4) unfolding unique_inodes_def by (auto split: if_splits)
      show "y \<in> set xs \<longleftrightarrow> y < NINODE ?s \<and> i_count (slot ?s y) = 0" for y using ok(3)[of y] by simp
      show "i_count (slot ?s y) < 65536 \<and> (i_count (slot ?s y) = 0 \<longrightarrow> i_flag (slot ?s y) = {})" if "y < NINODE ?s" for y
        using ok(5,6)[of y] that by (cases "y = ip") simp_all
    qed
    ultimately have "cache_ok ?s xs" by (simp add: cache_ok_def)
    then show ?thesis using 1(1)[of "slot s ip"] True 1(4) by (auto simp: iflush_loop.simps[of dev ip n s])
  next
    case False
    then show ?thesis using 1(2)[of "slot s ip"] 1(3,4) by (auto simp: iflush_loop.simps[of dev ip n s] Let_def split: if_splits)
  qed
qed

text \<open>The table as \<open>ihinit\<close> leaves it.\<close>

lemma ihinit_loop_ok:
  "free_list s [0..<ip] \<Longrightarrow> 0 < ip \<Longrightarrow> ip \<le> NINODE s \<Longrightarrow> (\<forall>y. core (slot s y) = core blank) \<Longrightarrow> (\<forall>y\<ge>ip. i_freef (slot s y) = None)
    \<Longrightarrow> free_list (ihinit_loop ip s) [0..<NINODE s] \<and> (\<forall>y. core (slot (ihinit_loop ip s) y) = core blank) \<and> NINODE (ihinit_loop ip s) = NINODE s"
proof (induction ip s rule: ihinit_loop.induct)
  case (1 ip s)
  show ?case
  proof (cases "ip < NINODE s")
    case False
    then have "ihinit_loop ip s = s" by (subst ihinit_loop.simps) simp
    moreover have "ip = NINODE s" using False 1(4) by simp
    ultimately show ?thesis using 1(2,5) by simp
  next
    case True
    have tl: "ifreet s = Freef (ip - 1)" using 1(2,3) by (simp add: free_list_def)
    have hd: "ifreeh s = Some 0" using free_list_head[OF 1(2)] 1(3) by (simp add: upt_conv_Cons)
    define s1 where "s1 = (upd_slot ip (\<lambda>i. i\<lparr>i_freeb := Freef (ip - 1)\<rparr>) (upd_slot (ip - 1) (\<lambda>i. i\<lparr>i_freef := Some ip\<rparr>) s))\<lparr>ifreet := Freef ip\<rparr>"
    have run: "ihinit_loop ip s = ihinit_loop (ip + 1) s1" using True tl by (simp add: ihinit_loop.simps[of ip s] Let_def s1_def)
    obtain s2 where s2: "append_free ip s = Some s2" "free_list s2 ([0..<ip] @ [ip])" using append_free_ok[OF 1(2), of ip] by auto
    have "s2 = (upd_slot ip (\<lambda>i. i\<lparr>i_freef := None\<rparr>) (upd_slot ip (\<lambda>i. i\<lparr>i_freeb := Freef (ip - 1)\<rparr>) (upd_slot (ip - 1) (\<lambda>i. i\<lparr>i_freef := Some ip\<rparr>) s)))\<lparr>ifreet := Freef ip\<rparr>"
      using s2(1) hd tl by (simp add: append_free_def set_link_def)
    then have eq: "slot s1 y = (if y = ip then (slot s2 y)\<lparr>i_freef := i_freef (slot s ip)\<rparr> else slot s2 y)" "ifreeh s1 = ifreeh s2" "ifreet s1 = ifreet s2"
      "i_freef (slot s2 ip) = None" for y
      using 1(3) by (simp_all add: s1_def)
    have up: "[0..<ip + 1] = [0..<ip] @ [ip]" by simp
    have "free_list s1 [0..<ip + 1]" unfolding up by (rule free_list_frame[OF s2(2)]) (use eq 1(6) in simp_all)
    moreover have "\<forall>y. core (slot s1 y) = core blank" using 1(5) by (auto simp: s1_def core_def)
    moreover have "\<forall>y\<ge>ip + 1. i_freef (slot s1 y) = None" using 1(6) by (auto simp: s1_def)
    moreover have "NINODE s1 = NINODE s" by (simp add: s1_def)
    moreover note 1(1)[OF True refl refl]
    ultimately show ?thesis using tl True unfolding run by (simp add: s1_def)
  qed
qed

lemma ihinit_ok:
  assumes "0 < n"
  shows "cache_ok (ihinit n) [0..<n]" "NINODE (ihinit n) = n" "core (slot (ihinit n) y) = core blank"
proof -
  define s0 where "s0 = upd_slot 0 (\<lambda>i. i\<lparr>i_freeb := Head\<rparr>) \<lparr>NINODE = n, slot = (\<lambda>_. blank), ifreeh = Some 0, ifreet = Freef 0\<rparr>"
  have f0: "free_list s0 [0..<1]" by (simp add: free_list_def s0_def blank_def)
  have L: "free_list (ihinit_loop 1 s0) [0..<NINODE s0] \<and> (\<forall>y. core (slot (ihinit_loop 1 s0) y) = core blank) \<and> NINODE (ihinit_loop 1 s0) = NINODE s0"
    by (rule ihinit_loop_ok[OF f0]) (use assms in \<open>auto simp: s0_def core_def blank_def\<close>)
  define s1 where "s1 = ihinit_loop 1 s0"
  have N: "NINODE s0 = n" by (simp add: s0_def)
  have fl: "free_list s1 [0..<n]" "\<And>y. core (slot s1 y) = core blank" "NINODE s1 = n" using L by (simp_all add: s1_def N)
  have i: "ihinit n = upd_slot (n - 1) (\<lambda>i. i\<lparr>i_freef := None\<rparr>) s1" unfolding ihinit_def Let_def s1_def s0_def by (rule refl)
  have split: "[0..<n] = [0..<n - 1] @ [n - 1]" using assms upt_Suc[of 0 "n - 1"] by simp
  have "i_freef (slot s1 (n - 1)) = None"
    using fl(1) unfolding free_list_def split fchain_append by simp
  then have "free_list (ihinit n) [0..<n]" unfolding i by (intro free_list_frame[OF fl(1)]) auto
  moreover show c: "core (slot (ihinit n) y) = core blank" for y using fl(2)[of y] unfolding i by (auto simp: core_def)
  moreover show n: "NINODE (ihinit n) = n" unfolding i by (simp add: fl(3))
  moreover have "i_count (slot (ihinit n) y) = 0" "i_flag (slot (ihinit n) y) = {}" "i_number (slot (ihinit n) y) = 0" for y
    using c[of y] by (simp_all add: core_def blank_def)
  ultimately show "cache_ok (ihinit n) [0..<n]" unfolding cache_ok_def books_def unique_inodes_def by auto
qed

section \<open>Any sequence of calls\<close>

text \<open>
  The steps of the kernel on the table.  The world may be another one at every step.  A reference is given up by one who has it, and
  an inode is changed only by one who has a reference, and then its link \<open>i_freef\<close>, which shares its place with \<open>i_lastr\<close>, may get any value; the number of references stays below the bound that a compile-time assertion of the source
  guarantees.
\<close>

inductive icache_step :: "itable \<Rightarrow> itable \<Rightarrow> bool" where
  Iget: "bounded s \<Longrightarrow> iget fuel e dev ino s = Some (r, effs, s') \<Longrightarrow> icache_step s s'"
| Igrab: "bounded s \<Longrightarrow> x < NINODE s \<Longrightarrow> igrab x s = Some (got, s') \<Longrightarrow> icache_step s s'"
| Iput: "x < NINODE s \<Longrightarrow> 0 < i_count (slot s x) \<Longrightarrow> iput e x s = Some (effs, s') \<Longrightarrow> icache_step s s'"
| Irele: "x < NINODE s \<Longrightarrow> 0 < i_count (slot s x) \<Longrightarrow> irele e x s = Some (effs, s') \<Longrightarrow> icache_step s s'"
| Ilock: "x < NINODE s \<Longrightarrow> 0 < i_count (slot s x) \<Longrightarrow> ilock_inode x s = (got, s') \<Longrightarrow> icache_step s s'"
| Iunlock: "x < NINODE s \<Longrightarrow> 0 < i_count (slot s x) \<Longrightarrow> icache_step s (iunlock x s)"
| Change: "x < NINODE s \<Longrightarrow> 0 < i_count (slot s x) \<Longrightarrow> icache_step s (upd_slot x (\<lambda>i. i\<lparr>i_mode := m, i_nlink := k, i_rdev := r, i_flag := fl, i_freef := lastr\<rparr>) s)"
| Iflush: "iflush dev s = (r, s') \<Longrightarrow> icache_step s s'"

lemma igrab_ok:
  assumes "cache_ok s xs" and "bounded s" and "x < NINODE s"
  shows "\<exists>got s' xs'. igrab x s = Some (got, s') \<and> cache_ok s' xs' \<and> NINODE s' = NINODE s"
proof (cases "ILOCKED \<in> i_flag (slot s x)")
  case True
  then show ?thesis using want_ok[OF assms(1,3) True] by (auto simp: igrab_def)
next
  case False
  then show ?thesis using grab_ok[OF assms(1,3)] assms(2,3) by (auto simp: igrab_def bounded_def)
qed

lemma istep_ok: "icache_step s s' \<Longrightarrow> cache_ok s xs \<Longrightarrow> \<exists>xs'. cache_ok s' xs' \<and> NINODE s' = NINODE s"
proof (induction rule: icache_step.induct)
  case (Iget s fuel e dev ino r effs s')
  then show ?case using iget_ok[of s xs fuel e dev ino] by (auto simp: iget_keeps_def)
next
  case (Igrab s x got s')
  then show ?case using igrab_ok[of s xs x] by auto
next
  case (Iput x s e effs s')
  then show ?case using iput_ok[of s xs x e] by auto
next
  case (Irele x s e effs s')
  then show ?case using irele_ok[of s xs x e] by auto
next
  case (Ilock x s got s')
  have lk: "cache_ok (upd_slot x (\<lambda>i. i\<lparr>i_flag := insert ILOCKED (i_flag i)\<rparr>) s) xs"
    using Ilock cache_okD(6)[OF Ilock(4,1)] by (intro cache_ok_upd) simp_all
  show ?case using Ilock lk want_ok[OF Ilock(4,1)] by (auto simp: ilock_inode_def split: if_splits)
next
  case (Iunlock x s)
  then show ?case using iunlock_ok[of s xs x] by (auto simp: iunlock_def)
next
  case (Change x s lastr fl r k m)
  have "cache_ok (upd_slot x (\<lambda>i. i\<lparr>i_mode := m, i_nlink := k, i_rdev := r, i_flag := fl, i_freef := lastr\<rparr>) s) xs"
    using Change cache_okD(6)[OF Change(3,1)] by (intro cache_ok_upd) simp_all
  then show ?case by auto
next
  case (Iflush dev s r s')
  then show ?case using iflush_loop_ok[of s xs dev 0 0 r s'] by (auto simp: iflush_def)
qed

lemma isteps_ok: "icache_step\<^sup>*\<^sup>* s s' \<Longrightarrow> cache_ok s xs \<Longrightarrow> \<exists>xs'. cache_ok s' xs' \<and> NINODE s' = NINODE s"
proof (induction rule: rtranclp_induct)
  case (step y z)
  then obtain ys where "cache_ok y ys" "NINODE y = NINODE s" by blast
  then show ?case using istep_ok[OF step(2)] by auto
qed auto

text \<open>
  C16.  From start-up on and however the calls follow each other, the table of the inodes in core is coherent: the free list runs, in both
  directions, through exactly the slots without references, each once; an inode of a device is in at most one slot; and
  \<open>iget\<close> never writes through a null link, never stumbles on a referenced inode on the free list, and leaves the table coherent again.
\<close>

theorem icache_coherent:
  assumes "icache_step\<^sup>*\<^sup>* (ihinit n) s" and "0 < n"
  shows "\<exists>xs. free_list s xs \<and> set xs = {x. x < n \<and> i_count (slot s x) = 0} \<and> unique_inodes s \<and> NINODE s = n
    \<and> (bounded s \<longrightarrow> iget_keeps (iget fuel e dev ino s) n)
    \<and> (ifind dev ino s = None \<longrightarrow> (\<exists>r effs s'. iget_new e dev ino s = Some (r, effs, s') \<and> r \<noteq> Panic))"
proof -
  obtain xs where xs: "cache_ok s xs" "NINODE s = n"
    using isteps_ok[OF assms(1) ihinit_ok(1)[OF assms(2)]] ihinit_ok(2)[OF assms(2)] by auto
  then show ?thesis
    using cache_okD(1-4)[OF xs(1)] iget_ok[OF xs(1), of fuel e dev ino] iget_new_ok[OF xs(1), of dev ino e]
    by (intro exI[of _ xs]) (auto simp: books_def)
qed

text \<open>Four slots; inode 5 of device 1 is looked up, given back, and looked up again.\<close>

definition demo_world :: iworld where
  "demo_world = \<lparr>dinode = (\<lambda>_ _. (33188, 1, 0)), unreadable = (\<lambda>_ b. b = 9), bad_flags = (\<lambda>_ _. False), fs_ronly = (\<lambda>_. False), mounts = []\<rparr>"

theorem icache_coherent_witness:
  "\<exists>s xs. icache_step\<^sup>*\<^sup>* (ihinit 4) s \<and> free_list s xs \<and> set xs = {x. x < 4 \<and> i_count (slot s x) = 0} \<and> iget_keeps (iget 0 demo_world 1 5 s) 4"
proof -
  have b: "bounded (ihinit 4)" using ihinit_ok(3)[of 4] by (simp add: bounded_def core_def blank_def)
  obtain r effs s where s: "iget 0 demo_world 1 5 (ihinit 4) = Some (r, effs, s)"
    using iget_ok[OF ihinit_ok(1) b, of 0 demo_world 1 5] by (auto simp: iget_keeps_def)
  have n: "ifind 1 5 (ihinit 4) = None"
    using ihinit_ok(3)[of 4] by (simp add: ifind_def find_None_iff core_def blank_def)
  have "icache_step (ihinit 4) s" using icache_step.Iget[OF b s] .
  then have "icache_step\<^sup>*\<^sup>* (ihinit 4) (ihinit 4)" "icache_step\<^sup>*\<^sup>* (ihinit 4) s" by auto
  then show ?thesis using icache_coherent[of 4 "ihinit 4" 0 demo_world 1 5] b by auto
qed

text \<open>
  C27.  What \<open>iget\<close> gives.  An inode in core that is neither locked nor mounted on is found where it is: it gets one more
  reference and the lock, and nothing else changes.  One that is not in core gets the first free slot, with what is on the disk, one reference and the
  lock, and is found there from then on; no other slot changes.  With no free slot the call fails and changes nothing.
\<close>

theorem iget_spec:
  assumes ok: "cache_ok s xs" and b: "bounded s"
  shows "(ifind dev ino s = Some x \<longrightarrow> i_flag (slot s x) \<inter> {ILOCKED, IMOUNT} = {} \<longrightarrow>
      (\<exists>s'. iget fuel e dev ino s = Some (Got x, [], s') \<and> (\<forall>y. y \<noteq> x \<longrightarrow> core (slot s' y) = core (slot s y))
         \<and> core (slot s' x) = core ((slot s x)\<lparr>i_count := i_count (slot s x) + 1, i_flag := insert ILOCKED (i_flag (slot s x))\<rparr>)))
    \<and> (ifind dev ino s = None \<longrightarrow> xs = x # ys \<longrightarrow> \<not> unreadable e dev (itod ino) \<longrightarrow> \<not> bad_flags e dev ino \<longrightarrow> dinode e dev ino = (m, k, r) \<longrightarrow>
      (\<exists>s'. iget fuel e dev ino s = Some (Got x, [], s') \<and> (\<forall>y. y \<noteq> x \<longrightarrow> core (slot s' y) = core (slot s y))
         \<and> core (slot s' x) = (dev, ino, 1, {ILOCKED}, m, k, r) \<and> (ino \<noteq> 0 \<longrightarrow> ifind dev ino s' = Some x)))
    \<and> (ifind dev ino s = None \<longrightarrow> xs = [] \<longrightarrow> iget fuel e dev ino s = Some (Table_Full, [], s))"
proof (intro conjI impI)
  assume f: "ifind dev ino s = Some x" and fl: "i_flag (slot s x) \<inter> {ILOCKED, IMOUNT} = {}"
  have x: "x < NINODE s" using ifind_cases[OF f] by simp
  then have bx: "i_count (slot s x) < 65535" using b by (simp add: bounded_def)
  have "ILOCKED \<notin> i_flag (slot s x)" "IMOUNT \<notin> i_flag (slot s x)" using fl by auto
  then show "\<exists>s'. iget fuel e dev ino s = Some (Got x, [], s') \<and> (\<forall>y. y \<noteq> x \<longrightarrow> core (slot s' y) = core (slot s y))
      \<and> core (slot s' x) = core ((slot s x)\<lparr>i_count := i_count (slot s x) + 1, i_flag := insert ILOCKED (i_flag (slot s x))\<rparr>)"
    using grab_ok[OF ok x bx] f by (auto simp: iget.simps[of fuel])
next
  assume n: "ifind dev ino s = None" and xs: "xs = x # ys" and rd: "\<not> unreadable e dev (itod ino)" "\<not> bad_flags e dev ino" "dinode e dev ino = (m, k, r)"
  note ok1 = ok[unfolded xs]
  note A = adopt_ok[OF ok1 n] adopt_slot[OF ok1, where dev = dev and ino = ino]
  define s' where "s' = upd_slot x (\<lambda>i. i\<lparr>i_mode := m, i_nlink := k, i_rdev := r\<rparr>) (adopt x dev ino s)"
  have h: "ifreeh s = Some x" "i_count (slot s x) = 0" using free_list_head[OF cache_okD(1)[OF ok1]] cache_okD(3)[OF ok1, of x] by simp_all
  have run: "iget fuel e dev ino s = Some (Got x, [], s')" using n h rd by (simp add: iget.simps[of fuel] iget_new_def s'_def adopt_def Let_def)
  have c: "core (slot s' x) = (dev, ino, 1, {ILOCKED}, m, k, r)" using A(5) by (simp add: s'_def core_def)
  have "i_count (slot (adopt x dev ino s) x) = 1" using A(5) by (simp add: core_def)
  then have "cache_ok s' ys" unfolding s'_def by (intro cache_ok_upd[OF A(1)]) (use A(2,4) in simp_all)
  then have "ifind dev ino s' = Some x" if "ino \<noteq> 0"
    using ifind_unique[of s' x] cache_okD(4)[of s' ys] A(2,4) c that by (simp add: s'_def core_def)
  then show "\<exists>s'. iget fuel e dev ino s = Some (Got x, [], s') \<and> (\<forall>y. y \<noteq> x \<longrightarrow> core (slot s' y) = core (slot s y))
      \<and> core (slot s' x) = (dev, ino, 1, {ILOCKED}, m, k, r) \<and> (ino \<noteq> 0 \<longrightarrow> ifind dev ino s' = Some x)"
    using run c A(3) by (intro exI[of _ s']) (simp add: s'_def)
next
  assume n: "ifind dev ino s = None" and xs: "xs = []"
  then have "ifreeh s = None" using free_list_head[OF cache_okD(1)[OF ok]] by simp
  then show "iget fuel e dev ino s = Some (Table_Full, [], s)" using n by (simp add: iget.simps[of fuel] iget_new_def)
qed

theorem iget_spec_witness:
  "\<exists>s'. iget 0 demo_world 1 5 (ihinit 4) = Some (Got 0, [], s') \<and> core (slot s' 0) = (1, 5, 1, {ILOCKED}, 33188, 1, 0) \<and> ifind 1 5 s' = Some 0"
proof -
  have b: "bounded (ihinit 4)" using ihinit_ok(3)[of 4] by (simp add: bounded_def core_def blank_def)
  have n: "ifind 1 5 (ihinit 4) = None"
    using ihinit_ok(3)[of 4] by (simp add: ifind_def find_None_iff core_def blank_def)
  have xs: "[0..<4] = 0 # [1..<4 :: nat]" by (simp add: upt_conv_Cons)
  show ?thesis
    using iget_spec[OF ihinit_ok(1) b, of 1 5 0 0 demo_world "[1..<4]" 33188 1 0] n xs by (auto simp: demo_world_def itod_def)
qed

text \<open>
  C28.  An I/O error in \<open>iget\<close> releases an inode that does not exist.  The slot taken still holds the link count of the inode it held
  before, and its number has been set to 0; when that count is 0, as in a slot never used or one of a deleted file, \<open>iput\<close> takes it for
  an unlinked file: inode 0 of the device is truncated, put on the list of free inodes and written out, and the block of inode 0 is
  block 0, the superblock (here it can be read).
\<close>

theorem iget_error_frees_inode_0:
  assumes "cache_ok s (x # ys)" and "ifind dev ino s = None" and "unreadable e dev (itod ino)" and "i_nlink (slot s x) = 0" and "\<not> fs_ronly e dev" and "\<not> unreadable e dev 0"
  shows "(\<exists>s'. iget fuel e dev ino s = Some (Io_Failed, [Truncate dev 0, Free_Inode dev 0, Write_Inode dev 0], s')) \<and> itod 0 = 0"
proof -
  note ok = assms(1)
  note A = adopt_ok[OF ok assms(2)] adopt_slot[OF ok, where dev = dev and ino = ino]
  have h: "ifreeh s = Some x" "i_count (slot s x) = 0" using free_list_head[OF cache_okD(1)[OF ok]] cache_okD(3)[OF ok, of x] by simp_all
  define s1 where "s1 = iunlock x (upd_slot x (\<lambda>i. i\<lparr>i_number := 0\<rparr>) (adopt x dev ino s))"
  have sx: "i_dev (slot s1 x) = dev" "i_number (slot s1 x) = 0" "i_count (slot s1 x) = 1" "i_nlink (slot s1 x) = 0" "NINODE s1 = NINODE s"
    using A(4,5) assms(4) by (simp_all add: s1_def iunlock_def core_def)
  have "cache_ok (upd_slot x (\<lambda>i. i\<lparr>i_number := 0\<rparr>) (adopt x dev ino s)) ys"
    by (rule cache_ok_upd[OF A(1)]) (use A(2,4,5) in \<open>simp_all add: core_def\<close>)
  then have ok1: "cache_ok s1 ys" unfolding s1_def by (rule iunlock_ok) (use A(2,4,5) in \<open>simp_all add: core_def\<close>)
  have xN: "x < NINODE s1" using A(2) sx(5) by simp
  obtain effs s' where r: "irele e x s1 = Some (effs, s')" using irele_ok[OF ok1 xN, of e] sx(3) by auto
  have "effs = [Truncate dev 0, Free_Inode dev 0, Write_Inode dev 0]"
    using r sx assms(5,6) by (auto simp: irele_def irele_last_def iupdat_def Let_def dirty_def itod_def)
  then have "iget fuel e dev ino s = Some (Io_Failed, [Truncate dev 0, Free_Inode dev 0, Write_Inode dev 0], s')"
    using assms(2,3) h r by (simp add: iget.simps[of fuel] iget_new_def iput_def s1_def adopt_def Let_def)
  then show ?thesis by (simp add: itod_def)
qed

theorem iget_error_frees_inode_0_witness:
  "\<exists>s'. iget 0 demo_world 1 140 (ihinit 4) = Some (Io_Failed, [Truncate 1 0, Free_Inode 1 0, Write_Inode 1 0], s')"
proof -
  have n: "ifind 1 140 (ihinit 4) = None"
    using ihinit_ok(3)[of 4] by (simp add: ifind_def find_None_iff core_def blank_def)
  have xs: "[0..<4] = 0 # [1..<4 :: nat]" by (simp add: upt_conv_Cons)
  have l: "i_nlink (slot (ihinit 4) 0) = 0" using ihinit_ok(3)[of 4 0] by (simp add: core_def blank_def)
  have ok: "cache_ok (ihinit 4) (0 # [1..<4])" using ihinit_ok(1)[of 4] unfolding xs by simp
  show ?thesis
    using iget_error_frees_inode_0[OF ok n, of demo_world 0] l by (simp add: demo_world_def itod_def)
qed

end
