(* ===== verification/Spec2Isabelle.thy ===== *)
theory Spec2Isabelle
  imports Swapmap Swapram_Pool Callout Clist_Queue Proc_Run Exec_Image Fdesc_Run Prot Ufs_Trunc Ufs_Ialloc Ufs_Inode
begin

text \<open>
  A verification of the kernel of DiscoBSD, a descendant of 2.11BSD for microcontrollers without a memory management
  unit, as the configurations for the RP2040 build it.  The C sources are under \<open>src/sys\<close>; the paths below are relative to
  that directory.

  \<^bold>\<open>The program and its model.\<close>  The kernel keeps tables of fixed size in shared memory and works on them in system calls and
  interrupts.  Processes run from one image area; those that do not fit are swapped out, whole, to blocks that a resource map or the
  compressed pool hands out.  A process that waits sleeps on an address; \<open>wakeup\<close> of that address, a signal or a
  timeout makes it runnable, and \<open>swtch\<close> picks the next one by priority.  Files are reached through descriptors, the file table, the
  inodes in core and the block map, down to the free lists in the superblock.

  Every component is explicit state passing: a C structure is a record, an enumeration a datatype, a routine a function from the state
  to the new state.  A routine that could call \<open>panic\<close>, follow a null pointer, leave an array or loop for ever yields
  \<open>Inl\<close> of that fault (theory \<open>Prelude\<close>); a theorem whose conclusion is \<open>Inr\<close> also says that none of them happens.
  Code outside the part modelled (user memory, devices, other drivers) is an argument: what \<open>copyin\<close> answers, which blocks cannot be
  read, what a callout routine does.  The interrupt level is not a part of any state; each routine acts as a whole, as it does
  between \<open>splhigh\<close> and \<open>splx\<close>, and the routines that give up the processor are cut where they do.

  \<^bold>\<open>The theories.\<close>

  \<^item> \<open>Prelude\<close>: faults, unsigned arithmetic at its width, linked lists in a store.
  \<^item> \<open>Segments\<close>: ordered free lists as mathematics (\<open>seg_insert\<close>, \<open>ff_alloc\<close>) and the locale \<open>region_alloc\<close>, the
    contract of an allocator of regions; its lemmas show, for any sequence of allocations and releases, that live and free
    space tile the whole.
  \<^item> \<open>Rmap\<close>, \<open>Rmap_Malloc3\<close>, \<open>Swapmap\<close>: \<open>malloc\<close>, \<open>mfree\<close>, \<open>malloc3\<close>, \<open>malloc3_contiguous\<close> and
    \<open>malloc3_contiguous_next\<close> of \<open>kern/subr_rmap.c\<close>, with \<open>struct map\<close> of \<open>sys/map.h\<close>, the map that \<open>startup\<close> fills
    (\<open>kern/init_main.c\<close>) and the image sizes of \<open>kern/vm_swap.c\<close>.  The locale is interpreted as \<open>rmap\<close> on
    \<open>malloc\<close>/\<open>mfree\<close> and as \<open>image\<close> on the allocator of swap images.
  \<^item> \<open>Swapram_Pool\<close>: every routine of \<open>arch/rp2040/rp2040/swapram_pool.c\<close>; the interpretation \<open>pool\<close>.
  \<^item> \<open>Callout\<close>: \<open>timeout\<close>, \<open>untimeout\<close>, the queue and the time of day in \<open>hardclock\<close>, and \<open>softclock\<close> of
    \<open>kern/kern_clock.c\<close>; the ticks made up after a masked window in \<open>arch/rp2040/rp2040/clock_catchup.h\<close>.  The store of callout structures is
    refined to a list of (ticks left, event); the locale \<open>timer_queue\<close>, interpreted as \<open>callout\<close>, gives the times at which
    events are due.
  \<^item> \<open>Clist\<close>, \<open>Clist_Queue\<close>: \<open>getc\<close>, \<open>putc\<close>, \<open>unputc\<close>, \<open>q_to_b\<close>, \<open>b_to_q\<close>, \<open>catq\<close> and the others of
    \<open>kern/tty_subr.c\<close> on blocks of 28 characters; the locale \<open>byte_queue\<close>, interpreted as \<open>clist_queue\<close>.
  \<^item> \<open>Sched\<close>, \<open>Sched_Queues\<close>, \<open>Sched_Run\<close>: \<open>struct proc\<close>, \<open>kern/kern_proc.c\<close>, sleeping, waking and switching of
    \<open>kern/kern_synch.c\<close>, the swapper's choice in \<open>sched\<close> of \<open>kern/vm_sched.c\<close> and the scheduling effect of
    \<open>swapin\<close> and \<open>swapout\<close>.  \<open>queues_ok\<close> is the invariant of the queues; \<open>sched_step\<close> the step relation; the locale
    \<open>sleep_wakeup\<close>, interpreted as \<open>sleepers\<close> for every channel but the swapper's, says that no wakeup is lost.
  \<^item> \<open>Signal\<close>, \<open>Signal_Props\<close>: \<open>psignal\<close>, \<open>kill\<close>, \<open>killpg\<close>, \<open>postsig\<close> and \<open>execsigs\<close> of
    \<open>kern/kern_sig.c\<close>, the calls of \<open>kern/kern_sig2.c\<close> and the mask part of \<open>sigreturn\<close>.  The properties are in
    \<open>Sched_Run\<close>, with those of the scheduler.
  \<^item> \<open>Priority\<close>: \<open>getpriority\<close>, \<open>setpriority\<close> (\<open>kern/kern_resource.c\<close>) and \<open>schedcpu\<close>.
  \<^item> \<open>Proc_Life\<close>, \<open>Proc_Family\<close>, \<open>Proc_Run\<close>: \<open>newproc\<close> and \<open>fork1\<close> of \<open>kern/kern_fork.c\<close>, \<open>exit\<close> and
    \<open>wait1\<close> of \<open>kern/kern_exit.c\<close>.  \<open>family\<close> is the invariant of the process table: lists, hash chains, parents; \<open>kin\<close>
    relates states in which nobody was born, died or was waited for; \<open>life_step\<close> are the steps from boot on.
  \<^item> \<open>Crc32\<close>, \<open>Hsx\<close>, \<open>Hsx_Stream\<close>, \<open>Exec_Image\<close>: the packed executables.  \<open>kern/subr_crc32.c\<close>, the decoder
    (\<open>arch/rp2040/rp2040/hsx_decoder.c\<close>, \<open>hsx_stream.c\<close>), the header checks of \<open>sys/exec_aout.h\<close> and
    \<open>sys/exec_hsaout.h\<close> and the restoring of clean text.  References: the bitwise CRC of the IEEE polynomial, and a decoding of
    the whole bit stream into literals and back references.
  \<^item> \<open>Fdesc\<close>, \<open>Fdesc_Refs\<close>, \<open>Fdesc_Calls\<close>, \<open>Fdesc_Run\<close>: \<open>kern/kern_descrip.c\<close>, the locks of
    \<open>kern/sys_inode.c\<close> and the descriptor part of \<open>open\<close>, \<open>pipe\<close>, \<open>fork\<close>, \<open>exec\<close> and \<open>exit\<close>; counts and locks over any
    sequence of calls of any number of processes.
  \<^item> \<open>Prot\<close>: \<open>kern/kern_prot.c\<close>, \<open>kern/kern_prot2.c\<close>, the set-id rules of \<open>execve\<close>, and \<open>access\<close>, \<open>chmod1\<close> and
    \<open>chown1\<close>.
  \<^item> \<open>Ufs_Alloc\<close>: \<open>balloc\<close> and \<open>free\<close> of \<open>kern/ufs_alloc.c\<close>.  \<open>flist\<close> relates the superblock and its link
    blocks to a list; the locale \<open>block_store\<close>, interpreted as \<open>ufs_blocks\<close>, is what the theories above it use.
  \<^item> \<open>Ufs_Bmap\<close>, \<open>Ufs_Trunc\<close>: \<open>bmap\<close> of \<open>kern/ufs_bmap.c\<close>, \<open>itrunc\<close> and \<open>indirtrunc\<close> of \<open>kern/ufs_inode.c\<close>; a
    file is a function from paths to blocks, and \<open>tree_ok\<close> says that no block is at two places or free.
  \<^item> \<open>Ufs_Ialloc\<close>: \<open>ialloc\<close> and \<open>ifree\<close>, with what a failing \<open>iget\<close> and the release of an orphan do to the cache of
    free inodes in the superblock.
  \<^item> \<open>Ufs_Inode\<close>: \<open>ihinit\<close>, \<open>iget\<close>, \<open>igrab\<close>, \<open>iput\<close>, \<open>irele\<close> and \<open>iflush\<close>; the doubly linked free list with its
    pointers to links.

  \<^bold>\<open>What the theorems show.\<close>  Invariants over any sequence of operations: space is neither lost nor shared (swap map, pool, disk
  blocks, inodes, files), processes are neither lost nor stuck, queues and tables stay sound, counts are exact, no
  privilege is gained.  Exact effects of single routines, on every branch: \<open>malloc\<close>, \<open>mfree\<close>, \<open>wakeup\<close>, \<open>swtch\<close>,
  \<open>psignal\<close>, \<open>fork\<close>, \<open>iget\<close>, \<open>itrunc\<close>, the header checks.  Round trips: \<open>malloc\<close> and \<open>mfree\<close>, a block written and
  found again, \<open>exit\<close> and \<open>wait\<close>, packing and expanding.  Equivalences with a reference: the CRC, the decoder, the
  made-up ticks.  And the flaws found on the way, each as a theorem over all the states in which it shows: \<open>swapram_pool_free\<close> with a
  sum that wraps, \<open>open\<close> of \<open>/dev/fd\<close>, \<open>iget\<close> after a read error, negative nice values and the decay in
  \<open>updatepri\<close>, the group of a dead child in \<open>wait1\<close>, and a process id given out twice by \<open>newproc\<close>.

  \<^bold>\<open>Bounds.\<close>  Loops over linked structures carry a fuel that is one more than the structures there are, and running out of
  it is the fault \<open>Hang\<close>, which the theorems exclude: \<open>call_fuel = NCALL + 1\<close> for the callouts; \<open>scan_fuel\<close>, quadratic in
  the length of the sleep queue, because \<open>wakeup\<close> starts again after each process it wakes; \<open>inferior\<close> has \<open>NPROC + 1\<close> turns, enough in
  a table without cycles, which the invariant of the process table gives.  \<open>wakeup\<close> and \<open>psignal\<close> call themselves at most once inside a
  call, so their depth is 2.  \<open>ialloc\<close> searches the disk at most once, so its loop has two turns.  The decoder has one turn per output
  byte and one to end.  The turns of \<open>iget\<close> over mounted file systems are an argument, and its properties hold for every number of
  them.  The search for a process id is a partial function, and \<open>newpid_total\<close> shows that it ends.  \<open>ialloc_pop\<close> and the scan
  of the inode blocks are total, with a measure.

  \<^bold>\<open>Configurations.\<close>  \<open>COMPACT_SWAPMAP\<close> for the resource maps; the inode table of the PicoCalc kernels; the process life cycle
  without \<open>SWAPRAM\<close>, as in \<open>PICO_UART\<close>; neither \<open>DIAGNOSTIC\<close> nor \<open>UCB_METER\<close>.  \<open>char\<close> is unsigned, as on ARM.

  \<^bold>\<open>Not modelled.\<close>  Path names and the calls that rest on them, the buffer cache (its errors are arguments), reading and writing of files
  and pipes, the line discipline of terminals, the building of a process image by \<open>exec\<close>, \<open>vfork\<close>, tracing, \<open>issignal\<close>,
  interval timers and limits, the transfer of images and everything on device registers; crashes between two
  writes; messages and statistics; the other ports, user programs and vendored code.  Callout times, the time of day and process
  ids are unbounded integers where the code has signed ones, whose overflow C leaves undefined; the theorems state the bounds where they matter.
\<close>

end
